(* ===== verification/Orchid_Prelude.thy ===== *)
theory Orchid_Prelude
  imports Main "HOL-Library.Word" "HOL-Library.Multiset"
begin

text \<open>
  Shared vocabulary of the development: the machine integer types of the Rust sources, the
  bslice and vector operations of the Rust standard library that several components use
  (\<open>iter().position\<close>, \<open>Vec::remove\<close>, \<open>Vec::insert\<close>, \<open>slice::swap\<close>, \<open>copy_from_slice\<close>,
  \<open>to_le_bytes\<close>), saturating arithmetic, and the generic lemmas about them.  The facts that the
  component proofs use over and over are collected in \<open>vec_simps\<close> and \<open>le_simps\<close>.
\<close>

named_theorems vec_simps \<open>lengths, elements and indices of the vector operations\<close>
named_theorems le_simps \<open>little-endian byte encodings\<close>

type_synonym u8 = "8 word"
type_synonym u16 = "16 word"
type_synonym u32 = "32 word"
type_synonym u64 = "64 word"
type_synonym bytes = "u8 list"

section \<open>Vectors\<close>

text \<open>\<open>iter().position(p)\<close>: the index of the first element that satisfies \<open>p\<close>.\<close>

primrec position :: "('a \<Rightarrow> bool) \<Rightarrow> 'a list \<Rightarrow> nat option" where
  "position P [] = None"
| "position P (x # xs) = (if P x then Some 0 else map_option Suc (position P xs))"

text \<open>\<open>Vec::remove(i)\<close> and \<open>Vec::insert(i, x)\<close>, for indices in range.\<close>

definition remove_at :: "nat \<Rightarrow> 'a list \<Rightarrow> 'a list" where
  "remove_at i xs = take i xs @ drop (Suc i) xs"

definition insert_at :: "nat \<Rightarrow> 'a \<Rightarrow> 'a list \<Rightarrow> 'a list" where
  "insert_at i x xs = take i xs @ x # drop i xs"

text \<open>\<open>slice::swap(i, j)\<close>, for indices in range.\<close>

definition swap_at :: "nat \<Rightarrow> nat \<Rightarrow> 'a list \<Rightarrow> 'a list" where
  "swap_at i j xs = xs[i := xs ! j, j := xs ! i]"

text \<open>\<open>slice::get(i)\<close>.\<close>

definition get_at :: "'a list \<Rightarrow> nat \<Rightarrow> 'a option" where
  "get_at xs i = (if i < length xs then Some (xs ! i) else None)"

text \<open>\<open>&xs[a..b]\<close>, for bounds in range, and \<open>buf[off..off + src.len()].copy_from_slice(src)\<close>.\<close>

definition bslice :: "nat \<Rightarrow> nat \<Rightarrow> 'a list \<Rightarrow> 'a list" where
  "bslice a b xs = take (b - a) (drop a xs)"

definition copy_into :: "'a list \<Rightarrow> nat \<Rightarrow> 'a list \<Rightarrow> 'a list" where
  "copy_into buf off src = take off buf @ src @ drop (off + length src) buf"

lemma position_Some_iff:
  "position P xs = Some i \<longleftrightarrow> i < length xs \<and> P (xs ! i) \<and> (\<forall>j<i. \<not> P (xs ! j))"
proof (induction xs arbitrary: i)
  case Nil
  then show ?case by simp
next
  case (Cons x xs)
  show ?case
  proof (cases i)
    case 0
    then show ?thesis by (auto split: if_splits)
  next
    case (Suc k)
    then show ?thesis
      using Cons.IH [of k] by (auto simp: less_Suc_eq_0_disj)
  qed
qed

lemma position_None_iff: "position P xs = None \<longleftrightarrow> (\<forall>x \<in> set xs. \<not> P x)"
  by (induction xs) auto

lemma mod_Suc_Suc_0: "n mod Suc (Suc 0) = n mod 2"
  by (simp add: numeral_2_eq_2)

lemma position_SomeD [dest]:
  "position P xs = Some i \<Longrightarrow> i < length xs \<and> P (xs ! i)"
  by (simp add: position_Some_iff)

lemma position_ex: "x \<in> set xs \<Longrightarrow> P x \<Longrightarrow> \<exists>i. position P xs = Some i"
  by (cases "position P xs") (auto simp: position_None_iff)

lemma position_distinct:
  "distinct xs \<Longrightarrow> i < length xs \<Longrightarrow> position (\<lambda>x. x = xs ! i) xs = Some i"
  by (auto simp: position_Some_iff nth_eq_iff_index_eq)

lemma length_remove_at [vec_simps]: "i < length xs \<Longrightarrow> length (remove_at i xs) = length xs - 1"
  by (simp add: remove_at_def)

lemma length_insert_at [vec_simps]: "i \<le> length xs \<Longrightarrow> length (insert_at i x xs) = Suc (length xs)"
  by (simp add: insert_at_def)

lemma length_swap_at [simp]: "length (swap_at i j xs) = length xs"
  by (simp add: swap_at_def)

lemma insert_at_not_Nil [simp]: "insert_at i x xs \<noteq> []"
  by (simp add: insert_at_def)

lemma swap_at_Nil_iff [simp]: "swap_at i j xs = [] \<longleftrightarrow> xs = []"
  by (simp add: swap_at_def)

lemma mset_remove_at [vec_simps]:
  "i < length xs \<Longrightarrow> mset (remove_at i xs) = mset xs - {# xs ! i #}"
  by (metis (no_types, lifting) remove_at_def add_mset_remove_trivial append_take_drop_id
      id_take_nth_drop mset_append mset.simps(2) union_mset_add_mset_right)

lemma mset_insert_at [vec_simps]: "mset (insert_at i x xs) = add_mset x (mset xs)"
  by (metis append_take_drop_id insert_at_def mset.simps(2) mset_append union_mset_add_mset_right)

lemma mset_swap_at [vec_simps]:
  "i < length xs \<Longrightarrow> j < length xs \<Longrightarrow> mset (swap_at i j xs) = mset xs"
  by (simp add: swap_at_def mset_swap)

lemma set_insert_at [vec_simps]: "set (insert_at i x xs) = insert x (set xs)"
  by (metis mset_insert_at set_mset_add_mset_insert set_mset_mset)

lemma set_swap_at [vec_simps]:
  "i < length xs \<Longrightarrow> j < length xs \<Longrightarrow> set (swap_at i j xs) = set xs"
  by (metis mset_swap_at set_mset_mset)

lemma distinct_swap_at [vec_simps]:
  "i < length xs \<Longrightarrow> j < length xs \<Longrightarrow> distinct (swap_at i j xs) = distinct xs"
  by (intro mset_eq_imp_distinct_iff mset_swap_at)

lemma distinct_insert_at [vec_simps]:
  "distinct (insert_at i x xs) \<longleftrightarrow> distinct xs \<and> x \<notin> set xs"
proof -
  have "distinct (insert_at i x xs) = distinct (x # xs)"
    by (metis mset.simps(2) mset_eq_imp_distinct_iff mset_insert_at)
  then show ?thesis by auto
qed

lemma set_remove_at_subset: "set (remove_at i xs) \<subseteq> set xs"
  by (auto simp: remove_at_def dest: in_set_takeD in_set_dropD)

lemma distinct_remove_at: "distinct xs \<Longrightarrow> distinct (remove_at i xs)"
  by (auto simp: remove_at_def set_take_disj_set_drop_if_distinct)

lemma set_remove_at_distinct [vec_simps]:
  assumes "distinct xs" and "i < length xs"
  shows "set (remove_at i xs) = set xs - {xs ! i}"
proof -
  have eq: "xs = take i xs @ xs ! i # drop (Suc i) xs"
    using assms(2) by (rule id_take_nth_drop)
  have "set xs = insert (xs ! i) (set (take i xs) \<union> set (drop (Suc i) xs))"
    by (subst eq) simp
  moreover have "xs ! i \<notin> set (take i xs) \<union> set (drop (Suc i) xs)"
    using assms(1) by (subst (asm) eq) simp
  ultimately show ?thesis by (auto simp: remove_at_def)
qed

lemma nth_remove_at [vec_simps]:
  "i < length xs \<Longrightarrow> k < length xs - 1 \<Longrightarrow> remove_at i xs ! k = (if k < i then xs ! k else xs ! Suc k)"
  by (auto simp: remove_at_def nth_append min_def)

lemma nth_insert_at [vec_simps]:
  "i \<le> length xs \<Longrightarrow> k \<le> length xs \<Longrightarrow>
   insert_at i x xs ! k = (if k < i then xs ! k else if k = i then x else xs ! (k - 1))"
  by (auto simp: insert_at_def nth_append min_def nth_Cons')

lemma nth_swap_at [vec_simps]:
  "i < length xs \<Longrightarrow> j < length xs \<Longrightarrow>
   swap_at i j xs ! k = (if k = j then xs ! i else if k = i then xs ! j else xs ! k)"
  by (auto simp: swap_at_def nth_list_update)

lemma insert_at_remove_at [simp]:
  "i < length xs \<Longrightarrow> insert_at i (xs ! i) (remove_at i xs) = xs"
  by (simp add: insert_at_def remove_at_def min_def Cons_nth_drop_Suc)

lemma remove_at_insert_at [simp]: "i \<le> length xs \<Longrightarrow> remove_at i (insert_at i x xs) = xs"
  by (simp add: remove_at_def insert_at_def)

lemma position_append: "position P (xs @ ys) =
    (case position P xs of Some i \<Rightarrow> Some i | None \<Rightarrow> map_option (\<lambda>i. length xs + i) (position P ys))"
proof (induction xs)
  case Nil
  show ?case by (cases "position P ys") simp_all
next
  case (Cons x xs)
  then show ?case by (cases "position P ys") (auto split: option.splits)
qed

lemma position_last:
  assumes "position P xs = Some (length xs - 1)"
  shows "\<exists>ys y. xs = ys @ [y] \<and> P y \<and> (\<forall>x \<in> set ys. \<not> P x)"
proof -
  have "xs \<noteq> []" using assms by auto
  then obtain ys y where xs: "xs = ys @ [y]" by (metis rev_exhaust)
  have "position P ys = None"
  proof (cases "position P ys")
    case (Some i)
    then have "i < length ys" by (auto simp: position_Some_iff)
    then show ?thesis using assms Some by (simp add: xs position_append)
  qed
  then show ?thesis using assms xs
    by (auto simp: position_append position_None_iff split: option.splits if_splits)
qed

lemma position_update:
  "position P xs = Some i \<Longrightarrow> P x \<Longrightarrow> position P (xs[i := x]) = Some i"
  by (induction xs arbitrary: i) (auto split: option.splits if_splits)

lemma map2_const: "map2 (\<lambda>x c. f x c) xs (map (\<lambda>_. k) xs) = map (\<lambda>x. f x k) xs"
  by (induction xs) simp_all

lemma same_block: "i < length bs \<Longrightarrow> bs ! i = b \<Longrightarrow> bs[i := b] = bs"
  by auto

lemma get_at_Some_iff: "get_at xs i = Some x \<longleftrightarrow> i < length xs \<and> xs ! i = x"
  by (auto simp: get_at_def)

lemma get_at_None_iff: "get_at xs i = None \<longleftrightarrow> length xs \<le> i"
  by (auto simp: get_at_def)

lemma get_at_in_range [simp]: "i < length xs \<Longrightarrow> get_at xs i = Some (xs ! i)"
  by (simp add: get_at_def)

section \<open>Slices of byte buffers\<close>

lemma length_bslice [simp]: "length (bslice a b xs) = min (b - a) (length xs - a)"
  by (simp add: bslice_def min.commute)

lemma length_copy_into [simp]:
  "off + length src \<le> length buf \<Longrightarrow> length (copy_into buf off src) = length buf"
  by (simp add: copy_into_def)

lemma bslice_copy_into_same [simp]:
  "off + length src \<le> length buf \<Longrightarrow> e = off + length src \<Longrightarrow> bslice off e (copy_into buf off src) = src"
  by (simp add: bslice_def copy_into_def)

lemma bslice_copy_into_before [simp]:
  "b \<le> off \<Longrightarrow> off \<le> length buf \<Longrightarrow> bslice a b (copy_into buf off src) = bslice a b buf"
  by (rule nth_equalityI) (auto simp: bslice_def copy_into_def nth_append)

lemma bslice_copy_into_after [simp]:
  "off + length src \<le> a \<Longrightarrow> off + length src \<le> length buf \<Longrightarrow>
   bslice a b (copy_into buf off src) = bslice a b buf"
  by (simp add: bslice_def copy_into_def add.commute)

lemma bslice_append_exact [simp]:
  "a = length xs \<Longrightarrow> b = a + length ys \<Longrightarrow> bslice a b (xs @ ys @ zs) = ys"
  by (simp add: bslice_def)

section \<open>Little-endian integers\<close>

primrec le_bytes :: "nat \<Rightarrow> nat \<Rightarrow> bytes" where
  "le_bytes 0 k = []"
| "le_bytes (Suc n) k = of_nat (k mod 256) # le_bytes n (k div 256)"

primrec le_val :: "bytes \<Rightarrow> nat" where
  "le_val [] = 0"
| "le_val (b # bs) = unat b + 256 * le_val bs"

lemma length_le_bytes [simp, le_simps]: "length (le_bytes n k) = n"
  by (induction n arbitrary: k) auto

lemma unat_of_nat_byte [simp]: "unat (of_nat (k mod 256) :: u8) = k mod 256"
  by (simp add: unat_of_nat)

lemma le_val_le_bytes [le_simps]: "le_val (le_bytes n k) = k mod 256 ^ n"
proof (induction n arbitrary: k)
  case 0
  then show ?case by simp
next
  case (Suc n)
  have "k mod 256 ^ Suc n = k mod 256 + 256 * (k div 256 mod 256 ^ n)"
    using mod_mult2_eq [of k 256 "256 ^ n"] by simp
  then show ?case by (simp add: Suc.IH)
qed

lemma le_val_bound: "le_val bs < 256 ^ length bs"
proof (induction bs)
  case Nil
  then show ?case by simp
next
  case (Cons b bs)
  have "unat b < 256" using unsigned_less [of b, where 'a = nat] by simp
  with Cons show ?case by simp
qed

lemma le_bytes_le_val [le_simps]: "n = length bs \<Longrightarrow> le_bytes n (le_val bs) = bs"
proof (induction bs arbitrary: n)
  case Nil
  then show ?case by simp
next
  case (Cons b bs)
  have b: "unat b < 256" using unsigned_less [of b, where 'a = nat] by simp
  then have "(unat b + 256 * le_val bs) mod 256 = unat b"
    and "(unat b + 256 * le_val bs) div 256 = le_val bs"
    by simp_all
  with Cons show ?case by simp
qed

text \<open>\<open>uN::to_le_bytes\<close> and \<open>uN::from_le_bytes\<close> at the widths the formats use.\<close>

definition u16_le :: "u16 \<Rightarrow> bytes" where
  "u16_le w = le_bytes 2 (unat w)"

definition u32_le :: "u32 \<Rightarrow> bytes" where
  "u32_le w = le_bytes 4 (unat w)"

definition u64_le :: "u64 \<Rightarrow> bytes" where
  "u64_le w = le_bytes 8 (unat w)"

definition u16_of_le :: "bytes \<Rightarrow> u16" where
  "u16_of_le bs = of_nat (le_val bs)"

definition u32_of_le :: "bytes \<Rightarrow> u32" where
  "u32_of_le bs = of_nat (le_val bs)"

definition u64_of_le :: "bytes \<Rightarrow> u64" where
  "u64_of_le bs = of_nat (le_val bs)"

lemma length_u_le [simp]:
  "length (u16_le a) = 2" "length (u32_le b) = 4" "length (u64_le c) = 8"
  by (simp_all add: u16_le_def u32_le_def u64_le_def)

lemma u16_of_le_u16_le [simp]: "u16_of_le (u16_le w) = w"
  using unsigned_less [of w, where 'a = nat] by (simp add: u16_of_le_def u16_le_def le_val_le_bytes)

lemma u32_of_le_u32_le [simp]: "u32_of_le (u32_le w) = w"
  using unsigned_less [of w, where 'a = nat] by (simp add: u32_of_le_def u32_le_def le_val_le_bytes)

lemma u64_of_le_u64_le [simp]: "u64_of_le (u64_le w) = w"
  using unsigned_less [of w, where 'a = nat] by (simp add: u64_of_le_def u64_le_def le_val_le_bytes)

lemma u64_le_u64_of_le [simp]: "length bs = 8 \<Longrightarrow> u64_le (u64_of_le bs) = bs"
  using le_val_bound [of bs] by (simp add: u64_of_le_def u64_le_def unat_of_nat le_bytes_le_val)

lemma u16_le_u16_of_le [simp]: "length bs = 2 \<Longrightarrow> u16_le (u16_of_le bs) = bs"
  using le_val_bound [of bs] by (simp add: u16_of_le_def u16_le_def unat_of_nat le_bytes_le_val)

section \<open>Results\<close>

text \<open>The \<open>?\<close> operator: the error of a failed step is the error of the whole function.\<close>

definition and_then :: "'e + 'a \<Rightarrow> ('a \<Rightarrow> 'e + 'b) \<Rightarrow> 'e + 'b" where
  "and_then r k = (case r of Inl e \<Rightarrow> Inl e | Inr x \<Rightarrow> k x)"

lemma and_then_simps [simp]: "and_then (Inl e) k = Inl e" "and_then (Inr x) k = k x"
  by (simp_all add: and_then_def)

lemma and_then_Inr_iff: "and_then r k = Inr y \<longleftrightarrow> (\<exists>x. r = Inr x \<and> k x = Inr y)"
  by (cases r) auto

section \<open>Saturating 16-bit arithmetic\<close>

text \<open>
  Cell coordinates are \<open>u16\<close> values.  They are modelled as natural numbers at most
  \<open>u16_max\<close>; \<open>saturating_add\<close> and \<open>saturating_sub\<close> are written out.
\<close>

definition u16_max :: nat where
  "u16_max = 65535"

definition sat_add :: "nat \<Rightarrow> nat \<Rightarrow> nat" where
  "sat_add a b = min u16_max (a + b)"

definition sat_sub :: "nat \<Rightarrow> nat \<Rightarrow> nat" where
  "sat_sub a b = a - b"

lemma sat_add_le [simp]: "sat_add a b \<le> u16_max"
  by (simp add: sat_add_def)

lemma sat_add_exact: "a + b \<le> u16_max \<Longrightarrow> sat_add a b = a + b"
  by (simp add: sat_add_def)

end
