(* ===== verification/Play_Queue.thy ===== *)
theory Play_Queue
  imports Orchid_Prelude
begin

text \<open>
  The play queue of the audio player widget
  (crates/orchid-widgets/src/builtin/audio_player/queue.rs): a list of paths, the index of the
  current track, the shuffle permutation \<open>order\<close> and the repeat mode.  Paths are only compared and
  copied, so their type is a parameter \<open>'p\<close>.  \<open>usize\<close> values are natural numbers (a vector never
  holds \<open>2^64\<close> elements); the shuffle generator works on \<open>u64\<close> with wrapping arithmetic.  A method
  with \<open>&mut self\<close> returns the new queue and its result.
\<close>

section \<open>State and operations\<close>

datatype RepeatMode = Off | All | One

fun cycle :: "RepeatMode \<Rightarrow> RepeatMode" where
  "cycle Off = All"
| "cycle All = One"
| "cycle One = Off"

record 'p PlayQueue =
  paths :: "'p list"
  index :: nat
  order :: "nat list"
  shuffle :: bool
  repeat :: RepeatMode
  shuffle_seed :: u64

text \<open>The loop \<open>for i in (1..len).rev()\<close> of the Fisher-Yates shuffle, from index \<open>i\<close> down to 1.\<close>

fun fisher_yates :: "nat \<Rightarrow> u64 \<Rightarrow> nat list \<Rightarrow> nat list" where
  "fisher_yates 0 state ord = ord"
| "fisher_yates (Suc i) state ord =
     (let state' = state * 6364136223846793005 + 1;
          j = unat state' mod (Suc i + 1)
      in fisher_yates i state' (swap_at (Suc i) j ord))"

definition rebuild_order :: "'p PlayQueue \<Rightarrow> 'p PlayQueue" where
  "rebuild_order q =
    (let n = length (paths q); ord = [0..<n] in
     if shuffle q \<and> n > 1 then
       let state = of_nat n * 0x9E3779B9 + of_nat (index q) + shuffle_seed q * 0x85EBCA6B;
           ord = fisher_yates (n - 1) state ord;
           ord = (case position (\<lambda>i. i = index q) ord of
                    Some pos \<Rightarrow> swap_at 0 pos ord
                  | None \<Rightarrow> ord)
       in q\<lparr>order := ord\<rparr>
     else q\<lparr>order := ord\<rparr>)"

definition from_paths :: "'p list \<Rightarrow> nat \<Rightarrow> bool \<Rightarrow> RepeatMode \<Rightarrow> 'p PlayQueue" where
  "from_paths ps i sh rep =
    rebuild_order \<lparr>paths = ps, index = min i (length ps - 1), order = [], shuffle = sh,
                   repeat = rep, shuffle_seed = 0\<rparr>"

definition current :: "'p PlayQueue \<Rightarrow> 'p option" where
  "current q = get_at (paths q) (index q)"

text \<open>Position of the current track in the shuffle order (\<open>position(..).unwrap_or(0)\<close>).\<close>

definition order_pos :: "'p PlayQueue \<Rightarrow> nat" where
  "order_pos q = (case position (\<lambda>i. i = index q) (order q) of Some p \<Rightarrow> p | None \<Rightarrow> 0)"

definition peek_next :: "'p PlayQueue \<Rightarrow> 'p option" where
  "peek_next q =
    (if paths q = [] then None
     else if repeat q = One then current q
     else if shuffle q then
       (if order_pos q + 1 < length (order q)
        then get_at (paths q) (order q ! (order_pos q + 1))
        else None)
     else if index q + 1 < length (paths q) then get_at (paths q) (index q + 1)
     else if repeat q = All then get_at (paths q) 0
     else None)"

definition next_track :: "'p PlayQueue \<Rightarrow> 'p PlayQueue \<times> 'p option" where
  "next_track q =
    (if paths q = [] then (q, None)
     else if repeat q = One then (q, current q)
     else if shuffle q then
       (if order_pos q + 1 < length (order q)
        then let q' = q\<lparr>index := order q ! (order_pos q + 1)\<rparr> in (q', current q')
        else if repeat q = All
        then let q' = rebuild_order q;
                 q'' = q'\<lparr>index := (case order q' of [] \<Rightarrow> 0 | i # _ \<Rightarrow> i)\<rparr>
             in (q'', current q'')
        else (q, None))
     else if index q + 1 < length (paths q)
     then let q' = q\<lparr>index := index q + 1\<rparr> in (q', current q')
     else if repeat q = All then let q' = q\<lparr>index := 0\<rparr> in (q', current q')
     else (q, None))"

definition previous :: "'p PlayQueue \<Rightarrow> 'p PlayQueue \<times> 'p option" where
  "previous q =
    (if paths q = [] then (q, None)
     else if shuffle q then
       let q' = (if order_pos q > 0 then q\<lparr>index := order q ! (order_pos q - 1)\<rparr> else q)
       in (q', current q')
     else let q' = (if index q > 0 then q\<lparr>index := index q - 1\<rparr> else q) in (q', current q'))"

definition replace :: "'p list \<Rightarrow> nat \<Rightarrow> 'p PlayQueue \<Rightarrow> 'p PlayQueue" where
  "replace ps start q = rebuild_order (q\<lparr>paths := ps, index := min start (length ps - 1)\<rparr>)"

definition play_at :: "'p \<Rightarrow> 'p PlayQueue \<Rightarrow> 'p PlayQueue \<times> bool" where
  "play_at path q =
    (case position (\<lambda>p. p = path) (paths q) of
       Some i \<Rightarrow> (q\<lparr>index := i\<rparr>, True)
     | None \<Rightarrow> (rebuild_order (q\<lparr>paths := paths q @ [path], index := length (paths q)\<rparr>), True))"

definition jump_first :: "'p PlayQueue \<Rightarrow> 'p PlayQueue \<times> bool" where
  "jump_first q =
    (if paths q = [] then (q, False)
     else if shuffle q \<and> order q \<noteq> [] then (q\<lparr>index := order q ! 0\<rparr>, True)
     else (q\<lparr>index := 0\<rparr>, True))"

definition jump_last :: "'p PlayQueue \<Rightarrow> 'p PlayQueue \<times> bool" where
  "jump_last q =
    (if paths q = [] then (q, False)
     else if shuffle q \<and> order q \<noteq> [] then (q\<lparr>index := last (order q)\<rparr>, True)
     else (q\<lparr>index := length (paths q) - 1\<rparr>, True))"

definition enqueue_end :: "'p \<Rightarrow> 'p PlayQueue \<Rightarrow> 'p PlayQueue \<times> bool" where
  "enqueue_end path q =
    (if path \<in> set (paths q) then (q, False)
     else (rebuild_order (q\<lparr>paths := paths q @ [path]\<rparr>), True))"

definition enqueue_next :: "'p \<Rightarrow> 'p PlayQueue \<Rightarrow> 'p PlayQueue \<times> bool" where
  "enqueue_next path q =
    (case position (\<lambda>p. p = path) (paths q) of
       Some i \<Rightarrow>
         (if i = index q then (q, False)
          else let item = paths q ! i;
                   ps = remove_at i (paths q);
                   idx = (if i < index q then index q - 1 else index q);
                   at = min (idx + 1) (length ps)
               in (rebuild_order (q\<lparr>paths := insert_at at item ps, index := idx\<rparr>), True))
     | None \<Rightarrow>
         (let at = (if paths q = [] then 0 else min (index q + 1) (length (paths q)))
          in (rebuild_order (q\<lparr>paths := insert_at at path (paths q)\<rparr>), True)))"

definition remove_path :: "'p \<Rightarrow> 'p PlayQueue \<Rightarrow> 'p PlayQueue \<times> bool" where
  "remove_path path q =
    (case position (\<lambda>p. p = path) (paths q) of
       None \<Rightarrow> (q, False)
     | Some i \<Rightarrow>
         (let was_current = (i = index q); ps = remove_at i (paths q) in
          if ps = [] then (q\<lparr>paths := ps, index := 0, order := []\<rparr>, was_current)
          else let idx = (if i < index q then index q - 1
                          else if i = index q then min (index q) (length ps - 1)
                          else index q)
               in (rebuild_order (q\<lparr>paths := ps, index := idx\<rparr>), was_current)))"

definition shuffled_view :: "'p PlayQueue \<Rightarrow> bool" where
  "shuffled_view q \<longleftrightarrow> shuffle q \<and> length (order q) = length (paths q)"

definition display_pos_of_path :: "'p \<Rightarrow> 'p PlayQueue \<Rightarrow> nat option" where
  "display_pos_of_path path q =
    (if shuffled_view q then position (\<lambda>i. get_at (paths q) i = Some path) (order q)
     else position (\<lambda>p. p = path) (paths q))"

definition move_up :: "'p \<Rightarrow> 'p PlayQueue \<Rightarrow> 'p PlayQueue \<times> bool" where
  "move_up path q =
    (if shuffled_view q then
       (case display_pos_of_path path q of
          None \<Rightarrow> (q, False)
        | Some pos \<Rightarrow> (if pos = 0 then (q, False)
                       else (q\<lparr>order := swap_at (pos - 1) pos (order q)\<rparr>, True)))
     else
       (case position (\<lambda>p. p = path) (paths q) of
          None \<Rightarrow> (q, False)
        | Some i \<Rightarrow>
            (if i = 0 then (q, False)
             else let idx = (if index q = i then i - 1
                             else if index q = i - 1 then i else index q)
                  in (rebuild_order (q\<lparr>paths := swap_at (i - 1) i (paths q), index := idx\<rparr>), True))))"

definition move_down :: "'p \<Rightarrow> 'p PlayQueue \<Rightarrow> 'p PlayQueue \<times> bool" where
  "move_down path q =
    (if shuffled_view q then
       (case display_pos_of_path path q of
          None \<Rightarrow> (q, False)
        | Some pos \<Rightarrow> (if pos + 1 \<ge> length (order q) then (q, False)
                       else (q\<lparr>order := swap_at pos (pos + 1) (order q)\<rparr>, True)))
     else
       (case position (\<lambda>p. p = path) (paths q) of
          None \<Rightarrow> (q, False)
        | Some i \<Rightarrow>
            (if i + 1 \<ge> length (paths q) then (q, False)
             else let idx = (if index q = i then i + 1
                             else if index q = i + 1 then i else index q)
                  in (rebuild_order (q\<lparr>paths := swap_at i (i + 1) (paths q), index := idx\<rparr>), True))))"

definition move_to :: "'p \<Rightarrow> nat \<Rightarrow> 'p PlayQueue \<Rightarrow> 'p PlayQueue \<times> bool" where
  "move_to path new_index q =
    (if shuffled_view q then
       (case display_pos_of_path path q of
          None \<Rightarrow> (q, False)
        | Some old \<Rightarrow>
            (if order q = [] then (q, False)
             else let new = min new_index (length (order q) - 1) in
               if old = new then (q, False)
               else let item = order q ! old; ord = remove_at old (order q);
                        dest = min new (length ord)
                    in (q\<lparr>order := insert_at dest item ord\<rparr>, True)))
     else
       (case position (\<lambda>p. p = path) (paths q) of
          None \<Rightarrow> (q, False)
        | Some old \<Rightarrow>
            (if paths q = [] then (q, False)
             else let new = min new_index (length (paths q) - 1) in
               if old = new then (q, False)
               else let current_path = get_at (paths q) (index q);
                        item = paths q ! old; ps = remove_at old (paths q);
                        dest = min new (length ps); ps = insert_at dest item ps;
                        idx = (case current_path of
                                 None \<Rightarrow> index q
                               | Some cur \<Rightarrow> (case position (\<lambda>p. p = cur) ps of
                                                None \<Rightarrow> index q | Some i \<Rightarrow> i))
                    in (rebuild_order (q\<lparr>paths := ps, index := idx\<rparr>), True))))"

definition set_shuffle :: "bool \<Rightarrow> 'p PlayQueue \<Rightarrow> 'p PlayQueue" where
  "set_shuffle sh q = rebuild_order (q\<lparr>shuffle := sh\<rparr>)"

definition reshuffle_remaining :: "'p PlayQueue \<Rightarrow> 'p PlayQueue \<times> bool" where
  "reshuffle_remaining q =
    (if length (paths q) < 2 then (q, False)
     else let seed = max (shuffle_seed q + 1) 1;
              seed = seed * 0x9E3779B9 + of_nat (length (paths q))
          in (rebuild_order (q\<lparr>shuffle := True, shuffle_seed := seed\<rparr>), True))"

definition cycle_repeat :: "'p PlayQueue \<Rightarrow> 'p PlayQueue" where
  "cycle_repeat q = q\<lparr>repeat := cycle (repeat q)\<rparr>"

definition display_paths :: "'p PlayQueue \<Rightarrow> 'p list" where
  "display_paths q =
    (if shuffled_view q \<and> order q \<noteq> []
     then map (\<lambda>i. paths q ! i) (filter (\<lambda>i. i < length (paths q)) (order q))
     else paths q)"

section \<open>Invariant\<close>

text \<open>
  The current index is in range (or 0 in an empty queue) and \<open>order\<close> is a permutation of the
  indices of \<open>paths\<close>.
\<close>

definition pq_inv :: "'p PlayQueue \<Rightarrow> bool" where
  "pq_inv q \<longleftrightarrow> index q \<le> length (paths q) - 1 \<and> mset (order q) = mset [0..<length (paths q)]"

definition empty_queue :: "'p PlayQueue" where
  "empty_queue = \<lparr>paths = [], index = 0, order = [], shuffle = False, repeat = Off, shuffle_seed = 0\<rparr>"

lemma mset_fisher_yates: "i < length ord \<Longrightarrow> mset (fisher_yates i st ord) = mset ord"
proof (induction i arbitrary: st ord)
  case 0
  then show ?case by simp
next
  case (Suc i)
  let ?st = "st * 6364136223846793005 + 1"
  let ?j = "unat ?st mod (Suc i + 1)"
  have "?j < Suc i + 1" by (rule mod_less_divisor) simp
  then have j: "?j < length ord" using Suc.prems by linarith
  have "mset (fisher_yates i ?st (swap_at (Suc i) ?j ord)) = mset (swap_at (Suc i) ?j ord)"
    using Suc.prems by (intro Suc.IH) simp
  with Suc.prems j show ?case by (simp add: Let_def vec_simps)
qed

lemma rebuild_order_frame [simp]:
  "paths (rebuild_order q) = paths q" "index (rebuild_order q) = index q"
  "shuffle (rebuild_order q) = shuffle q" "repeat (rebuild_order q) = repeat q"
  "shuffle_seed (rebuild_order q) = shuffle_seed q"
  by (simp_all add: rebuild_order_def Let_def)

lemma mset_swap_front:
  "position P xs = Some k \<Longrightarrow> mset (swap_at 0 k xs) = mset xs"
proof -
  assume "position P xs = Some k"
  then have "0 < length xs" and "k < length xs" by auto
  then show ?thesis by (rule mset_swap_at)
qed

lemma mset_rebuild_order [simp]: "mset (order (rebuild_order q)) = mset [0..<length (paths q)]"
proof (cases "shuffle q \<and> length (paths q) > 1")
  case True
  let ?n = "length (paths q)"
  have fy: "mset (fisher_yates (?n - 1) st [0..<?n]) = mset [0..<?n]" for st
    using True by (intro mset_fisher_yates) auto
  show ?thesis
    using True fy by (auto simp: rebuild_order_def Let_def mset_swap_front split: option.splits)
next
  case False
  then have "rebuild_order q = q\<lparr>order := [0..<length (paths q)]\<rparr>"
    unfolding rebuild_order_def Let_def by (rule if_not_P)
  then show ?thesis by simp
qed

lemma rebuild_order_first:
  assumes "shuffle q" and "1 < length (paths q)" and "index q < length (paths q)"
  shows "order (rebuild_order q) ! 0 = index q"
proof -
  let ?n = "length (paths q)"
  let ?st = "of_nat ?n * 0x9E3779B9 + of_nat (index q) + shuffle_seed q * 0x85EBCA6B"
  let ?ord = "fisher_yates (?n - 1) ?st [0..<?n]"
  have ms: "mset ?ord = mset [0..<?n]"
    using assms(2) by (intro mset_fisher_yates) auto
  then have "set ?ord = set [0..<?n]" by (metis set_mset_mset)
  with assms(3) have "index q \<in> set ?ord" by simp
  then obtain k where k: "position (\<lambda>i. i = index q) ?ord = Some k"
    using position_ex [of "index q" ?ord "\<lambda>i. i = index q"] by blast
  then have "k < length ?ord" and "?ord ! k = index q" by auto
  then have "swap_at 0 k ?ord ! 0 = index q"
    by (subst nth_swap_at) auto
  with assms k show ?thesis by (simp add: rebuild_order_def Let_def)
qed

lemma order_perm:
  assumes "mset (order q) = mset [0..<length (paths q)]"
  shows "distinct (order q)" and "set (order q) = {..<length (paths q)}"
    and "length (order q) = length (paths q)"
proof -
  show "distinct (order q)"
    using assms by (metis distinct_upt mset_eq_imp_distinct_iff)
  show "set (order q) = {..<length (paths q)}"
    using assms by (metis atLeast0LessThan set_mset_mset set_upt)
  show "length (order q) = length (paths q)"
    using assms by (metis diff_zero length_upt mset_eq_length)
qed

lemma pq_inv_rebuild:
  "index q \<le> length (paths q) - 1 \<Longrightarrow> pq_inv (rebuild_order q)"
  by (simp add: pq_inv_def del: mset_upt)

lemma pq_invD:
  assumes "pq_inv q"
  shows "paths q \<noteq> [] \<Longrightarrow> index q < length (paths q)" "distinct (order q)"
    "set (order q) = {..<length (paths q)}" "length (order q) = length (paths q)"
    "index q \<le> length (paths q) - 1"
proof -
  show le: "index q \<le> length (paths q) - 1"
    using assms by (simp add: pq_inv_def)
  show "index q < length (paths q)" if "paths q \<noteq> []"
    using le that by (cases "paths q") auto
  have "mset (order q) = mset [0..<length (paths q)]"
    using assms unfolding pq_inv_def by blast
  then show "distinct (order q)" and "set (order q) = {..<length (paths q)}"
    and "length (order q) = length (paths q)"
    by (rule order_perm)+
qed

lemma pq_inv_index:
  "pq_inv q \<Longrightarrow> paths q \<noteq> [] \<Longrightarrow> i < length (paths q) \<Longrightarrow> pq_inv (q\<lparr>index := i\<rparr>)"
  by (auto simp: pq_inv_def)

lemma pq_inv_order:
  "pq_inv q \<Longrightarrow> mset ord = mset (order q) \<Longrightarrow> pq_inv (q\<lparr>order := ord\<rparr>)"
  by (simp add: pq_inv_def del: mset_upt)

lemma pq_inv_order_nth:
  assumes "pq_inv q" and "i < length (order q)"
  shows "order q ! i < length (paths q)"
  using assms nth_mem [OF assms(2)] pq_invD(3) [OF assms(1)] by auto

lemma pq_inv_order_pos:
  assumes "pq_inv q" and "paths q \<noteq> []"
  shows "order_pos q < length (order q)" and "order q ! order_pos q = index q"
proof -
  have "index q \<in> set (order q)"
    using assms pq_invD [OF assms(1)] by auto
  then obtain k where "position (\<lambda>i. i = index q) (order q) = Some k"
    using position_ex [of "index q" "order q" "\<lambda>i. i = index q"] by blast
  then show "order_pos q < length (order q)" and "order q ! order_pos q = index q"
    by (auto simp: order_pos_def)
qed

lemma current_some: "pq_inv q \<Longrightarrow> paths q \<noteq> [] \<Longrightarrow> current q = Some (paths q ! index q)"
  by (simp add: current_def pq_invD)

subsection \<open>Every operation preserves the invariant\<close>

lemma pq_inv_from_paths: "pq_inv (from_paths ps i sh rep)"
  unfolding from_paths_def by (rule pq_inv_rebuild) auto

lemma pq_inv_empty: "pq_inv empty_queue"
  by (simp add: pq_inv_def empty_queue_def)

lemma pq_inv_next:
  assumes "pq_inv q"
  shows "pq_inv (fst (next_track q))"
proof -
  have shuf: "pq_inv (q\<lparr>index := order q ! (order_pos q + 1)\<rparr>)"
    if "paths q \<noteq> []" "order_pos q + 1 < length (order q)"
    using assms that by (intro pq_inv_index pq_inv_order_nth)
  have wrap: "pq_inv (rebuild_order q\<lparr>index := case order (rebuild_order q) of [] \<Rightarrow> 0 | i # _ \<Rightarrow> i\<rparr>)"
    if "paths q \<noteq> []"
  proof (rule pq_inv_index)
    show inv: "pq_inv (rebuild_order q)"
      using assms that by (intro pq_inv_rebuild pq_invD(5))
    show "paths (rebuild_order q) \<noteq> []" using that by simp
    show "(case order (rebuild_order q) of [] \<Rightarrow> 0 | i # _ \<Rightarrow> i) < length (paths (rebuild_order q))"
      using that pq_inv_order_nth [OF inv, of 0] by (auto split: list.splits)
  qed
  show ?thesis
    using assms shuf wrap by (auto simp: next_track_def Let_def intro!: pq_inv_index)
qed

lemma pq_inv_previous:
  assumes "pq_inv q"
  shows "pq_inv (fst (previous q))"
proof -
  have "pq_inv (q\<lparr>index := order q ! (order_pos q - 1)\<rparr>)" if "paths q \<noteq> []"
    using assms that pq_inv_order_pos [OF assms that] by (intro pq_inv_index pq_inv_order_nth) auto
  moreover have "pq_inv (q\<lparr>index := index q - 1\<rparr>)" if "paths q \<noteq> []"
    using assms that pq_invD(1) [OF assms that] by (intro pq_inv_index) auto
  ultimately show ?thesis
    using assms by (auto simp: previous_def Let_def)
qed

lemma pq_inv_replace: "pq_inv (replace ps start q)"
  unfolding replace_def by (rule pq_inv_rebuild) auto

lemma pq_inv_play_at: "pq_inv q \<Longrightarrow> pq_inv (fst (play_at path q))"
  by (auto simp: play_at_def split: option.splits intro!: pq_inv_index pq_inv_rebuild)

lemma pq_inv_jump_first: "pq_inv q \<Longrightarrow> pq_inv (fst (jump_first q))"
  by (auto simp: jump_first_def intro!: pq_inv_index pq_inv_order_nth)

lemma pq_inv_jump_last: "pq_inv q \<Longrightarrow> pq_inv (fst (jump_last q))"
  by (auto simp: jump_last_def last_conv_nth intro!: pq_inv_index pq_inv_order_nth)

lemma pq_inv_enqueue_end: "pq_inv q \<Longrightarrow> pq_inv (fst (enqueue_end path q))"
  by (auto simp: enqueue_end_def dest!: pq_invD(5) intro!: pq_inv_rebuild)

lemma pq_inv_enqueue_next:
  assumes "pq_inv q"
  shows "pq_inv (fst (enqueue_next path q))"
proof (cases "position (\<lambda>p. p = path) (paths q)")
  case None
  then show ?thesis
    using pq_invD(5) [OF assms]
    by (auto simp: enqueue_next_def Let_def vec_simps intro!: pq_inv_rebuild)
next
  case (Some i)
  then have i: "i < length (paths q)" by auto
  with assms have ix: "index q < length (paths q)" by (intro pq_invD) auto
  show ?thesis
  proof (cases "i = index q")
    case True
    then show ?thesis using assms Some by (simp add: enqueue_next_def)
  next
    case False
    with i ix have "length (remove_at i (paths q)) = length (paths q) - 1"
      by (simp add: vec_simps)
    with False i ix Some show ?thesis
      by (auto simp: enqueue_next_def Let_def vec_simps insert_at_def intro!: pq_inv_rebuild)
  qed
qed

lemma pq_inv_remove_path:
  assumes "pq_inv q"
  shows "pq_inv (fst (remove_path path q))"
proof (cases "position (\<lambda>p. p = path) (paths q)")
  case None
  then show ?thesis using assms by (simp add: remove_path_def)
next
  case (Some i)
  then have i: "i < length (paths q)" by auto
  with assms have "index q < length (paths q)" by (intro pq_invD) auto
  with i have "pq_inv (rebuild_order (q\<lparr>paths := remove_at i (paths q),
      index := if i < index q then index q - 1
               else if i = index q then min (index q) (length (remove_at i (paths q)) - 1)
               else index q\<rparr>))" if "remove_at i (paths q) \<noteq> []"
    using that by (intro pq_inv_rebuild) (auto simp: vec_simps)
  moreover have "pq_inv (q\<lparr>paths := [], index := 0, order := []\<rparr>)"
    by (simp add: pq_inv_def)
  ultimately show ?thesis using Some by (simp add: remove_path_def Let_def)
qed

lemma display_pos_bound:
  "display_pos_of_path path q = Some pos \<Longrightarrow> shuffled_view q \<Longrightarrow> pos < length (order q)"
  by (auto simp: display_pos_of_path_def)

lemma pq_inv_move_up:
  assumes "pq_inv q"
  shows "pq_inv (fst (move_up path q))"
proof (cases "shuffled_view q")
  case True
  have "pq_inv (q\<lparr>order := swap_at (k - 1) k (order q)\<rparr>)" if "k < length (order q)" for k
    using assms that by (intro pq_inv_order) (auto simp: vec_simps)
  with True assms show ?thesis
    by (auto simp: move_up_def split: option.splits dest: display_pos_bound)
next
  case False
  then show ?thesis
    using assms pq_invD(5) [OF assms]
    by (auto simp: move_up_def Let_def split: option.splits intro!: pq_inv_rebuild)
qed

lemma pq_inv_move_down:
  assumes "pq_inv q"
  shows "pq_inv (fst (move_down path q))"
proof (cases "shuffled_view q")
  case True
  have "pq_inv (q\<lparr>order := swap_at k (k + 1) (order q)\<rparr>)" if "k + 1 < length (order q)" for k
    using assms that by (intro pq_inv_order) (auto simp: vec_simps)
  with True assms show ?thesis
    by (auto simp: move_down_def split: option.splits dest: display_pos_bound)
next
  case False
  then show ?thesis
    using assms pq_invD(5) [OF assms]
    by (auto simp: move_down_def Let_def split: option.splits intro!: pq_inv_rebuild)
qed

lemma mset_relocate:
  "old < length xs \<Longrightarrow> mset (insert_at dest (xs ! old) (remove_at old xs)) = mset xs"
  by (simp add: vec_simps)

lemma length_relocate [simp]:
  "old < length xs \<Longrightarrow> length (insert_at dest (xs ! old) (remove_at old xs)) = length xs"
  by (metis mset_relocate mset_eq_length)

lemma pq_inv_move_to:
  assumes "pq_inv q"
  shows "pq_inv (fst (move_to path new_index q))"
proof -
  have "pq_inv (q\<lparr>order := insert_at d (order q ! k) (remove_at k (order q))\<rparr>)"
    if "k < length (order q)" for k d
    using assms that by (intro pq_inv_order mset_relocate)
  moreover have "pq_inv (rebuild_order (q\<lparr>paths := insert_at d (paths q ! k) (remove_at k (paths q)),
      index := (case get_at (paths q) (index q) of None \<Rightarrow> index q
        | Some cur \<Rightarrow> (case position (\<lambda>p. p = cur) (insert_at d (paths q ! k) (remove_at k (paths q))) of
            None \<Rightarrow> index q | Some i \<Rightarrow> i))\<rparr>))" if "k < length (paths q)" for k d
    using that pq_invD(5) [OF assms] length_relocate [OF that, of d]
    by (intro pq_inv_rebuild) (auto split: option.splits dest!: position_SomeD)
  ultimately show ?thesis
    using assms display_pos_bound [of path q]
    by (cases "display_pos_of_path path q"; cases "position (\<lambda>p. p = path) (paths q)")
      (auto simp: move_to_def Let_def)
qed

lemma pq_inv_set_shuffle: "pq_inv q \<Longrightarrow> pq_inv (set_shuffle sh q)"
  unfolding set_shuffle_def by (rule pq_inv_rebuild) (simp add: pq_inv_def)

lemma pq_inv_reshuffle: "pq_inv q \<Longrightarrow> pq_inv (fst (reshuffle_remaining q))"
  by (auto simp: reshuffle_remaining_def Let_def dest: pq_invD(5) intro!: pq_inv_rebuild)

lemma pq_inv_cycle_repeat: "pq_inv q \<Longrightarrow> pq_inv (cycle_repeat q)"
  by (simp add: cycle_repeat_def pq_inv_def)

section \<open>Runs of the queue\<close>

text \<open>The calls the widget makes, and the states they reach from a fresh or a restored queue.\<close>

datatype 'p queue_call =
    Next | Previous | Replace "'p list" nat | PlayAt 'p | JumpFirst | JumpLast
  | EnqueueEnd 'p | EnqueueNext 'p | RemovePath 'p | MoveUp 'p | MoveDown 'p | MoveTo 'p nat
  | SetShuffle bool | Reshuffle | CycleRepeat

fun run_call :: "'p queue_call \<Rightarrow> 'p PlayQueue \<Rightarrow> 'p PlayQueue" where
  "run_call Next q = fst (next_track q)"
| "run_call Previous q = fst (previous q)"
| "run_call (Replace ps i) q = replace ps i q"
| "run_call (PlayAt p) q = fst (play_at p q)"
| "run_call JumpFirst q = fst (jump_first q)"
| "run_call JumpLast q = fst (jump_last q)"
| "run_call (EnqueueEnd p) q = fst (enqueue_end p q)"
| "run_call (EnqueueNext p) q = fst (enqueue_next p q)"
| "run_call (RemovePath p) q = fst (remove_path p q)"
| "run_call (MoveUp p) q = fst (move_up p q)"
| "run_call (MoveDown p) q = fst (move_down p q)"
| "run_call (MoveTo p n) q = fst (move_to p n q)"
| "run_call (SetShuffle b) q = set_shuffle b q"
| "run_call Reshuffle q = fst (reshuffle_remaining q)"
| "run_call CycleRepeat q = cycle_repeat q"

lemma pq_inv_run_call: "pq_inv q \<Longrightarrow> pq_inv (run_call c q)"
  by (cases c)
    (simp_all add: pq_inv_next pq_inv_previous pq_inv_replace pq_inv_play_at pq_inv_jump_first
      pq_inv_jump_last pq_inv_enqueue_end pq_inv_enqueue_next pq_inv_remove_path pq_inv_move_up
      pq_inv_move_down pq_inv_move_to pq_inv_set_shuffle pq_inv_reshuffle pq_inv_cycle_repeat)

inductive queue_reachable :: "'p PlayQueue \<Rightarrow> bool" where
  fresh: "queue_reachable empty_queue"
| restored: "queue_reachable (from_paths ps i sh rep)"
| called: "queue_reachable q \<Longrightarrow> queue_reachable (run_call c q)"

lemma queue_reachable_inv: "queue_reachable q \<Longrightarrow> pq_inv q"
  by (induction rule: queue_reachable.induct)
    (simp_all add: pq_inv_empty pq_inv_from_paths pq_inv_run_call)

primrec nexts :: "nat \<Rightarrow> 'p PlayQueue \<Rightarrow> 'p PlayQueue" where
  "nexts 0 q = q"
| "nexts (Suc n) q = nexts n (fst (next_track q))"

section \<open>Prefetching: the contract between the queue and the player\<close>

text \<open>
  The player prefetches what \<open>peek_next\<close> announces and later calls \<open>next\<close>.  The interface states
  what it relies on; the lemmas are proved once and hold of the queue by interpretation.
\<close>

locale prefetch_source =
  fixes step :: "'q \<Rightarrow> 'q \<times> 'p option"
    and peek :: "'q \<Rightarrow> 'p option"
    and playing :: "'q \<Rightarrow> 'p option"
    and inv :: "'q \<Rightarrow> bool"
  assumes inv_step: "inv q \<Longrightarrow> inv (fst (step q))"
    and peek_step: "inv q \<Longrightarrow> peek q = Some p \<Longrightarrow> snd (step q) = Some p"
    and step_playing: "inv q \<Longrightarrow> snd (step q) = Some p \<Longrightarrow> playing (fst (step q)) = Some p"
    and step_stop: "inv q \<Longrightarrow> snd (step q) = None \<Longrightarrow> fst (step q) = q"
begin

lemma prefetched_plays: "inv q \<Longrightarrow> peek q = Some p \<Longrightarrow> playing (fst (step q)) = Some p"
  by (blast intro: peek_step step_playing)

lemma stop_not_announced: "inv q \<Longrightarrow> snd (step q) = None \<Longrightarrow> peek q = None"
  using peek_step by (cases "peek q") auto

lemma inv_steps: "inv q \<Longrightarrow> inv (((\<lambda>q. fst (step q)) ^^ n) q)"
  by (induction n) (auto simp: inv_step)

end

lemma rebuild_order_head:
  assumes "pq_inv q" and "paths q \<noteq> []" and "shuffle q"
  shows "(case order (rebuild_order q) of [] \<Rightarrow> 0 | i # _ \<Rightarrow> i) = index q"
proof (cases "length (paths q) > 1")
  case True
  have "order (rebuild_order q) ! 0 = index q"
    using assms True by (intro rebuild_order_first pq_invD)
  moreover have "order (rebuild_order q) \<noteq> []"
    using assms(2) by (metis length_0_conv mset_rebuild_order order_perm(3) rebuild_order_frame(1))
  ultimately show ?thesis by (auto split: list.splits)
next
  case False
  with assms have "length (paths q) = 1" by (cases "paths q") auto
  with pq_invD(5) [OF assms(1)] show ?thesis by (simp add: rebuild_order_def Let_def)
qed

interpretation pq: prefetch_source next_track peek_next current pq_inv
proof
  fix q :: "'a PlayQueue" and p
  assume inv: "pq_inv q"
  then show "pq_inv (fst (next_track q))" by (rule pq_inv_next)
  show "snd (next_track q) = Some p" if "peek_next q = Some p"
    using that inv
    by (auto simp: peek_next_def next_track_def current_def Let_def split: if_splits)
  show "current (fst (next_track q)) = Some p" if "snd (next_track q) = Some p"
    using that by (auto simp: next_track_def Let_def split: if_splits)
  show "fst (next_track q) = q" if "snd (next_track q) = None"
  proof (cases "paths q = []")
    case True
    then show ?thesis by (simp add: next_track_def)
  next
    case False
    have "pq_inv (fst (next_track q))" using inv by (rule pq_inv_next)
    moreover have "paths (fst (next_track q)) = paths q"
      by (auto simp: next_track_def Let_def)
    ultimately have "current (fst (next_track q)) \<noteq> None"
      using False by (simp add: current_some)
    with that show ?thesis by (auto simp: next_track_def Let_def split: if_splits)
  qed
qed

section \<open>Walking the shuffle order\<close>

lemma order_pos_index:
  assumes "pq_inv q" and "k < length (order q)"
  shows "order_pos (q\<lparr>index := order q ! k\<rparr>) = k"
  using assms position_distinct [OF pq_invD(2) [OF assms(1)], of k]
  by (simp add: order_pos_def)

lemma nexts_shuffle:
  assumes "pq_inv q" and "shuffle q" and "repeat q \<noteq> One"
    and "order_pos q + n < length (order q)"
  shows "nexts n q = q\<lparr>index := order q ! (order_pos q + n)\<rparr>"
  using assms
proof (induction n arbitrary: q)
  case 0
  then have "paths q \<noteq> []" using pq_invD(4) by fastforce
  with 0 show ?case using pq_inv_order_pos(2) [of q] by simp
next
  case (Suc n)
  then have ne: "paths q \<noteq> []" using pq_invD(4) by fastforce
  let ?q = "q\<lparr>index := order q ! (order_pos q + 1)\<rparr>"
  have step: "fst (next_track q) = ?q"
    using Suc.prems ne by (simp add: next_track_def Let_def)
  have pos: "order_pos ?q = order_pos q + 1"
    using Suc.prems by (intro order_pos_index) auto
  have "pq_inv ?q" using pq_inv_next [OF Suc.prems(1)] step by simp
  then have "nexts n ?q = ?q\<lparr>index := order ?q ! (order_pos ?q + n)\<rparr>"
    using Suc.prems pos by (intro Suc.IH) auto
  with pos show ?case by (simp add: step [simplified])
qed

section \<open>Rearranging the queue\<close>

text \<open>The calls that reorder or extend the queue without choosing another track.\<close>

fun rearranges :: "'p queue_call \<Rightarrow> bool" where
  "rearranges (EnqueueEnd p) = True"
| "rearranges (EnqueueNext p) = True"
| "rearranges (MoveUp p) = True"
| "rearranges (MoveDown p) = True"
| "rearranges (MoveTo p n) = True"
| "rearranges (SetShuffle b) = True"
| "rearranges Reshuffle = True"
| "rearranges CycleRepeat = True"
| "rearranges _ = False"

lemma current_rebuild [simp]: "current (rebuild_order q) = current q"
  by (simp add: current_def)

lemma current_enqueue_end:
  "pq_inv q \<Longrightarrow> paths q \<noteq> [] \<Longrightarrow> current (fst (enqueue_end p q)) = current q"
  using pq_invD(1) [of q] by (auto simp: enqueue_end_def current_def get_at_def nth_append)

lemma current_enqueue_next:
  assumes "pq_inv q" and "paths q \<noteq> []"
  shows "current (fst (enqueue_next p q)) = current q"
proof -
  have ix: "index q < length (paths q)" using assms by (rule pq_invD(1))
  show ?thesis
  proof (cases "position (\<lambda>x. x = p) (paths q)")
    case None
    with ix assms(2) show ?thesis
      by (simp add: enqueue_next_def Let_def current_def get_at_def vec_simps)
  next
    case (Some i)
    then have "i < length (paths q)" by auto
    with ix Some show ?thesis
      by (auto simp: enqueue_next_def Let_def current_def get_at_def vec_simps)
  qed
qed

lemma current_move_up: "pq_inv q \<Longrightarrow> current (fst (move_up p q)) = current q"
  by (auto simp: move_up_def Let_def current_def get_at_def vec_simps split: option.splits)

lemma current_move_down: "pq_inv q \<Longrightarrow> current (fst (move_down p q)) = current q"
  by (auto simp: move_down_def Let_def current_def get_at_def vec_simps split: option.splits)

lemma current_move_to:
  assumes "pq_inv q" and "paths q \<noteq> []"
  shows "current (fst (move_to p n q)) = current q"
proof -
  have ix: "index q < length (paths q)" using assms by (rule pq_invD(1))
  have "get_at ps (case position (\<lambda>x. x = paths q ! index q) ps of None \<Rightarrow> index q | Some i \<Rightarrow> i)
      = Some (paths q ! index q)" if "mset ps = mset (paths q)" for ps
  proof -
    have "paths q ! index q \<in> set ps"
      using that ix by (metis mset_eq_setD nth_mem)
    then obtain i where "position (\<lambda>x. x = paths q ! index q) ps = Some i"
      using position_ex [of "paths q ! index q" ps "\<lambda>x. x = paths q ! index q"] by blast
    then show ?thesis by auto
  qed
  note moved = this
  show ?thesis
  proof (cases "shuffled_view q")
    case True
    then show ?thesis
      by (cases "display_pos_of_path p q") (simp_all add: move_to_def Let_def current_def)
  next
    case False
    then show ?thesis
    proof (cases "position (\<lambda>x. x = p) (paths q)")
      case None
      with False show ?thesis by (simp add: move_to_def)
    next
      case (Some k)
      then have "k < length (paths q)" by auto
      then show ?thesis
        using False Some ix assms(2) moved [OF mset_relocate]
        by (simp add: move_to_def Let_def current_def del: length_relocate)
    qed
  qed
qed

lemma current_rearranges:
  assumes "pq_inv q" and "paths q \<noteq> []" and "rearranges c"
  shows "current (run_call c q) = current q"
  using assms
  by (cases c)
    (simp_all add: current_enqueue_end current_enqueue_next current_move_up current_move_down
      current_move_to set_shuffle_def reshuffle_remaining_def cycle_repeat_def Let_def, simp_all add: current_def)

text \<open>The new paths a rearranging call adds; the others are only reordered.\<close>

fun added_paths :: "'p queue_call \<Rightarrow> 'p PlayQueue \<Rightarrow> 'p multiset" where
  "added_paths (EnqueueEnd p) q = (if p \<in> set (paths q) then {#} else {# p #})"
| "added_paths (EnqueueNext p) q = (if p \<in> set (paths q) then {#} else {# p #})"
| "added_paths c q = {#}"

lemma mset_enqueue_next:
  "mset (paths (fst (enqueue_next p q))) = mset (paths q) + added_paths (EnqueueNext p) q"
proof (cases "position (\<lambda>x. x = p) (paths q)")
  case None
  then have "p \<notin> set (paths q)" by (auto simp: position_None_iff)
  with None show ?thesis
    by (simp add: enqueue_next_def Let_def vec_simps)
next
  case (Some i)
  then have "i < length (paths q)" and "p \<in> set (paths q)" by auto
  with Some show ?thesis
    by (simp add: enqueue_next_def Let_def mset_relocate)
qed

lemma mset_move_to: "mset (paths (fst (move_to p n q))) = mset (paths q)"
  by (auto simp: move_to_def Let_def mset_relocate split: option.splits)

lemma mset_move_up: "mset (paths (fst (move_up p q))) = mset (paths q)"
  by (auto simp: move_up_def Let_def mset_swap_at split: option.splits)

lemma mset_move_down: "mset (paths (fst (move_down p q))) = mset (paths q)"
  by (auto simp: move_down_def Let_def mset_swap_at split: option.splits)

lemma mset_rearranges:
  "rearranges c \<Longrightarrow> mset (paths (run_call c q)) = mset (paths q) + added_paths c q"
  using mset_enqueue_next [of _ q]
  by (cases c)
    (simp_all add: mset_move_to mset_move_up mset_move_down enqueue_end_def set_shuffle_def
      reshuffle_remaining_def cycle_repeat_def Let_def)

section \<open>Properties\<close>

text \<open>
  C3. In every state the widget can reach, the current index addresses a track (or the queue is
  empty) and the shuffle order is a permutation of the track indices.
\<close>

theorem queue_invariant:
  assumes "queue_reachable q"
  shows "index q \<le> length (paths q) - 1 \<and> distinct (order q)
    \<and> set (order q) = {..<length (paths q)} \<and> (paths q \<noteq> [] \<longrightarrow> current q = Some (paths q ! index q))"
  using queue_reachable_inv [OF assms] by (intro conjI impI pq_invD current_some)

theorem queue_invariant_witness:
  "distinct (order (run_call (MoveUp 3) (run_call Reshuffle (from_paths [1 :: nat, 2, 3] 1 False All))))"
proof -
  have "queue_reachable (run_call (MoveUp 3) (run_call Reshuffle (from_paths [1 :: nat, 2, 3] 1 False All)))"
    by (intro queue_reachable.called queue_reachable.restored)
  from queue_invariant [OF this] show ?thesis by blast
qed

text \<open>
  What \<open>peek_next\<close> announces is what \<open>next\<close> plays, in every reachable state; and when \<open>next\<close>
  reports the end of the queue, nothing was announced and the state is unchanged.
\<close>

theorem peek_next_sound:
  assumes "queue_reachable q"
  shows "(peek_next q = Some p \<longrightarrow> snd (next_track q) = Some p \<and> current (fst (next_track q)) = Some p)
    \<and> (snd (next_track q) = None \<longrightarrow> peek_next q = None \<and> fst (next_track q) = q)"
proof -
  have inv: "pq_inv q" using assms by (rule queue_reachable_inv)
  show ?thesis
    using pq.peek_step [OF inv, of p] pq.prefetched_plays [OF inv, of p]
      pq.stop_not_announced [OF inv] pq.step_stop [OF inv] by auto
qed

theorem peek_next_sound_witness:
  "snd (next_track (from_paths [1 :: nat, 2, 3] 1 False Off)) = Some 3"
proof -
  have "peek_next (from_paths [1 :: nat, 2, 3] 1 False Off) = Some 3"
    by (simp add: from_paths_def rebuild_order_def peek_next_def)
  with peek_next_sound [OF queue_reachable.restored, of "[1, 2, 3]" 1 False Off 3]
  show ?thesis by blast
qed

text \<open>
  C14. With shuffle on and repeat not set to one track, a freshly built order plays every track
  exactly once: the indices reached by 0, 1, \<dots>, n - 1 calls of \<open>next\<close> from the current track are a
  permutation of all track indices, starting with the current one; with repeat off the call after
  that stops.
\<close>

theorem shuffle_plays_each_track_once:
  assumes "queue_reachable q" and "shuffle q" and "repeat q \<noteq> One" and "paths q \<noteq> []"
  defines "r \<equiv> rebuild_order q"
  defines "n \<equiv> length (paths q)"
  shows "mset (map (\<lambda>k. index (nexts k r)) [0..<n]) = mset [0..<n]
    \<and> index (nexts 0 r) = index q
    \<and> (repeat q = Off \<longrightarrow> snd (next_track (nexts (n - 1) r)) = None)"
proof -
  have inv: "pq_inv q" using assms(1) by (rule queue_reachable_inv)
  then have r: "pq_inv r" unfolding r_def by (intro pq_inv_rebuild pq_invD(5))
  have len: "length (order r) = n"
    using pq_invD(4) [OF r] by (simp add: r_def n_def)
  have pos0: "order r ! 0 = index q"
    using rebuild_order_head [OF inv assms(4,2)] len assms(4)
    by (cases "order r") (auto simp: r_def n_def)
  then have "order_pos (r\<lparr>index := order r ! 0\<rparr>) = 0"
    using len assms(4) by (intro order_pos_index [OF r]) (simp add: n_def)
  moreover have "r\<lparr>index := order r ! 0\<rparr> = r"
    by (rule PlayQueue.equality) (simp_all add: pos0 r_def [symmetric], simp add: r_def)
  ultimately have pos: "order_pos r = 0" by simp
  have st: "nexts k r = r\<lparr>index := order r ! k\<rparr>" if "k < n" for k
    using nexts_shuffle [OF r, of k] that assms(2,3) pos len by (simp add: r_def)
  have "map (\<lambda>k. index (nexts k r)) [0..<n] = order r"
    using st len by (intro nth_equalityI) auto
  moreover have "mset (order r) = mset [0..<n]"
    unfolding r_def n_def by (rule mset_rebuild_order)
  moreover have "snd (next_track (nexts (n - 1) r)) = None" if "repeat q = Off"
  proof -
    have n: "n - 1 < n" using assms(4) by (simp add: n_def)
    have "order_pos (r\<lparr>index := order r ! (n - 1)\<rparr>) = n - 1"
      using n len by (intro order_pos_index [OF r]) simp
    with n len that assms(2,4) show ?thesis
      unfolding st [OF n] by (simp add: next_track_def r_def)
  qed
  ultimately show ?thesis by (simp add: r_def)
qed

theorem shuffle_plays_each_track_once_witness:
  "mset (map (\<lambda>k. index (nexts k (rebuild_order (from_paths [1 :: nat, 2, 3] 1 True Off)))) [0..<3])
     = mset [0..<3]"
proof -
  let ?q = "from_paths [1 :: nat, 2, 3] 1 True Off"
  have h: "shuffle ?q" "repeat ?q \<noteq> One" "paths ?q \<noteq> []" and n: "length (paths ?q) = 3"
    by (simp_all add: from_paths_def)
  show ?thesis
    using shuffle_plays_each_track_once [OF queue_reachable.restored h] unfolding n by blast
qed

text \<open>
  At the end of the shuffle order with repeat-all, \<open>next\<close> rebuilds the order and starts it at
  its first entry, which is always the track that has just ended: the same track plays twice in a
  row whenever the queue wraps.
\<close>

theorem shuffle_wrap_repeats_track:
  assumes "queue_reachable q" and "shuffle q" and "repeat q = All" and "paths q \<noteq> []"
    and "order_pos q + 1 \<ge> length (order q)"
  shows "snd (next_track q) = current q \<and> index (fst (next_track q)) = index q"
  using assms rebuild_order_head [OF queue_reachable_inv [OF assms(1)] assms(4,2)]
  by (simp add: next_track_def Let_def current_def)

theorem shuffle_wrap_repeats_track_witness:
  "snd (next_track (nexts 2 (from_paths [1 :: nat, 2, 3] 0 True All)))
     = current (nexts 2 (from_paths [1 :: nat, 2, 3] 0 True All))"
proof -
  let ?q = "nexts 2 (from_paths [1 :: nat, 2, 3] 0 True All)"
  have "queue_reachable (run_call Next (run_call Next (from_paths [1 :: nat, 2, 3] 0 True All)))"
    by (intro queue_reachable.called queue_reachable.restored)
  then have "queue_reachable ?q" by (simp add: eval_nat_numeral(2))
  moreover have "from_paths [1 :: nat, 2, 3] 0 True All = \<lparr>paths = [1, 2, 3], index = 0,
      order = [0, Suc 0, Suc (Suc 0)], shuffle = True, repeat = All, shuffle_seed = 0\<rparr>"
    by (simp add: from_paths_def rebuild_order_def Let_def swap_at_def mod_Suc_Suc_0)
  then have "?q = \<lparr>paths = [1, 2, 3], index = Suc (Suc 0),
      order = [0, Suc 0, Suc (Suc 0)], shuffle = True, repeat = All, shuffle_seed = 0\<rparr>"
    by (simp only: numeral_2_eq_2) (simp add: next_track_def order_pos_def Let_def)
  ultimately show ?thesis
    using shuffle_wrap_repeats_track [of ?q] by (simp add: order_pos_def)
qed

text \<open>
  Reordering or extending the queue (enqueue, move up, down or to a position, shuffle,
  reshuffle, repeat) in any reachable non-empty state keeps the track that is playing and keeps
  every queued path, adding exactly the newly enqueued one.
\<close>

theorem rearranging_keeps_tracks:
  assumes "queue_reachable q" and "paths q \<noteq> []" and "rearranges c"
  shows "current (run_call c q) = current q
    \<and> mset (paths (run_call c q)) = mset (paths q) + added_paths c q"
  using current_rearranges [OF queue_reachable_inv [OF assms(1)] assms(2,3)] mset_rearranges [OF assms(3)]
  by blast

theorem rearranging_keeps_tracks_witness:
  "current (run_call (MoveTo 1 2) (from_paths [1 :: nat, 2, 3] 0 False Off))
     = current (from_paths [1 :: nat, 2, 3] 0 False Off)"
  using rearranging_keeps_tracks [OF queue_reachable.restored, of "[1 :: nat, 2, 3]" 0 False Off "MoveTo 1 2"]
  by (simp add: from_paths_def)

text \<open>
  Outside shuffle mode, \<open>enqueue_next\<close> of a path other than the one playing makes it the
  announced next track, unless one track is being repeated.
\<close>

theorem enqueue_next_plays_next:
  assumes "queue_reachable q" and "paths q \<noteq> []" and "\<not> shuffle q" and "repeat q \<noteq> One"
    and "position (\<lambda>x. x = p) (paths q) \<noteq> Some (index q)"
  shows "peek_next (fst (enqueue_next p q)) = Some p"
proof -
  have ix: "index q < length (paths q)"
    using queue_reachable_inv [OF assms(1)] assms(2) by (rule pq_invD(1))
  show ?thesis
  proof (cases "position (\<lambda>x. x = p) (paths q)")
    case None
    with ix assms(3,4) show ?thesis
      by (auto simp: enqueue_next_def Let_def peek_next_def vec_simps get_at_def)
  next
    case (Some i)
    then have "i < length (paths q)" and "paths q ! i = p" by auto
    with ix assms(3-5) Some show ?thesis
      by (auto simp: enqueue_next_def Let_def peek_next_def vec_simps get_at_def)
  qed
qed

theorem enqueue_next_plays_next_witness:
  "peek_next (fst (enqueue_next 3 (from_paths [1 :: nat, 2, 3] 0 False Off))) = Some 3"
  using enqueue_next_plays_next [OF queue_reachable.restored, of "[1 :: nat, 2, 3]" 0 False Off 3]
  by (simp add: from_paths_def)

end
