(* ===== verification/Ordered_Map.thy ===== *)
theory Ordered_Map
  imports Orchid_Prelude
begin

text \<open>
  \<open>BTreeMap\<close> as the sources use it: \<open>insert\<close>, \<open>get\<close>, \<open>contains_key\<close> and iteration in key order.
  The model is an association list kept in strictly increasing key order.  The interface
  \<open>ordered_map\<close> states what a client may rely on; the last law says that a map is determined by its
  lookups, which is why iteration order never depends on insertion order.
\<close>

fun om_insert :: "'k::linorder \<Rightarrow> 'v \<Rightarrow> ('k \<times> 'v) list \<Rightarrow> ('k \<times> 'v) list" where
  "om_insert k v [] = [(k, v)]"
| "om_insert k v (e # m) =
     (if k < fst e then (k, v) # e # m
      else if k = fst e then (k, v) # m
      else e # om_insert k v m)"

definition om_get :: "('k \<times> 'v) list \<Rightarrow> 'k \<Rightarrow> 'v option" where
  "om_get m k = map_of m k"

definition om_contains :: "('k \<times> 'v) list \<Rightarrow> 'k \<Rightarrow> bool" where
  "om_contains m k \<longleftrightarrow> om_get m k \<noteq> None"

definition om_values :: "('k \<times> 'v) list \<Rightarrow> 'v list" where
  "om_values m = map snd m"

definition om_inv :: "('k::linorder \<times> 'v) list \<Rightarrow> bool" where
  "om_inv m \<longleftrightarrow> sorted_wrt (<) (map fst m)"

lemma om_get_insert [simp]: "om_get (om_insert k v m) = (om_get m)(k \<mapsto> v)"
  unfolding om_get_def by (induction m) (auto simp: fun_eq_iff)

lemma om_get_Nil [simp]: "om_get [] k = None"
  by (simp add: om_get_def)

lemma fst_set_om_insert: "fst ` set (om_insert k v m) = insert k (fst ` set m)"
  by (induction m) auto

lemma om_inv_insert: "om_inv m \<Longrightarrow> om_inv (om_insert k v m)"
proof (induction m)
  case Nil
  then show ?case by (simp add: om_inv_def)
next
  case (Cons e m)
  then have e: "\<forall>x \<in> fst ` set m. fst e < x" and m: "om_inv m"
    by (auto simp: om_inv_def)
  have "\<forall>x \<in> fst ` set (om_insert k v m). fst e < x" if "fst e < k"
    using e that by (simp add: fst_set_om_insert)
  with Cons e m show ?case
    by (auto simp: om_inv_def)
qed

lemma om_insert_commute:
  "k \<noteq> k' \<Longrightarrow> om_insert k v (om_insert k' v' m) = om_insert k' v' (om_insert k v m)"
  by (induction m) auto

lemma om_inv_distinct: "om_inv m \<Longrightarrow> distinct (map fst m)"
  by (simp add: om_inv_def strict_sorted_iff)

lemma om_get_Some_iff: "om_inv m \<Longrightarrow> om_get m k = Some v \<longleftrightarrow> (k, v) \<in> set m"
  unfolding om_get_def by (rule map_of_eq_Some_iff [OF om_inv_distinct])

lemma om_values_mem: "om_inv m \<Longrightarrow> v \<in> set (om_values m) \<longleftrightarrow> (\<exists>k. om_get m k = Some v)"
  by (force simp: om_values_def om_get_Some_iff)

lemma om_get_inject:
  assumes "om_inv m" and "om_inv m'" and "om_get m = om_get m'"
  shows "m = m'"
proof -
  have "set m = set m'"
    using assms(3) om_get_Some_iff [OF assms(1)] om_get_Some_iff [OF assms(2)] by auto
  moreover have "inj_on fst (set m)"
    using om_inv_distinct [OF assms(1)] by (simp add: distinct_map)
  ultimately show ?thesis
    using assms(1,2)
    by (intro map_sorted_distinct_set_unique [where f = fst]) (auto simp: om_inv_def strict_sorted_iff)
qed

locale ordered_map =
  fixes empty :: "'m"
    and get :: "'m \<Rightarrow> 'k::linorder \<Rightarrow> 'v option"
    and ins :: "'k \<Rightarrow> 'v \<Rightarrow> 'm \<Rightarrow> 'm"
    and vals :: "'m \<Rightarrow> 'v list"
    and inv :: "'m \<Rightarrow> bool"
  assumes inv_empty: "inv empty"
    and inv_ins: "inv m \<Longrightarrow> inv (ins k v m)"
    and get_empty: "get empty k = None"
    and get_ins: "get (ins k v m) = (get m)(k \<mapsto> v)"
    and vals_get: "inv m \<Longrightarrow> v \<in> set (vals m) \<longleftrightarrow> (\<exists>k. get m k = Some v)"
    and get_inject: "inv m \<Longrightarrow> inv m' \<Longrightarrow> get m = get m' \<Longrightarrow> m = m'"
begin

lemma ins_same: "inv m \<Longrightarrow> ins k v (ins k w m) = ins k v m"
  by (intro get_inject inv_ins) (auto simp: get_ins)

lemma ins_known: "inv m \<Longrightarrow> get m k = Some v \<Longrightarrow> ins k v m = m"
  by (intro get_inject inv_ins) (auto simp: get_ins)

lemma ins_commute: "inv m \<Longrightarrow> k \<noteq> k' \<Longrightarrow> ins k v (ins k' v' m) = ins k' v' (ins k v m)"
  by (intro get_inject inv_ins) (auto simp: get_ins)

lemma vals_ins_fresh: "inv m \<Longrightarrow> get m k = None \<Longrightarrow> set (vals (ins k v m)) = insert v (set (vals m))"
  by (auto simp: vals_get inv_ins get_ins split: if_splits) (metis option.distinct(1))

lemma vals_empty: "vals empty = []"
  using vals_get [OF inv_empty, of "hd (vals empty)"] by (cases "vals empty") (auto simp: get_empty)

end

interpretation om: ordered_map "[]" om_get om_insert om_values om_inv
  by unfold_locales (auto simp: om_inv_insert om_values_mem om_get_inject om_inv_def [of "[]"])


end
