(* ===== verification/Crdt_Rga.thy ===== *)
theory Crdt_Rga
  imports Ordered_Map
begin

text \<open>
  The text CRDT of the structured region (crates/orchid-format/src/crdt/rga.rs): a set of insert
  and delete operations keyed by operation id, with per-actor counters and a Lamport clock, and
  \<open>materialize\<close>, which walks the tree of inserts.  Texts are their UTF-8 bytes.  Counters and clocks
  are \<open>u64\<close>; increments wrap as in the release profile.  \<open>HashMap\<close> fields that are never iterated
  are partial functions.
\<close>

section \<open>Operations and documents\<close>

datatype OpId = OpId (actor: u64) (counter: u64)

text \<open>The derived order of the Rust struct: by actor, then by counter.\<close>

instantiation OpId :: linorder
begin

definition less_eq_OpId :: "OpId \<Rightarrow> OpId \<Rightarrow> bool" where
  "less_eq_OpId a b \<longleftrightarrow> actor a < actor b \<or> actor a = actor b \<and> counter a \<le> counter b"

definition less_OpId :: "OpId \<Rightarrow> OpId \<Rightarrow> bool" where
  "less_OpId a b \<longleftrightarrow> actor a < actor b \<or> actor a = actor b \<and> counter a < counter b"

instance
  by standard (auto simp: less_eq_OpId_def less_OpId_def OpId.expand)

end

datatype Op =
    Insert OpId u64 "OpId option" bytes
  | Delete OpId u64 OpId

fun op_id :: "Op \<Rightarrow> OpId" where
  "op_id (Insert i l a t) = i"
| "op_id (Delete i l t) = i"

fun op_lamport :: "Op \<Rightarrow> u64" where
  "op_lamport (Insert i l a t) = l"
| "op_lamport (Delete i l t) = l"

record CrdtDocument =
  ops :: "(OpId \<times> Op) list"
  next_counter :: "u64 \<rightharpoonup> u64"
  lamport :: u64

definition crdt_new :: CrdtDocument where
  "crdt_new = \<lparr>ops = [], next_counter = Map.empty, lamport = 0\<rparr>"

definition counter_of :: "CrdtDocument \<Rightarrow> u64 \<Rightarrow> u64" where
  "counter_of d a = (case next_counter d a of None \<Rightarrow> 0 | Some c \<Rightarrow> c)"

definition next_id :: "u64 \<Rightarrow> CrdtDocument \<Rightarrow> CrdtDocument \<times> OpId" where
  "next_id a d =
    (let c = counter_of d a + 1
     in (d\<lparr>next_counter := (next_counter d)(a \<mapsto> c)\<rparr>, OpId a c))"

definition bump_lamport :: "u64 \<Rightarrow> CrdtDocument \<Rightarrow> CrdtDocument \<times> u64" where
  "bump_lamport observed d =
    (let l = max (lamport d) observed + 1 in (d\<lparr>lamport := l\<rparr>, l))"

definition apply_op :: "Op \<Rightarrow> CrdtDocument \<Rightarrow> CrdtDocument" where
  "apply_op x d =
    (let i = op_id x in
     if om_contains (ops d) i then d
     else d\<lparr>lamport := max (lamport d) (op_lamport x),
            next_counter := (next_counter d)(actor i \<mapsto> max (counter_of d (actor i)) (counter i)),
            ops := om_insert i x (ops d)\<rparr>)"

definition local_insert :: "u64 \<Rightarrow> OpId option \<Rightarrow> bytes \<Rightarrow> CrdtDocument \<Rightarrow> CrdtDocument \<times> OpId" where
  "local_insert a after text d =
    (let (d, i) = next_id a d;
         (d, l) = bump_lamport 0 d
     in (apply_op (Insert i l after text) d, i))"

definition local_delete :: "u64 \<Rightarrow> OpId \<Rightarrow> CrdtDocument \<Rightarrow> CrdtDocument \<times> OpId" where
  "local_delete a target d =
    (let (d, i) = next_id a d;
         (d, l) = bump_lamport 0 d
     in (apply_op (Delete i l target) d, i))"

definition merge :: "CrdtDocument \<Rightarrow> CrdtDocument \<Rightarrow> CrdtDocument" where
  "merge other d = fold apply_op (om_values (ops other)) d"

section \<open>Materialisation\<close>

fun delete_target :: "Op \<Rightarrow> OpId option" where
  "delete_target (Delete i l t) = Some t"
| "delete_target (Insert i l a t) = None"

definition deleted :: "CrdtDocument \<Rightarrow> OpId set" where
  "deleted d = set (List.map_filter delete_target (om_values (ops d)))"

text \<open>The \<open>BTreeMap<Option<OpId>, BTreeSet<OpId>>\<close> of children: a set is an ascending list.\<close>

type_synonym child_map = "OpId option \<rightharpoonup> OpId list"

fun add_child :: "Op \<Rightarrow> child_map \<Rightarrow> child_map" where
  "add_child (Insert i l a t) ch =
     ch(a \<mapsto> insort_insert i (case ch a of None \<Rightarrow> [] | Some s \<Rightarrow> s))"
| "add_child (Delete i l t) ch = ch"

definition children :: "CrdtDocument \<Rightarrow> child_map" where
  "children d = fold add_child (om_values (ops d)) Map.empty"

text \<open>
  The recursive \<open>walk\<close>.  The first argument bounds the recursion depth; \<open>None\<close> is running out of
  it.  \<open>materialize\<close> starts with one more than the number of operations, which
  \<open>materialize_total\<close> below shows to be enough for every document.
\<close>

primrec walk :: "nat \<Rightarrow> child_map \<Rightarrow> (OpId \<times> Op) list \<Rightarrow> OpId set \<Rightarrow> OpId option \<Rightarrow> bytes option" where
  "walk 0 ch os del node = None"
| "walk (Suc n) ch os del node =
    (case ch node of
       None \<Rightarrow> Some []
     | Some kids \<Rightarrow>
         map_option concat (those (map
           (\<lambda>child. case om_get os child of
              Some (Insert i l a text) \<Rightarrow>
                map_option (\<lambda>rest. (if child \<in> del then [] else text) @ rest)
                  (walk n ch os del (Some child))
            | _ \<Rightarrow> Some [])
           kids)))"

definition materialize :: "CrdtDocument \<Rightarrow> bytes option" where
  "materialize d = walk (Suc (length (ops d))) (children d) (ops d) (deleted d) None"

definition materialize_hash :: "(bytes \<Rightarrow> bytes) \<Rightarrow> CrdtDocument \<Rightarrow> bytes option" where
  "materialize_hash hash_bytes d = map_option hash_bytes (materialize d)"

section \<open>Applying operations in any order\<close>

lemma apply_op_known: "om_contains (ops d) (op_id x) \<Longrightarrow> apply_op x d = d"
  by (simp add: apply_op_def)

lemma om_get_apply_op:
  "om_get (ops (apply_op x d)) =
    (if om_contains (ops d) (op_id x) then om_get (ops d) else (om_get (ops d))(op_id x \<mapsto> x))"
  by (simp add: apply_op_def Let_def)

lemma counter_of_apply_op:
  "counter_of (apply_op x d) a =
    (if \<not> om_contains (ops d) (op_id x) \<and> a = actor (op_id x)
     then max (counter_of d a) (counter (op_id x)) else counter_of d a)"
  by (simp add: apply_op_def Let_def counter_of_def)

lemma apply_op_idem: "apply_op x (apply_op x d) = apply_op x d"
  by (rule apply_op_known) (auto simp: om_contains_def om_get_apply_op)

lemma apply_op_commute:
  assumes "op_id x = op_id y \<Longrightarrow> x = y"
  shows "apply_op x (apply_op y d) = apply_op y (apply_op x d)"
proof (cases "op_id x = op_id y")
  case True
  with assms show ?thesis by simp
next
  case False
  have c: "om_contains (ops (apply_op x d)) (op_id y) = om_contains (ops d) (op_id y)"
    "om_contains (ops (apply_op y d)) (op_id x) = om_contains (ops d) (op_id x)"
    using False by (auto simp: om_contains_def om_get_apply_op)
  show ?thesis
  proof (cases "om_contains (ops d) (op_id x) \<or> om_contains (ops d) (op_id y)")
    case True
    then show ?thesis using c by (auto simp: apply_op_known)
  next
    case new: False
    then show ?thesis
      using c False
      by (simp add: apply_op_def [of x "apply_op y d"] apply_op_def [of y "apply_op x d"],
          simp add: apply_op_def Let_def om_insert_commute counter_of_def max.commute max.left_commute
            fun_upd_twist)
  qed
qed

definition consistent :: "Op set \<Rightarrow> bool" where
  "consistent S \<longleftrightarrow> (\<forall>x \<in> S. \<forall>y \<in> S. op_id x = op_id y \<longrightarrow> x = y)"

lemma apply_op_comp_fun_idem: "consistent S \<Longrightarrow> comp_fun_idem_on S apply_op"
  by unfold_locales
    (auto simp: fun_eq_iff apply_op_idem consistent_def intro!: apply_op_commute)

lemma fold_apply_op_set:
  assumes "consistent S" and "set xs \<subseteq> S" and "set ys = set xs"
  shows "fold apply_op xs d = fold apply_op ys d"
proof -
  note idem = apply_op_comp_fun_idem [OF assms(1)]
  from assms(2,3) show ?thesis
    by (metis comp_fun_idem_on.fold_set_fold [OF idem])
qed

section \<open>Document invariant and replicas\<close>

text \<open>
  Every entry is stored under its own id, and the per-actor counters are never behind the ids that
  are stored.
\<close>

definition doc_inv :: "CrdtDocument \<Rightarrow> bool" where
  "doc_inv d \<longleftrightarrow> om_inv (ops d)
     \<and> (\<forall>k x. om_get (ops d) k = Some x \<longrightarrow> op_id x = k \<and> counter k \<le> counter_of d (actor k))"

lemma doc_inv_new: "doc_inv crdt_new"
  by (simp add: doc_inv_def crdt_new_def om_inv_def)

lemma doc_inv_apply_op: "doc_inv d \<Longrightarrow> doc_inv (apply_op x d)"
  by (auto simp: doc_inv_def om_get_apply_op counter_of_apply_op le_max_iff_disj)
    (auto simp: apply_op_def Let_def om_inv_insert, metis)

lemma doc_inv_fold: "doc_inv d \<Longrightarrow> doc_inv (fold apply_op xs d)"
  by (induction xs arbitrary: d) (auto simp: doc_inv_apply_op)

lemma doc_values_mem:
  "doc_inv d \<Longrightarrow> x \<in> set (om_values (ops d)) \<longleftrightarrow> om_get (ops d) (op_id x) = Some x"
  by (auto simp: doc_inv_def om_values_mem)

lemma doc_values_consistent: "doc_inv d \<Longrightarrow> consistent (set (om_values (ops d)))"
  by (auto simp: consistent_def doc_values_mem)

lemma word_less_inc: "x \<noteq> - 1 \<Longrightarrow> x < x + 1" for x :: u64
proof -
  assume "x \<noteq> - 1"
  moreover have "x = - 1" if "unat x = 2 ^ 64 - 1"
  proof -
    have "x = of_nat (unat x)" by simp
    also have "\<dots> = - 1" by (simp only: that) simp
    finally show ?thesis .
  qed
  ultimately have "unat x \<noteq> 2 ^ 64 - 1" by blast
  moreover have "unat x < 2 ^ 64"
    using unsigned_less [of x, where 'a = nat] by simp
  ultimately have "unat (x + 1) = unat x + 1"
    by (simp add: unat_word_ariths)
  then show ?thesis by (simp add: word_less_nat_alt)
qed

text \<open>
  A replica: a document built from the empty one by local edits, remote operations and merges.
  Local edits require that the actor's counter and the Lamport clock have not reached \<open>u64::MAX\<close>.
\<close>

inductive replica :: "CrdtDocument \<Rightarrow> bool" where
  new: "replica crdt_new"
| remote: "replica d \<Longrightarrow> replica (apply_op x d)"
| inserted: "replica d \<Longrightarrow> counter_of d a \<noteq> - 1 \<Longrightarrow> lamport d \<noteq> - 1 \<Longrightarrow>
    replica (fst (local_insert a after text d))"
| deleted: "replica d \<Longrightarrow> counter_of d a \<noteq> - 1 \<Longrightarrow> lamport d \<noteq> - 1 \<Longrightarrow>
    replica (fst (local_delete a target d))"
| merged: "replica d \<Longrightarrow> replica e \<Longrightarrow> replica (merge e d)"

lemma local_fresh:
  assumes "doc_inv d" and "counter_of d a \<noteq> - 1"
  shows "\<not> om_contains (ops d) (OpId a (counter_of d a + 1))"
proof
  assume "om_contains (ops d) (OpId a (counter_of d a + 1))"
  with assms(1) have "counter_of d a + 1 \<le> counter_of d a"
    by (force simp: om_contains_def doc_inv_def)
  with word_less_inc [OF assms(2)] show False by simp
qed

lemma local_edit_as_remote:
  assumes "doc_inv d" and "counter_of d a \<noteq> - 1" and "lamport d \<noteq> - 1"
    and "op_id x = OpId a (counter_of d a + 1)" and "op_lamport x = lamport d + 1"
  shows "apply_op x (d\<lparr>next_counter := (next_counter d)(a \<mapsto> counter_of d a + 1),
      lamport := lamport d + 1\<rparr>) = apply_op x d"
  using local_fresh [OF assms(1,2)] assms(4,5) word_less_inc [OF assms(2)] word_less_inc [OF assms(3)]
  by (simp add: apply_op_def Let_def counter_of_def max_def split: option.splits)

lemma local_insert_as_remote:
  assumes "doc_inv d" and "counter_of d a \<noteq> - 1" and "lamport d \<noteq> - 1"
  shows "local_insert a after text d =
    (apply_op (Insert (OpId a (counter_of d a + 1)) (lamport d + 1) after text) d,
     OpId a (counter_of d a + 1))"
  using local_edit_as_remote [OF assms, of "Insert (OpId a (counter_of d a + 1)) (lamport d + 1) after text"]
  by (simp add: local_insert_def next_id_def bump_lamport_def Let_def)

lemma local_delete_as_remote:
  assumes "doc_inv d" and "counter_of d a \<noteq> - 1" and "lamport d \<noteq> - 1"
  shows "local_delete a target d =
    (apply_op (Delete (OpId a (counter_of d a + 1)) (lamport d + 1) target) d,
     OpId a (counter_of d a + 1))"
  using local_edit_as_remote [OF assms, of "Delete (OpId a (counter_of d a + 1)) (lamport d + 1) target"]
  by (simp add: local_delete_def next_id_def bump_lamport_def Let_def)

lemma replica_inv: "replica d \<Longrightarrow> doc_inv d"
  by (induction rule: replica.induct)
    (auto simp: doc_inv_new doc_inv_apply_op local_insert_as_remote local_delete_as_remote
      merge_def doc_inv_fold)

text \<open>A replica is rebuilt by replaying the operations it stores, in any order.\<close>

definition replayed :: "CrdtDocument \<Rightarrow> bool" where
  "replayed d \<longleftrightarrow> (\<exists>xs. d = fold apply_op xs crdt_new \<and> set xs = set (om_values (ops d)))"

lemma values_apply_op_new:
  assumes "doc_inv d" and "\<not> om_contains (ops d) (op_id x)"
  shows "set (om_values (ops (apply_op x d))) = insert x (set (om_values (ops d)))"
  using assms by (simp add: apply_op_def Let_def doc_inv_def om_contains_def om.vals_ins_fresh)

lemma replayed_apply_op:
  assumes "doc_inv d" and "replayed d"
  shows "replayed (apply_op x d)"
proof (cases "om_contains (ops d) (op_id x)")
  case True
  with assms show ?thesis by (simp add: apply_op_known)
next
  case False
  from assms(2) obtain xs where xs: "d = fold apply_op xs crdt_new" "set xs = set (om_values (ops d))"
    by (auto simp: replayed_def)
  then have "apply_op x d = fold apply_op (xs @ [x]) crdt_new" by simp
  moreover have "set (xs @ [x]) = set (om_values (ops (apply_op x d)))"
    using xs(2) values_apply_op_new [OF assms(1) False] by simp
  ultimately show ?thesis unfolding replayed_def by blast
qed

lemma replayed_fold: "doc_inv d \<Longrightarrow> replayed d \<Longrightarrow> replayed (fold apply_op xs d)"
  by (induction xs arbitrary: d) (auto simp: doc_inv_apply_op replayed_apply_op)

lemma replica_replayed: "replica d \<Longrightarrow> replayed d"
proof (induction rule: replica.induct)
  case new
  have "crdt_new = fold apply_op [] crdt_new" and "set [] = set (om_values (ops crdt_new))"
    by (simp_all add: crdt_new_def om_values_def)
  then show ?case unfolding replayed_def by blast
qed (auto simp: replica_inv replayed_apply_op local_insert_as_remote local_delete_as_remote
    merge_def replayed_fold)

lemma replica_canonical:
  assumes "replica d" and "set ys = set (om_values (ops d))"
  shows "d = fold apply_op ys crdt_new"
proof -
  obtain xs where xs: "d = fold apply_op xs crdt_new" "set xs = set (om_values (ops d))"
    using replica_replayed [OF assms(1)] by (auto simp: replayed_def)
  have "fold apply_op xs crdt_new = fold apply_op ys crdt_new"
    using doc_values_consistent [OF replica_inv [OF assms(1)]] xs(2) assms(2)
    by (intro fold_apply_op_set) auto
  with xs(1) show ?thesis by simp
qed

section \<open>Merging\<close>

lemma fold_apply_op_known:
  "(\<And>x. x \<in> set xs \<Longrightarrow> om_contains (ops d) (op_id x)) \<Longrightarrow> fold apply_op xs d = d"
  by (induction xs) (auto simp: apply_op_known)

lemma merge_idem: "doc_inv d \<Longrightarrow> merge d d = d"
  unfolding merge_def by (rule fold_apply_op_known) (simp add: doc_values_mem om_contains_def)

lemma merge_commute:
  assumes "replica a" and "replica b"
    and "consistent (set (om_values (ops a)) \<union> set (om_values (ops b)))"
  shows "merge b a = merge a b"
proof -
  let ?A = "om_values (ops a)" and ?B = "om_values (ops b)"
  have "merge b a = fold apply_op (?A @ ?B) crdt_new"
    using replica_canonical [OF assms(1), of ?A] by (simp add: merge_def)
  also have "\<dots> = fold apply_op (?B @ ?A) crdt_new"
    using assms(3) by (intro fold_apply_op_set) auto
  also have "\<dots> = merge a b"
    using replica_canonical [OF assms(2), of ?B] by (simp add: merge_def)
  finally show ?thesis .
qed

lemma values_fold:
  assumes "doc_inv d" and "consistent (set (om_values (ops d)) \<union> set xs)"
  shows "set (om_values (ops (fold apply_op xs d))) = set (om_values (ops d)) \<union> set xs"
  using assms
proof (induction xs arbitrary: d)
  case Nil
  then show ?case by simp
next
  case (Cons x xs)
  have v: "set (om_values (ops (apply_op x d))) = insert x (set (om_values (ops d)))"
  proof (cases "om_contains (ops d) (op_id x)")
    case True
    then obtain y where y: "om_get (ops d) (op_id x) = Some y" by (auto simp: om_contains_def)
    then have iy: "op_id y = op_id x" using Cons.prems(1) by (auto simp: doc_inv_def)
    then have "y \<in> set (om_values (ops d))" using y Cons.prems(1) by (simp add: doc_values_mem)
    with iy Cons.prems(2) have "x = y" by (auto simp: consistent_def)
    with True \<open>y \<in> _\<close> show ?thesis by (auto simp: apply_op_known)
  next
    case False
    then show ?thesis using Cons.prems(1) by (simp add: values_apply_op_new)
  qed
  have "set (om_values (ops (fold apply_op xs (apply_op x d))))
      = set (om_values (ops (apply_op x d))) \<union> set xs"
    using Cons.prems v by (intro Cons.IH) (auto simp: doc_inv_apply_op consistent_def)
  with v show ?case by auto
qed

lemma merge_assoc:
  assumes "doc_inv b" "consistent (set (om_values (ops b)) \<union> set (om_values (ops c)))"
  shows "merge (merge c b) a = merge c (merge b a)"
proof -
  let ?B = "om_values (ops b)" and ?C = "om_values (ops c)"
  have "set (om_values (ops (merge c b))) = set ?B \<union> set ?C"
    unfolding merge_def by (rule values_fold [OF assms(1,2)])
  then have "fold apply_op (om_values (ops (merge c b))) a = fold apply_op (?B @ ?C) a"
    using assms(2) by (intro fold_apply_op_set) auto
  then show ?thesis by (simp add: merge_def)
qed

section \<open>The tree of inserts\<close>

definition parent :: "CrdtDocument \<Rightarrow> OpId \<Rightarrow> OpId option option" where
  "parent d c = (case om_get (ops d) c of Some (Insert i l a t) \<Rightarrow> Some a | _ \<Rightarrow> None)"

definition child_list :: "child_map \<Rightarrow> OpId option \<Rightarrow> OpId list" where
  "child_list ch p = (case ch p of None \<Rightarrow> [] | Some ks \<Rightarrow> ks)"

definition kids_of :: "CrdtDocument \<Rightarrow> OpId option \<Rightarrow> OpId list" where
  "kids_of d = child_list (children d)"

definition text_of :: "CrdtDocument \<Rightarrow> OpId \<Rightarrow> bytes" where
  "text_of d c = (case om_get (ops d) c of Some (Insert i l a t) \<Rightarrow> t | _ \<Rightarrow> [])"

lemma child_list_add:
  "child_list (add_child (Insert i l a t) ch) p =
    (if p = a then insort_insert i (child_list ch a) else child_list ch p)"
  "child_list (add_child (Delete i l u) ch) p = child_list ch p"
  by (simp_all add: child_list_def)

lemma set_children_fold:
  "set (child_list (fold add_child xs ch) p) = set (child_list ch p) \<union> {i. \<exists>l t. Insert i l p t \<in> set xs}"
proof (induction xs arbitrary: ch)
  case Nil
  then show ?case by simp
next
  case (Cons x xs)
  then show ?case
    by (cases x) (auto simp: Cons.IH child_list_add set_insort_insert simp del: add_child.simps)
qed

lemma sorted_children_fold:
  "\<forall>p. sorted (child_list ch p) \<and> distinct (child_list ch p) \<Longrightarrow>
   sorted (child_list (fold add_child xs ch) p) \<and> distinct (child_list (fold add_child xs ch) p)"
proof (induction xs arbitrary: ch)
  case Nil
  then show ?case by simp
next
  case (Cons x xs)
  from Cons.prems have "\<forall>p. sorted (child_list (add_child x ch) p) \<and> distinct (child_list (add_child x ch) p)"
    by (cases x) (simp_all add: child_list_add sorted_insort_insert distinct_insort_insert del: add_child.simps)
  with Cons.IH show ?case by simp
qed

lemma parent_Some_iff:
  "doc_inv d \<Longrightarrow> parent d c = Some p \<longleftrightarrow> (\<exists>l t. Insert c l p t \<in> set (om_values (ops d)))"
  by (force simp: parent_def doc_values_mem doc_inv_def split: option.splits Op.splits)

lemma kids_of_props:
  assumes "doc_inv d"
  shows "set (kids_of d p) = {c. parent d c = Some p}"
    and "sorted (kids_of d p)" and "distinct (kids_of d p)"
  using set_children_fold [of "om_values (ops d)" Map.empty p] parent_Some_iff [OF assms]
    sorted_children_fold [of Map.empty "om_values (ops d)" p]
  by (simp_all add: kids_of_def children_def child_list_def [of Map.empty])

text \<open>The depth of a node below the root: the length of its chain of parents.\<close>

inductive depth :: "CrdtDocument \<Rightarrow> nat \<Rightarrow> OpId \<Rightarrow> bool" for d where
  top: "parent d c = Some None \<Longrightarrow> depth d 0 c"
| below: "parent d c = Some (Some p) \<Longrightarrow> depth d k p \<Longrightarrow> depth d (Suc k) c"

inductive_cases depth_0E: "depth d 0 c"
inductive_cases depth_SucE: "depth d (Suc k) c"

lemma depth_unique: "depth d j c \<Longrightarrow> depth d k c \<Longrightarrow> j = k"
proof (induction arbitrary: k rule: depth.induct)
  case (top c)
  from top.prems show ?case by (cases rule: depth.cases) (use top.hyps in auto)
next
  case (below c p j)
  from below.prems show ?case
  proof (cases rule: depth.cases)
    case top
    then show ?thesis using below.hyps(1) by simp
  next
    case (below p' k')
    then show ?thesis using below.hyps below.IH [of k'] by simp
  qed
qed

lemma depth_parent: "depth d k c \<Longrightarrow> parent d c \<noteq> None"
  by (cases rule: depth.cases) auto

lemma depth_ancestors:
  "depth d k c \<Longrightarrow> \<exists>S. finite S \<and> card S = Suc k \<and> (\<forall>x \<in> S. \<exists>j \<le> k. depth d j x)"
proof (induction rule: depth.induct)
  case (top c)
  then have "depth d 0 c" by (rule depth.top)
  then show ?case by (intro exI [of _ "{c}"]) auto
next
  case (below c p k)
  then obtain S where S: "finite S" "card S = Suc k" "\<forall>x \<in> S. \<exists>j \<le> k. depth d j x" by blast
  have c: "depth d (Suc k) c" using below.hyps by (rule depth.below)
  have "c \<notin> S"
  proof
    assume "c \<in> S"
    then obtain j where "j \<le> k" and "depth d j c" using S(3) by blast
    with depth_unique [OF c] show False by fastforce
  qed
  with S have "finite (insert c S) \<and> card (insert c S) = Suc (Suc k)
      \<and> (\<forall>x \<in> insert c S. \<exists>j \<le> Suc k. depth d j x)"
    using c by (auto intro: le_SucI)
  then show ?case by blast
qed

lemma depth_bound:
  assumes "depth d k c"
  shows "k < length (ops d)"
proof -
  obtain S where S: "card S = Suc k" "\<forall>x \<in> S. \<exists>j \<le> k. depth d j x"
    using depth_ancestors [OF assms] by blast
  have "S \<subseteq> set (map fst (ops d))"
  proof
    fix x assume "x \<in> S"
    with S(2) have "parent d x \<noteq> None" by (auto dest: depth_parent)
    then have "map_of (ops d) x \<noteq> None" by (auto simp: parent_def om_get_def split: option.splits)
    then show "x \<in> set (map fst (ops d))" by (simp add: map_of_eq_None_iff)
  qed
  then have "card S \<le> card (set (map fst (ops d)))" by (intro card_mono) auto
  also have "\<dots> \<le> length (ops d)" by (metis card_length length_map)
  finally show ?thesis using S(1) by simp
qed

text \<open>\<open>level d n p\<close>: the children of \<open>p\<close> have depth \<open>n\<close>.\<close>

definition level :: "CrdtDocument \<Rightarrow> nat \<Rightarrow> OpId option \<Rightarrow> bool" where
  "level d n p \<longleftrightarrow> (case p of None \<Rightarrow> n = 0 | Some c \<Rightarrow> (\<exists>k. n = Suc k \<and> depth d k c))"

lemma level_root [simp]: "level d 0 None"
  by (simp add: level_def)

lemma level_child: "level d n p \<Longrightarrow> parent d c = Some p \<Longrightarrow> depth d n c"
  by (auto simp: level_def intro: depth.intros split: option.splits)

lemma level_Some: "depth d n c \<Longrightarrow> level d (Suc n) (Some c)"
  by (simp add: level_def)

lemma level_bound: "level d n p \<Longrightarrow> n \<le> length (ops d)"
  by (auto simp: level_def Suc_le_eq dest: depth_bound split: option.splits)

section \<open>Visiting order\<close>

primrec visit :: "nat \<Rightarrow> (OpId option \<Rightarrow> OpId list) \<Rightarrow> OpId option \<Rightarrow> OpId list" where
  "visit 0 ks p = []"
| "visit (Suc n) ks p = concat (map (\<lambda>c. c # visit n ks (Some c)) (ks p))"

definition preorder :: "CrdtDocument \<Rightarrow> OpId list" where
  "preorder d = visit (Suc (length (ops d))) (kids_of d) None"

definition shown :: "CrdtDocument \<Rightarrow> OpId set \<Rightarrow> OpId \<Rightarrow> bytes" where
  "shown d del c = (if c \<in> del then [] else text_of d c)"

lemma those_map_Some: "(\<And>x. x \<in> set xs \<Longrightarrow> f x = Some (g x)) \<Longrightarrow> those (map f xs) = Some (map g xs)"
  by (induction xs) auto

lemma concat_map_concat: "concat (map f (concat xss)) = concat (map (\<lambda>xs. concat (map f xs)) xss)"
  by (induction xss) auto

lemma walk_visit:
  assumes "doc_inv d" and "level d n p" and "length (ops d) < m + n"
  shows "walk m (children d) (ops d) del p = Some (concat (map (shown d del) (visit m (kids_of d) p)))"
  using assms(2,3)
proof (induction m arbitrary: n p)
  case 0
  then show ?case using level_bound [of d n p] by simp
next
  case (Suc m)
  show ?case
  proof (cases "children d p")
    case None
    then show ?thesis by (simp add: kids_of_def child_list_def)
  next
    case (Some kids)
    then have kids: "kids = kids_of d p" by (simp add: kids_of_def child_list_def)
    have step: "(case om_get (ops d) c of
              Some (Insert i l a text) \<Rightarrow>
                map_option (\<lambda>rest. (if c \<in> del then [] else text) @ rest)
                  (walk m (children d) (ops d) del (Some c))
            | _ \<Rightarrow> Some []) =
        Some (concat (map (shown d del) (c # visit m (kids_of d) (Some c))))" if "c \<in> set kids" for c
    proof -
      from that have par: "parent d c = Some p" by (simp add: kids kids_of_props [OF assms(1)])
      then obtain l t where get: "om_get (ops d) c = Some (Insert c l p t)"
        using assms(1) by (fastforce simp: parent_def doc_inv_def split: option.splits Op.splits)
      have "level d (Suc n) (Some c)" using level_child [OF Suc.prems(1) par] by (rule level_Some)
      then have "walk m (children d) (ops d) del (Some c)
          = Some (concat (map (shown d del) (visit m (kids_of d) (Some c))))"
        using Suc.prems(2) by (intro Suc.IH) auto
      with get show ?thesis by (simp add: shown_def text_of_def)
    qed
    show ?thesis
      using those_map_Some [of kids, OF step] Some
      by (simp add: kids concat_map_concat comp_def)
  qed
qed

lemma materialize_visit:
  assumes "doc_inv d"
  shows "materialize d = Some (concat (map (shown d (deleted d)) (preorder d)))"
  unfolding materialize_def preorder_def
  by (rule walk_visit [OF assms level_root]) simp

text \<open>Every node of the tree is visited, and visited once.\<close>

lemma visit_sound:
  assumes "doc_inv d" and "level d n p" and "x \<in> set (visit m (kids_of d) p)"
  shows "\<exists>k. depth d k x"
  using assms(2,3)
proof (induction m arbitrary: n p)
  case 0
  then show ?case by simp
next
  case (Suc m)
  from Suc.prems(2) obtain c where c: "c \<in> set (kids_of d p)"
    and x: "x = c \<or> x \<in> set (visit m (kids_of d) (Some c))" by auto
  from c have "depth d n c"
    using level_child [OF Suc.prems(1)] by (simp add: kids_of_props [OF assms(1)])
  then show ?case using x Suc.IH [OF level_Some] by blast
qed

lemma visit_mono: "set (visit m ks p) \<subseteq> set (visit (Suc m) ks p)"
proof (induction m arbitrary: p)
  case 0
  then show ?case by simp
next
  case (Suc m)
  have "set (c # visit m ks (Some c)) \<subseteq> set (c # visit (Suc m) ks (Some c))" for c
    using Suc.IH by (simp only: set_simps) blast
  then have "\<Union> ((\<lambda>c. set (c # visit m ks (Some c))) ` set (ks p))
      \<subseteq> \<Union> ((\<lambda>c. set (c # visit (Suc m) ks (Some c))) ` set (ks p))" by blast
  then show ?case
    by (simp only: visit.simps(2) [of "Suc m"] visit.simps(2) [of m ks p] set_concat set_map image_image)
qed

lemma visit_mono_le: "m \<le> m' \<Longrightarrow> set (visit m ks p) \<subseteq> set (visit m' ks p)"
  by (induction m' rule: dec_induct) (use visit_mono in blast)+

lemma visit_extend:
  "q \<in> set (visit m ks p) \<Longrightarrow> c \<in> set (ks (Some q)) \<Longrightarrow> c \<in> set (visit (Suc m) ks p)"
proof (induction m arbitrary: p)
  case 0
  then show ?case by simp
next
  case (Suc m)
  from Suc.prems(1) obtain x where x: "x \<in> set (ks p)" "q = x \<or> q \<in> set (visit m ks (Some x))"
    by auto
  have "c \<in> set (visit (Suc m) ks (Some x))"
  proof (cases "q = x")
    case True
    then show ?thesis using Suc.prems(2) by auto
  next
    case False
    then show ?thesis using x Suc by blast
  qed
  with x(1) show ?case by (simp only: visit.simps(2) [of "Suc m"]) auto
qed

lemma visit_complete: "doc_inv d \<Longrightarrow> depth d k c \<Longrightarrow> c \<in> set (visit (Suc k) (kids_of d) None)"
proof (induction k arbitrary: c)
  case 0
  then show ?case by (auto elim: depth_0E simp: kids_of_props)
next
  case (Suc k)
  from Suc.prems(2) obtain p where p: "parent d c = Some (Some p)" "depth d k p"
    by (rule depth_SucE)
  from visit_extend [OF Suc.IH [OF Suc.prems(1) p(2)]] p(1) Suc.prems(1) show ?case
    by (simp add: kids_of_props del: visit.simps)
qed

lemma set_preorder:
  assumes "doc_inv d"
  shows "set (preorder d) = {c. \<exists>k. depth d k c}"
proof (intro set_eqI iffI)
  fix c assume "c \<in> set (preorder d)"
  then show "c \<in> {c. \<exists>k. depth d k c}"
    using visit_sound [OF assms level_root] by (simp add: preorder_def del: visit.simps)
next
  fix c assume "c \<in> {c. \<exists>k. depth d k c}"
  then obtain k where k: "depth d k c" by blast
  then have "Suc k \<le> Suc (length (ops d))" using depth_bound [OF k] by simp
  from visit_mono_le [OF this] show "c \<in> set (preorder d)"
    using visit_complete [OF assms k] unfolding preorder_def by blast
qed

primrec up :: "CrdtDocument \<Rightarrow> nat \<Rightarrow> OpId \<Rightarrow> OpId option" where
  "up d 0 x = Some x"
| "up d (Suc i) x = (case up d i x of None \<Rightarrow> None | Some y \<Rightarrow>
     (case parent d y of Some (Some p) \<Rightarrow> Some p | _ \<Rightarrow> None))"

lemma visit_up:
  assumes "doc_inv d" and "depth d n c" and "x \<in> set (c # visit m (kids_of d) (Some c))"
  shows "\<exists>i. up d i x = Some c \<and> depth d (n + i) x"
  using assms(2,3)
proof (induction m arbitrary: n c)
  case 0
  then show ?case by (intro exI [of _ 0]) auto
next
  case (Suc m)
  show ?case
  proof (cases "x = c")
    case True
    then show ?thesis using Suc.prems(1) by (intro exI [of _ 0]) auto
  next
    case False
    with Suc.prems(2) obtain y where y: "parent d y = Some (Some c)"
      and x: "x \<in> set (y # visit m (kids_of d) (Some y))"
      by (auto simp: kids_of_props [OF assms(1)])
    have "depth d (Suc n) y" using y Suc.prems(1) by (rule depth.below)
    from Suc.IH [OF this x] obtain i where "up d i x = Some y" "depth d (Suc n + i) x" by blast
    with y show ?thesis by (intro exI [of _ "Suc i"]) simp
  qed
qed

lemma visit_disjoint:
  assumes "doc_inv d" and "depth d n a" and "depth d n b"
    and "x \<in> set (a # visit m (kids_of d) (Some a))" and "x \<in> set (b # visit m (kids_of d) (Some b))"
  shows "a = b"
proof -
  obtain i where i: "up d i x = Some a" "depth d (n + i) x"
    using visit_up [OF assms(1,2,4)] by blast
  obtain j where j: "up d j x = Some b" "depth d (n + j) x"
    using visit_up [OF assms(1,3,5)] by blast
  have "i = j" using depth_unique [OF i(2) j(2)] by simp
  with i(1) j(1) show ?thesis by simp
qed

lemma distinct_concat_map:
  assumes "distinct xs" and "\<And>x. x \<in> set xs \<Longrightarrow> distinct (f x)"
    and "\<And>x y z. x \<in> set xs \<Longrightarrow> y \<in> set xs \<Longrightarrow> z \<in> set (f x) \<Longrightarrow> z \<in> set (f y) \<Longrightarrow> x = y"
  shows "distinct (concat (map f xs))"
  using assms
proof (induction xs)
  case Nil
  then show ?case by simp
next
  case (Cons x xs)
  have "distinct (concat (map f xs))"
    using Cons.prems by (intro Cons.IH) auto
  moreover have "set (f x) \<inter> set (concat (map f xs)) = {}"
    using Cons.prems(1) Cons.prems(3) [of x] by fastforce
  ultimately show ?case using Cons.prems(2) by simp
qed

lemma distinct_visit:
  assumes "doc_inv d" and "level d n p"
  shows "distinct (visit m (kids_of d) p)"
  using assms(2)
proof (induction m arbitrary: n p)
  case 0
  then show ?case by simp
next
  case (Suc m)
  have dep: "depth d n c" if "c \<in> set (kids_of d p)" for c
    using that level_child [OF Suc.prems] by (simp add: kids_of_props [OF assms(1)])
  have "c \<notin> set (visit m (kids_of d) (Some c))" if c: "c \<in> set (kids_of d p)" for c
  proof
    assume "c \<in> set (visit m (kids_of d) (Some c))"
    then obtain m' y where "m = Suc m'" and y: "parent d y = Some (Some c)"
      and "c \<in> set (y # visit m' (kids_of d) (Some y))"
      by (cases m) (auto simp: kids_of_props [OF assms(1)])
    moreover have "depth d (Suc n) y" using y dep [OF c] by (rule depth.below)
    ultimately obtain i where "depth d (Suc n + i) c" using visit_up [OF assms(1)] by blast
    with depth_unique [OF dep [OF c]] show False by fastforce
  qed
  then have "distinct (c # visit m (kids_of d) (Some c))" if "c \<in> set (kids_of d p)" for c
    using that Suc.IH [OF level_Some [OF dep [OF that]]] by simp
  moreover have "a = b" if "a \<in> set (kids_of d p)" "b \<in> set (kids_of d p)"
    "x \<in> set (a # visit m (kids_of d) (Some a))" "x \<in> set (b # visit m (kids_of d) (Some b))" for a b x
    using visit_disjoint [OF assms(1) dep dep] that by blast
  ultimately show ?case
    unfolding visit.simps by (intro distinct_concat_map kids_of_props(3) [OF assms(1)])
qed

lemma visit_stable:
  assumes "doc_inv d" and "level d n p" and "length (ops d) < m + n"
  shows "visit (m + j) (kids_of d) p = visit m (kids_of d) p"
  using assms(2,3)
proof (induction m arbitrary: n p)
  case 0
  then show ?case using level_bound [of d n p] by simp
next
  case (Suc m)
  have "visit (m + j) (kids_of d) (Some c) = visit m (kids_of d) (Some c)" if "c \<in> set (kids_of d p)" for c
    using that Suc.prems level_child [OF Suc.prems(1)]
    by (intro Suc.IH [OF level_Some]) (auto simp: kids_of_props [OF assms(1)])
  then show ?case by (simp cong: map_cong)
qed

section \<open>Effect of one operation on the visiting order\<close>

lemma deleted_iff: "t \<in> deleted d \<longleftrightarrow> (\<exists>i l. Delete i l t \<in> set (om_values (ops d)))"
proof -
  have "delete_target x = Some t \<longleftrightarrow> (\<exists>i l. x = Delete i l t)" for x
    by (cases x) auto
  then show ?thesis by (force simp: deleted_def List.map_filter_def)
qed

lemma length_om_insert: "\<not> om_contains m k \<Longrightarrow> length (om_insert k v m) = Suc (length m)"
  by (induction m) (auto simp: om_contains_def om_get_def split: if_splits)

lemma kids_of_eqI:
  "doc_inv d \<Longrightarrow> sorted ks \<Longrightarrow> distinct ks \<Longrightarrow> set ks = {c. parent d c = Some p} \<Longrightarrow> kids_of d p = ks"
  by (rule sorted_distinct_set_unique) (simp_all add: kids_of_props)

lemma apply_insert:
  assumes "doc_inv d" and "\<not> om_contains (ops d) i"
    and d'_def: "d' = apply_op (Insert i l after t) d"
  shows "kids_of d' p = (if p = after then insort i (kids_of d p) else kids_of d p)"
    and "text_of d' c = (if c = i then t else text_of d c)"
    and "deleted d' = deleted d"
    and "length (ops d') = Suc (length (ops d))"
proof -
  have inv: "doc_inv d'" unfolding d'_def using assms(1) by (rule doc_inv_apply_op)
  have get: "om_get (ops d') = (om_get (ops d))(i \<mapsto> Insert i l after t)"
    using assms(2) by (simp add: d'_def om_get_apply_op)
  have par: "parent d' c = (if c = i then Some after else parent d c)" for c
    by (simp add: parent_def get)
  have none: "parent d i = None"
    using assms(2) by (simp add: parent_def om_contains_def)
  have "i \<notin> set (kids_of d p)" for p using none by (simp add: kids_of_props [OF assms(1)])
  then show "kids_of d' p = (if p = after then insort i (kids_of d p) else kids_of d p)"
    using none kids_of_props [OF assms(1)]
    by (intro kids_of_eqI [OF inv]) (auto simp: par sorted_insort distinct_insort set_insort_key)
  show "text_of d' c = (if c = i then t else text_of d c)"
    by (simp add: text_of_def get)
  show "deleted d' = deleted d"
    using values_apply_op_new [OF assms(1), of "Insert i l after t"] assms(2)
    by (auto simp: d'_def deleted_iff)
  show "length (ops d') = Suc (length (ops d))"
    using assms(2) by (simp add: d'_def apply_op_def Let_def length_om_insert)
qed

lemma apply_delete:
  assumes "doc_inv d" and "\<not> om_contains (ops d) i"
    and d'_def: "d' = apply_op (Delete i l t) d"
  shows "kids_of d' = kids_of d" and "c \<noteq> i \<Longrightarrow> text_of d' c = text_of d c"
    and "deleted d' = insert t (deleted d)" and "length (ops d') = Suc (length (ops d))"
proof -
  have inv: "doc_inv d'" unfolding d'_def using assms(1) by (rule doc_inv_apply_op)
  have get: "om_get (ops d') = (om_get (ops d))(i \<mapsto> Delete i l t)"
    using assms(2) by (simp add: d'_def om_get_apply_op)
  have par: "parent d' c = parent d c" for c
    using assms(2) by (simp add: parent_def get om_contains_def)
  show "kids_of d' = kids_of d"
    by (rule ext, rule kids_of_eqI [OF inv]) (simp_all add: par kids_of_props [OF assms(1)])
  show "c \<noteq> i \<Longrightarrow> text_of d' c = text_of d c"
    by (simp add: text_of_def get)
  show "deleted d' = insert t (deleted d)"
    using values_apply_op_new [OF assms(1), of "Delete i l t"] assms(2)
    unfolding d'_def by (intro set_eqI) (auto simp: deleted_iff)
  show "length (ops d') = Suc (length (ops d))"
    using assms(2) by (simp add: d'_def apply_op_def Let_def length_om_insert)
qed

lemma preorder_stable:
  assumes "doc_inv d"
  shows "visit (Suc (Suc (length (ops d)))) (kids_of d) None = preorder d"
  using visit_stable [OF assms level_root, of "Suc (length (ops d))" 1]
  by (simp only: preorder_def) simp

lemma concat_map_insort:
  "g i = [] \<Longrightarrow> concat (map g (insort i xs)) = concat (map g xs)"
  by (induction xs) auto

lemma visit_insert:
  assumes "ks (Some i) = []" and "after \<noteq> Some i" and "\<forall>p. i \<notin> set (ks p)"
  shows "filter (\<lambda>x. x \<noteq> i) (visit m (\<lambda>p. if p = after then insort i (ks p) else ks p) p) = visit m ks p"
proof (induction m arbitrary: p)
  case 0
  then show ?case by simp
next
  case (Suc m)
  let ?ks = "\<lambda>p. if p = after then insort i (ks p) else ks p"
  let ?g = "\<lambda>c. filter (\<lambda>x. x \<noteq> i) (c # visit m ?ks (Some c))"
  have "?ks (Some i) = []" using assms(1,2) by simp
  then have "visit m ?ks (Some i) = []" by (cases m) (simp_all only: visit.simps list.map concat.simps)
  then have gi: "?g i = []" by simp
  have g: "?g c = c # visit m ks (Some c)" if "c \<noteq> i" for c
    using that Suc.IH by simp
  have "concat (map ?g (?ks p)) = concat (map ?g (ks p))"
    using concat_map_insort [of ?g i, OF gi] by simp
  also have "\<dots> = concat (map (\<lambda>c. c # visit m ks (Some c)) (ks p))"
    using g assms(3) by (intro arg_cong [of _ _ concat] map_cong) auto
  finally show ?case by (simp only: visit.simps filter_concat map_map comp_def)
qed

lemma split_at_new:
  assumes "distinct ys" and "i \<in> set ys" and "filter (\<lambda>x. x \<noteq> i) ys = xs"
  shows "\<exists>us vs. ys = us @ i # vs \<and> xs = us @ vs"
proof -
  obtain us vs where ys: "ys = us @ i # vs" using assms(2) by (meson split_list)
  with assms(1) have "filter (\<lambda>x. x \<noteq> i) us = us" "filter (\<lambda>x. x \<noteq> i) vs = vs"
    by (auto simp: filter_id_conv)
  with ys assms(3) show ?thesis by auto
qed

lemma depth_apply_insert:
  assumes "\<not> om_contains (ops d) i" and "d' = apply_op (Insert i l after t) d" and "depth d k c"
  shows "depth d' k c"
proof -
  have kept: "parent d' c = parent d c" if "parent d c \<noteq> None" for c
    using that assms(1,2) by (auto simp: parent_def om_get_apply_op om_contains_def)
  show ?thesis
    using assms(3) by (induction rule: depth.induct) (auto simp: kept intro: depth.intros)
qed

text \<open>An insert below a visible place adds exactly its own id to the visiting order.\<close>

lemma preorder_apply_insert:
  assumes inv: "doc_inv d" and fresh: "\<not> om_contains (ops d) i"
    and d': "d' = apply_op (Insert i l after t) d"
    and vis: "after = None \<or> (\<exists>p \<in> set (preorder d). after = Some p)"
    and leaf: "kids_of d (Some i) = []"
  shows "\<exists>us vs. preorder d' = us @ i # vs \<and> preorder d = us @ vs"
proof (rule split_at_new)
  note eff = apply_insert [OF inv fresh d']
  have inv': "doc_inv d'" unfolding d' using inv by (rule doc_inv_apply_op)
  have par: "parent d i = None" using fresh by (simp add: parent_def om_contains_def)
  have ks: "kids_of d' = (\<lambda>p. if p = after then insort i (kids_of d p) else kids_of d p)"
    using eff(1) by (rule ext)
  have ai: "after \<noteq> Some i"
    using vis par by (auto simp: set_preorder [OF inv] dest: depth_parent)
  have none: "\<forall>p. i \<notin> set (kids_of d p)" using par by (simp add: kids_of_props [OF inv])
  show "filter (\<lambda>x. x \<noteq> i) (preorder d') = preorder d"
    unfolding preorder_def [of d'] eff(4) ks
    using visit_insert [of "kids_of d" i after, OF leaf ai none] preorder_stable [OF inv] by metis
  have "\<exists>n. level d' n after"
    using vis level_root level_Some depth_apply_insert [OF fresh d']
    unfolding set_preorder [OF inv] by blast
  moreover have "parent d' i = Some after"
    using fresh by (simp add: d' parent_def om_get_apply_op)
  ultimately show "i \<in> set (preorder d')"
    using level_child unfolding set_preorder [OF inv'] by blast
  show "distinct (preorder d')"
    unfolding preorder_def by (rule distinct_visit [OF inv' level_root])
qed

lemma insert_splice:
  assumes "replica d" and "counter_of d a \<noteq> - 1" and "lamport d \<noteq> - 1"
    and "after = None \<or> (\<exists>p \<in> set (preorder d). after = Some p)"
    and "local_insert a after text d = (d', i)"
    and "kids_of d (Some i) = []" and "i \<notin> deleted d"
  shows "\<exists>us vs. preorder d = us @ vs \<and> preorder d' = us @ i # vs
    \<and> materialize d = Some (concat (map (shown d (deleted d)) us) @ concat (map (shown d (deleted d)) vs))
    \<and> materialize d' = Some (concat (map (shown d (deleted d)) us) @ text @ concat (map (shown d (deleted d)) vs))"
proof -
  have inv: "doc_inv d" using assms(1) by (rule replica_inv)
  have loc: "d' = apply_op (Insert i (lamport d + 1) after text) d" "i = OpId a (counter_of d a + 1)"
    using assms(5) local_insert_as_remote [OF inv assms(2,3)] by auto
  have fresh: "\<not> om_contains (ops d) i" using local_fresh [OF inv assms(2)] by (simp add: loc(2))
  note eff = apply_insert [OF inv fresh loc(1)]
  have inv': "doc_inv d'" unfolding loc(1) using inv by (rule doc_inv_apply_op)
  obtain us vs where split: "preorder d' = us @ i # vs" "preorder d = us @ vs"
    using preorder_apply_insert [OF inv fresh loc(1) assms(4,6)] by blast
  have "i \<notin> set (preorder d)"
    using fresh by (auto simp: set_preorder [OF inv] parent_def om_contains_def dest: depth_parent)
  then have old: "shown d' (deleted d') c = shown d (deleted d) c" if "c \<in> set (preorder d)" for c
    using that by (cases "c = i") (simp_all add: shown_def eff(2,3))
  have "shown d' (deleted d') i = text" using assms(7) by (simp add: shown_def eff(2,3))
  moreover have "map (shown d' (deleted d')) us = map (shown d (deleted d)) us"
    "map (shown d' (deleted d')) vs = map (shown d (deleted d)) vs"
    using split(2) old by auto
  ultimately have "materialize d' = Some (concat (map (shown d (deleted d)) us) @ text
      @ concat (map (shown d (deleted d)) vs))"
    using split(1) materialize_visit [OF inv'] by (simp del: map_eq_conv)
  moreover have "materialize d = Some (concat (map (shown d (deleted d)) us) @ concat (map (shown d (deleted d)) vs))"
    using split(2) materialize_visit [OF inv] by simp
  ultimately show ?thesis using split by blast
qed

section \<open>Properties\<close>

text \<open>
  C1. Strong eventual consistency: two replicas that store the same operations are the same
  document, clocks included, whatever the order in which local edits, remote operations and merges
  happened; so they materialise to the same text.
\<close>

theorem replicas_converge:
  assumes "replica a" and "replica b" and "set (om_values (ops a)) = set (om_values (ops b))"
  shows "a = b"
  using replica_canonical [OF assms(1), of "om_values (ops a)"]
    replica_canonical [OF assms(2), of "om_values (ops a)"] assms(3) by simp

theorem replicas_converge_witness:
  "apply_op (Insert (OpId 1 1) 1 None [65]) (apply_op (Insert (OpId 2 1) 1 None [66]) crdt_new)
     = apply_op (Insert (OpId 2 1) 1 None [66]) (apply_op (Insert (OpId 1 1) 1 None [65]) crdt_new)"
proof (rule replicas_converge)
  show "replica (apply_op (Insert (OpId 1 1) 1 None [65])
      (apply_op (Insert (OpId 2 1) 1 None [66]) crdt_new))"
    by (intro replica.remote replica.new)
  show "replica (apply_op (Insert (OpId 2 1) 1 None [66])
      (apply_op (Insert (OpId 1 1) 1 None [65]) crdt_new))"
    by (intro replica.remote replica.new)
qed (auto simp: apply_op_def Let_def crdt_new_def om_contains_def om_get_def om_values_def less_OpId_def)

text \<open>
  C4. Merging replicas whose operations agree wherever ids agree is commutative, associative and
  idempotent on whole documents.
\<close>

theorem merge_semilattice:
  assumes "replica a" and "replica b" and "replica c"
    and "consistent (set (om_values (ops a)) \<union> set (om_values (ops b)) \<union> set (om_values (ops c)))"
  shows "merge b a = merge a b \<and> merge (merge c b) a = merge c (merge b a) \<and> merge a a = a"
proof -
  have "consistent (set (om_values (ops a)) \<union> set (om_values (ops b)))"
    and "consistent (set (om_values (ops b)) \<union> set (om_values (ops c)))"
    using assms(4) by (auto simp: consistent_def)
  then show ?thesis
    using merge_commute [OF assms(1,2)] merge_assoc [OF replica_inv [OF assms(2)]]
      merge_idem [OF replica_inv [OF assms(1)]] by blast
qed

theorem merge_semilattice_witness:
  "merge (apply_op (Insert (OpId 2 1) 1 None [66]) crdt_new) (apply_op (Insert (OpId 1 1) 1 None [65]) crdt_new)
     = merge (apply_op (Insert (OpId 1 1) 1 None [65]) crdt_new) (apply_op (Insert (OpId 2 1) 1 None [66]) crdt_new)"
proof -
  let ?a = "apply_op (Insert (OpId 1 1) 1 None [65]) crdt_new"
  let ?b = "apply_op (Insert (OpId 2 1) 1 None [66]) crdt_new"
  have "replica ?a" "replica ?b" by (intro replica.remote replica.new)+
  moreover have "consistent (set (om_values (ops ?a)) \<union> set (om_values (ops ?b)) \<union> set (om_values (ops crdt_new)))"
    by (simp add: consistent_def apply_op_def Let_def crdt_new_def om_contains_def om_get_def om_values_def)
  ultimately show ?thesis using merge_semilattice [of ?a ?b crdt_new] replica.new by blast
qed

text \<open>
  C2. \<open>materialize\<close> returns for every replica: the recursion of \<open>walk\<close> is never deeper than the
  number of stored operations, even when operations refer to missing or to mutually referring
  parents.  The result is the texts of the inserts that are reachable from the document start, each
  exactly once, in visiting order, without the tombstoned ones.
\<close>

theorem materialize_total:
  assumes "replica d"
  shows "materialize d = Some (concat (map (text_of d) (filter (\<lambda>c. c \<notin> deleted d) (preorder d))))
    \<and> distinct (preorder d) \<and> set (preorder d) = {c. \<exists>k. depth d k c}"
proof -
  have inv: "doc_inv d" using assms by (rule replica_inv)
  have "concat (map (shown d (deleted d)) xs)
      = concat (map (text_of d) (filter (\<lambda>c. c \<notin> deleted d) xs))" for xs
    by (induction xs) (auto simp: shown_def)
  then show ?thesis
    using materialize_visit [OF inv] set_preorder [OF inv] distinct_visit [OF inv level_root]
    by (simp add: preorder_def del: visit.simps)
qed

theorem materialize_total_witness:
  "distinct (preorder (apply_op (Insert (OpId 1 1) 1 (Some (OpId 1 1)) [65]) crdt_new))"
  using materialize_total [OF replica.remote [OF replica.new]] by blast

text \<open>
  C20. A local insert at a visible place adds its text at one place of the document and moves
  nothing else: the visiting order gains exactly the new id, and the materialised text is the old
  one with the new text spliced in.  The new id must not be mentioned by an operation already
  stored, which holds when operations arrive after those they refer to.
\<close>

theorem local_insert_splices:
  assumes "replica d" and "counter_of d a \<noteq> - 1" and "lamport d \<noteq> - 1"
    and "after = None \<or> (\<exists>p \<in> set (preorder d). after = Some p)"
    and "local_insert a after text d = (d', i)"
    and "kids_of d (Some i) = []" and "i \<notin> deleted d"
  shows "\<exists>us vs. preorder d = us @ vs \<and> preorder d' = us @ i # vs
    \<and> materialize d = Some (concat (map (shown d (deleted d)) us) @ concat (map (shown d (deleted d)) vs))
    \<and> materialize d' = Some (concat (map (shown d (deleted d)) us) @ text @ concat (map (shown d (deleted d)) vs))"
  using assms by (rule insert_splice)

theorem local_insert_splices_witness:
  "materialize (fst (local_insert 1 None [65] crdt_new)) = Some [65]"
proof -
  obtain d' i where loc: "local_insert 1 None [65] crdt_new = (d', i)" by fastforce
  have "kids_of crdt_new p = []" for p
    by (simp add: kids_of_def children_def child_list_def crdt_new_def om_values_def)
  moreover have "deleted crdt_new = {}" by (simp add: deleted_def crdt_new_def om_values_def)
  ultimately obtain us vs where "preorder crdt_new = us @ vs"
    "materialize d' = Some (concat (map (shown crdt_new (deleted crdt_new)) us) @ [65]
       @ concat (map (shown crdt_new (deleted crdt_new)) vs))"
    using local_insert_splices [OF replica.new _ _ _ loc] by (auto simp: counter_of_def crdt_new_def)
  moreover have "preorder crdt_new = []" by (simp add: preorder_def \<open>\<And>p. kids_of crdt_new p = []\<close>)
  ultimately show ?thesis using loc by simp
qed

text \<open>
  C24. A local delete removes the text of its target, of every occurrence the target has in the
  visiting order, and nothing else; the inserts below the target stay visible.
\<close>

theorem local_delete_removes:
  assumes "replica d" and "counter_of d a \<noteq> - 1" and "lamport d \<noteq> - 1"
    and "t \<in> set (preorder d)"
  shows "\<exists>us vs. preorder d = us @ t # vs \<and> t \<notin> set us \<union> set vs
    \<and> materialize d = Some (concat (map (shown d (deleted d)) us) @ shown d (deleted d) t
        @ concat (map (shown d (deleted d)) vs))
    \<and> materialize (fst (local_delete a t d))
        = Some (concat (map (shown d (deleted d)) us) @ concat (map (shown d (deleted d)) vs))"
proof -
  have inv: "doc_inv d" using assms(1) by (rule replica_inv)
  define i where "i = OpId a (counter_of d a + 1)"
  define d' where "d' = apply_op (Delete i (lamport d + 1) t) d"
  have loc: "fst (local_delete a t d) = d'"
    using local_delete_as_remote [OF inv assms(2,3)] by (simp add: d'_def i_def)
  have fresh: "\<not> om_contains (ops d) i" using local_fresh [OF inv assms(2)] by (simp add: i_def)
  note eff = apply_delete [OF inv fresh d'_def]
  have inv': "doc_inv d'" unfolding d'_def using inv by (rule doc_inv_apply_op)
  have pre: "preorder d' = preorder d"
    using preorder_stable [OF inv] eff(4) by (simp only: preorder_def [of d'] eff(1))
  have nd: "i \<notin> set (preorder d)"
    using fresh by (auto simp: set_preorder [OF inv] parent_def om_contains_def dest: depth_parent)
  obtain us vs where split: "preorder d = us @ t # vs" using assms(4) by (meson split_list)
  moreover have "distinct (preorder d)"
    unfolding preorder_def by (rule distinct_visit [OF inv level_root])
  ultimately have out: "t \<notin> set us \<union> set vs" by simp
  have old: "map (shown d' (deleted d')) xs = map (shown d (deleted d)) xs"
    if "set xs \<subseteq> set (preorder d) - {t}" for xs
  proof (rule map_cong [OF refl])
    fix c assume "c \<in> set xs"
    with that nd have "c \<noteq> i" "c \<noteq> t" by auto
    then show "shown d' (deleted d') c = shown d (deleted d) c" by (simp add: shown_def eff(2,3))
  qed
  have "shown d' (deleted d') t = []" by (simp add: shown_def eff(3))
  moreover have "map (shown d' (deleted d')) us = map (shown d (deleted d)) us"
    "map (shown d' (deleted d')) vs = map (shown d (deleted d)) vs"
    using split out by (intro old; auto)+
  ultimately have "materialize d' = Some (concat (map (shown d (deleted d)) us) @ concat (map (shown d (deleted d)) vs))"
    using split materialize_visit [OF inv'] by (simp add: pre del: map_eq_conv)
  moreover have "materialize d = Some (concat (map (shown d (deleted d)) us) @ shown d (deleted d) t
        @ concat (map (shown d (deleted d)) vs))"
    using split materialize_visit [OF inv] by simp
  ultimately show ?thesis using split out loc by blast
qed

theorem local_delete_removes_witness:
  "materialize (fst (local_delete 2 (OpId 1 1) (apply_op (Insert (OpId 1 1) 1 None [65]) crdt_new))) = Some []"
proof -
  let ?d = "apply_op (Insert (OpId 1 1) 1 None [65]) crdt_new"
  have "preorder ?d = [OpId 1 1]"
    by code_simp
  then show ?thesis
    using local_delete_removes [of ?d 2 "OpId 1 1", OF replica.remote [OF replica.new]]
    by (auto simp: Cons_eq_append_conv apply_op_def Let_def counter_of_def crdt_new_def om_contains_def om_get_def)
qed

text \<open>
  An insert whose parent is the document start, made when every other insert at the start has
  a smaller id (as in a document with one author), is shown at the end of the document, not at its
  beginning: siblings are ordered by ascending id.
\<close>

theorem insert_at_start_goes_last:
  assumes "replica d" and "counter_of d a \<noteq> - 1" and "lamport d \<noteq> - 1"
    and "local_insert a None text d = (d', i)"
    and "kids_of d (Some i) = []" and "i \<notin> deleted d"
    and "\<forall>c \<in> set (kids_of d None). c < i"
  shows "preorder d' = preorder d @ [i]
    \<and> materialize d' = map_option (\<lambda>old. old @ text) (materialize d)"
proof -
  have inv: "doc_inv d" using assms(1) by (rule replica_inv)
  have loc: "d' = apply_op (Insert i (lamport d + 1) None text) d" "i = OpId a (counter_of d a + 1)"
    using assms(4) local_insert_as_remote [OF inv assms(2,3)] by auto
  have fresh: "\<not> om_contains (ops d) i" using local_fresh [OF inv assms(2)] by (simp add: loc(2))
  note eff = apply_insert [OF inv fresh loc(1)]
  have inv': "doc_inv d'" unfolding loc(1) using inv by (rule doc_inv_apply_op)
  obtain us vs where sp: "preorder d = us @ vs" "preorder d' = us @ i # vs"
    "materialize d = Some (concat (map (shown d (deleted d)) us) @ concat (map (shown d (deleted d)) vs))"
    "materialize d' = Some (concat (map (shown d (deleted d)) us) @ text @ concat (map (shown d (deleted d)) vs))"
    using insert_splice [OF assms(1-3) _ assms(4-6)] by blast
  have "kids_of d' None = kids_of d None @ [i]"
    using assms(7) by (simp add: eff(1) sorted_insort_is_snoc less_imp_le kids_of_props [OF inv])
  moreover have "kids_of d' (Some i) = []" using assms(5) by (simp add: eff(1))
  then have "visit m (kids_of d') (Some i) = []" for m by (cases m) auto
  ultimately have "last (preorder d') = i" by (simp add: preorder_def)
  moreover have "distinct (preorder d')"
    unfolding preorder_def by (rule distinct_visit [OF inv' level_root])
  ultimately have "vs = []" using sp(2) by (cases vs rule: rev_cases) auto
  with sp show ?thesis by simp
qed

theorem insert_at_start_goes_last_witness:
  "materialize (fst (local_insert 1 None [66] (apply_op (Insert (OpId 1 1) 1 None [65]) crdt_new))) = Some [65, 66]"
proof -
  let ?d = "apply_op (Insert (OpId 1 1) 1 None [65]) crdt_new"
  have loc: "local_insert 1 None [66] ?d = (fst (local_insert 1 None [66] ?d), OpId 1 2)"
    by code_simp
  have "kids_of ?d (Some (OpId 1 2)) = []" "kids_of ?d None = [OpId 1 1]" "materialize ?d = Some [65]"
    "deleted ?d = {}" "counter_of ?d 1 = 1" "lamport ?d = 1"
    by code_simp+
  then show ?thesis
    using insert_at_start_goes_last [OF replica.remote [OF replica.new] _ _ loc]
    by (simp add: less_OpId_def)
qed

end
