(* ===== verification/Framing.thy ===== *)
theory Framing
  imports Orchid_Prelude
begin

text \<open>
  The fixed-size blocks of a \<open>.orchid\<close> container (crates/orchid-format/src/framing.rs): the
  4096-byte file header, the 14-byte region mini-header, the 44-byte footer and the padding to
  4 KiB boundaries.  Every block is written by storing little-endian fields at fixed offsets of a
  zeroed buffer (\<open>copy_into\<close>) and read back by slicing at the same offsets.  The records carry the
  fields of the Rust structs; a byte array \<open>[u8; n]\<close> is a byte list, and the \<open>wf_\<close> predicates say
  that its length is \<open>n\<close>, which the Rust type enforces.
\<close>

section \<open>Errors\<close>

text \<open>
  The error values of crates/orchid-format/src/error.rs.  The text of a \<open>RegionDecode\<close> message is
  represented by a constructor per message of the CRDT wire decoder, with the values the message
  prints as its arguments.
\<close>

datatype crdt_wire_error =
    CrdtPayloadTooShort
  | CrdtMagicMismatch
  | CrdtUnsupportedVersion u32
  | CrdtTrailingBytes nat
  | CrdtOpTruncated
  | CrdtOpIdTruncated
  | CrdtLamportTruncated
  | CrdtAfterFlagTruncated
  | CrdtTextLenTruncated
  | CrdtTextTruncated
  | CrdtTextUtf8
  | CrdtUnknownOpTag u8

datatype format_error =
    Io string
  | Crypto string
  | InvalidMagic
  | InvalidRegionMagic u64
  | TocHashMismatch
  | InvalidToc string
  | RegionDecode crdt_wire_error
  | RegionNotFound u16
  | UnsupportedCompression u8
  | IdentityRequired
  | Unsupported string
  | C2pa string

section \<open>Constants\<close>

definition FILE_MAGIC :: bytes where
  "FILE_MAGIC = [0x4F, 0x52, 0x43, 0x44]"

definition REGION_MAGIC :: bytes where
  "REGION_MAGIC = [0x4F, 0x52, 0x43, 0x52]"

definition ALIGNMENT :: u64 where
  "ALIGNMENT = 4096"

definition HEADER_SIZE :: nat where
  "HEADER_SIZE = 4096"

definition REGION_MINI_HEADER_SIZE :: nat where
  "REGION_MINI_HEADER_SIZE = 14"

definition FOOTER_SIZE :: nat where
  "FOOTER_SIZE = 44"

definition FORMAT_VERSION_MAJOR :: u16 where
  "FORMAT_VERSION_MAJOR = 1"

definition FORMAT_VERSION_MINOR :: u16 where
  "FORMAT_VERSION_MINOR = 0"

lemma length_magic [simp]: "length FILE_MAGIC = 4" "length REGION_MAGIC = 4"
  by (simp_all add: FILE_MAGIC_def REGION_MAGIC_def)

section \<open>File header\<close>

record Header =
  version_major :: u16
  version_minor :: u16
  capability_flags :: u64
  file_uuid :: bytes
  created_unix_ms :: u64
  header_flags :: u64

definition wf_header :: "Header \<Rightarrow> bool" where
  "wf_header h \<longleftrightarrow> length (file_uuid h) = 16"

definition header_new :: "bytes \<Rightarrow> u64 \<Rightarrow> u64 \<Rightarrow> Header" where
  "header_new uuid created caps =
     \<lparr>version_major = FORMAT_VERSION_MAJOR, version_minor = FORMAT_VERSION_MINOR,
      capability_flags = caps, file_uuid = uuid, created_unix_ms = created, header_flags = 0\<rparr>"

definition header_new_sealed :: "bytes \<Rightarrow> u64 \<Rightarrow> Header" where
  "header_new_sealed uuid created = header_new uuid created 0"

definition header_encode :: "Header \<Rightarrow> bytes" where
  "header_encode h =
    (let buf = replicate HEADER_SIZE 0;
         buf = copy_into buf 0 FILE_MAGIC;
         buf = copy_into buf 4 (u16_le (version_major h));
         buf = copy_into buf 6 (u16_le (version_minor h));
         buf = copy_into buf 8 (u64_le (capability_flags h));
         buf = copy_into buf 16 (file_uuid h);
         buf = copy_into buf 32 (u64_le (created_unix_ms h));
         buf = copy_into buf 40 (u64_le (header_flags h))
     in buf)"

definition header_decode :: "bytes \<Rightarrow> format_error + Header" where
  "header_decode data =
    (if length data < 48 then Inl (Io ''header truncated'')
     else if bslice 0 4 data \<noteq> FILE_MAGIC then Inl InvalidMagic
     else Inr \<lparr>version_major = u16_of_le (bslice 4 6 data),
               version_minor = u16_of_le (bslice 6 8 data),
               capability_flags = u64_of_le (bslice 8 16 data),
               file_uuid = bslice 16 32 data,
               created_unix_ms = u64_of_le (bslice 32 40 data),
               header_flags = u64_of_le (bslice 40 48 data)\<rparr>)"

section \<open>Region mini-header\<close>

record RegionHeader =
  type_id :: u16
  region_length :: u64

definition region_encode :: "RegionHeader \<Rightarrow> bytes" where
  "region_encode r =
    (let buf = replicate REGION_MINI_HEADER_SIZE 0;
         buf = copy_into buf 0 REGION_MAGIC;
         buf = copy_into buf 4 (u16_le (type_id r));
         buf = copy_into buf 6 (u64_le (region_length r))
     in buf)"

definition region_decode :: "bytes \<Rightarrow> u64 \<Rightarrow> format_error + RegionHeader" where
  "region_decode data absolute_offset =
    (if length data < REGION_MINI_HEADER_SIZE then Inl (Io ''region header truncated'')
     else if bslice 0 4 data \<noteq> REGION_MAGIC then Inl (InvalidRegionMagic absolute_offset)
     else Inr \<lparr>type_id = u16_of_le (bslice 4 6 data), region_length = u64_of_le (bslice 6 14 data)\<rparr>)"

section \<open>Footer\<close>

record Footer =
  toc_offset_from_end :: u64
  toc_blake3 :: bytes

definition wf_footer :: "Footer \<Rightarrow> bool" where
  "wf_footer f \<longleftrightarrow> length (toc_blake3 f) = 32"

definition footer_encode :: "Footer \<Rightarrow> bytes" where
  "footer_encode f =
    (let buf = replicate FOOTER_SIZE 0;
         buf = copy_into buf 0 (u64_le (toc_offset_from_end f));
         buf = copy_into buf 8 (toc_blake3 f);
         buf = copy_into buf 40 FILE_MAGIC
     in buf)"

definition footer_decode :: "bytes \<Rightarrow> format_error + Footer" where
  "footer_decode tail =
    (if length tail < FOOTER_SIZE then Inl (Io ''footer truncated'')
     else let start = length tail - FOOTER_SIZE; data = drop start tail in
       if bslice 40 44 data \<noteq> FILE_MAGIC then Inl InvalidMagic
       else Inr \<lparr>toc_offset_from_end = u64_of_le (bslice 0 8 data), toc_blake3 = bslice 8 40 data\<rparr>)"

section \<open>Alignment\<close>

text \<open>
  \<open>u64::div_ceil\<close> and the product wrap on \<open>u64\<close> as they do in the release profile.
\<close>

definition div_ceil :: "u64 \<Rightarrow> u64 \<Rightarrow> u64" where
  "div_ceil a b = (if a mod b > 0 then a div b + 1 else a div b)"

definition align_up :: "u64 \<Rightarrow> u64" where
  "align_up offset = div_ceil offset ALIGNMENT * ALIGNMENT"

definition pad_len :: "u64 \<Rightarrow> u64" where
  "pad_len offset = align_up offset - offset"

definition pad_to_alignment :: "bytes \<Rightarrow> bytes" where
  "pad_to_alignment buf =
    (let pad = unat (pad_len (of_nat (length buf))) in
     if pad > 0 then buf @ replicate pad 0 else buf)"

section \<open>Round trips\<close>

lemmas header_encode_unfold = header_encode_def Let_def HEADER_SIZE_def
lemmas region_encode_unfold = region_encode_def Let_def REGION_MINI_HEADER_SIZE_def
lemmas footer_encode_unfold = footer_encode_def Let_def FOOTER_SIZE_def

lemma length_header_encode: "wf_header h \<Longrightarrow> length (header_encode h) = 4096"
  by (simp add: header_encode_unfold wf_header_def)

lemma length_region_encode: "length (region_encode r) = 14"
  by (simp add: region_encode_unfold)

lemma length_footer_encode: "wf_footer f \<Longrightarrow> length (footer_encode f) = 44"
  by (simp add: footer_encode_unfold wf_footer_def)

lemma header_decode_encode_append:
  assumes "wf_header h"
  shows "header_decode (header_encode h @ rest) = Inr h"
proof -
  have s: "bslice a b (header_encode h @ rest) = bslice a b (header_encode h)" if "b \<le> 4096" for a b
    using that length_header_encode [OF assms] by (auto simp: bslice_def)
  show ?thesis
    using assms
    by (simp add: header_decode_def s length_header_encode, simp add: header_encode_unfold wf_header_def)
qed

lemma region_decode_encode_append: "region_decode (region_encode r @ rest) off = Inr r"
proof -
  have s: "bslice a b (region_encode r @ rest) = bslice a b (region_encode r)" if "b \<le> 14" for a b
    using that length_region_encode [of r] by (auto simp: bslice_def)
  show ?thesis
    by (simp add: region_decode_def REGION_MINI_HEADER_SIZE_def s length_region_encode,
        simp add: region_encode_unfold)
qed

lemma footer_decode_append_encode:
  assumes "wf_footer f"
  shows "footer_decode (pre @ footer_encode f) = Inr f"
  using assms
  by (simp add: footer_decode_def FOOTER_SIZE_def length_footer_encode,
      simp add: footer_encode_unfold wf_footer_def)

lemma slice_take [simp]: "b \<le> n \<Longrightarrow> bslice a b (take n xs) = bslice a b xs"
  by (cases "a \<le> b") (simp_all add: bslice_def drop_take min_def)

lemma take_48_slices:
  assumes "48 \<le> length d"
  shows "take 48 d = bslice 0 4 d @ bslice 4 6 d @ bslice 6 8 d @ bslice 8 16 d @ bslice 16 32 d
           @ bslice 32 40 d @ bslice 40 48 d"
proof -
  have t: "take (i + j) d = take i d @ take j (drop i d)" for i j
    by (rule take_add)
  show ?thesis
    using t [of 40 8] t [of 32 8] t [of 16 16] t [of 8 8] t [of 6 2] t [of 4 2]
    by (simp add: bslice_def)
qed

lemma take_48_header_encode:
  assumes "wf_header h"
  shows "take 48 (header_encode h) = FILE_MAGIC @ u16_le (version_major h) @ u16_le (version_minor h)
           @ u64_le (capability_flags h) @ file_uuid h @ u64_le (created_unix_ms h)
           @ u64_le (header_flags h)"
proof -
  have "48 \<le> length (header_encode h)"
    using length_header_encode [OF assms] by simp
  from take_48_slices [OF this] show ?thesis
    using assms by (simp add: header_encode_unfold wf_header_def)
qed

lemma drop_48_header_encode:
  assumes "wf_header h"
  shows "drop 48 (header_encode h) = replicate 4048 0"
proof -
  have "drop 48 (header_encode h) = bslice 48 4096 (header_encode h)"
    using length_header_encode [OF assms] by (simp add: bslice_def)
  also have "\<dots> = replicate 4048 0"
    using assms by (simp add: header_encode_unfold wf_header_def, simp add: bslice_def)
  finally show ?thesis .
qed

lemma header_decode_wf: "header_decode d = Inr h \<Longrightarrow> wf_header h"
  by (auto simp: header_decode_def wf_header_def split: if_splits)

lemma header_decode_fields:
  assumes "header_decode d = Inr h"
  shows "48 \<le> length d" and "take 48 d = take 48 (header_encode h)"
proof -
  show l: "48 \<le> length d"
    using assms by (auto simp: header_decode_def split: if_splits)
  from assms have m: "bslice 0 4 d = FILE_MAGIC"
    and h: "h = \<lparr>version_major = u16_of_le (bslice 4 6 d), version_minor = u16_of_le (bslice 6 8 d),
               capability_flags = u64_of_le (bslice 8 16 d), file_uuid = bslice 16 32 d,
               created_unix_ms = u64_of_le (bslice 32 40 d), header_flags = u64_of_le (bslice 40 48 d)\<rparr>"
    by (auto simp: header_decode_def split: if_splits)
  show "take 48 d = take 48 (header_encode h)"
    unfolding take_48_header_encode [OF header_decode_wf [OF assms]] take_48_slices [OF l]
    using l by (simp add: h m)
qed

section \<open>Alignment arithmetic\<close>

lemma ceil_4096:
  "n \<le> (n + 4095) div 4096 * 4096" "(n + 4095) div 4096 * 4096 < n + 4096" for n :: nat
  using div_mult_mod_eq [of "n + 4095" 4096] mod_less_divisor [of 4096 "n + 4095"]
  by linarith+

lemma ceil_div_4096:
  "(n + 4095) div 4096 = (if n mod 4096 > 0 then n div 4096 + 1 else n div 4096)" for n :: nat
proof -
  obtain q r where n: "n = 4096 * q + r" and r: "r < 4096"
    by (metis mod_less_divisor mult_div_mod_eq zero_less_numeral)
  then have "n div 4096 = q" and "n mod 4096 = r" by simp_all
  moreover have "(n + 4095) div 4096 = (if r > 0 then q + 1 else q)"
    by (rule div_nat_eqI) (use n r in auto)
  ultimately show ?thesis by simp
qed

lemma unat_div_ceil_4096:
  "unat (div_ceil a 4096) = (unat a + 4095) div 4096"
proof -
  have d: "unat (a div 4096) = unat a div 4096" and m: "unat (a mod 4096) = unat a mod 4096"
    by (simp_all add: unat_div unat_mod)
  have b: "unat a < 2 ^ 64"
    using unsigned_less [of a, where 'a = nat] by simp
  have pos: "a mod 4096 > 0 \<longleftrightarrow> unat a mod 4096 > 0"
    by (simp add: word_less_nat_alt m)
  have suc: "unat (a div 4096 + 1) = unat a div 4096 + 1"
    using b by (simp add: unat_word_ariths d)
  have "(unat a + 4095) div 4096 = (if unat a mod 4096 > 0 then unat a div 4096 + 1 else unat a div 4096)"
    by (rule ceil_div_4096)
  then show ?thesis by (simp add: div_ceil_def pos suc d)
qed

lemma unat_align_up:
  assumes "unat offset \<le> 2 ^ 64 - 4096"
  shows "unat (align_up offset) = (unat offset + 4095) div 4096 * 4096"
proof -
  have "(unat offset + 4095) div 4096 * 4096 \<le> unat offset + 4095" by simp
  also have "\<dots> < 2 ^ 64" using assms by simp
  finally show ?thesis
    by (simp add: align_up_def ALIGNMENT_def unat_word_ariths unat_div_ceil_4096)
qed

lemma unat_pad_len:
  assumes "unat offset \<le> 2 ^ 64 - 4096"
  shows "unat (pad_len offset) = (unat offset + 4095) div 4096 * 4096 - unat offset"
proof -
  have "offset \<le> align_up offset"
    using ceil_4096(1) by (simp add: word_le_nat_alt unat_align_up [OF assms])
  then show ?thesis
    by (simp add: pad_len_def unat_sub unat_align_up [OF assms])
qed

section \<open>Properties\<close>

text \<open>
  Reading back an encoded header block returns the header that was written, whatever bytes
  follow it in the file; the block is exactly 4096 bytes and everything after the 48 bytes of
  fields is zero.
\<close>

theorem header_roundtrip:
  assumes "wf_header h"
  shows "header_decode (header_encode h @ rest) = Inr h
    \<and> length (header_encode h) = HEADER_SIZE
    \<and> drop 48 (header_encode h) = replicate (HEADER_SIZE - 48) 0"
  using header_decode_encode_append [OF assms] length_header_encode [OF assms]
    drop_48_header_encode [OF assms]
  by (simp add: HEADER_SIZE_def)

theorem header_roundtrip_witness:
  "header_decode (header_encode (header_new_sealed (replicate 16 7) 1700000000000) @ [1, 2, 3])
     = Inr (header_new_sealed (replicate 16 7) 1700000000000)"
  using header_roundtrip [of "header_new_sealed (replicate 16 7) 1700000000000" "[1, 2, 3]"]
  by (simp add: wf_header_def header_new_sealed_def header_new_def)

text \<open>
  Header decoding loses nothing: whenever it accepts a block, the 48 field bytes of the block
  are exactly the field bytes of the encoding of the result, so a decoder that accepted two blocks
  with the same header saw the same bytes.
\<close>

theorem header_decode_exact:
  assumes "header_decode d = Inr h"
  shows "48 \<le> length d \<and> take 48 d = take 48 (header_encode h) \<and> wf_header h"
  using header_decode_fields [OF assms] header_decode_wf [OF assms] by simp

theorem header_decode_exact_witness:
  "take 48 (header_encode (header_new (replicate 16 1) 5 6) @ [9])
     = take 48 (header_encode (header_new (replicate 16 1) 5 6))"
proof -
  have "wf_header (header_new (replicate 16 1) 5 6)"
    by (simp add: wf_header_def header_new_def)
  from header_decode_exact [OF header_decode_encode_append [OF this, of "[9]"]] show ?thesis
    by blast
qed

text \<open>
  The footer is found from the end of the file: whatever precedes it, decoding the tail of a
  file that ends in an encoded footer returns that footer, and a region mini-header decodes to
  itself at the front of its region.
\<close>

theorem footer_and_region_roundtrip:
  assumes "wf_footer f"
  shows "footer_decode (pre @ footer_encode f) = Inr f
    \<and> region_decode (region_encode r @ rest) off = Inr r
    \<and> length (footer_encode f) = FOOTER_SIZE \<and> length (region_encode r) = REGION_MINI_HEADER_SIZE"
  using footer_decode_append_encode [OF assms] region_decode_encode_append
    length_footer_encode [OF assms] length_region_encode
  by (simp add: FOOTER_SIZE_def REGION_MINI_HEADER_SIZE_def)

theorem footer_and_region_roundtrip_witness:
  "footer_decode ([1, 2] @ footer_encode \<lparr>toc_offset_from_end = 8192, toc_blake3 = replicate 32 9\<rparr>)
     = Inr \<lparr>toc_offset_from_end = 8192, toc_blake3 = replicate 32 9\<rparr>"
  using footer_and_region_roundtrip
    [of "\<lparr>toc_offset_from_end = 8192, toc_blake3 = replicate 32 9\<rparr>" "[1, 2]"]
  by (simp add: wf_footer_def)

text \<open>
  Padding: for every buffer shorter than \<open>2^64 - 4096\<close> bytes, \<open>pad_to_alignment\<close> keeps the
  content, appends fewer than 4096 zero bytes and ends on a 4 KiB boundary.
\<close>

theorem pad_to_alignment_correct:
  assumes "length buf \<le> 2 ^ 64 - 4096"
  shows "4096 dvd length (pad_to_alignment buf)
    \<and> (\<exists>k < 4096. pad_to_alignment buf = buf @ replicate k 0)"
proof -
  let ?n = "length buf"
  have u: "unat (of_nat ?n :: u64) = ?n"
    using assms by (simp add: unat_of_nat)
  let ?k = "(?n + 4095) div 4096 * 4096 - ?n"
  have pad: "unat (pad_len (of_nat ?n)) = ?k"
    using unat_pad_len [of "of_nat ?n"] assms by (simp add: u)
  have buf: "pad_to_alignment buf = buf @ replicate ?k 0"
    by (simp add: pad_to_alignment_def Let_def pad)
  have "?k < 4096" and "?n + ?k = (?n + 4095) div 4096 * 4096"
    using ceil_4096 [of ?n] by linarith+
  then show ?thesis by (auto simp: buf)
qed

theorem pad_to_alignment_correct_witness:
  "4096 dvd length (pad_to_alignment (replicate 100 1))"
  using pad_to_alignment_correct [of "replicate 100 1"] by simp

end
