(* ===== verification/Utf8.thy ===== *)
theory Utf8
  imports Orchid_Prelude
begin

text \<open>
  UTF-8, the encoding that Rust's \<open>String\<close> keeps as an invariant: the well-formed byte sequences of the
  Unicode standard, which \<open>std::str::from_utf8\<close> accepts, and the boundaries of \<open>str::is_char_boundary\<close>, the only
  places where a string may be cut.  Valid strings are closed under concatenation and under cutting at a
  boundary.
\<close>

unbundle bit_operations_syntax

text \<open>\<open>str::is_char_boundary\<close>: the ends of the string, and every byte that is not a continuation byte.\<close>

definition is_char_boundary :: "bytes \<Rightarrow> nat \<Rightarrow> bool" where
  "is_char_boundary s i \<longleftrightarrow> i = 0 \<or> i = length s \<or> i < length s \<and> s ! i AND 0xC0 \<noteq> 0x80"

definition cont_byte :: "u8 \<Rightarrow> bool" where
  "cont_byte b \<longleftrightarrow> 0x80 \<le> b \<and> b \<le> 0xBF"

text \<open>The range of the second byte of a multi-byte character.\<close>

definition second_ok :: "u8 \<Rightarrow> u8 \<Rightarrow> bool" where
  "second_ok a b \<longleftrightarrow>
    (if a = 0xE0 then 0xA0 \<le> b \<and> b \<le> 0xBF
     else if a = 0xED then 0x80 \<le> b \<and> b \<le> 0x9F
     else if a = 0xF0 then 0x90 \<le> b \<and> b \<le> 0xBF
     else if a = 0xF4 then 0x80 \<le> b \<and> b \<le> 0x8F
     else cont_byte b)"

fun utf8_valid :: "bytes \<Rightarrow> bool" where
  "utf8_valid [] \<longleftrightarrow> True"
| "utf8_valid [a] \<longleftrightarrow> a < 0x80"
| "utf8_valid [a, b] \<longleftrightarrow>
    (if a < 0x80 then utf8_valid [b]
     else 0xC2 \<le> a \<and> a \<le> 0xDF \<and> second_ok a b)"
| "utf8_valid [a, b, c] \<longleftrightarrow>
    (if a < 0x80 then utf8_valid [b, c]
     else if a \<le> 0xDF then 0xC2 \<le> a \<and> second_ok a b \<and> utf8_valid [c]
     else a \<le> 0xEF \<and> second_ok a b \<and> cont_byte c)"
| "utf8_valid (a # b # c # d # bs) \<longleftrightarrow>
    (if a < 0x80 then utf8_valid (b # c # d # bs)
     else if a \<le> 0xDF then 0xC2 \<le> a \<and> second_ok a b \<and> utf8_valid (c # d # bs)
     else if a \<le> 0xEF then second_ok a b \<and> cont_byte c \<and> utf8_valid (d # bs)
     else a \<le> 0xF4 \<and> second_ok a b \<and> cont_byte c \<and> cont_byte d \<and> utf8_valid bs)"

section \<open>Characters\<close>

definition utf8_char :: "bytes \<Rightarrow> bool" where
  "utf8_char s \<longleftrightarrow>
    (case s of
       [a] \<Rightarrow> a < 0x80
     | [a, b] \<Rightarrow> 0xC2 \<le> a \<and> a \<le> 0xDF \<and> second_ok a b
     | [a, b, c] \<Rightarrow> 0xDF < a \<and> a \<le> 0xEF \<and> second_ok a b \<and> cont_byte c
     | [a, b, c, d] \<Rightarrow> 0xEF < a \<and> a \<le> 0xF4 \<and> second_ok a b \<and> cont_byte c \<and> cont_byte d
     | _ \<Rightarrow> False)"

lemma second_ok_cont: "second_ok a b \<Longrightarrow> cont_byte b"
  using order.trans [of b "0x9F" "0xBF"] order.trans [of b "0x8F" "0xBF"]
    order.trans [of "0x80" "0xA0" b] order.trans [of "0x80" "0x90" b]
  by (auto simp: second_ok_def cont_byte_def split: if_splits)

lemma utf8_char_append:
  assumes "utf8_char c"
  shows "utf8_valid (c @ s) \<longleftrightarrow> utf8_valid s"
proof -
  consider a where "c = [a]" "a < 0x80" | a b where "c = [a, b]" "0xC2 \<le> a" "a \<le> 0xDF" "second_ok a b"
    | a b d where "c = [a, b, d]" "0xDF < a" "a \<le> 0xEF" "second_ok a b" "cont_byte d"
    | a b d e where "c = [a, b, d, e]" "0xEF < a" "a \<le> 0xF4" "second_ok a b" "cont_byte d" "cont_byte e"
    using assms by (auto simp: utf8_char_def split: list.splits)
  then show ?thesis
  proof cases
    case 1
    then show ?thesis by (cases s rule: utf8_valid.cases) simp_all
  next
    case 2
    then have "\<not> a < 0x80" using order.trans [of "0x80" "0xC2" a] by (simp add: not_less)
    then show ?thesis using 2 by (cases s rule: utf8_valid.cases) simp_all
  next
    case 3
    then have "\<not> a < 0x80" "\<not> a \<le> 0xDF" using order.trans [of "0x80" "0xDF" a] by (simp_all add: not_less not_le)
    then show ?thesis using 3 by (cases s rule: utf8_valid.cases) simp_all
  next
    case 4
    then have "\<not> a < 0x80" "\<not> a \<le> 0xDF" "\<not> a \<le> 0xEF"
      using order.trans [of "0x80" "0xEF" a] order.strict_trans1 [of "0xDF" "0xEF" a] by (simp_all add: not_less not_le)
    then show ?thesis using 4 by simp
  qed
qed

lemma utf8_valid_first:
  assumes "utf8_valid s" "s \<noteq> []"
  shows "\<exists>c t. s = c @ t \<and> utf8_char c"
proof -
  have "utf8_char (take 1 s) \<or> utf8_char (take 2 s) \<or> utf8_char (take 3 s) \<or> utf8_char (take 4 s)"
    using assms by (cases s rule: utf8_valid.cases) (auto simp: utf8_char_def not_less not_le numeral_eq_Suc split: if_splits)
  then show ?thesis by (metis append_take_drop_id)
qed

lemma utf8_induct [consumes 1, case_names Nil Char]:
  assumes "utf8_valid s" "P []" "\<And>c t. utf8_char c \<Longrightarrow> utf8_valid t \<Longrightarrow> P t \<Longrightarrow> P (c @ t)"
  shows "P s"
  using assms(1)
proof (induction "length s" arbitrary: s rule: less_induct)
  case less
  show ?case
  proof (cases "s = []")
    case False
    then obtain c t where s: "s = c @ t" "utf8_char c" using utf8_valid_first less.prems by blast
    then have "c \<noteq> []" "utf8_valid t" using less.prems utf8_char_append by (auto simp: utf8_char_def)
    then show ?thesis using less.hyps [of t] s assms(3) by simp
  qed (use assms(2) in simp)
qed

lemma utf8_valid_append: "utf8_valid s \<Longrightarrow> utf8_valid t \<Longrightarrow> utf8_valid (s @ t)"
  by (induction rule: utf8_induct) (simp_all add: utf8_char_append)

lemma cont_byte_and: "b AND 0xC0 = 0x80 \<longleftrightarrow> cont_byte b"
proof -
  have all: "list_all (\<lambda>n. (word_of_nat n :: u8) AND 0xC0 = 0x80 \<longleftrightarrow> cont_byte (word_of_nat n)) [0..<256]"
    by code_simp
  have "unat b < 256" using unsigned_less [of b] by simp
  then have "unat b \<in> set [0..<256]" by simp
  from bspec [OF all [unfolded list_all_iff] this] show ?thesis by simp
qed

lemma utf8_char_cont:
  assumes "utf8_char c" "0 < i" "i < length c"
  shows "cont_byte (c ! i)"
  using assms by (auto simp: utf8_char_def less_Suc_eq nth_Cons' split: list.splits if_splits dest: second_ok_cont)

lemma lead_not_cont: "a < 0x80 \<or> 0xC2 \<le> a \<Longrightarrow> \<not> cont_byte a"
  using order.trans [of "0xC2" a "0xBF"] by (auto simp: cont_byte_def)

lemma utf8_char_lead:
  assumes "utf8_char c"
  shows "c \<noteq> [] \<and> \<not> cont_byte (hd c)"
proof -
  have "c \<noteq> [] \<and> (hd c < 0x80 \<or> 0xC2 \<le> hd c)"
    using assms order.trans [of "0xC2" "0xDF" "hd c"] order.trans [of "0xC2" "0xEF" "hd c"]
    by (auto simp: utf8_char_def less_imp_le split: list.splits)
  then show ?thesis using lead_not_cont by blast
qed

lemma utf8_char_boundary:
  assumes "utf8_char c" "is_char_boundary (c @ t) i"
  shows "i = 0 \<or> length c \<le> i"
proof (rule ccontr)
  assume "\<not> ?thesis"
  then have "0 < i" "i < length c" by auto
  then show False using assms utf8_char_cont [OF assms(1), of i]
    by (auto simp: is_char_boundary_def cont_byte_and nth_append)
qed

text \<open>A string can be cut at every character boundary.\<close>

lemma utf8_valid_cut:
  assumes "utf8_valid s" "is_char_boundary s i" "i \<le> length s"
  shows "utf8_valid (take i s) \<and> utf8_valid (drop i s)"
  using assms
proof (induction arbitrary: i rule: utf8_induct)
  case (Char c t)
  show ?case
  proof (cases "i = 0")
    case True
    then show ?thesis using Char by (simp add: utf8_char_append)
  next
    case False
    then have le: "length c \<le> i" using utf8_char_boundary Char by blast
    then have "is_char_boundary t (i - length c)"
      using Char.prems False by (auto simp: is_char_boundary_def nth_append not_less)
    then have "utf8_valid (take (i - length c) t) \<and> utf8_valid (drop (i - length c) t)"
      using Char.IH [of "i - length c"] Char.prems(2) le by simp
    then show ?thesis using Char.hyps le by (simp add: utf8_char_append)
  qed
qed simp

definition starts_char :: "bytes \<Rightarrow> bool" where
  "starts_char s \<longleftrightarrow> s = [] \<or> hd s AND 0xC0 \<noteq> 0x80"

lemma utf8_valid_starts: "utf8_valid s \<Longrightarrow> starts_char s"
  by (induction rule: utf8_induct) (use utf8_char_lead in \<open>auto simp: starts_char_def cont_byte_and\<close>)

end
