(* ===== verification/Crdt_Wire.thy ===== *)
theory Crdt_Wire
  imports Crdt_Rga Framing Utf8
begin

text \<open>
  The binary encoding of a CRDT document (crates/orchid-format/src/crdt/wire.rs).  The decoders take
  the whole buffer and an offset and return the value with the offset behind it, as the Rust code
  does; every early return is a \<open>crdt_wire_error\<close>.  \<open>std::str::from_utf8\<close> is modelled by
  \<open>utf8_valid\<close>, the well-formed byte sequences of the Unicode standard.
\<close>

section \<open>Encoding\<close>

definition CRDT_PAYLOAD_MAGIC :: bytes where
  "CRDT_PAYLOAD_MAGIC = [0x4F, 0x52, 0x43, 0x54]"

definition WIRE_VERSION :: u32 where
  "WIRE_VERSION = 1"

definition encode_opid :: "OpId \<Rightarrow> bytes" where
  "encode_opid i = u64_le (actor i) @ u64_le (counter i)"

definition encode_after :: "OpId option \<Rightarrow> bytes" where
  "encode_after after = (case after of None \<Rightarrow> [0] | Some p \<Rightarrow> [1] @ encode_opid p)"

definition encode_text :: "bytes \<Rightarrow> bytes" where
  "encode_text raw = u32_le (of_nat (length raw)) @ raw"

fun encode_op :: "Op \<Rightarrow> bytes" where
  "encode_op (Insert i l after text) =
    [1] @ encode_opid i @ u64_le l @ encode_after after @ encode_text text"
| "encode_op (Delete i l target) = [2] @ encode_opid i @ u64_le l @ encode_opid target"

definition encode_crdt_payload :: "CrdtDocument \<Rightarrow> bytes" where
  "encode_crdt_payload doc =
    (let os = om_values (ops doc)
     in CRDT_PAYLOAD_MAGIC @ u32_le WIRE_VERSION @ u64_le 0 @ u32_le (of_nat (length os))
        @ concat (map encode_op os))"

section \<open>Decoding\<close>

definition decode_opid :: "bytes \<Rightarrow> nat \<Rightarrow> format_error + OpId \<times> nat" where
  "decode_opid bs off =
    (if length bs < off + 16 then Inl (RegionDecode CrdtOpIdTruncated)
     else Inr (OpId (u64_of_le (bslice off (off + 8) bs)) (u64_of_le (bslice (off + 8) (off + 16) bs)),
               off + 16))"

text \<open>The three fields that \<open>decode_op\<close> reads in line: the clock, the parent and the text.\<close>

definition decode_lamport :: "bytes \<Rightarrow> nat \<Rightarrow> format_error + u64 \<times> nat" where
  "decode_lamport bs off =
    (if length bs < off + 8 then Inl (RegionDecode CrdtLamportTruncated)
     else Inr (u64_of_le (bslice off (off + 8) bs), off + 8))"

definition decode_after :: "bytes \<Rightarrow> nat \<Rightarrow> format_error + OpId option \<times> nat" where
  "decode_after bs off =
    (if length bs \<le> off then Inl (RegionDecode CrdtAfterFlagTruncated)
     else let flag = bs ! off; off = off + 1 in
       if flag = 0 then Inr (None, off)
       else and_then (decode_opid bs off) (\<lambda>(p, off). Inr (Some p, off)))"

definition decode_text :: "bytes \<Rightarrow> nat \<Rightarrow> format_error + bytes \<times> nat" where
  "decode_text bs off =
    (if length bs < off + 4 then Inl (RegionDecode CrdtTextLenTruncated)
     else let len = unat (u32_of_le (bslice off (off + 4) bs)); off = off + 4 in
       if length bs < off + len then Inl (RegionDecode CrdtTextTruncated)
       else let text = bslice off (off + len) bs in
         if \<not> utf8_valid text then Inl (RegionDecode CrdtTextUtf8)
         else Inr (text, off + len))"

definition decode_op :: "bytes \<Rightarrow> nat \<Rightarrow> format_error + Op \<times> nat" where
  "decode_op bs off =
    (if length bs \<le> off then Inl (RegionDecode CrdtOpTruncated)
     else let tag = bs ! off in
       and_then (decode_opid bs (off + 1)) (\<lambda>(i, off).
         and_then (decode_lamport bs off) (\<lambda>(l, off).
           if tag = 1 then
             and_then (decode_after bs off) (\<lambda>(after, off).
               and_then (decode_text bs off) (\<lambda>(text, off). Inr (Insert i l after text, off)))
           else if tag = 2 then
             and_then (decode_opid bs off) (\<lambda>(target, off). Inr (Delete i l target, off))
           else Inl (RegionDecode (CrdtUnknownOpTag tag)))))"

text \<open>The loop \<open>for _ in 0..count\<close> that decodes a value and feeds it to the accumulator.\<close>

fun decode_loop ::
  "(bytes \<Rightarrow> nat \<Rightarrow> 'e + 'a \<times> nat) \<Rightarrow> ('a \<Rightarrow> 's \<Rightarrow> 's) \<Rightarrow> nat \<Rightarrow> bytes \<Rightarrow> nat \<Rightarrow> 's \<Rightarrow> 'e + 's \<times> nat"
where
  "decode_loop dec f 0 bs off acc = Inr (acc, off)"
| "decode_loop dec f (Suc n) bs off acc =
    and_then (dec bs off) (\<lambda>(x, off'). decode_loop dec f n bs off' (f x acc))"

definition decode_crdt_payload :: "bytes \<Rightarrow> format_error + CrdtDocument" where
  "decode_crdt_payload bs =
    (if length bs < 4 + 4 + 8 + 4 then Inl (RegionDecode CrdtPayloadTooShort)
     else if bslice 0 4 bs \<noteq> CRDT_PAYLOAD_MAGIC then Inl (RegionDecode CrdtMagicMismatch)
     else let version = u32_of_le (bslice 4 8 bs) in
       if version \<noteq> WIRE_VERSION then Inl (RegionDecode (CrdtUnsupportedVersion version))
       else let count = unat (u32_of_le (bslice 16 20 bs)) in
         and_then (decode_loop decode_op apply_op count bs 20 crdt_new) (\<lambda>(doc, off).
           if off \<noteq> length bs then Inl (RegionDecode (CrdtTrailingBytes (length bs - off)))
           else Inr doc))"

section \<open>Codecs that read at an offset\<close>

locale offset_codec =
  fixes enc :: "'a \<Rightarrow> bytes" and dec :: "bytes \<Rightarrow> nat \<Rightarrow> 'e + 'a \<times> nat" and ok :: "'a \<Rightarrow> bool"
  assumes dec_enc: "ok x \<Longrightarrow> dec (pre @ enc x @ post) (length pre) = Inr (x, length pre + length (enc x))"
    and dec_bounds: "dec bs off = Inr (x, e) \<Longrightarrow> off \<le> e \<and> e \<le> length bs"
    and dec_extend: "dec bs off = Inr (x, e) \<Longrightarrow> dec (bs @ post) off = Inr (x, e)"
begin

lemma loop_enc:
  "\<forall>x \<in> set xs. ok x \<Longrightarrow>
   decode_loop dec f (length xs) (pre @ concat (map enc xs) @ post) (length pre) acc
     = Inr (fold f xs acc, length pre + length (concat (map enc xs)))"
proof (induction xs arbitrary: pre acc)
  case Nil
  then show ?case by simp
next
  case (Cons x xs)
  then show ?case
    using dec_enc [of x pre "concat (map enc xs) @ post"] Cons.IH [of "pre @ enc x" "f x acc"]
    by (simp add: add.assoc)
qed

lemma loop_Suc:
  "decode_loop dec f (Suc n) bs off acc = Inr r \<longleftrightarrow>
   (\<exists>x e. dec bs off = Inr (x, e) \<and> decode_loop dec f n bs e (f x acc) = Inr r)"
  by (auto simp: and_then_Inr_iff)

lemma loop_bounds:
  "decode_loop dec f n bs off acc = Inr (s, e) \<Longrightarrow> off \<le> length bs \<Longrightarrow> off \<le> e \<and> e \<le> length bs"
proof (induction n arbitrary: off acc)
  case (Suc n)
  obtain x e' where "dec bs off = Inr (x, e')" "decode_loop dec f n bs e' (f x acc) = Inr (s, e)"
    using Suc.prems(1) loop_Suc [of f n bs off acc "(s, e)"] by auto
  then show ?case using dec_bounds [of bs off x e'] Suc.IH [of e' "f x acc"] by linarith
qed simp

lemma loop_extend:
  "decode_loop dec f n bs off acc = Inr (s, e) \<Longrightarrow> decode_loop dec f n (bs @ post) off acc = Inr (s, e)"
proof (induction n arbitrary: off acc)
  case (Suc n)
  then show ?case using dec_extend loop_Suc by metis
qed simp

lemma loop_inv:
  assumes "\<And>x s. P s \<Longrightarrow> P (f x s)"
  shows "decode_loop dec f n bs off acc = Inr (s, e) \<Longrightarrow> P acc \<Longrightarrow> P s"
proof (induction n arbitrary: off acc)
  case (Suc n)
  then show ?case using assms loop_Suc by metis
qed simp

end

lemma bslice_extend [simp]: "b \<le> length xs \<Longrightarrow> bslice a b (xs @ ys) = bslice a b xs"
  by (simp add: bslice_def)

lemma bslice_prefix [simp]:
  "a = length xs \<Longrightarrow> b = length xs + n \<Longrightarrow> bslice a b (xs @ ys) = take n ys"
  by (simp add: bslice_def)

lemma bslice_shift [simp]: "bslice (length xs + a) (length xs + b) (xs @ ys) = bslice a b ys"
  by (simp add: bslice_def)

lemma bslice_at: "xs = p @ m @ q \<Longrightarrow> a = length p \<Longrightarrow> b = a + length m \<Longrightarrow> bslice a b xs = m"
  by simp

lemma length_encode_opid [simp]: "length (encode_opid i) = 16"
  by (simp add: encode_opid_def)

text \<open>A decoder that reads at the end of a known prefix.\<close>

context offset_codec
begin

lemma dec_at:
  "ok x \<Longrightarrow> xs = p @ enc x @ q \<Longrightarrow> off = length p \<Longrightarrow> e = off + length (enc x) \<Longrightarrow> dec xs off = Inr (x, e)"
  using dec_enc by simp

end

interpretation opid_codec: offset_codec encode_opid decode_opid "\<lambda>_. True"
proof
  fix x pre post
  have "bslice (length pre) (length pre + 8) (pre @ encode_opid x @ post) = u64_le (actor x)"
    "bslice (length pre + 8) (length pre + 16) (pre @ encode_opid x @ post) = u64_le (counter x)"
    by (rule bslice_at [of _ pre _ "u64_le (counter x) @ post"]
        bslice_at [of _ "pre @ u64_le (actor x)" _ post]; simp add: encode_opid_def)+
  then show "decode_opid (pre @ encode_opid x @ post) (length pre) = Inr (x, length pre + length (encode_opid x))"
    by (simp add: decode_opid_def)
qed (auto simp: decode_opid_def split: if_splits)

interpretation lamport_codec: offset_codec u64_le decode_lamport "\<lambda>_. True"
  by unfold_locales (auto simp: decode_lamport_def split: if_splits)

interpretation after_codec: offset_codec encode_after decode_after "\<lambda>_. True"
proof
  fix x pre post
  show "decode_after (pre @ encode_after x @ post) (length pre) = Inr (x, length pre + length (encode_after x))"
    using opid_codec.dec_at [of _ "pre @ [1]" _ post]
    by (cases x) (simp_all add: decode_after_def encode_after_def)
next
  show "decode_after bs off = Inr (x, e) \<Longrightarrow> off \<le> e \<and> e \<le> length bs" for bs off x e
    by (auto simp: decode_after_def Let_def and_then_Inr_iff split: if_splits dest!: opid_codec.dec_bounds)
  show "decode_after bs off = Inr (x, e) \<Longrightarrow> decode_after (bs @ post) off = Inr (x, e)" for bs off x e post
    by (auto simp: decode_after_def Let_def and_then_Inr_iff nth_append opid_codec.dec_extend split: if_splits)
qed

definition wf_text :: "bytes \<Rightarrow> bool" where
  "wf_text text \<longleftrightarrow> length text < 2 ^ 32 \<and> utf8_valid text"

interpretation text_codec: offset_codec encode_text decode_text wf_text
proof
  fix x pre post
  assume "wf_text x"
  moreover have "bslice (length pre) (length pre + 4) (pre @ encode_text x @ post) = u32_le (of_nat (length x))"
    "bslice (length pre + 4) (length pre + 4 + length x) (pre @ encode_text x @ post) = x"
    by (rule bslice_at [of _ pre _ "x @ post"]
        bslice_at [of _ "pre @ u32_le (of_nat (length x))" _ post]; simp add: encode_text_def)+
  moreover have "length (encode_text x) = 4 + length x" by (simp add: encode_text_def)
  ultimately show "decode_text (pre @ encode_text x @ post) (length pre) = Inr (x, length pre + length (encode_text x))"
    by (simp add: decode_text_def Let_def wf_text_def unat_of_nat)
qed (auto simp: decode_text_def Let_def split: if_splits)

text \<open>The texts that the length field and the UTF-8 check of the decoder let through.\<close>

fun wf_op :: "Op \<Rightarrow> bool" where
  "wf_op (Insert i l after text) \<longleftrightarrow> wf_text text"
| "wf_op (Delete i l target) \<longleftrightarrow> True"

lemma decode_op_encode_op:
  assumes "wf_op x"
  shows "decode_op (pre @ encode_op x @ post) (length pre) = Inr (x, length pre + length (encode_op x))"
proof (cases x)
  case (Insert i l after raw)
  note [simp] = opid_codec.dec_at [of _ "pre @ [1]" i "u64_le l @ encode_after after @ encode_text raw @ post"]
    lamport_codec.dec_at [of _ "pre @ [1] @ encode_opid i" l "encode_after after @ encode_text raw @ post"]
    after_codec.dec_at [of _ "pre @ [1] @ encode_opid i @ u64_le l" after "encode_text raw @ post"]
    text_codec.dec_at [of raw _ "pre @ [1] @ encode_opid i @ u64_le l @ encode_after after" post]
  show ?thesis using assms Insert by (simp add: decode_op_def)
next
  case (Delete i l target)
  note [simp] = opid_codec.dec_at [of _ "pre @ [2]" i "u64_le l @ encode_opid target @ post"]
    lamport_codec.dec_at [of _ "pre @ [2] @ encode_opid i" l "encode_opid target @ post"]
    opid_codec.dec_at [of _ "pre @ [2] @ encode_opid i @ u64_le l" target post]
  show ?thesis using Delete by (simp add: decode_op_def)
qed

lemmas op_field_bounds =
  opid_codec.dec_bounds lamport_codec.dec_bounds after_codec.dec_bounds text_codec.dec_bounds
lemmas op_field_extend =
  opid_codec.dec_extend lamport_codec.dec_extend after_codec.dec_extend text_codec.dec_extend

interpretation op_codec: offset_codec encode_op decode_op wf_op
proof
  show "wf_op x \<Longrightarrow> decode_op (pre @ encode_op x @ post) (length pre) = Inr (x, length pre + length (encode_op x))"
    for x pre post
    by (rule decode_op_encode_op)
  show "decode_op bs off = Inr (x, e) \<Longrightarrow> off \<le> e \<and> e \<le> length bs" for bs off x e
    by (auto simp: decode_op_def Let_def and_then_Inr_iff split: if_splits dest!: op_field_bounds)
  show "decode_op bs off = Inr (x, e) \<Longrightarrow> decode_op (bs @ post) off = Inr (x, e)" for bs off x e post
    by (auto simp: decode_op_def Let_def and_then_Inr_iff nth_append op_field_extend split: if_splits)
qed

section \<open>Properties\<close>

definition wf_doc :: "CrdtDocument \<Rightarrow> bool" where
  "wf_doc d \<longleftrightarrow> length (ops d) < 2 ^ 32 \<and> (\<forall>x \<in> set (om_values (ops d)). wf_op x)"

lemma payload_layout:
  fixes d :: CrdtDocument
  defines "E \<equiv> encode_crdt_payload d"
  shows "bslice 0 4 E = CRDT_PAYLOAD_MAGIC" and "bslice 4 8 E = u32_le WIRE_VERSION"
    and "bslice 16 20 E = u32_le (of_nat (length (ops d)))"
    and "length E = 20 + length (concat (map encode_op (om_values (ops d))))"
    and "20 \<le> n \<Longrightarrow> a \<le> b \<Longrightarrow> b \<le> 20 \<Longrightarrow> bslice a b (take n E) = bslice a b E"
proof -
  have len: "length CRDT_PAYLOAD_MAGIC = 4" by (simp add: CRDT_PAYLOAD_MAGIC_def)
  let ?body = "concat (map encode_op (om_values (ops d)))" and ?cnt = "u32_le (of_nat (length (ops d)))"
  have E: "E = CRDT_PAYLOAD_MAGIC @ u32_le WIRE_VERSION @ u64_le 0 @ ?cnt @ ?body"
    by (simp add: E_def encode_crdt_payload_def Let_def om_values_def)
  show "bslice 0 4 E = CRDT_PAYLOAD_MAGIC"
    by (rule bslice_at [of _ "[]"]) (use E len in simp_all)
  show "bslice 4 8 E = u32_le WIRE_VERSION"
    by (rule bslice_at [of _ CRDT_PAYLOAD_MAGIC]) (use E len in simp_all)
  show "bslice 16 20 E = ?cnt"
    by (rule bslice_at [of _ "CRDT_PAYLOAD_MAGIC @ u32_le WIRE_VERSION @ u64_le 0"]) (use E len in simp_all)
  show "length E = 20 + length ?body" using len by (simp add: E)
  show "bslice a b (take n E) = bslice a b E" if "20 \<le> n" "a \<le> b" "b \<le> 20"
    using that by (simp add: bslice_def drop_take min_def)
qed

lemma payload_loop:
  assumes "replica d" and "wf_doc d"
  shows "decode_loop decode_op apply_op (unat (of_nat (length (ops d)) :: u32)) (encode_crdt_payload d @ post) 20 crdt_new
    = Inr (d, length (encode_crdt_payload d))"
proof -
  let ?pre = "CRDT_PAYLOAD_MAGIC @ u32_le WIRE_VERSION @ u64_le 0 @ u32_le (of_nat (length (ops d)))"
  have "length ?pre = 20" by (simp add: CRDT_PAYLOAD_MAGIC_def)
  moreover have "encode_crdt_payload d @ post = ?pre @ concat (map encode_op (om_values (ops d))) @ post"
    by (simp add: encode_crdt_payload_def Let_def om_values_def)
  moreover have "length (om_values (ops d)) = unat (of_nat (length (ops d)) :: u32)"
    using assms(2) by (simp add: wf_doc_def unat_of_nat om_values_def)
  ultimately show ?thesis
    using op_codec.loop_enc [of "om_values (ops d)" apply_op ?pre post crdt_new]
      replica_canonical [OF assms(1) refl] assms(2) payload_layout(4) [where d = d]
    by (simp add: wf_doc_def)
qed

text \<open>
  C5. Encoding a replica and decoding the bytes gives the same document, clocks included, when it has
  fewer than \<open>2 ^ 32\<close> operations whose texts are UTF-8 of less than \<open>2 ^ 32\<close> bytes.  Bytes behind the
  encoding are refused, and reported with their number.
\<close>

theorem crdt_wire_roundtrip:
  assumes "replica d" and "wf_doc d"
  shows "decode_crdt_payload (encode_crdt_payload d) = Inr d
    \<and> (\<forall>extra. extra \<noteq> [] \<longrightarrow> decode_crdt_payload (encode_crdt_payload d @ extra)
          = Inl (RegionDecode (CrdtTrailingBytes (length extra))))"
proof -
  let ?E = "encode_crdt_payload d"
  have hd: "bslice 0 4 (?E @ post) = CRDT_PAYLOAD_MAGIC" "bslice 4 8 (?E @ post) = u32_le WIRE_VERSION"
    "bslice 16 20 (?E @ post) = u32_le (of_nat (length (ops d)))" "20 \<le> length (?E @ post)" for post
    using payload_layout [where d = d] by simp_all
  have "decode_crdt_payload (?E @ post) = (if post = [] then Inr d
      else Inl (RegionDecode (CrdtTrailingBytes (length post))))" for post
    using hd [of post] payload_loop [OF assms, of post] by (simp add: decode_crdt_payload_def Let_def)
  from this [of "[]"] this show ?thesis by simp
qed

definition sample_doc :: CrdtDocument where
  "sample_doc = apply_op (Insert (OpId 1 1) 1 None [72, 105]) crdt_new"

lemma sample_doc_ok: "replica sample_doc" "wf_doc sample_doc"
proof -
  show "replica sample_doc" unfolding sample_doc_def by (intro replica.remote replica.new)
  show "wf_doc sample_doc"
    by (simp add: wf_doc_def sample_doc_def apply_op_def Let_def crdt_new_def om_contains_def om_get_def
        om_values_def wf_text_def)
qed

theorem crdt_wire_roundtrip_witness:
  "decode_crdt_payload (encode_crdt_payload sample_doc @ [0])
     = Inl (RegionDecode (CrdtTrailingBytes 1))"
  using crdt_wire_roundtrip [OF sample_doc_ok] by simp

text \<open>
  C30. A truncated payload is never accepted: decoding any proper prefix of an encoding fails.
\<close>

theorem truncated_payload_refused:
  assumes "replica d" and "wf_doc d" and "n < length (encode_crdt_payload d)"
  shows "\<exists>e. decode_crdt_payload (take n (encode_crdt_payload d)) = Inl e"
proof (rule ccontr)
  let ?E = "encode_crdt_payload d"
  assume "\<not> ?thesis"
  then obtain d' where ok: "decode_crdt_payload (take n ?E) = Inr d'"
    by (metis sum.exhaust)
  then have n: "20 \<le> n" using assms(3) by (auto simp: decode_crdt_payload_def split: if_splits)
  from ok have "decode_loop decode_op apply_op (unat (of_nat (length (ops d)) :: u32)) (take n ?E) 20 crdt_new = Inr (d', n)"
    using assms(3) payload_layout [where d = d] n
    by (auto simp: decode_crdt_payload_def Let_def and_then_Inr_iff split: if_splits)
  from op_codec.loop_extend [OF this, of "drop n ?E"] show False
    using payload_loop [OF assms(1,2), of "[]"] assms(3) by simp
qed

theorem truncated_payload_refused_witness:
  "\<exists>e. decode_crdt_payload (take 30 (encode_crdt_payload sample_doc)) = Inl e"
proof (rule truncated_payload_refused [OF sample_doc_ok])
  show "30 < length (encode_crdt_payload sample_doc)" by code_simp
qed

text \<open>
  Whatever bytes are decoded, an accepted payload is a document that operations can build: so
  materialising it returns, and merging it with other replicas converges.
\<close>

theorem decoded_payload_is_replica:
  assumes "decode_crdt_payload bs = Inr d"
  shows "replica d \<and> (\<exists>t. materialize d = Some t)"
proof -
  obtain n e where "decode_loop decode_op apply_op n bs 20 crdt_new = Inr (d, e)"
    using assms by (auto simp: decode_crdt_payload_def Let_def and_then_Inr_iff split: if_splits)
  then have "replica d"
    using op_codec.loop_inv [of replica apply_op] replica.new replica.remote by blast
  then show ?thesis using materialize_visit [OF replica_inv] by blast
qed

theorem decoded_payload_is_replica_witness:
  "replica crdt_new \<and> decode_crdt_payload (CRDT_PAYLOAD_MAGIC @ [1, 0, 0, 0] @ replicate 12 0) = Inr crdt_new"
proof -
  have ok: "decode_crdt_payload (CRDT_PAYLOAD_MAGIC @ [1, 0, 0, 0] @ replicate 12 0) = Inr crdt_new"
    by (simp add: decode_crdt_payload_def bslice_def CRDT_PAYLOAD_MAGIC_def WIRE_VERSION_def u32_of_le_def
        numeral_eq_Suc)
  with decoded_payload_is_replica [OF ok] show ?thesis by blast
qed

end
