(* ===== verification/Float32.thy ===== *)
theory Float32
  imports Complex_Main
begin

text \<open>
  The finite numbers of the binary32 format, \<open>f32\<close> in Rust, in units of the smallest positive one, \<open>2^-149\<close>: an integer with 24
  significant bits.  The operations round the exact result to the nearest number, a tie to the even one.  A result past the largest
  number, where the format has an infinity, is held at the largest; the theorems are about arguments that stay below it.
\<close>

section \<open>Rounding\<close>

definition is_f32 :: "int \<Rightarrow> bool" where
  "is_f32 n \<longleftrightarrow> (\<exists>m k. n = m * 2 ^ k \<and> \<bar>m\<bar> < 2 ^ 24 \<and> k \<le> 253)"

definition f32_max :: int where
  "f32_max = (2 ^ 24 - 1) * 2 ^ 253"

definition round_even :: "rat \<Rightarrow> int" where
  "round_even x =
    (let f = \<lfloor>x\<rfloor>; r = x - of_int f
     in if r < 1 / 2 \<or> r = 1 / 2 \<and> even f then f else f + 1)"

text \<open>The place of the last significant bit.\<close>

definition last_place :: "rat \<Rightarrow> nat" where
  "last_place x = length (takeWhile (\<lambda>k. 2 ^ 24 * 2 ^ k \<le> \<bar>x\<bar>) [0..<254])"

definition round32 :: "rat \<Rightarrow> int" where
  "round32 x =
    (let k = last_place x
     in max (- f32_max) (min f32_max (round_even (x / 2 ^ k) * 2 ^ k)))"

lemma round_even_close: "\<bar>of_int (round_even x) - x\<bar> \<le> 1 / 2"
  using floor_correct [of x] by (auto simp: round_even_def Let_def)

lemma round_even_nearest: "\<bar>of_int (round_even x) - x\<bar> \<le> \<bar>of_int y - x\<bar>"
proof (cases "y \<le> \<lfloor>x\<rfloor>")
  case True
  then have "(of_int y :: rat) \<le> of_int \<lfloor>x\<rfloor>" by simp
  then show ?thesis using floor_correct [of x] by (auto simp: round_even_def Let_def)
next
  case False
  then have "(of_int (\<lfloor>x\<rfloor> + 1) :: rat) \<le> of_int y" by (subst of_int_le_iff) simp
  then show ?thesis using floor_correct [of x] by (auto simp: round_even_def Let_def)
qed

lemma round_even_int: "round_even (of_int n) = n"
  by (simp add: round_even_def)

lemma last_place_props:
  shows "j < last_place x \<Longrightarrow> 2 ^ 24 * 2 ^ j \<le> \<bar>x\<bar>"
    and "last_place x < 254 \<Longrightarrow> \<bar>x\<bar> < 2 ^ 24 * 2 ^ last_place x"
    and "last_place x \<le> 254"
proof -
  let ?P = "\<lambda>k. 2 ^ 24 * 2 ^ k \<le> \<bar>x\<bar>"
  show le: "last_place x \<le> 254" using length_takeWhile_le [of ?P "[0..<254]"] by (simp add: last_place_def)
  show "2 ^ 24 * 2 ^ j \<le> \<bar>x\<bar>" if "j < last_place x"
  proof -
    have "takeWhile ?P [0..<254] ! j = [0..<254] ! j" using that takeWhile_nth by (auto simp: last_place_def)
    then have "takeWhile ?P [0..<254] ! j = j" using that le by simp
    then have "j \<in> set (takeWhile ?P [0..<254])" using that nth_mem [of j "takeWhile ?P [0..<254]"] by (simp add: last_place_def)
    then show ?thesis by (auto dest: set_takeWhileD)
  qed
  show "\<bar>x\<bar> < 2 ^ 24 * 2 ^ last_place x" if "last_place x < 254"
    using that nth_length_takeWhile [of ?P "[0..<254]"] by (simp add: last_place_def)
qed

lemma is_f32_le_max: "is_f32 n \<Longrightarrow> \<bar>n\<bar> \<le> f32_max"
proof -
  assume "is_f32 n"
  then obtain m k where n: "n = m * 2 ^ k" "\<bar>m\<bar> < 2 ^ 24" "k \<le> 253" by (auto simp: is_f32_def)
  have "\<bar>m\<bar> * 2 ^ k \<le> (2 ^ 24 - 1) * 2 ^ 253"
    using n(2,3) by (intro mult_mono power_increasing) auto
  then show ?thesis by (simp add: n(1) abs_mult f32_max_def)
qed

lemma is_f32_max: "is_f32 f32_max" "is_f32 (- f32_max)"
proof -
  have "f32_max = (2 ^ 24 - 1) * 2 ^ 253 \<and> \<bar>2 ^ 24 - 1\<bar> < (2 ^ 24 :: int) \<and> (253 :: nat) \<le> 253"
    "- f32_max = (1 - 2 ^ 24) * 2 ^ 253 \<and> \<bar>1 - 2 ^ 24\<bar> < (2 ^ 24 :: int) \<and> (253 :: nat) \<le> 253"
    by (simp_all add: f32_max_def)
  then show "is_f32 f32_max" "is_f32 (- f32_max)" unfolding is_f32_def by blast+
qed

lemma is_f32_small: "\<bar>n\<bar> < 2 ^ 24 \<Longrightarrow> is_f32 n"
  unfolding is_f32_def by (intro exI [of _ n] exI [of _ 0]) simp

lemma is_f32_power: "k \<le> 253 \<Longrightarrow> is_f32 (2 ^ k)"
  unfolding is_f32_def by (intro exI [of _ 1] exI [of _ k]) simp

lemma abs_near: "\<bar>a - y\<bar> \<le> 1 / 2 \<Longrightarrow> \<bar>y\<bar> < n \<Longrightarrow> \<bar>a\<bar> < n + 1" "\<bar>a - y\<bar> \<le> 1 / 2 \<Longrightarrow> n \<le> \<bar>y\<bar> \<Longrightarrow> n - 1 < \<bar>a\<bar>"
  for a y n :: rat
  by linarith+

lemma is_f32_round32: "is_f32 (round32 x)"
proof -
  let ?k = "last_place x" and ?n = "round_even (x / 2 ^ last_place x)"
  have "is_f32 (?n * 2 ^ ?k)" if in_range: "\<bar>?n * 2 ^ ?k\<bar> \<le> f32_max"
  proof (cases "?k < 254")
    case True
    then have "\<bar>x\<bar> < 2 ^ 24 * 2 ^ ?k" by (rule last_place_props(2))
    then have "\<bar>x / 2 ^ ?k\<bar> < 2 ^ 24" by (simp add: abs_divide divide_less_eq)
    then have "\<bar>of_int ?n :: rat\<bar> < 2 ^ 24 + 1" by (rule abs_near(1) [OF round_even_close])
    then have "of_int \<bar>?n\<bar> < (of_int (2 ^ 24 + 1) :: rat)" by simp
    then have n: "\<bar>?n\<bar> \<le> 2 ^ 24" by (simp only: of_int_less_iff)
    show ?thesis
    proof (cases "\<bar>?n\<bar> = 2 ^ 24")
      case top: True
      have "?k \<noteq> 253"
      proof
        assume "?k = 253"
        then have "2 ^ 24 * 2 ^ 253 \<le> f32_max" using in_range top by (simp add: abs_mult)
        then show False by (simp add: f32_max_def)
      qed
      then have k: "Suc ?k \<le> 253" using True by simp
      have "?n = 2 ^ 24 \<or> ?n = - (2 ^ 24)" using top by linarith
      then have "?n * 2 ^ ?k = (?n div 2) * 2 ^ Suc ?k" "\<bar>?n div 2\<bar> < 2 ^ 24" by auto
      then show ?thesis using k unfolding is_f32_def by blast
    next
      case False
      then have "\<bar>?n\<bar> < 2 ^ 24" using n by simp
      then show ?thesis using True unfolding is_f32_def by (intro exI [of _ ?n] exI [of _ ?k]) simp
    qed
  next
    case False
    then have k: "?k = 254" using last_place_props(3) [of x] by simp
    then have "2 ^ 24 * 2 ^ 253 \<le> \<bar>x\<bar>" using last_place_props(1) [of 253 x] by simp
    then have "2 ^ 23 \<le> \<bar>x / 2 ^ 254\<bar>" by (simp add: abs_divide le_divide_eq)
    then have "2 ^ 23 - 1 < \<bar>of_int ?n :: rat\<bar>" unfolding k by (rule abs_near(2) [OF round_even_close])
    then have "of_int (2 ^ 23 - 1) < (of_int \<bar>?n\<bar> :: rat)" by simp
    then have "2 ^ 23 \<le> \<bar>?n\<bar>" by (simp only: of_int_less_iff)
    then have "2 ^ 23 * 2 ^ 254 \<le> \<bar>?n * 2 ^ ?k\<bar>" by (simp add: abs_mult k)
    then have "2 ^ 23 * 2 ^ 254 \<le> f32_max" using in_range by (rule order.trans)
    then show ?thesis by (simp add: f32_max_def)
  qed
  then show ?thesis
    using is_f32_max by (auto simp: round32_def Let_def max_def min_def abs_le_iff)
qed

section \<open>Rounding to the nearest\<close>

lemma last_place_le:
  assumes "\<bar>x\<bar> \<le> of_int f32_max"
  shows "last_place x \<le> 253"
proof (rule ccontr)
  assume "\<not> last_place x \<le> 253"
  then have "2 ^ 24 * 2 ^ 253 \<le> \<bar>x\<bar>" by (intro last_place_props(1)) simp
  then show False using assms by (simp add: f32_max_def)
qed

lemma near_multiple: "\<bar>of_int (round_even (x / 2 ^ k) * 2 ^ k) - x\<bar> \<le> \<bar>of_int (z * 2 ^ k) - x\<bar>"
proof -
  have "\<bar>of_int (c * 2 ^ k) - x\<bar> = \<bar>of_int c - x / 2 ^ k\<bar> * 2 ^ k" for c
  proof -
    have "of_int (c * 2 ^ k) - x = (of_int c - x / 2 ^ k) * 2 ^ k" by (simp add: left_diff_distrib)
    then show ?thesis by (simp add: abs_mult)
  qed
  then show ?thesis using round_even_nearest [of "x / 2 ^ k" z] by (simp add: mult_right_mono)
qed

lemma near_clamp: "\<bar>x\<bar> \<le> m \<Longrightarrow> \<bar>max (- m) (min m n) - x\<bar> \<le> \<bar>n - x\<bar>" for x m n :: rat
  by linarith

lemma near_sign: "\<bar>y\<bar> < c \<Longrightarrow> c \<le> \<bar>x\<bar> \<Longrightarrow> \<bar>(if x < 0 then - c else c) - x\<bar> \<le> \<bar>y - x\<bar>" for x y c :: rat
  by (auto simp: abs_if split: if_splits)

text \<open>No number of the format is nearer to the exact result.\<close>

lemma round32_nearest:
  assumes "\<bar>x\<bar> \<le> of_int f32_max" and "is_f32 y"
  shows "\<bar>of_int (round32 x) - x\<bar> \<le> \<bar>of_int y - x\<bar>"
proof -
  let ?k = "last_place x" and ?n = "round_even (x / 2 ^ last_place x) * 2 ^ last_place x"
  have "(of_int (round32 x) :: rat) = max (- of_int f32_max) (min (of_int f32_max) (of_int ?n))"
    by (simp add: round32_def Let_def of_int_max of_int_min)
  then have "\<bar>of_int (round32 x) - x\<bar> \<le> \<bar>of_int ?n - x\<bar>" using near_clamp [OF assms(1), of "of_int ?n"] by simp
  also have "\<dots> \<le> \<bar>of_int y - x\<bar>"
  proof -
    obtain m j where y: "y = m * 2 ^ j" "\<bar>m\<bar> < 2 ^ 24" "j \<le> 253" using assms(2) by (auto simp: is_f32_def)
    show ?thesis
    proof (cases "?k \<le> j")
      case True
      then have "y = (m * 2 ^ (j - ?k)) * 2 ^ ?k" by (simp add: y(1) flip: power_add)
      then show ?thesis using near_multiple [of x ?k "m * 2 ^ (j - ?k)"] by (simp only:)
    next
      case False
      then obtain k' where k': "?k = Suc k'" "j \<le> k'" by (cases ?k) auto
      let ?c = "2 ^ 23 * 2 ^ ?k :: rat"
      have "\<bar>y\<bar> < 2 ^ 24 * 2 ^ j" using y(2) by (simp add: y(1) abs_mult)
      also have "\<dots> \<le> (2 ^ 24 * 2 ^ k' :: int)" using k'(2) by (intro mult_left_mono power_increasing) auto
      finally have "of_int \<bar>y\<bar> < (of_int (2 ^ 24 * 2 ^ k') :: rat)" by (simp only: of_int_less_iff)
      then have low: "\<bar>of_int y\<bar> < ?c" by (simp add: k'(1))
      have "2 ^ 24 * 2 ^ k' \<le> \<bar>x\<bar>" by (rule last_place_props(1)) (simp add: k'(1))
      then have "\<bar>(if x < 0 then - ?c else ?c) - x\<bar> \<le> \<bar>of_int y - x\<bar>" by (intro near_sign [OF low]) (simp add: k'(1))
      moreover have "(if x < 0 then - ?c else ?c) = of_int ((if x < 0 then - (2 ^ 23) else 2 ^ 23) * 2 ^ ?k)" by simp
      ultimately have "\<bar>of_int ((if x < 0 then - (2 ^ 23) else 2 ^ 23) * 2 ^ ?k) - x\<bar> \<le> \<bar>of_int y - x\<bar>" by (simp only:)
      then show ?thesis by (rule order.trans [OF near_multiple])
    qed
  qed
  finally show ?thesis .
qed

lemma round32_le: "x \<le> of_int y \<Longrightarrow> is_f32 y \<Longrightarrow> \<bar>x\<bar> \<le> of_int f32_max \<Longrightarrow> round32 x \<le> y"
  using round32_nearest [of x y] by (subst of_int_le_iff [where 'a = rat, symmetric]) linarith

lemma round32_ge: "of_int y \<le> x \<Longrightarrow> is_f32 y \<Longrightarrow> \<bar>x\<bar> \<le> of_int f32_max \<Longrightarrow> y \<le> round32 x"
  using round32_nearest [of x y] by (subst of_int_le_iff [where 'a = rat, symmetric]) linarith

lemma round32_same: "is_f32 n \<Longrightarrow> round32 (of_int n) = n"
proof -
  assume n: "is_f32 n"
  have "\<bar>of_int n :: rat\<bar> = of_int \<bar>n\<bar>" by simp
  also have "\<dots> \<le> of_int f32_max" using is_f32_le_max [OF n] by (simp only: of_int_le_iff)
  finally have "\<bar>of_int (round32 (of_int n)) - (of_int n :: rat)\<bar> \<le> \<bar>of_int n - of_int n\<bar>" by (rule round32_nearest [OF _ n])
  then show ?thesis by simp
qed

lemma round32_error:
  assumes "\<bar>x\<bar> \<le> of_int f32_max"
  shows "\<bar>of_int (round32 x) - x\<bar> \<le> max (1 / 2) (\<bar>x\<bar> / 2 ^ 24)"
proof -
  let ?k = "last_place x" and ?n = "round_even (x / 2 ^ last_place x) * 2 ^ last_place x"
  have "(of_int (round32 x) :: rat) = max (- of_int f32_max) (min (of_int f32_max) (of_int ?n))"
    by (simp add: round32_def Let_def of_int_max of_int_min)
  then have "\<bar>of_int (round32 x) - x\<bar> \<le> \<bar>of_int ?n - x\<bar>" using near_clamp [OF assms(1), of "of_int ?n"] by simp
  also have "\<dots> = \<bar>of_int (round_even (x / 2 ^ ?k)) - x / 2 ^ ?k\<bar> * 2 ^ ?k"
  proof -
    have "of_int ?n - x = (of_int (round_even (x / 2 ^ ?k)) - x / 2 ^ ?k) * 2 ^ ?k" by (simp add: left_diff_distrib)
    then show ?thesis by (simp add: abs_mult)
  qed
  also have "\<dots> \<le> 1 / 2 * 2 ^ ?k" by (intro mult_right_mono round_even_close) simp
  also have "\<dots> \<le> max (1 / 2) (\<bar>x\<bar> / 2 ^ 24)"
  proof (cases ?k)
    case (Suc k)
    then show ?thesis using last_place_props(1) [of k x] by simp
  qed simp
  finally show ?thesis .
qed

section \<open>A point between two others\<close>

lemma max_units: "\<bar>x\<bar> \<le> 2 ^ 150 \<Longrightarrow> \<bar>x\<bar> \<le> of_int f32_max" for x :: rat
  by (simp add: f32_max_def)

text \<open>A part of at most 31/32 of a rounded difference is at most the difference.\<close>

lemma rounded_part:
  assumes "0 \<le> n" and "n \<le> 2 ^ 149" and "is_f32 r" and "0 \<le> r" and "r \<le> 31 * 2 ^ 144"
  defines "d \<equiv> round32 (of_int n)"
  defines "p \<equiv> round32 (of_int (d * r) / 2 ^ 149)"
  shows "0 \<le> p" and "p \<le> n"
proof -
  have n: "0 \<le> (of_int n :: rat)" "(of_int n :: rat) \<le> 2 ^ 149"
    using assms(1,2) of_int_le_iff [of n "2 ^ 149", where 'a = rat] by simp_all
  have bound: "\<bar>of_int n :: rat\<bar> \<le> of_int f32_max" using n by (intro max_units) simp
  have zero: "is_f32 0" by (simp add: is_f32_small)
  have d0: "0 \<le> d" unfolding d_def by (rule round32_ge [OF _ zero bound]) (use n in simp)
  have d1: "d \<le> 2 ^ 149" unfolding d_def by (rule round32_le [OF _ is_f32_power bound]) (use n in simp_all)
  define x :: rat where "x = of_int d * (of_int r / 2 ^ 149)"
  have part: "0 \<le> (of_int r / 2 ^ 149 :: rat)" "(of_int r / 2 ^ 149 :: rat) \<le> 31 / 32"
  proof -
    have "(of_int r :: rat) \<le> of_int (31 * 2 ^ 144)" using assms(5) by (simp only: of_int_le_iff)
    then show "(of_int r / 2 ^ 149 :: rat) \<le> 31 / 32" by (simp add: divide_le_eq)
  qed (use assms(4) in simp)
  have x0: "0 \<le> x" using d0 part by (simp add: x_def)
  have x1: "x \<le> of_int d * (31 / 32)" unfolding x_def using d0 part by (intro mult_left_mono) simp_all
  have "(of_int d :: rat) \<le> 2 ^ 149" using d1 of_int_le_iff [of d "2 ^ 149", where 'a = rat] by simp
  then have xb: "\<bar>x\<bar> \<le> of_int f32_max" using x0 x1 by (intro max_units) simp
  have p: "p = round32 x" by (simp add: p_def x_def)
  show "0 \<le> p" unfolding p by (rule round32_ge [OF _ zero xb]) (use x0 in simp)
  show "p \<le> n"
  proof (cases "n < 2 ^ 24")
    case True
    then have "d = n" unfolding d_def using assms(1) by (intro round32_same is_f32_small) simp
    moreover have "round32 x \<le> d"
      by (rule round32_le [OF _ _ xb]) (use x1 d0 is_f32_round32 in \<open>simp_all add: d_def\<close>)
    ultimately show ?thesis by (simp add: p)
  next
    case False
    then have "2 ^ 24 \<le> n" by simp
    then have big: "2 ^ 24 \<le> (of_int n :: rat)" using of_int_le_iff [of "2 ^ 24" n, where 'a = rat] by simp
    have "\<bar>of_int d - (of_int n :: rat)\<bar> \<le> of_int n / 2 ^ 24"
      using round32_error [OF bound] big n by (simp add: d_def max_def split: if_splits)
    then have "of_int d \<le> (of_int n :: rat) + of_int n / 2 ^ 24" by linarith
    moreover have "of_int p \<le> x + max (1 / 2) (x / 2 ^ 24)" using round32_error [OF xb] x0 by (simp add: p)
    ultimately have "of_int p \<le> (of_int n :: rat)" using x1 big by (simp add: max_def split: if_splits)
    then show ?thesis by simp
  qed
qed

lemma rounded_between:
  assumes "is_f32 a" and "is_f32 b" and "0 \<le> a" and "a \<le> b" and "b \<le> 2 ^ 149"
    and "is_f32 r" and "0 \<le> r" and "r \<le> 31 * 2 ^ 144"
  defines "m \<equiv> round32 (of_int (a + round32 (of_int (round32 (of_int (b - a)) * r) / 2 ^ 149)))"
  shows "a \<le> m" and "m \<le> b"
proof -
  let ?p = "round32 (of_int (round32 (of_int (b - a)) * r) / 2 ^ 149)"
  have p: "0 \<le> ?p" "?p \<le> b - a" using rounded_part [of "b - a" r] assms(3-8) by simp_all
  then have "0 \<le> a + ?p" "a + ?p \<le> 2 ^ 149" using assms(3,5) by simp_all
  then have "0 \<le> (of_int (a + ?p) :: rat)" "(of_int (a + ?p) :: rat) \<le> of_int (2 ^ 149)" by (simp_all only: of_int_0_le_iff of_int_le_iff)
  then have bound: "\<bar>of_int (a + ?p) :: rat\<bar> \<le> of_int f32_max" by (intro max_units) simp
  show "a \<le> m" unfolding m_def by (rule round32_ge [OF _ assms(1) bound]) (simp only: of_int_le_iff, use p in simp)
  show "m \<le> b" unfolding m_def by (rule round32_le [OF _ assms(2) bound]) (simp only: of_int_le_iff, use p in simp)
qed

section \<open>The type\<close>

typedef f32 = "{n. is_f32 n}" morphisms units_of f32_units
  by (rule exI [of _ 0]) (simp add: is_f32_small)

setup_lifting type_definition_f32

instantiation f32 :: linorder
begin

lift_definition less_eq_f32 :: "f32 \<Rightarrow> f32 \<Rightarrow> bool" is "(\<le>)" .

lift_definition less_f32 :: "f32 \<Rightarrow> f32 \<Rightarrow> bool" is "(<)" .

instance
  by standard (transfer; auto)+

end

lift_definition f32_of :: "rat \<Rightarrow> f32" is "\<lambda>x. round32 (x * 2 ^ 149)"
  by (rule is_f32_round32)

lift_definition f32_add :: "f32 \<Rightarrow> f32 \<Rightarrow> f32" is "\<lambda>a b. round32 (of_int (a + b))"
  by (rule is_f32_round32)

lift_definition f32_sub :: "f32 \<Rightarrow> f32 \<Rightarrow> f32" is "\<lambda>a b. round32 (of_int (a - b))"
  by (rule is_f32_round32)

lift_definition f32_mul :: "f32 \<Rightarrow> f32 \<Rightarrow> f32" is "\<lambda>a b. round32 (of_int (a * b) / 2 ^ 149)"
  by (rule is_f32_round32)

lemma two_units: "\<bar>x\<bar> \<le> 2 \<Longrightarrow> \<bar>x * 2 ^ 149\<bar> \<le> of_int f32_max" for x :: rat
proof -
  assume "\<bar>x\<bar> \<le> 2"
  then have "\<bar>x\<bar> * 2 ^ 149 \<le> 2 * 2 ^ 149" by (rule mult_right_mono) simp
  then show ?thesis by (intro max_units) (simp add: abs_mult)
qed

lemma f32_of_le: "\<bar>x\<bar> \<le> 2 \<Longrightarrow> is_f32 n \<Longrightarrow> x * 2 ^ 149 \<le> of_int n \<Longrightarrow> units_of (f32_of x) \<le> n"
  unfolding f32_of.rep_eq by (rule round32_le [OF _ _ two_units])

lemma f32_of_ge: "\<bar>x\<bar> \<le> 2 \<Longrightarrow> is_f32 n \<Longrightarrow> of_int n \<le> x * 2 ^ 149 \<Longrightarrow> n \<le> units_of (f32_of x)"
  unfolding f32_of.rep_eq by (rule round32_ge [OF _ _ two_units])

lemma units_f32 [simp]: "is_f32 (units_of x)"
  using units_of [of x] by simp

text \<open>Literals keep their order.\<close>

lemma f32_of_mono: "x \<le> y \<Longrightarrow> \<bar>x\<bar> \<le> 2 \<Longrightarrow> \<bar>y\<bar> \<le> 2 \<Longrightarrow> f32_of x \<le> f32_of y"
proof -
  assume xy: "x \<le> y" "\<bar>x\<bar> \<le> 2" "\<bar>y\<bar> \<le> 2"
  note near = round32_nearest [OF two_units [OF xy(2)] is_f32_round32 [of "y * 2 ^ 149"]]
    round32_nearest [OF two_units [OF xy(3)] is_f32_round32 [of "x * 2 ^ 149"]]
  have "x * 2 ^ 149 \<le> y * 2 ^ 149" using xy(1) by (rule mult_right_mono) simp
  then have "round32 (x * 2 ^ 149) \<le> round32 (y * 2 ^ 149)"
  proof (cases "x * 2 ^ 149 = y * 2 ^ 149")
    case False
    with \<open>x * 2 ^ 149 \<le> y * 2 ^ 149\<close> have "x * 2 ^ 149 < y * 2 ^ 149" by simp
    then have "(of_int (round32 (x * 2 ^ 149)) :: rat) \<le> of_int (round32 (y * 2 ^ 149))" using near by linarith
    then show ?thesis by simp
  qed (simp only: order.refl)
  then show ?thesis by (simp add: less_eq_f32.rep_eq f32_of.rep_eq)
qed

text \<open>The point at a part of the way, for a part of at most 31/32, lies between the ends.\<close>

lemma f32_between:
  assumes "f32_of 0 \<le> a" and "a \<le> b" and "b \<le> f32_of 1" and "f32_of 0 \<le> r" and "r \<le> f32_of (31 / 32)"
  shows "a \<le> f32_add a (f32_mul (f32_sub b a) r)" and "f32_add a (f32_mul (f32_sub b a) r) \<le> b"
proof -
  have zero: "units_of (f32_of 0) = 0" using round32_same [OF is_f32_small [of 0]] by (simp add: f32_of.rep_eq)
  have one: "units_of (f32_of 1) \<le> 2 ^ 149" by (rule f32_of_le [OF _ is_f32_power]) simp_all
  have part: "units_of (f32_of (31 / 32)) \<le> 31 * 2 ^ 144"
  proof (rule f32_of_le)
    have "31 * 2 ^ 144 = 31 * 2 ^ 144 \<and> \<bar>31 :: int\<bar> < 2 ^ 24 \<and> (144 :: nat) \<le> 253" by simp
    then show "is_f32 (31 * 2 ^ 144)" unfolding is_f32_def by blast
  qed simp_all
  have le: "x \<le> y \<longleftrightarrow> units_of x \<le> units_of y" for x y by (rule less_eq_f32.rep_eq)
  note between = rounded_between [OF units_f32 [of a] units_f32 [of b] _ _ _ units_f32 [of r]]
  have range: "0 \<le> units_of a" "units_of a \<le> units_of b" "units_of b \<le> 2 ^ 149" "0 \<le> units_of r" "units_of r \<le> 31 * 2 ^ 144"
    using assms(1,2,4) order.trans [OF assms(3) [unfolded le] one] order.trans [OF assms(5) [unfolded le] part]
    unfolding le zero by simp_all
  show "a \<le> f32_add a (f32_mul (f32_sub b a) r)" "f32_add a (f32_mul (f32_sub b a) r) \<le> b"
    unfolding le f32_add.rep_eq f32_mul.rep_eq f32_sub.rep_eq by (rule between [OF range])+
qed

end
