(* ===== verification/Terminal_Layout.thy ===== *)
theory Terminal_Layout
  imports Orchid_Prelude
begin

text \<open>
  The tab and split-tree model of the terminal (crates/orchid-terminal/src/layout/).  A tab owns a
  binary tree of panes and a focused session; the root keeps the tabs and the index of the active
  one.  A \<open>Uuid\<close> is a 128-bit word; the ids that \<open>Tab::single\<close> draws at random are arguments.

  The geometry is computed in \<open>f32\<close>.  Its three operations and the literals of the code are the
  fields of an \<open>f32_arith\<close> record over a linearly ordered type (the code never produces a NaN from
  the ratios it stores), so that no rounding behaviour is fixed here; what a theorem needs of the
  arithmetic is a hypothesis about the record, which the arithmetic of the code satisfies (\<open>Terminal_Panes\<close>).
\<close>

section \<open>Data\<close>

type_synonym uuid = "128 word"

datatype SplitDirection = Horizontal | Vertical

datatype 'f SplitNode =
    Leaf uuid
  | Split SplitDirection 'f "'f SplitNode" "'f SplitNode"

record 'f Tab =
  tab_id :: uuid
  title :: string
  root :: "'f SplitNode"
  focus :: "uuid option"

record 'f LayoutRoot =
  tabs :: "'f Tab list"
  active_tab :: nat

record 'f f32_arith =
  fadd :: "'f \<Rightarrow> 'f \<Rightarrow> 'f"
  fsub :: "'f \<Rightarrow> 'f \<Rightarrow> 'f"
  fmul :: "'f \<Rightarrow> 'f \<Rightarrow> 'f"
  c_zero :: 'f
  c_one :: 'f
  c_half :: 'f
  c_005 :: 'f
  c_095 :: 'f
  DIVIDER_HIT_EPS :: 'f

datatype terminal_error =
    TabIndexOutOfRange nat
  | CannotCloseLastTab
  | TabIndicesOutOfRange
  | NoActiveTab
  | CannotCloseWithoutFocus
  | TabBecameEmpty
  | SessionsNotAdjacent

section \<open>Split tree\<close>

primrec leaves :: "'f SplitNode \<Rightarrow> uuid list \<Rightarrow> uuid list" where
  "leaves (Leaf s) out = out @ [s]"
| "leaves (Split d r a b) out = leaves b (leaves a out)"

primrec leaf_count :: "'f SplitNode \<Rightarrow> nat" where
  "leaf_count (Leaf s) = 1"
| "leaf_count (Split d r a b) = leaf_count a + leaf_count b"

primrec replace_leaf ::
  "'f f32_arith \<Rightarrow> 'f SplitNode \<Rightarrow> uuid \<Rightarrow> SplitDirection \<Rightarrow> uuid \<Rightarrow> 'f SplitNode \<times> bool"
where
  "replace_leaf ar (Leaf s) foc dir new_session =
    (if s = foc then (Split dir (c_half ar) (Leaf s) (Leaf new_session), True) else (Leaf s, False))"
| "replace_leaf ar (Split d r a b) foc dir new_session =
    (case replace_leaf ar a foc dir new_session of
       (a', True) \<Rightarrow> (Split d r a' b, True)
     | (a', False) \<Rightarrow>
         (case replace_leaf ar b foc dir new_session of (b', ok) \<Rightarrow> (Split d r a' b', ok)))"

primrec close_leaf :: "'f SplitNode \<Rightarrow> uuid \<Rightarrow> 'f SplitNode \<times> bool" where
  "close_leaf (Leaf s) target = (Leaf s, False)"
| "close_leaf (Split d r a b) target =
    (if a = Leaf target then (b, True)
     else if b = Leaf target then (a, True)
     else case close_leaf a target of
       (a', True) \<Rightarrow> (Split d r a' b, True)
     | (a', False) \<Rightarrow> (case close_leaf b target of (b', ok) \<Rightarrow> (Split d r a' b', ok)))"

primrec contains_session :: "'f SplitNode \<Rightarrow> uuid \<Rightarrow> bool" where
  "contains_session (Leaf s) session \<longleftrightarrow> s = session"
| "contains_session (Split d r a b) session \<longleftrightarrow> contains_session a session \<or> contains_session b session"

definition first_of :: "'a list \<Rightarrow> 'a option" where
  "first_of xs = (case xs of [] \<Rightarrow> None | x # _ \<Rightarrow> Some x)"

definition last_of :: "'a list \<Rightarrow> 'a option" where
  "last_of xs = (if xs = [] then None else Some (last xs))"

definition unwrap_or :: "'a option \<Rightarrow> 'a \<Rightarrow> 'a" where
  "unwrap_or opt x = (case opt of None \<Rightarrow> x | Some y \<Rightarrow> y)"

definition boundary_session_last :: "'f SplitNode \<Rightarrow> uuid option" where
  "boundary_session_last node = last_of (leaves node [])"

definition boundary_session_first :: "'f SplitNode \<Rightarrow> uuid option" where
  "boundary_session_first node = first_of (leaves node [])"

definition clamp :: "'f::linorder \<Rightarrow> 'f \<Rightarrow> 'f \<Rightarrow> 'f" where
  "clamp x lo hi = (if x < lo then lo else if x > hi then hi else x)"

primrec set_split_ratio_between ::
  "'f::linorder f32_arith \<Rightarrow> 'f SplitNode \<Rightarrow> uuid \<Rightarrow> uuid \<Rightarrow> 'f \<Rightarrow> terminal_error + 'f SplitNode"
where
  "set_split_ratio_between ar (Leaf s) first second ratio = Inl SessionsNotAdjacent"
| "set_split_ratio_between ar (Split d r a b) first second ratio =
    (if contains_session a first \<and> contains_session b second
     then Inr (Split d (clamp ratio (c_005 ar) (c_095 ar)) a b)
     else case set_split_ratio_between ar a first second ratio of
       Inr a' \<Rightarrow> Inr (Split d r a' b)
     | Inl _ \<Rightarrow> and_then (set_split_ratio_between ar b first second ratio) (\<lambda>b'. Inr (Split d r a b')))"

section \<open>Tabs and focus\<close>

definition tab_single :: "uuid \<Rightarrow> string \<Rightarrow> uuid \<Rightarrow> 'f Tab" where
  "tab_single new_id name session =
    \<lparr>tab_id = new_id, title = name, root = Leaf session, focus = Some session\<rparr>"

definition collect_leaves :: "'f SplitNode \<Rightarrow> uuid list" where
  "collect_leaves r = leaves r []"

definition focused_session_in_tab :: "'f Tab \<Rightarrow> uuid option" where
  "focused_session_in_tab tab =
    (case focus tab of Some f \<Rightarrow> Some f | None \<Rightarrow> first_of (leaves (root tab) []))"

definition set_focus :: "'f Tab \<Rightarrow> uuid \<Rightarrow> 'f Tab" where
  "set_focus tab session = tab\<lparr>focus := Some session\<rparr>"

definition focus_next_in_tab :: "'f Tab \<Rightarrow> 'f Tab" where
  "focus_next_in_tab tab =
    (let ls = collect_leaves (root tab)
     in if ls = [] then tab
        else let current = unwrap_or (focused_session_in_tab tab) (ls ! 0);
                 pos = unwrap_or (position (\<lambda>s. s = current) ls) 0;
                 nxt = (pos + 1) mod length ls
             in set_focus tab (ls ! nxt))"

definition focus_previous_in_tab :: "'f Tab \<Rightarrow> 'f Tab" where
  "focus_previous_in_tab tab =
    (let ls = collect_leaves (root tab)
     in if ls = [] then tab
        else let current = unwrap_or (focused_session_in_tab tab) (ls ! 0);
                 pos = unwrap_or (position (\<lambda>s. s = current) ls) 0;
                 prev = (pos + length ls - 1) mod length ls
             in set_focus tab (ls ! prev))"

section \<open>Layout root\<close>

definition layout_new :: "uuid \<Rightarrow> uuid \<Rightarrow> 'f LayoutRoot" where
  "layout_new new_id session = \<lparr>tabs = [tab_single new_id ''Terminal'' session], active_tab = 0\<rparr>"

definition add_tab :: "uuid \<Rightarrow> uuid \<Rightarrow> 'f LayoutRoot \<Rightarrow> 'f LayoutRoot \<times> nat" where
  "add_tab new_id session l =
    (let l = l\<lparr>tabs := tabs l @ [tab_single new_id ''Terminal'' session]\<rparr>
     in (l, length (tabs l) - 1))"

definition close_tab :: "nat \<Rightarrow> 'f LayoutRoot \<Rightarrow> terminal_error + 'f LayoutRoot" where
  "close_tab index l =
    (if length (tabs l) \<le> index then Inl (TabIndexOutOfRange index)
     else if length (tabs l) = 1 then Inl CannotCloseLastTab
     else let l = l\<lparr>tabs := remove_at index (tabs l)\<rparr>
          in Inr (if length (tabs l) \<le> active_tab l then l\<lparr>active_tab := length (tabs l) - 1\<rparr> else l))"

definition move_tab :: "nat \<Rightarrow> nat \<Rightarrow> 'f LayoutRoot \<Rightarrow> terminal_error + 'f LayoutRoot" where
  "move_tab from to l =
    (if length (tabs l) \<le> from \<or> length (tabs l) \<le> to then Inl TabIndicesOutOfRange
     else Inr (l\<lparr>tabs := insert_at to (tabs l ! from) (remove_at from (tabs l))\<rparr>))"

text \<open>The active tab, as \<open>tabs.get_mut(active_tab)\<close> hands it out, updated in place.\<close>

definition set_active :: "'f Tab \<Rightarrow> 'f LayoutRoot \<Rightarrow> 'f LayoutRoot" where
  "set_active t l = l\<lparr>tabs := (tabs l)[active_tab l := t]\<rparr>"

definition split :: "'f f32_arith \<Rightarrow> SplitDirection \<Rightarrow> uuid \<Rightarrow> 'f LayoutRoot \<Rightarrow> terminal_error + 'f LayoutRoot" where
  "split ar dir new_session l =
    (case get_at (tabs l) (active_tab l) of
       None \<Rightarrow> Inl NoActiveTab
     | Some tab \<Rightarrow>
         let foc = (case focus tab of Some f \<Rightarrow> f
                    | None \<Rightarrow> unwrap_or (first_of (leaves (root tab) [])) new_session);
             r = fst (replace_leaf ar (root tab) foc dir new_session)
         in Inr (set_active (tab\<lparr>root := r, focus := Some new_session\<rparr>) l))"

text \<open>
  \<open>close_focus\<close> mutates the tab before its last check, so the error carries no rollback: the result
  is the layout together with the outcome.
\<close>

definition close_focus :: "'f LayoutRoot \<Rightarrow> 'f LayoutRoot \<times> (terminal_error + unit)" where
  "close_focus l =
    (case get_at (tabs l) (active_tab l) of
       None \<Rightarrow> (l, Inl NoActiveTab)
     | Some tab \<Rightarrow>
         (case focus tab of
            None \<Rightarrow> (l, Inl CannotCloseWithoutFocus)
          | Some f \<Rightarrow>
              let (r, collapsed) = close_leaf (root tab) f;
                  tab = tab\<lparr>root := r\<rparr>;
                  tab = (if collapsed then tab\<lparr>focus := None\<rparr> else tab);
                  l = set_active tab l
              in if leaf_count (root tab) = 0 then (l, Inl TabBecameEmpty) else (l, Inr ())))"

definition focus_next :: "'f LayoutRoot \<Rightarrow> 'f LayoutRoot" where
  "focus_next l =
    (case get_at (tabs l) (active_tab l) of None \<Rightarrow> l | Some tab \<Rightarrow> set_active (focus_next_in_tab tab) l)"

definition focus_previous :: "'f LayoutRoot \<Rightarrow> 'f LayoutRoot" where
  "focus_previous l =
    (case get_at (tabs l) (active_tab l) of None \<Rightarrow> l | Some tab \<Rightarrow> set_active (focus_previous_in_tab tab) l)"

definition focused_session :: "'f LayoutRoot \<Rightarrow> uuid option" where
  "focused_session l =
    (case get_at (tabs l) (active_tab l) of None \<Rightarrow> None | Some tab \<Rightarrow> focused_session_in_tab tab)"

definition set_split_ratio ::
  "'f::linorder f32_arith \<Rightarrow> uuid \<Rightarrow> uuid \<Rightarrow> 'f \<Rightarrow> 'f LayoutRoot \<Rightarrow> terminal_error + 'f LayoutRoot"
where
  "set_split_ratio ar first second ratio l =
    (case get_at (tabs l) (active_tab l) of
       None \<Rightarrow> Inl NoActiveTab
     | Some tab \<Rightarrow>
         and_then (set_split_ratio_between ar (root tab) first second ratio)
           (\<lambda>r. Inr (set_active (tab\<lparr>root := r\<rparr>) l)))"

section \<open>Snapshots\<close>

record 'f PaneBounds =
  left :: 'f
  top :: 'f
  right :: 'f
  bottom :: 'f

record 'f PaneSnapshot =
  session :: uuid
  bounds :: "'f PaneBounds"

record 'f DividerSnapshot =
  first_session :: uuid
  second_session :: uuid
  direction :: SplitDirection
  ratio :: 'f
  hit_bounds :: "'f PaneBounds"
  parent_bounds :: "'f PaneBounds"

record 'f TabSnapshot =
  snap_id :: uuid
  snap_title :: string
  panes :: "'f PaneSnapshot list"
  dividers :: "'f DividerSnapshot list"
  focused :: "uuid option"

record 'f LayoutSnapshot =
  snap_tabs :: "'f TabSnapshot list"
  snap_active_tab :: nat

definition mid :: "'f f32_arith \<Rightarrow> 'f \<Rightarrow> 'f \<Rightarrow> 'f \<Rightarrow> 'f" where
  "mid ar a b r = fadd ar a (fmul ar (fsub ar b a) r)"

definition bounds_of :: "'f \<times> 'f \<Rightarrow> 'f \<times> 'f \<Rightarrow> 'f PaneBounds" where
  "bounds_of start end = \<lparr>left = fst start, top = snd start, right = fst end, bottom = snd end\<rparr>"

text \<open>The end of the first half and the start of the second half of a split.\<close>

definition first_end :: "'f f32_arith \<Rightarrow> SplitDirection \<Rightarrow> 'f \<Rightarrow> 'f \<times> 'f \<Rightarrow> 'f \<times> 'f \<Rightarrow> 'f \<times> 'f" where
  "first_end ar d r start end = (case d of
     Horizontal \<Rightarrow> (mid ar (fst start) (fst end) r, snd end)
   | Vertical \<Rightarrow> (fst end, mid ar (snd start) (snd end) r))"

definition second_start :: "'f f32_arith \<Rightarrow> SplitDirection \<Rightarrow> 'f \<Rightarrow> 'f \<times> 'f \<Rightarrow> 'f \<times> 'f \<Rightarrow> 'f \<times> 'f" where
  "second_start ar d r start end = (case d of
     Horizontal \<Rightarrow> (mid ar (fst start) (fst end) r, snd start)
   | Vertical \<Rightarrow> (fst start, mid ar (snd start) (snd end) r))"

primrec pane_snapshot ::
  "'f::linorder f32_arith \<Rightarrow> 'f SplitNode \<Rightarrow> 'f \<times> 'f \<Rightarrow> 'f \<times> 'f \<Rightarrow> 'f PaneSnapshot list"
where
  "pane_snapshot ar (Leaf s) start end = [\<lparr>session = s, bounds = bounds_of start end\<rparr>]"
| "pane_snapshot ar (Split d ra a b) start end =
    (let r = clamp ra (c_005 ar) (c_095 ar)
     in pane_snapshot ar a start (first_end ar d r start end)
        @ pane_snapshot ar b (second_start ar d r start end) end)"

definition divider_bounds ::
  "'f f32_arith \<Rightarrow> SplitDirection \<Rightarrow> 'f \<Rightarrow> 'f \<times> 'f \<Rightarrow> 'f \<times> 'f \<Rightarrow> 'f PaneBounds"
where
  "divider_bounds ar d r start end = (case d of
     Horizontal \<Rightarrow>
       (let m = mid ar (fst start) (fst end) r
        in \<lparr>left = fsub ar m (DIVIDER_HIT_EPS ar), top = snd start,
            right = fadd ar m (DIVIDER_HIT_EPS ar), bottom = snd end\<rparr>)
   | Vertical \<Rightarrow>
       (let m = mid ar (snd start) (snd end) r
        in \<lparr>left = fst start, top = fsub ar m (DIVIDER_HIT_EPS ar),
            right = fst end, bottom = fadd ar m (DIVIDER_HIT_EPS ar)\<rparr>))"

primrec divider_snapshot ::
  "'f::linorder f32_arith \<Rightarrow> 'f SplitNode \<Rightarrow> 'f \<times> 'f \<Rightarrow> 'f \<times> 'f \<Rightarrow> 'f DividerSnapshot list"
where
  "divider_snapshot ar (Leaf s) start end = []"
| "divider_snapshot ar (Split d ra a b) start end =
    (let r = clamp ra (c_005 ar) (c_095 ar);
         out = divider_snapshot ar a start (first_end ar d r start end);
         out = out @ divider_snapshot ar b (second_start ar d r start end) end
     in out @ [\<lparr>first_session = unwrap_or (boundary_session_last a) 0,
                second_session = unwrap_or (boundary_session_first b) 0,
                direction = d, ratio = r,
                hit_bounds = divider_bounds ar d r start end,
                parent_bounds = bounds_of start end\<rparr>])"

definition snapshot :: "'f::linorder f32_arith \<Rightarrow> 'f LayoutRoot \<Rightarrow> 'f LayoutSnapshot" where
  "snapshot ar l =
    \<lparr>snap_tabs = map (\<lambda>(index, t).
        let active = (index = active_tab l);
            start = (c_zero ar, c_zero ar);
            end = (c_one ar, c_one ar)
        in \<lparr>snap_id = tab_id t, snap_title = title t,
            panes = (if active then pane_snapshot ar (root t) start end else []),
            dividers = (if active then divider_snapshot ar (root t) start end else []),
            focused = focus t\<rparr>)
        (enumerate 0 (tabs l)),
     snap_active_tab = active_tab l\<rparr>"

section \<open>The leaves of a tree under the tree operations\<close>

lemma leaves_acc: "leaves n out = out @ leaves n []"
proof (induction n arbitrary: out)
  case (Split d r a b)
  then show ?case by (metis append.assoc leaves.simps(2))
qed simp

lemma leaves_Split [simp]: "leaves (Split d r a b) [] = leaves a [] @ leaves b []"
  using leaves_acc [of b "leaves a []"] by simp

declare leaves.simps(2) [simp del]

lemma leaves_not_Nil [simp]: "leaves n [] \<noteq> []"
  by (induction n) auto

lemma leaf_count_leaves: "leaf_count n = length (leaves n [])"
  by (induction n) auto

lemma contains_session_leaves: "contains_session n s \<longleftrightarrow> s \<in> set (leaves n [])"
  by (induction n) auto

lemma replace_leaf_absent:
  "f \<notin> set (leaves n []) \<Longrightarrow> replace_leaf ar n f d s = (n, False)"
  by (induction n) auto

text \<open>The new session goes right behind the first pane of the focused session.\<close>

lemma replace_leaf_present:
  "f \<in> set (leaves n []) \<Longrightarrow> \<exists>n' us vs. replace_leaf ar n f d s = (n', True)
     \<and> leaves n [] = us @ f # vs \<and> leaves n' [] = us @ f # s # vs"
proof (induction n)
  case (Leaf x)
  then show ?case by auto
next
  case (Split dir r a b)
  show ?case
  proof (cases "f \<in> set (leaves a [])")
    case True
    then obtain a' us vs where "replace_leaf ar a f d s = (a', True)"
      "leaves a [] = us @ f # vs" "leaves a' [] = us @ f # s # vs"
      using Split.IH(1) by blast
    then show ?thesis
      by (intro exI [of _ "Split dir r a' b"] exI [of _ us] exI [of _ "vs @ leaves b []"]) simp
  next
    case False
    then obtain b' us vs where "replace_leaf ar b f d s = (b', True)"
      "leaves b [] = us @ f # vs" "leaves b' [] = us @ f # s # vs"
      using Split.IH(2) Split.prems by auto
    with False show ?thesis
      by (intro exI [of _ "Split dir r a b'"] exI [of _ "leaves a [] @ us"] exI [of _ vs])
        (simp add: replace_leaf_absent)
  qed
qed

lemma close_leaf_absent: "f \<notin> set (leaves n []) \<Longrightarrow> close_leaf n f = (n, False)"
  by (induction n) auto

lemma filter_neq_id: "f \<notin> set xs \<Longrightarrow> filter (\<lambda>x. x \<noteq> f) xs = xs"
  by (induction xs) auto

lemma leaves_singleton: "leaves n [] = [s] \<longleftrightarrow> n = Leaf s"
  by (cases n) (auto simp: append_eq_Cons_conv)

lemma close_leaf_present:
  assumes "f \<in> set (leaves n [])" and "distinct (leaves n [])" and "n \<noteq> Leaf f"
  shows "\<exists>n'. close_leaf n f = (n', True) \<and> leaves n' [] = filter (\<lambda>x. x \<noteq> f) (leaves n [])"
  using assms
proof (induction n)
  case (Leaf x)
  then show ?case by simp
next
  case (Split dir r a b)
  consider (first) "a = Leaf f" | (second) "a \<noteq> Leaf f" "b = Leaf f"
    | (left) "a \<noteq> Leaf f" "b \<noteq> Leaf f" "f \<in> set (leaves a [])" "f \<notin> set (leaves b [])"
    | (right) "a \<noteq> Leaf f" "b \<noteq> Leaf f" "f \<notin> set (leaves a [])" "f \<in> set (leaves b [])"
    using Split.prems by auto
  then show ?case
  proof cases
    case first
    then show ?thesis using Split.prems by (auto simp: filter_neq_id)
  next
    case second
    then show ?thesis using Split.prems by (auto simp: filter_neq_id)
  next
    case left
    then show ?thesis using Split.IH(1) Split.prems by (auto simp: filter_neq_id)
  next
    case right
    then show ?thesis using Split.IH(2) Split.prems by (auto simp: filter_neq_id close_leaf_absent)
  qed
qed

lemma close_replace_leaf:
  "replace_leaf ar n f d s = (n', True) \<Longrightarrow> s \<notin> set (leaves n []) \<Longrightarrow> close_leaf n' s = (n, True)"
proof (induction n arbitrary: n')
  case (Leaf x)
  then show ?case by (auto split: if_splits)
next
  case (Split dir r a b)
  show ?case
  proof (cases "f \<in> set (leaves a [])")
    case True
    then obtain a' us vs where a': "replace_leaf ar a f d s = (a', True)" "leaves a' [] = us @ f # s # vs"
      using replace_leaf_present by metis
    then have "a' \<noteq> Leaf s" "b \<noteq> Leaf s" using Split.prems(2) by auto
    then show ?thesis using a'(1) Split.prems Split.IH(1) by auto
  next
    case False
    with Split.prems(1) obtain b' where b': "replace_leaf ar b f d s = (b', True)" "n' = Split dir r a b'"
      by (auto simp: replace_leaf_absent split: prod.splits)
    then have "f \<in> set (leaves b [])" using replace_leaf_absent by fastforce
    then obtain us vs where "leaves b' [] = us @ f # s # vs"
      using replace_leaf_present b'(1) by (metis prod.inject)
    then have "b' \<noteq> Leaf s" "a \<noteq> Leaf s" using Split.prems(2) by auto
    then show ?thesis using b' Split.prems Split.IH(2) by (auto simp: close_leaf_absent)
  qed
qed

lemma leaves_set_split_ratio:
  "set_split_ratio_between ar n x y ra = Inr n' \<Longrightarrow> leaves n' [] = leaves n []"
  by (induction n arbitrary: n') (auto simp: and_then_Inr_iff split: if_splits sum.splits)

section \<open>Layout invariant\<close>

text \<open>The sessions of a layout, in tab order.\<close>

definition sessions :: "'f LayoutRoot \<Rightarrow> uuid list" where
  "sessions l = concat (map (\<lambda>t. leaves (root t) []) (tabs l))"

definition tab_ok :: "'f Tab \<Rightarrow> bool" where
  "tab_ok t \<longleftrightarrow> (\<forall>f. focus t = Some f \<longrightarrow> f \<in> set (leaves (root t) []))"

definition layout_inv :: "'f LayoutRoot \<Rightarrow> bool" where
  "layout_inv l \<longleftrightarrow> active_tab l < length (tabs l) \<and> distinct (sessions l) \<and> (\<forall>t \<in> set (tabs l). tab_ok t)"

lemma active_split:
  assumes "active_tab l < length (tabs l)"
  obtains us vs where "tabs l = us @ (tabs l ! active_tab l) # vs" "length us = active_tab l"
    "\<And>t. tabs (set_active t l) = us @ t # vs"
proof
  show "tabs l = take (active_tab l) (tabs l) @ (tabs l ! active_tab l) # drop (Suc (active_tab l)) (tabs l)"
    using assms by (rule id_take_nth_drop)
  show "length (take (active_tab l) (tabs l)) = active_tab l" using assms by simp
  show "tabs (set_active t l) = take (active_tab l) (tabs l) @ t # drop (Suc (active_tab l)) (tabs l)" for t
    using assms by (simp add: set_active_def upd_conv_take_nth_drop)
qed

lemma set_active_simps [simp]:
  "active_tab (set_active t l) = active_tab l" "length (tabs (set_active t l)) = length (tabs l)"
  by (simp_all add: set_active_def)

text \<open>Replacing the active tab keeps the invariant when its leaves only lose sessions or gain fresh ones.\<close>

lemma layout_inv_set_active:
  assumes inv: "layout_inv l" and ok: "tab_ok t"
    and new: "distinct (leaves (root t) [])"
    and sub: "set (leaves (root t) []) \<subseteq> set (leaves (root (tabs l ! active_tab l)) []) \<union> F"
    and fresh: "F \<inter> set (sessions l) = {}"
  shows "layout_inv (set_active t l)"
proof -
  have act: "active_tab l < length (tabs l)" using inv by (simp add: layout_inv_def)
  then obtain us vs where split: "tabs l = us @ (tabs l ! active_tab l) # vs"
    "tabs (set_active t l) = us @ t # vs"
    by (rule active_split) blast
  let ?A = "concat (map (\<lambda>t. leaves (root t) []) us)" and ?B = "concat (map (\<lambda>t. leaves (root t) []) vs)"
  have old: "sessions l = ?A @ leaves (root (tabs l ! active_tab l)) [] @ ?B"
    unfolding sessions_def by (subst split(1)) simp
  have new_sessions: "sessions (set_active t l) = ?A @ leaves (root t) [] @ ?B"
    by (simp add: sessions_def split(2))
  have "distinct (?A @ ?B)" "set (leaves (root (tabs l ! active_tab l)) []) \<inter> set (?A @ ?B) = {}"
    "F \<inter> set (?A @ ?B) = {}"
    using inv fresh by (auto simp: layout_inv_def old)
  moreover from this(2,3) have "set (leaves (root t) []) \<inter> set (?A @ ?B) = {}" using sub by blast
  ultimately have "distinct (sessions (set_active t l))"
    using new unfolding new_sessions by auto
  moreover have "set us \<union> set vs \<subseteq> set (tabs l)"
    using arg_cong [OF split(1), of set] by auto
  then have "\<forall>t' \<in> set (tabs (set_active t l)). tab_ok t'"
    using inv ok by (auto simp: split(2) layout_inv_def)
  ultimately show ?thesis using act by (simp add: layout_inv_def)
qed

lemma get_active: "layout_inv l \<Longrightarrow> get_at (tabs l) (active_tab l) = Some (tabs l ! active_tab l)"
  by (simp add: layout_inv_def)

lemma layout_inv_tab:
  assumes "layout_inv l"
  shows "tab_ok (tabs l ! active_tab l)" and "distinct (leaves (root (tabs l ! active_tab l)) [])"
    and "set (leaves (root (tabs l ! active_tab l)) []) \<subseteq> set (sessions l)"
proof -
  have mem: "tabs l ! active_tab l \<in> set (tabs l)" using assms by (simp add: layout_inv_def)
  then show "tab_ok (tabs l ! active_tab l)" using assms by (simp add: layout_inv_def)
  show "distinct (leaves (root (tabs l ! active_tab l)) [])"
    using assms mem by (auto simp: layout_inv_def sessions_def distinct_concat_iff)
  show "set (leaves (root (tabs l ! active_tab l)) []) \<subseteq> set (sessions l)"
    using mem by (auto simp: sessions_def)
qed

lemma focused_leaf:
  "tab_ok t \<Longrightarrow> \<exists>f. focused_session_in_tab t = Some f \<and> f \<in> set (leaves (root t) [])
     \<and> (case focus t of Some f \<Rightarrow> f | None \<Rightarrow> unwrap_or (first_of (leaves (root t) [])) x) = f"
  by (cases "leaves (root t) []")
    (auto simp: tab_ok_def focused_session_in_tab_def first_of_def unwrap_or_def split: option.splits)

lemma split_step:
  assumes inv: "layout_inv l" and fresh: "s \<notin> set (sessions l)"
  obtains f n' us vs where
    "split ar d s l = Inr (set_active ((tabs l ! active_tab l)\<lparr>root := n', focus := Some s\<rparr>) l)"
    "replace_leaf ar (root (tabs l ! active_tab l)) f d s = (n', True)" "focused_session l = Some f"
    "leaves (root (tabs l ! active_tab l)) [] = us @ f # vs" "leaves n' [] = us @ f # s # vs"
    "layout_inv (set_active ((tabs l ! active_tab l)\<lparr>root := n', focus := Some s\<rparr>) l)"
proof -
  let ?t = "tabs l ! active_tab l"
  obtain f where f: "focused_session_in_tab ?t = Some f" "f \<in> set (leaves (root ?t) [])"
    "(case focus ?t of Some f \<Rightarrow> f | None \<Rightarrow> unwrap_or (first_of (leaves (root ?t) [])) s) = f"
    using focused_leaf [OF layout_inv_tab(1) [OF inv]] by blast
  obtain n' us vs where n': "replace_leaf ar (root ?t) f d s = (n', True)"
    "leaves (root ?t) [] = us @ f # vs" "leaves n' [] = us @ f # s # vs"
    using replace_leaf_present [OF f(2)] by blast
  have out: "s \<notin> set (us @ f # vs)" "distinct (us @ f # vs)"
    using fresh layout_inv_tab(2,3) [OF inv] by (auto simp: n'(2))
  have "layout_inv (set_active (?t\<lparr>root := n', focus := Some s\<rparr>) l)"
  proof (rule layout_inv_set_active [OF inv])
    show "distinct (leaves (root (?t\<lparr>root := n', focus := Some s\<rparr>)) [])" using out n'(3) by auto
    show "set (leaves (root (?t\<lparr>root := n', focus := Some s\<rparr>)) []) \<subseteq> set (leaves (root ?t) []) \<union> {s}"
      using n'(2,3) by auto
  qed (use fresh n'(3) in \<open>simp_all add: tab_ok_def\<close>)
  then show thesis
    using that f n' get_active [OF inv] by (simp add: split_def focused_session_def)
qed

lemma update_root_same: "root t = n \<Longrightarrow> t\<lparr>root := n\<rparr> = t"
  by simp

lemma layout_inv_close_focus:
  assumes "layout_inv l"
  shows "layout_inv (fst (close_focus l))"
proof (cases "focus (tabs l ! active_tab l)")
  case None
  then show ?thesis using assms by (simp add: close_focus_def get_active)
next
  case (Some f)
  let ?t = "tabs l ! active_tab l"
  have f: "f \<in> set (leaves (root ?t) [])" using layout_inv_tab(1) [OF assms] Some by (simp add: tab_ok_def)
  show ?thesis
  proof (cases "root ?t = Leaf f")
    case True
    then have "fst (close_focus l) = set_active ?t l"
      using Some assms by (simp add: close_focus_def get_active update_root_same)
    also have "\<dots> = l" by (simp add: set_active_def)
    finally show ?thesis using assms by simp
  next
    case False
    then obtain n' where n': "close_leaf (root ?t) f = (n', True)"
      "leaves n' [] = filter (\<lambda>x. x \<noteq> f) (leaves (root ?t) [])"
      using close_leaf_present [OF f layout_inv_tab(2) [OF assms]] by blast
    then have "fst (close_focus l) = set_active (?t\<lparr>root := n', focus := None\<rparr>) l"
      using Some assms by (simp add: close_focus_def get_active leaf_count_leaves)
    moreover have "layout_inv (set_active (?t\<lparr>root := n', focus := None\<rparr>) l)"
      using layout_inv_tab(2) [OF assms]
      by (intro layout_inv_set_active [OF assms, of _ "{}"]) (auto simp: tab_ok_def n')
    ultimately show ?thesis by simp
  qed
qed

lemma focus_in_tab:
  shows "focus (focus_next_in_tab t) = Some (collect_leaves (root t) !
      ((unwrap_or (position (\<lambda>s. s = unwrap_or (focused_session_in_tab t) (collect_leaves (root t) ! 0))
          (collect_leaves (root t))) 0 + 1) mod length (collect_leaves (root t))))"
    and "root (focus_next_in_tab t) = root t" "root (focus_previous_in_tab t) = root t"
    and "tab_ok (focus_next_in_tab t)" "tab_ok (focus_previous_in_tab t)"
proof -
  have "leaves (root t) [] ! (k mod length (leaves (root t) [])) \<in> set (leaves (root t) [])" for k
    by (rule nth_mem) (simp add: mod_less_divisor)
  then show "tab_ok (focus_next_in_tab t)" "tab_ok (focus_previous_in_tab t)"
    by (simp_all add: tab_ok_def focus_next_in_tab_def focus_previous_in_tab_def Let_def collect_leaves_def
        set_focus_def)
qed (simp_all add: focus_next_in_tab_def focus_previous_in_tab_def Let_def collect_leaves_def set_focus_def)

lemma layout_inv_focus:
  assumes "layout_inv l" and "root t = root (tabs l ! active_tab l)" and "tab_ok t"
  shows "layout_inv (set_active t l)"
  using layout_inv_tab(2) [OF assms(1)] assms(2,3)
  by (intro layout_inv_set_active [OF assms(1), of _ "{}"]) auto

lemma layout_inv_tabs:
  assumes "layout_inv l" and "mset (tabs l') \<subseteq># mset (tabs l)" and "active_tab l' < length (tabs l')"
  shows "layout_inv l'"
proof -
  have mset_sessions: "mset (sessions k) = (\<Sum>t\<in>#mset (tabs k). mset (leaves (root t) []))" for k :: "'a LayoutRoot"
    by (simp add: sessions_def mset_concat comp_def flip: sum_mset_sum_list mset_map)
  obtain M where M: "mset (tabs l) = mset (tabs l') + M"
    using assms(2) by (auto simp: mset_subset_eq_exists_conv)
  have "mset (sessions l') \<subseteq># mset (sessions l)"
    unfolding mset_sessions M by simp
  then obtain N where "mset (sessions l) = mset (sessions l' @ N)"
    by (metis ex_mset mset_append mset_subset_eq_exists_conv)
  then have "distinct (sessions l')"
    using assms(1) mset_eq_imp_distinct_iff [of "sessions l" "sessions l' @ N"] by (simp add: layout_inv_def)
  moreover have "set (tabs l') \<subseteq> set (tabs l)"
    using assms(2) by (metis set_mset_mono set_mset_mset)
  ultimately show ?thesis using assms(1,3) by (auto simp: layout_inv_def)
qed

lemma layout_inv_close_tab:
  assumes "layout_inv l" and "close_tab i l = Inr l'"
  shows "layout_inv l'"
proof (rule layout_inv_tabs [OF assms(1)])
  have i: "i < length (tabs l)" "length (tabs l) \<noteq> 1" and tabs': "tabs l' = remove_at i (tabs l)"
    using assms(2) by (auto simp: close_tab_def Let_def split: if_splits)
  then show "mset (tabs l') \<subseteq># mset (tabs l)" by (simp add: vec_simps)
  show "active_tab l' < length (tabs l')"
    using assms i by (auto simp: close_tab_def Let_def vec_simps layout_inv_def split: if_splits)
qed

lemma layout_inv_move_tab:
  assumes "layout_inv l" and "move_tab i j l = Inr l'"
  shows "layout_inv l'"
proof (rule layout_inv_tabs [OF assms(1)])
  have ij: "i < length (tabs l)" "j < length (tabs l)"
    and l': "l' = l\<lparr>tabs := insert_at j (tabs l ! i) (remove_at i (tabs l))\<rparr>"
    using assms(2) by (auto simp: move_tab_def split: if_splits)
  then show "mset (tabs l') \<subseteq># mset (tabs l)" by (simp add: vec_simps)
  show "active_tab l' < length (tabs l')"
    using assms(1) ij by (auto simp: l' vec_simps layout_inv_def)
qed

text \<open>
  The steps a layout goes through: its own operations, and the two assignments that the terminal
  widget makes to its public fields, switching to an existing tab and focusing a pane of the active
  tab (crates/orchid-ui/src/widgets/terminal/widget.rs).  Sessions that are attached are new.
\<close>

inductive layout_step :: "'f::linorder f32_arith \<Rightarrow> 'f LayoutRoot \<Rightarrow> 'f LayoutRoot \<Rightarrow> bool" for ar where
  add: "s \<notin> set (sessions l) \<Longrightarrow> layout_step ar l (fst (add_tab i s l))"
| close: "close_tab i l = Inr l' \<Longrightarrow> layout_step ar l l'"
| move: "move_tab i j l = Inr l' \<Longrightarrow> layout_step ar l l'"
| split: "s \<notin> set (sessions l) \<Longrightarrow> split ar d s l = Inr l' \<Longrightarrow> layout_step ar l l'"
| close_focus: "layout_step ar l (fst (close_focus l))"
| focus_next: "layout_step ar l (focus_next l)"
| focus_previous: "layout_step ar l (focus_previous l)"
| ratio: "set_split_ratio ar x y ra l = Inr l' \<Longrightarrow> layout_step ar l l'"
| switch: "i < length (tabs l) \<Longrightarrow> layout_step ar l (l\<lparr>active_tab := i\<rparr>)"
| focus_pane: "get_at (tabs l) (active_tab l) = Some t \<Longrightarrow> s \<in> set (leaves (root t) []) \<Longrightarrow>
    layout_step ar l (set_active (t\<lparr>focus := Some s\<rparr>) l)"

lemma layout_step_inv:
  assumes "layout_step ar l l'" and inv: "layout_inv l"
  shows "layout_inv l'"
  using assms(1)
proof cases
  case (add s i)
  then show ?thesis
    using inv by (auto simp: add_tab_def tab_single_def layout_inv_def sessions_def tab_ok_def)
next
  case (close i)
  then show ?thesis using inv layout_inv_close_tab by blast
next
  case (move i j)
  then show ?thesis using inv layout_inv_move_tab by blast
next
  case (split s d)
  then show ?thesis using split_step [OF inv, of s ar d] by (metis Inr_inject)
next
  case close_focus
  then show ?thesis using inv layout_inv_close_focus by simp
next
  case focus_next
  then show ?thesis using inv by (simp add: focus_next_def get_active layout_inv_focus focus_in_tab)
next
  case focus_previous
  then show ?thesis using inv by (simp add: focus_previous_def get_active layout_inv_focus focus_in_tab)
next
  case (ratio x y ra)
  then obtain r where r: "set_split_ratio_between ar (root (tabs l ! active_tab l)) x y ra = Inr r"
    "l' = set_active ((tabs l ! active_tab l)\<lparr>root := r\<rparr>) l"
    using inv by (auto simp: set_split_ratio_def get_active and_then_Inr_iff)
  then show ?thesis
    using layout_inv_tab [OF inv] leaves_set_split_ratio [OF r(1)]
    by (auto intro!: layout_inv_set_active [OF inv, of _ "{}"] simp: tab_ok_def)
next
  case (switch i)
  then show ?thesis using inv by (simp add: layout_inv_def sessions_def)
next
  case (focus_pane t s)
  then show ?thesis using inv by (auto simp: get_active tab_ok_def intro!: layout_inv_focus)
qed

section \<open>Geometry\<close>

text \<open>
  What the snapshot relies on: the split position computed in \<open>f32\<close> from a ratio between the two
  limits stays between the edges of a region of the unit square.
\<close>

definition f32_ok :: "'f::linorder f32_arith \<Rightarrow> bool" where
  "f32_ok ar \<longleftrightarrow> c_005 ar \<le> c_095 ar \<and> c_zero ar \<le> c_one ar
    \<and> (\<forall>a b r. c_zero ar \<le> a \<and> a \<le> b \<and> b \<le> c_one ar \<and> c_005 ar \<le> r \<and> r \<le> c_095 ar
        \<longrightarrow> a \<le> mid ar a b r \<and> mid ar a b r \<le> b)"

lemma clamp_bounds: "lo \<le> hi \<Longrightarrow> lo \<le> clamp x lo hi \<and> clamp x lo hi \<le> hi"
  by (auto simp: clamp_def)

lemma clamp_idem: "lo \<le> hi \<Longrightarrow> clamp (clamp x lo hi) lo hi = clamp x lo hi"
  by (auto simp: clamp_def)

lemma mid_clamp:
  "f32_ok ar \<Longrightarrow> c_zero ar \<le> a \<Longrightarrow> a \<le> b \<Longrightarrow> b \<le> c_one ar \<Longrightarrow>
   a \<le> mid ar a b (clamp r (c_005 ar) (c_095 ar)) \<and> mid ar a b (clamp r (c_005 ar) (c_095 ar)) \<le> b"
  using clamp_bounds [of "c_005 ar" "c_095 ar" r] by (simp add: f32_ok_def)

text \<open>A region of the unit square.\<close>

definition region :: "'f::linorder f32_arith \<Rightarrow> 'f \<times> 'f \<Rightarrow> 'f \<times> 'f \<Rightarrow> bool" where
  "region ar start fin \<longleftrightarrow> c_zero ar \<le> fst start \<and> fst start \<le> fst fin \<and> fst fin \<le> c_one ar
    \<and> c_zero ar \<le> snd start \<and> snd start \<le> snd fin \<and> snd fin \<le> c_one ar"

definition inside :: "'f::linorder \<times> 'f \<Rightarrow> 'f \<times> 'f \<Rightarrow> 'f PaneBounds \<Rightarrow> bool" where
  "inside start fin b \<longleftrightarrow> fst start \<le> left b \<and> left b \<le> right b \<and> right b \<le> fst fin
    \<and> snd start \<le> top b \<and> top b \<le> bottom b \<and> bottom b \<le> snd fin"

definition covers :: "'f::linorder PaneBounds \<Rightarrow> 'f \<Rightarrow> 'f \<Rightarrow> bool" where
  "covers b x y \<longleftrightarrow> left b \<le> x \<and> x \<le> right b \<and> top b \<le> y \<and> y \<le> bottom b"

definition apart :: "'f::linorder PaneBounds \<Rightarrow> 'f PaneBounds \<Rightarrow> bool" where
  "apart p q \<longleftrightarrow> right p \<le> left q \<or> bottom p \<le> top q"

lemma pane_sessions: "map session (pane_snapshot ar n start fin) = leaves n []"
  by (induction n arbitrary: start fin) (simp_all add: Let_def)

lemma first_end_between:
  fixes ar :: "'f::linorder f32_arith" and d :: SplitDirection and r :: 'f
  assumes "f32_ok ar" and "region ar start fin"
  defines "m \<equiv> first_end ar d (clamp r (c_005 ar) (c_095 ar)) start fin"
  defines "m' \<equiv> second_start ar d (clamp r (c_005 ar) (c_095 ar)) start fin"
  shows "region ar start m" and "region ar m' fin"
    and "fst m \<le> fst fin" and "snd m \<le> snd fin" and "fst start \<le> fst m'" and "snd start \<le> snd m'"
proof -
  have box: "c_zero ar \<le> fst start" "fst start \<le> fst fin" "fst fin \<le> c_one ar"
    "c_zero ar \<le> snd start" "snd start \<le> snd fin" "snd fin \<le> c_one ar"
    using assms(2) by (simp_all add: region_def)
  note x = mid_clamp [OF assms(1) box(1,2,3), of r] and y = mid_clamp [OF assms(1) box(4,5,6), of r]
  show "region ar start m" "region ar m' fin"
    "fst m \<le> fst fin" "snd m \<le> snd fin" "fst start \<le> fst m'" "snd start \<le> snd m'"
    using box x y by (auto simp: m_def m'_def region_def first_end_def second_start_def split: SplitDirection.split intro: order.trans)
qed

lemma panes_within:
  assumes "f32_ok ar" and "region ar start fin" and "p \<in> set (pane_snapshot ar n start fin)"
  shows "inside start fin (bounds p)"
  using assms(2-)
proof (induction n arbitrary: start fin)
  case (Leaf s)
  then show ?case by (simp add: inside_def bounds_of_def region_def)
next
  case (Split d r a b)
  let ?r = "clamp r (c_005 ar) (c_095 ar)"
  note between = first_end_between [OF assms(1) Split.prems(1), of d r]
  have "inside start (first_end ar d ?r start fin) (bounds p) \<or> inside (second_start ar d ?r start fin) fin (bounds p)"
    using Split.IH(1) [OF between(1)] Split.IH(2) [OF between(2)] Split.prems(2)
    by (simp add: Let_def) blast
  then show ?case using between(3-) by (auto simp: inside_def)
qed

lemma panes_cover:
  assumes "fst start \<le> x" and "x \<le> fst fin" and "snd start \<le> y" and "y \<le> snd fin"
  shows "\<exists>p \<in> set (pane_snapshot ar n start fin). covers (bounds p) x y"
  using assms
proof (induction n arbitrary: start fin)
  case (Leaf s)
  then show ?case by (simp add: covers_def bounds_of_def)
next
  case (Split d r a b)
  let ?r = "clamp r (c_005 ar) (c_095 ar)"
  let ?m = "first_end ar d ?r start fin" and ?m' = "second_start ar d ?r start fin"
  have "(x \<le> fst ?m \<and> y \<le> snd ?m) \<or> (fst ?m' \<le> x \<and> snd ?m' \<le> y)"
    using Split.prems by (cases d) (auto simp: first_end_def second_start_def)
  then show ?case
    using Split.IH(1) [of start ?m] Split.IH(2) [of ?m' fin] Split.prems by (auto simp: Let_def)
qed

lemma panes_apart:
  assumes "f32_ok ar" and "region ar start fin"
  shows "sorted_wrt (\<lambda>p q. apart (bounds p) (bounds q)) (pane_snapshot ar n start fin)"
  using assms(2-)
proof (induction n arbitrary: start fin)
  case (Split d r a b)
  let ?r = "clamp r (c_005 ar) (c_095 ar)"
  let ?m = "first_end ar d ?r start fin" and ?m' = "second_start ar d ?r start fin"
  note between = first_end_between [OF assms(1) Split.prems, of d r]
  have "apart (bounds p) (bounds q)"
    if "p \<in> set (pane_snapshot ar a start ?m)" "q \<in> set (pane_snapshot ar b ?m' fin)" for p q
    using panes_within [OF assms(1) between(1) that(1)] panes_within [OF assms(1) between(2) that(2)]
    by (cases d) (auto simp: inside_def apart_def first_end_def second_start_def)
  then show ?case
    using Split.IH between(1,2) by (simp add: Let_def sorted_wrt_append)
qed simp

section \<open>Dragging a divider\<close>

primrec ratios :: "'f::linorder f32_arith \<Rightarrow> 'f SplitNode \<Rightarrow> 'f list" where
  "ratios ar (Leaf s) = []"
| "ratios ar (Split d r a b) = ratios ar a @ ratios ar b @ [clamp r (c_005 ar) (c_095 ar)]"

primrec boundary_pairs :: "'f SplitNode \<Rightarrow> (uuid \<times> uuid) list" where
  "boundary_pairs (Leaf s) = []"
| "boundary_pairs (Split d r a b) =
    boundary_pairs a @ boundary_pairs b @ [(last (leaves a []), hd (leaves b []))]"

lemma divider_ratios: "map ratio (divider_snapshot ar n start fin) = ratios ar n"
  by (induction n arbitrary: start fin) (simp_all add: Let_def)

lemma divider_pairs:
  "map (\<lambda>v. (first_session v, second_session v)) (divider_snapshot ar n start fin) = boundary_pairs n"
proof (induction n arbitrary: start fin)
  case (Split d r a b)
  have "unwrap_or (boundary_session_last n) 0 = last (leaves n [])"
    "unwrap_or (boundary_session_first n) 0 = hd (leaves n [])" for n :: "'a SplitNode"
    by (cases "leaves n []"; simp add: boundary_session_last_def boundary_session_first_def last_of_def
        first_of_def unwrap_or_def)+
  then show ?case using Split by (simp add: Let_def)
qed simp

lemma length_boundary_pairs: "length (boundary_pairs n) = length (ratios ar n)"
  by (induction n) simp_all

lemma boundary_pairs_leaves:
  "(x, y) \<in> set (boundary_pairs n) \<Longrightarrow> x \<in> set (leaves n []) \<and> y \<in> set (leaves n [])"
  by (induction n) auto

lemma set_split_ratio_absent:
  "x \<notin> set (leaves n []) \<Longrightarrow> set_split_ratio_between ar n x y ra = Inl SessionsNotAdjacent"
  by (induction n) (auto simp: contains_session_leaves)

lemma set_split_ratio_pair:
  assumes "distinct (leaves n [])" and "k < length (boundary_pairs n)" and "boundary_pairs n ! k = (x, y)"
    and "c_005 ar \<le> c_095 ar"
  shows "\<exists>n'. set_split_ratio_between ar n x y ra = Inr n'
    \<and> ratios ar n' = (ratios ar n)[k := clamp ra (c_005 ar) (c_095 ar)]"
  using assms(1-3)
proof (induction n arbitrary: k)
  case (Leaf s)
  then show ?case by simp
next
  case (Split d r a b)
  let ?la = "length (boundary_pairs a)" and ?lb = "length (boundary_pairs b)"
  note len = length_boundary_pairs [of a ar] length_boundary_pairs [of b ar]
  consider (a) "k < ?la" "boundary_pairs a ! k = (x, y)"
    | (b) "\<not> k < ?la" "k - ?la < ?lb" "boundary_pairs b ! (k - ?la) = (x, y)"
    | (top) "k = ?la + ?lb" "x = last (leaves a [])" "y = hd (leaves b [])"
    using Split.prems(2,3) by (auto simp: nth_append split: if_splits)
  then show ?case
  proof cases
    case a
    then have "x \<in> set (leaves a [])" "y \<in> set (leaves a [])"
      using boundary_pairs_leaves nth_mem by metis+
    then have "\<not> contains_session b y" using Split.prems(1) by (auto simp: contains_session_leaves)
    then show ?thesis
      using Split.IH(1) [OF _ a] Split.prems(1) a len by (auto simp: list_update_append)
  next
    case b
    then have "x \<in> set (leaves b [])" using boundary_pairs_leaves nth_mem by metis
    then have "x \<notin> set (leaves a [])" using Split.prems(1) by auto
    moreover have "k - ?la < length (ratios ar b)" using b len by simp
    ultimately show ?thesis
      using Split.IH(2) [OF _ b(2,3)] Split.prems(1) b len
      by (auto simp: contains_session_leaves set_split_ratio_absent list_update_append)
  next
    case top
    then have "contains_session a x" "contains_session b y" by (simp_all add: contains_session_leaves)
    then show ?thesis
      using top len clamp_idem [OF assms(4)] by (simp add: list_update_append)
  qed
qed

section \<open>Properties\<close>

text \<open>
  C10. From a fresh layout, whatever tabs and panes are opened, closed, moved, resized and focused,
  the active index names a tab, no session is shown in two panes, and the focus of every tab is a
  session that is really shown in it.
\<close>

theorem layout_invariant:
  assumes "(layout_step ar)\<^sup>*\<^sup>* (layout_new i s) l"
  shows "active_tab l < length (tabs l) \<and> distinct (sessions l)
    \<and> (\<forall>t \<in> set (tabs l). \<forall>f. focus t = Some f \<longrightarrow> f \<in> set (leaves (root t) []))
    \<and> (\<exists>f. focused_session l = Some f)"
proof -
  have "layout_inv l"
    using assms
  proof (induction rule: rtranclp_induct)
    case base
    show ?case by (simp add: layout_new_def tab_single_def layout_inv_def sessions_def tab_ok_def)
  next
    case (step l l')
    then show ?case using layout_step_inv by blast
  qed
  then show ?thesis
    using focused_leaf [OF layout_inv_tab(1)]
    by (fastforce simp: layout_inv_def tab_ok_def focused_session_def get_active)
qed

definition unit_arith :: "int f32_arith" where
  "unit_arith = \<lparr>fadd = (+), fsub = (-), fmul = (\<lambda>x r. x * r div 100), c_zero = 0, c_one = 100,
     c_half = 50, c_005 = 5, c_095 = 95, DIVIDER_HIT_EPS = 1\<rparr>"

theorem layout_invariant_witness:
  "distinct (sessions (fst (add_tab 8 3 (layout_new 7 2 :: int LayoutRoot))))"
proof -
  have "layout_step unit_arith (layout_new 7 2) (fst (add_tab 8 3 (layout_new 7 2 :: int LayoutRoot)))"
    by (rule layout_step.add) (simp add: layout_new_def tab_single_def sessions_def)
  then show ?thesis using layout_invariant [OF r_into_rtranclp] by blast
qed

text \<open>
  Splitting attaches the new session right behind the focused pane and focuses it; closing it
  again restores the tree the tab had before, and the focus falls back to the first pane.
\<close>

theorem split_close_roundtrip:
  assumes "layout_inv l" and "s \<notin> set (sessions l)"
  shows "\<exists>l' f us vs. split ar d s l = Inr l' \<and> focused_session l = Some f \<and> focused_session l' = Some s
    \<and> leaves (root (tabs l ! active_tab l)) [] = us @ f # vs
    \<and> leaves (root (tabs l' ! active_tab l')) [] = us @ f # s # vs
    \<and> close_focus l' = (set_active ((tabs l ! active_tab l)\<lparr>focus := None\<rparr>) l, Inr ())"
proof -
  let ?t = "tabs l ! active_tab l"
  obtain f n' us vs where st: "split ar d s l = Inr (set_active (?t\<lparr>root := n', focus := Some s\<rparr>) l)"
    "replace_leaf ar (root ?t) f d s = (n', True)" "focused_session l = Some f"
    "leaves (root ?t) [] = us @ f # vs" "leaves n' [] = us @ f # s # vs"
    using split_step [OF assms] by metis
  define l' where "l' = set_active (?t\<lparr>root := n', focus := Some s\<rparr>) l"
  have act: "active_tab l < length (tabs l)" using assms(1) by (simp add: layout_inv_def)
  have "s \<notin> set (leaves (root ?t) [])" using assms(2) layout_inv_tab(3) [OF assms(1)] by blast
  then have "close_leaf n' s = (root ?t, True)" using close_replace_leaf [OF st(2)] by simp
  moreover have get: "get_at (tabs l') (active_tab l') = Some (?t\<lparr>root := n', focus := Some s\<rparr>)"
    using act by (simp add: l'_def set_active_def)
  ultimately have "close_focus l' = (set_active (?t\<lparr>focus := None\<rparr>) l', Inr ())"
    by (simp add: close_focus_def leaf_count_leaves update_root_same)
  then have "close_focus l' = (set_active (?t\<lparr>focus := None\<rparr>) l, Inr ())"
    by (simp add: l'_def set_active_def)
  moreover have "focused_session l' = Some s"
    using get by (simp add: focused_session_def focused_session_in_tab_def)
  moreover have "root (tabs l' ! active_tab l') = n'" using act by (simp add: l'_def set_active_def)
  ultimately show ?thesis using st(1,3-5) unfolding l'_def by metis
qed

lemma sample_layout_inv: "layout_inv (layout_new 7 2)" "s \<noteq> 2 \<Longrightarrow> s \<notin> set (sessions (layout_new 7 2))"
  by (simp_all add: layout_new_def tab_single_def layout_inv_def sessions_def tab_ok_def)

theorem split_close_roundtrip_witness:
  "\<exists>l'. split unit_arith Vertical 3 (layout_new 7 2) = Inr l' \<and> focused_session l' = Some 3"
  using split_close_roundtrip [OF sample_layout_inv(1) sample_layout_inv(2), of 3 unit_arith Vertical] by auto

lemma unit_arith_ok: "f32_ok unit_arith"
proof -
  have "0 \<le> (b - a) * r div 100 \<and> a + (b - a) * r div 100 \<le> b" if "a \<le> b" "5 \<le> r" "r \<le> 95" for a b r :: int
  proof -
    have "(b - a) * r \<le> (b - a) * 100" using that by (intro mult_left_mono) auto
    then have "(b - a) * r div 100 \<le> b - a" using zdiv_mono1 [of "(b - a) * r" "(b - a) * 100" 100] by simp
    then show ?thesis using that by (simp add: pos_imp_zdiv_nonneg_iff)
  qed
  then show ?thesis by (auto simp: f32_ok_def unit_arith_def mid_def)
qed

text \<open>
  Dragging the divider that the snapshot lists at position \<open>k\<close>, identified by the two sessions
  beside it, always succeeds and changes the ratio of that divider alone, to the requested ratio
  within the limits.
\<close>

theorem divider_drag:
  fixes l :: "'f::linorder LayoutRoot"
  assumes "layout_inv l" and "c_005 ar \<le> c_095 ar"
    and "k < length (dividers (snap_tabs (snapshot ar l) ! active_tab l))"
    and "dividers (snap_tabs (snapshot ar l) ! active_tab l) ! k = v"
  shows "\<exists>l'. set_split_ratio ar (first_session v) (second_session v) ra l = Inr l'
    \<and> map ratio (dividers (snap_tabs (snapshot ar l') ! active_tab l'))
      = (map ratio (dividers (snap_tabs (snapshot ar l) ! active_tab l)))[k := clamp ra (c_005 ar) (c_095 ar)]
    \<and> sessions l' = sessions l"
proof -
  let ?n = "root (tabs l ! active_tab l)"
  have act: "active_tab l < length (tabs l)" using assms(1) by (simp add: layout_inv_def)
  have ds: "dividers (snap_tabs (snapshot ar m) ! active_tab m)
      = divider_snapshot ar (root (tabs m ! active_tab m)) (c_zero ar, c_zero ar) (c_one ar, c_one ar)"
    if "active_tab m < length (tabs m)" for m :: "'f LayoutRoot"
    using that by (simp add: snapshot_def nth_enumerate_eq Let_def)
  have k: "k < length (boundary_pairs ?n)" "boundary_pairs ?n ! k = (first_session v, second_session v)"
    using assms(3,4) unfolding ds [OF act] divider_pairs [symmetric, where ar = ar and start = "(c_zero ar, c_zero ar)" and fin = "(c_one ar, c_one ar)"]
    by simp_all
  obtain n' where n': "set_split_ratio_between ar ?n (first_session v) (second_session v) ra = Inr n'"
    "ratios ar n' = (ratios ar ?n)[k := clamp ra (c_005 ar) (c_095 ar)]"
    using set_split_ratio_pair [OF layout_inv_tab(2) [OF assms(1)] k assms(2)] by blast
  define l' where "l' = set_active ((tabs l ! active_tab l)\<lparr>root := n'\<rparr>) l"
  have "set_split_ratio ar (first_session v) (second_session v) ra l = Inr l'"
    using n'(1) by (simp add: set_split_ratio_def get_active [OF assms(1)] l'_def)
  moreover have "root (tabs l' ! active_tab l') = n'" "active_tab l' < length (tabs l')"
    using act by (simp_all add: l'_def set_active_def)
  moreover have "map (\<lambda>t. leaves (root t) []) (tabs l') = map (\<lambda>t. leaves (root t) []) (tabs l)"
    using leaves_set_split_ratio [OF n'(1)] act
    by (intro nth_equalityI) (auto simp: l'_def set_active_def nth_list_update)
  ultimately show ?thesis
    using n'(2) act by (simp add: ds divider_ratios sessions_def)
qed

theorem divider_drag_witness:
  "\<exists>l l'. split unit_arith Vertical 3 (layout_new 7 2) = Inr l \<and> set_split_ratio unit_arith 2 3 200 l = Inr l'"
proof -
  define l where "l = \<lparr>tabs = [\<lparr>tab_id = 7, title = ''Terminal'', root = Split Vertical (50::int) (Leaf 2) (Leaf 3),
    focus = Some 3\<rparr>], active_tab = 0\<rparr>"
  have l: "split unit_arith Vertical 3 (layout_new 7 2) = Inr l" "layout_inv l"
    by (simp_all add: l_def split_def layout_new_def tab_single_def set_active_def Let_def unit_arith_def
        layout_inv_def sessions_def tab_ok_def)
  let ?v = "dividers (snap_tabs (snapshot unit_arith l) ! active_tab l) ! 0"
  have "first_session ?v = 2" "second_session ?v = 3"
    "0 < length (dividers (snap_tabs (snapshot unit_arith l) ! active_tab l))"
    by (simp_all add: l_def snapshot_def Let_def boundary_session_last_def boundary_session_first_def
        last_of_def first_of_def unwrap_or_def)
  then show ?thesis
    using l(1) divider_drag [OF l(2) _ _ refl, of unit_arith 0 200] unit_arith_ok
    by (auto simp: f32_ok_def)
qed

text \<open>
  Which tab is active after closing tab \<open>i\<close>: closing one behind the active tab keeps it; closing
  the active tab shows its right neighbour, or the left one if it was the last; closing one before
  the active tab does not follow it, so the view moves on to its right neighbour unless it was the
  last.
\<close>

theorem close_tab_active:
  assumes "active_tab l < length (tabs l)" and "close_tab i l = Inr l'"
  shows "tabs l' ! active_tab l' =
    (if active_tab l < i then tabs l ! active_tab l
     else if Suc (active_tab l) < length (tabs l) then tabs l ! Suc (active_tab l)
     else if i < active_tab l then tabs l ! active_tab l
     else tabs l ! (active_tab l - 1))"
proof -
  have i: "i < length (tabs l)" "1 < length (tabs l)" and tabs': "tabs l' = remove_at i (tabs l)"
    and act: "active_tab l' = (if length (tabs l) - 1 \<le> active_tab l then length (tabs l) - 2 else active_tab l)"
    using assms(2) by (auto simp: close_tab_def Let_def vec_simps split: if_splits)
  show ?thesis
  proof (cases "Suc (active_tab l) < length (tabs l)")
    case True
    then have "active_tab l' = active_tab l" "active_tab l < length (tabs l) - 1" by (auto simp: act)
    then show ?thesis using True by (simp add: tabs' nth_remove_at [OF i(1)])
  next
    case False
    with assms(1) i have n: "length (tabs l) = Suc (active_tab l)" "active_tab l = Suc (active_tab l')"
      by (auto simp: act)
    then show ?thesis using i(1) by (auto simp: tabs' nth_remove_at [OF i(1)])
  qed
qed

theorem close_tab_active_witness:
  "\<exists>l l'. close_tab 0 l = Inr l' \<and> active_tab l = 1 \<and> length (tabs l) = 3
     \<and> tabs l' ! active_tab l' = (tabs l ! 2 :: int Tab)"
proof -
  let ?l = "\<lparr>tabs = [tab_single 1 ''a'' 1, tab_single 2 ''b'' 2, tab_single 3 ''c'' 3], active_tab = 1\<rparr> :: int LayoutRoot"
  obtain l' where "close_tab 0 ?l = Inr l'" by (simp add: close_tab_def Let_def remove_at_def)
  moreover from this have "tabs l' ! active_tab l' = tabs ?l ! 2"
    using close_tab_active [of ?l 0 l'] by (simp add: numeral_2_eq_2)
  ultimately show ?thesis by (intro exI [of _ ?l] exI [of _ l']) simp
qed

end
