(* ===== verification/Terminal_Panes.thy ===== *)
theory Terminal_Panes
  imports Float32 Terminal_Layout
begin

text \<open>
  The panes of a snapshot tile the tab, in the \<open>f32\<close> arithmetic of the code: its operations, rounded to binary32, satisfy what
  the geometry of \<open>Terminal_Layout\<close> relies on.
\<close>

text \<open>The arithmetic of the code.\<close>

definition binary32 :: "f32 f32_arith" where
  "binary32 = \<lparr>fadd = f32_add, fsub = f32_sub, fmul = f32_mul, c_zero = f32_of 0, c_one = f32_of 1, c_half = f32_of (1 / 2),
    c_005 = f32_of (5 / 100), c_095 = f32_of (95 / 100), DIVIDER_HIT_EPS = f32_of (8 / 1000)\<rparr>"

lemma binary32_ok: "f32_ok binary32"
proof -
  have "f32_of 0 \<le> f32_of (5 / 100)" "f32_of (95 / 100) \<le> f32_of (31 / 32)" "f32_of (5 / 100) \<le> f32_of (95 / 100)"
    "f32_of 0 \<le> f32_of 1"
    by (simp_all add: f32_of_mono)
  then show ?thesis
    unfolding f32_ok_def mid_def binary32_def by (auto intro: f32_between order.trans)
qed

lemma binary32_unit: "c_zero binary32 = f32_of 0" "c_one binary32 = f32_of 1"
  by (simp_all add: binary32_def)

lemma panes_tile_arith:
  fixes l :: "'f::linorder LayoutRoot"
  assumes "f32_ok ar" and "active_tab l < length (tabs l)"
  defines "ps \<equiv> panes (snap_tabs (snapshot ar l) ! active_tab l)"
  shows "map session ps = leaves (Terminal_Layout.root (tabs l ! active_tab l)) []
    \<and> (\<forall>p \<in> set ps. inside (c_zero ar, c_zero ar) (c_one ar, c_one ar) (bounds p))
    \<and> (\<forall>x y. c_zero ar \<le> x \<and> x \<le> c_one ar \<and> c_zero ar \<le> y \<and> y \<le> c_one ar
        \<longrightarrow> (\<exists>p \<in> set ps. covers (bounds p) x y))
    \<and> sorted_wrt (\<lambda>p q. apart (bounds p) (bounds q)) ps"
proof -
  have ps: "ps = pane_snapshot ar (Terminal_Layout.root (tabs l ! active_tab l)) (c_zero ar, c_zero ar) (c_one ar, c_one ar)"
    using assms(2) by (simp add: ps_def snapshot_def nth_enumerate_eq Let_def)
  have box: "region ar (c_zero ar, c_zero ar) (c_one ar, c_one ar)"
    using assms(1) by (simp add: f32_ok_def region_def)
  show ?thesis
    unfolding ps using panes_within [OF assms(1) box] panes_apart [OF assms(1) box]
      panes_cover [of "(c_zero ar, c_zero ar)" _ "(c_one ar, c_one ar)"]
    by (simp add: pane_sessions)
qed

text \<open>
  C33. In the arithmetic of the code and for any finite ratios, the panes of the active tab tile the tab: there is one per leaf,
  in order; every point of the unit square lies in a pane; each pane lies inside the square with its edges in order; and of two
  panes the earlier ends, horizontally or vertically, where the later begins or before.
\<close>

theorem panes_tile:
  fixes l :: "f32 LayoutRoot"
  assumes "active_tab l < length (tabs l)"
  defines "ps \<equiv> panes (snap_tabs (snapshot binary32 l) ! active_tab l)"
  shows "map session ps = leaves (Terminal_Layout.root (tabs l ! active_tab l)) []
    \<and> (\<forall>p \<in> set ps. inside (f32_of 0, f32_of 0) (f32_of 1, f32_of 1) (bounds p))
    \<and> (\<forall>x y. f32_of 0 \<le> x \<and> x \<le> f32_of 1 \<and> f32_of 0 \<le> y \<and> y \<le> f32_of 1
        \<longrightarrow> (\<exists>p \<in> set ps. covers (bounds p) x y))
    \<and> sorted_wrt (\<lambda>p q. apart (bounds p) (bounds q)) ps"
  using panes_tile_arith [OF binary32_ok assms(1)] unfolding ps_def by (simp add: binary32_unit)

text \<open>Three panes in the arithmetic of the code.\<close>

definition three_panes :: "f32 LayoutRoot" where
  "three_panes = \<lparr>tabs = [\<lparr>tab_id = 7, title = ''Terminal'',
    root = Split Vertical (f32_of (7 / 10)) (Leaf 2) (Split Horizontal (f32_of (1 / 3)) (Leaf 3) (Leaf 4)), focus = Some 3\<rparr>],
    active_tab = 0\<rparr>"

theorem panes_tile_witness:
  "let ps = panes (snap_tabs (snapshot binary32 three_panes) ! 0)
   in map session ps = [2, 3, 4] \<and> sorted_wrt (\<lambda>p q. apart (bounds p) (bounds q)) ps
     \<and> (\<exists>p \<in> set ps. covers (bounds p) (f32_of (1 / 2)) (f32_of (3 / 4)))"
proof -
  have "f32_of 0 \<le> f32_of (1 / 2)" "f32_of (1 / 2) \<le> f32_of 1" "f32_of 0 \<le> f32_of (3 / 4)" "f32_of (3 / 4) \<le> f32_of 1"
    by (simp_all add: f32_of_mono)
  moreover have "active_tab three_panes < length (tabs three_panes)" "active_tab three_panes = 0"
    "leaves (Terminal_Layout.root (tabs three_panes ! 0)) [] = [2, 3, 4]"
    by (simp_all add: three_panes_def)
  ultimately show ?thesis using panes_tile [of three_panes] by (simp add: Let_def)
qed

end
