(* ===== verification/Shortcut.thy ===== *)
theory Shortcut
  imports Unicode_Text
begin

text \<open>
  Keyboard shortcuts and the shortcut profiles (crates/orchid-core/src/command/shortcut.rs and
  profile.rs): parsing and printing of shortcut strings, the reserved combinations, the table of
  default bindings of the four profiles and the resolution of user overrides.  The modifier bits are
  a byte, as in the \<open>bitflags\<close> type.  The messages of \<open>InvalidShortcut\<close> are constructors that carry
  what the message prints.
\<close>

unbundle bit_operations_syntax

section \<open>Keys and modifiers\<close>

type_synonym Modifiers = u8

definition CTRL :: Modifiers where "CTRL = 1"
definition ALT :: Modifiers where "ALT = 2"
definition SHIFT :: Modifiers where "SHIFT = 4"
definition WIN :: Modifiers where "WIN = 8"

datatype Key =
    Char uchar
  | F nat
  | Enter | Escape | Tab | Backspace | Delete | Insert | Home | End | PageUp | PageDown
  | ArrowUp | ArrowDown | ArrowLeft | ArrowRight | Space | Comma | Period | Slash | Backtick
  | Minus | Equals | LeftBracket | RightBracket | Semicolon | Quote | Backslash

record Shortcut =
  modifiers :: Modifiers
  key :: Key

datatype shortcut_error =
    EmptyShortcut ustring
  | AltGrUnsupported ustring
  | MoreThanOneKey ustring
  | UnknownKey ustring ustring
  | MissingKey ustring

definition mods_contains :: "Modifiers \<Rightarrow> Modifiers \<Rightarrow> bool" where
  "mods_contains m f \<longleftrightarrow> m AND f = f"

section \<open>Parsing\<close>

text \<open>\<open>str::parse::<u8>\<close>: an optional plus sign and decimal digits, refused when empty or too large.\<close>

primrec decimal :: "ustring \<Rightarrow> nat \<Rightarrow> nat option" where
  "decimal [] acc = Some acc"
| "decimal (c # s) acc =
    (if is_ascii_digit c \<and> acc * 10 + (c - 48) \<le> 255 then decimal s (acc * 10 + (c - 48)) else None)"

definition parse_u8 :: "ustring \<Rightarrow> nat option" where
  "parse_u8 s =
    (let digits = (case s of c # r \<Rightarrow> if c = 43 then r else s | [] \<Rightarrow> s)
     in if digits = [] then None else decimal digits 0)"

definition named_key :: "ustring \<Rightarrow> Key option" where
  "named_key lower =
    (if lower = lit ''enter'' \<or> lower = lit ''return'' then Some Enter
     else if lower = lit ''esc'' \<or> lower = lit ''escape'' then Some Escape
     else if lower = lit ''tab'' then Some Tab
     else if lower = lit ''backspace'' \<or> lower = lit ''bs'' then Some Backspace
     else if lower = lit ''del'' \<or> lower = lit ''delete'' then Some Delete
     else if lower = lit ''ins'' \<or> lower = lit ''insert'' then Some Insert
     else if lower = lit ''home'' then Some Home
     else if lower = lit ''end'' then Some End
     else if lower = lit ''pgup'' \<or> lower = lit ''pageup'' \<or> lower = lit ''page-up'' then Some PageUp
     else if lower = lit ''pgdn'' \<or> lower = lit ''pagedown'' \<or> lower = lit ''page-down'' then Some PageDown
     else if lower = lit ''up'' \<or> lower = lit ''arrowup'' \<or> lower = lit ''arrow-up'' then Some ArrowUp
     else if lower = lit ''down'' \<or> lower = lit ''arrowdown'' \<or> lower = lit ''arrow-down'' then Some ArrowDown
     else if lower = lit ''left'' \<or> lower = lit ''arrowleft'' \<or> lower = lit ''arrow-left'' then Some ArrowLeft
     else if lower = lit ''right'' \<or> lower = lit ''arrowright'' \<or> lower = lit ''arrow-right'' then Some ArrowRight
     else if lower = lit ''space'' then Some Space
     else if lower = lit '','' \<or> lower = lit ''comma'' then Some Comma
     else if lower = lit ''.'' \<or> lower = lit ''period'' \<or> lower = lit ''dot'' then Some Period
     else if lower = lit ''/'' \<or> lower = lit ''slash'' then Some Slash
     else if lower = [96] \<or> lower = lit ''backtick'' \<or> lower = lit ''grave'' then Some Backtick
     else if lower = lit ''-'' \<or> lower = lit ''minus'' \<or> lower = lit ''dash'' then Some Minus
     else if lower = lit ''='' \<or> lower = lit ''equals'' \<or> lower = lit ''equal'' then Some Equals
     else if lower = lit ''['' \<or> lower = lit ''leftbracket'' \<or> lower = lit ''left-bracket'' then Some LeftBracket
     else if lower = lit '']'' \<or> lower = lit ''rightbracket'' \<or> lower = lit ''right-bracket'' then Some RightBracket
     else if lower = lit '';'' \<or> lower = lit ''semicolon'' then Some Semicolon
     else if lower = [39] \<or> lower = lit ''quote'' \<or> lower = lit ''apostrophe'' then Some Quote
     else if lower = [92] \<or> lower = lit ''backslash'' then Some Backslash
     else if lower = lit ''?'' then Some (Char 63)
     else None)"

definition function_key :: "ustring \<Rightarrow> Key option" where
  "function_key lower =
    (case strip_prefix (lit ''f'') lower of
       None \<Rightarrow> None
     | Some rest \<Rightarrow>
         (case parse_u8 rest of
            Some n \<Rightarrow> if 1 \<le> n \<and> n \<le> 24 then Some (F n) else None
          | None \<Rightarrow> None))"

definition char_key :: "ustring \<Rightarrow> Key option" where
  "char_key token =
    (case token of
       [c] \<Rightarrow> if is_ascii_alphabetic c then Some (Char (ascii_lower c))
              else if is_ascii_digit c then Some (Char c) else None
     | _ \<Rightarrow> None)"

definition parse_key :: "ustring \<Rightarrow> Key option" where
  "parse_key token =
    (let lower = to_ascii_lowercase token
     in case named_key lower of
          Some k \<Rightarrow> Some k
        | None \<Rightarrow> (case function_key lower of Some k \<Rightarrow> Some k | None \<Rightarrow> char_key token))"

definition modifier_of :: "ustring \<Rightarrow> Modifiers option" where
  "modifier_of lower =
    (if lower = lit ''ctrl'' \<or> lower = lit ''control'' then Some CTRL
     else if lower = lit ''alt'' \<or> lower = lit ''option'' then Some ALT
     else if lower = lit ''shift'' then Some SHIFT
     else if lower = lit ''win'' \<or> lower = lit ''super'' \<or> lower = lit ''meta'' \<or> lower = lit ''cmd''
       \<or> lower = lit ''command'' then Some WIN
     else None)"

text \<open>The loop over the pieces between the plus signs, with the modifiers and the key found so far.\<close>

fun parse_tokens ::
  "ustring \<Rightarrow> ustring list \<Rightarrow> Modifiers \<Rightarrow> Key option \<Rightarrow> shortcut_error + Modifiers \<times> Key option"
where
  "parse_tokens s [] m k = Inr (m, k)"
| "parse_tokens s (raw # rest) m k =
    (let token = trim raw
     in if token = [] then Inl (EmptyShortcut s)
        else let lower = to_ascii_lowercase token
          in case modifier_of lower of
               Some f \<Rightarrow> parse_tokens s rest (m OR f) k
             | None \<Rightarrow>
                 if lower = lit ''altgr'' \<or> lower = lit ''alt-gr'' then Inl (AltGrUnsupported s)
                 else if k \<noteq> None then Inl (MoreThanOneKey s)
                 else case parse_key token of
                        None \<Rightarrow> Inl (UnknownKey s token)
                      | Some k' \<Rightarrow> parse_tokens s rest m (Some k'))"

definition shortcut_parse :: "ustring \<Rightarrow> shortcut_error + Shortcut" where
  "shortcut_parse s =
    (if trim s = [] then Inl (EmptyShortcut s)
     else and_then (parse_tokens s (split_char 43 s) 0 None) (\<lambda>(m, k).
       case k of None \<Rightarrow> Inl (MissingKey s) | Some k \<Rightarrow> Inr \<lparr>modifiers = m, key = k\<rparr>))"

section \<open>Printing\<close>

text \<open>The decimal digits of a \<open>u8\<close>.\<close>

definition show_u8 :: "nat \<Rightarrow> ustring" where
  "show_u8 n =
    (if n < 10 then [48 + n]
     else if n < 100 then [48 + n div 10, 48 + n mod 10]
     else [48 + n div 100, 48 + n div 10 mod 10, 48 + n mod 10])"

fun key_to_canonical :: "Key \<Rightarrow> ustring" where
  "key_to_canonical (Char c) = [ascii_upper c]"
| "key_to_canonical (F n) = lit ''F'' @ show_u8 n"
| "key_to_canonical Enter = lit ''Enter''"
| "key_to_canonical Escape = lit ''Escape''"
| "key_to_canonical Tab = lit ''Tab''"
| "key_to_canonical Backspace = lit ''Backspace''"
| "key_to_canonical Delete = lit ''Delete''"
| "key_to_canonical Insert = lit ''Insert''"
| "key_to_canonical Home = lit ''Home''"
| "key_to_canonical End = lit ''End''"
| "key_to_canonical PageUp = lit ''PageUp''"
| "key_to_canonical PageDown = lit ''PageDown''"
| "key_to_canonical ArrowUp = lit ''ArrowUp''"
| "key_to_canonical ArrowDown = lit ''ArrowDown''"
| "key_to_canonical ArrowLeft = lit ''ArrowLeft''"
| "key_to_canonical ArrowRight = lit ''ArrowRight''"
| "key_to_canonical Space = lit ''Space''"
| "key_to_canonical Comma = lit '',''"
| "key_to_canonical Period = lit ''.''"
| "key_to_canonical Slash = lit ''/''"
| "key_to_canonical Backtick = [96]"
| "key_to_canonical Minus = lit ''-''"
| "key_to_canonical Equals = lit ''=''"
| "key_to_canonical LeftBracket = lit ''[''"
| "key_to_canonical RightBracket = lit '']''"
| "key_to_canonical Semicolon = lit '';''"
| "key_to_canonical Quote = [39]"
| "key_to_canonical Backslash = [92]"

definition to_string_canonical :: "Shortcut \<Rightarrow> ustring" where
  "to_string_canonical s =
    (let parts = (if mods_contains (modifiers s) CTRL then [lit ''Ctrl''] else [])
           @ (if mods_contains (modifiers s) ALT then [lit ''Alt''] else [])
           @ (if mods_contains (modifiers s) SHIFT then [lit ''Shift''] else [])
           @ (if mods_contains (modifiers s) WIN then [lit ''Win''] else [])
           @ [key_to_canonical (key s)]
     in join [43] parts)"

definition is_conflict_with :: "Shortcut \<Rightarrow> Shortcut \<Rightarrow> bool" where
  "is_conflict_with s t \<longleftrightarrow> s = t"

section \<open>Reserved combinations\<close>

datatype reserved_reason = WinL | WinSpace | CtrlAltLetter

definition is_reserved :: "Shortcut \<Rightarrow> reserved_reason option" where
  "is_reserved s =
    (if modifiers s = WIN \<and> key s = Char 108 then Some WinL
     else if modifiers s = WIN \<and> key s = Space then Some WinSpace
     else if modifiers s = CTRL OR ALT \<and> (case key s of Char c \<Rightarrow> is_ascii_alphabetic c | _ \<Rightarrow> False)
     then Some CtrlAltLetter
     else None)"

section \<open>Profiles\<close>

datatype ShortcutProfile = Orchid | Windows | Macos | Linux

definition profile_parse :: "ustring \<Rightarrow> ShortcutProfile option" where
  "profile_parse s =
    (let v = to_ascii_lowercase (trim s)
     in if v = lit ''orchid'' \<or> v = lit ''commander'' then Some Orchid
        else if v = lit ''windows'' \<or> v = lit ''win'' then Some Windows
        else if v = lit ''macos'' \<or> v = lit ''mac'' \<or> v = lit ''osx'' \<or> v = lit ''darwin'' then Some Macos
        else if v = lit ''linux'' \<or> v = lit ''gnome'' \<or> v = lit ''kde'' then Some Linux
        else None)"

fun profile_as_str :: "ShortcutProfile \<Rightarrow> ustring" where
  "profile_as_str Orchid = lit ''orchid''"
| "profile_as_str Windows = lit ''windows''"
| "profile_as_str Macos = lit ''macos''"
| "profile_as_str Linux = lit ''linux''"

record ProfileBinding =
  binding_id :: ustring
  label_key :: ustring
  orchid :: ustring
  windows :: ustring
  macos :: ustring
  linux :: ustring

definition binding :: "string \<Rightarrow> string \<Rightarrow> string \<Rightarrow> string \<Rightarrow> string \<Rightarrow> string \<Rightarrow> ProfileBinding" where
  "binding i l a b c d =
    \<lparr>binding_id = lit i, label_key = lit l, orchid = lit a, windows = lit b, macos = lit c, linux = lit d\<rparr>"

definition for_profile :: "ProfileBinding \<Rightarrow> ShortcutProfile \<Rightarrow> ustring" where
  "for_profile b p = (case p of Orchid \<Rightarrow> orchid b | Windows \<Rightarrow> windows b | Macos \<Rightarrow> macos b | Linux \<Rightarrow> linux b)"

text \<open>The default table, in the order of the source.\<close>

definition profile_bindings_1 :: "ProfileBinding list" where
  "profile_bindings_1 =
   [binding ''command-palette'' ''settings-bind-command-palette'' ''Ctrl+Shift+P'' ''Ctrl+Shift+P'' ''Win+Shift+P'' ''Ctrl+Shift+P'',
    binding ''settings.open'' ''command-settings-open-name'' ''Ctrl+,'' ''Ctrl+,'' ''Win+,'' ''Ctrl+,'',
    binding ''onboarding.toggle_hint_mode'' ''command-onboarding-toggle_hint_mode-name'' ''Win+?'' ''Win+?'' ''Win+Shift+/'' ''Win+?'',
    binding ''widget.close'' ''command-widget-close-name'' ''Ctrl+W'' ''Ctrl+W'' ''Win+W'' ''Ctrl+W'',
    binding ''workspace.switch_next'' ''command-workspace-switch_next-name'' ''Ctrl+Alt+ArrowRight'' ''Ctrl+Alt+ArrowRight'' ''Alt+Win+ArrowRight'' ''Ctrl+Alt+ArrowRight'',
    binding ''workspace.switch_previous'' ''command-workspace-switch_previous-name'' ''Ctrl+Alt+ArrowLeft'' ''Ctrl+Alt+ArrowLeft'' ''Alt+Win+ArrowLeft'' ''Ctrl+Alt+ArrowLeft'',
    binding ''terminal.split_horizontal'' ''command-terminal-split_horizontal-name'' ''Ctrl+Shift+H'' ''Ctrl+Shift+H'' ''Win+Shift+H'' ''Ctrl+Shift+H'',
    binding ''terminal.split_vertical'' ''command-terminal-split_vertical-name'' ''Ctrl+Shift+J'' ''Ctrl+Shift+J'' ''Win+Shift+J'' ''Ctrl+Shift+J'',
    binding ''terminal.tab_new'' ''command-terminal-tab_new-name'' ''Ctrl+Shift+T'' ''Ctrl+Shift+T'' ''Win+Shift+T'' ''Ctrl+Shift+T'',
    binding ''terminal.close'' ''command-terminal-close-name'' ''Ctrl+Shift+W'' ''Ctrl+Shift+W'' ''Win+Shift+W'' ''Ctrl+Shift+W'',
    binding ''terminal.focus_next_pane'' ''command-terminal-focus_next_pane-name'' ''Ctrl+Shift+ArrowRight'' ''Ctrl+Shift+ArrowRight'' ''Win+Shift+ArrowRight'' ''Ctrl+Shift+ArrowRight'',
    binding ''terminal.focus_previous_pane'' ''command-terminal-focus_previous_pane-name'' ''Ctrl+Shift+ArrowLeft'' ''Ctrl+Shift+ArrowLeft'' ''Win+Shift+ArrowLeft'' ''Ctrl+Shift+ArrowLeft'',
    binding ''terminal.tab_next'' ''command-terminal-tab_next-name'' ''Ctrl+PageDown'' ''Ctrl+PageDown'' ''Win+Shift+]'' ''Ctrl+PageDown'',
    binding ''terminal.tab_previous'' ''command-terminal-tab_previous-name'' ''Ctrl+PageUp'' ''Ctrl+PageUp'' ''Win+Shift+['' ''Ctrl+PageUp'']"

definition profile_bindings_2 :: "ProfileBinding list" where
  "profile_bindings_2 =
   [binding ''fs.select-all'' ''fm-action-select-all'' ''Ctrl+A'' ''Ctrl+A'' ''Win+A'' ''Ctrl+A'',
    binding ''fs.deselect-all'' ''fm-action-deselect-all'' ''Escape'' ''Escape'' ''Escape'' ''Escape'',
    binding ''fs.invert-selection'' ''fm-action-invert-selection'' ''*'' ''*'' ''*'' ''*'',
    binding ''fs.select-mask-add'' ''fm-action-select-mask'' ''+'' ''+'' ''+'' ''+'',
    binding ''fs.select-mask-sub'' ''fm-action-deselect-mask'' ''-'' ''-'' ''-'' ''-'',
    binding ''fs.copy'' ''fm-action-copy'' ''Ctrl+C'' ''Ctrl+C'' ''Win+C'' ''Ctrl+C'',
    binding ''fs.cut'' ''fm-action-cut'' ''Ctrl+X'' ''Ctrl+X'' ''Win+X'' ''Ctrl+X'',
    binding ''fs.paste'' ''fm-action-paste'' ''Ctrl+V'' ''Ctrl+V'' ''Win+V'' ''Ctrl+V'',
    binding ''fs.undo'' ''fm-action-undo'' ''Ctrl+Z'' ''Ctrl+Z'' ''Win+Z'' ''Ctrl+Z'',
    binding ''fs.redo'' ''fm-action-redo'' ''Ctrl+Y'' ''Ctrl+Y'' ''Win+Shift+Z'' ''Ctrl+Shift+Z'',
    binding ''fs.rename'' ''fm-action-rename'' ''F2'' ''F2'' ''F2'' ''F2'',
    binding ''fs.delete'' ''fm-action-delete'' ''F8'' ''Delete'' ''Win+Backspace'' ''Delete'',
    binding ''fs.delete-permanent'' ''fm-action-delete-permanent'' ''Shift+Delete'' ''Shift+Delete'' ''Win+Shift+Backspace'' ''Shift+Delete'',
    binding ''fs.new-folder'' ''fm-action-new-folder'' ''F7'' ''Ctrl+Shift+N'' ''Win+Shift+N'' ''Ctrl+Shift+N'']"

definition profile_bindings_3 :: "ProfileBinding list" where
  "profile_bindings_3 =
   [binding ''fs.new-file'' ''fm-action-new-file'' ''Shift+F4'' '''' '''' '''',
    binding ''viewer.open'' ''fm-action-open-in-viewer'' ''F3'' '''' ''Space'' '''',
    binding ''viewer.edit'' ''fm-action-edit-in-viewer'' ''F4'' '''' '''' '''',
    binding ''fs.copy-to-other'' ''fm-action-copy-other'' ''F5'' '''' '''' '''',
    binding ''fs.move-to-other'' ''fm-action-move-other'' ''F6'' '''' '''' '''',
    binding ''fs.open-tab'' ''fm-action-open-tab'' ''Ctrl+Shift+T'' ''Ctrl+Shift+T'' ''Win+Shift+T'' ''Ctrl+Shift+T'',
    binding ''fs.open-other-pane'' ''fm-action-open-other-pane'' ''Ctrl+Shift+Enter'' ''Ctrl+Shift+Enter'' ''Win+Shift+Enter'' ''Ctrl+Shift+Enter'',
    binding ''fs.branch-view'' ''fm-action-branch-view'' ''Ctrl+B'' ''Ctrl+B'' ''Win+B'' ''Ctrl+B'',
    binding ''fs.find'' ''fm-action-find'' ''Alt+F7'' ''Ctrl+F'' ''Win+F'' ''Ctrl+F'',
    binding ''fs.properties'' ''fm-action-properties'' ''Alt+Enter'' ''Alt+Enter'' ''Win+I'' ''Alt+Enter'',
    binding ''fs.address-bar'' ''settings-bind-address-bar'' ''Ctrl+L'' ''Ctrl+L'' ''Win+Shift+G'' ''Ctrl+L'',
    binding ''fs.tab-new'' ''settings-bind-tab-new'' ''Ctrl+T'' ''Ctrl+T'' ''Win+T'' ''Ctrl+T'',
    binding ''fs.drive-root'' ''settings-bind-drive-root'' (''Ctrl+'' @ [CHR 0x5C]) (''Ctrl+'' @ [CHR 0x5C]) ''Win+Shift+Up'' (''Ctrl+'' @ [CHR 0x5C]),
    binding ''fs.drives-menu'' ''settings-bind-drives-menu'' ''Alt+F1'' ''Alt+F1'' '''' ''Alt+F1'']"

definition PROFILE_BINDINGS :: "ProfileBinding list" where
  "PROFILE_BINDINGS = profile_bindings_1 @ profile_bindings_2 @ profile_bindings_3"

definition profile_default_str :: "ShortcutProfile \<Rightarrow> ustring \<Rightarrow> ustring option" where
  "profile_default_str p i =
    map_option (\<lambda>b. for_profile b p) (find (\<lambda>b. binding_id b = i) PROFILE_BINDINGS)"

type_synonym overrides = "ustring \<rightharpoonup> ustring"

definition ok :: "'e + 'a \<Rightarrow> 'a option" where
  "ok r = (case r of Inl _ \<Rightarrow> None | Inr x \<Rightarrow> Some x)"

definition resolve_profile_shortcut :: "ShortcutProfile \<Rightarrow> overrides \<Rightarrow> ustring \<Rightarrow> Shortcut option" where
  "resolve_profile_shortcut p ov i =
    (case ov i of
       Some raw \<Rightarrow>
         let trimmed = trim raw
         in if trimmed = [] then None else ok (shortcut_parse trimmed)
     | None \<Rightarrow>
         (case profile_default_str p i of
            None \<Rightarrow> None
          | Some d \<Rightarrow> if d = [] then None else ok (shortcut_parse d)))"

text \<open>\<open>str::replace\<close> with a non-empty pattern.\<close>

function replace_all :: "ustring \<Rightarrow> ustring \<Rightarrow> ustring \<Rightarrow> ustring" where
  "replace_all pat rep s =
    (if pat = [] \<or> s = [] then s
     else case strip_prefix pat s of
       Some rest \<Rightarrow> rep @ replace_all pat rep rest
     | None \<Rightarrow> hd s # replace_all pat rep (tl s))"
  by pat_completeness auto

termination
  by (relation "measure (\<lambda>(_, _, s). length s)") (auto simp: strip_prefix_Some_iff)

declare replace_all.simps [simp del]

definition display_profile_shortcut :: "ShortcutProfile \<Rightarrow> Shortcut \<Rightarrow> ustring" where
  "display_profile_shortcut p s =
    (let canonical = to_string_canonical s
     in if p = Macos then replace_all (lit ''Win+'') (lit ''Cmd+'') canonical else canonical)"

definition is_file_manager_binding :: "ustring \<Rightarrow> bool" where
  "is_file_manager_binding i \<longleftrightarrow> starts_with (lit ''fs.'') i \<or> starts_with (lit ''viewer.'') i"

definition lookup_fm_action :: "ShortcutProfile \<Rightarrow> overrides \<Rightarrow> Shortcut \<Rightarrow> ustring option" where
  "lookup_fm_action p ov pressed =
    map_option binding_id
      (find (\<lambda>b. is_file_manager_binding (binding_id b)
               \<and> resolve_profile_shortcut p ov (binding_id b) = Some pressed) PROFILE_BINDINGS)"

definition binding_conflict :: "ShortcutProfile \<Rightarrow> overrides \<Rightarrow> ustring \<Rightarrow> Shortcut \<Rightarrow> ustring option" where
  "binding_conflict p ov i s =
    map_option binding_id
      (find (\<lambda>b. binding_id b \<noteq> i \<and> resolve_profile_shortcut p ov (binding_id b) = Some s) PROFILE_BINDINGS)"

datatype override_error = UnknownRemappableId ustring | ReservedShortcut reserved_reason | ConflictsWith ustring

definition validate_override ::
  "ShortcutProfile \<Rightarrow> overrides \<Rightarrow> ustring \<Rightarrow> Shortcut \<Rightarrow> override_error + unit"
where
  "validate_override p ov i s =
    (if profile_default_str p i = None then Inl (UnknownRemappableId i)
     else case is_reserved s of
       Some reason \<Rightarrow> Inl (ReservedShortcut reason)
     | None \<Rightarrow>
         (case binding_conflict p ov i s of
            Some other \<Rightarrow> Inl (ConflictsWith other)
          | None \<Rightarrow> Inr ()))"

section \<open>Well-formed shortcuts\<close>

definition all_mods :: "Modifiers list" where
  "all_mods = [0, 1, 2, 3, 4, 5, 6, 7, 8, 9, 10, 11, 12, 13, 14, 15]"

definition is_char_key :: "uchar \<Rightarrow> bool" where
  "is_char_key c \<longleftrightarrow> 97 \<le> c \<and> c \<le> 122 \<or> 48 \<le> c \<and> c \<le> 57 \<or> c = 63"

fun wf_key :: "Key \<Rightarrow> bool" where
  "wf_key (Char c) \<longleftrightarrow> is_char_key c"
| "wf_key (F n) \<longleftrightarrow> 1 \<le> n \<and> n \<le> 24"
| "wf_key _ \<longleftrightarrow> True"

definition wf_shortcut :: "Shortcut \<Rightarrow> bool" where
  "wf_shortcut s \<longleftrightarrow> modifiers s \<in> set all_mods \<and> wf_key (key s)"

text \<open>What the parser needs to read a key name back.\<close>

definition key_readable :: "Key \<Rightarrow> bool" where
  "key_readable k \<longleftrightarrow>
    (let t = key_to_canonical k; lower = to_ascii_lowercase t
     in t \<noteq> [] \<and> trim t = t \<and> 43 \<notin> set t \<and> modifier_of lower = None
        \<and> lower \<noteq> lit ''altgr'' \<and> lower \<noteq> lit ''alt-gr'' \<and> parse_key t = Some k)"

lemmas key_name_codes = named_key_def [simplified] modifier_of_def [simplified]

lemma named_key_char:
  assumes "97 \<le> c \<and> c \<le> 122 \<or> 48 \<le> c \<and> c \<le> 57"
  shows "named_key [c] = None"
proof -
  have "c \<notin> {44, 46, 47, 96, 45, 61, 91, 93, 59, 39, 92, 63}" using assms by auto
  then show ?thesis by (simp add: key_name_codes)
qed

lemma modifier_of_short: "length t \<le> 2 \<Longrightarrow> modifier_of t = None"
proof -
  assume "length t \<le> 2"
  then have "2 < length x \<Longrightarrow> (t = lit x) = False" for x by (auto simp: lit_def)
  then show ?thesis by (simp add: modifier_of_def del: lit_simps)
qed

lemma not_whitespace: "33 \<le> c \<Longrightarrow> c \<le> 126 \<Longrightarrow> \<not> is_whitespace c"
  by (simp add: is_whitespace_def)

lemma char_key_readable:
  assumes "is_char_key c"
  shows "key_readable (Char c)"
proof (cases "c = 63")
  case True
  then show ?thesis
    by (simp add: key_readable_def ascii_upper_def to_ascii_lowercase_def ascii_lower_def trim_no_space
        not_whitespace modifier_of_short parse_key_def key_name_codes)
next
  case False
  then have c: "97 \<le> c \<and> c \<le> 122 \<or> 48 \<le> c \<and> c \<le> 57" using assms by (auto simp: is_char_key_def)
  let ?u = "ascii_upper c"
  have u: "is_ascii_alphabetic ?u \<or> is_ascii_digit ?u" "ascii_lower ?u = c" "33 \<le> ?u" "?u \<le> 126" "?u \<noteq> 43"
    using c by (auto simp: ascii_upper_def ascii_lower_def is_ascii_alphabetic_def is_ascii_digit_def)
  have "named_key [c] = None" using c by (rule named_key_char)
  moreover have "function_key [c] = None" by (simp add: function_key_def parse_u8_def)
  moreover have "char_key [?u] = Some (Char c)"
    using u(1,2) c by (auto simp: char_key_def ascii_upper_def is_ascii_alphabetic_def split: if_splits)
  ultimately show ?thesis
    using u by (simp add: key_readable_def to_ascii_lowercase_def trim_no_space not_whitespace
        modifier_of_short parse_key_def)
qed

lemma parse_show_u8: "n < 100 \<Longrightarrow> parse_u8 (show_u8 n) = Some n"
  by (auto simp: parse_u8_def show_u8_def is_ascii_digit_def)

lemma function_key_readable:
  assumes n: "1 \<le> n" "n \<le> 24"
  shows "key_readable (F n)"
proof -
  let ?d = "show_u8 n"
  have d: "\<forall>c \<in> set ?d. 48 \<le> c \<and> c \<le> 57" "length ?d \<le> 2"
    using n by (auto simp: show_u8_def)
  have low: "map ascii_lower ?d = ?d" using d(1) by (intro map_idI) (auto simp: ascii_lower_def)
  have "named_key (102 # ?d) = None" "modifier_of (102 # ?d) = None" by (simp_all add: key_name_codes)
  moreover have "function_key (102 # ?d) = Some (F n)" using n by (simp add: function_key_def parse_show_u8)
  moreover have "trim (70 # ?d) = 70 # ?d"
    using d(1) not_whitespace by (intro trim_no_space) fastforce
  moreover have "43 \<notin> set ?d" using d(1) by auto
  ultimately show ?thesis
    by (simp add: key_readable_def to_ascii_lowercase_def ascii_lower_def low parse_key_def)
qed

lemma wf_key_readable: "wf_key k \<Longrightarrow> key_readable k"
  by (cases k)
    (simp_all only: wf_key.simps char_key_readable function_key_readable,
     simp_all add: key_readable_def to_ascii_lowercase_def ascii_lower_def trim_no_space is_whitespace_def
       parse_key_def key_name_codes)

definition mod_parts :: "Modifiers \<Rightarrow> ustring list" where
  "mod_parts m = (if mods_contains m CTRL then [lit ''Ctrl''] else [])
    @ (if mods_contains m ALT then [lit ''Alt''] else [])
    @ (if mods_contains m SHIFT then [lit ''Shift''] else [])
    @ (if mods_contains m WIN then [lit ''Win''] else [])"

lemma mod_parts_plain: "p \<in> set (mod_parts m) \<Longrightarrow> 43 \<notin> set p"
  by (auto simp: mod_parts_def split: if_splits)

lemma parse_modifier:
  "parse_tokens s (lit ''Ctrl'' # ts) m k = parse_tokens s ts (m OR CTRL) k"
  "parse_tokens s (lit ''Alt'' # ts) m k = parse_tokens s ts (m OR ALT) k"
  "parse_tokens s (lit ''Shift'' # ts) m k = parse_tokens s ts (m OR SHIFT) k"
  "parse_tokens s (lit ''Win'' # ts) m k = parse_tokens s ts (m OR WIN) k"
  by (simp_all add: trim_no_space is_whitespace_def to_ascii_lowercase_def ascii_lower_def key_name_codes)

lemmas mod_bits = CTRL_def ALT_def SHIFT_def WIN_def

lemma parse_modifiers:
  assumes "m \<in> set all_mods"
  shows "parse_tokens s (mod_parts m @ ts) 0 k = parse_tokens s ts m k"
  using assms unfolding all_mods_def mod_parts_def mods_contains_def
  by (auto simp del: parse_tokens.simps lit_simps simp add: parse_modifier mod_bits)

lemma parse_tokens_key:
  "wf_key k \<Longrightarrow> parse_tokens s [key_to_canonical k] m None = Inr (m, Some k)"
  using wf_key_readable [of k] by (simp add: key_readable_def Let_def)

lemma set_join_last: "set t \<subseteq> set (join sep (ps @ [t]))"
  by (induction sep ps rule: join.induct) auto

lemma canonical_parses:
  assumes "wf_shortcut s"
  shows "shortcut_parse (to_string_canonical s) = Inr s"
proof -
  let ?c = "to_string_canonical s"
  have parts: "?c = join [43] (mod_parts (modifiers s) @ [key_to_canonical (key s)])"
    by (simp add: to_string_canonical_def mod_parts_def)
  have key: "key_readable (key s)" using assms wf_key_readable by (simp add: wf_shortcut_def)
  then have "43 \<notin> set (key_to_canonical (key s))" "key_to_canonical (key s) \<noteq> []"
    "trim (key_to_canonical (key s)) \<noteq> []"
    by (simp_all add: key_readable_def Let_def)
  then have split: "split_char 43 ?c = mod_parts (modifiers s) @ [key_to_canonical (key s)]"
    unfolding parts by (intro split_char_join) (auto dest: mod_parts_plain)
  have "parse_tokens ?c (split_char 43 ?c) 0 None = Inr (modifiers s, Some (key s))"
    using assms by (simp only: split parse_modifiers parse_tokens_key wf_shortcut_def)
  moreover have "set (key_to_canonical (key s)) \<subseteq> set ?c"
    unfolding parts by (rule set_join_last)
  then have "trim ?c \<noteq> []"
    using \<open>trim (key_to_canonical (key s)) \<noteq> []\<close> unfolding trim_Nil_iff by blast
  ultimately show ?thesis by (simp add: shortcut_parse_def)
qed

lemma mods_closed: "m \<in> set all_mods \<Longrightarrow> f \<in> set [CTRL, ALT, SHIFT, WIN] \<Longrightarrow> m OR f \<in> set all_mods"
  by (auto simp: all_mods_def mod_bits)

lemma modifier_of_range: "modifier_of t = Some f \<Longrightarrow> f \<in> set [CTRL, ALT, SHIFT, WIN]"
  unfolding modifier_of_def by (simp del: lit_simps split: if_split_asm)

lemma if_key_wf:
  "wf_key a \<Longrightarrow> (x = Some k \<longrightarrow> wf_key k) \<Longrightarrow> (if P then Some a else x) = Some k \<longrightarrow> wf_key k"
  by auto

lemma named_key_wf: "named_key t = Some k \<longrightarrow> wf_key k"
  unfolding named_key_def by (intro if_key_wf) (simp_all add: is_char_key_def)

lemma function_key_wf: "function_key t = Some k \<longrightarrow> wf_key k"
  by (auto simp: function_key_def split: option.splits if_splits)

lemma char_key_wf: "char_key t = Some k \<longrightarrow> wf_key k"
  by (auto simp: char_key_def is_char_key_def is_ascii_alphabetic_def is_ascii_digit_def ascii_lower_def
      split: list.splits if_splits)

lemma parse_key_wf: "parse_key t = Some k \<Longrightarrow> wf_key k"
  using named_key_wf [of "to_ascii_lowercase t" k] function_key_wf [of "to_ascii_lowercase t" k] char_key_wf [of t k]
  by (simp add: parse_key_def Let_def split: option.splits)

lemma parse_tokens_wf:
  "parse_tokens s ts m k = Inr (m', k') \<Longrightarrow> m \<in> set all_mods \<Longrightarrow> (\<forall>x. k = Some x \<longrightarrow> wf_key x) \<Longrightarrow>
   m' \<in> set all_mods \<and> (\<forall>x. k' = Some x \<longrightarrow> wf_key x)"
proof (induction s ts m k rule: parse_tokens.induct)
  case (2 s raw rest m k)
  let ?t = "trim raw"
  show ?case
  proof (cases "modifier_of (to_ascii_lowercase ?t)")
    case None
    then show ?thesis using 2 parse_key_wf by (auto simp: Let_def split: if_splits option.splits)
  next
    case (Some f)
    then have "m OR f \<in> set all_mods" using mods_closed modifier_of_range "2.prems"(2) by blast
    then show ?thesis using 2 Some by (auto simp: Let_def split: if_splits)
  qed
qed simp

lemma shortcut_parse_wf: "shortcut_parse s = Inr sc \<Longrightarrow> wf_shortcut sc"
  using parse_tokens_wf [of s "split_char 43 s" 0 None]
  by (auto simp: shortcut_parse_def and_then_Inr_iff wf_shortcut_def all_mods_def split: if_splits option.splits)

section \<open>Properties\<close>

text \<open>
  The canonical form of a parsed shortcut parses back to that shortcut, whatever spelling,
  case, spacing or order of modifiers the user wrote; and every parsed shortcut uses only the four
  modifier bits and a key that the printer can name.
\<close>

theorem shortcut_roundtrip:
  assumes "shortcut_parse s = Inr sc"
  shows "shortcut_parse (to_string_canonical sc) = Inr sc \<and> wf_shortcut sc"
  using canonical_parses shortcut_parse_wf [OF assms] by blast

lemmas parse_eval = shortcut_parse_def trim_no_space is_whitespace_def to_ascii_lowercase_def ascii_lower_def
  key_name_codes parse_key_def function_key_def parse_u8_def char_key_def is_ascii_alphabetic_def
  is_ascii_digit_def mod_bits

theorem shortcut_roundtrip_witness:
  "shortcut_parse (to_string_canonical \<lparr>modifiers = 5, key = Char 112\<rparr>) = Inr \<lparr>modifiers = 5, key = Char 112\<rparr>"
proof -
  have "shortcut_parse (lit ''SHIFT+ctrl+p'') = Inr \<lparr>modifiers = 5, key = Char 112\<rparr>"
    by (simp add: parse_eval)
  then show ?thesis using shortcut_roundtrip by blast
qed

lemma to_string_canonical_trim:
  assumes "wf_shortcut s"
  shows "trim (to_string_canonical s) = to_string_canonical s" and "to_string_canonical s \<noteq> []"
proof -
  have "key_readable (key s)" using assms wf_key_readable by (simp add: wf_shortcut_def)
  then have key: "key_to_canonical (key s) \<noteq> []" "trim (key_to_canonical (key s)) = key_to_canonical (key s)"
    by (simp_all add: key_readable_def Let_def)
  have "\<not> is_whitespace (last (key_to_canonical (key s)))" "\<not> is_whitespace (hd (key_to_canonical (key s)))"
    using key by (metis trim_ends)+
  moreover have "last (join sep (ps @ [t])) = last t \<and> (ps \<noteq> [] \<and> hd ps \<noteq> [] \<longrightarrow> hd (join sep (ps @ [t])) = hd (hd ps))
      \<and> join sep (ps @ [t]) \<noteq> []"
    if "t \<noteq> []" for sep t :: ustring and ps
    using that by (induction sep ps rule: join.induct) auto
  moreover have "hd (mod_parts m) \<noteq> [] \<and> \<not> is_whitespace (hd (hd (mod_parts m)))" if "mod_parts m \<noteq> []" for m
    using that by (auto simp: mod_parts_def is_whitespace_def split: if_splits)
  moreover have "to_string_canonical s = join [43] (mod_parts (modifiers s) @ [key_to_canonical (key s)])"
    by (simp add: to_string_canonical_def mod_parts_def)
  ultimately show "to_string_canonical s \<noteq> []" "trim (to_string_canonical s) = to_string_canonical s"
    using key(1) by (cases "mod_parts (modifiers s) = []"; auto intro!: trim_id)+
qed

text \<open>
  An override that \<open>validate_override\<close> accepts, stored in its canonical form, makes the shortcut
  resolve for that id and for no other remappable id, and it is not a reserved combination.
\<close>

theorem validated_override_unique:
  assumes "validate_override p ov i s = Inr ()" and "wf_shortcut s"
  defines "ov' \<equiv> ov(i \<mapsto> to_string_canonical s)"
  shows "resolve_profile_shortcut p ov' i = Some s \<and> is_reserved s = None
    \<and> (\<forall>b \<in> set PROFILE_BINDINGS. resolve_profile_shortcut p ov' (binding_id b) = Some s \<longrightarrow> binding_id b = i)"
proof -
  have free: "is_reserved s = None" "binding_conflict p ov i s = None"
    using assms(1) by (auto simp: validate_override_def split: if_splits option.splits)
  have "resolve_profile_shortcut p ov' i = Some s"
    using canonical_parses [OF assms(2)] to_string_canonical_trim [OF assms(2)]
    by (simp add: resolve_profile_shortcut_def ov'_def ok_def)
  moreover have "resolve_profile_shortcut p ov' j = resolve_profile_shortcut p ov j" if "j \<noteq> i" for j
    using that by (simp add: resolve_profile_shortcut_def ov'_def)
  moreover have "\<forall>b \<in> set PROFILE_BINDINGS. binding_id b \<noteq> i \<longrightarrow> resolve_profile_shortcut p ov (binding_id b) \<noteq> Some s"
    using free(2) by (auto simp: binding_conflict_def find_None_iff)
  ultimately show ?thesis using free(1) by metis
qed

lemma find_binding:
  assumes "b \<in> set PROFILE_BINDINGS" and "distinct (map binding_id PROFILE_BINDINGS)"
  shows "find (\<lambda>c. binding_id c = binding_id b) PROFILE_BINDINGS = Some b"
proof -
  obtain c where c: "find (\<lambda>c. binding_id c = binding_id b) PROFILE_BINDINGS = Some c"
    using assms(1) by (cases "find (\<lambda>c. binding_id c = binding_id b) PROFILE_BINDINGS") (auto simp: find_None_iff)
  then have "c \<in> set PROFILE_BINDINGS" "binding_id c = binding_id b"
    by (auto simp: find_Some_iff)
  then show ?thesis using assms c by (auto simp: distinct_map dest: inj_onD)
qed

lemma binding_ids_distinct: "distinct (map binding_id PROFILE_BINDINGS)"
  by (simp add: PROFILE_BINDINGS_def profile_bindings_1_def profile_bindings_2_def profile_bindings_3_def binding_def)

lemma default_of_binding: "b \<in> set PROFILE_BINDINGS \<Longrightarrow> profile_default_str p (binding_id b) = Some (for_profile b p)"
  by (simp add: profile_default_str_def find_binding binding_ids_distinct)

theorem validated_override_unique_witness:
  "resolve_profile_shortcut Orchid ((\<lambda>_. Some [])(lit ''fs.rename'' \<mapsto> to_string_canonical \<lparr>modifiers = 0, key = F 6\<rparr>))
     (lit ''fs.rename'') = Some \<lparr>modifiers = 0, key = F 6\<rparr>"
proof -
  let ?s = "\<lparr>modifiers = 0, key = F 6\<rparr>"
  let ?b = "binding ''fs.rename'' ''fm-action-rename'' ''F2'' ''F2'' ''F2'' ''F2''"
  have "?b \<in> set PROFILE_BINDINGS" by (simp add: PROFILE_BINDINGS_def profile_bindings_2_def del: lit_simps)
  from default_of_binding [OF this] have "profile_default_str Orchid (lit ''fs.rename'') \<noteq> None"
    by (simp add: binding_def)
  moreover have "binding_conflict Orchid (\<lambda>_. Some []) i s = None" for i s
    by (simp add: binding_conflict_def find_None_iff resolve_profile_shortcut_def trim_no_space)
  moreover have "is_reserved ?s = None" by (simp add: is_reserved_def mod_bits)
  ultimately have "validate_override Orchid (\<lambda>_. Some []) (lit ''fs.rename'') ?s = Inr ()"
    by (simp add: validate_override_def)
  moreover have "wf_shortcut ?s" by (simp add: wf_shortcut_def all_mods_def)
  ultimately show ?thesis using validated_override_unique by blast
qed

text \<open>
  Two default bindings never take effect: the strings \<open>*\<close> and \<open>+\<close> that every profile gives to
  \<open>fs.invert-selection\<close> and \<open>fs.select-mask-add\<close> do not parse, so without an override both actions
  resolve to no shortcut although a default is listed.
\<close>

theorem mask_bindings_dead:
  "profile_default_str p (lit ''fs.invert-selection'') = Some (lit ''*'')
   \<and> resolve_profile_shortcut p Map.empty (lit ''fs.invert-selection'') = None
   \<and> profile_default_str p (lit ''fs.select-mask-add'') = Some (lit ''+'')
   \<and> resolve_profile_shortcut p Map.empty (lit ''fs.select-mask-add'') = None"
proof -
  let ?a = "binding ''fs.invert-selection'' ''fm-action-invert-selection'' ''*'' ''*'' ''*'' ''*''"
  let ?b = "binding ''fs.select-mask-add'' ''fm-action-select-mask'' ''+'' ''+'' ''+'' ''+''"
  have "?a \<in> set PROFILE_BINDINGS" "?b \<in> set PROFILE_BINDINGS"
    by (simp_all add: PROFILE_BINDINGS_def profile_bindings_2_def del: lit_simps)
  from this [THEN default_of_binding] have "profile_default_str p (lit ''fs.invert-selection'') = Some (lit ''*'')"
    "profile_default_str p (lit ''fs.select-mask-add'') = Some (lit ''+'')"
    by (simp_all add: binding_def for_profile_def split: ShortcutProfile.splits del: lit_simps)
  moreover have "ok (shortcut_parse (lit ''*'')) = None" "ok (shortcut_parse (lit ''+'')) = None"
    by (simp_all add: parse_eval ok_def Let_def)
  ultimately show ?thesis by (simp add: resolve_profile_shortcut_def)
qed

end
