(* ===== verification/Command.thy ===== *)
theory Command
  imports Shortcut "HOL-Library.AList"
begin

text \<open>
  The command registry and the command-line parser (crates/orchid-core/src/command/registry.rs,
  parser.rs and descriptor.rs).  The two concurrent hash maps of the registry are association lists
  with unique keys, whose order stands for the unspecified iteration order; action factories are
  values of a type parameter that \<open>build_action\<close> applies.  An index out of bounds, which aborts the
  Rust program, is the error \<open>IndexPanic\<close>.
\<close>

section \<open>Data\<close>

datatype CommandCategory =
  System | File | Widget | Terminal | View | Navigation | Search | Settings | Developer | Custom

datatype CommandArgKind = String | Path | Integer | Boolean | Flag

record CommandArg =
  arg_name :: ustring
  arg_description_key :: "ustring option"
  required :: bool
  kind :: CommandArgKind

record TerminalInvocation =
  invocation_verb :: ustring
  args :: "CommandArg list"

record CommandDescriptor =
  id :: ustring
  display_name_key :: ustring
  description_key :: "ustring option"
  category :: CommandCategory
  default_shortcut :: "Shortcut option"
  terminal_invocation :: "TerminalInvocation option"
  icon_name :: "ustring option"

record 'f CommandEntry =
  descriptor :: CommandDescriptor
  factory :: 'f
  effective :: "Shortcut option"

record 'f CommandRegistry =
  inner :: "(ustring \<times> 'f CommandEntry) list"
  by_verb :: "(ustring \<times> ustring) list"

record ParsedCommand =
  verb :: ustring
  positional :: "ustring list"
  flags :: "ustring set"
  options :: "ustring \<rightharpoonup> ustring"

datatype syntax_reason = Empty | TrailingBackslash | UnterminatedQuote

datatype core_error =
    CommandNotFound ustring
  | DuplicateCommand ustring
  | InvalidCommandSyntax syntax_reason
  | ActionFailed ustring
  | IndexPanic

section \<open>Registry\<close>

definition registry_new :: "'f CommandRegistry" where
  "registry_new = \<lparr>inner = [], by_verb = []\<rparr>"

definition verb_of :: "CommandDescriptor \<Rightarrow> ustring option" where
  "verb_of d = map_option invocation_verb (terminal_invocation d)"

definition register :: "CommandDescriptor \<Rightarrow> 'f \<Rightarrow> 'f CommandRegistry \<Rightarrow> core_error + 'f CommandRegistry" where
  "register d f r =
    (if map_of (inner r) (id d) \<noteq> None then Inl (DuplicateCommand (id d))
     else let r = r\<lparr>inner := AList.update (id d)
                     \<lparr>descriptor = d, factory = f, effective = default_shortcut d\<rparr> (inner r)\<rparr>
          in Inr (case verb_of d of
                    Some v \<Rightarrow> r\<lparr>by_verb := AList.update v (id d) (by_verb r)\<rparr>
                  | None \<Rightarrow> r))"

definition unregister :: "ustring \<Rightarrow> 'f CommandRegistry \<Rightarrow> 'f CommandRegistry \<times> bool" where
  "unregister i r =
    (case map_of (inner r) i of
       Some entry \<Rightarrow>
         let r = r\<lparr>inner := AList.delete i (inner r)\<rparr>
         in (case verb_of (descriptor entry) of
               Some v \<Rightarrow> r\<lparr>by_verb := AList.delete v (by_verb r)\<rparr>
             | None \<Rightarrow> r, True)
     | None \<Rightarrow> (r, False))"

definition get :: "'f CommandRegistry \<Rightarrow> ustring \<Rightarrow> CommandDescriptor option" where
  "get r i = map_option descriptor (map_of (inner r) i)"

definition list_all_commands :: "'f CommandRegistry \<Rightarrow> CommandDescriptor list" where
  "list_all_commands r = map (descriptor \<circ> snd) (inner r)"

definition list_by_category :: "'f CommandRegistry \<Rightarrow> CommandCategory \<Rightarrow> CommandDescriptor list" where
  "list_by_category r c =
    map (descriptor \<circ> snd) (filter (\<lambda>e. category (descriptor (snd e)) = c) (inner r))"

definition build_action ::
  "(ParsedCommand \<Rightarrow> core_error + 'a) CommandRegistry \<Rightarrow> ustring \<Rightarrow> ParsedCommand \<Rightarrow> core_error + 'a"
where
  "build_action r i parsed =
    (case map_of (inner r) i of
       None \<Rightarrow> Inl (CommandNotFound i)
     | Some entry \<Rightarrow> factory entry parsed)"

definition reset_effective_shortcuts :: "'f CommandRegistry \<Rightarrow> 'f CommandRegistry" where
  "reset_effective_shortcuts r =
    r\<lparr>inner := map (\<lambda>(i, e). (i, e\<lparr>effective := default_shortcut (descriptor e)\<rparr>)) (inner r)\<rparr>"

definition profile_entry :: "ShortcutProfile \<Rightarrow> 'f CommandEntry \<Rightarrow> 'f CommandEntry" where
  "profile_entry p e =
    (case profile_default_str p (id (descriptor e)) of
       None \<Rightarrow> e
     | Some raw \<Rightarrow>
         if raw = [] then e\<lparr>effective := None\<rparr>
         else case shortcut_parse raw of
           Inr sc \<Rightarrow> if is_reserved sc = None then e\<lparr>effective := Some sc\<rparr> else e
         | Inl _ \<Rightarrow> e)"

definition apply_shortcut_profile :: "ShortcutProfile \<Rightarrow> 'f CommandRegistry \<Rightarrow> 'f CommandRegistry" where
  "apply_shortcut_profile p r = r\<lparr>inner := map (\<lambda>(i, e). (i, profile_entry p e)) (inner r)\<rparr>"

datatype override_failure =
    OverrideReserved reserved_reason
  | UnknownCommand ustring
  | OverrideSyntax shortcut_error

record ShortcutOverrideResult =
  command_id :: ustring
  outcome :: "override_failure + Shortcut"

definition apply_override ::
  "ustring \<times> ustring \<Rightarrow> 'f CommandRegistry \<Rightarrow> 'f CommandRegistry \<times> ShortcutOverrideResult"
where
  "apply_override ov r =
    (let (i, s) = ov
     in case shortcut_parse s of
          Inr sc \<Rightarrow>
            (case is_reserved sc of
               Some reason \<Rightarrow> (r, \<lparr>command_id = i, outcome = Inl (OverrideReserved reason)\<rparr>)
             | None \<Rightarrow>
                 (case map_of (inner r) i of
                    Some entry \<Rightarrow>
                      (r\<lparr>inner := AList.update i (entry\<lparr>effective := Some sc\<rparr>) (inner r)\<rparr>,
                       \<lparr>command_id = i, outcome = Inr sc\<rparr>)
                  | None \<Rightarrow> (r, \<lparr>command_id = i, outcome = Inl (UnknownCommand i)\<rparr>)))
        | Inl e \<Rightarrow> (r, \<lparr>command_id = i, outcome = Inl (OverrideSyntax e)\<rparr>))"

fun apply_shortcut_overrides ::
  "(ustring \<times> ustring) list \<Rightarrow> 'f CommandRegistry \<Rightarrow> 'f CommandRegistry \<times> ShortcutOverrideResult list"
where
  "apply_shortcut_overrides [] r = (r, [])"
| "apply_shortcut_overrides (ov # ovs) r =
    (let (r, result) = apply_override ov r;
         (r, out) = apply_shortcut_overrides ovs r
     in (r, result # out))"

definition rebind_shortcuts ::
  "ShortcutProfile \<Rightarrow> (ustring \<times> ustring) list \<Rightarrow> 'f CommandRegistry
    \<Rightarrow> 'f CommandRegistry \<times> ShortcutOverrideResult list"
where
  "rebind_shortcuts p ovs r =
    apply_shortcut_overrides ovs (apply_shortcut_profile p (reset_effective_shortcuts r))"

definition effective_shortcut :: "'f CommandRegistry \<Rightarrow> ustring \<Rightarrow> Shortcut option" where
  "effective_shortcut r i = (case map_of (inner r) i of None \<Rightarrow> None | Some e \<Rightarrow> effective e)"

definition has_verb :: "'f CommandRegistry \<Rightarrow> ustring \<Rightarrow> bool" where
  "has_verb r v \<longleftrightarrow> map_of (by_verb r) v \<noteq> None"

definition get_by_verb :: "'f CommandRegistry \<Rightarrow> ustring \<Rightarrow> CommandDescriptor option" where
  "get_by_verb r v = (case map_of (by_verb r) v of None \<Rightarrow> None | Some i \<Rightarrow> get r i)"

section \<open>Tokeniser\<close>

text \<open>The character loop: the rest of the input, the quoting state, the current token and the tokens so far.\<close>

fun tok_loop ::
  "ustring \<Rightarrow> bool \<Rightarrow> ustring \<Rightarrow> ustring list \<Rightarrow> core_error + bool \<times> ustring \<times> ustring list"
where
  "tok_loop [] in_quote current tokens = Inr (in_quote, current, tokens)"
| "tok_loop (c # cs) True current tokens =
    (if c = 34 then tok_loop cs False [] (tokens @ [current])
     else if c = 92 then
       (case cs of
          [] \<Rightarrow> Inl (InvalidCommandSyntax TrailingBackslash)
        | n # cs' \<Rightarrow> tok_loop cs' True (current @ [n]) tokens)
     else tok_loop cs True (current @ [c]) tokens)"
| "tok_loop (c # cs) False current tokens =
    (if c = 34 then tok_loop cs True current tokens
     else if is_whitespace c then
       if current \<noteq> [] then tok_loop cs False [] (tokens @ [current])
       else tok_loop cs False current tokens
     else tok_loop cs False (current @ [c]) tokens)"

definition strip_orc :: "ustring \<Rightarrow> core_error + ustring" where
  "strip_orc input =
    (let trimmed = trim input
     in case strip_prefix (lit ''orc '') trimmed of
          Some stripped \<Rightarrow> Inr (trim_start stripped)
        | None \<Rightarrow> if trimmed = lit ''orc'' then Inl (InvalidCommandSyntax Empty) else Inr trimmed)"

definition tokenise :: "ustring \<Rightarrow> core_error + ustring list" where
  "tokenise input =
    and_then (strip_orc input) (\<lambda>trimmed.
      if trimmed = [] then Inl (InvalidCommandSyntax Empty)
      else and_then (tok_loop trimmed False [] []) (\<lambda>(in_quote, current, tokens).
        if in_quote then Inl (InvalidCommandSyntax UnterminatedQuote)
        else let tokens = (if current \<noteq> [] then tokens @ [current] else tokens)
          in if tokens = [] then Inl (InvalidCommandSyntax Empty) else Inr tokens))"

section \<open>Parser\<close>

definition is_dashed :: "ustring \<Rightarrow> bool" where
  "is_dashed t \<longleftrightarrow> starts_with [45] t"

text \<open>The loop \<open>for end in (1..=n).rev()\<close> over the candidate prefixes, longest first.\<close>

fun longest_verb :: "(ustring \<Rightarrow> bool) \<Rightarrow> ustring list \<Rightarrow> nat \<Rightarrow> (ustring \<times> nat) option" where
  "longest_verb has cands 0 = None"
| "longest_verb has cands (Suc n) =
    (let candidate = join [32] (take (Suc n) cands)
     in if has candidate then Some (candidate, Suc n) else longest_verb has cands n)"

fun parse_args ::
  "ustring list \<Rightarrow> ustring list \<Rightarrow> ustring set \<Rightarrow> (ustring \<rightharpoonup> ustring)
    \<Rightarrow> ustring list \<times> ustring set \<times> (ustring \<rightharpoonup> ustring)"
where
  "parse_args [] pos fl opt = (pos, fl, opt)"
| "parse_args (tok # it) pos fl opt =
    (case strip_prefix [45, 45] tok of
       Some rest \<Rightarrow>
         if rest = [] then (pos @ it, fl, opt)
         else (case split_once 61 rest of
             Some (k, v) \<Rightarrow> parse_args it pos fl (opt(k \<mapsto> v))
           | None \<Rightarrow>
               (case it of
                  nxt # it' \<Rightarrow>
                    if \<not> is_dashed nxt then parse_args it' pos fl (opt(rest \<mapsto> nxt))
                    else parse_args it pos (insert rest fl) opt
                | [] \<Rightarrow> parse_args it pos (insert rest fl) opt))
     | None \<Rightarrow>
         (case strip_prefix [45] tok of
            Some rest \<Rightarrow>
              if rest = [] then parse_args it (pos @ [tok]) fl opt
              else parse_args it pos (insert rest fl) opt
          | None \<Rightarrow> parse_args it (pos @ [tok]) fl opt))"

definition assemble :: "ustring \<Rightarrow> ustring list \<Rightarrow> ParsedCommand" where
  "assemble v it =
    (let (pos, fl, opt) = parse_args it [] {} Map.empty
     in \<lparr>verb = v, positional = pos, flags = fl, options = opt\<rparr>)"

definition build_parsed :: "ustring list \<Rightarrow> (ustring \<Rightarrow> bool) option \<Rightarrow> core_error + ParsedCommand" where
  "build_parsed tokens registry =
    (let verb_candidates = takeWhile (\<lambda>t. \<not> is_dashed t) tokens;
         fallback = (if verb_candidates = [] then Inl IndexPanic else Inr (verb_candidates ! 0, 1))
     in and_then
       (case registry of
          Some has \<Rightarrow>
            (case longest_verb has verb_candidates (length verb_candidates) of
               Some (v, n) \<Rightarrow> Inr (v, n)
             | None \<Rightarrow> fallback)
        | None \<Rightarrow> fallback)
       (\<lambda>(v, verb_len). Inr (assemble v (drop verb_len tokens))))"

definition parse_command_line :: "ustring \<Rightarrow> core_error + ParsedCommand" where
  "parse_command_line input = and_then (tokenise input) (\<lambda>tokens. build_parsed tokens None)"

definition parse_command_line_with_registry ::
  "ustring \<Rightarrow> 'f CommandRegistry \<Rightarrow> core_error + ParsedCommand \<times> CommandDescriptor"
where
  "parse_command_line_with_registry input r =
    and_then (tokenise input) (\<lambda>tokens.
      and_then (build_parsed tokens (Some (has_verb r))) (\<lambda>parsed.
        case get_by_verb r (verb parsed) of
          None \<Rightarrow> Inl (CommandNotFound (verb parsed))
        | Some d \<Rightarrow> Inr (parsed, d)))"

section \<open>Quoting\<close>

text \<open>A command line in which every token is quoted, with quotes and backslashes escaped.\<close>

definition escape :: "uchar \<Rightarrow> ustring" where
  "escape c = (if c = 34 \<or> c = 92 then [92, c] else [c])"

definition quote :: "ustring \<Rightarrow> ustring" where
  "quote t = [34] @ concat (map escape t) @ [34]"

definition quote_all :: "ustring list \<Rightarrow> ustring" where
  "quote_all ts = join [32] (map quote ts)"

lemma tok_loop_quoted:
  "tok_loop (concat (map escape t) @ 34 # rest) True cur toks = tok_loop rest False [] (toks @ [cur @ t])"
  by (induction t arbitrary: cur) (auto simp: escape_def)

lemma tok_loop_quote: "tok_loop (quote t @ rest) False [] toks = tok_loop rest False [] (toks @ [t])"
  by (simp add: quote_def tok_loop_quoted)

lemma tok_loop_quote_all: "ts \<noteq> [] \<Longrightarrow> tok_loop (quote_all ts) False [] toks = Inr (False, [], toks @ ts)"
proof (induction ts arbitrary: toks rule: induct_list012)
  case (2 t)
  then show ?case using tok_loop_quote [of t "[]"] by (simp add: quote_all_def)
next
  case (3 t u ts)
  have "quote_all (t # u # ts) = quote t @ 32 # quote_all (u # ts)" by (simp add: quote_all_def)
  then show ?case using 3 by (simp add: tok_loop_quote is_whitespace_def)
qed simp

lemma quote_all_ends:
  "ts \<noteq> [] \<Longrightarrow> \<exists>r. quote_all ts = 34 # r \<and> last (quote_all ts) = 34"
proof (induction ts rule: induct_list012)
  case (2 t)
  then show ?case by (simp add: quote_all_def quote_def)
next
  case (3 t u ts)
  have "quote_all (t # u # ts) = quote t @ 32 # quote_all (u # ts)" by (simp add: quote_all_def)
  with 3 show ?case by (auto simp: quote_def)
qed simp

lemma tokenise_quote_all:
  assumes "ts \<noteq> []"
  shows "tokenise (quote_all ts) = Inr ts"
proof -
  obtain r where r: "quote_all ts = 34 # r" "last (quote_all ts) = 34" using quote_all_ends [OF assms] by blast
  then have "trim (quote_all ts) = quote_all ts" by (intro trim_id) (simp_all add: is_whitespace_def)
  then have "strip_orc (quote_all ts) = Inr (quote_all ts)" using r(1) by (simp add: strip_orc_def)
  then show ?thesis using r(1) tok_loop_quote_all [OF assms, of "[]"] assms by (simp add: tokenise_def)
qed

lemma strip_dashes: "\<not> is_dashed t \<Longrightarrow> strip_prefix [45] t = None \<and> strip_prefix [45, 45] t = None"
  by (cases t) (auto simp: is_dashed_def starts_with_def)

lemma parse_args_plain: "\<forall>t \<in> set ts. \<not> is_dashed t \<Longrightarrow> parse_args ts pos fl opt = (pos @ ts, fl, opt)"
  by (induction ts arbitrary: pos) (simp_all add: strip_dashes)

lemma assemble_simps:
  "verb (assemble v it) = v"
  "parse_args it [] {} Map.empty = (positional (assemble v it), flags (assemble v it), options (assemble v it))"
  by (simp_all add: assemble_def split: prod.split)

section \<open>The verb index as an interface of the parser\<close>

text \<open>
  The parser asks the registry only two questions, whether a verb is known and which command it
  names; what it relies on is that the answers agree.
\<close>

locale verb_directory =
  fixes inv :: "'s \<Rightarrow> bool" and has :: "'s \<Rightarrow> ustring \<Rightarrow> bool" and look :: "'s \<Rightarrow> ustring \<Rightarrow> 'd option"
  assumes has_look: "inv s \<Longrightarrow> has s v \<longleftrightarrow> look s v \<noteq> None"
begin

lemma longest_verb_Some:
  "longest_verb (has s) cands n = Some (v, k) \<Longrightarrow>
   1 \<le> k \<and> k \<le> n \<and> v = join [32] (take k cands) \<and> has s v
     \<and> (\<forall>m. k < m \<and> m \<le> n \<longrightarrow> \<not> has s (join [32] (take m cands)))"
  by (induction n) (auto simp: Let_def le_Suc_eq split: if_splits)

lemma longest_verb_None:
  "longest_verb (has s) cands n = None \<Longrightarrow> \<forall>m. 1 \<le> m \<and> m \<le> n \<longrightarrow> \<not> has s (join [32] (take m cands))"
  by (induction n) (auto simp: Let_def le_Suc_eq split: if_splits)

text \<open>The parser finds a command exactly when some prefix of the undashed words is a known verb.\<close>

lemma build_parsed_look:
  assumes "inv s" and "build_parsed ts (Some (has s)) = Inr p" and "look s (verb p) = Some d"
  shows "\<exists>n. 1 \<le> n \<and> n \<le> length (takeWhile (\<lambda>t. \<not> is_dashed t) ts) \<and> verb p = join [32] (take n ts)
    \<and> (\<forall>m. n < m \<and> m \<le> length (takeWhile (\<lambda>t. \<not> is_dashed t) ts) \<longrightarrow> \<not> has s (join [32] (take m ts)))
    \<and> parse_args (drop n ts) [] {} Map.empty = (positional p, flags p, options p)"
proof -
  define cands where "cands = takeWhile (\<lambda>t. \<not> is_dashed t) ts"
  have pre: "take m cands = take m ts" if "m \<le> length cands" for m
    using that unfolding cands_def by (metis append_take_drop_id take_append takeWhile_dropWhile_id
        append_Nil2 diff_is_0_eq take0)
  show ?thesis
  proof (cases "longest_verb (has s) cands (length cands)")
    case None
    then have "cands \<noteq> []" "verb p = cands ! 0"
      using assms(2) by (auto simp: build_parsed_def Let_def cands_def assemble_simps split: if_splits)
    then have "verb p = join [32] (take 1 cands)" by (cases cands) auto
    then have "\<not> has s (verb p)" using longest_verb_None [OF None] \<open>cands \<noteq> []\<close> by (cases cands) auto
    then show ?thesis using has_look [OF assms(1)] assms(3) by simp
  next
    case (Some a)
    then obtain v n where vn: "longest_verb (has s) cands (length cands) = Some (v, n)" by (cases a) auto
    then have "verb p = v" "parse_args (drop n ts) [] {} Map.empty = (positional p, flags p, options p)"
      using assms(2) assemble_simps(2) by (auto simp: build_parsed_def Let_def cands_def assemble_simps(1))
    then show ?thesis
      using longest_verb_Some [OF vn] pre by (intro exI [of _ n]) (auto simp: cands_def)
  qed
qed

end

section \<open>Registry invariant\<close>

definition reg_inv :: "'f CommandRegistry \<Rightarrow> bool" where
  "reg_inv r \<longleftrightarrow> distinct (map fst (inner r)) \<and> distinct (map fst (by_verb r))
    \<and> (\<forall>i e. map_of (inner r) i = Some e \<longrightarrow> id (descriptor e) = i)
    \<and> (\<forall>v i. map_of (by_verb r) v = Some i \<longrightarrow>
        (\<exists>e. map_of (inner r) i = Some e \<and> verb_of (descriptor e) = Some v))"

interpretation verbs: verb_directory reg_inv has_verb get_by_verb
  by unfold_locales (force simp: has_verb_def get_by_verb_def get_def reg_inv_def split: option.splits)

lemmas reg_simps = reg_inv_def update_conv' delete_conv' distinct_update distinct_delete

lemma reg_inv_register:
  assumes "reg_inv r" and "register d f r = Inr r'"
  shows "reg_inv r'"
proof -
  have new: "map_of (inner r) (id d) = None"
    using assms(2) by (auto simp: register_def split: if_splits)
  then have "map_of (by_verb r) v \<noteq> Some (id d)" for v
    using assms(1) by (fastforce simp: reg_inv_def)
  then show ?thesis
    using assms new by (auto simp: register_def Let_def reg_simps split: option.splits if_splits)
qed

lemma reg_inv_unregister:
  assumes "reg_inv r"
  shows "reg_inv (fst (unregister i r))"
proof (cases "map_of (inner r) i")
  case None
  then show ?thesis using assms by (simp add: unregister_def)
next
  case (Some e)
  have "v = v'" if "map_of (by_verb r) v' = Some i" "verb_of (descriptor e) = Some v" for v v'
    using assms that Some by (fastforce simp: reg_inv_def)
  moreover have "map_of (by_verb r) v \<noteq> Some i" if "verb_of (descriptor e) = None" for v
    using assms that Some by (fastforce simp: reg_inv_def)
  ultimately show ?thesis
    using assms Some
    by (auto simp: unregister_def Let_def reg_simps restrict_map_def simp del: map_of_eq_Some_iff
        split: option.splits if_splits)
qed

lemma reg_inv_map_entries:
  assumes "reg_inv r" and "\<And>e. descriptor (g e) = descriptor e"
  shows "reg_inv (r\<lparr>inner := map (\<lambda>(i, e). (i, g e)) (inner r)\<rparr>)"
proof -
  have "map_of (map (\<lambda>(i, e). (i, g e)) (inner r)) = map_option g \<circ> map_of (inner r)" by (rule map_of_map)
  moreover have "map fst (map (\<lambda>(i, e). (i, g e)) (inner r)) = map fst (inner r)"
    by (simp add: comp_def case_prod_beta)
  moreover have "map_of (map (\<lambda>(i, e). (i, g e)) (inner r)) i = Some e' \<longleftrightarrow> (\<exists>e. map_of (inner r) i = Some e \<and> g e = e')"
    for i e'
    by (simp add: map_of_map)
  ultimately show ?thesis
    using assms unfolding reg_inv_def by (simp del: map_of_eq_Some_iff map_map) metis
qed

lemma profile_entry_descriptor [simp]: "descriptor (profile_entry p e) = descriptor e"
  by (simp add: profile_entry_def split: option.split sum.split)

lemma reg_inv_profile:
  "reg_inv r \<Longrightarrow> reg_inv (apply_shortcut_profile p r)" "reg_inv r \<Longrightarrow> reg_inv (reset_effective_shortcuts r)"
  unfolding apply_shortcut_profile_def reset_effective_shortcuts_def by (rule reg_inv_map_entries; simp)+

lemma reg_inv_override: "reg_inv r \<Longrightarrow> reg_inv (fst (apply_override ov r))"
  by (cases ov) (force simp: apply_override_def reg_simps simp del: map_of_eq_Some_iff
      split: sum.splits option.splits if_splits)

lemma overrides_Cons:
  "fst (apply_shortcut_overrides (ov # ovs) r) = fst (apply_shortcut_overrides ovs (fst (apply_override ov r)))"
  by (simp add: case_prod_beta Let_def)

lemma reg_inv_overrides: "reg_inv r \<Longrightarrow> reg_inv (fst (apply_shortcut_overrides ovs r))"
  by (induction ovs arbitrary: r)
    (simp_all add: overrides_Cons reg_inv_override del: apply_shortcut_overrides.simps(2))

inductive registry_reachable :: "'f CommandRegistry \<Rightarrow> bool" where
  new: "registry_reachable registry_new"
| register: "registry_reachable r \<Longrightarrow> register d f r = Inr r' \<Longrightarrow> registry_reachable r'"
| unregister: "registry_reachable r \<Longrightarrow> registry_reachable (fst (unregister i r))"
| reset: "registry_reachable r \<Longrightarrow> registry_reachable (reset_effective_shortcuts r)"
| profile: "registry_reachable r \<Longrightarrow> registry_reachable (apply_shortcut_profile p r)"
| overrides: "registry_reachable r \<Longrightarrow> registry_reachable (fst (apply_shortcut_overrides ovs r))"

lemma registry_reachable_inv: "registry_reachable r \<Longrightarrow> reg_inv r"
proof (induction rule: registry_reachable.induct)
  case new
  then show ?case by (simp add: registry_new_def reg_inv_def)
qed (auto intro: reg_inv_register reg_inv_unregister reg_inv_profile reg_inv_overrides)

section \<open>Effective shortcuts\<close>

text \<open>What an override string contributes: only a parsable shortcut that is not reserved.\<close>

definition usable_shortcut :: "ustring \<Rightarrow> Shortcut option" where
  "usable_shortcut s =
    (case shortcut_parse s of
       Inr sc \<Rightarrow> if is_reserved sc = None then Some sc else None
     | Inl _ \<Rightarrow> None)"

definition or_else :: "'a option \<Rightarrow> 'a option \<Rightarrow> 'a option" where
  "or_else x y = (case x of Some z \<Rightarrow> Some z | None \<Rightarrow> y)"

lemma map_of_apply_override:
  "map_of (inner (fst (apply_override (j, s) r))) i =
    (if i = j then map_option (\<lambda>e. e\<lparr>effective := or_else (usable_shortcut s) (effective e)\<rparr>) (map_of (inner r) i)
     else map_of (inner r) i)"
  by (auto simp: apply_override_def usable_shortcut_def or_else_def update_conv' option.map_ident
      split: sum.split option.split)

lemma map_of_apply_overrides:
  "distinct (map fst ovs) \<Longrightarrow> map_of (inner (fst (apply_shortcut_overrides ovs r))) i =
    (case map_of ovs i of
       None \<Rightarrow> map_of (inner r) i
     | Some s \<Rightarrow> map_option (\<lambda>e. e\<lparr>effective := or_else (usable_shortcut s) (effective e)\<rparr>) (map_of (inner r) i))"
proof (induction ovs arbitrary: r)
  case (Cons ov ovs)
  obtain j s where ov: "ov = (j, s)" by (cases ov)
  have "map_of ovs j = None" using Cons.prems ov by (simp add: map_of_eq_None_iff)
  then show ?case
    using Cons by (simp add: ov overrides_Cons map_of_apply_override del: apply_shortcut_overrides.simps(2) split: option.split)
qed simp

lemma profile_entry_effective:
  "effective (profile_entry p e) =
    (case profile_default_str p (id (descriptor e)) of
       None \<Rightarrow> effective e
     | Some raw \<Rightarrow> if raw = [] then None else or_else (usable_shortcut raw) (effective e))"
  by (simp add: profile_entry_def usable_shortcut_def or_else_def split: option.split sum.split)

lemma rebind_lookup:
  assumes "reg_inv r" and "distinct (map fst ovs)" and "map_of (inner r) i = Some e"
  shows "effective_shortcut (fst (rebind_shortcuts p ovs r)) i =
    or_else (case map_of ovs i of None \<Rightarrow> None | Some s \<Rightarrow> usable_shortcut s)
      (case profile_default_str p i of
         None \<Rightarrow> default_shortcut (descriptor e)
       | Some raw \<Rightarrow> if raw = [] then None
                     else or_else (usable_shortcut raw) (default_shortcut (descriptor e)))"
proof -
  let ?e = "profile_entry p (e\<lparr>effective := default_shortcut (descriptor e)\<rparr>)"
  have "map_of (inner (apply_shortcut_profile p (reset_effective_shortcuts r))) i = Some ?e"
    using assms(3) by (simp add: apply_shortcut_profile_def reset_effective_shortcuts_def map_of_map comp_def
        del: map_map)
  moreover have "id (descriptor e) = i" using assms(1,3) by (simp add: reg_inv_def del: map_of_eq_Some_iff)
  ultimately show ?thesis
    by (cases "map_of ovs i"; cases "profile_default_str p i")
      (simp_all add: effective_shortcut_def rebind_shortcuts_def map_of_apply_overrides [OF assms(2)]
        profile_entry_effective or_else_def [of None])
qed

section \<open>Properties\<close>

text \<open>
  C39.  Quoting is faithful: a command line made of quoted tokens, with quotes and backslashes escaped,
  is tokenised to exactly those tokens whatever characters they contain, and a command whose verb
  and arguments do not begin with a dash is parsed to that verb with exactly those positional
  arguments.
\<close>

theorem quoted_command_roundtrip:
  assumes "ts \<noteq> []"
  shows "tokenise (quote_all ts) = Inr ts
    \<and> ((\<forall>t \<in> set ts. \<not> is_dashed t) \<longrightarrow> parse_command_line (quote_all ts)
          = Inr \<lparr>verb = hd ts, positional = tl ts, flags = {}, options = Map.empty\<rparr>)"
proof -
  obtain v rest where ts: "ts = v # rest" using assms by (cases ts) auto
  have "build_parsed ts None = Inr \<lparr>verb = v, positional = rest, flags = {}, options = Map.empty\<rparr>"
    if "\<forall>t \<in> set ts. \<not> is_dashed t"
    using that by (simp add: ts build_parsed_def assemble_def parse_args_plain)
  then show ?thesis
    using tokenise_quote_all [OF assms] by (simp add: parse_command_line_def ts)
qed

theorem quoted_command_roundtrip_witness:
  "parse_command_line (quote_all [lit ''fs'', lit ''a b'', [34]])
     = Inr \<lparr>verb = lit ''fs'', positional = [lit ''a b'', [34]], flags = {}, options = Map.empty\<rparr>"
  using quoted_command_roundtrip [of "[lit ''fs'', lit ''a b'', [34]]"]
  by (simp add: is_dashed_def starts_with_def)

text \<open>
  When a line is resolved through a registry, the verb is the longest known verb among the
  prefixes of the words before the first dashed one, the descriptor is the one that verb names, and
  everything behind it is read as arguments.
\<close>

theorem registry_parse_resolves:
  assumes "registry_reachable r" and "parse_command_line_with_registry input r = Inr (p, d)"
  shows "\<exists>ts n. tokenise input = Inr ts \<and> 1 \<le> n \<and> n \<le> length (takeWhile (\<lambda>t. \<not> is_dashed t) ts)
    \<and> verb p = join [32] (take n ts) \<and> get_by_verb r (verb p) = Some d
    \<and> (\<forall>m. n < m \<and> m \<le> length (takeWhile (\<lambda>t. \<not> is_dashed t) ts) \<longrightarrow> \<not> has_verb r (join [32] (take m ts)))
    \<and> parse_args (drop n ts) [] {} Map.empty = (positional p, flags p, options p)"
proof -
  obtain ts where ts: "tokenise input = Inr ts" "build_parsed ts (Some (has_verb r)) = Inr p"
    "get_by_verb r (verb p) = Some d"
    using assms(2) by (auto simp: parse_command_line_with_registry_def and_then_Inr_iff split: option.splits)
  then show ?thesis
    using verbs.build_parsed_look [OF registry_reachable_inv [OF assms(1)] ts(2,3)] by blast
qed

definition sample_descriptor :: "string \<Rightarrow> string \<Rightarrow> CommandDescriptor" where
  "sample_descriptor i v =
    \<lparr>id = lit i, display_name_key = [], description_key = None, category = File, default_shortcut = None,
     terminal_invocation = Some \<lparr>invocation_verb = lit v, args = []\<rparr>, icon_name = None\<rparr>"

theorem registry_parse_resolves_witness:
  "\<exists>r p d. registry_reachable (r :: unit CommandRegistry)
     \<and> parse_command_line_with_registry (quote_all [lit ''fs'', lit ''ls'']) r = Inr (p, d)
     \<and> verb p = lit ''fs ls''"
proof -
  obtain r :: "unit CommandRegistry" where r: "register (sample_descriptor ''a'' ''fs ls'') () registry_new = Inr r"
    by (simp add: register_def registry_new_def sample_descriptor_def verb_of_def)
  then have reach: "registry_reachable r" by (rule registry_reachable.register [OF registry_reachable.new])
  have verbs: "get_by_verb r v = (if v = lit ''fs ls'' then Some (sample_descriptor ''a'' ''fs ls'') else None)"
    "has_verb r v \<longleftrightarrow> v = lit ''fs ls''" for v
    using r by (auto simp: register_def registry_new_def sample_descriptor_def verb_of_def Let_def
        get_by_verb_def has_verb_def get_def split: if_splits)
  have "build_parsed [lit ''fs'', lit ''ls''] (Some (has_verb r)) = Inr (assemble (lit ''fs ls'') [])"
    by (simp add: build_parsed_def is_dashed_def starts_with_def verbs(2))
  then have parsed: "parse_command_line_with_registry (quote_all [lit ''fs'', lit ''ls'']) r
      = Inr (assemble (lit ''fs ls'') [], sample_descriptor ''a'' ''fs ls'')"
    using tokenise_quote_all [of "[lit ''fs'', lit ''ls'']"]
    by (simp add: parse_command_line_with_registry_def assemble_simps verbs(1) del: lit_simps)
  then have "verb (assemble (lit ''fs ls'') []) = lit ''fs ls''" by (simp add: assemble_simps)
  with reach parsed registry_parse_resolves [OF reach parsed] show ?thesis by blast
qed

text \<open>
  Parsing aborts the program exactly when the first token begins with a dash: both entry points
  then index an empty candidate list, instead of returning an error.
\<close>

theorem leading_dash_panics:
  "(parse_command_line input = Inl IndexPanic
      \<longleftrightarrow> (\<exists>t ts. tokenise input = Inr (t # ts) \<and> is_dashed t))
   \<and> (parse_command_line_with_registry input r = Inl IndexPanic
      \<longleftrightarrow> (\<exists>t ts. tokenise input = Inr (t # ts) \<and> is_dashed t))"
proof -
  have no_panic: "tok_loop s q c ts \<noteq> Inl IndexPanic" for s q c ts
    by (induction s q c ts rule: tok_loop.induct) (auto split: list.splits)
  have tok: "tokenise input \<noteq> Inl IndexPanic"
    using no_panic [of _ False "[]" "[]"]
    by (auto simp: tokenise_def strip_orc_def and_then_def Let_def split: sum.splits option.splits if_splits)
  have nonempty: "tokenise input = Inr ts \<Longrightarrow> ts \<noteq> []" for ts
    by (auto simp: tokenise_def and_then_Inr_iff Let_def split: if_splits)
  have build: "build_parsed (t # ts) reg = Inl IndexPanic \<longleftrightarrow> is_dashed t" for t ts reg
    by (auto simp: build_parsed_def Let_def split: option.split)
  show ?thesis
  proof (cases "tokenise input")
    case (Inl e)
    then show ?thesis using tok
      by (simp add: parse_command_line_def parse_command_line_with_registry_def)
  next
    case (Inr toks)
    then obtain t ts where toks: "toks = t # ts" using nonempty by (cases toks) auto
    show ?thesis
      using Inr build [of t ts None] build [of t ts "Some (has_verb r)"]
      by (cases "build_parsed (t # ts) (Some (has_verb r))")
        (auto simp: toks parse_command_line_def parse_command_line_with_registry_def split: option.split)
  qed
qed

text \<open>
  However commands are registered, unregistered and rebound, every verb of the index names a
  registered command that declares this verb, and the index and the lookup agree.
\<close>

theorem verb_index_sound:
  assumes "registry_reachable r"
  shows "(has_verb r v \<longleftrightarrow> (\<exists>d. get_by_verb r v = Some d))
    \<and> (\<forall>d. get_by_verb r v = Some d \<longrightarrow> get r (id d) = Some d \<and> verb_of d = Some v)"
proof -
  note inv = registry_reachable_inv [OF assms]
  have "has_verb r v \<longleftrightarrow> (\<exists>d. get_by_verb r v = Some d)" using verbs.has_look [OF inv] by auto
  moreover have "get r (id d) = Some d \<and> verb_of d = Some v" if v: "get_by_verb r v = Some d" for d
  proof -
    obtain i e where i: "map_of (by_verb r) v = Some i" "map_of (inner r) i = Some e" "d = descriptor e"
      using v by (auto simp: get_by_verb_def get_def split: option.splits)
    then have "verb_of d = Some v" "id d = i" using inv by (fastforce simp: reg_inv_def simp del: map_of_eq_Some_iff)+
    then show ?thesis using i by (simp add: get_def)
  qed
  ultimately show ?thesis by blast
qed

theorem verb_index_sound_witness:
  "\<not> has_verb (registry_new :: unit CommandRegistry) (lit ''fs'')"
  using verb_index_sound [OF registry_reachable.new]
  by (simp add: get_by_verb_def registry_new_def)

text \<open>
  Two commands may declare the same verb: the second registration succeeds and takes the verb
  over, and unregistering the first one removes it, so that the second command, still registered,
  can no longer be reached by its verb.
\<close>

theorem shared_verb_lost:
  assumes "registry_reachable r" and "verb_of a = Some v" and "verb_of b = Some v" and "id a \<noteq> id b"
    and "register a f r = Inr r1" and "register b g r1 = Inr r2"
  shows "get_by_verb r2 v = Some b \<and> get (fst (unregister (id a) r2)) (id b) = Some b
    \<and> \<not> has_verb (fst (unregister (id a) r2)) v"
  using assms(2-)
  by (auto simp: register_def unregister_def get_by_verb_def get_def has_verb_def Let_def update_conv' delete_conv'
      split: if_splits)

theorem shared_verb_lost_witness:
  "\<exists>r1 r2. register (sample_descriptor ''a'' ''v'') () registry_new = Inr r1
     \<and> register (sample_descriptor ''b'' ''v'') () r1 = Inr r2
     \<and> \<not> has_verb (fst (unregister (lit ''a'') r2)) (lit ''v'')"
proof -
  let ?a = "sample_descriptor ''a'' ''v''" and ?b = "sample_descriptor ''b'' ''v''"
  obtain r1 r2 :: "unit CommandRegistry" where r: "register ?a () registry_new = Inr r1" "register ?b () r1 = Inr r2"
    by (simp add: register_def registry_new_def sample_descriptor_def verb_of_def Let_def)
  have "verb_of ?a = Some (lit ''v'')" "verb_of ?b = Some (lit ''v'')" "id ?a \<noteq> id ?b" "id ?a = lit ''a''"
    by (simp_all add: sample_descriptor_def verb_of_def)
  then show ?thesis using shared_verb_lost [OF registry_reachable.new _ _ _ r] r by metis
qed

text \<open>
  After rebinding, the shortcut of a registered command is its override if that parses and is
  not reserved, else the profile default if that parses and is not reserved, else its compiled
  default; an empty profile default unbinds it.  A blank override is ignored here, although
  \<open>resolve_profile_shortcut\<close> takes it to unbind the command.
\<close>

theorem rebind_effective:
  assumes "registry_reachable r" and "distinct (map fst ovs)" and "get r i = Some d"
  shows "effective_shortcut (fst (rebind_shortcuts p ovs r)) i =
      or_else (case map_of ovs i of None \<Rightarrow> None | Some s \<Rightarrow> usable_shortcut s)
        (case profile_default_str p i of
           None \<Rightarrow> default_shortcut d
         | Some raw \<Rightarrow> if raw = [] then None else or_else (usable_shortcut raw) (default_shortcut d))
    \<and> (\<forall>s. map_of ovs i = Some s \<and> trim s = [] \<longrightarrow>
        resolve_profile_shortcut p (map_of ovs) i = None
        \<and> effective_shortcut (fst (rebind_shortcuts p ovs r)) i
          = effective_shortcut (fst (rebind_shortcuts p [] r)) i)"
proof -
  obtain e where e: "map_of (inner r) i = Some e" "descriptor e = d" using assms(3) by (auto simp: get_def)
  note look = rebind_lookup [OF registry_reachable_inv [OF assms(1)] _ e(1), unfolded e(2)]
  have "resolve_profile_shortcut p (map_of ovs) i = None
      \<and> effective_shortcut (fst (rebind_shortcuts p ovs r)) i = effective_shortcut (fst (rebind_shortcuts p [] r)) i"
    if s: "map_of ovs i = Some s" "trim s = []" for s
  proof -
    have "usable_shortcut s = None" using s(2) by (simp add: usable_shortcut_def shortcut_parse_def)
    then show ?thesis
      using s look [OF assms(2)] look [of "[]"] by (simp add: resolve_profile_shortcut_def or_else_def)
  qed
  then show ?thesis using look [OF assms(2)] by blast
qed

theorem rebind_effective_witness:
  "\<exists>r. register (sample_descriptor ''a'' ''v'') () registry_new = Inr r
     \<and> effective_shortcut (fst (rebind_shortcuts Orchid [(lit ''a'', [])] r)) (lit ''a'')
       = effective_shortcut (fst (rebind_shortcuts Orchid [] r)) (lit ''a'')"
proof -
  obtain r :: "unit CommandRegistry" where r: "register (sample_descriptor ''a'' ''v'') () registry_new = Inr r"
    by (simp add: register_def registry_new_def sample_descriptor_def verb_of_def Let_def)
  then have "get r (lit ''a'') = Some (sample_descriptor ''a'' ''v'')"
    by (auto simp: register_def registry_new_def sample_descriptor_def verb_of_def Let_def get_def)
  moreover have "registry_reachable r" using r by (rule registry_reachable.register [OF registry_reachable.new])
  ultimately show ?thesis
    using r rebind_effective [of r "[(lit ''a'', [])]" "lit ''a''" "sample_descriptor ''a'' ''v''" Orchid]
    by (auto simp: trim_no_space)
qed

end
