(* ===== verification/Widget_Layout.thy ===== *)
theory Widget_Layout
  imports Orchid_Prelude
begin

text \<open>
  The placement engine of the widget workspace (crates/orchid-widgets/src/layout/): cell footprints,
  collision, first-fit and spiral search, automatic placement with growth of the grid.  A \<open>u16\<close> is a
  natural number; the saturating operations of the code are \<open>sat_add\<close> and \<open>sat_sub\<close>, with
  \<open>u16_max\<close> as the bound of the stored values.  A widget instance is the record of the fields that the
  engine reads.  The engine state is its options, without the gutter width, which only the conversion
  to pixels reads; that conversion is not modelled.
\<close>

section \<open>Cells\<close>

record GridPosition =
  col :: nat
  row :: nat

datatype WidgetSize = Small | Medium | Large | ExtraLarge | Free nat nat

fun size_in_cells :: "WidgetSize \<Rightarrow> nat \<times> nat" where
  "size_in_cells Small = (2, 2)"
| "size_in_cells Medium = (4, 2)"
| "size_in_cells Large = (4, 4)"
| "size_in_cells ExtraLarge = (8, 4)"
| "size_in_cells (Free w h) = (max w 1, max h 1)"

definition fits_in_grid :: "GridPosition \<Rightarrow> WidgetSize \<Rightarrow> nat \<Rightarrow> nat \<Rightarrow> bool" where
  "fits_in_grid pos sz cols rows =
    (let (w, h) = size_in_cells sz;
         last_col = sat_add (col pos) w;
         last_row = sat_add (row pos) h
     in last_col \<le> cols \<and> last_row \<le> rows)"

definition snap_position :: "GridPosition \<Rightarrow> WidgetSize \<Rightarrow> nat \<Rightarrow> nat \<Rightarrow> GridPosition" where
  "snap_position pos sz cols rows =
    (let (w, h) = size_in_cells sz;
         max_col = sat_sub cols w;
         max_row = sat_sub rows h
     in \<lparr>col = min (col pos) max_col, row = min (row pos) max_row\<rparr>)"

section \<open>Collision\<close>

record CellRect =
  left :: nat
  top :: nat
  right :: nat
  bottom :: nat

definition from_widget :: "GridPosition \<Rightarrow> WidgetSize \<Rightarrow> CellRect" where
  "from_widget pos sz =
    (let (w, h) = size_in_cells sz
     in \<lparr>left = col pos, top = row pos, right = sat_add (col pos) w, bottom = sat_add (row pos) h\<rparr>)"

definition overlaps :: "CellRect \<Rightarrow> CellRect \<Rightarrow> bool" where
  "overlaps a b \<longleftrightarrow> left a < right b \<and> right a > left b \<and> top a < bottom b \<and> bottom a > top b"

definition collides :: "GridPosition \<Rightarrow> WidgetSize \<Rightarrow> CellRect list \<Rightarrow> bool" where
  "collides pos sz occupied = (let rect = from_widget pos sz in list_ex (\<lambda>r. overlaps rect r) occupied)"

section \<open>Search for a free slot\<close>

text \<open>The two nested loops of \<open>grid_first_fit\<close> visit the corners row by row and return at the first free one.\<close>

definition grid_first_fit :: "WidgetSize \<Rightarrow> nat \<Rightarrow> nat \<Rightarrow> CellRect list \<Rightarrow> GridPosition option" where
  "grid_first_fit sz cols rows occupied =
    (let (w, h) = size_in_cells sz
     in find (\<lambda>pos. \<not> list_ex (\<lambda>other. overlaps (from_widget pos sz) other) occupied)
          [\<lparr>col = c, row = r\<rparr>. r \<leftarrow> [0..<Suc (sat_sub rows h)], c \<leftarrow> [0..<Suc (sat_sub cols w)]])"

text \<open>
  The spiral walk: one straight run of \<open>n\<close> strides, then the four directions with the leg length that
  grows after the vertical runs, then the rounds.  A run returns the slot it found or the place it
  reached.
\<close>

fun spiral_run ::
  "(GridPosition \<Rightarrow> bool) \<Rightarrow> int \<Rightarrow> int \<Rightarrow> int \<times> int \<Rightarrow> nat \<Rightarrow> int \<times> int \<Rightarrow> GridPosition + int \<times> int"
where
  "spiral_run free max_col max_row dir 0 at = Inr at"
| "spiral_run free max_col max_row dir (Suc n) at =
    (let c = fst at + fst dir * 2;
         r = snd at + snd dir * 2
     in if c < 0 \<or> r < 0 \<or> c > max_col \<or> r > max_row then spiral_run free max_col max_row dir n (c, r)
        else let candidate = \<lparr>col = nat c, row = nat r\<rparr>
          in if free candidate then Inl candidate else spiral_run free max_col max_row dir n (c, r))"

fun spiral_dirs ::
  "(GridPosition \<Rightarrow> bool) \<Rightarrow> int \<Rightarrow> int \<Rightarrow> (int \<times> int) list \<Rightarrow> nat \<Rightarrow> int \<times> int
    \<Rightarrow> GridPosition + nat \<times> int \<times> int"
where
  "spiral_dirs free max_col max_row [] leg at = Inr (leg, at)"
| "spiral_dirs free max_col max_row (dir # dirs) leg at =
    (case spiral_run free max_col max_row dir leg at of
       Inl p \<Rightarrow> Inl p
     | Inr at' \<Rightarrow>
         spiral_dirs free max_col max_row dirs (if dir = (0, 1) \<or> dir = (0, -1) then leg + 1 else leg) at')"

fun spiral_rounds ::
  "(GridPosition \<Rightarrow> bool) \<Rightarrow> int \<Rightarrow> int \<Rightarrow> nat \<Rightarrow> nat \<Rightarrow> int \<times> int \<Rightarrow> GridPosition option"
where
  "spiral_rounds free max_col max_row 0 leg at = None"
| "spiral_rounds free max_col max_row (Suc n) leg at =
    (case spiral_dirs free max_col max_row [(1, 0), (0, 1), (-1, 0), (0, -1)] leg at of
       Inl p \<Rightarrow> Some p
     | Inr (leg', at') \<Rightarrow> spiral_rounds free max_col max_row n leg' at')"

definition spiral_place :: "WidgetSize \<Rightarrow> nat \<Rightarrow> nat \<Rightarrow> CellRect list \<Rightarrow> GridPosition option" where
  "spiral_place sz cols rows occupied =
    (if \<not> fits_in_grid \<lparr>col = 0, row = 0\<rparr> sz cols rows then None
     else let (w, h) = size_in_cells sz;
              max_col = sat_sub cols w;
              max_row = sat_sub rows h;
              candidate = \<lparr>col = max_col div 2, row = max_row div 2\<rparr>
          in if \<not> collides candidate sz occupied then Some candidate
             else spiral_rounds (\<lambda>p. \<not> collides p sz occupied) (int max_col) (int max_row)
               (cols * rows) 1 (int (max_col div 2), int (max_row div 2)))"

section \<open>Engine\<close>

datatype LayoutMode = Grid | FreeMode

record LayoutOptions =
  mode :: LayoutMode
  grid_columns :: nat
  grid_rows :: nat
  view_columns :: nat
  view_rows :: nat
  snap_threshold_cells :: nat

record WidgetInstance =
  inst_id :: "128 word"
  workspace_id :: "128 word"
  inst_position :: GridPosition
  inst_size :: WidgetSize

datatype widget_error =
    DoesNotFit WidgetSize nat nat
  | NoFreeSlot "128 word" WidgetSize
  | SpiralFailed WidgetSize
  | GrowthCap
  | InvalidPosition nat nat
  | PositionCollision "128 word"

definition MAX_GRID_ROWS :: nat where "MAX_GRID_ROWS = 512"
definition MAX_GRID_COLS :: nat where "MAX_GRID_COLS = 128"
definition MAX_ITERS :: nat where "MAX_ITERS = 1024"

definition default_options :: LayoutOptions where
  "default_options = \<lparr>mode = Grid, grid_columns = 16, grid_rows = 10, view_columns = 16, view_rows = 10,
     snap_threshold_cells = 1\<rparr>"

definition rects_for_excluding :: "WidgetInstance list \<Rightarrow> 128 word \<Rightarrow> 128 word option \<Rightarrow> CellRect list" where
  "rects_for_excluding instances ws ignore =
    map (\<lambda>i. from_widget (inst_position i) (inst_size i))
      (filter (\<lambda>i. workspace_id i = ws \<and> (case ignore of None \<Rightarrow> True | Some e \<Rightarrow> inst_id i \<noteq> e)) instances)"

definition rects_for :: "WidgetInstance list \<Rightarrow> 128 word \<Rightarrow> CellRect list" where
  "rects_for instances ws = rects_for_excluding instances ws None"

text \<open>The common body of \<open>auto_place\<close> and \<open>auto_place_excluding\<close>, which differ in the occupied set.\<close>

definition place_in ::
  "LayoutOptions \<Rightarrow> 128 word \<Rightarrow> WidgetSize \<Rightarrow> CellRect list \<Rightarrow> widget_error + GridPosition"
where
  "place_in opts ws sz occupied =
    (if \<not> fits_in_grid \<lparr>col = 0, row = 0\<rparr> sz (grid_columns opts) (grid_rows opts)
     then Inl (DoesNotFit sz (grid_columns opts) (grid_rows opts))
     else case mode opts of
       Grid \<Rightarrow>
         (case grid_first_fit sz (grid_columns opts) (grid_rows opts) occupied of
            Some p \<Rightarrow> Inr p | None \<Rightarrow> Inl (NoFreeSlot ws sz))
     | FreeMode \<Rightarrow>
         (case spiral_place sz (grid_columns opts) (grid_rows opts) occupied of
            Some p \<Rightarrow> Inr p | None \<Rightarrow> Inl (SpiralFailed sz)))"

definition auto_place ::
  "LayoutOptions \<Rightarrow> 128 word \<Rightarrow> WidgetSize \<Rightarrow> WidgetInstance list \<Rightarrow> widget_error + GridPosition"
where
  "auto_place opts ws sz existing = place_in opts ws sz (rects_for existing ws)"

definition auto_place_excluding ::
  "LayoutOptions \<Rightarrow> 128 word \<Rightarrow> WidgetSize \<Rightarrow> WidgetInstance list \<Rightarrow> 128 word \<Rightarrow> widget_error + GridPosition"
where
  "auto_place_excluding opts ws sz existing ignore_instance =
    place_in opts ws sz (rects_for_excluding existing ws (Some ignore_instance))"

text \<open>One growth step after a failure; \<open>None\<close> when no limit leaves room to grow.\<close>

definition grow :: "WidgetSize \<Rightarrow> LayoutOptions \<Rightarrow> LayoutOptions option" where
  "grow sz opts =
    (let (wc, hc) = size_in_cells sz;
         wider = (wc > grid_columns opts \<and> grid_columns opts < MAX_GRID_COLS);
         opts = (if wider then opts\<lparr>grid_columns := min wc MAX_GRID_COLS\<rparr> else opts);
         taller = (hc > grid_rows opts \<and> grid_rows opts < MAX_GRID_ROWS);
         opts = (if taller then opts\<lparr>grid_rows := min hc MAX_GRID_ROWS\<rparr> else opts);
         grew = (wider \<or> taller);
         more = (\<not> grew \<and> grid_rows opts < MAX_GRID_ROWS);
         opts = (if more then opts\<lparr>grid_rows := sat_add (grid_rows opts) 1\<rparr> else opts)
     in if \<not> (grew \<or> more) then None
        else Some (opts\<lparr>grid_columns := min (grid_columns opts) MAX_GRID_COLS,
                        grid_rows := min (grid_rows opts) MAX_GRID_ROWS\<rparr>))"

fun growth_loop ::
  "nat \<Rightarrow> LayoutOptions \<Rightarrow> 128 word \<Rightarrow> WidgetSize \<Rightarrow> WidgetInstance list \<Rightarrow> 128 word
    \<Rightarrow> LayoutOptions \<times> (widget_error + GridPosition)"
where
  "growth_loop 0 opts ws sz existing ign = (opts, Inl GrowthCap)"
| "growth_loop (Suc n) opts ws sz existing ign =
    (case auto_place_excluding opts ws sz existing ign of
       Inr p \<Rightarrow> (opts, Inr p)
     | Inl e \<Rightarrow>
         (case grow sz opts of
            None \<Rightarrow> (opts, Inl e)
          | Some opts' \<Rightarrow> growth_loop n opts' ws sz existing ign))"

definition auto_place_excluding_with_growth ::
  "LayoutOptions \<Rightarrow> 128 word \<Rightarrow> WidgetSize \<Rightarrow> WidgetInstance list \<Rightarrow> 128 word
    \<Rightarrow> LayoutOptions \<times> (widget_error + GridPosition)"
where
  "auto_place_excluding_with_growth opts ws sz existing ign =
    growth_loop MAX_ITERS opts ws sz existing ign"

fun first_collision :: "CellRect \<Rightarrow> 128 word \<Rightarrow> WidgetInstance list \<Rightarrow> widget_error + unit" where
  "first_collision rect inst [] = Inr ()"
| "first_collision rect inst (i # is) =
    (if inst_id i = inst then first_collision rect inst is
     else if overlaps rect (from_widget (inst_position i) (inst_size i)) then Inl (PositionCollision (inst_id i))
     else first_collision rect inst is)"

definition can_place ::
  "LayoutOptions \<Rightarrow> 128 word \<Rightarrow> 128 word \<Rightarrow> GridPosition \<Rightarrow> WidgetSize \<Rightarrow> WidgetInstance list \<Rightarrow> widget_error + unit"
where
  "can_place opts ws inst pos sz existing =
    (if \<not> fits_in_grid pos sz (grid_columns opts) (grid_rows opts) then Inl (InvalidPosition (col pos) (row pos))
     else first_collision (from_widget pos sz) inst existing)"

definition snap :: "LayoutOptions \<Rightarrow> GridPosition \<Rightarrow> WidgetSize \<Rightarrow> GridPosition \<times> WidgetSize" where
  "snap opts pos sz =
    (case mode opts of
       Grid \<Rightarrow> (snap_position pos sz (grid_columns opts) (grid_rows opts), sz)
     | FreeMode \<Rightarrow> (pos, sz))"

text \<open>The two functions that enlarge the grid around given extents.\<close>

definition grow_to :: "nat \<Rightarrow> nat \<Rightarrow> LayoutOptions \<Rightarrow> LayoutOptions" where
  "grow_to col_end row_end opts =
    (let opts = (if col_end > grid_columns opts then opts\<lparr>grid_columns := min col_end MAX_GRID_COLS\<rparr> else opts);
         opts = (if row_end > grid_rows opts then opts\<lparr>grid_rows := min row_end MAX_GRID_ROWS\<rparr> else opts)
     in opts)"

definition grow_grid_to_fit_placement :: "GridPosition \<Rightarrow> WidgetSize \<Rightarrow> LayoutOptions \<Rightarrow> LayoutOptions" where
  "grow_grid_to_fit_placement pos sz opts =
    (let (w, h) = size_in_cells sz
     in grow_to (sat_add (col pos) w) (sat_add (row pos) h) opts)"

definition grow_grid_to_fit_instances :: "128 word \<Rightarrow> WidgetInstance list \<Rightarrow> LayoutOptions \<Rightarrow> LayoutOptions" where
  "grow_grid_to_fit_instances ws instances opts =
    (let extents = map (\<lambda>i. from_widget (inst_position i) (inst_size i)) (filter (\<lambda>i. workspace_id i = ws) instances);
         max_col_end = fold (\<lambda>r m. max m (right r)) extents 0;
         max_row_end = fold (\<lambda>r m. max m (bottom r)) extents 0
     in grow_to max_col_end max_row_end opts)"

section \<open>Facts about cells and collisions\<close>

definition cells :: "CellRect \<Rightarrow> (nat \<times> nat) set" where
  "cells r = {left r..<right r} \<times> {top r..<bottom r}"

lemma disjoint_cells: "\<not> overlaps a b \<Longrightarrow> cells a \<inter> cells b = {}"
  by (auto simp: overlaps_def cells_def)

lemma overlaps_cells:
  "left a < right a \<Longrightarrow> top a < bottom a \<Longrightarrow> left b < right b \<Longrightarrow> top b < bottom b \<Longrightarrow>
   overlaps a b \<longleftrightarrow> cells a \<inter> cells b \<noteq> {}"
proof
  assume "left a < right a" "top a < bottom a" "left b < right b" "top b < bottom b" "overlaps a b"
  then have "(max (left a) (left b), max (top a) (top b)) \<in> cells a \<inter> cells b"
    by (auto simp: overlaps_def cells_def)
  then show "cells a \<inter> cells b \<noteq> {}" by blast
next
  assume "cells a \<inter> cells b \<noteq> {}"
  then show "overlaps a b" using disjoint_cells by blast
qed

lemma fits_corner:
  assumes "fits_in_grid \<lparr>col = 0, row = 0\<rparr> sz cols rows" and "size_in_cells sz = (w, h)"
    and "col p \<le> sat_sub cols w" and "row p \<le> sat_sub rows h"
  shows "fits_in_grid p sz cols rows"
  using assms by (auto simp: fits_in_grid_def sat_add_def sat_sub_def)

lemma fits_bounds:
  assumes "fits_in_grid p sz cols rows" and "size_in_cells sz = (w, h)" and "cols < u16_max" and "rows < u16_max"
  shows "col p + w \<le> cols" and "row p + h \<le> rows"
  using assms by (auto simp: fits_in_grid_def sat_add_def)

lemma snap_position_fits:
  "fits_in_grid \<lparr>col = 0, row = 0\<rparr> sz cols rows \<Longrightarrow> fits_in_grid (snap_position p sz cols rows) sz cols rows"
  by (cases "size_in_cells sz") (auto simp: snap_position_def intro: fits_corner)

section \<open>The contract of a slot search\<close>

locale slot_finder =
  fixes find_slot :: "WidgetSize \<Rightarrow> nat \<Rightarrow> nat \<Rightarrow> CellRect list \<Rightarrow> GridPosition option"
  assumes slot_sound: "fits_in_grid \<lparr>col = 0, row = 0\<rparr> sz cols rows \<Longrightarrow> find_slot sz cols rows occ = Some p \<Longrightarrow>
    fits_in_grid p sz cols rows \<and> \<not> collides p sz occ"
begin

lemma slot_disjoint:
  assumes "fits_in_grid \<lparr>col = 0, row = 0\<rparr> sz cols rows" and "find_slot sz cols rows occ = Some p" and "r \<in> set occ"
  shows "cells (from_widget p sz) \<inter> cells r = {}"
  using slot_sound [OF assms(1,2)] assms(3) by (intro disjoint_cells) (auto simp: collides_def list_ex_iff)

end

definition corners :: "nat \<Rightarrow> nat \<Rightarrow> GridPosition list" where
  "corners cs rs = [\<lparr>col = c, row = r\<rparr>. r \<leftarrow> [0..<rs], c \<leftarrow> [0..<cs]]"

lemma set_corners: "p \<in> set (corners cs rs) \<longleftrightarrow> col p < cs \<and> row p < rs"
proof
  assume "col p < cs \<and> row p < rs"
  then show "p \<in> set (corners cs rs)"
    by (auto simp: corners_def intro!: bexI [of _ "row p"] image_eqI [of _ _ "col p"])
qed (auto simp: corners_def)

lemma grid_first_fit_corners:
  "size_in_cells sz = (w, h) \<Longrightarrow> grid_first_fit sz cols rows occ =
    find (\<lambda>p. \<not> collides p sz occ) (corners (Suc (sat_sub cols w)) (Suc (sat_sub rows h)))"
  by (simp only: grid_first_fit_def corners_def collides_def Let_def prod.case)

interpretation first_fit: slot_finder grid_first_fit
proof
  fix sz cols rows occ p
  assume fits: "fits_in_grid \<lparr>col = 0, row = 0\<rparr> sz cols rows" and p: "grid_first_fit sz cols rows occ = Some p"
  obtain w h where wh: "size_in_cells sz = (w, h)" by fastforce
  from p have "p \<in> set (corners (Suc (sat_sub cols w)) (Suc (sat_sub rows h)))" "\<not> collides p sz occ"
    by (auto simp: grid_first_fit_corners [OF wh] find_Some_iff)
  then show "fits_in_grid p sz cols rows \<and> \<not> collides p sz occ"
    using fits_corner [OF fits wh, of p] by (auto simp: set_corners)
qed

lemma spiral_run_found:
  "spiral_run free mc mr dir n at = Inl p \<Longrightarrow> free p \<and> int (col p) \<le> mc \<and> int (row p) \<le> mr"
  by (induction n arbitrary: at) (auto simp: Let_def split: if_splits)

lemma spiral_dirs_found:
  "spiral_dirs free mc mr dirs leg at = Inl p \<Longrightarrow> free p \<and> int (col p) \<le> mc \<and> int (row p) \<le> mr"
  by (induction dirs arbitrary: leg at) (auto split: sum.splits dest: spiral_run_found)

lemma spiral_rounds_found:
  "spiral_rounds free mc mr n leg at = Some p \<Longrightarrow> free p \<and> int (col p) \<le> mc \<and> int (row p) \<le> mr"
  by (induction n arbitrary: leg at)
    (auto simp del: spiral_dirs.simps split: sum.splits dest: spiral_dirs_found)

interpretation spiral: slot_finder spiral_place
proof
  fix sz cols rows occ p
  assume fits: "fits_in_grid \<lparr>col = 0, row = 0\<rparr> sz cols rows" and p: "spiral_place sz cols rows occ = Some p"
  obtain w h where wh: "size_in_cells sz = (w, h)" by fastforce
  have "\<not> collides p sz occ \<and> col p \<le> sat_sub cols w \<and> row p \<le> sat_sub rows h"
    using p fits by (auto simp: spiral_place_def wh Let_def split: if_splits dest: spiral_rounds_found)
  then show "fits_in_grid p sz cols rows \<and> \<not> collides p sz occ"
    using fits_corner [OF fits wh, of p] by simp
qed

text \<open>First fit misses nothing on a grid whose size is below the saturation bound.\<close>

lemma first_fit_None:
  assumes "grid_first_fit sz cols rows occ = None" and "fits_in_grid p sz cols rows"
    and "cols < u16_max" and "rows < u16_max"
  shows "collides p sz occ"
proof -
  obtain w h where wh: "size_in_cells sz = (w, h)" by fastforce
  have "p \<in> set (corners (Suc (sat_sub cols w)) (Suc (sat_sub rows h)))"
    using fits_bounds [OF assms(2) wh assms(3,4)] by (auto simp: set_corners sat_sub_def)
  then show ?thesis using assms(1) by (auto simp: grid_first_fit_corners [OF wh] find_None_iff)
qed

definition row_major :: "GridPosition \<Rightarrow> GridPosition \<Rightarrow> bool" where
  "row_major p q \<longleftrightarrow> row p < row q \<or> row p = row q \<and> col p \<le> col q"

lemma sorted_corners: "sorted_wrt row_major (corners cs rs)"
proof (induction rs)
  case (Suc rs)
  have "corners cs (Suc rs) = corners cs rs @ map (\<lambda>c. \<lparr>col = c, row = rs\<rparr>) [0..<cs]"
    by (simp add: corners_def)
  moreover have "sorted_wrt row_major (map (\<lambda>c. \<lparr>col = c, row = rs\<rparr>) [0..<cs])"
    by (simp add: sorted_wrt_map row_major_def)
  moreover have "row_major p q" if "p \<in> set (corners cs rs)" "q \<in> set (map (\<lambda>c. \<lparr>col = c, row = rs\<rparr>) [0..<cs])" for p q
    using that by (auto simp: set_corners row_major_def)
  ultimately show ?case
    using Suc by (simp add: sorted_wrt_append)
qed (simp add: corners_def)

lemma find_split: "find P xs = Some x \<Longrightarrow> \<exists>ys zs. xs = ys @ x # zs \<and> P x \<and> (\<forall>y \<in> set ys. \<not> P y)"
proof (induction xs)
  case (Cons a xs)
  show ?case
  proof (cases "P a")
    case True
    then show ?thesis using Cons.prems by (intro exI [of _ "[]"] exI [of _ xs]) simp
  next
    case False
    then obtain ys zs where "xs = ys @ x # zs" "P x" "\<forall>y \<in> set ys. \<not> P y" using Cons by auto
    then show ?thesis using False by (intro exI [of _ "a # ys"] exI [of _ zs]) simp
  qed
qed simp

lemma first_fit_first:
  assumes "grid_first_fit sz cols rows occ = Some p" and "fits_in_grid q sz cols rows" and "\<not> collides q sz occ"
    and "cols < u16_max" and "rows < u16_max"
  shows "row_major p q"
proof -
  obtain w h where wh: "size_in_cells sz = (w, h)" by fastforce
  let ?cs = "corners (Suc (sat_sub cols w)) (Suc (sat_sub rows h))"
  obtain ys zs where split: "?cs = ys @ p # zs" "\<forall>y \<in> set ys. collides y sz occ"
    using assms(1) find_split by (force simp: grid_first_fit_corners [OF wh])
  have "q \<in> set ?cs"
    using fits_bounds [OF assms(2) wh assms(4,5)] by (auto simp: set_corners sat_sub_def)
  then have "q = p \<or> q \<in> set zs" using split assms(3) by auto
  then show ?thesis
    using sorted_corners [of "Suc (sat_sub cols w)" "Suc (sat_sub rows h)"]
    by (auto simp: split(1) sorted_wrt_append row_major_def)
qed

section \<open>Automatic placement\<close>

lemma place_in_Inr:
  "place_in opts ws sz occ = Inr p \<Longrightarrow>
   fits_in_grid \<lparr>col = 0, row = 0\<rparr> sz (grid_columns opts) (grid_rows opts)
   \<and> (grid_first_fit sz (grid_columns opts) (grid_rows opts) occ = Some p
      \<or> spiral_place sz (grid_columns opts) (grid_rows opts) occ = Some p)"
  by (simp add: place_in_def split: if_splits LayoutMode.splits option.splits)

lemma place_in_sound:
  assumes "place_in opts ws sz occ = Inr p"
  shows "fits_in_grid p sz (grid_columns opts) (grid_rows opts)"
    and "r \<in> set occ \<Longrightarrow> cells (from_widget p sz) \<inter> cells r = {}"
  using place_in_Inr [OF assms] first_fit.slot_sound spiral.slot_sound first_fit.slot_disjoint spiral.slot_disjoint
  by metis+

lemma place_in_grid_fails:
  assumes "place_in opts ws sz occ = Inl e" and "mode opts = Grid"
    and "fits_in_grid p sz (grid_columns opts) (grid_rows opts)"
    and "grid_columns opts < u16_max" and "grid_rows opts < u16_max"
  shows "collides p sz occ"
proof -
  obtain w h where wh: "size_in_cells sz = (w, h)" by fastforce
  have "fits_in_grid \<lparr>col = 0, row = 0\<rparr> sz (grid_columns opts) (grid_rows opts)"
    using fits_bounds [OF assms(3) wh assms(4,5)] by (auto simp: fits_in_grid_def wh sat_add_def)
  then show ?thesis
    using assms first_fit_None by (auto simp: place_in_def split: option.splits)
qed

text \<open>The number of growth steps that are still possible.\<close>

definition steps_left :: "WidgetSize \<Rightarrow> LayoutOptions \<Rightarrow> nat" where
  "steps_left sz opts =
    (MAX_GRID_ROWS - grid_rows opts)
    + (if fst (size_in_cells sz) > grid_columns opts \<or> snd (size_in_cells sz) > grid_rows opts then 1 else 0)"

definition within_limits :: "LayoutOptions \<Rightarrow> bool" where
  "within_limits opts \<longleftrightarrow> grid_columns opts \<le> MAX_GRID_COLS \<and> grid_rows opts \<le> MAX_GRID_ROWS"

lemmas grid_limits = within_limits_def MAX_GRID_COLS_def MAX_GRID_ROWS_def u16_max_def

lemma grow_step:
  assumes "within_limits opts" and "size_in_cells sz = (w, h)" and "w \<le> MAX_GRID_COLS" and "h \<le> MAX_GRID_ROWS"
    and "grid_rows opts < MAX_GRID_ROWS \<or> w > grid_columns opts"
  obtains opts' where "grow sz opts = Some opts'" "within_limits opts'" "mode opts' = mode opts"
    "steps_left sz opts' < steps_left sz opts"
proof -
  consider "w > grid_columns opts" "h > grid_rows opts" | "w > grid_columns opts" "\<not> h > grid_rows opts"
    | "\<not> w > grid_columns opts" "h > grid_rows opts" | "\<not> w > grid_columns opts" "\<not> h > grid_rows opts"
    by blast
  then show thesis
    by cases (rule that, use assms in \<open>simp add: grow_def Let_def\<close>;
      use assms in \<open>auto simp: grow_def grid_limits steps_left_def sat_add_def\<close>)+
qed

lemma growth_loop_succeeds:
  assumes "size_in_cells sz = (w, h)" and "w \<le> MAX_GRID_COLS" and "h \<le> MAX_GRID_ROWS"
    and "\<forall>r \<in> set (rects_for_excluding existing ws (Some ign)). bottom r \<le> MAX_GRID_ROWS - h"
  shows "within_limits opts \<Longrightarrow> mode opts = Grid \<Longrightarrow> steps_left sz opts < n \<Longrightarrow>
    \<exists>opts' p. growth_loop n opts ws sz existing ign = (opts', Inr p) \<and> within_limits opts'
      \<and> auto_place_excluding opts' ws sz existing ign = Inr p"
proof (induction n arbitrary: opts)
  case (Suc n)
  let ?occ = "rects_for_excluding existing ws (Some ign)"
  show ?case
  proof (cases "auto_place_excluding opts ws sz existing ign")
    case (Inr p)
    then show ?thesis using Suc.prems by simp
  next
    case (Inl e)
    have "grid_rows opts < MAX_GRID_ROWS \<or> w > grid_columns opts"
    proof (rule ccontr)
      assume "\<not> ?thesis"
      then have full: "grid_rows opts = MAX_GRID_ROWS" "w \<le> grid_columns opts"
        using Suc.prems(1) by (auto simp: within_limits_def)
      let ?p = "\<lparr>col = 0, row = MAX_GRID_ROWS - h\<rparr>"
      have "fits_in_grid ?p sz (grid_columns opts) (grid_rows opts)"
        using full assms(1,3) by (auto simp: fits_in_grid_def sat_add_def)
      then have "collides ?p sz ?occ"
        using place_in_grid_fails [of opts ws sz ?occ e ?p] Inl Suc.prems full
        by (simp add: auto_place_excluding_def grid_limits)
      then show False
        using assms(4) by (auto simp: collides_def list_ex_iff overlaps_def from_widget_def assms(1))
    qed
    then obtain opts' where "grow sz opts = Some opts'" "within_limits opts'" "mode opts' = mode opts"
      "steps_left sz opts' < steps_left sz opts"
      using grow_step [OF Suc.prems(1) assms(1-3)] by blast
    then show ?thesis using Suc Inl by simp
  qed
qed simp

section \<open>Properties\<close>

text \<open>
  Automatic placement, in grid and in free mode, returns a slot inside the grid that shares no
  cell with any other widget of the workspace.
\<close>

theorem auto_place_sound:
  assumes "auto_place opts ws sz existing = Inr p"
  shows "fits_in_grid p sz (grid_columns opts) (grid_rows opts)
    \<and> (\<forall>i \<in> set existing. workspace_id i = ws \<longrightarrow>
        cells (from_widget p sz) \<inter> cells (from_widget (inst_position i) (inst_size i)) = {})"
  using place_in_sound [OF assms [unfolded auto_place_def]]
  by (auto simp: rects_for_def rects_for_excluding_def)

definition sample_instance :: WidgetInstance where
  "sample_instance = \<lparr>inst_id = 1, workspace_id = 7, inst_position = \<lparr>col = 0, row = 0\<rparr>, inst_size = Small\<rparr>"

lemma sample_auto_place: "auto_place default_options 7 Small [sample_instance] = Inr \<lparr>col = 2, row = 0\<rparr>"
  by (simp add: auto_place_def place_in_def default_options_def grid_first_fit_def rects_for_def rects_for_excluding_def
      sample_instance_def from_widget_def overlaps_def fits_in_grid_def sat_add_def sat_sub_def u16_max_def upt_rec)

theorem auto_place_sound_witness:
  "cells (from_widget \<lparr>col = 2, row = 0\<rparr> Small) \<inter> cells (from_widget \<lparr>col = 0, row = 0\<rparr> Small) = {}"
  using auto_place_sound [OF sample_auto_place] by (simp add: sample_instance_def)

text \<open>
  In grid mode placement is complete and takes the first free slot in row-major order: it fails
  only when every slot that fits collides.
\<close>

theorem auto_place_first_fit:
  assumes "mode opts = Grid" and "grid_columns opts < u16_max" and "grid_rows opts < u16_max"
    and "fits_in_grid q sz (grid_columns opts) (grid_rows opts)" and "\<not> collides q sz (rects_for existing ws)"
  shows "\<exists>p. auto_place opts ws sz existing = Inr p \<and> row_major p q"
proof -
  obtain p where p: "place_in opts ws sz (rects_for existing ws) = Inr p"
    using place_in_grid_fails [OF _ assms(1,4,2,3)] assms(5) by (metis sum.exhaust)
  then have "grid_first_fit sz (grid_columns opts) (grid_rows opts) (rects_for existing ws) = Some p"
    using assms(1) by (auto simp: place_in_def split: if_splits option.splits)
  then show ?thesis
    using p first_fit_first [OF _ assms(4,5,2,3)] by (auto simp: auto_place_def)
qed

theorem auto_place_first_fit_witness:
  "\<exists>p. auto_place default_options 7 Small [sample_instance] = Inr p \<and> row_major p \<lparr>col = 4, row = 4\<rparr>"
  by (rule auto_place_first_fit)
    (simp_all add: default_options_def u16_max_def fits_in_grid_def sat_add_def collides_def rects_for_def
      rects_for_excluding_def sample_instance_def from_widget_def overlaps_def)

text \<open>
  Placement with growth succeeds in grid mode for every widget of at most 128 by 512 cells as
  long as the other widgets leave its height free above the row limit: the loop needs at most 513
  growth steps, so its cap of 1024 rounds is never reached.  The slot is valid in the grown grid,
  which stays within the limits.
\<close>

theorem growth_succeeds:
  assumes "mode opts = Grid" and "within_limits opts"
    and "fst (size_in_cells sz) \<le> MAX_GRID_COLS" and "snd (size_in_cells sz) \<le> MAX_GRID_ROWS"
    and "\<forall>r \<in> set (rects_for_excluding existing ws (Some ign)). bottom r \<le> MAX_GRID_ROWS - snd (size_in_cells sz)"
  shows "\<exists>opts' p. auto_place_excluding_with_growth opts ws sz existing ign = (opts', Inr p) \<and> within_limits opts'
    \<and> fits_in_grid p sz (grid_columns opts') (grid_rows opts')
    \<and> (\<forall>i \<in> set existing. workspace_id i = ws \<and> inst_id i \<noteq> ign \<longrightarrow>
        cells (from_widget p sz) \<inter> cells (from_widget (inst_position i) (inst_size i)) = {})"
proof -
  obtain w h where wh: "size_in_cells sz = (w, h)" by fastforce
  have "steps_left sz opts < MAX_ITERS" by (auto simp: steps_left_def MAX_ITERS_def MAX_GRID_ROWS_def)
  then obtain opts' p where "growth_loop MAX_ITERS opts ws sz existing ign = (opts', Inr p)" "within_limits opts'"
    "auto_place_excluding opts' ws sz existing ign = Inr p"
    using growth_loop_succeeds [OF wh _ _ assms(5) [unfolded wh snd_conv] assms(2,1)] assms(3,4)
    unfolding wh fst_conv snd_conv by blast
  note loop = this
  then have placed: "place_in opts' ws sz (rects_for_excluding existing ws (Some ign)) = Inr p"
    by (simp add: auto_place_excluding_def)
  have "cells (from_widget p sz) \<inter> cells (from_widget (inst_position i) (inst_size i)) = {}"
    if "i \<in> set existing" "workspace_id i = ws \<and> inst_id i \<noteq> ign" for i
    using that by (intro place_in_sound(2) [OF placed]) (simp add: rects_for_excluding_def)
  then show ?thesis
    using loop place_in_sound(1) [OF placed] unfolding auto_place_excluding_with_growth_def by blast
qed

theorem growth_succeeds_witness:
  "\<exists>opts' p. auto_place_excluding_with_growth (default_options\<lparr>grid_rows := 1\<rparr>) 7 Large [sample_instance] 9 = (opts', Inr p)"
  using growth_succeeds [of "default_options\<lparr>grid_rows := 1\<rparr>" Large "[sample_instance]" 7 9]
  by (auto simp: default_options_def grid_limits rects_for_excluding_def sample_instance_def from_widget_def sat_add_def)

lemma spiral_run_odd:
  assumes "odd (fst at)" and "\<forall>p. odd (col p) \<and> col p \<le> 2 \<and> row p = 0 \<longrightarrow> \<not> free p"
  shows "\<exists>at'. spiral_run free 2 0 dir n at = Inr at' \<and> odd (fst at')"
  using assms(1)
proof (induction n arbitrary: at)
  case (Suc n)
  let ?c = "fst at + fst dir * 2" and ?r = "snd at + snd dir * 2"
  have c: "odd ?c" using Suc.prems by simp
  have "\<not> free \<lparr>col = nat ?c, row = nat ?r\<rparr>" if "0 \<le> ?c" "?c \<le> 2" "0 \<le> ?r" "?r \<le> 0"
    using assms(2) that c by (simp add: even_nat_iff nat_le_iff)
  then show ?case using Suc.IH [of "(?c, ?r)"] c by (auto simp: Let_def)
qed simp

text \<open>
  The spiral search does not find every free slot: it walks in strides of two cells from the
  middle of the grid, so on a grid of four by two cells with a small widget on the right it reports
  no room for a second one although the left half is free.
\<close>

theorem spiral_misses_slot:
  "spiral_place Small 4 2 [from_widget \<lparr>col = 2, row = 0\<rparr> Small] = None
   \<and> fits_in_grid \<lparr>col = 0, row = 0\<rparr> Small 4 2
   \<and> \<not> collides \<lparr>col = 0, row = 0\<rparr> Small [from_widget \<lparr>col = 2, row = 0\<rparr> Small]"
proof -
  let ?occ = "[from_widget \<lparr>col = 2, row = 0\<rparr> Small]"
  have odd_dirs: "odd (fst at) \<Longrightarrow> (\<forall>p. odd (col p) \<and> col p \<le> 2 \<and> row p = 0 \<longrightarrow> \<not> free p) \<Longrightarrow>
    \<exists>leg' at'. spiral_dirs free 2 0 dirs leg at = Inr (leg', at') \<and> odd (fst at')" for free dirs leg at
  proof (induction dirs arbitrary: leg at)
    case (Cons dir dirs)
    then show ?case using spiral_run_odd [of at free dir leg] by fastforce
  qed simp
  have odd_rounds: "odd (fst at) \<Longrightarrow> (\<forall>p. odd (col p) \<and> col p \<le> 2 \<and> row p = 0 \<longrightarrow> \<not> free p) \<Longrightarrow>
    spiral_rounds free 2 0 n leg at = None" for free n leg at
  proof (induction n arbitrary: leg at)
    case (Suc n)
    then show ?case
      using odd_dirs [OF Suc.prems, of "[(1, 0), (0, 1), (-1, 0), (0, -1)]" leg]
      by (auto simp del: spiral_dirs.simps)
  qed simp
  have blocked: "collides p Small ?occ" if "odd (col p)" "col p \<le> 2" "row p = 0" for p
  proof -
    have "col p = 1" using that by (cases "col p"; auto simp: le_Suc_eq numeral_2_eq_2)
    then show ?thesis using that by (simp add: collides_def from_widget_def overlaps_def sat_add_def u16_max_def)
  qed
  have "spiral_place Small 4 2 ?occ = None"
    using blocked odd_rounds [of "(1, 0)" "\<lambda>p. \<not> collides p Small ?occ" 8 1]
    by (simp add: spiral_place_def sat_sub_def fits_in_grid_def sat_add_def u16_max_def)
  then show ?thesis
    by (simp add: fits_in_grid_def collides_def from_widget_def overlaps_def sat_add_def u16_max_def)
qed

end
