(* ===== verification/Widget_Group.thy ===== *)
theory Widget_Group
  imports Widget_Layout "HOL-Library.AList"
begin

text \<open>
  Widget groups (crates/orchid-widgets/src/group/mod.rs): tab stacks that share a layout slot, and
  the manager that owns them.  The concurrent maps of the manager are association lists.  The
  database table is part of the manager state; whether a transaction commits is the argument
  \<open>io_ok\<close> of the operations that write, because a failed write is reported only after the change in
  memory was made.  Published events are appended to a log.  The active index is a \<open>u16\<close>: a cast is
  written as a remainder.
\<close>

section \<open>One group\<close>

record WidgetGroup =
  group_id :: "128 word"
  group_workspace :: "128 word"
  members :: "128 word list"
  active_member :: nat
  group_position :: GridPosition
  group_size :: WidgetSize
  created_at :: int

datatype group_error =
    GroupNotFound "128 word"
  | WidgetNotInGroup
  | GroupMoveError nat nat nat
  | GroupStorage

definition as_u16 :: "nat \<Rightarrow> nat" where
  "as_u16 n = n mod 65536"

definition group_new ::
  "128 word \<Rightarrow> int \<Rightarrow> 128 word \<Rightarrow> GridPosition \<Rightarrow> WidgetSize \<Rightarrow> WidgetGroup"
where
  "group_new new_id now ws pos sz =
    \<lparr>group_id = new_id, group_workspace = ws, members = [], active_member = 0, group_position = pos,
     group_size = sz, created_at = now\<rparr>"

definition add_member :: "128 word \<Rightarrow> WidgetGroup \<Rightarrow> WidgetGroup" where
  "add_member i g = (if i \<notin> set (members g) then g\<lparr>members := members g @ [i]\<rparr> else g)"

definition remove_member :: "128 word \<Rightarrow> WidgetGroup \<Rightarrow> group_error + WidgetGroup" where
  "remove_member i g =
    (case position (\<lambda>m. m = i) (members g) of
       None \<Rightarrow> Inl WidgetNotInGroup
     | Some idx \<Rightarrow>
         let g = g\<lparr>members := remove_at idx (members g)\<rparr>
         in Inr (if length (members g) \<le> active_member g
                 then g\<lparr>active_member := as_u16 (length (members g) - 1)\<rparr> else g))"

definition active_instance :: "WidgetGroup \<Rightarrow> 128 word option" where
  "active_instance g = get_at (members g) (active_member g)"

definition reorder :: "nat \<Rightarrow> nat \<Rightarrow> WidgetGroup \<Rightarrow> group_error + WidgetGroup" where
  "reorder from to g =
    (if length (members g) \<le> from \<or> length (members g) \<le> to then Inl (GroupMoveError from to (length (members g)))
     else let active_id = active_instance g;
              g = g\<lparr>members := insert_at to (members g ! from) (remove_at from (members g))\<rparr>
          in Inr (case active_id of
               None \<Rightarrow> g
             | Some i \<Rightarrow>
                 (case position (\<lambda>m. m = i) (members g) of
                    None \<Rightarrow> g
                  | Some idx \<Rightarrow> g\<lparr>active_member := as_u16 idx\<rparr>)))"

definition activate :: "128 word \<Rightarrow> WidgetGroup \<Rightarrow> group_error + WidgetGroup" where
  "activate i g =
    (case position (\<lambda>m. m = i) (members g) of
       None \<Rightarrow> Inl WidgetNotInGroup
     | Some idx \<Rightarrow> Inr (g\<lparr>active_member := as_u16 idx\<rparr>))"

section \<open>The manager\<close>

datatype group_event =
    GroupCreated "128 word" "128 word"
  | GroupDissolved "128 word"
  | GroupActiveChanged "128 word" "128 word"

record GroupManager =
  groups :: "(128 word \<times> WidgetGroup) list"
  by_workspace :: "(128 word \<times> 128 word list) list"
  by_instance :: "(128 word \<times> 128 word) list"
  table :: "(128 word \<times> WidgetGroup) list"
  published :: "group_event list"

definition manager_new :: "(128 word \<times> WidgetGroup) list \<Rightarrow> GroupManager" where
  "manager_new stored = \<lparr>groups = [], by_workspace = [], by_instance = [], table = stored, published = []\<rparr>"

definition ids_on :: "GroupManager \<Rightarrow> 128 word \<Rightarrow> 128 word list" where
  "ids_on m ws = (case map_of (by_workspace m) ws of None \<Rightarrow> [] | Some s \<Rightarrow> s)"

definition index_group :: "WidgetGroup \<Rightarrow> GroupManager \<Rightarrow> GroupManager" where
  "index_group g m =
    m\<lparr>by_workspace := AList.update (group_workspace g)
         (List.insert (group_id g) (ids_on m (group_workspace g))) (by_workspace m),
      by_instance := fold (\<lambda>i. AList.update i (group_id g)) (members g) (by_instance m)\<rparr>"

definition unindex_group :: "WidgetGroup \<Rightarrow> GroupManager \<Rightarrow> GroupManager" where
  "unindex_group g m =
    m\<lparr>by_workspace :=
        (case map_of (by_workspace m) (group_workspace g) of
           None \<Rightarrow> by_workspace m
         | Some s \<Rightarrow> AList.update (group_workspace g) (removeAll (group_id g) s) (by_workspace m)),
      by_instance := fold (\<lambda>i b. if map_of b i = Some (group_id g) then AList.delete i b else b)
        (members g) (by_instance m)\<rparr>"

text \<open>Indexing a group and putting it into the memory map.\<close>

definition install_group :: "WidgetGroup \<Rightarrow> GroupManager \<Rightarrow> GroupManager" where
  "install_group g m = (let m = index_group g m in m\<lparr>groups := AList.update (group_id g) g (groups m)\<rparr>)"

text \<open>
  Restoring reads the table in key order.  \<open>fails_at\<close> says after how many entries the read
  transaction reports an error, if it does; the entries before are loaded by then.
\<close>

definition restore_from_storage :: "nat option \<Rightarrow> GroupManager \<Rightarrow> GroupManager \<times> (group_error + nat)" where
  "restore_from_storage fails_at m =
    (let stored = map snd (sort_key fst (table m))
     in case fails_at of
          None \<Rightarrow> (fold install_group stored m, Inr (length stored))
        | Some k \<Rightarrow> (fold install_group (take k stored) m, Inl GroupStorage))"

definition persist :: "bool \<Rightarrow> WidgetGroup \<Rightarrow> GroupManager \<Rightarrow> GroupManager \<times> (group_error + unit)" where
  "persist io_ok g m =
    (if io_ok then (m\<lparr>table := AList.update (group_id g) g (table m)\<rparr>, Inr ()) else (m, Inl GroupStorage))"

definition delete_persisted :: "bool \<Rightarrow> 128 word \<Rightarrow> GroupManager \<Rightarrow> GroupManager \<times> (group_error + unit)" where
  "delete_persisted io_ok i m =
    (if io_ok then (m\<lparr>table := AList.delete i (table m)\<rparr>, Inr ()) else (m, Inl GroupStorage))"

definition create_group ::
  "bool \<Rightarrow> 128 word \<Rightarrow> int \<Rightarrow> 128 word \<Rightarrow> 128 word list \<Rightarrow> GridPosition \<Rightarrow> WidgetSize \<Rightarrow> GroupManager
    \<Rightarrow> GroupManager \<times> (group_error + 128 word)"
where
  "create_group io_ok new_id now ws ms pos sz m =
    (let g = fold add_member ms (group_new new_id now ws pos sz)
     in case persist io_ok g m of
          (m, Inl e) \<Rightarrow> (m, Inl e)
        | (m, Inr _) \<Rightarrow>
            let m = install_group g m
            in (m\<lparr>published := published m @ [GroupCreated new_id ws]\<rparr>, Inr new_id))"

definition dissolve_group ::
  "bool \<Rightarrow> 128 word \<Rightarrow> GroupManager \<Rightarrow> GroupManager \<times> (group_error + 128 word list)"
where
  "dissolve_group io_ok i m =
    (case map_of (groups m) i of
       None \<Rightarrow> (m, Inl (GroupNotFound i))
     | Some g \<Rightarrow>
         (case delete_persisted io_ok i (unindex_group g (m\<lparr>groups := AList.delete i (groups m)\<rparr>)) of
            (m, Inl e) \<Rightarrow> (m, Inl e)
          | (m, Inr _) \<Rightarrow> (m\<lparr>published := published m @ [GroupDissolved i]\<rparr>, Inr (members g))))"

text \<open>Writing a changed group back to memory and then to the table.\<close>

definition store_group :: "bool \<Rightarrow> WidgetGroup \<Rightarrow> 128 word \<Rightarrow> GroupManager \<Rightarrow> GroupManager \<times> (group_error + unit)" where
  "store_group io_ok g i m = persist io_ok g (m\<lparr>groups := AList.update i g (groups m)\<rparr>)"

definition add_to_group ::
  "bool \<Rightarrow> 128 word \<Rightarrow> 128 word \<Rightarrow> GroupManager \<Rightarrow> GroupManager \<times> (group_error + unit)"
where
  "add_to_group io_ok gid i m =
    (case map_of (groups m) gid of
       None \<Rightarrow> (m, Inl (GroupNotFound gid))
     | Some g \<Rightarrow> store_group io_ok (add_member i g) gid (m\<lparr>by_instance := AList.update i gid (by_instance m)\<rparr>))"

definition remove_from_group ::
  "bool \<Rightarrow> 128 word \<Rightarrow> 128 word \<Rightarrow> GroupManager \<Rightarrow> GroupManager \<times> (group_error + unit)"
where
  "remove_from_group io_ok gid i m =
    (case map_of (groups m) gid of
       None \<Rightarrow> (m, Inl (GroupNotFound gid))
     | Some g \<Rightarrow>
         (case remove_member i g of
            Inl e \<Rightarrow> (m, Inl e)
          | Inr g' \<Rightarrow> store_group io_ok g' gid (m\<lparr>by_instance := AList.delete i (by_instance m)\<rparr>)))"

definition switch_active ::
  "bool \<Rightarrow> 128 word \<Rightarrow> 128 word \<Rightarrow> GroupManager \<Rightarrow> GroupManager \<times> (group_error + unit)"
where
  "switch_active io_ok gid i m =
    (case map_of (groups m) gid of
       None \<Rightarrow> (m, Inl (GroupNotFound gid))
     | Some g \<Rightarrow>
         (case activate i g of
            Inl e \<Rightarrow> (m, Inl e)
          | Inr g' \<Rightarrow>
              (case store_group io_ok g' gid m of
                 (m, Inl e) \<Rightarrow> (m, Inl e)
               | (m, Inr _) \<Rightarrow> (m\<lparr>published := published m @ [GroupActiveChanged gid i]\<rparr>, Inr ()))))"

definition update_slot ::
  "bool \<Rightarrow> 128 word \<Rightarrow> GridPosition \<Rightarrow> WidgetSize \<Rightarrow> GroupManager \<Rightarrow> GroupManager \<times> (group_error + unit)"
where
  "update_slot io_ok gid pos sz m =
    (case map_of (groups m) gid of
       None \<Rightarrow> (m, Inl (GroupNotFound gid))
     | Some g \<Rightarrow> store_group io_ok (g\<lparr>group_position := pos, group_size := sz\<rparr>) gid m)"

definition reorder_members ::
  "bool \<Rightarrow> 128 word \<Rightarrow> nat \<Rightarrow> nat \<Rightarrow> GroupManager \<Rightarrow> GroupManager \<times> (group_error + unit)"
where
  "reorder_members io_ok gid from to m =
    (case map_of (groups m) gid of
       None \<Rightarrow> (m, Inl (GroupNotFound gid))
     | Some g \<Rightarrow>
         (case reorder from to g of
            Inl e \<Rightarrow> (m, Inl e)
          | Inr g' \<Rightarrow> store_group io_ok g' gid m))"

definition get_group :: "GroupManager \<Rightarrow> 128 word \<Rightarrow> group_error + WidgetGroup" where
  "get_group m gid = (case map_of (groups m) gid of None \<Rightarrow> Inl (GroupNotFound gid) | Some g \<Rightarrow> Inr g)"

definition list_for_workspace :: "GroupManager \<Rightarrow> 128 word \<Rightarrow> WidgetGroup list" where
  "list_for_workspace m ws = List.map_filter (map_of (groups m)) (ids_on m ws)"

definition find_for_instance :: "GroupManager \<Rightarrow> 128 word \<Rightarrow> WidgetGroup option" where
  "find_for_instance m i = (case map_of (by_instance m) i of None \<Rightarrow> None | Some gid \<Rightarrow> map_of (groups m) gid)"

definition list_all_groups :: "GroupManager \<Rightarrow> WidgetGroup list" where
  "list_all_groups m = map snd (groups m)"

section \<open>Group invariant\<close>

definition group_ok :: "WidgetGroup \<Rightarrow> bool" where
  "group_ok g \<longleftrightarrow> distinct (members g) \<and> (members g = [] \<and> active_member g = 0 \<or> active_member g < length (members g))"

lemma as_u16_less: "n < k \<Longrightarrow> as_u16 n < k"
  unfolding as_u16_def by (meson le_less_trans mod_less_eq_dividend)

lemma as_u16_id: "n < 65536 \<Longrightarrow> as_u16 n = n"
  by (simp add: as_u16_def)

lemma group_ok_new: "group_ok (group_new i now ws p s)"
  by (simp add: group_ok_def group_new_def)

lemma group_ok_add: "group_ok g \<Longrightarrow> group_ok (add_member i g)"
  by (auto simp: group_ok_def add_member_def)

lemma group_ok_fold_add: "group_ok g \<Longrightarrow> group_ok (fold add_member ms g)"
  by (induction ms arbitrary: g) (simp_all add: group_ok_add)

lemma group_ok_remove:
  assumes "group_ok g" and "remove_member i g = Inr g'"
  shows "group_ok g'" and "set (members g') = set (members g) - {i}" and "group_id g' = group_id g"
proof -
  obtain k where k: "k < length (members g)" "members g ! k = i" "members g' = remove_at k (members g)"
    and act: "active_member g' = (if length (members g) - 1 \<le> active_member g
        then as_u16 (length (members g) - 2) else active_member g)"
    using assms(2) by (auto simp: remove_member_def Let_def vec_simps numeral_2_eq_2 split: option.splits if_splits
        dest!: position_SomeD)
  show "set (members g') = set (members g) - {i}"
    using assms(1) k by (simp add: group_ok_def vec_simps)
  have len: "length (members g') = length (members g) - 1" using k by (simp add: vec_simps)
  have "active_member g' < length (members g')" if "members g' \<noteq> []"
  proof -
    have "length (members g) - 2 < length (members g) - 1" using that len by (cases "members g'") auto
    then show ?thesis using as_u16_less by (auto simp: act len not_le)
  qed
  moreover have "active_member g' = 0" if "members g' = []"
    using that len k(1) by (auto simp: act as_u16_def)
  ultimately show "group_ok g'"
    using assms(1) k(3) by (auto simp: group_ok_def distinct_remove_at)
  show "group_id g' = group_id g"
    using assms(2) by (auto simp: remove_member_def Let_def split: option.splits if_splits)
qed

lemma group_ok_reorder:
  assumes "group_ok g" and "reorder from to g = Inr g'"
  shows "group_ok g'" and "set (members g') = set (members g)" and "group_id g' = group_id g"
proof -
  let ?ms = "insert_at to (members g ! from) (remove_at from (members g))"
  have ft: "from < length (members g)" "to < length (members g)" and ms: "members g' = ?ms"
    using assms(2) by (auto simp: reorder_def Let_def split: if_splits option.splits)
  have len: "length ?ms = length (members g)" using ft by (auto simp: vec_simps)
  have ms_set: "set ?ms = set (members g)" "distinct ?ms"
    using assms(1) ft by (auto simp: group_ok_def vec_simps distinct_remove_at nth_mem)
  then show "set (members g') = set (members g)" by (simp add: ms)
  have "active_member g' < length ?ms"
    using assms ft len as_u16_less
    by (auto simp: reorder_def Let_def group_ok_def split: option.splits dest!: position_SomeD)
  then show "group_ok g'" using ms ms_set(2) by (simp add: group_ok_def)
  show "group_id g' = group_id g"
    using assms(2) by (auto simp: reorder_def Let_def split: if_splits option.splits)
qed

lemma group_ok_activate:
  assumes "group_ok g" and "activate i g = Inr g'"
  shows "group_ok g'" and "members g' = members g" and "group_id g' = group_id g"
  using assms as_u16_less
  by (auto simp: activate_def group_ok_def split: option.splits dest!: position_SomeD)

section \<open>Manager invariant\<close>

definition mgr_inv :: "GroupManager \<Rightarrow> bool" where
  "mgr_inv m \<longleftrightarrow>
    (\<forall>gid g. map_of (groups m) gid = Some g \<longrightarrow> group_ok g \<and> group_id g = gid)
    \<and> (\<forall>i gid. map_of (by_instance m) i = Some gid \<longrightarrow>
        (\<exists>g. map_of (groups m) gid = Some g \<and> i \<in> set (members g)))"

lemma map_of_index:
  "map_of (fold (\<lambda>i. AList.update i gid) ms b) j = (if j \<in> set ms then Some gid else map_of b j)"
  by (induction ms arbitrary: b) (auto simp: update_conv')

lemma map_of_unindex:
  "map_of (fold (\<lambda>i b. if map_of b i = Some gid then AList.delete i b else b) ms b) j
     = (if j \<in> set ms \<and> map_of b j = Some gid then None else map_of b j)"
  by (induction ms arbitrary: b) (auto simp: delete_conv')

lemma fold_add_member:
  "set (members (fold add_member ms g)) = set (members g) \<union> set ms"
  "group_id (fold add_member ms g) = group_id g" "group_workspace (fold add_member ms g) = group_workspace g"
  by (induction ms arbitrary: g) (auto simp: add_member_def)

text \<open>Storing a changed group under its own id.\<close>

lemma mgr_inv_store:
  assumes "mgr_inv m" and "group_ok g" and "group_id g = gid"
    and "groups m' = groups m" and "map_of (by_instance m') = b"
    and "\<And>i j. b i = Some j \<Longrightarrow> j = gid \<and> i \<in> set (members g) \<or> j \<noteq> gid \<and> map_of (by_instance m) i = Some j"
  shows "mgr_inv (fst (store_group io g gid m'))"
  using assms by (fastforce simp: mgr_inv_def store_group_def persist_def update_conv')

lemma mgr_inv_published [simp]: "mgr_inv (m\<lparr>published := l\<rparr>) = mgr_inv m"
  by (simp add: mgr_inv_def)

lemma mgr_inv_table [simp]: "mgr_inv (m\<lparr>table := t\<rparr>) = mgr_inv m"
  by (simp add: mgr_inv_def)

lemma map_of_groups_install [simp]:
  "map_of (groups (install_group g m)) = (map_of (groups m))(group_id g \<mapsto> g)"
  by (simp add: install_group_def Let_def index_group_def update_conv')

lemma mgr_inv_install:
  assumes "mgr_inv m" and "map_of (groups m) (group_id g) = None" and "group_ok g"
  shows "mgr_inv (install_group g m)"
proof -
  have "map_of (by_instance (install_group g m)) j
      = (if j \<in> set (members g) then Some (group_id g) else map_of (by_instance m) j)" for j
    by (simp add: install_group_def Let_def index_group_def map_of_index)
  moreover have "map_of (by_instance m) j \<noteq> Some (group_id g)" for j using assms by (force simp: mgr_inv_def)
  ultimately show ?thesis using assms unfolding mgr_inv_def by (auto split: if_splits)
qed

lemma new_group:
  "group_ok (fold add_member ms (group_new i now ws pos sz))"
  "group_id (fold add_member ms (group_new i now ws pos sz)) = i"
  "group_workspace (fold add_member ms (group_new i now ws pos sz)) = ws"
  by (simp_all add: group_ok_fold_add group_ok_new fold_add_member) (simp_all add: group_new_def)

lemma mgr_inv_create:
  assumes "mgr_inv m" and "map_of (groups m) new_id = None"
  shows "mgr_inv (fst (create_group io new_id now ws ms pos sz m))"
  using assms
  by (simp add: create_group_def persist_def Let_def mgr_inv_install new_group)

lemma mgr_inv_dissolve:
  assumes "mgr_inv m"
  shows "mgr_inv (fst (dissolve_group io gid m))"
proof (cases "map_of (groups m) gid")
  case None
  then show ?thesis using assms by (simp add: dissolve_group_def)
next
  case (Some g)
  let ?m = "fst (dissolve_group io gid m)"
  have "group_id g = gid" using assms Some by (simp add: mgr_inv_def)
  then have "map_of (groups ?m) = (map_of (groups m))(gid := None)"
    "map_of (by_instance ?m) j = (if j \<in> set (members g) \<and> map_of (by_instance m) j = Some gid then None
       else map_of (by_instance m) j)" for j
    using Some by (simp_all add: dissolve_group_def delete_persisted_def unindex_group_def map_of_unindex delete_conv')
  then show ?thesis using assms Some unfolding mgr_inv_def by (auto split: if_splits) fastforce+
qed

lemma mgr_inv_change:
  assumes "mgr_inv m" and "map_of (groups m) gid = Some g"
    and "group_ok g'" and "group_id g' = group_id g" and "set (members g) \<subseteq> set (members g')"
  shows "mgr_inv (fst (store_group io g' gid m))"
proof (rule mgr_inv_store [OF assms(1,3) _ refl refl])
  show "group_id g' = gid" using assms(1,2,4) by (simp add: mgr_inv_def)
  show "j = gid \<and> i \<in> set (members g') \<or> j \<noteq> gid \<and> map_of (by_instance m) i = Some j"
    if "map_of (by_instance m) i = Some j" for i j
    using assms(1,2,5) that unfolding mgr_inv_def by (cases "j = gid") (simp, fastforce, simp)
qed

lemma mgr_inv_add:
  assumes "mgr_inv m"
  shows "mgr_inv (fst (add_to_group io gid i m))"
proof (cases "map_of (groups m) gid")
  case (Some g)
  have g: "group_ok g" "group_id g = gid" using assms Some by (simp_all add: mgr_inv_def)
  have mem: "set (members (add_member i g)) = insert i (set (members g))" "group_id (add_member i g) = gid"
    using g(2) by (auto simp: add_member_def)
  have "mgr_inv (fst (store_group io (add_member i g) gid (m\<lparr>by_instance := AList.update i gid (by_instance m)\<rparr>)))"
  proof (rule mgr_inv_store [OF assms group_ok_add [OF g(1)] mem(2)])
    show "map_of (by_instance (m\<lparr>by_instance := AList.update i gid (by_instance m)\<rparr>)) = (map_of (by_instance m))(i \<mapsto> gid)"
      by (simp add: update_conv')
    show "j = gid \<and> k \<in> set (members (add_member i g)) \<or> j \<noteq> gid \<and> map_of (by_instance m) k = Some j"
      if "((map_of (by_instance m))(i \<mapsto> gid)) k = Some j" for k j
      using that assms Some unfolding mem(1) mgr_inv_def by (cases "k = i"; cases "j = gid") (simp, simp, fastforce, simp)
  qed simp
  then show ?thesis using Some by (simp add: add_to_group_def)
qed (use assms in \<open>simp add: add_to_group_def\<close>)

lemma mgr_inv_remove:
  assumes "mgr_inv m"
  shows "mgr_inv (fst (remove_from_group io gid i m))"
proof (cases "\<exists>g g'. map_of (groups m) gid = Some g \<and> remove_member i g = Inr g'")
  case True
  then obtain g g' where gg: "map_of (groups m) gid = Some g" "remove_member i g = Inr g'" by blast
  have g: "group_ok g" "group_id g = gid" using assms gg(1) by (simp_all add: mgr_inv_def)
  note g' = group_ok_remove [OF g(1) gg(2)]
  have "mgr_inv (fst (store_group io g' gid (m\<lparr>by_instance := AList.delete i (by_instance m)\<rparr>)))"
  proof (rule mgr_inv_store [OF assms g'(1)])
    show "map_of (by_instance (m\<lparr>by_instance := AList.delete i (by_instance m)\<rparr>)) = (map_of (by_instance m))(i := None)"
      by (simp add: delete_conv')
    show "j = gid \<and> k \<in> set (members g') \<or> j \<noteq> gid \<and> map_of (by_instance m) k = Some j"
      if "((map_of (by_instance m))(i := None)) k = Some j" for k j
      using that assms gg(1) unfolding g'(2) mgr_inv_def by (cases "k = i"; cases "j = gid") (simp, simp, fastforce, simp)
  qed (simp_all add: g'(3) g(2))
  then show ?thesis using gg by (simp add: remove_from_group_def)
qed (use assms in \<open>auto simp: remove_from_group_def split: option.split sum.split\<close>)

lemma mgr_inv_group:
  "mgr_inv m \<Longrightarrow> map_of (groups m) gid = Some g \<Longrightarrow> group_ok g"
  "mgr_inv m \<Longrightarrow> map_of (groups m) gid = Some g \<Longrightarrow> group_id g = gid"
  by (simp_all add: mgr_inv_def)

lemma mgr_inv_switch:
  assumes "mgr_inv m"
  shows "mgr_inv (fst (switch_active io gid i m))"
proof (cases "\<exists>g g'. map_of (groups m) gid = Some g \<and> activate i g = Inr g'")
  case True
  then obtain g g' where gg: "map_of (groups m) gid = Some g" "activate i g = Inr g'" by blast
  note g' = group_ok_activate [OF mgr_inv_group(1) [OF assms gg(1)] gg(2)]
  have "mgr_inv (fst (store_group io g' gid m))"
    by (rule mgr_inv_change [OF assms gg(1) g'(1) g'(3)]) (simp add: g'(2))
  then show ?thesis using gg by (simp add: switch_active_def case_prod_beta split: sum.split)
qed (use assms in \<open>auto simp: switch_active_def split: option.split sum.split\<close>)

lemma mgr_inv_update:
  assumes "mgr_inv m"
  shows "mgr_inv (fst (update_slot io gid pos sz m))"
proof (cases "map_of (groups m) gid")
  case (Some g)
  have "mgr_inv (fst (store_group io (g\<lparr>group_position := pos, group_size := sz\<rparr>) gid m))"
    by (rule mgr_inv_change [OF assms Some])
      (use mgr_inv_group(1) [OF assms Some] in \<open>simp_all add: group_ok_def\<close>)
  then show ?thesis using Some by (simp add: update_slot_def)
qed (use assms in \<open>simp add: update_slot_def\<close>)

lemma mgr_inv_reorder:
  assumes "mgr_inv m"
  shows "mgr_inv (fst (reorder_members io gid from to m))"
proof (cases "\<exists>g g'. map_of (groups m) gid = Some g \<and> reorder from to g = Inr g'")
  case True
  then obtain g g' where gg: "map_of (groups m) gid = Some g" "reorder from to g = Inr g'" by blast
  note g' = group_ok_reorder [OF mgr_inv_group(1) [OF assms gg(1)] gg(2)]
  have "mgr_inv (fst (store_group io g' gid m))"
    by (rule mgr_inv_change [OF assms gg(1) g'(1) g'(3)]) (simp add: g'(2))
  then show ?thesis using gg by (simp add: reorder_members_def)
qed (use assms in \<open>auto simp: reorder_members_def split: option.split sum.split\<close>)

section \<open>Workspace index and database table\<close>

definition ws_inv :: "GroupManager \<Rightarrow> bool" where
  "ws_inv m \<longleftrightarrow> (\<forall>ws gid. gid \<in> set (ids_on m ws) \<longleftrightarrow>
    (\<exists>g. map_of (groups m) gid = Some g \<and> group_workspace g = ws))"

definition tab_inv :: "bool \<Rightarrow> GroupManager \<Rightarrow> bool" where
  "tab_inv committed m \<longleftrightarrow> distinct (map fst (table m))
    \<and> (\<forall>k g. map_of (table m) k = Some g \<longrightarrow> group_ok g \<and> group_id g = k)
    \<and> (committed \<longrightarrow> map_of (table m) = map_of (groups m))"

definition idx_inv :: "bool \<Rightarrow> GroupManager \<Rightarrow> bool" where
  "idx_inv committed m \<longleftrightarrow> ws_inv m \<and> tab_inv committed m"

lemma idx_inv_published [simp]: "idx_inv c (m\<lparr>published := l\<rparr>) = idx_inv c m"
  by (simp add: idx_inv_def ws_inv_def tab_inv_def ids_on_def)

lemma idx_inv_weaken: "idx_inv c m \<Longrightarrow> idx_inv (c \<and> io) m"
  by (simp add: idx_inv_def tab_inv_def)

lemma workspace_kept:
  "group_workspace (add_member i g) = group_workspace g" "group_id (add_member i g) = group_id g"
  "remove_member i g = Inr g' \<Longrightarrow> group_workspace g' = group_workspace g"
  "reorder from to g = Inr g' \<Longrightarrow> group_workspace g' = group_workspace g"
  "activate i g = Inr g' \<Longrightarrow> group_workspace g' = group_workspace g"
  by (auto simp: add_member_def remove_member_def reorder_def activate_def Let_def split: option.splits if_splits)

lemma idx_inv_store:
  assumes "idx_inv c m" and "map_of (groups m) gid = Some g"
    and "group_ok g'" and "group_id g' = gid" and "group_workspace g' = group_workspace g"
  shows "idx_inv (c \<and> io) (fst (store_group io g' gid (m\<lparr>by_instance := b\<rparr>)))"
proof -
  let ?m = "fst (store_group io g' gid (m\<lparr>by_instance := b\<rparr>))"
  have "map_of (groups ?m) = (map_of (groups m))(gid \<mapsto> g')" "by_workspace ?m = by_workspace m"
    by (simp_all add: store_group_def persist_def update_conv')
  moreover have "map_of (table ?m) = (if io then (map_of (table m))(gid \<mapsto> g') else map_of (table m))"
    "distinct (map fst (table m)) \<Longrightarrow> distinct (map fst (table ?m))"
    using assms(4) by (simp_all add: store_group_def persist_def update_conv' distinct_update)
  ultimately show ?thesis
    using assms by (auto simp: idx_inv_def ws_inv_def tab_inv_def ids_on_def)
qed

lemmas idx_inv_store_same = idx_inv_store [where b = "by_instance m" and m = m for m, simplified]

lemma idx_inv_members:
  assumes "mgr_inv m" and "idx_inv c m"
  shows "idx_inv (c \<and> io) (fst (add_to_group io gid i m))"
    and "idx_inv (c \<and> io) (fst (remove_from_group io gid i m))"
proof -
  show "idx_inv (c \<and> io) (fst (add_to_group io gid i m))"
  proof (cases "map_of (groups m) gid")
    case (Some g)
    then show ?thesis
      using idx_inv_store [OF assms(2) Some, of "add_member i g"] mgr_inv_group [OF assms(1) Some]
      by (simp add: add_to_group_def workspace_kept group_ok_add)
  qed (use idx_inv_weaken [OF assms(2)] in \<open>simp add: add_to_group_def\<close>)
  show "idx_inv (c \<and> io) (fst (remove_from_group io gid i m))"
  proof (cases "\<exists>g g'. map_of (groups m) gid = Some g \<and> remove_member i g = Inr g'")
    case True
    then obtain g g' where gg: "map_of (groups m) gid = Some g" "remove_member i g = Inr g'" by blast
    then show ?thesis
      using idx_inv_store [OF assms(2) gg(1), of g'] mgr_inv_group [OF assms(1) gg(1)] group_ok_remove [OF _ gg(2)]
      by (simp add: remove_from_group_def workspace_kept)
  qed (use idx_inv_weaken [OF assms(2)] in \<open>auto simp: remove_from_group_def split: option.split sum.split\<close>)
qed

lemma idx_inv_in_place:
  assumes "mgr_inv m" and "idx_inv c m"
  shows "idx_inv (c \<and> io) (fst (switch_active io gid i m))"
    and "idx_inv (c \<and> io) (fst (update_slot io gid pos sz m))"
    and "idx_inv (c \<and> io) (fst (reorder_members io gid from to m))"
proof -
  show "idx_inv (c \<and> io) (fst (switch_active io gid i m))"
  proof (cases "\<exists>g g'. map_of (groups m) gid = Some g \<and> activate i g = Inr g'")
    case True
    then obtain g g' where gg: "map_of (groups m) gid = Some g" "activate i g = Inr g'" by blast
    then show ?thesis
      using idx_inv_store_same [OF assms(2) gg(1), of g'] mgr_inv_group [OF assms(1) gg(1)] group_ok_activate [OF _ gg(2)]
      by (simp add: switch_active_def workspace_kept case_prod_beta split: sum.split)
  qed (use idx_inv_weaken [OF assms(2)] in \<open>auto simp: switch_active_def split: option.split sum.split\<close>)
  show "idx_inv (c \<and> io) (fst (update_slot io gid pos sz m))"
  proof (cases "map_of (groups m) gid")
    case (Some g)
    then show ?thesis
      using idx_inv_store_same [OF assms(2) Some, of "g\<lparr>group_position := pos, group_size := sz\<rparr>"]
        mgr_inv_group [OF assms(1) Some] by (simp add: update_slot_def group_ok_def)
  qed (use idx_inv_weaken [OF assms(2)] in \<open>simp add: update_slot_def\<close>)
  show "idx_inv (c \<and> io) (fst (reorder_members io gid from to m))"
  proof (cases "\<exists>g g'. map_of (groups m) gid = Some g \<and> reorder from to g = Inr g'")
    case True
    then obtain g g' where gg: "map_of (groups m) gid = Some g" "reorder from to g = Inr g'" by blast
    then show ?thesis
      using idx_inv_store_same [OF assms(2) gg(1), of g'] mgr_inv_group [OF assms(1) gg(1)] group_ok_reorder [OF _ gg(2)]
      by (simp add: reorder_members_def workspace_kept)
  qed (use idx_inv_weaken [OF assms(2)] in \<open>auto simp: reorder_members_def split: option.split sum.split\<close>)
qed

lemma ids_on_install:
  "set (ids_on (install_group g m) ws) = (if ws = group_workspace g then {group_id g} else {}) \<union> set (ids_on m ws)"
  by (auto simp: install_group_def Let_def index_group_def ids_on_def update_conv')

lemma ws_inv_install:
  assumes "ws_inv m" and "map_of (groups m) (group_id g) = None"
  shows "ws_inv (install_group g m)"
  using assms unfolding ws_inv_def ids_on_install by auto

lemma ws_inv_other [simp]:
  "ws_inv (m\<lparr>published := l\<rparr>) = ws_inv m" "ws_inv (m\<lparr>table := t\<rparr>) = ws_inv m"
  by (simp_all add: ws_inv_def ids_on_def)

lemma table_install [simp]: "table (install_group g m) = table m"
  by (simp add: install_group_def Let_def index_group_def)

lemma idx_inv_create:
  assumes "idx_inv c m" and "map_of (groups m) new_id = None"
  shows "idx_inv (c \<and> io) (fst (create_group io new_id now ws ms pos sz m))"
proof (cases io)
  case True
  let ?g = "fold add_member ms (group_new new_id now ws pos sz)"
  let ?m = "fst (create_group True new_id now ws ms pos sz m)"
  have "ws_inv ?m" using assms
    by (simp add: idx_inv_def create_group_def persist_def Let_def ws_inv_install new_group)
  moreover have "map_of (groups ?m) = (map_of (groups m))(new_id \<mapsto> ?g)"
    "map_of (table ?m) = (map_of (table m))(new_id \<mapsto> ?g)"
    "distinct (map fst (table m)) \<Longrightarrow> distinct (map fst (table ?m))"
    by (simp_all add: create_group_def persist_def Let_def new_group update_conv' distinct_update)
  ultimately show ?thesis using assms True by (auto simp: idx_inv_def tab_inv_def new_group)
qed (use idx_inv_weaken [OF assms(1), of False] in \<open>simp add: create_group_def persist_def Let_def\<close>)

lemma idx_inv_dissolve:
  assumes "mgr_inv m" and "idx_inv c m"
  shows "idx_inv (c \<and> io) (fst (dissolve_group io gid m))"
proof (cases "map_of (groups m) gid")
  case None
  then show ?thesis using idx_inv_weaken [OF assms(2)] by (simp add: dissolve_group_def)
next
  case (Some g)
  let ?m = "fst (dissolve_group io gid m)"
  have id: "group_id g = gid" using assms(1) Some by (rule mgr_inv_group)
  then have "set (ids_on ?m ws) = (if ws = group_workspace g then set (ids_on m ws) - {gid} else set (ids_on m ws))" for ws
    using Some by (auto simp: dissolve_group_def delete_persisted_def unindex_group_def ids_on_def update_conv' split: option.splits)
  moreover have "map_of (groups ?m) = (map_of (groups m))(gid := None)"
    "map_of (table ?m) = (if io then (map_of (table m))(gid := None) else map_of (table m))"
    "distinct (map fst (table m)) \<Longrightarrow> distinct (map fst (table ?m))"
    using Some by (simp_all add: dissolve_group_def delete_persisted_def unindex_group_def delete_conv' distinct_delete)
  ultimately show ?thesis
    using assms(2) Some by (auto simp: idx_inv_def ws_inv_def tab_inv_def split: if_splits)
qed

section \<open>Restoring after a restart\<close>

lemma fold_install:
  assumes "mgr_inv m" and "ws_inv m" and "distinct (map group_id gs)" and "\<forall>g\<in>set gs. group_ok g"
    and "\<forall>g\<in>set gs. map_of (groups m) (group_id g) = None"
  shows "mgr_inv (fold install_group gs m) \<and> ws_inv (fold install_group gs m)
    \<and> table (fold install_group gs m) = table m
    \<and> map_of (groups (fold install_group gs m)) = map_of (groups m) ++ map_of (map (\<lambda>g. (group_id g, g)) gs)"
  using assms
proof (induction gs arbitrary: m)
  case (Cons g gs)
  have "group_id g \<notin> dom (map_of (map (\<lambda>g. (group_id g, g)) gs))"
    using Cons.prems(3) by (auto simp: dom_map_of_conv_image_fst)
  then have eq: "(map_of (groups m))(group_id g \<mapsto> g) ++ map_of (map (\<lambda>g. (group_id g, g)) gs)
      = map_of (groups m) ++ map_of (map (\<lambda>g. (group_id g, g)) (g # gs))"
    by (simp add: map_add_upd_left)
  have step: "mgr_inv (install_group g m)" "ws_inv (install_group g m)"
    using Cons.prems by (simp_all add: mgr_inv_install ws_inv_install)
  have "distinct (map group_id gs)" "\<forall>g\<in>set gs. group_ok g"
    "\<forall>h\<in>set gs. map_of (groups (install_group g m)) (group_id h) = None"
    subgoal using Cons.prems(3) by simp
    subgoal using Cons.prems(4) by simp
    subgoal using Cons.prems(3,5) by (auto simp: image_iff)
    done
  note IH = Cons.IH [OF step this]
  show ?case using IH eq by (simp only: fold.simps comp_apply map_of_groups_install table_install)
qed simp

lemma stored_groups:
  assumes "tab_inv c m"
  defines "gs \<equiv> map snd (sort_key fst (table m))"
  shows "distinct (map group_id gs)" and "\<forall>g\<in>set gs. group_ok g"
    and "map_of (map (\<lambda>g. (group_id g, g)) gs) = map_of (table m)"
proof -
  have tab: "group_ok g" "group_id g = k" if "(k, g) \<in> set (table m)" for k g
    using assms(1) that by (auto simp: tab_inv_def)
  have pairs: "map (\<lambda>g. (group_id g, g)) gs = sort_key fst (table m)"
    by (auto simp: gs_def tab intro!: map_idI)
  have dist: "distinct (map fst (sort_key fst (table m)))"
    using assms(1) by (simp add: tab_inv_def distinct_map inj_on_def)
  have "map group_id gs = map fst (map (\<lambda>g. (group_id g, g)) gs)" by simp
  then show "distinct (map group_id gs)" using dist unfolding pairs by simp
  show "\<forall>g\<in>set gs. group_ok g" by (auto simp: gs_def tab)
  show "map_of (map (\<lambda>g. (group_id g, g)) gs) = map_of (table m)"
    using dist assms(1) unfolding pairs by (subst map_of_inject_set) (simp_all add: tab_inv_def)
qed

lemma manager_new_inv: "mgr_inv (manager_new t)" "ws_inv (manager_new t)"
  by (simp_all add: mgr_inv_def ws_inv_def manager_new_def ids_on_def)

lemma restart_ok:
  assumes "tab_inv c m"
  defines "m' \<equiv> fst (restore_from_storage None (manager_new (table m)))"
  shows "mgr_inv m'" and "idx_inv True m'" and "map_of (groups m') = map_of (table m)"
proof -
  have start: "groups (manager_new (table m)) = []" "table (manager_new (table m)) = table m"
    by (simp_all add: manager_new_def)
  note facts = fold_install [OF manager_new_inv stored_groups(1,2) [OF assms(1)], of "table m"]
  then have m': "mgr_inv m' \<and> ws_inv m' \<and> table m' = table m \<and> map_of (groups m') = map_of (table m)"
    using stored_groups(3) [OF assms(1)] by (simp add: m'_def restore_from_storage_def start)
  then show "mgr_inv m'" "map_of (groups m') = map_of (table m)" by simp_all
  show "idx_inv True m'" using m' assms(1) by (simp add: idx_inv_def tab_inv_def)
qed

section \<open>Runs of the manager\<close>

text \<open>
  The states of the manager, with a flag that says that every write since the last restart was
  committed.  A restart, also one after a failed write, builds a manager from the table.
\<close>

inductive group_reachable :: "bool \<Rightarrow> GroupManager \<Rightarrow> bool" where
  fresh: "group_reachable True (manager_new [])"
| created: "group_reachable c m \<Longrightarrow> map_of (groups m) new_id = None \<Longrightarrow>
    group_reachable (c \<and> io) (fst (create_group io new_id now ws ms pos sz m))"
| dissolved: "group_reachable c m \<Longrightarrow> group_reachable (c \<and> io) (fst (dissolve_group io gid m))"
| added: "group_reachable c m \<Longrightarrow> group_reachable (c \<and> io) (fst (add_to_group io gid i m))"
| removed: "group_reachable c m \<Longrightarrow> group_reachable (c \<and> io) (fst (remove_from_group io gid i m))"
| switched: "group_reachable c m \<Longrightarrow> group_reachable (c \<and> io) (fst (switch_active io gid i m))"
| moved: "group_reachable c m \<Longrightarrow> group_reachable (c \<and> io) (fst (update_slot io gid pos sz m))"
| reordered: "group_reachable c m \<Longrightarrow> group_reachable (c \<and> io) (fst (reorder_members io gid from to m))"
| restarted: "group_reachable c m \<Longrightarrow>
    group_reachable True (fst (restore_from_storage None (manager_new (table m))))"

lemma group_reachable_inv: "group_reachable c m \<Longrightarrow> mgr_inv m \<and> idx_inv c m"
proof (induction rule: group_reachable.induct)
  case fresh
  then show ?case by (simp add: manager_new_inv idx_inv_def) (simp add: tab_inv_def manager_new_def)
next
  case (restarted c m)
  then show ?case using restart_ok [of c m] by (simp add: idx_inv_def)
qed (simp_all add: mgr_inv_create mgr_inv_dissolve mgr_inv_add mgr_inv_remove mgr_inv_switch mgr_inv_update
    mgr_inv_reorder idx_inv_create idx_inv_dissolve idx_inv_members idx_inv_in_place)

lemma find_for_instance_member:
  assumes "mgr_inv m" and "find_for_instance m i = Some g"
  shows "i \<in> set (members g)"
  using assms by (fastforce simp: mgr_inv_def find_for_instance_def split: option.splits)

lemma active_of_ok:
  assumes "group_ok g" and "members g \<noteq> []"
  shows "\<exists>i\<in>set (members g). active_instance g = Some i"
  using assms by (auto simp: group_ok_def active_instance_def get_at_def)

lemma list_for_workspace_set:
  assumes "ws_inv m"
  shows "set (list_for_workspace m ws) = {g. \<exists>gid. map_of (groups m) gid = Some g \<and> group_workspace g = ws}"
  using assms by (force simp: ws_inv_def list_for_workspace_def List.map_filter_def)

section \<open>Properties\<close>

text \<open>
  Every state the group manager reaches, failed writes and restarts included, is consistent: the
  group found for a widget has it as a member, a group has no member twice and, unless it is empty,
  an active tab that is one of its members, and the listing of a workspace has exactly the groups of
  that workspace.
\<close>

theorem group_manager_consistent:
  assumes "group_reachable c m"
  shows "(\<forall>i g. find_for_instance m i = Some g \<longrightarrow> i \<in> set (members g))
    \<and> (\<forall>gid g. get_group m gid = Inr g \<longrightarrow> group_id g = gid \<and> distinct (members g)
        \<and> (members g \<noteq> [] \<longrightarrow> (\<exists>i\<in>set (members g). active_instance g = Some i)))
    \<and> (\<forall>ws. set (list_for_workspace m ws) = {g. \<exists>gid. get_group m gid = Inr g \<and> group_workspace g = ws})"
proof -
  have inv: "mgr_inv m" "ws_inv m" using group_reachable_inv [OF assms] by (simp_all add: idx_inv_def)
  have got: "get_group m gid = Inr g \<longleftrightarrow> map_of (groups m) gid = Some g" for gid g
    by (simp add: get_group_def split: option.split)
  have "group_id g = gid \<and> distinct (members g) \<and> (members g \<noteq> [] \<longrightarrow> (\<exists>i\<in>set (members g). active_instance g = Some i))"
    if "map_of (groups m) gid = Some g" for gid g
    using mgr_inv_group [OF inv(1) that] active_of_ok [of g] by (auto simp: group_ok_def)
  then show ?thesis
    using find_for_instance_member [OF inv(1)] list_for_workspace_set [OF inv(2)] unfolding got by blast
qed

text \<open>
  While every write is committed the groups survive a restart: a manager that restores the table
  has the same groups with the same members and active tabs, and reports how many there are.
\<close>

theorem restart_keeps_groups:
  assumes "group_reachable True m"
  shows "get_group (fst (restore_from_storage None (manager_new (table m)))) = get_group m
    \<and> snd (restore_from_storage None (manager_new (table m))) = Inr (card (dom (map_of (groups m))))"
proof -
  have tab: "tab_inv True m" using group_reachable_inv [OF assms] by (simp add: idx_inv_def)
  then have same: "map_of (table m) = map_of (groups m)" and dist: "distinct (map fst (table m))"
    by (simp_all add: tab_inv_def)
  have "length (table m) = card (dom (map_of (groups m)))"
    using distinct_card [OF dist] by (simp add: same [symmetric] dom_map_of_conv_image_fst)
  then have "snd (restore_from_storage None (manager_new (table m))) = Inr (card (dom (map_of (groups m))))"
    by (simp add: restore_from_storage_def manager_new_def)
  moreover have "get_group (fst (restore_from_storage None (manager_new (table m)))) = get_group m"
    using restart_ok(3) [OF tab] by (intro ext) (simp add: get_group_def same)
  ultimately show ?thesis by simp
qed

definition two_groups :: GroupManager where
  "two_groups =
    (let pos = \<lparr>col = 0, row = 0\<rparr>
     in fst (create_group True 2 0 7 [11] pos Small (fst (create_group True 1 0 7 [10] pos Small (manager_new [])))))"

lemma two_groups_reachable: "group_reachable True two_groups"
proof -
  let ?pos = "\<lparr>col = 0, row = 0\<rparr>"
  let ?m = "fst (create_group True 1 0 7 [10] ?pos Small (manager_new []))"
  have "group_reachable (True \<and> True) ?m"
    by (rule created [OF fresh]) (simp add: manager_new_def)
  moreover have "map_of (groups ?m) 2 = None"
    by (simp add: create_group_def persist_def Let_def new_group add_member_def group_new_def manager_new_def)
  ultimately have "group_reachable ((True \<and> True) \<and> True) (fst (create_group True 2 0 7 [11] ?pos Small ?m))"
    by (rule created)
  then show ?thesis by (simp add: two_groups_def Let_def)
qed

lemmas group_run_simps = two_groups_def create_group_def persist_def install_group_def index_group_def add_member_def
  group_new_def manager_new_def ids_on_def find_for_instance_def get_group_def

theorem group_manager_consistent_witness:
  "\<exists>g. find_for_instance two_groups 11 = Some g \<and> 11 \<in> set (members g)"
proof -
  have "find_for_instance two_groups 11 \<noteq> None" by (simp add: group_run_simps Let_def)
  then show ?thesis using group_manager_consistent [OF two_groups_reachable] by blast
qed

theorem restart_keeps_groups_witness:
  "snd (restore_from_storage None (manager_new (table two_groups))) = Inr 2"
proof -
  have "dom (map_of (groups two_groups)) = {1, 2}" by (auto simp: group_run_simps Let_def split: if_splits)
  then show ?thesis using restart_keeps_groups [OF two_groups_reachable] by simp
qed

text \<open>
  Membership is not exclusive: a widget of one group can be added to another one, and is then a
  member of both.  Removing it from the second group leaves it in the first, but no group is found
  for it any more.
\<close>

theorem instance_in_two_groups:
  assumes "map_of (groups m) a = Some ga" and "i \<in> set (members ga)"
    and "map_of (groups m) b = Some gb" and "i \<notin> set (members gb)" and "a \<noteq> b"
  shows "let m1 = fst (add_to_group io b i m); m2 = fst (remove_from_group io b i m1)
    in get_group m1 a = Inr ga \<and> get_group m1 b = Inr (gb\<lparr>members := members gb @ [i]\<rparr>)
      \<and> get_group m2 a = Inr ga \<and> find_for_instance m2 i = None"
proof -
  let ?gb = "gb\<lparr>members := members gb @ [i]\<rparr>"
  let ?m1 = "fst (add_to_group io b i m)"
  have m1: "map_of (groups ?m1) = (map_of (groups m))(b \<mapsto> ?gb)"
    using assms by (simp add: add_to_group_def store_group_def persist_def add_member_def update_conv')
  have "position (\<lambda>m. m = i) (members ?gb) \<noteq> None"
    by (simp add: position_None_iff)
  then obtain g' where g': "remove_member i ?gb = Inr g'"
    unfolding remove_member_def by (auto simp: Let_def split: option.split)
  have "map_of (groups (fst (remove_from_group io b i ?m1))) = (map_of (groups m))(b \<mapsto> g')"
    "map_of (by_instance (fst (remove_from_group io b i ?m1))) i = None"
    using m1 g' by (cases io; simp add: remove_from_group_def store_group_def persist_def update_conv' delete_conv')+
  then show ?thesis using m1 assms by (simp add: Let_def get_group_def find_for_instance_def)
qed

theorem instance_in_two_groups_witness:
  "find_for_instance (fst (remove_from_group True 2 10 (fst (add_to_group True 2 10 two_groups)))) 10 = None"
proof -
  obtain ga gb where "map_of (groups two_groups) 1 = Some ga" "10 \<in> set (members ga)"
    "map_of (groups two_groups) 2 = Some gb" "10 \<notin> set (members gb)"
    by (simp add: group_run_simps Let_def)
  from instance_in_two_groups [OF this] show ?thesis by (simp add: Let_def)
qed

end
