(* ===== verification/Fs_Path.thy ===== *)
theory Fs_Path
  imports Unicode_Text
begin

text \<open>
  Provider paths (crates/orchid-fs/src/path.rs): parsing and canonical form of a path with a scheme,
  parent, last segment, extension and joining, and paths into archives.  A path is the list of its
  code points; the byte indices of the code fall on ASCII separators, so that they cut the same
  strings.  An operating-system path is what \<open>to_str\<close> gives for it: nothing when it is not UTF-8.
\<close>

datatype FsPath = FsPath (as_str: ustring)

datatype fs_error =
    MissingScheme ustring
  | InvalidScheme ustring ustring
  | NonUtf8
  | NotLocal ustring

abbreviation slash :: uchar where "slash \<equiv> 47"
abbreviation colon :: uchar where "colon \<equiv> 58"
abbreviation hash :: uchar where "hash \<equiv> 35"
abbreviation backslash :: uchar where "backslash \<equiv> 92"

definition SCHEME_LOCAL :: ustring where "SCHEME_LOCAL = lit ''local''"
definition SCHEME_ARCHIVE :: ustring where "SCHEME_ARCHIVE = lit ''archive''"

section \<open>String functions\<close>

definition slashed :: "ustring \<Rightarrow> ustring" where
  "slashed s = map (\<lambda>c. if c = backslash then slash else c) s"

definition trim_start_char :: "uchar \<Rightarrow> ustring \<Rightarrow> ustring" where
  "trim_start_char c s = dropWhile (\<lambda>x. x = c) s"

definition rfind :: "uchar \<Rightarrow> ustring \<Rightarrow> nat option" where
  "rfind c s = map_option (\<lambda>i. length s - 1 - i) (position (\<lambda>x. x = c) (rev s))"

section \<open>Canonical form\<close>

fun collapse :: "bool \<Rightarrow> ustring \<Rightarrow> ustring" where
  "collapse prev_slash [] = []"
| "collapse prev_slash (c # s) =
    (if c = slash then (if prev_slash then collapse True s else slash # collapse True s)
     else c # collapse False s)"

definition split_anchor :: "ustring \<Rightarrow> ustring \<times> ustring" where
  "split_anchor body =
    (case strip_prefix [slash, slash] body of
       Some rest \<Rightarrow>
         (case position (\<lambda>c. c = slash) rest of
            Some k \<Rightarrow> (take (2 + k + 1) body, drop (2 + k + 1) body)
          | None \<Rightarrow> (body, []))
     | None \<Rightarrow>
         (case strip_prefix [slash] body of
            Some stripped \<Rightarrow> ([slash], stripped)
          | None \<Rightarrow>
              (case body of
                 c # rest \<Rightarrow>
                   if is_ascii_alphabetic c \<and> starts_with [colon, slash] rest then (take 3 body, drop 3 body)
                   else ([], body)
               | [] \<Rightarrow> ([], body))))"

definition push_segment :: "ustring \<Rightarrow> ustring list \<Rightarrow> ustring list" where
  "push_segment seg out =
    (if seg = [] \<or> seg = lit ''.'' then out
     else if seg = lit ''..'' then
       (if out \<noteq> [] \<and> last out \<noteq> lit ''..'' then butlast out else out @ [lit ''..''])
     else out @ [seg])"

definition flatten :: "ustring list \<Rightarrow> ustring list" where
  "flatten segs = fold push_segment segs []"

definition strip_trailing :: "ustring \<Rightarrow> ustring" where
  "strip_trailing result =
    (if ends_with [slash] result \<and> \<not> ends_with [colon, slash] result \<and> 1 < length result
     then butlast result else result)"

definition normalise_body :: "ustring \<Rightarrow> ustring" where
  "normalise_body body =
    (let s = slashed body;
         (unc_prefix, s) = (case strip_prefix [slash, slash] s of
            Some rest \<Rightarrow> ([slash, slash], rest) | None \<Rightarrow> ([], s));
         collapsed = unc_prefix @ collapse False s;
         (anchor, rest) = split_anchor collapsed
     in strip_trailing (anchor @ join [slash] (flatten (split_char slash rest))))"

section \<open>Paths\<close>

definition scheme_char :: "uchar \<Rightarrow> bool" where
  "scheme_char c \<longleftrightarrow> 97 \<le> c \<and> c \<le> 122 \<or> is_ascii_digit c \<or> c = 95 \<or> c = 45"

definition fspath_new :: "ustring \<Rightarrow> fs_error + FsPath" where
  "fspath_new raw =
    (case split_once colon raw of
       None \<Rightarrow> Inl (MissingScheme raw)
     | Some (sch, body_raw) \<Rightarrow>
         if sch = [] \<or> \<not> list_all scheme_char sch then Inl (InvalidScheme sch raw)
         else (case split_once hash body_raw of
                 Some (m, t) \<Rightarrow> Inr (FsPath (sch @ [colon] @ normalise_body m @ [hash] @ t))
               | None \<Rightarrow> Inr (FsPath (sch @ [colon] @ normalise_body body_raw))))"

definition from_local :: "ustring option \<Rightarrow> fs_error + FsPath" where
  "from_local os =
    (case os of
       None \<Rightarrow> Inl NonUtf8
     | Some s \<Rightarrow>
         let with_slashes = slashed s;
             normalised = (case with_slashes of
               c # rest \<Rightarrow> if is_ascii_alphabetic c then ascii_lower c # rest else with_slashes
             | [] \<Rightarrow> with_slashes)
         in fspath_new (SCHEME_LOCAL @ [colon] @ normalised))"

definition scheme :: "FsPath \<Rightarrow> ustring" where
  "scheme p = (case split_once colon (as_str p) of Some (sch, _) \<Rightarrow> sch | None \<Rightarrow> as_str p)"

definition without_scheme :: "FsPath \<Rightarrow> ustring" where
  "without_scheme p = (case split_once colon (as_str p) of Some (_, body) \<Rightarrow> body | None \<Rightarrow> as_str p)"

definition to_local :: "FsPath \<Rightarrow> fs_error + ustring" where
  "to_local p = (if scheme p \<noteq> SCHEME_LOCAL then Inl (NotLocal (as_str p)) else Inr (without_scheme p))"

definition strip_hash :: "ustring \<Rightarrow> ustring" where
  "strip_hash body = (case split_once hash body of Some (m, _) \<Rightarrow> m | None \<Rightarrow> body)"

definition archive_parts :: "FsPath \<Rightarrow> (ustring \<times> ustring) option" where
  "archive_parts p =
    (if scheme p \<noteq> SCHEME_ARCHIVE then None
     else (case split_once hash (as_str p) of
             Some (outer, inner) \<Rightarrow> Some (outer, inner)
           | None \<Rightarrow> Some (as_str p, [])))"

definition ok :: "'e + 'a \<Rightarrow> 'a option" where
  "ok r = (case r of Inl _ \<Rightarrow> None | Inr x \<Rightarrow> Some x)"

definition plain_parent :: "FsPath \<Rightarrow> FsPath option" where
  "plain_parent p =
    (let trimmed = trim_end_char slash (strip_hash (without_scheme p))
     in case rfind slash trimmed of
          None \<Rightarrow> None
        | Some k \<Rightarrow>
            if k = 0 then Some (FsPath (scheme p @ [colon, slash]))
            else let parent_body = (if ends_with [colon] (take k trimmed) then take k trimmed @ [slash]
                                    else take k trimmed)
                 in Some (FsPath (scheme p @ [colon] @ parent_body)))"

definition archive_parent :: "FsPath \<Rightarrow> FsPath option" where
  "archive_parent p =
    (case archive_parts p of
       None \<Rightarrow> None
     | Some (outer, inner) \<Rightarrow>
         (case strip_prefix (SCHEME_ARCHIVE @ [colon]) outer of
            None \<Rightarrow> None
          | Some outer_body \<Rightarrow>
              let trimmed = trim_end_char slash inner
              in if trimmed = [] then
                   (case ok (fspath_new (SCHEME_LOCAL @ [colon] @ outer_body)) of
                      None \<Rightarrow> None | Some q \<Rightarrow> plain_parent q)
                 else (case rfind slash trimmed of
                   Some k \<Rightarrow> ok (fspath_new (SCHEME_ARCHIVE @ [colon] @ outer_body @ [hash] @ take k trimmed))
                 | None \<Rightarrow> ok (fspath_new (SCHEME_ARCHIVE @ [colon] @ outer_body @ [hash])))))"

text \<open>The parent of a \<open>local:\<close> path never is an archive path, so that \<open>archive_parent\<close> does not call itself.\<close>

definition path_parent :: "FsPath \<Rightarrow> FsPath option" where
  "path_parent p = (if scheme p = SCHEME_ARCHIVE then archive_parent p else plain_parent p)"

definition plain_file_name :: "FsPath \<Rightarrow> ustring option" where
  "plain_file_name p =
    (let trimmed = trim_end_char slash (strip_hash (without_scheme p))
     in if trimmed = [] then None
        else (case rfind slash trimmed of
                Some i \<Rightarrow> (let tail = drop (i + 1) trimmed in if tail = [] then None else Some tail)
              | None \<Rightarrow> Some trimmed))"

definition file_name :: "FsPath \<Rightarrow> ustring option" where
  "file_name p =
    (if scheme p = SCHEME_ARCHIVE then
       (let outer_name = (let s = last (split_char slash (strip_hash (without_scheme p)))
                          in if s = [] then None else Some s)
        in case archive_parts p of
             Some (_, inner) \<Rightarrow>
               (let trimmed = trim_end_char slash inner
                in if trimmed \<noteq> [] then Some (last (split_char slash trimmed)) else outer_name)
           | None \<Rightarrow> outer_name)
     else plain_file_name p)"

definition extension :: "FsPath \<Rightarrow> ustring option" where
  "extension p =
    (case file_name p of
       None \<Rightarrow> None
     | Some n \<Rightarrow> (case rfind 46 n of None \<Rightarrow> None | Some i \<Rightarrow> Some (drop (i + 1) n)))"

definition plain_join :: "FsPath \<Rightarrow> ustring \<Rightarrow> FsPath" where
  "plain_join p segment =
    (let base_body = without_scheme p;
         body = (if base_body = [] then [] else if ends_with [slash] base_body then base_body
                 else base_body @ [slash]) @ trim_start_char slash segment
     in case fspath_new (scheme p @ [colon] @ body) of Inr q \<Rightarrow> q | Inl _ \<Rightarrow> p)"

definition path_join :: "FsPath \<Rightarrow> ustring \<Rightarrow> FsPath" where
  "path_join p segment =
    (case archive_parts p of
       None \<Rightarrow> plain_join p segment
     | Some (outer, inner) \<Rightarrow>
         let outer_body = (case strip_prefix (SCHEME_ARCHIVE @ [colon]) outer of Some b \<Rightarrow> b | None \<Rightarrow> outer);
             seg = trim_start_char slash segment;
             new_inner = (if inner = [] then seg else if ends_with [slash] inner then inner @ seg
                          else inner @ [slash] @ seg)
         in case fspath_new (SCHEME_ARCHIVE @ [colon] @ outer_body @ [hash] @ new_inner) of
              Inr q \<Rightarrow> q
            | Inl _ \<Rightarrow> plain_join p segment)"

definition is_local :: "FsPath \<Rightarrow> bool" where
  "is_local p \<longleftrightarrow> scheme p = SCHEME_LOCAL"

definition is_archive :: "FsPath \<Rightarrow> bool" where
  "is_archive p \<longleftrightarrow> scheme p = SCHEME_ARCHIVE"

definition archive_container :: "FsPath \<Rightarrow> FsPath option" where
  "archive_container p =
    (case archive_parts p of
       None \<Rightarrow> None
     | Some (outer, _) \<Rightarrow>
         (case strip_prefix (SCHEME_ARCHIVE @ [colon]) outer of
            None \<Rightarrow> None
          | Some body \<Rightarrow> ok (fspath_new (SCHEME_LOCAL @ [colon] @ body))))"

definition archive_inner :: "FsPath \<Rightarrow> ustring option" where
  "archive_inner p = map_option snd (archive_parts p)"

definition archive_from_file :: "FsPath \<Rightarrow> ustring \<Rightarrow> fs_error + FsPath" where
  "archive_from_file file inner =
    (case to_local file of
       Inl e \<Rightarrow> Inl e
     | Inr os \<Rightarrow> fspath_new (SCHEME_ARCHIVE @ [colon] @ slashed os @ [hash] @ inner))"

section \<open>Segments\<close>

definition clean :: "ustring \<Rightarrow> bool" where
  "clean seg \<longleftrightarrow> seg \<noteq> [] \<and> seg \<noteq> lit ''.'' \<and> slash \<notin> set seg \<and> backslash \<notin> set seg"

text \<open>A flattened list of segments: some \<open>..\<close> that could not be resolved, then names.\<close>

definition stable :: "ustring list \<Rightarrow> bool" where
  "stable segs \<longleftrightarrow> (\<forall>seg\<in>set segs. clean seg)
    \<and> (\<exists>n names. segs = replicate n (lit ''..'') @ names \<and> lit ''..'' \<notin> set names)"

lemma stable_Nil [simp]: "stable []"
  by (simp add: stable_def)

lemma clean_dotdot [simp]: "clean (lit ''..'')"
  by (simp add: clean_def)

lemma stable_push:
  assumes "stable out" and "slash \<notin> set seg" and "backslash \<notin> set seg"
  shows "stable (push_segment seg out)"
proof -
  obtain n names where out: "out = replicate n (lit ''..'') @ names" "lit ''..'' \<notin> set names"
    using assms(1) by (auto simp: stable_def)
  consider "seg = [] \<or> seg = lit ''.''" | "seg = lit ''..''" "names = []" | "seg = lit ''..''" "names \<noteq> []"
    | "clean seg" "seg \<noteq> lit ''..''"
    using assms(2,3) by (auto simp: clean_def)
  then show ?thesis
  proof cases
    case 1
    then show ?thesis using assms(1) by (auto simp: push_segment_def)
  next
    case 2
    then have "push_segment seg out = replicate (Suc n) (lit ''..'') @ []"
      using out by (cases n) (auto simp: push_segment_def replicate_append_same last_replicate)
    then show ?thesis unfolding stable_def by (metis clean_dotdot append_Nil2 empty_iff empty_set in_set_replicate)
  next
    case 3
    moreover from this have "last names \<noteq> lit ''..''" using out(2) last_in_set by metis
    ultimately have push: "push_segment seg out = replicate n (lit ''..'') @ butlast names"
      using out by (auto simp: push_segment_def butlast_append)
    have "lit ''..'' \<notin> set (butlast names)" using out(2) by (auto dest: in_set_butlastD)
    moreover have "\<forall>seg\<in>set (push_segment seg out). clean seg"
      using assms(1) out(1) unfolding push stable_def by (auto dest: in_set_butlastD)
    ultimately show ?thesis using push unfolding stable_def by blast
  next
    case 4
    then have "push_segment seg out = replicate n (lit ''..'') @ (names @ [seg])"
      using out by (auto simp: push_segment_def clean_def)
    then show ?thesis using assms(1) out 4 unfolding stable_def by (auto intro!: exI [of _ n] exI [of _ "names @ [seg]"])
  qed
qed

lemma stable_flatten:
  assumes "\<forall>seg\<in>set segs. slash \<notin> set seg \<and> backslash \<notin> set seg"
  shows "stable (flatten segs)"
proof -
  have "stable out \<Longrightarrow> stable (fold push_segment segs out)" for out
    using assms by (induction segs arbitrary: out) (simp_all add: stable_push)
  then show ?thesis by (simp add: flatten_def)
qed

lemma flatten_stable:
  assumes "stable segs"
  shows "flatten segs = segs"
proof -
  obtain n names where segs: "segs = replicate n (lit ''..'') @ names" "lit ''..'' \<notin> set names"
    and cl: "\<forall>seg\<in>set names. clean seg"
    using assms by (auto simp: stable_def)
  have dots: "fold push_segment (replicate n (lit ''..'')) (replicate k (lit ''..'')) = replicate (n + k) (lit ''..'')" for k
  proof (induction n arbitrary: k)
    case (Suc n)
    have "push_segment (lit ''..'') (replicate k (lit ''..'')) = replicate (Suc k) (lit ''..'')"
      by (cases k) (auto simp: push_segment_def replicate_append_same last_replicate)
    then show ?case using Suc.IH [of "Suc k"] by simp
  qed simp
  have names: "fold push_segment names out = out @ names" for out
    using segs(2) cl by (induction names arbitrary: out) (auto simp: push_segment_def clean_def)
  show ?thesis using dots [of 0] names by (simp add: flatten_def segs(1))
qed

lemma stable_tl: "stable (seg # segs) \<Longrightarrow> seg \<noteq> lit ''..'' \<Longrightarrow> stable segs"
proof -
  assume st: "stable (seg # segs)" and "seg \<noteq> lit ''..''"
  then obtain n names where "seg # segs = replicate n (lit ''..'') @ names" "lit ''..'' \<notin> set names"
    by (auto simp: stable_def)
  then have "names = seg # segs" using \<open>seg \<noteq> lit ''..''\<close> by (cases n) auto
  then show "stable segs" using st \<open>lit ''..'' \<notin> set names\<close>
    unfolding stable_def by (auto intro!: exI [of _ 0])
qed

lemma stable_snoc: "stable segs \<Longrightarrow> clean seg \<Longrightarrow> seg \<noteq> lit ''..'' \<Longrightarrow> stable (segs @ [seg])"
  using stable_push [of segs seg] by (simp add: push_segment_def clean_def)

lemma flatten_split_join: "stable segs \<Longrightarrow> flatten (split_char slash (join [slash] segs)) = segs"
proof (cases "segs = []")
  case True
  then show ?thesis by (simp add: flatten_def push_segment_def)
next
  case False
  assume st: "stable segs"
  then have "\<forall>seg\<in>set segs. slash \<notin> set seg" by (auto simp: stable_def clean_def)
  then show ?thesis using False st by (simp add: split_char_join flatten_stable)
qed

section \<open>Canonical bodies\<close>

lemma ends_with_singleton: "ends_with [c] s \<longleftrightarrow> s \<noteq> [] \<and> last s = c"
  by (cases s rule: rev_cases) (auto simp: ends_with_def starts_with_def)

lemma ends_with_pair: "ends_with [c, d] s \<longleftrightarrow> (\<exists>t. s = t @ [c, d])"
proof -
  have "ends_with [c, d] s \<longleftrightarrow> (\<exists>r. rev s = [d, c] @ r)"
    by (simp add: ends_with_def starts_with_def strip_prefix_Some_iff)
  also have "\<dots> \<longleftrightarrow> (\<exists>t. s = t @ [c, d])"
    by (metis append_Cons append_Nil rev.simps rev_append rev_rev_ident)
  finally show ?thesis .
qed

lemma slashed_id: "backslash \<notin> set s \<Longrightarrow> slashed s = s"
  unfolding slashed_def by (rule map_idI) auto

lemma backslash_slashed: "backslash \<notin> set (slashed s)"
  by (auto simp: slashed_def)

lemma collapse_plain: "slash \<notin> set x \<Longrightarrow> x \<noteq> [] \<Longrightarrow> collapse b (x @ s) = x @ collapse False s"
proof (induction x arbitrary: b)
  case (Cons c x)
  then show ?case by (cases "x = []") auto
qed simp

lemma collapse_plain_end: "slash \<notin> set x \<Longrightarrow> collapse b x = x"
  by (induction x arbitrary: b) auto

lemma collapse_join: "stable segs \<Longrightarrow> collapse b (join [slash] segs) = join [slash] segs"
proof -
  assume "stable segs"
  then have "\<forall>seg\<in>set segs. slash \<notin> set seg \<and> seg \<noteq> []" by (auto simp: stable_def clean_def)
  then show ?thesis
    by (induction "[slash]" segs arbitrary: b rule: join.induct) (simp_all add: collapse_plain collapse_plain_end)
qed

lemma join_Nil_iff: "stable segs \<Longrightarrow> join [slash] segs = [] \<longleftrightarrow> segs = []"
  by (cases segs rule: remdups_adj.cases) (auto simp: stable_def clean_def)

lemma join_Cons_not_Nil: "q \<noteq> [] \<Longrightarrow> join sep (q # ps) \<noteq> []"
  by (cases ps) auto

lemma join_ends:
  assumes "stable segs" and "segs \<noteq> []"
  shows "join [slash] segs \<noteq> []" and "hd (join [slash] segs) \<noteq> slash" and "last (join [slash] segs) \<noteq> slash"
proof -
  have cl: "\<forall>seg\<in>set segs. slash \<notin> set seg \<and> seg \<noteq> []" using assms by (auto simp: stable_def clean_def)
  show ne: "join [slash] segs \<noteq> []" using assms by (simp add: join_Nil_iff)
  have "hd (join [slash] segs) \<in> set (hd segs)"
    using assms(2) cl by (cases segs rule: remdups_adj.cases) auto
  then show "hd (join [slash] segs) \<noteq> slash" using cl assms(2) by (metis list.set_sel(1))
  have "last (join [slash] segs) = last (last segs)"
    using assms(2) cl by (induction "[slash]" segs rule: join.induct) (auto simp: join_Cons_not_Nil)
  then show "last (join [slash] segs) \<noteq> slash" using cl assms(2) by (metis last_in_set)
qed

lemma starts_with_slash: "starts_with (slash # p) s \<Longrightarrow> s \<noteq> [] \<and> hd s = slash"
  by (cases s) (auto simp: starts_with_def split: if_splits)

lemma join_no_slash: "stable segs \<Longrightarrow> \<not> starts_with (slash # p) (join [slash] segs)"
  using join_ends(2) [of segs] starts_with_slash by (cases "segs = []") fastforce+

lemma backslash_join: "stable segs \<Longrightarrow> backslash \<notin> set (join [slash] segs)"
proof -
  assume "stable segs"
  then have "\<forall>seg\<in>set segs. backslash \<notin> set seg" by (auto simp: stable_def clean_def)
  then show ?thesis by (induction "[slash]" segs rule: join.induct) auto
qed

lemma join_snoc: "segs \<noteq> [] \<Longrightarrow> join [slash] (segs @ [seg]) = join [slash] segs @ slash # seg"
  by (induction "[slash]" segs rule: join.induct) auto

inductive canonical :: "ustring \<Rightarrow> bool" where
  relative: "stable segs \<Longrightarrow> canonical (join [slash] segs)"
| rooted: "stable segs \<Longrightarrow> canonical (slash # join [slash] segs)"
| drive: "stable segs \<Longrightarrow> is_ascii_alphabetic c \<Longrightarrow> canonical (c # colon # slash # join [slash] segs)"
| server: "slash \<notin> set x \<Longrightarrow> backslash \<notin> set x \<Longrightarrow> x \<noteq> [] \<Longrightarrow> canonical (slash # slash # x)"
| share: "slash \<notin> set x \<Longrightarrow> backslash \<notin> set x \<Longrightarrow> stable segs \<Longrightarrow> segs \<noteq> [] \<or> ends_with [colon] x \<Longrightarrow>
    canonical (slash # slash # x @ slash # join [slash] segs)"

lemma strip_trailing_join:
  assumes "stable segs" and "segs \<noteq> []"
  shows "strip_trailing (h @ join [slash] segs) = h @ join [slash] segs"
  using join_ends [OF assms] by (simp add: strip_trailing_def ends_with_singleton)

lemma position_app: "slash \<notin> set x \<Longrightarrow> position (\<lambda>c. c = slash) (x @ slash # s) = Some (length x)"
  by (induction x) auto

lemma position_none: "slash \<notin> set x \<Longrightarrow> position (\<lambda>c. c = slash) x = None"
  by (induction x) auto

lemma split_anchor_simps:
  "slash \<notin> set x \<Longrightarrow> split_anchor (slash # slash # x) = (slash # slash # x, [])"
  "slash \<notin> set x \<Longrightarrow> split_anchor (slash # slash # x @ slash # s) = (slash # slash # x @ [slash], s)"
  "\<not> starts_with [slash] s \<Longrightarrow> split_anchor (slash # s) = ([slash], s)"
  "is_ascii_alphabetic c \<Longrightarrow> split_anchor (c # colon # slash # s) = ([c, colon, slash], s)"
proof -
  show "split_anchor (slash # s) = ([slash], s)" if "\<not> starts_with [slash] s"
    using that by (cases s) (auto simp: split_anchor_def starts_with_def)
  have "c \<noteq> slash" if "is_ascii_alphabetic c" for c using that by (auto simp: is_ascii_alphabetic_def)
  then show "split_anchor (c # colon # slash # s) = ([c, colon, slash], s)" if "is_ascii_alphabetic c"
    using that by (simp add: split_anchor_def starts_with_def numeral_3_eq_3)
qed (simp_all add: split_anchor_def position_none position_app)

lemma normalise_unc:
  assumes "slashed body = slash # slash # s"
  shows "normalise_body body =
    (let (anchor, rest) = split_anchor (slash # slash # collapse False s)
     in strip_trailing (anchor @ join [slash] (flatten (split_char slash rest))))"
  by (simp add: normalise_body_def Let_def assms)

lemma normalise_no_unc:
  assumes "\<not> starts_with [slash, slash] (slashed body)"
  shows "normalise_body body =
    (let (anchor, rest) = split_anchor (collapse False (slashed body))
     in strip_trailing (anchor @ join [slash] (flatten (split_char slash rest))))"
  using assms by (simp add: normalise_body_def Let_def starts_with_def)

text \<open>A relative body that starts like a drive is read as one, with the same result.\<close>

lemma split_anchor_relative:
  assumes "stable segs"
  shows "case split_anchor (join [slash] segs) of (anchor, rest) \<Rightarrow>
    anchor @ join [slash] (flatten (split_char slash rest)) = join [slash] segs"
proof -
  let ?b = "join [slash] segs"
  have unc: "strip_prefix [slash, slash] ?b = None" "strip_prefix [slash] ?b = None"
    using join_no_slash [OF assms] by (simp_all add: starts_with_def)
  show ?thesis
  proof (cases "\<exists>c s. ?b = c # colon # slash # s \<and> is_ascii_alphabetic c")
    case False
    then have "split_anchor ?b = ([], ?b)"
      unfolding split_anchor_def unc
      by (auto simp: starts_with_def strip_prefix_Some_iff split: list.split)
    then show ?thesis using assms by (simp add: flatten_split_join)
  next
    case True
    then obtain c s where b: "?b = [c, colon] @ slash # s" "is_ascii_alphabetic c" by auto
    then have c: "slash \<notin> set [c, colon]" by (auto simp: is_ascii_alphabetic_def)
    have "segs \<noteq> []" using b(1) by auto
    then have "segs = [c, colon] # split_char slash s"
      using b(1) split_char_join [of segs slash] split_char_append [OF c] assms
      by (metis clean_def stable_def)
    moreover from this have "stable (split_char slash s)" using assms by (auto intro: stable_tl)
    ultimately show ?thesis using b by (simp add: split_anchor_simps flatten_stable join_split_char)
  qed
qed

lemma normalise_canonical:
  assumes "canonical body"
  shows "normalise_body body = body"
  using assms
proof cases
  case (relative segs)
  have plain: "slashed body = body" "collapse False body = body"
    using relative by (simp_all add: slashed_id backslash_join collapse_join)
  have "\<not> starts_with [slash, slash] body"
    using relative join_no_slash by blast
  moreover have "strip_trailing body = body"
    using relative strip_trailing_join [of segs "[]"] by (cases "segs = []") (simp_all add: strip_trailing_def ends_with_singleton)
  ultimately show ?thesis
    using split_anchor_relative [OF relative(2)] relative(1)
    by (simp add: normalise_no_unc plain [unfolded relative(1)] case_prod_beta)
next
  case (rooted segs)
  let ?b = "join [slash] segs"
  have plain: "slashed body = body" "collapse False body = body"
    using rooted by (simp_all add: slashed_id backslash_join collapse_join)
  have no: "\<not> starts_with [slash] ?b"
    using rooted join_no_slash by blast
  then have "\<not> starts_with [slash, slash] body" using rooted(1) by (simp add: starts_with_def)
  moreover have "strip_trailing ([slash] @ ?b) = [slash] @ ?b"
    using rooted strip_trailing_join [of segs "[slash]"] by (cases "segs = []") (simp_all add: strip_trailing_def)
  ultimately show ?thesis
    using rooted no by (simp add: normalise_no_unc plain [unfolded rooted(1)] collapse_join split_anchor_simps flatten_split_join)
next
  case (drive segs c)
  let ?b = "join [slash] segs"
  have c: "c \<noteq> slash" "c \<noteq> backslash" using drive(3) by (auto simp: is_ascii_alphabetic_def)
  have plain: "slashed body = body" "collapse False body = body"
    using drive c by (simp_all add: slashed_id backslash_join collapse_join)
  have "strip_trailing ([c, colon, slash] @ ?b) = [c, colon, slash] @ ?b"
    using drive strip_trailing_join [of segs "[c, colon, slash]"]
    by (cases "segs = []") (simp_all add: strip_trailing_def ends_with_pair)
  then show ?thesis
    using drive c by (simp add: normalise_no_unc plain [unfolded drive(1)] collapse_join starts_with_def split_anchor_simps flatten_split_join)
next
  case (server x)
  have "last x \<noteq> slash" using server last_in_set by metis
  then have "\<not> ends_with [slash] (slash # slash # x)" using server by (simp add: ends_with_singleton)
  then show ?thesis
    using server
    by (simp add: slashed_id normalise_unc [of _ x] collapse_plain_end split_anchor_simps flatten_def push_segment_def
        strip_trailing_def)
next
  case (share x segs)
  let ?h = "slash # slash # x @ [slash]"
  have sl: "slashed body = slash # slash # x @ slash # join [slash] segs"
    using share by (simp add: slashed_id backslash_join)
  have col: "collapse False (x @ slash # join [slash] segs) = x @ slash # join [slash] segs"
    using share by (cases "x = []") (simp_all add: collapse_plain collapse_join)
  have "strip_trailing (?h @ join [slash] segs) = ?h @ join [slash] segs"
  proof (cases "segs = []")
    case True
    then have "ends_with [colon] x" using share by simp
    then have "ends_with [colon, slash] ?h"
      by (cases x rule: rev_cases) (auto simp: ends_with_singleton ends_with_pair)
    then show ?thesis using True by (simp add: strip_trailing_def)
  qed (use share strip_trailing_join in blast)
  then show ?thesis using share by (simp add: normalise_unc [OF sl [unfolded share(1)]] col split_anchor_simps flatten_split_join)
qed

lemma collapse_subset: "set (collapse b s) \<subseteq> set s"
  by (induction b s rule: collapse.induct) auto

lemma collapse_True: "\<not> starts_with [slash] (collapse True s)"
proof (induction "True" s rule: collapse.induct)
  case (2 c s)
  then show ?case by (cases "c = slash") (simp_all add: starts_with_def)
qed (simp add: starts_with_def)

lemma collapse_no_double: "\<not> starts_with [slash, slash] (collapse b s)"
proof (induction b s rule: collapse.induct)
  case (2 b c s)
  then show ?case using collapse_True [of s]
    by (cases "c = slash") (auto simp: starts_with_def)
qed (simp add: starts_with_def)

lemma stable_rest:
  assumes "backslash \<notin> set rest"
  shows "stable (flatten (split_char slash rest))"
proof (rule stable_flatten, intro ballI conjI)
  fix seg assume seg: "seg \<in> set (split_char slash rest)"
  then show "slash \<notin> set seg" by (rule split_char_pieces)
  have "set (join [slash] segs) \<supseteq> \<Union> (set ` set segs)" for segs :: "ustring list"
    by (induction "[slash]" segs rule: join.induct) auto
  then have "set seg \<subseteq> set rest" using seg join_split_char [of slash rest] by (metis UN_subset_iff)
  then show "backslash \<notin> set seg" using assms by blast
qed

lemma split_at_slash:
  assumes "slash \<in> set t"
  obtains x s where "t = x @ slash # s" and "slash \<notin> set x"
  using split_list_first [OF assms] by blast

lemma canonical_unc:
  assumes "backslash \<notin> set t"
  shows "case split_anchor (slash # slash # t) of (anchor, rest) \<Rightarrow>
    let r = strip_trailing (anchor @ join [slash] (flatten (split_char slash rest)))
    in canonical r \<or> r = [slash, slash]"
proof (cases "slash \<in> set t")
  case False
  have "canonical (strip_trailing (slash # slash # t))"
  proof (cases "t = []")
    case True
    then show ?thesis using rooted [of "[]"] by (simp add: strip_trailing_def ends_with_singleton ends_with_pair)
  next
    case nonempty: False
    then have "last t \<noteq> slash" using False last_in_set by metis
    then have "strip_trailing (slash # slash # t) = slash # slash # t"
      using nonempty by (simp add: strip_trailing_def ends_with_singleton)
    then show ?thesis using server [OF False assms nonempty] by simp
  qed
  then show ?thesis using False by (simp add: split_anchor_simps flatten_def push_segment_def)
next
  case True
  then obtain x s where t: "t = x @ slash # s" "slash \<notin> set x" by (rule split_at_slash)
  define segs where "segs = flatten (split_char slash s)"
  have st: "stable segs" and x: "backslash \<notin> set x" using assms t by (simp_all add: segs_def stable_rest)
  have "canonical r \<or> r = [slash, slash]" if "r = strip_trailing (slash # slash # x @ slash # join [slash] segs)" for r
  proof (cases "segs = []")
    case False
    then show ?thesis
      using that share [OF t(2) x st] strip_trailing_join [OF st False, of "slash # slash # x @ [slash]"] by simp
  next
    case segs: True
    show ?thesis
    proof (cases "ends_with [colon] x")
      case True
      then have "r = slash # slash # x @ slash # join [slash] segs"
        using that segs by (cases x rule: rev_cases) (auto simp: strip_trailing_def ends_with_singleton ends_with_pair)
      then show ?thesis using share [OF t(2) x st] True by blast
    next
      case False
      then have "\<not> ends_with [colon, slash] (slash # slash # x @ [slash])"
        by (cases x rule: rev_cases) (auto simp: ends_with_singleton ends_with_pair)
      then have "r = slash # slash # x"
        using that segs by (simp add: strip_trailing_def ends_with_singleton butlast_append)
      then show ?thesis using server [OF t(2) x] by (cases "x = []") simp_all
    qed
  qed
  then show ?thesis using t by (simp add: split_anchor_simps segs_def Let_def)
qed

lemma canonical_plain:
  assumes "backslash \<notin> set t" and "\<not> starts_with [slash, slash] t"
  shows "case split_anchor t of (anchor, rest) \<Rightarrow>
    canonical (strip_trailing (anchor @ join [slash] (flatten (split_char slash rest))))"
proof -
  consider s where "t = slash # s" | c s where "t = c # colon # slash # s" "is_ascii_alphabetic c"
    | "split_anchor t = ([], t)"
  proof (cases "starts_with [slash] t \<or> (\<exists>c s. t = c # colon # slash # s \<and> is_ascii_alphabetic c)")
    case True
    then show ?thesis using that(1,2) by (auto simp: starts_with_def strip_prefix_Some_iff)
  next
    case False
    then have "split_anchor t = ([], t)"
      using assms(2) unfolding split_anchor_def
      by (auto simp: starts_with_def strip_prefix_Some_iff split: list.split option.split)
    then show ?thesis by (rule that(3))
  qed
  then show ?thesis
  proof cases
    case (1 s)
    have st: "stable (flatten (split_char slash s))" using assms(1) 1 by (simp add: stable_rest)
    have "\<not> starts_with [slash] s" using assms(2) 1 by (simp add: starts_with_def)
    moreover have "strip_trailing (slash # join [slash] segs) = slash # join [slash] segs" if "stable segs" for segs
      using strip_trailing_join [OF that, of "[slash]"] by (cases "segs = []") (simp_all add: strip_trailing_def)
    ultimately show ?thesis using rooted [OF st] st by (simp add: 1 split_anchor_simps)
  next
    case (2 c s)
    have st: "stable (flatten (split_char slash s))" using assms(1) 2 by (simp add: stable_rest)
    have "strip_trailing (c # colon # slash # join [slash] segs) = c # colon # slash # join [slash] segs" if "stable segs" for segs
      using strip_trailing_join [OF that, of "[c, colon, slash]"]
      by (cases "segs = []") (simp_all add: strip_trailing_def ends_with_pair)
    then show ?thesis using drive [OF st 2(2)] st by (simp add: 2 split_anchor_simps)
  next
    case 3
    have st: "stable (flatten (split_char slash t))" using assms(1) by (simp add: stable_rest)
    have "strip_trailing (join [slash] segs) = join [slash] segs" if "stable segs" for segs
      using strip_trailing_join [OF that, of "[]"] by (cases "segs = []") (simp_all add: strip_trailing_def ends_with_singleton)
    then show ?thesis using relative [OF st] st by (simp add: 3)
  qed
qed

lemma canonical_normalise: "canonical (normalise_body body) \<or> normalise_body body = [slash, slash]"
proof (cases "starts_with [slash, slash] (slashed body)")
  case True
  then obtain s where s: "slashed body = slash # slash # s" by (auto simp: starts_with_def strip_prefix_Some_iff)
  then have "backslash \<notin> set s" using backslash_slashed [of body] by simp
  then have "backslash \<notin> set (collapse False s)" using collapse_subset by blast
  from canonical_unc [OF this] show ?thesis by (simp add: normalise_unc [OF s] case_prod_beta Let_def)
next
  case False
  have "backslash \<notin> set (collapse False (slashed body))" using backslash_slashed collapse_subset by blast
  from canonical_plain [OF this collapse_no_double] show ?thesis
    by (simp add: normalise_no_unc [OF False] case_prod_beta)
qed

lemma set_flatten: "set (flatten segs) \<subseteq> set segs"
proof -
  have "set (fold push_segment segs out) \<subseteq> set out \<union> set segs" for out
  proof (induction segs arbitrary: out)
    case (Cons seg segs)
    have "set (push_segment seg out) \<subseteq> set out \<union> {seg}"
      by (auto simp: push_segment_def dest: in_set_butlastD)
    then show ?case using Cons.IH [of "push_segment seg out"] by auto
  qed simp
  then show ?thesis by (fastforce simp: flatten_def)
qed

lemma set_join: "set (join [slash] segs) \<subseteq> (\<Union>seg\<in>set segs. set seg) \<union> {slash}"
  by (induction "[slash]" segs rule: join.induct) auto

lemma set_split_char: "seg \<in> set (split_char c s) \<Longrightarrow> set seg \<subseteq> set s"
  by (induction c s arbitrary: seg rule: split_char.induct) (fastforce split: if_splits list.splits)+

lemma set_split_anchor:
  "set (fst (split_anchor b)) \<subseteq> set b" "set (snd (split_anchor b)) \<subseteq> set b"
  by (auto simp: split_anchor_def strip_prefix_Some_iff split: option.splits list.splits
      dest: in_set_takeD in_set_dropD)

lemma set_normalise: "set (normalise_body b) \<subseteq> set b \<union> {slash}"
proof -
  have sl: "set (slashed b) \<subseteq> set b \<union> {slash}" by (auto simp: slashed_def)
  define col where "col = (case strip_prefix [slash, slash] (slashed b) of
      Some rest \<Rightarrow> [slash, slash] @ collapse False rest | None \<Rightarrow> collapse False (slashed b))"
  have "set col \<subseteq> set (slashed b) \<union> {slash}"
    unfolding col_def using collapse_subset
    by (auto simp: strip_prefix_Some_iff split: option.split)
  then have col: "set col \<subseteq> set b \<union> {slash}" using sl by blast
  have "set (join [slash] (flatten (split_char slash rest))) \<subseteq> set rest \<union> {slash}" for rest
    using set_join [of "flatten (split_char slash rest)"] set_flatten set_split_char [of _ slash rest] by blast
  then have "set (fst (split_anchor col) @ join [slash] (flatten (split_char slash (snd (split_anchor col)))))
      \<subseteq> set b \<union> {slash}"
    using col set_split_anchor [of col] by fastforce
  moreover have "normalise_body b
      = strip_trailing (fst (split_anchor col) @ join [slash] (flatten (split_char slash (snd (split_anchor col)))))"
    by (simp add: normalise_body_def col_def Let_def case_prod_beta split: option.split)
  moreover have "set (strip_trailing s) \<subseteq> set s" for s
    by (auto simp: strip_trailing_def dest: in_set_butlastD)
  ultimately show ?thesis by (metis subset_trans)
qed

section \<open>Parsed paths\<close>

lemma split_once_at: "c \<notin> set x \<Longrightarrow> split_once c (x @ c # y) = Some (x, y)"
  by (induction x) auto

lemma split_once_None: "split_once c x = None \<longleftrightarrow> c \<notin> set x"
  by (induction x) auto

lemma split_once_SomeD: "split_once c s = Some (x, y) \<Longrightarrow> s = x @ c # y \<and> c \<notin> set x"
  by (induction s arbitrary: x) (auto split: if_splits)

definition scheme_ok :: "ustring \<Rightarrow> bool" where
  "scheme_ok sch \<longleftrightarrow> sch \<noteq> [] \<and> list_all scheme_char sch"

lemma scheme_ok_chars: "scheme_ok sch \<Longrightarrow> colon \<notin> set sch \<and> hash \<notin> set sch"
  by (auto simp: scheme_ok_def list_all_iff scheme_char_def is_ascii_digit_def)

lemma scheme_ok_fixed [simp]: "scheme_ok SCHEME_LOCAL" "scheme_ok SCHEME_ARCHIVE"
  by (simp_all add: scheme_ok_def SCHEME_LOCAL_def SCHEME_ARCHIVE_def scheme_char_def)

lemma schemes_differ [simp]: "SCHEME_LOCAL \<noteq> SCHEME_ARCHIVE" "SCHEME_ARCHIVE \<noteq> SCHEME_LOCAL"
  by (simp_all add: SCHEME_LOCAL_def SCHEME_ARCHIVE_def)

lemma scheme_parts:
  assumes "scheme_ok sch"
  shows "scheme (FsPath (sch @ colon # body)) = sch" and "without_scheme (FsPath (sch @ colon # body)) = body"
  using scheme_ok_chars [OF assms] by (simp_all add: scheme_def without_scheme_def split_once_at)

lemma fspath_new_plain:
  assumes "scheme_ok sch" and "hash \<notin> set body"
  shows "fspath_new (sch @ colon # body) = Inr (FsPath (sch @ colon # normalise_body body))"
  using assms scheme_ok_chars [OF assms(1)] split_once_None [of hash body]
  by (simp add: fspath_new_def split_once_at scheme_ok_def)

lemma fspath_new_hash:
  assumes "scheme_ok sch" and "hash \<notin> set main"
  shows "fspath_new (sch @ colon # main @ hash # tail) = Inr (FsPath (sch @ colon # normalise_body main @ hash # tail))"
  using assms scheme_ok_chars [OF assms(1)]
  by (simp add: fspath_new_def split_once_at scheme_ok_def)

lemma fspath_new_cases:
  assumes "fspath_new raw = Inr p"
  obtains sch body where "scheme_ok sch" "hash \<notin> set body" "as_str p = sch @ colon # normalise_body body"
  | sch main tail where "scheme_ok sch" "hash \<notin> set main" "as_str p = sch @ colon # normalise_body main @ hash # tail"
proof -
  obtain sch body_raw where sch: "split_once colon raw = Some (sch, body_raw)" "scheme_ok sch"
    using assms by (auto simp: fspath_new_def scheme_ok_def split: option.splits if_splits)
  show ?thesis
  proof (cases "split_once hash body_raw")
    case None
    then show ?thesis using that(1) [OF sch(2), of body_raw] assms sch split_once_None
      by (fastforce simp: fspath_new_def scheme_ok_def)
  next
    case (Some mt)
    then show ?thesis using that(2) [OF sch(2), of "fst mt" "snd mt"] assms sch split_once_SomeD [of hash body_raw]
      by (cases mt) (auto simp: fspath_new_def scheme_ok_def)
  qed
qed

lemma hash_normalise: "hash \<notin> set b \<Longrightarrow> hash \<notin> set (normalise_body b)"
  using set_normalise [of b] by auto

lemma canonical_or_double: "b \<noteq> [slash, slash] \<Longrightarrow> b = normalise_body c \<Longrightarrow> normalise_body b = b \<and> canonical b"
  using canonical_normalise [of c] normalise_canonical by blast

text \<open>
  Parsing a path is idempotent: the string of a parsed path parses to the same path.  The body
  \<open>//\<close>, which \<open>scheme:///\<close> gives, is the one exception.
\<close>

theorem parse_idempotent:
  assumes "fspath_new raw = Inr p" and "strip_hash (without_scheme p) \<noteq> lit ''//''"
  shows "fspath_new (as_str p) = Inr p"
  using assms(1)
proof (cases rule: fspath_new_cases)
  case (1 sch body)
  then have "strip_hash (without_scheme p) = normalise_body body"
    using scheme_parts [OF 1(1)] hash_normalise [OF 1(2)] split_once_None [of hash "normalise_body body"]
    by (cases p) (simp add: strip_hash_def)
  then show ?thesis
    using assms(2) 1 fspath_new_plain [OF 1(1) hash_normalise [OF 1(2)]] canonical_or_double [OF _ refl, of body]
    by (cases p) simp
next
  case (2 sch main tail)
  then have "strip_hash (without_scheme p) = normalise_body main"
    using scheme_parts [OF 2(1)] hash_normalise [OF 2(2)] by (cases p) (simp add: strip_hash_def split_once_at)
  then show ?thesis
    using assms(2) 2 fspath_new_hash [OF 2(1) hash_normalise [OF 2(2)]] canonical_or_double [OF _ refl, of main]
    by (cases p) simp
qed

theorem parse_idempotent_witness:
  "fspath_new (lit ''local:c:/a'') = Inr (FsPath (lit ''local:c:/a''))"
proof -
  have new: "fspath_new (lit ''local:c:/./x/..//a'') = Inr (FsPath (lit ''local:c:/a''))" by code_simp
  have "strip_hash (without_scheme (FsPath (lit ''local:c:/a''))) \<noteq> lit ''//''" by code_simp
  from parse_idempotent [OF new this] show ?thesis by simp
qed

lemma triple_slash_not_idempotent:
  "fspath_new (lit ''local:///'') = Inr (FsPath (lit ''local://''))"
  "fspath_new (lit ''local://'') = Inr (FsPath (lit ''local:/''))"
  by code_simp+

section \<open>Joining and parents\<close>

lemma trim_end_char_id: "last s \<noteq> c \<or> s = [] \<Longrightarrow> trim_end_char c s = s"
  by (cases s rule: rev_cases) (auto simp: trim_end_char_def)

lemma trim_start_char_id: "hd s \<noteq> c \<or> s = [] \<Longrightarrow> trim_start_char c s = s"
  by (cases s) (auto simp: trim_start_char_def)

lemma rfind_at: "c \<notin> set seg \<Longrightarrow> rfind c (y @ c # seg) = Some (length y)"
proof -
  assume "c \<notin> set seg"
  then have "position (\<lambda>x. x = c) (rev seg @ c # rev y) = Some (length seg)"
    by (induction seg rule: rev_induct) (auto simp: option.map_comp)
  then show ?thesis by (simp add: rfind_def)
qed

lemma rfind_None: "c \<notin> set s \<Longrightarrow> rfind c s = None"
  by (auto simp: rfind_def position_None_iff)

lemma clean_ends: "clean seg \<Longrightarrow> seg \<noteq> [] \<and> hd seg \<noteq> slash \<and> last seg \<noteq> slash"
  by (metis clean_def hd_in_set last_in_set)

definition with_slash :: "ustring \<Rightarrow> ustring" where
  "with_slash b = (if ends_with [slash] b then b else b @ [slash])"

lemma canonical_with_slash:
  assumes "canonical b" and "b \<noteq> []" and "clean seg" and "seg \<noteq> lit ''..''"
  shows "canonical (with_slash b @ seg)"
  using assms(1)
proof cases
  case (relative segs)
  then have "segs \<noteq> []" using assms(2) by auto
  then show ?thesis
    using relative canonical.relative [OF stable_snoc, of segs seg] assms join_ends [of segs]
    by (simp add: with_slash_def ends_with_singleton join_snoc)
next
  case (rooted segs)
  then show ?thesis
    using canonical.rooted [OF stable_snoc, of segs seg] assms join_ends [of segs]
    by (cases "segs = []") (simp_all add: with_slash_def ends_with_singleton join_snoc)
next
  case (drive segs c)
  then show ?thesis
    using canonical.drive [OF stable_snoc, of segs seg c] assms join_ends [of segs]
    by (cases "segs = []") (simp_all add: with_slash_def ends_with_singleton join_snoc)
next
  case (server x)
  then have "last x \<noteq> slash" by (metis last_in_set)
  then show ?thesis
    using server canonical.share [OF _ _ stable_snoc, of x "[]" seg] assms
    by (simp add: with_slash_def ends_with_singleton)
next
  case (share x segs)
  then show ?thesis
    using canonical.share [OF _ _ stable_snoc, of x segs seg] assms join_ends [of segs]
    by (cases "segs = []") (simp_all add: with_slash_def ends_with_singleton join_snoc)
qed

lemma canonical_trailing_slash:
  assumes "canonical b" and "ends_with [slash] b"
  shows "b = [slash] \<or> ends_with [colon, slash] b"
  using assms(1)
proof cases
  case (relative segs)
  then show ?thesis using assms(2) join_ends [of segs] by (cases "segs = []") (simp_all add: ends_with_singleton)
next
  case (rooted segs)
  then show ?thesis using assms(2) join_ends [of segs] by (cases "segs = []") (simp_all add: ends_with_singleton)
next
  case (drive segs c)
  then show ?thesis using assms(2) join_ends [of segs]
    by (cases "segs = []") (simp_all add: ends_with_singleton ends_with_pair)
next
  case (server x)
  then show ?thesis using assms(2) by (auto simp: ends_with_singleton dest: last_in_set)
next
  case (share x segs)
  then show ?thesis using assms(2) join_ends [of segs]
    by (cases "segs = []"; cases x rule: rev_cases) (auto simp: ends_with_singleton ends_with_pair)
qed

text \<open>What \<open>parent\<close> and \<open>file_name\<close> read off a joined body.\<close>

lemma plain_parent_join:
  assumes "scheme_ok sch" and "canonical b" and "b \<noteq> []" and "last b \<noteq> colon" and "hash \<notin> set b"
    and "clean seg" and "hash \<notin> set seg"
  shows "plain_parent (FsPath (sch @ colon # with_slash b @ seg)) = Some (FsPath (sch @ colon # b))"
    and "plain_file_name (FsPath (sch @ colon # with_slash b @ seg)) = Some seg"
proof -
  define y where "y = (if ends_with [slash] b then butlast b else b)"
  have y: "with_slash b = y @ [slash]"
    using append_butlast_last_id [OF assms(3)] by (auto simp: y_def with_slash_def ends_with_singleton)
  have seg: "seg \<noteq> []" "last seg \<noteq> slash" "slash \<notin> set seg"
    using clean_ends [OF assms(6)] assms(6) by (simp_all add: clean_def)
  have hash: "strip_hash (y @ slash # seg) = y @ slash # seg"
  proof -
    have "hash \<notin> set (y @ slash # seg)" using assms(5,7) by (auto simp: y_def dest: in_set_butlastD split: if_splits)
    then show ?thesis using split_once_None [of hash "y @ slash # seg"] by (simp add: strip_hash_def)
  qed
  have trimmed: "trim_end_char slash (y @ slash # seg) = y @ slash # seg"
    using seg by (intro trim_end_char_id) simp
  note read = y scheme_parts [OF assms(1)] hash trimmed rfind_at [OF seg(3)]
  show "plain_file_name (FsPath (sch @ colon # with_slash b @ seg)) = Some seg"
    using seg by (simp add: plain_file_name_def read Let_def)
  have parent: "plain_parent (FsPath (sch @ colon # with_slash b @ seg)) = Some (FsPath (sch @ colon #
      (if y = [] then [slash] else if ends_with [colon] y then y @ [slash] else y)))"
    by (simp add: plain_parent_def read Let_def)
  consider "b = [slash]" | t where "b = t @ [colon, slash]" | "\<not> ends_with [slash] b"
    using canonical_trailing_slash [OF assms(2)] by (auto simp: ends_with_pair)
  then show "plain_parent (FsPath (sch @ colon # with_slash b @ seg)) = Some (FsPath (sch @ colon # b))"
  proof cases
    case 1
    then show ?thesis unfolding parent by (simp add: y_def ends_with_singleton)
  next
    case (2 t)
    then have "y = t @ [colon]" by (simp add: y_def ends_with_singleton butlast_append)
    then show ?thesis unfolding parent using 2 by (simp add: ends_with_singleton)
  next
    case 3
    then show ?thesis unfolding parent using assms(3,4) by (simp add: y_def ends_with_singleton)
  qed
qed

text \<open>
  Joining a name to a path and asking for the parent gives the path back, and the last segment of
  the result is the name: for every canonical path of a scheme other than \<open>archive\<close> with a body that
  is not empty, not \<open>//\<close>, does not end in a colon and has no \<open>#\<close>, and every name without separators
  that is neither \<open>.\<close> nor \<open>..\<close>.
\<close>

theorem join_parent_roundtrip:
  assumes "fspath_new raw = Inr p" and "scheme p \<noteq> SCHEME_ARCHIVE" and "hash \<notin> set (as_str p)"
    and "without_scheme p \<noteq> []" and "without_scheme p \<noteq> lit ''//''" and "last (without_scheme p) \<noteq> colon"
    and "clean seg" and "seg \<noteq> lit ''..''" and "hash \<notin> set seg"
  shows "path_parent (path_join p seg) = Some p \<and> file_name (path_join p seg) = Some seg"
  using assms(1)
proof (cases rule: fspath_new_cases)
  case (1 sch body)
  define b where "b = normalise_body body"
  have p: "p = FsPath (sch @ colon # b)" using 1(3) by (cases p) (simp add: b_def)
  note sp = scheme_parts [OF 1(1)]
  have b: "b \<noteq> []" "last b \<noteq> colon" "hash \<notin> set b" and not_archive: "sch \<noteq> SCHEME_ARCHIVE"
    and "b \<noteq> [slash, slash]" using assms(2-6) by (simp_all add: p sp)
  then have can: "canonical b" using canonical_or_double b_def by blast
  have "hash \<notin> set (with_slash b @ seg)" using b(3) assms(9) by (auto simp: with_slash_def)
  then have "path_join p seg = FsPath (sch @ colon # with_slash b @ seg)"
    using b(1) fspath_new_plain [OF 1(1), of "with_slash b @ seg"] not_archive
      normalise_canonical [OF canonical_with_slash [OF can b(1) assms(7,8)]]
      trim_start_char_id [of seg slash] clean_ends [OF assms(7)]
    by (simp add: path_join_def archive_parts_def plain_join_def p sp Let_def with_slash_def)
  then show ?thesis
    using plain_parent_join [OF 1(1) can b assms(7,9)] not_archive by (simp add: path_parent_def file_name_def sp p)
next
  case (2 sch main tail)
  then show ?thesis using assms(3) by simp
qed

theorem join_parent_roundtrip_witness:
  "path_parent (path_join (FsPath (lit ''local:c:/'')) (lit ''a.txt'')) = Some (FsPath (lit ''local:c:/''))"
proof -
  have "fspath_new (lit ''local:c:/'') = Inr (FsPath (lit ''local:c:/''))"
    "scheme (FsPath (lit ''local:c:/'')) \<noteq> SCHEME_ARCHIVE" "hash \<notin> set (as_str (FsPath (lit ''local:c:/'')))"
    "without_scheme (FsPath (lit ''local:c:/'')) \<noteq> []" "without_scheme (FsPath (lit ''local:c:/'')) \<noteq> lit ''//''"
    "last (without_scheme (FsPath (lit ''local:c:/''))) \<noteq> colon"
    "clean (lit ''a.txt'')" "lit ''a.txt'' \<noteq> lit ''..''" "hash \<notin> set (lit ''a.txt'')"
    by code_simp+
  from join_parent_roundtrip [OF this] show ?thesis by simp
qed

section \<open>Archives\<close>

lemma strip_prefix_app: "strip_prefix p (p @ s) = Some s"
  by (simp add: strip_prefix_Some_iff)

lemma archive_parts_at:
  assumes "hash \<notin> set b"
  shows "archive_parts (FsPath (SCHEME_ARCHIVE @ colon # b @ hash # t)) = Some (SCHEME_ARCHIVE @ colon # b, t)"
proof -
  have "hash \<notin> set (SCHEME_ARCHIVE @ colon # b)" using assms scheme_ok_chars [of SCHEME_ARCHIVE] by simp
  from split_once_at [OF this, of t] show ?thesis by (simp add: archive_parts_def scheme_parts)
qed

lemma archive_prefix: "strip_prefix (SCHEME_ARCHIVE @ [colon]) (SCHEME_ARCHIVE @ colon # b) = Some b"
  using strip_prefix_app [of "SCHEME_ARCHIVE @ [colon]" b] by simp

lemma last_split_char: "c \<notin> set seg \<Longrightarrow> last (split_char c (y @ c # seg)) = seg"
proof -
  assume seg: "c \<notin> set seg"
  have "\<exists>ps. ps \<noteq> [] \<and> split_char c (y @ c # seg) = ps @ [seg]"
  proof (induction y)
    case (Cons a y)
    then obtain p ps where "split_char c (y @ c # seg) = (p # ps) @ [seg]" by (metis list.exhaust)
    then show ?case by (cases "a = c") (auto intro: exI [of _ "[] # p # ps"] exI [of _ "(a # p) # ps"])
  qed (use seg in \<open>simp add: split_char_plain\<close>)
  then show ?thesis by fastforce
qed

lemma canonical_backslash: "canonical b \<Longrightarrow> backslash \<notin> set b"
  by (induction rule: canonical.induct) (auto simp: is_ascii_alphabetic_def dest: backslash_join)

text \<open>
  A path into an archive knows its parts: built from a local archive file and an inner path it
  gives both back, joining a name keeps the archive file and adds the name as the last segment, and
  the parent of the result is the path again.
\<close>

theorem archive_roundtrip:
  assumes "fspath_new raw = Inr f" and "scheme f = SCHEME_LOCAL" and "hash \<notin> set (as_str f)"
    and "without_scheme f \<noteq> lit ''//''" and "inner = [] \<or> last inner \<noteq> slash" and "seg \<noteq> []" and "slash \<notin> set seg"
  shows "\<exists>a. archive_from_file f inner = Inr a \<and> archive_container a = Some f \<and> archive_inner a = Some inner
    \<and> path_parent (path_join a seg) = Some a \<and> file_name (path_join a seg) = Some seg
    \<and> archive_container (path_join a seg) = Some f"
  using assms(1)
proof (cases rule: fspath_new_cases)
  case (1 sch body)
  define b where "b = normalise_body body"
  define a where "a t = FsPath (SCHEME_ARCHIVE @ colon # b @ hash # t)" for t
  define t where "t = (if inner = [] then seg else inner @ slash # seg)"
  have f: "f = FsPath (SCHEME_LOCAL @ colon # b)"
    using 1(1,3) assms(2) scheme_parts(1) [OF 1(1)] by (cases f) (simp add: b_def)
  have hash: "hash \<notin> set b" and "b \<noteq> [slash, slash]" using assms(3,4) by (simp_all add: f scheme_parts)
  then have can: "canonical b" using canonical_or_double b_def by blast
  have new: "fspath_new (SCHEME_ARCHIVE @ colon # b @ hash # t) = Inr (a t)" for t
    using fspath_new_hash [OF _ hash] normalise_canonical [OF can] by (simp add: a_def)
  have from_file: "archive_from_file f inner = Inr (a inner)"
    using new by (simp add: archive_from_file_def to_local_def f scheme_parts slashed_id canonical_backslash [OF can])
  have container: "archive_container (a t) = Some f" for t
    using fspath_new_plain [OF scheme_ok_fixed(1) hash] normalise_canonical [OF can]
    by (simp add: archive_container_def a_def archive_parts_at [OF hash] archive_prefix ok_def f)
  have ends: "hd seg \<noteq> slash" "last seg \<noteq> slash" using assms(6,7) by (metis hd_in_set, metis last_in_set)
  have joined: "path_join (a inner) seg = a t"
    using new assms(5) ends
    by (auto simp: path_join_def a_def archive_parts_at [OF hash] archive_prefix trim_start_char_id t_def ends_with_singleton Let_def)
  have t: "t \<noteq> []" "trim_end_char slash t = t" using assms(6) ends by (auto simp: t_def intro!: trim_end_char_id)
  have sch: "scheme (a t) = SCHEME_ARCHIVE" by (simp add: a_def scheme_parts)
  have "file_name (a t) = Some seg"
    using t assms(7) by (simp add: file_name_def sch) (simp add: a_def archive_parts_at [OF hash] Let_def t_def
        last_split_char split_char_plain)
  moreover have "path_parent (a t) = Some (a inner)"
    using t assms(7) new
    by (cases "inner = []") (simp_all add: path_parent_def sch, simp_all add: archive_parent_def a_def
        archive_parts_at [OF hash] archive_prefix Let_def t_def rfind_at rfind_None ok_def)
  moreover have "archive_inner (a inner) = Some inner" by (simp add: archive_inner_def a_def archive_parts_at [OF hash])
  ultimately show ?thesis using from_file container joined by auto
next
  case (2 sch main tail)
  then show ?thesis using assms(3) by simp
qed

theorem archive_roundtrip_witness:
  "\<exists>a. archive_from_file (FsPath (lit ''local:c:/a.zip'')) (lit ''docs'') = Inr a
    \<and> path_parent (path_join a (lit ''x'')) = Some a"
proof -
  have "fspath_new (lit ''local:c:/a.zip'') = Inr (FsPath (lit ''local:c:/a.zip''))"
    "scheme (FsPath (lit ''local:c:/a.zip'')) = SCHEME_LOCAL" "hash \<notin> set (as_str (FsPath (lit ''local:c:/a.zip'')))"
    "without_scheme (FsPath (lit ''local:c:/a.zip'')) \<noteq> lit ''//''"
    "lit ''docs'' = [] \<or> last (lit ''docs'') \<noteq> slash" "lit ''x'' \<noteq> []" "slash \<notin> set (lit ''x'')"
    by code_simp+
  from archive_roundtrip [OF this] show ?thesis by blast
qed

end
