(* ===== verification/Job_Queue.thy ===== *)
theory Job_Queue
  imports Unicode_Text "HOL-Library.AList"
begin

text \<open>
  The background job queue (crates/orchid-core/src/job/mod.rs).  Two parts: the tables of interval
  jobs, whose operations are functions on the queue state, and the keyed single-flight gate of
  \<open>run_coalesced\<close>, whose callers run concurrently.  For the gate every section between two lock
  operations is one step of a caller, and a run is any interleaving of such steps with the other
  operations of the queue.  A flight state is an object of its own, shared through \<open>Arc\<close>: callers
  and the table \<open>flights\<close> refer to it by its index.  Spawned tasks are recorded with the time of
  their first tick; aborting one adds it to \<open>aborted\<close>.  Times are milliseconds.
\<close>

section \<open>State\<close>

record FlightState =
  running :: bool
  pending :: bool

record Task =
  task_key :: ustring
  first_tick :: nat
  tick_interval :: nat

record JobQueue =
  jobs :: "(ustring \<times> nat) list"
  handles :: "(ustring \<times> nat) list"
  flights :: "(ustring \<times> nat) list"
  last_run :: "(ustring \<times> nat) list"
  shut_down :: bool
  flight_states :: "FlightState list"
  spawned :: "Task list"
  aborted :: "nat list"

definition queue_new :: JobQueue where
  "queue_new = \<lparr>jobs = [], handles = [], flights = [], last_run = [], shut_down = False,
     flight_states = [], spawned = [], aborted = []\<rparr>"

section \<open>Interval jobs\<close>

definition abort_job :: "ustring \<Rightarrow> JobQueue \<Rightarrow> JobQueue" where
  "abort_job key q =
    (case map_of (jobs q) key of
       None \<Rightarrow> q
     | Some t \<Rightarrow> q\<lparr>jobs := AList.delete key (jobs q), aborted := t # aborted q\<rparr>)"

definition pause :: "ustring \<Rightarrow> JobQueue \<Rightarrow> JobQueue" where
  "pause key q = (let q = abort_job key q in q\<lparr>handles := AList.delete key (handles q)\<rparr>)"

definition schedule_factory_after :: "nat \<Rightarrow> ustring \<Rightarrow> nat \<Rightarrow> nat \<Rightarrow> JobQueue \<Rightarrow> JobQueue" where
  "schedule_factory_after now key first_delay interval q =
    (if shut_down q then q
     else let q = pause key q;
              t = length (spawned q);
              q = q\<lparr>spawned := spawned q @ [\<lparr>task_key = key, first_tick = now + first_delay, tick_interval = interval\<rparr>]\<rparr>
          in q\<lparr>jobs := AList.update key t (jobs q), handles := AList.update key t (handles q)\<rparr>)"

definition schedule_factory :: "nat \<Rightarrow> ustring \<Rightarrow> nat \<Rightarrow> JobQueue \<Rightarrow> JobQueue" where
  "schedule_factory now key interval q = schedule_factory_after now key 0 interval q"

definition schedule :: "nat \<Rightarrow> ustring \<Rightarrow> nat \<Rightarrow> JobQueue \<Rightarrow> JobQueue" where
  "schedule now key interval q = (if shut_down q then q else schedule_factory now key interval q)"

definition is_scheduled :: "JobQueue \<Rightarrow> ustring \<Rightarrow> bool" where
  "is_scheduled q key \<longleftrightarrow> map_of (jobs q) key \<noteq> None"

definition queue_len :: "JobQueue \<Rightarrow> nat" where
  "queue_len q = length (jobs q)"

definition queue_is_empty :: "JobQueue \<Rightarrow> bool" where
  "queue_is_empty q \<longleftrightarrow> queue_len q = 0"

definition resume :: "nat \<Rightarrow> ustring \<Rightarrow> nat \<Rightarrow> JobQueue \<Rightarrow> JobQueue" where
  "resume now key interval q =
    (if is_scheduled q key then q
     else let elapsed = (case map_of (last_run q) key of Some stamped \<Rightarrow> now - stamped | None \<Rightarrow> interval)
          in schedule_factory_after now key (interval - elapsed) interval q)"

text \<open>The end of a tick of a task: its key is stamped.\<close>

definition stamp :: "nat \<Rightarrow> nat \<Rightarrow> JobQueue \<Rightarrow> JobQueue" where
  "stamp now t q =
    (if t < length (spawned q) \<and> t \<notin> set (aborted q)
     then q\<lparr>last_run := AList.update (task_key (spawned q ! t)) now (last_run q)\<rparr> else q)"

definition cancel :: "ustring \<Rightarrow> JobQueue \<Rightarrow> JobQueue" where
  "cancel key q =
    (let q = abort_job key q;
         q = q\<lparr>handles := AList.delete key (handles q)\<rparr>;
         q = q\<lparr>last_run := AList.delete key (last_run q)\<rparr>
     in case map_of (flights q) key of
          None \<Rightarrow> q
        | Some f \<Rightarrow> if \<not> running (flight_states q ! f) then q\<lparr>flights := AList.delete key (flights q)\<rparr> else q)"

definition shutdown :: "JobQueue \<Rightarrow> JobQueue" where
  "shutdown q =
    (let q = q\<lparr>shut_down := True\<rparr>;
         q = q\<lparr>aborted := map snd (jobs q) @ aborted q, jobs := []\<rparr>
     in q\<lparr>handles := [], flights := [], last_run := []\<rparr>)"

section \<open>The single-flight gate\<close>

definition flight_entry :: "ustring \<Rightarrow> JobQueue \<Rightarrow> JobQueue \<times> nat" where
  "flight_entry key q =
    (case map_of (flights q) key of
       Some f \<Rightarrow> (q, f)
     | None \<Rightarrow>
         let f = length (flight_states q)
         in (q\<lparr>flight_states := flight_states q @ [\<lparr>running = False, pending = False\<rparr>],
               flights := AList.update key f (flights q)\<rparr>, f))"

text \<open>The flag tells whether the caller has become the leader.\<close>

definition flight_begin :: "nat \<Rightarrow> JobQueue \<Rightarrow> JobQueue \<times> bool" where
  "flight_begin f q =
    (let slot = flight_states q ! f
     in if running slot then (q\<lparr>flight_states := (flight_states q)[f := slot\<lparr>pending := True\<rparr>]\<rparr>, False)
        else (q\<lparr>flight_states := (flight_states q)[f := \<lparr>running = True, pending = False\<rparr>]\<rparr>, True))"

text \<open>After a factory call: the flag tells whether the leader calls the factory again.\<close>

definition flight_end :: "nat \<Rightarrow> JobQueue \<Rightarrow> JobQueue \<times> bool" where
  "flight_end f q =
    (let slot = flight_states q ! f
     in if pending slot then (q\<lparr>flight_states := (flight_states q)[f := slot\<lparr>pending := False\<rparr>]\<rparr>, True)
        else (q\<lparr>flight_states := (flight_states q)[f := slot\<lparr>running := False\<rparr>]\<rparr>, False))"

text \<open>
  Where a caller of \<open>run_coalesced\<close> is: before the call, past the check for shutdown, with the flight
  state of the key, in a factory call as the leader, or done.
\<close>

datatype caller = Idle | Checked ustring | Holding ustring nat | Leading ustring nat | Returned

datatype flight_event = Requested nat nat | Started nat nat

record JobSystem =
  queue :: JobQueue
  callers :: "nat \<Rightarrow> caller"
  trace :: "flight_event list"

datatype label =
    Call nat ustring
  | Entry nat
  | Begin nat
  | Finish nat
  | Drop nat
  | Cancel ustring
  | Shutdown
  | Pause ustring
  | Schedule nat ustring nat
  | Resume nat ustring nat
  | Stamp nat nat

text \<open>
  \<open>Drop\<close> is the loss of a caller's future at its \<open>await\<close>, as when the interval job that awaits
  \<open>run_coalesced\<close> is aborted.  The trace lists the requests and factory calls, newest first.
\<close>

fun sys_step :: "label \<Rightarrow> JobSystem \<Rightarrow> JobSystem option" where
  "sys_step (Call c key) s =
    (if callers s c = Idle
     then Some (s\<lparr>callers := (callers s)(c := if shut_down (queue s) then Returned else Checked key)\<rparr>) else None)"
| "sys_step (Entry c) s =
    (case callers s c of
       Checked key \<Rightarrow>
         (case flight_entry key (queue s) of
            (q, f) \<Rightarrow> Some (s\<lparr>queue := q, callers := (callers s)(c := Holding key f)\<rparr>))
     | _ \<Rightarrow> None)"
| "sys_step (Begin c) s =
    (case callers s c of
       Holding key f \<Rightarrow>
         (case flight_begin f (queue s) of
            (q, True) \<Rightarrow> Some \<lparr>queue = q, callers = (callers s)(c := Leading key f),
                trace = Started c f # Requested c f # trace s\<rparr>
          | (q, False) \<Rightarrow> Some \<lparr>queue = q, callers = (callers s)(c := Returned), trace = Requested c f # trace s\<rparr>)
     | _ \<Rightarrow> None)"
| "sys_step (Finish c) s =
    (case callers s c of
       Leading key f \<Rightarrow>
         (case flight_end f (queue s) of
            (q, True) \<Rightarrow> Some (s\<lparr>queue := q, trace := Started c f # trace s\<rparr>)
          | (q, False) \<Rightarrow> Some (s\<lparr>queue := q, callers := (callers s)(c := Returned)\<rparr>))
     | _ \<Rightarrow> None)"
| "sys_step (Drop c) s =
    (case callers s c of
       Leading _ _ \<Rightarrow> Some (s\<lparr>callers := (callers s)(c := Returned)\<rparr>)
     | _ \<Rightarrow> None)"
| "sys_step (Cancel key) s = Some (s\<lparr>queue := cancel key (queue s)\<rparr>)"
| "sys_step Shutdown s = Some (s\<lparr>queue := shutdown (queue s)\<rparr>)"
| "sys_step (Pause key) s = Some (s\<lparr>queue := pause key (queue s)\<rparr>)"
| "sys_step (Schedule now key interval) s = Some (s\<lparr>queue := schedule now key interval (queue s)\<rparr>)"
| "sys_step (Resume now key interval) s = Some (s\<lparr>queue := resume now key interval (queue s)\<rparr>)"
| "sys_step (Stamp now t) s = Some (s\<lparr>queue := stamp now t (queue s)\<rparr>)"

definition sys_init :: JobSystem where
  "sys_init = \<lparr>queue = queue_new, callers = (\<lambda>_. Idle), trace = []\<rparr>"

inductive sys_run :: "label list \<Rightarrow> JobSystem \<Rightarrow> JobSystem \<Rightarrow> bool" where
  sys_run_Nil: "sys_run [] s s"
| sys_run_snoc: "sys_run ls s t \<Longrightarrow> sys_step l t = Some u \<Longrightarrow> sys_run (ls @ [l]) s u"

code_pred sys_run .

inductive_cases sys_run_NilE: "sys_run [] s t"

section \<open>What the table operations leave alone\<close>

lemma abort_job_simps [simp]:
  "flights (abort_job k q) = flights q" "flight_states (abort_job k q) = flight_states q"
  "spawned (abort_job k q) = spawned q" "shut_down (abort_job k q) = shut_down q"
  by (simp_all add: abort_job_def split: option.split)

lemma table_ops_gate [simp]:
  "flights (pause k q) = flights q" "flight_states (pause k q) = flight_states q"
  "flights (schedule_factory_after now k d i q) = flights q" "flight_states (schedule_factory_after now k d i q) = flight_states q"
  "flights (schedule now k i q) = flights q" "flight_states (schedule now k i q) = flight_states q"
  "flights (resume now k i q) = flights q" "flight_states (resume now k i q) = flight_states q"
  "flights (stamp now t q) = flights q" "flight_states (stamp now t q) = flight_states q"
  "flight_states (cancel k q) = flight_states q" "flight_states (shutdown q) = flight_states q"
  by (simp_all add: pause_def schedule_factory_after_def schedule_factory_def schedule_def resume_def stamp_def
      cancel_def shutdown_def Let_def split: option.split)

lemma flights_removed:
  "map_of (flights (cancel k q)) j = Some f \<Longrightarrow> map_of (flights q) j = Some f"
  "map_of (flights (shutdown q)) j = Some f \<Longrightarrow> map_of (flights q) j = Some f"
  by (auto simp: cancel_def shutdown_def Let_def delete_conv' split: option.splits if_splits)

section \<open>Exclusion\<close>

abbreviation slots :: "JobSystem \<Rightarrow> FlightState list" where
  "slots s \<equiv> flight_states (queue s)"

definition leads :: "JobSystem \<Rightarrow> nat \<Rightarrow> nat \<Rightarrow> bool" where
  "leads s c f \<longleftrightarrow> (\<exists>k. callers s c = Leading k f)"

definition gate_inv :: "JobSystem \<Rightarrow> bool" where
  "gate_inv s \<longleftrightarrow>
    (\<forall>c k f. callers s c = Holding k f \<or> callers s c = Leading k f \<longrightarrow> f < length (slots s))
    \<and> (\<forall>k f. map_of (flights (queue s)) k = Some f \<longrightarrow> f < length (slots s))
    \<and> (\<forall>c f. leads s c f \<longrightarrow> running (slots s ! f))
    \<and> (\<forall>c c' f. leads s c f \<longrightarrow> leads s c' f \<longrightarrow> c = c')"

lemma gate_inv_init: "gate_inv sys_init"
  by (simp add: gate_inv_def sys_init_def queue_new_def leads_def)

lemma gate_inv_same:
  assumes "gate_inv s" and "slots t = slots s" and "callers t = callers s"
    and "\<And>k f. map_of (flights (queue t)) k = Some f \<Longrightarrow> map_of (flights (queue s)) k = Some f"
  shows "gate_inv t"
  using assms unfolding gate_inv_def leads_def by metis

lemma gate_inv_call:
  assumes "gate_inv s" and "slots t = slots s" and "flights (queue t) = flights (queue s)"
    and "callers t = (callers s)(c := p)" and "p = Returned \<or> p = Checked k"
  shows "gate_inv t"
  using assms unfolding gate_inv_def leads_def by (auto split: if_splits)

lemma gate_inv_entry:
  assumes "gate_inv s" and "flight_entry k (queue s) = (q, f)"
  shows "gate_inv (s\<lparr>queue := q, callers := (callers s)(c := Holding k f)\<rparr>)"
proof (cases "map_of (flights (queue s)) k")
  case (Some g)
  then show ?thesis using assms by (auto simp: gate_inv_def leads_def flight_entry_def split: if_splits)
next
  case None
  then have q: "f = length (slots s)" "flight_states q = slots s @ [\<lparr>running = False, pending = False\<rparr>]"
    "flights q = AList.update k f (flights (queue s))"
    using assms(2) by (auto simp: flight_entry_def Let_def)
  have "g < length (slots s)" "running (slots s ! g)" if "leads s d g" for d g
    using assms(1) that by (auto simp: gate_inv_def leads_def)
  then have old: "g < length (slots s) \<and> running (flight_states q ! g)" if "leads s d g" for d g
    using that by (simp add: q(2) nth_append)
  then show ?thesis
    using assms(1) unfolding gate_inv_def leads_def
    by (auto simp: q(1,2,3) update_conv' nth_append less_SucI split: if_splits)
qed

lemma gate_inv_begin:
  assumes "gate_inv s" and "callers s c = Holding k f" and "sys_step (Begin c) s = Some t"
  shows "gate_inv t"
proof -
  have f: "f < length (slots s)" using assms(1,2) by (auto simp: gate_inv_def)
  show ?thesis
  proof (cases "running (slots s ! f)")
    case True
    then have "slots t = (slots s)[f := (slots s ! f)\<lparr>pending := True\<rparr>]" "callers t = (callers s)(c := Returned)"
      "flights (queue t) = flights (queue s)"
      using assms(2,3) by (auto simp: flight_begin_def Let_def)
    then show ?thesis using assms(1) True f unfolding gate_inv_def leads_def
      by (auto simp: nth_list_update split: if_splits)
  next
    case False
    then have "slots t = (slots s)[f := \<lparr>running = True, pending = False\<rparr>]" "callers t = (callers s)(c := Leading k f)"
      "flights (queue t) = flights (queue s)"
      using assms(2,3) by (auto simp: flight_begin_def Let_def)
    moreover have "\<not> leads s d f" for d using assms(1) False by (auto simp: gate_inv_def)
    ultimately show ?thesis using assms(1) f unfolding gate_inv_def leads_def
      by (auto simp: nth_list_update split: if_splits)
  qed
qed

lemma gate_inv_finish:
  assumes "gate_inv s" and "callers s c = Leading k f" and "sys_step (Finish c) s = Some t"
  shows "gate_inv t"
proof -
  have lead: "leads s c f" using assms(2) by (simp add: leads_def)
  have f: "f < length (slots s)" "running (slots s ! f)" and only: "\<And>d. leads s d f \<Longrightarrow> d = c"
    using assms(1,2) lead unfolding gate_inv_def by blast+
  show ?thesis
  proof (cases "pending (slots s ! f)")
    case True
    then have "slots t = (slots s)[f := (slots s ! f)\<lparr>pending := False\<rparr>]" "callers t = callers s"
      "flights (queue t) = flights (queue s)"
      using assms(2,3) by (auto simp: flight_end_def Let_def)
    then show ?thesis using assms(1) f unfolding gate_inv_def leads_def
      by (auto simp: nth_list_update split: if_splits)
  next
    case False
    then have t: "slots t = (slots s)[f := (slots s ! f)\<lparr>running := False\<rparr>]" "callers t = (callers s)(c := Returned)"
      "flights (queue t) = flights (queue s)"
      using assms(2,3) by (auto simp: flight_end_def Let_def)
    have old: "leads s d g \<and> g \<noteq> f" if "leads t d g" for d g
      using only that by (auto simp: leads_def t(2) split: if_splits)
    have "running (slots t ! g)" if "leads t d g" for d g
    proof -
      have "running (slots s ! g)" using assms(1) old [OF that] unfolding gate_inv_def by blast
      then show ?thesis using old [OF that] by (simp add: t(1))
    qed
    moreover have "c = c'" if "leads t c g" "leads t c' g" for c c' g
      using that old assms(1) unfolding gate_inv_def by blast
    moreover have "callers t d = Holding j g \<or> callers t d = Leading j g \<Longrightarrow> g < length (slots s)" for d j g
      using assms(1) by (auto simp: gate_inv_def t(2) split: if_splits)
    ultimately show ?thesis using assms(1) unfolding gate_inv_def t(3) by (simp add: t(1))
  qed
qed

lemma gate_inv_step:
  assumes "gate_inv s" and "sys_step l s = Some t"
  shows "gate_inv t"
proof (cases l)
  case (Call c k)
  then show ?thesis using assms by (auto split: if_splits intro: gate_inv_call [of s _ c])
next
  case (Entry c)
  then show ?thesis using assms by (auto split: caller.splits prod.splits intro: gate_inv_entry)
next
  case (Begin c)
  then obtain k f where "callers s c = Holding k f" using assms(2) by (auto split: caller.splits)
  then show ?thesis using gate_inv_begin assms Begin by blast
next
  case (Finish c)
  then obtain k f where "callers s c = Leading k f" using assms(2) by (auto split: caller.splits)
  then show ?thesis using gate_inv_finish assms Finish by blast
next
  case (Drop c)
  then show ?thesis using assms by (auto split: caller.splits intro: gate_inv_call [of s _ c])
next
  case (Cancel k)
  then show ?thesis using assms by (auto intro!: gate_inv_same [OF assms(1)] dest: flights_removed)
next
  case Shutdown
  then show ?thesis using assms by (auto intro!: gate_inv_same [OF assms(1)] dest: flights_removed)
qed (use assms in \<open>auto intro: gate_inv_same [of s]\<close>)

lemma gate_inv_run: "sys_run ls sys_init s \<Longrightarrow> gate_inv s"
  by (induction ls sys_init s rule: sys_run.induct) (auto simp: gate_inv_init intro: gate_inv_step)

text \<open>Without cancellation and shutdown every caller has the flight state that the table has for its key.\<close>

definition removal :: "label \<Rightarrow> bool" where
  "removal l \<longleftrightarrow> (case l of Cancel _ \<Rightarrow> True | Shutdown \<Rightarrow> True | _ \<Rightarrow> False)"

definition keyed_inv :: "JobSystem \<Rightarrow> bool" where
  "keyed_inv s \<longleftrightarrow> (\<forall>c k f. callers s c = Holding k f \<or> callers s c = Leading k f \<longrightarrow> map_of (flights (queue s)) k = Some f)"

lemma keyed_inv_step:
  assumes "keyed_inv s" and "sys_step l s = Some t" and "\<not> removal l"
  shows "keyed_inv t"
proof (cases l)
  case (Entry c)
  then obtain k q f where k: "callers s c = Checked k" "flight_entry k (queue s) = (q, f)"
    "t = s\<lparr>queue := q, callers := (callers s)(c := Holding k f)\<rparr>"
    using assms(2) by (auto split: caller.splits prod.splits)
  have new: "map_of (flights q) k = Some f"
    and old: "map_of (flights (queue s)) j = Some g \<Longrightarrow> map_of (flights q) j = Some g" for j g
    using k(2) by (auto simp: flight_entry_def Let_def update_conv' split: option.splits)
  then show ?thesis using assms(1) unfolding keyed_inv_def k(3) by simp
qed (use assms in \<open>auto simp: keyed_inv_def removal_def flight_begin_def flight_end_def Let_def split: caller.splits if_splits\<close>)

lemma keyed_inv_run:
  assumes "sys_run ls sys_init s" and "\<not> list_ex removal ls"
  shows "keyed_inv s"
  using assms
proof (induction ls sys_init s rule: sys_run.induct)
  case sys_run_Nil
  then show ?case by (simp add: keyed_inv_def sys_init_def)
next
  case (sys_run_snoc ls t l u)
  then show ?case using keyed_inv_step by auto
qed

section \<open>Requests are served\<close>

primrec flight_of :: "flight_event \<Rightarrow> nat" where
  "flight_of (Requested _ f) = f"
| "flight_of (Started _ f) = f"

definition events_of :: "JobSystem \<Rightarrow> nat \<Rightarrow> flight_event list" where
  "events_of s f = filter (\<lambda>e. flight_of e = f) (trace s)"

definition settled :: "flight_event list \<Rightarrow> bool" where
  "settled es \<longleftrightarrow> (case es of Requested _ _ # _ \<Rightarrow> False | _ \<Rightarrow> True)"

definition slot_ok :: "bool \<Rightarrow> FlightState \<Rightarrow> flight_event list \<Rightarrow> bool" where
  "slot_ok led x es \<longleftrightarrow> (running x \<longrightarrow> led) \<and> (if pending x then running x else settled es)"

definition served_inv :: "JobSystem \<Rightarrow> bool" where
  "served_inv s \<longleftrightarrow>
    (\<forall>f<length (slots s). slot_ok (\<exists>c. leads s c f) (slots s ! f) (events_of s f))
    \<and> (\<forall>e\<in>set (trace s). flight_of e < length (slots s))"

lemma slot_ok_mono: "slot_ok a x es \<Longrightarrow> (a \<Longrightarrow> b) \<Longrightarrow> slot_ok b x es"
  by (simp add: slot_ok_def)

definition drop_label :: "label \<Rightarrow> bool" where
  "drop_label l \<longleftrightarrow> (case l of Drop _ \<Rightarrow> True | _ \<Rightarrow> False)"

lemma served_inv_same:
  assumes "served_inv s" and "slots t = slots s" and "trace t = trace s" and "\<And>c f. leads s c f \<Longrightarrow> leads t c f"
  shows "served_inv t"
proof -
  have "slot_ok (\<exists>c. leads t c f) (slots t ! f) (events_of t f)" if "f < length (slots s)" for f
    using assms(1,4) that by (auto simp: served_inv_def assms(2,3) events_of_def intro: slot_ok_mono)
  then show ?thesis using assms(1) by (simp add: served_inv_def assms(2,3))
qed

lemma served_inv_entry:
  assumes "served_inv s" and "callers s c = Checked k" and "flight_entry k (queue s) = (q, f)"
  shows "served_inv (s\<lparr>queue := q, callers := (callers s)(c := Holding k f)\<rparr>)" (is "served_inv ?t")
proof -
  have keep: "leads ?t d g" if "leads s d g" for d g using that assms(2) by (auto simp: leads_def)
  show ?thesis
  proof (cases "map_of (flights (queue s)) k")
    case (Some g)
    then show ?thesis using assms keep by (intro served_inv_same [OF assms(1)]) (auto simp: flight_entry_def)
  next
    case None
    then have q: "flight_states q = slots s @ [\<lparr>running = False, pending = False\<rparr>]"
      using assms(3) by (auto simp: flight_entry_def Let_def)
    have "events_of s (length (slots s)) = []"
      using assms(1) by (auto simp: served_inv_def events_of_def filter_empty_conv)
    moreover have "events_of ?t g = events_of s g" for g by (simp add: events_of_def)
    ultimately have "slot_ok (\<exists>c. leads ?t c g) (slots ?t ! g) (events_of ?t g)" if "g < length (slots ?t)" for g
    proof (cases "g = length (slots s)")
      case False
      then have "slot_ok (\<exists>c. leads s c g) (slots s ! g) (events_of s g)" "slots ?t ! g = slots s ! g"
        using that assms(1) by (auto simp: served_inv_def q nth_append)
      then show ?thesis using keep by (auto simp: events_of_def intro: slot_ok_mono)
    qed (simp add: q slot_ok_def settled_def)
    then show ?thesis using assms(1) unfolding served_inv_def by (auto simp: q less_SucI)
  qed
qed

text \<open>A step of a caller at flight \<open>f\<close> that logs \<open>es\<close> and replaces the flight state.\<close>

lemma served_inv_update:
  assumes "served_inv s" and "f < length (slots s)" and "slots t = (slots s)[f := x]" and "trace t = es @ trace s"
    and "\<forall>e\<in>set es. flight_of e = f" and "\<And>d g. g \<noteq> f \<Longrightarrow> leads s d g \<Longrightarrow> leads t d g"
    and "slot_ok (\<exists>c. leads t c f) x (es @ events_of s f)"
  shows "served_inv t"
proof -
  have ev: "events_of t g = (if g = f then es @ events_of s f else events_of s g)" for g
    using assms(4,5) by (auto simp: events_of_def filter_id_conv filter_empty_conv)
  have "slot_ok (\<exists>c. leads t c g) (slots t ! g) (events_of t g)" if "g < length (slots s)" for g
  proof (cases "g = f")
    case False
    then have "slot_ok (\<exists>c. leads s c g) (slots s ! g) (events_of s g)" using that assms(1) by (simp add: served_inv_def)
    then show ?thesis using False assms(6) by (auto simp: ev assms(3) intro: slot_ok_mono)
  qed (use assms(2,7) in \<open>simp add: ev assms(3)\<close>)
  then show ?thesis using assms(1,2,3,4,5) unfolding served_inv_def by auto
qed

lemma served_inv_begin:
  assumes "served_inv s" and "gate_inv s" and "callers s c = Holding k f" and "sys_step (Begin c) s = Some t"
  shows "served_inv t"
proof -
  have f: "f < length (slots s)" using assms(2,3) by (auto simp: gate_inv_def)
  have keep: "leads t d g" if "leads s d g" for d g
    using that assms(3,4) by (auto simp: leads_def flight_begin_def Let_def split: if_splits)
  show ?thesis
  proof (cases "running (slots s ! f)")
    case True
    then obtain d where "leads s d f" using assms(1) f by (auto simp: served_inv_def slot_ok_def)
    then have "slot_ok (\<exists>c. leads t c f) ((slots s ! f)\<lparr>pending := True\<rparr>) ([Requested c f] @ events_of s f)"
      using keep True by (auto simp: slot_ok_def)
    then show ?thesis
      using True assms(3,4) keep
      by (intro served_inv_update [OF assms(1) f, of t _ "[Requested c f]"]) (auto simp: flight_begin_def Let_def)
  next
    case False
    then have "slot_ok (\<exists>c. leads t c f) \<lparr>running = True, pending = False\<rparr> ([Started c f, Requested c f] @ events_of s f)"
      using assms(3,4) by (auto simp: slot_ok_def settled_def leads_def flight_begin_def Let_def)
    then show ?thesis
      using False assms(3,4) keep
      by (intro served_inv_update [OF assms(1) f, of t _ "[Started c f, Requested c f]"]) (auto simp: flight_begin_def Let_def)
  qed
qed

lemma served_inv_finish:
  assumes "served_inv s" and "gate_inv s" and "callers s c = Leading k f" and "sys_step (Finish c) s = Some t"
  shows "served_inv t"
proof -
  have f: "f < length (slots s)" using assms(2,3) by (auto simp: gate_inv_def)
  have keep: "leads t d g" if "leads s d g" "g \<noteq> f" for d g
    using that assms(3,4) by (auto simp: leads_def flight_end_def Let_def split: if_splits)
  show ?thesis
  proof (cases "pending (slots s ! f)")
    case True
    then have "leads t c f" using assms(3,4) by (auto simp: leads_def flight_end_def Let_def)
    then have "slot_ok (\<exists>c. leads t c f) ((slots s ! f)\<lparr>pending := False\<rparr>) ([Started c f] @ events_of s f)"
      by (auto simp: slot_ok_def settled_def)
    then show ?thesis
      using True assms(3,4) keep
      by (intro served_inv_update [OF assms(1) f, of t _ "[Started c f]"]) (auto simp: flight_end_def Let_def)
  next
    case False
    then have "settled (events_of s f)" using assms(1) f by (auto simp: served_inv_def slot_ok_def)
    then have "slot_ok (\<exists>c. leads t c f) ((slots s ! f)\<lparr>running := False\<rparr>) ([] @ events_of s f)"
      using False by (simp add: slot_ok_def)
    then show ?thesis
      using False assms(3,4) keep
      by (intro served_inv_update [OF assms(1) f, of t _ "[]"]) (auto simp: flight_end_def Let_def)
  qed
qed

lemma served_inv_step:
  assumes "served_inv s" and "gate_inv s" and "sys_step l s = Some t" and "\<not> drop_label l"
  shows "served_inv t"
proof (cases l)
  case (Call c k)
  then show ?thesis using assms(3) by (intro served_inv_same [OF assms(1)]) (auto simp: leads_def split: if_splits)
next
  case (Entry c)
  then obtain k q f where "callers s c = Checked k" "flight_entry k (queue s) = (q, f)"
    "t = s\<lparr>queue := q, callers := (callers s)(c := Holding k f)\<rparr>"
    using assms(3) by (auto split: caller.splits prod.splits)
  then show ?thesis using served_inv_entry [OF assms(1)] by simp
next
  case (Begin c)
  then obtain k f where "callers s c = Holding k f" using assms(3) by (auto split: caller.splits)
  then show ?thesis using served_inv_begin assms Begin by blast
next
  case (Finish c)
  then obtain k f where "callers s c = Leading k f" using assms(3) by (auto split: caller.splits)
  then show ?thesis using served_inv_finish assms Finish by blast
next
  case (Drop c)
  then show ?thesis using assms(4) by (simp add: drop_label_def)
qed (use assms(3) in \<open>auto intro!: served_inv_same [OF assms(1)] simp: leads_def\<close>)

lemma served_inv_run:
  assumes "sys_run ls sys_init s" and "\<not> list_ex drop_label ls"
  shows "served_inv s"
  using assms
proof (induction ls sys_init s rule: sys_run.induct)
  case sys_run_Nil
  then show ?case by (simp add: served_inv_def sys_init_def queue_new_def)
next
  case (sys_run_snoc ls t l u)
  then show ?case using served_inv_step gate_inv_run by auto
qed

section \<open>Interval jobs stay registered\<close>

definition live :: "JobQueue \<Rightarrow> nat \<Rightarrow> bool" where
  "live q t \<longleftrightarrow> t < length (spawned q) \<and> t \<notin> set (aborted q)"

definition jobs_inv :: "JobQueue \<Rightarrow> bool" where
  "jobs_inv q \<longleftrightarrow>
    distinct (map fst (jobs q))
    \<and> (\<forall>k t. map_of (jobs q) k = Some t \<longrightarrow> t < length (spawned q) \<and> task_key (spawned q ! t) = k)
    \<and> (\<forall>t. live q t \<longrightarrow> map_of (jobs q) (task_key (spawned q ! t)) = Some t)
    \<and> (\<forall>t\<in>set (aborted q). t < length (spawned q))
    \<and> (shut_down q \<longrightarrow> jobs q = [])"

lemma jobs_inv_same:
  assumes "jobs_inv q" and "jobs r = jobs q" and "spawned r = spawned q" and "aborted r = aborted q"
    and "shut_down r = shut_down q"
  shows "jobs_inv r"
  using assms by (simp add: jobs_inv_def live_def)

lemma jobs_inv_abort:
  assumes "jobs_inv q"
  shows "jobs_inv (abort_job k q)" and "map_of (jobs (abort_job k q)) k = None"
proof -
  show "map_of (jobs (abort_job k q)) k = None"
    by (simp add: abort_job_def delete_conv' split: option.split)
  show "jobs_inv (abort_job k q)"
  proof (cases "map_of (jobs q) k")
    case None
    then show ?thesis using assms by (simp add: abort_job_def)
  next
    case (Some t)
    have "task_key (spawned q ! u) \<noteq> k" if "live q u" "u \<noteq> t" for u
      using assms Some that by (auto simp: jobs_inv_def)
    then show ?thesis
      using assms Some by (auto simp: jobs_inv_def abort_job_def live_def delete_conv' distinct_delete)
  qed
qed

lemma jobs_inv_pause:
  assumes "jobs_inv q"
  shows "jobs_inv (pause k q)" and "map_of (jobs (pause k q)) k = None"
  using jobs_inv_abort [OF assms, of k] by (auto simp: pause_def Let_def intro: jobs_inv_same)

lemma pause_simps [simp]: "shut_down (pause k q) = shut_down q" "spawned (pause k q) = spawned q"
  by (simp_all add: pause_def Let_def)

lemma jobs_inv_after:
  assumes "jobs_inv q"
  shows "jobs_inv (schedule_factory_after now k d i q)"
proof (cases "shut_down q")
  case False
  let ?p = "pause k q" and ?r = "schedule_factory_after now k d i q" and ?n = "length (spawned q)"
  let ?T = "\<lparr>task_key = k, first_tick = now + d, tick_interval = i\<rparr>"
  have r: "map_of (jobs ?r) = (map_of (jobs ?p))(k \<mapsto> ?n)" "spawned ?r = spawned q @ [?T]" "aborted ?r = aborted ?p"
    "\<not> shut_down ?r" "distinct (map fst (jobs ?p)) \<Longrightarrow> distinct (map fst (jobs ?r))"
    using False by (simp_all add: schedule_factory_after_def Let_def update_conv' distinct_update)
  note p = jobs_inv_pause [OF assms, of k]
  have old: "t < ?n \<and> task_key (spawned q ! t) = j" if "map_of (jobs ?p) j = Some t" for j t
    using p(1) that by (simp add: jobs_inv_def)
  have ab: "t < ?n" if "t \<in> set (aborted ?p)" for t using p(1) that by (simp add: jobs_inv_def)
  have keep: "map_of (jobs ?p) (task_key (spawned q ! t)) = Some t" if "t < ?n" "t \<notin> set (aborted ?p)" for t
    using p(1) that by (simp add: jobs_inv_def live_def)
  have reg: "t < Suc ?n \<and> task_key ((spawned q @ [?T]) ! t) = j" if "((map_of (jobs ?p))(k \<mapsto> ?n)) j = Some t" for j t
    using that old by (auto simp: nth_append less_SucI split: if_splits)
  have reg': "((map_of (jobs ?p))(k \<mapsto> ?n)) (task_key ((spawned q @ [?T]) ! t)) = Some t"
    if "t < Suc ?n" "t \<notin> set (aborted ?p)" for t
  proof (cases "t = ?n")
    case False
    then have t: "t < ?n" using that by simp
    then have "map_of (jobs ?p) (task_key (spawned q ! t)) = Some t" using keep that by simp
    moreover from this have "task_key (spawned q ! t) \<noteq> k" using p(2) by auto
    ultimately show ?thesis using t by (simp add: nth_append)
  qed simp
  show ?thesis
    unfolding jobs_inv_def live_def r
    using reg reg' ab p(1) r(4,5) by (auto simp: jobs_inv_def less_SucI)
qed (use assms in \<open>simp add: schedule_factory_after_def\<close>)

lemma jobs_inv_cancel:
  assumes "jobs_inv q"
  shows "jobs_inv (cancel k q)"
  by (rule jobs_inv_same [OF jobs_inv_abort(1) [OF assms, of k]]) (simp_all add: cancel_def Let_def split: option.split)

lemma jobs_inv_shutdown:
  assumes "jobs_inv q"
  shows "jobs_inv (shutdown q)"
proof -
  have "t \<in> snd ` set (jobs q)" if "live q t" for t
    using assms that by (force simp: jobs_inv_def dest: map_of_SomeD)
  moreover have "t < length (spawned q)" if "(k, t) \<in> set (jobs q)" for k t
    using assms that by (auto simp: jobs_inv_def)
  ultimately show ?thesis using assms by (auto simp: jobs_inv_def shutdown_def Let_def live_def)
qed

lemma jobs_inv_step:
  assumes "jobs_inv (queue s)" and "sys_step l s = Some t"
  shows "jobs_inv (queue t)"
proof (cases l)
  case (Entry c)
  then show ?thesis using assms
    by (auto simp: flight_entry_def Let_def intro: jobs_inv_same split: caller.splits option.splits)
next
  case (Begin c)
  then show ?thesis using assms
    by (auto simp: flight_begin_def Let_def intro: jobs_inv_same split: caller.splits if_splits)
next
  case (Finish c)
  then show ?thesis using assms
    by (auto simp: flight_end_def Let_def intro: jobs_inv_same split: caller.splits if_splits)
qed (use assms in \<open>auto simp: jobs_inv_cancel jobs_inv_shutdown jobs_inv_pause jobs_inv_after schedule_def
    schedule_factory_def resume_def Let_def stamp_def intro: jobs_inv_same split: if_splits caller.splits\<close>)

lemma jobs_inv_run: "sys_run ls sys_init s \<Longrightarrow> jobs_inv (queue s)"
proof (induction ls sys_init s rule: sys_run.induct)
  case sys_run_Nil
  then show ?case by (simp add: sys_init_def queue_new_def jobs_inv_def live_def)
qed (rule jobs_inv_step)

section \<open>Properties\<close>

text \<open>
  C12. The gate is a single flight: in every interleaving of callers with each other and with the other
  operations, at most one caller is in a factory call for a flight state, and as long as nothing was
  cancelled and the queue was not shut down, at most one for a key.
\<close>

theorem single_flight:
  assumes "sys_run ls sys_init s" and "callers s c = Leading k f" and "callers s d = Leading k g"
  shows "(f = g \<longrightarrow> c = d) \<and> (list_ex removal ls \<or> c = d)"
proof -
  have excl: "f = g \<Longrightarrow> c = d"
    using gate_inv_run [OF assms(1)] assms(2,3) unfolding gate_inv_def leads_def by blast
  moreover have "f = g" if "\<not> list_ex removal ls"
    using keyed_inv_run [OF assms(1) that] assms(2,3) unfolding keyed_inv_def by (metis option.inject)
  ultimately show ?thesis by blast
qed

fun exec :: "label list \<Rightarrow> JobSystem \<Rightarrow> JobSystem option" where
  "exec [] s = Some s"
| "exec (l # ls) s = (case sys_step l s of None \<Rightarrow> None | Some t \<Rightarrow> exec ls t)"

lemma sys_run_append: "sys_run ls s t \<Longrightarrow> exec ks t = Some u \<Longrightarrow> sys_run (ls @ ks) s u"
proof (induction ks arbitrary: ls t)
  case (Cons k ks)
  then obtain v where "sys_step k t = Some v" "exec ks v = Some u" by (auto split: option.splits)
  then show ?case using Cons.IH [of "ls @ [k]" v] sys_run_snoc [OF Cons.prems(1)] by simp
qed simp

lemma exec_run: "exec ks s = Some u \<Longrightarrow> sys_run ks s u"
  using sys_run_append [OF sys_run_Nil] by simp

lemmas sys_eval = flight_entry_def flight_begin_def flight_end_def sys_init_def queue_new_def Let_def cancel_def
  abort_job_def shutdown_def pause_def

theorem single_flight_witness:
  "\<exists>s. sys_run [Call 1 [120], Entry 1, Begin 1] sys_init s \<and> callers s 1 = Leading [120] 0
    \<and> (\<forall>d g. callers s d = Leading [120] g \<longrightarrow> d = 1)"
proof -
  obtain s where s: "exec [Call 1 [120], Entry 1, Begin 1] sys_init = Some s" "callers s 1 = Leading [120] 0"
    by (simp add: sys_eval)
  note run = exec_run [OF s(1)]
  have "\<not> list_ex removal [Call 1 [120], Entry 1, Begin 1]" by (simp add: removal_def)
  then show ?thesis using run s(2) single_flight [OF run s(2)] by blast
qed

text \<open>
  C13. No request is lost: as long as no leader's future was dropped, once no caller leads a flight
  state every request for it is followed by a factory call that started after it.  A dropped leader leaves
  its requests waiting (\<open>dropped_leader_blocks\<close>).
\<close>

theorem no_request_lost:
  assumes "sys_run ls sys_init s" and "\<not> list_ex drop_label ls" and "Requested c f \<in> set (trace s)"
    and "\<forall>d k. callers s d \<noteq> Leading k f"
  shows "\<exists>later d earlier. trace s = later @ Started d f # earlier \<and> Requested c f \<in> set earlier"
proof -
  note inv = served_inv_run [OF assms(1,2)]
  have "f < length (slots s)" using inv assms(3) by (auto simp: served_inv_def)
  then have "settled (events_of s f)"
    using inv assms(4) by (auto simp: served_inv_def slot_ok_def leads_def split: if_splits)
  moreover have mem: "Requested c f \<in> set (events_of s f)" using assms(3) by (simp add: events_of_def)
  moreover obtain e es where e: "events_of s f = e # es" using mem by (cases "events_of s f") auto
  moreover have "flight_of e = f"
  proof -
    have "e \<in> set (events_of s f)" by (simp add: e)
    then show ?thesis by (simp add: events_of_def)
  qed
  ultimately obtain d where es: "events_of s f = Started d f # es"
    by (cases e) (auto simp: settled_def)
  then obtain later earlier where tr: "trace s = later @ Started d f # earlier" "es = filter (\<lambda>e. flight_of e = f) earlier"
    unfolding events_of_def filter_eq_Cons_iff by blast
  then show ?thesis using es mem by auto
qed

theorem no_request_lost_witness:
  "\<exists>s later d earlier. exec [Call 1 [120], Entry 1, Begin 1, Call 2 [120], Entry 2, Begin 2, Finish 1, Finish 1] sys_init = Some s
    \<and> trace s = later @ Started d 0 # earlier \<and> Requested 2 0 \<in> set earlier"
proof -
  let ?ls = "[Call 1 [120], Entry 1, Begin 1, Call 2 [120], Entry 2, Begin 2, Finish 1, Finish 1]"
  obtain s where s: "exec ?ls sys_init = Some s" "Requested 2 0 \<in> set (trace s)" "\<forall>d k. callers s d \<noteq> Leading k 0"
    by (simp add: sys_eval)
  have "\<not> list_ex drop_label ?ls" by (simp add: drop_label_def)
  from no_request_lost [OF exec_run [OF s(1)] this s(2,3)] show ?thesis using s(1) by blast
qed

text \<open>
  At most one interval job ticks for a key: two tasks of a key that were not aborted are the same
  task, the key of such a task is scheduled, and after a shutdown every task is aborted.
\<close>

theorem one_ticker_per_key:
  assumes "sys_run ls sys_init s" and "live (queue s) t"
  shows "is_scheduled (queue s) (task_key (spawned (queue s) ! t)) \<and> \<not> shut_down (queue s)
    \<and> (\<forall>u. live (queue s) u \<and> task_key (spawned (queue s) ! u) = task_key (spawned (queue s) ! t) \<longrightarrow> u = t)"
proof -
  have reg: "map_of (jobs (queue s)) (task_key (spawned (queue s) ! u)) = Some u" if "live (queue s) u" for u
    using jobs_inv_run [OF assms(1)] that by (simp add: jobs_inv_def)
  have "\<not> shut_down (queue s)" using jobs_inv_run [OF assms(1)] reg [OF assms(2)] by (auto simp: jobs_inv_def)
  then show ?thesis using reg assms(2) by (metis is_scheduled_def option.distinct(1) option.inject)
qed

theorem one_ticker_per_key_witness:
  "\<exists>s. exec [Schedule 0 [120] 60, Schedule 5 [120] 60] sys_init = Some s \<and> is_scheduled (queue s) [120] \<and> \<not> live (queue s) 0"
proof -
  obtain s where s: "exec [Schedule 0 [120] 60, Schedule 5 [120] 60] sys_init = Some s" "live (queue s) 1"
    "task_key (spawned (queue s) ! 1) = [120]" "task_key (spawned (queue s) ! 0) = [120]"
    by (simp add: sys_eval schedule_def schedule_factory_def schedule_factory_after_def live_def)
  from one_ticker_per_key [OF exec_run [OF s(1)] s(2)] show ?thesis using s by auto
qed

text \<open>
  Resuming keeps the cadence: a paused key that was last stamped at \<open>r\<close> ticks next at \<open>r\<close> plus the
  interval, or at once when that time has passed; a key without a stamp ticks at once.
\<close>

theorem resume_cadence:
  assumes "\<not> shut_down q" and "\<not> is_scheduled q k" and "\<forall>r. map_of (last_run q) k = Some r \<longrightarrow> r \<le> now"
  shows "\<exists>t. map_of (jobs (resume now k interval q)) k = Some t
    \<and> first_tick (spawned (resume now k interval q) ! t)
        = (case map_of (last_run q) k of Some r \<Rightarrow> max now (r + interval) | None \<Rightarrow> now)"
  using assms
  by (auto simp: resume_def schedule_factory_after_def Let_def update_conv' nth_append split: option.split)

theorem resume_cadence_witness:
  "\<exists>t. map_of (jobs (resume 100 [120] 60 (queue_new\<lparr>last_run := [([120], 70)]\<rparr>))) [120] = Some t
    \<and> first_tick (spawned (resume 100 [120] 60 (queue_new\<lparr>last_run := [([120], 70)]\<rparr>)) ! t) = 130"
proof -
  have "\<not> shut_down (queue_new\<lparr>last_run := [([120], 70)]\<rparr>)"
    "\<not> is_scheduled (queue_new\<lparr>last_run := [([120], 70)]\<rparr>) [120]"
    "\<forall>r. map_of (last_run (queue_new\<lparr>last_run := [([120], 70)]\<rparr>)) [120] = Some r \<longrightarrow> r \<le> 100"
    by (simp_all add: queue_new_def is_scheduled_def)
  from resume_cadence [OF this, of 60] show ?thesis by (simp add: queue_new_def)
qed

lemma running_update:
  "running (xs ! f) \<Longrightarrow> f < length xs \<Longrightarrow> (i = f \<Longrightarrow> running x) \<Longrightarrow> running (xs[i := x] ! f)"
  by (cases "i = f") auto

text \<open>
  A dropped leader blocks its key: when a flight state is marked as running and no caller leads it,
  which is the case once the future of the leader was dropped, no caller leads it ever after.
\<close>

theorem dropped_leader_blocks:
  assumes "sys_run ls s t" and "running (slots s ! f)" and "f < length (slots s)" and "\<forall>c k. callers s c \<noteq> Leading k f"
  shows "running (slots t ! f) \<and> (\<forall>c k. callers t c \<noteq> Leading k f)"
proof -
  have "running (slots t ! f) \<and> f < length (slots t) \<and> (\<forall>c k. callers t c \<noteq> Leading k f)"
    using assms
  proof (induction rule: sys_run.induct)
    case (sys_run_snoc ls s t l u)
    then have t: "running (slots t ! f)" "f < length (slots t)" "\<forall>c k. callers t c \<noteq> Leading k f" by simp_all
    show ?case
      using sys_run_snoc.hyps(2) t
      by (cases l) (auto simp: flight_entry_def flight_begin_def flight_end_def Let_def nth_append
          intro!: running_update split: caller.splits option.splits if_splits)
  qed simp
  then show ?thesis by simp
qed

theorem dropped_leader_blocks_witness:
  "\<exists>s t. exec [Call 1 [120], Entry 1, Begin 1, Drop 1] sys_init = Some s
    \<and> exec [Call 2 [120], Entry 2, Begin 2] s = Some t \<and> (\<forall>c k. callers t c \<noteq> Leading k 0)"
proof -
  obtain s where s: "exec [Call 1 [120], Entry 1, Begin 1, Drop 1] sys_init = Some s" "running (slots s ! 0)"
    "0 < length (slots s)" "\<forall>c k. callers s c \<noteq> Leading k 0" "exec [Call 2 [120], Entry 2, Begin 2] s \<noteq> None"
    by (simp add: sys_eval)
  then obtain t where t: "exec [Call 2 [120], Entry 2, Begin 2] s = Some t" by blast
  from dropped_leader_blocks [OF exec_run [OF t] s(2,3,4)] show ?thesis using s(1) t by blast
qed

text \<open>Cancelling between the two locks of a caller lets a second caller lead the same key.\<close>

lemma cancel_lets_leaders_overlap:
  "\<exists>s. exec [Call 1 [120], Entry 1, Cancel [120], Begin 1, Call 2 [120], Entry 2, Begin 2] sys_init = Some s
    \<and> callers s 1 = Leading [120] 0 \<and> callers s 2 = Leading [120] 1"
  by (simp add: sys_eval)

end
