(* ===== verification/Document_Model.thy ===== *)
theory Document_Model
  imports Utf8
begin

text \<open>
  The rich-text document of the editor (crates/orchid-viewers/src/document/model.rs).  Text is a list
  of UTF-8 bytes because cursors are byte offsets; \<open>usize\<close> is \<open>nat\<close>, the other integers keep their
  width, and a \<open>f32\<close> is its bit pattern, which the edits only copy.  The hash maps of named styles
  are partial maps.
\<close>

unbundle bit_operations_syntax

type_synonym utf8 = "u8 list"
type_synonym rgb = "u8 \<times> u8 \<times> u8"
type_synonym f32 = "32 word"

section \<open>Characters and runs\<close>

record OpaqueXmlNode =
  position_hint :: utf8
  raw_xml :: "u8 list"

record RunStyle =
  bold :: bool
  italic :: bool
  underline :: bool
  strikethrough :: bool
  double_strikethrough :: bool
  highlight :: bool
  superscript :: bool
  subscript :: bool
  all_caps :: bool
  small_caps :: bool
  vanish :: bool
  shadow :: bool
  emboss :: bool
  imprint :: bool
  color :: "rgb option"
  font_family :: "utf8 option"
  font_size_pt :: "f32 option"

definition default_run_style :: RunStyle where
  "default_run_style =
    \<lparr>bold = False, italic = False, underline = False, strikethrough = False, double_strikethrough = False,
     highlight = False, superscript = False, subscript = False, all_caps = False, small_caps = False,
     vanish = False, shadow = False, emboss = False, imprint = False, color = None, font_family = None,
     font_size_pt = None\<rparr>"

record Hyperlink =
  url :: utf8
  r_id :: "utf8 option"
  bookmark_target :: "utf8 option"

definition is_internal :: "Hyperlink \<Rightarrow> bool" where
  "is_internal h \<longleftrightarrow> (case bookmark_target h of Some b \<Rightarrow> b \<noteq> [] | None \<Rightarrow> False)"

definition display_target :: "Hyperlink \<Rightarrow> utf8" where
  "display_target h = (case bookmark_target h of Some b \<Rightarrow> if b \<noteq> [] then 35 # b else url h | None \<Rightarrow> url h)"

record Bookmark =
  bookmark_name :: utf8
  plain_offset :: nat

record DocComment =
  comment_id :: u32
  author :: utf8
  initials :: utf8
  date :: utf8
  comment_text :: utf8

record CommentRange =
  range_id :: u32
  start_plain :: nat
  end_plain :: nat

datatype DocField = Page | NumPages | Date | FileName

record Run =
  run_text :: utf8
  run_style :: RunStyle
  run_style_id :: "utf8 option"
  hyperlink :: "Hyperlink option"
  field :: "DocField option"

definition default_run :: Run where
  "default_run = \<lparr>run_text = [], run_style = default_run_style, run_style_id = None, hyperlink = None, field = None\<rparr>"

section \<open>Paragraphs and pages\<close>

datatype Alignment = Left | Center | Right | Justify

datatype ListKind = NoList | Bullet | Numbered

datatype SectionBreakType = NextPage | Continuous

datatype LineSpacingRule = Auto | Exact | AtLeast

record PageSetup =
  width_twips :: u32
  height_twips :: u32
  margin_top_twips :: u32
  margin_bottom_twips :: u32
  margin_left_twips :: u32
  margin_right_twips :: u32
  header_distance_twips :: u32
  footer_distance_twips :: u32
  header_r_id :: "utf8 option"
  footer_r_id :: "utf8 option"
  header_first_r_id :: "utf8 option"
  footer_first_r_id :: "utf8 option"
  header_even_r_id :: "utf8 option"
  footer_even_r_id :: "utf8 option"
  title_page :: bool
  even_and_odd_headers :: bool
  section_break :: SectionBreakType

definition default_page_setup :: PageSetup where
  "default_page_setup =
    \<lparr>width_twips = 12240, height_twips = 15840, margin_top_twips = 1440, margin_bottom_twips = 1440,
     margin_left_twips = 1440, margin_right_twips = 1440, header_distance_twips = 720,
     footer_distance_twips = 720, header_r_id = None, footer_r_id = None, header_first_r_id = None,
     footer_first_r_id = None, header_even_r_id = None, footer_even_r_id = None, title_page = False,
     even_and_odd_headers = False, section_break = NextPage\<rparr>"

record Paragraph =
  runs :: "Run list"
  alignment :: Alignment
  list_kind :: ListKind
  list_level :: u8
  num_id :: "u32 option"
  page_break_before :: bool
  keep_next :: bool
  keep_lines :: bool
  widow_control :: bool
  contextual_spacing :: bool
  bidi :: bool
  suppress_auto_hyphens :: bool
  outline_level :: "u8 option"
  para_style_id :: "utf8 option"
  space_before_twips :: u32
  space_after_twips :: u32
  line_spacing :: u32
  line_spacing_rule :: LineSpacingRule
  indent_left_twips :: u32
  indent_first_line_twips :: "32 word"
  indent_right_twips :: u32
  para_shade_fill :: "rgb option"
  para_border_sides :: u8
  section_properties :: "PageSetup option"
  para_unsupported :: "OpaqueXmlNode list"

definition default_paragraph :: Paragraph where
  "default_paragraph =
    \<lparr>runs = [], alignment = Left, list_kind = NoList, list_level = 0, num_id = None, page_break_before = False,
     keep_next = False, keep_lines = False, widow_control = False, contextual_spacing = False, bidi = False,
     suppress_auto_hyphens = False, outline_level = None, para_style_id = None, space_before_twips = 0,
     space_after_twips = 0, line_spacing = 0, line_spacing_rule = Auto, indent_left_twips = 0,
     indent_first_line_twips = 0, indent_right_twips = 0, para_shade_fill = None, para_border_sides = 0,
     section_properties = None, para_unsupported = []\<rparr>"

definition para_plain_text :: "Paragraph \<Rightarrow> utf8" where
  "para_plain_text p = concat (map run_text (runs p))"

section \<open>Tables, images and the document\<close>

datatype ImageFormat = Png | Jpeg | Gif | Bmp | Other

record InlineImage =
  image_bytes :: "u8 list"
  image_format :: ImageFormat
  width_px :: u32
  height_px :: u32
  image_r_id :: "utf8 option"
  part_path :: "utf8 option"

record CellImage =
  after_paragraph :: nat
  cell_image :: InlineImage

datatype VMerge = Restart | Continue

record TableCell =
  paragraphs :: "Paragraph list"
  images :: "CellImage list"
  grid_span :: "u32 option"
  v_merge :: "VMerge option"
  cell_shade_fill :: "rgb option"
  cell_border_sides :: u8

definition from_paragraphs :: "Paragraph list \<Rightarrow> TableCell" where
  "from_paragraphs ps =
    \<lparr>paragraphs = ps, images = [], grid_span = None, v_merge = None, cell_shade_fill = None, cell_border_sides = 0\<rparr>"

record TableRow =
  cells :: "TableCell list"

record Table =
  rows :: "TableRow list"
  column_widths_twips :: "u32 list"
  table_unsupported :: "OpaqueXmlNode list"

definition clamp_size :: "nat \<Rightarrow> nat \<Rightarrow> nat \<Rightarrow> nat" where
  "clamp_size lo hi n = (if n < lo then lo else if hi < n then hi else n)"

definition empty_table :: "nat \<Rightarrow> nat \<Rightarrow> Table" where
  "empty_table nrows ncols =
    (let nrows = clamp_size 1 20 nrows; ncols = clamp_size 1 20 ncols
     in \<lparr>rows = replicate nrows \<lparr>cells = replicate ncols (from_paragraphs [default_paragraph])\<rparr>,
         column_widths_twips = [], table_unsupported = []\<rparr>)"

datatype Block = ParagraphBlock Paragraph | TableBlock Table | ImageBlock InlineImage

record ParagraphStyleProps =
  st_alignment :: "Alignment option"
  st_space_before_twips :: "u32 option"
  st_space_after_twips :: "u32 option"
  st_line_spacing :: "u32 option"
  st_line_spacing_rule :: "LineSpacingRule option"
  st_indent_left_twips :: "u32 option"
  st_indent_first_line_twips :: "32 word option"
  st_indent_right_twips :: "u32 option"
  st_shade_fill :: "rgb option"
  st_border_sides :: "u8 option"
  st_keep_next :: bool
  st_keep_lines :: bool
  st_widow_control :: bool
  st_contextual_spacing :: bool
  st_bidi :: bool
  st_suppress_auto_hyphens :: bool

record NamedParagraphStyle =
  np_style_id :: utf8
  np_name :: utf8
  np_outline_level :: "u8 option"
  np_run :: RunStyle
  np_paragraph :: ParagraphStyleProps

record NamedCharacterStyle =
  nc_style_id :: utf8
  nc_name :: utf8
  nc_run :: RunStyle

record Document =
  blocks :: "Block list"
  page_setup :: PageSetup
  paragraph_styles :: "utf8 \<rightharpoonup> NamedParagraphStyle"
  character_styles :: "utf8 \<rightharpoonup> NamedCharacterStyle"
  header :: "Paragraph list"
  footer :: "Paragraph list"
  header_first :: "Paragraph list"
  footer_first :: "Paragraph list"
  header_even :: "Paragraph list"
  footer_even :: "Paragraph list"
  bookmarks :: "Bookmark list"
  comments :: "DocComment list"
  comment_ranges :: "CommentRange list"
  doc_unsupported :: "OpaqueXmlNode list"
  retained_parts :: "(utf8 \<times> u8 list) list"
  content_types :: "u8 list option"
  package_rels :: "u8 list option"
  document_rels :: "u8 list option"

definition default_document :: Document where
  "default_document =
    \<lparr>blocks = [], page_setup = default_page_setup, paragraph_styles = Map.empty, character_styles = Map.empty,
     header = [], footer = [], header_first = [], footer_first = [], header_even = [], footer_even = [],
     bookmarks = [], comments = [], comment_ranges = [], doc_unsupported = [], retained_parts = [],
     content_types = None, package_rels = None, document_rels = None\<rparr>"

definition paragraph_style :: "Document \<Rightarrow> utf8 \<Rightarrow> NamedParagraphStyle option" where
  "paragraph_style doc sid = paragraph_styles doc sid"

definition character_style :: "Document \<Rightarrow> utf8 \<Rightarrow> NamedCharacterStyle option" where
  "character_style doc sid = character_styles doc sid"

definition bookmark_offset :: "Document \<Rightarrow> utf8 \<Rightarrow> nat option" where
  "bookmark_offset doc name = map_option plain_offset (find (\<lambda>b. bookmark_name b = name) (bookmarks doc))"

text \<open>The paragraphs of a block in the order in which every traversal of the document visits them.\<close>

definition block_paragraphs :: "Block \<Rightarrow> Paragraph list" where
  "block_paragraphs b =
    (case b of
       ParagraphBlock p \<Rightarrow> [p]
     | TableBlock t \<Rightarrow> concat (map (\<lambda>row. concat (map paragraphs (cells row))) (rows t))
     | ImageBlock _ \<Rightarrow> [])"

definition push_paragraph :: "Paragraph \<Rightarrow> utf8 \<Rightarrow> utf8" where
  "push_paragraph p out = (if out \<noteq> [] then out @ [10] else out) @ para_plain_text p"

definition doc_plain_text :: "Document \<Rightarrow> utf8" where
  "doc_plain_text doc = fold (\<lambda>b. fold push_paragraph (block_paragraphs b)) (blocks doc) []"

end
