(* ===== verification/Document_Cursor.thy ===== *)
theory Document_Cursor
  imports Document_Model
begin

text \<open>
  Cursors and selections of the document editor (crates/orchid-viewers/src/document/cursor.rs): the
  comparison of cursors, access to the paragraph at a cursor, the maps between cursors and offsets in
  the plain text, and the moves between table cells.  A loop that can return early is the recursion
  \<open>early\<close>: its body gives \<open>Inl\<close> to return and \<open>Inr\<close> with the new loop state to go on.
\<close>

section \<open>Positions\<close>

record CellPath =
  cp_row :: nat
  cp_col :: nat
  para_idx :: nat
  image_idx :: "nat option"

record Cursor =
  block_idx :: nat
  cell :: "CellPath option"
  run_idx :: nat
  byte_offset :: nat

definition cell_path_new :: "nat \<Rightarrow> nat \<Rightarrow> nat \<Rightarrow> CellPath" where
  "cell_path_new r c p = \<lparr>cp_row = r, cp_col = c, para_idx = p, image_idx = None\<rparr>"

definition cursor_at :: "nat \<Rightarrow> nat \<Rightarrow> nat \<Rightarrow> Cursor" where
  "cursor_at b r off = \<lparr>block_idx = b, cell = None, run_idx = r, byte_offset = off\<rparr>"

definition default_cursor :: Cursor where
  "default_cursor = \<lparr>block_idx = 0, cell = None, run_idx = 0, byte_offset = 0\<rparr>"

definition on_cell_image :: "nat \<Rightarrow> nat \<Rightarrow> nat \<Rightarrow> nat \<Rightarrow> nat \<Rightarrow> Cursor" where
  "on_cell_image b r c after img =
    \<lparr>block_idx = b, cell = Some \<lparr>cp_row = r, cp_col = c, para_idx = after, image_idx = Some img\<rparr>,
     run_idx = 0, byte_offset = 0\<rparr>"

definition same_paragraph :: "Cursor \<Rightarrow> Cursor \<Rightarrow> bool" where
  "same_paragraph a b \<longleftrightarrow> block_idx a = block_idx b \<and> cell a = cell b"

definition same_cell :: "Cursor \<Rightarrow> Cursor \<Rightarrow> bool" where
  "same_cell a b \<longleftrightarrow>
    (case (cell a, cell b) of
       (Some p, Some q) \<Rightarrow> block_idx a = block_idx b \<and> cp_row p = cp_row q \<and> cp_col p = cp_col q
     | _ \<Rightarrow> False)"

record Selection =
  anchor :: Cursor
  head :: Cursor

datatype ord = Less | Equal | Greater

definition cmp_nat :: "nat \<Rightarrow> nat \<Rightarrow> ord" where
  "cmp_nat a b = (if a < b then Less else if a = b then Equal else Greater)"

text \<open>The derived order of \<open>Option<usize>\<close>.\<close>

fun cmp_opt :: "nat option \<Rightarrow> nat option \<Rightarrow> ord" where
  "cmp_opt None None = Equal"
| "cmp_opt None (Some _) = Less"
| "cmp_opt (Some _) None = Greater"
| "cmp_opt (Some a) (Some b) = cmp_nat a b"

text \<open>
  Two components are compared by \<open>(Less, _) | (_, Less)\<close>, then \<open>(Greater, _) | (_, Greater)\<close>: a
  smaller second component wins over a greater first one.
\<close>

definition cmp_pair :: "ord \<Rightarrow> ord \<Rightarrow> ord" where
  "cmp_pair a b = (if a = Less \<or> b = Less then Less else if a = Greater \<or> b = Greater then Greater else Equal)"

definition cmp_cell_path :: "CellPath \<Rightarrow> CellPath \<Rightarrow> ord" where
  "cmp_cell_path a b =
    (case cmp_pair (cmp_nat (cp_row a) (cp_row b)) (cmp_nat (cp_col a) (cp_col b)) of
       Less \<Rightarrow> Less
     | Greater \<Rightarrow> Greater
     | Equal \<Rightarrow>
         (case (image_idx a \<noteq> None, image_idx b \<noteq> None) of
            (False, False) \<Rightarrow> cmp_nat (para_idx a) (para_idx b)
          | (True, True) \<Rightarrow>
              (case cmp_nat (para_idx a) (para_idx b) of
                 Less \<Rightarrow> Less | Greater \<Rightarrow> Greater | Equal \<Rightarrow> cmp_opt (image_idx a) (image_idx b))
          | (False, True) \<Rightarrow> if para_idx a < para_idx b then Less else if para_idx b < para_idx a then Greater else Less
          | (True, False) \<Rightarrow> if para_idx a < para_idx b then Less else Greater))"

definition on_image :: "Cursor \<Rightarrow> bool" where
  "on_image c \<longleftrightarrow> (case cell c of Some p \<Rightarrow> image_idx p \<noteq> None | None \<Rightarrow> False)"

definition cmp_in_paragraph :: "Cursor \<Rightarrow> Cursor \<Rightarrow> ord" where
  "cmp_in_paragraph a b =
    (if on_image a \<or> on_image b then Equal
     else cmp_pair (cmp_nat (run_idx a) (run_idx b)) (cmp_nat (byte_offset a) (byte_offset b)))"

definition cmp_cursor :: "Cursor \<Rightarrow> Cursor \<Rightarrow> ord" where
  "cmp_cursor a b =
    (case cmp_nat (block_idx a) (block_idx b) of
       Less \<Rightarrow> Less
     | Greater \<Rightarrow> Greater
     | Equal \<Rightarrow>
         (case (cell a, cell b) of
            (None, None) \<Rightarrow> cmp_in_paragraph a b
          | (None, Some _) \<Rightarrow> Less
          | (Some _, None) \<Rightarrow> Greater
          | (Some p, Some q) \<Rightarrow>
              (case cmp_cell_path p q of Less \<Rightarrow> Less | Greater \<Rightarrow> Greater | Equal \<Rightarrow> cmp_in_paragraph a b)))"

definition normalized :: "Selection \<Rightarrow> Cursor \<times> Cursor" where
  "normalized s = (if cmp_cursor (anchor s) (head s) \<noteq> Greater then (anchor s, head s) else (head s, anchor s))"

definition is_collapsed :: "Selection \<Rightarrow> bool" where
  "is_collapsed s \<longleftrightarrow> anchor s = head s"

section \<open>The paragraph at a cursor\<close>

definition get_table :: "Block list \<Rightarrow> nat \<Rightarrow> Table option" where
  "get_table bs i = (case get_at bs i of Some (TableBlock t) \<Rightarrow> Some t | _ \<Rightarrow> None)"

definition get_paragraph :: "Block list \<Rightarrow> nat \<Rightarrow> Paragraph option" where
  "get_paragraph bs i = (case get_at bs i of Some (ParagraphBlock p) \<Rightarrow> Some p | _ \<Rightarrow> None)"

definition get_cell :: "Table \<Rightarrow> nat \<Rightarrow> nat \<Rightarrow> TableCell option" where
  "get_cell t r c = (case get_at (rows t) r of None \<Rightarrow> None | Some row \<Rightarrow> get_at (cells row) c)"

definition paragraph_ref :: "Block list \<Rightarrow> Cursor \<Rightarrow> Paragraph option" where
  "paragraph_ref bs c =
    (case cell c of
       None \<Rightarrow> get_paragraph bs (block_idx c)
     | Some path \<Rightarrow>
         (case get_table bs (block_idx c) of
            None \<Rightarrow> None
          | Some t \<Rightarrow>
              (case get_cell t (cp_row path) (cp_col path) of
                 None \<Rightarrow> None
               | Some tc \<Rightarrow> get_at (paragraphs tc) (para_idx path))))"

text \<open>What writing through the reference of \<open>paragraph_mut\<close> does to the blocks.\<close>

definition put_cell :: "nat \<Rightarrow> nat \<Rightarrow> TableCell \<Rightarrow> Table \<Rightarrow> Table" where
  "put_cell r c tc t = t\<lparr>rows := (rows t)[r := (rows t ! r)\<lparr>cells := (cells (rows t ! r))[c := tc]\<rparr>]\<rparr>"

definition put_paragraph :: "Cursor \<Rightarrow> Paragraph \<Rightarrow> Block list \<Rightarrow> Block list" where
  "put_paragraph c p bs =
    (case cell c of
       None \<Rightarrow> bs[block_idx c := ParagraphBlock p]
     | Some path \<Rightarrow>
         (case get_table bs (block_idx c) of
            None \<Rightarrow> bs
          | Some t \<Rightarrow>
              (case get_cell t (cp_row path) (cp_col path) of
                 None \<Rightarrow> bs
               | Some tc \<Rightarrow>
                   bs[block_idx c := TableBlock (put_cell (cp_row path) (cp_col path)
                        (tc\<lparr>paragraphs := (paragraphs tc)[para_idx path := p]\<rparr>) t)])))"

lemma get_at_update: "i < length xs \<Longrightarrow> get_at (xs[i := x]) i = Some x"
  by (simp add: get_at_def)

lemma get_at_SomeD: "get_at xs i = Some x \<Longrightarrow> i < length xs \<and> xs ! i = x"
  by (simp add: get_at_def split: if_splits)

lemma get_table_SomeD: "get_table bs i = Some t \<Longrightarrow> i < length bs \<and> bs ! i = TableBlock t"
  by (auto simp: get_table_def get_at_def split: option.splits Block.splits if_splits)

lemma get_paragraph_SomeD: "get_paragraph bs i = Some p \<Longrightarrow> i < length bs \<and> bs ! i = ParagraphBlock p"
  by (auto simp: get_paragraph_def get_at_def split: option.splits Block.splits if_splits)

lemma get_put_table [simp]: "i < length bs \<Longrightarrow> get_table (bs[i := TableBlock t]) i = Some t"
  by (simp add: get_table_def get_at_def)

lemma get_put_paragraph [simp]: "i < length bs \<Longrightarrow> get_paragraph (bs[i := ParagraphBlock p]) i = Some p"
  by (simp add: get_paragraph_def get_at_def)

lemma get_cell_SomeD:
  "get_cell t r c = Some tc \<Longrightarrow> r < length (rows t) \<and> c < length (cells (rows t ! r)) \<and> cells (rows t ! r) ! c = tc"
  by (auto simp: get_cell_def get_at_def split: option.splits if_splits)

lemma get_put_cell [simp]:
  "r < length (rows t) \<Longrightarrow> c < length (cells (rows t ! r)) \<Longrightarrow> get_cell (put_cell r c tc t) r c = Some tc"
  by (simp add: get_cell_def put_cell_def get_at_def)

lemma put_cell_put [simp]: "put_cell r c x (put_cell r c y t) = put_cell r c x t"
  by (cases "r < length (rows t)") (simp_all add: put_cell_def list_update_beyond)

lemma put_cell_same: "get_cell t r c = Some tc \<Longrightarrow> put_cell r c tc t = t"
proof -
  assume "get_cell t r c = Some tc"
  note tc = get_cell_SomeD [OF this]
  then have "(cells (rows t ! r))[c := tc] = cells (rows t ! r)" by auto
  then show ?thesis by (simp add: put_cell_def)
qed

text \<open>Writing a paragraph back is a lens: get after put, put after get, put after put.\<close>

lemma paragraph_ref_put:
  assumes "paragraph_ref bs c = Some q"
  shows "paragraph_ref (put_paragraph c p bs) c = Some p"
proof (cases "cell c")
  case None
  then show ?thesis using assms by (auto simp: paragraph_ref_def put_paragraph_def dest: get_paragraph_SomeD)
next
  case (Some path)
  with assms obtain t tc where t: "get_table bs (block_idx c) = Some t"
    and tc: "get_cell t (cp_row path) (cp_col path) = Some tc" and q: "get_at (paragraphs tc) (para_idx path) = Some q"
    by (auto simp: paragraph_ref_def split: option.splits)
  then show ?thesis
    using Some get_table_SomeD [OF t] get_cell_SomeD [OF tc] get_at_SomeD [OF q]
    by (simp add: paragraph_ref_def put_paragraph_def get_at_update)
qed

lemma put_paragraph_same:
  assumes "paragraph_ref bs c = Some p"
  shows "put_paragraph c p bs = bs"
proof (cases "cell c")
  case None
  then have "get_paragraph bs (block_idx c) = Some p" using assms by (simp add: paragraph_ref_def)
  then have "bs[block_idx c := ParagraphBlock p] = bs" using get_paragraph_SomeD by (metis list_update_id)
  then show ?thesis using None by (simp add: put_paragraph_def)
next
  case (Some path)
  with assms obtain t tc where t: "get_table bs (block_idx c) = Some t"
    and tc: "get_cell t (cp_row path) (cp_col path) = Some tc" and q: "get_at (paragraphs tc) (para_idx path) = Some p"
    by (auto simp: paragraph_ref_def split: option.splits)
  have "(paragraphs tc)[para_idx path := p] = paragraphs tc" using get_at_SomeD [OF q] by auto
  then have "tc\<lparr>paragraphs := (paragraphs tc)[para_idx path := p]\<rparr> = tc" by simp
  then show ?thesis using Some t tc put_cell_same [OF tc] get_table_SomeD [OF t]
    by (simp add: put_paragraph_def) (metis list_update_id)
qed

lemma put_paragraph_put:
  assumes "paragraph_ref bs c = Some q"
  shows "put_paragraph c p (put_paragraph c p' bs) = put_paragraph c p bs"
proof (cases "cell c")
  case None
  then show ?thesis by (simp add: put_paragraph_def)
next
  case (Some path)
  with assms obtain t tc where t: "get_table bs (block_idx c) = Some t"
    and tc: "get_cell t (cp_row path) (cp_col path) = Some tc"
    by (auto simp: paragraph_ref_def split: option.splits)
  then show ?thesis using Some get_table_SomeD [OF t] get_cell_SomeD [OF tc]
    by (simp add: put_paragraph_def)
qed

lemma put_paragraph_restore:
  "paragraph_ref bs c = Some p \<Longrightarrow> put_paragraph c p (put_paragraph c q bs) = bs"
  by (simp add: put_paragraph_put put_paragraph_same)

lemma put_paragraph_cong:
  "same_paragraph c d \<Longrightarrow> put_paragraph c p bs = put_paragraph d p bs"
  "same_paragraph c d \<Longrightarrow> paragraph_ref bs c = paragraph_ref bs d"
  by (simp_all only: same_paragraph_def put_paragraph_def paragraph_ref_def)

section \<open>Offsets in the plain text\<close>

primrec early :: "('a \<Rightarrow> 's \<Rightarrow> 'r + 's) \<Rightarrow> 'a list \<Rightarrow> 's \<Rightarrow> 'r + 's" where
  "early f [] s = Inr s"
| "early f (x # xs) s = (case f x s of Inl r \<Rightarrow> Inl r | Inr s' \<Rightarrow> early f xs s')"

definition para_len :: "Paragraph \<Rightarrow> nat" where
  "para_len p = sum_list (map (\<lambda>r. length (run_text r)) (runs p))"

definition end_of_para :: "nat \<Rightarrow> CellPath option \<Rightarrow> Paragraph \<Rightarrow> Cursor" where
  "end_of_para bi path p =
    (if runs p = [] then \<lparr>block_idx = bi, cell = path, run_idx = 0, byte_offset = 0\<rparr>
     else let last = length (runs p) - 1
          in \<lparr>block_idx = bi, cell = path, run_idx = last, byte_offset = length (run_text (runs p ! last))\<rparr>)"

definition cursor_in_para :: "nat \<Rightarrow> CellPath option \<Rightarrow> Paragraph \<Rightarrow> nat \<Rightarrow> Cursor" where
  "cursor_in_para bi path p remaining =
    (if runs p = [] then \<lparr>block_idx = bi, cell = path, run_idx = 0, byte_offset = 0\<rparr>
     else (case early (\<lambda>(ri, r) rem.
              if rem \<le> length (run_text r)
              then Inl \<lparr>block_idx = bi, cell = path, run_idx = ri, byte_offset = rem\<rparr>
              else Inr (rem - length (run_text r))) (List.enumerate 0 (runs p)) remaining of
            Inl c \<Rightarrow> c
          | Inr _ \<Rightarrow> end_of_para bi path p))"

text \<open>One paragraph of the loops of \<open>cursor_from_plain_offset\<close>; the state is \<open>(offset, emitted, last_end)\<close>.\<close>

definition visit_offset :: "nat \<Rightarrow> CellPath option \<Rightarrow> Paragraph \<Rightarrow> nat \<times> bool \<times> Cursor \<Rightarrow> Cursor + nat \<times> bool \<times> Cursor" where
  "visit_offset bi path p st =
    (case st of (offset, emitted, last_end) \<Rightarrow>
       if emitted \<and> offset = 0 then Inl last_end
       else let offset = (if emitted then offset - 1 else offset)
            in if offset \<le> para_len p then Inl (cursor_in_para bi path p offset)
               else Inr (offset - para_len p, True, end_of_para bi path p))"

definition visit_block_offset :: "nat \<times> Block \<Rightarrow> nat \<times> bool \<times> Cursor \<Rightarrow> Cursor + nat \<times> bool \<times> Cursor" where
  "visit_block_offset ib st =
    (case ib of (bi, b) \<Rightarrow>
       case b of
         ParagraphBlock p \<Rightarrow> visit_offset bi None p st
       | TableBlock t \<Rightarrow>
           early (\<lambda>(ri, row). early (\<lambda>(ci, tc). early (\<lambda>(pi, p). visit_offset bi (Some (cell_path_new ri ci pi)) p)
             (List.enumerate 0 (paragraphs tc))) (List.enumerate 0 (cells row))) (List.enumerate 0 (rows t)) st
       | ImageBlock _ \<Rightarrow> Inr st)"

definition cursor_from_plain_offset :: "Document \<Rightarrow> nat \<Rightarrow> Cursor" where
  "cursor_from_plain_offset doc offset =
    (if blocks doc = [] then default_cursor
     else case early visit_block_offset (List.enumerate 0 (blocks doc)) (offset, False, default_cursor) of
            Inl c \<Rightarrow> c
          | Inr (_, emitted, last_end) \<Rightarrow> if emitted then last_end else default_cursor)"

definition selection_from_plain_offsets :: "Document \<Rightarrow> nat \<Rightarrow> nat \<Rightarrow> Selection" where
  "selection_from_plain_offsets doc a h =
    \<lparr>anchor = cursor_from_plain_offset doc a, head = cursor_from_plain_offset doc h\<rparr>"

definition offset_in_para :: "Paragraph \<Rightarrow> Cursor \<Rightarrow> nat" where
  "offset_in_para p c =
    (case early (\<lambda>(ri, r) run_off.
        if ri = run_idx c then Inl (run_off + min (byte_offset c) (length (run_text r)))
        else Inr (run_off + length (run_text r))) (List.enumerate 0 (runs p)) 0 of
       Inl n \<Rightarrow> n
     | Inr n \<Rightarrow> n)"

text \<open>One paragraph of the loops of \<open>plain_offset_from_cursor\<close>; the state is \<open>(offset, emitted)\<close>.\<close>

definition visit_cursor :: "Cursor \<Rightarrow> nat \<Rightarrow> CellPath option \<Rightarrow> Paragraph \<Rightarrow> nat \<times> bool \<Rightarrow> nat + nat \<times> bool" where
  "visit_cursor c bi path p st =
    (case st of (offset, emitted) \<Rightarrow>
       let offset = (if emitted then offset + 1 else offset)
       in case (path, cell c) of
            (None, None) \<Rightarrow> if bi = block_idx c then Inl (offset + offset_in_para p c) else Inr (offset + para_len p, True)
          | (Some q, Some cp) \<Rightarrow>
              if bi = block_idx c \<and> cp_row cp = cp_row q \<and> cp_col cp = cp_col q \<and> para_idx cp = para_idx q
              then Inl (if image_idx cp \<noteq> None then offset + para_len p else offset + offset_in_para p c)
              else Inr (offset + para_len p, True)
          | _ \<Rightarrow> Inr (offset + para_len p, True))"

definition visit_cell_cursor :: "Cursor \<Rightarrow> nat \<Rightarrow> nat \<Rightarrow> nat \<times> TableCell \<Rightarrow> nat \<times> bool \<Rightarrow> nat + nat \<times> bool" where
  "visit_cell_cursor c bi ri ict st =
    (case ict of (ci, tc) \<Rightarrow>
       let cell_start = fst st
       in case early (\<lambda>(pi, p). visit_cursor c bi (Some (cell_path_new ri ci pi)) p) (List.enumerate 0 (paragraphs tc)) st of
            Inl n \<Rightarrow> Inl n
          | Inr st \<Rightarrow>
              (case cell c of
                 Some cp \<Rightarrow>
                   if bi = block_idx c \<and> cp_row cp = ri \<and> cp_col cp = ci \<and> image_idx cp \<noteq> None \<and> paragraphs tc = []
                   then Inl cell_start else Inr st
               | None \<Rightarrow> Inr st))"

definition visit_block_cursor :: "Cursor \<Rightarrow> nat \<times> Block \<Rightarrow> nat \<times> bool \<Rightarrow> nat + nat \<times> bool" where
  "visit_block_cursor c ib st =
    (case ib of (bi, b) \<Rightarrow>
       case b of
         ParagraphBlock p \<Rightarrow> visit_cursor c bi None p st
       | TableBlock t \<Rightarrow>
           early (\<lambda>(ri, row). early (visit_cell_cursor c bi ri) (List.enumerate 0 (cells row))) (List.enumerate 0 (rows t)) st
       | ImageBlock _ \<Rightarrow> Inr st)"

definition plain_offset_from_cursor :: "Document \<Rightarrow> Cursor \<Rightarrow> nat" where
  "plain_offset_from_cursor doc c =
    (case early (visit_block_cursor c) (List.enumerate 0 (blocks doc)) (0, False) of Inl n \<Rightarrow> n | Inr (n, _) \<Rightarrow> n)"

section \<open>Selections and moves\<close>

definition paragraph_cursors_in_selection :: "Document \<Rightarrow> Selection \<Rightarrow> Cursor list" where
  "paragraph_cursors_in_selection doc sel =
    (case normalized sel of (start, end_c) \<Rightarrow>
       if same_cell start end_c then
         (case cell start of
            None \<Rightarrow> []
          | Some path \<Rightarrow>
              (case get_table (blocks doc) (block_idx start) of
                 None \<Rightarrow> []
               | Some t \<Rightarrow>
                   (case get_cell t (cp_row path) (cp_col path) of
                      None \<Rightarrow> []
                    | Some tc \<Rightarrow>
                        let other = (case cell end_c of Some c \<Rightarrow> para_idx c | None \<Rightarrow> para_idx path);
                            lo = min (para_idx path) other;
                            hi = min (max (para_idx path) other) (length (paragraphs tc) - 1)
                        in map (\<lambda>i. \<lparr>block_idx = block_idx start, cell = Some (cell_path_new (cp_row path) (cp_col path) i),
                              run_idx = 0, byte_offset = 0\<rparr>) [lo..<Suc hi])))
       else if cell start \<noteq> None \<or> cell end_c \<noteq> None then []
       else map (\<lambda>bi. cursor_at bi 0 0)
              (filter (\<lambda>bi. get_paragraph (blocks doc) bi \<noteq> None)
                 [block_idx start..<Suc (min (block_idx end_c) (length (blocks doc) - 1))]))"

definition paragraph_indices_in_selection :: "Document \<Rightarrow> Selection \<Rightarrow> nat list" where
  "paragraph_indices_in_selection doc sel =
    map block_idx (filter (\<lambda>c. cell c = None) (paragraph_cursors_in_selection doc sel))"

definition text_cells :: "Table \<Rightarrow> (nat \<times> nat) list" where
  "text_cells t =
    concat (map (\<lambda>(ri, row). map (\<lambda>(ci, _). (ri, ci)) (filter (\<lambda>(_, tc). paragraphs tc \<noteq> [])
      (List.enumerate 0 (cells row)))) (List.enumerate 0 (rows t)))"

definition adjacent_cell_cursor :: "Document \<Rightarrow> Cursor \<Rightarrow> bool \<Rightarrow> Cursor option" where
  "adjacent_cell_cursor doc c forward =
    (case cell c of
       None \<Rightarrow> None
     | Some path \<Rightarrow>
         (case get_table (blocks doc) (block_idx c) of
            None \<Rightarrow> None
          | Some t \<Rightarrow>
              (case position (\<lambda>(r, k). r = cp_row path \<and> k = cp_col path) (text_cells t) of
                 None \<Rightarrow> None
               | Some idx \<Rightarrow>
                   let target = (if forward then (if idx + 1 < length (text_cells t) then Some (idx + 1) else None)
                                 else (if idx = 0 then None else Some (idx - 1)))
                   in map_option (\<lambda>i. case text_cells t ! i of (r, k) \<Rightarrow>
                        \<lparr>block_idx = block_idx c, cell = Some (cell_path_new r k 0), run_idx = 0, byte_offset = 0\<rparr>) target)))"

definition is_image_cursor :: "Document \<Rightarrow> Cursor \<Rightarrow> bool" where
  "is_image_cursor doc c \<longleftrightarrow>
    on_image c \<or> cell c = None \<and> (case get_at (blocks doc) (block_idx c) of Some (ImageBlock _) \<Rightarrow> True | _ \<Rightarrow> False)"

definition hyperlink_at_cursor :: "Document \<Rightarrow> Cursor \<Rightarrow> Hyperlink option" where
  "hyperlink_at_cursor doc c =
    (if is_image_cursor doc c then None
     else (case paragraph_ref (blocks doc) c of
             None \<Rightarrow> None
           | Some p \<Rightarrow> (case get_at (runs p) (run_idx c) of None \<Rightarrow> None | Some r \<Rightarrow> hyperlink r)))"

section \<open>Loops over a document visit its paragraphs in order\<close>

lemma early_append: "early f (xs @ ys) s = (case early f xs s of Inl r \<Rightarrow> Inl r | Inr s' \<Rightarrow> early f ys s')"
  by (induction xs arbitrary: s) (auto split: sum.split)

lemma early_concat: "early f (concat xss) s = early (early f) xss s"
  by (induction xss arbitrary: s) (auto simp: early_append split: sum.split)

lemma early_map: "early f (map g xs) s = early (\<lambda>x. f (g x)) xs s"
  by (induction xs arbitrary: s) (auto split: sum.split)

lemma early_cong: "(\<And>x s. x \<in> set xs \<Longrightarrow> f x s = g x s) \<Longrightarrow> early f xs s = early g xs s"
  by (induction xs arbitrary: s) (auto split: sum.split)

type_synonym para_pos = "nat \<times> CellPath option \<times> Paragraph"

definition cell_positions :: "nat \<Rightarrow> nat \<Rightarrow> nat \<times> TableCell \<Rightarrow> para_pos list" where
  "cell_positions bi ri ict =
    map (\<lambda>(pi, p). (bi, Some (cell_path_new ri (fst ict) pi), p)) (List.enumerate 0 (paragraphs (snd ict)))"

definition row_positions :: "nat \<Rightarrow> nat \<times> TableRow \<Rightarrow> para_pos list" where
  "row_positions bi irow = concat (map (cell_positions bi (fst irow)) (List.enumerate 0 (cells (snd irow))))"

definition block_positions :: "nat \<times> Block \<Rightarrow> para_pos list" where
  "block_positions ib =
    (case snd ib of
       ParagraphBlock p \<Rightarrow> [(fst ib, None, p)]
     | TableBlock t \<Rightarrow> concat (map (row_positions (fst ib)) (List.enumerate 0 (rows t)))
     | ImageBlock _ \<Rightarrow> [])"

definition positions :: "Document \<Rightarrow> para_pos list" where
  "positions doc = concat (map block_positions (List.enumerate 0 (blocks doc)))"

definition para_of :: "para_pos \<Rightarrow> Paragraph" where
  "para_of x = snd (snd x)"

definition key_of :: "para_pos \<Rightarrow> nat \<times> CellPath option" where
  "key_of x = (fst x, fst (snd x))"

lemma early_visit_offset:
  "early visit_block_offset (List.enumerate 0 (blocks doc)) st
    = early (\<lambda>x. visit_offset (fst x) (fst (snd x)) (para_of x)) (positions doc) st"
proof -
  have "visit_block_offset ib st = early (\<lambda>x. visit_offset (fst x) (fst (snd x)) (para_of x)) (block_positions ib) st" for ib st
    by (auto simp: visit_block_offset_def block_positions_def row_positions_def cell_positions_def early_concat early_map
        para_of_def case_prod_beta split: Block.split sum.split intro!: early_cong)
  then show ?thesis unfolding positions_def early_concat early_map by (intro early_cong) simp
qed

lemma early_visit_cursor:
  assumes "\<not> on_image c"
  shows "early (visit_block_cursor c) (List.enumerate 0 (blocks doc)) st
    = early (\<lambda>x. visit_cursor c (fst x) (fst (snd x)) (para_of x)) (positions doc) st"
proof -
  have cell: "visit_cell_cursor c bi ri ict st
      = early (\<lambda>x. visit_cursor c (fst x) (fst (snd x)) (para_of x)) (cell_positions bi ri ict) st" for bi ri ict st
    using assms by (auto simp: visit_cell_cursor_def cell_positions_def early_map para_of_def case_prod_beta case_prod_beta' on_image_def
        split: sum.split option.split)
  have "visit_block_cursor c ib st = early (\<lambda>x. visit_cursor c (fst x) (fst (snd x)) (para_of x)) (block_positions ib) st" for ib st
    by (auto simp: visit_block_cursor_def block_positions_def row_positions_def early_concat early_map
        para_of_def case_prod_beta cell split: Block.split sum.split intro!: early_cong)
  then show ?thesis unfolding positions_def early_concat early_map by (intro early_cong) simp
qed

lemma distinct_concat_enumerate:
  assumes "\<And>i x. distinct (map k (g (i, x)))" and "\<And>i j x y. i \<noteq> j \<Longrightarrow> k ` set (g (i, x)) \<inter> k ` set (g (j, y)) = {}"
  shows "distinct (map k (concat (map g (List.enumerate n xs))))"
proof (induction xs arbitrary: n)
  case (Cons x xs)
  have "k ` set (g (n, x)) \<inter> k ` set (g (i, y)) = {}" if "(i, y) \<in> set (List.enumerate (Suc n) xs)" for i y
    using that assms(2) [of n i x y] by (auto simp: in_set_enumerate_eq)
  then have "k ` set (g (n, x)) \<inter> k ` set (concat (map g (List.enumerate (Suc n) xs))) = {}" by fastforce
  then show ?case using Cons.IH [of "Suc n"] assms(1) by simp
qed simp

lemma cell_path_new_inject [simp]:
  "cell_path_new r c p = cell_path_new r' c' p' \<longleftrightarrow> r = r' \<and> c = c' \<and> p = p'"
  by (auto simp: cell_path_new_def)

lemma cell_keys:
  "distinct (map key_of (cell_positions bi ri ict))"
  "k \<in> key_of ` set (cell_positions bi ri ict) \<Longrightarrow> \<exists>pi. k = (bi, Some (cell_path_new ri (fst ict) pi))"
  by (auto simp: cell_positions_def key_of_def distinct_map inj_on_def in_set_enumerate_eq)

lemma row_keys:
  "distinct (map key_of (row_positions bi irow))"
  "k \<in> key_of ` set (row_positions bi irow) \<Longrightarrow> \<exists>ci pi. k = (bi, Some (cell_path_new (fst irow) ci pi))"
proof -
  show "distinct (map key_of (row_positions bi irow))"
    unfolding row_positions_def
  proof (rule distinct_concat_enumerate)
    show "key_of ` set (cell_positions bi (fst irow) (i, x)) \<inter> key_of ` set (cell_positions bi (fst irow) (j, y)) = {}"
      if "i \<noteq> j" for i j x y
      using that by (auto dest!: cell_keys(2))
  qed (rule cell_keys(1))
  show "k \<in> key_of ` set (row_positions bi irow) \<Longrightarrow> \<exists>ci pi. k = (bi, Some (cell_path_new (fst irow) ci pi))"
  proof -
    assume "k \<in> key_of ` set (row_positions bi irow)"
    then obtain ict where "k \<in> key_of ` set (cell_positions bi (fst irow) ict)" unfolding row_positions_def by auto
    then show ?thesis using cell_keys(2) by blast
  qed
qed

lemma block_keys:
  "distinct (map key_of (block_positions ib))"
  "k \<in> key_of ` set (block_positions ib) \<Longrightarrow> fst k = fst ib \<and> (snd k = None \<or> (\<exists>r c p. snd k = Some (cell_path_new r c p)))"
proof -
  have "distinct (map key_of (concat (map (row_positions bi) (List.enumerate 0 rs))))" for bi rs
  proof (rule distinct_concat_enumerate)
    show "key_of ` set (row_positions bi (i, x)) \<inter> key_of ` set (row_positions bi (j, y)) = {}" if "i \<noteq> j" for i j x y
      using that by (auto dest!: row_keys(2))
  qed (rule row_keys(1))
  then show "distinct (map key_of (block_positions ib))" by (simp add: block_positions_def split: Block.split)
  have "fst k = bi \<and> (\<exists>r c p. snd k = Some (cell_path_new r c p))"
    if "k \<in> key_of ` set (concat (map (row_positions bi) rs))" for bi rs
    using that row_keys(2) [of k bi] by fastforce
  then show "k \<in> key_of ` set (block_positions ib) \<Longrightarrow> fst k = fst ib \<and> (snd k = None \<or> (\<exists>r c p. snd k = Some (cell_path_new r c p)))"
    by (cases "snd ib") (auto simp: block_positions_def key_of_def)
qed

lemma positions_keys:
  shows "distinct (map key_of (positions doc))"
    and "x \<in> set (positions doc) \<Longrightarrow> fst (snd x) = Some q \<Longrightarrow> image_idx q = None"
proof -
  show "distinct (map key_of (positions doc))"
    unfolding positions_def
  proof (rule distinct_concat_enumerate)
    show "key_of ` set (block_positions (i, x)) \<inter> key_of ` set (block_positions (j, y)) = {}" if "i \<noteq> j" for i j x y
    proof -
      have "fst k = i" if "k \<in> key_of ` set (block_positions (i, x))" for k i x using block_keys(2) [OF that] by simp
      then show ?thesis using that by blast
    qed
  qed (rule block_keys(1))
  assume x: "x \<in> set (positions doc)" "fst (snd x) = Some q"
  then obtain ib where "key_of x \<in> key_of ` set (block_positions ib)" by (auto simp: positions_def)
  then show "image_idx q = None" using block_keys(2) [of "key_of x" ib] x(2) by (auto simp: key_of_def cell_path_new_def)
qed

section \<open>Offsets and cursors\<close>

lemma early_runs:
  assumes "rem \<le> sum_list (map (\<lambda>r. length (run_text r)) rs)" and "rs \<noteq> []"
  shows "\<exists>k<length rs. \<exists>off\<le>length (run_text (rs ! k)).
      early (\<lambda>(ri, r) rem. if rem \<le> length (run_text r) then Inl (mk ri rem) else Inr (rem - length (run_text r)))
        (List.enumerate n rs) rem = Inl (mk (n + k) off)
      \<and> sum_list (map (\<lambda>r. length (run_text r)) (take k rs)) + off = rem"
  using assms
proof (induction rs arbitrary: n rem)
  case (Cons r rs)
  show ?case
  proof (cases "rem \<le> length (run_text r)")
    case True
    then show ?thesis by (intro exI [of _ 0]) simp
  next
    case False
    then have "rs \<noteq> []" "rem - length (run_text r) \<le> sum_list (map (\<lambda>r. length (run_text r)) rs)"
      using Cons.prems by (auto split: if_splits)
    from Cons.IH [OF this(2,1), of "Suc n"] obtain k off where
      "k < length rs" "off \<le> length (run_text (rs ! k))"
      "early (\<lambda>(ri, r) rem. if rem \<le> length (run_text r) then Inl (mk ri rem) else Inr (rem - length (run_text r)))
        (List.enumerate (Suc n) rs) (rem - length (run_text r)) = Inl (mk (Suc n + k) off)"
      "sum_list (map (\<lambda>r. length (run_text r)) (take k rs)) + off = rem - length (run_text r)" by blast
    then show ?thesis using False by (intro exI [of _ "Suc k"] conjI exI [of _ off]) auto
  qed
qed simp

lemma offset_in_para_at:
  assumes "run_idx c = n + k" and "k < length rs"
  shows "early (\<lambda>(ri, r) run_off. if ri = run_idx c then Inl (run_off + min (byte_offset c) (length (run_text r)))
        else Inr (run_off + length (run_text r))) (List.enumerate n rs) acc
      = Inl (acc + sum_list (map (\<lambda>r. length (run_text r)) (take k rs)) + min (byte_offset c) (length (run_text (rs ! k))))"
  using assms
proof (induction rs arbitrary: n k acc)
  case (Cons r rs)
  then show ?case
  proof (cases k)
    case (Suc j)
    then show ?thesis using Cons.IH [of "Suc n" j "acc + length (run_text r)"] Cons.prems by (simp add: add.assoc)
  qed simp
qed simp

lemma cursor_in_para_key: "block_idx (cursor_in_para bi path p o') = bi" "cell (cursor_in_para bi path p o') = path"
proof -
  have "early (\<lambda>(ri, r) rem. if rem \<le> length (run_text r) then Inl \<lparr>block_idx = bi, cell = path, run_idx = ri, byte_offset = rem\<rparr>
      else Inr (rem - length (run_text r))) rs o' = Inl c \<Longrightarrow> block_idx c = bi \<and> cell c = path" for rs c
    by (induction rs arbitrary: o') (auto split: if_splits)
  then show "block_idx (cursor_in_para bi path p o') = bi" "cell (cursor_in_para bi path p o') = path"
    by (auto simp: cursor_in_para_def end_of_para_def Let_def split: sum.split)
qed

lemma end_of_para_key: "block_idx (end_of_para bi path p) = bi" "cell (end_of_para bi path p) = path"
  by (auto simp: end_of_para_def Let_def)

lemma offset_of_cursor_in_para:
  assumes "off \<le> para_len p"
  shows "offset_in_para p (cursor_in_para bi path p off) = off"
proof (cases "runs p = []")
  case True
  then show ?thesis using assms by (simp add: cursor_in_para_def offset_in_para_def para_len_def)
next
  case False
  let ?mk = "\<lambda>ri rem. \<lparr>block_idx = bi, cell = path, run_idx = ri, byte_offset = rem\<rparr>"
  obtain k j where k: "k < length (runs p)" "j \<le> length (run_text (runs p ! k))"
    and c: "cursor_in_para bi path p off = ?mk k j"
    and sum: "sum_list (map (\<lambda>r. length (run_text r)) (take k (runs p))) + j = off"
    using early_runs [of off "runs p" ?mk 0] assms False by (auto simp: para_len_def cursor_in_para_def)
  show ?thesis using offset_in_para_at [of "?mk k j" 0 k "runs p" 0] k sum by (simp add: offset_in_para_def c)
qed

lemma offset_of_end_of_para: "offset_in_para p (end_of_para bi path p) = para_len p"
proof (cases "runs p" rule: rev_cases)
  case (snoc rs r)
  let ?c = "\<lparr>block_idx = bi, cell = path, run_idx = length rs, byte_offset = length (run_text r)\<rparr>"
  have "end_of_para bi path p = ?c" using snoc by (simp add: end_of_para_def Let_def)
  then show ?thesis using snoc offset_in_para_at [of ?c 0 "length rs" "runs p" 0]
    by (simp add: offset_in_para_def para_len_def)
qed (simp add: offset_in_para_def para_len_def)

lemma cell_path_eq:
  "image_idx a = None \<Longrightarrow> image_idx b = None \<Longrightarrow>
    (a = b) = (cp_row a = cp_row b \<and> cp_col a = cp_col b \<and> para_idx a = para_idx (b :: CellPath))"
  by (cases a; cases b) auto

lemma visit_cursor_simp:
  assumes "\<And>q. path = Some q \<Longrightarrow> image_idx q = None" and "\<not> on_image c"
  shows "visit_cursor c bi path p (n, em) =
    (if block_idx c = bi \<and> cell c = path then Inl (n + of_bool em + offset_in_para p c)
     else Inr (n + of_bool em + para_len p, True))"
proof (cases path)
  case None
  then show ?thesis by (cases "cell c") (auto simp: visit_cursor_def Let_def)
next
  case (Some q)
  show ?thesis
  proof (cases "cell c")
    case None
    then show ?thesis using Some by (auto simp: visit_cursor_def Let_def)
  next
    case (Some r)
    then have "(r = q) = (cp_row r = cp_row q \<and> cp_col r = cp_col q \<and> para_idx r = para_idx q)"
      using assms \<open>path = Some q\<close> by (intro cell_path_eq) (simp_all add: on_image_def)
    then show ?thesis using Some \<open>path = Some q\<close> assms by (auto simp: visit_cursor_def Let_def on_image_def)
  qed
qed

definition text_len :: "para_pos list \<Rightarrow> nat" where
  "text_len ps = sum_list (map (\<lambda>x. para_len (para_of x)) ps) + (length ps - 1)"

definition from_loop :: "para_pos list \<Rightarrow> nat \<times> bool \<times> Cursor \<Rightarrow> Cursor + nat \<times> bool \<times> Cursor" where
  "from_loop ps st = early (\<lambda>x. visit_offset (fst x) (fst (snd x)) (para_of x)) ps st"

definition to_loop :: "Cursor \<Rightarrow> para_pos list \<Rightarrow> nat \<times> bool \<Rightarrow> nat + nat \<times> bool" where
  "to_loop c ps st = early (\<lambda>x. visit_cursor c (fst x) (fst (snd x)) (para_of x)) ps st"

lemma to_loop_Cons:
  assumes "\<And>q. fst (snd x) = Some q \<Longrightarrow> image_idx q = None" and "\<not> on_image c"
  shows "to_loop c (x # ps) (n, em) =
    (if (block_idx c, cell c) = key_of x then Inl (n + of_bool em + offset_in_para (para_of x) c)
     else to_loop c ps (n + of_bool em + para_len (para_of x), True))"
  using visit_cursor_simp [OF assms] by (simp add: to_loop_def key_of_def)

lemma from_loop_Cons:
  assumes "em \<longrightarrow> 0 < off"
  shows "from_loop (x # ps) (off, em, le) =
    (let off = off - of_bool em
     in if off \<le> para_len (para_of x) then Inl (cursor_in_para (fst x) (fst (snd x)) (para_of x) off)
        else from_loop ps (off - para_len (para_of x), True, end_of_para (fst x) (fst (snd x)) (para_of x)))"
  using assms by (cases em) (simp_all add: from_loop_def visit_offset_def Let_def)

definition pos_ok :: "para_pos list \<Rightarrow> bool" where
  "pos_ok ps \<longleftrightarrow> distinct (map key_of ps) \<and> (\<forall>x\<in>set ps. \<forall>q. fst (snd x) = Some q \<longrightarrow> image_idx q = None)"

lemma not_on_image: "\<forall>q. fst (snd x) = Some q \<longrightarrow> image_idx q = None \<Longrightarrow> cell c = fst (snd x) \<Longrightarrow> \<not> on_image c"
  by (auto simp: on_image_def split: option.splits)

lemma from_to_loop:
  assumes "pos_ok ps" and "em \<longrightarrow> 0 < off" and "from_loop ps (off, em, le) = Inl c"
  shows "(block_idx c, cell c) \<in> key_of ` set ps \<and> \<not> on_image c \<and> to_loop c ps (n, em) = Inl (n + off)"
  using assms
proof (induction ps arbitrary: off em le n)
  case Nil
  then show ?case by (simp add: from_loop_def)
next
  case (Cons x ps)
  let ?o = "off - of_bool em" and ?p = "para_of x"
  have x: "\<forall>q. fst (snd x) = Some q \<longrightarrow> image_idx q = None" and ps: "pos_ok ps" "key_of x \<notin> key_of ` set ps"
    using Cons.prems(1) by (auto simp: pos_ok_def)
  show ?case
  proof (cases "?o \<le> para_len ?p")
    case True
    then have c: "c = cursor_in_para (fst x) (fst (snd x)) ?p ?o"
      using Cons.prems(2,3) by (simp add: from_loop_Cons Let_def)
    have im: "\<not> on_image c" and key: "(block_idx c, cell c) = key_of x"
      using not_on_image [OF x] by (simp_all add: c cursor_in_para_key key_of_def)
    have "offset_in_para ?p c = ?o" using offset_of_cursor_in_para [OF True] by (simp add: c)
    then show ?thesis using Cons.prems(2) x im key by (cases em) (simp_all add: to_loop_Cons)
  next
    case False
    then have "from_loop ps (?o - para_len ?p, True, end_of_para (fst x) (fst (snd x)) ?p) = Inl c"
      using Cons.prems(2,3) by (simp add: from_loop_Cons Let_def)
    from Cons.IH [OF ps(1) _ this, of "n + of_bool em + para_len ?p"] False
    have IH: "(block_idx c, cell c) \<in> key_of ` set ps" "\<not> on_image c"
      "to_loop c ps (n + of_bool em + para_len ?p, True) = Inl (n + of_bool em + para_len ?p + (?o - para_len ?p))"
      by auto
    then have "(block_idx c, cell c) \<noteq> key_of x" using ps(2) by auto
    then show ?thesis using IH x False Cons.prems(2) by (simp add: to_loop_Cons)
  qed
qed

lemma text_len_Cons: "text_len (x # ps) = para_len (para_of x) + (if ps = [] then 0 else Suc (text_len ps))"
  by (cases ps) (simp_all add: text_len_def)

lemma from_loop_bound:
  assumes "em \<longrightarrow> 0 < off" and "from_loop ps (off, em, le) = Inl c"
  shows "off \<le> of_bool em + text_len ps"
  using assms
proof (induction ps arbitrary: off em le)
  case (Cons x ps)
  show ?case
  proof (cases "off - of_bool em \<le> para_len (para_of x)")
    case True
    then show ?thesis by (simp add: text_len_Cons)
  next
    case False
    then have "from_loop ps (off - of_bool em - para_len (para_of x), True, end_of_para (fst x) (fst (snd x)) (para_of x)) = Inl c"
      using Cons.prems by (simp add: from_loop_Cons Let_def)
    note step = this
    then have "ps \<noteq> []" by (auto simp: from_loop_def)
    moreover have "off - of_bool em - para_len (para_of x) \<le> of_bool True + text_len ps"
      by (rule Cons.IH [OF _ step]) (use False in simp)
    ultimately show ?thesis using False by (simp add: text_len_Cons)
  qed
qed (simp add: from_loop_def)

lemma from_loop_past_end:
  assumes "pos_ok ps" and "ps \<noteq> []" and "em \<longrightarrow> 0 < off" and "from_loop ps (off, em, le) = Inr (o', em', c)"
  shows "em' \<and> (block_idx c, cell c) \<in> key_of ` set ps \<and> \<not> on_image c \<and> of_bool em + text_len ps < off
    \<and> to_loop c ps (n, em) = Inl (n + of_bool em + text_len ps)"
  using assms
proof (induction ps arbitrary: off em le n)
  case (Cons x ps)
  let ?o = "off - of_bool em" and ?p = "para_of x"
  have x: "\<forall>q. fst (snd x) = Some q \<longrightarrow> image_idx q = None" and ps: "pos_ok ps" "key_of x \<notin> key_of ` set ps"
    using Cons.prems(1) by (auto simp: pos_ok_def)
  have gt: "\<not> ?o \<le> para_len ?p"
    and step: "from_loop ps (?o - para_len ?p, True, end_of_para (fst x) (fst (snd x)) ?p) = Inr (o', em', c)"
    using Cons.prems(3,4) by (auto simp: from_loop_Cons Let_def split: if_splits)
  show ?case
  proof (cases "ps = []")
    case True
    then have c: "em'" "c = end_of_para (fst x) (fst (snd x)) ?p" using step by (auto simp: from_loop_def)
    have im: "\<not> on_image c" and key: "(block_idx c, cell c) = key_of x"
      using not_on_image [OF x] by (simp_all add: c end_of_para_key key_of_def)
    have "offset_in_para ?p c = para_len ?p" by (simp add: c offset_of_end_of_para)
    then show ?thesis using c(1) im key x gt True by (simp add: to_loop_Cons text_len_Cons)
  next
    case False
    from Cons.IH [OF ps(1) False _ step, of "n + of_bool em + para_len ?p"] gt
    have IH: "em'" "(block_idx c, cell c) \<in> key_of ` set ps" "\<not> on_image c" "Suc (text_len ps) < ?o - para_len ?p"
      "to_loop c ps (n + of_bool em + para_len ?p, True) = Inl (n + of_bool em + para_len ?p + 1 + text_len ps)"
      by auto
    then have "(block_idx c, cell c) \<noteq> key_of x" using ps(2) by auto
    then show ?thesis using IH x False by (simp add: to_loop_Cons text_len_Cons)
  qed
qed simp

lemma pos_ok_positions: "pos_ok (positions doc)"
  using positions_keys by (auto simp: pos_ok_def)

lemma offset_roundtrip:
  assumes "positions doc \<noteq> []"
  shows "plain_offset_from_cursor doc (cursor_from_plain_offset doc off) = min off (text_len (positions doc))"
proof -
  have blocks: "blocks doc \<noteq> []" using assms by (auto simp: positions_def)
  have from_eq: "early visit_block_offset (List.enumerate 0 (blocks doc)) (off, False, default_cursor)
      = from_loop (positions doc) (off, False, default_cursor)"
    by (simp add: early_visit_offset from_loop_def)
  have to_eq: "plain_offset_from_cursor doc c = n" if "\<not> on_image c" "to_loop c (positions doc) (0, False) = Inl n" for c n
    using that by (simp add: plain_offset_from_cursor_def early_visit_cursor to_loop_def)
  show ?thesis
  proof (cases "from_loop (positions doc) (off, False, default_cursor)")
    case (Inl c)
    then have "cursor_from_plain_offset doc off = c" using blocks by (simp add: cursor_from_plain_offset_def from_eq)
    then show ?thesis
      using from_to_loop [OF pos_ok_positions _ Inl, of 0] from_loop_bound [OF _ Inl] to_eq [of c off] by simp
  next
    case (Inr st)
    then obtain o' em' c where st: "from_loop (positions doc) (off, False, default_cursor) = Inr (o', em', c)" by (cases st) auto
    note end_loop = from_loop_past_end [OF pos_ok_positions assms _ st, of 0]
    then have "cursor_from_plain_offset doc off = c" using blocks by (simp add: cursor_from_plain_offset_def from_eq st)
    then show ?thesis using end_loop to_eq [of c "text_len (positions doc)"] by simp
  qed
qed

lemma length_para_plain_text: "length (para_plain_text p) = para_len p"
  by (simp add: para_plain_text_def para_len_def length_concat comp_def)

lemma map_snd_enumerate_concat:
  assumes "\<And>i x. map f (g (i, x)) = h x"
  shows "map f (concat (map g (List.enumerate n xs))) = concat (map h xs)"
  using assms by (induction xs arbitrary: n) auto

lemma block_paragraphs_positions: "map para_of (block_positions (i, b)) = block_paragraphs b"
proof -
  have cell: "map para_of (cell_positions bi ri (j, tc)) = paragraphs tc" for bi ri j tc
    by (simp add: cell_positions_def para_of_def comp_def case_prod_beta')
  have row: "map para_of (row_positions bi (j, row)) = concat (map paragraphs (cells row))" for bi j row
    using map_snd_enumerate_concat [of para_of "cell_positions bi j" paragraphs] cell by (simp add: row_positions_def)
  have "map para_of (concat (map (row_positions bi) (List.enumerate 0 rs)))
      = concat (map (\<lambda>row. concat (map paragraphs (cells row))) rs)" for bi rs
    by (rule map_snd_enumerate_concat) (rule row)
  then show ?thesis by (auto simp: block_positions_def block_paragraphs_def para_of_def split: Block.split)
qed

lemma doc_plain_text_positions: "doc_plain_text doc = fold push_paragraph (map para_of (positions doc)) []"
proof -
  have "map para_of (positions doc) = concat (map block_paragraphs (blocks doc))"
    unfolding positions_def by (rule map_snd_enumerate_concat) (rule block_paragraphs_positions)
  moreover have "fold (\<lambda>b. fold push_paragraph (block_paragraphs b)) bs out
      = fold push_paragraph (concat (map block_paragraphs bs)) out" for bs out
    by (induction bs arbitrary: out) auto
  ultimately show ?thesis by (simp add: doc_plain_text_def)
qed

lemma length_push_paragraphs:
  "out \<noteq> [] \<Longrightarrow> length (fold push_paragraph ps out) = length out + sum_list (map para_len ps) + length ps"
  by (induction ps arbitrary: out) (simp_all add: push_paragraph_def length_para_plain_text)

lemma text_len_plain_text:
  assumes "positions doc = x # ps" and "para_plain_text (para_of x) \<noteq> []"
  shows "text_len (positions doc) = length (doc_plain_text doc)"
proof -
  have "doc_plain_text doc = fold push_paragraph (map para_of ps) (para_plain_text (para_of x))"
    by (simp add: doc_plain_text_positions assms(1) push_paragraph_def)
  then show ?thesis using assms length_push_paragraphs [OF assms(2), of "map para_of ps"]
    by (simp add: text_len_def length_para_plain_text comp_def)
qed

text \<open>
  C27. Offsets in the plain text and cursors correspond: turning an offset into a cursor and back gives
  the offset, cut at the end of the text, in every document whose first paragraph is not empty.  After an empty first
  paragraph every offset is one too far (\<open>leading_empty_paragraph_shifts\<close>).
\<close>

theorem cursor_offset_roundtrip:
  assumes "positions doc = x # ps" and "para_plain_text (para_of x) \<noteq> []"
  shows "plain_offset_from_cursor doc (cursor_from_plain_offset doc off) = min off (length (doc_plain_text doc))"
  using offset_roundtrip [of doc off] text_len_plain_text [OF assms] assms(1) by simp

definition two_paragraphs :: Document where
  "two_paragraphs = default_document\<lparr>blocks :=
    [ParagraphBlock (default_paragraph\<lparr>runs := [default_run\<lparr>run_text := [97, 98]\<rparr>, default_run\<lparr>run_text := [99]\<rparr>]\<rparr>),
     ParagraphBlock (default_paragraph\<lparr>runs := [default_run\<lparr>run_text := [100]\<rparr>]\<rparr>)]\<rparr>"

theorem cursor_offset_roundtrip_witness:
  "plain_offset_from_cursor two_paragraphs (cursor_from_plain_offset two_paragraphs 9) = 5"
proof -
  have "\<exists>x ps. positions two_paragraphs = x # ps \<and> para_plain_text (para_of x) \<noteq> []" "length (doc_plain_text two_paragraphs) = 5"
    by (simp_all add: two_paragraphs_def positions_def block_positions_def para_of_def para_plain_text_def
        doc_plain_text_def block_paragraphs_def push_paragraph_def)
  then show ?thesis using cursor_offset_roundtrip [of two_paragraphs _ _ 9] by auto
qed

text \<open>
  With an empty first paragraph the offsets of cursors are one ahead of the plain text, which has no
  line feed before the second paragraph then.
\<close>

lemma leading_empty_paragraph_shifts:
  "let doc = default_document\<lparr>blocks := [ParagraphBlock default_paragraph,
      ParagraphBlock (default_paragraph\<lparr>runs := [default_run\<lparr>run_text := [97]\<rparr>]\<rparr>)]\<rparr>
   in doc_plain_text doc = [97] \<and> plain_offset_from_cursor doc (cursor_at 1 0 0) = 1"
  by (simp add: Let_def doc_plain_text_def block_paragraphs_def push_paragraph_def para_plain_text_def default_paragraph_def
      default_document_def plain_offset_from_cursor_def visit_block_cursor_def visit_cursor_def cursor_at_def
      offset_in_para_def para_len_def)

text \<open>The comparison of cursors is not an order: each of two cursors can be before the other.\<close>

lemma cmp_cursor_not_antisymmetric:
  "cmp_cursor (cursor_at 0 0 5) (cursor_at 0 1 0) = Less \<and> cmp_cursor (cursor_at 0 1 0) (cursor_at 0 0 5) = Less"
  by (simp add: cmp_cursor_def cursor_at_def cmp_nat_def cmp_in_paragraph_def on_image_def cmp_pair_def)

end
