(* ===== verification/Document_Edit.thy ===== *)
theory Document_Edit
  imports Document_Cursor
begin

text \<open>
  Text and style edits of the document editor
  (crates/orchid-viewers/src/document/undo.rs).  A command gives the new document and either an error
  or its inverse; the document is part of the result of an error too, because some commands change it
  before they fail.  A string index that is out of range or not a character boundary, and a range
  whose start is after its end, abort the Rust program: the error \<open>Panic\<close>.
\<close>

datatype edit_error = EditOutOfBounds | Panic

type_synonym 'a edit_result = "edit_error + 'a"

section \<open>Strings and runs\<close>

definition str_slice :: "nat \<Rightarrow> nat \<Rightarrow> utf8 \<Rightarrow> utf8 edit_result" where
  "str_slice a b s =
    (if a \<le> b \<and> b \<le> length s \<and> is_char_boundary s a \<and> is_char_boundary s b then Inr (bslice a b s) else Inl Panic)"

definition set_run_text :: "nat \<Rightarrow> utf8 \<Rightarrow> Run list \<Rightarrow> Run list" where
  "set_run_text i t rs = rs[i := (rs ! i)\<lparr>run_text := t\<rparr>]"

definition insert_in_para :: "Cursor \<Rightarrow> utf8 \<Rightarrow> Paragraph \<Rightarrow> Paragraph edit_result" where
  "insert_in_para at t p =
    (if runs p = [] then Inr (p\<lparr>runs := [default_run\<lparr>run_text := t\<rparr>]\<rparr>)
     else case get_at (runs p) (run_idx at) of
            None \<Rightarrow> Inl EditOutOfBounds
          | Some r \<Rightarrow>
              if length (run_text r) < byte_offset at then Inl EditOutOfBounds
              else if \<not> is_char_boundary (run_text r) (byte_offset at) then Inl Panic
              else Inr (p\<lparr>runs := set_run_text (run_idx at)
                     (take (byte_offset at) (run_text r) @ t @ drop (byte_offset at) (run_text r)) (runs p)\<rparr>))"

definition apply_insert_text :: "Cursor \<Rightarrow> utf8 \<Rightarrow> Document \<Rightarrow> Document edit_result" where
  "apply_insert_text at t doc =
    (case paragraph_ref (blocks doc) at of
       None \<Rightarrow> Inl EditOutOfBounds
     | Some p \<Rightarrow>
         (case insert_in_para at t p of
            Inl e \<Rightarrow> Inl e
          | Inr p' \<Rightarrow> Inr (doc\<lparr>blocks := put_paragraph at p' (blocks doc)\<rparr>)))"

definition delete_in_run :: "nat \<Rightarrow> nat \<Rightarrow> nat \<Rightarrow> Paragraph \<Rightarrow> Paragraph \<times> unit edit_result" where
  "delete_in_run i a b p =
    (case get_at (runs p) i of
       None \<Rightarrow> (p, Inl EditOutOfBounds)
     | Some r \<Rightarrow>
         if b < a \<or> length (run_text r) < b then (p, Inl EditOutOfBounds)
         else if \<not> is_char_boundary (run_text r) a \<or> \<not> is_char_boundary (run_text r) b then (p, Inl Panic)
         else (p\<lparr>runs := set_run_text i (take a (run_text r) @ drop b (run_text r)) (runs p)\<rparr>, Inr ()))"

definition join_runs :: "nat \<Rightarrow> nat \<Rightarrow> nat \<Rightarrow> Paragraph \<Rightarrow> Paragraph \<times> unit edit_result" where
  "join_runs i j b p =
    (case get_at (runs p) j of
       None \<Rightarrow> (p, Inl EditOutOfBounds)
     | Some r \<Rightarrow>
         if length (run_text r) < b then (p, Inl EditOutOfBounds)
         else if \<not> is_char_boundary (run_text r) b then (p, Inl Panic)
         else if j < i then (p, Inl Panic)
         else (let rs = take (i + 1) (runs p) @ drop (j + 1) (runs p)
               in (p\<lparr>runs := set_run_text i (run_text (rs ! i) @ drop b (run_text r)) rs\<rparr>, Inr ())))"

definition delete_across_runs :: "nat \<Rightarrow> nat \<Rightarrow> nat \<Rightarrow> nat \<Rightarrow> Paragraph \<Rightarrow> Paragraph \<times> unit edit_result" where
  "delete_across_runs i a j b p =
    (case get_at (runs p) i of
       None \<Rightarrow> (p, Inl EditOutOfBounds)
     | Some r \<Rightarrow>
         if length (run_text r) < a then (p, Inl EditOutOfBounds)
         else if \<not> is_char_boundary (run_text r) a then (p, Inl Panic)
         else join_runs i j b (p\<lparr>runs := set_run_text i (take a (run_text r)) (runs p)\<rparr>))"

definition delete_in_para :: "Cursor \<Rightarrow> Cursor \<Rightarrow> Paragraph \<Rightarrow> Paragraph \<times> unit edit_result" where
  "delete_in_para start end_c p =
    (if run_idx start = run_idx end_c
     then delete_in_run (run_idx start) (byte_offset start) (byte_offset end_c) p
     else delete_across_runs (run_idx start) (byte_offset start) (run_idx end_c) (byte_offset end_c) p)"

definition apply_delete_range :: "Cursor \<Rightarrow> Cursor \<Rightarrow> Document \<Rightarrow> Document \<times> unit edit_result" where
  "apply_delete_range start end_c doc =
    (if \<not> same_paragraph start end_c then (doc, Inl EditOutOfBounds)
     else case paragraph_ref (blocks doc) start of
            None \<Rightarrow> (doc, Inl EditOutOfBounds)
          | Some p \<Rightarrow>
              (case delete_in_para start end_c p of
                 (p', r) \<Rightarrow> (doc\<lparr>blocks := put_paragraph start p' (blocks doc)\<rparr>, r)))"

fun extract_runs :: "Cursor \<Rightarrow> Cursor \<Rightarrow> Run list \<Rightarrow> nat list \<Rightarrow> utf8 \<Rightarrow> utf8 edit_result" where
  "extract_runs start end_c rs [] out = Inr out"
| "extract_runs start end_c rs (idx # idxs) out =
    (case get_at rs idx of
       None \<Rightarrow> Inl EditOutOfBounds
     | Some r \<Rightarrow>
         (case (if idx = run_idx start then str_slice (byte_offset start) (length (run_text r)) (run_text r)
                else if idx = run_idx end_c then str_slice 0 (byte_offset end_c) (run_text r)
                else Inr (run_text r)) of
            Inl e \<Rightarrow> Inl e
          | Inr s \<Rightarrow> extract_runs start end_c rs idxs (out @ s)))"

definition extract_text :: "Cursor \<Rightarrow> Cursor \<Rightarrow> Document \<Rightarrow> utf8 edit_result" where
  "extract_text start end_c doc =
    (if \<not> same_paragraph start end_c then Inl EditOutOfBounds
     else case paragraph_ref (blocks doc) start of
            None \<Rightarrow> Inl EditOutOfBounds
          | Some p \<Rightarrow>
              if run_idx start = run_idx end_c then
                (case get_at (runs p) (run_idx start) of
                   None \<Rightarrow> Inl EditOutOfBounds
                 | Some r \<Rightarrow> str_slice (byte_offset start) (byte_offset end_c) (run_text r))
              else extract_runs start end_c (runs p) [run_idx start..<Suc (run_idx end_c)] [])"

section \<open>Styles\<close>

record RunStylePatch =
  p_bold :: "bool option"
  p_italic :: "bool option"
  p_underline :: "bool option"
  p_strikethrough :: "bool option"
  p_double_strikethrough :: "bool option"
  p_highlight :: "bool option"
  p_superscript :: "bool option"
  p_subscript :: "bool option"
  p_all_caps :: "bool option"
  p_small_caps :: "bool option"
  p_vanish :: "bool option"
  p_shadow :: "bool option"
  p_emboss :: "bool option"
  p_imprint :: "bool option"
  p_color :: "rgb option option"
  p_font_family :: "utf8 option option"
  p_font_size_pt :: "f32 option option"
  p_hyperlink :: "Hyperlink option option"
  p_style_id :: "utf8 option option"

definition clear_character :: RunStylePatch where
  "clear_character =
    \<lparr>p_bold = Some False, p_italic = Some False, p_underline = Some False, p_strikethrough = Some False,
     p_double_strikethrough = Some False, p_highlight = Some False, p_superscript = Some False,
     p_subscript = Some False, p_all_caps = Some False, p_small_caps = Some False, p_vanish = Some False,
     p_shadow = Some False, p_emboss = Some False, p_imprint = Some False, p_color = Some None,
     p_font_family = Some None, p_font_size_pt = Some None, p_hyperlink = Some None, p_style_id = Some None\<rparr>"

definition if_some :: "'v option \<Rightarrow> ('v \<Rightarrow> 's \<Rightarrow> 's) \<Rightarrow> 's \<Rightarrow> 's" where
  "if_some o' f s = (case o' of Some v \<Rightarrow> f v s | None \<Rightarrow> s)"

definition apply_to :: "RunStylePatch \<Rightarrow> RunStyle \<Rightarrow> RunStyle" where
  "apply_to pt s =
    (let s = if_some (p_bold pt) (\<lambda>v s. s\<lparr>bold := v\<rparr>) s;
         s = if_some (p_italic pt) (\<lambda>v s. s\<lparr>italic := v\<rparr>) s;
         s = if_some (p_underline pt) (\<lambda>v s. s\<lparr>underline := v\<rparr>) s;
         s = if_some (p_strikethrough pt) (\<lambda>v s. s\<lparr>strikethrough := v\<rparr>) s;
         s = if_some (p_double_strikethrough pt) (\<lambda>v s. s\<lparr>double_strikethrough := v\<rparr>) s;
         s = if_some (p_highlight pt) (\<lambda>v s. s\<lparr>highlight := v\<rparr>) s;
         s = if_some (p_superscript pt) (\<lambda>v s. let s = s\<lparr>superscript := v\<rparr> in if v then s\<lparr>subscript := False\<rparr> else s) s;
         s = if_some (p_subscript pt) (\<lambda>v s. let s = s\<lparr>subscript := v\<rparr> in if v then s\<lparr>superscript := False\<rparr> else s) s;
         s = if_some (p_all_caps pt) (\<lambda>v s. s\<lparr>all_caps := v\<rparr>) s;
         s = if_some (p_small_caps pt) (\<lambda>v s. s\<lparr>small_caps := v\<rparr>) s;
         s = if_some (p_vanish pt) (\<lambda>v s. s\<lparr>vanish := v\<rparr>) s;
         s = if_some (p_shadow pt) (\<lambda>v s. s\<lparr>shadow := v\<rparr>) s;
         s = if_some (p_emboss pt) (\<lambda>v s. s\<lparr>emboss := v\<rparr>) s;
         s = if_some (p_imprint pt) (\<lambda>v s. s\<lparr>imprint := v\<rparr>) s;
         s = if_some (p_color pt) (\<lambda>v s. s\<lparr>color := v\<rparr>) s;
         s = if_some (p_font_family pt) (\<lambda>v s. s\<lparr>font_family := v\<rparr>) s
     in if_some (p_font_size_pt pt) (\<lambda>v s. s\<lparr>font_size_pt := v\<rparr>) s)"

definition apply_to_run :: "RunStylePatch \<Rightarrow> Run \<Rightarrow> Run" where
  "apply_to_run pt r =
    (let r = r\<lparr>run_style := apply_to pt (run_style r)\<rparr>;
         r = if_some (p_hyperlink pt) (\<lambda>v r. r\<lparr>hyperlink := v\<rparr>) r
     in if_some (p_style_id pt) (\<lambda>v r. r\<lparr>run_style_id := v\<rparr>) r)"

definition split_run_at :: "nat \<Rightarrow> nat \<Rightarrow> Paragraph \<Rightarrow> (Paragraph \<times> nat) edit_result" where
  "split_run_at i off p =
    (case get_at (runs p) i of
       None \<Rightarrow> Inl EditOutOfBounds
     | Some r \<Rightarrow>
         if off = 0 then Inr (p, i)
         else if length (run_text r) \<le> off then Inr (p, i + 1)
         else if \<not> is_char_boundary (run_text r) off then Inl EditOutOfBounds
         else let right = r\<lparr>run_text := drop off (run_text r), field := None\<rparr>
              in Inr (p\<lparr>runs := insert_at (i + 1) right (set_run_text i (take off (run_text r)) (runs p))\<rparr>, i + 1))"

definition style_runs :: "RunStylePatch \<Rightarrow> nat \<Rightarrow> nat \<Rightarrow> Paragraph \<Rightarrow> Paragraph" where
  "style_runs pt lo hi p =
    p\<lparr>runs := map (\<lambda>(i, r). if lo \<le> i \<and> i \<le> hi then apply_to_run pt r else r) (List.enumerate 0 (runs p))\<rparr>"

text \<open>The end of the range is split first, so that the index of its start stays valid.\<close>

definition split_end :: "nat \<Rightarrow> nat \<Rightarrow> nat \<Rightarrow> Paragraph \<Rightarrow> (Paragraph \<times> nat) edit_result" where
  "split_end run_start run_end byte_end p =
    (if 0 < byte_end \<and> byte_end < length (run_text (runs p ! run_end))
     then map_sum id (\<lambda>(p, _). (p, run_end)) (split_run_at run_end byte_end p)
     else if byte_end = 0 \<and> run_start < run_end then Inr (p, run_end - 1)
     else Inr (p, run_end))"

definition split_start :: "nat \<Rightarrow> nat \<Rightarrow> nat \<Rightarrow> Paragraph \<Rightarrow> (Paragraph \<times> nat \<times> nat) edit_result" where
  "split_start run_start byte_start end_run p =
    (if 0 < byte_start \<and> byte_start < length (run_text (runs p ! run_start))
     then map_sum id (\<lambda>(p, i). (p, i, if run_start \<le> end_run then end_run + 1 else end_run))
            (split_run_at run_start byte_start p)
     else if length (run_text (runs p ! run_start)) \<le> byte_start \<and> 0 < byte_start
     then Inr (p, run_start + 1, end_run)
     else Inr (p, run_start, end_run))"

definition apply_style_to_paragraph_range ::
  "RunStylePatch \<Rightarrow> nat \<Rightarrow> nat \<Rightarrow> nat \<Rightarrow> nat \<Rightarrow> Paragraph \<Rightarrow> Paragraph \<times> unit edit_result"
where
  "apply_style_to_paragraph_range pt run_start byte_start run_end byte_end p =
    (if length (runs p) \<le> run_start \<or> length (runs p) \<le> run_end then (p, Inl EditOutOfBounds)
     else (case split_end run_start run_end byte_end p of
             Inl e \<Rightarrow> (p, Inl e)
           | Inr (p, end_run) \<Rightarrow>
               (case split_start run_start byte_start end_run p of
                  Inl e \<Rightarrow> (p, Inl e)
                | Inr (p, start_run, end_run) \<Rightarrow>
                    if length (runs p) \<le> start_run then (p, Inr ())
                    else (style_runs pt start_run (min end_run (length (runs p) - 1)) p, Inr ()))))"

definition with_a_run :: "Paragraph \<Rightarrow> Paragraph" where
  "with_a_run p = (if runs p = [] then p\<lparr>runs := [default_run]\<rparr> else p)"

definition style_in_para ::
  "RunStylePatch \<Rightarrow> bool \<Rightarrow> nat \<Rightarrow> nat \<Rightarrow> nat \<Rightarrow> nat \<Rightarrow> Paragraph \<Rightarrow> Paragraph \<times> unit edit_result"
where
  "style_in_para pt caret rs bs re be p =
    (if caret \<and> rs = re \<and> bs = be
     then (let i = min rs (length (runs p) - 1) in (style_runs pt i i p, Inr ()))
     else apply_style_to_paragraph_range pt rs bs re be p)"

definition apply_set_run_style_one_para ::
  "RunStylePatch \<Rightarrow> Cursor \<Rightarrow> Cursor \<Rightarrow> Document \<Rightarrow> Document \<times> unit edit_result"
where
  "apply_set_run_style_one_para pt start end_c doc =
    (case paragraph_ref (blocks doc) start of
       None \<Rightarrow> (doc, Inl EditOutOfBounds)
     | Some p \<Rightarrow>
         (case style_in_para pt True (run_idx start) (byte_offset start) (run_idx end_c) (byte_offset end_c) (with_a_run p) of
            (p', r) \<Rightarrow> (doc\<lparr>blocks := put_paragraph start p' (blocks doc)\<rparr>, r)))"

text \<open>The blocks of a selection over several paragraphs, one after the other until one fails.\<close>

fun style_blocks ::
  "RunStylePatch \<Rightarrow> Cursor \<Rightarrow> Cursor \<Rightarrow> nat list \<Rightarrow> Document \<Rightarrow> Document \<times> unit edit_result"
where
  "style_blocks pt start end_c [] doc = (doc, Inr ())"
| "style_blocks pt start end_c (bi # bis) doc =
    (case get_at (blocks doc) bi of
       None \<Rightarrow> (doc, Inl EditOutOfBounds)
     | Some (ParagraphBlock p) \<Rightarrow>
         let p = with_a_run p;
             (rs, bs) = (if bi = block_idx start then (run_idx start, byte_offset start) else (0, 0));
             (re, be) = (if bi = block_idx end_c then (run_idx end_c, byte_offset end_c)
                         else let l = length (runs p) - 1
                              in (l, case get_at (runs p) l of Some r \<Rightarrow> length (run_text r) | None \<Rightarrow> 0))
         in (case style_in_para pt (bi = block_idx start \<and> bi = block_idx end_c) rs bs re be p of
               (p', Inl e) \<Rightarrow> (doc\<lparr>blocks := (blocks doc)[bi := ParagraphBlock p']\<rparr>, Inl e)
             | (p', Inr _) \<Rightarrow> style_blocks pt start end_c bis (doc\<lparr>blocks := (blocks doc)[bi := ParagraphBlock p']\<rparr>))
     | Some _ \<Rightarrow> style_blocks pt start end_c bis doc)"

definition apply_set_run_style :: "Selection \<Rightarrow> RunStylePatch \<Rightarrow> Document \<Rightarrow> Document \<times> unit edit_result" where
  "apply_set_run_style sel pt doc =
    (case normalized sel of (start, end_c) \<Rightarrow>
       if same_paragraph start end_c then apply_set_run_style_one_para pt start end_c doc
       else if cell start \<noteq> None \<or> cell end_c \<noteq> None then (doc, Inl EditOutOfBounds)
       else if block_idx end_c < block_idx start \<or> length (blocks doc) \<le> block_idx end_c then (doc, Inl EditOutOfBounds)
       else style_blocks pt start end_c [block_idx start..<Suc (block_idx end_c)] doc)"

section \<open>What a style patch changes\<close>

text \<open>The bytes of a paragraph with the attributes of the run each belongs to.\<close>

type_synonym attrs = "RunStyle \<times> utf8 option \<times> Hyperlink option"

definition attrs_of :: "Run \<Rightarrow> attrs" where
  "attrs_of r = (run_style r, run_style_id r, hyperlink r)"

definition patch_attrs :: "RunStylePatch \<Rightarrow> attrs \<Rightarrow> attrs" where
  "patch_attrs pt = (\<lambda>(s, i, h). (apply_to pt s, case p_style_id pt of Some v \<Rightarrow> v | None \<Rightarrow> i,
      case p_hyperlink pt of Some v \<Rightarrow> v | None \<Rightarrow> h))"

definition run_bytes :: "Run \<Rightarrow> (u8 \<times> attrs) list" where
  "run_bytes r = map (\<lambda>b. (b, attrs_of r)) (run_text r)"

definition styled_bytes :: "Run list \<Rightarrow> (u8 \<times> attrs) list" where
  "styled_bytes rs = concat (map run_bytes rs)"

definition patch_bytes :: "RunStylePatch \<Rightarrow> (u8 \<times> attrs) list \<Rightarrow> (u8 \<times> attrs) list" where
  "patch_bytes pt = map (\<lambda>(b, a). (b, patch_attrs pt a))"

lemma styled_bytes_simps [simp]:
  "styled_bytes [] = []" "styled_bytes (r # rs) = run_bytes r @ styled_bytes rs"
  "styled_bytes (rs @ qs) = styled_bytes rs @ styled_bytes qs"
  by (simp_all add: styled_bytes_def)

lemma apply_to_run_text [simp]: "run_text (apply_to_run pt r) = run_text r"
  by (simp add: apply_to_run_def if_some_def Let_def split: option.splits)

lemma attrs_apply_to_run: "attrs_of (apply_to_run pt r) = patch_attrs pt (attrs_of r)"
  by (simp add: attrs_of_def patch_attrs_def apply_to_run_def if_some_def Let_def split: option.splits)

lemma styled_bytes_patch: "styled_bytes (map (apply_to_run pt) rs) = patch_bytes pt (styled_bytes rs)"
  by (induction rs) (simp_all add: run_bytes_def patch_bytes_def attrs_apply_to_run)

lemma runs_style_runs:
  assumes "lo \<le> length (runs p)"
  shows "runs (style_runs pt lo hi p) =
    take lo (runs p) @ map (apply_to_run pt) (take (Suc hi - lo) (drop lo (runs p))) @ drop (max lo (Suc hi)) (runs p)"
proof (rule nth_equalityI)
  show "length (runs (style_runs pt lo hi p)) = length (take lo (runs p) @ map (apply_to_run pt)
      (take (Suc hi - lo) (drop lo (runs p))) @ drop (max lo (Suc hi)) (runs p))"
    using assms by (auto simp: style_runs_def max_def min_def)
qed (use assms in \<open>auto simp: style_runs_def nth_enumerate_eq nth_append max_def min_def\<close>)

lemma styled_bytes_style_runs:
  assumes "runs p = A @ M @ B" "lo = length A" "Suc hi = length A + length M \<or> M = [] \<and> hi < lo"
  shows "styled_bytes (runs (style_runs pt lo hi p)) = styled_bytes A @ patch_bytes pt (styled_bytes M) @ styled_bytes B"
proof -
  have "take (Suc hi - lo) (drop lo (runs p)) = M" "drop (max lo (Suc hi)) (runs p) = B" "take lo (runs p) = A"
    using assms by (auto simp: max_def)
  then show ?thesis using runs_style_runs [of lo p pt hi] assms(1,2) by (simp add: styled_bytes_patch)
qed

lemma split_run_at_append:
  assumes "0 < off" "off < length (run_text r)"
  shows "split_run_at (length A) off (p\<lparr>runs := A @ r # B\<rparr>) =
    (if is_char_boundary (run_text r) off
     then Inr (p\<lparr>runs := A @ r\<lparr>run_text := take off (run_text r)\<rparr> # r\<lparr>run_text := drop off (run_text r), field := None\<rparr> # B\<rparr>, length A + 1)
     else Inl EditOutOfBounds)"
  using assms by (simp add: split_run_at_def get_at_def set_run_text_def insert_at_def nth_append)

lemma run_bytes_split:
  "run_bytes (r\<lparr>run_text := take k (run_text r)\<rparr>) = take k (run_bytes r)"
  "run_bytes (r\<lparr>run_text := drop k (run_text r), field := f\<rparr>) = drop k (run_bytes r)"
  by (simp_all add: run_bytes_def attrs_of_def take_map drop_map)

lemma runs_self: "runs p = rs \<Longrightarrow> p = p\<lparr>runs := rs\<rparr>"
  by auto

lemma styled_take: "i < length rs \<Longrightarrow>
    styled_bytes rs = styled_bytes (take i rs) @ run_bytes (rs ! i) @ styled_bytes (drop (Suc i) rs)"
  by (metis id_take_nth_drop styled_bytes_simps(2,3))

text \<open>After the end of the range is split, the runs up to \<open>end_run\<close> hold the text before that end.\<close>

lemma split_end_cut:
  assumes p: "runs p = A @ r # B" and A: "length A = run_end" and b: "byte_end \<le> length (run_text r)"
    and r: "byte_end = 0 \<Longrightarrow> run_start < run_end"
    and run: "split_end run_start run_end byte_end p = Inr (p', end_run)"
  shows "\<exists>L R. runs p' = L @ R \<and> length L = Suc end_run \<and> styled_bytes R = drop byte_end (run_bytes r) @ styled_bytes B \<and>
    L = A @ (if byte_end = 0 then [] else [r\<lparr>run_text := take byte_end (run_text r)\<rparr>])"
proof -
  consider "byte_end = 0" | "0 < byte_end" "byte_end < length (run_text r)" | "0 < byte_end" "byte_end = length (run_text r)"
    using b by linarith
  then show ?thesis
  proof cases
    case 1
    then have "p' = p" "Suc end_run = length A" using run r A by (auto simp: split_end_def)
    then show ?thesis using 1 p by (intro exI [of _ A] exI [of _ "r # B"]) simp
  next
    case 2
    let ?l = "r\<lparr>run_text := take byte_end (run_text r)\<rparr>" and ?q = "r\<lparr>run_text := drop byte_end (run_text r), field := None\<rparr>"
    have "split_run_at run_end byte_end p = (if is_char_boundary (run_text r) byte_end
        then Inr (p\<lparr>runs := A @ ?l # ?q # B\<rparr>, run_end + 1) else Inl EditOutOfBounds)"
      using split_run_at_append [OF 2, of A B p] runs_self [OF p, symmetric] A by simp
    then have "runs p' = (A @ [?l]) @ (?q # B)" "end_run = run_end"
      using run 2 p A by (auto simp: split_end_def nth_append split: if_splits)
    then show ?thesis using 2(1) A by (intro exI [of _ "A @ [?l]"] exI [of _ "?q # B"]) (simp add: run_bytes_split)
  next
    case 3
    then have "p' = p" "end_run = run_end" using run p A by (auto simp: split_end_def nth_append)
    then show ?thesis using 3 p A by (intro exI [of _ "A @ [r]"] exI [of _ B]) (simp add: run_bytes_def)
  qed
qed

text \<open>After its start is split, the runs from \<open>start_run\<close> to \<open>end_run\<close> hold the text from that start on.\<close>

lemma split_start_cut:
  assumes p: "runs p = (A @ r # C) @ R" and A: "length A = run_start" and e: "Suc end_run = length (A @ r # C)"
    and b: "byte_start \<le> length (run_text r)"
    and run: "split_start run_start byte_start end_run p = Inr (p', start_run, end_run')"
  shows "\<exists>A' M. runs p' = A' @ M @ R \<and> length A' = start_run \<and> Suc end_run' = length A' + length M \<and>
    styled_bytes A' = styled_bytes A @ take byte_start (run_bytes r) \<and>
    styled_bytes M = drop byte_start (run_bytes r) @ styled_bytes C"
proof -
  consider "byte_start = 0" | "0 < byte_start" "byte_start < length (run_text r)"
    | "0 < byte_start" "byte_start = length (run_text r)"
    using b by linarith
  then show ?thesis
  proof cases
    case 1
    then have "p' = p" "start_run = run_start" "end_run' = end_run" using run by (auto simp: split_start_def)
    then show ?thesis using 1 p A e by (intro exI [of _ A] exI [of _ "r # C"]) simp
  next
    case 2
    let ?l = "r\<lparr>run_text := take byte_start (run_text r)\<rparr>" and ?q = "r\<lparr>run_text := drop byte_start (run_text r), field := None\<rparr>"
    have "split_run_at run_start byte_start p = (if is_char_boundary (run_text r) byte_start
        then Inr (p\<lparr>runs := A @ ?l # ?q # C @ R\<rparr>, run_start + 1) else Inl EditOutOfBounds)"
      using split_run_at_append [OF 2, of A "C @ R" p] runs_self [OF p, symmetric] A by simp
    then have "runs p' = (A @ [?l]) @ (?q # C) @ R" "start_run = run_start + 1" "end_run' = end_run + 1"
      using run 2 p A e by (auto simp: split_start_def nth_append split: if_splits)
    then show ?thesis using A e by (intro exI [of _ "A @ [?l]"] exI [of _ "?q # C"]) (simp add: run_bytes_split)
  next
    case 3
    then have "p' = p" "start_run = run_start + 1" "end_run' = end_run"
      using run p A by (auto simp: split_start_def nth_append)
    then show ?thesis using 3 p A e by (intro exI [of _ "A @ [r]"] exI [of _ C]) (simp add: run_bytes_def)
  qed
qed

lemma style_range_cut:
  assumes run: "apply_style_to_paragraph_range pt run_start byte_start run_end byte_end p = (p'', Inr ())"
    and split: "split_end run_start run_end byte_end p = Inr (p', end_run)"
    and p': "runs p' = (A @ r # C) @ R" "length A = run_start" "Suc end_run = length (A @ r # C)"
      "byte_start \<le> length (run_text r)"
  shows "styled_bytes (runs p'') = styled_bytes A @ take byte_start (run_bytes r) @
    patch_bytes pt (drop byte_start (run_bytes r) @ styled_bytes C) @ styled_bytes R"
proof -
  obtain p2 start_run end_run' where s: "split_start run_start byte_start end_run p' = Inr (p2, start_run, end_run')"
    and p'': "p'' = (if length (runs p2) \<le> start_run then p2
      else style_runs pt start_run (min end_run' (length (runs p2) - 1)) p2)"
    using run split by (auto simp: apply_style_to_paragraph_range_def split: if_splits sum.splits)
  obtain A' M where M: "runs p2 = A' @ M @ R" "length A' = start_run" "Suc end_run' = length A' + length M"
    and bytes: "styled_bytes A' = styled_bytes A @ take byte_start (run_bytes r)"
      "styled_bytes M = drop byte_start (run_bytes r) @ styled_bytes C"
    using split_start_cut [OF p' s] by blast
  show ?thesis
  proof (cases "length (runs p2) \<le> start_run")
    case True
    then have "M = []" "R = []" using M by auto
    then show ?thesis using M bytes True by (simp add: p'' patch_bytes_def)
  next
    case False
    then have "min end_run' (length (runs p2) - 1) = end_run'" using M by auto
    then show ?thesis using styled_bytes_style_runs [of p2 A' M R start_run end_run' pt] M bytes False by (auto simp: p'')
  qed
qed

definition byte_pos :: "Run list \<Rightarrow> nat \<Rightarrow> nat \<Rightarrow> nat" where
  "byte_pos rs i b = length (styled_bytes (take i rs)) + b"

text \<open>
  C17. A style patch reaches exactly the selected bytes.  When \<open>apply_style_to_paragraph_range\<close> accepts a
  non-empty range inside the text, the bytes of the paragraph are the same as before; those between the
  two ends carry the patched style, style id and hyperlink, and all others keep theirs, wherever the
  ends fall in their runs.
\<close>

theorem style_exactly_selected:
  assumes run: "apply_style_to_paragraph_range pt run_start byte_start run_end byte_end p = (p', Inr ())"
    and order: "run_start < run_end \<or> run_start = run_end \<and> byte_start < byte_end"
    and fits: "byte_start \<le> length (run_text (runs p ! run_start))" "byte_end \<le> length (run_text (runs p ! run_end))"
    and ends: "from_b = byte_pos (runs p) run_start byte_start" "to_b = byte_pos (runs p) run_end byte_end"
  shows "styled_bytes (runs p') = take from_b (styled_bytes (runs p)) @
    patch_bytes pt (bslice from_b to_b (styled_bytes (runs p))) @ drop to_b (styled_bytes (runs p))"
proof -
  let ?r = "runs p ! run_start" and ?q = "runs p ! run_end" and ?B = "drop (Suc run_end) (runs p)"
  have idx: "run_start < length (runs p)" "run_end < length (runs p)"
    using run by (auto simp: apply_style_to_paragraph_range_def split: if_splits)
  obtain p1 end_run where split: "split_end run_start run_end byte_end p = Inr (p1, end_run)"
    using run by (auto simp: apply_style_to_paragraph_range_def split: if_splits sum.splits)
  have "runs p = take run_end (runs p) @ ?q # ?B" "length (take run_end (runs p)) = run_end"
    using idx id_take_nth_drop by auto
  from split_end_cut [OF this fits(2) _ split] order
  obtain R where L: "runs p1 = (take run_end (runs p) @ (if byte_end = 0 then [] else [?q\<lparr>run_text := take byte_end (run_text ?q)\<rparr>])) @ R"
      "Suc end_run = length (take run_end (runs p) @ (if byte_end = 0 then [] else [?q\<lparr>run_text := take byte_end (run_text ?q)\<rparr>]))"
    and R: "styled_bytes R = drop byte_end (run_bytes ?q) @ styled_bytes ?B"
    by auto
  have len: "length (run_bytes r) = length (run_text r)" for r by (simp add: run_bytes_def)
  show ?thesis
  proof (cases "run_start = run_end")
    case True
    then have "styled_bytes (runs p') = styled_bytes (take run_end (runs p)) @ take byte_start (take byte_end (run_bytes ?q)) @
      patch_bytes pt (drop byte_start (take byte_end (run_bytes ?q))) @ styled_bytes R"
      using style_range_cut [OF run split, of "take run_end (runs p)" "?q\<lparr>run_text := take byte_end (run_text ?q)\<rparr>" "[]" R]
        L order fits idx by (simp add: run_bytes_split)
    then show ?thesis using True order fits idx len
      by (simp add: ends byte_pos_def styled_take [OF idx(2)] R bslice_def min_def drop_take)
  next
    case False
    then have lt: "run_start < run_end" using order by simp
    let ?C = "drop (Suc run_start) (take run_end (runs p))"
    have A: "take run_end (runs p) = take run_start (runs p) @ ?r # ?C"
      using id_take_nth_drop [of run_start "take run_end (runs p)"] lt idx by (simp add: min_def)
    have sA: "styled_bytes (take run_end (runs p)) = styled_bytes (take run_start (runs p)) @ run_bytes ?r @ styled_bytes ?C"
      using arg_cong [OF A, of styled_bytes] by simp
    have "styled_bytes (runs p') = styled_bytes (take run_start (runs p)) @ take byte_start (run_bytes ?r) @
      patch_bytes pt (drop byte_start (run_bytes ?r) @ styled_bytes ?C @ take byte_end (run_bytes ?q)) @ styled_bytes R"
      using style_range_cut [OF run split, of "take run_start (runs p)" ?r
          "?C @ (if byte_end = 0 then [] else [?q\<lparr>run_text := take byte_end (run_text ?q)\<rparr>])" R]
        L fits idx lt A by (auto simp: run_bytes_split split: if_splits)
    moreover have "styled_bytes (runs p) = styled_bytes (take run_start (runs p)) @ run_bytes ?r @ styled_bytes ?C @ run_bytes ?q @ styled_bytes ?B"
      using styled_take [OF idx(2)] sA by simp
    moreover have "to_b = length (styled_bytes (take run_start (runs p))) + length (run_bytes ?r) + length (styled_bytes ?C) + byte_end"
      using sA by (simp add: ends byte_pos_def)
    ultimately show ?thesis using fits len by (simp add: ends(1) byte_pos_def R bslice_def)
  qed
qed

definition two_runs :: Paragraph where
  "two_runs = default_paragraph\<lparr>runs := [default_run\<lparr>run_text := [72, 101]\<rparr>, default_run\<lparr>run_text := [108, 111]\<rparr>]\<rparr>"

definition link_patch :: RunStylePatch where
  "link_patch = \<lparr>p_bold = None, p_italic = None, p_underline = None, p_strikethrough = None, p_double_strikethrough = None,
    p_highlight = None, p_superscript = None, p_subscript = None, p_all_caps = None, p_small_caps = None, p_vanish = None,
    p_shadow = None, p_emboss = None, p_imprint = None, p_color = None, p_font_family = None, p_font_size_pt = None,
    p_hyperlink = None, p_style_id = Some (Some [1])\<rparr>"

theorem style_exactly_selected_witness:
  "\<exists>p'. apply_style_to_paragraph_range link_patch 0 1 1 1 two_runs = (p', Inr ()) \<and>
    styled_bytes (runs p') = take 1 (styled_bytes (runs two_runs)) @
      patch_bytes link_patch (bslice 1 3 (styled_bytes (runs two_runs))) @ drop 3 (styled_bytes (runs two_runs))"
proof -
  obtain p' where "apply_style_to_paragraph_range link_patch 0 1 1 1 two_runs = (p', Inr ())"
    by (simp add: apply_style_to_paragraph_range_def split_end_def split_start_def split_run_at_def two_runs_def
        is_char_boundary_def set_run_text_def insert_at_def)
  then show ?thesis using style_exactly_selected [of link_patch 0 1 1 1 two_runs p' 1 3]
    by (simp add: two_runs_def byte_pos_def run_bytes_def)
qed

subsection \<open>The plain text\<close>

lemma plain_text_styled: "para_plain_text p = map fst (styled_bytes (runs p))"
  by (simp add: para_plain_text_def styled_bytes_def run_bytes_def map_concat o_def)

lemma run_texts_style_runs: "map run_text (runs (style_runs pt lo hi p)) = map run_text (runs p)"
  by (rule nth_equalityI) (simp_all add: style_runs_def nth_enumerate_eq)

lemma style_runs_text [simp]: "para_plain_text (style_runs pt lo hi p) = para_plain_text p"
  by (simp only: para_plain_text_def run_texts_style_runs)

lemma split_run_at_text:
  assumes "split_run_at i off p = Inr (p', j)"
  shows "para_plain_text p' = para_plain_text p"
proof (cases "0 < off \<and> i < length (runs p) \<and> off < length (run_text (runs p ! i))")
  case True
  let ?A = "take i (runs p)" and ?r = "runs p ! i" and ?B = "drop (Suc i) (runs p)"
  have p: "runs p = ?A @ ?r # ?B" "length ?A = i" using True id_take_nth_drop by auto
  then have "runs p' = ?A @ ?r\<lparr>run_text := take off (run_text ?r)\<rparr> # ?r\<lparr>run_text := drop off (run_text ?r), field := None\<rparr> # ?B"
    using split_run_at_append [of off ?r ?A ?B p] runs_self [OF p(1), symmetric] True assms by (auto split: if_splits)
  then have "styled_bytes (runs p') = styled_bytes (runs p)"
    using styled_take [of i "runs p"] True by (simp add: run_bytes_split)
  then show ?thesis by (simp add: plain_text_styled)
next
  case False
  then show ?thesis using assms by (auto simp: split_run_at_def get_at_def split: if_splits)
qed

lemma split_end_text: "split_end i j b p = Inr (p', k) \<Longrightarrow> para_plain_text p' = para_plain_text p"
  by (auto simp: split_end_def map_sum_def split: if_splits sum.splits dest: split_run_at_text)

lemma split_start_text: "split_start i b j p = Inr (p', k) \<Longrightarrow> para_plain_text p' = para_plain_text p"
  by (cases "split_run_at i b p") (auto simp: split_start_def split: if_splits dest: split_run_at_text)

lemma style_range_text: "para_plain_text (fst (apply_style_to_paragraph_range pt i a j b p)) = para_plain_text p"
  by (auto simp: apply_style_to_paragraph_range_def split: sum.splits prod.splits dest!: split_end_text split_start_text)

lemma with_a_run_text: "para_plain_text (with_a_run p) = para_plain_text p"
  by (simp add: with_a_run_def para_plain_text_def default_run_def)

lemma style_in_para_text: "para_plain_text (fst (style_in_para pt caret i a j b p)) = para_plain_text p"
  by (simp add: style_in_para_def style_range_text Let_def)

lemma fold_push_paragraphs: "map para_plain_text ps = map para_plain_text qs \<Longrightarrow> fold push_paragraph ps out = fold push_paragraph qs out"
proof (induction ps arbitrary: qs out)
  case (Cons p ps)
  then obtain q qs' where "qs = q # qs'" "para_plain_text p = para_plain_text q" "map para_plain_text ps = map para_plain_text qs'"
    by (cases qs) auto
  then show ?case using Cons.IH [of qs'] by (simp add: push_paragraph_def)
qed simp

definition block_texts :: "Block \<Rightarrow> utf8 list" where
  "block_texts b = map para_plain_text (block_paragraphs b)"

lemma doc_plain_text_cong:
  assumes "map block_texts bs = map block_texts (blocks doc)"
  shows "doc_plain_text (doc\<lparr>blocks := bs\<rparr>) = doc_plain_text doc"
proof -
  have "fold (\<lambda>b. fold push_paragraph (block_paragraphs b)) xs out = fold push_paragraph (concat (map block_paragraphs xs)) out"
    for xs out by (induction xs arbitrary: out) simp_all
  moreover have "map para_plain_text (concat (map block_paragraphs bs)) = map para_plain_text (concat (map block_paragraphs (blocks doc)))"
    using assms by (simp add: map_concat o_def flip: block_texts_def)
  ultimately show ?thesis using fold_push_paragraphs [of "concat (map block_paragraphs bs)"]
    by (auto simp: doc_plain_text_def)
qed

lemma block_texts_put_cell:
  assumes "get_cell t r c = Some tc" "map para_plain_text (paragraphs tc') = map para_plain_text (paragraphs tc)"
  shows "block_texts (TableBlock (put_cell r c tc' t)) = block_texts (TableBlock t)"
proof -
  have row: "map (\<lambda>c. map para_plain_text (paragraphs c)) ((cells (rows t ! r))[c := tc']) =
      map (\<lambda>c. map para_plain_text (paragraphs c)) (cells (rows t ! r))"
    using get_cell_SomeD [OF assms(1)] assms(2) by (auto simp: map_update intro!: same_block)
  let ?f = "\<lambda>row. concat (map (\<lambda>c. map para_plain_text (paragraphs c)) (cells row))"
  have "map ?f ((rows t)[r := (rows t ! r)\<lparr>cells := (cells (rows t ! r))[c := tc']\<rparr>]) = map ?f (rows t)"
    using get_cell_SomeD [OF assms(1)] row by (auto simp: map_update intro!: same_block)
  then show ?thesis by (simp add: block_texts_def block_paragraphs_def put_cell_def map_concat o_def)
qed

lemma block_texts_put_paragraph:
  assumes "paragraph_ref bs c = Some p" "para_plain_text q = para_plain_text p"
  shows "map block_texts (put_paragraph c q bs) = map block_texts bs"
proof (cases "cell c")
  case None
  then have "get_paragraph bs (block_idx c) = Some p" using assms(1) by (simp add: paragraph_ref_def)
  then show ?thesis using None get_paragraph_SomeD assms(2)
    by (fastforce simp: put_paragraph_def map_update block_texts_def block_paragraphs_def intro!: same_block)
next
  case (Some path)
  with assms obtain t tc where t: "get_table bs (block_idx c) = Some t"
    and tc: "get_cell t (cp_row path) (cp_col path) = Some tc" and p: "get_at (paragraphs tc) (para_idx path) = Some p"
    by (auto simp: paragraph_ref_def split: option.splits)
  have "map para_plain_text ((paragraphs tc)[para_idx path := q]) = map para_plain_text (paragraphs tc)"
    using get_at_SomeD [OF p] assms(2) by (auto simp: map_update intro!: same_block)
  then have "block_texts (TableBlock (put_cell (cp_row path) (cp_col path) (tc\<lparr>paragraphs := (paragraphs tc)[para_idx path := q]\<rparr>) t))
      = block_texts (TableBlock t)"
    using block_texts_put_cell [OF tc] by simp
  then show ?thesis using Some t tc get_table_SomeD [OF t]
    by (auto simp: put_paragraph_def map_update intro!: same_block)
qed

lemma style_blocks_frame: "\<exists>bs. fst (style_blocks pt s e idxs doc) = doc\<lparr>blocks := bs\<rparr>"
proof (induction idxs arbitrary: doc)
  case Nil
  show ?case by (auto intro: exI [of _ "blocks doc"])
next
  case (Cons i idxs)
  have same: "\<exists>bs. doc = doc\<lparr>blocks := bs\<rparr>" by (auto intro: exI [of _ "blocks doc"])
  have step: "\<exists>bs. fst (style_blocks pt s e idxs (doc\<lparr>blocks := bs'\<rparr>)) = doc\<lparr>blocks := bs\<rparr>" for bs'
    using Cons [of "doc\<lparr>blocks := bs'\<rparr>"] by auto
  show ?case
  proof (cases "get_at (blocks doc) i")
    case None
    then show ?thesis using same by simp
  next
    case (Some b)
    then show ?thesis using Cons [of doc] step
      by (cases b) (simp_all add: Let_def split: prod.splits sum.splits, blast)
  qed
qed

lemma apply_set_run_style_frame: "\<exists>bs. fst (apply_set_run_style sel pt doc) = doc\<lparr>blocks := bs\<rparr>"
  using style_blocks_frame [of pt _ _ _ doc]
  by (auto simp: apply_set_run_style_def apply_set_run_style_one_para_def
      split: option.splits prod.splits intro: exI [of _ "blocks doc"])

lemma style_blocks_text: "map block_texts (blocks (fst (style_blocks pt s e idxs doc))) = map block_texts (blocks doc)"
proof (induction idxs arbitrary: doc)
  case (Cons i idxs)
  have step: "map block_texts ((blocks doc)[i := ParagraphBlock q]) = map block_texts (blocks doc)"
    if "get_at (blocks doc) i = Some (ParagraphBlock p)" "para_plain_text q = para_plain_text p" for p q
    using that by (auto simp: map_update get_at_Some_iff block_texts_def block_paragraphs_def intro!: same_block)
  show ?case
  proof (cases "get_at (blocks doc) i")
    case (Some b)
    show ?thesis
    proof (cases b)
      case (ParagraphBlock p)
      have "para_plain_text q = para_plain_text p" if "style_in_para pt caret j a k z (with_a_run p) = (q, res)" for caret j a k z q res
        using style_in_para_text [of pt caret j a k z "with_a_run p"] that by (simp add: with_a_run_text)
      then show ?thesis using Some ParagraphBlock step Cons.IH
        by (auto simp: Let_def split: prod.splits sum.splits)
    qed (use Some Cons.IH in simp_all)
  qed simp
qed simp

text \<open>
  Formatting never touches the text: whatever the selection and the patch, and also when it is
  refused half way, \<open>apply_set_run_style\<close> leaves the plain text of the document as it was.
\<close>

theorem styling_keeps_text: "doc_plain_text (fst (apply_set_run_style sel pt doc)) = doc_plain_text doc"
proof -
  have one: "doc_plain_text (fst (apply_set_run_style_one_para pt s e doc)) = doc_plain_text doc" for s e
  proof (cases "paragraph_ref (blocks doc) s")
    case (Some p)
    have "para_plain_text (fst (style_in_para pt True i a j b (with_a_run p))) = para_plain_text p" for i a j b
      by (simp add: style_in_para_text with_a_run_text)
    then show ?thesis using Some block_texts_put_paragraph [OF Some]
      by (auto simp: apply_set_run_style_one_para_def case_prod_beta' intro!: doc_plain_text_cong)
  qed (simp add: apply_set_run_style_one_para_def)
  have "doc_plain_text (fst (style_blocks pt s e idxs doc)) = doc_plain_text doc" for s e idxs
  proof -
    obtain bs where bs: "fst (style_blocks pt s e idxs doc) = doc\<lparr>blocks := bs\<rparr>" using style_blocks_frame by blast
    then have "map block_texts bs = map block_texts (blocks doc)" using style_blocks_text [of pt s e idxs doc] by simp
    then show ?thesis by (simp only: bs doc_plain_text_cong)
  qed
  then show ?thesis using one by (simp add: apply_set_run_style_def split: prod.splits)
qed


end
