(* ===== verification/Document_Undo.thy ===== *)
theory Document_Undo
  imports Document_Edit
begin

text \<open>
  Edit commands and the undo stack of the document editor
  (crates/orchid-viewers/src/document/undo.rs).  \<open>apply_command\<close> gives the document after the command
  and either an error or the inverse command that the stack keeps for undo.  Byte offsets and block
  indices are natural numbers.
\<close>

datatype EditCommand =
    InsertText Cursor utf8
  | DeleteRange Selection
  | SetRunStyle Selection RunStylePatch
  | SetAlignment nat Alignment
  | ToggleList nat ListKind
  | InsertTable nat Table
  | InsertTableRow nat nat
  | DeleteTableRow nat nat
  | InsertTableColumn nat nat
  | DeleteTableColumn nat nat
  | InsertImage Cursor InlineImage
  | InsertCellImage nat nat nat nat CellImage
  | RemoveCellImage nat nat nat nat
  | ReplaceParagraph nat Paragraph
  | ReplaceBlock nat Block
  | ReplaceBlocks "Block list"
  | SetPageSetup PageSetup
  | SetSectionPageSetup nat PageSetup
  | SetHeader "Paragraph list"
  | SetFooter "Paragraph list"
  | SetHeaderFirst "Paragraph list"
  | SetFooterFirst "Paragraph list"
  | SetHeaderEven "Paragraph list"
  | SetFooterEven "Paragraph list"
  | AddBookmark Bookmark
  | RemoveBookmark utf8
  | AddComment DocComment CommentRange
  | RemoveComment u32
  | UpdateCommentText u32 utf8
  | RemoveBlock nat
  | RestoreTableRow nat nat TableRow
  | RestoreTableColumn nat nat "TableCell option list" "u32 option"

type_synonym outcome = "Document \<times> EditCommand edit_result"

abbreviation refused :: "Document \<Rightarrow> outcome" where
  "refused doc \<equiv> (doc, Inl EditOutOfBounds)"

section \<open>Text and paragraph commands\<close>

definition cmd_insert_text :: "Cursor \<Rightarrow> utf8 \<Rightarrow> Document \<Rightarrow> outcome" where
  "cmd_insert_text at t doc =
    (case apply_insert_text at t doc of
       Inl e \<Rightarrow> (doc, Inl e)
     | Inr doc' \<Rightarrow>
         (doc', Inr (DeleteRange \<lparr>anchor = at, head = at\<lparr>byte_offset := byte_offset at + length t\<rparr>\<rparr>)))"

definition cmd_delete_range :: "Selection \<Rightarrow> Document \<Rightarrow> outcome" where
  "cmd_delete_range sel doc =
    (case normalized sel of (start, end_c) \<Rightarrow>
      (case extract_text start end_c doc of
         Inl e \<Rightarrow> (doc, Inl e)
       | Inr t \<Rightarrow>
           (case apply_delete_range start end_c doc of
              (doc', Inl e) \<Rightarrow> (doc', Inl e)
            | (doc', Inr _) \<Rightarrow> (doc', Inr (InsertText start t)))))"

definition cmd_set_run_style :: "Selection \<Rightarrow> RunStylePatch \<Rightarrow> Document \<Rightarrow> outcome" where
  "cmd_set_run_style sel pt doc =
    (case apply_set_run_style sel pt doc of
       (doc', Inl e) \<Rightarrow> (doc', Inl e)
     | (doc', Inr _) \<Rightarrow> (doc', Inr (ReplaceBlocks (blocks doc))))"

definition edit_paragraph :: "nat \<Rightarrow> (Paragraph \<Rightarrow> Paragraph) \<Rightarrow> Document \<Rightarrow> outcome" where
  "edit_paragraph i f doc =
    (case get_paragraph (blocks doc) i of
       None \<Rightarrow> refused doc
     | Some p \<Rightarrow> (doc\<lparr>blocks := (blocks doc)[i := ParagraphBlock (f p)]\<rparr>, Inr (ReplaceParagraph i p)))"

definition num_id_for_kind :: "ListKind \<Rightarrow> u32 option" where
  "num_id_for_kind k = (case k of NoList \<Rightarrow> None | Bullet \<Rightarrow> Some 1 | Numbered \<Rightarrow> Some 2)"

definition cmd_set_alignment :: "nat \<Rightarrow> Alignment \<Rightarrow> Document \<Rightarrow> outcome" where
  "cmd_set_alignment i a = edit_paragraph i (\<lambda>p. p\<lparr>alignment := a\<rparr>)"

definition cmd_toggle_list :: "nat \<Rightarrow> ListKind \<Rightarrow> Document \<Rightarrow> outcome" where
  "cmd_toggle_list i k = edit_paragraph i (\<lambda>p. p\<lparr>list_kind := k, num_id := num_id_for_kind k\<rparr>)"

definition cmd_replace_paragraph :: "nat \<Rightarrow> Paragraph \<Rightarrow> Document \<Rightarrow> outcome" where
  "cmd_replace_paragraph i q = edit_paragraph i (\<lambda>_. q)"

definition cmd_set_section_page_setup :: "nat \<Rightarrow> PageSetup \<Rightarrow> Document \<Rightarrow> outcome" where
  "cmd_set_section_page_setup i setup doc =
    (case get_paragraph (blocks doc) i of
       None \<Rightarrow> refused doc
     | Some p \<Rightarrow>
         let doc' = doc\<lparr>blocks := (blocks doc)[i := ParagraphBlock (p\<lparr>section_properties := Some setup\<rparr>)]\<rparr>
         in (case section_properties p of
               None \<Rightarrow> refused doc'
             | Some previous \<Rightarrow> (doc', Inr (SetSectionPageSetup i previous))))"

section \<open>Block commands\<close>

definition insert_block :: "nat \<Rightarrow> Block \<Rightarrow> Document \<Rightarrow> outcome" where
  "insert_block i b doc =
    (let idx = min i (length (blocks doc))
     in (doc\<lparr>blocks := insert_at idx b (blocks doc)\<rparr>, Inr (RemoveBlock idx)))"

definition cmd_insert_table :: "nat \<Rightarrow> Table \<Rightarrow> Document \<Rightarrow> outcome" where
  "cmd_insert_table i t = insert_block i (TableBlock t)"

definition cmd_insert_image :: "Cursor \<Rightarrow> InlineImage \<Rightarrow> Document \<Rightarrow> outcome" where
  "cmd_insert_image at img = insert_block (block_idx at) (ImageBlock img)"

definition cmd_remove_block :: "nat \<Rightarrow> Document \<Rightarrow> outcome" where
  "cmd_remove_block i doc =
    (if length (blocks doc) \<le> i then refused doc
     else (doc\<lparr>blocks := remove_at i (blocks doc)\<rparr>, Inr (ReplaceBlock i (blocks doc ! i))))"

definition cmd_replace_block :: "nat \<Rightarrow> Block \<Rightarrow> Document \<Rightarrow> outcome" where
  "cmd_replace_block i b doc =
    (if length (blocks doc) < i then refused doc
     else if i = length (blocks doc) then (doc\<lparr>blocks := blocks doc @ [b]\<rparr>, Inr (RemoveBlock i))
     else (doc\<lparr>blocks := (blocks doc)[i := b]\<rparr>, Inr (ReplaceBlock i (blocks doc ! i))))"

section \<open>Table commands\<close>

definition edit_table :: "nat \<Rightarrow> (Table \<Rightarrow> (Table \<times> EditCommand) option) \<Rightarrow> Document \<Rightarrow> outcome" where
  "edit_table i f doc =
    (case get_table (blocks doc) i of
       None \<Rightarrow> refused doc
     | Some t \<Rightarrow>
         (case f t of
            None \<Rightarrow> refused doc
          | Some (t', undo_by) \<Rightarrow> (doc\<lparr>blocks := (blocks doc)[i := TableBlock t']\<rparr>, Inr undo_by)))"

definition empty_cell :: TableCell where
  "empty_cell = from_paragraphs [default_paragraph]"

definition restore_row :: "nat \<Rightarrow> nat \<Rightarrow> TableRow \<Rightarrow> Table \<Rightarrow> (Table \<times> EditCommand) option" where
  "restore_row ti at row t =
    (let idx = min at (length (rows t))
     in Some (t\<lparr>rows := insert_at idx row (rows t)\<rparr>, DeleteTableRow ti idx))"

definition insert_row :: "nat \<Rightarrow> nat \<Rightarrow> Table \<Rightarrow> (Table \<times> EditCommand) option" where
  "insert_row ti at t =
    (let cols = max 1 (case rows t of [] \<Rightarrow> 1 | r # _ \<Rightarrow> length (cells r))
     in restore_row ti at \<lparr>cells = replicate cols empty_cell\<rparr> t)"

definition delete_row :: "nat \<Rightarrow> nat \<Rightarrow> Table \<Rightarrow> (Table \<times> EditCommand) option" where
  "delete_row ti i t =
    (if length (rows t) \<le> 1 \<or> length (rows t) \<le> i then None
     else Some (t\<lparr>rows := remove_at i (rows t)\<rparr>, RestoreTableRow ti i (rows t ! i)))"

definition insert_width :: "nat \<Rightarrow> u32 list \<Rightarrow> u32 list" where
  "insert_width at ws =
    (if ws = [] then ws
     else let i = min at (length ws);
              neighbor = (case get_at ws (i - 1) of Some w \<Rightarrow> w | None \<Rightarrow> (case ws of w # _ \<Rightarrow> w | [] \<Rightarrow> 2880))
          in insert_at i neighbor ws)"

definition insert_cell :: "nat \<Rightarrow> TableCell \<Rightarrow> TableRow \<Rightarrow> TableRow" where
  "insert_cell at c row = row\<lparr>cells := insert_at (min at (length (cells row))) c (cells row)\<rparr>"

definition insert_column :: "nat \<Rightarrow> nat \<Rightarrow> Table \<Rightarrow> (Table \<times> EditCommand) option" where
  "insert_column ti at t =
    (if rows t = [] then None
     else Some (t\<lparr>rows := map (insert_cell at empty_cell) (rows t),
                  column_widths_twips := insert_width at (column_widths_twips t)\<rparr>,
                DeleteTableColumn ti at))"

definition max_cols :: "Table \<Rightarrow> nat" where
  "max_cols t = fold (\<lambda>r m. max m (length (cells r))) (rows t) 0"

definition remove_cell :: "nat \<Rightarrow> TableRow \<Rightarrow> TableRow" where
  "remove_cell i row = (if i < length (cells row) then row\<lparr>cells := remove_at i (cells row)\<rparr> else row)"

definition delete_column :: "nat \<Rightarrow> nat \<Rightarrow> Table \<Rightarrow> (Table \<times> EditCommand) option" where
  "delete_column ti i t =
    (if max_cols t \<le> 1 \<or> max_cols t \<le> i then None
     else let ws = column_widths_twips t
          in Some (t\<lparr>rows := map (remove_cell i) (rows t),
                     column_widths_twips := (if i < length ws then remove_at i ws else ws)\<rparr>,
                   RestoreTableColumn ti i (map (\<lambda>row. get_at (cells row) i) (rows t)) (get_at ws i)))"

definition restore_column ::
  "nat \<Rightarrow> nat \<Rightarrow> TableCell option list \<Rightarrow> u32 option \<Rightarrow> Table \<Rightarrow> (Table \<times> EditCommand) option"
where
  "restore_column ti at cs w t =
    (if length cs \<noteq> length (rows t) then None
     else let ws = column_widths_twips t
          in Some (t\<lparr>rows := map2 (\<lambda>row c. case c of Some c \<Rightarrow> insert_cell at c row | None \<Rightarrow> row) (rows t) cs,
                     column_widths_twips := (case w of Some w \<Rightarrow> insert_at (min at (length ws)) w ws | None \<Rightarrow> ws)\<rparr>,
                   DeleteTableColumn ti at))"

definition insert_cell_image :: "nat \<Rightarrow> nat \<Rightarrow> nat \<Rightarrow> nat \<Rightarrow> CellImage \<Rightarrow> Table \<Rightarrow> (Table \<times> EditCommand) option" where
  "insert_cell_image ti r c ii img t =
    (case get_cell t r c of
       None \<Rightarrow> None
     | Some tc \<Rightarrow>
         let idx = min ii (length (images tc))
         in Some (put_cell r c (tc\<lparr>images := insert_at idx img (images tc)\<rparr>) t, RemoveCellImage ti r c idx))"

definition remove_cell_image :: "nat \<Rightarrow> nat \<Rightarrow> nat \<Rightarrow> nat \<Rightarrow> Table \<Rightarrow> (Table \<times> EditCommand) option" where
  "remove_cell_image ti r c ii t =
    (case get_cell t r c of
       None \<Rightarrow> None
     | Some tc \<Rightarrow>
         if length (images tc) \<le> ii then None
         else Some (put_cell r c (tc\<lparr>images := remove_at ii (images tc)\<rparr>) t,
                    InsertCellImage ti r c ii (images tc ! ii)))"

section \<open>Bookmarks and comments\<close>

definition cmd_add_bookmark :: "Bookmark \<Rightarrow> Document \<Rightarrow> outcome" where
  "cmd_add_bookmark b doc =
    (if \<exists>b' \<in> set (bookmarks doc). bookmark_name b' = bookmark_name b then refused doc
     else (doc\<lparr>bookmarks := bookmarks doc @ [b]\<rparr>, Inr (RemoveBookmark (bookmark_name b))))"

definition cmd_remove_bookmark :: "utf8 \<Rightarrow> Document \<Rightarrow> outcome" where
  "cmd_remove_bookmark n doc =
    (case position (\<lambda>b. bookmark_name b = n) (bookmarks doc) of
       None \<Rightarrow> refused doc
     | Some i \<Rightarrow> (doc\<lparr>bookmarks := remove_at i (bookmarks doc)\<rparr>, Inr (AddBookmark (bookmarks doc ! i))))"

definition cmd_add_comment :: "DocComment \<Rightarrow> CommentRange \<Rightarrow> Document \<Rightarrow> outcome" where
  "cmd_add_comment c r doc =
    (if \<exists>c' \<in> set (comments doc). comment_id c' = comment_id c then refused doc
     else (doc\<lparr>comments := comments doc @ [c], comment_ranges := comment_ranges doc @ [r]\<rparr>,
           Inr (RemoveComment (comment_id c))))"

definition cmd_remove_comment :: "u32 \<Rightarrow> Document \<Rightarrow> outcome" where
  "cmd_remove_comment cid doc =
    (case position (\<lambda>c. comment_id c = cid) (comments doc) of
       None \<Rightarrow> refused doc
     | Some ci \<Rightarrow>
         let doc' = doc\<lparr>comments := remove_at ci (comments doc)\<rparr>
         in (case position (\<lambda>r. range_id r = cid) (comment_ranges doc) of
               None \<Rightarrow> refused doc'
             | Some ri \<Rightarrow>
                 (doc'\<lparr>comment_ranges := remove_at ri (comment_ranges doc)\<rparr>,
                  Inr (AddComment (comments doc ! ci) (comment_ranges doc ! ri)))))"

definition cmd_update_comment_text :: "u32 \<Rightarrow> utf8 \<Rightarrow> Document \<Rightarrow> outcome" where
  "cmd_update_comment_text cid t doc =
    (case position (\<lambda>c. comment_id c = cid) (comments doc) of
       None \<Rightarrow> refused doc
     | Some i \<Rightarrow>
         (doc\<lparr>comments := (comments doc)[i := (comments doc ! i)\<lparr>comment_text := t\<rparr>]\<rparr>,
          Inr (UpdateCommentText cid (comment_text (comments doc ! i)))))"

section \<open>Applying a command\<close>

fun apply_command :: "EditCommand \<Rightarrow> Document \<Rightarrow> outcome" where
  "apply_command (InsertText at t) doc = cmd_insert_text at t doc"
| "apply_command (DeleteRange sel) doc = cmd_delete_range sel doc"
| "apply_command (SetRunStyle sel pt) doc = cmd_set_run_style sel pt doc"
| "apply_command (SetAlignment i a) doc = cmd_set_alignment i a doc"
| "apply_command (ToggleList i k) doc = cmd_toggle_list i k doc"
| "apply_command (InsertTable i t) doc = cmd_insert_table i t doc"
| "apply_command (InsertTableRow ti at) doc = edit_table ti (insert_row ti at) doc"
| "apply_command (DeleteTableRow ti i) doc = edit_table ti (delete_row ti i) doc"
| "apply_command (RestoreTableRow ti at row) doc = edit_table ti (restore_row ti at row) doc"
| "apply_command (InsertTableColumn ti at) doc = edit_table ti (insert_column ti at) doc"
| "apply_command (DeleteTableColumn ti i) doc = edit_table ti (delete_column ti i) doc"
| "apply_command (RestoreTableColumn ti at cs w) doc = edit_table ti (restore_column ti at cs w) doc"
| "apply_command (InsertImage at img) doc = cmd_insert_image at img doc"
| "apply_command (InsertCellImage ti r c ii img) doc = edit_table ti (insert_cell_image ti r c ii img) doc"
| "apply_command (RemoveCellImage ti r c ii) doc = edit_table ti (remove_cell_image ti r c ii) doc"
| "apply_command (ReplaceParagraph i q) doc = cmd_replace_paragraph i q doc"
| "apply_command (ReplaceBlock i b) doc = cmd_replace_block i b doc"
| "apply_command (ReplaceBlocks bs) doc = (doc\<lparr>blocks := bs\<rparr>, Inr (ReplaceBlocks (blocks doc)))"
| "apply_command (SetPageSetup s) doc = (doc\<lparr>page_setup := s\<rparr>, Inr (SetPageSetup (page_setup doc)))"
| "apply_command (SetSectionPageSetup i s) doc = cmd_set_section_page_setup i s doc"
| "apply_command (SetHeader ps) doc = (doc\<lparr>header := ps\<rparr>, Inr (SetHeader (header doc)))"
| "apply_command (SetFooter ps) doc = (doc\<lparr>footer := ps\<rparr>, Inr (SetFooter (footer doc)))"
| "apply_command (SetHeaderFirst ps) doc = (doc\<lparr>header_first := ps\<rparr>, Inr (SetHeaderFirst (header_first doc)))"
| "apply_command (SetFooterFirst ps) doc = (doc\<lparr>footer_first := ps\<rparr>, Inr (SetFooterFirst (footer_first doc)))"
| "apply_command (SetHeaderEven ps) doc = (doc\<lparr>header_even := ps\<rparr>, Inr (SetHeaderEven (header_even doc)))"
| "apply_command (SetFooterEven ps) doc = (doc\<lparr>footer_even := ps\<rparr>, Inr (SetFooterEven (footer_even doc)))"
| "apply_command (AddBookmark b) doc = cmd_add_bookmark b doc"
| "apply_command (RemoveBookmark n) doc = cmd_remove_bookmark n doc"
| "apply_command (AddComment c r) doc = cmd_add_comment c r doc"
| "apply_command (RemoveComment cid) doc = cmd_remove_comment cid doc"
| "apply_command (UpdateCommentText cid t) doc = cmd_update_comment_text cid t doc"
| "apply_command (RemoveBlock i) doc = cmd_remove_block i doc"

section \<open>The undo stack\<close>

text \<open>\<open>past\<close> and \<open>future\<close> are the vectors of the code: the newest entry is the last one.\<close>

record UndoStack =
  past :: "(EditCommand \<times> EditCommand) list"
  future :: "EditCommand list"
  dirty :: bool
  saved_len :: nat

definition new_stack :: UndoStack where
  "new_stack = \<lparr>past = [], future = [], dirty = False, saved_len = 0\<rparr>"

definition can_undo :: "UndoStack \<Rightarrow> bool" where
  "can_undo s \<longleftrightarrow> past s \<noteq> []"

definition can_redo :: "UndoStack \<Rightarrow> bool" where
  "can_redo s \<longleftrightarrow> future s \<noteq> []"

definition mark_clean :: "UndoStack \<Rightarrow> UndoStack" where
  "mark_clean s = s\<lparr>saved_len := length (past s), dirty := False\<rparr>"

definition push :: "EditCommand \<Rightarrow> UndoStack \<times> Document \<Rightarrow> (UndoStack \<times> Document) \<times> unit edit_result" where
  "push cmd = (\<lambda>(s, doc).
    case apply_command cmd doc of
      (doc', Inl e) \<Rightarrow> ((s, doc'), Inl e)
    | (doc', Inr undo_by) \<Rightarrow> ((s\<lparr>past := past s @ [(cmd, undo_by)], future := [], dirty := True\<rparr>, doc'), Inr ()))"

definition undo :: "UndoStack \<times> Document \<Rightarrow> (UndoStack \<times> Document) \<times> unit edit_result" where
  "undo = (\<lambda>(s, doc).
    if past s = [] then ((s, doc), Inl EditOutOfBounds)
    else let (fwd, undo_by) = last (past s); s = s\<lparr>past := butlast (past s)\<rparr>
         in (case apply_command undo_by doc of
               (doc', Inl e) \<Rightarrow> ((s, doc'), Inl e)
             | (doc', Inr _) \<Rightarrow>
                 ((s\<lparr>future := future s @ [fwd], dirty := (length (past s) \<noteq> saved_len s)\<rparr>, doc'), Inr ())))"

definition redo :: "UndoStack \<times> Document \<Rightarrow> (UndoStack \<times> Document) \<times> unit edit_result" where
  "redo = (\<lambda>(s, doc).
    if future s = [] then ((s, doc), Inl EditOutOfBounds)
    else let cmd = last (future s); s = s\<lparr>future := butlast (future s)\<rparr>
         in (case apply_command cmd doc of
               (doc', Inl e) \<Rightarrow> ((s, doc'), Inl e)
             | (doc', Inr undo_by) \<Rightarrow> ((s\<lparr>past := past s @ [(cmd, undo_by)], dirty := True\<rparr>, doc'), Inr ())))"

section \<open>Inverse commands\<close>

definition column_fits :: "nat \<Rightarrow> TableCell option list \<Rightarrow> u32 option \<Rightarrow> Table \<Rightarrow> bool" where
  "column_fits at cs w t \<longleftrightarrow>
    (\<forall>(row, c) \<in> set (zip (rows t) cs). if c = None then length (cells row) \<le> at else at \<le> length (cells row)) \<and>
    (if w = None then length (column_widths_twips t) \<le> at else at \<le> length (column_widths_twips t)) \<and>
    (\<exists>(row, c) \<in> set (zip (rows t) cs). c \<noteq> None) \<and>
    (\<exists>(row, c) \<in> set (zip (rows t) cs). c = None \<and> 1 < length (cells row) \<or> c \<noteq> None \<and> cells row \<noteq> [])"

fun undoable :: "EditCommand \<Rightarrow> Document \<Rightarrow> bool" where
  "undoable (InsertText at t) doc \<longleftrightarrow>
    starts_char t \<and>
    (case paragraph_ref (blocks doc) at of
       Some p \<Rightarrow> runs p \<noteq> [] \<and> (\<forall>r \<in> set (runs p). starts_char (run_text r)) | None \<Rightarrow> True)"
| "undoable (DeleteRange sel) doc \<longleftrightarrow> run_idx (anchor sel) = run_idx (head sel)"
| "undoable (InsertTableRow ti at) doc \<longleftrightarrow> (case get_table (blocks doc) ti of Some t \<Rightarrow> rows t \<noteq> [] | None \<Rightarrow> True)"
| "undoable (RestoreTableRow ti at row) doc \<longleftrightarrow> (case get_table (blocks doc) ti of Some t \<Rightarrow> rows t \<noteq> [] | None \<Rightarrow> True)"
| "undoable (InsertTableColumn ti at) doc \<longleftrightarrow>
    (case get_table (blocks doc) ti of
       Some t \<Rightarrow> column_fits at (map (\<lambda>_. Some empty_cell) (rows t))
                   (if column_widths_twips t = [] then None else Some 0) t
     | None \<Rightarrow> True)"
| "undoable (RestoreTableColumn ti at cs w) doc \<longleftrightarrow>
    (case get_table (blocks doc) ti of Some t \<Rightarrow> column_fits at cs w t | None \<Rightarrow> True)"
| "undoable (RemoveBookmark n) doc \<longleftrightarrow>
    position (\<lambda>b. bookmark_name b = n) (bookmarks doc) = Some (length (bookmarks doc) - 1)"
| "undoable (AddComment c r) doc \<longleftrightarrow>
    range_id r = comment_id c \<and> comment_id c \<notin> range_id ` set (comment_ranges doc)"
| "undoable (RemoveComment cid) doc \<longleftrightarrow>
    position (\<lambda>c. comment_id c = cid) (comments doc) = Some (length (comments doc) - 1) \<and>
    position (\<lambda>r. range_id r = cid) (comment_ranges doc) = Some (length (comment_ranges doc) - 1)"
| "undoable (RemoveBlock i) doc \<longleftrightarrow> Suc i = length (blocks doc)"
| "undoable _ doc \<longleftrightarrow> True"

definition reversible :: "EditCommand \<Rightarrow> Document \<Rightarrow> bool" where
  "reversible cmd doc \<longleftrightarrow>
    (\<forall>doc' undo_by. apply_command cmd doc = (doc', Inr undo_by) \<longrightarrow> (\<exists>again. apply_command undo_by doc' = (doc, Inr again)))"

lemma reversibleI:
  "(\<And>doc' undo_by. apply_command cmd doc = (doc', Inr undo_by) \<Longrightarrow> \<exists>again. apply_command undo_by doc' = (doc, Inr again))
    \<Longrightarrow> reversible cmd doc"
  by (simp add: reversible_def)

lemma same_blocks: "bs = blocks doc \<Longrightarrow> doc\<lparr>blocks := bs\<rparr> = doc"
  by simp

subsection \<open>Paragraphs and blocks\<close>

lemma edit_paragraph_back:
  assumes "edit_paragraph i f doc = (doc', Inr undo_by)"
  shows "\<exists>again. apply_command undo_by doc' = (doc, Inr again)"
  using assms
  by (auto simp: edit_paragraph_def cmd_replace_paragraph_def split: option.splits
    intro!: same_blocks same_block dest!: get_paragraph_SomeD)

lemma set_section_page_setup_back:
  assumes "cmd_set_section_page_setup i s doc = (doc', Inr undo_by)"
  shows "\<exists>again. apply_command undo_by doc' = (doc, Inr again)"
proof -
  obtain p previous where p: "get_paragraph (blocks doc) i = Some p" "section_properties p = Some previous"
    and eqs: "doc' = doc\<lparr>blocks := (blocks doc)[i := ParagraphBlock (p\<lparr>section_properties := Some s\<rparr>)]\<rparr>"
             "undo_by = SetSectionPageSetup i previous"
    using assms by (auto simp: cmd_set_section_page_setup_def Let_def split: option.splits)
  have i: "i < length (blocks doc)" "blocks doc ! i = ParagraphBlock p"
    using get_paragraph_SomeD [OF p(1)] by auto
  have "p\<lparr>section_properties := Some previous\<rparr> = p" using p(2) by (cases p) auto
  then show ?thesis using i by (simp add: eqs cmd_set_section_page_setup_def same_blocks same_block)
qed

lemma insert_block_back:
  assumes "insert_block i b doc = (doc', Inr undo_by)"
  shows "\<exists>again. apply_command undo_by doc' = (doc, Inr again)"
  using assms by (auto simp: insert_block_def cmd_remove_block_def Let_def vec_simps intro!: same_blocks)

lemma replace_block_back:
  assumes "cmd_replace_block i b doc = (doc', Inr undo_by)"
  shows "\<exists>again. apply_command undo_by doc' = (doc, Inr again)"
  using assms
  by (auto simp: cmd_replace_block_def cmd_remove_block_def remove_at_def split: if_splits)

lemma remove_last_block_back:
  assumes "cmd_remove_block i doc = (doc', Inr undo_by)" "Suc i = length (blocks doc)"
  shows "\<exists>again. apply_command undo_by doc' = (doc, Inr again)"
  using assms
  by (auto simp: cmd_replace_block_def cmd_remove_block_def remove_at_def take_Suc_conv_app_nth [symmetric] split: if_splits)

subsection \<open>Bookmarks and comments\<close>

lemma add_bookmark_back:
  assumes "cmd_add_bookmark b doc = (doc', Inr undo_by)"
  shows "\<exists>again. apply_command undo_by doc' = (doc, Inr again)"
proof -
  have fresh: "position (\<lambda>b'. bookmark_name b' = bookmark_name b) (bookmarks doc) = None"
    using assms by (auto simp: cmd_add_bookmark_def position_None_iff split: if_splits)
  show ?thesis using assms fresh
    by (auto simp: cmd_add_bookmark_def cmd_remove_bookmark_def position_append remove_at_def split: if_splits)
qed

lemma remove_bookmark_back:
  assumes "cmd_remove_bookmark n doc = (doc', Inr undo_by)"
    "position (\<lambda>b. bookmark_name b = n) (bookmarks doc) = Some (length (bookmarks doc) - 1)"
  shows "\<exists>again. apply_command undo_by doc' = (doc, Inr again)"
proof -
  obtain ys y where "bookmarks doc = ys @ [y]" "bookmark_name y = n" "\<forall>x \<in> set ys. bookmark_name x \<noteq> n"
    using position_last [OF assms(2)] by blast
  then show ?thesis using assms
    by (auto simp: cmd_add_bookmark_def cmd_remove_bookmark_def remove_at_def)
qed

lemma add_comment_back:
  assumes "cmd_add_comment c r doc = (doc', Inr undo_by)"
    "range_id r = comment_id c" "comment_id c \<notin> range_id ` set (comment_ranges doc)"
  shows "\<exists>again. apply_command undo_by doc' = (doc, Inr again)"
proof -
  have "position (\<lambda>c'. comment_id c' = comment_id c) (comments doc) = None"
    "position (\<lambda>r. range_id r = comment_id c) (comment_ranges doc) = None"
    using assms by (auto simp: cmd_add_comment_def position_None_iff image_iff split: if_splits)
  then show ?thesis using assms
    by (auto simp: cmd_add_comment_def cmd_remove_comment_def position_append remove_at_def split: if_splits)
qed

lemma remove_comment_back:
  assumes "cmd_remove_comment n doc = (doc', Inr undo_by)"
    "position (\<lambda>c. comment_id c = n) (comments doc) = Some (length (comments doc) - 1)"
    "position (\<lambda>r. range_id r = n) (comment_ranges doc) = Some (length (comment_ranges doc) - 1)"
  shows "\<exists>again. apply_command undo_by doc' = (doc, Inr again)"
proof -
  obtain ys y where c: "comments doc = ys @ [y]" "comment_id y = n" "\<forall>x \<in> set ys. comment_id x \<noteq> n"
    using position_last [OF assms(2)] by blast
  obtain zs z where "comment_ranges doc = zs @ [z]" "range_id z = n" "\<forall>x \<in> set zs. range_id x \<noteq> n"
    using position_last [OF assms(3)] by blast
  with c show ?thesis using assms
    by (auto simp: cmd_add_comment_def cmd_remove_comment_def remove_at_def)
qed

lemma update_comment_text_back:
  assumes "cmd_update_comment_text n t doc = (doc', Inr undo_by)"
  shows "\<exists>again. apply_command undo_by doc' = (doc, Inr again)"
proof -
  obtain i where i: "position (\<lambda>c. comment_id c = n) (comments doc) = Some i"
    and eqs: "doc' = doc\<lparr>comments := (comments doc)[i := (comments doc ! i)\<lparr>comment_text := t\<rparr>]\<rparr>"
             "undo_by = UpdateCommentText n (comment_text (comments doc ! i))"
    using assms by (auto simp: cmd_update_comment_text_def split: option.splits)
  have at: "i < length (comments doc)" "comment_id (comments doc ! i) = n" using i by (auto simp: position_Some_iff)
  have "position (\<lambda>c. comment_id c = n) ((comments doc)[i := (comments doc ! i)\<lparr>comment_text := t\<rparr>]) = Some i"
    using position_update [OF i] at(2) by simp
  then show ?thesis using at by (simp add: eqs cmd_update_comment_text_def)
qed

subsection \<open>Tables\<close>

text \<open>A table command is undone by a table command on the same block.\<close>

lemma edit_table_back:
  assumes "edit_table ti f doc = (doc', Inr undo_by)"
    and inverse: "\<And>t t'. get_table (blocks doc) ti = Some t \<Longrightarrow> f t = Some (t', undo_by) \<Longrightarrow>
      \<exists>g again. (\<forall>d. apply_command undo_by d = edit_table ti g d) \<and> g t' = Some (t, again)"
  shows "\<exists>again. apply_command undo_by doc' = (doc, Inr again)"
proof -
  obtain t t' where t: "get_table (blocks doc) ti = Some t" "f t = Some (t', undo_by)"
    and doc': "doc' = doc\<lparr>blocks := (blocks doc)[ti := TableBlock t']\<rparr>"
    using assms(1) by (auto simp: edit_table_def split: option.splits)
  obtain g again where g: "\<And>d. apply_command undo_by d = edit_table ti g d" "g t' = Some (t, again)"
    using inverse [OF t] by blast
  show ?thesis using get_table_SomeD [OF t(1)] g(2)
    by (simp add: g(1) doc' edit_table_def same_blocks same_block)
qed

lemma restore_row_back:
  "rows t \<noteq> [] \<Longrightarrow> restore_row ti at row t = Some (t', undo_by) \<Longrightarrow>
    undo_by = DeleteTableRow ti (min at (length (rows t))) \<and>
    delete_row ti (min at (length (rows t))) t' = Some (t, RestoreTableRow ti (min at (length (rows t))) row)"
  by (auto simp: restore_row_def delete_row_def Let_def vec_simps Suc_le_eq)

lemma delete_row_back:
  "delete_row ti i t = Some (t', undo_by) \<Longrightarrow>
    undo_by = RestoreTableRow ti i (rows t ! i) \<and> restore_row ti i (rows t ! i) t' = Some (t, DeleteTableRow ti i)"
  by (auto simp: restore_row_def delete_row_def Let_def vec_simps split: if_splits)

lemma less_max_cols: "n < max_cols t \<longleftrightarrow> (\<exists>r \<in> set (rows t). n < length (cells r))"
proof -
  have "n < fold (\<lambda>r m. max m (length (cells r))) rs k \<longleftrightarrow> n < k \<or> (\<exists>r \<in> set rs. n < length (cells r))" for rs :: "TableRow list" and k
    by (induction rs arbitrary: k) (auto simp: less_max_iff_disj)
  then show ?thesis by (simp add: max_cols_def)
qed

lemma remove_insert_cell: "at \<le> length (cells row) \<Longrightarrow> remove_cell at (insert_cell at c row) = row"
  by (simp add: remove_cell_def insert_cell_def vec_simps)

lemma remove_cell_short: "length (cells row) \<le> at \<Longrightarrow> remove_cell at row = row"
  by (simp add: remove_cell_def)

lemma insert_remove_cell: "at < length (cells row) \<Longrightarrow> insert_cell at (cells row ! at) (remove_cell at row) = row"
  by (simp add: remove_cell_def insert_cell_def vec_simps)

lemma delete_column_back:
  assumes "delete_column ti i t = Some (t', undo_by)"
  shows "undo_by = RestoreTableColumn ti i (map (\<lambda>row. get_at (cells row) i) (rows t)) (get_at (column_widths_twips t) i)
    \<and> restore_column ti i (map (\<lambda>row. get_at (cells row) i) (rows t)) (get_at (column_widths_twips t) i) t' =
        Some (t, DeleteTableColumn ti i)"
proof -
  have row: "(case get_at (cells row) i of Some c \<Rightarrow> insert_cell i c (remove_cell i row) | None \<Rightarrow> remove_cell i row) = row"
    for row by (auto simp: get_at_Some_iff get_at_None_iff insert_remove_cell remove_cell_short split: option.splits)
  have rows: "map2 (\<lambda>row c. case c of Some c \<Rightarrow> insert_cell i c row | None \<Rightarrow> row) (map (remove_cell i) rs)
      (map (\<lambda>row. get_at (cells row) i) rs) = rs" for rs
    by (induction rs) (simp_all add: row)
  show ?thesis using assms
    by (cases "i < length (column_widths_twips t)")
      (auto simp: delete_column_def restore_column_def Let_def rows get_at_None_iff [THEN iffD2] vec_simps split: if_splits)
qed

lemma restore_column_back:
  assumes "restore_column ti at cs w t = Some (t', undo_by)" "column_fits at cs w t"
  shows "undo_by = DeleteTableColumn ti at \<and> (\<exists>again. delete_column ti at t' = Some (t, again))"
proof -
  let ?put = "\<lambda>row c. case c of Some c \<Rightarrow> insert_cell at c row | None \<Rightarrow> row"
  have len: "length cs = length (rows t)" and undo_by: "undo_by = DeleteTableColumn ti at"
    and rows': "rows t' = map2 ?put (rows t) cs"
    and ws': "column_widths_twips t' =
      (case w of Some w \<Rightarrow> insert_at (min at (length (column_widths_twips t))) w (column_widths_twips t)
       | None \<Rightarrow> column_widths_twips t)"
    and t': "t'\<lparr>rows := rows t, column_widths_twips := column_widths_twips t\<rparr> = t"
    using assms(1) by (auto simp: restore_column_def Let_def split: if_splits)
  have cell: "remove_cell at (?put (rows t ! i) (cs ! i)) = rows t ! i" if "i < length (rows t)" for i
  proof -
    have "(rows t ! i, cs ! i) \<in> set (zip (rows t) cs)" using that len by (auto simp: set_zip)
    then have "if cs ! i = None then length (cells (rows t ! i)) \<le> at else at \<le> length (cells (rows t ! i))"
      using assms(2) by (fastforce simp: column_fits_def)
    then show ?thesis by (cases "cs ! i") (simp_all add: remove_insert_cell remove_cell_short)
  qed
  have rows: "map (remove_cell at) (rows t') = rows t"
    using len cell by (auto simp: rows' intro!: nth_equalityI)
  have ws: "(if at < length (column_widths_twips t') then remove_at at (column_widths_twips t') else column_widths_twips t') =
      column_widths_twips t"
    using assms(2) by (auto simp: column_fits_def ws' vec_simps split: option.splits)
  have "at < max_cols t'" "1 < max_cols t'"
    using assms(2)
    unfolding less_max_cols rows' column_fits_def
    by (force simp: insert_cell_def vec_simps)+
  then show ?thesis using rows ws undo_by t' by (auto simp: delete_column_def Let_def)
qed

lemma insert_column_restore:
  assumes "rows t \<noteq> []"
  shows "\<exists>w. insert_column ti at t = restore_column ti at (map (\<lambda>_. Some empty_cell) (rows t)) w t \<and>
    (w = None \<longleftrightarrow> column_widths_twips t = [])"
proof (cases "column_widths_twips t = []")
  case True
  then show ?thesis using assms
    by (intro exI [of _ None]) (simp add: insert_column_def restore_column_def insert_width_def map2_const)
next
  case False
  then obtain nb where "insert_width at (column_widths_twips t) =
      insert_at (min at (length (column_widths_twips t))) nb (column_widths_twips t)"
    by (simp add: insert_width_def Let_def)
  then show ?thesis using assms False
    by (intro exI [of _ "Some nb"]) (simp add: insert_column_def restore_column_def Let_def map2_const)
qed

lemma column_fits_width: "(w = None \<longleftrightarrow> w' = None) \<Longrightarrow> column_fits at cs w t \<longleftrightarrow> column_fits at cs w' t"
  by (simp add: column_fits_def)

lemma insert_column_back:
  assumes "insert_column ti at t = Some (t', undo_by)"
    "column_fits at (map (\<lambda>_. Some empty_cell) (rows t)) (if column_widths_twips t = [] then None else Some 0) t"
  shows "undo_by = DeleteTableColumn ti at \<and> (\<exists>again. delete_column ti at t' = Some (t, again))"
proof -
  have "rows t \<noteq> []" using assms(1) by (auto simp: insert_column_def)
  then obtain w where w: "insert_column ti at t = restore_column ti at (map (\<lambda>_. Some empty_cell) (rows t)) w t"
    and "w = None \<longleftrightarrow> column_widths_twips t = []"
    using insert_column_restore by blast
  then have "column_fits at (map (\<lambda>_. Some empty_cell) (rows t)) w t"
    using assms(2) column_fits_width [of w "if column_widths_twips t = [] then None else Some 0"] by auto
  then show ?thesis using restore_column_back [of ti at _ w t t' undo_by] assms(1) w by auto
qed

lemma insert_cell_image_back:
  assumes "insert_cell_image ti r c ii img t = Some (t', undo_by)"
  shows "\<exists>idx again. undo_by = RemoveCellImage ti r c idx \<and> remove_cell_image ti r c idx t' = Some (t, again)"
proof -
  obtain tc where tc: "get_cell t r c = Some tc"
    and eqs: "t' = put_cell r c (tc\<lparr>images := insert_at (min ii (length (images tc))) img (images tc)\<rparr>) t"
             "undo_by = RemoveCellImage ti r c (min ii (length (images tc)))"
    using assms by (auto simp: insert_cell_image_def Let_def split: option.splits)
  show ?thesis using get_cell_SomeD [OF tc] tc
    by (auto simp: eqs remove_cell_image_def vec_simps put_cell_same)
qed

lemma remove_cell_image_back:
  assumes "remove_cell_image ti r c ii t = Some (t', undo_by)"
  shows "\<exists>img again. undo_by = InsertCellImage ti r c ii img \<and> insert_cell_image ti r c ii img t' = Some (t, again)"
proof -
  obtain tc where tc: "get_cell t r c = Some tc" "ii < length (images tc)"
    and eqs: "t' = put_cell r c (tc\<lparr>images := remove_at ii (images tc)\<rparr>) t"
             "undo_by = InsertCellImage ti r c ii (images tc ! ii)"
    using assms by (auto simp: remove_cell_image_def split: option.splits if_splits)
  show ?thesis using get_cell_SomeD [OF tc(1)] tc
    by (auto simp: eqs insert_cell_image_def vec_simps put_cell_same)
qed

subsection \<open>Text\<close>

lemma starts_char_drop:
  assumes "is_char_boundary s a" "a \<le> length s" "starts_char s"
  shows "starts_char (drop a s)"
  using assms by (auto simp: is_char_boundary_def starts_char_def hd_drop_conv_nth)

lemma is_char_boundary_append: "starts_char t \<Longrightarrow> is_char_boundary (s @ t) (length s)"
  by (cases t) (auto simp: is_char_boundary_def starts_char_def nth_append)

lemma is_char_boundary_insert:
  assumes "is_char_boundary s a" "a \<le> length s" "starts_char s" "starts_char t"
  shows "is_char_boundary (take a s @ t @ drop a s) a" "is_char_boundary (take a s @ t @ drop a s) (a + length t)"
proof -
  have "starts_char (t @ drop a s)" using assms starts_char_drop by (cases t) (auto simp: starts_char_def)
  then show "is_char_boundary (take a s @ t @ drop a s) a"
    using is_char_boundary_append [of "t @ drop a s" "take a s"] assms(2) by simp
  show "is_char_boundary (take a s @ t @ drop a s) (a + length t)"
    using is_char_boundary_append [OF starts_char_drop, of s a "take a s @ t"] assms by simp
qed

lemma is_char_boundary_delete:
  assumes "is_char_boundary s b" "a \<le> b" "b \<le> length s"
  shows "is_char_boundary (take a s @ drop b s) a"
  using assms by (auto simp: is_char_boundary_def nth_append)

lemma normalized_forward: "normalized \<lparr>anchor = at, head = at\<lparr>byte_offset := byte_offset at + n\<rparr>\<rparr> =
    (at, at\<lparr>byte_offset := byte_offset at + n\<rparr>)"
  by (auto simp: normalized_def cmp_cursor_def cmp_in_paragraph_def cmp_pair_def cmp_nat_def cmp_cell_path_def
      split: option.splits bool.splits ord.splits if_splits)

lemma same_paragraph_offset [simp]: "same_paragraph at (at\<lparr>byte_offset := n\<rparr>)"
  by (simp add: same_paragraph_def)

lemma set_run_text_set: "set_run_text i t (set_run_text i u rs) = set_run_text i t rs"
  by (cases "i < length rs") (simp_all add: set_run_text_def list_update_beyond)

lemma set_run_text_same: "i < length rs \<Longrightarrow> run_text (rs ! i) = t \<Longrightarrow> set_run_text i t rs = rs"
  by (auto simp: set_run_text_def)

lemma nth_set_run_text [simp]: "i < length rs \<Longrightarrow> run_text (set_run_text i t rs ! i) = t"
  by (simp add: set_run_text_def)

lemma length_set_run_text [simp]: "length (set_run_text i t rs) = length rs"
  by (simp add: set_run_text_def)

lemma set_run_text_Nil [simp]: "set_run_text i t rs = [] \<longleftrightarrow> rs = []"
  by (simp add: set_run_text_def)

lemma insert_text_back:
  assumes "cmd_insert_text at t doc = (doc', Inr undo_by)" "undoable (InsertText at t) doc"
  shows "\<exists>again. apply_command undo_by doc' = (doc, Inr again)"
proof -
  obtain p where p: "paragraph_ref (blocks doc) at = Some p"
    using assms(1) by (auto simp: cmd_insert_text_def apply_insert_text_def split: option.splits sum.splits)
  let ?r = "runs p ! run_idx at" and ?o = "byte_offset at"
  let ?q = "p\<lparr>runs := set_run_text (run_idx at) (take ?o (run_text ?r) @ t @ drop ?o (run_text ?r)) (runs p)\<rparr>"
  have facts: "run_idx at < length (runs p)" "?o \<le> length (run_text ?r)" "is_char_boundary (run_text ?r) ?o"
    and doc': "doc' = doc\<lparr>blocks := put_paragraph at ?q (blocks doc)\<rparr>"
    and undo_by: "undo_by = DeleteRange \<lparr>anchor = at, head = at\<lparr>byte_offset := ?o + length t\<rparr>\<rparr>"
    using assms p
    by (auto simp: cmd_insert_text_def apply_insert_text_def insert_in_para_def get_at_Some_iff
        split: option.splits sum.splits if_splits)
  have ok: "starts_char (run_text ?r)" "starts_char t" using assms(2) p facts(1) by auto
  note [simp] = is_char_boundary_insert [OF facts(3,2) ok] paragraph_ref_put [OF p] put_paragraph_restore [OF p]
  have "runs p = set_run_text (run_idx at) (run_text ?r) (runs p)"
    using facts(1) by (simp add: set_run_text_same)
  then have "extract_text at (at\<lparr>byte_offset := ?o + length t\<rparr>) doc' = Inr t"
    "apply_delete_range at (at\<lparr>byte_offset := ?o + length t\<rparr>) doc' = (doc, Inr ())"
    using facts
    by (simp_all add: doc' extract_text_def str_slice_def bslice_def apply_delete_range_def delete_in_para_def
        delete_in_run_def set_run_text_set set_run_text_same)
  then show ?thesis by (simp add: undo_by cmd_delete_range_def normalized_forward)
qed

lemma delete_range_back:
  assumes "cmd_delete_range sel doc = (doc', Inr undo_by)" "run_idx (anchor sel) = run_idx (head sel)"
  shows "\<exists>again. apply_command undo_by doc' = (doc, Inr again)"
proof -
  have "run_idx (fst (normalized sel)) = run_idx (snd (normalized sel))" using assms(2) by (simp add: normalized_def)
  then obtain c d where n: "normalized sel = (c, d)" "run_idx c = run_idx d" by (cases "normalized sel") auto
  then obtain t where t: "extract_text c d doc = Inr t" "apply_delete_range c d doc = (doc', Inr ())"
    and undo_by: "undo_by = InsertText c t"
    using assms(1) by (auto simp: cmd_delete_range_def split: sum.splits prod.splits)
  obtain p where p: "paragraph_ref (blocks doc) c = Some p"
    using t(1) by (auto simp: extract_text_def split: option.splits if_splits)
  let ?r = "runs p ! run_idx c" and ?a = "byte_offset c" and ?b = "byte_offset d"
  let ?q = "p\<lparr>runs := set_run_text (run_idx c) (take ?a (run_text ?r) @ drop ?b (run_text ?r)) (runs p)\<rparr>"
  have facts: "run_idx c < length (runs p)" "?a \<le> ?b" "?b \<le> length (run_text ?r)" "is_char_boundary (run_text ?r) ?b"
    and doc': "doc' = doc\<lparr>blocks := put_paragraph c ?q (blocks doc)\<rparr>" and tt: "t = bslice ?a ?b (run_text ?r)"
    using t n p
    by (auto simp: extract_text_def str_slice_def apply_delete_range_def delete_in_para_def delete_in_run_def
        get_at_Some_iff split: option.splits if_splits)
  have "take ?a (run_text ?r) @ t @ drop ?b (run_text ?r) = run_text ?r"
    using facts by (simp add: tt bslice_def) (metis append_take_drop_id drop_drop le_add_diff_inverse2 take_drop)
  then have "apply_insert_text c t doc' = Inr doc"
    using facts is_char_boundary_delete [OF facts(4,2,3)]
    by (auto simp: doc' apply_insert_text_def insert_in_para_def paragraph_ref_put [OF p] put_paragraph_restore [OF p]
        set_run_text_set set_run_text_same)
  then show ?thesis by (simp add: undo_by cmd_insert_text_def)
qed

lemma set_run_style_back:
  assumes "cmd_set_run_style sel pt doc = (doc', Inr undo_by)"
  shows "\<exists>again. apply_command undo_by doc' = (doc, Inr again)"
  using assms apply_set_run_style_frame [of sel pt doc]
  by (auto simp: cmd_set_run_style_def split: prod.splits sum.splits)

text \<open>The inverse of every command restores the document exactly, when the command is undoable.\<close>

lemmas inverse_laws =
  edit_paragraph_back set_section_page_setup_back insert_block_back replace_block_back remove_last_block_back
  add_bookmark_back remove_bookmark_back add_comment_back remove_comment_back update_comment_text_back
  insert_text_back delete_range_back set_run_style_back

lemma undoable_reversible:
  assumes "undoable cmd doc"
  shows "reversible cmd doc"
proof (rule reversibleI)
  fix doc' undo_by
  assume run: "apply_command cmd doc = (doc', Inr undo_by)"
  show "\<exists>again. apply_command undo_by doc' = (doc, Inr again)"
  proof (cases cmd)
    case (InsertTableRow ti at)
    with run have "edit_table ti (insert_row ti at) doc = (doc', Inr undo_by)" by simp
    then show ?thesis
      by (rule edit_table_back) (use assms InsertTableRow restore_row_back in \<open>fastforce simp: insert_row_def\<close>)
  next
    case (RestoreTableRow ti at row)
    with run have "edit_table ti (restore_row ti at row) doc = (doc', Inr undo_by)" by simp
    then show ?thesis
      by (rule edit_table_back) (use assms RestoreTableRow restore_row_back in fastforce)
  next
    case (DeleteTableRow ti i)
    with run have "edit_table ti (delete_row ti i) doc = (doc', Inr undo_by)" by simp
    then show ?thesis by (rule edit_table_back) (use delete_row_back in fastforce)
  next
    case (InsertTableColumn ti at)
    with run have "edit_table ti (insert_column ti at) doc = (doc', Inr undo_by)" by simp
    then show ?thesis
      by (rule edit_table_back) (use assms InsertTableColumn insert_column_back in fastforce)
  next
    case (RestoreTableColumn ti at cs w)
    with run have "edit_table ti (restore_column ti at cs w) doc = (doc', Inr undo_by)" by simp
    then show ?thesis
      by (rule edit_table_back) (use assms RestoreTableColumn restore_column_back in fastforce)
  next
    case (DeleteTableColumn ti i)
    with run have "edit_table ti (delete_column ti i) doc = (doc', Inr undo_by)" by simp
    then show ?thesis by (rule edit_table_back) (use delete_column_back in fastforce)
  next
    case (InsertCellImage ti r c ii img)
    with run have "edit_table ti (insert_cell_image ti r c ii img) doc = (doc', Inr undo_by)" by simp
    then show ?thesis by (rule edit_table_back) (use insert_cell_image_back in fastforce)
  next
    case (RemoveCellImage ti r c ii)
    with run have "edit_table ti (remove_cell_image ti r c ii) doc = (doc', Inr undo_by)" by simp
    then show ?thesis by (rule edit_table_back) (use remove_cell_image_back in fastforce)
  qed (use assms run in \<open>auto simp: cmd_set_alignment_def cmd_toggle_list_def cmd_replace_paragraph_def
      cmd_insert_table_def cmd_insert_image_def simp del: undoable.simps(1) intro: inverse_laws\<close>)
qed



abbreviation succeeded :: "'e + 'a \<Rightarrow> bool" where
  "succeeded r \<equiv> \<not> isl r"

section \<open>A history of reversible edits\<close>

text \<open>
  What an undo stack relies on: a command that was applied where \<open>ok\<close> holds gave an inverse, and the
  inverse brings the old document back.  \<open>links\<close> ties the entries of the past, newest first, to the
  documents before each of them; \<open>ahead\<close> ties the commands that can be redone to the documents they give.
\<close>

locale reversible_edits =
  fixes exec :: "'c \<Rightarrow> 'd \<Rightarrow> 'd \<times> ('e + 'c)"
    and ok :: "'c \<Rightarrow> 'd \<Rightarrow> bool"
  assumes inverse: "ok c d \<Longrightarrow> exec c d = (d', Inr u) \<Longrightarrow> \<exists>again. exec u d' = (d, Inr again)"
begin

definition undone_by :: "'c \<Rightarrow> 'c \<Rightarrow> 'd \<Rightarrow> 'd \<Rightarrow> bool" where
  "undone_by c u d d' \<longleftrightarrow> exec c d = (d', Inr u) \<and> (\<exists>again. exec u d' = (d, Inr again))"

primrec links :: "('c \<times> 'c) list \<Rightarrow> 'd list \<Rightarrow> 'd \<Rightarrow> bool" where
  "links [] ds d \<longleftrightarrow> ds = []"
| "links (e # es) ds d \<longleftrightarrow>
    (\<exists>d0 ds'. ds = d0 # ds' \<and> undone_by (fst e) (snd e) d0 d \<and> links es ds' d0)"

primrec ahead :: "'c list \<Rightarrow> 'd list \<Rightarrow> 'd \<Rightarrow> bool" where
  "ahead [] ds d \<longleftrightarrow> ds = []"
| "ahead (c # cs) ds d \<longleftrightarrow> (\<exists>d1 ds' u. ds = d1 # ds' \<and> undone_by c u d d1 \<and> ahead cs ds' d1)"

lemma undone_byI: "ok c d \<Longrightarrow> exec c d = (d', Inr u) \<Longrightarrow> undone_by c u d d'"
  using inverse by (simp add: undone_by_def)

lemma links_push:
  assumes "links es ds d" "ok c d" "exec c d = (d', Inr u)"
  shows "links ((c, u) # es) (d # ds) d'"
  using assms undone_byI by simp

lemma links_undo:
  assumes "links ((c, u) # es) ds d" "ahead cs fs d"
  obtains d0 ds' again where "ds = d0 # ds'" "exec u d = (d0, Inr again)" "links es ds' d0" "ahead (c # cs) (d # fs) d0"
proof -
  obtain d0 ds' where d0: "ds = d0 # ds'" "undone_by c u d0 d" "links es ds' d0"
    using assms(1) by auto
  obtain again where "exec u d = (d0, Inr again)" using d0(2) by (auto simp: undone_by_def)
  then show ?thesis using that d0 assms(2) by auto
qed

lemma links_redo:
  assumes "links es ds d" "ahead (c # cs) fs d"
  obtains d1 fs' u where "fs = d1 # fs'" "exec c d = (d1, Inr u)" "links ((c, u) # es) (d # ds) d1" "ahead cs fs' d1"
proof -
  obtain d1 fs' u where d1: "fs = d1 # fs'" "undone_by c u d d1" "ahead cs fs' d1"
    using assms(2) by auto
  then show ?thesis using that [of d1 fs' u] assms(1) by (auto simp: undone_by_def)
qed

lemma links_Nil_iff: "links es ds d \<Longrightarrow> es = [] \<longleftrightarrow> ds = []"
  by (cases es) auto

lemma ahead_Nil_iff: "ahead cs ds d \<Longrightarrow> cs = [] \<longleftrightarrow> ds = []"
  by (cases cs) auto

end

interpretation doc_edits: reversible_edits apply_command undoable
proof
  show "undoable c d \<Longrightarrow> apply_command c d = (d', Inr u) \<Longrightarrow> \<exists>again. apply_command u d' = (d, Inr again)" for c d d' u
    using undoable_reversible by (simp add: reversible_def)
qed

section \<open>The specification: a timeline of documents\<close>

record timeline =
  before :: "Document list"
  now :: Document
  later :: "Document list"

datatype edit_event = Push EditCommand | Undo | Redo | Save

fun timeline_step :: "edit_event \<Rightarrow> timeline \<Rightarrow> timeline \<times> bool" where
  "timeline_step (Push cmd) h =
    (case apply_command cmd (now h) of
       (_, Inl _) \<Rightarrow> (h, False)
     | (d, Inr _) \<Rightarrow> (\<lparr>before = now h # before h, now = d, later = []\<rparr>, True))"
| "timeline_step Undo h =
    (case before h of
       [] \<Rightarrow> (h, False)
     | d # ds \<Rightarrow> (\<lparr>before = ds, now = d, later = now h # later h\<rparr>, True))"
| "timeline_step Redo h =
    (case later h of
       [] \<Rightarrow> (h, False)
     | d # ds \<Rightarrow> (\<lparr>before = now h # before h, now = d, later = ds\<rparr>, True))"
| "timeline_step Save h = (h, True)"

fun stack_step :: "edit_event \<Rightarrow> UndoStack \<times> Document \<Rightarrow> (UndoStack \<times> Document) \<times> bool" where
  "stack_step (Push cmd) sd = map_prod id succeeded (push cmd sd)"
| "stack_step Undo sd = map_prod id succeeded (undo sd)"
| "stack_step Redo sd = map_prod id succeeded (redo sd)"
| "stack_step Save sd = (map_prod mark_clean id sd, True)"

primrec run_events :: "('v \<Rightarrow> 's \<Rightarrow> 's \<times> bool) \<Rightarrow> 'v list \<Rightarrow> 's \<Rightarrow> 's \<times> bool list" where
  "run_events step [] s = (s, [])"
| "run_events step (v # vs) s =
    (let (s', b) = step v s; (s'', bs) = run_events step vs s' in (s'', b # bs))"

text \<open>A command is safe where it can be undone and, if it is refused, has changed nothing.\<close>

definition safe_event :: "edit_event \<Rightarrow> Document \<Rightarrow> bool" where
  "safe_event ev doc \<longleftrightarrow>
    (case ev of Push cmd \<Rightarrow> undoable cmd doc \<and> (isl (snd (apply_command cmd doc)) \<longrightarrow> fst (apply_command cmd doc) = doc)
     | _ \<Rightarrow> True)"

primrec safe_events :: "edit_event list \<Rightarrow> UndoStack \<times> Document \<Rightarrow> bool" where
  "safe_events [] sd \<longleftrightarrow> True"
| "safe_events (ev # evs) sd \<longleftrightarrow> safe_event ev (snd sd) \<and> safe_events evs (fst (stack_step ev sd))"

definition implements :: "UndoStack \<times> Document \<Rightarrow> timeline \<Rightarrow> bool" where
  "implements sd h \<longleftrightarrow>
    snd sd = now h \<and> doc_edits.links (rev (past (fst sd))) (before h) (now h) \<and>
    doc_edits.ahead (rev (future (fst sd))) (later h) (now h)"

lemma push_implements:
  assumes "implements (s, d) h" "safe_event (Push cmd) d"
  shows "implements (fst (push cmd (s, d))) (fst (timeline_step (Push cmd) h)) \<and>
    succeeded (snd (push cmd (s, d))) = snd (timeline_step (Push cmd) h)"
proof (cases "apply_command cmd d")
  case (Pair d' r)
  then show ?thesis using assms doc_edits.links_push [of _ _ d cmd d']
    by (cases r) (auto simp: implements_def push_def safe_event_def)
qed

lemma undo_implements:
  assumes "implements (s, d) h"
  shows "implements (fst (undo (s, d))) (fst (timeline_step Undo h)) \<and>
    succeeded (snd (undo (s, d))) = snd (timeline_step Undo h)"
proof (cases "past s" rule: rev_cases)
  case Nil
  then show ?thesis using assms doc_edits.links_Nil_iff by (auto simp: implements_def undo_def)
next
  case (snoc es e)
  obtain c u where e: "e = (c, u)" by (cases e)
  have "doc_edits.links ((c, u) # rev es) (before h) d" "doc_edits.ahead (rev (future s)) (later h) d"
    using assms snoc e by (auto simp: implements_def)
  then obtain d0 ds' again where "before h = d0 # ds'" "apply_command u d = (d0, Inr again)"
    "doc_edits.links (rev es) ds' d0" "doc_edits.ahead (c # rev (future s)) (d # later h) d0"
    by (rule doc_edits.links_undo)
  then show ?thesis using assms snoc e by (auto simp: implements_def undo_def)
qed

lemma redo_implements:
  assumes "implements (s, d) h"
  shows "implements (fst (redo (s, d))) (fst (timeline_step Redo h)) \<and>
    succeeded (snd (redo (s, d))) = snd (timeline_step Redo h)"
proof (cases "future s" rule: rev_cases)
  case Nil
  then show ?thesis using assms doc_edits.ahead_Nil_iff by (auto simp: implements_def redo_def)
next
  case (snoc cs c)
  have "doc_edits.links (rev (past s)) (before h) d" "doc_edits.ahead (c # rev cs) (later h) d"
    using assms snoc by (auto simp: implements_def)
  then obtain d1 fs' u where "later h = d1 # fs'" "apply_command c d = (d1, Inr u)"
    "doc_edits.links ((c, u) # rev (past s)) (d # before h) d1" "doc_edits.ahead (rev cs) fs' d1"
    by (rule doc_edits.links_redo)
  then show ?thesis using assms snoc by (auto simp: implements_def redo_def)
qed

lemma step_implements:
  assumes "implements sd h" "safe_event ev (snd sd)"
  shows "implements (fst (stack_step ev sd)) (fst (timeline_step ev h)) \<and>
    snd (stack_step ev sd) = snd (timeline_step ev h)"
proof -
  obtain s d where sd: "sd = (s, d)" by (cases sd)
  show ?thesis
  proof (cases ev)
    case (Push cmd)
    then show ?thesis using push_implements [of s d h cmd] assms sd by simp
  next
    case Undo
    then show ?thesis using undo_implements [of s d h] assms sd by simp
  next
    case Redo
    then show ?thesis using redo_implements [of s d h] assms sd by simp
  next
    case Save
    then show ?thesis using assms sd by (simp add: implements_def mark_clean_def)
  qed
qed

lemma run_implements:
  assumes "implements sd h" "safe_events evs sd"
  shows "implements (fst (run_events stack_step evs sd)) (fst (run_events timeline_step evs h)) \<and>
    snd (run_events stack_step evs sd) = snd (run_events timeline_step evs h)"
  using assms
proof (induction evs arbitrary: sd h)
  case Nil
  then show ?case by simp
next
  case (Cons ev evs)
  have "implements (fst (stack_step ev sd)) (fst (timeline_step ev h))"
    "snd (stack_step ev sd) = snd (timeline_step ev h)"
    using step_implements [of sd h ev] Cons.prems by auto
  then show ?case using Cons.IH [of "fst (stack_step ev sd)" "fst (timeline_step ev h)"] Cons.prems(2)
    by (simp add: case_prod_beta' Let_def)
qed

lemma implements_observe:
  assumes "implements (s, d) h"
  shows "d = now h" "can_undo s \<longleftrightarrow> before h \<noteq> []" "can_redo s \<longleftrightarrow> later h \<noteq> []"
  using assms doc_edits.links_Nil_iff [of "rev (past s)" "before h" d]
    doc_edits.ahead_Nil_iff [of "rev (future s)" "later h" d]
  by (auto simp: implements_def can_undo_def can_redo_def)

definition one_run :: "utf8 \<Rightarrow> Document" where
  "one_run s = default_document\<lparr>blocks := [ParagraphBlock (default_paragraph\<lparr>runs := [default_run\<lparr>run_text := s\<rparr>]\<rparr>)]\<rparr>"

text \<open>
  C8. Exact undo.  Whenever \<open>apply_command\<close> accepts a command, applying the inverse it returns succeeds
  and gives back the document as it was, block by block and field by field, for each of the 32 commands
  under its side condition \<open>undoable\<close>; the side condition is trivially true for 22 of them.
\<close>

theorem inverse_restores:
  assumes "undoable cmd doc" "apply_command cmd doc = (doc', Inr undo_by)"
  shows "\<exists>again. apply_command undo_by doc' = (doc, Inr again)"
  using assms by (rule doc_edits.inverse)

theorem inverse_restores_witness:
  "undoable (InsertText (cursor_at 0 0 1) [120]) (one_run [72, 105]) \<and>
   apply_command (InsertText (cursor_at 0 0 1) [120]) (one_run [72, 105]) =
     (one_run [72, 120, 105], Inr (DeleteRange \<lparr>anchor = cursor_at 0 0 1, head = cursor_at 0 0 2\<rparr>)) \<and>
   (\<exists>again. apply_command (DeleteRange \<lparr>anchor = cursor_at 0 0 1, head = cursor_at 0 0 2\<rparr>) (one_run [72, 120, 105]) =
     (one_run [72, 105], Inr again))"
proof -
  have ok: "undoable (InsertText (cursor_at 0 0 1) [120]) (one_run [72, 105])"
    by (simp add: one_run_def starts_char_def paragraph_ref_def cursor_at_def get_paragraph_def)
  have run: "apply_command (InsertText (cursor_at 0 0 1) [120]) (one_run [72, 105]) =
     (one_run [72, 120, 105], Inr (DeleteRange \<lparr>anchor = cursor_at 0 0 1, head = cursor_at 0 0 2\<rparr>))"
    by (simp add: one_run_def cmd_insert_text_def apply_insert_text_def insert_in_para_def set_run_text_def
        paragraph_ref_def put_paragraph_def cursor_at_def get_paragraph_def is_char_boundary_def)
  show ?thesis using inverse_restores [OF ok run] ok run by blast
qed

text \<open>
  C6. Refinement.  Run against the specification in which the editor is a timeline of whole documents
  (undo steps back, redo steps forward, a new edit cuts off what could be redone), the undo stack of
  the code, which keeps commands and inverses only, shows the same document after every sequence of
  edits, undos, redos and saves, reports success and failure at the same steps, and offers undo and redo
  exactly when the timeline has a past and a future, provided each edit is undoable and a refused
  edit has changed nothing.
\<close>

theorem undo_stack_refines_timeline:
  assumes "safe_events evs (new_stack, doc)"
    and "run_events stack_step evs (new_stack, doc) = ((s, d), outcomes)"
  shows "\<exists>h. run_events timeline_step evs \<lparr>before = [], now = doc, later = []\<rparr> = (h, outcomes) \<and>
    d = now h \<and> (can_undo s \<longleftrightarrow> before h \<noteq> []) \<and> (can_redo s \<longleftrightarrow> later h \<noteq> [])"
proof -
  have "implements (new_stack, doc) \<lparr>before = [], now = doc, later = []\<rparr>"
    by (simp add: implements_def new_stack_def)
  from run_implements [OF this assms(1)] show ?thesis
    using implements_observe assms(2) by (cases "run_events timeline_step evs \<lparr>before = [], now = doc, later = []\<rparr>") auto
qed

lemmas stack_eval =
  safe_event_def push_def undo_def redo_def mark_clean_def new_stack_def default_document_def

theorem undo_stack_refines_timeline_witness:
  "\<exists>h. run_events timeline_step [Push (SetHeader [default_paragraph]), Save, Push (SetFooter []), Undo, Undo, Redo, Redo, Redo]
      \<lparr>before = [], now = default_document, later = []\<rparr> = (h, [True, True, True, True, True, True, True, False]) \<and>
    default_document\<lparr>header := [default_paragraph]\<rparr> = now h \<and> before h \<noteq> [] \<and> later h = []"
proof -
  let ?evs = "[Push (SetHeader [default_paragraph]), Save, Push (SetFooter []), Undo, Undo, Redo, Redo, Redo]"
  have "safe_events ?evs (new_stack, default_document)" by (simp add: stack_eval)
  moreover have "run_events stack_step ?evs (new_stack, default_document) =
    ((\<lparr>past = [(SetHeader [default_paragraph], SetHeader []), (SetFooter [], SetFooter [])], future = [], dirty = True, saved_len = 1\<rparr>,
      default_document\<lparr>header := [default_paragraph]\<rparr>), [True, True, True, True, True, True, True, False])"
    by (simp add: stack_eval)
  ultimately show ?thesis using undo_stack_refines_timeline by (fastforce simp: can_undo_def can_redo_def)
qed

section \<open>Refused commands\<close>

fun may_change_when_refused :: "EditCommand \<Rightarrow> bool" where
  "may_change_when_refused (SetRunStyle _ _) \<longleftrightarrow> True"
| "may_change_when_refused (SetSectionPageSetup _ _) \<longleftrightarrow> True"
| "may_change_when_refused (RemoveComment _) \<longleftrightarrow> True"
| "may_change_when_refused (DeleteRange sel) \<longleftrightarrow> run_idx (anchor sel) \<noteq> run_idx (head sel)"
| "may_change_when_refused _ \<longleftrightarrow> False"

lemma edit_table_refused: "edit_table ti f doc = (doc', Inl e) \<Longrightarrow> doc' = doc"
  by (auto simp: edit_table_def split: option.splits)

lemma delete_range_refused:
  assumes "cmd_delete_range sel doc = (doc', Inl e)" "run_idx (anchor sel) = run_idx (head sel)"
  shows "doc' = doc"
proof -
  have "run_idx (fst (normalized sel)) = run_idx (snd (normalized sel))" using assms(2) by (simp add: normalized_def)
  moreover have "apply_delete_range c d doc = (doc', Inl e') \<Longrightarrow> run_idx c = run_idx d \<Longrightarrow> doc' = doc" for c d e'
    by (auto simp: apply_delete_range_def delete_in_para_def delete_in_run_def put_paragraph_same
        split: option.splits prod.splits if_splits)
  ultimately show ?thesis using assms(1)
    by (fastforce simp: cmd_delete_range_def split: prod.splits sum.splits)
qed

text \<open>
  Errors.  A command that \<open>apply_command\<close> refuses leaves the document as it was, for every command
  except the four that change it before they fail: \<open>SetRunStyle\<close>, \<open>SetSectionPageSetup\<close>,
  \<open>RemoveComment\<close> and a \<open>DeleteRange\<close> over several runs.
\<close>

theorem refused_command_changes_nothing:
  assumes "apply_command cmd doc = (doc', Inl e)" "\<not> may_change_when_refused cmd"
  shows "doc' = doc"
proof (cases cmd)
  case (DeleteRange sel)
  then show ?thesis using assms delete_range_refused by auto
qed (use assms in \<open>auto dest: edit_table_refused simp: cmd_insert_text_def cmd_set_alignment_def cmd_toggle_list_def
    cmd_insert_table_def cmd_insert_image_def cmd_replace_paragraph_def edit_paragraph_def insert_block_def Let_def
    cmd_replace_block_def cmd_add_bookmark_def cmd_remove_bookmark_def cmd_add_comment_def
    cmd_update_comment_text_def cmd_remove_block_def split: option.splits sum.splits if_splits\<close>)

theorem refused_command_changes_nothing_witness:
  "apply_command (DeleteTableRow 0 0) (one_run []) = (one_run [], Inl EditOutOfBounds) \<and>
   \<not> may_change_when_refused (DeleteTableRow 0 0) \<and> one_run [] = one_run []"
proof -
  have run: "apply_command (DeleteTableRow 0 0) (one_run []) = (one_run [], Inl EditOutOfBounds)"
    by (simp add: edit_table_def get_table_def one_run_def)
  show ?thesis using refused_command_changes_nothing [OF run] run by simp
qed

lemma section_setup_applied_though_refused:
  assumes "get_paragraph (blocks doc) i = Some p" "section_properties p = None"
  shows "apply_command (SetSectionPageSetup i setup) doc =
    (doc\<lparr>blocks := (blocks doc)[i := ParagraphBlock (p\<lparr>section_properties := Some setup\<rparr>)]\<rparr>, Inl EditOutOfBounds)"
  using assms by (simp add: cmd_set_section_page_setup_def)

lemma comment_lost_though_refused:
  assumes "position (\<lambda>c. comment_id c = n) (comments doc) = Some i" "\<forall>r \<in> set (comment_ranges doc). range_id r \<noteq> n"
  shows "apply_command (RemoveComment n) doc = (doc\<lparr>comments := remove_at i (comments doc)\<rparr>, Inl EditOutOfBounds)"
proof -
  have "position (\<lambda>r. range_id r = n) (comment_ranges doc) = None" using assms(2) by (simp add: position_None_iff)
  then show ?thesis using assms(1) by (simp add: cmd_remove_comment_def Let_def)
qed

section \<open>Where undo is not exact\<close>

text \<open>
  Removing a block that is not the last one and undoing it overwrites the block that had moved
  into its place: the inverse of \<open>RemoveBlock\<close> is \<open>ReplaceBlock\<close>, so the document comes back one block
  shorter, without the successor of the removed block, and undo reports success.
\<close>

theorem remove_block_undo_overwrites:
  assumes "Suc i < length (blocks doc)"
  shows "\<exists>s' doc'. undo (fst (push (RemoveBlock i) (s, doc))) = ((s', doc'), Inr ()) \<and>
    blocks doc' = take (Suc i) (blocks doc) @ drop (Suc (Suc i)) (blocks doc)"
proof -
  let ?bs = "blocks doc"
  have "remove_at i ?bs = take i ?bs @ ?bs ! Suc i # drop (Suc (Suc i)) ?bs"
    using assms by (simp add: remove_at_def Cons_nth_drop_Suc)
  then have "(remove_at i ?bs)[i := ?bs ! i] = take (Suc i) ?bs @ drop (Suc (Suc i)) ?bs"
    using assms by (simp add: list_update_append take_Suc_conv_app_nth)
  moreover have "i < length (remove_at i ?bs)" using assms by (simp add: vec_simps)
  ultimately show ?thesis using assms
    by (simp add: push_def undo_def cmd_remove_block_def cmd_replace_block_def)
qed

theorem remove_block_undo_overwrites_witness:
  "\<exists>s' doc'. undo (fst (push (RemoveBlock 0) (new_stack, default_document\<lparr>blocks := [ParagraphBlock default_paragraph, TableBlock (empty_table 1 1)]\<rparr>)))
      = ((s', doc'), Inr ()) \<and> blocks doc' = [ParagraphBlock default_paragraph]"
  using remove_block_undo_overwrites [of 0 "default_document\<lparr>blocks := [ParagraphBlock default_paragraph, TableBlock (empty_table 1 1)]\<rparr>" new_stack]
  by simp

text \<open>
  The dirty flag compares lengths: after a save, an undo and two other edits, one more undo leaves as
  many entries as were saved, and the stack reports a clean document although the saved one is gone.
\<close>

lemma false_clean:
  "\<exists>s d. fst (run_events stack_step
      [Push (SetHeader [default_paragraph]), Save, Undo, Push (SetFooter [default_paragraph]), Push (SetHeader []), Undo]
      (new_stack, default_document)) = (s, d) \<and>
    \<not> dirty s \<and> d = default_document\<lparr>footer := [default_paragraph]\<rparr>"
  by (simp add: stack_eval)


end
