(* ===== verification/Document_Wf.thy ===== *)
theory Document_Wf
  imports Document_Undo
begin

text \<open>
  Documents whose texts are well-formed UTF-8, as Rust's \<open>String\<close> makes them: on these, typing can be undone wherever
  the paragraph has a run.
\<close>

section \<open>Well-formed documents\<close>

definition para_ok :: "Paragraph \<Rightarrow> bool" where
  "para_ok p \<longleftrightarrow> (\<forall>r \<in> set (runs p). utf8_valid (run_text r))"

definition cell_ok :: "TableCell \<Rightarrow> bool" where
  "cell_ok c \<longleftrightarrow> (\<forall>p \<in> set (paragraphs c). para_ok p)"

definition row_ok :: "TableRow \<Rightarrow> bool" where
  "row_ok r \<longleftrightarrow> (\<forall>c \<in> set (cells r). cell_ok c)"

definition table_ok :: "Table \<Rightarrow> bool" where
  "table_ok t \<longleftrightarrow> (\<forall>r \<in> set (rows t). row_ok r)"

primrec block_ok :: "Block \<Rightarrow> bool" where
  "block_ok (ParagraphBlock p) \<longleftrightarrow> para_ok p"
| "block_ok (TableBlock t) \<longleftrightarrow> table_ok t"
| "block_ok (ImageBlock i) \<longleftrightarrow> True"

definition blocks_ok :: "Block list \<Rightarrow> bool" where
  "blocks_ok bs \<longleftrightarrow> (\<forall>b \<in> set bs. block_ok b)"

definition paras_ok :: "Paragraph list \<Rightarrow> bool" where
  "paras_ok ps \<longleftrightarrow> (\<forall>p \<in> set ps. para_ok p)"

definition doc_ok :: "Document \<Rightarrow> bool" where
  "doc_ok d \<longleftrightarrow> blocks_ok (blocks d) \<and> paras_ok (header d) \<and> paras_ok (footer d) \<and> paras_ok (header_first d) \<and>
    paras_ok (footer_first d) \<and> paras_ok (header_even d) \<and> paras_ok (footer_even d) \<and>
    (\<forall>b \<in> set (bookmarks d). utf8_valid (bookmark_name b)) \<and> (\<forall>c \<in> set (comments d). utf8_valid (comment_text c))"

lemma doc_ok_blocksD: "doc_ok d \<Longrightarrow> blocks_ok (blocks d)"
  by (simp add: doc_ok_def)

lemma get_paragraph_ok: "blocks_ok bs \<Longrightarrow> get_paragraph bs i = Some p \<Longrightarrow> para_ok p"
  by (auto simp: blocks_ok_def dest!: get_paragraph_SomeD) (metis block_ok.simps(1) nth_mem)

lemma get_table_ok: "blocks_ok bs \<Longrightarrow> get_table bs i = Some t \<Longrightarrow> table_ok t"
  by (auto simp: blocks_ok_def dest!: get_table_SomeD) (metis block_ok.simps(2) nth_mem)

lemma get_cell_ok: "table_ok t \<Longrightarrow> get_cell t r c = Some tc \<Longrightarrow> cell_ok tc"
  by (metis nth_mem row_ok_def table_ok_def get_cell_SomeD)

lemma paragraph_ref_ok: "blocks_ok bs \<Longrightarrow> paragraph_ref bs c = Some p \<Longrightarrow> para_ok p"
proof (cases "cell c")
  case None
  then show "blocks_ok bs \<Longrightarrow> paragraph_ref bs c = Some p \<Longrightarrow> para_ok p"
    using get_paragraph_ok by (simp add: paragraph_ref_def)
next
  case (Some path)
  assume bs: "blocks_ok bs" "paragraph_ref bs c = Some p"
  with Some obtain t tc where t: "get_table bs (block_idx c) = Some t"
    and tc: "get_cell t (cp_row path) (cp_col path) = Some tc" and q: "get_at (paragraphs tc) (para_idx path) = Some p"
    by (auto simp: paragraph_ref_def split: option.splits)
  have "cell_ok tc" using get_cell_ok [OF get_table_ok [OF bs(1) t] tc] .
  then show "para_ok p" using get_at_SomeD [OF q] by (auto simp: cell_ok_def)
qed

text \<open>On a well-formed document, typing can be undone wherever the paragraph has a run.\<close>

lemma typing_undoable:
  assumes "doc_ok doc" "utf8_valid t" "paragraph_ref (blocks doc) at = Some p" "runs p \<noteq> []"
  shows "undoable (InsertText at t) doc"
  using assms paragraph_ref_ok [OF doc_ok_blocksD [OF assms(1)] assms(3)] utf8_valid_starts
  by (auto simp: para_ok_def)

end
