(* ===== verification/Calc_Date.thy ===== *)
theory Calc_Date
  imports Complex_Main "HOL-Library.Signed_Division" Orchid_Prelude
begin

text \<open>
  The date functions of the spreadsheet (crates/orchid-viewers/src/office/calc.rs): day numbers and civil dates,
  the serial numbers of the 1900 date system with its fictional 29 February 1900, months and working days.
  A double is its rational value, or not finite.
\<close>

section \<open>Doubles\<close>

datatype f64 = Num rat | NaN | Inf bool

text \<open>\<open>f64::trunc\<close>, and the saturating cast of its result to \<open>i64\<close>.\<close>

definition trunc :: "rat \<Rightarrow> int" where
  "trunc x = (if 0 \<le> x then \<lfloor>x\<rfloor> else \<lceil>x\<rceil>)"

definition clamp_i64 :: "int \<Rightarrow> int" where
  "clamp_i64 n = max (- (2 ^ 63)) (min (2 ^ 63 - 1) n)"

fun trunc_i64 :: "f64 \<Rightarrow> int" where
  "trunc_i64 (Num x) = clamp_i64 (trunc x)"
| "trunc_i64 NaN = 0"
| "trunc_i64 (Inf pos) = (if pos then 2 ^ 63 - 1 else - (2 ^ 63))"

section \<open>Days and dates\<close>

text \<open>Days since 1970-01-01; \<open>sdiv\<close> is the division of \<open>i64\<close>, which rounds towards zero.\<close>

definition civil_to_unix :: "int \<Rightarrow> int \<Rightarrow> int \<Rightarrow> int" where
  "civil_to_unix year month day =
    (let y = year - (if month \<le> 2 then 1 else 0);
         era = (if 0 \<le> y then y else y - 399) sdiv 400;
         yoe = y - era * 400;
         mp = (if 2 < month then month - 3 else month + 9);
         doy = (153 * mp + 2) div 5 + day - 1;
         doe = yoe * 365 + yoe div 4 - yoe div 100 + doy
     in era * 146097 + doe - 719468)"

definition unix_to_civil :: "int \<Rightarrow> int \<times> int \<times> int" where
  "unix_to_civil days =
    (let z = days + 719468;
         era = (if 0 \<le> z then z else z - 146096) sdiv 146097;
         doe = z - era * 146097;
         yoe = (doe - doe div 1460 + doe div 36524 - doe div 146096) div 365;
         y = yoe + era * 400;
         doy = doe - (365 * yoe + yoe div 4 - yoe div 100);
         mp = (5 * doy + 2) div 153;
         day = doy - (153 * mp + 2) div 5 + 1;
         month = (if mp < 10 then mp + 3 else mp - 9);
         year = (if month \<le> 2 then y + 1 else y)
     in (year, month, day))"

section \<open>The calendar\<close>

definition leap :: "int \<Rightarrow> bool" where
  "leap y \<longleftrightarrow> 4 dvd y \<and> (\<not> 100 dvd y \<or> 400 dvd y)"

definition month_days :: "int \<Rightarrow> int \<Rightarrow> int" where
  "month_days y m = (if m = 2 then (if leap y then 29 else 28) else if m \<in> {4, 6, 9, 11} then 30 else 31)"

definition valid_date :: "int \<times> int \<times> int \<Rightarrow> bool" where
  "valid_date = (\<lambda>(y, m, d). 1 \<le> m \<and> m \<le> 12 \<and> 1 \<le> d \<and> d \<le> month_days y m)"

definition next_day :: "int \<times> int \<times> int \<Rightarrow> int \<times> int \<times> int" where
  "next_day = (\<lambda>(y, m, d).
    if d < month_days y m then (y, m, d + 1) else if m < 12 then (y, m + 1, 1) else (y + 1, 1, 1))"

lemma floor_era: "(0::int) < k \<Longrightarrow> (if 0 \<le> y then y else y - (k - 1)) sdiv k = y div k"
proof (cases "0 \<le> y")
  case False
  assume k: "0 < k"
  have "k - 1 - y = k * (- (y div k)) + (k - 1 - y mod k)"
    using mult_div_mod_eq [of k y] by (simp add: algebra_simps)
  then have "(k - 1 - y) div k = - (y div k)"
    by (rule int_div_pos_eq) (use k pos_mod_bound [of k y] pos_mod_sign [of k y] in linarith)+
  then show ?thesis using False k by (simp add: signed_divide_int_def sgn_if)
qed (simp add: signed_divide_int_def sgn_if)

definition year_start :: "int \<Rightarrow> int" where
  "year_start y = 365 * y + y div 4 - y div 100"

definition year_end :: "int \<Rightarrow> int" where
  "year_end y = (if y = 399 then 146097 else year_start (y + 1))"

definition year_key :: "int \<Rightarrow> int" where
  "year_key doe = doe - doe div 1460 + doe div 36524 - doe div 146096"

lemma year_table:
  "list_all (\<lambda>y. 365 * y \<le> year_key (year_start y) \<and> year_key (year_end y - 1) \<le> 365 * y + 364 \<and>
    year_end y - year_start y = (if leap (y + 1) then 366 else 365)) (map int [0..<400])"
  by code_simp


lemma year_tableD:
  assumes "0 \<le> y" "y < 400"
  shows "365 * y \<le> year_key (year_start y)" "year_key (year_end y - 1) \<le> 365 * y + 364"
    "year_end y - year_start y = (if leap (y + 1) then 366 else 365)"
proof -
  have "y \<in> set (map int [0..<400])" using assms by (auto simp: image_iff intro!: bexI [of _ "nat y"])
  from bspec [OF year_table [unfolded list_all_iff] this]
  show "365 * y \<le> year_key (year_start y)" "year_key (year_end y - 1) \<le> 365 * y + 364"
    "year_end y - year_start y = (if leap (y + 1) then 366 else 365)" by blast+
qed

lemma div_Suc:
  assumes "(0::int) < k"
  shows "(n + 1) div k = n div k + (if k dvd n + 1 then 1 else 0)"
proof (cases "k dvd n + 1")
  case True
  then obtain q where q: "n + 1 = k * q" by blast
  then have "n = k * (q - 1) + (k - 1)" by (simp add: algebra_simps)
  then have "n div k = q - 1" by (rule int_div_pos_eq) (use assms in auto)
  then show ?thesis using True q assms by simp
next
  case False
  let ?q = "(n + 1) div k" and ?r = "(n + 1) mod k"
  have "0 < ?r" using False assms pos_mod_sign [of k "n + 1"] by (simp add: dvd_eq_mod_eq_0 order_less_le)
  moreover have "n = k * ?q + (?r - 1)" using mult_div_mod_eq [of k "n + 1"] by linarith
  ultimately have "n div k = ?q"
    using pos_mod_bound [OF assms, of "n + 1"] by (intro int_div_pos_eq [of n k ?q "?r - 1"]) linarith+
  then show ?thesis using False by simp
qed

lemma year_key_mono: "a \<le> b \<Longrightarrow> year_key a \<le> year_key b"
proof (induction b rule: int_ge_induct)
  case (step i)
  have "(146096::int) dvd i + 1 \<Longrightarrow> (36524::int) dvd i + 1" by (erule dvd_trans [rotated]) simp
  then have "year_key i \<le> year_key (i + 1)"
    by (simp add: year_key_def div_Suc)
  then show ?case using step by simp
qed simp

lemma year_of_day:
  assumes "0 \<le> y" "y < 400" "year_start y \<le> doe" "doe < year_end y"
  shows "year_key doe div 365 = y"
proof -
  have "365 * y \<le> year_key doe" "year_key doe \<le> 365 * y + 364"
    using year_tableD [OF assms(1,2)] year_key_mono [OF assms(3)] year_key_mono [of doe "year_end y - 1"] assms(4)
    by linarith+
  then show ?thesis by simp
qed

lemma less_div_intD:
  assumes "(d::int) < n div k" "0 < k"
  shows "k * (d + 1) \<le> n"
proof -
  have "k * (d + 1) \<le> k * (n div k)" using assms by (intro mult_left_mono) auto
  also have "\<dots> = n - n mod k" by (simp add: minus_mod_eq_mult_div)
  also have "\<dots> \<le> n" using assms(2) by simp
  finally show ?thesis .
qed

lemma month_of_day:
  fixes mp doy :: int
  assumes "0 \<le> mp" "mp \<le> 11" "(153 * mp + 2) div 5 \<le> doy" "doy < (153 * (mp + 1) + 2) div 5 \<or> mp = 11 \<and> doy \<le> 365"
  shows "(5 * doy + 2) div 153 = mp"
proof -
  have "153 * mp \<le> 5 * doy + 2" using assms(3) by linarith
  moreover have "5 * doy + 2 < 153 * mp + 153"
    using assms(4)
  proof (elim disjE)
    assume "doy < (153 * (mp + 1) + 2) div 5"
    then have "5 * (doy + 1) \<le> 153 * (mp + 1) + 2"
      by (rule less_div_intD) simp
    then show ?thesis by arith
  qed auto
  ultimately show ?thesis by (intro int_div_pos_eq [of _ 153 mp "5 * doy + 2 - 153 * mp"]) linarith+
qed


lemma leap_shift: "leap (y + 400 * k) \<longleftrightarrow> leap y"
proof -
  have "j dvd y + 400 * k \<longleftrightarrow> j dvd y" if "j dvd 400" for j
    using that by (simp add: dvd_add_left_iff dvd_mult2)
  then show ?thesis by (simp add: leap_def)
qed

text \<open>The year that begins in March, the month in it, and the days before that month.\<close>

definition march_year :: "int \<Rightarrow> int \<Rightarrow> int" where
  "march_year y m = (if m \<le> 2 then y - 1 else y)"

definition march_month :: "int \<Rightarrow> int" where
  "march_month m = (if 2 < m then m - 3 else m + 9)"

lemma civil_to_unix_eq:
  "civil_to_unix y m d = (march_year y m div 400) * 146097 + year_start (march_year y m mod 400)
    + (153 * march_month m + 2) div 5 + d - 1 - 719468"
proof -
  have y: "y - (if m \<le> 2 then 1 else 0) = march_year y m" by (simp add: march_year_def)
  have "(if 0 \<le> march_year y m then march_year y m else march_year y m - 399) sdiv 400 = march_year y m div 400"
    using floor_era [of 400 "march_year y m"] by (cases "0 \<le> march_year y m") simp_all
  moreover have "march_year y m - march_year y m div 400 * 400 = march_year y m mod 400"
    by (simp add: minus_div_mult_eq_mod)
  ultimately show ?thesis
    unfolding civil_to_unix_def Let_def y by (simp add: year_start_def march_month_def)
qed

lemma unix_to_civil_eq:
  assumes "0 \<le> yoe" "yoe < 400" "year_start yoe \<le> doe" "doe < year_end yoe" "doe < 146097" "0 \<le> doe"
    and "0 \<le> mp" "mp \<le> 11" "(153 * mp + 2) div 5 \<le> doe - year_start yoe"
      "doe - year_start yoe < (153 * (mp + 1) + 2) div 5 \<or> mp = 11 \<and> doe - year_start yoe \<le> 365"
  shows "unix_to_civil (era * 146097 + doe - 719468) =
    (let m = (if mp < 10 then mp + 3 else mp - 9)
     in (if m \<le> 2 then yoe + era * 400 + 1 else yoe + era * 400, m, doe - year_start yoe - (153 * mp + 2) div 5 + 1))"
proof -
  let ?z = "era * 146097 + doe"
  have "(if 0 \<le> ?z then ?z else ?z - 146096) sdiv 146097 = ?z div 146097" 
    using floor_era [of 146097 ?z] by (cases "0 \<le> ?z") simp_all
  also have "\<dots> = era" using assms(5,6) by simp
  finally have era: "(if 0 \<le> ?z then ?z else ?z - 146096) sdiv 146097 = era" .
  have yoe: "(doe - doe div 1460 + doe div 36524 - doe div 146096) div 365 = yoe"
    using year_of_day [OF assms(1-4)] by (simp add: year_key_def)
  have mp: "(5 * (doe - year_start yoe) + 2) div 153 = mp" using month_of_day assms(7-10) by blast
  have z: "era * 146097 + doe - 719468 + 719468 = ?z" "?z - era * 146097 = doe" by simp_all
  show ?thesis
    unfolding unix_to_civil_def Let_def z era yoe year_start_def [symmetric] mp by (rule refl)
qed


lemma month_start_mono: "(0::int) \<le> mp \<Longrightarrow> mp \<le> 11 \<Longrightarrow> 0 \<le> (153 * mp + 2) div 5 \<and> (153 * mp + 2) div 5 \<le> 337"
  by linarith

lemma march_month_range: "1 \<le> m \<Longrightarrow> m \<le> 12 \<Longrightarrow> 0 \<le> march_month m \<and> march_month m \<le> 11"
  by (simp add: march_month_def)

lemma month_cases:
  assumes "1 \<le> (m::int)" "m \<le> 12"
  shows "m = 1 \<or> m = 2 \<or> m = 3 \<or> m = 4 \<or> m = 5 \<or> m = 6 \<or> m = 7 \<or> m = 8 \<or> m = 9 \<or> m = 10 \<or> m = 11 \<or> m = 12"
  using assms by presburger

text \<open>A day of a month other than February ends before the next month of the same year.\<close>

lemma month_fits:
  assumes "1 \<le> m" "m \<le> 12" "m \<noteq> 2"
  shows "(153 * march_month m + 2) div 5 + month_days y m = (153 * (march_month m + 1) + 2) div 5"
  using month_cases [OF assms(1,2)] assms(3) by (elim disjE) (simp_all add: march_month_def month_days_def)

lemma day_of_year_fits:
  assumes "valid_date (y, m, d)"
  defines "doy \<equiv> (153 * march_month m + 2) div 5 + d - 1"
  shows "0 \<le> doy" "doy < (if leap (march_year y m + 1) then 366 else 365)"
    "(153 * march_month m + 2) div 5 \<le> doy"
    "doy < (153 * (march_month m + 1) + 2) div 5 \<or> march_month m = 11 \<and> doy \<le> 365"
proof -
  have v: "1 \<le> m" "m \<le> 12" "1 \<le> d" "d \<le> month_days y m" using assms(1) by (simp_all add: valid_date_def)
  show "(153 * march_month m + 2) div 5 \<le> doy" using v by (simp add: doy_def)
  then show "0 \<le> doy" using month_start_mono march_month_range v by fastforce
  show "doy < (if leap (march_year y m + 1) then 366 else 365)"
    "doy < (153 * (march_month m + 1) + 2) div 5 \<or> march_month m = 11 \<and> doy \<le> 365"
    using month_cases [OF v(1,2)] v(3,4)
    by (elim disjE; simp add: doy_def march_month_def march_year_def month_days_def split: if_splits)+
qed


text \<open>Reading back the day number of a date gives the date.\<close>

lemma civil_roundtrip:
  assumes "valid_date (y, m, d)"
  shows "unix_to_civil (civil_to_unix y m d) = (y, m, d)"
proof -
  let ?y = "march_year y m" and ?mp = "march_month m"
  let ?yoe = "?y mod 400" and ?doy = "(153 * ?mp + 2) div 5 + d - 1"
  note doy = day_of_year_fits [OF assms]
  have m: "1 \<le> m" "m \<le> 12" using assms by (simp_all add: valid_date_def)
  have yoe: "0 \<le> ?yoe" "?yoe < 400" by simp_all
  have "leap (?y + 1) \<longleftrightarrow> leap (?yoe + 1)"
    using leap_shift [of "?yoe + 1" "?y div 400"] mult_div_mod_eq [of 400 ?y] by (simp add: algebra_simps)
  then have last: "year_start ?yoe + ?doy < year_end ?yoe"
    using year_tableD(3) [OF yoe] doy(2) by simp
  have "year_start ?yoe \<ge> 0" using yoe by (simp add: year_start_def)
  moreover have "year_end ?yoe \<le> 146097"
    using yoe by (simp add: year_end_def year_start_def) linarith
  ultimately have "unix_to_civil (?y div 400 * 146097 + (year_start ?yoe + ?doy) - 719468) =
    (let m = (if ?mp < 10 then ?mp + 3 else ?mp - 9)
     in (if m \<le> 2 then ?yoe + ?y div 400 * 400 + 1 else ?yoe + ?y div 400 * 400, m, ?doy - (153 * ?mp + 2) div 5 + 1))"
    using unix_to_civil_eq [OF yoe, of "year_start ?yoe + ?doy" ?mp "?y div 400"] doy last march_month_range [OF m] by auto
  moreover have "civil_to_unix y m d = ?y div 400 * 146097 + (year_start ?yoe + ?doy) - 719468"
    by (simp add: civil_to_unix_eq)
  moreover have "?yoe + ?y div 400 * 400 = ?y" by simp
  ultimately show ?thesis using m by (auto simp: march_month_def march_year_def Let_def)
qed

lemma year_step:
  fixes y :: int
  defines "before \<equiv> \<lambda>y. y div 400 * 146097 + year_start (y mod 400)"
  shows "before (y + 1) = before y + (if leap (y + 1) then 366 else 365)"
proof -
  have yoe: "0 \<le> y mod 400" "y mod 400 < 400" by simp_all
  have "leap (y + 1) \<longleftrightarrow> leap (y mod 400 + 1)"
    using leap_shift [of "y mod 400 + 1" "y div 400"] mult_div_mod_eq [of 400 y] by (simp add: algebra_simps)
  then have e: "year_end (y mod 400) = year_start (y mod 400) + (if leap (y + 1) then 366 else 365)"
    using year_tableD(3) [OF yoe] by (simp split: if_splits)
  have split: "y = 400 * (y div 400) + y mod 400" by simp
  show ?thesis
  proof (cases "y mod 400 = 399")
    case True
    then have "y + 1 = 400 * (y div 400) + 400" using split by linarith
    then have "y + 1 = 400 * (y div 400 + 1) + 0" by (simp add: distrib_left)
    then have "(y + 1) mod 400 = 0" "(y + 1) div 400 = y div 400 + 1"
      using int_mod_pos_eq [of "y + 1" 400 "y div 400 + 1" 0] int_div_pos_eq [of "y + 1" 400 "y div 400 + 1" 0] by auto
    then show ?thesis using e True by (simp add: before_def year_end_def year_start_def split: if_splits)
  next
    case False
    then have "y + 1 = 400 * (y div 400) + (y mod 400 + 1)" "y mod 400 + 1 < 400" using split yoe by linarith+
    then have "(y + 1) mod 400 = y mod 400 + 1" "(y + 1) div 400 = y div 400"
      using int_mod_pos_eq [of "y + 1" 400 "y div 400" "y mod 400 + 1"]
        int_div_pos_eq [of "y + 1" 400 "y div 400" "y mod 400 + 1"] by auto
    then show ?thesis using e False by (simp add: before_def year_end_def)
  qed
qed

lemma civil_next:
  assumes v: "valid_date (y, m, d)" and n: "next_day (y, m, d) = (y', m', d')"
  shows "civil_to_unix y' m' d' = civil_to_unix y m d + 1" "valid_date (y', m', d')"
proof -
  have m: "1 \<le> m" "m \<le> 12" "1 \<le> d" "d \<le> month_days y m" using v by (simp_all add: valid_date_def)
  have pos: "1 \<le> month_days k j" for k j by (simp add: month_days_def)
  show "valid_date (y', m', d')" using m n pos by (auto simp: next_day_def valid_date_def split: if_splits)
  consider "d < month_days y m" | "d = month_days y m" "m = 2" | "d = month_days y m" "m \<noteq> 2" using m(4) by linarith
  then show "civil_to_unix y' m' d' = civil_to_unix y m d + 1"
  proof cases
    case 1
    then show ?thesis using n by (simp add: next_day_def civil_to_unix_eq)
  next
    case 2
    then have "y' = y" "m' = 3" "d' = 1" using n by (simp_all add: next_day_def)
    then show ?thesis using 2 year_step [of "y - 1"]
      by (simp add: civil_to_unix_eq march_year_def march_month_def month_days_def)
  next
    case 3
    then have "march_year y' m' = march_year y m" "march_month m' = march_month m + 1" "d' = 1"
      using n m by (auto simp: next_day_def march_year_def march_month_def split: if_splits)
    then show ?thesis using month_fits [OF m(1,2) 3(2), of y] 3(1) by (simp add: civil_to_unix_eq)
  qed
qed

lemma every_day_has_a_date: "\<exists>y m d. valid_date (y, m, d) \<and> civil_to_unix y m d = n"
proof -
  have shift: "valid_date (y + 400 * k, m, d) \<and> civil_to_unix (y + 400 * k) m d = civil_to_unix y m d + 146097 * k"
    if "valid_date (y, m, d)" for y m d k
  proof -
    have "march_year (y + 400 * k) m = march_year y m + 400 * k" by (simp add: march_year_def)
    moreover have "month_days (y + 400 * k) m = month_days y m" by (simp add: month_days_def leap_shift)
    ultimately show ?thesis using that by (simp add: civil_to_unix_eq valid_date_def)
  qed
  have up: "0 \<le> i \<Longrightarrow> \<exists>y m d. valid_date (y, m, d) \<and> civil_to_unix y m d = i" for i
  proof (induction i rule: int_ge_induct)
    case base
    have "valid_date (1970, 1, 1)" "civil_to_unix 1970 1 1 = 0" by code_simp+
    then show ?case by blast
  next
    case (step i)
    then obtain y m d where "valid_date (y, m, d)" "civil_to_unix y m d = i" by blast
    then show ?case using civil_next [of y m d] by (cases "next_day (y, m, d)") metis
  qed
  define k where "k = (if 0 \<le> n then 0 else - n)"
  have "0 \<le> n + 146097 * k" by (simp add: k_def)
  then obtain y m d where "valid_date (y, m, d)" "civil_to_unix y m d = n + 146097 * k" using up by blast
  then show ?thesis using shift [of y m d "- k"] by (auto simp: algebra_simps)
qed


text \<open>
  C22. The day arithmetic of the spreadsheet is the Gregorian calendar.  \<open>unix_to_civil\<close> maps day 0 to
  1970-01-01 and the day after any day to the next date of the calendar, for all days, negative ones
  included; \<open>civil_to_unix\<close> is its inverse in both directions.
\<close>

theorem unix_to_civil_is_calendar:
  "unix_to_civil 0 = (1970, 1, 1) \<and>
   (\<forall>n. unix_to_civil (n + 1) = next_day (unix_to_civil n)) \<and>
   (\<forall>n. valid_date (unix_to_civil n) \<and> (case unix_to_civil n of (y, m, d) \<Rightarrow> civil_to_unix y m d = n)) \<and>
   (\<forall>y m d. valid_date (y, m, d) \<longrightarrow> unix_to_civil (civil_to_unix y m d) = (y, m, d))"
proof (intro conjI allI impI)
  show "unix_to_civil 0 = (1970, 1, 1)" by code_simp
next
  fix n
  obtain y m d where d: "valid_date (y, m, d)" "civil_to_unix y m d = n" using every_day_has_a_date by blast
  then have n: "unix_to_civil n = (y, m, d)" using civil_roundtrip by blast
  then show "valid_date (unix_to_civil n)" "case unix_to_civil n of (y, m, d) \<Rightarrow> civil_to_unix y m d = n"
    using d by auto
  obtain y' m' d' where d': "next_day (y, m, d) = (y', m', d')" by (cases "next_day (y, m, d)")
  then have "civil_to_unix y' m' d' = n + 1" "valid_date (y', m', d')" using civil_next d by auto
  then show "unix_to_civil (n + 1) = next_day (unix_to_civil n)" using civil_roundtrip n d' by metis
qed (rule civil_roundtrip)

theorem unix_to_civil_is_calendar_witness:
  "unix_to_civil (-1 + 1) = next_day (unix_to_civil (-1)) \<and> valid_date (2024, 2, 29) \<and>
   unix_to_civil (civil_to_unix 2024 2 29) = (2024, 2, 29)"
proof -
  have "valid_date (2024, 2, 29)" by code_simp
  then show ?thesis using unix_to_civil_is_calendar by blast
qed

section \<open>Spreadsheet serial numbers\<close>

text \<open>
  Arguments and results are doubles; every number that is converted back to a double is an integer below
  \<open>2 ^ 53\<close> and thus exact.
\<close>

definition max_serial :: int where
  "max_serial = 2958465"

definition excel_normalize_month :: "int \<Rightarrow> int \<Rightarrow> (int \<times> int) option" where
  "excel_normalize_month year month =
    (if year < 0 \<or> 9999 < year then None
     else let year = (if year < 1900 then year + 1900 else year);
              zero = month - 1;
              year_delta = (if 0 \<le> zero then zero sdiv 12 else (zero - 11) sdiv 12);
              month0 = zero - year_delta * 12;
              year = year + year_delta
          in if 1900 \<le> year \<and> year \<le> 9999 then Some (year, month0 + 1) else None)"

definition date_serial :: "int \<Rightarrow> int \<Rightarrow> int \<Rightarrow> int" where
  "date_serial year month day =
    (if year = 1900 \<and> month = 2 \<and> 29 \<le> day then 60 + (day - 29)
     else let unix = civil_to_unix year month 1 + (day - 1);
              serial = unix - civil_to_unix 1899 12 30
          in if unix < civil_to_unix 1900 3 1 then serial - 1 else serial)"

fun date_excel :: "f64 \<Rightarrow> f64 \<Rightarrow> f64 \<Rightarrow> f64 option" where
  "date_excel (Num year) (Num month) (Num day) =
    (if \<not> (0 \<le> year \<and> year \<le> 9999) \<or> 1000000000 \<le> \<bar>month\<bar> \<or> 1000000000 \<le> \<bar>day\<bar> then None
     else (case excel_normalize_month (trunc year) (trunc month) of
             None \<Rightarrow> None
           | Some (year, month) \<Rightarrow>
               let serial = date_serial year month (trunc day)
               in if 0 \<le> serial \<and> serial \<le> max_serial then Some (Num (of_int serial)) else None))"
| "date_excel _ _ _ = None"

definition serial_parts :: "int \<Rightarrow> int \<times> int \<times> int" where
  "serial_parts serial =
    (if serial = 0 then (1900, 1, 0)
     else if serial = 60 then (1900, 2, 29)
     else unix_to_civil (if serial < 60 then civil_to_unix 1899 12 30 + serial + 1
                         else civil_to_unix 1899 12 30 + serial))"

fun excel_parts :: "f64 \<Rightarrow> (int \<times> int \<times> int) option" where
  "excel_parts (Num serial) =
    (if serial < 0 \<or> of_int max_serial < serial then None else Some (serial_parts (trunc serial)))"
| "excel_parts _ = None"

definition weekday_code :: "int \<Rightarrow> int \<Rightarrow> f64 option" where
  "weekday_code serial kind =
    (if \<not> (0 \<le> serial \<and> serial \<le> max_serial) then None
     else if kind = 1 then Some (Num (of_int (let day = (serial + 1) mod 7 in if day = 0 then 7 else day)))
     else if kind = 2 then Some (Num (of_int (let day = serial mod 7 in if day = 0 then 7 else day)))
     else if kind = 3 then Some (Num (of_int ((serial - 1) mod 7)))
     else None)"

definition month_length :: "int \<Rightarrow> int \<Rightarrow> int option" where
  "month_length year month =
    (case date_excel (Num (of_int year)) (Num (of_int month + 1)) (Num 0) of
       None \<Rightarrow> None
     | Some serial \<Rightarrow>
         (case excel_parts serial of
            None \<Rightarrow> None
          | Some (_, _, day) \<Rightarrow> if day \<le> 0 then None else Some day))"

fun shift_months :: "f64 \<Rightarrow> f64 \<Rightarrow> bool \<Rightarrow> f64 option" where
  "shift_months (Num serial) (Num months) end_of_month =
    (if serial < 1 \<or> of_int max_serial < serial \<or> 120000 < \<bar>months\<bar> then None
     else (case excel_parts (Num (of_int (trunc serial))) of
             None \<Rightarrow> None
           | Some (year, month, day) \<Rightarrow>
               (case excel_normalize_month year (month + trunc months) of
                  None \<Rightarrow> None
                | Some (year, month) \<Rightarrow>
                    (case month_length year month of
                       None \<Rightarrow> None
                     | Some len \<Rightarrow>
                         date_excel (Num (of_int year)) (Num (of_int month))
                           (Num (of_int (if end_of_month then len else min day len)))))))"
| "shift_months _ _ _ = None"

lemma trunc_of_int [simp]: "trunc (of_int n) = n"
  by (simp add: trunc_def)

lemma excel_normalize_month_id:
  "1900 \<le> y \<Longrightarrow> y \<le> 9999 \<Longrightarrow> 1 \<le> m \<Longrightarrow> m \<le> 12 \<Longrightarrow> excel_normalize_month y m = Some (y, m)"
  by (simp add: excel_normalize_month_def signed_divide_int_def sgn_if Let_def)

definition before :: "int \<Rightarrow> int" where
  "before y = y div 400 * 146097 + year_start (y mod 400) - 719468"

lemma before_mono: "a \<le> b \<Longrightarrow> before a \<le> before b"
proof (induction b rule: int_ge_induct)
  case (step i)
  then show ?case using year_step [of i] by (simp add: before_def split: if_splits)
qed simp

lemma civil_before: "civil_to_unix y m d = before (march_year y m) + (153 * march_month m + 2) div 5 + d - 1"
  by (simp add: civil_to_unix_eq before_def)

lemma civil_first_of_month: "civil_to_unix y m 1 + (d - 1) = civil_to_unix y m d"
  by (simp add: civil_before)

lemma civil_bounds:
  assumes "valid_date (y, m, d)"
  shows "before (march_year y m) \<le> civil_to_unix y m d" "civil_to_unix y m d < before (march_year y m + 1)"
  using day_of_year_fits [OF assms] year_step [of "march_year y m"] by (simp_all add: civil_before) (simp add: before_def)

lemma day_table: "civil_to_unix 1899 12 30 = -25569" "civil_to_unix 1900 3 1 = -25508" "before 1900 = -25508"
    "before 9999 = 2932591" "before 10000 = 2932957"
  by code_simp+

lemma dates_of_serials:
  assumes v: "valid_date (y, m, d)" and r: "civil_to_unix 1900 3 1 \<le> civil_to_unix y m d" "civil_to_unix y m d \<le> 2932896"
  shows "1900 \<le> y" "y = 1900 \<Longrightarrow> 3 \<le> m" "y \<le> 9999"
proof -
  have "before 1900 < before (march_year y m + 1)" using civil_bounds(2) [OF v] r(1) day_table by linarith
  then have y: "1900 \<le> march_year y m" 
    using before_mono [of "march_year y m + 1" 1900] by (cases "march_year y m + 1 \<le> 1900") auto
  then show "1900 \<le> y" "y = 1900 \<Longrightarrow> 3 \<le> m" by (auto simp: march_year_def split: if_splits)
  have le: "march_year y m \<le> 9999"
    using before_mono [of 10000 "march_year y m"] civil_bounds(1) [OF v] r(2) day_table
    by (cases "10000 \<le> march_year y m") auto
  have no: False if "march_year y m = 9999" "m \<le> 2"
  proof -
    have "m = 1 \<or> m = 2" using v that(2) by (auto simp: valid_date_def)
    then have "306 \<le> (153 * march_month m + 2) div 5" by (auto simp: march_month_def)
    then show False using r(2) v that(1) day_table by (simp add: civil_before valid_date_def)
  qed
  show "y \<le> 9999"
  proof (cases "m \<le> 2")
    case True
    then have "march_year y m \<noteq> 9999" using no by blast
    then show ?thesis using le True by (simp add: march_year_def)
  qed (use le in \<open>simp add: march_year_def\<close>)
qed

lemma excel_parts_int: "0 \<le> s \<Longrightarrow> s \<le> max_serial \<Longrightarrow> excel_parts (Num (of_int s)) = Some (serial_parts s)"
  by simp

lemma date_excel_int:
  assumes "1900 \<le> y" "y \<le> 9999" "1 \<le> m" "m \<le> 12" "\<bar>d\<bar> \<le> 31" "0 \<le> date_serial y m d" "date_serial y m d \<le> max_serial"
  shows "date_excel (Num (of_int y)) (Num (of_int m)) (Num (of_int d)) = Some (Num (of_int (date_serial y m d)))"
proof -
  have "\<bar>of_int m\<bar> < (1000000000::rat)" "\<bar>of_int d\<bar> < (1000000000::rat)" using assms by simp_all
  then show ?thesis using excel_normalize_month_id [OF assms(1-4)] assms by (simp add: Let_def not_le)
qed

lemma early_serials:
  "list_all (\<lambda>s. case serial_parts s of (y, m, d) \<Rightarrow> y = 1900 \<and> 1 \<le> m \<and> m \<le> 2 \<and> 0 \<le> d \<and> d \<le> 31 \<and> date_serial y m d = s)
   (map int [0..<61])"
  by code_simp

lemma early_serialsD:
  assumes "0 \<le> s" "s \<le> 60" "serial_parts s = (y, m, d)"
  shows "y = 1900" "1 \<le> m" "m \<le> 2" "0 \<le> d" "d \<le> 31" "date_serial y m d = s"
proof -
  have "s \<in> set (map int [0..<61])" using assms by (auto simp: image_iff intro!: bexI [of _ "nat s"])
  from bspec [OF early_serials [unfolded list_all_iff] this]
  show "y = 1900" "1 \<le> m" "m \<le> 2" "0 \<le> d" "d \<le> 31" "date_serial y m d = s" by (auto simp: assms(3))
qed

lemma late_serials:
  assumes "60 < s" "s \<le> max_serial" "serial_parts s = (y, m, d)"
  shows "valid_date (y, m, d)" "civil_to_unix y m d = s - 25569" "1900 \<le> y" "y \<le> 9999" "y = 1900 \<Longrightarrow> 3 \<le> m" "date_serial y m d = s"
proof -
  obtain y' m' d' where v': "valid_date (y', m', d')" "civil_to_unix y' m' d' = s - 25569"
    using every_day_has_a_date by blast
  then show v: "valid_date (y, m, d)" "civil_to_unix y m d = s - 25569"
    using civil_roundtrip [OF v'(1)] assms by (auto simp: serial_parts_def day_table)
  have "civil_to_unix 1900 3 1 \<le> civil_to_unix y m d" "civil_to_unix y m d \<le> 2932896"
    using assms v(2) by (simp_all add: day_table max_serial_def)
  note r = dates_of_serials [OF v(1) this]
  show "1900 \<le> y" "y \<le> 9999" "y = 1900 \<Longrightarrow> 3 \<le> m" using r by auto
  show "date_serial y m d = s" using r(2) v assms
    by (auto simp: date_serial_def Let_def civil_first_of_month day_table)
qed

text \<open>
  Serial numbers and dates.  For every serial of the 1900 date system, from 0 through 2958465 and
  including day 0 and the fictional 29 February 1900, DATE of its YEAR, MONTH and DAY is the serial again.
\<close>

theorem date_of_serial_parts:
  assumes "0 \<le> s" "s \<le> max_serial"
  shows "\<exists>y m d. excel_parts (Num (of_int s)) = Some (y, m, d) \<and>
    date_excel (Num (of_int y)) (Num (of_int m)) (Num (of_int d)) = Some (Num (of_int s))"
proof -
  obtain y m d where p: "serial_parts s = (y, m, d)" by (cases "serial_parts s")
  have "1900 \<le> y \<and> y \<le> 9999 \<and> 1 \<le> m \<and> m \<le> 12 \<and> \<bar>d\<bar> \<le> 31 \<and> date_serial y m d = s"
  proof (cases "s \<le> 60")
    case True
    then show ?thesis using early_serialsD [OF assms(1) True p] by simp
  next
    case False
    then show ?thesis using late_serials [of s y m d] assms(2) p
      by (auto simp: valid_date_def month_days_def split: if_splits)
  qed
  then show ?thesis using excel_parts_int [OF assms] date_excel_int [of y m d] assms p by metis
qed

theorem date_of_serial_parts_witness:
  "0 \<le> (45292::int) \<and> 45292 \<le> max_serial \<and> (\<exists>y m d. excel_parts (Num (of_int 45292)) = Some (y, m, d) \<and>
    date_excel (Num (of_int y)) (Num (of_int m)) (Num (of_int d)) = Some (Num (of_int 45292)))"
proof -
  have r: "0 \<le> (45292::int)" "45292 \<le> max_serial" by (simp_all add: max_serial_def)
  show ?thesis using date_of_serial_parts [OF r] r by blast
qed

text \<open>The weekday of a day number; 1970-01-01 was a Thursday, and Monday is 1.\<close>

definition iso_weekday :: "int \<Rightarrow> int" where
  "iso_weekday unix = (unix + 3) mod 7 + 1"

text \<open>
  WEEKDAY is one day late.  For every serial after the fictional 29 February 1900, that is for all
  real dates from 1 March 1900 on, \<open>weekday_code\<close> with kind 2, which is to number Monday as 1, returns
  the number of the following weekday.
\<close>

theorem weekday_one_day_late:
  assumes "60 < s" "s \<le> max_serial"
  shows "\<exists>y m d. excel_parts (Num (of_int s)) = Some (y, m, d) \<and>
    weekday_code s 2 = Some (Num (of_int (iso_weekday (civil_to_unix y m d) mod 7 + 1)))"
proof -
  obtain y m d where p: "serial_parts s = (y, m, d)" by (cases "serial_parts s")
  have "(let day = s mod 7 in if day = 0 then 7 else day) = iso_weekday (s - 25569) mod 7 + 1"
    by (simp add: iso_weekday_def Let_def) presburger
  then have "weekday_code s 2 = Some (Num (of_int (iso_weekday (s - 25569) mod 7 + 1)))"
    using assms by (simp add: weekday_code_def)
  then show ?thesis using late_serials(2) [OF assms p] excel_parts_int [of s] p assms by auto
qed

theorem weekday_one_day_late_witness:
  "60 < (45292::int) \<and> 45292 \<le> max_serial \<and> (\<exists>y m d. excel_parts (Num (of_int 45292)) = Some (y, m, d) \<and>
    weekday_code 45292 2 = Some (Num (of_int (iso_weekday (civil_to_unix y m d) mod 7 + 1))))"
proof -
  have r: "60 < (45292::int)" "45292 \<le> max_serial" by (simp_all add: max_serial_def)
  show ?thesis using weekday_one_day_late [OF r] r by blast
qed


section \<open>Months\<close>

lemma trunc_Suc: "trunc (of_int m + 1) = m + 1"
  using trunc_of_int [of "m + 1"] by (simp del: trunc_of_int)

lemma excel_normalize_floor:
  fixes n :: int
  assumes "1900 \<le> y" "y \<le> 9999"
  defines "tot \<equiv> y * 12 + (n - 1)"
  shows "excel_normalize_month y n =
    (if 1900 \<le> tot div 12 \<and> tot div 12 \<le> 9999 then Some (tot div 12, tot mod 12 + 1) else None)"
proof -
  have z: "(if 0 \<le> n - 1 then (n - 1) sdiv 12 else (n - 1 - 11) sdiv 12) = (n - 1) div 12"
    using floor_era [of 12 "n - 1"] by (cases "0 \<le> n - 1") simp_all
  have "tot div 12 = y + (n - 1) div 12" "tot mod 12 = n - 1 - (n - 1) div 12 * 12"
    by (simp_all add: tot_def minus_div_mult_eq_mod)
  then show ?thesis using assms(1,2) unfolding excel_normalize_month_def Let_def z by simp
qed

lemma last_of_month:
  assumes "1 \<le> m" "m \<le> 12"
  shows "valid_date (y, m, month_days y m)"
    "civil_to_unix (if m < 12 then y else y + 1) (if m < 12 then m + 1 else 1) 1 = civil_to_unix y m (month_days y m) + 1"
proof -
  show v: "valid_date (y, m, month_days y m)" using assms by (auto simp: valid_date_def month_days_def)
  show "civil_to_unix (if m < 12 then y else y + 1) (if m < 12 then m + 1 else 1) 1 = civil_to_unix y m (month_days y m) + 1"
    using civil_next(1) [OF v] by (simp add: next_day_def split: if_splits)
qed

text \<open>
  The serial of a valid date after February 1900, and its parts.
\<close>

lemma serial_of_date:
  assumes v: "valid_date (y, m, d)" and y: "1900 \<le> y" "y \<le> 9999" "y = 1900 \<Longrightarrow> 3 \<le> m"
  shows "60 < date_serial y m d" "date_serial y m d \<le> max_serial" "serial_parts (date_serial y m d) = (y, m, d)"
    "date_serial y m d = civil_to_unix y m d + 25569"
proof -
  have "y \<noteq> 1900 \<or> 3 \<le> m" using y(3) by blast
  then have "1900 \<le> march_year y m" "march_year y m \<le> 9999" using y(1,2) by (auto simp: march_year_def)
  then have lo: "civil_to_unix 1900 3 1 \<le> civil_to_unix y m d"
    using before_mono [of 1900 "march_year y m"] civil_bounds(1) [OF v] day_table by linarith
  have hi: "civil_to_unix y m d \<le> 2932896"
  proof (cases "march_year y m = 9999")
    case True
    then have "y = 9999" "3 \<le> m" "m \<le> 12" using y v by (auto simp: march_year_def valid_date_def split: if_splits)
    then have "(153 * march_month m + 2) div 5 + month_days y m \<le> 306"
      using month_cases [of m] by (auto simp: march_month_def month_days_def)
    then show ?thesis using v True day_table by (simp add: civil_before valid_date_def)
  next
    case False
    then have "march_year y m + 1 \<le> 9999" using \<open>march_year y m \<le> 9999\<close> by simp
    then show ?thesis using before_mono [of "march_year y m + 1" 9999] civil_bounds(2) [OF v] day_table by linarith
  qed
  show s: "date_serial y m d = civil_to_unix y m d + 25569"
    using y(3) lo by (auto simp: date_serial_def Let_def civil_first_of_month day_table)
  show "60 < date_serial y m d" "date_serial y m d \<le> max_serial"
    using lo hi by (simp_all add: s day_table max_serial_def)
  then show "serial_parts (date_serial y m d) = (y, m, d)"
    using civil_roundtrip [OF v] by (simp add: s serial_parts_def day_table)
qed

text \<open>Here February 1900 has the 28 days of the calendar.  December 9999 has no length: the day after it has no serial.\<close>

lemma next_month:
  assumes "1900 \<le> y" "y \<le> 9999" "1 \<le> m" "m \<le> 12" "(y, m) \<noteq> (9999, 12)"
  shows "\<exists>y' m'. excel_normalize_month y (m + 1) = Some (y', m') \<and>
    civil_to_unix y' m' 1 = civil_to_unix y m (month_days y m) + 1"
proof (cases "m < 12")
  case True
  then show ?thesis using excel_normalize_month_id [of y "m + 1"] assms last_of_month(2) [of m y] by simp
next
  case False
  then have "m = 12" "y < 9999" using assms by auto
  then show ?thesis using excel_normalize_floor [of y 13] assms last_of_month(2) [of 12 y] by simp
qed

lemma month_length_calendar:
  assumes y: "1900 \<le> y" "y \<le> 9999" and m: "1 \<le> m" "m \<le> 12" and last: "(y, m) \<noteq> (9999, 12)" and r: "y = 1900 \<Longrightarrow> 3 \<le> m"
  shows "month_length y m = Some (month_days y m)"
proof -
  let ?d = "month_days y m"
  obtain y' m' where n: "excel_normalize_month y (m + 1) = Some (y', m')" "civil_to_unix y' m' 1 = civil_to_unix y m ?d + 1"
    using next_month [OF y m last] by blast
  note s = serial_of_date [OF last_of_month(1) [OF m, of y] y r]
  have pos: "1 \<le> ?d" by (simp add: month_days_def)
  have "civil_to_unix 1900 3 1 \<le> civil_to_unix y m ?d" using s(1,4) by (simp add: day_table)
  then have d: "date_serial y' m' 0 = date_serial y m ?d" using s(4) n(2) by (simp add: date_serial_def Let_def day_table)
  have "\<bar>of_int m + 1\<bar> < (1000000000::rat)" using m by simp
  moreover have "trunc 0 = 0" using trunc_of_int [of 0] by simp
  ultimately have "date_excel (Num (of_int y)) (Num (of_int m + 1)) (Num 0) = Some (Num (of_int (date_serial y m ?d)))"
    using n(1) y s(1,2) by (simp add: trunc_Suc Let_def not_le d)
  moreover have "excel_parts (Num (of_int (date_serial y m ?d))) = Some (y, m, ?d)"
    using excel_parts_int [of "date_serial y m ?d"] s by simp
  ultimately show ?thesis using pos by (simp add: month_length_def del: excel_parts.simps date_excel.simps)
qed

text \<open>
  EDATE and EOMONTH.  Moving the serial of a date by \<open>k\<close> months gives the serial of the date that many
  months later or earlier in the calendar, on the same day, or on the last day of the month when the
  month is shorter or the end of the month is asked for, as long as the target lies after February
  1900 and before December 9999.
\<close>

theorem shift_months_calendar:
  assumes s: "60 < s" "s \<le> max_serial" "serial_parts s = (y, m, d)" and k: "\<bar>k\<bar> \<le> 120000"
    and target: "y' = (y * 12 + (m - 1) + k) div 12" "m' = (y * 12 + (m - 1) + k) mod 12 + 1"
      "d' = (if end_of_month then month_days y' m' else min d (month_days y' m'))"
    and range: "1900 \<le> y'" "y' \<le> 9999" "(y', m') \<noteq> (9999, 12)" "y' = 1900 \<Longrightarrow> 3 \<le> m'"
  shows "\<exists>s'. shift_months (Num (of_int s)) (Num (of_int k)) end_of_month = Some (Num (of_int s')) \<and>
    valid_date (y', m', d') \<and> serial_parts s' = (y', m', d') \<and> s' = civil_to_unix y' m' d' + 25569"
proof -
  note p = late_serials [OF s]
  have m': "1 \<le> m'" "m' \<le> 12" using pos_mod_bound [of 12 "y * 12 + (m - 1) + k"] by (simp_all add: target)
  have n: "excel_normalize_month y (m + k) = Some (y', m')"
    using excel_normalize_floor [of y "m + k"] p(3,4) range by (simp add: target algebra_simps)
  have v: "valid_date (y', m', d')" using p(1) m' by (auto simp: target(3) valid_date_def month_days_def)
  then have d31: "\<bar>d'\<bar> \<le> 31" by (simp add: valid_date_def month_days_def split: if_splits)
  note s' = serial_of_date [OF v range(1,2,4)]
  have "date_excel (Num (of_int y')) (Num (of_int m')) (Num (of_int d')) = Some (Num (of_int (date_serial y' m' d')))"
    using date_excel_int [OF range(1,2) m', of d'] s'(1,2) d31 by (simp del: date_excel.simps)
  moreover have "\<bar>of_int k\<bar> \<le> (120000::rat)" "1 \<le> (of_int s :: rat)" "of_int s \<le> (of_int max_serial :: rat)"
    using k s by simp_all
  ultimately have "shift_months (Num (of_int s)) (Num (of_int k)) end_of_month = Some (Num (of_int (date_serial y' m' d')))"
    using excel_parts_int [of s] s n month_length_calendar [OF range(1,2) m' range(3,4)] target(3)
    by (simp add: not_le not_less del: excel_parts.simps date_excel.simps)
  then show ?thesis using s' v by blast
qed


theorem shift_months_calendar_witness:
  "\<exists>s'. shift_months (Num (of_int 43861)) (Num (of_int 1)) False = Some (Num (of_int s')) \<and>
    valid_date (2020, 2, 29) \<and> serial_parts s' = (2020, 2, 29) \<and> s' = civil_to_unix 2020 2 29 + 25569"
proof -
  have s: "60 < (43861::int)" "43861 \<le> max_serial" "serial_parts 43861 = (2020, 1, 31)" by code_simp+
  have t: "2020 = (2020 * 12 + (1 - 1) + 1) div (12::int)" "2 = (2020 * 12 + (1 - 1) + 1) mod 12 + (1::int)"
    "29 = (if False then month_days 2020 2 else min 31 (month_days 2020 2))" by code_simp+
  show ?thesis by (rule shift_months_calendar [OF s _ t]) simp_all
qed

section \<open>Working days\<close>

definition WEEKEND_SAT_SUN :: "bool list" where
  "WEEKEND_SAT_SUN = [False, False, False, False, False, True, True]"

definition weekday_mon0 :: "int \<Rightarrow> nat" where
  "weekday_mon0 serial = nat ((let day = serial mod 7 in if day = 0 then 7 else day) - 1)"

definition is_workday_serial :: "int \<Rightarrow> bool" where
  "is_workday_serial serial \<longleftrightarrow> \<not> WEEKEND_SAT_SUN ! weekday_mon0 serial"

definition holiday_hit :: "int \<Rightarrow> f64 list \<Rightarrow> bool" where
  "holiday_hit day holidays \<longleftrightarrow> (\<exists>h \<in> set holidays. trunc_i64 h = day)"

definition count_days :: "(int \<Rightarrow> bool) \<Rightarrow> int \<Rightarrow> int \<Rightarrow> int" where
  "count_days P a b = int (length (filter P [a..b]))"

fun networkdays_excel :: "f64 \<Rightarrow> f64 \<Rightarrow> f64 list \<Rightarrow> f64 option" where
  "networkdays_excel (Num start) (Num stop) holidays =
    (let a = trunc_i64 (Num start); b = trunc_i64 (Num stop);
         sign = (if a \<le> b then 1 else -1);
         (a, b) = (if b < a then (b, a) else (a, b))
     in if a < 0 \<or> max_serial < b \<or> 100000 < b - a then None
        else Some (Num (of_int (sign * count_days (\<lambda>day. is_workday_serial day \<and> \<not> holiday_hit day holidays) a b))))"
| "networkdays_excel _ _ _ = None"

text \<open>The loop of \<open>workday_excel\<close>; \<open>guard\<close> counts down the 20000 days it looks at.\<close>

fun workday_loop :: "(int \<Rightarrow> bool) \<Rightarrow> int \<Rightarrow> nat \<Rightarrow> nat \<Rightarrow> int \<Rightarrow> int option" where
  "workday_loop work step guard 0 day = Some day"
| "workday_loop work step 0 (Suc left) day = None"
| "workday_loop work step (Suc guard) (Suc left) day =
    (let day = day + step
     in if \<not> (0 \<le> day \<and> day \<le> max_serial) then None
        else workday_loop work step guard (if work day then left else Suc left) day)"

fun workday_excel :: "f64 \<Rightarrow> f64 \<Rightarrow> f64 list \<Rightarrow> bool list \<Rightarrow> f64 option" where
  "workday_excel (Num start) (Num days) holidays weekend =
    (if start < 0 \<or> of_int max_serial < start then None
     else let days = trunc days
          in if 10000 < \<bar>days\<bar> then None
             else if days = 0 then Some (Num (of_int (trunc start)))
             else map_option (\<lambda>day. Num (of_int day))
                    (workday_loop (\<lambda>day. \<not> weekend ! weekday_mon0 day \<and> \<not> holiday_hit day holidays)
                       (if 0 < days then 1 else -1) 20000 (nat \<bar>days\<bar>) (trunc start)))"
| "workday_excel _ _ _ _ = None"

lemma count_days_Suc: "a \<le> b \<Longrightarrow> count_days P a b = (if P a then 1 else 0) + count_days P (a + 1) b"
  by (simp add: count_days_def upto_rec1)

lemma workday_loop_up:
  assumes "workday_loop work 1 guard n day = Some r" "0 \<le> day"
  shows "day \<le> r \<and> r \<le> day + int guard \<and> (r \<le> max_serial \<or> r = day) \<and> count_days work (day + 1) r = int n \<and> (0 < n \<longrightarrow> work r)"
  using assms
proof (induction guard arbitrary: n day)
  case 0
  then show ?case by (cases n) (auto simp: count_days_def)
next
  case (Suc guard)
  show ?case
  proof (cases n)
    case 0
    then show ?thesis using Suc.prems by (auto simp: count_days_def)
  next
    case (Suc left)
    let ?n = "if work (day + 1) then left else n"
    have run: "workday_loop work 1 guard ?n (day + 1) = Some r" "day + 1 \<le> max_serial"
      using Suc.prems Suc by (auto simp: Let_def split: if_splits)
    note ih = Suc.IH [OF run(1)]
    have "count_days work (day + 1) r = int n" using ih Suc.prems(2) Suc by (auto simp: count_days_Suc split: if_splits)
    moreover have "work r"
      using ih Suc Suc.prems(2) run(1) by (cases "0 < ?n") (auto split: if_splits)
    ultimately show ?thesis using ih Suc.prems(2) run(2) by auto
  qed
qed

text \<open>
  WORKDAY and NETWORKDAYS agree.  If WORKDAY moves \<open>n\<close> working days forward from a serial, the
  result is a working day that is not a holiday, and NETWORKDAYS from the day after the start through
  the result counts exactly \<open>n\<close>.
\<close>

theorem workday_networkdays:
  assumes "0 < n" "0 \<le> s" "workday_excel (Num (of_int s)) (Num (of_int n)) holidays WEEKEND_SAT_SUN = Some (Num (of_int r))"
  shows "is_workday_serial r \<and> \<not> holiday_hit r holidays \<and>
    networkdays_excel (Num (of_int (s + 1))) (Num (of_int r)) holidays = Some (Num (of_int n))"
proof -
  let ?work = "\<lambda>day. is_workday_serial day \<and> \<not> holiday_hit day holidays"
  have s: "s \<le> max_serial" using assms(3) by (auto split: if_splits)
  have "workday_loop ?work 1 20000 (nat n) s = Some r"
    using assms by (auto simp: is_workday_serial_def Let_def split: if_splits)
  from workday_loop_up [OF this assms(2)]
  have r: "s \<le> r" "r \<le> s + 20000" "r \<le> max_serial" "count_days ?work (s + 1) r = n" "?work r"
    using assms(1) s by auto
  have "s < r"
    using r(1,4) assms(1) by (cases "r = s") (auto simp: count_days_def)
  then have "trunc_i64 (Num (of_int (s + 1))) = s + 1" "trunc_i64 (Num (of_int r)) = r"
    using r(3) s assms(2) trunc_of_int [of "s + 1"] by (simp_all add: clamp_i64_def max_serial_def)
  then show ?thesis using r \<open>s < r\<close> assms(2) by (simp add: Let_def del: trunc_i64.simps of_int_add)
qed

theorem workday_networkdays_witness:
  "0 < (5::int) \<and> 0 \<le> (1::int) \<and>
   workday_excel (Num (of_int 1)) (Num (of_int 5)) [Num 3] WEEKEND_SAT_SUN = Some (Num (of_int 9)) \<and>
   is_workday_serial 9 \<and> \<not> holiday_hit 9 [Num 3] \<and>
   networkdays_excel (Num (of_int (1 + 1))) (Num (of_int 9)) [Num 3] = Some (Num (of_int 5))"
proof -
  have w: "0 < (5::int)" "0 \<le> (1::int)"
    "workday_excel (Num (of_int 1)) (Num (of_int 5)) [Num 3] WEEKEND_SAT_SUN = Some (Num (of_int 9))"
    by (simp, simp, code_simp)
  show ?thesis using workday_networkdays [OF w] w by blast
qed

end
