(* ===== verification/Calc_Text.thy ===== *)
theory Calc_Text
  imports Unicode_Text Calc_Date
begin

text \<open>
  The text functions of the spreadsheet in \<open>src/crates/orchid-viewers/src/office/calc.rs\<close>: numbers in other
  bases (BASE, DECIMAL and the ten-place complement forms of the conversions BIN2DEC, DEC2HEX and so on),
  the wildcards of the criteria functions, and the searches of TEXTBEFORE, TEXTAFTER and TEXTSPLIT. Texts
  are lists of code points (\<open>ustring\<close>); numbers are the \<open>f64\<close> of theory Calc\_Date.
\<close>

section \<open>Number bases\<close>

definition base_digit :: "uchar \<Rightarrow> nat option" where
  "base_digit c =
    (if 48 \<le> c \<and> c \<le> 57 then Some (c - 48)
     else if 65 \<le> c \<and> c \<le> 90 then Some (c - 65 + 10)
     else if 97 \<le> c \<and> c \<le> 122 then Some (c - 97 + 10)
     else None)"

definition alphabet :: "nat \<Rightarrow> uchar" where
  "alphabet d = (if d < 10 then 48 + d else 55 + d)"

function digits :: "nat \<Rightarrow> nat \<Rightarrow> ustring" where
  "digits radix n = (if radix < 2 \<or> n = 0 then [] else digits radix (n div radix) @ [alphabet (n mod radix)])"
  by auto
termination by (relation "measure snd") auto

declare digits.simps [simp del]

definition format_base :: "nat \<Rightarrow> nat \<Rightarrow> nat option \<Rightarrow> ustring option" where
  "format_base number radix width =
    (if \<not> (2 \<le> radix \<and> radix \<le> 36) then None
     else let chars = (if number = 0 then [48] else digits radix number)
          in (case width of
                None \<Rightarrow> Some chars
              | Some w \<Rightarrow> if w < length chars then None else Some (replicate (w - length chars) 48 @ chars)))"

text \<open>The checked arithmetic of the parsers: a value of \<open>limit\<close> or more is refused.\<close>

fun read_digits :: "nat \<Rightarrow> nat \<Rightarrow> ustring \<Rightarrow> nat \<Rightarrow> nat option" where
  "read_digits radix limit [] value = Some value"
| "read_digits radix limit (c # cs) value =
    (case base_digit c of
       None \<Rightarrow> None
     | Some d \<Rightarrow>
         if radix \<le> d then None
         else if limit \<le> value * radix + d then None
         else read_digits radix limit cs (value * radix + d))"

fun places_width :: "int \<Rightarrow> int \<Rightarrow> f64 option \<Rightarrow> nat option option" where
  "places_width lo hi None = Some None"
| "places_width lo hi (Some (Num x)) = (if lo \<le> trunc x \<and> trunc x \<le> hi then Some (Some (nat (trunc x))) else None)"
| "places_width lo hi (Some _) = None"

text \<open>The largest value, \<open>(sign - 1) as f64\<close>: with more than 53 binary digits it rounds up to \<open>sign\<close>.\<close>

definition f64_below :: "int \<Rightarrow> nat \<Rightarrow> int" where
  "f64_below sign bits = (if 54 < bits then sign else sign - 1)"

fun complement_text :: "f64 \<Rightarrow> nat \<Rightarrow> nat \<Rightarrow> f64 option \<Rightarrow> ustring option" where
  "complement_text (Num x) radix bits places =
    (if bits = 0 \<or> 64 \<le> bits then None
     else let number = trunc x; sign = 2 ^ (bits - 1)
          in if number < - sign \<or> f64_below sign bits < number then None
             else (case places_width 1 10 places of
                     None \<Rightarrow> None
                   | Some width \<Rightarrow>
                       if number < 0 then
                         (if width \<noteq> None \<and> width \<noteq> Some 10 then None
                          else format_base (nat (number + 2 ^ bits)) radix (Some 10))
                       else format_base (nat number) radix width))"
| "complement_text _ _ _ _ = None"

definition from_complement :: "ustring \<Rightarrow> nat \<Rightarrow> nat \<Rightarrow> f64 option" where
  "from_complement s radix bits =
    (if s = [] \<or> 10 < length s \<or> bits = 0 \<or> 64 \<le> bits \<or> \<not> (2 \<le> radix \<and> radix \<le> 36) then None
     else (case read_digits radix (2 ^ 64) s 0 of
             None \<Rightarrow> None
           | Some value \<Rightarrow>
               if length s = 10 \<and> 2 ^ (bits - 1) \<le> value then Some (Num (of_int (int value - 2 ^ bits)))
               else if value < 2 ^ bits then Some (Num (of_nat value))
               else None))"

fun base_excel :: "f64 \<Rightarrow> f64 \<Rightarrow> f64 option \<Rightarrow> ustring option" where
  "base_excel (Num x) (Num r) min_length =
    (if x < 0 \<or> 2 ^ 53 \<le> x then None
     else if \<not> (2 \<le> trunc r \<and> trunc r \<le> 36) then None
     else (case places_width 0 255 min_length of
             None \<Rightarrow> None
           | Some width \<Rightarrow> format_base (nat (trunc x)) (nat (trunc r)) width))"
| "base_excel _ _ _ = None"

fun decimal_excel :: "ustring \<Rightarrow> f64 \<Rightarrow> f64 option" where
  "decimal_excel s (Num r) =
    (if s = [] \<or> 255 < length s then None
     else if \<not> (2 \<le> trunc r \<and> trunc r \<le> 36) then None
     else map_option (\<lambda>v. Num (of_nat v)) (read_digits (nat (trunc r)) (2 ^ 53) s 0))"
| "decimal_excel _ _ = None"

lemma base_digit_alphabet: "d < 36 \<Longrightarrow> base_digit (alphabet d) = Some d"
  by (auto simp: base_digit_def alphabet_def)

lemma read_digits_append:
  "read_digits r l (s @ t) v = (case read_digits r l s v of None \<Rightarrow> None | Some w \<Rightarrow> read_digits r l t w)"
  by (induction s arbitrary: v) (auto split: option.splits)

lemma read_digits_digits:
  assumes "2 \<le> r" "r \<le> 36" "n < l"
  shows "read_digits r l (digits r n) 0 = Some n"
  using assms
proof (induction r n rule: digits.induct)
  case (1 r n)
  show ?case
  proof (cases "n = 0")
    case True
    then show ?thesis using 1 by (simp add: digits.simps)
  next
    case False
    have "n div r < l" using 1(4) by (rule le_less_trans [OF div_le_dividend])
    then have "read_digits r l (digits r (n div r)) 0 = Some (n div r)" using 1 False by simp
    moreover have m: "n mod r < r" using 1(2) by simp
    moreover have "base_digit (alphabet (n mod r)) = Some (n mod r)"
      by (rule base_digit_alphabet) (rule less_le_trans [OF m 1(3)])
    ultimately show ?thesis using False 1(2-4) by (subst digits.simps) (simp add: read_digits_append not_le)
  qed
qed

lemma digits_Nil_iff: "digits r n = [] \<longleftrightarrow> r < 2 \<or> n = 0"
  by (subst digits.simps) simp

lemma read_digits_zeros: "0 < r \<Longrightarrow> 0 < l \<Longrightarrow> read_digits r l (replicate k 48) 0 = Some 0"
  by (induction k) (simp_all add: base_digit_def)

lemma read_format_base:
  assumes "format_base n r w = Some s" "n < l"
  shows "read_digits r l s 0 = Some n" "s \<noteq> []"
proof -
  have r: "2 \<le> r" "r \<le> 36" using assms(1) by (auto simp: format_base_def split: if_splits)
  let ?chars = "if n = 0 then [48] else digits r n"
  have c: "read_digits r l ?chars 0 = Some n" "?chars \<noteq> []"
    using r assms(2) read_digits_digits [OF r assms(2)] by (auto simp: base_digit_def digits_Nil_iff)
  have "\<exists>k. s = replicate k 48 @ ?chars" using assms(1) r
    by (auto simp: format_base_def Let_def split: option.splits if_splits intro: exI [of _ 0])
  then show "read_digits r l s 0 = Some n" "s \<noteq> []"
    using c r assms(2) by (auto simp: read_digits_append read_digits_zeros)
qed

lemma length_digits: "2 \<le> r \<Longrightarrow> n < r ^ k \<Longrightarrow> length (digits r n) \<le> k"
proof (induction k arbitrary: n)
  case 0
  then show ?case by (simp add: digits.simps)
next
  case (Suc k)
  have "n div r < r ^ k" using Suc.prems by (simp add: less_mult_imp_div_less mult.commute)
  then show ?case using Suc by (subst digits.simps) simp
qed

lemma length_format_Some: "format_base n r (Some k) = Some s \<Longrightarrow> length s = k"
  by (auto simp: format_base_def Let_def split: if_splits)

lemma length_format_None: "format_base n r None = Some s \<Longrightarrow> n < r ^ k \<Longrightarrow> 0 < k \<Longrightarrow> length s \<le> k"
  using length_digits [of r n k] by (auto simp: format_base_def Let_def split: if_splits)

lemma trunc_of_nat [simp]: "trunc (of_nat n) = int n"
  using trunc_of_int [of "int n"] by (simp del: trunc_of_int)

lemma places_widthD: "places_width lo hi p = Some (Some k) \<Longrightarrow> int k \<le> hi \<or> k = 0"
  by (cases "(lo, hi, p)" rule: places_width.cases) (auto split: if_splits)

text \<open>
  BASE and DECIMAL.  Whatever BASE writes for a number in a base from 2 through 36, with any minimum
  length, DECIMAL reads back as that number.
\<close>

theorem base_decimal_roundtrip:
  assumes "base_excel (Num (of_nat n)) (Num (of_nat r)) len = Some s"
  shows "decimal_excel s (Num (of_nat r)) = Some (Num (of_nat n))"
proof -
  obtain w where w: "places_width 0 255 len = Some w" "format_base n r w = Some s"
    and n: "(of_nat n :: rat) < 2 ^ 53" and r: "2 \<le> r" "r \<le> 36"
    using assms by (auto split: if_splits option.splits simp: not_le)
  have "(of_nat n :: rat) < of_nat (2 ^ 53)" using n by simp
  then have lim: "n < 2 ^ 53" by (simp only: of_nat_less_iff)
  have "length s \<le> 255"
  proof (cases w)
    case None
    have "(2::nat) ^ 53 \<le> r ^ 53" using r(1) by (rule power_mono) simp
    then show ?thesis using length_format_None [of n r s 53] w(2) None lim by simp
  next
    case (Some k)
    then show ?thesis using length_format_Some [of n r k s] w places_widthD by fastforce
  qed
  then show ?thesis using read_format_base [OF w(2) lim] r by simp
qed

theorem base_decimal_roundtrip_witness:
  "base_excel (Num (of_nat 255)) (Num (of_nat 16)) (Some (Num 4)) = Some [48, 48, 70, 70] \<and>
   decimal_excel [48, 48, 70, 70] (Num (of_nat 16)) = Some (Num (of_nat 255))"
proof -
  have b: "base_excel (Num (of_nat 255)) (Num (of_nat 16)) (Some (Num 4)) = Some [48, 48, 70, 70]" by code_simp
  show ?thesis using base_decimal_roundtrip [OF b] b by blast
qed

text \<open>
  Two's complement.  With \<open>bits\<close> bits in ten digits (binary 10, octal 30, hexadecimal 40), the text
  that DEC2BIN, DEC2OCT and DEC2HEX write for a number, negative ones included and with any number of
  places, is read back as that number.
\<close>

theorem complement_roundtrip:
  assumes ten: "radix ^ 10 = 2 ^ bits" and s: "complement_text (Num (of_int n)) radix bits places = Some s"
  shows "from_complement s radix bits = Some (Num (of_int n))"
proof -
  have b: "0 < bits" "bits < 64" and range0: "- (2 ^ (bits - 1)) \<le> n" "n \<le> f64_below (2 ^ (bits - 1)) bits"
    using s by (auto simp: Let_def split: if_splits)
  obtain w where w: "places_width 1 10 places = Some w"
    and f: "format_base (nat (if n < 0 then n + 2 ^ bits else n)) radix (if n < 0 then Some 10 else w) = Some s"
    using s by (auto simp: Let_def split: if_splits option.splits)
  let ?v = "nat (if n < 0 then n + 2 ^ bits else n)"
  have r: "2 \<le> radix" "radix \<le> 36" using f by (auto simp: format_base_def split: if_splits)
  have "(2::nat) ^ bits \<le> 36 ^ 10" using ten r(2) power_mono [of radix 36 10] by simp
  also have "(36::nat) ^ 10 \<le> 2 ^ 54" by simp
  finally have "bits \<le> 54" by (simp only: power_increasing_iff one_less_numeral_iff semiring_norm)
  then have range: "- (2 ^ (bits - 1)) \<le> n" "n < 2 ^ (bits - 1)" using range0 by (auto simp: f64_below_def)
  have full: "2 ^ bits = 2 * (2::int) ^ (bits - 1)" using b by (metis One_nat_def Suc_pred power_Suc)
  then have v: "int ?v = (if n < 0 then n + 2 ^ bits else n)" "?v < 2 ^ bits"
    using range by (auto simp: nat_less_iff)
  have "(2::nat) ^ bits \<le> 2 ^ 64" using b by (intro power_increasing) auto
  then have "?v < 2 ^ 64" using v(2) by linarith
  note read = read_format_base [OF f this]
  have len: "length s \<le> 10" "n < 0 \<Longrightarrow> length s = 10"
  proof -
    show "n < 0 \<Longrightarrow> length s = 10" using f length_format_Some by auto
    have "length s = k" "k \<le> 10" if "\<not> n < 0" "w = Some k" for k
      using that f w length_format_Some places_widthD [of 1 10 places k] by auto
    moreover have "length s \<le> 10" if "\<not> n < 0" "w = None"
      using that f length_format_None [of ?v radix s 10] v(2) ten by simp
    ultimately show "length s \<le> 10" using f length_format_Some by (cases "n < 0"; cases w) auto
  qed
  have sgn: "2 ^ (bits - 1) \<le> ?v \<longleftrightarrow> n < 0"
    using v(1) range full by (cases "n < 0") (auto simp: nat_le_iff le_nat_iff)
  show ?thesis
    using read len r b v sgn by (auto simp: from_complement_def)
qed


theorem complement_roundtrip_witness:
  "(2::nat) ^ 10 = 2 ^ 10 \<and> complement_text (Num (of_int (-2))) 2 10 None = Some [49, 49, 49, 49, 49, 49, 49, 49, 49, 48] \<and>
   from_complement [49, 49, 49, 49, 49, 49, 49, 49, 49, 48] 2 10 = Some (Num (of_int (-2)))"
proof -
  have c: "complement_text (Num (of_int (-2))) 2 10 None = Some [49, 49, 49, 49, 49, 49, 49, 49, 49, 48]" by code_simp
  show ?thesis using complement_roundtrip [OF refl c] c by blast
qed

section \<open>Wildcards\<close>

definition eq_ignore_case :: "uchar \<Rightarrow> uchar \<Rightarrow> bool" where
  "eq_ignore_case a b \<longleftrightarrow> ascii_lower a = ascii_lower b"

function wildcard_match :: "ustring \<Rightarrow> ustring \<Rightarrow> bool" where
  "wildcard_match pat s =
    (case pat of
       [] \<Rightarrow> s = []
     | c # p \<Rightarrow>
         if c = 126 then
           (case (p, s) of
              (c' # p', d # s') \<Rightarrow> eq_ignore_case c' d \<and> wildcard_match p' s'
            | _ \<Rightarrow> False)
         else if c = 63 then (case s of d # s' \<Rightarrow> wildcard_match p s' | [] \<Rightarrow> False)
         else if c = 42 then
           (let rest = dropWhile (\<lambda>x. x = 42) p
            in rest = [] \<or> list_ex (\<lambda>start. wildcard_match rest (drop start s)) [0..<Suc (length s)])
         else (case s of d # s' \<Rightarrow> eq_ignore_case c d \<and> wildcard_match p s' | [] \<Rightarrow> False))"
  by auto
termination
  by (relation "measure (\<lambda>(p, s). length p)") (auto simp: less_Suc_eq_le length_dropWhile_le)

declare wildcard_match.simps [simp del]

definition text_pattern :: "ustring \<Rightarrow> ustring \<Rightarrow> bool" where
  "text_pattern pat s \<longleftrightarrow>
    (if \<not> list_ex (\<lambda>c. c = 42 \<or> c = 63 \<or> c = 126) pat then list_all2 eq_ignore_case pat s
     else if 64 < length pat \<or> 256 < length s then False
     else wildcard_match pat s)"

text \<open>What a pattern means.\<close>

inductive glob :: "ustring \<Rightarrow> ustring \<Rightarrow> bool" where
  glob_end: "glob [] []"
| glob_char: "c \<notin> {42, 63, 126} \<Longrightarrow> eq_ignore_case c d \<Longrightarrow> glob p s \<Longrightarrow> glob (c # p) (d # s)"
| glob_escaped: "eq_ignore_case c d \<Longrightarrow> glob p s \<Longrightarrow> glob (126 # c # p) (d # s)"
| glob_any: "glob p s \<Longrightarrow> glob (63 # p) (d # s)"
| glob_star: "glob p s \<Longrightarrow> glob (42 # p) (t @ s)"

inductive_simps glob_Cons: "glob [] s" "glob (63 # p) s" "glob (126 # p) s" "glob (c # p) s"

lemma glob_simps:
  "glob [] s \<longleftrightarrow> s = []"
  "c \<notin> {42, 63, 126} \<Longrightarrow> glob (c # p) s \<longleftrightarrow> (\<exists>d s'. s = d # s' \<and> eq_ignore_case c d \<and> glob p s')"
  "glob (63 # p) s \<longleftrightarrow> (\<exists>d s'. s = d # s' \<and> glob p s')"
  "glob (126 # p) s \<longleftrightarrow> (\<exists>c p' d s'. p = c # p' \<and> s = d # s' \<and> eq_ignore_case c d \<and> glob p' s')"
  by (simp_all add: glob_Cons) blast+

lemma wildcard_simps:
  "wildcard_match [] s \<longleftrightarrow> s = []"
  "c \<notin> {42, 63, 126} \<Longrightarrow>
    wildcard_match (c # p) s \<longleftrightarrow> (\<exists>d s'. s = d # s' \<and> eq_ignore_case c d \<and> wildcard_match p s')"
  "wildcard_match (63 # p) s \<longleftrightarrow> (\<exists>d s'. s = d # s' \<and> wildcard_match p s')"
  "wildcard_match (126 # p) s \<longleftrightarrow>
    (\<exists>c p' d s'. p = c # p' \<and> s = d # s' \<and> eq_ignore_case c d \<and> wildcard_match p' s')"
  "wildcard_match (42 # p) s \<longleftrightarrow>
    (let rest = dropWhile (\<lambda>x. x = 42) p in rest = [] \<or> (\<exists>k \<le> length s. wildcard_match rest (drop k s)))"
  by (subst wildcard_match.simps; auto simp: Let_def list_ex_iff less_Suc_eq_le simp del: upt_Suc split: list.splits)+

lemma glob_stars: "glob (42 # p) s \<longleftrightarrow> (\<exists>k \<le> length s. glob p (drop k s))"
proof
  assume "glob (42 # p) s"
  then obtain t u where "s = t @ u" "glob p u" by (cases rule: glob.cases) auto
  then show "\<exists>k \<le> length s. glob p (drop k s)" by (intro exI [of _ "length t"]) simp
next
  assume "\<exists>k \<le> length s. glob p (drop k s)"
  then obtain k where "glob p (drop k s)" by blast
  then show "glob (42 # p) s" using glob_star [of p "drop k s" "take k s"] by simp
qed

lemma glob_star_star: "glob (42 # 42 # p) s \<longleftrightarrow> glob (42 # p) s"
proof
  assume "glob (42 # 42 # p) s"
  then obtain t u v where "s = t @ u @ v" "glob p v"
    by (metis glob_stars append_take_drop_id)
  then show "glob (42 # p) s" using glob_star [of p v "t @ u"] by simp
next
  assume "glob (42 # p) s"
  then show "glob (42 # 42 # p) s" using glob_star [of "42 # p" s "[]"] by simp
qed

lemma glob_dropWhile: "glob (42 # dropWhile (\<lambda>x. x = 42) p) s \<longleftrightarrow> glob (42 # p) s"
  by (induction p) (auto simp: glob_star_star)

lemma glob_only_star: "glob [42] s"
  using glob_star [OF glob_end, of s] by simp

lemma wildcard_match_glob: "wildcard_match pat s \<longleftrightarrow> glob pat s"
proof (induction pat arbitrary: s rule: length_induct)
  case (1 pat)
  then have ih: "length p < length pat \<Longrightarrow> wildcard_match p s \<longleftrightarrow> glob p s" for p s by blast
  show ?case
  proof (cases pat)
    case Nil
    then show ?thesis by (simp add: wildcard_simps glob_simps)
  next
    case (Cons c p)
    let ?rest = "dropWhile (\<lambda>x. x = 42) p"
    have rest: "length ?rest < length pat" using Cons by (simp add: less_Suc_eq_le length_dropWhile_le)
    consider "c = 126" | "c = 63" | "c = 42" | "c \<notin> {42, 63, 126}" by blast
    then show ?thesis
    proof cases
      case 3
      have "wildcard_match pat s \<longleftrightarrow> ?rest = [] \<or> glob (42 # ?rest) s"
        using Cons 3 ih [OF rest] by (simp add: wildcard_simps glob_stars Let_def)
      also have "\<dots> \<longleftrightarrow> glob (42 # ?rest) s" using glob_only_star [of s] by (auto simp del: dropWhile_eq_Nil_conv)
      finally show ?thesis using Cons 3 by (simp add: glob_dropWhile)
    next
      case 1
      then show ?thesis using Cons ih by (auto simp: wildcard_simps glob_simps)
    next
      case 2
      then show ?thesis using Cons ih by (auto simp: wildcard_simps glob_simps)
    next
      case 4
      then show ?thesis using Cons ih by (simp add: wildcard_simps glob_simps)
    qed
  qed
qed

text \<open>
  Wildcards.  For patterns of at most 64 and texts of at most 256 characters, \<open>text_pattern\<close> decides the
  relation \<open>glob\<close>: a star stands for any text, a question mark for one character, a tilde makes the next
  character stand for itself, and letters match without regard to ASCII case.
\<close>

theorem text_pattern_glob:
  assumes "length pat \<le> 64" "length s \<le> 256"
  shows "text_pattern pat s \<longleftrightarrow> glob pat s"
proof (cases "list_ex (\<lambda>c. c = 42 \<or> c = 63 \<or> c = 126) pat")
  case True
  then show ?thesis using assms by (simp add: text_pattern_def wildcard_match_glob)
next
  case False
  then have "list_all2 eq_ignore_case pat s \<longleftrightarrow> glob pat s"
  proof (induction pat arbitrary: s)
    case (Cons c p)
    then have "c \<notin> {42, 63, 126}" by auto
    then show ?case using Cons by (auto simp: glob_simps list_all2_Cons1)
  qed (simp add: glob_simps)
  then show ?thesis using False by (simp add: text_pattern_def)
qed

theorem text_pattern_glob_witness:
  "length [97::nat, 42, 63] \<le> 64 \<and> length [65::nat, 98, 99] \<le> 256 \<and> text_pattern [97, 42, 63] [65, 98, 99] \<and>
   glob [97, 42, 63] [65, 98, 99]"
proof -
  have l: "length [97::nat, 42, 63] \<le> 64" "length [65::nat, 98, 99] \<le> 256" by simp_all
  have "glob [63] [99]" using glob_any [OF glob_end] by simp
  then have "glob [42, 63] ([98] @ [99])" by (rule glob_star)
  then have "glob [97, 42, 63] [65, 98, 99]" using glob_char [of 97 65 "[42, 63]" "[98, 99]"] by (simp add: eq_ignore_case_def ascii_lower_def)
  then show ?thesis using text_pattern_glob [OF l] l by blast
qed


section \<open>Delimiters\<close>

text \<open>The searches of TEXTBEFORE, TEXTAFTER and TEXTSPLIT; \<open>index\<close> moves on by one, or past a delimiter found.\<close>

definition here :: "ustring \<Rightarrow> ustring \<Rightarrow> nat \<Rightarrow> bool" where
  "here chars delim index \<longleftrightarrow> take (length delim) (drop index chars) = delim"

lemma past_delimiter: "delim \<noteq> [] \<Longrightarrow> \<not> n < index + length delim \<Longrightarrow> Suc n - (index + length delim) < Suc n - index"
  by (cases delim) auto

function find_loop :: "ustring \<Rightarrow> ustring \<Rightarrow> nat \<Rightarrow> nat \<Rightarrow> nat \<Rightarrow> nat option" where
  "find_loop chars delim instance_no found index =
    (if delim = [] \<or> length chars < index + length delim then None
     else if here chars delim index then
       (if found + 1 = instance_no then Some index else find_loop chars delim instance_no (found + 1) (index + length delim))
     else find_loop chars delim instance_no found (index + 1))"
  by auto
termination by (relation "measure (\<lambda>(chars, delim, k, found, index). Suc (length chars) - index)") (auto intro: past_delimiter simp del: diff_is_0_eq)

definition find_delim :: "ustring \<Rightarrow> ustring \<Rightarrow> nat \<Rightarrow> nat option" where
  "find_delim chars delim instance_no =
    (if delim = [] \<or> instance_no = 0 \<or> 16 < instance_no \<or> 1024 < length chars \<or> 64 < length delim then None
     else find_loop chars delim instance_no 0 0)"

definition text_before :: "ustring \<Rightarrow> ustring \<Rightarrow> nat \<Rightarrow> ustring option" where
  "text_before s delim k = map_option (\<lambda>pos. take pos s) (find_delim s delim k)"

definition text_after :: "ustring \<Rightarrow> ustring \<Rightarrow> nat \<Rightarrow> ustring option" where
  "text_after s delim k = map_option (\<lambda>pos. drop (pos + length delim) s) (find_delim s delim k)"

function split_loop :: "ustring \<Rightarrow> ustring \<Rightarrow> nat \<Rightarrow> nat \<Rightarrow> ustring list \<Rightarrow> ustring list option" where
  "split_loop chars delim start index parts =
    (if delim = [] \<or> length chars < index + length delim then Some (parts @ [drop start chars])
     else if here chars delim index then
       (let parts = parts @ [bslice start index chars]
        in if 16 < length parts then None
           else split_loop chars delim (index + length delim) (index + length delim) parts)
     else split_loop chars delim start (index + 1) parts)"
  by auto
termination by (relation "measure (\<lambda>(chars, delim, start, index, parts). Suc (length chars) - index)") (auto intro: past_delimiter simp del: diff_is_0_eq)

definition split_column :: "ustring \<Rightarrow> ustring \<Rightarrow> ustring list option" where
  "split_column s delim =
    (if delim = [] \<or> 1024 < length s \<or> 64 < length delim then None
     else (case split_loop s delim 0 0 [] of
             None \<Rightarrow> None
           | Some parts \<Rightarrow> if parts = [] \<or> 16 < length parts then None else Some parts))"

declare find_loop.simps [simp del] split_loop.simps [simp del]

fun join_parts :: "ustring \<Rightarrow> ustring list \<Rightarrow> ustring" where
  "join_parts delim [] = []"
| "join_parts delim [p] = p"
| "join_parts delim (p # ps) = p @ delim @ join_parts delim ps"

definition contains :: "ustring \<Rightarrow> ustring \<Rightarrow> bool" where
  "contains delim s \<longleftrightarrow> (\<exists>k. k + length delim \<le> length s \<and> here s delim k)"

lemma here_cut: "here chars delim index \<Longrightarrow> drop index chars = delim @ drop (index + length delim) chars"
  unfolding here_def by (metis append_take_drop_id drop_drop add.commute)

lemma join_parts_snoc: "join_parts delim (ps @ [q]) = (if ps = [] then q else join_parts delim ps @ delim @ q)"
  by (induction delim ps rule: join_parts.induct) auto

lemma find_loop_found:
  "find_loop chars delim k found index = Some p \<Longrightarrow> index \<le> p \<and> here chars delim p \<and> p + length delim \<le> length chars"
proof (induction chars delim k found index rule: find_loop.induct)
  case (1 chars delim k found index)
  show ?case
  proof (cases "delim = [] \<or> length chars < index + length delim")
    case True
    then show ?thesis using 1(3) by (simp add: find_loop.simps)
  next
    case False
    show ?thesis
    proof (cases "here chars delim index")
      case True
      show ?thesis
      proof (cases "found + 1 = k")
        case found: True
        have "find_loop chars delim k found index = Some index"
          using False True found by (subst find_loop.simps) simp
        then show ?thesis using 1(3) False True by simp
      next
        case found: False
        have "find_loop chars delim k found index = find_loop chars delim k (found + 1) (index + length delim)"
          using False True found by (subst find_loop.simps) simp
        then show ?thesis using 1(1) [OF False True found] 1(3) by auto
      qed
    next
      case no: False
      have "find_loop chars delim k found index = find_loop chars delim k found (index + 1)"
        using False no by (subst find_loop.simps) simp
      then show ?thesis using 1(2) [OF False no] 1(3) by auto
    qed
  qed
qed

lemma contains_bslice:
  assumes "contains delim (bslice start index chars)" "start \<le> index" "index \<le> length chars"
  shows "\<exists>k. start \<le> k \<and> k + length delim \<le> index \<and> here chars delim k"
proof -
  obtain j where j: "j + length delim \<le> index - start" "take (length delim) (drop j (bslice start index chars)) = delim"
    using assms by (auto simp: contains_def here_def)
  have "drop j (bslice start index chars) = take (index - start - j) (drop (start + j) chars)"
    by (simp add: bslice_def drop_take add.commute)
  moreover have "min (length delim) (index - start - j) = length delim" using j(1) by simp
  ultimately have "here chars delim (start + j)" using j(2) by (simp add: here_def)
  then show ?thesis using j(1) assms(2) by (intro exI [of _ "start + j"]) simp
qed

lemma split_loop_parts:
  assumes "split_loop chars delim start index parts = Some ps" "delim \<noteq> []" "start \<le> index" "index \<le> length chars"
    and "\<And>k. start \<le> k \<Longrightarrow> k < index \<Longrightarrow> k + length delim \<le> length chars \<Longrightarrow> \<not> here chars delim k"
    and "\<forall>q \<in> set parts. \<not> contains delim q"
  shows "join_parts delim ps = join_parts delim (parts @ [drop start chars]) \<and> (\<forall>q \<in> set ps. \<not> contains delim q) \<and> ps \<noteq> []"
  using assms
proof (induction chars delim start index parts rule: split_loop.induct)
  case (1 chars delim start index parts)
  note prems = 1(3-8)
  show ?case
  proof (cases "length chars < index + length delim")
    case True
    have "\<not> contains delim (drop start chars)"
    proof
      assume "contains delim (drop start chars)"
      then have "contains delim (bslice start (length chars) chars)" by (simp add: bslice_def)
      then obtain k where "start \<le> k" "k + length delim \<le> length chars" "here chars delim k"
        using contains_bslice [of delim start "length chars" chars] prems(3,4) by auto
      then show False using prems(5) [of k] True by auto
    qed
    moreover have "ps = parts @ [drop start chars]" using prems(1) True by (simp add: split_loop.simps)
    ultimately show ?thesis using prems(6) by auto
  next
    case False
    show ?thesis
    proof (cases "here chars delim index")
      case True
      let ?parts = "parts @ [bslice start index chars]"
      have run: "split_loop chars delim (index + length delim) (index + length delim) ?parts = Some ps"
        and few: "\<not> 16 < length ?parts"
        using prems(1,2) False True by (subst (asm) split_loop.simps, simp add: Let_def split: if_splits)+
      have clean: "\<not> contains delim (bslice start index chars)"
      proof
        assume "contains delim (bslice start index chars)"
        then obtain k where k: "start \<le> k" "k + length delim \<le> index" "here chars delim k"
          using contains_bslice [OF _ prems(3,4)] by blast
        moreover have "0 < length delim" using prems(2) by simp
        ultimately show False using prems(4) prems(5) [of k] by linarith
      qed
      have ih: "join_parts delim ps = join_parts delim (?parts @ [drop (index + length delim) chars]) \<and>
          (\<forall>q \<in> set ps. \<not> contains delim q) \<and> ps \<noteq> []"
      proof (rule 1(1) [OF _ True refl few run prems(2)])
        show "\<not> (delim = [] \<or> length chars < index + length delim)" using False prems(2) by simp
        show "index + length delim \<le> length chars" using False by simp
        show "\<forall>q \<in> set ?parts. \<not> contains delim q" using prems(6) clean by simp
      qed auto
      have "drop start chars = bslice start index chars @ delim @ drop (index + length delim) chars"
        using here_cut [OF True] prems(3) by (simp add: bslice_def) (metis append_take_drop_id drop_drop le_add_diff_inverse2)
      then have "join_parts delim (?parts @ [drop (index + length delim) chars]) = join_parts delim (parts @ [drop start chars])"
        by (simp add: join_parts_snoc del: append_assoc)
      then show ?thesis using ih by simp
    next
      case no: False
      have run: "split_loop chars delim start (index + 1) parts = Some ps"
        using prems(1,2) False no by (subst (asm) split_loop.simps) simp
      have "Suc index \<le> length chars" using False prems(2) by (cases delim) auto
      moreover have "\<not> here chars delim k" if "start \<le> k" "k < index + 1" "k + length delim \<le> length chars" for k
        using that prems(5) [of k] no by (cases "k = index") auto
      ultimately show ?thesis using 1(2) [OF _ no run prems(2)] False prems(2,3,6) by auto
    qed
  qed
qed

text \<open>
  TEXTSPLIT cuts a text at every delimiter and nowhere else: joined by the delimiter, the pieces are
  the text again, no piece contains the delimiter, and there are between 1 and 16 of them.
\<close>

theorem split_column_join:
  assumes "split_column s delim = Some ps"
  shows "join_parts delim ps = s \<and> (\<forall>q \<in> set ps. \<not> contains delim q) \<and> ps \<noteq> [] \<and> length ps \<le> 16"
proof -
  have "split_loop s delim 0 0 [] = Some ps" "delim \<noteq> []" "length ps \<le> 16"
    using assms by (auto simp: split_column_def split: if_splits option.splits)
  then show ?thesis using split_loop_parts [of s delim 0 0 "[]" ps] by simp
qed

theorem split_column_join_witness:
  "split_column [97, 44, 44, 98] [44] = Some [[97], [], [98]] \<and>
   join_parts [44] [[97], [], [98]] = [97, 44, 44, 98] \<and> (\<forall>q \<in> set [[97], [], [98]]. \<not> contains [44] q) \<and>
   [[97], [], [98]] \<noteq> ([]::nat list list) \<and> length [[97], [], [98::nat]] \<le> 16"
proof -
  have s: "split_column [97, 44, 44, 98] [44] = Some [[97], [], [98]]" by code_simp
  show ?thesis using split_column_join [OF s] s by blast
qed

text \<open>
  TEXTBEFORE and TEXTAFTER with the same delimiter and instance fail together, and otherwise the
  text is the first, the delimiter and the second.
\<close>

theorem text_before_after:
  "(case text_before s delim k of
      Some b \<Rightarrow> (\<exists>a. text_after s delim k = Some a \<and> s = b @ delim @ a)
    | None \<Rightarrow> text_after s delim k = None)"
proof (cases "find_delim s delim k")
  case (Some p)
  then have "here s delim p" using find_loop_found by (auto simp: find_delim_def split: if_splits)
  then have "s = take p s @ delim @ drop (p + length delim) s" using here_cut append_take_drop_id by metis
  then show ?thesis using Some by (simp add: text_before_def text_after_def)
qed (simp add: text_before_def text_after_def)

end
