(* ===== verification/Calc_Ref.thy ===== *)
theory Calc_Ref
  imports Calc_Text
begin

text \<open>
  Cell references of the spreadsheet (\<open>src/crates/orchid-viewers/src/office/calc.rs\<close>): column names, addresses, the
  relative shift of the formulas that share one text, the ranges that \<open>TAKE\<close>, \<open>DROP\<close> and the \<open>CHOOSE\<close> functions cut
  out of a block, and the placing of a result that spills over several cells.  The parsers run over the rest of the
  text instead of an index into it; \<open>consumed\<close> is how far they come.
\<close>

section \<open>Addresses\<close>

fun is_cell_address_loop :: "nat \<Rightarrow> nat \<Rightarrow> ustring \<Rightarrow> bool" where
  "is_cell_address_loop nl nd [] \<longleftrightarrow> 0 < nl \<and> 0 < nd"
| "is_cell_address_loop nl nd (c # s) \<longleftrightarrow>
    (if is_ascii_alphabetic c then
       if 0 < nd \<or> 3 \<le> nl then False else is_cell_address_loop (nl + 1) nd s
     else if is_ascii_digit c then
       if nl = 0 \<or> 7 \<le> nd then False else is_cell_address_loop nl (nd + 1) s
     else False)"

definition is_cell_address :: "ustring \<Rightarrow> bool" where
  "is_cell_address s = is_cell_address_loop 0 0 s"

text \<open>\<open>column_index\<close> computes on \<open>u32\<close> and gives up on overflow.\<close>

fun column_loop :: "nat \<Rightarrow> ustring \<Rightarrow> nat option" where
  "column_loop value [] = Some value"
| "column_loop value (c # s) =
    (if \<not> is_ascii_alphabetic c then None
     else if 2 ^ 32 \<le> value * 26 then None
     else if 2 ^ 32 \<le> value * 26 + (ascii_upper c - 65 + 1) then None
     else column_loop (value * 26 + (ascii_upper c - 65 + 1)) s)"

definition column_index :: "ustring \<Rightarrow> nat option" where
  "column_index letters = column_loop 0 letters"

fun column_name :: "nat \<Rightarrow> ustring" where
  "column_name 0 = []"
| "column_name (Suc n) = column_name (n div 26) @ [65 + n mod 26]"

text \<open>\<open>str::parse::<u32>\<close> on a text that starts with a digit.\<close>

definition parse_u32 :: "ustring \<Rightarrow> nat option" where
  "parse_u32 s =
    (if s = [] \<or> \<not> list_all is_ascii_digit s \<or> 2 ^ 32 \<le> digits_value s then None else Some (digits_value s))"

definition split_address :: "ustring \<Rightarrow> (nat \<times> nat) option" where
  "split_address s =
    (let letters = takeWhile (\<lambda>c. \<not> is_ascii_digit c) s;
         rest = dropWhile (\<lambda>c. \<not> is_ascii_digit c) s
     in if rest = [] then None
        else case column_index letters of
          None \<Rightarrow> None
        | Some col \<Rightarrow> map_option (\<lambda>row. (col, row)) (parse_u32 rest))"

definition shift_address :: "ustring \<Rightarrow> nat \<Rightarrow> nat \<Rightarrow> ustring option" where
  "shift_address address down right =
    (case split_address address of
       None \<Rightarrow> None
     | Some (col, row) \<Rightarrow>
         if 2 ^ 32 \<le> col + right then None
         else if 2 ^ 32 \<le> row + down then None
         else if row + down = 0 \<or> 9999999 < row + down then None
         else let name = column_name (col + right)
              in if 3 < length name \<or> name = [] then None else Some (name @ nat_text (row + down)))"

definition cells_in_range :: "ustring \<Rightarrow> ustring \<Rightarrow> ustring list option" where
  "cells_in_range start end =
    (case (split_address start, split_address end) of
       (Some (ca, ra), Some (cb, rb)) \<Rightarrow>
         let c1 = min ca cb; c2 = max ca cb; r1 = min ra rb; r2 = max ra rb
         in if 4096 < (c2 - c1 + 1) * (r2 - r1 + 1) then None
            else Some (concat (map (\<lambda>row. map (\<lambda>col. column_name col @ nat_text row) [c1..<Suc c2]) [r1..<Suc r2]))
     | _ \<Rightarrow> None)"

definition shift_index :: "nat \<Rightarrow> int \<Rightarrow> nat \<Rightarrow> nat option" where
  "shift_index base delta mx =
    (let nxt = int base + delta in if nxt < 1 \<or> int mx < nxt then None else Some (nat nxt))"

section \<open>Relative references\<close>

record CellRefParts =
  consumed :: nat
  col_abs :: bool
  ref_col :: nat
  row_abs :: bool
  ref_row :: nat

definition is_ascii_alphanumeric :: "uchar \<Rightarrow> bool" where
  "is_ascii_alphanumeric c \<longleftrightarrow> is_ascii_alphabetic c \<or> is_ascii_digit c"

definition next_is :: "(uchar \<Rightarrow> bool) \<Rightarrow> ustring \<Rightarrow> bool" where
  "next_is P s \<longleftrightarrow> (case s of c # _ \<Rightarrow> P c | [] \<Rightarrow> False)"

fun strip_dollar :: "ustring \<Rightarrow> bool \<times> ustring" where
  "strip_dollar (c # s) = (if c = 36 then (True, s) else (False, c # s))"
| "strip_dollar [] = (False, [])"

text \<open>At most \<open>n\<close> characters with the property, and the rest.\<close>

definition span_max :: "nat \<Rightarrow> (uchar \<Rightarrow> bool) \<Rightarrow> ustring \<Rightarrow> ustring \<times> ustring" where
  "span_max n P s = (let w = take n (takeWhile P s) in (w, drop (length w) s))"

definition parse_cell_ref :: "ustring \<Rightarrow> CellRefParts option" where
  "parse_cell_ref s =
    (case strip_dollar s of (cabs, s1) \<Rightarrow>
     case span_max 3 is_ascii_alphabetic s1 of (letters, s2) \<Rightarrow>
       if letters = [] \<or> next_is is_ascii_alphabetic s2 then None
       else
         case strip_dollar s2 of (rabs, s3) \<Rightarrow>
         case span_max 7 is_ascii_digit s3 of (ds, s4) \<Rightarrow>
           if ds = [] \<or> next_is is_ascii_alphanumeric s4 then None
           else case parse_u32 ds of
             None \<Rightarrow> None
           | Some row \<Rightarrow>
               if row = 0 then None
               else map_option (\<lambda>col. \<lparr>consumed = length s - length s4, col_abs = cabs, ref_col = col, row_abs = rabs, ref_row = row\<rparr>)
                 (column_index letters))"

definition shift_cell_ref :: "CellRefParts \<Rightarrow> int \<Rightarrow> int \<Rightarrow> ustring option" where
  "shift_cell_ref r dcol drow =
    (let ncol = int (ref_col r) + dcol; nrow = int (ref_row r) + drow
     in if \<not> col_abs r \<and> \<not> (1 \<le> ncol \<and> ncol \<le> 16384) then None
        else if \<not> row_abs r \<and> \<not> (1 \<le> nrow \<and> nrow \<le> 9999999) then None
        else Some ((if col_abs r then [36] else []) @ column_name (if col_abs r then ref_col r else nat ncol) @
                   (if row_abs r then [36] else []) @ nat_text (if row_abs r then ref_row r else nat nrow)))"

definition word_char :: "uchar \<Rightarrow> bool" where
  "word_char c \<longleftrightarrow> is_ascii_alphanumeric c \<or> c = 95 \<or> c = 46"

text \<open>A reference at the start of the text, with the name of a sheet before it or not.\<close>

definition sheet_prefix :: "ustring \<Rightarrow> ustring" where
  "sheet_prefix s =
    (let word = takeWhile word_char s
     in if next_is (\<lambda>c. is_ascii_alphabetic c \<or> c = 95) s \<and> next_is (\<lambda>c. c = 33) (drop (length word) s)
        then word @ [33] else [])"

definition shift_ref_at :: "ustring \<Rightarrow> int \<Rightarrow> int \<Rightarrow> (nat \<times> ustring option) option" where
  "shift_ref_at s dcol drow =
    (case parse_cell_ref (drop (length (sheet_prefix s)) s) of
       None \<Rightarrow> None
     | Some r \<Rightarrow> Some (length (sheet_prefix s) + consumed r, map_option ((@) (sheet_prefix s)) (shift_cell_ref r dcol drow)))"

text \<open>The rest of a quoted text, in which a doubled quote stands for one, and what follows it.\<close>

fun copy_quoted :: "uchar \<Rightarrow> ustring \<Rightarrow> ustring \<times> ustring" where
  "copy_quoted q [] = ([], [])"
| "copy_quoted q (c # s) =
    (if c = q then
       (case s of
          d # s' \<Rightarrow> if d = q then (let (t, r) = copy_quoted q s' in (c # d # t, r)) else ([c], s)
        | [] \<Rightarrow> ([c], []))
     else let (t, r) = copy_quoted q s in (c # t, r))"

lemma copy_quoted_length: "length (snd (copy_quoted q s)) \<le> length s"
proof (induction q s rule: copy_quoted.induct)
  case (2 q c s)
  then show ?case by (cases s) (auto split: prod.splits)
qed simp

lemma strip_dollar_eq: "strip_dollar s = (b, r) \<Longrightarrow> s = (if b then 36 # r else r)"
  by (cases s) (auto split: if_splits)

lemma span_max_eq: "span_max n P s = (w, r) \<Longrightarrow> s = w @ r"
proof -
  assume "span_max n P s = (w, r)"
  then have w: "w = take n (takeWhile P s)" and r: "r = drop (length w) s" by (auto simp: span_max_def Let_def)
  have s: "s = w @ (drop n (takeWhile P s) @ dropWhile P s)"
    unfolding w by (metis append_assoc append_take_drop_id takeWhile_dropWhile_id)
  then show "s = w @ r" unfolding r by (metis append_eq_conv_conj)
qed

lemma parse_cell_ref_text:
  assumes "parse_cell_ref s = Some r"
  obtains letters ds rest where "s = (if col_abs r then [36] else []) @ letters @ (if row_abs r then [36] else []) @ ds @ rest"
    and "letters \<noteq> []" and "ds \<noteq> []" and "consumed r = length s - length rest"
    and "column_index letters = Some (ref_col r)" and "parse_u32 ds = Some (ref_row r)"
    and "\<not> next_is is_ascii_alphanumeric rest"
proof -
  obtain cabs s1 where 1: "strip_dollar s = (cabs, s1)" by force
  obtain letters s2 where 2: "span_max 3 is_ascii_alphabetic s1 = (letters, s2)" by force
  obtain rabs s3 where 3: "strip_dollar s2 = (rabs, s3)" by force
  obtain ds s4 where 4: "span_max 7 is_ascii_digit s3 = (ds, s4)" by force
  have s: "s = (if cabs then [36] else []) @ letters @ (if rabs then [36] else []) @ ds @ s4"
    using strip_dollar_eq [OF 1] span_max_eq [OF 2] strip_dollar_eq [OF 3] span_max_eq [OF 4] by simp
  show thesis
    using assms that [of letters ds s4] s unfolding parse_cell_ref_def 1 2 3 4 prod.case
    by (auto split: if_split_asm option.split_asm)
qed

lemma parse_cell_ref_consumed: "parse_cell_ref s = Some r \<Longrightarrow> 0 < consumed r"
  by (erule parse_cell_ref_text) auto

lemma shift_ref_at_consumed: "shift_ref_at s dcol drow = Some (n, t) \<Longrightarrow> 0 < n"
  by (auto simp: shift_ref_at_def dest: parse_cell_ref_consumed split: option.splits)

lemma copy_quoted_rest: "(t, rest) = copy_quoted q s \<Longrightarrow> length rest < Suc (length s)"
  using copy_quoted_length [of q s] by (metis less_Suc_eq_le snd_conv)

lemma shift_ref_rest: "shift_ref_at (c # s) dcol drow = Some (n, t) \<Longrightarrow> Suc (length s) - n < Suc (length s)"
  using shift_ref_at_consumed [of "c # s" dcol drow n t] by simp

function shift_loop :: "int \<Rightarrow> int \<Rightarrow> ustring \<Rightarrow> ustring option" where
  "shift_loop dcol drow [] = Some []"
| "shift_loop dcol drow (c # s) =
    (if c = 34 \<or> c = 39 then
       (let (t, rest) = copy_quoted c s in map_option ((@) (c # t)) (shift_loop dcol drow rest))
     else case shift_ref_at (c # s) dcol drow of
       Some (n, shifted) \<Rightarrow>
         (case shifted of None \<Rightarrow> None | Some t \<Rightarrow> map_option ((@) t) (shift_loop dcol drow (drop n (c # s))))
     | None \<Rightarrow> map_option ((#) c) (shift_loop dcol drow s))"
  by pat_completeness auto
termination
  by (relation "measure (\<lambda>(_, _, s). length s)") (auto dest: copy_quoted_rest shift_ref_rest)

definition shift_formula :: "ustring \<Rightarrow> int \<Rightarrow> int \<Rightarrow> ustring option" where
  "shift_formula formula dcol drow = (if dcol = 0 \<and> drow = 0 then Some formula else shift_loop dcol drow formula)"

definition shift_formula_between :: "ustring \<Rightarrow> ustring \<Rightarrow> ustring \<Rightarrow> ustring option" where
  "shift_formula_between origin target formula =
    (case (split_address origin, split_address target) of
       (Some (ocol, orow), Some (tcol, trow)) \<Rightarrow> shift_formula formula (int tcol - int ocol) (int trow - int orow)
     | _ \<Rightarrow> None)"

section \<open>Shared formulas\<close>

datatype FormulaSlot = NoFormula | Plain ustring | Master nat ustring | Follower nat

record SheetCellRef =
  cell_address :: ustring
  cell_formula :: "ustring option"
  text_cell :: bool

text \<open>The first master of a shared index wins.\<close>

fun collect_masters :: "(SheetCellRef \<times> FormulaSlot) list \<Rightarrow> (nat \<Rightarrow> (ustring \<times> ustring) option) \<Rightarrow> (nat \<Rightarrow> (ustring \<times> ustring) option)" where
  "collect_masters [] m = m"
| "collect_masters ((cell, slot) # rest) m =
    (case slot of
       Master si text \<Rightarrow> collect_masters rest (if m si = None then m(si \<mapsto> (cell_address cell, text)) else m)
     | _ \<Rightarrow> collect_masters rest m)"

definition expand_cell :: "(nat \<Rightarrow> (ustring \<times> ustring) option) \<Rightarrow> SheetCellRef \<times> FormulaSlot \<Rightarrow> SheetCellRef" where
  "expand_cell m p =
    (case p of (cell, slot) \<Rightarrow>
       (case slot of
          Follower si \<Rightarrow>
            (case m si of
               None \<Rightarrow> cell
             | Some (origin, text) \<Rightarrow>
                 (case shift_formula_between origin (cell_address cell) text of
                    Some shifted \<Rightarrow> cell\<lparr>cell_formula := Some shifted\<rparr>
                  | None \<Rightarrow> cell))
        | _ \<Rightarrow> cell))"

definition expand_shared_formulas :: "SheetCellRef list \<Rightarrow> FormulaSlot list \<Rightarrow> SheetCellRef list" where
  "expand_shared_formulas cells slots =
    map (expand_cell (collect_masters (zip cells slots) Map.empty)) (zip cells slots) @ drop (length slots) cells"

section \<open>Blocks\<close>

definition span_count :: "f64 \<Rightarrow> int option" where
  "span_count v =
    (case v of Num x \<Rightarrow> if trunc x < -256 \<or> 256 < trunc x then None else Some (trunc x) | _ \<Rightarrow> None)"

definition positive_span :: "f64 \<Rightarrow> nat option" where
  "positive_span v = (case v of Num x \<Rightarrow> if trunc x < 1 \<or> 256 < trunc x then None else Some (nat (trunc x)) | _ \<Rightarrow> None)"

definition trunc_offset :: "f64 \<Rightarrow> int option" where
  "trunc_offset v =
    (case v of Num x \<Rightarrow> if trunc x < -1000000 \<or> 1000000 < trunc x then None else Some (trunc x) | _ \<Rightarrow> None)"

definition take_bounds :: "nat \<Rightarrow> int \<Rightarrow> (nat \<times> nat) option" where
  "take_bounds sz cnt =
    (if cnt = 0 then None
     else if 2 ^ 32 \<le> nat \<bar>cnt\<bar> then None
     else let kept = nat \<bar>cnt\<bar>
          in if kept = 0 \<or> sz < kept then None
             else if 0 < cnt then Some (0, kept) else Some (sz - kept, kept))"

definition drop_bounds :: "nat \<Rightarrow> int \<Rightarrow> (nat \<times> nat) option" where
  "drop_bounds sz cnt =
    (if cnt = 0 then Some (0, sz)
     else if 2 ^ 32 \<le> nat \<bar>cnt\<bar> then None
     else let dropped = nat \<bar>cnt\<bar>
          in if sz \<le> dropped then None
             else if 0 < cnt then Some (dropped, sz - dropped) else Some (0, sz - dropped))"

definition choose_index :: "nat \<Rightarrow> int \<Rightarrow> nat option" where
  "choose_index sz i =
    (if 0 < i then if 2 ^ 32 \<le> nat i then None else if 1 \<le> nat i \<and> nat i \<le> sz then Some (nat i - 1) else None
     else if i < 0 then
       (let j = int sz + i in if j < 0 \<or> 2 ^ 32 \<le> nat j then None else if nat j < sz then Some (nat j) else None)
     else None)"

text \<open>\<open>None\<close> is the panic of an index out of range.\<close>

definition slice_block :: "'a list \<Rightarrow> nat \<Rightarrow> nat \<Rightarrow> nat \<Rightarrow> nat \<Rightarrow> nat \<Rightarrow> 'a list option" where
  "slice_block vals cols row0 height col0 width =
    those (concat (map (\<lambda>row. map (\<lambda>col. if row * cols + col < length vals then Some (vals ! (row * cols + col)) else None)
      [col0..<col0 + width]) [row0..<row0 + height]))"

section \<open>Spills\<close>

record 'v Spill =
  spill_values :: "'v list"
  spill_columns :: nat
  all_or_nothing :: bool

definition cell_blocked :: "SheetCellRef list \<Rightarrow> ustring set \<Rightarrow> ustring \<Rightarrow> bool" where
  "cell_blocked cells taken address \<longleftrightarrow>
    address \<in> taken \<or>
    (case find (\<lambda>c. cell_address c = address) cells of
       None \<Rightarrow> True
     | Some c \<Rightarrow> cell_formula c \<noteq> None \<or> text_cell c)"

text \<open>The loop over the values: \<open>Inl\<close> gives up, \<open>Inr\<close> is the list of writes when the loop ends or breaks.\<close>

fun place_loop ::
  "ustring \<Rightarrow> nat \<Rightarrow> bool \<Rightarrow> SheetCellRef list \<Rightarrow> ustring set \<Rightarrow> nat \<Rightarrow> 'v list \<Rightarrow> (ustring \<times> 'v) list \<Rightarrow>
   unit + (ustring \<times> 'v) list"
where
  "place_loop origin cols aon cells taken step [] writes = Inr writes"
| "place_loop origin cols aon cells taken step (v # vs) writes =
    (let row = step div cols;
         col = step mod cols
     in if row = 0 \<and> col = 0 then place_loop origin cols aon cells taken (step + 1) vs (writes @ [(origin, v)])
        else case shift_address origin row col of
          None \<Rightarrow> if aon then Inl () else Inr writes
        | Some address \<Rightarrow>
            if cell_blocked cells taken address then if aon then Inl () else Inr writes
            else place_loop origin cols aon cells taken (step + 1) vs (writes @ [(address, v)]))"

definition place_spill ::
  "ustring \<Rightarrow> 'v Spill \<Rightarrow> SheetCellRef list \<Rightarrow> ustring set \<Rightarrow> (ustring \<times> 'v) list option"
where
  "place_spill origin sp cells taken =
    (if spill_columns sp = 0 then None
     else case place_loop origin (spill_columns sp) (all_or_nothing sp) cells taken 0 (spill_values sp) [] of
       Inl _ \<Rightarrow> None
     | Inr writes \<Rightarrow>
         if all_or_nothing sp \<and> length writes \<noteq> length (spill_values sp) then None
         else if writes = [] then None else Some writes)"

fun place_text_loop ::
  "ustring \<Rightarrow> SheetCellRef list \<Rightarrow> ustring set \<Rightarrow> nat \<Rightarrow> ustring list \<Rightarrow> (ustring \<times> ustring) list \<Rightarrow> (ustring \<times> ustring) list option"
where
  "place_text_loop origin cells taken step [] writes = Some writes"
| "place_text_loop origin cells taken step (t # ts) writes =
    (case (if step = 0 then Some origin else shift_address origin step 0) of
       None \<Rightarrow> None
     | Some address \<Rightarrow>
         if 0 < step \<and> cell_blocked cells taken address then None
         else place_text_loop origin cells taken (step + 1) ts (writes @ [(address, t)]))"

definition place_text_column :: "ustring \<Rightarrow> ustring list \<Rightarrow> SheetCellRef list \<Rightarrow> ustring set \<Rightarrow> (ustring \<times> ustring) list option" where
  "place_text_column origin parts cells taken =
    (if parts = [] \<or> 256 < length parts then None else place_text_loop origin cells taken 0 parts [])"

section \<open>Names of columns and rows\<close>

lemma column_loop_append:
  "column_loop v (s @ t) = (case column_loop v s of None \<Rightarrow> None | Some w \<Rightarrow> column_loop w t)"
  by (induction v s rule: column_loop.induct) auto

lemma column_name_letters: "c \<in> set (column_name n) \<Longrightarrow> 65 \<le> c \<and> c \<le> 90"
proof (induction n rule: column_name.induct)
  case (2 n)
  have "n mod 26 < 26" by simp
  then show ?case using 2 by auto
qed simp

lemma column_name_Nil_iff [simp]: "column_name n = [] \<longleftrightarrow> n = 0"
  by (cases n) auto

lemma column_name_alpha: "list_all is_ascii_alphabetic (column_name n)"
  using column_name_letters by (auto simp: list_all_iff is_ascii_alphabetic_def)

lemma column_name_length: "n \<le> 16384 \<Longrightarrow> length (column_name n) \<le> 3"
proof -
  have one: "length (column_name n) \<le> 1" if "n \<le> 26" for n using that by (cases n) auto
  have two: "length (column_name n) \<le> 2" if "n \<le> 702" for n
  proof (cases n)
    case (Suc m)
    then show ?thesis using that one [of "m div 26"] by simp
  qed simp
  assume "n \<le> 16384"
  then show ?thesis using two [of "(n - 1) div 26"] by (cases n) auto
qed

text \<open>Column names and column numbers are inverse to each other.\<close>

lemma column_roundtrip: "n < 2 ^ 32 \<Longrightarrow> column_index (column_name n) = Some n"
proof (induction n rule: column_name.induct)
  case (2 n)
  have "column_index (column_name (n div 26)) = Some (n div 26)" using "2.IH" "2.prems" by simp
  moreover have m: "n mod 26 \<le> 25" using pos_mod_bound [of 26 "int n"] by (simp add: less_Suc_eq_le [symmetric])
  then have "is_ascii_alphabetic (65 + n mod 26)" "ascii_upper (65 + n mod 26) = 65 + n mod 26"
    by (simp_all add: is_ascii_alphabetic_def ascii_upper_def)
  moreover have "n div 26 * 26 + (n mod 26 + 1) = Suc n" by simp
  moreover have "n div 26 * 26 < 2 ^ 32" using "2.prems" by (simp add: div_times_less_eq_dividend le_less_trans [of _ n])
  ultimately show ?case using "2.prems" by (simp add: column_index_def column_loop_append)
qed (simp add: column_index_def)

lemma nat_text_length: "n < 10 ^ Suc k \<Longrightarrow> length (nat_text n) \<le> Suc k"
proof (induction k arbitrary: n)
  case 0
  then show ?case by (simp add: nat_text.simps [of n])
next
  case (Suc k)
  have "n div 10 < 10 ^ Suc k" using Suc.prems by (simp add: less_mult_imp_div_less mult.commute)
  then have "length (nat_text (n div 10)) \<le> Suc k" by (rule Suc.IH)
  then show ?case by (subst nat_text.simps) simp
qed

lemma parse_nat_text: "n < 2 ^ 32 \<Longrightarrow> parse_u32 (nat_text n) = Some n"
  using nat_text_digits [of _ n] by (auto simp: parse_u32_def list_all_iff is_ascii_digit_def)

section \<open>Formulas as tokens\<close>

datatype formula_token =
  RefTok ustring bool nat bool nat
| Quoted uchar ustring
| NameTok ustring
| SymTok uchar

definition render_ref :: "bool \<Rightarrow> nat \<Rightarrow> bool \<Rightarrow> nat \<Rightarrow> ustring" where
  "render_ref ca col ra row = (if ca then [36] else []) @ column_name col @ (if ra then [36] else []) @ nat_text row"

definition double_quotes :: "uchar \<Rightarrow> ustring \<Rightarrow> ustring" where
  "double_quotes q body = concat (map (\<lambda>c. if c = q then [q, q] else [c]) body)"

fun render_token :: "formula_token \<Rightarrow> ustring" where
  "render_token (RefTok sheet ca col ra row) = (if sheet = [] then [] else sheet @ [33]) @ render_ref ca col ra row"
| "render_token (Quoted q body) = q # double_quotes q body @ [q]"
| "render_token (NameTok w) = w"
| "render_token (SymTok c) = [c]"

definition render_formula :: "formula_token list \<Rightarrow> ustring" where
  "render_formula ts = concat (map render_token ts)"

definition name_char :: "uchar \<Rightarrow> bool" where
  "name_char c \<longleftrightarrow> is_ascii_alphabetic c \<or> c = 95 \<or> c = 46"

fun token_ok :: "formula_token \<Rightarrow> bool" where
  "token_ok (RefTok sheet ca col ra row) \<longleftrightarrow>
    (sheet = [] \<or> (is_ascii_alphabetic (hd sheet) \<or> hd sheet = 95) \<and> list_all word_char sheet) \<and>
    1 \<le> col \<and> col \<le> 16384 \<and> 1 \<le> row \<and> row \<le> 9999999"
| "token_ok (Quoted q body) \<longleftrightarrow> q = 34 \<or> q = 39"
| "token_ok (NameTok w) \<longleftrightarrow> w \<noteq> [] \<and> list_all name_char w"
| "token_ok (SymTok c) \<longleftrightarrow> \<not> is_ascii_alphabetic c \<and> c \<noteq> 95 \<and> c \<noteq> 36 \<and> c \<noteq> 34 \<and> c \<noteq> 39"

text \<open>References and names stand apart from each other, from digits and from dots; a name is no prefix of a sheet.\<close>

fun follows_ok :: "formula_token \<Rightarrow> formula_token list \<Rightarrow> bool" where
  "follows_ok (Quoted q _) (Quoted q' _ # _) \<longleftrightarrow> q \<noteq> q'"
| "follows_ok (Quoted q _) _ \<longleftrightarrow> True"
| "follows_ok (SymTok c) (t # _) \<longleftrightarrow> \<not> is_ascii_digit c \<or> (case t of RefTok _ _ _ _ _ \<Rightarrow> False | NameTok _ \<Rightarrow> False | _ \<Rightarrow> True)"
| "follows_ok _ (RefTok _ _ _ _ _ # _) \<longleftrightarrow> False"
| "follows_ok _ (NameTok _ # _) \<longleftrightarrow> False"
| "follows_ok _ (SymTok c # _) \<longleftrightarrow> \<not> word_char c \<and> c \<noteq> 33"
| "follows_ok _ _ \<longleftrightarrow> True"

fun formula_ok :: "formula_token list \<Rightarrow> bool" where
  "formula_ok [] \<longleftrightarrow> True"
| "formula_ok (t # ts) \<longleftrightarrow> token_ok t \<and> follows_ok t ts \<and> formula_ok ts"

definition shift_coord :: "bool \<Rightarrow> nat \<Rightarrow> int \<Rightarrow> nat \<Rightarrow> nat option" where
  "shift_coord absolute n d mx =
    (if absolute then Some n else if 1 \<le> int n + d \<and> int n + d \<le> int mx then Some (nat (int n + d)) else None)"

fun shift_token :: "int \<Rightarrow> int \<Rightarrow> formula_token \<Rightarrow> formula_token option" where
  "shift_token dcol drow (RefTok sheet ca col ra row) =
    (case (shift_coord ca col dcol 16384, shift_coord ra row drow 9999999) of
       (Some c, Some r) \<Rightarrow> Some (RefTok sheet ca c ra r)
     | _ \<Rightarrow> None)"
| "shift_token dcol drow t = Some t"

fun shift_tokens :: "int \<Rightarrow> int \<Rightarrow> formula_token list \<Rightarrow> formula_token list option" where
  "shift_tokens dcol drow [] = Some []"
| "shift_tokens dcol drow (t # ts) =
    (case shift_token dcol drow t of None \<Rightarrow> None | Some u \<Rightarrow> map_option ((#) u) (shift_tokens dcol drow ts))"

lemma render_formula_simps [simp]:
  "render_formula [] = []" "render_formula (t # ts) = render_token t @ render_formula ts"
  by (simp_all add: render_formula_def)

lemma takeWhile_stop: "list_all P w \<Longrightarrow> \<not> next_is P rest \<Longrightarrow> takeWhile P (w @ rest) = w"
  by (induction w) (auto simp: next_is_def split: list.splits)

lemma span_max_stop: "list_all P w \<Longrightarrow> \<not> next_is P rest \<Longrightarrow> length w \<le> n \<Longrightarrow> span_max n P (w @ rest) = (w, rest)"
  by (simp add: span_max_def takeWhile_stop)

lemma next_is_append [simp]: "next_is P (w @ rest) = (if w = [] then next_is P rest else P (hd w))"
  by (cases w) (auto simp: next_is_def)

lemma next_is_Cons [simp]: "next_is P (c # s) = P c" and next_is_Nil [simp]: "\<not> next_is P []"
  by (simp_all add: next_is_def)

lemma strip_dollar_plain: "\<not> next_is (\<lambda>c. c = 36) s \<Longrightarrow> strip_dollar s = (False, s)"
  by (cases s) auto

lemma hd_digit: "hd (nat_text n) \<ge> 48 \<and> hd (nat_text n) \<le> 57"
  using nat_text_digits [of "hd (nat_text n)" n] by simp

lemma hd_letter: "0 < n \<Longrightarrow> 65 \<le> hd (column_name n) \<and> hd (column_name n) \<le> 90"
  using column_name_letters [of "hd (column_name n)" n] by simp

lemma parse_render_ref:
  assumes col: "1 \<le> col" "col \<le> 16384" and row: "1 \<le> row" "row \<le> 9999999"
    and rest: "\<not> next_is is_ascii_alphanumeric rest"
  shows "parse_cell_ref (render_ref ca col ra row @ rest) =
    Some \<lparr>consumed = length (render_ref ca col ra row), col_abs = ca, ref_col = col, row_abs = ra, ref_row = row\<rparr>"
proof -
  let ?d = "(if ra then [36] else []) @ nat_text row"
  have alpha: "\<not> is_ascii_alphabetic (hd (nat_text row))" "\<not> is_ascii_alphabetic 36" "\<not> is_ascii_digit 36"
    using hd_digit [of row] by (auto simp: is_ascii_alphabetic_def is_ascii_digit_def)
  have 1: "strip_dollar (render_ref ca col ra row @ rest) = (ca, column_name col @ ?d @ rest)"
    using col hd_letter [of col] by (cases ca) (auto simp: render_ref_def strip_dollar_plain)
  have 2: "span_max 3 is_ascii_alphabetic (column_name col @ ?d @ rest) = (column_name col, ?d @ rest)"
    by (rule span_max_stop) (use alpha column_name_alpha column_name_length col in auto)
  have 3: "strip_dollar (?d @ rest) = (ra, nat_text row @ rest)"
    using hd_digit [of row] by (cases ra) (auto simp: strip_dollar_plain)
  have 4: "span_max 7 is_ascii_digit (nat_text row @ rest) = (nat_text row, rest)"
  proof (rule span_max_stop)
    show "list_all is_ascii_digit (nat_text row)"
      using nat_text_digits by (auto simp: list_all_iff is_ascii_digit_def)
    show "\<not> next_is is_ascii_digit rest" using rest by (cases rest) (auto simp: is_ascii_alphanumeric_def)
    show "length (nat_text row) \<le> 7" using nat_text_length [of row 6] row by simp
  qed
  have "parse_u32 (nat_text row) = Some row" "column_index (column_name col) = Some col"
    using row col by (simp_all add: parse_nat_text column_roundtrip)
  then show ?thesis
    using 1 2 3 4 alpha col row rest by (auto simp: parse_cell_ref_def)
qed

lemma next_is_mono: "next_is P s \<Longrightarrow> (\<And>c. P c \<Longrightarrow> Q c) \<Longrightarrow> next_is Q s"
  by (cases s) auto

lemma word_char_simps:
  "is_ascii_alphabetic c \<Longrightarrow> word_char c" "is_ascii_digit c \<Longrightarrow> word_char c" "is_ascii_alphanumeric c \<Longrightarrow> word_char c"
  "name_char c \<Longrightarrow> word_char c" "\<not> word_char 36" "\<not> word_char 33"
  by (simp_all add: word_char_def is_ascii_alphanumeric_def name_char_def)
    (auto simp: is_ascii_alphabetic_def is_ascii_digit_def)

lemma next_is_disjD: "\<not> next_is (\<lambda>c. P c \<or> Q c) s \<Longrightarrow> \<not> next_is P s" "\<not> next_is (\<lambda>c. P c \<or> Q c) s \<Longrightarrow> \<not> next_is Q s"
  by (cases s; simp)+

text \<open>What may follow a reference or a name.\<close>

definition apart :: "ustring \<Rightarrow> bool" where
  "apart s \<longleftrightarrow> \<not> next_is (\<lambda>c. word_char c \<or> c = 36 \<or> c = 33) s"

lemma apartD:
  assumes "apart s"
  shows "\<not> next_is word_char s" "\<not> next_is (\<lambda>c. c = 36) s" "\<not> next_is (\<lambda>c. c = 33) s"
    "\<not> next_is is_ascii_alphabetic s" "\<not> next_is is_ascii_digit s" "\<not> next_is is_ascii_alphanumeric s"
  using assms word_char_simps(1-3) by (cases s; force simp: apart_def)+

lemma sheet_prefix_word:
  assumes "list_all word_char w" and "\<not> next_is word_char s" and "\<not> next_is (\<lambda>c. c = 33) s"
  shows "sheet_prefix (w @ s) = []"
  using assms by (simp add: sheet_prefix_def takeWhile_stop Let_def del: next_is_append)

lemma column_word: "list_all word_char (column_name n)" and row_word: "list_all word_char (nat_text n)"
  using column_name_alpha [of n] nat_text_digits [of _ n] word_char_simps(1,2)
  by (auto simp: list_all_iff is_ascii_digit_def)

lemma sheet_prefix_ref:
  assumes "1 \<le> col" and "apart rest"
  shows "sheet_prefix (render_ref ca col ra row @ rest) = []"
proof (cases ca)
  case True
  then show ?thesis by (simp add: sheet_prefix_def render_ref_def is_ascii_alphabetic_def Let_def)
next
  case False
  show ?thesis
  proof (cases ra)
    case True
    have "sheet_prefix (column_name col @ 36 # nat_text row @ rest) = []"
      by (rule sheet_prefix_word [OF column_word]) (simp_all add: word_char_simps)
    then show ?thesis using False True by (simp add: render_ref_def)
  next
    case ra: False
    have "sheet_prefix ((column_name col @ nat_text row) @ rest) = []"
      by (rule sheet_prefix_word) (use apartD [OF assms(2)] in \<open>simp_all add: column_word row_word\<close>)
    then show ?thesis using False ra by (simp add: render_ref_def)
  qed
qed

lemma sheet_prefix_sheet:
  assumes "sheet \<noteq> []" and "is_ascii_alphabetic (hd sheet) \<or> hd sheet = 95" and "list_all word_char sheet"
  shows "sheet_prefix (sheet @ 33 # s) = sheet @ [33]"
proof -
  have "takeWhile word_char (sheet @ 33 # s) = sheet" by (rule takeWhile_stop [OF assms(3)]) (simp add: word_char_simps)
  then show ?thesis using assms by (simp add: sheet_prefix_def Let_def)
qed

lemma shift_parts:
  assumes "1 \<le> col" "col \<le> 16384" "1 \<le> row" "row \<le> 9999999"
  shows "shift_cell_ref \<lparr>consumed = n, col_abs = ca, ref_col = col, row_abs = ra, ref_row = row\<rparr> dcol drow =
    (case (shift_coord ca col dcol 16384, shift_coord ra row drow 9999999) of
       (Some c, Some r) \<Rightarrow> Some (render_ref ca c ra r) | _ \<Rightarrow> None)"
  using assms by (auto simp: shift_cell_ref_def shift_coord_def render_ref_def Let_def)

lemma shift_ref_token:
  assumes ok: "token_ok (RefTok sheet ca col ra row)" and rest: "apart rest"
  shows "shift_ref_at (render_token (RefTok sheet ca col ra row) @ rest) dcol drow =
    Some (length (render_token (RefTok sheet ca col ra row)),
          map_option render_token (shift_token dcol drow (RefTok sheet ca col ra row)))"
proof -
  let ?ref = "render_ref ca col ra row @ rest"
  let ?p = "if sheet = [] then [] else sheet @ [33]"
  have prefix: "sheet_prefix (render_token (RefTok sheet ca col ra row) @ rest) = ?p"
  proof (cases "sheet = []")
    case True
    then show ?thesis using ok sheet_prefix_ref [of col rest ca ra row] rest by simp
  next
    case False
    then show ?thesis using ok sheet_prefix_sheet [of sheet ?ref] by simp
  qed
  have "\<not> next_is is_ascii_alphanumeric rest" by (rule apartD [OF rest])
  then have parse: "parse_cell_ref ?ref =
      Some \<lparr>consumed = length (render_ref ca col ra row), col_abs = ca, ref_col = col, row_abs = ra, ref_row = row\<rparr>"
    using parse_render_ref ok by simp
  have "drop (length ?p) (render_token (RefTok sheet ca col ra row) @ rest) = ?ref" by simp
  then show ?thesis
    unfolding shift_ref_at_def prefix using parse shift_parts [of col row _ ca ra dcol drow] ok
    by (auto split: option.splits)
qed

lemma takeWhile_apart: "list_all name_char w \<Longrightarrow> apart rest \<Longrightarrow>
  \<exists>k. takeWhile is_ascii_alphabetic (w @ rest) = take k w \<and> k \<le> length w"
proof (induction w)
  case Nil
  have "\<not> next_is is_ascii_alphabetic rest" using Nil by (intro apartD)
  then show ?case by (cases rest) auto
next
  case (Cons c w)
  then obtain k where "takeWhile is_ascii_alphabetic (w @ rest) = take k w" "k \<le> length w" by auto
  then show ?case by (cases "is_ascii_alphabetic c") (auto intro: exI [of _ "Suc k"] exI [of _ 0])
qed

lemma shift_ref_name:
  assumes w: "list_all name_char (c # w)" and rest: "apart rest"
  shows "shift_ref_at ((c # w) @ rest) dcol drow = None"
proof -
  have "list_all word_char (c # w)" using w by (auto simp: list_all_iff word_char_simps)
  then have prefix: "sheet_prefix ((c # w) @ rest) = []"
    by (rule sheet_prefix_word) (intro apartD [OF rest])+
  have dollar: "strip_dollar ((c # w) @ rest) = (False, (c # w) @ rest)"
    using w by (intro strip_dollar_plain) (auto simp: name_char_def is_ascii_alphabetic_def)
  obtain k where k: "takeWhile is_ascii_alphabetic ((c # w) @ rest) = take k (c # w)" "k \<le> length (c # w)"
    using takeWhile_apart [OF w rest] by blast
  let ?n = "min 3 k"
  have span: "span_max 3 is_ascii_alphabetic ((c # w) @ rest) = (take ?n (c # w), drop ?n (c # w) @ rest)"
  proof -
    have "length (take 3 (take k (c # w))) = ?n" using k(2) by simp
    moreover have "drop ?n ((c # w) @ rest) = drop ?n (c # w) @ rest" using k(2) by (simp del: append_Cons add: drop_append)
    ultimately show ?thesis unfolding span_max_def k(1) Let_def by (simp del: append_Cons)
  qed
  have next1: "\<not> next_is (\<lambda>c. c = 36 \<or> is_ascii_digit c) (drop ?n (c # w) @ rest)"
  proof (cases "drop ?n (c # w)")
    case Nil
    then show ?thesis using apartD [OF rest] by (cases rest) auto
  next
    case (Cons d ds)
    then have "d \<in> set (c # w)" by (metis in_set_dropD list.set_intros(1))
    then have "name_char d" using w by (auto simp: list_all_iff)
    then show ?thesis unfolding Cons by (auto simp: name_char_def is_ascii_alphabetic_def is_ascii_digit_def)
  qed
  note none = next_is_disjD [OF next1]
  have "strip_dollar (drop ?n (c # w) @ rest) = (False, drop ?n (c # w) @ rest)"
    by (rule strip_dollar_plain [OF none(1)])
  moreover note none(2)
  then have "span_max 7 is_ascii_digit (drop ?n (c # w) @ rest) = ([], drop ?n (c # w) @ rest)"
    using span_max_stop [of is_ascii_digit "[]"] by simp
  ultimately have "parse_cell_ref ((c # w) @ rest) = None"
    unfolding parse_cell_ref_def dollar prod.case span by simp
  then show ?thesis unfolding shift_ref_at_def prefix by simp
qed

lemma shift_ref_sym:
  assumes "token_ok (SymTok c)"
  shows "shift_ref_at (c # s) dcol drow = None"
proof -
  have prefix: "sheet_prefix (c # s) = []" using assms by (simp add: sheet_prefix_def Let_def)
  have "parse_cell_ref (c # s) = None"
    using assms by (simp add: parse_cell_ref_def span_max_def Let_def)
  then show ?thesis unfolding shift_ref_at_def prefix by simp
qed

lemma copy_quoted_body: "\<not> next_is (\<lambda>c. c = q) rest \<Longrightarrow>
  copy_quoted q (double_quotes q body @ q # rest) = (double_quotes q body @ [q], rest)"
proof (induction body)
  case Nil
  then show ?case by (cases rest) (simp_all add: double_quotes_def)
next
  case (Cons c body)
  then show ?case by (auto simp: double_quotes_def)
qed

section \<open>Shifting a formula\<close>

lemma follows_apart:
  assumes "formula_ok ts" and "follows_ok t ts" and "case t of RefTok _ _ _ _ _ \<Rightarrow> True | NameTok _ \<Rightarrow> True | _ \<Rightarrow> False"
  shows "apart (render_formula ts)"
proof (cases ts)
  case Nil
  then show ?thesis by (simp add: apart_def)
next
  case (Cons u us)
  have "\<not> word_char 34" "\<not> word_char 39"
    by (simp_all add: word_char_def is_ascii_alphanumeric_def is_ascii_alphabetic_def is_ascii_digit_def)
  then show ?thesis using assms Cons by (cases t; cases u) (auto simp: apart_def)
qed

lemma quoted_apart:
  assumes "formula_ok ts" and "token_ok (Quoted q body)" and "follows_ok (Quoted q body) ts"
  shows "\<not> next_is (\<lambda>c. c = q) (render_formula ts)"
proof (cases ts)
  case (Cons u us)
  have q: "q = 34 \<or> q = 39" using assms(2) by simp
  have no: "\<not> word_char q" "\<not> is_ascii_alphabetic q" "q \<noteq> 95"
    using q by (auto simp: word_char_def is_ascii_alphanumeric_def is_ascii_alphabetic_def is_ascii_digit_def)
  show ?thesis
  proof (cases u)
    case (RefTok sheet ca col ra row)
    then have r: "sheet \<noteq> [] \<Longrightarrow> is_ascii_alphabetic (hd sheet) \<or> hd sheet = 95" "1 \<le> col" using assms(1) Cons by auto
    then show ?thesis using Cons RefTok q no hd_letter [of col] by (auto simp: render_ref_def)
  next
    case (NameTok w)
    then have "name_char (hd w)" "w \<noteq> []" using assms(1) Cons by (auto simp: list_all_iff)
    then show ?thesis using Cons NameTok no word_char_simps(4) by auto
  qed (use assms Cons in auto)
qed simp

lemma shift_loop_name:
  "list_all name_char w \<Longrightarrow> apart rest \<Longrightarrow> shift_loop dcol drow (w @ rest) = map_option ((@) w) (shift_loop dcol drow rest)"
proof (induction w)
  case Nil
  then show ?case by (simp add: option.map_ident)
next
  case (Cons c w)
  have "c \<noteq> 34" "c \<noteq> 39" using Cons.prems(1) by (auto simp: name_char_def is_ascii_alphabetic_def)
  then show ?case using Cons shift_ref_name [OF Cons.prems] by (simp add: option.map_comp comp_def)
qed

lemma token_head:
  assumes "token_ok (RefTok sheet ca col ra row)"
  obtains c s where "render_token (RefTok sheet ca col ra row) = c # s" and "c \<noteq> 34" and "c \<noteq> 39"
proof -
  have "render_ref ca col ra row \<noteq> []" by (simp add: render_ref_def)
  then have ne: "render_token (RefTok sheet ca col ra row) \<noteq> []" by simp
  have "hd (render_token (RefTok sheet ca col ra row)) \<noteq> 34 \<and> hd (render_token (RefTok sheet ca col ra row)) \<noteq> 39"
    using assms hd_letter [of col] by (auto simp: render_ref_def hd_append is_ascii_alphabetic_def)
  then show thesis using that ne by (cases "render_token (RefTok sheet ca col ra row)") auto
qed

lemma shift_loop_tokens:
  "formula_ok ts \<Longrightarrow> shift_loop dcol drow (render_formula ts) = map_option render_formula (shift_tokens dcol drow ts)"
proof (induction ts)
  case Nil
  then show ?case by simp
next
  case (Cons t ts)
  then have ih: "shift_loop dcol drow (render_formula ts) = map_option render_formula (shift_tokens dcol drow ts)"
    and ok: "token_ok t" "follows_ok t ts" "formula_ok ts" by auto
  show ?case
  proof (cases t)
    case (RefTok sheet ca col ra row)
    have rest: "apart (render_formula ts)" using follows_apart [OF ok(3,2)] RefTok by simp
    obtain c s where head: "render_token t = c # s" "c \<noteq> 34" "c \<noteq> 39"
      using token_head [of sheet ca col ra row] ok(1) RefTok by auto
    have "shift_ref_at (render_token t @ render_formula ts) dcol drow =
        Some (length (render_token t), map_option render_token (shift_token dcol drow t))"
      using shift_ref_token [OF ok(1) [unfolded RefTok] rest] RefTok by simp
    then have "shift_loop dcol drow (render_token t @ render_formula ts) =
        (case map_option render_token (shift_token dcol drow t) of None \<Rightarrow> None
         | Some u \<Rightarrow> map_option ((@) u) (shift_loop dcol drow (render_formula ts)))"
      using head by simp
    then show ?thesis using ih by (simp split: option.split) (auto simp: option.map_comp comp_def)
  next
    case (Quoted q body)
    have "copy_quoted q (double_quotes q body @ q # render_formula ts) = (double_quotes q body @ [q], render_formula ts)"
      by (rule copy_quoted_body) (use quoted_apart ok Quoted in blast)
    then show ?thesis using Quoted ok(1) ih by (auto simp: option.map_comp comp_def)
  next
    case (NameTok w)
    have "apart (render_formula ts)" using follows_apart [OF ok(3,2)] NameTok by simp
    then show ?thesis using shift_loop_name [of w "render_formula ts" dcol drow] NameTok ok(1) ih
      by (simp add: option.map_comp comp_def)
  next
    case (SymTok c)
    then show ?thesis using shift_ref_sym [of c "render_formula ts" dcol drow] ok(1) ih
      by (simp add: option.map_comp comp_def)
  qed
qed

lemma shift_coord_zero: "1 \<le> n \<Longrightarrow> n \<le> mx \<Longrightarrow> shift_coord a n 0 mx = Some n"
  by (simp add: shift_coord_def)

lemma shift_tokens_zero: "formula_ok ts \<Longrightarrow> shift_tokens 0 0 ts = Some ts"
proof (induction ts)
  case (Cons t ts)
  then show ?case by (cases t) (auto simp: shift_coord_zero)
qed simp

text \<open>C19.  Sharing a formula over several cells: in a formula of references (with sheet names and dollar signs), quoted
  texts, names without digits and other characters (\<open>formula_ok\<close>), the code's scan of the text does what shifting every
  relative reference and nothing else does, and fails exactly when a reference leaves the sheet.  Names with digits and
  numbers with an exponent are excluded: the code takes parts of them for references (\<open>shift_corrupts_function\<close>,
  \<open>shift_corrupts_number\<close>).\<close>

theorem shift_formula_tokens:
  assumes "formula_ok ts"
  shows "shift_formula (render_formula ts) dcol drow = map_option render_formula (shift_tokens dcol drow ts)"
  using shift_loop_tokens [OF assms, of dcol drow] shift_tokens_zero [OF assms]
  by (auto simp: shift_formula_def)

lemma shift_formula_tokens_witness:
  "shift_formula (render_formula [NameTok (lit ''SUM''), SymTok 40, RefTok [] False 27 True 3, SymTok 41, SymTok 43,
      Quoted 34 (lit ''A1''), RefTok (lit ''Tab'') True 2 False 9]) 1 2 =
    Some (render_formula [NameTok (lit ''SUM''), SymTok 40, RefTok [] False 28 True 3, SymTok 41, SymTok 43,
      Quoted 34 (lit ''A1''), RefTok (lit ''Tab'') True 2 False 11])"
  by (subst shift_formula_tokens)
    (simp_all add: name_char_def is_ascii_alphabetic_def is_ascii_digit_def word_char_def is_ascii_alphanumeric_def shift_coord_def)

lemma shift_coord_back:
  "shift_coord a n d mx = Some m \<Longrightarrow> 1 \<le> n \<Longrightarrow> n \<le> mx \<Longrightarrow> shift_coord a m (- d) mx = Some n \<and> (\<not> a \<longrightarrow> 1 \<le> m \<and> m \<le> mx) \<and> (a \<longrightarrow> m = n)"
  by (auto simp: shift_coord_def split: if_splits)

fun token_kind :: "formula_token \<Rightarrow> formula_token" where
  "token_kind (RefTok sheet ca col ra row) = RefTok sheet ca 0 ra 0"
| "token_kind t = t"

lemma follows_kind: "map token_kind us = map token_kind ts \<Longrightarrow> token_kind u = token_kind t \<Longrightarrow> follows_ok u us = follows_ok t ts"
  by (cases t; cases u; cases ts; cases us; cases "hd ts"; cases "hd us") auto

lemma shift_token_back:
  assumes "shift_token dcol drow t = Some u" and "token_ok t"
  shows "shift_token (- dcol) (- drow) u = Some t \<and> token_ok u \<and> token_kind u = token_kind t"
proof (cases t)
  case (RefTok sheet ca col ra row)
  then obtain c r where c: "shift_coord ca col dcol 16384 = Some c" and r: "shift_coord ra row drow 9999999 = Some r"
    and u: "u = RefTok sheet ca c ra r" using assms(1) by (auto split: option.splits)
  show ?thesis
    using shift_coord_back [OF c] shift_coord_back [OF r] assms(2) u RefTok by (cases ca; cases ra) auto
qed (use assms in auto)

lemma shift_tokens_back:
  "shift_tokens dcol drow ts = Some us \<Longrightarrow> formula_ok ts \<Longrightarrow>
   shift_tokens (- dcol) (- drow) us = Some ts \<and> formula_ok us \<and> map token_kind us = map token_kind ts"
proof (induction ts arbitrary: us)
  case (Cons t ts)
  then obtain u vs where u: "shift_token dcol drow t = Some u" "shift_tokens dcol drow ts = Some vs" "us = u # vs"
    by (auto split: option.splits)
  then show ?case using Cons.IH [of vs] Cons.prems(2) shift_token_back [OF u(1)] follows_kind [of vs ts u t] by auto
qed simp

text \<open>Shifting a formula and shifting the result back gives the formula again, letter for letter.\<close>

theorem shift_formula_roundtrip:
  assumes "formula_ok ts" and "shift_formula (render_formula ts) dcol drow = Some g"
  shows "shift_formula g (- dcol) (- drow) = Some (render_formula ts)"
proof -
  obtain us where us: "shift_tokens dcol drow ts = Some us" "g = render_formula us"
    using assms shift_formula_tokens [OF assms(1), of dcol drow] by auto
  show ?thesis using shift_tokens_back [OF us(1) assms(1)] us(2) shift_formula_tokens [of us "- dcol" "- drow"] by simp
qed

lemma shift_formula_roundtrip_witness:
  "shift_formula (render_formula [RefTok [] False 3 True 3, SymTok 42, RefTok [] False 5 False 10]) (- 2) (- 7) =
   Some (render_formula [RefTok [] False 1 True 3, SymTok 42, RefTok [] False 3 False 3])"
proof -
  have "shift_formula (render_formula [RefTok [] False 1 True 3, SymTok 42, RefTok [] False 3 False 3]) 2 7 =
     Some (render_formula [RefTok [] False 3 True 3, SymTok 42, RefTok [] False 5 False 10])"
    by (subst shift_formula_tokens)
      (simp_all add: is_ascii_alphabetic_def is_ascii_digit_def word_char_def is_ascii_alphanumeric_def shift_coord_def)
  from shift_formula_roundtrip [OF _ this] show ?thesis
    by (simp add: is_ascii_alphabetic_def is_ascii_digit_def word_char_def is_ascii_alphanumeric_def)
qed

text \<open>A function whose name ends in digits and a number with an exponent are taken for references: shifting
  \<open>LOG10(5)\<close> by one row calls a function that does not exist, and \<open>1E5\<close> becomes another number.\<close>

lemma column_name_eq: "column_name n = (if n = 0 then [] else column_name ((n - 1) div 26) @ [65 + (n - 1) mod 26])"
  by (cases n) auto

lemma shift_corrupts_function: "shift_formula (lit ''LOG10(5)'') 0 1 = Some (lit ''LOG11(5)'')"
proof -
  let ?ts = "\<lambda>row. [RefTok [] False 8509 False row, SymTok 40, SymTok 53, SymTok 41]"
  have name: "column_name 8509 = [76, 79, 71]"
    by (subst column_name_eq, subst column_name_eq, subst column_name_eq) simp
  have "nat_text 10 = [49, 48]" "nat_text 11 = [49, 49]" by (simp_all add: nat_text.simps)
  then have "render_formula (?ts 10) = lit ''LOG10(5)''" "render_formula (?ts 11) = lit ''LOG11(5)''"
    using name by (simp_all add: render_ref_def)
  then show ?thesis using shift_formula_tokens [of "?ts 10" 0 1]
    by (simp add: shift_coord_def word_char_def is_ascii_alphanumeric_def is_ascii_alphabetic_def is_ascii_digit_def)
qed

lemma shift_corrupts_number: "shift_formula (lit ''1E5'') 0 1 = Some (lit ''1E6'')"
proof -
  have name: "column_name 5 = [69]" by (subst column_name_eq) simp
  have "nat_text 5 = [53]" "nat_text 6 = [54]" by (simp_all add: nat_text.simps)
  then have "render_formula [RefTok [] False 5 False 5] = [69, 53]" "render_formula [RefTok [] False 5 False 6] = [69, 54]"
    using name by (simp_all add: render_ref_def)
  then have "shift_loop 0 1 [69, 53] = Some [69, 54]"
    using shift_loop_tokens [of "[RefTok [] False 5 False 5]" 0 1] by (simp add: shift_coord_def)
  then show ?thesis using shift_ref_sym [of 49 "[69, 53]" 0 1]
    by (simp add: shift_formula_def is_ascii_alphabetic_def)
qed

section \<open>Cutting blocks\<close>

lemma those_Some_map: "those (map Some xs) = Some xs"
  by (induction xs) simp_all

lemma slice_rows:
  "(row0 + height) * cols \<le> length vals \<Longrightarrow>
   concat (map (\<lambda>row. map (\<lambda>col. if row * cols + col < length vals then Some (vals ! (row * cols + col)) else None) [0..<0 + cols])
     [row0..<row0 + height]) = map Some (take (height * cols) (drop (row0 * cols) vals))"
proof (induction height arbitrary: row0)
  case (Suc h)
  let ?row = "\<lambda>row. map (\<lambda>col. if row * cols + col < length vals then Some (vals ! (row * cols + col)) else None) [0..<0 + cols]"
  have len: "row0 * cols + cols + h * cols \<le> length vals" using Suc.prems by (simp add: algebra_simps)
  have "?row row0 = map Some (take cols (drop (row0 * cols) vals))"
    using len by (auto intro!: nth_equalityI)
  moreover have "concat (map ?row [Suc row0..<Suc row0 + h]) = map Some (take (h * cols) (drop (Suc row0 * cols) vals))"
    using Suc.prems by (intro Suc.IH) simp
  moreover have "[row0..<row0 + Suc h] = row0 # [Suc row0..<Suc row0 + h]" by (simp add: upt_conv_Cons del: upt_Suc)
  moreover have "take (Suc h * cols) (drop (row0 * cols) vals) =
      take cols (drop (row0 * cols) vals) @ take (h * cols) (drop (Suc row0 * cols) vals)"
    by (simp add: take_add add.commute)
  ultimately show ?case by (simp del: upt_Suc mult_Suc)
qed simp

text \<open>\<open>TAKE\<close> and \<open>DROP\<close> with the same count cut a block of rows in two: put together in the order of the sheet, the
  rows taken and the rows dropped over are the block, for counts from the start and from the end.\<close>

theorem take_drop_partition:
  assumes "length vals = rows * cols" and "take_bounds rows k = Some (r, h)" and "drop_bounds rows k = Some (r', h')"
  shows "\<exists>a b. slice_block vals cols r h 0 cols = Some a \<and> slice_block vals cols r' h' 0 cols = Some b \<and>
    vals = (if 0 < k then a @ b else b @ a)"
proof -
  have slice: "slice_block vals cols row0 height 0 cols = Some (take (height * cols) (drop (row0 * cols) vals))"
    if "row0 + height \<le> rows" for row0 height
  proof -
    have "(row0 + height) * cols \<le> length vals" using that assms(1) by (simp add: mult_le_mono1)
    then show ?thesis unfolding slice_block_def by (subst slice_rows) (simp_all add: those_Some_map)
  qed
  show ?thesis
  proof (cases "0 < k")
    case True
    then have b: "r = 0" "h = nat k" "r' = nat k" "h' = rows - nat k" "nat k \<le> rows"
      using assms(2,3) by (auto simp: take_bounds_def drop_bounds_def Let_def split: if_splits)
    have "length vals - nat k * cols = (rows - nat k) * cols" using assms(1) by (simp add: diff_mult_distrib)
    then show ?thesis using True slice [of r h] slice [of r' h'] b by simp
  next
    case False
    then have b: "r = rows - nat \<bar>k\<bar>" "h = nat \<bar>k\<bar>" "r' = 0" "h' = rows - nat \<bar>k\<bar>" "nat \<bar>k\<bar> \<le> rows"
      using assms(2,3) by (auto simp: take_bounds_def drop_bounds_def Let_def split: if_splits)
    have "length vals - (rows - nat \<bar>k\<bar>) * cols = nat \<bar>k\<bar> * cols" using assms(1) b(5) by (simp add: diff_mult_distrib)
    then show ?thesis using False slice [of r h] slice [of r' h'] b by simp
  qed
qed

lemma take_drop_partition_witness:
  "\<exists>a b. slice_block [1, 2, 3, 4, 5, 6 :: nat] 2 2 1 0 2 = Some a \<and> slice_block [1, 2, 3, 4, 5, 6] 2 0 2 0 2 = Some b \<and>
     [1, 2, 3, 4, 5, 6] = b @ a"
proof -
  have "take_bounds 3 (- 1) = Some (2, 1)" "drop_bounds 3 (- 1) = Some (0, 2)"
    by (simp_all add: take_bounds_def drop_bounds_def)
  from take_drop_partition [OF _ this, of "[1, 2, 3, 4, 5, 6 :: nat]" 2] show ?thesis by simp
qed

section \<open>Placing a spill\<close>

definition spill_address :: "ustring \<Rightarrow> nat \<Rightarrow> nat \<Rightarrow> ustring option" where
  "spill_address origin cols step =
    (if step div cols = 0 \<and> step mod cols = 0 then Some origin else shift_address origin (step div cols) (step mod cols))"

definition write_ok_at :: "ustring \<Rightarrow> nat \<Rightarrow> SheetCellRef list \<Rightarrow> ustring set \<Rightarrow> nat \<Rightarrow> ustring \<times> 'v \<Rightarrow> bool" where
  "write_ok_at origin cols cells taken step w \<longleftrightarrow>
    spill_address origin cols step = Some (fst w) \<and>
    (step div cols = 0 \<and> step mod cols = 0 \<or> \<not> cell_blocked cells taken (fst w))"

lemma all_nth_Cons:
  "Q s a \<Longrightarrow> \<forall>i < length xs. Q (Suc s + i) (xs ! i) \<Longrightarrow> \<forall>i < length (a # xs). Q (s + i) ((a # xs) ! i)"
  by (auto simp: less_Suc_eq_0_disj)

lemma place_loop_writes:
  "place_loop origin cols aon cells taken step vs writes = Inr out \<Longrightarrow>
   \<exists>new. out = writes @ new \<and> map snd new = take (length new) vs \<and> (aon \<longrightarrow> length new = length vs) \<and>
     (\<forall>i < length new. write_ok_at origin cols cells taken (step + i) (new ! i))"
proof (induction origin cols aon cells taken step vs writes rule: place_loop.induct)
  case (2 origin cols aon cells taken step v vs writes)
  have go: ?case
    if a: "write_ok_at origin cols cells taken step (address, v)"
    and ih: "\<exists>new. out = (writes @ [(address, v)]) @ new \<and> map snd new = take (length new) vs \<and> (aon \<longrightarrow> length new = length vs) \<and>
       (\<forall>i < length new. write_ok_at origin cols cells taken (step + 1 + i) (new ! i))" for address
  proof -
    obtain new where new: "out = (writes @ [(address, v)]) @ new" "map snd new = take (length new) vs" "aon \<longrightarrow> length new = length vs"
       "\<forall>i < length new. write_ok_at origin cols cells taken (Suc step + i) (new ! i)"
      using ih by auto
    show ?thesis
      by (rule exI [of _ "(address, v) # new"])
        (use new(1-3) all_nth_Cons [of "write_ok_at origin cols cells taken", OF a new(4)] in simp)
  qed
  show ?case
  proof (cases "step div cols = 0 \<and> step mod cols = 0")
    case True
    then show ?thesis using "2.IH"(1) "2.prems" go [of origin] by (simp add: write_ok_at_def spill_address_def)
  next
    case False
    show ?thesis
    proof (cases "shift_address origin (step div cols) (step mod cols)")
      case None
      then show ?thesis using "2.prems" False by (auto simp: Let_def split: if_splits)
    next
      case (Some address)
      show ?thesis
      proof (cases "cell_blocked cells taken address")
        case True
        then show ?thesis using "2.prems" Some False by (auto simp: Let_def split: if_splits)
      next
        case free: False
        have "write_ok_at origin cols cells taken step (address, v)"
          using Some False free by (auto simp: write_ok_at_def spill_address_def)
        then show ?thesis using "2.IH"(2) [OF refl refl False Some free] "2.prems" go [of address] Some False free by (auto simp: Let_def)
      qed
    qed
  qed
qed auto

text \<open>A result that spills writes its values in row-major order from the cell of the formula, and apart from that
  cell only into cells which exist, hold neither a formula nor a text, and were not taken by another spill; when the
  function asks for all or nothing, all of them are written.\<close>

theorem spill_respects_cells:
  assumes "place_spill origin sp cells taken = Some writes"
  shows "map snd writes = take (length writes) (spill_values sp) \<and> fst (writes ! 0) = origin \<and>
    (\<forall>i < length writes. spill_address origin (spill_columns sp) i = Some (fst (writes ! i)) \<and>
       (i = 0 \<or> fst (writes ! i) \<notin> taken \<and>
         (\<exists>c \<in> set cells. cell_address c = fst (writes ! i) \<and> cell_formula c = None \<and> \<not> text_cell c))) \<and>
    (all_or_nothing sp \<longrightarrow> length writes = length (spill_values sp))"
proof -
  have cols: "spill_columns sp \<noteq> 0" and ne: "writes \<noteq> []"
    and loop: "place_loop origin (spill_columns sp) (all_or_nothing sp) cells taken 0 (spill_values sp) [] = Inr writes"
    using assms by (auto simp: place_spill_def split: if_splits sum.splits)
  have free: "address \<notin> taken \<and> (\<exists>c \<in> set cells. cell_address c = address \<and> cell_formula c = None \<and> \<not> text_cell c)"
    if "\<not> cell_blocked cells taken address" for address
    using that by (auto simp: cell_blocked_def find_Some_iff split: option.splits)
  have zero: "i div spill_columns sp = 0 \<and> i mod spill_columns sp = 0 \<longleftrightarrow> i = 0" for i
    using cols by (metis div_0 mod_0 div_mult_mod_eq mult_zero_left add_0)
  have new: "map snd writes = take (length writes) (spill_values sp)"
      "all_or_nothing sp \<longrightarrow> length writes = length (spill_values sp)"
    and ok: "\<forall>i < length writes. write_ok_at origin (spill_columns sp) cells taken i (writes ! i)"
    using place_loop_writes [OF loop] by simp_all
  have "spill_address origin (spill_columns sp) i = Some (fst (writes ! i)) \<and> (i = 0 \<or> \<not> cell_blocked cells taken (fst (writes ! i)))"
    if "i < length writes" for i
    using ok that unfolding write_ok_at_def zero by blast
  moreover from this [of 0] have "fst (writes ! 0) = origin" using ne by (simp add: spill_address_def)
  ultimately show ?thesis using free new by auto
qed

lemma spill_respects_cells_witness:
  "fst ([(lit ''B2'', 1 :: int), (lit ''C2'', 2)] ! 0) = lit ''B2'' \<and>
   place_spill (lit ''B2'') \<lparr>spill_values = [1, 2 :: int], spill_columns = 2, all_or_nothing = True\<rparr>
     [\<lparr>cell_address = lit ''C2'', cell_formula = None, text_cell = False\<rparr>] {} = Some [(lit ''B2'', 1), (lit ''C2'', 2)]"
proof -
  have "split_address (lit ''B2'') = Some (2, 2)"
    by (simp add: split_address_def is_ascii_digit_def column_index_def is_ascii_alphabetic_def ascii_upper_def parse_u32_def digits_value_def)
  moreover have "column_name 3 = [67]" by (subst column_name_eq) simp
  moreover have "nat_text 2 = [50]" by (simp add: nat_text.simps)
  ultimately have shift: "shift_address (lit ''B2'') 0 (Suc 0) = Some (lit ''C2'')"
    by (simp add: shift_address_def)
  have "place_spill (lit ''B2'') \<lparr>spill_values = [1, 2], spill_columns = 2, all_or_nothing = True\<rparr>
     [\<lparr>cell_address = lit ''C2'', cell_formula = None, text_cell = False\<rparr>] {} = Some [(lit ''B2'', 1 :: int), (lit ''C2'', 2)]"
    using shift by (simp add: place_spill_def cell_blocked_def)
  with spill_respects_cells [OF this] show ?thesis by simp
qed

end
