(* ===== verification/Text_Rope.thy ===== *)
theory Text_Rope
  imports Utf8 Unicode_Text
begin

text \<open>
  What the text editor of \<open>src/crates/orchid-viewers/src/text\<close> rests on: strings of code points with their
  UTF-8 bytes, as Rust's \<open>str\<close> has them, and the rope of the \<open>ropey\<close> package as a parameter with the laws of
  its documentation.  The facts about positions (which line and column a character has) are proved from these
  laws.
\<close>

section \<open>Strings and their bytes\<close>

definition scalar :: "uchar \<Rightarrow> bool" where
  "scalar c \<longleftrightarrow> c < 0xD800 \<or> 0xDFFF < c \<and> c < 0x110000"

text \<open>\<open>char::encode_utf8\<close>; \<open>str_bytes\<close> is \<open>str::as_bytes\<close> of a string of code points.\<close>

definition encode_char :: "uchar \<Rightarrow> bytes" where
  "encode_char c =
    map word_of_nat
      (if c < 0x80 then [c]
       else if c < 0x800 then [0xC0 + c div 64, 0x80 + c mod 64]
       else if c < 0x10000 then [0xE0 + c div 4096, 0x80 + c div 64 mod 64, 0x80 + c mod 64]
       else [0xF0 + c div 262144, 0x80 + c div 4096 mod 64, 0x80 + c div 64 mod 64, 0x80 + c mod 64])"

definition str_bytes :: "ustring \<Rightarrow> bytes" where
  "str_bytes s = concat (map encode_char s)"

text \<open>\<open>char::len_utf8\<close>, and the number of characters in the first \<open>n\<close> bytes.\<close>

definition len_utf8 :: "uchar \<Rightarrow> nat" where
  "len_utf8 c = (if c < 0x80 then 1 else if c < 0x800 then 2 else if c < 0x10000 then 3 else 4)"

fun chars_in :: "ustring \<Rightarrow> nat \<Rightarrow> nat" where
  "chars_in [] n = 0"
| "chars_in (c # cs) n = (if n < len_utf8 c then 0 else Suc (chars_in cs (n - len_utf8 c)))"

text \<open>The slice \<open>&s[a..b]\<close> of a string, for byte bounds at character boundaries.\<close>

definition char_slice :: "nat \<Rightarrow> nat \<Rightarrow> ustring \<Rightarrow> ustring" where
  "char_slice a b s = bslice (chars_in s a) (chars_in s b) s"

lemma str_bytes_simps [simp]:
  "str_bytes [] = []" "str_bytes (c # s) = encode_char c @ str_bytes s" "str_bytes (s @ t) = str_bytes s @ str_bytes t"
  by (simp_all add: str_bytes_def)

lemma length_encode_char [simp]: "length (encode_char c) = len_utf8 c"
  by (simp add: encode_char_def len_utf8_def)

lemma len_utf8_pos [simp]: "0 < len_utf8 c"
  by (simp add: len_utf8_def)

lemma encode_char_not_Nil [simp]: "encode_char c \<noteq> []"
  by (simp add: encode_char_def)

lemma word_nat_le: "m < 256 \<Longrightarrow> n < 256 \<Longrightarrow> (word_of_nat m :: u8) \<le> word_of_nat n \<longleftrightarrow> m \<le> n"
  by (simp add: word_le_nat_alt unat_of_nat)

lemma word_nat_less: "m < 256 \<Longrightarrow> n < 256 \<Longrightarrow> (word_of_nat m :: u8) < word_of_nat n \<longleftrightarrow> m < n"
  by (simp add: word_less_nat_alt unat_of_nat)

lemma word_nat_eq: "m < 256 \<Longrightarrow> n < 256 \<Longrightarrow> (word_of_nat m :: u8) = word_of_nat n \<longleftrightarrow> m = n"
  by (metis word_nat_le le_antisym order_refl)

lemma cont_byte_nat: "k < 64 \<Longrightarrow> cont_byte (word_of_nat (0x80 + k))"
  using word_nat_le [of 128 "128 + k"] word_nat_le [of "128 + k" 191] by (simp add: cont_byte_def)

lemma mod_64_cut: "m * 64 \<le> q \<Longrightarrow> q < m * 64 + 64 \<Longrightarrow> q mod 64 = q - m * 64" for q :: nat
  by (metis add.commute div_nat_eqI le_add_diff_inverse2 minus_mod_eq_mult_div mod_less_divisor mult.commute mult_Suc modulo_nat_def)

lemma encode_char_utf8:
  assumes "scalar c"
  shows "utf8_char (encode_char c)"
proof -
  consider "c < 0x80" | "0x80 \<le> c" "c < 0x800" | "0x800 \<le> c" "c < 0x10000" | "0x10000 \<le> c" by linarith
  then show ?thesis
  proof cases
    case 1
    then show ?thesis using word_nat_less [of c 128] by (simp add: encode_char_def utf8_char_def)
  next
    case 2
    let ?a = "0xC0 + c div 64"
    have a: "194 \<le> ?a" "?a \<le> 223" using 2 by (auto simp: div_le_mono)
    have "(word_of_nat ?a :: u8) \<noteq> 0xE0" "(word_of_nat ?a :: u8) \<noteq> 0xED" "(word_of_nat ?a :: u8) \<noteq> 0xF0" "(word_of_nat ?a :: u8) \<noteq> 0xF4"
      using a word_nat_eq [of ?a "0xE0"] word_nat_eq [of ?a "0xED"] word_nat_eq [of ?a "0xF0"] word_nat_eq [of ?a "0xF4"] by auto
    then have "second_ok (word_of_nat ?a) (word_of_nat (0x80 + c mod 64))"
      using cont_byte_nat [of "c mod 64"] by (simp add: second_ok_def)
    moreover have "encode_char c = [word_of_nat ?a, word_of_nat (0x80 + c mod 64)]" using 2 by (simp add: encode_char_def)
    ultimately show ?thesis
      using a word_nat_le [of "0xC2" ?a] word_nat_le [of ?a "0xDF"] by (simp add: utf8_char_def)
  next
    case 3
    let ?a = "0xE0 + c div 4096" and ?b = "0x80 + c div 64 mod 64"
    have a: "224 \<le> ?a" "?a \<le> 239" "?a = 224 \<longleftrightarrow> c < 4096" "?a = 237 \<longleftrightarrow> 0xD000 \<le> c \<and> c < 0xE000"
      using 3 by linarith+
    have b: "128 \<le> ?b" "?b \<le> 191" using mod_less_divisor [of 64 "c div 64"] by linarith+
    have "c < 4096 \<Longrightarrow> 160 \<le> ?b" using 3 mod_64_cut [of 0 "c div 64"] by linarith
    moreover have "0xD000 \<le> c \<Longrightarrow> c < 0xE000 \<Longrightarrow> ?b \<le> 159"
    proof -
      assume "0xD000 \<le> c" "c < 0xE000"
      then have "c < 0xD800" using assms by (auto simp: scalar_def)
      then show ?thesis using \<open>0xD000 \<le> c\<close> mod_64_cut [of 13 "c div 64"] by linarith
    qed
    ultimately have "second_ok (word_of_nat ?a) (word_of_nat ?b)"
      using a b word_nat_eq [of ?a "0xE0"] word_nat_eq [of ?a "0xED"] word_nat_eq [of ?a "0xF0"] word_nat_eq [of ?a "0xF4"]
        word_nat_le [of "0xA0" ?b] word_nat_le [of ?b "0xBF"] word_nat_le [of "0x80" ?b] word_nat_le [of ?b "0x9F"]
      by (auto simp: second_ok_def cont_byte_def)
    moreover have "encode_char c = [word_of_nat ?a, word_of_nat ?b, word_of_nat (0x80 + c mod 64)]"
      using 3 by (simp add: encode_char_def)
    ultimately show ?thesis
      using a word_nat_less [of "0xDF" ?a] word_nat_le [of ?a "0xEF"] cont_byte_nat [of "c mod 64"] by (simp add: utf8_char_def)
  next
    case 4
    let ?a = "0xF0 + c div 262144" and ?b = "0x80 + c div 4096 mod 64"
    have c: "c < 0x110000" using assms 4 by (auto simp: scalar_def)
    have a: "240 \<le> ?a" "?a \<le> 244" "?a = 240 \<longleftrightarrow> c < 0x40000" "?a = 244 \<longleftrightarrow> 0x100000 \<le> c"
      using 4 c by linarith+
    have b: "128 \<le> ?b" "?b \<le> 191" using mod_less_divisor [of 64 "c div 4096"] by linarith+
    have "c < 0x40000 \<Longrightarrow> 144 \<le> ?b" using 4 mod_64_cut [of 0 "c div 4096"] by linarith
    moreover have "0x100000 \<le> c \<Longrightarrow> ?b \<le> 143" using c mod_64_cut [of 4 "c div 4096"] by linarith
    ultimately have "second_ok (word_of_nat ?a) (word_of_nat ?b)"
      using a b word_nat_eq [of ?a "0xE0"] word_nat_eq [of ?a "0xED"] word_nat_eq [of ?a "0xF0"] word_nat_eq [of ?a "0xF4"]
        word_nat_le [of "0x90" ?b] word_nat_le [of ?b "0xBF"] word_nat_le [of "0x80" ?b] word_nat_le [of ?b "0x8F"]
      by (auto simp: second_ok_def cont_byte_def)
    moreover have "encode_char c = [word_of_nat ?a, word_of_nat ?b, word_of_nat (0x80 + c div 64 mod 64), word_of_nat (0x80 + c mod 64)]"
      using 4 by (simp add: encode_char_def)
    ultimately show ?thesis
      using a word_nat_less [of "0xEF" ?a] word_nat_le [of ?a "0xF4"] cont_byte_nat [of "c mod 64"] cont_byte_nat [of "c div 64 mod 64"]
      by (simp add: utf8_char_def)
  qed
qed


text \<open>The bytes of a string determine its characters.\<close>

definition char_nats :: "uchar \<Rightarrow> nat list" where
  "char_nats c =
    (if c < 0x80 then [c]
     else if c < 0x800 then [0xC0 + c div 64, 0x80 + c mod 64]
     else if c < 0x10000 then [0xE0 + c div 4096, 0x80 + c div 64 mod 64, 0x80 + c mod 64]
     else [0xF0 + c div 262144, 0x80 + c div 4096 mod 64, 0x80 + c div 64 mod 64, 0x80 + c mod 64])"

lemma mod_64_256: "x mod 64 < (128::nat)"
  using mod_less_divisor [of 64 x] by linarith

lemma unat_encode_char:
  assumes "scalar c"
  shows "map unat (encode_char c) = char_nats c"
proof -
  have c: "c < 0x110000" using assms by (auto simp: scalar_def)
  have "\<forall>n \<in> set (char_nats c). n < 256"
    using c mod_64_256 by (auto simp: char_nats_def)
  moreover have "encode_char c = map word_of_nat (char_nats c)" by (simp add: encode_char_def char_nats_def)
  ultimately show ?thesis by (auto simp: unat_of_nat intro!: map_idI)
qed

lemma nat_64_cut: "x div 64 = y div 64 \<Longrightarrow> x mod 64 = y mod 64 \<Longrightarrow> x = (y::nat)"
  by (metis div_mult_mod_eq)

lemma char_nats_prefix:
  assumes "scalar c" "scalar d" "char_nats c @ x = char_nats d @ y"
  shows "c = d"
proof -
  have lt: "c < 0x110000" "d < 0x110000" using assms by (auto simp: scalar_def)
  have e: "c div 4096 = c div 64 div 64" "d div 4096 = d div 64 div 64"
    "c div 262144 = c div 64 div 64 div 64" "d div 262144 = d div 64 div 64 div 64"
    by (simp_all add: div_mult2_eq [symmetric])
  have heads: "hd (char_nats c) = hd (char_nats d)"
    using assms(3) by (auto simp: char_nats_def split: if_splits)
  have small: "c < 0x800 \<Longrightarrow> c div 64 < 32" "d < 0x800 \<Longrightarrow> d div 64 < 32" "c < 0x10000 \<Longrightarrow> c div 64 div 64 < 16"
    "d < 0x10000 \<Longrightarrow> d div 64 div 64 < 16" by (simp_all add: div_less_iff_less_mult)
  have same: "c < 0x80 \<longleftrightarrow> d < 0x80" "c < 0x800 \<longleftrightarrow> d < 0x800" "c < 0x10000 \<longleftrightarrow> d < 0x10000"
    using heads small lt unfolding char_nats_def e by (auto split: if_splits)
  show ?thesis
    using assms(3) same unfolding char_nats_def e by (auto split: if_splits intro!: nat_64_cut)
qed

lemma encode_char_prefix:
  assumes "scalar c" "scalar d" "encode_char c @ x = encode_char d @ y"
  shows "c = d \<and> x = y"
proof -
  have "char_nats c @ map unat x = char_nats d @ map unat y"
    using arg_cong [OF assms(3), of "map unat"] by (simp add: unat_encode_char assms(1,2))
  then have "c = d" using char_nats_prefix assms(1,2) by blast
  then show ?thesis using assms(3) by simp
qed

abbreviation str_ok :: "ustring \<Rightarrow> bool" where
  "str_ok s \<equiv> (\<forall>c \<in> set s. scalar c)"

lemma str_bytes_Nil_iff [simp]: "str_bytes s = [] \<longleftrightarrow> s = []" "[] = str_bytes s \<longleftrightarrow> s = []"
  by (cases s; simp)+

lemma str_bytes_prefix: "str_ok s \<Longrightarrow> str_ok t \<Longrightarrow> str_bytes s @ x = str_bytes t \<Longrightarrow> \<exists>t'. t = s @ t' \<and> x = str_bytes t'"
proof (induction s arbitrary: t)
  case (Cons c s)
  then obtain d t2 where t: "t = d # t2" by (cases t) auto
  have "c = d \<and> str_bytes s @ x = str_bytes t2"
    using Cons.prems t by (intro encode_char_prefix) auto
  then show ?case using Cons.IH [of t2] Cons.prems t by auto
qed simp

lemma str_bytes_inj: "str_ok s \<Longrightarrow> str_ok t \<Longrightarrow> str_bytes s = str_bytes t \<longleftrightarrow> s = t"
  using str_bytes_prefix [of s t "[]"] by auto

lemma str_bytes_valid: "str_ok s \<Longrightarrow> utf8_valid (str_bytes s)"
  by (induction s) (simp_all add: utf8_char_append encode_char_utf8)

lemma take_str_bytes: "take (length (str_bytes (take i s))) (str_bytes s) = str_bytes (take i s)"
  by (metis append_eq_conv_conj append_take_drop_id str_bytes_simps(3))

lemma drop_str_bytes: "drop (length (str_bytes (take i s))) (str_bytes s) = str_bytes (drop i s)"
  by (metis append_eq_conv_conj append_take_drop_id str_bytes_simps(3))

lemma chars_in_take [simp]: "i \<le> length s \<Longrightarrow> chars_in s (length (str_bytes (take i s))) = i"
proof (induction s arbitrary: i)
  case (Cons c s)
  then show ?case by (cases i) auto
qed simp

lemma length_str_bytes_mono: "i \<le> j \<Longrightarrow> length (str_bytes (take i s)) \<le> length (str_bytes (take j s))"
  by (metis le_add1 length_append min_def str_bytes_simps(3) take_add take_take le_add_diff_inverse)

text \<open>The character boundaries are the byte lengths of the prefixes.\<close>

lemma boundary_of_prefix:
  assumes "str_ok s"
  shows "is_char_boundary (str_bytes s) (length (str_bytes (take i s)))"
proof (cases "i < length s")
  case True
  then have d: "drop i s = s ! i # drop (Suc i) s" by (simp add: Cons_nth_drop_Suc)
  have "\<not> cont_byte (hd (encode_char (s ! i)))" using utf8_char_lead [OF encode_char_utf8] assms True by auto
  moreover have "str_bytes s = str_bytes (take i s) @ encode_char (s ! i) @ str_bytes (drop (Suc i) s)"
    by (metis append_take_drop_id d str_bytes_simps(2,3))
  ultimately show ?thesis by (simp add: is_char_boundary_def nth_append cont_byte_and hd_conv_nth)
qed (simp add: is_char_boundary_def)

lemma prefix_of_boundary:
  "str_ok s \<Longrightarrow> is_char_boundary (str_bytes s) n \<Longrightarrow> n \<le> length (str_bytes s) \<Longrightarrow>
   \<exists>i \<le> length s. n = length (str_bytes (take i s))"
proof (induction s arbitrary: n)
  case (Cons c s)
  have "n = 0 \<or> length (encode_char c) \<le> n"
    using utf8_char_boundary [OF encode_char_utf8] Cons.prems by auto
  then show ?case
  proof
    assume le: "length (encode_char c) \<le> n"
    have "is_char_boundary (str_bytes s) (n - len_utf8 c)"
      using Cons.prems(2) le by (auto simp: is_char_boundary_def nth_append not_less)
    moreover have "str_ok s" "n - len_utf8 c \<le> length (str_bytes s)" using Cons.prems le by auto
    ultimately obtain i where "i \<le> length s" "n - len_utf8 c = length (str_bytes (take i s))"
      using Cons.IH by blast
    then show ?thesis using le by (intro exI [of _ "Suc i"]) simp
  qed (intro exI [of _ 0], simp)
qed simp

section \<open>Ropes\<close>

text \<open>
  The operations of \<open>ropey::Rope\<close> that the text buffer calls.  The rope is a third-party structure, so it is a
  parameter of the model: \<open>rope_contract\<close> states what its documentation promises.  A rope is a sequence
  of characters, cut into lines after each Unicode line break.
\<close>

record 'r rope_ops =
  rope_from_str :: "ustring \<Rightarrow> 'r"
  rope_text :: "'r \<Rightarrow> ustring"
  rope_insert :: "nat \<Rightarrow> ustring \<Rightarrow> 'r \<Rightarrow> 'r"
  rope_remove :: "nat \<Rightarrow> nat \<Rightarrow> 'r \<Rightarrow> 'r"
  rope_slice :: "nat \<Rightarrow> nat \<Rightarrow> 'r \<Rightarrow> ustring"
  len_chars :: "'r \<Rightarrow> nat"
  len_bytes :: "'r \<Rightarrow> nat"
  len_lines :: "'r \<Rightarrow> nat"
  rope_line :: "'r \<Rightarrow> nat \<Rightarrow> ustring"
  line_to_char :: "'r \<Rightarrow> nat \<Rightarrow> nat"
  char_to_line :: "'r \<Rightarrow> nat \<Rightarrow> nat"
  chunks :: "'r \<Rightarrow> bytes list"
  rope_byte_to_char :: "'r \<Rightarrow> nat \<Rightarrow> nat"
  char_to_byte :: "'r \<Rightarrow> nat \<Rightarrow> nat"

definition is_line_break :: "uchar \<Rightarrow> bool" where
  "is_line_break c \<longleftrightarrow> (if c \<le> 13 then 10 \<le> c else 0x80 < c \<and> (c = 0x85 \<or> c = 0x2028 \<or> c = 0x2029))"

locale rope_contract =
  fixes R :: "'r rope_ops"
  assumes text_from [simp]: "rope_text R (rope_from_str R s) = s"
    and text_insert [simp]: "i \<le> length (rope_text R r) \<Longrightarrow>
      rope_text R (rope_insert R i s r) = take i (rope_text R r) @ s @ drop i (rope_text R r)"
    and text_remove [simp]: "a \<le> b \<Longrightarrow> b \<le> length (rope_text R r) \<Longrightarrow>
      rope_text R (rope_remove R a b r) = take a (rope_text R r) @ drop b (rope_text R r)"
    and text_slice [simp]: "a \<le> b \<Longrightarrow> b \<le> length (rope_text R r) \<Longrightarrow> rope_slice R a b r = bslice a b (rope_text R r)"
    and len_chars [simp]: "len_chars R r = length (rope_text R r)"
    and len_bytes [simp]: "len_bytes R r = length (str_bytes (rope_text R r))"
    and chunks_bytes [simp]: "concat (chunks R r) = str_bytes (rope_text R r)"
    and byte_to_char [simp]: "i \<le> length (rope_text R r) \<Longrightarrow>
      rope_byte_to_char R r (length (str_bytes (take i (rope_text R r)))) = i"
    and char_to_byte [simp]: "i \<le> length (rope_text R r) \<Longrightarrow>
      char_to_byte R r i = length (str_bytes (take i (rope_text R r)))"
    and len_lines_pos [simp]: "0 < len_lines R r"
    and lines_concat: "concat (map (rope_line R r) [0..<len_lines R r]) = rope_text R r"
    and line_start: "k \<le> len_lines R r \<Longrightarrow> line_to_char R r k = length (concat (map (rope_line R r) [0..<k]))"
    and line_inner: "k < len_lines R r \<Longrightarrow> 10 \<notin> set (butlast (rope_line R r k))"
    and line_end: "Suc k < len_lines R r \<Longrightarrow> rope_line R r k \<noteq> [] \<and> is_line_break (last (rope_line R r k))"
    and last_line: "10 \<notin> set (rope_line R r (len_lines R r - 1))"
    and char_line: "i \<le> length (rope_text R r) \<Longrightarrow>
      char_to_line R r i < len_lines R r \<and> line_to_char R r (char_to_line R r i) \<le> i \<and>
      (Suc (char_to_line R r i) < len_lines R r \<longrightarrow> i < line_to_char R r (Suc (char_to_line R r i)))"

text \<open>The position of the end of a text whose only line breaks are line feeds.\<close>

definition lf_text :: "ustring \<Rightarrow> bool" where
  "lf_text s \<longleftrightarrow> (\<forall>c \<in> set s. is_line_break c \<longrightarrow> c = 10)"

definition end_pos :: "ustring \<Rightarrow> nat \<times> nat" where
  "end_pos p = (count_list p 10, length (takeWhile (\<lambda>c. c \<noteq> 10) (rev p)))"

lemma end_pos_append:
  "end_pos (p @ t) = (if 10 \<in> set t then (fst (end_pos p) + fst (end_pos t), snd (end_pos t))
     else (fst (end_pos p), snd (end_pos p) + length t))"
  by (auto simp: end_pos_def takeWhile_append count_list_0_iff)

lemma count_line: "l \<noteq> [] \<Longrightarrow> last l = 10 \<Longrightarrow> 10 \<notin> set (butlast l) \<Longrightarrow> count_list l (10::nat) = 1"
  by (cases l rule: rev_cases) (auto simp: count_list_0_iff)

lemma end_pos_line_ends:
  assumes "\<forall>l \<in> set ls. l \<noteq> [] \<and> last l = 10 \<and> 10 \<notin> set (butlast l)" "10 \<notin> set p"
  shows "end_pos (concat ls @ p) = (length ls, length p)"
proof -
  have c: "count_list (concat ls) 10 = length ls" using assms(1) by (induction ls) (auto simp: count_line)
  have "takeWhile (\<lambda>c. c \<noteq> 10) (rev (concat ls)) = []"
  proof (cases ls rule: rev_cases)
    case (snoc ys l)
    then have "l \<noteq> [] \<and> last l = 10" using assms(1) by simp
    then show ?thesis using snoc by (cases l rule: rev_cases) simp_all
  qed simp
  then have "end_pos (concat ls) = (length ls, 0)" using c by (simp add: end_pos_def)
  then show ?thesis using assms(2) by (simp add: end_pos_append)
qed


context rope_contract
begin

lemma line_start_Suc: "k < len_lines R r \<Longrightarrow> line_to_char R r (Suc k) = line_to_char R r k + length (rope_line R r k)"
  by (simp add: line_start)

lemma line_start_0 [simp]: "line_to_char R r 0 = 0"
  by (simp add: line_start)

lemma line_to_char_len [simp]: "line_to_char R r (len_lines R r) = length (rope_text R r)"
  using lines_concat [of r] by (simp add: line_start)

lemma line_start_mono: "j \<le> k \<Longrightarrow> k \<le> len_lines R r \<Longrightarrow> line_to_char R r j \<le> line_to_char R r k"
proof (induction rule: dec_induct)
  case (step n)
  then show ?case using line_start_Suc [of n r] by simp
qed simp

lemma line_in_text:
  assumes "k < len_lines R r"
  shows "rope_line R r k = bslice (line_to_char R r k) (line_to_char R r (Suc k)) (rope_text R r)"
proof -
  have "[0..<len_lines R r] = [0..<k] @ k # [Suc k..<len_lines R r]"
    using assms by (metis less_imp_le_nat upt_add_eq_append upt_conv_Cons le_add_diff_inverse zero_le)
  then have "rope_text R r = concat (map (rope_line R r) [0..<k]) @ rope_line R r k @
      concat (map (rope_line R r) [Suc k..<len_lines R r])"
    by (metis concat.simps(2) concat_append list.simps(9) lines_concat map_append)
  then show ?thesis using assms by (simp add: line_start bslice_append_exact)
qed

text \<open>A position found by \<open>char_to_line\<close> lies within its line, before the line feed that ends it.\<close>

lemma column_in_line:
  assumes "i \<le> length (rope_text R r)"
  defines "k \<equiv> char_to_line R r i"
  shows "k < len_lines R r" "line_to_char R r k \<le> i" "i \<le> line_to_char R r (Suc k)"
    "rope_line R r k \<noteq> [] \<Longrightarrow> last (rope_line R r k) = 10 \<Longrightarrow> i < line_to_char R r (Suc k)"
    "10 \<notin> set (take (i - line_to_char R r k) (rope_line R r k))"
proof -
  note c = char_line [OF assms(1), folded k_def]
  show k: "k < len_lines R r" "line_to_char R r k \<le> i" using c by auto
  have last: "Suc k = len_lines R r" if "\<not> Suc k < len_lines R r" using that k by simp
  then show le: "i \<le> line_to_char R r (Suc k)" 
  proof (cases "Suc k < len_lines R r")
    case False
    then show ?thesis using last [OF False] assms(1) by (simp only: line_to_char_len)
  qed (use c in auto)
  show lt: "i < line_to_char R r (Suc k)" if "rope_line R r k \<noteq> []" "last (rope_line R r k) = 10"
    using that c last last_line [of r] by (metis diff_Suc_1 last_in_set)
  show "10 \<notin> set (take (i - line_to_char R r k) (rope_line R r k))"
  proof (cases "rope_line R r k = [] \<or> last (rope_line R r k) \<noteq> 10")
    case True
    then have "10 \<notin> set (rope_line R r k)" using line_inner [OF k(1)]
      by (cases "rope_line R r k" rule: rev_cases) auto
    then show ?thesis by (meson in_set_takeD)
  next
    case False
    then have "i - line_to_char R r k \<le> length (butlast (rope_line R r k))"
      using lt line_start_Suc [OF k(1)] k(2) by (auto simp: length_butlast)
    then have "take (i - line_to_char R r k) (rope_line R r k) = take (i - line_to_char R r k) (butlast (rope_line R r k))"
      by (metis append_butlast_last_id append_Nil2 diff_is_0_eq take_0 take_append False)
    then show ?thesis using line_inner [OF k(1)] by (metis in_set_takeD)
  qed
qed

text \<open>In a text whose only line breaks are line feeds, a position depends only on the text before it.\<close>

lemma lf_position:
  assumes "lf_text (rope_text R r)" "i \<le> length (rope_text R r)"
  shows "end_pos (take i (rope_text R r)) = (char_to_line R r i, i - line_to_char R r (char_to_line R r i))"
proof -
  let ?k = "char_to_line R r i"
  note col = column_in_line [OF assms(2)]
  let ?ls = "map (rope_line R r) [0..<?k]"
  let ?p = "take (i - line_to_char R r ?k) (rope_line R r ?k)"
  have "rope_line R r ?k = bslice (line_to_char R r ?k) (line_to_char R r (Suc ?k)) (rope_text R r)"
    using line_in_text col(1) by blast
  then have p: "?p = bslice (line_to_char R r ?k) i (rope_text R r)" using col(3) by (simp add: bslice_def min_def)
  have pre: "take (line_to_char R r ?k) (rope_text R r) = concat ?ls"
  proof -
    have "[0..<len_lines R r] = [0..<?k] @ [?k..<len_lines R r]" using col(1) by (metis less_imp_le_nat upt_add_eq_append le_add_diff_inverse zero_le)
    then have "rope_text R r = concat ?ls @ concat (map (rope_line R r) [?k..<len_lines R r])"
      by (metis concat_append lines_concat map_append)
    moreover have "line_to_char R r ?k = length (concat ?ls)" using line_start col(1) by simp
    ultimately show ?thesis by (metis append_eq_conv_conj)
  qed
  have "take i (rope_text R r) = take (line_to_char R r ?k) (rope_text R r) @ ?p"
    unfolding p bslice_def using col(2) by (metis le_add_diff_inverse take_add)
  also have "\<dots> = concat ?ls @ ?p" by (simp add: pre)
  finally have split: "take i (rope_text R r) = concat ?ls @ ?p" .
  have "l \<noteq> [] \<and> last l = 10 \<and> 10 \<notin> set (butlast l)" if l: "l \<in> set ?ls" for l
  proof -
    obtain j where j: "l = rope_line R r j" "j < ?k" using l by auto
    have "set l \<subseteq> set (rope_text R r)" unfolding j(1) using line_in_text [of j r] j(2) col(1)
      by (auto simp: bslice_def dest: in_set_takeD in_set_dropD)
    then show ?thesis using line_end [of j r] line_inner [of j r] j col(1) assms(1)
      by (metis Suc_leI last_in_set le_less_trans lf_text_def order_less_trans subsetD)
  qed
  moreover have "length ?p = i - line_to_char R r ?k"
    using p col(2) assms(2) by simp
  ultimately show ?thesis using end_pos_line_ends [of ?ls ?p] col(5) split by simp
qed

end

section \<open>A rope\<close>

text \<open>
  The contract is satisfiable: the plain string, with its lines cut after each line break, a carriage return
  and a line feed being one.
\<close>

fun cut_lines :: "ustring \<Rightarrow> ustring list" where
  "cut_lines [] = [[]]"
| "cut_lines (c # s) =
    (if c = 13 \<and> s \<noteq> [] \<and> hd s = 10 then [13, 10] # cut_lines (List.tl s)
     else if is_line_break c then [c] # cut_lines s
     else (case cut_lines s of l # ls \<Rightarrow> (c # l) # ls | [] \<Rightarrow> [[c]]))"

definition start_of :: "ustring \<Rightarrow> nat \<Rightarrow> nat" where
  "start_of s k = length (concat (take k (cut_lines s)))"

definition text_rope :: "ustring rope_ops" where
  "text_rope =
    \<lparr>rope_from_str = id, rope_text = id, rope_insert = (\<lambda>i s t. take i t @ s @ drop i t),
     rope_remove = (\<lambda>a b t. take a t @ drop b t), rope_slice = bslice, len_chars = length,
     len_bytes = (\<lambda>t. length (str_bytes t)), len_lines = (\<lambda>t. length (cut_lines t)),
     rope_line = (\<lambda>t k. cut_lines t ! k), line_to_char = start_of,
     char_to_line = (\<lambda>t i. length (filter (\<lambda>k. start_of t k \<le> i) [1..<length (cut_lines t)])),
     chunks = (\<lambda>t. [str_bytes t]), rope_byte_to_char = chars_in, char_to_byte = (\<lambda>t i. length (str_bytes (take i t)))\<rparr>"

lemma cut_lines_not_Nil [simp]: "cut_lines s \<noteq> []"
  by (cases s) (auto split: list.split)

lemma cut_lines_shape:
  "concat (cut_lines s) = s \<and>
   (\<exists>ls l. cut_lines s = ls @ [l] \<and> 10 \<notin> set l \<and> (\<forall>x \<in> set ls. x \<noteq> [] \<and> is_line_break (last x) \<and> 10 \<notin> set (butlast x)))"
proof (induction s rule: cut_lines.induct)
  case (2 c s)
  consider "c = 13 \<and> s \<noteq> [] \<and> hd s = 10" | "\<not> (c = 13 \<and> s \<noteq> [] \<and> hd s = 10)" "is_line_break c" | "\<not> is_line_break c" "\<not> (c = 13 \<and> s \<noteq> [] \<and> hd s = 10)"
    by (auto simp: is_line_break_def)
  then show ?case
  proof cases
    case 1
    then obtain ls l where "cut_lines (List.tl s) = ls @ [l]" "10 \<notin> set l" "concat (cut_lines (List.tl s)) = List.tl s"
      "\<forall>x \<in> set ls. x \<noteq> [] \<and> is_line_break (last x) \<and> 10 \<notin> set (butlast x)" using 2(1) by auto
    then show ?thesis using 1 by (cases s) (auto simp: is_line_break_def intro!: exI [of _ "[13, 10] # ls"])
  next
    case 2
    with "2.IH"(2) obtain ls l where "cut_lines s = ls @ [l]" "10 \<notin> set l" "concat (cut_lines s) = s"
      "\<forall>x \<in> set ls. x \<noteq> [] \<and> is_line_break (last x) \<and> 10 \<notin> set (butlast x)" by auto
    then show ?thesis using 2 by (intro conjI exI [of _ "[c] # ls"] exI [of _ l]) auto
  next
    case 3
    with "2.IH"(3) obtain ls l where ls: "cut_lines s = ls @ [l]" "10 \<notin> set l" "concat (cut_lines s) = s"
      "\<forall>x \<in> set ls. x \<noteq> [] \<and> is_line_break (last x) \<and> 10 \<notin> set (butlast x)" by auto
    have c: "c \<noteq> 10" using 3 by (auto simp: is_line_break_def)
    show ?thesis
    proof (cases ls)
      case Nil
      then show ?thesis using 3 ls c by (intro conjI exI [of _ "[]"] exI [of _ "c # l"]) auto
    next
      case (Cons x xs)
      then show ?thesis using 3 ls c by (intro conjI exI [of _ "(c # x) # xs"] exI [of _ l]) auto
    qed
  qed
qed simp

lemma start_of_strict: "Suc j < length (cut_lines s) \<Longrightarrow> start_of s j < start_of s (Suc j)"
proof -
  assume "Suc j < length (cut_lines s)"
  moreover obtain ls l where "cut_lines s = ls @ [l]" "\<forall>x \<in> set ls. x \<noteq> []" using cut_lines_shape [of s] by blast
  ultimately show ?thesis by (auto simp: start_of_def take_Suc_conv_app_nth nth_append)
qed

lemma start_of_mono: "j \<le> k \<Longrightarrow> start_of s j \<le> start_of s k"
  by (metis concat_append le_add1 le_add_diff_inverse length_append start_of_def take_add)

lemma start_of_0 [simp]: "start_of s 0 = 0"
  by (simp add: start_of_def)

text \<open>Counting the starts up to a character finds its line.\<close>

lemma filter_count_prefix:
  "(\<forall>j k. j \<le> k \<longrightarrow> P k \<longrightarrow> P j) \<Longrightarrow> filter P [1..<Suc n] = [1..<Suc (length (filter P [1..<Suc n]))]"
proof (induction n)
  case (Suc n)
  show ?case
  proof (cases "P (Suc n)")
    case True
    then have "\<forall>k \<in> set [1..<Suc (Suc n)]. P k" using Suc.prems True by (metis atLeastLessThan_iff set_upt less_Suc_eq_le)
    then have "filter P [1..<Suc (Suc n)] = [1..<Suc (Suc n)]" by (rule filter_True)
    then show ?thesis by (metis diff_Suc_1 length_upt One_nat_def)
  next
    case False
    then have "filter P [1..<Suc (Suc n)] = filter P [1..<Suc n]" by simp
    then show ?thesis using Suc by metis
  qed
qed simp

lemma text_rope_sel [simp]:
  "rope_from_str text_rope s = s" "rope_text text_rope s = s"
  "rope_insert text_rope i t s = take i s @ t @ drop i s" "rope_remove text_rope a b s = take a s @ drop b s"
  "rope_slice text_rope = bslice" "len_chars text_rope s = length s" "len_bytes text_rope s = length (str_bytes s)"
  "len_lines text_rope s = length (cut_lines s)" "rope_line text_rope s k = cut_lines s ! k"
  "line_to_char text_rope s k = start_of s k" "chunks text_rope s = [str_bytes s]"
  "rope_byte_to_char text_rope s n = chars_in s n" "char_to_byte text_rope s i = length (str_bytes (take i s))"
  by (simp_all add: text_rope_def)

lemma char_line_found:
  assumes "k = length (filter (\<lambda>k. start_of s k \<le> i) [1..<length (cut_lines s)])"
  shows "k < length (cut_lines s)" "start_of s k \<le> i" "Suc k < length (cut_lines s) \<Longrightarrow> i < start_of s (Suc k)"
proof -
  obtain n where n: "length (cut_lines s) = Suc n" by (cases "cut_lines s") auto
  have f: "filter (\<lambda>k. start_of s k \<le> i) [1..<Suc n] = [1..<Suc k]"
    using filter_count_prefix [of "\<lambda>k. start_of s k \<le> i" n] start_of_mono [of _ _ s] assms n by (metis order_trans)
  have "length (filter (\<lambda>k. start_of s k \<le> i) [1..<Suc n]) \<le> length [1..<Suc n]" by (rule length_filter_le)
  then have "k \<le> n" using assms n by (simp del: upt_Suc)
  then show "k < length (cut_lines s)" using n by simp
  have mem: "j \<in> set (filter (\<lambda>k. start_of s k \<le> i) [1..<Suc n]) \<longleftrightarrow> 1 \<le> j \<and> j \<le> k" for j
    unfolding f by auto
  show "start_of s k \<le> i" using mem [of k] by (cases "k = 0") auto
  show "i < start_of s (Suc k)" if "Suc k < length (cut_lines s)"
    using mem [of "Suc k"] that n by (simp del: upt_Suc)
qed

interpretation text_rope: rope_contract text_rope
proof unfold_locales
  fix s :: ustring and k i :: nat
  obtain ls l where ls: "cut_lines s = ls @ [l]" "10 \<notin> set l" "concat (cut_lines s) = s"
    "\<forall>x \<in> set ls. x \<noteq> [] \<and> is_line_break (last x) \<and> 10 \<notin> set (butlast x)" using cut_lines_shape by blast
  show "concat (map (rope_line text_rope s) [0..<len_lines text_rope s]) = rope_text text_rope s"
    using ls(3) map_nth [of "cut_lines s"] by (simp cong: map_cong)
  show "k \<le> len_lines text_rope s \<Longrightarrow>
      line_to_char text_rope s k = length (concat (map (rope_line text_rope s) [0..<k]))"
    using take_map [of k "(!) (cut_lines s)" "[0..<length (cut_lines s)]"] map_nth [of "cut_lines s"]
    by (simp add: start_of_def cong: map_cong)
  show "k < len_lines text_rope s \<Longrightarrow> 10 \<notin> set (butlast (rope_line text_rope s k))"
    using ls by (auto simp: nth_append less_Suc_eq dest: in_set_butlastD)
  show "Suc k < len_lines text_rope s \<Longrightarrow> rope_line text_rope s k \<noteq> [] \<and> is_line_break (last (rope_line text_rope s k))"
    using ls by (auto simp: nth_append)
  show "10 \<notin> set (rope_line text_rope s (len_lines text_rope s - 1))" using ls by simp
  show "i \<le> length (rope_text text_rope s) \<Longrightarrow>
      char_to_line text_rope s i < len_lines text_rope s \<and> line_to_char text_rope s (char_to_line text_rope s i) \<le> i \<and>
      (Suc (char_to_line text_rope s i) < len_lines text_rope s \<longrightarrow> i < line_to_char text_rope s (Suc (char_to_line text_rope s i)))"
    using char_line_found [of "char_to_line text_rope s i" s i] by (simp add: text_rope_def)
qed simp_all
end
