(* ===== verification/Text_Buffer.thy ===== *)
theory Text_Buffer
  imports Text_Rope
begin

text \<open>
  The text buffer of the text viewer (\<open>src/crates/orchid-viewers/src/text/buffer.rs\<close>): loading and saving
  with detected encoding and line endings, positions, edits, and the search for the one span in which the
  buffer differs from a new text.  The rope is the parameter \<open>R\<close>, the character encodings of the
  \<open>encoding_rs\<close> and \<open>chardetng\<close> packages are the parameter \<open>E\<close>.  Line and column numbers are natural
  numbers: files of more than 50 MiB are not opened, so they stay far below the range of \<open>u32\<close>.
\<close>

datatype viewer_error = EditOutOfBounds | TextDecode ustring

datatype LineEnding = Lf | Crlf

record ('r, 'e) TextBuffer =
  rope :: 'r
  line_ending :: LineEnding
  encoding :: 'e
  buffer_dirty :: bool

record 'e codecs =
  decode :: "'e \<Rightarrow> bytes \<Rightarrow> ustring"
  encode :: "'e \<Rightarrow> ustring \<Rightarrow> bytes \<times> bool"
  for_label :: "ustring \<Rightarrow> 'e option"
  guess_encoding :: "bytes \<Rightarrow> 'e"
  enc_utf8 :: 'e
  enc_utf16le :: 'e
  enc_utf16be :: 'e
  encoding_name :: "'e \<Rightarrow> ustring"

section \<open>Loading and saving\<close>

definition strip_bom :: "'e codecs \<Rightarrow> bytes \<Rightarrow> bytes \<times> 'e option" where
  "strip_bom E bs =
    (if starts_with [0xEF, 0xBB, 0xBF] bs then (drop 3 bs, Some (enc_utf8 E))
     else if starts_with [0xFF, 0xFE] bs then (drop 2 bs, Some (enc_utf16le E))
     else if starts_with [0xFE, 0xFF] bs then (drop 2 bs, Some (enc_utf16be E))
     else (bs, None))"

definition detect_encoding :: "'e codecs \<Rightarrow> bytes \<Rightarrow> 'e" where
  "detect_encoding E sample = guess_encoding E (take (4 * 1024) sample)"

fun count_breaks :: "uchar option \<Rightarrow> ustring \<Rightarrow> nat \<times> nat \<Rightarrow> nat \<times> nat" where
  "count_breaks prev [] n = n"
| "count_breaks prev (c # cs) (crlf, lf) =
    count_breaks (Some c) cs
      (if c = 10 then (if prev = Some 13 then (crlf + 1, lf) else (crlf, lf + 1)) else (crlf, lf))"

definition detect_line_ending :: "ustring \<Rightarrow> LineEnding" where
  "detect_line_ending sample = (case count_breaks None (take 4096 sample) (0, 0) of (crlf, lf) \<Rightarrow> if lf < crlf then Crlf else Lf)"

text \<open>The reader \<open>SkipCrlf\<close>, and \<open>str::replace\<close> as \<open>to_bytes\<close> and \<open>replace_content\<close> use it.\<close>

fun skip_crlf :: "ustring \<Rightarrow> ustring" where
  "skip_crlf [] = []"
| "skip_crlf (c # s) = (if c = 13 \<and> s \<noteq> [] \<and> hd s = 10 then skip_crlf s else c # skip_crlf s)"

definition restore_crlf :: "ustring \<Rightarrow> ustring" where
  "restore_crlf s = concat (map (\<lambda>c. if c = 10 then [13, 10] else [c]) s)"

definition rope_from_decoded :: "'r rope_ops \<Rightarrow> ustring \<Rightarrow> LineEnding \<Rightarrow> 'r" where
  "rope_from_decoded R s le = rope_from_str R (if le = Crlf then skip_crlf s else s)"

definition buffer_of_text :: "'r rope_ops \<Rightarrow> 'e \<Rightarrow> ustring \<Rightarrow> ('r, 'e) TextBuffer" where
  "buffer_of_text R enc s =
    \<lparr>rope = rope_from_decoded R s (detect_line_ending s), line_ending = detect_line_ending s, encoding = enc, buffer_dirty = False\<rparr>"

definition from_bytes :: "'r rope_ops \<Rightarrow> 'e codecs \<Rightarrow> bytes \<Rightarrow> ('r, 'e) TextBuffer" where
  "from_bytes R E bs =
    (let (stripped, bom) = strip_bom E bs;
         enc = (case bom of Some e \<Rightarrow> e | None \<Rightarrow> detect_encoding E stripped)
     in buffer_of_text R enc (decode E enc stripped))"

definition from_bytes_with_encoding :: "'r rope_ops \<Rightarrow> 'e codecs \<Rightarrow> bytes \<Rightarrow> ustring \<Rightarrow> viewer_error + ('r, 'e) TextBuffer" where
  "from_bytes_with_encoding R E bs label =
    (case for_label E label of
       None \<Rightarrow> Inl (TextDecode (lit ''unknown encoding: '' @ label))
     | Some enc \<Rightarrow> Inr (buffer_of_text R enc (decode E enc (fst (strip_bom E bs)))))"

definition to_bytes :: "'r rope_ops \<Rightarrow> 'e codecs \<Rightarrow> ('r, 'e) TextBuffer \<Rightarrow> viewer_error + bytes" where
  "to_bytes R E b =
    (let s = rope_text R (rope b);
         s = (if line_ending b = Crlf then restore_crlf s else s);
         (bs, had_errors) = encode E (encoding b) s
     in if had_errors then Inl (TextDecode (lit ''cannot encode text as '' @ encoding_name E (encoding b))) else Inr bs)"

section \<open>Positions\<close>

definition line_count :: "'r rope_ops \<Rightarrow> ('r, 'e) TextBuffer \<Rightarrow> nat" where
  "line_count R b = len_lines R (rope b)"

definition plain_text :: "'r rope_ops \<Rightarrow> ('r, 'e) TextBuffer \<Rightarrow> ustring" where
  "plain_text R b = rope_text R (rope b)"

text \<open>A line without the line feed that ends it.\<close>

definition strip_lf :: "ustring \<Rightarrow> ustring" where
  "strip_lf s = (if s \<noteq> [] \<and> last s = 10 then butlast s else s)"

definition get_line :: "'r rope_ops \<Rightarrow> ('r, 'e) TextBuffer \<Rightarrow> nat \<Rightarrow> ustring option" where
  "get_line R b i = (if len_lines R (rope b) \<le> i then None else Some (strip_lf (rope_line R (rope b) i)))"

definition line_col_to_char :: "'r rope_ops \<Rightarrow> ('r, 'e) TextBuffer \<Rightarrow> nat \<Rightarrow> nat \<Rightarrow> nat option" where
  "line_col_to_char R b line column =
    (let n = len_lines R (rope b)
     in if n < line then None
        else let start = line_to_char R (rope b) line;
                 len = (if line < n then length (strip_lf (rope_line R (rope b) line)) else 0)
             in if len < column then None else Some (start + column))"

definition line_col_at_char :: "'r rope_ops \<Rightarrow> ('r, 'e) TextBuffer \<Rightarrow> nat \<Rightarrow> nat \<times> nat" where
  "line_col_at_char R b char_idx =
    (let idx = min char_idx (len_chars R (rope b)); line = char_to_line R (rope b) idx
     in (line, idx - line_to_char R (rope b) line))"

definition byte_index :: "'r rope_ops \<Rightarrow> ('r, 'e) TextBuffer \<Rightarrow> nat \<Rightarrow> nat \<Rightarrow> nat option" where
  "byte_index R b line column = map_option (char_to_byte R (rope b)) (line_col_to_char R b line column)"

definition tree_sitter_point :: "'r rope_ops \<Rightarrow> ('r, 'e) TextBuffer \<Rightarrow> nat \<Rightarrow> nat \<Rightarrow> (nat \<times> nat) option" where
  "tree_sitter_point R b line column =
    (case get_line R b line of
       None \<Rightarrow> None
     | Some s \<Rightarrow> if length s < column then None else Some (line, sum_list (map len_utf8 (take column s))))"

definition text_range ::
  "'r rope_ops \<Rightarrow> ('r, 'e) TextBuffer \<Rightarrow> nat \<Rightarrow> nat \<Rightarrow> nat \<Rightarrow> nat \<Rightarrow> viewer_error + ustring"
where
  "text_range R b sl sc el ec =
    (case line_col_to_char R b sl sc of
       None \<Rightarrow> Inl EditOutOfBounds
     | Some start \<Rightarrow>
         (case line_col_to_char R b el ec of
            None \<Rightarrow> Inl EditOutOfBounds
          | Some end_idx \<Rightarrow> if end_idx < start then Inl EditOutOfBounds else Inr (rope_slice R start end_idx (rope b))))"

section \<open>Edits\<close>

definition buffer_insert :: "'r rope_ops \<Rightarrow> nat \<Rightarrow> nat \<Rightarrow> ustring \<Rightarrow> ('r, 'e) TextBuffer \<Rightarrow> viewer_error + ('r, 'e) TextBuffer" where
  "buffer_insert R line column s b =
    (case line_col_to_char R b line column of
       None \<Rightarrow> Inl EditOutOfBounds
     | Some i \<Rightarrow> Inr (b\<lparr>rope := rope_insert R i s (rope b), buffer_dirty := True\<rparr>))"

definition buffer_delete ::
  "'r rope_ops \<Rightarrow> nat \<Rightarrow> nat \<Rightarrow> nat \<Rightarrow> nat \<Rightarrow> ('r, 'e) TextBuffer \<Rightarrow> viewer_error + ('r, 'e) TextBuffer"
where
  "buffer_delete R sl sc el ec b =
    (case line_col_to_char R b sl sc of
       None \<Rightarrow> Inl EditOutOfBounds
     | Some start \<Rightarrow>
         (case line_col_to_char R b el ec of
            None \<Rightarrow> Inl EditOutOfBounds
          | Some end_idx \<Rightarrow>
              if end_idx < start then Inl EditOutOfBounds
              else Inr (b\<lparr>rope := rope_remove R start end_idx (rope b), buffer_dirty := True\<rparr>)))"

definition content_eq :: "'r rope_ops \<Rightarrow> ustring \<Rightarrow> ('r, 'e) TextBuffer \<Rightarrow> bool" where
  "content_eq R other b \<longleftrightarrow>
    len_bytes R (rope b) = length (str_bytes other) \<and> concat (chunks R (rope b)) = str_bytes other"

definition buffer_replace :: "'r rope_ops \<Rightarrow> ustring \<Rightarrow> ('r, 'e) TextBuffer \<Rightarrow> ('r, 'e) TextBuffer" where
  "buffer_replace R s b =
    (let normalized = skip_crlf s
     in if content_eq R normalized b then b else b\<lparr>rope := rope_from_str R normalized, buffer_dirty := True\<rparr>)"

section \<open>The span that differs\<close>

fun common_prefix :: "'a list \<Rightarrow> 'a list \<Rightarrow> nat" where
  "common_prefix (x # xs) (y # ys) = (if x = y then Suc (common_prefix xs ys) else 0)"
| "common_prefix _ _ = 0"

text \<open>\<open>align_byte_to_char_boundary\<close>: the next boundary below.\<close>

fun align_boundary :: "bytes \<Rightarrow> nat \<Rightarrow> nat" where
  "align_boundary bs 0 = 0"
| "align_boundary bs (Suc n) = (if is_char_boundary bs (Suc n) then Suc n else align_boundary bs n)"

text \<open>The loop that shrinks the common suffix until it starts a character in both texts.\<close>

fun align_suffix :: "bytes \<Rightarrow> bytes \<Rightarrow> nat \<Rightarrow> nat \<Rightarrow> nat" where
  "align_suffix old new prefix 0 = 0"
| "align_suffix old new prefix (Suc n) =
    (let old_cut = length old - Suc n; new_cut = length new - Suc n
     in if old_cut < prefix \<or> new_cut < prefix then align_suffix old new prefix n
        else if \<not> is_char_boundary new new_cut \<or> \<not> is_char_boundary old old_cut then align_suffix old new prefix n
        else Suc n)"

definition span_diff :: "bytes \<Rightarrow> bytes \<Rightarrow> (nat \<times> nat \<times> nat) option" where
  "span_diff old new =
    (let prefix = align_boundary old (min (length old) (align_boundary new (common_prefix old new)));
         max_suffix = min (length old - prefix) (length new - prefix);
         suffix = align_suffix old new prefix (min max_suffix (common_prefix (rev old) (rev new)));
         old_end = length old - suffix; new_end = length new - suffix
     in if prefix = old_end \<and> prefix = new_end then None else Some (prefix, old_end, new_end))"

definition single_span_diff :: "'r rope_ops \<Rightarrow> ustring \<Rightarrow> ('r, 'e) TextBuffer \<Rightarrow> (nat \<times> nat \<times> nat) option" where
  "single_span_diff R new_text b = span_diff (concat (chunks R (rope b))) (str_bytes new_text)"

definition byte_to_char_idx :: "'r rope_ops \<Rightarrow> ('r, 'e) TextBuffer \<Rightarrow> nat \<Rightarrow> nat" where
  "byte_to_char_idx R b byte_idx =
    rope_byte_to_char R (rope b) (align_boundary (concat (chunks R (rope b))) (min byte_idx (len_bytes R (rope b))))"


lemma common_prefix_le: "common_prefix xs ys \<le> length xs" "common_prefix xs ys \<le> length ys"
  by (induction xs ys rule: common_prefix.induct) auto

lemma common_prefix_take: "n \<le> common_prefix xs ys \<Longrightarrow> take n xs = take n ys"
proof (induction xs ys arbitrary: n rule: common_prefix.induct)
  case (1 x xs y ys)
  then show ?case by (cases n) (auto split: if_splits)
qed simp_all

lemma common_prefix_same [simp]: "common_prefix xs xs = length xs"
  by (induction xs) auto

lemma align_boundary_le: "align_boundary bs n \<le> n"
  by (induction bs n rule: align_boundary.induct) auto

lemma align_boundary_ok: "is_char_boundary bs (align_boundary bs n)"
  by (induction bs n rule: align_boundary.induct) (auto simp: is_char_boundary_def)

lemma align_boundary_id [simp]: "is_char_boundary bs n \<Longrightarrow> align_boundary bs n = n"
  by (cases n) auto

lemma align_suffix_le: "align_suffix old new p n \<le> n"
  by (induction n) (auto simp: Let_def)

lemma align_suffix_ok:
  "is_char_boundary old (length old - align_suffix old new p n) \<and> is_char_boundary new (length new - align_suffix old new p n)"
  by (induction n) (auto simp: Let_def is_char_boundary_def)

lemma boundary_append: "is_char_boundary (a @ b) (length a + n) \<Longrightarrow> is_char_boundary b n"
  by (auto simp: is_char_boundary_def nth_append)

lemma cut_at_boundary:
  assumes "str_ok s" "s = p @ s'" "length (str_bytes p) \<le> n" "n \<le> length (str_bytes s)" "is_char_boundary (str_bytes s) n"
  shows "\<exists>x q. s' = x @ q \<and> n = length (str_bytes (p @ x)) \<and> str_bytes q = drop n (str_bytes s)"
proof -
  have "is_char_boundary (str_bytes s') (n - length (str_bytes p))"
  proof (rule boundary_append [of "str_bytes p"])
    show "is_char_boundary (str_bytes p @ str_bytes s') (length (str_bytes p) + (n - length (str_bytes p)))"
      using assms(2,3,5) by simp
  qed
  moreover have "str_ok s'" "n - length (str_bytes p) \<le> length (str_bytes s')" using assms by auto
  ultimately obtain j where "j \<le> length s'" "n - length (str_bytes p) = length (str_bytes (take j s'))"
    using prefix_of_boundary by blast
  then have n: "n = length (str_bytes (p @ take j s'))" using assms(3) by simp
  moreover have "s = (p @ take j s') @ drop j s'" using assms(2) by simp
  ultimately have "str_bytes (drop j s') = drop n (str_bytes s)"
    by (metis append_eq_conv_conj str_bytes_simps(3))
  then show ?thesis using n by (intro exI [of _ "take j s'"] exI [of _ "drop j s'"]) simp
qed

lemma span_diff_parts:
  assumes ok: "str_ok s" "str_ok t"
  defines "old \<equiv> str_bytes s" and "new \<equiv> str_bytes t"
  defines "prefix \<equiv> align_boundary old (min (length old) (align_boundary new (common_prefix old new)))"
  defines "suffix \<equiv> align_suffix old new prefix
    (min (min (length old - prefix) (length new - prefix)) (common_prefix (rev old) (rev new)))"
  shows "\<exists>p x y q. s = p @ x @ q \<and> t = p @ y @ q \<and> prefix = length (str_bytes p) \<and>
    length old - suffix = length (str_bytes (p @ x)) \<and> length new - suffix = length (str_bytes (p @ y))"
proof -
  let ?p1 = "align_boundary new (common_prefix old new)"
  have le: "?p1 \<le> common_prefix old new" "?p1 \<le> length old" "?p1 \<le> length new"
    using align_boundary_le [of new "common_prefix old new"] common_prefix_le [of old new] by linarith+
  obtain i where i: "i \<le> length t" "?p1 = length (str_bytes (take i t))"
    using prefix_of_boundary [OF ok(2)] align_boundary_ok [of new] le(3) by (metis new_def)
  have "str_bytes (take i t) = take ?p1 old"
    using take_str_bytes [of i t] common_prefix_take [OF le(1)] i(2) by (simp add: new_def)
  then have "str_bytes (take i t) @ drop ?p1 old = str_bytes s" by (simp add: old_def)
  then obtain s' where s': "s = take i t @ s'" using str_bytes_prefix [of "take i t" s] ok by (metis in_set_takeD)
  then have "is_char_boundary old ?p1" using boundary_of_prefix [OF ok(1), of i] i by (simp add: old_def)
  then have prefix: "prefix = length (str_bytes (take i t))" using le(2) i(2) by (simp add: prefix_def)
  let ?k = "min (min (length old - prefix) (length new - prefix)) (common_prefix (rev old) (rev new))"
  have k: "suffix \<le> ?k" unfolding suffix_def by (rule align_suffix_le)
  note b = align_suffix_ok [of old new prefix ?k, folded suffix_def]
  have t': "t = take i t @ drop i t" by simp
  have cut: "prefix \<le> length old - suffix" "prefix \<le> length new - suffix"
    using k le prefix i(2) by linarith+
  obtain x q where x: "s' = x @ q" "length old - suffix = length (str_bytes (take i t @ x))" "str_bytes q = drop (length old - suffix) old"
    using cut_at_boundary [OF ok(1) s', of "length old - suffix"] cut(1) b prefix by (auto simp: old_def)
  obtain y q2 where y: "drop i t = y @ q2" "length new - suffix = length (str_bytes (take i t @ y))"
    "str_bytes q2 = drop (length new - suffix) new"
    using cut_at_boundary [OF ok(2) t', of "length new - suffix"] cut(2) b prefix by (auto simp: new_def)
  have "take suffix (rev old) = take suffix (rev new)" using k by (intro common_prefix_take) simp
  then have "drop (length old - suffix) old = drop (length new - suffix) new"
    by (simp add: take_rev)
  moreover have "str_ok q" "str_ok q2" using ok s' x(1) y(1) by (auto dest: in_set_dropD) (metis Un_iff in_set_dropD set_append)
  ultimately have "q = q2" using x(3) y(3) str_bytes_inj by metis
  then show ?thesis using s' x y prefix t' by (intro exI [of _ "take i t"] exI [of _ x] exI [of _ y] exI [of _ q]) auto
qed

lemma span_diff_cases:
  assumes "str_ok s" "str_ok t"
  obtains p x y q where "s = p @ x @ q" "t = p @ y @ q"
    "span_diff (str_bytes s) (str_bytes t) =
      (if x = [] \<and> y = [] then None
       else Some (length (str_bytes p), length (str_bytes (p @ x)), length (str_bytes (p @ y))))"
proof -
  have "\<exists>p x y q. s = p @ x @ q \<and> t = p @ y @ q \<and> span_diff (str_bytes s) (str_bytes t) =
      (if length (str_bytes p) = length (str_bytes (p @ x)) \<and> length (str_bytes p) = length (str_bytes (p @ y)) then None
       else Some (length (str_bytes p), length (str_bytes (p @ x)), length (str_bytes (p @ y))))"
    using span_diff_parts [OF assms] unfolding span_diff_def Let_def by metis
  then show ?thesis using that by auto
qed

lemma span_diff_sound:
  assumes "str_ok s" "str_ok t" "span_diff (str_bytes s) (str_bytes t) = Some (a, b, c)"
  shows "\<exists>p x y q. s = p @ x @ q \<and> t = p @ y @ q \<and> a = length (str_bytes p) \<and> b = length (str_bytes (p @ x))
    \<and> c = length (str_bytes (p @ y)) \<and> (x \<noteq> [] \<or> y \<noteq> [])"
  using assms(3) by (rule_tac span_diff_cases [OF assms(1,2)]) (auto split: if_splits)

lemma span_diff_None:
  assumes "str_ok s" "str_ok t"
  shows "span_diff (str_bytes s) (str_bytes t) = None \<longleftrightarrow> s = t"
proof
  assume none: "span_diff (str_bytes s) (str_bytes t) = None"
  obtain p x y q where "s = p @ x @ q" "t = p @ y @ q" "x = [] \<and> y = []"
    by (rule span_diff_cases [OF assms]) (use none in \<open>auto split: if_splits\<close>)
  then show "s = t" by simp
next
  assume "s = t"
  then show "span_diff (str_bytes s) (str_bytes t) = None" by (simp add: span_diff_def Let_def is_char_boundary_def)
qed


section \<open>Positions and characters\<close>

lemma length_strip_lf: "length (strip_lf s) = (if s \<noteq> [] \<and> last s = 10 then length s - 1 else length s)"
  by (simp add: strip_lf_def)

context rope_contract
begin

text \<open>The position of a character leads back to it, whatever the line breaks are.\<close>

lemma position_roundtrip:
  assumes "i \<le> length (plain_text R b)" "line_col_at_char R b i = (l, c)"
  shows "l < len_lines R (rope b) \<and> line_col_to_char R b l c = Some i"
proof -
  have i: "i \<le> length (rope_text R (rope b))" using assms(1) by (simp add: plain_text_def)
  note col = column_in_line [OF i]
  have lc: "l = char_to_line R (rope b) i" "c = i - line_to_char R (rope b) l"
    using assms(2) i by (auto simp: line_col_at_char_def Let_def min_def)
  have "c \<le> length (strip_lf (rope_line R (rope b) l))"
    using col(2-4) line_start_Suc [OF col(1)] lc by (auto simp: length_strip_lf)
  then show ?thesis using col(1,2) lc by (simp add: line_col_to_char_def Let_def)
qed

lemma line_col_bound:
  assumes "line_col_to_char R b l c = Some i"
  shows "i \<le> length (plain_text R b)"
proof (cases "l < len_lines R (rope b)")
  case True
  have "i \<le> line_to_char R (rope b) l + length (strip_lf (rope_line R (rope b) l))"
    using assms True by (auto simp: line_col_to_char_def Let_def split: if_splits)
  also have "\<dots> \<le> line_to_char R (rope b) (Suc l)" using line_start_Suc [OF True] by (simp add: length_strip_lf)
  also have "\<dots> \<le> length (rope_text R (rope b))" using line_start_mono [of "Suc l" "len_lines R (rope b)" "rope b"] True by simp
  finally show ?thesis by (simp add: plain_text_def)
next
  case False
  then show ?thesis using assms by (auto simp: line_col_to_char_def Let_def plain_text_def split: if_splits)
qed

lemma line_col_lf:
  assumes "lf_text (plain_text R b)" "i \<le> length (plain_text R b)"
  shows "line_col_at_char R b i = end_pos (take i (plain_text R b))"
  using lf_position [of "rope b" i] assms by (simp add: line_col_at_char_def Let_def plain_text_def min_def)

text \<open>With line feeds as the only line breaks, a valid position is the position of the text before it.\<close>

lemma line_col_to_char_lf:
  assumes lf: "lf_text (plain_text R b)" and some: "line_col_to_char R b l c = Some i" and l: "l < len_lines R (rope b)"
  shows "end_pos (take i (plain_text R b)) = (l, c)"
proof -
  let ?n = "len_lines R (rope b)" and ?start = "line_to_char R (rope b)" and ?k = "char_to_line R (rope b) i"
  have i: "i \<le> length (rope_text R (rope b))" using line_col_bound [OF some] by (simp add: plain_text_def)
  have il: "i = ?start l + c" "c \<le> length (strip_lf (rope_line R (rope b) l))"
    using some l by (auto simp: line_col_to_char_def Let_def split: if_splits)
  have below: "i < ?start (Suc l)" if "Suc l < ?n"
  proof -
    have e: "rope_line R (rope b) l \<noteq> []" "is_line_break (last (rope_line R (rope b) l))" using line_end [OF that] by auto
    have "set (rope_line R (rope b) l) \<subseteq> set (rope_text R (rope b))"
      unfolding line_in_text [OF l] by (auto simp: bslice_def dest: in_set_takeD in_set_dropD)
    then have "last (rope_line R (rope b) l) \<in> set (rope_text R (rope b))" using e(1) last_in_set by blast
    then have "last (rope_line R (rope b) l) = 10" using lf e(2) by (simp add: lf_text_def plain_text_def)
    then have "c < length (rope_line R (rope b) l)" using il(2) e(1) by (cases "rope_line R (rope b) l") (auto simp: length_strip_lf)
    then show ?thesis using il(1) line_start_Suc [OF l] by simp
  qed
  note k = char_line [OF i]
  have "\<not> l < ?k"
  proof
    assume lk: "l < ?k"
    then have "?start (Suc l) \<le> ?start ?k" using k by (intro line_start_mono) auto
    then show False using below k lk by simp
  qed
  moreover have "\<not> ?k < l"
  proof
    assume kl: "?k < l"
    then have "?start (Suc ?k) \<le> ?start l" using l by (intro line_start_mono) auto
    then show False using k kl l il(1) by simp
  qed
  ultimately have "?k = l" by simp
  then show ?thesis using lf_position [of "rope b" i] lf i il(1) by (simp add: plain_text_def)
qed

lemma byte_to_char_prefix:
  assumes "str_ok (plain_text R b)" "plain_text R b = p @ s"
  shows "byte_to_char_idx R b (length (str_bytes p)) = length p"
proof -
  have t: "rope_text R (rope b) = p @ s" using assms(2) by (simp add: plain_text_def)
  have "is_char_boundary (str_bytes (p @ s)) (length (str_bytes p))"
    using boundary_of_prefix [of "p @ s" "length p"] assms by simp
  then show ?thesis using byte_to_char [of "length p" "rope b"] t by (simp add: byte_to_char_idx_def)
qed

lemma line_col_prefix:
  assumes "plain_text R b = p @ s" "line_col_at_char R b (length p) = (l, c)"
  shows "l < len_lines R (rope b)" "line_col_to_char R b l c = Some (length p)"
  using position_roundtrip [OF _ assms(2)] assms(1) by auto

text \<open>Edits at resolved positions.\<close>

lemma buffer_insert_text:
  assumes "line_col_to_char R b l c = Some i"
  shows "\<exists>b'. buffer_insert R l c s b = Inr b' \<and>
    plain_text R b' = take i (plain_text R b) @ s @ drop i (plain_text R b)"
  using assms line_col_bound [OF assms] by (simp add: buffer_insert_def plain_text_def)

lemma buffer_delete_text:
  assumes "line_col_to_char R b sl sc = Some i" "line_col_to_char R b el ec = Some j" "i \<le> j"
  shows "\<exists>b'. buffer_delete R sl sc el ec b = Inr b' \<and> plain_text R b' = take i (plain_text R b) @ drop j (plain_text R b)
    \<and> text_range R b sl sc el ec = Inr (bslice i j (plain_text R b))"
  using assms line_col_bound [OF assms(2)] by (simp add: buffer_delete_def text_range_def plain_text_def)

lemma tree_sitter_point_valid:
  "line_col_to_char R b l c = Some i \<Longrightarrow> l < len_lines R (rope b) \<Longrightarrow> \<exists>p. tree_sitter_point R b l c = Some p"
  by (auto simp: tree_sitter_point_def get_line_def line_col_to_char_def Let_def split: if_splits)

lemma tree_sitter_point_line: "tree_sitter_point R b l c = Some p \<Longrightarrow> l < len_lines R (rope b)"
  by (auto simp: tree_sitter_point_def get_line_def split: if_splits option.splits)

lemma content_eq_text: "str_ok (plain_text R b) \<Longrightarrow> str_ok s \<Longrightarrow> content_eq R s b \<longleftrightarrow> plain_text R b = s"
  by (auto simp: content_eq_def plain_text_def str_bytes_inj)

lemma single_span_diff_text:
  "single_span_diff R s b = span_diff (str_bytes (plain_text R b)) (str_bytes s)"
  by (simp add: single_span_diff_def plain_text_def)

end

section \<open>A file that is loaded and saved\<close>

text \<open>Every line feed follows a carriage return (\<open>after_cr\<close>: there is one before the text).\<close>

fun all_crlf :: "bool \<Rightarrow> ustring \<Rightarrow> bool" where
  "all_crlf after_cr [] \<longleftrightarrow> True"
| "all_crlf after_cr (c # s) \<longleftrightarrow> (c = 10 \<longrightarrow> after_cr) \<and> all_crlf (c = 13) s"

lemma restore_skip_crlf:
  "all_crlf after_cr s \<Longrightarrow> restore_crlf (skip_crlf s) = (if s \<noteq> [] \<and> hd s = 10 then 13 # s else s)"
proof (induction after_cr s rule: all_crlf.induct)
  case (2 after_cr c s)
  then show ?case by (cases s) (auto simp: restore_crlf_def split: if_splits)
qed (simp add: restore_crlf_def)

text \<open>
  A text file whose line endings are uniform is saved as it was loaded, byte for byte, when it has no byte
  order mark and its encoding restores what it decoded.
\<close>

theorem load_save_roundtrip:
  assumes "rope_contract R" "strip_bom E bs = (bs, None)"
    and "encode E (detect_encoding E bs) (decode E (detect_encoding E bs) bs) = (bs, False)"
    and "detect_line_ending (decode E (detect_encoding E bs) bs) = Crlf \<Longrightarrow> all_crlf False (decode E (detect_encoding E bs) bs)"
  shows "to_bytes R E (from_bytes R E bs) = Inr bs"
proof -
  let ?s = "decode E (detect_encoding E bs) bs"
  have "restore_crlf (skip_crlf ?s) = ?s" if "all_crlf False ?s"
    using restore_skip_crlf [OF that] that by (cases ?s) auto
  then show ?thesis using assms
    by (cases "detect_line_ending ?s")
      (simp_all add: to_bytes_def from_bytes_def buffer_of_text_def rope_from_decoded_def rope_contract.text_from Let_def)
qed

definition latin1 :: "unit codecs" where
  "latin1 =
    \<lparr>decode = (\<lambda>_ bs. map unat bs), encode = (\<lambda>_ s. (map word_of_nat s, list_ex (\<lambda>c. 256 \<le> c) s)),
     for_label = (\<lambda>_. Some ()), guess_encoding = (\<lambda>_. ()), enc_utf8 = (), enc_utf16le = (), enc_utf16be = (),
     encoding_name = (\<lambda>_. [])\<rparr>"

theorem load_save_roundtrip_witness:
  "to_bytes text_rope latin1 (from_bytes text_rope latin1 [97, 13, 10, 98]) = Inr [97, 13, 10, 98] \<and>
   line_ending (from_bytes text_rope latin1 [97, 13, 10, 98]) = Crlf"
proof -
  have c: "strip_bom latin1 [97, 13, 10, 98] = ([97, 13, 10, 98], None)"
    "encode latin1 (detect_encoding latin1 [97, 13, 10, 98]) (decode latin1 (detect_encoding latin1 [97, 13, 10, 98]) [97, 13, 10, 98]) =
      ([97, 13, 10, 98], False)"
    "all_crlf False (decode latin1 (detect_encoding latin1 [97, 13, 10, 98]) [97, 13, 10, 98])"
    "line_ending (from_bytes text_rope latin1 [97, 13, 10, 98]) = Crlf"
    by code_simp+
  show ?thesis using load_save_roundtrip [OF text_rope.rope_contract_axioms c(1,2)] c(3,4) by blast
qed

end
