(* ===== verification/Text_Viewer.thy ===== *)
theory Text_Viewer
  imports Text_Buffer
begin

text \<open>
  The text editor of \<open>src/crates/orchid-viewers/src/text/mod.rs\<close> with its undo stack (\<open>undo.rs\<close>) and its
  search (\<open>search.rs\<close>).  A \<open>CursorPos\<close> is the pair of its line and column; \<open>now\<close> is what the clock says,
  in milliseconds.  The syntax tree belongs to the third-party parser: \<open>synced\<close> lists the edits that
  \<open>sync_parse_cache_after_edit\<close> reports to it, each with the source it is given, since the tree was last dropped.
\<close>

section \<open>The undo stack\<close>

datatype TextOpKind = InsertOp | DeleteOp

type_synonym CursorPos = "nat \<times> nat"

record TextOp =
  kind :: TextOpKind
  start_pos :: CursorPos
  stop_pos :: CursorPos
  op_text :: ustring
  timestamp :: nat

record TextUndo =
  undone_ops :: "TextOp list"
  done_ops :: "TextOp list"
  merge_window :: nat

definition undo_new :: "nat \<Rightarrow> TextUndo" where
  "undo_new window = \<lparr>undone_ops = [], done_ops = [], merge_window = window\<rparr>"

definition can_merge :: "TextOp \<Rightarrow> TextOp \<Rightarrow> nat \<Rightarrow> bool" where
  "can_merge prev nxt window \<longleftrightarrow>
    kind prev = kind nxt \<and> kind prev = InsertOp \<and> timestamp nxt - timestamp prev \<le> window \<and> stop_pos prev = start_pos nxt"

definition push_op :: "TextOp \<Rightarrow> TextUndo \<Rightarrow> TextUndo" where
  "push_op x u =
    (let u = u\<lparr>undone_ops := []\<rparr>
     in if done_ops u \<noteq> [] \<and> can_merge (last (done_ops u)) x (merge_window u)
        then let prev = last (done_ops u);
                 merged = prev\<lparr>op_text := op_text prev @ op_text x, stop_pos := stop_pos x, timestamp := timestamp x\<rparr>
             in u\<lparr>done_ops := butlast (done_ops u) @ [merged]\<rparr>
        else u\<lparr>done_ops := done_ops u @ [x]\<rparr>)"

definition pop_undo :: "TextUndo \<Rightarrow> TextUndo \<times> TextOp option" where
  "pop_undo u =
    (if done_ops u = [] then (u, None)
     else let x = last (done_ops u)
          in (u\<lparr>done_ops := butlast (done_ops u), undone_ops := undone_ops u @ [x]\<rparr>, Some x))"

definition pop_redo :: "TextUndo \<Rightarrow> TextUndo \<times> TextOp option" where
  "pop_redo u =
    (if undone_ops u = [] then (u, None)
     else let x = last (undone_ops u)
          in (u\<lparr>undone_ops := butlast (undone_ops u), done_ops := done_ops u @ [x]\<rparr>, Some x))"

definition undo_clear :: "TextUndo \<Rightarrow> TextUndo" where
  "undo_clear u = u\<lparr>done_ops := [], undone_ops := []\<rparr>"

section \<open>The viewer\<close>

datatype TextViewerMode = ReadMode | EditMode

record InputEdit =
  start_byte :: nat
  old_end_byte :: nat
  new_end_byte :: nat
  start_position :: "nat \<times> nat"
  old_end_position :: "nat \<times> nat"
  new_end_position :: "nat \<times> nat"

record ('r, 'e) TextViewer =
  buffer :: "('r, 'e) TextBuffer option"
  mode :: TextViewerMode
  cursor :: CursorPos
  undo_stack :: TextUndo
  content_generation :: nat
  plain_cache :: "(nat \<times> ustring) option"
  synced :: "(InputEdit \<times> ustring) list"
  first_visible_line :: nat
  visible_line_count :: nat
  raw_bytes :: bytes

definition viewer_new :: "('r, 'e) TextViewer" where
  "viewer_new =
    \<lparr>buffer = None, mode = ReadMode, cursor = (0, 0), undo_stack = undo_new 500, content_generation = 0,
     plain_cache = None, synced = [], first_visible_line = 0, visible_line_count = 64, raw_bytes = []\<rparr>"

text \<open>What \<open>open\<close> does with the bytes of the file.\<close>

definition viewer_open :: "'r rope_ops \<Rightarrow> 'e codecs \<Rightarrow> bytes \<Rightarrow> ('r, 'e) TextViewer \<Rightarrow> ('r, 'e) TextViewer" where
  "viewer_open R E bs v =
    v\<lparr>buffer := Some (from_bytes R E bs), raw_bytes := bs, cursor := (0, 0), first_visible_line := 0,
      content_generation := 0, synced := [], plain_cache := None, undo_stack := undo_clear (undo_stack v)\<rparr>"

definition viewer_close :: "('r, 'e) TextViewer \<Rightarrow> ('r, 'e) TextViewer" where
  "viewer_close v =
    v\<lparr>buffer := None, raw_bytes := [], content_generation := 0, synced := [], plain_cache := None,
      undo_stack := undo_clear (undo_stack v)\<rparr>"

definition cached_plain_text :: "'r rope_ops \<Rightarrow> ('r, 'e) TextBuffer \<Rightarrow> ('r, 'e) TextViewer \<Rightarrow> ('r, 'e) TextViewer \<times> ustring" where
  "cached_plain_text R b v =
    (case plain_cache v of
       Some (gen, s) \<Rightarrow>
         if gen = content_generation v then (v, s)
         else (v\<lparr>plain_cache := Some (content_generation v, plain_text R b)\<rparr>, plain_text R b)
     | None \<Rightarrow> (v\<lparr>plain_cache := Some (content_generation v, plain_text R b)\<rparr>, plain_text R b))"

definition sync_parse_cache_after_edit :: "InputEdit \<Rightarrow> ustring \<Rightarrow> ('r, 'e) TextViewer \<Rightarrow> ('r, 'e) TextViewer" where
  "sync_parse_cache_after_edit edit new_source v =
    v\<lparr>content_generation := content_generation v + 1, plain_cache := Some (content_generation v + 1, new_source),
      synced := synced v @ [(edit, new_source)]\<rparr>"

definition invalidate_parse_cache :: "('r, 'e) TextViewer \<Rightarrow> ('r, 'e) TextViewer" where
  "invalidate_parse_cache v = v\<lparr>content_generation := content_generation v + 1, synced := [], plain_cache := None\<rparr>"

definition set_mode :: "TextViewerMode \<Rightarrow> ('r, 'e) TextViewer \<Rightarrow> ('r, 'e) TextViewer" where
  "set_mode m v = v\<lparr>mode := m\<rparr>"

definition move_cursor :: "CursorPos \<Rightarrow> ('r, 'e) TextViewer \<Rightarrow> ('r, 'e) TextViewer" where
  "move_cursor p v = v\<lparr>cursor := p\<rparr>"

definition set_visible_range :: "nat \<Rightarrow> nat \<Rightarrow> ('r, 'e) TextViewer \<Rightarrow> ('r, 'e) TextViewer" where
  "set_visible_range first n v = v\<lparr>first_visible_line := first, visible_line_count := max n 1\<rparr>"

definition scroll_lines :: "'r rope_ops \<Rightarrow> int \<Rightarrow> ('r, 'e) TextViewer \<Rightarrow> ('r, 'e) TextViewer" where
  "scroll_lines R delta v =
    (case buffer v of
       None \<Rightarrow> v
     | Some b \<Rightarrow>
         let max_first = line_count R b - visible_line_count v
         in v\<lparr>first_visible_line := nat (max 0 (min (int max_first) (int (first_visible_line v) + delta)))\<rparr>)"

section \<open>Edits\<close>

definition cursor_after_insert :: "CursorPos \<Rightarrow> ustring \<Rightarrow> CursorPos" where
  "cursor_after_insert pos s =
    (if 10 \<notin> set s then (fst pos, snd pos + length s)
     else (fst pos + count_list s 10, length (takeWhile (\<lambda>c. c \<noteq> 10) (rev s))))"

definition point_after_insert :: "nat \<times> nat \<Rightarrow> ustring \<Rightarrow> nat \<times> nat" where
  "point_after_insert pos s =
    (if 10 \<notin> set s then (fst pos, snd pos + length (str_bytes s))
     else (fst pos + count_list s 10, length (str_bytes (rev (takeWhile (\<lambda>c. c \<noteq> 10) (rev s))))))"

definition insert_edit :: "'r rope_ops \<Rightarrow> ('r, 'e) TextBuffer \<Rightarrow> CursorPos \<Rightarrow> ustring \<Rightarrow> InputEdit option" where
  "insert_edit R b pos s =
    (case byte_index R b (fst pos) (snd pos) of
       None \<Rightarrow> None
     | Some sb \<Rightarrow>
         (case tree_sitter_point R b (fst pos) (snd pos) of
            None \<Rightarrow> None
          | Some p \<Rightarrow>
              Some \<lparr>start_byte = sb, old_end_byte = sb, new_end_byte = sb + length (str_bytes s),
                    start_position = p, old_end_position = p, new_end_position = point_after_insert p s\<rparr>))"

definition delete_edit :: "'r rope_ops \<Rightarrow> ('r, 'e) TextBuffer \<Rightarrow> CursorPos \<Rightarrow> CursorPos \<Rightarrow> InputEdit option" where
  "delete_edit R b start stop =
    (case (byte_index R b (fst start) (snd start), byte_index R b (fst stop) (snd stop),
           tree_sitter_point R b (fst start) (snd start), tree_sitter_point R b (fst stop) (snd stop)) of
       (Some sb, Some eb, Some sp, Some ep) \<Rightarrow>
         Some \<lparr>start_byte = sb, old_end_byte = eb, new_end_byte = sb,
               start_position = sp, old_end_position = ep, new_end_position = sp\<rparr>
     | _ \<Rightarrow> None)"

text \<open>
  The block that \<open>insert\<close>, \<open>undo\<close> and \<open>redo\<close> share: the edit for the parser, the change of the buffer and the
  update of the caches; and the same for a deletion.
\<close>

definition edit_insert :: "'r rope_ops \<Rightarrow> CursorPos \<Rightarrow> ustring \<Rightarrow> ('r, 'e) TextViewer \<Rightarrow> viewer_error + ('r, 'e) TextViewer" where
  "edit_insert R pos s v =
    (case buffer v of
       None \<Rightarrow> Inl EditOutOfBounds
     | Some b \<Rightarrow>
         (case insert_edit R b pos s of
            None \<Rightarrow> Inl EditOutOfBounds
          | Some e \<Rightarrow>
              and_then (buffer_insert R (fst pos) (snd pos) s b) (\<lambda>b.
                Inr (sync_parse_cache_after_edit e (plain_text R b) (v\<lparr>buffer := Some b\<rparr>)))))"

definition edit_delete :: "'r rope_ops \<Rightarrow> CursorPos \<Rightarrow> CursorPos \<Rightarrow> ('r, 'e) TextViewer \<Rightarrow> viewer_error + ('r, 'e) TextViewer" where
  "edit_delete R start stop v =
    (case buffer v of
       None \<Rightarrow> Inl EditOutOfBounds
     | Some b \<Rightarrow>
         (case delete_edit R b start stop of
            None \<Rightarrow> Inl EditOutOfBounds
          | Some e \<Rightarrow>
              and_then (buffer_delete R (fst start) (snd start) (fst stop) (snd stop) b) (\<lambda>b.
                Inr (sync_parse_cache_after_edit e (plain_text R b) (v\<lparr>buffer := Some b\<rparr>)))))"

definition insert_op :: "CursorPos \<Rightarrow> ustring \<Rightarrow> nat \<Rightarrow> TextOp" where
  "insert_op start s now =
    \<lparr>kind = InsertOp, start_pos = start, stop_pos = cursor_after_insert start s, op_text = s, timestamp = now\<rparr>"

definition delete_op :: "CursorPos \<Rightarrow> CursorPos \<Rightarrow> ustring \<Rightarrow> nat \<Rightarrow> TextOp" where
  "delete_op start stop s now = \<lparr>kind = DeleteOp, start_pos = start, stop_pos = stop, op_text = s, timestamp = now\<rparr>"

definition viewer_insert ::
  "'r rope_ops \<Rightarrow> nat \<Rightarrow> ustring \<Rightarrow> ('r, 'e) TextViewer \<Rightarrow> ('r, 'e) TextViewer \<times> (viewer_error + unit)"
where
  "viewer_insert R now s v =
    (if mode v \<noteq> EditMode then (v, Inl EditOutOfBounds)
     else (case edit_insert R (cursor v) s v of
             Inl e \<Rightarrow> (v, Inl e)
           | Inr w \<Rightarrow>
               (w\<lparr>cursor := cursor_after_insert (cursor v) s,
                  undo_stack := push_op (insert_op (cursor v) s now) (undo_stack w)\<rparr>, Inr ())))"

text \<open>The deleted text is read before the deletion; with no buffer, \<open>edit_delete\<close> is the error.\<close>

definition deleted_text :: "'r rope_ops \<Rightarrow> CursorPos \<Rightarrow> CursorPos \<Rightarrow> ('r, 'e) TextViewer \<Rightarrow> viewer_error + ustring" where
  "deleted_text R start stop v =
    (case buffer v of
       None \<Rightarrow> Inl EditOutOfBounds
     | Some b \<Rightarrow> text_range R b (fst start) (snd start) (fst stop) (snd stop))"

definition viewer_delete ::
  "'r rope_ops \<Rightarrow> nat \<Rightarrow> CursorPos \<Rightarrow> CursorPos \<Rightarrow> ('r, 'e) TextViewer \<Rightarrow> ('r, 'e) TextViewer \<times> (viewer_error + unit)"
where
  "viewer_delete R now start stop v =
    (if mode v \<noteq> EditMode then (v, Inl EditOutOfBounds)
     else (case deleted_text R start stop v of
             Inl e \<Rightarrow> (v, Inl e)
           | Inr s \<Rightarrow>
               (case edit_delete R start stop v of
                  Inl e \<Rightarrow> (v, Inl e)
                | Inr w \<Rightarrow>
                    (w\<lparr>cursor := start, undo_stack := push_op (delete_op start stop s now) (undo_stack w)\<rparr>, Inr ()))))"

text \<open>The branch of \<open>replace_content\<close> that deletes and inserts: the history and the caches are dropped.\<close>

definition replace_middle ::
  "'r rope_ops \<Rightarrow> CursorPos \<Rightarrow> CursorPos \<Rightarrow> bool \<Rightarrow> ustring \<Rightarrow> ('r, 'e) TextBuffer \<Rightarrow> ('r, 'e) TextViewer \<Rightarrow>
   ('r, 'e) TextViewer \<times> (viewer_error + unit)"
where
  "replace_middle R start stop deleted_empty inserted b v =
    (case (if deleted_empty then Inr b else buffer_delete R (fst start) (snd start) (fst stop) (snd stop) b) of
       Inl e \<Rightarrow> (v, Inl e)
     | Inr b \<Rightarrow>
         (case (if inserted = [] then Inr b else buffer_insert R (fst start) (snd start) inserted b) of
            Inl e \<Rightarrow> (v\<lparr>buffer := Some b\<rparr>, Inl e)
          | Inr b \<Rightarrow>
              let v = invalidate_parse_cache (v\<lparr>buffer := Some b\<rparr>)
              in (v\<lparr>undo_stack := undo_clear (undo_stack v), cursor := cursor_after_insert start inserted\<rparr>, Inr ())))"

definition replace_content ::
  "'r rope_ops \<Rightarrow> nat \<Rightarrow> ustring \<Rightarrow> ('r, 'e) TextViewer \<Rightarrow> ('r, 'e) TextViewer \<times> (viewer_error + unit)"
where
  "replace_content R now s v =
    (if mode v \<noteq> EditMode then (v, Inl EditOutOfBounds)
     else let normalized = skip_crlf s
          in (case buffer v of
                None \<Rightarrow> (v, Inl EditOutOfBounds)
              | Some b \<Rightarrow>
                  if content_eq R normalized b then (v, Inr ())
                  else (case single_span_diff R normalized b of
                          None \<Rightarrow>
                            let v = invalidate_parse_cache (v\<lparr>buffer := Some (buffer_replace R normalized b)\<rparr>)
                            in (v\<lparr>undo_stack := undo_clear (undo_stack v), cursor := (0, 0)\<rparr>, Inr ())
                        | Some (start_b, old_end_b, new_end_b) \<Rightarrow>
                            let start = line_col_at_char R b (byte_to_char_idx R b start_b);
                                stop = line_col_at_char R b (byte_to_char_idx R b old_end_b);
                                inserted = char_slice start_b new_end_b normalized
                            in if start_b \<noteq> old_end_b \<and> inserted = [] then
                                 (case edit_delete R start stop v of
                                    Inl e \<Rightarrow> (v, Inl e)
                                  | Inr w \<Rightarrow>
                                      (case text_range R b (fst start) (snd start) (fst stop) (snd stop) of
                                         Inl e \<Rightarrow> (v, Inl e)
                                       | Inr deleted \<Rightarrow>
                                           (w\<lparr>cursor := start, undo_stack := push_op (delete_op start stop deleted now) (undo_stack w)\<rparr>,
                                            Inr ())))
                               else if start_b = old_end_b \<and> inserted \<noteq> [] then
                                 (case edit_insert R start inserted v of
                                    Inl e \<Rightarrow> (v, Inl e)
                                  | Inr w \<Rightarrow>
                                      (w\<lparr>cursor := cursor_after_insert start inserted,
                                         undo_stack := push_op (insert_op start inserted now) (undo_stack w)\<rparr>, Inr ()))
                               else replace_middle R start stop (start_b = old_end_b) inserted b v)))"

definition viewer_undo :: "'r rope_ops \<Rightarrow> ('r, 'e) TextViewer \<Rightarrow> ('r, 'e) TextViewer \<times> (viewer_error + unit)" where
  "viewer_undo R v =
    (if mode v \<noteq> EditMode then (v, Inl EditOutOfBounds)
     else (case pop_undo (undo_stack v) of
             (u, None) \<Rightarrow> (v, Inr ())
           | (u, Some x) \<Rightarrow>
               let v = v\<lparr>undo_stack := u\<rparr>
               in (case kind x of
                     InsertOp \<Rightarrow>
                       (case edit_delete R (start_pos x) (stop_pos x) v of
                          Inl e \<Rightarrow> (v, Inl e)
                        | Inr w \<Rightarrow> (w\<lparr>cursor := start_pos x\<rparr>, Inr ()))
                   | DeleteOp \<Rightarrow>
                       (case edit_insert R (start_pos x) (op_text x) v of
                          Inl e \<Rightarrow> (v, Inl e)
                        | Inr w \<Rightarrow> (w\<lparr>cursor := stop_pos x\<rparr>, Inr ())))))"

definition viewer_redo :: "'r rope_ops \<Rightarrow> ('r, 'e) TextViewer \<Rightarrow> ('r, 'e) TextViewer \<times> (viewer_error + unit)" where
  "viewer_redo R v =
    (if mode v \<noteq> EditMode then (v, Inl EditOutOfBounds)
     else (case pop_redo (undo_stack v) of
             (u, None) \<Rightarrow> (v, Inr ())
           | (u, Some x) \<Rightarrow>
               let v = v\<lparr>undo_stack := u\<rparr>
               in (case kind x of
                     InsertOp \<Rightarrow>
                       (case edit_insert R (start_pos x) (op_text x) v of
                          Inl e \<Rightarrow> (v, Inl e)
                        | Inr w \<Rightarrow> (w\<lparr>cursor := stop_pos x\<rparr>, Inr ()))
                   | DeleteOp \<Rightarrow>
                       (case edit_delete R (start_pos x) (stop_pos x) v of
                          Inl e \<Rightarrow> (v, Inl e)
                        | Inr w \<Rightarrow> (w\<lparr>cursor := start_pos x\<rparr>, Inr ())))))"


section \<open>What an edit does to the buffer\<close>

lemma sync_sel [simp]:
  "buffer (sync_parse_cache_after_edit e s v) = buffer v" "mode (sync_parse_cache_after_edit e s v) = mode v"
  "cursor (sync_parse_cache_after_edit e s v) = cursor v" "undo_stack (sync_parse_cache_after_edit e s v) = undo_stack v"
  "synced (sync_parse_cache_after_edit e s v) = synced v @ [(e, s)]"
  "plain_cache (sync_parse_cache_after_edit e s v) = Some (content_generation v + 1, s)"
  "content_generation (sync_parse_cache_after_edit e s v) = content_generation v + 1"
  by (simp_all add: sync_parse_cache_after_edit_def)

lemma invalidate_sel [simp]:
  "buffer (invalidate_parse_cache v) = buffer v" "mode (invalidate_parse_cache v) = mode v"
  "undo_stack (invalidate_parse_cache v) = undo_stack v" "synced (invalidate_parse_cache v) = []"
  "plain_cache (invalidate_parse_cache v) = None"
  by (simp_all add: invalidate_parse_cache_def)

definition valid_pos :: "'r rope_ops \<Rightarrow> ('r, 'e) TextBuffer \<Rightarrow> CursorPos \<Rightarrow> nat \<Rightarrow> bool" where
  "valid_pos R b pos i \<longleftrightarrow> line_col_to_char R b (fst pos) (snd pos) = Some i \<and> fst pos < len_lines R (rope b)"

text \<open>The edit for the parser spans exactly the bytes that change.\<close>

definition edit_ok :: "InputEdit \<Rightarrow> ustring \<Rightarrow> ustring \<Rightarrow> bool" where
  "edit_ok e old new \<longleftrightarrow>
    start_byte e \<le> old_end_byte e \<and> old_end_byte e \<le> length (str_bytes old) \<and>
    start_byte e \<le> new_end_byte e \<and> new_end_byte e \<le> length (str_bytes new) \<and>
    take (start_byte e) (str_bytes old) = take (start_byte e) (str_bytes new) \<and>
    drop (old_end_byte e) (str_bytes old) = drop (new_end_byte e) (str_bytes new)"

context rope_contract
begin

lemma valid_pos_bound: "valid_pos R b pos i \<Longrightarrow> i \<le> length (plain_text R b)"
  unfolding valid_pos_def using line_col_bound by blast

lemma insert_edit_Some:
  "insert_edit R b pos s = Some e \<Longrightarrow> \<exists>i. valid_pos R b pos i \<and> start_byte e = length (str_bytes (take i (plain_text R b)))
    \<and> old_end_byte e = start_byte e \<and> new_end_byte e = start_byte e + length (str_bytes s)"
  using line_col_bound [of b "fst pos" "snd pos"] tree_sitter_point_line [of b "fst pos" "snd pos"]
  by (auto simp: insert_edit_def byte_index_def valid_pos_def plain_text_def split: option.splits)

lemma insert_edit_valid: "valid_pos R b pos i \<Longrightarrow> \<exists>e. insert_edit R b pos s = Some e"
  using tree_sitter_point_valid [of b "fst pos" "snd pos" i]
  by (auto simp: insert_edit_def byte_index_def valid_pos_def split: option.splits)

lemma delete_edit_Some:
  "delete_edit R b start stop = Some e \<Longrightarrow> \<exists>i j. valid_pos R b start i \<and> valid_pos R b stop j \<and>
    start_byte e = length (str_bytes (take i (plain_text R b))) \<and> new_end_byte e = start_byte e \<and>
    old_end_byte e = length (str_bytes (take j (plain_text R b)))"
  using line_col_bound [of b "fst start" "snd start"] tree_sitter_point_line [of b "fst start" "snd start"]
    line_col_bound [of b "fst stop" "snd stop"] tree_sitter_point_line [of b "fst stop" "snd stop"]
  by (auto simp: delete_edit_def byte_index_def valid_pos_def plain_text_def split: option.splits)

lemma delete_edit_valid: "valid_pos R b start i \<Longrightarrow> valid_pos R b stop j \<Longrightarrow> \<exists>e. delete_edit R b start stop = Some e"
  using tree_sitter_point_valid [of b "fst start" "snd start" i] tree_sitter_point_valid [of b "fst stop" "snd stop" j]
  by (auto simp: delete_edit_def byte_index_def valid_pos_def split: option.splits)

lemma edit_insert_done:
  assumes "edit_insert R pos s v = Inr w"
  obtains b i e b' where "buffer v = Some b" "valid_pos R b pos i" "edit_ok e (plain_text R b) (plain_text R b')"
    "plain_text R b' = take i (plain_text R b) @ s @ drop i (plain_text R b)"
    "w = sync_parse_cache_after_edit e (plain_text R b') (v\<lparr>buffer := Some b'\<rparr>)"
proof -
  obtain b e b' where b: "buffer v = Some b" "insert_edit R b pos s = Some e"
    "buffer_insert R (fst pos) (snd pos) s b = Inr b'" "w = sync_parse_cache_after_edit e (plain_text R b') (v\<lparr>buffer := Some b'\<rparr>)"
    using assms by (auto simp: edit_insert_def and_then_Inr_iff split: option.splits)
  obtain i where i: "valid_pos R b pos i" "start_byte e = length (str_bytes (take i (plain_text R b)))"
    "old_end_byte e = start_byte e" "new_end_byte e = start_byte e + length (str_bytes s)"
    using insert_edit_Some [OF b(2)] by blast
  have t: "plain_text R b' = take i (plain_text R b) @ s @ drop i (plain_text R b)"
    using buffer_insert_text [of b "fst pos" "snd pos" i s] i(1) b(3) by (auto simp: valid_pos_def)
  have "edit_ok e (plain_text R b) (plain_text R b')"
    using i(2-4) length_str_bytes_mono [of i "length (plain_text R b)" "plain_text R b"] valid_pos_bound [OF i(1)]
    by (simp add: edit_ok_def t take_str_bytes drop_str_bytes)
  then show ?thesis using that b(1,4) i(1) t by blast
qed

lemma edit_delete_done:
  assumes "edit_delete R start stop v = Inr w"
  obtains b i j e b' where "buffer v = Some b" "valid_pos R b start i" "valid_pos R b stop j" "i \<le> j"
    "edit_ok e (plain_text R b) (plain_text R b')"
    "plain_text R b' = take i (plain_text R b) @ drop j (plain_text R b)"
    "w = sync_parse_cache_after_edit e (plain_text R b') (v\<lparr>buffer := Some b'\<rparr>)"
proof -
  obtain b e b' where b: "buffer v = Some b" "delete_edit R b start stop = Some e"
    "buffer_delete R (fst start) (snd start) (fst stop) (snd stop) b = Inr b'"
    "w = sync_parse_cache_after_edit e (plain_text R b') (v\<lparr>buffer := Some b'\<rparr>)"
    using assms by (auto simp: edit_delete_def and_then_Inr_iff split: option.splits)
  obtain i j where i: "valid_pos R b start i" "valid_pos R b stop j" "start_byte e = length (str_bytes (take i (plain_text R b)))"
    "new_end_byte e = start_byte e" "old_end_byte e = length (str_bytes (take j (plain_text R b)))"
    using delete_edit_Some [OF b(2)] by blast
  have le: "i \<le> j" using b(3) i(1,2) by (auto simp: buffer_delete_def valid_pos_def split: if_splits)
  have t: "plain_text R b' = take i (plain_text R b) @ drop j (plain_text R b)"
    using buffer_delete_text [OF _ _ le, of b "fst start" "snd start" "fst stop" "snd stop"] i(1,2) b(3) by (auto simp: valid_pos_def)
  have "edit_ok e (plain_text R b) (plain_text R b')"
    using i(3-5) length_str_bytes_mono [OF le, of "plain_text R b"] length_str_bytes_mono [of j "length (plain_text R b)" "plain_text R b"]
      valid_pos_bound [OF i(2)] le
    by (simp add: edit_ok_def t take_str_bytes drop_str_bytes)
  then show ?thesis using that b(1,4) i(1,2) le t by blast
qed

lemma edit_insert_valid:
  assumes "buffer v = Some b" "valid_pos R b pos i"
  shows "\<exists>w. edit_insert R pos s v = Inr w"
  using assms insert_edit_valid [OF assms(2), of s] by (auto simp: edit_insert_def valid_pos_def buffer_insert_def)

lemma edit_delete_valid:
  assumes "buffer v = Some b" "valid_pos R b start i" "valid_pos R b stop j" "i \<le> j"
  shows "\<exists>w. edit_delete R start stop v = Inr w"
  using assms delete_edit_valid [OF assms(2,3)] by (auto simp: edit_delete_def valid_pos_def buffer_delete_def)

text \<open>The position of a prefix is valid, and names its end.\<close>

lemma prefix_pos:
  assumes "plain_text R b = p @ s" "line_col_at_char R b (length p) = pos"
  shows "valid_pos R b pos (length p)"
  using line_col_prefix [OF assms(1), of "fst pos" "snd pos"] assms(2) by (simp add: valid_pos_def)

lemma valid_pos_unique: "valid_pos R b pos i \<Longrightarrow> valid_pos R b pos j \<Longrightarrow> i = j"
  by (simp add: valid_pos_def)

end

section \<open>Replacing the content\<close>

lemma chars_in_prefix: "chars_in (p @ s) (length (str_bytes p)) = length p"
  using chars_in_take [of "length p" "p @ s"] by simp

lemma char_slice_mid: "char_slice (length (str_bytes p)) (length (str_bytes (p @ y))) (p @ y @ q) = y"
  using chars_in_prefix [of p "y @ q"] chars_in_prefix [of "p @ y" q] by (simp add: char_slice_def bslice_def)

definition good_text :: "ustring \<Rightarrow> bool" where
  "good_text s \<longleftrightarrow> lf_text s \<and> str_ok s"

lemma good_text_append [simp]: "good_text (s @ t) \<longleftrightarrow> good_text s \<and> good_text t"
  by (auto simp: good_text_def lf_text_def)

lemma cursor_after_end_pos: "cursor_after_insert (end_pos p) s = end_pos (p @ s)"
  by (simp add: end_pos_append cursor_after_insert_def) (simp add: end_pos_def)

context rope_contract
begin

lemma text_range_valid:
  "valid_pos R b start i \<Longrightarrow> valid_pos R b stop j \<Longrightarrow> i \<le> j \<Longrightarrow>
   text_range R b (fst start) (snd start) (fst stop) (snd stop) = Inr (bslice i j (plain_text R b))"
  using valid_pos_bound [of b stop j] by (auto simp: text_range_def valid_pos_def plain_text_def)

text \<open>Edits at the ends of prefixes of a text whose only line breaks are line feeds.\<close>

lemma lf_prefix_pos: "plain_text R b = p @ q \<Longrightarrow> lf_text (plain_text R b) \<Longrightarrow> valid_pos R b (end_pos p) (length p)"
  using prefix_pos [of b p q] line_col_lf [of b "length p"] by simp

lemma edit_insert_at:
  assumes "buffer v = Some b" "plain_text R b = p @ q" "lf_text (plain_text R b)"
  obtains e b' where "edit_insert R (end_pos p) s v = Inr (sync_parse_cache_after_edit e (p @ s @ q) (v\<lparr>buffer := Some b'\<rparr>))"
    "plain_text R b' = p @ s @ q" "edit_ok e (p @ q) (p @ s @ q)"
proof -
  have pos: "valid_pos R b (end_pos p) (length p)" using lf_prefix_pos assms(2,3) by blast
  obtain w where w: "edit_insert R (end_pos p) s v = Inr w" using edit_insert_valid [OF assms(1) pos] by blast
  show ?thesis
  proof (rule edit_insert_done [OF w])
    fix c i e b'
    assume c: "buffer v = Some c" "valid_pos R c (end_pos p) i" "edit_ok e (plain_text R c) (plain_text R b')"
      "plain_text R b' = take i (plain_text R c) @ s @ drop i (plain_text R c)"
      "w = sync_parse_cache_after_edit e (plain_text R b') (v\<lparr>buffer := Some b'\<rparr>)"
    then have "c = b" using assms(1) by simp
    then have "i = length p" using valid_pos_unique [OF _ pos] c(2) by blast
    then have "plain_text R b' = p @ s @ q" using c(4) \<open>c = b\<close> assms(2) by simp
    then show ?thesis using that [of e b'] c(3,5) w \<open>c = b\<close> assms(2) by simp
  qed
qed

lemma edit_delete_at:
  assumes "buffer v = Some b" "plain_text R b = p @ x @ q" "lf_text (plain_text R b)"
  obtains e b' where "edit_delete R (end_pos p) (end_pos (p @ x)) v = Inr (sync_parse_cache_after_edit e (p @ q) (v\<lparr>buffer := Some b'\<rparr>))"
    "plain_text R b' = p @ q" "edit_ok e (p @ x @ q) (p @ q)"
proof -
  have pos: "valid_pos R b (end_pos p) (length p)" "valid_pos R b (end_pos (p @ x)) (length (p @ x))"
    using lf_prefix_pos [of b p "x @ q"] lf_prefix_pos [of b "p @ x" q] assms(2,3) by simp_all
  obtain w where w: "edit_delete R (end_pos p) (end_pos (p @ x)) v = Inr w"
    using edit_delete_valid [OF assms(1) pos] by auto
  show ?thesis
  proof (rule edit_delete_done [OF w])
    fix c i j e b'
    assume c: "buffer v = Some c" "valid_pos R c (end_pos p) i" "valid_pos R c (end_pos (p @ x)) j"
      "edit_ok e (plain_text R c) (plain_text R b')" "plain_text R b' = take i (plain_text R c) @ drop j (plain_text R c)"
      "w = sync_parse_cache_after_edit e (plain_text R b') (v\<lparr>buffer := Some b'\<rparr>)"
    then have "c = b" using assms(1) by simp
    then have "i = length p" "j = length (p @ x)" using valid_pos_unique [OF _ pos(1)] valid_pos_unique [OF _ pos(2)] c(2,3) by blast+
    then have "plain_text R b' = p @ q" using c(5) \<open>c = b\<close> assms(2) by simp
    then show ?thesis using that [of e b'] c(4,6) w \<open>c = b\<close> assms(2) by simp
  qed
qed

text \<open>
  The ways \<open>replace_content\<close> can go: the text is the same; a part is deleted or inserted, as one operation of the
  history; or a part is replaced, and the history is dropped.
\<close>

lemma replace_content_cases:
  assumes b: "buffer v = Some b" and edit: "mode v = EditMode" and good: "good_text (plain_text R b)" "good_text (skip_crlf s)"
  obtains
    (same) "replace_content R now s v = (v, Inr ())" "plain_text R b = skip_crlf s"
  | (erased) p x q e b' where "plain_text R b = p @ x @ q" "skip_crlf s = p @ q" "plain_text R b' = p @ q"
      "replace_content R now s v =
        ((sync_parse_cache_after_edit e (p @ q) (v\<lparr>buffer := Some b'\<rparr>))\<lparr>cursor := end_pos p,
          undo_stack := push_op (delete_op (end_pos p) (end_pos (p @ x)) x now) (undo_stack v)\<rparr>, Inr ())"
  | (typed) p y q e b' where "plain_text R b = p @ q" "skip_crlf s = p @ y @ q" "plain_text R b' = p @ y @ q"
      "replace_content R now s v =
        ((sync_parse_cache_after_edit e (p @ y @ q) (v\<lparr>buffer := Some b'\<rparr>))\<lparr>cursor := end_pos (p @ y),
          undo_stack := push_op (insert_op (end_pos p) y now) (undo_stack v)\<rparr>, Inr ())"
  | (middle) w b' where "replace_content R now s v = (w, Inr ())" "buffer w = Some b'" "plain_text R b' = skip_crlf s"
      "mode w = EditMode" "undo_stack w = undo_clear (undo_stack v)" "synced w = []"
proof -
  let ?t = "skip_crlf s"
  note ok = good [unfolded good_text_def]
  show ?thesis
  proof (cases "plain_text R b = ?t")
    case True
    then have "content_eq R ?t b" using content_eq_text ok by blast
    then have "replace_content R now s v = (v, Inr ())" using b edit by (simp add: replace_content_def Let_def)
    then show ?thesis using same True by blast
  next
    case False
    then have ne: "\<not> content_eq R ?t b" using content_eq_text ok by blast
    obtain p x y q where t: "plain_text R b = p @ x @ q" "?t = p @ y @ q"
      and d0: "single_span_diff R ?t b =
        (if x = [] \<and> y = [] then None else Some (length (str_bytes p), length (str_bytes (p @ x)), length (str_bytes (p @ y))))"
      using span_diff_cases [of "plain_text R b" ?t] ok unfolding single_span_diff_text by metis
    define m n k where "m = length (str_bytes p)" "n = length (str_bytes (p @ x))" "k = length (str_bytes (p @ y))"
    note mnk = this
    have xy: "\<not> (x = [] \<and> y = [])" using t False by auto
    then have d: "single_span_diff R ?t b = Some (m, n, k)" using d0 by (simp add: mnk)
    have lc: "line_col_at_char R b (byte_to_char_idx R b m) = end_pos p"
      "line_col_at_char R b (byte_to_char_idx R b n) = end_pos (p @ x)"
      using line_col_lf [of b "length p"] line_col_lf [of b "length (p @ x)"] ok t(1)
        byte_to_char_prefix [of b p "x @ q"] byte_to_char_prefix [of b "p @ x" q] by (simp_all add: mnk(1,2) del: str_bytes_simps)
    have slice: "char_slice m k ?t = y" unfolding t(2) mnk by (rule char_slice_mid)
    have mn: "m = n \<longleftrightarrow> x = []" by (simp add: mnk)
    note run = replace_content_def [of R now s v] Let_def b edit ne d xy lc slice mn
    have lf: "lf_text (plain_text R b)" using ok by simp
    have pos: "valid_pos R b (end_pos p) (length p)" "valid_pos R b (end_pos (p @ x)) (length (p @ x))"
      using lf_prefix_pos [of b p "x @ q"] lf_prefix_pos [of b "p @ x" q] t(1) lf by simp_all
    consider "x \<noteq> []" "y = []" | "x = []" "y \<noteq> []" | "x \<noteq> []" "y \<noteq> []" using xy by blast
    then show ?thesis
    proof cases
      case 1
      obtain e b' where e: "edit_delete R (end_pos p) (end_pos (p @ x)) v = Inr (sync_parse_cache_after_edit e (p @ q) (v\<lparr>buffer := Some b'\<rparr>))"
        "plain_text R b' = p @ q" using edit_delete_at [OF b t(1) lf] by blast
      have "text_range R b (fst (end_pos p)) (snd (end_pos p)) (fst (end_pos (p @ x))) (snd (end_pos (p @ x))) = Inr x"
        using text_range_valid [OF pos] t(1) by (simp add: bslice_def)
      then have "replace_content R now s v =
        ((sync_parse_cache_after_edit e (p @ q) (v\<lparr>buffer := Some b'\<rparr>))\<lparr>cursor := end_pos p,
          undo_stack := push_op (delete_op (end_pos p) (end_pos (p @ x)) x now) (undo_stack v)\<rparr>, Inr ())"
        using 1 e(1) by (simp add: run)
      then show ?thesis using erased [of p x q b' e] t e(2) 1 by simp
    next
      case 2
      then have "plain_text R b = p @ q" using t(1) by simp
      then obtain e b' where e: "edit_insert R (end_pos p) y v = Inr (sync_parse_cache_after_edit e (p @ y @ q) (v\<lparr>buffer := Some b'\<rparr>))"
        "plain_text R b' = p @ y @ q" using edit_insert_at [OF b _ lf] by metis
      have "replace_content R now s v =
        ((sync_parse_cache_after_edit e (p @ y @ q) (v\<lparr>buffer := Some b'\<rparr>))\<lparr>cursor := end_pos (p @ y),
          undo_stack := push_op (insert_op (end_pos p) y now) (undo_stack v)\<rparr>, Inr ())"
        using 2 e(1) by (simp add: run cursor_after_end_pos)
      then show ?thesis using typed [of p q y b' e] t e(2) 2 by simp
    next
      case 3
      obtain b1 where b1: "buffer_delete R (fst (end_pos p)) (snd (end_pos p)) (fst (end_pos (p @ x))) (snd (end_pos (p @ x))) b = Inr b1"
        "plain_text R b1 = p @ q"
        using buffer_delete_text [of b "fst (end_pos p)" "snd (end_pos p)" "length p" "fst (end_pos (p @ x))" "snd (end_pos (p @ x))" "length (p @ x)"]
          pos t(1) by (auto simp: valid_pos_def)
      have "good_text (p @ q)" using good(1) t(1) by simp
      then have "valid_pos R b1 (end_pos p) (length p)" using lf_prefix_pos [of b1 p q] b1(2) by (simp add: good_text_def)
      then obtain b2 where b2: "buffer_insert R (fst (end_pos p)) (snd (end_pos p)) y b1 = Inr b2" "plain_text R b2 = p @ y @ q"
        using buffer_insert_text [of b1 "fst (end_pos p)" "snd (end_pos p)" "length p" y] b1(2) by (auto simp: valid_pos_def)
      have w: "replace_content R now s v =
        ((invalidate_parse_cache (v\<lparr>buffer := Some b2\<rparr>))\<lparr>undo_stack := undo_clear (undo_stack v),
          cursor := end_pos (p @ y)\<rparr>, Inr ())"
        using 3 by (simp add: run replace_middle_def b1 b2 cursor_after_end_pos)
      show ?thesis by (rule middle [OF w, of b2]) (use b2(2) t(2) edit in \<open>simp_all add: invalidate_parse_cache_def\<close>)
    qed
  qed
qed

lemma replace_content_text:
  assumes "buffer v = Some b" "mode v = EditMode" "good_text (plain_text R b)" "good_text (skip_crlf s)"
  shows "\<exists>w b'. replace_content R now s v = (w, Inr ()) \<and> buffer w = Some b' \<and> plain_text R b' = skip_crlf s"
  by (rule replace_content_cases [OF assms, of now]) (use assms(1) in simp_all)

end

text \<open>
  C15. In edit mode \<open>replace_content\<close> leaves in the buffer the new text with its CRLF pairs made line feeds: the span found
  by comparing bytes, translated to lines and columns and applied as a deletion and an insertion, is the whole difference.
  The old text, and the new one without its CRLF pairs, are valid UTF-8 without line breaks other than line feeds; with
  others the buffer can differ (\<open>replace_after_carriage_return\<close>).
\<close>

theorem replace_content_exact:
  assumes "rope_contract R" "buffer v = Some b" "mode v = EditMode"
    and "good_text (plain_text R b)" "good_text (skip_crlf s)"
  shows "\<exists>w b'. replace_content R now s v = (w, Inr ()) \<and> buffer w = Some b' \<and> plain_text R b' = skip_crlf s"
  using rope_contract.replace_content_text [OF assms] .

theorem replace_content_exact_witness:
  defines "v \<equiv> set_mode EditMode (viewer_open text_rope latin1 [97, 10, 98, 99] viewer_new)"
  shows "\<exists>w b'. replace_content text_rope 7 [97, 13, 10, 120, 99] v = (w, Inr ()) \<and> buffer w = Some b' \<and>
    plain_text text_rope b' = skip_crlf [97, 13, 10, 120, 99]"
proof -
  let ?b = "from_bytes text_rope latin1 [97, 10, 98, 99]"
  have v: "buffer v = Some ?b" "mode v = EditMode" unfolding v_def by code_simp+
  have t: "plain_text text_rope ?b = [97, 10, 98, 99]" "skip_crlf [97, 13, 10, 120, 99] = [97, 10, 120, 99]" by code_simp+
  have g: "good_text (plain_text text_rope ?b)" "good_text (skip_crlf [97, 13, 10, 120, 99])"
    unfolding t by (simp_all add: good_text_def lf_text_def is_line_break_def scalar_def)
  show ?thesis by (rule replace_content_exact [OF text_rope.rope_contract_axioms v g])
qed


section \<open>The history\<close>

text \<open>
  The abstract editor: a text, the texts before it and the texts undone, the nearest first.  An edit records the
  present text, or replaces it when the edit is merged with the previous one; replacing the middle of the text
  forgets the history; undoing and redoing move along it.
\<close>

record text_history =
  before :: "ustring list"
  present :: ustring
  after :: "ustring list"
  editing :: bool

datatype text_event =
    TypeText ustring nat
  | Erase CursorPos CursorPos nat
  | ReplaceText ustring nat
  | UndoEdit
  | RedoEdit
  | MoveTo CursorPos
  | SwitchMode TextViewerMode

definition text_step ::
  "'r rope_ops \<Rightarrow> text_event \<Rightarrow> ('r, 'e) TextViewer \<Rightarrow> ('r, 'e) TextViewer \<times> (viewer_error + unit)"
where
  "text_step R ev v =
    (case ev of
       TypeText s now \<Rightarrow> viewer_insert R now s v
     | Erase start stop now \<Rightarrow> viewer_delete R now start stop v
     | ReplaceText s now \<Rightarrow> replace_content R now s v
     | UndoEdit \<Rightarrow> viewer_undo R v
     | RedoEdit \<Rightarrow> viewer_redo R v
     | MoveTo p \<Rightarrow> (move_cursor p v, Inr ())
     | SwitchMode m \<Rightarrow> (set_mode m v, Inr ()))"

fun text_run ::
  "'r rope_ops \<Rightarrow> text_event list \<Rightarrow> ('r, 'e) TextViewer \<Rightarrow> ('r, 'e) TextViewer \<times> (viewer_error + unit) list"
where
  "text_run R [] v = (v, [])"
| "text_run R (ev # evs) v = (let (v, out) = text_step R ev v; (v, outs) = text_run R evs v in (v, out # outs))"

text \<open>An edit of the present text to \<open>t\<close>.\<close>

inductive edited :: "text_history \<Rightarrow> ustring \<Rightarrow> text_history \<Rightarrow> bool" where
  recorded: "edited h t (h\<lparr>before := present h # before h, present := t, after := []\<rparr>)"
| merged: "before h \<noteq> [] \<Longrightarrow> edited h t (h\<lparr>present := t, after := []\<rparr>)"

inductive hist_step :: "text_event \<Rightarrow> text_history \<Rightarrow> viewer_error + unit \<Rightarrow> text_history \<Rightarrow> bool" where
  typed: "editing h \<Longrightarrow> present h = p @ q \<Longrightarrow> edited h (p @ s @ q) h' \<Longrightarrow> hist_step (TypeText s now) h (Inr ()) h'"
| erased: "editing h \<Longrightarrow> present h = p @ x @ q \<Longrightarrow> edited h (p @ q) h' \<Longrightarrow> hist_step (Erase start stop now) h (Inr ()) h'"
| type_refused: "hist_step (TypeText s now) h (Inl EditOutOfBounds) h"
| erase_refused: "hist_step (Erase start stop now) h (Inl EditOutOfBounds) h"
| same: "editing h \<Longrightarrow> present h = skip_crlf s \<Longrightarrow> hist_step (ReplaceText s now) h (Inr ()) h"
| replaced: "editing h \<Longrightarrow> edited h (skip_crlf s) h' \<Longrightarrow> hist_step (ReplaceText s now) h (Inr ()) h'"
| forgotten: "editing h \<Longrightarrow> hist_step (ReplaceText s now) h (Inr ()) (h\<lparr>before := [], present := skip_crlf s, after := []\<rparr>)"
| nothing_before: "editing h \<Longrightarrow> before h = [] \<Longrightarrow> hist_step UndoEdit h (Inr ()) h"
| undone: "editing h \<Longrightarrow> before h = s # ss \<Longrightarrow>
    hist_step UndoEdit h (Inr ()) (h\<lparr>before := ss, present := s, after := present h # after h\<rparr>)"
| nothing_after: "editing h \<Longrightarrow> after h = [] \<Longrightarrow> hist_step RedoEdit h (Inr ()) h"
| redone: "editing h \<Longrightarrow> after h = s # ss \<Longrightarrow>
    hist_step RedoEdit h (Inr ()) (h\<lparr>before := present h # before h, present := s, after := ss\<rparr>)"
| reading: "\<not> editing h \<Longrightarrow> ev = UndoEdit \<or> ev = RedoEdit \<or> ev = ReplaceText s now \<Longrightarrow> hist_step ev h (Inl EditOutOfBounds) h"
| moved: "hist_step (MoveTo p) h (Inr ()) h"
| switched: "hist_step (SwitchMode m) h (Inr ()) (h\<lparr>editing := (m = EditMode)\<rparr>)"

fun hist_run :: "text_event list \<Rightarrow> text_history \<Rightarrow> (viewer_error + unit) list \<Rightarrow> text_history \<Rightarrow> bool" where
  "hist_run [] h outs h' \<longleftrightarrow> outs = [] \<and> h' = h"
| "hist_run (ev # evs) h outs h' \<longleftrightarrow> (\<exists>out rest h1. outs = out # rest \<and> hist_step ev h out h1 \<and> hist_run evs h1 rest h')"

definition event_ok :: "text_event \<Rightarrow> bool" where
  "event_ok ev = (case ev of TypeText s _ \<Rightarrow> good_text s | ReplaceText s _ \<Rightarrow> good_text (skip_crlf s) | _ \<Rightarrow> True)"

text \<open>An operation of the stack relates the text without it, \<open>s\<close>, and the text with it, \<open>t\<close>.\<close>

definition adds_text :: "TextOp \<Rightarrow> ustring \<Rightarrow> ustring \<Rightarrow> bool" where
  "adds_text x s t \<longleftrightarrow> good_text t \<and>
    (\<exists>p q. s = p @ q \<and> t = p @ op_text x @ q \<and> end_pos p = start_pos x \<and> end_pos (p @ op_text x) = stop_pos x)"

definition op_between :: "TextOp \<Rightarrow> ustring \<Rightarrow> ustring \<Rightarrow> bool" where
  "op_between x s t = (case kind x of InsertOp \<Rightarrow> adds_text x s t | DeleteOp \<Rightarrow> adds_text x t s)"

fun chain :: "('x \<Rightarrow> 's \<Rightarrow> 's \<Rightarrow> bool) \<Rightarrow> 'x list \<Rightarrow> 's list \<Rightarrow> 's \<Rightarrow> bool" where
  "chain rel [] [] t \<longleftrightarrow> True"
| "chain rel (x # xs) (s # ss) t \<longleftrightarrow> rel x s t \<and> chain rel xs ss s"
| "chain rel _ _ t \<longleftrightarrow> False"

definition simulates :: "'r rope_ops \<Rightarrow> ('r, 'e) TextViewer \<Rightarrow> text_history \<Rightarrow> bool" where
  "simulates R v h \<longleftrightarrow>
    (\<exists>b. buffer v = Some b \<and> plain_text R b = present h) \<and> good_text (present h) \<and> (editing h \<longleftrightarrow> mode v = EditMode) \<and>
    chain op_between (rev (done_ops (undo_stack v))) (before h) (present h) \<and>
    chain (\<lambda>x s t. op_between x t s) (rev (undone_ops (undo_stack v))) (after h) (present h)"

lemma chain_Nil_iff: "chain rel [] ss t \<longleftrightarrow> ss = []" "chain rel xs [] t \<longleftrightarrow> xs = []"
  by (cases ss; simp) (cases xs; simp)

lemma chain_empty: "chain rel xs ss t \<Longrightarrow> xs = [] \<longleftrightarrow> ss = []"
  by (cases xs; cases ss) simp_all

lemma chain_Cons_iff: "chain rel (x # xs) ss t \<longleftrightarrow> (\<exists>s ss'. ss = s # ss' \<and> rel x s t \<and> chain rel xs ss' s)"
  by (cases ss) simp_all

lemma chain_ConsI_iff: "chain rel xs (s # ss) t \<longleftrightarrow> (\<exists>x xs'. xs = x # xs' \<and> rel x s t \<and> chain rel xs' ss s)"
  by (cases xs) simp_all

text \<open>Positions in a text are unique, so adjacent insertions join.\<close>

lemma end_pos_inj:
  assumes "p @ x = q @ y" "end_pos p = end_pos q"
  shows "p = q"
proof -
  have *: "d = []" if "end_pos (a @ d) = end_pos a" for a d
  proof (cases "10 \<in> set d")
    case True
    then have "fst (end_pos d) \<noteq> 0" by (simp add: end_pos_def count_list_0_iff)
    then show ?thesis using that True by (auto simp: end_pos_append prod_eq_iff)
  qed (use that in \<open>auto simp: end_pos_append prod_eq_iff\<close>)
  have "(\<exists>d. q = p @ d) \<or> (\<exists>d. p = q @ d)" using assms(1) by (metis append_eq_append_conv2)
  then show ?thesis using * assms(2) by (metis append_Nil2)
qed

lemma adds_text_merge:
  assumes "adds_text x s t" "adds_text y t u" "stop_pos x = start_pos y"
  shows "adds_text (x\<lparr>op_text := op_text x @ op_text y, stop_pos := stop_pos y, timestamp := n\<rparr>) s u"
proof -
  obtain p q where x: "s = p @ q" "t = p @ op_text x @ q" "end_pos p = start_pos x" "end_pos (p @ op_text x) = stop_pos x"
    using assms(1) by (auto simp: adds_text_def)
  obtain p2 q2 where y: "t = p2 @ q2" "u = p2 @ op_text y @ q2" "end_pos p2 = start_pos y" "end_pos (p2 @ op_text y) = stop_pos y"
    "good_text u" using assms(2) by (auto simp: adds_text_def)
  have "p @ op_text x = p2" using end_pos_inj [of "p @ op_text x" q p2 q2] x(2,4) y(1,3) assms(3) by simp
  then show ?thesis using x y unfolding adds_text_def by (intro conjI exI [of _ p] exI [of _ q]) auto
qed

lemma adds_text_insert: "good_text (p @ s @ q) \<Longrightarrow> adds_text (insert_op (end_pos p) s now) (p @ q) (p @ s @ q)"
  by (auto simp: adds_text_def insert_op_def cursor_after_end_pos)

lemma adds_text_delete: "good_text (p @ s @ q) \<Longrightarrow> adds_text (delete_op (end_pos p) (end_pos (p @ s)) s now) (p @ q) (p @ s @ q)"
  by (auto simp: adds_text_def delete_op_def)

lemma op_between_insert: "good_text (p @ s @ q) \<Longrightarrow> op_between (insert_op (end_pos p) s now) (p @ q) (p @ s @ q)"
  using adds_text_insert [of p s q now] by (simp add: op_between_def insert_op_def)

lemma op_between_delete:
  "good_text (p @ s @ q) \<Longrightarrow> op_between (delete_op (end_pos p) (end_pos (p @ s)) s now) (p @ s @ q) (p @ q)"
  using adds_text_delete [of p s q now] by (simp add: op_between_def delete_op_def)

lemma op_between_good: "op_between x s t \<Longrightarrow> good_text s \<and> good_text t"
  by (auto simp: op_between_def adds_text_def split: TextOpKind.splits)

text \<open>Pushing an operation: a new entry, or one joined with the last.\<close>

lemma push_op_chain:
  assumes c: "chain op_between (rev (done_ops u)) ss s" and x: "op_between x s t"
  shows "undone_ops (push_op x u) = [] \<and>
    (chain op_between (rev (done_ops (push_op x u))) (s # ss) t \<or>
     ss \<noteq> [] \<and> chain op_between (rev (done_ops (push_op x u))) ss t)"
proof (cases "done_ops u \<noteq> [] \<and> can_merge (last (done_ops u)) x (merge_window u)")
  case False
  then have "push_op x u = u\<lparr>undone_ops := [], done_ops := done_ops u @ [x]\<rparr>" by (auto simp: push_op_def Let_def)
  then show ?thesis using c x by simp
next
  case True
  let ?y = "last (done_ops u)"
  have d: "done_ops u = butlast (done_ops u) @ [?y]" using True by simp
  have p: "push_op x u = u\<lparr>undone_ops := [], done_ops := butlast (done_ops u) @
      [?y\<lparr>op_text := op_text ?y @ op_text x, stop_pos := stop_pos x, timestamp := timestamp x\<rparr>]\<rparr>"
    using True by (simp add: push_op_def Let_def)
  obtain s0 ss0 where s0: "ss = s0 # ss0" "op_between ?y s0 s" "chain op_between (rev (butlast (done_ops u))) ss0 s0"
    using c by (subst (asm) d) (auto simp: chain_Cons_iff)
  have k: "kind ?y = InsertOp" "kind x = InsertOp" "stop_pos ?y = start_pos x" using True by (auto simp: can_merge_def)
  then have "adds_text (?y\<lparr>op_text := op_text ?y @ op_text x, stop_pos := stop_pos x, timestamp := timestamp x\<rparr>) s0 t"
    using adds_text_merge [of ?y s0 s x t] s0(2) x by (simp add: op_between_def)
  then show ?thesis using p s0 k by (simp add: op_between_def)
qed

lemma simulates_push:
  assumes sim: "simulates R v h" and w: "buffer w = Some b" "plain_text R b = t" "mode w = mode v" "undo_stack w = push_op x (undo_stack v)"
    and x: "op_between x (present h) t"
  shows "\<exists>h'. edited h t h' \<and> simulates R w h'"
proof -
  note s = sim [unfolded simulates_def]
  note p = push_op_chain [of "undo_stack v" "before h" "present h" x t] s x
  have t: "good_text t" using op_between_good [OF x] by simp
  consider "chain op_between (rev (done_ops (undo_stack w))) (present h # before h) t"
    | "before h \<noteq> []" "chain op_between (rev (done_ops (undo_stack w))) (before h) t" using p w(4) by auto
  then show ?thesis
  proof cases
    case 1
    then have "simulates R w (h\<lparr>before := present h # before h, present := t, after := []\<rparr>)"
      using s p w t by (simp add: simulates_def)
    then show ?thesis using edited.recorded by blast
  next
    case 2
    then have "simulates R w (h\<lparr>present := t, after := []\<rparr>)" using s p w t by (simp add: simulates_def)
    then show ?thesis using edited.merged 2(1) by blast
  qed
qed

context rope_contract
begin

lemma valid_pos_end:
  assumes "lf_text (plain_text R b)" "valid_pos R b pos i"
  shows "end_pos (take i (plain_text R b)) = pos"
  using line_col_to_char_lf [OF assms(1), of "fst pos" "snd pos" i] assms(2) by (simp add: valid_pos_def)

lemma insert_simulated:
  assumes sim: "simulates R v h" and s: "good_text s" and run: "viewer_insert R now s v = (w, out)"
  shows "\<exists>h'. hist_step (TypeText s now) h out h' \<and> simulates R w h'"
proof (cases "mode v = EditMode \<and> (\<exists>w. edit_insert R (cursor v) s v = Inr w)")
  case False
  then have "w = v" "out = Inl EditOutOfBounds"
    using run by (auto simp: viewer_insert_def edit_insert_def and_then_def buffer_insert_def split: if_splits sum.splits option.splits)
  then show ?thesis using sim hist_step.type_refused by blast
next
  case True
  then obtain u where u: "edit_insert R (cursor v) s v = Inr u" and m: "mode v = EditMode" by blast
  show ?thesis
  proof (rule edit_insert_done [OF u])
    fix b i e b'
    assume b: "buffer v = Some b" "valid_pos R b (cursor v) i" "plain_text R b' = take i (plain_text R b) @ s @ drop i (plain_text R b)"
      "u = sync_parse_cache_after_edit e (plain_text R b') (v\<lparr>buffer := Some b'\<rparr>)"
    let ?p = "take i (plain_text R b)" and ?q = "drop i (plain_text R b)"
    have h: "present h = ?p @ ?q" "good_text (plain_text R b)" "editing h" using sim b(1) m by (auto simp: simulates_def)
    have c: "cursor v = end_pos ?p" using valid_pos_end [OF _ b(2)] h(2) by (simp add: good_text_def)
    have "good_text (?p @ s @ ?q)" using s h(2) by (metis append_take_drop_id good_text_append)
    then have "op_between (insert_op (cursor v) s now) (present h) (?p @ s @ ?q)"
      unfolding c h(1) by (rule op_between_insert)
    moreover have w: "w = u\<lparr>cursor := cursor_after_insert (cursor v) s, undo_stack := push_op (insert_op (cursor v) s now) (undo_stack u)\<rparr>"
      "out = Inr ()" using run u m by (simp_all add: viewer_insert_def)
    ultimately obtain h' where "edited h (?p @ s @ ?q) h'" "simulates R w h'"
      using simulates_push [OF sim, of w b' "?p @ s @ ?q"] b(3,4) by auto
    then show ?thesis using hist_step.typed [OF h(3,1)] w(2) by blast
  qed
qed

lemma delete_simulated:
  assumes sim: "simulates R v h" and run: "viewer_delete R now start stop v = (w, out)"
  shows "\<exists>h'. hist_step (Erase start stop now) h out h' \<and> simulates R w h'"
proof (cases "mode v = EditMode \<and> (\<exists>w. edit_delete R start stop v = Inr w)")
  case False
  then have "w = v" "out = Inl EditOutOfBounds"
    using run by (auto simp: viewer_delete_def edit_delete_def deleted_text_def and_then_def buffer_delete_def text_range_def
        split: if_splits sum.splits option.splits)
  then show ?thesis using sim hist_step.erase_refused by blast
next
  case True
  then obtain u where u: "edit_delete R start stop v = Inr u" and m: "mode v = EditMode" by blast
  show ?thesis
  proof (rule edit_delete_done [OF u])
    fix b i j e b'
    assume b: "buffer v = Some b" "valid_pos R b start i" "valid_pos R b stop j" "i \<le> j"
      "plain_text R b' = take i (plain_text R b) @ drop j (plain_text R b)"
      "u = sync_parse_cache_after_edit e (plain_text R b') (v\<lparr>buffer := Some b'\<rparr>)"
    let ?t = "plain_text R b"
    let ?p = "take i ?t" and ?x = "bslice i j ?t" and ?q = "drop j ?t"
    have px: "?p @ ?x = take j ?t" using b(4) by (metis bslice_def le_add_diff_inverse take_add)
    then have t: "?t = ?p @ ?x @ ?q" by (metis append_assoc append_take_drop_id)
    have h: "present h = ?p @ ?x @ ?q" "good_text ?t" "editing h" using sim b(1) m t by (auto simp: simulates_def)
    have c: "start = end_pos ?p" "stop = end_pos (?p @ ?x)"
      using valid_pos_end [OF _ b(2)] valid_pos_end [OF _ b(3)] h(2) px by (simp_all add: good_text_def)
    have "good_text (?p @ ?x @ ?q)" using h(2) t by simp
    then have "op_between (delete_op start stop ?x now) (present h) (?p @ ?q)"
      unfolding c h(1) by (rule op_between_delete)
    moreover have "text_range R b (fst start) (snd start) (fst stop) (snd stop) = Inr ?x" using text_range_valid b(2-4) by blast
    then have w: "w = u\<lparr>cursor := start, undo_stack := push_op (delete_op start stop ?x now) (undo_stack u)\<rparr>" "out = Inr ()"
      using run u m b(1) by (simp_all add: viewer_delete_def deleted_text_def)
    ultimately obtain h' where "edited h (?p @ ?q) h'" "simulates R w h'"
      using simulates_push [OF sim, of w b' "?p @ ?q"] b(5,6) by auto
    then show ?thesis using hist_step.erased [OF h(3,1)] w(2) by blast
  qed
qed

lemma replace_simulated:
  assumes sim: "simulates R v h" and s: "good_text (skip_crlf s)" and run: "replace_content R now s v = (w, out)"
  shows "\<exists>h'. hist_step (ReplaceText s now) h out h' \<and> simulates R w h'"
proof (cases "mode v = EditMode")
  case False
  then have "w = v" "out = Inl EditOutOfBounds" "\<not> editing h" using run sim by (auto simp: replace_content_def simulates_def)
  then show ?thesis using sim hist_step.reading [of h "ReplaceText s now" s now] by blast
next
  case True
  obtain b where b: "buffer v = Some b" "plain_text R b = present h" "good_text (plain_text R b)" "editing h"
    using sim True by (auto simp: simulates_def)
  show ?thesis
  proof (cases rule: replace_content_cases [OF b(1) True b(3) s, of now, case_names same erased typed middle])
    case same
    then show ?thesis using hist_step.same [of h s now] b(2,4) run sim by auto
  next
    case (erased p x q e b')
    have "op_between (delete_op (end_pos p) (end_pos (p @ x)) x now) (present h) (p @ q)"
      using op_between_delete [of p x q now] b(2,3) erased(1) by metis
    then obtain h' where "edited h (skip_crlf s) h'" "simulates R w h'"
      using simulates_push [OF sim, of w b' "p @ q"] erased run by auto
    then show ?thesis using hist_step.replaced [OF b(4)] erased(4) run by auto
  next
    case (typed p y q e b')
    have "op_between (insert_op (end_pos p) y now) (present h) (p @ y @ q)"
      using op_between_insert [of p y q now] b(2) s typed(1,2) by metis
    then obtain h' where "edited h (skip_crlf s) h'" "simulates R w h'"
      using simulates_push [OF sim, of w b' "p @ y @ q"] typed run by auto
    then show ?thesis using hist_step.replaced [OF b(4)] typed(4) run by auto
  next
    case (middle w' b')
    then have "simulates R w (h\<lparr>before := [], present := skip_crlf s, after := []\<rparr>)"
      using run s b(4) by (auto simp: simulates_def undo_clear_def)
    then show ?thesis using hist_step.forgotten [OF b(4)] middle(1) run by auto
  qed
qed

end

lemma rev_pop: "xs \<noteq> [] \<Longrightarrow> rev xs = last xs # rev (butlast xs)"
  by (cases xs rule: rev_cases) simp_all

context rope_contract
begin

lemma take_back:
  assumes "buffer v = Some b" "plain_text R b = t" "adds_text x s t"
  obtains e b' where "edit_delete R (start_pos x) (stop_pos x) v = Inr (sync_parse_cache_after_edit e s (v\<lparr>buffer := Some b'\<rparr>))"
    "plain_text R b' = s"
proof -
  obtain p q where x: "s = p @ q" "t = p @ op_text x @ q" "end_pos p = start_pos x" "end_pos (p @ op_text x) = stop_pos x" "lf_text t"
    using assms(3) by (auto simp: adds_text_def good_text_def)
  show ?thesis
    by (rule edit_delete_at [OF assms(1), of p "op_text x" q]) (use that x assms(2) in auto)
qed

lemma put_again:
  assumes "buffer v = Some b" "plain_text R b = s" "adds_text x s t"
  obtains e b' where "edit_insert R (start_pos x) (op_text x) v = Inr (sync_parse_cache_after_edit e t (v\<lparr>buffer := Some b'\<rparr>))"
    "plain_text R b' = t"
proof -
  obtain p q where x: "s = p @ q" "t = p @ op_text x @ q" "end_pos p = start_pos x" "good_text (p @ op_text x @ q)"
    using assms(3) by (auto simp: adds_text_def)
  then have "lf_text s" by (metis good_text_append good_text_def)
  then show ?thesis
    by (rule_tac edit_insert_at [OF assms(1), of p q "op_text x"]) (use that x assms(2) in auto)
qed

lemma undo_simulated:
  assumes sim: "simulates R v h" and run: "viewer_undo R v = (w, out)"
  shows "\<exists>h'. hist_step UndoEdit h out h' \<and> simulates R w h'"
proof -
  note s = sim [unfolded simulates_def]
  obtain b where b: "buffer v = Some b" "plain_text R b = present h" using s by blast
  show ?thesis
  proof (cases "mode v = EditMode")
    case False
    then have "w = v" "out = Inl EditOutOfBounds" "\<not> editing h" using run s by (auto simp: viewer_undo_def)
    then show ?thesis using sim hist_step.reading [of h UndoEdit] by blast
  next
    case m: True
    then have ed: "editing h" using s by simp
    let ?u = "undo_stack v"
    show ?thesis
    proof (cases "done_ops ?u = []")
      case True
      then have "w = v" "out = Inr ()" "before h = []" using run m s by (auto simp: viewer_undo_def pop_undo_def chain_Nil_iff)
      then show ?thesis using sim hist_step.nothing_before [OF ed] by blast
    next
      case False
      let ?x = "last (done_ops ?u)"
      define u' where "u' = ?u\<lparr>done_ops := butlast (done_ops ?u), undone_ops := undone_ops ?u @ [?x]\<rparr>"
      let ?v = "v\<lparr>undo_stack := u'\<rparr>"
      obtain t ts where t: "before h = t # ts" "op_between ?x t (present h)" "chain op_between (rev (butlast (done_ops ?u))) ts t"
        using s rev_pop [OF False] by (auto simp: chain_Cons_iff)
      have pop: "pop_undo ?u = (u', Some ?x)" using False by (simp add: pop_undo_def u'_def Let_def)
      have b': "buffer ?v = Some b" using b(1) by simp
      have "\<exists>c e b2. (w, out) = ((sync_parse_cache_after_edit e t (?v\<lparr>buffer := Some b2\<rparr>))\<lparr>cursor := c\<rparr>, Inr ()) \<and> plain_text R b2 = t"
      proof (cases "kind ?x")
        case InsertOp
        then have "adds_text ?x t (present h)" using t(2) by (simp add: op_between_def)
        then obtain e b2 where e: "edit_delete R (start_pos ?x) (stop_pos ?x) ?v = Inr (sync_parse_cache_after_edit e t (?v\<lparr>buffer := Some b2\<rparr>))"
          "plain_text R b2 = t" by (rule take_back [OF b' b(2)])
        have "(w, out) = ((sync_parse_cache_after_edit e t (?v\<lparr>buffer := Some b2\<rparr>))\<lparr>cursor := start_pos ?x\<rparr>, Inr ())"
          using run m pop InsertOp e(1) by (simp add: viewer_undo_def Let_def)
        then show ?thesis using e(2) by blast
      next
        case DeleteOp
        then have "adds_text ?x (present h) t" using t(2) by (simp add: op_between_def)
        then obtain e b2 where e: "edit_insert R (start_pos ?x) (op_text ?x) ?v = Inr (sync_parse_cache_after_edit e t (?v\<lparr>buffer := Some b2\<rparr>))"
          "plain_text R b2 = t" by (rule put_again [OF b' b(2)])
        have "(w, out) = ((sync_parse_cache_after_edit e t (?v\<lparr>buffer := Some b2\<rparr>))\<lparr>cursor := stop_pos ?x\<rparr>, Inr ())"
          using run m pop DeleteOp e(1) by (simp add: viewer_undo_def Let_def)
        then show ?thesis using e(2) by blast
      qed
      then obtain b2 where w: "buffer w = Some b2" "plain_text R b2 = t" "mode w = EditMode" "undo_stack w = u'" "out = Inr ()"
        using m by auto
      then have "simulates R w (h\<lparr>before := ts, present := t, after := present h # after h\<rparr>)"
        using s t ed op_between_good [OF t(2)] by (simp add: simulates_def u'_def)
      then show ?thesis using hist_step.undone [OF ed t(1)] w(5) by blast
    qed
  qed
qed

lemma redo_simulated:
  assumes sim: "simulates R v h" and run: "viewer_redo R v = (w, out)"
  shows "\<exists>h'. hist_step RedoEdit h out h' \<and> simulates R w h'"
proof -
  note s = sim [unfolded simulates_def]
  obtain b where b: "buffer v = Some b" "plain_text R b = present h" using s by blast
  show ?thesis
  proof (cases "mode v = EditMode")
    case False
    then have "w = v" "out = Inl EditOutOfBounds" "\<not> editing h" using run s by (auto simp: viewer_redo_def)
    then show ?thesis using sim hist_step.reading [of h RedoEdit] by blast
  next
    case m: True
    then have ed: "editing h" using s by simp
    let ?u = "undo_stack v"
    show ?thesis
    proof (cases "undone_ops ?u = []")
      case True
      then have "w = v" "out = Inr ()" "after h = []" using run m s by (auto simp: viewer_redo_def pop_redo_def chain_Nil_iff)
      then show ?thesis using sim hist_step.nothing_after [OF ed] by blast
    next
      case False
      let ?x = "last (undone_ops ?u)"
      define u' where "u' = ?u\<lparr>undone_ops := butlast (undone_ops ?u), done_ops := done_ops ?u @ [?x]\<rparr>"
      let ?v = "v\<lparr>undo_stack := u'\<rparr>"
      obtain t ts where t: "after h = t # ts" "op_between ?x (present h) t"
        "chain (\<lambda>x s t. op_between x t s) (rev (butlast (undone_ops ?u))) ts t"
        using s rev_pop [OF False] by (auto simp: chain_Cons_iff)
      have pop: "pop_redo ?u = (u', Some ?x)" using False by (simp add: pop_redo_def u'_def Let_def)
      have b': "buffer ?v = Some b" using b(1) by simp
      have "\<exists>c e b2. (w, out) = ((sync_parse_cache_after_edit e t (?v\<lparr>buffer := Some b2\<rparr>))\<lparr>cursor := c\<rparr>, Inr ()) \<and> plain_text R b2 = t"
      proof (cases "kind ?x")
        case InsertOp
        then have "adds_text ?x (present h) t" using t(2) by (simp add: op_between_def)
        then obtain e b2 where e: "edit_insert R (start_pos ?x) (op_text ?x) ?v = Inr (sync_parse_cache_after_edit e t (?v\<lparr>buffer := Some b2\<rparr>))"
          "plain_text R b2 = t" by (rule put_again [OF b' b(2)])
        have "(w, out) = ((sync_parse_cache_after_edit e t (?v\<lparr>buffer := Some b2\<rparr>))\<lparr>cursor := stop_pos ?x\<rparr>, Inr ())"
          using run m pop InsertOp e(1) by (simp add: viewer_redo_def Let_def)
        then show ?thesis using e(2) by blast
      next
        case DeleteOp
        then have "adds_text ?x t (present h)" using t(2) by (simp add: op_between_def)
        then obtain e b2 where e: "edit_delete R (start_pos ?x) (stop_pos ?x) ?v = Inr (sync_parse_cache_after_edit e t (?v\<lparr>buffer := Some b2\<rparr>))"
          "plain_text R b2 = t" by (rule take_back [OF b' b(2)])
        have "(w, out) = ((sync_parse_cache_after_edit e t (?v\<lparr>buffer := Some b2\<rparr>))\<lparr>cursor := start_pos ?x\<rparr>, Inr ())"
          using run m pop DeleteOp e(1) by (simp add: viewer_redo_def Let_def)
        then show ?thesis using e(2) by blast
      qed
      then obtain b2 where w: "buffer w = Some b2" "plain_text R b2 = t" "mode w = EditMode" "undo_stack w = u'" "out = Inr ()"
        using m by auto
      then have "simulates R w (h\<lparr>before := present h # before h, present := t, after := ts\<rparr>)"
        using s t ed op_between_good [OF t(2)] by (simp add: simulates_def u'_def)
      then show ?thesis using hist_step.redone [OF ed t(1)] w(5) by blast
    qed
  qed
qed

lemma step_simulated:
  assumes "simulates R v h" "event_ok ev" "text_step R ev v = (w, out)"
  shows "\<exists>h'. hist_step ev h out h' \<and> simulates R w h'"
proof (cases ev)
  case (MoveTo p)
  then show ?thesis using assms hist_step.moved [of p h] by (auto simp: text_step_def move_cursor_def simulates_def)
next
  case (SwitchMode m)
  then show ?thesis using assms by (intro exI [of _ "h\<lparr>editing := (m = EditMode)\<rparr>"])
    (auto simp: text_step_def set_mode_def simulates_def intro: hist_step.switched)
qed (use assms insert_simulated delete_simulated replace_simulated undo_simulated redo_simulated in
    \<open>auto simp: text_step_def event_ok_def\<close>)

lemma run_simulated:
  "simulates R v h \<Longrightarrow> list_all event_ok evs \<Longrightarrow> text_run R evs v = (w, outs) \<Longrightarrow>
   \<exists>h'. hist_run evs h outs h' \<and> simulates R w h'"
proof (induction evs arbitrary: v h outs)
  case (Cons ev evs)
  obtain v1 out where v1: "text_step R ev v = (v1, out)" by fastforce
  obtain rest where rest: "text_run R evs v1 = (w, rest)" "outs = out # rest"
    using Cons.prems(3) v1 by (auto simp: Let_def split: prod.splits)
  obtain h1 where "hist_step ev h out h1" "simulates R v1 h1" using step_simulated [OF Cons.prems(1) _ v1] Cons.prems(2) by auto
  then show ?case using Cons.IH [of v1 h1 rest] Cons.prems(2) rest by auto
qed simp

end

text \<open>
  C7. The text editor refines the abstract one.  In every session on a text whose only line breaks are line feeds,
  the buffer is the present text of a history that the same events produce: an edit records the text before it
  or is merged with the previous one, undoing brings back exactly that text and redoing exactly the text that was
  undone, neither ever fails in edit mode, and the two flags tell whether there is a text to go to.
\<close>

theorem text_editor_refines_history:
  assumes "rope_contract R" "buffer v = Some b" "good_text (plain_text R b)" "done_ops (undo_stack v) = []" "undone_ops (undo_stack v) = []"
    and "list_all event_ok evs" "text_run R evs v = (w, outs)"
  shows "\<exists>h b'. hist_run evs \<lparr>before = [], present = plain_text R b, after = [], editing = (mode v = EditMode)\<rparr> outs h \<and>
    buffer w = Some b' \<and> plain_text R b' = present h \<and>
    (done_ops (undo_stack w) \<noteq> [] \<longleftrightarrow> before h \<noteq> []) \<and> (undone_ops (undo_stack w) \<noteq> [] \<longleftrightarrow> after h \<noteq> [])"
proof -
  have "simulates R v \<lparr>before = [], present = plain_text R b, after = [], editing = (mode v = EditMode)\<rparr>"
    using assms(2-5) by (simp add: simulates_def)
  then obtain h where "hist_run evs \<lparr>before = [], present = plain_text R b, after = [], editing = (mode v = EditMode)\<rparr> outs h"
    "simulates R w h" using rope_contract.run_simulated [OF assms(1) _ assms(6,7)] by blast
  moreover from this(2) have "done_ops (undo_stack w) = [] \<longleftrightarrow> before h = []" "undone_ops (undo_stack w) = [] \<longleftrightarrow> after h = []"
    using chain_empty unfolding simulates_def by fastforce+
  ultimately show ?thesis by (auto simp: simulates_def)
qed

definition opened :: "bytes \<Rightarrow> (ustring, unit) TextViewer" where
  "opened bs = set_mode EditMode (viewer_open text_rope latin1 bs viewer_new)"

theorem text_editor_refines_history_witness:
  defines "evs \<equiv> [TypeText [97] 0, TypeText [98, 10] 100, Erase (0, 1) (1, 0) 200, ReplaceText [120, 104, 105] 900, UndoEdit, RedoEdit]"
  shows "\<exists>h b'. hist_run evs \<lparr>before = [], present = [104, 105], after = [], editing = True\<rparr> (snd (text_run text_rope evs (opened [104, 105]))) h \<and>
    buffer (fst (text_run text_rope evs (opened [104, 105]))) = Some b' \<and> plain_text text_rope b' = present h \<and>
    (done_ops (undo_stack (fst (text_run text_rope evs (opened [104, 105])))) \<noteq> [] \<longleftrightarrow> before h \<noteq> []) \<and>
    (undone_ops (undo_stack (fst (text_run text_rope evs (opened [104, 105])))) \<noteq> [] \<longleftrightarrow> after h \<noteq> [])"
proof -
  let ?v = "opened [104, 105]"
  let ?b = "from_bytes text_rope latin1 [104, 105]"
  have v: "buffer ?v = Some ?b" "plain_text text_rope ?b = [104, 105]" "mode ?v = EditMode"
    "done_ops (undo_stack ?v) = []" "undone_ops (undo_stack ?v) = []" by code_simp+
  have g: "good_text (plain_text text_rope ?b)" unfolding v(2) by (simp add: good_text_def lf_text_def is_line_break_def scalar_def)
  have e: "list_all event_ok evs" by (simp add: evs_def event_ok_def good_text_def lf_text_def is_line_break_def scalar_def)
  show ?thesis
    using text_editor_refines_history [OF text_rope.rope_contract_axioms v(1) g v(4,5) e, of "fst (text_run text_rope evs ?v)" "snd (text_run text_rope evs ?v)"] v(2,3)
    by simp
qed

section \<open>The edits the parser sees\<close>

fun edits_from :: "ustring \<Rightarrow> (InputEdit \<times> ustring) list \<Rightarrow> ustring \<Rightarrow> bool" where
  "edits_from s [] t \<longleftrightarrow> s = t"
| "edits_from s ((e, u) # es) t \<longleftrightarrow> edit_ok e s u \<and> edits_from u es t"

definition tracked :: "'r rope_ops \<Rightarrow> ('r, 'e) TextViewer \<Rightarrow> bool" where
  "tracked R v \<longleftrightarrow>
    (\<exists>b base. buffer v = Some b \<and> edits_from base (synced v) (plain_text R b) \<and>
      (\<forall>gen s. plain_cache v = Some (gen, s) \<longrightarrow> gen \<le> content_generation v \<and> (gen = content_generation v \<longrightarrow> s = plain_text R b)))"

lemma edits_from_snoc: "edits_from s es t \<Longrightarrow> edit_ok e t u \<Longrightarrow> edits_from s (es @ [(e, u)]) u"
  by (induction s es t rule: edits_from.induct) auto

lemma tracked_cong:
  "tracked R v \<Longrightarrow> buffer w = buffer v \<Longrightarrow> synced w = synced v \<Longrightarrow> plain_cache w = plain_cache v \<Longrightarrow>
   content_generation w = content_generation v \<Longrightarrow> tracked R w"
  by (simp add: tracked_def)

lemma tracked_sync:
  assumes "tracked R v" "buffer v = Some b" "edit_ok e (plain_text R b) (plain_text R b')"
  shows "tracked R (sync_parse_cache_after_edit e (plain_text R b') (v\<lparr>buffer := Some b'\<rparr>))"
  using assms edits_from_snoc unfolding tracked_def by fastforce

context rope_contract
begin

lemma edit_insert_tracked: "tracked R v \<Longrightarrow> edit_insert R pos s v = Inr w \<Longrightarrow> tracked R w"
  by (erule edit_insert_done) (use tracked_sync in blast)

lemma edit_delete_tracked: "tracked R v \<Longrightarrow> edit_delete R start stop v = Inr w \<Longrightarrow> tracked R w"
  by (erule edit_delete_done) (use tracked_sync in blast)

lemma tracked_insert: "tracked R v \<Longrightarrow> edit_insert R pos s v = Inr w \<Longrightarrow> tracked R (w\<lparr>cursor := c, undo_stack := u\<rparr>)"
  by (rule tracked_cong [OF edit_insert_tracked]) simp_all

lemma tracked_delete: "tracked R v \<Longrightarrow> edit_delete R start stop v = Inr w \<Longrightarrow> tracked R (w\<lparr>cursor := c, undo_stack := u\<rparr>)"
  by (rule tracked_cong [OF edit_delete_tracked]) simp_all

lemma tracked_cursor: "tracked R w \<Longrightarrow> tracked R (w\<lparr>cursor := c\<rparr>)"
  by (rule tracked_cong) simp_all

lemma tracked_undo_stack: "tracked R w \<Longrightarrow> tracked R (w\<lparr>undo_stack := u\<rparr>)"
  by (rule tracked_cong) simp_all

lemma tracked_invalidate: "tracked R ((invalidate_parse_cache (v\<lparr>buffer := Some b\<rparr>))\<lparr>undo_stack := u, cursor := c\<rparr>)"
  by (simp add: tracked_def)

lemma replace_tracked:
  assumes "tracked R v" "replace_content R now s v = (w, Inr ())"
  shows "tracked R w"
  using assms
  by (auto simp: replace_content_def replace_middle_def Let_def split: if_splits option.splits sum.splits
      intro: tracked_insert tracked_delete tracked_invalidate)

lemma undo_tracked: "tracked R v \<Longrightarrow> viewer_undo R v = (w, out) \<Longrightarrow> tracked R w"
  by (auto simp: viewer_undo_def Let_def split: if_splits option.splits sum.splits prod.splits TextOpKind.splits
      intro: edit_insert_tracked [OF tracked_undo_stack] edit_delete_tracked [OF tracked_undo_stack] tracked_cursor tracked_undo_stack)

lemma redo_tracked: "tracked R v \<Longrightarrow> viewer_redo R v = (w, out) \<Longrightarrow> tracked R w"
  by (auto simp: viewer_redo_def Let_def split: if_splits option.splits sum.splits prod.splits TextOpKind.splits
      intro: edit_insert_tracked [OF tracked_undo_stack] edit_delete_tracked [OF tracked_undo_stack] tracked_cursor tracked_undo_stack)

lemma step_tracked:
  assumes t: "tracked R v" and sim: "simulates R v h" and ev: "event_ok ev" and run: "text_step R ev v = (w, out)"
  shows "tracked R w"
proof (cases ev)
  case (TypeText s now)
  then show ?thesis using t run
    by (auto simp: text_step_def viewer_insert_def split: if_splits sum.splits intro: tracked_insert)
next
  case (Erase start stop now)
  then show ?thesis using t run
    by (auto simp: text_step_def viewer_delete_def split: if_splits sum.splits intro: tracked_delete)
next
  case (ReplaceText s now)
  show ?thesis
  proof (cases "mode v = EditMode")
    case True
    then have "out = Inr ()"
      using replace_content_text [of v _ s now] sim ev run ReplaceText by (fastforce simp: text_step_def event_ok_def simulates_def)
    then show ?thesis using replace_tracked [OF t] run ReplaceText by (simp add: text_step_def)
  qed (use t run ReplaceText in \<open>simp add: text_step_def replace_content_def\<close>)
next
  case UndoEdit
  then show ?thesis using t run undo_tracked by (simp add: text_step_def)
next
  case RedoEdit
  then show ?thesis using t run redo_tracked by (simp add: text_step_def)
next
  case (MoveTo p)
  then show ?thesis using t run tracked_cursor [OF t, of p] by (simp add: text_step_def move_cursor_def)
next
  case (SwitchMode m)
  then show ?thesis using run tracked_cong [OF t, of w] by (auto simp: text_step_def set_mode_def)
qed

lemma run_tracked:
  "tracked R v \<Longrightarrow> simulates R v h \<Longrightarrow> list_all event_ok evs \<Longrightarrow> text_run R evs v = (w, outs) \<Longrightarrow> tracked R w"
proof (induction evs arbitrary: v h outs)
  case (Cons ev evs)
  obtain v1 out where v1: "text_step R ev v = (v1, out)" by fastforce
  obtain rest where rest: "text_run R evs v1 = (w, rest)" using Cons.prems(4) v1 by (auto simp: Let_def split: prod.splits)
  obtain h1 where "simulates R v1 h1" using step_simulated [OF Cons.prems(2) _ v1] Cons.prems(3) by auto
  moreover have "tracked R v1" using step_tracked [OF Cons.prems(1,2) _ v1] Cons.prems(3) by simp
  ultimately show ?case using Cons.IH [of v1 h1 rest] Cons.prems(3) rest by simp
qed simp

end

text \<open>
  After every session on an opened text the incremental parser has seen the truth: the edits reported since its
  tree was last dropped lead, byte span by byte span, from the source it then had to the text of the buffer, and a
  cached text of the current generation is the text of the buffer.
\<close>

theorem parser_sees_the_text:
  assumes "rope_contract R" "v = set_mode m (viewer_open R E bs v0)" "buffer v = Some b" "good_text (plain_text R b)"
    and "list_all event_ok evs" "text_run R evs v = (w, outs)"
  shows "\<exists>b' base. buffer w = Some b' \<and> edits_from base (synced w) (plain_text R b') \<and> snd (cached_plain_text R b' w) = plain_text R b'"
proof -
  have "simulates R v \<lparr>before = [], present = plain_text R b, after = [], editing = (mode v = EditMode)\<rparr>" "tracked R v"
    using assms(2-4) by (simp_all add: simulates_def tracked_def viewer_open_def set_mode_def undo_clear_def)
  then have "tracked R w" using rope_contract.run_tracked [OF assms(1) _ _ assms(5,6)] by blast
  then show ?thesis by (auto simp: tracked_def cached_plain_text_def split: option.splits)
qed

theorem parser_sees_the_text_witness:
  defines "evs \<equiv> [TypeText [97] 0, TypeText [98, 10] 100, UndoEdit, ReplaceText [120, 104] 900]"
  shows "\<exists>b' base. buffer (fst (text_run text_rope evs (opened [104, 105]))) = Some b' \<and>
    edits_from base (synced (fst (text_run text_rope evs (opened [104, 105])))) (plain_text text_rope b') \<and>
    snd (cached_plain_text text_rope b' (fst (text_run text_rope evs (opened [104, 105])))) = plain_text text_rope b'"
proof -
  let ?v = "opened [104, 105]"
  let ?b = "from_bytes text_rope latin1 [104, 105]"
  have v: "buffer ?v = Some ?b" "plain_text text_rope ?b = [104, 105]" by code_simp+
  have g: "good_text (plain_text text_rope ?b)" unfolding v(2) by (simp add: good_text_def lf_text_def is_line_break_def scalar_def)
  have e: "list_all event_ok evs" by (simp add: evs_def event_ok_def good_text_def lf_text_def is_line_break_def scalar_def)
  show ?thesis
    using parser_sees_the_text [OF text_rope.rope_contract_axioms opened_def v(1) g e,
      of "fst (text_run text_rope evs ?v)" "snd (text_run text_rope evs ?v)"] by simp
qed

section \<open>Other line breaks\<close>

text \<open>
  The lines of the rope end at every Unicode line break, and the positions that the editor computes count line feeds
  only.  After a text with a form feed was typed, the end recorded for it does not exist and it cannot be undone.
\<close>

lemma form_feed_not_undone:
  "snd (text_run text_rope [TypeText [88, 12, 89] 0, UndoEdit] (opened [])) = [Inr (), Inl EditOutOfBounds]"
  by code_simp

text \<open>
  When the part between a lone carriage return and a line feed is replaced, the deletion joins the two to one line
  break, the position computed before it names another place, and the new part goes there.
\<close>

lemma replace_after_carriage_return:
  "map_option (plain_text text_rope) (buffer (fst (replace_content text_rope 0 [97, 13, 89, 10, 98] (opened [97, 13, 88, 10, 98])))) =
    Some [97, 13, 10, 89, 98]"
  by code_simp
end
