(* ===== verification/State_Store.thy ===== *)
theory State_Store
  imports Ordered_Map Unicode_Text
begin

text \<open>
  The history of the state database (\<open>src/crates/orchid-storage/src/state/database.rs\<close>, \<open>tables.rs\<close>): the table of
  entries with its index by millisecond.  The tables belong to the third-party database \<open>redb\<close>: they are the
  parameters \<open>H\<close> and \<open>X\<close> with the laws of an ordered key-value table (\<open>redb_table\<close>), of which the sorted list is an
  instance.  A table that does not exist is an empty one.  A transaction runs on the whole state and either commits
  or leaves it as it was, so that an error of the database is an error of the transaction; its operations are
  functions on the state.  A \<open>DateTime\<close> is its number of nanoseconds.
\<close>

section \<open>Tables\<close>

record ('t, 'k, 'v) table_ops =
  t_empty :: 't
  t_get :: "'t \<Rightarrow> 'k \<Rightarrow> 'v option"
  t_insert :: "'k \<Rightarrow> 'v \<Rightarrow> 't \<Rightarrow> 't"
  t_remove :: "'k \<Rightarrow> 't \<Rightarrow> 't"
  t_iter :: "'t \<Rightarrow> ('k \<times> 'v) list"

locale redb_table =
  fixes T :: "('t, 'k::linorder, 'v) table_ops"
  assumes get_empty [simp]: "t_get T (t_empty T) k = None"
    and get_insert [simp]: "t_get T (t_insert T k v t) k' = (if k' = k then Some v else t_get T t k')"
    and get_remove [simp]: "t_get T (t_remove T k t) k' = (if k' = k then None else t_get T t k')"
    and iter_sorted: "sorted_wrt (<) (map fst (t_iter T t))"
    and iter_get: "(k, v) \<in> set (t_iter T t) \<longleftrightarrow> t_get T t k = Some v"
begin

lemma iter_distinct: "distinct (map fst (t_iter T t))"
  using iter_sorted by (simp add: strict_sorted_iff)

end

text \<open>The list in key order is such a table.\<close>

definition om_remove :: "'k \<Rightarrow> ('k \<times> 'v) list \<Rightarrow> ('k \<times> 'v) list" where
  "om_remove k m = filter (\<lambda>e. fst e \<noteq> k) m"

typedef (overloaded) ('k::linorder, 'v) omap = "{m :: ('k \<times> 'v) list. om_inv m}"
  by (rule exI [of _ "[]"]) (simp add: om_inv_def)

setup_lifting type_definition_omap

lift_definition omap_empty :: "('k::linorder, 'v) omap" is "[]" by (simp add: om_inv_def)
lift_definition omap_get :: "('k::linorder, 'v) omap \<Rightarrow> 'k \<Rightarrow> 'v option" is om_get .
lift_definition omap_insert :: "'k::linorder \<Rightarrow> 'v \<Rightarrow> ('k, 'v) omap \<Rightarrow> ('k, 'v) omap" is om_insert by (rule om_inv_insert)
lift_definition omap_remove :: "'k::linorder \<Rightarrow> ('k, 'v) omap \<Rightarrow> ('k, 'v) omap" is om_remove
  by (auto simp: om_inv_def om_remove_def sorted_wrt_map sorted_wrt_filter)
lift_definition omap_iter :: "('k::linorder, 'v) omap \<Rightarrow> ('k \<times> 'v) list" is "\<lambda>m. m" .

definition list_table :: "(('k::linorder, 'v) omap, 'k, 'v) table_ops" where
  "list_table = \<lparr>t_empty = omap_empty, t_get = omap_get, t_insert = omap_insert, t_remove = omap_remove, t_iter = omap_iter\<rparr>"

lemma om_get_remove: "om_get (om_remove k m) k' = (if k' = k then None else om_get m k')"
  by (induction m) (auto simp: om_remove_def om_get_def)

interpretation list_table: redb_table list_table
proof unfold_locales
  fix t :: "('a::linorder, 'b) omap" and k k' :: 'a and v :: 'b
  show "t_get list_table (t_empty list_table) k = (None :: 'b option)" by (simp add: list_table_def) (transfer, simp)
  show "t_get list_table (t_insert list_table k v t) k' = (if k' = k then Some v else t_get list_table t k')"
    by (simp add: list_table_def) (transfer, simp)
  show "t_get list_table (t_remove list_table k t) k' = (if k' = k then None else t_get list_table t k')"
    by (simp add: list_table_def) (transfer, simp add: om_get_remove)
  show "sorted_wrt (<) (map fst (t_iter list_table t))" by (simp add: list_table_def) (transfer, simp add: om_inv_def)
  show "(k, v) \<in> set (t_iter list_table t) \<longleftrightarrow> t_get list_table t k = Some v"
    by (simp add: list_table_def) (transfer, simp add: om_get_Some_iff)
qed

section \<open>The history\<close>

type_synonym uuid = "128 word"

record HistoryEntry =
  entry_id :: uuid
  timestamp_ns :: int
  action_id :: ustring
  command_text :: ustring
  target :: "ustring option"
  reversible_until :: "int option"
  reverse_command :: "ustring option"
  metadata :: bytes

definition timestamp_millis :: "int \<Rightarrow> int" where
  "timestamp_millis t = t div 1000000"

definition entry_ms :: "HistoryEntry \<Rightarrow> int" where
  "entry_ms e = timestamp_millis (timestamp_ns e)"

record ('h, 'x) HistoryDb =
  history_table :: 'h
  history_by_timestamp :: 'x

definition get_history :: "('h, uuid, HistoryEntry) table_ops \<Rightarrow> uuid \<Rightarrow> ('h, 'x) HistoryDb \<Rightarrow> HistoryEntry option" where
  "get_history H i db = t_get H (history_table db) i"

definition put_history ::
  "('h, uuid, HistoryEntry) table_ops \<Rightarrow> ('x, int, uuid) table_ops \<Rightarrow> HistoryEntry \<Rightarrow> ('h, 'x) HistoryDb \<Rightarrow> ('h, 'x) HistoryDb"
where
  "put_history H X e db =
    (let ts_ms = entry_ms e;
         prior_ts = map_option entry_ms (t_get H (history_table db) (entry_id e));
         index = (case prior_ts of
                    Some prev \<Rightarrow> if prev \<noteq> ts_ms then t_remove X prev (history_by_timestamp db) else history_by_timestamp db
                  | None \<Rightarrow> history_by_timestamp db)
     in \<lparr>history_table = t_insert H (entry_id e) e (history_table db), history_by_timestamp = t_insert X ts_ms (entry_id e) index\<rparr>)"

definition delete_history ::
  "('h, uuid, HistoryEntry) table_ops \<Rightarrow> ('x, int, uuid) table_ops \<Rightarrow> uuid \<Rightarrow> ('h, 'x) HistoryDb \<Rightarrow> ('h, 'x) HistoryDb \<times> bool"
where
  "delete_history H X i db =
    (case t_get H (history_table db) i of
       None \<Rightarrow> (db, False)
     | Some e \<Rightarrow>
         (\<lparr>history_table = t_remove H i (history_table db), history_by_timestamp = t_remove X (entry_ms e) (history_by_timestamp db)\<rparr>, True))"

text \<open>The loop over the index, newest first; the limit is compared after an entry was added.\<close>

fun recent_loop :: "(uuid \<Rightarrow> HistoryEntry option) \<Rightarrow> nat \<Rightarrow> (int \<times> uuid) list \<Rightarrow> HistoryEntry list \<Rightarrow> HistoryEntry list" where
  "recent_loop get limit [] out = out"
| "recent_loop get limit ((ts, k) # rest) out =
    (case get k of
       Some e \<Rightarrow> if limit \<le> length (out @ [e]) then out @ [e] else recent_loop get limit rest (out @ [e])
     | None \<Rightarrow> recent_loop get limit rest out)"

definition iter_history_recent ::
  "('h, uuid, HistoryEntry) table_ops \<Rightarrow> ('x, int, uuid) table_ops \<Rightarrow> nat \<Rightarrow> ('h, 'x) HistoryDb \<Rightarrow> HistoryEntry list"
where
  "iter_history_recent H X limit db = recent_loop (t_get H (history_table db)) limit (rev (t_iter X (history_by_timestamp db))) []"

definition iter_history_range ::
  "('h, uuid, HistoryEntry) table_ops \<Rightarrow> ('x, int, uuid) table_ops \<Rightarrow> int \<Rightarrow> int \<Rightarrow> ('h, 'x) HistoryDb \<Rightarrow> HistoryEntry list"
where
  "iter_history_range H X from_ns to_ns db =
    List.map_filter (\<lambda>(ts, k). t_get H (history_table db) k)
      (filter (\<lambda>(ts, k). timestamp_millis from_ns \<le> ts \<and> ts < timestamp_millis to_ns) (t_iter X (history_by_timestamp db)))"

fun evict_loop ::
  "('h, uuid, HistoryEntry) table_ops \<Rightarrow> ('x, int, uuid) table_ops \<Rightarrow> (int \<times> uuid) list \<Rightarrow> ('h, 'x) HistoryDb \<Rightarrow> nat \<Rightarrow>
   ('h, 'x) HistoryDb \<times> nat"
where
  "evict_loop H X [] db removed = (db, removed)"
| "evict_loop H X ((ts, k) # rest) db removed =
    (case t_get H (history_table db) k of
       Some _ \<Rightarrow>
         evict_loop H X rest
           \<lparr>history_table = t_remove H k (history_table db), history_by_timestamp = t_remove X ts (history_by_timestamp db)\<rparr>
           (removed + 1)
     | None \<Rightarrow> evict_loop H X rest (db\<lparr>history_table := t_remove H k (history_table db)\<rparr>) removed)"

definition evict_history_older_than ::
  "('h, uuid, HistoryEntry) table_ops \<Rightarrow> ('x, int, uuid) table_ops \<Rightarrow> int \<Rightarrow> ('h, 'x) HistoryDb \<Rightarrow> ('h, 'x) HistoryDb \<times> nat"
where
  "evict_history_older_than H X older_than db =
    (let cutoff_ms = timestamp_millis older_than;
         to_evict = filter (\<lambda>(ts, k). ts < cutoff_ms) (t_iter X (history_by_timestamp db))
     in evict_loop H X to_evict db 0)"


section \<open>The index agrees with the table\<close>

definition hist_sound ::
  "('h, uuid, HistoryEntry) table_ops \<Rightarrow> ('x, int, uuid) table_ops \<Rightarrow> ('h, 'x) HistoryDb \<Rightarrow> bool"
where
  "hist_sound H X db \<longleftrightarrow>
    (\<forall>k e. t_get H (history_table db) k = Some e \<longrightarrow> entry_id e = k) \<and>
    (\<forall>ts k. t_get X (history_by_timestamp db) ts = Some k \<longrightarrow> (\<exists>e. t_get H (history_table db) k = Some e \<and> entry_ms e = ts))"

definition hist_complete ::
  "('h, uuid, HistoryEntry) table_ops \<Rightarrow> ('x, int, uuid) table_ops \<Rightarrow> ('h, 'x) HistoryDb \<Rightarrow> bool"
where
  "hist_complete H X db \<longleftrightarrow>
    (\<forall>k e. t_get H (history_table db) k = Some e \<longrightarrow> t_get X (history_by_timestamp db) (entry_ms e) = Some k)"

definition fresh_ms :: "('h, uuid, HistoryEntry) table_ops \<Rightarrow> HistoryEntry \<Rightarrow> ('h, 'x) HistoryDb \<Rightarrow> bool" where
  "fresh_ms H e db \<longleftrightarrow> (\<forall>k d. t_get H (history_table db) k = Some d \<and> entry_ms d = entry_ms e \<longrightarrow> k = entry_id e)"

lemma map_filter_append: "List.map_filter f (xs @ ys) = List.map_filter f xs @ List.map_filter f ys"
  by (induction xs) (auto split: option.splits)

lemma map_filter_rev: "List.map_filter f (rev xs) = rev (List.map_filter f xs)"
  by (induction xs) (auto simp: map_filter_append split: option.splits)

lemma set_map_filter: "y \<in> set (List.map_filter f xs) \<longleftrightarrow> (\<exists>x \<in> set xs. f x = Some y)"
  by (induction xs) (auto split: option.splits)

definition stored_entries :: "('h, uuid, HistoryEntry) table_ops \<Rightarrow> ('h, 'x) HistoryDb \<Rightarrow> HistoryEntry set" where
  "stored_entries H db = {e. \<exists>k. t_get H (history_table db) k = Some e}"

definition history_list ::
  "('h, uuid, HistoryEntry) table_ops \<Rightarrow> ('x, int, uuid) table_ops \<Rightarrow> ('h, 'x) HistoryDb \<Rightarrow> HistoryEntry list"
where
  "history_list H X db = List.map_filter (\<lambda>(ts, k). t_get H (history_table db) k) (t_iter X (history_by_timestamp db))"

lemma recent_loop_take:
  "length out < max 1 limit \<Longrightarrow>
   recent_loop get limit rows out = take (max 1 limit) (out @ List.map_filter (\<lambda>(ts, k). get k) rows)"
proof (induction get limit rows out rule: recent_loop.induct)
  case (2 get limit ts k rest out)
  show ?case
  proof (cases "get k")
    case None
    then show ?thesis using 2 by simp
  next
    case (Some e)
    show ?thesis
    proof (cases "limit \<le> length (out @ [e])")
      case True
      then have "max 1 limit = Suc (length out)" using "2.prems" by simp
      then show ?thesis using Some True by simp
    next
      case False
      then show ?thesis using "2.IH"(2) [OF Some] Some by simp
    qed
  qed
qed simp

lemma recent_eq: "iter_history_recent H X limit db = take (max 1 limit) (rev (history_list H X db))"
  unfolding iter_history_recent_def history_list_def by (subst recent_loop_take) (simp_all add: map_filter_rev)

lemma hist_soundD1: "hist_sound H X db \<Longrightarrow> t_get H (history_table db) k = Some e \<Longrightarrow> entry_id e = k"
  by (simp add: hist_sound_def)

lemma hist_soundD2:
  "hist_sound H X db \<Longrightarrow> t_get X (history_by_timestamp db) ts = Some k \<Longrightarrow>
   \<exists>e. t_get H (history_table db) k = Some e \<and> entry_ms e = ts"
  by (simp add: hist_sound_def)

lemma hist_completeD:
  "hist_complete H X db \<Longrightarrow> t_get H (history_table db) k = Some e \<Longrightarrow>
   t_get X (history_by_timestamp db) (entry_ms e) = Some k"
  by (simp add: hist_complete_def)

locale history_db = H: redb_table H + X: redb_table X
  for H :: "('h, uuid, HistoryEntry) table_ops" and X :: "('x, int, uuid) table_ops"
begin

lemma get_put: "t_get H (history_table (put_history H X e db)) k = (if k = entry_id e then Some e else t_get H (history_table db) k)"
  by (simp add: put_history_def Let_def)

lemma index_put:
  "t_get X (history_by_timestamp (put_history H X e db)) ts =
    (if ts = entry_ms e then Some (entry_id e)
     else if map_option entry_ms (t_get H (history_table db) (entry_id e)) = Some ts then None
     else t_get X (history_by_timestamp db) ts)"
  by (auto simp: put_history_def Let_def split: option.splits)

lemma get_delete:
  "t_get H (history_table (fst (delete_history H X i db))) k = (if k = i then None else t_get H (history_table db) k)"
  by (simp add: delete_history_def split: option.splits)

lemma index_delete:
  "t_get X (history_by_timestamp (fst (delete_history H X i db))) ts =
    (if map_option entry_ms (t_get H (history_table db) i) = Some ts then None else t_get X (history_by_timestamp db) ts)"
  by (auto simp: delete_history_def split: option.splits)

lemma put_sound:
  assumes s: "hist_sound H X db"
  shows "hist_sound H X (put_history H X e db)"
  unfolding hist_sound_def get_put index_put
  using hist_soundD1 [OF s] hist_soundD2 [OF s] by (fastforce split: if_splits)

lemma put_complete:
  assumes s: "hist_sound H X db" and c: "hist_complete H X db" and f: "fresh_ms H e db"
  shows "hist_complete H X (put_history H X e db)"
  unfolding hist_complete_def get_put index_put
proof (intro allI impI)
  fix k d
  assume d: "(if k = entry_id e then Some e else t_get H (history_table db) k) = Some d"
  show "(if entry_ms d = entry_ms e then Some (entry_id e)
         else if map_option entry_ms (t_get H (history_table db) (entry_id e)) = Some (entry_ms d) then None
         else t_get X (history_by_timestamp db) (entry_ms d)) = Some k"
  proof (cases "k = entry_id e")
    case True
    then show ?thesis using d by simp
  next
    case False
    then have k: "t_get H (history_table db) k = Some d" using d by simp
    then have "entry_ms d \<noteq> entry_ms e" using f False by (auto simp: fresh_ms_def)
    moreover have row: "t_get X (history_by_timestamp db) (entry_ms d) = Some k" using hist_completeD [OF c k] .
    moreover have "t_get H (history_table db) (entry_id e) \<noteq> Some x \<or> entry_ms x \<noteq> entry_ms d" for x
      using hist_completeD [OF c, of "entry_id e" x] row False by auto
    ultimately show ?thesis by auto
  qed
qed

lemma delete_sound:
  assumes s: "hist_sound H X db"
  shows "hist_sound H X (fst (delete_history H X i db))"
  unfolding hist_sound_def get_delete index_delete
  using hist_soundD1 [OF s] hist_soundD2 [OF s] by (fastforce split: if_splits)

lemma delete_complete:
  assumes c: "hist_complete H X db"
  shows "hist_complete H X (fst (delete_history H X i db))"
  unfolding hist_complete_def get_delete index_delete
proof (intro allI impI)
  fix k e
  assume "(if k = i then None else t_get H (history_table db) k) = Some e"
  then have k: "k \<noteq> i" "t_get H (history_table db) k = Some e" by (auto split: if_splits)
  have row: "t_get X (history_by_timestamp db) (entry_ms e) = Some k" using hist_completeD [OF c k(2)] .
  have "entry_ms x \<noteq> entry_ms e" if "t_get H (history_table db) i = Some x" for x
    using hist_completeD [OF c that] row k(1) by auto
  then show "(if map_option entry_ms (t_get H (history_table db) i) = Some (entry_ms e) then None
              else t_get X (history_by_timestamp db) (entry_ms e)) = Some k"
    using row by auto
qed

text \<open>The entries in the order of the index.\<close>

lemma row_entry:
  "hist_sound H X db \<Longrightarrow> (ts, k) \<in> set (t_iter X (history_by_timestamp db)) \<Longrightarrow>
   \<exists>e. t_get H (history_table db) k = Some e \<and> entry_ms e = ts \<and> entry_id e = k"
  unfolding X.iter_get by (metis hist_soundD1 hist_soundD2)

lemma hist_list_sorted_rows:
  assumes "sorted_wrt (<) (map fst rows)"
    and "\<And>ts k. (ts, k) \<in> set rows \<Longrightarrow> \<exists>e. get k = Some e \<and> entry_ms e = ts"
  shows "sorted_wrt (\<lambda>a b. entry_ms a < entry_ms b) (List.map_filter (\<lambda>(ts, k). get k) rows)"
  using assms
proof (induction rows)
  case Nil
  then show ?case by simp
next
  case (Cons r rows)
  obtain ts k where r: "r = (ts, k)" by (cases r)
  obtain e where e: "get k = Some e" "entry_ms e = ts" using Cons.prems(2) [of ts k] r by auto
  have "entry_ms e < entry_ms d" if "d \<in> set (List.map_filter (\<lambda>(ts, k). get k) rows)" for d
  proof -
    obtain ts' k' where d: "(ts', k') \<in> set rows" "get k' = Some d"
      using \<open>d \<in> set (List.map_filter (\<lambda>(ts, k). get k) rows)\<close> by (auto simp: set_map_filter)
    moreover have "ts < ts'" using Cons.prems(1) d(1) r by force
    moreover have "entry_ms d = ts'" using Cons.prems(2) [of ts' k'] d by auto
    ultimately show ?thesis using e(2) by simp
  qed
  moreover have "sorted_wrt (\<lambda>a b. entry_ms a < entry_ms b) (List.map_filter (\<lambda>(ts, k). get k) rows)"
    using Cons.prems by (intro Cons.IH) auto
  ultimately show ?case using r e by simp
qed

lemma hist_list_sorted: "hist_sound H X db \<Longrightarrow> sorted_wrt (\<lambda>a b. entry_ms a < entry_ms b) (history_list H X db)"
  unfolding history_list_def by (rule hist_list_sorted_rows [OF X.iter_sorted]) (metis row_entry)

lemma set_hist_list:
  assumes "hist_complete H X db"
  shows "set (history_list H X db) \<subseteq> stored_entries H db" and "stored_entries H db \<subseteq> set (history_list H X db)"
  using hist_completeD [OF assms]
  by (auto simp: history_list_def stored_entries_def set_map_filter X.iter_get) (metis X.iter_get case_prod_conv)

text \<open>Eviction.\<close>

lemma evict_loop_state:
  assumes "distinct (map fst rows)"
    and "\<And>ts k. (ts, k) \<in> set rows \<Longrightarrow> \<exists>e. t_get H (history_table db) k = Some e \<and> entry_ms e = ts"
    and "evict_loop H X rows db n = (db', n')"
  shows "n' = n + length rows"
    and "t_get H (history_table db') k = (if k \<in> snd ` set rows then None else t_get H (history_table db) k)"
    and "t_get X (history_by_timestamp db') ts = (if ts \<in> fst ` set rows then None else t_get X (history_by_timestamp db) ts)"
proof -
  have "n' = n + length rows \<and>
      t_get H (history_table db') k = (if k \<in> snd ` set rows then None else t_get H (history_table db) k) \<and>
      t_get X (history_by_timestamp db') ts = (if ts \<in> fst ` set rows then None else t_get X (history_by_timestamp db) ts)"
    using assms
  proof (induction rows arbitrary: db n)
    case Nil
    then show ?case by simp
  next
    case (Cons r rows)
    obtain tr kr where r: "r = (tr, kr)" by (cases r)
    obtain e where e: "t_get H (history_table db) kr = Some e" "entry_ms e = tr"
      using Cons.prems(2) [of tr kr] r by auto
    let ?db = "\<lparr>history_table = t_remove H kr (history_table db), history_by_timestamp = t_remove X tr (history_by_timestamp db)\<rparr>"
    have row: "\<exists>e. t_get H (history_table ?db) k' = Some e \<and> entry_ms e = t'" if m: "(t', k') \<in> set rows" for t' k'
    proof -
      obtain d where d: "t_get H (history_table db) k' = Some d" "entry_ms d = t'" using Cons.prems(2) [of t' k'] m by auto
      have "t' \<noteq> tr" using Cons.prems(1) m r by force
      then have "k' \<noteq> kr" using d e by auto
      then show ?thesis using d by simp
    qed
    have step: "evict_loop H X rows ?db (n + 1) = (db', n')" using Cons.prems(3) r e by simp
    show ?case using Cons.IH [OF _ row step] Cons.prems(1) r by auto
  qed
  then show "n' = n + length rows"
    and "t_get H (history_table db') k = (if k \<in> snd ` set rows then None else t_get H (history_table db) k)"
    and "t_get X (history_by_timestamp db') ts = (if ts \<in> fst ` set rows then None else t_get X (history_by_timestamp db) ts)"
    by blast+
qed

lemma evict_state:
  assumes s: "hist_sound H X db" and e: "evict_history_older_than H X older_than db = (db', n)"
  defines "C \<equiv> timestamp_millis older_than"
  shows "t_get X (history_by_timestamp db') ts = (if ts < C then None else t_get X (history_by_timestamp db) ts)"
    and "t_get H (history_table db') k =
          (if \<exists>ts < C. t_get X (history_by_timestamp db) ts = Some k then None else t_get H (history_table db) k)"
    and "n = card {k. \<exists>ts < C. t_get X (history_by_timestamp db) ts = Some k}"
proof -
  let ?rows = "filter (\<lambda>(ts, k). ts < C) (t_iter X (history_by_timestamp db))"
  have loop: "evict_loop H X ?rows db 0 = (db', n)"
    using e by (simp add: evict_history_older_than_def C_def)
  have d: "distinct (map fst ?rows)" by (rule distinct_map_filter [OF X.iter_distinct])
  have row: "\<exists>e. t_get H (history_table db) k = Some e \<and> entry_ms e = ts" if "(ts, k) \<in> set ?rows" for ts k
    using row_entry [OF s, of ts k] that by auto
  have mem: "(ts, k) \<in> set ?rows \<longleftrightarrow> ts < C \<and> t_get X (history_by_timestamp db) ts = Some k" for ts k
    by (auto simp: X.iter_get)
  have snds: "snd ` set ?rows = {k. \<exists>ts < C. t_get X (history_by_timestamp db) ts = Some k}"
  proof -
    have "k \<in> snd ` set ?rows \<longleftrightarrow> (\<exists>ts. (ts, k) \<in> set ?rows)" for k by (simp add: image_iff)
    then show ?thesis unfolding mem by auto
  qed
  have fsts: "ts \<in> fst ` set ?rows \<longleftrightarrow> ts < C \<and> t_get X (history_by_timestamp db) ts \<noteq> None"
  proof -
    have "ts \<in> fst ` set ?rows \<longleftrightarrow> (\<exists>k. (ts, k) \<in> set ?rows)" by (simp add: image_iff)
    then show ?thesis unfolding mem by auto
  qed
  have inj: "inj_on snd (set ?rows)"
  proof (rule inj_onI)
    fix a b assume "a \<in> set ?rows" "b \<in> set ?rows" "snd a = snd b"
    then show "a = b" using row [of "fst a" "snd a"] row [of "fst b" "snd b"] by (cases a; cases b) auto
  qed
  note L = evict_loop_state [OF d row loop]
  show "t_get X (history_by_timestamp db') ts = (if ts < C then None else t_get X (history_by_timestamp db) ts)"
    using L(3) [of ts] fsts by auto
  show "t_get H (history_table db') k =
          (if \<exists>ts < C. t_get X (history_by_timestamp db) ts = Some k then None else t_get H (history_table db) k)"
    using L(2) [of k] unfolding snds by auto
  have "n = length ?rows" using L(1) by simp
  also have "\<dots> = card (snd ` set ?rows)"
    using card_image [OF inj] distinct_card [of ?rows] d by (simp add: distinct_map)
  finally show "n = card {k. \<exists>ts < C. t_get X (history_by_timestamp db) ts = Some k}" unfolding snds .
qed

lemma evict_sound:
  assumes s: "hist_sound H X db"
  shows "hist_sound H X (fst (evict_history_older_than H X older_than db))"
proof -
  obtain db' n where e: "evict_history_older_than H X older_than db = (db', n)" by force
  show ?thesis unfolding hist_sound_def e fst_conv
  proof (intro conjI allI impI)
    fix k x assume "t_get H (history_table db') k = Some x"
    then show "entry_id x = k" using hist_soundD1 [OF s] by (simp add: evict_state(2) [OF s e] split: if_splits)
  next
    fix ts k assume r: "t_get X (history_by_timestamp db') ts = Some k"
    then have g: "\<not> ts < timestamp_millis older_than" "t_get X (history_by_timestamp db) ts = Some k"
      by (auto simp: evict_state(1) [OF s e] split: if_splits)
    obtain x where x: "t_get H (history_table db) k = Some x" "entry_ms x = ts" using hist_soundD2 [OF s g(2)] by auto
    have "\<not> (\<exists>ts < timestamp_millis older_than. t_get X (history_by_timestamp db) ts = Some k)"
      using hist_soundD2 [OF s, of _ k] x g(1) by fastforce
    then show "\<exists>x. t_get H (history_table db') k = Some x \<and> entry_ms x = ts"
      using x by (simp add: evict_state(2) [OF s e])
  qed
qed

lemma evict_complete:
  assumes s: "hist_sound H X db" and c: "hist_complete H X db"
  shows "hist_complete H X (fst (evict_history_older_than H X older_than db))"
proof -
  obtain db' n where e: "evict_history_older_than H X older_than db = (db', n)" by force
  show ?thesis unfolding hist_complete_def e fst_conv
  proof (intro allI impI)
    fix k x assume "t_get H (history_table db') k = Some x"
    then have g: "\<not> (\<exists>ts < timestamp_millis older_than. t_get X (history_by_timestamp db) ts = Some k)"
        "t_get H (history_table db) k = Some x"
      by (auto simp: evict_state(2) [OF s e] split: if_splits)
    then show "t_get X (history_by_timestamp db') (entry_ms x) = Some k"
      using hist_completeD [OF c g(2)] by (auto simp: evict_state(1) [OF s e])
  qed
qed

end

interpretation list_history: history_db list_table list_table ..

datatype history_op = PutHistory HistoryEntry | DeleteHistory uuid | EvictHistory int

definition history_step ::
  "('h, uuid, HistoryEntry) table_ops \<Rightarrow> ('x, int, uuid) table_ops \<Rightarrow> ('h, 'x) HistoryDb \<Rightarrow> history_op \<Rightarrow> ('h, 'x) HistoryDb"
where
  "history_step H X db r =
    (case r of
       PutHistory e \<Rightarrow> put_history H X e db
     | DeleteHistory i \<Rightarrow> fst (delete_history H X i db)
     | EvictHistory t \<Rightarrow> fst (evict_history_older_than H X t db))"

definition empty_history :: "('h, uuid, HistoryEntry) table_ops \<Rightarrow> ('x, int, uuid) table_ops \<Rightarrow> ('h, 'x) HistoryDb" where
  "empty_history H X = \<lparr>history_table = t_empty H, history_by_timestamp = t_empty X\<rparr>"

fun distinct_ms :: "('h, uuid, HistoryEntry) table_ops \<Rightarrow> ('x, int, uuid) table_ops \<Rightarrow> ('h, 'x) HistoryDb \<Rightarrow> history_op list \<Rightarrow> bool" where
  "distinct_ms H X db [] = True"
| "distinct_ms H X db (r # rs) =
    ((case r of PutHistory e \<Rightarrow> fresh_ms H e db | _ \<Rightarrow> True) \<and> distinct_ms H X (history_step H X db r) rs)"

context history_db
begin

lemma step_sound: "hist_sound H X db \<Longrightarrow> hist_sound H X (history_step H X db r)"
  by (cases r) (simp_all add: history_step_def put_sound delete_sound evict_sound)

lemma run_sound: "hist_sound H X db \<Longrightarrow> hist_sound H X (foldl (history_step H X) db rs)"
  by (induction rs arbitrary: db) (simp_all add: step_sound)

lemma empty_sound: "hist_sound H X (empty_history H X)" and empty_complete: "hist_complete H X (empty_history H X)"
  by (simp_all add: hist_sound_def hist_complete_def empty_history_def)

lemma run_complete:
  "hist_sound H X db \<Longrightarrow> hist_complete H X db \<Longrightarrow> distinct_ms H X db rs \<Longrightarrow> hist_complete H X (foldl (history_step H X) db rs)"
proof (induction rs arbitrary: db)
  case (Cons r rs)
  have "hist_complete H X (history_step H X db r)"
    using Cons.prems by (cases r) (simp_all add: history_step_def put_complete delete_complete evict_complete)
  then show ?case using Cons.IH [OF step_sound] Cons.prems by simp
qed simp

lemma recent_newest:
  assumes s: "hist_sound H X db" and c: "hist_complete H X db" and n: "0 < n"
    and L: "L = iter_history_recent H X n db"
  shows "sorted_wrt (\<lambda>a b. entry_ms b < entry_ms a) L"
    and "set L \<subseteq> stored_entries H db" and "length L \<le> n"
    and "d \<in> stored_entries H db \<Longrightarrow> d \<notin> set L \<Longrightarrow> length L = n \<and> (\<forall>e \<in> set L. entry_ms d < entry_ms e)"
proof -
  let ?R = "rev (history_list H X db)"
  have LR: "L = take n ?R" using n L by (simp add: recent_eq max_def)
  have sorted: "sorted_wrt (\<lambda>a b. entry_ms b < entry_ms a) ?R" using hist_list_sorted [OF s] by (simp add: sorted_wrt_rev)
  have mem: "set ?R = stored_entries H db" using set_hist_list [OF c] by auto
  show "sorted_wrt (\<lambda>a b. entry_ms b < entry_ms a) L" unfolding LR by (rule sorted_wrt_take [OF sorted])
  show "set L \<subseteq> stored_entries H db" unfolding LR mem [symmetric] by (rule set_take_subset)
  show "length L \<le> n" unfolding LR by simp
  assume "d \<in> stored_entries H db" "d \<notin> set L"
  then have d: "d \<in> set (drop n ?R)" using mem LR by (metis UnE append_take_drop_id set_append)
  have "sorted_wrt (\<lambda>a b. entry_ms b < entry_ms a) (take n ?R @ drop n ?R)" using sorted by simp
  then have "\<forall>e \<in> set L. entry_ms d < entry_ms e" using d unfolding LR sorted_wrt_append by blast
  moreover have "length L = n" using d unfolding LR by (cases "n \<le> length ?R") auto
  ultimately show "length L = n \<and> (\<forall>e \<in> set L. entry_ms d < entry_ms e)" by blast
qed

lemma evict_exact:
  assumes s: "hist_sound H X db" and c: "hist_complete H X db"
    and e: "evict_history_older_than H X older_than db = (db', n)"
  shows "stored_entries H db' = {e \<in> stored_entries H db. timestamp_millis older_than \<le> entry_ms e}"
    and "n = card {e \<in> stored_entries H db. entry_ms e < timestamp_millis older_than}"
proof -
  let ?C = "timestamp_millis older_than"
  have old: "(\<exists>ts < ?C. t_get X (history_by_timestamp db) ts = Some k) \<longleftrightarrow>
      (\<exists>x. t_get H (history_table db) k = Some x \<and> entry_ms x < ?C)" for k
    using hist_soundD2 [OF s] hist_completeD [OF c] by blast
  show "stored_entries H db' = {e \<in> stored_entries H db. ?C \<le> entry_ms e}"
    unfolding stored_entries_def evict_state(2) [OF s e] old by (auto simp: not_less) (metis option.inject linorder_not_less)
  have "{k. \<exists>ts < ?C. t_get X (history_by_timestamp db) ts = Some k} =
      entry_id ` {e \<in> stored_entries H db. entry_ms e < ?C}"
    unfolding old stored_entries_def using hist_soundD1 [OF s] by (auto simp: image_iff)
  moreover have "inj_on entry_id (stored_entries H db)"
    unfolding stored_entries_def using hist_soundD1 [OF s] by (auto intro!: inj_onI)
  then have "inj_on entry_id {e \<in> stored_entries H db. entry_ms e < ?C}" by (rule inj_on_subset) auto
  ultimately show "n = card {e \<in> stored_entries H db. entry_ms e < ?C}"
    using evict_state(3) [OF s e] by (simp add: card_image)
qed

end

text \<open>After any sequence of puts, deletions and evictions on an empty database, the index by millisecond and the
  history table agree: every index row names a stored entry recorded in that millisecond, and every entry is stored
  under its own id.\<close>

theorem history_index_sound:
  assumes "history_db H X"
  shows "hist_sound H X (foldl (history_step H X) (empty_history H X) rs)"
  using history_db.run_sound [OF assms history_db.empty_sound [OF assms]] .

definition sample_entry :: "nat \<Rightarrow> int \<Rightarrow> HistoryEntry" where
  "sample_entry i t =
    \<lparr>entry_id = of_nat i, timestamp_ns = t, action_id = [102], command_text = [103], target = None,
     reversible_until = None, reverse_command = None, metadata = []\<rparr>"

lemma history_index_sound_witness:
  "hist_sound list_table list_table
     (foldl (history_step list_table list_table) (empty_history list_table list_table)
       [PutHistory (sample_entry 1 5000000), PutHistory (sample_entry 2 5999999), PutHistory (sample_entry 1 9000000),
        DeleteHistory 2, EvictHistory 9000000])"
  by (rule history_index_sound [OF list_history.history_db_axioms])

text \<open>As long as no two entries share a millisecond, listing the \<open>n\<close> most recent entries (with \<open>n > 0\<close>) returns
  stored entries only, strictly newest first, at most \<open>n\<close> of them, and leaves an entry out only when it has returned
  \<open>n\<close> entries which are all newer.\<close>

theorem recent_history_newest_first:
  assumes "history_db H X" and "distinct_ms H X (empty_history H X) rs" and "0 < n"
    and "db = foldl (history_step H X) (empty_history H X) rs"
  shows "sorted_wrt (\<lambda>a b. entry_ms b < entry_ms a) (iter_history_recent H X n db) \<and>
    set (iter_history_recent H X n db) \<subseteq> stored_entries H db \<and> length (iter_history_recent H X n db) \<le> n \<and>
    (\<forall>d \<in> stored_entries H db. d \<notin> set (iter_history_recent H X n db) \<longrightarrow>
       length (iter_history_recent H X n db) = n \<and> (\<forall>e \<in> set (iter_history_recent H X n db). entry_ms d < entry_ms e))"
proof -
  note L = assms(1)
  have s: "hist_sound H X db" unfolding assms(4) by (rule history_db.run_sound [OF L history_db.empty_sound [OF L]])
  have c: "hist_complete H X db" unfolding assms(4)
    by (rule history_db.run_complete [OF L history_db.empty_sound [OF L] history_db.empty_complete [OF L] assms(2)])
  note R = history_db.recent_newest [OF L s c assms(3) refl]
  show ?thesis using R by blast
qed

lemma recent_history_newest_first_witness:
  "sorted_wrt (\<lambda>a b. entry_ms b < entry_ms a)
    (iter_history_recent list_table list_table 1
      (foldl (history_step list_table list_table) (empty_history list_table list_table)
        [PutHistory (sample_entry 1 5000000), PutHistory (sample_entry 2 6000000)]))"
proof -
  let ?rs = "[PutHistory (sample_entry 1 5000000), PutHistory (sample_entry 2 6000000)]"
  have "distinct_ms list_table list_table (empty_history list_table list_table) ?rs"
    by (simp add: fresh_ms_def history_step_def list_history.get_put empty_history_def sample_entry_def entry_ms_def
        timestamp_millis_def)
  from recent_history_newest_first [OF list_history.history_db_axioms this zero_less_one refl] show ?thesis by blast
qed

text \<open>C36.  As long as no two entries share a millisecond, evicting the history older than a time removes exactly the
  entries recorded in an earlier millisecond and returns their number.\<close>

theorem evict_history_exact:
  assumes "history_db H X" and "distinct_ms H X (empty_history H X) rs"
    and "db = foldl (history_step H X) (empty_history H X) rs"
  shows "stored_entries H (fst (evict_history_older_than H X t db)) =
      {e \<in> stored_entries H db. timestamp_millis t \<le> entry_ms e} \<and>
    snd (evict_history_older_than H X t db) = card {e \<in> stored_entries H db. entry_ms e < timestamp_millis t}"
proof -
  note L = assms(1)
  have s: "hist_sound H X db" unfolding assms(3) by (rule history_db.run_sound [OF L history_db.empty_sound [OF L]])
  have c: "hist_complete H X db" unfolding assms(3)
    by (rule history_db.run_complete [OF L history_db.empty_sound [OF L] history_db.empty_complete [OF L] assms(2)])
  show ?thesis using history_db.evict_exact [OF L s c surjective_pairing] by blast
qed

lemma evict_history_exact_witness:
  "stored_entries list_table (fst (evict_history_older_than list_table list_table 6000000
      (foldl (history_step list_table list_table) (empty_history list_table list_table)
        [PutHistory (sample_entry 1 5000000), PutHistory (sample_entry 2 6000000)]))) = {sample_entry 2 6000000}"
proof -
  let ?rs = "[PutHistory (sample_entry 1 5000000), PutHistory (sample_entry 2 6000000)]"
  let ?db = "foldl (history_step list_table list_table) (empty_history list_table list_table) ?rs"
  have "distinct_ms list_table list_table (empty_history list_table list_table) ?rs"
    by (simp add: fresh_ms_def history_step_def list_history.get_put empty_history_def sample_entry_def entry_ms_def
        timestamp_millis_def)
  from evict_history_exact [OF list_history.history_db_axioms this refl, of 6000000]
  have "stored_entries list_table (fst (evict_history_older_than list_table list_table 6000000 ?db)) =
      {e \<in> stored_entries list_table ?db. timestamp_millis 6000000 \<le> entry_ms e}" by blast
  also have "\<dots> = {sample_entry 2 6000000}"
    by (auto simp: stored_entries_def history_step_def list_history.get_put empty_history_def sample_entry_def entry_ms_def
        timestamp_millis_def intro: exI [of _ 2] split: if_splits)
  finally show ?thesis .
qed

text \<open>Two entries recorded in the same millisecond: the index keeps one row, so the earlier entry stays in the table
  but is listed by no query over the index and outlives every eviction.\<close>

context history_db
begin

lemma unindexed_entry:
  assumes s: "hist_sound H X db" and a: "t_get H (history_table db) (entry_id a) = Some a"
    and x: "t_get X (history_by_timestamp db) (entry_ms a) \<noteq> Some (entry_id a)"
  shows "a \<notin> set (history_list H X db)" and "a \<in> stored_entries H (fst (evict_history_older_than H X t db))"
proof -
  have no: "t_get X (history_by_timestamp db) ts \<noteq> Some (entry_id a)" for ts
    using hist_soundD2 [OF s, of ts "entry_id a"] a x by auto
  show "a \<notin> set (history_list H X db)"
  proof
    assume "a \<in> set (history_list H X db)"
    then obtain ts k where "t_get X (history_by_timestamp db) ts = Some k" "t_get H (history_table db) k = Some a"
      by (auto simp: history_list_def set_map_filter X.iter_get)
    then show False using no hist_soundD1 [OF s] by blast
  qed
  obtain db' n where e: "evict_history_older_than H X t db = (db', n)" by force
  show "a \<in> stored_entries H (fst (evict_history_older_than H X t db))"
    using evict_state(2) [OF s e, of "entry_id a"] no a by (auto simp: stored_entries_def e)
qed

end

lemma same_millisecond_history_lost:
  assumes L: "history_db H X" and "entry_id a \<noteq> entry_id b" and "entry_ms a = entry_ms b"
    and db: "db = put_history H X b (put_history H X a (empty_history H X))"
  shows "get_history H (entry_id a) db = Some a \<and> a \<notin> set (iter_history_recent H X n db) \<and>
    a \<in> stored_entries H (fst (evict_history_older_than H X t db))"
proof -
  have s: "hist_sound H X db" unfolding db
    by (intro history_db.put_sound [OF L] history_db.empty_sound [OF L])
  have g: "t_get H (history_table db) (entry_id a) = Some a"
    using assms(2) by (simp add: db history_db.get_put [OF L])
  have "t_get X (history_by_timestamp db) (entry_ms a) \<noteq> Some (entry_id a)"
    using assms(2,3) by (simp add: db history_db.index_put [OF L])
  note U = history_db.unindexed_entry [OF L s g this]
  show ?thesis using g U(1) U(2) by (auto simp: get_history_def recent_eq dest: in_set_takeD)
qed

lemma recent_history_limit_zero:
  "history_list H X db \<noteq> [] \<Longrightarrow> length (iter_history_recent H X 0 db) = 1"
  by (simp add: recent_eq Suc_le_eq)

end
