(* ===== verification/Event_Bus.thy ===== *)
theory Event_Bus
  imports State_Store "HOL-Library.Product_Lexorder"
begin

text \<open>
  The event bus (\<open>src/crates/orchid-core/src/event/bus.rs\<close>, \<open>channel.rs\<close>, \<open>subscription.rs\<close>, \<open>priority.rs\<close>,
  \<open>event.rs\<close>): filters, the index of subscriptions by event type, delivery in priority order, the bounded queues of
  channel subscribers and the shutdown.  Closures of the subscribers are client code: a synchronous handler is a visit
  in the order of delivery, an asynchronous one a task that later ends or panics.  The order in which the hash sets are
  iterated is a parameter.  An identifier is fresh when it is drawn.
\<close>

section \<open>Events and filters\<close>

datatype EventSource = User | System | Subsystem ustring | Widget uuid | CommandSource

fun hex_text :: "nat \<Rightarrow> nat \<Rightarrow> ustring" where
  "hex_text 0 n = []"
| "hex_text (Suc d) n = hex_text d (n div 16) @ [if n mod 16 < 10 then 48 + n mod 16 else 87 + n mod 16]"

definition uuid_text :: "uuid \<Rightarrow> ustring" where
  "uuid_text u =
    (let h = hex_text 32 (unat u)
     in take 8 h @ [45] @ take 4 (drop 8 h) @ [45] @ take 4 (drop 12 h) @ [45] @ take 4 (drop 16 h) @ [45] @ drop 20 h)"

fun source_label :: "EventSource \<Rightarrow> ustring" where
  "source_label User = lit ''user''"
| "source_label System = lit ''system''"
| "source_label (Subsystem name) = lit ''subsystem:'' @ name"
| "source_label (Widget i) = lit ''widget:'' @ uuid_text i"
| "source_label CommandSource = lit ''command''"

record 'p EventEnvelope =
  env_id :: uuid
  env_timestamp :: int
  env_source :: EventSource
  event_type :: ustring
  payload :: 'p

record 'p EventFilter =
  filter_types :: "ustring list"
  filter_sources :: "EventSource list"
  predicate :: "('p EventEnvelope \<Rightarrow> bool) option"

definition any_filter :: "'p EventFilter" where
  "any_filter = \<lparr>filter_types = [], filter_sources = [], predicate = None\<rparr>"

definition of_type :: "ustring \<Rightarrow> 'p EventFilter" where
  "of_type ty = any_filter\<lparr>filter_types := [ty]\<rparr>"

definition from_source :: "EventSource \<Rightarrow> 'p EventFilter" where
  "from_source s = any_filter\<lparr>filter_sources := [s]\<rparr>"

definition with_predicate :: "('p EventEnvelope \<Rightarrow> bool) \<Rightarrow> 'p EventFilter" where
  "with_predicate f = any_filter\<lparr>predicate := Some f\<rparr>"

definition add_type :: "ustring \<Rightarrow> 'p EventFilter \<Rightarrow> 'p EventFilter" where
  "add_type ty f = f\<lparr>filter_types := filter_types f @ [ty]\<rparr>"

definition add_source :: "EventSource \<Rightarrow> 'p EventFilter \<Rightarrow> 'p EventFilter" where
  "add_source s f = f\<lparr>filter_sources := filter_sources f @ [s]\<rparr>"

definition filter_matches :: "'p EventFilter \<Rightarrow> 'p EventEnvelope \<Rightarrow> bool" where
  "filter_matches f e =
    (if filter_types f \<noteq> [] \<and> event_type e \<notin> set (filter_types f) then False
     else if filter_sources f \<noteq> [] \<and> env_source e \<notin> set (filter_sources f) then False
     else (case predicate f of Some p \<Rightarrow> p e | None \<Rightarrow> True))"

section \<open>Priorities\<close>

datatype HandlerPriority = Critical | High | Normal | Low | Audit

fun rank :: "HandlerPriority \<Rightarrow> int" where
  "rank Critical = -100"
| "rank High = -50"
| "rank Normal = 0"
| "rank Low = 50"
| "rank Audit = 100"

lemma rank_inject: "rank a = rank b \<longleftrightarrow> a = b"
  by (cases a; cases b) simp_all

instantiation HandlerPriority :: linorder
begin

definition less_eq_HandlerPriority :: "HandlerPriority \<Rightarrow> HandlerPriority \<Rightarrow> bool" where
  "less_eq_HandlerPriority a b \<longleftrightarrow> rank a \<le> rank b"

definition less_HandlerPriority :: "HandlerPriority \<Rightarrow> HandlerPriority \<Rightarrow> bool" where
  "less_HandlerPriority a b \<longleftrightarrow> rank a < rank b"

instance
  by standard (auto simp: less_eq_HandlerPriority_def less_HandlerPriority_def rank_inject)

end

section \<open>Channels\<close>

record 'p Channel =
  queue :: "'p EventEnvelope list"
  capacity :: nat
  closed :: bool

datatype PushError = Full | Closed

definition channel_new :: "nat \<Rightarrow> 'p Channel" where
  "channel_new cap = \<lparr>queue = [], capacity = max cap 1, closed = False\<rparr>"

definition close_channel :: "'p Channel \<Rightarrow> 'p Channel" where
  "close_channel ch = ch\<lparr>closed := True\<rparr>"

text \<open>The result is \<open>Some evicted\<close>, or \<open>None\<close> for the error of a closed channel.\<close>

definition push_drop_oldest :: "'p EventEnvelope \<Rightarrow> 'p Channel \<Rightarrow> 'p Channel \<times> bool option" where
  "push_drop_oldest e ch =
    (if closed ch then (ch, None)
     else if capacity ch \<le> length (queue ch) then (ch\<lparr>queue := tl (queue ch) @ [e]\<rparr>, Some True)
     else (ch\<lparr>queue := queue ch @ [e]\<rparr>, Some False))"

definition try_push_drop_newest :: "'p EventEnvelope \<Rightarrow> 'p Channel \<Rightarrow> 'p Channel \<times> PushError option" where
  "try_push_drop_newest e ch =
    (if closed ch then (ch, Some Closed)
     else if capacity ch \<le> length (queue ch) then (ch, Some Full)
     else (ch\<lparr>queue := queue ch @ [e]\<rparr>, None))"

text \<open>
  The sender tries, sleeps and tries again until the deadline.  \<open>pops\<close> gives, for each sleep before the deadline, the
  number of events the receiver takes meanwhile.
\<close>

fun push_block :: "nat list \<Rightarrow> 'p EventEnvelope \<Rightarrow> 'p Channel \<Rightarrow> 'p Channel \<times> PushError option" where
  "push_block pops e ch =
    (case try_push_drop_newest e ch of
       (ch', None) \<Rightarrow> (ch', None)
     | (ch', Some Closed) \<Rightarrow> (ch', Some Closed)
     | (ch', Some Full) \<Rightarrow>
         (case pops of [] \<Rightarrow> (ch', Some Full) | k # ks \<Rightarrow> push_block ks e (ch'\<lparr>queue := drop k (queue ch')\<rparr>)))"

declare push_block.simps [simp del]

datatype 'p recv_result = Received "'p EventEnvelope" | Ended | Waiting

definition recv :: "'p Channel \<Rightarrow> 'p Channel \<times> 'p recv_result" where
  "recv ch =
    (case queue ch of
       e # q \<Rightarrow> (ch\<lparr>queue := q\<rparr>, Received e)
     | [] \<Rightarrow> (ch, if closed ch then Ended else Waiting))"

section \<open>The bus\<close>

datatype SlowConsumerPolicy = DropOldest | DropNewest | Block

datatype HandlerKind = ChannelHandler | AsyncHandler | SyncHandler

record 'p SubscriptionEntry =
  priority :: HandlerPriority
  seq :: u64
  sub_filter :: "'p EventFilter"
  handler :: HandlerKind

record 'p EventBus =
  per_subscriber_buffer :: nat
  slow_consumer_policy :: SlowConsumerPolicy
  subs :: "uuid \<Rightarrow> 'p SubscriptionEntry option"
  wildcard :: "uuid set"
  by_type :: "ustring \<Rightarrow> uuid set"
  next_seq :: u64
  bus_shutdown :: bool
  in_flight :: nat
  published :: u64
  delivered :: u64
  dropped :: u64
  tasks :: "(uuid \<times> 'p EventEnvelope) list"
  channels :: "uuid \<Rightarrow> 'p Channel option"

definition bus_new :: "nat \<Rightarrow> SlowConsumerPolicy \<Rightarrow> 'p EventBus" where
  "bus_new buf pol =
    \<lparr>per_subscriber_buffer = buf, slow_consumer_policy = pol, subs = Map.empty, wildcard = {}, by_type = (\<lambda>_. {}),
     next_seq = 0, bus_shutdown = False, in_flight = 0, published = 0, delivered = 0, dropped = 0, tasks = [],
     channels = Map.empty\<rparr>"

definition index_sub :: "uuid \<Rightarrow> 'p EventFilter \<Rightarrow> 'p EventBus \<Rightarrow> 'p EventBus" where
  "index_sub i f b =
    (if filter_types f = [] then b\<lparr>wildcard := insert i (wildcard b)\<rparr>
     else b\<lparr>by_type := foldl (\<lambda>m ty. m(ty := insert i (m ty))) (by_type b) (filter_types f)\<rparr>)"

definition unindex_sub :: "uuid \<Rightarrow> 'p EventFilter \<Rightarrow> 'p EventBus \<Rightarrow> 'p EventBus" where
  "unindex_sub i f b =
    (if filter_types f = [] then b\<lparr>wildcard := wildcard b - {i}\<rparr>
     else b\<lparr>by_type := foldl (\<lambda>m ty. m(ty := m ty - {i})) (by_type b) (filter_types f)\<rparr>)"

text \<open>The three ways to subscribe; \<open>None\<close> is the error of a bus that is shut down.\<close>

definition subscribe_kind :: "HandlerKind \<Rightarrow> uuid \<Rightarrow> 'p EventFilter \<Rightarrow> HandlerPriority \<Rightarrow> 'p EventBus \<Rightarrow> 'p EventBus option" where
  "subscribe_kind k i f p b =
    (if bus_shutdown b then None
     else
       let b1 = (if k = ChannelHandler then b\<lparr>channels := (channels b)(i \<mapsto> channel_new (per_subscriber_buffer b))\<rparr> else b);
           b2 = b1\<lparr>next_seq := next_seq b1 + 1,
             subs := (subs b1)(i \<mapsto> \<lparr>priority = p, seq = next_seq b1, sub_filter = f, handler = k\<rparr>)\<rparr>
       in Some (index_sub i f b2))"

definition subscribe :: "uuid \<Rightarrow> 'p EventFilter \<Rightarrow> HandlerPriority \<Rightarrow> 'p EventBus \<Rightarrow> 'p EventBus option" where
  "subscribe = subscribe_kind ChannelHandler"

definition subscribe_async :: "uuid \<Rightarrow> 'p EventFilter \<Rightarrow> HandlerPriority \<Rightarrow> 'p EventBus \<Rightarrow> 'p EventBus option" where
  "subscribe_async = subscribe_kind AsyncHandler"

definition subscribe_sync :: "uuid \<Rightarrow> 'p EventFilter \<Rightarrow> HandlerPriority \<Rightarrow> 'p EventBus \<Rightarrow> 'p EventBus option" where
  "subscribe_sync = subscribe_kind SyncHandler"

text \<open>Removing an entry drops the sender of its channel, which closes it.\<close>

definition remove_subscription :: "uuid \<Rightarrow> 'p EventBus \<Rightarrow> 'p EventBus \<times> bool" where
  "remove_subscription i b =
    (case subs b i of
       None \<Rightarrow> (b, False)
     | Some entry \<Rightarrow>
         (unindex_sub i (sub_filter entry)
           (b\<lparr>subs := (subs b)(i := None), channels := (channels b)(i := map_option close_channel (channels b i))\<rparr>), True))"

definition unsubscribe :: "uuid \<Rightarrow> 'p EventBus \<Rightarrow> 'p EventBus \<times> bool" where
  "unsubscribe = remove_subscription"

definition drop_handle :: "bool \<Rightarrow> uuid \<Rightarrow> 'p EventBus \<Rightarrow> 'p EventBus" where
  "drop_handle leaked i b = (if leaked then b else fst (remove_subscription i b))"

section \<open>Delivery\<close>

definition collect_if_match ::
  "'p EventBus \<Rightarrow> 'p EventEnvelope \<Rightarrow> uuid \<Rightarrow> (HandlerPriority \<times> u64 \<times> uuid) option"
where
  "collect_if_match b e i =
    (case subs b i of
       None \<Rightarrow> None
     | Some entry \<Rightarrow> if filter_matches (sub_filter entry) e then Some (priority entry, seq entry, i) else None)"

definition matching_subs ::
  "(uuid set \<Rightarrow> uuid list) \<Rightarrow> 'p EventBus \<Rightarrow> 'p EventEnvelope \<Rightarrow> (HandlerPriority \<times> u64 \<times> uuid) list"
where
  "matching_subs iter b e =
    sort_key (\<lambda>(p, s, _). (p, s))
      (List.map_filter (collect_if_match b e) (iter (wildcard b)) @
       List.map_filter (collect_if_match b e) (iter (by_type b (event_type e))))"

text \<open>The result says whether the event was queued, and whether an older one was discarded for it.\<close>

definition dispatch_to_channel ::
  "SlowConsumerPolicy \<Rightarrow> nat list \<Rightarrow> 'p EventEnvelope \<Rightarrow> 'p Channel \<Rightarrow> 'p Channel \<times> bool \<times> bool"
where
  "dispatch_to_channel pol pops e ch =
    (case pol of
       DropOldest \<Rightarrow>
         (case push_drop_oldest e ch of (ch', Some evicted) \<Rightarrow> (ch', True, evicted) | (ch', None) \<Rightarrow> (ch', False, False))
     | DropNewest \<Rightarrow> (case try_push_drop_newest e ch of (ch', r) \<Rightarrow> (ch', r = None, False))
     | Block \<Rightarrow> (case push_block pops e ch of (ch', r) \<Rightarrow> (ch', r = None, False)))"

definition deliver :: "(uuid \<Rightarrow> nat list) \<Rightarrow> 'p EventEnvelope \<Rightarrow> uuid \<Rightarrow> HandlerKind \<Rightarrow> 'p EventBus \<Rightarrow> 'p EventBus" where
  "deliver pops e i k b =
    (case k of
       SyncHandler \<Rightarrow> b\<lparr>delivered := delivered b + 1\<rparr>
     | AsyncHandler \<Rightarrow> b\<lparr>in_flight := in_flight b + 1, tasks := tasks b @ [(i, e)]\<rparr>
     | ChannelHandler \<Rightarrow>
         (case channels b i of
            None \<Rightarrow> b
          | Some ch \<Rightarrow>
              (case dispatch_to_channel (slow_consumer_policy b) (pops i) e ch of
                 (ch', queued, evicted) \<Rightarrow>
                   b\<lparr>channels := (channels b)(i \<mapsto> ch'),
                     delivered := (if queued then delivered b + 1 else delivered b),
                     dropped := dropped b + (if evicted then 1 else 0) + (if queued then 0 else 1)\<rparr>)))"

fun dispatch_loop ::
  "(uuid \<Rightarrow> nat list) \<Rightarrow> 'p EventEnvelope \<Rightarrow> (HandlerPriority \<times> u64 \<times> uuid) list \<Rightarrow> 'p EventBus \<Rightarrow> uuid list \<Rightarrow>
   'p EventBus \<times> uuid list"
where
  "dispatch_loop pops e [] b visited = (b, visited)"
| "dispatch_loop pops e ((_, _, i) # rest) b visited =
    (case subs b i of
       None \<Rightarrow> dispatch_loop pops e rest b visited
     | Some entry \<Rightarrow> dispatch_loop pops e rest (deliver pops e i (handler entry) b) (visited @ [i]))"

definition dispatch_internal ::
  "(uuid set \<Rightarrow> uuid list) \<Rightarrow> (uuid \<Rightarrow> nat list) \<Rightarrow> 'p EventEnvelope \<Rightarrow> 'p EventBus \<Rightarrow> 'p EventBus \<times> uuid list"
where
  "dispatch_internal iter pops e b =
    (let b1 = b\<lparr>published := published b + 1\<rparr> in dispatch_loop pops e (matching_subs iter b1 e) b1 [])"

definition publish ::
  "(uuid set \<Rightarrow> uuid list) \<Rightarrow> (uuid \<Rightarrow> nat list) \<Rightarrow> 'p EventEnvelope \<Rightarrow> 'p EventBus \<Rightarrow> 'p EventBus \<times> nat"
where
  "publish iter pops e b =
    (if bus_shutdown b then (b, 0)
     else case dispatch_internal iter pops e b of (b', visited) \<Rightarrow> (b', length visited))"

section \<open>Tasks and shutdown\<close>

definition task_done :: "nat \<Rightarrow> 'p EventBus \<Rightarrow> 'p EventBus" where
  "task_done n b = b\<lparr>tasks := take n (tasks b) @ drop (Suc n) (tasks b), delivered := delivered b + 1, in_flight := in_flight b - 1\<rparr>"

text \<open>A handler that panics ends its task before the counters are updated.\<close>

definition task_panicked :: "nat \<Rightarrow> 'p EventBus \<Rightarrow> 'p EventBus" where
  "task_panicked n b = b\<lparr>tasks := take n (tasks b) @ drop (Suc n) (tasks b)\<rparr>"

definition receive :: "uuid \<Rightarrow> 'p EventBus \<Rightarrow> 'p EventBus" where
  "receive i b = b\<lparr>channels := (channels b)(i := map_option (\<lambda>ch. fst (recv ch)) (channels b i))\<rparr>"

definition shutdown_begin :: "'p EventBus \<Rightarrow> 'p EventBus" where
  "shutdown_begin b = b\<lparr>bus_shutdown := True\<rparr>"

text \<open>One poll of the loop of \<open>shutdown\<close>: \<open>None\<close> sleeps and polls again.\<close>

definition shutdown_poll :: "'p EventBus \<Rightarrow> 'p EventBus option" where
  "shutdown_poll b =
    (if 0 < in_flight b then None
     else Some (b\<lparr>subs := Map.empty, wildcard := {}, by_type := (\<lambda>_. {}),
       channels := (\<lambda>i. if subs b i \<noteq> None then map_option close_channel (channels b i) else channels b i)\<rparr>))"

section \<open>Runs of the bus\<close>

inductive bus_steps :: "(uuid set \<Rightarrow> uuid list) \<Rightarrow> 'p EventBus \<Rightarrow> nat \<Rightarrow> 'p EventBus \<Rightarrow> bool" for iter b0 where
  steps_start: "bus_steps iter b0 0 b0"
| steps_subscribe: "bus_steps iter b0 n b \<Longrightarrow> subs b i = None \<Longrightarrow> channels b i = None \<Longrightarrow>
    subscribe_kind k i f p b = Some b' \<Longrightarrow> bus_steps iter b0 (Suc n) b'"
| steps_unsubscribe: "bus_steps iter b0 n b \<Longrightarrow> bus_steps iter b0 n (fst (unsubscribe i b))"
| steps_publish: "bus_steps iter b0 n b \<Longrightarrow> bus_steps iter b0 n (fst (publish iter pops e b))"
| steps_done: "bus_steps iter b0 n b \<Longrightarrow> j < length (tasks b) \<Longrightarrow> bus_steps iter b0 n (task_done j b)"
| steps_panicked: "bus_steps iter b0 n b \<Longrightarrow> j < length (tasks b) \<Longrightarrow> bus_steps iter b0 n (task_panicked j b)"
| steps_receive: "bus_steps iter b0 n b \<Longrightarrow> bus_steps iter b0 n (receive i b)"
| steps_shutdown: "bus_steps iter b0 n b \<Longrightarrow> bus_steps iter b0 n (shutdown_begin b)"
| steps_poll: "bus_steps iter b0 n b \<Longrightarrow> bus_shutdown b \<Longrightarrow> shutdown_poll b = Some b' \<Longrightarrow> bus_steps iter b0 n b'"

text \<open>\<open>n\<close> is the number of subscriptions so far.\<close>

definition bus_reach :: "(uuid set \<Rightarrow> uuid list) \<Rightarrow> nat \<Rightarrow> SlowConsumerPolicy \<Rightarrow> nat \<Rightarrow> 'p EventBus \<Rightarrow> bool" where
  "bus_reach iter buf pol = bus_steps iter (bus_new buf pol)"

text \<open>The part of the bus that delivery does not touch.\<close>

definition registry ::
  "'p EventBus \<Rightarrow> (uuid \<Rightarrow> 'p SubscriptionEntry option) \<times> uuid set \<times> (ustring \<Rightarrow> uuid set) \<times> u64 \<times> nat \<times> SlowConsumerPolicy"
where
  "registry b = (subs b, wildcard b, by_type b, next_seq b, per_subscriber_buffer b, slow_consumer_policy b)"

lemma registry_deliver [simp]: "registry (deliver pops e i k b) = registry b"
  by (simp add: registry_def deliver_def split: HandlerKind.split option.split prod.split)

lemma subs_deliver [simp]: "subs (deliver pops e i k b) = subs b"
  using registry_deliver [of pops e i k b] by (simp add: registry_def)

lemma dispatch_loop_registry: "registry (fst (dispatch_loop pops e rows b visited)) = registry b"
  by (induction pops e rows b visited rule: dispatch_loop.induct) (simp_all split: option.split)

lemma dispatch_loop_visited:
  "snd (dispatch_loop pops e rows b visited) = visited @ filter (\<lambda>i. subs b i \<noteq> None) (map (\<lambda>(_, _, i). i) rows)"
  by (induction pops e rows b visited rule: dispatch_loop.induct) (simp_all split: option.split)

lemma registry_publish [simp]: "registry (fst (publish iter pops e b)) = registry b"
proof -
  let ?b = "b\<lparr>published := published b + 1\<rparr>"
  have "registry (fst (dispatch_loop pops e (matching_subs iter ?b e) ?b [])) = registry b"
    unfolding dispatch_loop_registry by (simp add: registry_def)
  then show ?thesis
    by (cases "dispatch_loop pops e (matching_subs iter ?b e) ?b []") (simp add: publish_def dispatch_internal_def Let_def)
qed

lemma registry_simps [simp]:
  "registry (task_done j b) = registry b" "registry (task_panicked j b) = registry b"
  "registry (receive i b) = registry b" "registry (shutdown_begin b) = registry b"
  by (simp_all add: registry_def task_done_def task_panicked_def receive_def shutdown_begin_def)

lemma by_type_index: "foldl (\<lambda>m ty. m(ty := insert i (m ty))) m tys ty = (if ty \<in> set tys then insert i (m ty) else m ty)"
  by (induction tys arbitrary: m) auto

lemma by_type_unindex: "foldl (\<lambda>m ty. m(ty := m ty - {i})) m tys ty = (if ty \<in> set tys then m ty - {i} else m ty)"
  by (induction tys arbitrary: m) auto

definition index_inv :: "'p EventBus \<Rightarrow> bool" where
  "index_inv b \<longleftrightarrow>
    (\<forall>i. i \<in> wildcard b \<longleftrightarrow> (\<exists>s. subs b i = Some s \<and> filter_types (sub_filter s) = [])) \<and>
    (\<forall>ty i. i \<in> by_type b ty \<longleftrightarrow> (\<exists>s. subs b i = Some s \<and> ty \<in> set (filter_types (sub_filter s)))) \<and>
    finite (dom (subs b))"

definition seq_inv :: "nat \<Rightarrow> 'p EventBus \<Rightarrow> bool" where
  "seq_inv n b \<longleftrightarrow> next_seq b = of_nat n \<and> (\<forall>i s. subs b i = Some s \<longrightarrow> unat (seq s) < n) \<and>
    (\<forall>i j s t. subs b i = Some s \<and> subs b j = Some t \<and> seq s = seq t \<longrightarrow> i = j)"

lemma inv_registry:
  "registry b' = registry b \<Longrightarrow> index_inv b' = index_inv b" "registry b' = registry b \<Longrightarrow> seq_inv n b' = seq_inv n b"
  by (simp_all add: registry_def index_inv_def seq_inv_def)

lemma index_inv_subscribe:
  assumes "index_inv b" and "subs b i = None" and "subscribe_kind k i f p b = Some b'"
  shows "index_inv b'"
proof -
  have *: "subs b' = (subs b)(i \<mapsto> \<lparr>priority = p, seq = next_seq b, sub_filter = f, handler = k\<rparr>)"
      "wildcard b' = (if filter_types f = [] then insert i (wildcard b) else wildcard b)"
      "by_type b' ty = (if ty \<in> set (filter_types f) then insert i (by_type b ty) else by_type b ty)" for ty
    using assms(3) by (auto simp: subscribe_kind_def index_sub_def Let_def by_type_index split: if_splits)
  show ?thesis using assms(1,2) unfolding index_inv_def * by (auto split: if_splits)
qed

lemma unsubscribe_none: "subs b i = None \<Longrightarrow> fst (unsubscribe i b) = b"
  by (simp add: unsubscribe_def remove_subscription_def)

lemma unsubscribe_some:
  assumes "subs b i = Some s"
  shows "subs (fst (unsubscribe i b)) = (subs b)(i := None)"
    and "wildcard (fst (unsubscribe i b)) = (if filter_types (sub_filter s) = [] then wildcard b - {i} else wildcard b)"
    and "by_type (fst (unsubscribe i b)) ty = (if ty \<in> set (filter_types (sub_filter s)) then by_type b ty - {i} else by_type b ty)"
    and "next_seq (fst (unsubscribe i b)) = next_seq b"
  using assms by (auto simp: unsubscribe_def remove_subscription_def unindex_sub_def by_type_unindex)

lemma index_inv_unsubscribe: "index_inv b \<Longrightarrow> index_inv (fst (unsubscribe i b))"
proof (cases "subs b i")
  case (Some s)
  assume "index_inv b"
  then show ?thesis unfolding index_inv_def unsubscribe_some [OF Some] using Some by (auto split: if_splits)
qed (simp add: unsubscribe_none)

lemma seq_inv_subscribe:
  assumes "seq_inv n b" and "subs b i = None" and "subscribe_kind k i f p b = Some b'" and n: "Suc n \<le> 2 ^ 64"
  shows "seq_inv (Suc n) b'"
proof -
  have *: "subs b' = (subs b)(i \<mapsto> \<lparr>priority = p, seq = next_seq b, sub_filter = f, handler = k\<rparr>)"
      "next_seq b' = next_seq b + 1"
    using assms(3) by (auto simp: subscribe_kind_def index_sub_def Let_def split: if_splits)
  have u: "unat (of_nat n :: u64) = n" using n by (simp add: unsigned_of_nat take_bit_nat_eq_self)
  show ?thesis using assms(1,2) u unfolding seq_inv_def * by (fastforce split: if_splits simp: less_Suc_eq)
qed

lemma seq_inv_unsubscribe: "seq_inv n b \<Longrightarrow> seq_inv n (fst (unsubscribe i b))"
proof (cases "subs b i")
  case (Some s)
  assume "seq_inv n b"
  then show ?thesis unfolding seq_inv_def unsubscribe_some(1,4) [OF Some] by (auto split: if_splits)
qed (simp add: unsubscribe_none)

lemma steps_index_inv: "bus_steps iter b0 n b \<Longrightarrow> index_inv b0 \<Longrightarrow> index_inv b"
proof (induction rule: bus_steps.induct)
  case (steps_poll n b b')
  then show ?case by (auto simp: shutdown_poll_def index_inv_def split: if_splits)
qed (simp_all add: index_inv_subscribe index_inv_unsubscribe inv_registry(1) [OF registry_publish] inv_registry(1) [OF registry_simps(1)]
    inv_registry(1) [OF registry_simps(2)] inv_registry(1) [OF registry_simps(3)] inv_registry(1) [OF registry_simps(4)])

lemma reach_index_inv: "bus_reach iter buf pol n b \<Longrightarrow> index_inv b"
  unfolding bus_reach_def by (erule steps_index_inv) (simp add: index_inv_def bus_new_def)

lemma steps_seq_inv: "bus_steps iter b0 n b \<Longrightarrow> seq_inv 0 b0 \<Longrightarrow> n \<le> 2 ^ 64 \<Longrightarrow> seq_inv n b"
proof (induction rule: bus_steps.induct)
  case (steps_poll n b b')
  then show ?case by (auto simp: shutdown_poll_def seq_inv_def split: if_splits)
next
  case (steps_subscribe n b i k f p b')
  then show ?case by (intro seq_inv_subscribe) auto
qed (simp_all add: seq_inv_unsubscribe inv_registry(2) [OF registry_publish] inv_registry(2) [OF registry_simps(1)]
    inv_registry(2) [OF registry_simps(2)] inv_registry(2) [OF registry_simps(3)] inv_registry(2) [OF registry_simps(4)])

lemma reach_seq_inv: "bus_reach iter buf pol n b \<Longrightarrow> n \<le> 2 ^ 64 \<Longrightarrow> seq_inv n b"
  unfolding bus_reach_def by (erule steps_seq_inv) (simp_all add: seq_inv_def bus_new_def)

section \<open>Who is visited, and in which order\<close>

text \<open>A subscription matches an event when it is registered and its filter accepts it; it precedes another when its
  priority is higher or, within a priority, when it subscribed earlier.\<close>

definition sub_matches :: "'p EventBus \<Rightarrow> 'p EventEnvelope \<Rightarrow> uuid \<Rightarrow> bool" where
  "sub_matches b e i \<longleftrightarrow> (case subs b i of Some s \<Rightarrow> filter_matches (sub_filter s) e | None \<Rightarrow> False)"

definition sub_before :: "'p EventBus \<Rightarrow> uuid \<Rightarrow> uuid \<Rightarrow> bool" where
  "sub_before b i j \<longleftrightarrow>
    (case (subs b i, subs b j) of
       (Some s, Some t) \<Rightarrow> rank (priority s) < rank (priority t) \<or> priority s = priority t \<and> unat (seq s) < unat (seq t)
     | _ \<Rightarrow> False)"

definition iter_law :: "(uuid set \<Rightarrow> uuid list) \<Rightarrow> bool" where
  "iter_law iter \<longleftrightarrow> (\<forall>S. finite S \<longrightarrow> set (iter S) = S \<and> distinct (iter S))"

lemma collect_row: "collect_if_match b e i = Some r \<Longrightarrow> sub_matches b e i \<and> (\<exists>s. subs b i = Some s \<and> r = (priority s, seq s, i))"
  by (auto simp: collect_if_match_def sub_matches_def split: option.splits if_splits)

lemma collect_matches: "sub_matches b e i \<Longrightarrow> \<exists>s. subs b i = Some s \<and> collect_if_match b e i = Some (priority s, seq s, i)"
  by (auto simp: collect_if_match_def sub_matches_def split: option.splits)

lemma map_filter_collect:
  "map (\<lambda>(_, _, i). i) (List.map_filter (collect_if_match b e) is) = filter (sub_matches b e) is"
proof (induction "is")
  case (Cons i "is")
  show ?case
  proof (cases "collect_if_match b e i")
    case None
    then have "\<not> sub_matches b e i" using collect_matches [of b e i] by auto
    then show ?thesis using Cons None by simp
  next
    case (Some r)
    then show ?thesis using Cons collect_row [OF Some] by auto
  qed
qed simp

lemma candidates:
  fixes e :: "'p EventEnvelope"
  assumes "index_inv b" and "iter_law iter"
  defines "is \<equiv> filter (sub_matches b e) (iter (wildcard b) @ iter (by_type b (event_type e)))"
  shows "set is = Collect (sub_matches b e)" and "distinct is"
proof -
  have fin: "finite (wildcard b)" "finite (by_type b (event_type e))"
    using assms(1) by (auto simp: index_inv_def intro: finite_subset [of _ "dom (subs b)"])
  then have it: "set (iter (wildcard b)) = wildcard b" "set (iter (by_type b (event_type e))) = by_type b (event_type e)"
      "distinct (iter (wildcard b))" "distinct (iter (by_type b (event_type e)))"
    using assms(2) by (auto simp: iter_law_def)
  have disjoint: "wildcard b \<inter> by_type b (event_type e) = {}"
    using assms(1) by (auto simp: index_inv_def)
  then show "distinct is" using it by (auto simp: is_def)
  have "i \<in> wildcard b \<union> by_type b (event_type e)" if "sub_matches b e i" for i
    using that assms(1) by (auto simp: sub_matches_def index_inv_def filter_matches_def split: option.splits if_splits)
  then show "set is = Collect (sub_matches b e)" using it by (auto simp: is_def)
qed

lemma sorted_rows:
  assumes "sorted_wrt (\<lambda>x y. f x \<le> f y) rows" and "distinct rows"
    and "\<And>x y. x \<in> set rows \<Longrightarrow> y \<in> set rows \<Longrightarrow> f x = f y \<Longrightarrow> x = y"
  shows "sorted_wrt (\<lambda>x y. f x < (f y :: 'b::linorder)) rows"
  using assms
proof (induction rows)
  case (Cons r rows)
  have "f r < f x" if x: "x \<in> set rows" for x
    using Cons.prems(1) Cons.prems(2) Cons.prems(3) [of r x] x by (auto simp: less_le)
  then show ?case using Cons by auto
qed simp

lemma visited_spec:
  fixes e :: "'p EventEnvelope"
  assumes inv: "index_inv b" and seqs: "seq_inv n b" and iter: "iter_law iter"
  defines "visited \<equiv> map (\<lambda>(_, _, i). i) (matching_subs iter b e)"
  shows "set visited = Collect (sub_matches b e)" and "distinct visited" and "sorted_wrt (sub_before b) visited"
proof -
  let ?rows = "List.map_filter (collect_if_match b e) (iter (wildcard b) @ iter (by_type b (event_type e)))"
  let ?key = "\<lambda>(p, s, _ :: uuid). (p :: HandlerPriority, s :: u64)"
  have M: "matching_subs iter b e = sort_key ?key ?rows"
    by (simp add: matching_subs_def map_filter_append)
  note ids = map_filter_collect [of b e "iter (wildcard b) @ iter (by_type b (event_type e))"]
  note C = candidates [OF inv iter, of e]
  have same: "mset visited = mset (map (\<lambda>(_, _, i). i) ?rows)" by (simp add: visited_def M)
  show set: "set visited = Collect (sub_matches b e)" using same C(1) unfolding ids by (metis mset_eq_setD)
  show d: "distinct visited" using same C(2) unfolding ids by (metis mset_eq_imp_distinct_iff)
  have row: "\<exists>s. subs b i = Some s \<and> p = priority s \<and> q = seq s" if "(p, q, i) \<in> set ?rows" for p q i
    using that collect_row [of b e] by (fastforce simp: set_map_filter)
  have inj: "x = y" if xy: "x \<in> set ?rows" "y \<in> set ?rows" "?key x = ?key y" for x y
  proof -
    obtain p q i where x: "x = (p, q, i)" by (cases x)
    obtain p' q' j where y: "y = (p', q', j)" by (cases y)
    obtain s t where st: "subs b i = Some s" "q = seq s" "subs b j = Some t" "q' = seq t"
      using row [of p q i] row [of p' q' j] xy(1,2) x y by auto
    have "q = q'" "p = p'" using xy(3) x y by simp_all
    then have "i = j" using seqs st unfolding seq_inv_def by blast
    then show ?thesis using x y \<open>q = q'\<close> \<open>p = p'\<close> by simp
  qed
  have "sorted_wrt (\<lambda>x y. ?key x \<le> ?key y) (sort_key ?key ?rows)"
    using sorted_sort_key [of ?key ?rows] by (simp add: sorted_map)
  moreover have "distinct (sort_key ?key ?rows)"
    using d by (simp add: visited_def M distinct_map)
  ultimately have strict: "sorted_wrt (\<lambda>x y. ?key x < ?key y) (sort_key ?key ?rows)"
    by (rule sorted_rows) (simp_all add: inj)
  have step: "sub_before b (snd (snd x)) (snd (snd y))"
    if "x \<in> set ?rows" "y \<in> set ?rows" "?key x < ?key y" for x y
    using row [of "fst x" "fst (snd x)" "snd (snd x)"] row [of "fst y" "fst (snd y)" "snd (snd y)"] that
    by (auto simp: sub_before_def less_HandlerPriority_def less_eq_HandlerPriority_def word_less_nat_alt rank_inject less_prod_def
        split: prod.splits)
  show "sorted_wrt (sub_before b) visited"
    unfolding visited_def M sorted_wrt_map
    by (rule sorted_wrt_mono_rel [OF _ strict]) (use step in \<open>auto split: prod.splits\<close>)
qed


lemma collect_if_match_cong: "subs b' = subs b \<Longrightarrow> collect_if_match b' = collect_if_match b"
  by (simp add: fun_eq_iff collect_if_match_def)

lemma publish_visits:
  "snd (dispatch_internal iter pops e b) = filter (\<lambda>i. subs b i \<noteq> None) (map (\<lambda>(_, _, i). i) (matching_subs iter b e))"
proof -
  have "matching_subs iter (b\<lparr>published := published b + 1\<rparr>) e = matching_subs iter b e"
    by (simp add: matching_subs_def collect_if_match_cong [of "b\<lparr>published := published b + 1\<rparr>" b])
  then show ?thesis by (simp add: dispatch_internal_def Let_def dispatch_loop_visited)
qed

text \<open>C11.  In every reachable state of the bus an event visits exactly the registered subscriptions whose filter accepts
  it, each once, by priority and within a priority in the order of subscription, whatever order the hash sets of the
  index are iterated in; \<open>publish\<close> returns their number.\<close>

theorem event_delivery_order:
  assumes "bus_reach iter buf pol n b" and "n \<le> 2 ^ 64" and "iter_law iter" and "\<not> bus_shutdown b"
  shows "set (snd (dispatch_internal iter pops e b)) = Collect (sub_matches b e) \<and>
    distinct (snd (dispatch_internal iter pops e b)) \<and>
    sorted_wrt (sub_before b) (snd (dispatch_internal iter pops e b)) \<and>
    snd (publish iter pops e b) = card (Collect (sub_matches b e))"
proof -
  note V = visited_spec [OF reach_index_inv [OF assms(1)] reach_seq_inv [OF assms(1,2)] assms(3), of e]
  have "filter (\<lambda>i. subs b i \<noteq> None) (map (\<lambda>(_, _, i). i) (matching_subs iter b e)) = map (\<lambda>(_, _, i). i) (matching_subs iter b e)"
    using V(1) by (intro filter_True) (auto simp: sub_matches_def split: option.splits)
  then have eq: "snd (dispatch_internal iter pops e b) = map (\<lambda>(_, _, i). i) (matching_subs iter b e)"
    unfolding publish_visits .
  have "snd (publish iter pops e b) = length (snd (dispatch_internal iter pops e b))"
    using assms(4) by (simp add: publish_def split: prod.split)
  then show ?thesis unfolding eq using V distinct_card [OF V(2)] by simp
qed

section \<open>Queues\<close>

definition chan_ok :: "nat \<Rightarrow> 'p Channel \<Rightarrow> bool" where
  "chan_ok buf ch \<longleftrightarrow> capacity ch = max buf 1 \<and> length (queue ch) \<le> max buf 1"

lemma chan_ok_new: "chan_ok buf (channel_new buf)" and chan_ok_close: "chan_ok buf (close_channel ch) = chan_ok buf ch"
  by (simp_all add: chan_ok_def channel_new_def close_channel_def)

lemma chan_ok_recv: "chan_ok buf ch \<Longrightarrow> chan_ok buf (fst (recv ch)) \<and> closed (fst (recv ch)) = closed ch"
  by (cases "queue ch") (simp_all add: chan_ok_def recv_def)

lemma chan_ok_try:
  "chan_ok buf ch \<Longrightarrow> chan_ok buf (fst (try_push_drop_newest e ch)) \<and> closed (fst (try_push_drop_newest e ch)) = closed ch"
  by (auto simp: chan_ok_def try_push_drop_newest_def not_le)

lemma chan_ok_oldest:
  "chan_ok buf ch \<Longrightarrow> chan_ok buf (fst (push_drop_oldest e ch)) \<and> closed (fst (push_drop_oldest e ch)) = closed ch"
  by (auto simp: chan_ok_def push_drop_oldest_def)

lemma chan_ok_block:
  "chan_ok buf ch \<Longrightarrow> chan_ok buf (fst (push_block pops e ch)) \<and> closed (fst (push_block pops e ch)) = closed ch"
proof (induction pops e ch rule: push_block.induct)
  case (1 pops e ch)
  obtain c q where t: "try_push_drop_newest e ch = (c, q)" by force
  have c: "chan_ok buf c" "closed c = closed ch" using chan_ok_try [OF "1.prems", of e] t by simp_all
  show ?case
  proof (cases "q = Some Full \<and> pops \<noteq> []")
    case False
    then show ?thesis using c t by (subst (1 2) push_block.simps) (auto split: option.split PushError.split list.split)
  next
    case True
    then obtain k ks where p: "pops = k # ks" by (cases pops) auto
    have d: "chan_ok buf (c\<lparr>queue := drop k (queue c)\<rparr>)" using c(1) by (auto simp: chan_ok_def)
    have "chan_ok buf (fst (push_block ks e (c\<lparr>queue := drop k (queue c)\<rparr>))) \<and>
        closed (fst (push_block ks e (c\<lparr>queue := drop k (queue c)\<rparr>))) = closed c"
      using "1.IH" [OF t [symmetric], of Full k ks] True p d by simp
    then show ?thesis using True p t c(2) by (subst (1 2) push_block.simps) simp
  qed
qed

lemma chan_ok_dispatch:
  "chan_ok buf ch \<Longrightarrow> chan_ok buf (fst (dispatch_to_channel pol pops e ch)) \<and> closed (fst (dispatch_to_channel pol pops e ch)) = closed ch"
  using chan_ok_oldest [of buf ch e] chan_ok_try [of buf ch e] chan_ok_block [of buf ch pops e]
  by (cases pol; cases "push_drop_oldest e ch"; cases "try_push_drop_newest e ch"; cases "push_block pops e ch")
    (auto simp: dispatch_to_channel_def split: option.split)

definition chan_inv :: "nat \<Rightarrow> 'p EventBus \<Rightarrow> bool" where
  "chan_inv buf b \<longleftrightarrow> per_subscriber_buffer b = buf \<and>
    (\<forall>i ch. channels b i = Some ch \<longrightarrow> chan_ok buf ch \<and> (subs b i = None \<longrightarrow> closed ch))"

lemma chan_inv_deliver: "chan_inv buf b \<Longrightarrow> chan_inv buf (deliver pops e i k b)"
proof (cases k)
  case ChannelHandler
  assume inv: "chan_inv buf b"
  show ?thesis
  proof (cases "channels b i")
    case None
    then show ?thesis using inv ChannelHandler by (simp add: deliver_def)
  next
    case (Some ch)
    obtain ch' q v where d: "dispatch_to_channel (slow_consumer_policy b) (pops i) e ch = (ch', q, v)" by (metis prod_cases3)
    have ch: "chan_ok buf ch" "subs b i = None \<longrightarrow> closed ch" using inv Some by (simp_all add: chan_inv_def)
    have "chan_ok buf ch' \<and> closed ch' = closed ch"
      using chan_ok_dispatch [OF ch(1), of "slow_consumer_policy b" "pops i" e] d by simp
    with inv Some ch(2) ChannelHandler d show ?thesis by (simp add: chan_inv_def deliver_def)
  qed
qed (simp_all add: chan_inv_def deliver_def)

lemma chan_inv_dispatch: "chan_inv buf b \<Longrightarrow> chan_inv buf (fst (dispatch_loop pops e rows b visited))"
  by (induction pops e rows b visited rule: dispatch_loop.induct) (simp_all add: chan_inv_deliver split: option.split)

lemma chan_inv_publish: "chan_inv buf b \<Longrightarrow> chan_inv buf (fst (publish iter pops e b))"
proof -
  let ?b = "b\<lparr>published := published b + 1\<rparr>"
  assume inv: "chan_inv buf b"
  then have "chan_inv buf ?b" by (simp add: chan_inv_def)
  from chan_inv_dispatch [OF this, of pops e "matching_subs iter ?b e" "[]"] inv show ?thesis
    by (cases "dispatch_loop pops e (matching_subs iter ?b e) ?b []") (simp add: publish_def dispatch_internal_def Let_def)
qed

lemma chan_inv_frame:
  "chan_inv buf (task_done j b) = chan_inv buf b" "chan_inv buf (task_panicked j b) = chan_inv buf b"
  "chan_inv buf (shutdown_begin b) = chan_inv buf b"
  by (simp_all add: chan_inv_def task_done_def task_panicked_def shutdown_begin_def)

lemma chan_inv_unsubscribe: "chan_inv buf b \<Longrightarrow> chan_inv buf (fst (unsubscribe i b))"
proof (cases "subs b i")
  case (Some s)
  assume "chan_inv buf b"
  moreover have "closed (close_channel ch)" for ch :: "'a Channel" by (simp add: close_channel_def)
  ultimately show ?thesis using Some
    by (auto simp: chan_inv_def unsubscribe_def remove_subscription_def unindex_sub_def chan_ok_close split: if_splits)
qed (simp add: unsubscribe_none)

lemma chan_inv_receive: "chan_inv buf b \<Longrightarrow> chan_inv buf (receive i b)"
  using chan_ok_recv [of buf] by (cases "channels b i") (auto simp: chan_inv_def receive_def)

lemma chan_inv_subscribe:
  assumes "chan_inv buf b" and "channels b i = None" and "subscribe_kind k i f p b = Some b'"
  shows "chan_inv buf b'"
proof -
  have *: "channels b' = (if k = ChannelHandler then (channels b)(i \<mapsto> channel_new (per_subscriber_buffer b)) else channels b)"
      "per_subscriber_buffer b' = per_subscriber_buffer b" "subs b' j = None \<longrightarrow> subs b j = None \<and> j \<noteq> i" for j
    using assms(3) by (auto simp: subscribe_kind_def index_sub_def Let_def split: if_splits)
  show ?thesis using assms(1,2) *(3) unfolding chan_inv_def *(1,2) by (auto simp: chan_ok_new split: if_splits)
qed

lemma chan_inv_poll:
  assumes inv: "chan_inv buf b" and poll: "shutdown_poll b = Some b'"
  shows "chan_inv buf b'"
proof -
  have *: "per_subscriber_buffer b' = per_subscriber_buffer b" "subs b' = Map.empty"
      "channels b' i = (if subs b i \<noteq> None then map_option close_channel (channels b i) else channels b i)" for i
    using poll by (auto simp: shutdown_poll_def split: if_splits)
  have "chan_ok buf ch \<and> closed ch" if c: "channels b' i = Some ch" for i ch
  proof (cases "subs b i")
    case None
    then show ?thesis using c inv by (simp add: *(3) chan_inv_def)
  next
    case (Some s)
    then obtain c where "channels b i = Some c" "ch = close_channel c" using c Some by (auto simp: *(3))
    then show ?thesis using inv by (simp add: chan_inv_def chan_ok_close) (simp add: close_channel_def)
  qed
  then show ?thesis using inv unfolding chan_inv_def *(1,2) by simp
qed

lemma steps_chan_inv: "bus_steps iter b0 n b \<Longrightarrow> chan_inv buf b0 \<Longrightarrow> chan_inv buf b"
proof (induction rule: bus_steps.induct)
  case (steps_subscribe n b i k f p b')
  then show ?case by (blast intro: chan_inv_subscribe)
next
  case (steps_poll n b b')
  then show ?case by (blast intro: chan_inv_poll)
qed (simp_all add: chan_inv_publish chan_inv_frame chan_inv_unsubscribe chan_inv_receive)

lemma reach_chan_inv: "bus_reach iter buf pol n b \<Longrightarrow> chan_inv buf b"
  unfolding bus_reach_def by (erule steps_chan_inv) (simp add: chan_inv_def bus_new_def)

text \<open>C40.  Under each of the three policies and in every reachable state, the queue of a subscriber never holds more
  events than the configured buffer, and never more than one when the buffer is configured as zero.\<close>

theorem channel_queue_bounded:
  assumes "bus_reach iter buf pol n b" and "channels b i = Some ch"
  shows "length (queue ch) \<le> max buf 1"
  using reach_chan_inv [OF assms(1)] assms(2) by (auto simp: chan_inv_def chan_ok_def)

text \<open>With the policy that drops the oldest event, a queue that nobody reads holds the latest events, in the order in which
  they were published.\<close>

text \<open>Pushing events onto a new channel under the default policy leaves exactly the latest of them, as many as the
  buffer holds, in order.\<close>

theorem drop_oldest_keeps_latest:
  "queue (foldl (\<lambda>ch e. fst (push_drop_oldest e ch)) (channel_new cap) es) = drop (length es - max cap 1) es"
proof -
  have "\<not> closed ch \<Longrightarrow> capacity ch = max cap 1 \<Longrightarrow> length (queue ch) \<le> max cap 1 \<Longrightarrow>
      queue (foldl (\<lambda>ch e. fst (push_drop_oldest e ch)) ch es) = drop (length (queue ch @ es) - max cap 1) (queue ch @ es)"
    for ch :: "'a Channel"
  proof (induction es arbitrary: ch)
    case (Cons e es)
    let ?ch = "fst (push_drop_oldest e ch)"
    show ?case
    proof (cases "length (queue ch) = max cap 1")
      case True
      then obtain x q where q: "queue ch = x # q" by (cases "queue ch") auto
      have push: "?ch = ch\<lparr>queue := q @ [e]\<rparr>" using Cons.prems True q by (simp add: push_drop_oldest_def)
      have "length (queue ch @ e # es) - max cap 1 = Suc (length es)" using True by simp
      moreover have "length (q @ [e] @ es) - max cap 1 = length es" using True q by simp
      ultimately show ?thesis using Cons.IH [of ?ch] Cons.prems True q by (simp add: push)
    next
      case False
      then have "length (queue ch) < capacity ch" using Cons.prems by linarith
      then have push: "?ch = ch\<lparr>queue := queue ch @ [e]\<rparr>" using Cons.prems(1) by (simp add: push_drop_oldest_def)
      show ?thesis using Cons.IH [of ?ch] Cons.prems False by (simp add: push)
    qed
  qed simp
  from this [of "channel_new cap"] show ?thesis by (simp add: channel_new_def)
qed

section \<open>Shutdown\<close>

text \<open>The tasks that panicked: they count as in flight but run no more.\<close>

definition lost_tasks :: "nat \<Rightarrow> 'p EventBus \<Rightarrow> bool" where
  "lost_tasks k b \<longleftrightarrow> in_flight b = length (tasks b) + k"

lemma lost_deliver: "lost_tasks m (deliver pops e i k b) = lost_tasks m b"
  by (cases k) (auto simp: lost_tasks_def deliver_def split: option.split prod.split)

lemma lost_dispatch: "lost_tasks m (fst (dispatch_loop pops e rows b visited)) = lost_tasks m b"
  by (induction pops e rows b visited rule: dispatch_loop.induct) (simp_all add: lost_deliver split: option.split)

lemma lost_publish: "lost_tasks m (fst (publish iter pops e b)) = lost_tasks m b"
proof -
  let ?b = "b\<lparr>published := published b + 1\<rparr>"
  have "lost_tasks m (fst (dispatch_loop pops e (matching_subs iter ?b e) ?b [])) = lost_tasks m b"
    unfolding lost_dispatch by (simp add: lost_tasks_def)
  then show ?thesis
    by (cases "dispatch_loop pops e (matching_subs iter ?b e) ?b []") (simp add: publish_def dispatch_internal_def Let_def)
qed

lemma lost_frame:
  "lost_tasks m (receive i b) = lost_tasks m b" "lost_tasks m (shutdown_begin b) = lost_tasks m b"
  "lost_tasks m (fst (unsubscribe i b)) = lost_tasks m b"
  "subscribe_kind k i f p b = Some b' \<Longrightarrow> lost_tasks m b' = lost_tasks m b"
  "shutdown_poll b = Some b' \<Longrightarrow> lost_tasks m b' = lost_tasks m b"
  by (auto simp: lost_tasks_def receive_def shutdown_begin_def unsubscribe_def remove_subscription_def unindex_sub_def
      subscribe_kind_def index_sub_def Let_def shutdown_poll_def split: option.split if_splits)

lemma lost_tasks_steps:
  "j < length (tasks b) \<Longrightarrow> lost_tasks m b \<Longrightarrow> lost_tasks m (task_done j b)"
  "j < length (tasks b) \<Longrightarrow> lost_tasks (Suc m) (task_panicked j b) = lost_tasks m b"
  by (auto simp: lost_tasks_def task_done_def task_panicked_def)

lemma steps_lost: "bus_steps iter b0 n b \<Longrightarrow> lost_tasks k b0 \<Longrightarrow> \<exists>m \<ge> k. lost_tasks m b"
proof (induction rule: bus_steps.induct)
  case (steps_panicked n b j)
  then obtain m where "k \<le> m" "lost_tasks m b" by auto
  moreover have "lost_tasks (Suc m) (task_panicked j b)" using lost_tasks_steps(2) [OF steps_panicked(2), of m] \<open>lost_tasks m b\<close> by simp
  ultimately show ?case by (intro exI [of _ "Suc m"]) simp
qed (auto simp: lost_publish lost_frame lost_tasks_steps)

text \<open>Once a handler has panicked, the shutdown never ends, whatever happens on the bus afterwards.\<close>

lemma panicked_handler_blocks_shutdown:
  assumes "bus_reach iter buf pol n b" and "j < length (tasks b)" and "bus_steps iter (task_panicked j b) n' b'"
  shows "shutdown_poll b' = None"
proof -
  have "lost_tasks 0 (bus_new buf pol)" by (simp add: lost_tasks_def bus_new_def)
  then obtain m where "lost_tasks m b" using steps_lost [OF assms(1) [unfolded bus_reach_def]] by blast
  then have "lost_tasks (Suc m) (task_panicked j b)" using lost_tasks_steps(2) [OF assms(2)] by simp
  then obtain m' where "Suc m \<le> m'" "lost_tasks m' b'" using steps_lost [OF assms(3)] by blast
  then show ?thesis by (simp add: shutdown_poll_def lost_tasks_def)
qed

text \<open>When no handler has panicked, the shutdown ends as soon as the running tasks have ended: the bus is then
  without subscriptions and every receiver, once it has read what is queued, is told that the channel has ended.\<close>

theorem shutdown_completes:
  assumes "bus_reach iter buf pol n b" and "lost_tasks 0 b"
  shows "\<exists>b'. shutdown_poll ((task_done 0 ^^ length (tasks b)) (shutdown_begin b)) = Some b' \<and> subs b' = Map.empty \<and>
    (\<forall>i ch. channels b' i = Some ch \<longrightarrow> snd (recv (ch\<lparr>queue := []\<rparr>)) = Ended)"
proof -
  have "in_flight b = k + length (tasks b) - k \<Longrightarrow> k \<le> length (tasks b) \<Longrightarrow>
      in_flight ((task_done 0 ^^ k) b) = length (tasks b) - k \<and> tasks ((task_done 0 ^^ k) b) = drop k (tasks b)" for k b
    by (induction k) (auto simp: task_done_def drop_Suc tl_drop)
  from this [of "shutdown_begin b" "length (tasks b)"]
  have flight: "in_flight ((task_done 0 ^^ length (tasks b)) (shutdown_begin b)) = 0"
    using assms(2) by (simp add: lost_tasks_def shutdown_begin_def)
  let ?b = "(task_done 0 ^^ length (tasks b)) (shutdown_begin b)"
  have "chan_inv buf ((task_done 0 ^^ k) (shutdown_begin b))" for k
    using reach_chan_inv [OF assms(1)] by (induction k) (simp_all add: chan_inv_frame)
  then have inv: "chan_inv buf ?b" .
  obtain b' where poll: "shutdown_poll ?b = Some b'" using flight by (simp add: shutdown_poll_def)
  then have none: "subs b' = Map.empty" by (auto simp: shutdown_poll_def split: if_splits)
  have "closed ch" if "channels b' i = Some ch" for i ch
    using chan_inv_poll [OF inv poll] none that by (simp add: chan_inv_def)
  then show ?thesis using poll none by (auto simp: recv_def)
qed

section \<open>Concrete runs\<close>

definition sample_bus :: "nat EventBus" where
  "sample_bus =
    the (subscribe_async 2 (of_type [97]) Critical (the (subscribe 1 any_filter Low (bus_new 1 DropOldest))))"

definition sample_event :: "nat EventEnvelope" where
  "sample_event = \<lparr>env_id = 9, env_timestamp = 0, env_source = System, event_type = [97], payload = 0\<rparr>"

lemma iter_law_sorted: "iter_law (sorted_list_of_set :: uuid set \<Rightarrow> uuid list)"
  by (simp add: iter_law_def)

lemma sample_bus_reach: "bus_reach sorted_list_of_set 1 DropOldest 2 sample_bus"
proof -
  let ?b1 = "the (subscribe 1 any_filter Low (bus_new 1 DropOldest)) :: nat EventBus"
  have "bus_reach sorted_list_of_set 1 DropOldest 0 (bus_new 1 DropOldest :: nat EventBus)"
    unfolding bus_reach_def by (rule steps_start)
  then have one: "bus_reach sorted_list_of_set 1 DropOldest (Suc 0) ?b1"
    unfolding bus_reach_def
    by (rule steps_subscribe [where i = 1 and k = ChannelHandler and f = any_filter and p = Low])
      (simp_all add: bus_new_def subscribe_def subscribe_kind_def Let_def)
  have "bus_reach sorted_list_of_set 1 DropOldest (Suc (Suc 0)) sample_bus"
    using one unfolding bus_reach_def
    by (rule steps_subscribe [where i = 2 and k = AsyncHandler and f = "of_type [97]" and p = Critical])
      (simp_all add: sample_bus_def bus_new_def subscribe_def subscribe_async_def subscribe_kind_def index_sub_def any_filter_def Let_def)
  then show ?thesis by (simp add: numeral_2_eq_2)
qed

lemma event_delivery_order_witness:
  "sorted_wrt (sub_before sample_bus) (snd (dispatch_internal sorted_list_of_set (\<lambda>_. []) sample_event sample_bus)) \<and>
   1 \<in> set (snd (dispatch_internal sorted_list_of_set (\<lambda>_. []) sample_event sample_bus)) \<and>
   sub_before sample_bus 2 1"
proof -
  have "\<not> bus_shutdown sample_bus" "sub_matches sample_bus sample_event 1" "sub_before sample_bus 2 1"
    by (simp_all add: sample_bus_def bus_new_def subscribe_def subscribe_async_def subscribe_kind_def index_sub_def any_filter_def
        of_type_def Let_def sub_matches_def filter_matches_def sub_before_def)
  then show ?thesis
    using event_delivery_order [OF sample_bus_reach _ iter_law_sorted, of "\<lambda>_. []" sample_event] by simp
qed

lemma channel_queue_bounded_witness: "length (queue (channel_new 1 :: nat Channel)) \<le> max 1 1"
  by (rule channel_queue_bounded [OF sample_bus_reach, of 1])
    (simp add: sample_bus_def bus_new_def subscribe_def subscribe_async_def subscribe_kind_def index_sub_def any_filter_def of_type_def Let_def)

lemma shutdown_completes_witness:
  "\<exists>b'. shutdown_poll ((task_done 0 ^^ length (tasks (fst (publish sorted_list_of_set (\<lambda>_. []) sample_event sample_bus))))
     (shutdown_begin (fst (publish sorted_list_of_set (\<lambda>_. []) sample_event sample_bus)))) = Some b' \<and> subs b' = Map.empty"
proof -
  have "lost_tasks 0 sample_bus"
    by (simp add: sample_bus_def bus_new_def subscribe_def subscribe_async_def subscribe_kind_def index_sub_def any_filter_def of_type_def
        Let_def lost_tasks_def)
  then have "lost_tasks 0 (fst (publish sorted_list_of_set (\<lambda>_. []) sample_event sample_bus))" by (simp add: lost_publish)
  moreover have "bus_reach sorted_list_of_set 1 DropOldest 2 (fst (publish sorted_list_of_set (\<lambda>_. []) sample_event sample_bus))"
    using steps_publish [OF sample_bus_reach [unfolded bus_reach_def]] unfolding bus_reach_def .
  ultimately show ?thesis using shutdown_completes by blast
qed

end
