(* ===== verification/State_Rows.thy ===== *)
theory State_Rows
  imports State_Store "HOL-Library.List_Lexorder"
begin

text \<open>
  The other tables of the state database (\<open>src/crates/orchid-storage/src/state/types.rs\<close>, \<open>database.rs\<close>): widget
  instances, workspaces, file tags, the session, the cache with its byte count, the notification centre kept in the
  cache; and the schema migrations that run when the database is opened (\<open>migrations.rs\<close>).  Serialisation (\<open>bincode\<close>)
  is a parameter: what it writes for a value, and the value and the number of bytes it reads back.
\<close>

section \<open>Rows\<close>

record StoredPosition =
  gp_col :: u16
  gp_row :: u16

datatype StoredSize = Small | Medium | Large | ExtraLarge | Free u16 u16

datatype LifecycleState = LifeActive | LifeSleeping | LifeUnloaded

text \<open>The coordinates are \<open>f32\<close>, kept as their bits.\<close>

record PixelRect =
  rect_x :: u32
  rect_y :: u32
  rect_width :: u32
  rect_height :: u32

datatype WindowState = WinNormal | WinMaximized | WinMinimized

datatype WindowPlacement = GridPlacement | Floating (fl_bounds: PixelRect) (fl_restored: PixelRect) (fl_state: WindowState)

definition floating_normal :: "PixelRect \<Rightarrow> WindowPlacement" where
  "floating_normal b = Floating b b WinNormal"

fun is_windowed :: "WindowPlacement \<Rightarrow> bool" where
  "is_windowed (Floating _ _ _) = True"
| "is_windowed GridPlacement = False"

fun is_visible_floating :: "WindowPlacement \<Rightarrow> bool" where
  "is_visible_floating (Floating _ _ s) = (s = WinNormal \<or> s = WinMaximized)"
| "is_visible_floating GridPlacement = False"

fun visible_bounds :: "WindowPlacement \<Rightarrow> PixelRect option" where
  "visible_bounds (Floating b _ WinNormal) = Some b"
| "visible_bounds (Floating b _ WinMaximized) = Some b"
| "visible_bounds _ = None"

record StoredWidget =
  wi_id :: uuid
  wi_widget_type :: ustring
  wi_workspace_id :: uuid
  wi_position :: StoredPosition
  wi_size :: StoredSize
  wi_lifecycle :: LifecycleState
  wi_placement :: WindowPlacement
  wi_config :: bytes
  wi_created_at :: int
  wi_updated_at :: int

record Workspace =
  ws_id :: uuid
  ws_name :: ustring
  ws_ordinal :: u8
  ws_wallpaper :: "ustring option"
  ws_created_at :: int
  ws_updated_at :: int

datatype ColorLabel = Red | Orange | Yellow | Green | Blue | Purple | Gray

record FileTag =
  ft_path :: ustring
  ft_tags :: "ustring list"
  ft_color_label :: "ColorLabel option"
  ft_starred :: bool
  ft_updated_at :: int

datatype CacheKind = ThumbnailImage | PdfPagePreview | FileMetadata | SearchSnippet | NotificationCenter

type_synonym cache_key = "256 word"

record CacheEntry =
  ce_key :: cache_key
  ce_kind :: CacheKind
  ce_created_at :: int
  ce_last_access_at :: int
  ce_size_bytes :: u64
  ce_data :: bytes

record NotificationCenterItem =
  nc_id :: ustring
  nc_title :: ustring
  nc_body :: ustring
  nc_time_label :: ustring
  nc_severity :: "32 word"

type_synonym NotificationCenterState = "NotificationCenterItem list"

datatype StorageError =
  MigrationFailed nat nat ustring
| UnsupportedSchemaVersion nat nat
| BincodeEncode ustring
| BincodeDecode ustring

section \<open>Operations on one table\<close>

text \<open>Widgets.\<close>

definition get_widget :: "('w, uuid, StoredWidget) table_ops \<Rightarrow> uuid \<Rightarrow> 'w \<Rightarrow> StoredWidget option" where
  "get_widget T i t = t_get T t i"

definition widgets_for_workspace :: "('w, uuid, StoredWidget) table_ops \<Rightarrow> uuid \<Rightarrow> 'w \<Rightarrow> StoredWidget list" where
  "widgets_for_workspace T ws t = filter (\<lambda>w. wi_workspace_id w = ws) (map snd (t_iter T t))"

definition list_all_widgets :: "('w, uuid, StoredWidget) table_ops \<Rightarrow> 'w \<Rightarrow> StoredWidget list" where
  "list_all_widgets T t = map snd (t_iter T t)"

definition put_widget :: "('w, uuid, StoredWidget) table_ops \<Rightarrow> StoredWidget \<Rightarrow> 'w \<Rightarrow> 'w" where
  "put_widget T w t = t_insert T (wi_id w) w t"

definition delete_widget :: "('w, uuid, StoredWidget) table_ops \<Rightarrow> uuid \<Rightarrow> 'w \<Rightarrow> 'w \<times> bool" where
  "delete_widget T i t = (t_remove T i t, t_get T t i \<noteq> None)"

text \<open>Workspaces.\<close>

definition get_workspace :: "('w, uuid, Workspace) table_ops \<Rightarrow> uuid \<Rightarrow> 'w \<Rightarrow> Workspace option" where
  "get_workspace T i t = t_get T t i"

definition list_workspaces :: "('w, uuid, Workspace) table_ops \<Rightarrow> 'w \<Rightarrow> Workspace list" where
  "list_workspaces T t = map snd (t_iter T t)"

definition put_workspace :: "('w, uuid, Workspace) table_ops \<Rightarrow> Workspace \<Rightarrow> 'w \<Rightarrow> 'w" where
  "put_workspace T w t = t_insert T (ws_id w) w t"

definition delete_workspace :: "('w, uuid, Workspace) table_ops \<Rightarrow> uuid \<Rightarrow> 'w \<Rightarrow> 'w \<times> bool" where
  "delete_workspace T i t = (t_remove T i t, t_get T t i \<noteq> None)"

text \<open>File tags, under their own path.\<close>

definition get_file_tag :: "('f, ustring, FileTag) table_ops \<Rightarrow> ustring \<Rightarrow> 'f \<Rightarrow> FileTag option" where
  "get_file_tag T p t = t_get T t p"

definition put_file_tag :: "('f, ustring, FileTag) table_ops \<Rightarrow> FileTag \<Rightarrow> 'f \<Rightarrow> 'f" where
  "put_file_tag T g t = t_insert T (ft_path g) g t"

definition delete_file_tag :: "('f, ustring, FileTag) table_ops \<Rightarrow> ustring \<Rightarrow> 'f \<Rightarrow> 'f \<times> bool" where
  "delete_file_tag T p t = (t_remove T p t, t_get T t p \<noteq> None)"

section \<open>The cache\<close>

definition get_cache :: "('c, cache_key, CacheEntry) table_ops \<Rightarrow> cache_key \<Rightarrow> 'c \<Rightarrow> CacheEntry option" where
  "get_cache T k t = t_get T t k"

definition put_cache :: "('c, cache_key, CacheEntry) table_ops \<Rightarrow> CacheEntry \<Rightarrow> 'c \<Rightarrow> 'c" where
  "put_cache T e t = t_insert T (ce_key e) e t"

definition saturating_add_u64 :: "u64 \<Rightarrow> u64 \<Rightarrow> u64" where
  "saturating_add_u64 a b = (if 2 ^ 64 \<le> unat a + unat b then 2 ^ 64 - 1 else a + b)"

definition total_cache_bytes :: "('c, cache_key, CacheEntry) table_ops \<Rightarrow> 'c \<Rightarrow> u64" where
  "total_cache_bytes T t = foldl (\<lambda>n (_, e). saturating_add_u64 n (ce_size_bytes e)) 0 (t_iter T t)"

fun remove_keys :: "('c, cache_key, CacheEntry) table_ops \<Rightarrow> cache_key list \<Rightarrow> 'c \<Rightarrow> nat \<Rightarrow> 'c \<times> nat" where
  "remove_keys T [] t removed = (t, removed)"
| "remove_keys T (k # ks) t removed =
    remove_keys T ks (t_remove T k t) (if t_get T t k \<noteq> None then removed + 1 else removed)"

definition evict_cache_older_than :: "('c, cache_key, CacheEntry) table_ops \<Rightarrow> int \<Rightarrow> 'c \<Rightarrow> 'c \<times> nat" where
  "evict_cache_older_than T older_than t =
    (let to_evict = map fst (filter (\<lambda>(_, v). ce_last_access_at v < older_than) (t_iter T t)) in remove_keys T to_evict t 0)"

text \<open>The key \<open>orchid.notif.center.v1\<close>, filled up with zeros.\<close>

definition NOTIFICATION_CENTER_CACHE_KEY :: cache_key where
  "NOTIFICATION_CENTER_CACHE_KEY =
    word_rcat ([111, 114, 99, 104, 105, 100, 46, 110, 111, 116, 105, 102, 46, 99, 101, 110, 116, 101, 114, 46, 118, 49,
      0, 0, 0, 0, 0, 0, 0, 0, 0, 0] :: u8 list)"

definition put_notification_center ::
  "(NotificationCenterState \<Rightarrow> ustring + bytes) \<Rightarrow> int \<Rightarrow> ('c, cache_key, CacheEntry) table_ops \<Rightarrow> NotificationCenterState \<Rightarrow> 'c \<Rightarrow>
   StorageError + 'c"
where
  "put_notification_center enc now T st t =
    (case enc st of
       Inl m \<Rightarrow> Inl (BincodeEncode m)
     | Inr bs \<Rightarrow>
         Inr (put_cache T \<lparr>ce_key = NOTIFICATION_CENTER_CACHE_KEY, ce_kind = NotificationCenter, ce_created_at = now,
           ce_last_access_at = now, ce_size_bytes = of_nat (length bs), ce_data = bs\<rparr> t))"

definition get_notification_center ::
  "(bytes \<Rightarrow> ustring + NotificationCenterState \<times> nat) \<Rightarrow> ('c, cache_key, CacheEntry) table_ops \<Rightarrow> 'c \<Rightarrow>
   StorageError + NotificationCenterState option"
where
  "get_notification_center dec T t =
    (case get_cache T NOTIFICATION_CENTER_CACHE_KEY t of
       None \<Rightarrow> Inr None
     | Some e \<Rightarrow>
         if ce_kind e \<noteq> NotificationCenter then Inr None
         else (case dec (ce_data e) of Inl m \<Rightarrow> Inl (BincodeDecode m) | Inr (st, _) \<Rightarrow> Inr (Some st)))"

section \<open>Schema migrations\<close>

record WidgetInstanceV1 =
  v1_id :: uuid
  v1_widget_type :: ustring
  v1_workspace_id :: uuid
  v1_position :: StoredPosition
  v1_size :: StoredSize
  v1_lifecycle :: LifecycleState
  v1_config :: bytes
  v1_created_at :: int
  v1_updated_at :: int

definition widget_from_v1 :: "WidgetInstanceV1 \<Rightarrow> StoredWidget" where
  "widget_from_v1 v =
    \<lparr>wi_id = v1_id v, wi_widget_type = v1_widget_type v, wi_workspace_id = v1_workspace_id v,
     wi_position = v1_position v, wi_size = v1_size v, wi_lifecycle = v1_lifecycle v, wi_placement = GridPlacement,
     wi_config = v1_config v, wi_created_at = v1_created_at v, wi_updated_at = v1_updated_at v\<rparr>"

record widget_codec =
  decode_v1 :: "bytes \<Rightarrow> ustring + WidgetInstanceV1 \<times> nat"
  decode_widget :: "bytes \<Rightarrow> ustring + StoredWidget \<times> nat"
  encode_widget :: "StoredWidget \<Rightarrow> ustring + bytes"

definition upgrade_row :: "widget_codec \<Rightarrow> bytes \<Rightarrow> StorageError + StoredWidget" where
  "upgrade_row C bs =
    (let current =
       (case decode_widget C bs of
          Inr (row, _) \<Rightarrow> Inr row
        | Inl e \<Rightarrow> Inl (MigrationFailed 1 2 (lit ''decode widget row: '' @ e)))
     in case decode_v1 C bs of
          Inr (v1, read) \<Rightarrow> if read = length bs then Inr (widget_from_v1 v1) else current
        | Inl _ \<Rightarrow> current)"

fun upgrade_rows :: "widget_codec \<Rightarrow> (uuid \<times> bytes) list \<Rightarrow> StorageError + (uuid \<times> bytes) list" where
  "upgrade_rows C [] = Inr []"
| "upgrade_rows C ((_, bs) # rows) =
    (case upgrade_row C bs of
       Inl e \<Rightarrow> Inl e
     | Inr v2 \<Rightarrow>
         (case encode_widget C v2 of
            Inl e \<Rightarrow> Inl (BincodeEncode e)
          | Inr bytes \<Rightarrow> map_sum id ((#) (wi_id v2, bytes)) (upgrade_rows C rows)))"

definition migrate_v1_to_v2_window_placement :: "widget_codec \<Rightarrow> ('b, uuid, bytes) table_ops \<Rightarrow> 'b \<Rightarrow> StorageError + 'b" where
  "migrate_v1_to_v2_window_placement C T t =
    map_sum id (foldl (\<lambda>t (k, bs). t_insert T k bs t) t) (upgrade_rows C (t_iter T t))"

definition CURRENT_SCHEMA_VERSION :: nat where
  "CURRENT_SCHEMA_VERSION = 2"

record 'b Migration =
  from_version :: nat
  to_version :: nat
  description :: ustring
  run_step :: "'b \<Rightarrow> StorageError + 'b"

definition available_migrations :: "widget_codec \<Rightarrow> ('b, uuid, bytes) table_ops \<Rightarrow> 'b Migration list" where
  "available_migrations C T =
    [\<lparr>from_version = 0, to_version = 1, description = lit ''initial schema'', run_step = Inr\<rparr>,
     \<lparr>from_version = 1, to_version = 2, description = lit ''widget WindowPlacement field'',
      run_step = migrate_v1_to_v2_window_placement C T\<rparr>]"

fun storage_error_text :: "StorageError \<Rightarrow> ustring" where
  "storage_error_text (MigrationFailed f t r) =
    lit ''migration from v'' @ nat_text f @ lit '' to v'' @ nat_text t @ lit '' failed: '' @ r"
| "storage_error_text (UnsupportedSchemaVersion f m) =
    lit ''database schema version '' @ nat_text f @ lit '' is newer than supported maximum '' @ nat_text m"
| "storage_error_text (BincodeEncode e) = lit ''bincode encode error: '' @ e"
| "storage_error_text (BincodeDecode e) = lit ''bincode decode error: '' @ e"

text \<open>
  The loop of \<open>migrate\<close>.  Every step commits its own transaction, so the database is returned with an error too.
\<close>

partial_function (option) migrate_loop ::
  "'b Migration list \<Rightarrow> 'b \<Rightarrow> nat \<Rightarrow> ('b \<times> (StorageError + nat)) option"
where
  "migrate_loop available db version =
    (if CURRENT_SCHEMA_VERSION \<le> version then Some (db, Inr version)
     else case find (\<lambda>m. from_version m = version) available of
            None \<Rightarrow>
              Some (db, Inl (MigrationFailed version (version + 1) (lit ''no migration registered from v'' @ nat_text version)))
          | Some m \<Rightarrow>
              (case run_step m db of
                 Inl e \<Rightarrow> Some (db, Inl (MigrationFailed (from_version m) (to_version m) (storage_error_text e)))
               | Inr db' \<Rightarrow> migrate_loop available db' (to_version m)))"

definition migrate ::
  "widget_codec \<Rightarrow> ('b, uuid, bytes) table_ops \<Rightarrow> 'b \<Rightarrow> nat \<Rightarrow> ('b \<times> (StorageError + nat)) option"
where
  "migrate C T db current =
    (if CURRENT_SCHEMA_VERSION < current then Some (db, Inl (UnsupportedSchemaVersion current CURRENT_SCHEMA_VERSION))
     else migrate_loop (available_migrations C T) db current)"

record SchemaMeta =
  sm_version :: nat
  sm_created_at :: int
  sm_last_opened_at :: int
  sm_orchid_version :: ustring

record 'b SchemaDb =
  schema_meta :: "SchemaMeta option"
  widget_blobs :: 'b

definition initialise ::
  "widget_codec \<Rightarrow> ('b, uuid, bytes) table_ops \<Rightarrow> int \<Rightarrow> ustring \<Rightarrow> 'b SchemaDb \<Rightarrow> ('b SchemaDb \<times> (StorageError + nat)) option"
where
  "initialise C T now orchid_version db =
    (case schema_meta db of
       None \<Rightarrow>
         Some (db\<lparr>schema_meta := Some \<lparr>sm_version = CURRENT_SCHEMA_VERSION, sm_created_at = now, sm_last_opened_at = now,
                    sm_orchid_version = orchid_version\<rparr>\<rparr>, Inr CURRENT_SCHEMA_VERSION)
     | Some meta \<Rightarrow>
         (case migrate C T (widget_blobs db) (sm_version meta) of
            None \<Rightarrow> None
          | Some (blobs, Inl e) \<Rightarrow> Some (db\<lparr>widget_blobs := blobs\<rparr>, Inl e)
          | Some (blobs, Inr version) \<Rightarrow>
              Some (\<lparr>schema_meta = Some (meta\<lparr>sm_version := version, sm_last_opened_at := now, sm_orchid_version := orchid_version\<rparr>),
                     widget_blobs = blobs\<rparr>, Inr version)))"

section \<open>Properties of the tables\<close>

lemma map_fst_filter_distinct:
  "redb_table T \<Longrightarrow> distinct (map fst (filter P (t_iter T t)))"
  by (rule distinct_map_filter [OF redb_table.iter_distinct])

lemma remove_keys_state:
  assumes "redb_table T" and "distinct ks" and "\<And>k. k \<in> set ks \<Longrightarrow> t_get T t k \<noteq> None"
    and "remove_keys T ks t n = (t', n')"
  shows "n' = n + length ks \<and> (\<forall>k. t_get T t' k = (if k \<in> set ks then None else t_get T t k))"
  using assms(2-)
proof (induction ks arbitrary: t n)
  case Nil
  then show ?case by simp
next
  case (Cons k ks)
  have present: "t_get T t k \<noteq> None" using Cons.prems(2) by simp
  have step: "remove_keys T ks (t_remove T k t) (n + 1) = (t', n')"
    using Cons.prems(3) present by simp
  have "t_get T (t_remove T k t) j \<noteq> None" if "j \<in> set ks" for j
    using that Cons.prems(1,2) by (auto simp: redb_table.get_remove [OF assms(1)])
  from Cons.IH [OF _ this step] show ?case
    using Cons.prems(1) by (auto simp: redb_table.get_remove [OF assms(1)])
qed

lemma saturating_add_min: "unat (saturating_add_u64 a b) = min (2 ^ 64 - 1) (unat a + unat b)"
proof (cases "2 ^ 64 \<le> unat a + unat b")
  case True
  then show ?thesis by (simp add: saturating_add_u64_def)
next
  case False
  then have "unat (a + b) = unat a + unat b" by (subst unat_add_lem [symmetric]) simp
  then show ?thesis using False by (simp add: saturating_add_u64_def)
qed

lemma saturating_sum:
  "unat (foldl (\<lambda>n (_, e). saturating_add_u64 n (f e)) a xs) = min (2 ^ 64 - 1) (unat a + sum_list (map (\<lambda>(_, e). unat (f e)) xs))"
proof (induction xs arbitrary: a)
  case Nil
  have "unat a < 2 ^ 64" using unsigned_less [of a] by simp
  then show ?case by simp
next
  case (Cons x xs)
  then show ?case by (cases x) (simp add: saturating_add_min)
qed

text \<open>The total of the cache is the sum of the recorded sizes, held at the largest \<open>u64\<close> where the sum is larger:
  it never wraps around.\<close>

theorem total_cache_bytes_saturates:
  "unat (total_cache_bytes T t) = min (2 ^ 64 - 1) (\<Sum>(_, e) \<leftarrow> t_iter T t. unat (ce_size_bytes e))"
  unfolding total_cache_bytes_def saturating_sum by simp

text \<open>Evicting the cache removes exactly the entries last used before the given time, and returns their number.\<close>

theorem evict_cache_exact:
  assumes "redb_table T" and "evict_cache_older_than T older_than t = (t', n)"
  shows "(\<forall>k. t_get T t' k =
      (case t_get T t k of Some e \<Rightarrow> if ce_last_access_at e < older_than then None else Some e | None \<Rightarrow> None)) \<and>
    n = length (filter (\<lambda>(_, e). ce_last_access_at e < older_than) (t_iter T t))"
proof -
  let ?ks = "map fst (filter (\<lambda>(_, v). ce_last_access_at v < older_than) (t_iter T t))"
  have mem: "k \<in> set ?ks \<longleftrightarrow> (\<exists>e. t_get T t k = Some e \<and> ce_last_access_at e < older_than)" for k
    by (force simp: redb_table.iter_get [OF assms(1)])
  have run: "remove_keys T ?ks t 0 = (t', n)" using assms(2) by (simp add: evict_cache_older_than_def)
  have present: "t_get T t k \<noteq> None" if "k \<in> set ?ks" for k using that unfolding mem by auto
  note state = remove_keys_state [OF assms(1) map_fst_filter_distinct [OF assms(1)] present run]
  then have r: "n = length ?ks" "\<And>k. t_get T t' k = (if k \<in> set ?ks then None else t_get T t k)" by auto
  show ?thesis unfolding r mem by (auto split: option.splits)
qed

definition sample_cache :: "(cache_key, CacheEntry) omap" where
  "sample_cache = put_cache list_table
     \<lparr>ce_key = 1, ce_kind = ThumbnailImage, ce_created_at = 0, ce_last_access_at = 5, ce_size_bytes = 10, ce_data = []\<rparr> omap_empty"

lemma evict_cache_exact_witness: "t_get list_table (fst (evict_cache_older_than list_table 6 sample_cache)) 1 = None"
proof -
  have "t_get list_table sample_cache 1 =
     Some \<lparr>ce_key = 1, ce_kind = ThumbnailImage, ce_created_at = 0, ce_last_access_at = 5, ce_size_bytes = 10, ce_data = []\<rparr>"
    by (simp add: sample_cache_def put_cache_def)
  then show ?thesis
    using evict_cache_exact [OF list_table.redb_table_axioms surjective_pairing, of 6 sample_cache] by simp
qed

text \<open>The notification list that is saved is the list that is loaded, whatever else the cache holds.\<close>

theorem notification_center_roundtrip:
  assumes "redb_table T" and "enc st = Inr bs" and "dec bs = Inr (st, length bs)"
  shows "\<exists>t'. put_notification_center enc now T st t = Inr t' \<and> get_notification_center dec T t' = Inr (Some st)"
  using assms
  by (simp add: put_notification_center_def get_notification_center_def put_cache_def get_cache_def
      redb_table.get_insert [OF assms(1)])

lemma notification_center_roundtrip_witness:
  "\<exists>t'. put_notification_center (\<lambda>st. Inr []) 0 list_table [] sample_cache = Inr t' \<and>
     get_notification_center (\<lambda>bs. Inr ([], 0)) list_table t' = Inr (Some [])"
  by (rule notification_center_roundtrip [OF list_table.redb_table_axioms]) simp_all

section \<open>Properties of the migrations\<close>

text \<open>The table after the upgraded rows were written back: every row under the id of the widget it holds.\<close>

lemma foldl_insert_get:
  assumes "redb_table T" and "distinct (map fst rows)"
  shows "t_get T (foldl (\<lambda>t (k, bs). t_insert T k bs t) t rows) k =
    (case map_of rows k of Some bs \<Rightarrow> Some bs | None \<Rightarrow> t_get T t k)"
  using assms(2)
proof (induction rows arbitrary: t)
  case (Cons r rows)
  obtain j bs where r: "r = (j, bs)" by (cases r)
  have "map_of rows j = None" using Cons.prems r by (simp add: map_of_eq_None_iff)
  then show ?case using Cons r by (auto simp: redb_table.get_insert [OF assms(1)] split: option.splits)
qed simp

text \<open>A row of version 1, and a row which was already upgraded.\<close>

definition v1_row :: "widget_codec \<Rightarrow> uuid \<Rightarrow> bytes \<Rightarrow> bool" where
  "v1_row C k bs \<longleftrightarrow>
    (\<exists>v new. decode_v1 C bs = Inr (v, length bs) \<and> v1_id v = k \<and> encode_widget C (widget_from_v1 v) = Inr new)"

definition current_row :: "widget_codec \<Rightarrow> uuid \<Rightarrow> bytes \<Rightarrow> bool" where
  "current_row C k bs \<longleftrightarrow>
    (\<exists>w n. decode_widget C bs = Inr (w, n) \<and> wi_id w = k \<and> encode_widget C w = Inr bs \<and>
       (\<forall>v. decode_v1 C bs \<noteq> Inr (v, length bs)))"

text \<open>What is encoded decodes to the same widget.\<close>

definition codec_roundtrip :: "widget_codec \<Rightarrow> bool" where
  "codec_roundtrip C \<longleftrightarrow> (\<forall>w bs. encode_widget C w = Inr bs \<longrightarrow> decode_widget C bs = Inr (w, length bs))"

definition upgraded_bytes :: "widget_codec \<Rightarrow> bytes \<Rightarrow> bytes" where
  "upgraded_bytes C bs =
    (case upgrade_row C bs of Inl _ \<Rightarrow> bs | Inr w \<Rightarrow> (case encode_widget C w of Inl _ \<Rightarrow> bs | Inr new \<Rightarrow> new))"

lemma upgrade_row_v1: "decode_v1 C bs = Inr (v, length bs) \<Longrightarrow> upgrade_row C bs = Inr (widget_from_v1 v)"
  by (simp add: upgrade_row_def)

lemma upgrade_row_current: "current_row C k bs \<Longrightarrow> upgraded_bytes C bs = bs"
  by (auto simp: current_row_def upgraded_bytes_def upgrade_row_def Let_def split: sum.splits)

lemma upgrade_row_ok:
  "v1_row C k bs \<or> current_row C k bs \<Longrightarrow>
   \<exists>w. upgrade_row C bs = Inr w \<and> wi_id w = k \<and> encode_widget C w = Inr (upgraded_bytes C bs)"
  by (auto simp: v1_row_def current_row_def upgraded_bytes_def upgrade_row_def widget_from_v1_def Let_def split: sum.splits)

lemma upgrade_rows_ok:
  "(\<And>k bs. (k, bs) \<in> set rows \<Longrightarrow> v1_row C k bs \<or> current_row C k bs) \<Longrightarrow>
   upgrade_rows C rows = Inr (map (\<lambda>(k, bs). (k, upgraded_bytes C bs)) rows)"
proof (induction rows)
  case (Cons r rows)
  obtain k bs where r: "r = (k, bs)" by (cases r)
  obtain w where "upgrade_row C bs = Inr w" "wi_id w = k" "encode_widget C w = Inr (upgraded_bytes C bs)"
    using upgrade_row_ok [OF Cons.prems [of k bs]] r by auto
  then show ?case using Cons r by simp
qed simp

lemma migrate_v2_rows:
  assumes T: "redb_table T"
    and rows: "\<And>k bs. t_get T t k = Some bs \<Longrightarrow> v1_row C k bs \<or> current_row C k bs"
  shows "\<exists>t'. migrate_v1_to_v2_window_placement C T t = Inr t' \<and> (\<forall>k. t_get T t' k = map_option (upgraded_bytes C) (t_get T t k))"
proof -
  let ?up = "map (\<lambda>(k, bs). (k, upgraded_bytes C bs)) (t_iter T t)"
  have "upgrade_rows C (t_iter T t) = Inr ?up"
    by (rule upgrade_rows_ok) (simp add: rows redb_table.iter_get [OF T])
  moreover have d: "distinct (map fst ?up)"
    using redb_table.iter_distinct [OF T, of t] by (simp add: split_def comp_def)
  moreover have "map_of (t_iter T t) k = t_get T t k" for k
    using map_of_eq_Some_iff [OF redb_table.iter_distinct [OF T]] redb_table.iter_get [OF T]
    by (metis option.exhaust)
  then have "map_of ?up k = map_option (upgraded_bytes C) (t_get T t k)" for k
    by (simp add: map_of_map)
  ultimately show ?thesis
    by (auto simp: migrate_v1_to_v2_window_placement_def foldl_insert_get [OF T d] split: option.splits)
qed

lemmas migrate_simps = migrate_def available_migrations_def CURRENT_SCHEMA_VERSION_def migrate_loop.simps


lemma migrate_result:
  "migrate C T db current =
    Some (if 2 < current then (db, Inl (UnsupportedSchemaVersion current 2))
          else if current = 2 then (db, Inr 2)
          else (case migrate_v1_to_v2_window_placement C T db of
                  Inl e \<Rightarrow> (db, Inl (MigrationFailed 1 2 (storage_error_text e)))
                | Inr db' \<Rightarrow> (db', Inr 2)))"
proof -
  consider "2 < current" | "current = 2" | "current = 0" | "current = 1" by linarith
  then show ?thesis by cases (simp_all add: migrate_simps split: sum.split)
qed

text \<open>The migration loop ends on every database and from every version: it reaches the current schema, or it
  returns an error and leaves the rows as they were.\<close>

theorem migrate_terminates:
  "\<exists>db' r. migrate C T db current = Some (db', r) \<and> (case r of Inr v \<Rightarrow> v = CURRENT_SCHEMA_VERSION | Inl _ \<Rightarrow> db' = db)"
  unfolding migrate_result CURRENT_SCHEMA_VERSION_def by (auto split: sum.splits)

text \<open>
  C21.  Opening a database of an older schema rewrites every widget row of version 1 under its id: the new row reads as a
  widget that has each field of the old one and is placed on the grid.  It leaves the rows that are already upgraded alone;
  opening it again after a crash between the migration and the write of the schema version changes no row.
\<close>

theorem initialise_upgrades_rows:
  assumes T: "redb_table T" and C: "codec_roundtrip C" and m: "schema_meta db = Some m" "sm_version m < 2"
    and rows: "\<And>k bs. t_get T (widget_blobs db) k = Some bs \<Longrightarrow>
      v1_row C k bs \<and> current_row C k (upgraded_bytes C bs) \<or> current_row C k bs"
  shows "\<exists>db'. initialise C T now ver db = Some (db', Inr CURRENT_SCHEMA_VERSION) \<and>
    schema_meta db' = Some (m\<lparr>sm_version := 2, sm_last_opened_at := now, sm_orchid_version := ver\<rparr>) \<and>
    (\<forall>k. case t_get T (widget_blobs db) k of
       None \<Rightarrow> t_get T (widget_blobs db') k = None
     | Some bs \<Rightarrow>
         (\<forall>v. decode_v1 C bs = Inr (v, length bs) \<longrightarrow>
            (\<exists>bs' w. t_get T (widget_blobs db') k = Some bs' \<and> decode_widget C bs' = Inr (w, length bs') \<and>
               wi_id w = v1_id v \<and> wi_widget_type w = v1_widget_type v \<and> wi_workspace_id w = v1_workspace_id v \<and>
               wi_position w = v1_position v \<and> wi_size w = v1_size v \<and> wi_lifecycle w = v1_lifecycle v \<and>
               wi_config w = v1_config v \<and> wi_created_at w = v1_created_at v \<and> wi_updated_at w = v1_updated_at v \<and>
               wi_placement w = GridPlacement)) \<and>
         ((\<forall>v. decode_v1 C bs \<noteq> Inr (v, length bs)) \<longrightarrow> t_get T (widget_blobs db') k = Some bs)) \<and>
    (\<exists>db''. initialise C T now' ver (db\<lparr>widget_blobs := widget_blobs db'\<rparr>) = Some (db'', Inr CURRENT_SCHEMA_VERSION) \<and>
       (\<forall>k. t_get T (widget_blobs db'') k = t_get T (widget_blobs db') k))"
proof -
  obtain t' where t': "migrate_v1_to_v2_window_placement C T (widget_blobs db) = Inr t'"
      "\<And>k. t_get T t' k = map_option (upgraded_bytes C) (t_get T (widget_blobs db) k)"
    using migrate_v2_rows [OF T, of "widget_blobs db" C] rows by blast
  have again: "current_row C k bs" if "t_get T t' k = Some bs" for k bs
    using that rows [of k] upgrade_row_current unfolding t'(2) by fastforce
  obtain t'' where t'': "migrate_v1_to_v2_window_placement C T t' = Inr t''"
      "\<And>k. t_get T t'' k = map_option (upgraded_bytes C) (t_get T t' k)"
    using migrate_v2_rows [OF T, of t' C] again by blast
  have same: "t_get T t'' k = t_get T t' k" for k
    unfolding t''(2) using again [of k] by (cases "t_get T t' k") (auto simp: upgrade_row_current)
  have row: "case t_get T (widget_blobs db) k of
       None \<Rightarrow> t_get T t' k = None
     | Some bs \<Rightarrow>
         (\<forall>v. decode_v1 C bs = Inr (v, length bs) \<longrightarrow>
            (\<exists>bs' w. t_get T t' k = Some bs' \<and> decode_widget C bs' = Inr (w, length bs') \<and>
               wi_id w = v1_id v \<and> wi_widget_type w = v1_widget_type v \<and> wi_workspace_id w = v1_workspace_id v \<and>
               wi_position w = v1_position v \<and> wi_size w = v1_size v \<and> wi_lifecycle w = v1_lifecycle v \<and>
               wi_config w = v1_config v \<and> wi_created_at w = v1_created_at v \<and> wi_updated_at w = v1_updated_at v \<and>
               wi_placement w = GridPlacement)) \<and>
         ((\<forall>v. decode_v1 C bs \<noteq> Inr (v, length bs)) \<longrightarrow> t_get T t' k = Some bs)" for k
  proof (cases "t_get T (widget_blobs db) k")
    case (Some bs)
    have get: "t_get T t' k = Some (upgraded_bytes C bs)" by (simp add: t'(2) Some)
    show ?thesis
    proof (cases "\<exists>v. decode_v1 C bs = Inr (v, length bs)")
      case True
      then obtain v where v: "decode_v1 C bs = Inr (v, length bs)" by blast
      then obtain new where new: "encode_widget C (widget_from_v1 v) = Inr new"
        using rows [OF Some] by (auto simp: v1_row_def current_row_def)
      then have "upgraded_bytes C bs = new" by (simp add: upgraded_bytes_def upgrade_row_v1 [OF v])
      moreover have "decode_widget C new = Inr (widget_from_v1 v, length new)" using C new by (simp add: codec_roundtrip_def)
      ultimately show ?thesis using v get Some by (simp add: widget_from_v1_def)
    next
      case False
      then have "current_row C k bs" using rows [OF Some] by (auto simp: v1_row_def)
      then show ?thesis using False get Some upgrade_row_current by auto
    qed
  qed (simp add: t'(2))
  have v: "\<not> 2 < sm_version m" "sm_version m \<noteq> 2" using m(2) by simp_all
  let ?m = "m\<lparr>sm_version := 2, sm_last_opened_at := now, sm_orchid_version := ver\<rparr>"
  let ?db' = "\<lparr>schema_meta = Some ?m, widget_blobs = t'\<rparr>"
  have first: "initialise C T now ver db = Some (?db', Inr CURRENT_SCHEMA_VERSION)"
    using m(1) t'(1) v by (simp add: initialise_def migrate_result CURRENT_SCHEMA_VERSION_def)
  have "\<exists>db''. initialise C T now' ver (db\<lparr>widget_blobs := t'\<rparr>) = Some (db'', Inr CURRENT_SCHEMA_VERSION) \<and>
      (\<forall>k. t_get T (widget_blobs db'') k = t_get T t' k)"
    using m(1) t''(1) v same by (simp add: initialise_def migrate_result CURRENT_SCHEMA_VERSION_def)
  with first row show ?thesis by (intro exI [of _ ?db']) (simp only: SchemaDb.select_convs simp_thms)
qed

definition sample_v1 :: WidgetInstanceV1 where
  "sample_v1 = \<lparr>v1_id = 7, v1_widget_type = [114], v1_workspace_id = 1, v1_position = \<lparr>gp_col = 0, gp_row = 0\<rparr>,
     v1_size = Small, v1_lifecycle = LifeActive, v1_config = [9], v1_created_at = 3, v1_updated_at = 5\<rparr>"

definition sample_codec :: widget_codec where
  "sample_codec =
    \<lparr>decode_v1 = \<lambda>bs. if bs = [1] then Inr (sample_v1, 1) else Inl [],
     decode_widget = \<lambda>bs. if bs = [2, 0] then Inr (widget_from_v1 sample_v1, 2) else Inl [],
     encode_widget = \<lambda>w. if w = widget_from_v1 sample_v1 then Inr [2, 0] else Inl []\<rparr>"

lemma initialise_upgrades_rows_witness:
  "\<exists>db' bs w. initialise sample_codec list_table 9 [50]
      \<lparr>schema_meta = Some \<lparr>sm_version = 1, sm_created_at = 0, sm_last_opened_at = 0, sm_orchid_version = []\<rparr>,
       widget_blobs = t_insert list_table 7 [1] (t_empty list_table)\<rparr> = Some (db', Inr CURRENT_SCHEMA_VERSION) \<and>
    t_get list_table (widget_blobs db') 7 = Some bs \<and> decode_widget sample_codec bs = Inr (w, length bs) \<and>
    wi_config w = [9] \<and> wi_created_at w = 3 \<and> wi_updated_at w = 5 \<and> wi_placement w = GridPlacement"
proof -
  let ?db = "\<lparr>schema_meta = Some \<lparr>sm_version = 1, sm_created_at = 0, sm_last_opened_at = 0, sm_orchid_version = []\<rparr>,
       widget_blobs = t_insert list_table 7 [1] (t_empty list_table)\<rparr> :: (uuid, bytes) omap SchemaDb"
  have codec: "codec_roundtrip sample_codec" by (auto simp: codec_roundtrip_def sample_codec_def split: if_splits)
  have row: "v1_row sample_codec k bs \<and> current_row sample_codec k (upgraded_bytes sample_codec bs) \<or> current_row sample_codec k bs"
    if "t_get list_table (widget_blobs ?db) k = Some bs" for k bs
  proof -
    have "k = 7" "bs = [1]" using that by (simp_all split: if_splits)
    then show ?thesis
      by (simp add: v1_row_def current_row_def upgraded_bytes_def upgrade_row_def sample_codec_def widget_from_v1_def sample_v1_def)
  qed
  have old: "t_get list_table (widget_blobs ?db) 7 = Some [1]" "decode_v1 sample_codec [1] = Inr (sample_v1, length [1::u8])"
    by (simp_all add: sample_codec_def)
  obtain db' where db': "initialise sample_codec list_table 9 [50] ?db = Some (db', Inr CURRENT_SCHEMA_VERSION)"
    "\<exists>bs w. t_get list_table (widget_blobs db') 7 = Some bs \<and> decode_widget sample_codec bs = Inr (w, length bs) \<and>
       wi_config w = v1_config sample_v1 \<and> wi_created_at w = v1_created_at sample_v1 \<and> wi_updated_at w = v1_updated_at sample_v1 \<and>
       wi_placement w = GridPlacement"
    using initialise_upgrades_rows [OF list_table.redb_table_axioms codec _ _ row, of ?db _ 9 "[50]" 9] old
    by (fastforce dest: spec [of _ 7] simp del: list_table.get_insert)
  then show ?thesis by (auto simp: sample_v1_def)
qed

end
