(* ===== verification/Action_Dispatch.thy ===== *)
theory Action_Dispatch
  imports Event_Bus State_Rows
begin

text \<open>
  Actions (\<open>src/crates/orchid-core/src/action/dispatcher.rs\<close>, \<open>context.rs\<close>, \<open>history.rs\<close>, \<open>reversible.rs\<close>,
  \<open>mod.rs\<close>; errors of \<open>error.rs\<close>): the dispatcher with its middleware and the middleware that records every action
  in the history of the state database.  What an action or a middleware of a client does is a function on a state
  \<open>'w\<close> of its own; the readings of the clocks, the fresh identifier and whether a write succeeds are arguments.
\<close>

section \<open>Errors, actions and outcomes\<close>

datatype CoreError =
  BusShutdown
| SubscriptionNotFound uuid
| CommandNotFound ustring
| DuplicateCommand ustring
| InvalidCommandSyntax ustring
| InvalidShortcut ustring
| ActionFailed ustring
| NotReversible
| HistoryRecording ustring
| Storage StorageError
| InputMappingConflict ustring

fun core_error_text :: "CoreError \<Rightarrow> ustring" where
  "core_error_text BusShutdown = lit ''event bus is shut down''"
| "core_error_text (SubscriptionNotFound i) = lit ''subscription not found: '' @ uuid_text i"
| "core_error_text (CommandNotFound c) = lit ''command not found: '' @ c"
| "core_error_text (DuplicateCommand c) = lit ''duplicate command id: '' @ c"
| "core_error_text (InvalidCommandSyntax r) = lit ''invalid command syntax: '' @ r"
| "core_error_text (InvalidShortcut s) = lit ''invalid shortcut: '' @ s"
| "core_error_text (ActionFailed m) = lit ''action execution failed: '' @ m"
| "core_error_text NotReversible = lit ''action is not reversible''"
| "core_error_text (HistoryRecording m) = lit ''history recording failed: '' @ m"
| "core_error_text (Storage e) = storage_error_text e"
| "core_error_text (InputMappingConflict m) = lit ''input mapping conflict: '' @ m"

record ActionOutcome =
  oc_success :: bool
  oc_message :: "ustring option"
  oc_reverse_command_text :: "ustring option"

definition action_ok :: ActionOutcome where
  "action_ok = \<lparr>oc_success = True, oc_message = None, oc_reverse_command_text = None\<rparr>"

definition outcome_ok_with_message :: "ustring \<Rightarrow> ActionOutcome" where
  "outcome_ok_with_message msg = action_ok\<lparr>oc_message := Some msg\<rparr>"

definition outcome_failed :: "ustring \<Rightarrow> ActionOutcome" where
  "outcome_failed msg = \<lparr>oc_success = False, oc_message = Some msg, oc_reverse_command_text = None\<rparr>"

definition with_reverse :: "ustring \<Rightarrow> ActionOutcome \<Rightarrow> ActionOutcome" where
  "with_reverse cmd oc = oc\<lparr>oc_reverse_command_text := Some cmd\<rparr>"

record ActionContext =
  ctx_source :: EventSource
  correlation_id :: "uuid option"

definition context_new :: ActionContext where
  "context_new = \<lparr>ctx_source = CommandSource, correlation_id = None\<rparr>"

definition with_source :: "EventSource \<Rightarrow> ActionContext \<Rightarrow> ActionContext" where
  "with_source s c = c\<lparr>ctx_source := s\<rparr>"

definition with_correlation :: "uuid \<Rightarrow> ActionContext \<Rightarrow> ActionContext" where
  "with_correlation i c = c\<lparr>correlation_id := Some i\<rparr>"


text \<open>What a middleware reads of an action, and the action.\<close>

record ActionInfo =
  act_id :: ustring
  act_command_text :: ustring
  act_target :: "ustring option"
  act_is_reversible :: bool


section \<open>Dispatcher\<close>

record 'w ActionMiddleware =
  mw_before :: "ActionInfo \<Rightarrow> ActionContext \<Rightarrow> 'w \<Rightarrow> 'w \<times> CoreError option"
  mw_after :: "ActionInfo \<Rightarrow> ActionContext \<Rightarrow> CoreError + ActionOutcome \<Rightarrow> 'w \<Rightarrow> 'w"






section \<open>The history recorder\<close>

definition FLUSH_MAX_ENTRIES :: nat where "FLUSH_MAX_ENTRIES = 32"

text \<open>Two seconds and fifteen seconds, in nanoseconds.\<close>

definition FLUSH_MAX_AGE :: int where "FLUSH_MAX_AGE = 2000000000"

definition REVERSIBLE_WINDOW :: int where "REVERSIBLE_WINDOW = 15000000000"

record HistoryMetadata =
  hm_success :: bool
  hm_error_message :: "ustring option"
  hm_correlation_id :: "uuid option"
  hm_source_label :: ustring

record ('h, 'x) HistoryRecorder =
  recorder_storage :: "('h, 'x) HistoryDb"
  recorder_enabled :: bool
  pending_entries :: "HistoryEntry list"
  oldest_at :: "int option"

definition recorder_new :: "('h, 'x) HistoryDb \<Rightarrow> bool \<Rightarrow> ('h, 'x) HistoryRecorder" where
  "recorder_new db enabled = \<lparr>recorder_storage = db, recorder_enabled = enabled, pending_entries = [], oldest_at = None\<rparr>"

definition set_enabled :: "bool \<Rightarrow> ('h, 'x) HistoryRecorder \<Rightarrow> ('h, 'x) HistoryRecorder" where
  "set_enabled e r = r\<lparr>recorder_enabled := e\<rparr>"

definition take_pending :: "('h, 'x) HistoryRecorder \<Rightarrow> ('h, 'x) HistoryRecorder \<times> HistoryEntry list" where
  "take_pending r = (r\<lparr>oldest_at := None, pending_entries := []\<rparr>, pending_entries r)"

text \<open>\<open>t\<close> is the monotonic clock when the entry is pushed and \<open>t'\<close> when the age is taken.\<close>

definition push_pending :: "int \<Rightarrow> int \<Rightarrow> HistoryEntry \<Rightarrow> ('h, 'x) HistoryRecorder \<Rightarrow> ('h, 'x) HistoryRecorder \<times> bool" where
  "push_pending t t' e r =
    (let entries = pending_entries r @ [e];
         oldest = (case oldest_at r of Some o1 \<Rightarrow> o1 | None \<Rightarrow> t)
     in (r\<lparr>pending_entries := entries, oldest_at := Some oldest\<rparr>,
         FLUSH_MAX_ENTRIES \<le> length entries \<or> FLUSH_MAX_AGE \<le> t' - oldest))"

definition write_batch ::
  "('h, uuid, HistoryEntry) table_ops \<Rightarrow> ('x, int, uuid) table_ops \<Rightarrow> HistoryEntry list \<Rightarrow> ('h, 'x) HistoryDb \<Rightarrow> ('h, 'x) HistoryDb"
where
  "write_batch H X es db = foldl (\<lambda>db e. put_history H X e db) db es"

text \<open>A batch whose transaction fails is logged and dropped.\<close>

definition flush ::
  "('h, uuid, HistoryEntry) table_ops \<Rightarrow> ('x, int, uuid) table_ops \<Rightarrow> bool \<Rightarrow> ('h, 'x) HistoryRecorder \<Rightarrow> ('h, 'x) HistoryRecorder"
where
  "flush H X write_ok r =
    (case take_pending r of
       (r', entries) \<Rightarrow>
         if entries = [] then r'
         else if write_ok then r'\<lparr>recorder_storage := write_batch H X entries (recorder_storage r')\<rparr>
         else r')"

record Reading =
  utc_now :: int
  fresh_id :: uuid
  instant_push :: int
  instant_age :: int
  write_ok :: bool

definition history_metadata :: "ActionContext \<Rightarrow> CoreError + ActionOutcome \<Rightarrow> HistoryMetadata" where
  "history_metadata c r =
    \<lparr>hm_success = (case r of Inr oc \<Rightarrow> oc_success oc | Inl _ \<Rightarrow> False),
     hm_error_message = (case r of Inl e \<Rightarrow> Some (core_error_text e) | Inr _ \<Rightarrow> None),
     hm_correlation_id = correlation_id c, hm_source_label = source_label (ctx_source c)\<rparr>"

definition history_entry :: "Reading \<Rightarrow> ActionInfo \<Rightarrow> CoreError + ActionOutcome \<Rightarrow> bytes \<Rightarrow> HistoryEntry" where
  "history_entry rd a r metadata_bytes =
    \<lparr>entry_id = fresh_id rd, timestamp_ns = utc_now rd, action_id = act_id a, command_text = act_command_text a,
     target = act_target a, reversible_until = (if act_is_reversible a then Some (utc_now rd + REVERSIBLE_WINDOW) else None),
     reverse_command = (case r of Inr oc \<Rightarrow> oc_reverse_command_text oc | Inl _ \<Rightarrow> None), metadata = metadata_bytes\<rparr>"

definition recorder_after ::
  "(HistoryMetadata \<Rightarrow> ustring + bytes) \<Rightarrow> ('h, uuid, HistoryEntry) table_ops \<Rightarrow> ('x, int, uuid) table_ops \<Rightarrow> Reading \<Rightarrow>
   ActionInfo \<Rightarrow> ActionContext \<Rightarrow> CoreError + ActionOutcome \<Rightarrow> ('h, 'x) HistoryRecorder \<Rightarrow> ('h, 'x) HistoryRecorder"
where
  "recorder_after enc H X rd a c r rec =
    (if \<not> recorder_enabled rec then rec
     else case enc (history_metadata c r) of
       Inl _ \<Rightarrow> rec
     | Inr metadata_bytes \<Rightarrow>
         (case push_pending (instant_push rd) (instant_age rd) (history_entry rd a r metadata_bytes) rec of
            (rec', must_flush) \<Rightarrow> if must_flush then flush H X (write_ok rd) rec' else rec'))"

text \<open>The recorder as a middleware; its clock and store are in the state \<open>'w\<close>, read and written by \<open>get\<close> and \<open>put\<close>.\<close>

definition recorder_middleware ::
  "(HistoryMetadata \<Rightarrow> ustring + bytes) \<Rightarrow> ('h, uuid, HistoryEntry) table_ops \<Rightarrow> ('x, int, uuid) table_ops \<Rightarrow>
   ('w \<Rightarrow> Reading) \<Rightarrow> ('w \<Rightarrow> ('h, 'x) HistoryRecorder) \<Rightarrow> (('h, 'x) HistoryRecorder \<Rightarrow> 'w \<Rightarrow> 'w) \<Rightarrow> 'w ActionMiddleware"
where
  "recorder_middleware enc H X reading get put =
    \<lparr>mw_before = (\<lambda>a c w. (w, None)),
     mw_after = (\<lambda>a c r w. put (recorder_after enc H X (reading w) a c r (get w)) w)\<rparr>"

section \<open>Middlewares bracket the action\<close>

datatype trace_event = Before nat | Run | After nat

definition traced_middleware :: "nat \<Rightarrow> 'w ActionMiddleware \<Rightarrow> ('w \<times> trace_event list) ActionMiddleware" where
  "traced_middleware i mw =
    \<lparr>mw_before = (\<lambda>a c (w, l). case mw_before mw a c w of (w', r) \<Rightarrow> ((w', l @ [Before i]), r)),
     mw_after = (\<lambda>a c r (w, l). (mw_after mw a c r w, l @ [After i]))\<rparr>"


definition traced_from :: "nat \<Rightarrow> 'w ActionMiddleware list \<Rightarrow> ('w \<times> trace_event list) ActionMiddleware list" where
  "traced_from k mws = map (\<lambda>(i, mw). traced_middleware i mw) (List.enumerate k mws)"

lemma traced_from_simps [simp]:
  "traced_from k [] = []" "traced_from k (mw # mws) = traced_middleware k mw # traced_from (Suc k) mws"
  by (simp_all add: traced_from_def)

lemma length_traced_from [simp]: "length (traced_from k mws) = length mws"
  by (simp add: traced_from_def)


text \<open>
  The specification asks the middlewares by number.  The state before the call of middleware \<open>i\<close> is the one that the
  calls of those before it leave, and \<open>refusal\<close> is its answer there.
\<close>

definition asked :: "'w ActionMiddleware list \<Rightarrow> ActionInfo \<Rightarrow> ActionContext \<Rightarrow> 'w \<Rightarrow> nat \<Rightarrow> 'w" where
  "asked mws a c w i = foldl (\<lambda>w mw. fst (mw_before mw a c w)) w (take i mws)"

definition refusal :: "'w ActionMiddleware list \<Rightarrow> ActionInfo \<Rightarrow> ActionContext \<Rightarrow> 'w \<Rightarrow> nat \<Rightarrow> CoreError option" where
  "refusal mws a c w i = snd (mw_before (mws ! i) a c (asked mws a c w i))"


definition first_refusal :: "'w ActionMiddleware list \<Rightarrow> ActionInfo \<Rightarrow> ActionContext \<Rightarrow> 'w \<Rightarrow> nat option" where
  "first_refusal mws a c w = position (\<lambda>i. refusal mws a c w i \<noteq> None) [0..<length mws]"

lemma position_map: "position P (map f xs) = position (P \<circ> f) xs"
  by (induction xs) simp_all

lemma asked_simps [simp]:
  "asked mws a c w 0 = w" "asked (mw # mws) a c w (Suc i) = asked mws a c (fst (mw_before mw a c w)) i"
  by (simp_all add: asked_def)

lemma refusal_simps [simp]:
  "refusal (mw # mws) a c w 0 = snd (mw_before mw a c w)"
  "refusal (mw # mws) a c w (Suc i) = refusal mws a c (fst (mw_before mw a c w)) i"
  by (simp_all add: refusal_def)

lemma first_refusal_simps [simp]:
  "first_refusal [] a c w = None"
  "first_refusal (mw # mws) a c w =
    (if snd (mw_before mw a c w) \<noteq> None then Some 0
     else map_option Suc (first_refusal mws a c (fst (mw_before mw a c w))))"
proof -
  have "[0..<length (mw # mws)] = 0 # map Suc [0..<length mws]" by (simp add: map_Suc_upt upt_conv_Cons del: upt_Suc)
  then show "first_refusal (mw # mws) a c w =
    (if snd (mw_before mw a c w) \<noteq> None then Some 0
     else map_option Suc (first_refusal mws a c (fst (mw_before mw a c w))))"
    by (simp add: first_refusal_def position_map comp_def del: upt_Suc)
qed (simp add: first_refusal_def)










section \<open>The buffer of the recorder\<close>

datatype recorder_op = RecordAction Reading ActionInfo ActionContext "CoreError + ActionOutcome" | SetEnabled bool | FlushNow bool

definition recorder_step ::
  "(HistoryMetadata \<Rightarrow> ustring + bytes) \<Rightarrow> ('h, uuid, HistoryEntry) table_ops \<Rightarrow> ('x, int, uuid) table_ops \<Rightarrow>
   ('h, 'x) HistoryRecorder \<Rightarrow> recorder_op \<Rightarrow> ('h, 'x) HistoryRecorder"
where
  "recorder_step enc H X rec st =
    (case st of
       RecordAction rd a c r \<Rightarrow> recorder_after enc H X rd a c r rec
     | SetEnabled e \<Rightarrow> set_enabled e rec
     | FlushNow ok \<Rightarrow> flush H X ok rec)"

lemma pending_flush [simp]: "pending_entries (flush H X ok rec) = []" "oldest_at (flush H X ok rec) = None"
  "recorder_enabled (flush H X ok rec) = recorder_enabled rec"
  by (simp_all add: flush_def take_pending_def)

lemma pending_step:
  "length (pending_entries rec) < FLUSH_MAX_ENTRIES \<Longrightarrow> length (pending_entries (recorder_step enc H X rec st)) < FLUSH_MAX_ENTRIES"
  by (cases st)
    (auto simp: recorder_step_def recorder_after_def push_pending_def set_enabled_def Let_def FLUSH_MAX_ENTRIES_def split: sum.split)

text \<open>However actions, switches of the recording and flushes follow each other, and whether or not the writes
  succeed, the recorder never holds back as many as \<open>FLUSH_MAX_ENTRIES\<close> entries after a step.\<close>

theorem pending_history_bounded:
  "length (pending_entries (foldl (recorder_step enc H X) (recorder_new db en) steps)) < FLUSH_MAX_ENTRIES"
proof -
  have "length (pending_entries rec) < FLUSH_MAX_ENTRIES \<Longrightarrow>
      length (pending_entries (foldl (recorder_step enc H X) rec steps)) < FLUSH_MAX_ENTRIES" for rec
    by (induction steps arbitrary: rec) (simp_all add: pending_step)
  then show ?thesis by (simp add: recorder_new_def FLUSH_MAX_ENTRIES_def)
qed

section \<open>What the recorder stores\<close>

fun recorded_entries :: "(HistoryMetadata \<Rightarrow> ustring + bytes) \<Rightarrow> bool \<Rightarrow> recorder_op list \<Rightarrow> HistoryEntry list" where
  "recorded_entries enc en [] = []"
| "recorded_entries enc en (RecordAction rd a c r # steps) =
    (case enc (history_metadata c r) of
       Inr m \<Rightarrow> if en then history_entry rd a r m # recorded_entries enc en steps else recorded_entries enc en steps
     | Inl _ \<Rightarrow> recorded_entries enc en steps)"
| "recorded_entries enc en (SetEnabled e # steps) = recorded_entries enc e steps"
| "recorded_entries enc en (FlushNow ok # steps) = recorded_entries enc en steps"

fun writes_ok :: "recorder_op list \<Rightarrow> bool" where
  "writes_ok [] = True"
| "writes_ok (RecordAction rd a c r # steps) = (write_ok rd \<and> writes_ok steps)"
| "writes_ok (SetEnabled e # steps) = writes_ok steps"
| "writes_ok (FlushNow ok # steps) = (ok \<and> writes_ok steps)"

text \<open>The stored history with the pending entries written to it.\<close>

definition history_so_far ::
  "('h, uuid, HistoryEntry) table_ops \<Rightarrow> ('x, int, uuid) table_ops \<Rightarrow> ('h, 'x) HistoryRecorder \<Rightarrow> ('h, 'x) HistoryDb"
where
  "history_so_far H X rec = write_batch H X (pending_entries rec) (recorder_storage rec)"

lemma history_flush: "recorder_storage (flush H X True rec) = history_so_far H X rec"
  by (simp add: flush_def take_pending_def history_so_far_def write_batch_def)

lemma history_so_far_flush: "history_so_far H X (flush H X True rec) = history_so_far H X rec"
  using history_flush [of H X rec] by (simp add: history_so_far_def [of H X "flush H X True rec"] write_batch_def)

lemma run_recorder:
  "writes_ok steps \<Longrightarrow>
   history_so_far H X (foldl (recorder_step enc H X) rec steps) =
     write_batch H X (recorded_entries enc (recorder_enabled rec) steps) (history_so_far H X rec)"
proof (induction steps arbitrary: rec)
  case Nil
  then show ?case by (simp add: write_batch_def)
next
  case (Cons st steps)
  show ?case
  proof (cases st)
    case (RecordAction rd a c r)
    show ?thesis
    proof (cases "recorder_enabled rec \<and> (\<exists>m. enc (history_metadata c r) = Inr m)")
      case True
      then obtain m where m: "enc (history_metadata c r) = Inr m" by blast
      let ?e = "history_entry rd a r m"
      let ?rec = "recorder_step enc H X rec st"
      obtain rec' q where push: "push_pending (instant_push rd) (instant_age rd) ?e rec = (rec', q)" by force
      have "?rec = (if q then flush H X True rec' else rec')"
        using True m push Cons.prems RecordAction by (simp add: recorder_step_def recorder_after_def)
      moreover have "history_so_far H X rec' = put_history H X ?e (history_so_far H X rec)" "recorder_enabled rec' = recorder_enabled rec"
        using push by (auto simp: push_pending_def Let_def history_so_far_def write_batch_def)
      ultimately have "history_so_far H X ?rec = put_history H X ?e (history_so_far H X rec)"
          "recorder_enabled ?rec = recorder_enabled rec"
        by (simp_all add: history_so_far_flush)
      then show ?thesis using Cons True m RecordAction by (simp add: write_batch_def)
    next
      case False
      then have "recorder_step enc H X rec st = rec"
        using RecordAction by (auto simp: recorder_step_def recorder_after_def split: sum.split)
      then show ?thesis using Cons False RecordAction by (auto split: sum.split)
    qed
  next
    case (SetEnabled e)
    have "history_so_far H X (set_enabled e rec) = history_so_far H X rec" "recorder_enabled (set_enabled e rec) = e"
      by (simp_all add: set_enabled_def history_so_far_def)
    then show ?thesis using Cons SetEnabled by (simp add: recorder_step_def)
  next
    case (FlushNow ok)
    then show ?thesis using Cons by (simp add: recorder_step_def history_so_far_flush)
  qed
qed

context history_db
begin

lemma write_batch_stored:
  "distinct (map entry_id es) \<Longrightarrow> (\<And>d. d \<in> stored_entries H db \<Longrightarrow> entry_id d \<notin> entry_id ` set es) \<Longrightarrow>
   hist_sound H X db \<Longrightarrow> stored_entries H (write_batch H X es db) = stored_entries H db \<union> set es"
proof (induction es arbitrary: db)
  case Nil
  then show ?case by (simp add: write_batch_def)
next
  case (Cons e es)
  have "t_get H (history_table db) (entry_id e) = None"
  proof (rule ccontr)
    assume "t_get H (history_table db) (entry_id e) \<noteq> None"
    then obtain d where d: "t_get H (history_table db) (entry_id e) = Some d" by auto
    then have "entry_id d = entry_id e" "d \<in> stored_entries H db"
      using hist_soundD1 [OF Cons.prems(3) d] by (auto simp: stored_entries_def)
    then show False using Cons.prems(2) [of d] by simp
  qed
  then have one: "stored_entries H (put_history H X e db) = insert e (stored_entries H db)"
    by (auto simp: stored_entries_def get_put split: if_splits) (metis option.distinct(1))
  have "entry_id d \<notin> entry_id ` set es" if "d \<in> stored_entries H (put_history H X e db)" for d
    using that Cons.prems(1,2) unfolding one by auto
  from Cons.IH [OF _ this put_sound [OF Cons.prems(3), of e]] show ?case
    using Cons.prems(1) one by (simp add: write_batch_def)
qed

lemma write_batch_complete:
  "sorted_wrt (\<lambda>a b. entry_ms a < entry_ms b) es \<Longrightarrow> (\<And>d e. d \<in> stored_entries H db \<Longrightarrow> e \<in> set es \<Longrightarrow> entry_ms d < entry_ms e) \<Longrightarrow>
   hist_sound H X db \<Longrightarrow> hist_complete H X db \<Longrightarrow>
   hist_sound H X (write_batch H X es db) \<and> hist_complete H X (write_batch H X es db)"
proof (induction es arbitrary: db)
  case Nil
  then show ?case by (simp add: write_batch_def)
next
  case (Cons e es)
  have fresh: "fresh_ms H e db"
    using Cons.prems(2) [of _ e] by (fastforce simp: fresh_ms_def stored_entries_def)
  have "entry_ms d < entry_ms x" if "d \<in> stored_entries H (put_history H X e db)" "x \<in> set es" for d x
    using that Cons.prems(1,2) by (auto simp: stored_entries_def get_put split: if_splits)
  from Cons.IH [OF _ this put_sound [OF Cons.prems(3)] put_complete [OF Cons.prems(3,4) fresh]] show ?case
    using Cons.prems(1) by (simp add: write_batch_def)
qed

lemma history_list_eq:
  assumes "hist_sound H X db" and "hist_complete H X db" and "stored_entries H db = set es"
    and "sorted_wrt (\<lambda>a b. entry_ms a < entry_ms b) es"
  shows "history_list H X db = es"
proof -
  have "set (history_list H X db) = set es" using set_hist_list [OF assms(2)] assms(3) by auto
  moreover have "sorted_wrt (<) (map entry_ms (history_list H X db))" "sorted_wrt (<) (map entry_ms es)"
    using hist_list_sorted [OF assms(1)] assms(4) by (simp_all add: sorted_wrt_map)
  ultimately show ?thesis
    by (intro map_sorted_distinct_set_unique [where f = entry_ms])
      (auto simp: strict_sorted_iff distinct_map)
qed

end

text \<open>C9.  From the dispatcher to the query: when every write succeeds, the recorded actions have distinct identifiers and
  their milliseconds strictly increase, after a flush a query for \<open>n > 0\<close> entries gives the last \<open>n\<close> recorded actions, the
  latest first, however the recording was buffered, switched and flushed in between.  Two actions of one millisecond lose
  one of them (\<open>same_millisecond_history_lost\<close>).\<close>

theorem recorded_actions_listed:
  assumes db: "history_db H X" and ok: "writes_ok steps" and n: "0 < n"
    and es: "es = recorded_entries enc en steps"
    and ms: "sorted_wrt (\<lambda>a b. entry_ms a < entry_ms b) es" and ids: "distinct (map entry_id es)"
    and rec: "rec = foldl (recorder_step enc H X) (recorder_new (empty_history H X) en) steps"
  shows "iter_history_recent H X n (recorder_storage (flush H X True rec)) = take n (rev es)"
proof -
  let ?db = "write_batch H X es (empty_history H X)"
  have start: "history_so_far H X (recorder_new (empty_history H X) en) = empty_history H X" "recorder_enabled (recorder_new (empty_history H X) en) = en"
    by (simp_all add: recorder_new_def history_so_far_def write_batch_def)
  have "recorder_storage (flush H X True rec) = ?db"
    unfolding history_flush rec run_recorder [OF ok] start es ..
  moreover have none: "stored_entries H (empty_history H X) = {}"
    using db by (simp add: stored_entries_def empty_history_def history_db_def redb_table.get_empty)
  have "history_list H X ?db = es"
  proof (rule history_db.history_list_eq [OF db _ _ _ ms])
    have "hist_sound H X ?db \<and> hist_complete H X ?db"
      by (rule history_db.write_batch_complete [OF db ms])
        (simp_all add: none history_db.empty_sound [OF db] history_db.empty_complete [OF db])
    then show "hist_sound H X ?db" "hist_complete H X ?db" by blast+
    show "stored_entries H ?db = set es"
      using history_db.write_batch_stored [OF db ids _ history_db.empty_sound [OF db]] by (simp add: none)
  qed
  ultimately show ?thesis using n by (simp add: recent_eq max_def)
qed

definition sample_reading :: "nat \<Rightarrow> Reading" where
  "sample_reading i = \<lparr>utc_now = of_nat i * 1000000, fresh_id = of_nat i, instant_push = 0, instant_age = 0, write_ok = True\<rparr>"

definition sample_info :: ActionInfo where
  "sample_info = \<lparr>act_id = [102], act_command_text = [103], act_target = None, act_is_reversible = True\<rparr>"

lemma recorded_actions_listed_witness:
  "iter_history_recent list_table list_table 1
    (recorder_storage (flush list_table list_table True
      (foldl (recorder_step (\<lambda>m. Inr []) list_table list_table) (recorder_new (empty_history list_table list_table) True)
        [RecordAction (sample_reading 1) sample_info context_new (Inr action_ok), FlushNow True,
         RecordAction (sample_reading 2) sample_info context_new (Inl NotReversible)]))) =
   [history_entry (sample_reading 2) sample_info (Inl NotReversible) []]"
proof -
  let ?steps = "[RecordAction (sample_reading 1) sample_info context_new (Inr action_ok), FlushNow True,
         RecordAction (sample_reading 2) sample_info context_new (Inl NotReversible)]"
  have "writes_ok ?steps" by (simp add: sample_reading_def)
  from recorded_actions_listed [OF list_history.history_db_axioms this zero_less_one refl _ _ refl, where enc = "\<lambda>m. Inr []" and en = True]
  show ?thesis by (simp add: history_entry_def sample_reading_def entry_ms_def timestamp_millis_def)
qed

end
