(* ===== verification/Calculator.thy ===== *)
theory Calculator
  imports Unicode_Text Complex_Main
begin

text \<open>
  The calculator widget's engine (\<open>src/crates/orchid-widgets/src/builtin/calculator/engine.rs\<close>): every key, the two
  modes, parentheses, memory and history.  The arithmetic of \<open>f64\<close> and its text conversions are a record of operations;
  the stack of frames has its top at the head.
\<close>

section \<open>Floating point\<close>

datatype float_fn = FSqrt | FCbrt | FSin | FCos | FTan | FAsin | FAcos | FAtan | FSinh | FCosh | FTanh | FLog10 | FLn | FExp
  | FAbs | FFract | FToRadians | FToDegrees

text \<open>What the engine uses of \<open>f64\<close>: literals, operators, methods, \<open>parse\<close>, \<open>{:.n}\<close> and \<open>{:.ne}\<close>.\<close>

record 'f float_ops =
  f_lit :: "rat \<Rightarrow> 'f"
  f_pi :: 'f
  f_e :: 'f
  f_add :: "'f \<Rightarrow> 'f \<Rightarrow> 'f"
  f_sub :: "'f \<Rightarrow> 'f \<Rightarrow> 'f"
  f_mul :: "'f \<Rightarrow> 'f \<Rightarrow> 'f"
  f_div :: "'f \<Rightarrow> 'f \<Rightarrow> 'f"
  f_rem :: "'f \<Rightarrow> 'f \<Rightarrow> 'f"
  f_powf :: "'f \<Rightarrow> 'f \<Rightarrow> 'f"
  f_neg :: "'f \<Rightarrow> 'f"
  f_eq :: "'f \<Rightarrow> 'f \<Rightarrow> bool"
  f_lt :: "'f \<Rightarrow> 'f \<Rightarrow> bool"
  f_nan :: "'f \<Rightarrow> bool"
  f_inf :: "'f \<Rightarrow> bool"
  f_fn :: "float_fn \<Rightarrow> 'f \<Rightarrow> 'f"
  f_to_u32 :: "'f \<Rightarrow> nat"
  f_parse :: "ustring \<Rightarrow> 'f option"
  f_fixed :: "nat \<Rightarrow> 'f \<Rightarrow> ustring"
  f_sci :: "nat \<Rightarrow> 'f \<Rightarrow> ustring"

section \<open>Modes, errors, keys and operators\<close>

datatype CalcMode = Standard | Scientific
datatype AngleMode = Degrees | Radians | Gradians

definition mode_from_index :: "int \<Rightarrow> CalcMode" where
  "mode_from_index i = (if i = 1 then Scientific else Standard)"

fun mode_as_index :: "CalcMode \<Rightarrow> int" where
  "mode_as_index Standard = 0" | "mode_as_index Scientific = 1"

definition angle_from_index :: "int \<Rightarrow> AngleMode" where
  "angle_from_index i = (if i = 1 then Radians else if i = 2 then Gradians else Degrees)"

fun angle_as_index :: "AngleMode \<Rightarrow> int" where
  "angle_as_index Degrees = 0" | "angle_as_index Radians = 1" | "angle_as_index Gradians = 2"

fun angle_label :: "AngleMode \<Rightarrow> ustring" where
  "angle_label Degrees = lit ''DEG''" | "angle_label Radians = lit ''RAD''" | "angle_label Gradians = lit ''GRAD''"

fun to_radians :: "'f float_ops \<Rightarrow> AngleMode \<Rightarrow> 'f \<Rightarrow> 'f" where
  "to_radians F Degrees x = f_fn F FToRadians x"
| "to_radians F Radians x = x"
| "to_radians F Gradians x = f_div F (f_mul F x (f_pi F)) (f_lit F 200)"

fun radians_to :: "'f float_ops \<Rightarrow> AngleMode \<Rightarrow> 'f \<Rightarrow> 'f" where
  "radians_to F Degrees x = f_fn F FToDegrees x"
| "radians_to F Radians x = x"
| "radians_to F Gradians x = f_div F (f_mul F x (f_lit F 200)) (f_pi F)"

fun next_angle :: "AngleMode \<Rightarrow> AngleMode" where
  "next_angle Degrees = Radians" | "next_angle Radians = Gradians" | "next_angle Gradians = Degrees"

datatype CalcError = DivideByZero | InvalidInput | Overflow | Domain

fun i18n_key :: "CalcError \<Rightarrow> ustring" where
  "i18n_key DivideByZero = lit ''calc-error-divide-by-zero''"
| "i18n_key InvalidInput = lit ''calc-error-invalid''"
| "i18n_key Overflow = lit ''calc-error-overflow''"
| "i18n_key Domain = lit ''calc-error-domain''"

datatype CalcKey = Digit u8 | Decimal | Backspace | Clear | ClearEntry | Negate | Percent | Add | Subtract | Multiply | Divide
  | Equals | Sqrt | Square | Reciprocal | Cube | CubeRoot | Sin | Cos | Tan | Asin | Acos | Atan | Sinh | Cosh | Tanh
  | Log10 | Ln | Exp10 | ExpE | Power | YRoot | Factorial | AbsKey | ModKey | Pi | EConst | OpenParen | CloseParen
  | ExpNotation | MemClear | MemRecall | MemAdd | MemSub | MemStore | ToggleSecond | CycleAngle | SetMode CalcMode
  | HistoryClear | HistoryRecall nat

datatype BinOp = OpAdd | OpSub | OpMul | OpDiv | OpPow | OpYRoot | OpMod

definition MAX_DIGITS :: nat where
  "MAX_DIGITS = 16"

definition HISTORY_CAP :: nat where
  "HISTORY_CAP = 64"

fun precedence :: "BinOp \<Rightarrow> nat" where
  "precedence OpAdd = 1" | "precedence OpSub = 1"
| "precedence OpMul = 2" | "precedence OpDiv = 2" | "precedence OpMod = 2"
| "precedence OpPow = 3" | "precedence OpYRoot = 3"

definition right_assoc :: "BinOp \<Rightarrow> bool" where
  "right_assoc op \<longleftrightarrow> op = OpPow \<or> op = OpYRoot"

fun symbol :: "BinOp \<Rightarrow> ustring" where
  "symbol OpAdd = lit ''+''"
| "symbol OpSub = [0x2212]"
| "symbol OpMul = [0xD7]"
| "symbol OpDiv = [0xF7]"
| "symbol OpPow = lit ''^''"
| "symbol OpYRoot = [0x2B8, 0x221A]"
| "symbol OpMod = lit ''mod''"

definition finite_f :: "'f float_ops \<Rightarrow> 'f \<Rightarrow> CalcError + 'f" where
  "finite_f F v = (if f_nan F v then Inl Domain else if f_inf F v then Inl Overflow else Inr v)"

fun bin_apply :: "'f float_ops \<Rightarrow> BinOp \<Rightarrow> 'f \<Rightarrow> 'f \<Rightarrow> CalcError + 'f" where
  "bin_apply F OpAdd a b = finite_f F (f_add F a b)"
| "bin_apply F OpSub a b = finite_f F (f_sub F a b)"
| "bin_apply F OpMul a b = finite_f F (f_mul F a b)"
| "bin_apply F OpDiv a b = (if f_eq F b (f_lit F 0) then Inl DivideByZero else finite_f F (f_div F a b))"
| "bin_apply F OpPow a b = finite_f F (f_powf F a b)"
| "bin_apply F OpYRoot a b =
    (if f_eq F b (f_lit F 0) then Inl DivideByZero else finite_f F (f_powf F a (f_div F (f_lit F 1) b)))"
| "bin_apply F OpMod a b = (if f_eq F b (f_lit F 0) then Inl DivideByZero else finite_f F (f_rem F a b))"

section \<open>Entry and display\<close>

text \<open>46 is the point, 45 the minus, 48 the zero, 101 and 69 are the exponent marks.\<close>

definition trim_fixed :: "ustring \<Rightarrow> ustring" where
  "trim_fixed s =
    (if 46 \<notin> set s then s
     else let t = trim_end_char 46 (trim_end_char 48 s) in if t = [] \<or> t = [45] then [48] else t)"

definition trim_sci :: "ustring \<Rightarrow> ustring" where
  "trim_sci s = (case split_once 101 s of None \<Rightarrow> s | Some (mant, ex) \<Rightarrow> trim_fixed mant @ [101] @ ex)"

definition format_number :: "'f float_ops \<Rightarrow> 'f \<Rightarrow> ustring" where
  "format_number F v =
    (if f_eq F v (f_lit F 0) then [48]
     else let a = f_fn F FAbs v in
       if \<not> ((f_lt F (f_lit F (1 / 10000)) a \<or> f_eq F (f_lit F (1 / 10000)) a) \<and> f_lt F a (f_lit F (10 ^ 16)))
       then trim_sci (f_sci F 15 v)
       else trim_fixed (f_fixed F 15 v))"

definition parse_or_zero :: "'f float_ops \<Rightarrow> ustring \<Rightarrow> 'f option" where
  "parse_or_zero F s = (case f_parse F s of Some v \<Rightarrow> Some v | None \<Rightarrow> Some (f_lit F 0))"

definition parse_entry :: "'f float_ops \<Rightarrow> ustring \<Rightarrow> 'f option" where
  "parse_entry F s =
    (if s = [] \<or> s = [45] \<or> s = [46] \<or> s = [45, 46] then Some (f_lit F 0)
     else if ends_with [101] s \<or> ends_with [69] s then parse_or_zero F (take (length s - 1) s)
     else if ends_with [101, 45] s \<or> ends_with [69, 45] s \<or> ends_with [101, 43] s \<or> ends_with [69, 43] s
       then parse_or_zero F (take (length s - 2) s)
     else f_parse F s)"

definition significant_digit_count :: "ustring \<Rightarrow> nat" where
  "significant_digit_count s = length (filter is_ascii_digit (takeWhile (\<lambda>c. c \<noteq> 101 \<and> c \<noteq> 69) s))"

definition calc_factorial :: "'f float_ops \<Rightarrow> 'f \<Rightarrow> CalcError + 'f" where
  "calc_factorial F x =
    (if f_lt F x (f_lit F 0) \<or> \<not> f_eq F (f_fn F FFract x) (f_lit F 0) then Inl Domain
     else if f_lt F (f_lit F 170) x then Inl Overflow
     else finite_f F (foldl (\<lambda>acc i. f_mul F acc (f_lit F (of_nat i))) (f_lit F 1) [2..<Suc (f_to_u32 F x)]))"

section \<open>The state\<close>

record 'f CalcHistory =
  he_expression :: ustring
  he_result :: ustring
  he_value :: 'f

type_synonym 'f pending_op = "('f \<times> BinOp \<times> ustring) option"

datatype 'f Frame = Pending 'f BinOp ustring | Paren "'f pending_op" ustring

record 'f Calculator =
  calc_mode :: CalcMode
  calc_angle :: AngleMode
  second :: bool
  display :: ustring
  expression :: ustring
  memory :: 'f
  memory_set :: bool
  calc_history :: "'f CalcHistory list"
  calc_error :: "CalcError option"
  entry :: ustring
  calc_value :: 'f
  entering :: bool
  overwrite :: bool
  last_op :: "(BinOp \<times> 'f) option"
  frames :: "'f Frame list"
  pending_op :: "'f pending_op"

definition calc_new :: "'f float_ops \<Rightarrow> 'f Calculator" where
  "calc_new F = \<lparr>calc_mode = Standard, calc_angle = Degrees, second = False, display = [48], expression = [],
    memory = f_lit F 0, memory_set = False, calc_history = [], calc_error = None, entry = [], calc_value = f_lit F 0,
    entering = False, overwrite = True, last_op = None, frames = [], pending_op = None\<rparr>"

definition current_value :: "'f float_ops \<Rightarrow> 'f Calculator \<Rightarrow> CalcError + 'f" where
  "current_value F c =
    (case calc_error c of Some e \<Rightarrow> Inl e
     | None \<Rightarrow>
       if entering c \<and> entry c \<noteq> [] then (case parse_entry F (entry c) of Some v \<Rightarrow> Inr v | None \<Rightarrow> Inl InvalidInput)
       else finite_f F (calc_value c))"

definition set_error :: "CalcError \<Rightarrow> 'f Calculator \<Rightarrow> 'f Calculator" where
  "set_error e c = c\<lparr>calc_error := Some e, display := i18n_key e, expression := [], pending_op := None, frames := [],
    last_op := None, entering := False, overwrite := True, entry := []\<rparr>"

definition set_value :: "'f float_ops \<Rightarrow> 'f \<Rightarrow> 'f Calculator \<Rightarrow> 'f Calculator" where
  "set_value F v c =
    (case finite_f F v of
       Inr w \<Rightarrow> c\<lparr>calc_error := None, calc_value := w, entry := [], display := format_number F w\<rparr>
     | Inl e \<Rightarrow> set_error e c)"

definition push_history :: "'f float_ops \<Rightarrow> ustring \<Rightarrow> 'f \<Rightarrow> 'f Calculator \<Rightarrow> 'f Calculator" where
  "push_history F ex v c = c\<lparr>calc_history :=
    take HISTORY_CAP (\<lparr>he_expression = ex, he_result = format_number F v, he_value = v\<rparr> # calc_history c)\<rparr>"

definition sync_display :: "'f float_ops \<Rightarrow> 'f Calculator \<Rightarrow> 'f Calculator" where
  "sync_display F c =
    (if calc_error c \<noteq> None then c
     else if entering c \<and> entry c \<noteq> [] then c\<lparr>display := entry c\<rparr>
     else c\<lparr>display := format_number F (calc_value c)\<rparr>)"

section \<open>Editing keys\<close>

text \<open>\<open>char::from(b'0' + d)\<close> is a sum of bytes.\<close>

definition entry_value :: "'f float_ops \<Rightarrow> ustring \<Rightarrow> 'f" where
  "entry_value F s = (case parse_entry F s of Some v \<Rightarrow> v | None \<Rightarrow> f_lit F 0)"

definition start_entry :: "ustring \<Rightarrow> 'f Calculator \<Rightarrow> 'f Calculator" where
  "start_entry s c = (if overwrite c \<or> \<not> entering c then c\<lparr>entry := s, entering := True, overwrite := False\<rparr> else c)"

definition drop_zero :: "'f Calculator \<Rightarrow> 'f Calculator" where
  "drop_zero c = (if entry c = [48] then c\<lparr>entry := []\<rparr> else c)"

definition input_digit :: "'f float_ops \<Rightarrow> u8 \<Rightarrow> 'f Calculator \<Rightarrow> 'f Calculator" where
  "input_digit F d c =
    (let c = drop_zero (start_entry [] (c\<lparr>last_op := None\<rparr>))
     in if MAX_DIGITS \<le> significant_digit_count (entry c) then c
        else let s = entry c @ [unat (48 + d)] in c\<lparr>entry := s, calc_value := entry_value F s\<rparr>)"

definition input_decimal :: "'f Calculator \<Rightarrow> 'f Calculator" where
  "input_decimal c =
    (let c = start_entry [48] (c\<lparr>last_op := None\<rparr>)
     in if 46 \<in> set (entry c) \<or> 101 \<in> set (entry c) \<or> 69 \<in> set (entry c) then c
        else c\<lparr>entry := (if entry c = [] then [48] else entry c) @ [46]\<rparr>)"

definition clear_all :: "'f float_ops \<Rightarrow> 'f Calculator \<Rightarrow> 'f Calculator" where
  "clear_all F c = (calc_new F)\<lparr>calc_mode := calc_mode c, calc_angle := calc_angle c, memory := memory c,
    memory_set := memory_set c, calc_history := calc_history c\<rparr>"

definition calc_backspace :: "'f float_ops \<Rightarrow> 'f Calculator \<Rightarrow> 'f Calculator" where
  "calc_backspace F c =
    (if calc_error c \<noteq> None then clear_all F c
     else if \<not> entering c \<or> overwrite c then c
     else let s = butlast (entry c)
       in if s = [] \<or> s = [45]
          then c\<lparr>entry := [], calc_value := f_lit F 0, entering := False, overwrite := True\<rparr>
          else c\<lparr>entry := s, calc_value := entry_value F s\<rparr>)"

definition clear_entry :: "'f float_ops \<Rightarrow> 'f Calculator \<Rightarrow> 'f Calculator" where
  "clear_entry F c = c\<lparr>calc_error := None, entry := [], calc_value := f_lit F 0, entering := False, overwrite := True,
    last_op := None\<rparr>"

definition negate :: "'f float_ops \<Rightarrow> 'f Calculator \<Rightarrow> 'f Calculator" where
  "negate F c =
    (if entering c \<and> \<not> overwrite c
     then let s = (case strip_prefix [45] (entry c) of
                     Some r \<Rightarrow> r
                   | None \<Rightarrow> if entry c \<noteq> [] then 45 # entry c else entry c)
       in c\<lparr>entry := s, calc_value := entry_value F s\<rparr>
     else c\<lparr>calc_value := f_neg F (calc_value c), entry := [], entering := False, overwrite := True\<rparr>)"

definition exp_notation :: "'f Calculator \<Rightarrow> 'f Calculator" where
  "exp_notation c =
    (let c = start_entry [49] c
     in if 101 \<in> set (entry c) \<or> 69 \<in> set (entry c) then c else c\<lparr>entry := entry c @ [101]\<rparr>)"

definition percent :: "'f float_ops \<Rightarrow> 'f Calculator \<Rightarrow> 'f Calculator" where
  "percent F c =
    (case current_value F c of
       Inl _ \<Rightarrow> c
     | Inr current \<Rightarrow>
       let result =
         (case pending_op c of
            Some (base, op, _) \<Rightarrow>
              if op = OpAdd \<or> op = OpSub then f_div F (f_mul F base current) (f_lit F 100)
              else f_div F current (f_lit F 100)
          | None \<Rightarrow> f_div F current (f_lit F 100))
       in case finite_f F result of
            Inr v \<Rightarrow> (set_value F v c)\<lparr>overwrite := True, entering := False\<rparr>
          | Inl e \<Rightarrow> set_error e c)"

definition unary :: "'f float_ops \<Rightarrow> ustring \<Rightarrow> ('f \<Rightarrow> CalcError + 'f) \<Rightarrow> 'f Calculator \<Rightarrow> 'f Calculator" where
  "unary F label f c =
    (case current_value F c of
       Inl _ \<Rightarrow> c
     | Inr x \<Rightarrow>
       (case and_then (f x) (finite_f F) of
          Inr v \<Rightarrow>
            (set_value F v (c\<lparr>expression := label @ [40] @ format_number F x @ [41]\<rparr>))
              \<lparr>overwrite := True, entering := False, last_op := None\<rparr>
        | Inl e \<Rightarrow> set_error e c))"

definition insert_constant :: "'f float_ops \<Rightarrow> 'f \<Rightarrow> 'f Calculator \<Rightarrow> 'f Calculator" where
  "insert_constant F v c = (set_value F v c)\<lparr>overwrite := True, entering := False, last_op := None\<rparr>"

section \<open>Operators, parentheses and equals\<close>

definition should_reduce :: "CalcMode \<Rightarrow> BinOp \<Rightarrow> BinOp \<Rightarrow> bool" where
  "should_reduce m prev op =
    (case m of
       Standard \<Rightarrow> True
     | Scientific \<Rightarrow> precedence op < precedence prev \<or> precedence prev = precedence op \<and> \<not> right_assoc op)"

definition await_operand :: "'f Calculator \<Rightarrow> 'f Calculator" where
  "await_operand c = c\<lparr>entering := False, overwrite := True, entry := []\<rparr>"

definition binary :: "'f float_ops \<Rightarrow> BinOp \<Rightarrow> 'f Calculator \<Rightarrow> 'f Calculator" where
  "binary F op c =
    (case current_value F c of
       Inl _ \<Rightarrow> c
     | Inr current \<Rightarrow>
       let c = c\<lparr>last_op := None\<rparr>; cur = format_number F current
       in case pending_op c of
            None \<Rightarrow> await_operand (c\<lparr>pending_op := Some (current, op, cur), expression := cur @ [32] @ symbol op\<rparr>)
          | Some (left, prev, expr) \<Rightarrow>
              if should_reduce (calc_mode c) prev op
              then (case bin_apply F prev left current of
                      Inr v \<Rightarrow>
                        let new_expr = expr @ [32] @ symbol prev @ [32] @ cur
                        in await_operand (c\<lparr>calc_value := v, pending_op := Some (v, op, new_expr),
                             expression := new_expr @ [32] @ symbol op\<rparr>)
                    | Inl e \<Rightarrow> set_error e (c\<lparr>pending_op := None\<rparr>))
              else await_operand (c\<lparr>frames := Pending left prev expr # frames c,
                     pending_op := Some (current, op, cur), expression := cur @ [32] @ symbol op\<rparr>))"

definition open_paren :: "'f float_ops \<Rightarrow> 'f Calculator \<Rightarrow> 'f Calculator" where
  "open_paren F c =
    (if calc_mode c = Standard then c
     else let expr = (if expression c = [] then [40] else trim_end (expression c) @ [32, 40])
       in c\<lparr>frames := Paren (pending_op c) expr # frames c, pending_op := None, expression := expr, entering := False,
            overwrite := True, entry := [], calc_value := f_lit F 0, last_op := None\<rparr>)"

text \<open>The frames above the innermost parenthesis are applied to the value.\<close>

fun drain_frames :: "'f float_ops \<Rightarrow> 'f Frame list \<Rightarrow> 'f \<Rightarrow> CalcError + 'f Frame list \<times> 'f" where
  "drain_frames F [] current = Inr ([], current)"
| "drain_frames F (Paren p e # s) current = Inr (Paren p e # s, current)"
| "drain_frames F (Pending v op _ # s) current =
    (case bin_apply F op v current of Inl e \<Rightarrow> Inl e | Inr r \<Rightarrow> drain_frames F s r)"

definition apply_pending :: "'f float_ops \<Rightarrow> 'f Calculator \<Rightarrow> 'f \<Rightarrow> CalcError + 'f Calculator \<times> 'f" where
  "apply_pending F c current =
    (case pending_op c of
       None \<Rightarrow> Inr (c, current)
     | Some (left, op, expr) \<Rightarrow>
       (case bin_apply F op left current of
          Inl e \<Rightarrow> Inl e
        | Inr v \<Rightarrow> Inr (c\<lparr>pending_op := None,
            expression := expr @ [32] @ symbol op @ [32] @ format_number F v\<rparr>, v)))"

text \<open>An error leaves the frames half reduced; both callers then call \<open>set_error\<close>, which drops them.\<close>

definition close_paren_inner :: "'f float_ops \<Rightarrow> 'f Calculator \<Rightarrow> 'f \<Rightarrow> CalcError + 'f Calculator \<times> 'f" where
  "close_paren_inner F c current =
    (case apply_pending F c current of
       Inl e \<Rightarrow> Inl e
     | Inr (c, current) \<Rightarrow>
       (case drain_frames F (frames c) current of
          Inl e \<Rightarrow> Inl e
        | Inr (Paren p expr # s, current) \<Rightarrow>
            Inr (c\<lparr>frames := s, pending_op := p, expression := expr @ format_number F current @ [41]\<rparr>, current)
        | Inr (_, current) \<Rightarrow> Inl InvalidInput))"

definition close_paren :: "'f float_ops \<Rightarrow> 'f Calculator \<Rightarrow> 'f Calculator" where
  "close_paren F c =
    (if calc_mode c = Standard then c
     else case current_value F c of
            Inl _ \<Rightarrow> c
          | Inr current \<Rightarrow>
            (case close_paren_inner F c current of
               Inl e \<Rightarrow> set_error e c
             | Inr (c, current) \<Rightarrow>
                 (set_value F current c)\<lparr>entering := False, overwrite := True, entry := [], last_op := None\<rparr>))"

fun is_paren :: "'f Frame \<Rightarrow> bool" where
  "is_paren (Paren _ _) = True"
| "is_paren (Pending _ _ _) = False"

lemma drain_frames_shorter: "drain_frames F s v = Inr (s', w) \<Longrightarrow> length s' \<le> length s"
  by (induction F s v rule: drain_frames.induct) (auto split: sum.splits)

lemma apply_pending_frames: "apply_pending F c v = Inr (c', w) \<Longrightarrow> frames c' = frames c"
  by (auto simp: apply_pending_def split: option.splits sum.splits prod.splits)

lemma close_paren_inner_shorter: "close_paren_inner F c v = Inr (c', w) \<Longrightarrow> length (frames c') < length (frames c)"
  by (auto simp: close_paren_inner_def split: sum.splits prod.splits list.splits Frame.splits
      dest!: drain_frames_shorter apply_pending_frames)

text \<open>The first loop of \<open>equals\<close> closes every parenthesis still open.\<close>

function close_all :: "'f float_ops \<Rightarrow> 'f Calculator \<Rightarrow> 'f \<Rightarrow> CalcError + 'f Calculator \<times> 'f" where
  "close_all F c current =
    (if \<not> (\<exists>f \<in> set (frames c). is_paren f) then Inr (c, current)
     else case close_paren_inner F c current of Inl e \<Rightarrow> Inl e | Inr (c', v) \<Rightarrow> close_all F c' v)"
  by pat_completeness auto
termination
  by (relation "measure (\<lambda>(F, c, v). length (frames c))") (auto dest!: close_paren_inner_shorter)

declare close_all.simps [simp del]

text \<open>
  The second loop applies what is pending and the frames below; it returns the value, the text of the last operation and
  the operation to repeat.
\<close>

function reduce_all :: "'f float_ops \<Rightarrow> 'f pending_op \<Rightarrow> 'f Frame list \<Rightarrow> 'f \<Rightarrow> ustring \<Rightarrow> (BinOp \<times> 'f) option \<Rightarrow>
  CalcError + 'f \<times> ustring \<times> (BinOp \<times> 'f) option" where
  "reduce_all F (Some (left, op, expr)) s current full again =
    (case bin_apply F op left current of
       Inl e \<Rightarrow> Inl e
     | Inr v \<Rightarrow> reduce_all F None s v (expr @ [32] @ symbol op @ [32] @ format_number F current) (Some (op, current)))"
| "reduce_all F None (Pending left op expr # s) current full again =
    (case bin_apply F op left current of
       Inl e \<Rightarrow> Inl e
     | Inr v \<Rightarrow> reduce_all F None s v (expr @ [32] @ symbol op @ [32] @ format_number F current) (Some (op, current)))"
| "reduce_all F None (Paren p expr # s) current full again = reduce_all F p s current full again"
| "reduce_all F None [] current full again = Inr (current, full, again)"
  by pat_completeness auto
termination
  by (relation "measure (\<lambda>(F, p, s, v, full, again). 2 * length s + (if p = None then 0 else 1))") auto

definition repeat_last :: "'f float_ops \<Rightarrow> 'f Calculator \<Rightarrow> 'f Calculator" where
  "repeat_last F c =
    (case last_op c of
       None \<Rightarrow> c
     | Some (op, rhs) \<Rightarrow>
       (case current_value F c of
          Inl _ \<Rightarrow> c
        | Inr lhs \<Rightarrow>
          (case bin_apply F op lhs rhs of
             Inl e \<Rightarrow> set_error e c
           | Inr v \<Rightarrow>
             (set_value F v (push_history F (format_number F lhs @ [32] @ symbol op @ [32] @ format_number F rhs) v c))
               \<lparr>expression := [], overwrite := True, entering := False\<rparr>)))"

definition finish_equals :: "'f float_ops \<Rightarrow> 'f \<Rightarrow> ustring \<Rightarrow> (BinOp \<times> 'f) option \<Rightarrow> 'f Calculator \<Rightarrow> 'f Calculator" where
  "finish_equals F current full again c =
    (let c = c\<lparr>pending_op := None, frames := []\<rparr>;
         c = (if again = None then c else c\<lparr>last_op := again\<rparr>);
         full = (if full = [] then format_number F current else full)
     in (set_value F current (push_history F full current c))
          \<lparr>expression := [], overwrite := True, entering := False, entry := []\<rparr>)"

definition equals :: "'f float_ops \<Rightarrow> 'f Calculator \<Rightarrow> 'f Calculator" where
  "equals F c =
    (if pending_op c = None \<and> frames c = [] then repeat_last F c
     else case current_value F c of
            Inl _ \<Rightarrow> c
          | Inr current \<Rightarrow>
            (case close_all F c current of
               Inl e \<Rightarrow> set_error e c
             | Inr (c, current) \<Rightarrow>
               (case reduce_all F (pending_op c) (frames c) current [] None of
                  Inl e \<Rightarrow> set_error e c
                | Inr (current, full, again) \<Rightarrow> finish_equals F current full again c)))"

section \<open>Keys\<close>

definition finite_of :: "'f float_ops \<Rightarrow> ('f \<Rightarrow> 'f) \<Rightarrow> 'f \<Rightarrow> CalcError + 'f" where
  "finite_of F g x = finite_f F (g x)"

definition positive_only :: "'f float_ops \<Rightarrow> ('f \<Rightarrow> 'f) \<Rightarrow> 'f \<Rightarrow> CalcError + 'f" where
  "positive_only F g x = (if f_lt F x (f_lit F 0) \<or> f_eq F x (f_lit F 0) then Inl Domain else Inr (g x))"

definition inverse_label :: "string \<Rightarrow> ustring" where
  "inverse_label s = lit s @ [0x207B, 0xB9]"

text \<open>The keys with a second function: the first branch is the shifted one.\<close>

definition shifted :: "('f Calculator \<Rightarrow> 'f Calculator) \<Rightarrow> ('f Calculator \<Rightarrow> 'f Calculator) \<Rightarrow> 'f Calculator \<Rightarrow> 'f Calculator" where
  "shifted alt plain c = (if second c then alt (c\<lparr>second := False\<rparr>) else plain c)"

definition inverse_trig :: "'f float_ops \<Rightarrow> string \<Rightarrow> float_fn \<Rightarrow> 'f Calculator \<Rightarrow> 'f Calculator" where
  "inverse_trig F name f c = unary F (inverse_label name) (finite_of F (\<lambda>x. radians_to F (calc_angle c) (f_fn F f x))) c"

definition trig :: "'f float_ops \<Rightarrow> string \<Rightarrow> float_fn \<Rightarrow> 'f Calculator \<Rightarrow> 'f Calculator" where
  "trig F name f c = unary F (lit name) (finite_of F (\<lambda>x. f_fn F f (to_radians F (calc_angle c) x))) c"

definition remember :: "'f float_ops \<Rightarrow> ('f \<Rightarrow> 'f \<Rightarrow> 'f) \<Rightarrow> 'f Calculator \<Rightarrow> 'f Calculator" where
  "remember F g c =
    (case current_value F c of
       Inl _ \<Rightarrow> c
     | Inr v \<Rightarrow> c\<lparr>memory := g (memory c) v, memory_set := True, overwrite := True\<rparr>)"

definition mem_recall :: "'f float_ops \<Rightarrow> 'f Calculator \<Rightarrow> 'f Calculator" where
  "mem_recall F c =
    (if memory_set c then (set_value F (memory c) c)\<lparr>overwrite := True, entering := False, last_op := None\<rparr> else c)"

text \<open>\<open>while let Some(Frame::Paren ..) = self.stack.pop()\<close>: the frame that ends the loop has been popped too.\<close>

fun pop_parens :: "'f Frame list \<Rightarrow> 'f pending_op \<Rightarrow> ustring \<Rightarrow> 'f Frame list \<times> 'f pending_op \<times> ustring" where
  "pop_parens [] p ex = ([], p, ex)"
| "pop_parens (Paren q expr # s) p ex = pop_parens s q expr"
| "pop_parens (Pending _ _ _ # s) p ex = (s, p, ex)"

definition calc_set_mode :: "CalcMode \<Rightarrow> 'f Calculator \<Rightarrow> 'f Calculator" where
  "calc_set_mode m c =
    (let c = c\<lparr>calc_mode := m, second := False\<rparr>
     in if m = Standard
        then let (s, p, ex) = pop_parens (frames c) (pending_op c) (expression c)
             in c\<lparr>frames := s, pending_op := p, expression := ex\<rparr>
        else c)"

definition history_recall :: "'f float_ops \<Rightarrow> nat \<Rightarrow> 'f Calculator \<Rightarrow> 'f Calculator" where
  "history_recall F i c =
    (case get_at (calc_history c) i of
       None \<Rightarrow> c
     | Some h \<Rightarrow> (set_value F (he_value h) c)
         \<lparr>expression := [], pending_op := None, frames := [], last_op := None, overwrite := True, entering := False\<rparr>)"

fun key_op :: "CalcKey \<Rightarrow> BinOp option" where
  "key_op Add = Some OpAdd" | "key_op Subtract = Some OpSub" | "key_op Multiply = Some OpMul"
| "key_op Divide = Some OpDiv" | "key_op Power = Some OpPow" | "key_op YRoot = Some OpYRoot"
| "key_op ModKey = Some OpMod" | "key_op _ = None"

fun apply_unary :: "'f float_ops \<Rightarrow> CalcKey \<Rightarrow> 'f Calculator \<Rightarrow> 'f Calculator" where
  "apply_unary F Sqrt = unary F [0x221A] (\<lambda>x. if f_lt F x (f_lit F 0) then Inl Domain else Inr (f_fn F FSqrt x))"
| "apply_unary F Square = unary F (lit ''sqr'') (\<lambda>x. Inr (f_mul F x x))"
| "apply_unary F Reciprocal = unary F (lit ''1/'')
    (\<lambda>x. if f_eq F x (f_lit F 0) then Inl DivideByZero else Inr (f_div F (f_lit F 1) x))"
| "apply_unary F Cube = unary F (lit ''cube'') (\<lambda>x. Inr (f_mul F (f_mul F x x) x))"
| "apply_unary F CubeRoot = unary F [0x221B] (\<lambda>x. Inr (f_fn F FCbrt x))"
| "apply_unary F Sin = shifted (inverse_trig F ''sin'' FAsin) (trig F ''sin'' FSin)"
| "apply_unary F Cos = shifted (inverse_trig F ''cos'' FAcos) (trig F ''cos'' FCos)"
| "apply_unary F Tan = shifted (inverse_trig F ''tan'' FAtan) (trig F ''tan'' FTan)"
| "apply_unary F Asin = inverse_trig F ''sin'' FAsin"
| "apply_unary F Acos = inverse_trig F ''cos'' FAcos"
| "apply_unary F Atan = inverse_trig F ''tan'' FAtan"
| "apply_unary F Sinh = unary F (lit ''sinh'') (finite_of F (f_fn F FSinh))"
| "apply_unary F Cosh = unary F (lit ''cosh'') (finite_of F (f_fn F FCosh))"
| "apply_unary F Tanh = unary F (lit ''tanh'') (finite_of F (f_fn F FTanh))"
| "apply_unary F Log10 = shifted (unary F (lit ''10^'') (finite_of F (f_powf F (f_lit F 10))))
    (unary F (lit ''log'') (positive_only F (f_fn F FLog10)))"
| "apply_unary F Ln = shifted (unary F (lit ''e^'') (finite_of F (f_fn F FExp)))
    (unary F (lit ''ln'') (positive_only F (f_fn F FLn)))"
| "apply_unary F Exp10 = unary F (lit ''10^'') (finite_of F (f_powf F (f_lit F 10)))"
| "apply_unary F ExpE = unary F (lit ''e^'') (finite_of F (f_fn F FExp))"
| "apply_unary F Factorial = unary F (lit ''fact'') (calc_factorial F)"
| "apply_unary F AbsKey = unary F (lit ''abs'') (\<lambda>x. Inr (f_fn F FAbs x))"
| "apply_unary F _ = id"

fun apply_key :: "'f float_ops \<Rightarrow> CalcKey \<Rightarrow> 'f Calculator \<Rightarrow> 'f Calculator" where
  "apply_key F (Digit d) c = input_digit F d c"
| "apply_key F Decimal c = input_decimal c"
| "apply_key F Backspace c = calc_backspace F c"
| "apply_key F Clear c = clear_all F c"
| "apply_key F ClearEntry c = clear_entry F c"
| "apply_key F Negate c = negate F c"
| "apply_key F Percent c = percent F c"
| "apply_key F Equals c = equals F c"
| "apply_key F Pi c = insert_constant F (f_pi F) c"
| "apply_key F EConst c = insert_constant F (f_e F) c"
| "apply_key F OpenParen c = open_paren F c"
| "apply_key F CloseParen c = close_paren F c"
| "apply_key F ExpNotation c = exp_notation c"
| "apply_key F MemClear c = c\<lparr>memory := f_lit F 0, memory_set := False\<rparr>"
| "apply_key F MemRecall c = mem_recall F c"
| "apply_key F MemAdd c = remember F (f_add F) c"
| "apply_key F MemSub c = remember F (f_sub F) c"
| "apply_key F MemStore c = remember F (\<lambda>_ v. v) c"
| "apply_key F ToggleSecond c = c\<lparr>second := \<not> second c\<rparr>"
| "apply_key F CycleAngle c = c\<lparr>calc_angle := next_angle (calc_angle c)\<rparr>"
| "apply_key F (SetMode m) c = calc_set_mode m c"
| "apply_key F HistoryClear c = c\<lparr>calc_history := []\<rparr>"
| "apply_key F (HistoryRecall i) c = history_recall F i c"
| "apply_key F key c = (case key_op key of Some op \<Rightarrow> binary F op c | None \<Rightarrow> apply_unary F key c)"

fun setting_key :: "CalcKey \<Rightarrow> bool" where
  "setting_key (SetMode _) = True" | "setting_key HistoryClear = True" | "setting_key CycleAngle = True"
| "setting_key ToggleSecond = True" | "setting_key _ = False"

definition clear_key :: "CalcKey \<Rightarrow> bool" where
  "clear_key key \<longleftrightarrow> key = Clear \<or> key = ClearEntry"

fun digit_key :: "CalcKey \<Rightarrow> u8 option" where
  "digit_key (Digit d) = Some d" | "digit_key _ = None"

definition press :: "'f float_ops \<Rightarrow> CalcKey \<Rightarrow> 'f Calculator \<Rightarrow> 'f Calculator" where
  "press F key c =
    (if calc_error c \<noteq> None \<and> \<not> (clear_key key \<or> setting_key key \<or> digit_key key \<noteq> None) then c
     else case (calc_error c, digit_key key) of
            (Some _, Some d) \<Rightarrow> sync_display F (input_digit F d (clear_all F c))
          | _ \<Rightarrow> sync_display F (apply_key F key c))"

definition press_all :: "'f float_ops \<Rightarrow> CalcKey list \<Rightarrow> 'f Calculator \<Rightarrow> 'f Calculator" where
  "press_all F ks c = fold (press F) ks c"

text \<open>Keyboard characters, and the identifiers of the buttons.\<close>

definition text_keys :: "(ustring \<times> CalcKey) list" where
  "text_keys =
    [(lit ''0'', Digit 0), (lit ''1'', Digit 1), (lit ''2'', Digit 2), (lit ''3'', Digit 3),
     (lit ''4'', Digit 4), (lit ''5'', Digit 5), (lit ''6'', Digit 6), (lit ''7'', Digit 7),
     (lit ''8'', Digit 8), (lit ''9'', Digit 9), (lit ''.'', Decimal), (lit '','', Decimal), (lit ''+'', Add),
     (lit ''-'', Subtract), (lit ''*'', Multiply), (lit ''/'', Divide), (lit ''='', Equals), ([10], Equals),
     ([13], Equals), (lit ''%'', Percent), (lit ''('', OpenParen), (lit '')'', CloseParen), (lit ''^'', Power),
     (lit ''!'', Factorial), ([8], Backspace), ([127], ClearEntry), ([27], Clear), (lit ''s'', Sin),
     (lit ''S'', Sin), (lit ''c'', Cos), (lit ''C'', Cos), (lit ''t'', Tan), (lit ''T'', Tan),
     (lit ''l'', Log10), (lit ''L'', Log10), (lit ''n'', Ln), (lit ''N'', Ln), (lit ''p'', Pi),
     (lit ''P'', Pi), (lit ''e'', EConst), (lit ''E'', EConst), (lit ''r'', Sqrt), (lit ''R'', Sqrt),
     (lit ''q'', Square), (lit ''Q'', Square), (lit ''i'', Reciprocal), (lit ''I'', Reciprocal),
     (lit ''a'', AbsKey), (lit ''A'', AbsKey), (lit ''m'', ModKey), (lit ''M'', ModKey),
     (lit ''f'', Factorial), (lit ''F'', Factorial), (lit ''g'', CycleAngle), (lit ''G'', CycleAngle),
     (lit ''d'', ToggleSecond), (lit ''D'', ToggleSecond)]"

definition key_from_text :: "ustring \<Rightarrow> bool \<Rightarrow> CalcKey option" where
  "key_from_text text ctrl = (if ctrl then None else map_of text_keys text)"

definition id_keys :: "(ustring \<times> CalcKey) list" where
  "id_keys =
    [(lit ''0'', Digit 0), (lit ''1'', Digit 1), (lit ''2'', Digit 2), (lit ''3'', Digit 3),
     (lit ''4'', Digit 4), (lit ''5'', Digit 5), (lit ''6'', Digit 6), (lit ''7'', Digit 7),
     (lit ''8'', Digit 8), (lit ''9'', Digit 9), (lit ''dec'', Decimal), (lit ''bs'', Backspace),
     (lit ''c'', Clear), (lit ''ce'', ClearEntry), (lit ''neg'', Negate), (lit ''pct'', Percent),
     (lit ''add'', Add), (lit ''sub'', Subtract), (lit ''mul'', Multiply), (lit ''div'', Divide),
     (lit ''eq'', Equals), (lit ''sqrt'', Sqrt), (lit ''sqr'', Square), (lit ''inv'', Reciprocal),
     (lit ''cube'', Cube), (lit ''cbrt'', CubeRoot), (lit ''sin'', Sin), (lit ''cos'', Cos),
     (lit ''tan'', Tan), (lit ''asin'', Asin), (lit ''acos'', Acos), (lit ''atan'', Atan),
     (lit ''sinh'', Sinh), (lit ''cosh'', Cosh), (lit ''tanh'', Tanh), (lit ''log'', Log10), (lit ''ln'', Ln),
     (lit ''exp10'', Exp10), (lit ''expe'', ExpE), (lit ''pow'', Power), (lit ''yroot'', YRoot),
     (lit ''fact'', Factorial), (lit ''abs'', AbsKey), (lit ''mod'', ModKey), (lit ''pi'', Pi),
     (lit ''e'', EConst), (lit ''('', OpenParen), (lit '')'', CloseParen), (lit ''exp'', ExpNotation),
     (lit ''mc'', MemClear), (lit ''mr'', MemRecall), (lit ''mplus'', MemAdd), (lit ''mminus'', MemSub),
     (lit ''ms'', MemStore), (lit ''2nd'', ToggleSecond), (lit ''angle'', CycleAngle),
     (lit ''mode-std'', SetMode Standard), (lit ''mode-sci'', SetMode Scientific),
     (lit ''hist-clear'', HistoryClear)]"

definition key_from_id :: "ustring \<Rightarrow> CalcKey option" where
  "key_from_id i = map_of id_keys i"

end
