(* ===== verification/Calculator_Eval.thy ===== *)
theory Calculator_Eval
  imports Calculator "HOL-Library.Code_Target_Nat"
begin

text \<open>
  What the calculator computes: expressions as trees, the keys that type them, and the chain of operators that the
  pending operation and the frames hold.
\<close>

section \<open>Expressions\<close>

datatype calc_expr = Num "u8 list" | Bin calc_expr BinOp calc_expr | Par calc_expr

fun op_key :: "BinOp \<Rightarrow> CalcKey" where
  "op_key OpAdd = Add" | "op_key OpSub = Subtract" | "op_key OpMul = Multiply" | "op_key OpDiv = Divide"
| "op_key OpPow = Power" | "op_key OpYRoot = YRoot" | "op_key OpMod = ModKey"

fun expr_keys :: "calc_expr \<Rightarrow> CalcKey list" where
  "expr_keys (Num ds) = map Digit ds"
| "expr_keys (Bin l op r) = expr_keys l @ op_key op # expr_keys r"
| "expr_keys (Par t) = OpenParen # expr_keys t @ [CloseParen]"

definition digits_text :: "u8 list \<Rightarrow> ustring" where
  "digits_text ds = map (\<lambda>d. unat (48 + d)) ds"

fun eval_expr :: "'f float_ops \<Rightarrow> calc_expr \<Rightarrow> CalcError + 'f" where
  "eval_expr F (Num ds) = (case f_parse F (digits_text ds) of Some v \<Rightarrow> finite_f F v | None \<Rightarrow> Inl InvalidInput)"
| "eval_expr F (Bin l op r) = and_then (eval_expr F l) (\<lambda>a. and_then (eval_expr F r) (bin_apply F op a))"
| "eval_expr F (Par t) = eval_expr F t"

text \<open>A number as it is typed: at most 16 digits and no leading zero.\<close>

definition typed_number :: "u8 list \<Rightarrow> bool" where
  "typed_number ds \<longleftrightarrow> ds \<noteq> [] \<and> length ds \<le> MAX_DIGITS \<and> (\<forall>d \<in> set ds. d \<le> 9) \<and> (length ds = 1 \<or> hd ds \<noteq> 0)"

fun numbers_typed :: "calc_expr \<Rightarrow> bool" where
  "numbers_typed (Num ds) = typed_number ds"
| "numbers_typed (Bin l op r) = (numbers_typed l \<and> numbers_typed r)"
| "numbers_typed (Par t) = numbers_typed t"

text \<open>
  The usual rules of precedence, stated apart from the engine: powers and roots bind tighter than products, products than
  sums, and operators of one level take their operands from the left, except powers and roots. Of two operators with a
  number between them, \<open>a p b q c\<close>, the left one takes the number when \<open>takes_left p q\<close>.
\<close>

datatype op_level = Sums | Products | Powers

fun level :: "BinOp \<Rightarrow> op_level" where
  "level OpAdd = Sums" | "level OpSub = Sums"
| "level OpMul = Products" | "level OpDiv = Products" | "level OpMod = Products"
| "level OpPow = Powers" | "level OpYRoot = Powers"

fun levels_left :: "op_level \<Rightarrow> op_level \<Rightarrow> bool" where
  "levels_left Sums q = (q = Sums)"
| "levels_left Products q = (q = Sums \<or> q = Products)"
| "levels_left Powers q = (q = Sums \<or> q = Products)"

definition takes_left :: "BinOp \<Rightarrow> BinOp \<Rightarrow> bool" where
  "takes_left p q \<longleftrightarrow> levels_left (level p) (level q)"

text \<open>The tree is the one that these rules give to its keys.\<close>

fun root_op :: "calc_expr \<Rightarrow> BinOp option" where
  "root_op (Bin _ op _) = Some op"
| "root_op _ = None"

fun by_precedence :: "calc_expr \<Rightarrow> bool" where
  "by_precedence (Num ds) = True"
| "by_precedence (Par t) = by_precedence t"
| "by_precedence (Bin l op r) =
    (by_precedence l \<and> by_precedence r
     \<and> (case root_op l of Some p \<Rightarrow> takes_left p op | None \<Rightarrow> True)
     \<and> (case root_op r of Some q \<Rightarrow> \<not> takes_left op q | None \<Rightarrow> True))"

text \<open>The engine's rule for applying a waiting operator is this one.\<close>

lemma should_reduce_takes_left: "should_reduce Scientific p q \<longleftrightarrow> takes_left p q"
  by (cases p; cases q) (simp_all add: should_reduce_def right_assoc_def takes_left_def)

text \<open>
  A left operand is a chain of operations on numbers and parentheses: the right operand within it is no operation itself,
  unless it stands in parentheses. The engine applies one waiting operator for each operator key, so with two waiting it
  goes wrong (\<open>chained_subtraction_wrong\<close>).
\<close>

fun right_operand :: "calc_expr \<Rightarrow> calc_expr option" where
  "right_operand (Bin _ _ r) = Some r"
| "right_operand _ = None"

fun shallow_left :: "calc_expr \<Rightarrow> bool" where
  "shallow_left (Num ds) = True"
| "shallow_left (Par t) = shallow_left t"
| "shallow_left (Bin l op r) =
    (shallow_left l \<and> shallow_left r \<and> (case right_operand l of Some b \<Rightarrow> root_op b = None | None \<Rightarrow> True))"

fun left_ops :: "calc_expr \<Rightarrow> BinOp list" where
  "left_ops (Bin l op r) = op # left_ops l"
| "left_ops _ = []"

section \<open>The chain of operators\<close>

datatype 'f link = LOp 'f BinOp | LParen

fun pend_links :: "'f pending_op \<Rightarrow> 'f link list" where
  "pend_links None = []"
| "pend_links (Some (v, op, _)) = [LOp v op]"

fun frame_links :: "'f Frame \<Rightarrow> 'f link list" where
  "frame_links (Pending v op _) = [LOp v op]"
| "frame_links (Paren p _) = LParen # pend_links p"

definition key_chain :: "'f pending_op \<Rightarrow> 'f Frame list \<Rightarrow> 'f link list" where
  "key_chain p s = pend_links p @ concat (map frame_links s)"

text \<open>A frame below a parenthesis or an empty pending slot is never an operation.\<close>

fun frames_ok :: "'f pending_op \<Rightarrow> 'f Frame list \<Rightarrow> bool" where
  "frames_ok p [] = True"
| "frames_ok p (Pending v op ex # s) = (p \<noteq> None \<and> frames_ok (Some (v, op, ex)) s)"
| "frames_ok p (Paren q ex # s) = frames_ok q s"

lemma frames_ok_Some: "frames_ok (Some a) s = frames_ok (Some b) s"
proof (cases s)
  case (Cons f s')
  then show ?thesis by (cases f) simp_all
qed simp

lemma frames_ok_start: "frames_ok None s \<Longrightarrow> frames_ok (Some a) s"
proof (cases s)
  case (Cons f s')
  then show "frames_ok None s \<Longrightarrow> frames_ok (Some a) s" by (cases f) simp_all
qed simp

lemma chain_simps [simp]:
  "key_chain None [] = []"
  "key_chain (Some (v, op, e)) s = LOp v op # key_chain None s"
  "key_chain None (Pending v op e # s) = LOp v op # key_chain None s"
  "key_chain None (Paren p e # s) = LParen # key_chain p s"
  by (simp_all add: key_chain_def)

fun finish :: "'f float_ops \<Rightarrow> ('f \<times> BinOp) list \<Rightarrow> 'f \<Rightarrow> CalcError + 'f" where
  "finish F [] v = Inr v"
| "finish F ((a, op) # s) v = and_then (bin_apply F op a v) (finish F s)"

definition ops :: "('f \<times> BinOp) list \<Rightarrow> 'f link list" where
  "ops s = map (\<lambda>(v, op). LOp v op) s"

lemma ops_simps [simp]: "ops [] = []" "ops ((v, op) # s) = LOp v op # ops s" "ops (s @ t) = ops s @ ops t"
  by (simp_all add: ops_def)

lemma finish_append: "finish F (s @ t) v = and_then (finish F s v) (finish F t)"
  by (induction s arbitrary: v) (auto split: sum.splits simp: and_then_def)

lemma bin_apply_finite: "bin_apply F op a b = Inr v \<Longrightarrow> finite_f F v = Inr v"
  by (cases op) (auto simp: finite_f_def split: if_splits)

lemma eval_finite: "eval_expr F t = Inr v \<Longrightarrow> finite_f F v = Inr v"
  by (induction t arbitrary: v) (auto simp: finite_f_def and_then_Inr_iff dest: bin_apply_finite split: option.splits if_splits)

section \<open>Single keys\<close>

definition running :: "CalcMode \<Rightarrow> 'f Calculator \<Rightarrow> bool" where
  "running m c \<longleftrightarrow> calc_error c = None \<and> calc_mode c = m \<and> frames_ok (pending_op c) (frames c)"

definition ready :: "CalcMode \<Rightarrow> 'f Calculator \<Rightarrow> bool" where
  "ready m c \<longleftrightarrow> running m c \<and> (overwrite c \<or> \<not> entering c)"

definition op_links :: "'f Calculator \<Rightarrow> 'f link list" where
  "op_links c = key_chain (pending_op c) (frames c)"

lemma press_all_simps [simp]:
  "press_all F [] c = c" "press_all F (k # ks) c = press_all F ks (press F k c)"
  "press_all F (ks @ ks') c = press_all F ks' (press_all F ks c)"
  by (simp_all add: press_all_def)

lemma press_running: "calc_error c = None \<Longrightarrow> press F key c = sync_display F (apply_key F key c)"
  by (simp add: press_def)

lemma sync_simps [simp]:
  "calc_error (sync_display F c) = calc_error c" "calc_mode (sync_display F c) = calc_mode c"
  "frames (sync_display F c) = frames c" "pending_op (sync_display F c) = pending_op c"
  "entry (sync_display F c) = entry c" "entering (sync_display F c) = entering c"
  "overwrite (sync_display F c) = overwrite c" "calc_value (sync_display F c) = calc_value c"
  "calc_history (sync_display F c) = calc_history c" "last_op (sync_display F c) = last_op c"
  "memory (sync_display F c) = memory c" "memory_set (sync_display F c) = memory_set c"
  by (simp_all add: sync_display_def)

lemma sync_current [simp]: "current_value F (sync_display F c) = current_value F c"
  by (simp only: current_value_def sync_simps)

lemma sync_running [simp]: "running m (sync_display F c) = running m c" "ready m (sync_display F c) = ready m c"
  "op_links (sync_display F c) = op_links c"
  by (simp_all add: running_def ready_def op_links_def)

lemma apply_op_key: "apply_key F (op_key op) c = binary F op c"
  by (cases op) simp_all

text \<open>A binary operator extends the chain, after it has applied the operator at its head if that binds as tight.\<close>

lemma binary_push:
  assumes "running m c" and "current_value F c = Inr v"
    and "\<And>a p ex. pending_op c = Some (a, p, ex) \<Longrightarrow> \<not> should_reduce m p op"
  shows "ready m (binary F op c) \<and> op_links (binary F op c) = LOp v op # op_links c
    \<and> calc_history (binary F op c) = calc_history c"
proof (cases "pending_op c")
  case None
  with assms show ?thesis by (simp add: binary_def Let_def await_operand_def ready_def running_def op_links_def frames_ok_start)
next
  case (Some q)
  obtain a p ex where q: "q = (a, p, ex)" by (cases q)
  with assms(3) Some have "\<not> should_reduce m p op" by simp
  with assms(1,2) Some q show ?thesis
    by (simp add: binary_def Let_def await_operand_def ready_def running_def op_links_def)
qed

lemma binary_reduce:
  assumes "running m c" and "current_value F c = Inr v" and "pending_op c = Some (a, p, ex)"
    and "should_reduce m p op" and "bin_apply F p a v = Inr w"
  shows "ready m (binary F op c) \<and> op_links (binary F op c) = LOp w op # tl (op_links c)
    \<and> calc_history (binary F op c) = calc_history c"
  using assms
  by (simp add: binary_def Let_def await_operand_def ready_def running_def op_links_def)
    (metis frames_ok_Some)

text \<open>Digits.\<close>

lemma digit_text_digit: "d \<le> 9 \<Longrightarrow> is_ascii_digit (unat (48 + d :: u8))"
  by (simp add: is_ascii_digit_def unat_word_ariths word_le_nat_alt)

lemma digits_text_snoc: "digits_text (ds @ [d]) = digits_text ds @ [unat (48 + d)]"
  by (simp add: digits_text_def)

lemma digits_text_not_mark:
  assumes "\<forall>d \<in> set ds. d \<le> 9" and "c \<in> set (digits_text ds)"
  shows "48 \<le> c \<and> c \<le> 57"
  using assms digit_text_digit by (auto simp: digits_text_def is_ascii_digit_def)

lemma significant_digits_text:
  assumes "\<forall>d \<in> set ds. d \<le> 9"
  shows "significant_digit_count (digits_text ds) = length ds"
proof -
  have "takeWhile (\<lambda>c. c \<noteq> 101 \<and> c \<noteq> 69) (digits_text ds) = digits_text ds"
    using digits_text_not_mark [OF assms] by (intro takeWhile_eq_all_conv [THEN iffD2]) fastforce
  moreover have "filter is_ascii_digit (digits_text ds) = digits_text ds"
    using digits_text_not_mark [OF assms] by (intro filter_True) (auto simp: is_ascii_digit_def)
  ultimately have "significant_digit_count (digits_text ds) = length (digits_text ds)"
    by (simp only: significant_digit_count_def)
  then show ?thesis by (simp add: digits_text_def)
qed

lemma parse_entry_digits:
  assumes "\<forall>d \<in> set ds. d \<le> 9" and "ds \<noteq> []"
  shows "parse_entry F (digits_text ds) = f_parse F (digits_text ds)"
proof -
  let ?s = "digits_text ds"
  have ne: "?s \<noteq> []" using assms(2) by (simp add: digits_text_def)
  have l: "48 \<le> last ?s" "last ?s \<le> 57" using digits_text_not_mark [OF assms(1)] last_in_set [OF ne] by auto
  have e: "ends_with p ?s \<longleftrightarrow> (\<exists>r. ?s = r @ p)" for p
    by (auto simp: ends_with_def starts_with_def strip_prefix_Some_iff; metis rev_append rev_rev_ident)
  have no: "\<not> ends_with [x] ?s" "\<not> ends_with [y, x] ?s" if "x < 48 \<or> 57 < x" for x y
    using l that by (auto simp: e)
  have one: "?s \<noteq> [x]" "?s \<noteq> [45, x]" if "x < 48" for x using l that by auto
  show ?thesis using ne one no by (simp add: parse_entry_def)
qed

definition typing :: "CalcMode \<Rightarrow> 'f Calculator \<Rightarrow> u8 list \<Rightarrow> 'f Calculator \<Rightarrow> bool" where
  "typing m c0 ds c \<longleftrightarrow> running m c \<and> entry c = digits_text ds \<and> entering c \<and> \<not> overwrite c
    \<and> pending_op c = pending_op c0 \<and> frames c = frames c0 \<and> calc_history c = calc_history c0"

lemma first_digit: "ready m c \<Longrightarrow> typing m c [d] (press F (Digit d) c)"
  by (auto simp: typing_def ready_def running_def press_running input_digit_def start_entry_def drop_zero_def Let_def digits_text_def
      significant_digit_count_def MAX_DIGITS_def)

lemma next_digit:
  assumes "typing m c0 ds c" and "\<forall>d \<in> set ds. d \<le> 9" and "digits_text ds \<noteq> [48]" and "length ds < MAX_DIGITS"
  shows "typing m c0 (ds @ [d]) (press F (Digit d) c)"
  using assms significant_digits_text [OF assms(2)]
  by (auto simp: typing_def running_def press_running input_digit_def start_entry_def drop_zero_def Let_def digits_text_snoc)

lemma digits_text_zero: "digits_text ds = [48] \<Longrightarrow> ds = [0]"
proof (cases ds)
  case (Cons d ds')
  assume "digits_text ds = [48]"
  with Cons have "ds' = []" "unat (48 + d) = 48" by (simp_all add: digits_text_def)
  moreover from this have "unat (48 + d) = unat (48 :: u8)" by simp
  then have "48 + d = 48" by (simp only: word_unat_eq_iff)
  ultimately show "ds = [0]" using Cons by simp
qed (simp add: digits_text_def)

lemma type_digits:
  assumes "ready m c" and "typed_number ds"
  shows "typing m c ds (press_all F (map Digit ds) c)"
proof -
  have "typing m c ps (press_all F (map Digit ps) c)" if "ps \<noteq> []" "\<exists>qs. ds = ps @ qs" for ps
    using that
  proof (induction ps rule: rev_nonempty_induct)
    case (single d)
    then show ?case by (simp add: first_digit [OF assms(1)])
  next
    case (snoc d ps)
    from snoc(3) obtain qs where ds: "ds = ps @ d # qs" by auto
    then have typed: "typing m c ps (press_all F (map Digit ps) c)" using snoc(2) by auto
    have le: "\<forall>d \<in> set ps. d \<le> 9" and len: "length ps < MAX_DIGITS"
      using assms(2) ds by (auto simp: typed_number_def)
    have "digits_text ps \<noteq> [48]"
      using assms(2) ds snoc(1) digits_text_zero [of ps] by (cases ps) (auto simp: typed_number_def)
    then show ?case using next_digit [OF typed le _ len] by simp
  qed
  then show ?thesis using assms(2) by (auto simp: typed_number_def)
qed

lemma typing_value:
  assumes "typing m c0 ds c" and "typed_number ds" and "f_parse F (digits_text ds) = Some v"
  shows "current_value F c = Inr v" and "op_links c = op_links c0"
proof -
  have "ds \<noteq> []" "\<forall>d \<in> set ds. d \<le> 9" using assms(2) by (auto simp: typed_number_def)
  then show "current_value F c = Inr v"
    using assms parse_entry_digits [of ds F]
    by (simp add: current_value_def typing_def running_def digits_text_def)
  show "op_links c = op_links c0" using assms(1) by (simp add: typing_def op_links_def)
qed

section \<open>Parentheses\<close>

lemma open_paren_links:
  assumes "running Scientific c"
  shows "ready Scientific (open_paren F c)" and "op_links (open_paren F c) = LParen # op_links c"
    and "calc_history (open_paren F c) = calc_history c"
  using assms by (simp_all add: open_paren_def Let_def ready_def running_def op_links_def key_chain_def)

text \<open>The chain up to the innermost parenthesis is what a closing parenthesis applies.\<close>

lemma drain_finish:
  assumes "key_chain None fs = ops s @ LParen # rest" and "finish F s v = Inr w" and "frames_ok (Some a) fs"
  shows "\<exists>p ex fs'. drain_frames F fs v = Inr (Paren p ex # fs', w) \<and> key_chain p fs' = rest \<and> frames_ok p fs'"
  using assms
proof (induction fs arbitrary: s v a)
  case (Cons f fs)
  show ?case
  proof (cases f)
    case (Pending b op ex)
    from Cons.prems(1) Pending obtain s' where s: "s = (b, op) # s'" "key_chain None fs = ops s' @ LParen # rest"
      by (cases s) auto
    from Cons.prems(2) s(1) obtain v' where v': "bin_apply F op b v = Inr v'" "finish F s' v' = Inr w"
      by (auto simp: and_then_Inr_iff)
    show ?thesis using Cons.IH [OF s(2) v'(2)] Cons.prems(3) v'(1) Pending by simp
  next
    case (Paren p ex)
    with Cons.prems(1) have "s = []" by (cases s) auto
    with Cons.prems Paren show ?thesis by simp
  qed
qed simp

lemma frames_ok_None: "frames_ok None fs \<Longrightarrow> key_chain None fs = ops s @ rest' \<Longrightarrow> fs = [] \<or> s = []"
proof (cases fs)
  case (Cons f fs')
  then show "frames_ok None fs \<Longrightarrow> key_chain None fs = ops s @ rest' \<Longrightarrow> fs = [] \<or> s = []" by (cases f; cases s) auto
qed simp

lemma close_inner_finish:
  assumes "running m c" and "op_links c = ops s @ LParen # rest" and "finish F s v = Inr w"
  shows "\<exists>c'. close_paren_inner F c v = Inr (c', w) \<and> running m c' \<and> op_links c' = rest
    \<and> calc_history c' = calc_history c"
proof (cases "pending_op c")
  case None
  with assms(1,2) have ok: "frames_ok None (frames c)" and ch: "key_chain None (frames c) = ops s @ LParen # rest"
    by (simp_all add: running_def op_links_def)
  obtain p ex fs' where "drain_frames F (frames c) v = Inr (Paren p ex # fs', w)" "key_chain p fs' = rest" "frames_ok p fs'"
    using drain_finish [OF ch assms(3) frames_ok_start [OF ok]] by blast
  with None assms(1) show ?thesis by (simp add: close_paren_inner_def apply_pending_def running_def op_links_def)
next
  case (Some q)
  obtain a op ex where q: "q = (a, op, ex)" by (cases q)
  from assms(2) Some q obtain s' where s: "s = (a, op) # s'" "key_chain None (frames c) = ops s' @ LParen # rest"
    by (cases s) (auto simp: op_links_def)
  from assms(3) s(1) obtain v' where v': "bin_apply F op a v = Inr v'" "finish F s' v' = Inr w"
    by (auto simp: and_then_Inr_iff)
  have "frames_ok (Some q) (frames c)" using assms(1) Some by (simp add: running_def)
  then obtain p ex' fs' where "drain_frames F (frames c) v' = Inr (Paren p ex' # fs', w)" "key_chain p fs' = rest" "frames_ok p fs'"
    using drain_finish [OF s(2) v'(2)] by blast
  with Some q v' assms(1) show ?thesis by (simp add: close_paren_inner_def apply_pending_def running_def op_links_def)
qed

lemma close_paren_finish:
  assumes "running Scientific c" and "op_links c = ops s @ LParen # rest" and "current_value F c = Inr v"
    and "finish F s v = Inr w" and "finite_f F w = Inr w"
  shows "running Scientific (close_paren F c) \<and> op_links (close_paren F c) = rest
    \<and> current_value F (close_paren F c) = Inr w \<and> calc_history (close_paren F c) = calc_history c"
proof -
  obtain c' where "close_paren_inner F c v = Inr (c', w)" "running Scientific c'" "op_links c' = rest" "calc_history c' = calc_history c"
    using close_inner_finish [OF assms(1,2,4)] by blast
  with assms show ?thesis
    by (simp add: close_paren_def running_def op_links_def set_value_def current_value_def)
qed

section \<open>Expressions in scientific mode\<close>

lemma tighter_left:
  assumes "by_precedence t" and "root_op t = Some q" and "\<not> takes_left p q"
  shows "\<forall>r \<in> set (left_ops t). \<not> takes_left p r"
  using assms
proof (induction t arbitrary: q)
  case (Bin l op r)
  have op: "op = q" using Bin.prems(2) by simp
  have "\<forall>r \<in> set (left_ops l). \<not> takes_left p r"
  proof (cases "root_op l")
    case None
    then show ?thesis by (cases l) simp_all
  next
    case (Some o')
    then have "takes_left o' op" using Bin.prems(1) by simp
    then have "\<not> takes_left p o'"
      using Bin.prems(3) op by (cases p; cases q; cases o') (simp_all add: takes_left_def)
    then show ?thesis using Bin.IH(1) Bin.prems(1) Some by simp
  qed
  then show ?case using Bin.prems(3) op by simp
qed simp_all

text \<open>The operator waiting before an expression must not be applied by any operator on the left spine of it.\<close>

definition waits :: "'f Calculator \<Rightarrow> calc_expr \<Rightarrow> bool" where
  "waits c t \<longleftrightarrow> (\<forall>a p ex. pending_op c = Some (a, p, ex) \<longrightarrow> (\<forall>q \<in> set (left_ops t). \<not> takes_left p q))"

text \<open>What typing an expression adds: a chain of operators that gives its value when it is finished.\<close>

definition adds :: "CalcMode \<Rightarrow> 'f float_ops \<Rightarrow> 'f Calculator \<Rightarrow> ('f \<times> BinOp) list \<Rightarrow> 'f \<Rightarrow> 'f \<Rightarrow> 'f Calculator \<Rightarrow> bool" where
  "adds m F c s u v c' \<longleftrightarrow> running m c' \<and> current_value F c' = Inr u \<and> op_links c' = ops s @ op_links c
    \<and> finish F s u = Inr v \<and> calc_history c' = calc_history c"

lemma running_error: "running m c \<Longrightarrow> calc_error c = None"
  by (simp add: running_def)

lemma ready_running: "ready m c \<Longrightarrow> running m c"
  by (simp add: ready_def)

lemma links_head: "op_links c = LOp a p # rest \<Longrightarrow> running m c \<Longrightarrow> \<exists>ex. pending_op c = Some (a, p, ex)"
proof (cases "pending_op c")
  case None
  assume "op_links c = LOp a p # rest" "running m c"
  with None show ?thesis by (cases "frames c"; cases "hd (frames c)") (auto simp: op_links_def running_def)
next
  case (Some q)
  assume "op_links c = LOp a p # rest"
  with Some show ?thesis by (cases q) (simp add: op_links_def)
qed

lemma op_links_Nil_iff: "op_links c = [] \<longleftrightarrow> pending_op c = None \<and> frames c = []"
  by (cases "pending_op c"; cases "frames c"; cases "hd (frames c)") (auto simp: op_links_def)

fun right_ops :: "calc_expr \<Rightarrow> BinOp list" where
  "right_ops (Bin l op r) = right_ops r @ [op]"
| "right_ops _ = []"

lemma no_root: "root_op t = None \<Longrightarrow> right_ops t = [] \<and> left_ops t = []"
  by (cases t) simp_all

lemma type_expr:
  assumes "ready Scientific c" and "numbers_typed t" and "by_precedence t" and "shallow_left t" and "waits c t"
    and "eval_expr F t = Inr v"
  shows "\<exists>s u. adds Scientific F c s u v (press_all F (expr_keys t) c) \<and> map snd s = right_ops t"
  using assms
proof (induction t arbitrary: c v)
  case (Num ds)
  let ?c = "press_all F (map Digit ds) c"
  from Num have ds: "typed_number ds" and v: "f_parse F (digits_text ds) = Some v"
    by (auto simp: finite_f_def split: option.splits if_splits)
  have ty: "typing Scientific c ds ?c" by (rule type_digits [OF Num(1) ds])
  have "adds Scientific F c [] v v ?c"
    using typing_value [OF ty ds v] ty by (simp add: adds_def typing_def)
  then show ?case by fastforce
next
  case (Par t)
  let ?o = "press F OpenParen c"
  let ?c = "press_all F (expr_keys t) ?o"
  have o: "ready Scientific ?o" "op_links ?o = LParen # op_links c" "calc_history ?o = calc_history c"
    using open_paren_links [OF ready_running [OF Par.prems(1)], of F] running_error [OF ready_running [OF Par.prems(1)]]
    by (simp_all add: press_running)
  have "pending_op ?o = None"
    using o(2) by (cases "pending_op ?o") (auto simp: op_links_def)
  then have "waits ?o t" by (simp add: waits_def)
  then obtain s u where a: "adds Scientific F ?o s u v ?c"
    using Par.IH [OF o(1)] Par.prems by auto
  have v: "finite_f F v = Inr v" using eval_finite Par.prems(6) by simp
  have r: "running Scientific ?c" using a by (simp add: adds_def)
  have "adds Scientific F c [] v v (press F CloseParen ?c)"
    using close_paren_finish [OF r, of s "op_links c" F u v] a o v
    by (simp add: adds_def press_running running_error [OF r])
  then show ?case by fastforce
next
  case (Bin l op r)
  let ?l = "press_all F (expr_keys l) c"
  let ?o = "press F (op_key op) ?l"
  from Bin.prems(6) obtain a b where ab: "eval_expr F l = Inr a" "eval_expr F r = Inr b" "bin_apply F op a b = Inr v"
    by (auto simp: and_then_Inr_iff)
  have "waits c l" using Bin.prems(5) by (simp add: waits_def)
  then obtain s u where l: "adds Scientific F c s u a ?l" "map snd s = right_ops l"
    using Bin.IH(1) [OF Bin.prems(1)] Bin.prems ab by auto
  have run: "running Scientific ?l" and cur: "current_value F ?l = Inr u" using l by (simp_all add: adds_def)
  have o: "ready Scientific ?o \<and> op_links ?o = LOp a op # op_links c \<and> calc_history ?o = calc_history c"
  proof (cases s)
    case Nil
    with l have u: "u = a" and lc: "op_links ?l = op_links c" by (simp_all add: adds_def)
    have "\<not> should_reduce Scientific p op" if "pending_op ?l = Some (x, p, ex)" for x p ex
    proof -
      have "op_links c = LOp x p # key_chain None (frames ?l)" using that lc by (simp add: op_links_def)
      then obtain ex' where "pending_op c = Some (x, p, ex')"
        using links_head [OF _ ready_running [OF Bin.prems(1)]] by blast
      then show ?thesis using Bin.prems(5) by (simp add: waits_def should_reduce_takes_left)
    qed
    from binary_push [OF run cur this] show ?thesis
      using u lc l(1) by (simp add: press_running [OF running_error [OF run]] apply_op_key adds_def)
  next
    case (Cons q s')
    obtain x p where q: "q = (x, p)" by (cases q)
    from l(2) Cons obtain l1 p' l2 where l12: "l = Bin l1 p' l2" by (cases l) auto
    then have "right_ops l2 = []" using Bin.prems(4) no_root by simp
    then have s: "s = [(x, p')]" using l(2) l12 Cons q by simp
    with l(1) have lk: "op_links ?l = LOp x p' # op_links c" and fin: "bin_apply F p' x u = Inr a"
      by (auto simp: adds_def and_then_Inr_iff)
    obtain ex where pend: "pending_op ?l = Some (x, p', ex)" using links_head [OF lk run] by blast
    have "should_reduce Scientific p' op" using Bin.prems(3) l12 by (simp add: should_reduce_takes_left)
    from binary_reduce [OF run cur pend this fin] show ?thesis
      using lk l(1) by (simp add: press_running [OF running_error [OF run]] apply_op_key adds_def)
  qed
  have "waits ?o r" unfolding waits_def
  proof (intro allI impI)
    fix y p ex assume "pending_op ?o = Some (y, p, ex)"
    then have p: "p = op" using o by (simp add: op_links_def)
    show "\<forall>q \<in> set (left_ops r). \<not> takes_left p q"
    proof (cases "root_op r")
      case None
      then show ?thesis using no_root by simp
    next
      case (Some q)
      then show ?thesis using Bin.prems(3) tighter_left [of r q op] p by simp
    qed
  qed
  then obtain s2 u2 where r: "adds Scientific F ?o s2 u2 b (press_all F (expr_keys r) ?o)" "map snd s2 = right_ops r"
    using Bin.IH(2) [of ?o b] o Bin.prems ab by auto
  have "adds Scientific F c (s2 @ [(a, op)]) u2 v (press_all F (expr_keys r) ?o)"
    using r(1) o ab(3) by (simp add: adds_def finish_append)
  with r(2) show ?case by (intro exI [of _ "s2 @ [(a, op)]"] exI [of _ u2]) simp
qed

section \<open>Equals\<close>

lemma no_parens: "key_chain None fs = ops s \<Longrightarrow> f \<in> set fs \<Longrightarrow> \<not> is_paren f"
proof (induction fs arbitrary: s)
  case (Cons g fs)
  then show ?case by (cases g; cases s) (auto dest: Cons.IH)
qed simp

lemma reduce_frames:
  assumes "key_chain None fs = ops s" and "finish F s u = Inr v"
  shows "\<exists>full' again'. reduce_all F None fs u full again = Inr (v, full', again')"
  using assms
proof (induction fs arbitrary: s u full again)
  case Nil
  then show ?case by (cases s) auto
next
  case (Cons g fs)
  then show ?case by (cases g; cases s) (auto simp: and_then_Inr_iff)
qed

lemma reduce_chain:
  assumes "key_chain p fs = ops s" and "finish F s u = Inr v"
  shows "\<exists>full' again'. reduce_all F p fs u full again = Inr (v, full', again')"
proof (cases p)
  case None
  then show ?thesis using reduce_frames assms by simp
next
  case (Some q)
  obtain a op ex where q: "q = (a, op, ex)" by (cases q)
  with Some assms obtain s' w where "key_chain None fs = ops s'" "bin_apply F op a u = Inr w" "finish F s' w = Inr v"
    by (cases s) (auto simp: and_then_Inr_iff)
  then show ?thesis using Some q reduce_frames by simp
qed

definition shows_result :: "CalcMode \<Rightarrow> 'f float_ops \<Rightarrow> 'f Calculator \<Rightarrow> 'f \<Rightarrow> 'f Calculator \<Rightarrow> bool" where
  "shows_result m F c v c' \<longleftrightarrow> ready m c' \<and> op_links c' = [] \<and> calc_value c' = v \<and> display c' = format_number F v
    \<and> map he_value (calc_history c') = take HISTORY_CAP (v # map he_value (calc_history c))"

lemma equals_result:
  assumes a: "adds m F c s u v c1" and "op_links c = []" and "s \<noteq> []" and "finite_f F v = Inr v"
  shows "shows_result m F c v (press F Equals c1)"
proof -
  have run: "running m c1" and cur: "current_value F c1 = Inr u" and lk: "op_links c1 = ops s" and fin: "finish F s u = Inr v"
    and hist: "calc_history c1 = calc_history c"
    using a assms(2) by (simp_all add: adds_def)
  have busy: "\<not> (pending_op c1 = None \<and> frames c1 = [])"
    using lk assms(3) by (cases s) (auto simp: op_links_Nil_iff [symmetric])
  have "key_chain None (frames c1) = ops (if pending_op c1 = None then s else tl s)"
    using lk assms(3) by (cases "pending_op c1"; cases s) (auto simp: op_links_def)
  then have "close_all F c1 u = Inr (c1, u)"
    by (subst close_all.simps) (auto dest: no_parens)
  moreover obtain full again where "reduce_all F (pending_op c1) (frames c1) u [] None = Inr (v, full, again)"
    using reduce_chain [OF lk [unfolded op_links_def] fin] by blast
  ultimately have eq: "equals F c1 = finish_equals F v full again c1"
    using busy cur by (auto simp: equals_def)
  show ?thesis
    using run hist assms(4) unfolding shows_result_def
    by (simp add: press_running [OF running_error [OF run]] eq finish_equals_def Let_def push_history_def set_value_def
        ready_def running_def op_links_def sync_display_def HISTORY_CAP_def take_map)
qed

lemma right_ops_Nil: "right_ops t = [] \<longleftrightarrow> root_op t = None"
  by (cases t) simp_all

text \<open>
  C18.  In scientific mode, typing an expression and pressing equals shows its value by the usual rules of precedence
  (\<open>takes_left\<close>), appends it to the history and leaves no operation behind, when the right operand within every left operand
  is a number or in parentheses (\<open>shallow_left\<close>). Without that the engine is wrong: \<open>chained_subtraction_wrong\<close>.
\<close>

theorem calculator_follows_precedence:
  assumes "ready Scientific c" and "op_links c = []" and "numbers_typed t" and "by_precedence t" and "shallow_left t"
    and "root_op t \<noteq> None" and "eval_expr F t = Inr v"
  shows "shows_result Scientific F c v (press_all F (expr_keys t @ [Equals]) c)"
proof -
  have "waits c t" using assms(2) by (simp add: waits_def op_links_Nil_iff)
  from type_expr [OF assms(1,3-5) this assms(7)]
  obtain s u where "adds Scientific F c s u v (press_all F (expr_keys t) c)" "map snd s = right_ops t" by blast
  moreover from this assms(6) have "s \<noteq> []" by (metis list.simps(8) right_ops_Nil)
  ultimately show ?thesis using equals_result [OF _ assms(2) _ eval_finite [OF assms(7)]] by simp
qed

section \<open>Standard mode\<close>

fun left_to_right :: "calc_expr \<Rightarrow> bool" where
  "left_to_right (Bin l op (Num ds)) = left_to_right l"
| "left_to_right (Num ds) = True"
| "left_to_right _ = False"

lemma type_left_to_right:
  assumes "ready Standard c" and "op_links c = []" and "numbers_typed t" and "left_to_right t" and "eval_expr F t = Inr v"
  shows "\<exists>s u. adds Standard F c s u v (press_all F (expr_keys t) c) \<and> map snd s = (case root_op t of None \<Rightarrow> [] | Some op \<Rightarrow> [op])"
  using assms
proof (induction t arbitrary: v rule: left_to_right.induct)
  case (2 ds)
  let ?c = "press_all F (map Digit ds) c"
  from 2 have ds: "typed_number ds" and v: "f_parse F (digits_text ds) = Some v"
    by (auto simp: finite_f_def split: option.splits if_splits)
  have ty: "typing Standard c ds ?c" by (rule type_digits [OF 2(1) ds])
  have "adds Standard F c [] v v ?c"
    using typing_value [OF ty ds v] ty by (simp add: adds_def typing_def)
  then show ?case by fastforce
next
  case (1 l op ds)
  let ?l = "press_all F (expr_keys l) c"
  let ?o = "press F (op_key op) ?l"
  let ?c = "press_all F (map Digit ds) ?o"
  from "1.prems"(5) obtain a b where ab: "eval_expr F l = Inr a" "f_parse F (digits_text ds) = Some b"
    "bin_apply F op a b = Inr v" by (auto simp: and_then_Inr_iff finite_f_def split: option.splits if_splits)
  have ds: "typed_number ds" using "1.prems"(3) by simp
  obtain s u where l: "adds Standard F c s u a ?l" "map snd s = (case root_op l of None \<Rightarrow> [] | Some op \<Rightarrow> [op])"
    using "1.IH" "1.prems" ab by auto
  have run: "running Standard ?l" and cur: "current_value F ?l = Inr u" using l by (simp_all add: adds_def)
  have o: "ready Standard ?o \<and> op_links ?o = [LOp a op] \<and> calc_history ?o = calc_history c"
  proof (cases s)
    case Nil
    with l "1.prems"(2) have lk: "op_links ?l = []" and u: "u = a" by (simp_all add: adds_def)
    from lk have "pending_op ?l = None" by (simp add: op_links_Nil_iff)
    with binary_push [OF run cur, of op] show ?thesis
      using lk u l(1) by (simp add: press_running [OF running_error [OF run]] apply_op_key adds_def)
  next
    case (Cons q s')
    with l(2) obtain x p where s: "s = [(x, p)]" by (cases "root_op l"; cases q) auto
    with l(1) "1.prems"(2) have lk: "op_links ?l = [LOp x p]" and fin: "bin_apply F p x u = Inr a"
      by (auto simp: adds_def and_then_Inr_iff)
    obtain ex where pend: "pending_op ?l = Some (x, p, ex)" using links_head [OF lk run] by blast
    have "should_reduce Standard p op" by (simp add: should_reduce_def)
    from binary_reduce [OF run cur pend this fin] show ?thesis
      using lk l(1) by (simp add: press_running [OF running_error [OF run]] apply_op_key adds_def)
  qed
  have ty: "typing Standard ?o ds ?c" using type_digits [of Standard ?o ds F] o ds by simp
  have "adds Standard F c [(a, op)] b v ?c"
    using typing_value [OF ty ds ab(2)] ty o ab(3) "1.prems"(2) by (simp add: adds_def typing_def)
  then show ?case by (intro exI [of _ "[(a, op)]"] exI [of _ b]) simp
qed simp_all

text \<open>In standard mode a chain of operations is computed from left to right, whatever the operators.\<close>

theorem calculator_left_to_right:
  assumes "ready Standard c" and "op_links c = []" and "numbers_typed t" and "left_to_right t" and "root_op t \<noteq> None"
    and "eval_expr F t = Inr v"
  shows "shows_result Standard F c v (press_all F (expr_keys t @ [Equals]) c)"
proof -
  obtain s u where a: "adds Standard F c s u v (press_all F (expr_keys t) c)"
    and ops: "map snd s = (case root_op t of None \<Rightarrow> [] | Some op \<Rightarrow> [op])"
    using type_left_to_right [OF assms(1-4,6)] by blast
  from ops assms(5) have "s \<noteq> []" by auto
  from equals_result [OF a assms(2) this eval_finite [OF assms(6)]] show ?thesis by simp
qed

section \<open>The invariant\<close>

text \<open>What holds between the statements of a key, and what holds after it.\<close>

definition calc_good :: "'f float_ops \<Rightarrow> 'f Calculator \<Rightarrow> bool" where
  "calc_good F c \<longleftrightarrow>
    (\<forall>e. calc_error c = Some e \<longrightarrow> pending_op c = None \<and> frames c = [] \<and> display c = i18n_key e)
    \<and> frames_ok (pending_op c) (frames c) \<and> length (calc_history c) \<le> HISTORY_CAP
    \<and> significant_digit_count (entry c) \<le> MAX_DIGITS \<and> (entering c \<or> overwrite c)
    \<and> (\<forall>h \<in> set (calc_history c). he_result h = format_number F (he_value h))"

definition screen_shown :: "'f float_ops \<Rightarrow> 'f Calculator \<Rightarrow> ustring" where
  "screen_shown F c = (case calc_error c of
      Some e \<Rightarrow> i18n_key e
    | None \<Rightarrow> if entering c \<and> entry c \<noteq> [] then entry c else format_number F (calc_value c))"

lemma count_simps [simp]:
  "significant_digit_count [] = 0" "significant_digit_count [48] = 1" "significant_digit_count [49] = 1"
  "significant_digit_count (45 # s) = significant_digit_count s"
  by (simp_all add: significant_digit_count_def is_ascii_digit_def)

lemma takeWhile_snoc:
  "takeWhile P (s @ [x]) = takeWhile P s \<or> takeWhile P s = s \<and> takeWhile P (s @ [x]) = s @ [x]"
  by (induction s) auto

lemma count_append:
  "significant_digit_count (s @ [x]) = significant_digit_count s
   \<or> is_ascii_digit x \<and> significant_digit_count (s @ [x]) = Suc (significant_digit_count s)"
  using takeWhile_snoc [of "\<lambda>c. c \<noteq> 101 \<and> c \<noteq> 69" s x]
proof (elim disjE conjE)
  assume "takeWhile (\<lambda>c. c \<noteq> 101 \<and> c \<noteq> 69) s = s"
    and "takeWhile (\<lambda>c. c \<noteq> 101 \<and> c \<noteq> 69) (s @ [x]) = s @ [x]"
  then have "significant_digit_count s = length (filter is_ascii_digit s)"
    "significant_digit_count (s @ [x]) = length (filter is_ascii_digit (s @ [x]))"
    by (simp_all only: significant_digit_count_def)
  then show ?thesis by simp
qed (simp only: significant_digit_count_def simp_thms)

lemma count_snoc: "significant_digit_count (s @ [x]) \<le> Suc (significant_digit_count s)"
  using count_append [of s x] by auto

lemma count_snoc_other: "\<not> is_ascii_digit x \<Longrightarrow> significant_digit_count (s @ [x]) = significant_digit_count s"
  using count_append [of s x] by auto

lemma count_butlast: "significant_digit_count (butlast s) \<le> significant_digit_count s"
proof (cases s rule: rev_cases)
  case (snoc t x)
  then show ?thesis using count_append [of t x] by auto
qed simp

lemma max_digits_pos [simp]: "Suc 0 \<le> MAX_DIGITS" "0 < MAX_DIGITS"
  by (simp_all add: MAX_DIGITS_def)

lemma good_error [simp]: "calc_good F c \<Longrightarrow> calc_good F (set_error e c)"
  by (simp add: calc_good_def set_error_def)

lemma good_value [simp]: "calc_good F c \<Longrightarrow> calc_good F (set_value F v c)"
  by (auto simp: set_value_def calc_good_def set_error_def split: sum.split)

lemma good_history [simp]: "calc_good F c \<Longrightarrow> calc_good F (push_history F ex v c)"
  by (auto simp: calc_good_def push_history_def dest!: in_set_takeD)

lemma good_updates [simp]:
  "calc_good F c \<Longrightarrow> calc_good F (c\<lparr>overwrite := True\<rparr>)"
  "calc_good F c \<Longrightarrow> calc_good F (c\<lparr>expression := ex\<rparr>)"
  "calc_good F c \<Longrightarrow> calc_good F (c\<lparr>last_op := l\<rparr>)"
  "calc_good F c \<Longrightarrow> calc_good F (c\<lparr>second := b\<rparr>)"
  "calc_good F c \<Longrightarrow> calc_good F (c\<lparr>calc_angle := a\<rparr>)"
  "calc_good F c \<Longrightarrow> calc_good F (c\<lparr>calc_mode := m\<rparr>)"
  "calc_good F c \<Longrightarrow> calc_good F (c\<lparr>calc_history := []\<rparr>)"
  "calc_good F c \<Longrightarrow> calc_good F (c\<lparr>memory := x\<rparr>)"
  "calc_good F c \<Longrightarrow> calc_good F (c\<lparr>memory_set := b\<rparr>)"
  "calc_good F c \<Longrightarrow> calc_good F (c\<lparr>pending_op := None, frames := []\<rparr>)"
  "calc_good F c \<Longrightarrow> calc_good F (c\<lparr>overwrite := True, entering := False\<rparr>)"
  "calc_good F c \<Longrightarrow> calc_good F (c\<lparr>entering := False, overwrite := True, entry := []\<rparr>)"
  by (simp_all add: calc_good_def)

text \<open>The frames stay well formed.\<close>

lemma frames_ok_drain: "frames_ok p fs \<Longrightarrow> drain_frames F fs v = Inr (fs', w) \<Longrightarrow> frames_ok None fs'"
  by (induction F fs v arbitrary: p rule: drain_frames.induct) (auto split: sum.splits)

lemma frames_ok_pop: "frames_ok p fs \<Longrightarrow> pop_parens fs p ex = (fs', p', ex') \<Longrightarrow> frames_ok p' fs'"
proof (induction fs p ex rule: pop_parens.induct)
  case (3 a op e s p ex)
  then obtain q where "p = Some q" "frames_ok (Some (a, op, e)) s" by auto
  then show ?case using 3(2) frames_ok_Some [of q s] by auto
qed auto

lemma good_apply_pending:
  "calc_good F c \<Longrightarrow> apply_pending F c v = Inr (c', w) \<Longrightarrow>
    frames_ok (Some x) (frames c') \<and> calc_error c' = calc_error c \<and> calc_history c' = calc_history c \<and> entry c' = entry c
    \<and> entering c' = entering c \<and> overwrite c' = overwrite c \<and> display c' = display c"
  using frames_ok_start [of "frames c" x] frames_ok_Some [of "the (pending_op c)" "frames c" x]
  by (auto simp: apply_pending_def calc_good_def split: option.splits sum.splits)

lemma good_close_inner:
  assumes "calc_good F c" and "calc_error c = None" and "close_paren_inner F c v = Inr (c', w)"
  shows "calc_good F c' \<and> calc_error c' = None"
proof -
  obtain c1 v1 where 1: "apply_pending F c v = Inr (c1, v1)" using assms(3)
    by (auto simp: close_paren_inner_def split: sum.splits)
  obtain p ex fs where 2: "drain_frames F (frames c1) v1 = Inr (Paren p ex # fs, w)"
    and c': "c' = c1\<lparr>frames := fs, pending_op := p, expression := ex @ format_number F w @ [41]\<rparr>"
    using assms(3) 1 by (auto simp: close_paren_inner_def split: sum.splits list.splits Frame.splits)
  have "frames_ok p fs" using frames_ok_drain [OF _ 2] good_apply_pending [OF assms(1) 1] by fastforce
  then show ?thesis using good_apply_pending [OF assms(1) 1] assms(1,2) c' by (simp add: calc_good_def)
qed

lemma good_close_all:
  "calc_good F c \<Longrightarrow> calc_error c = None \<Longrightarrow> close_all F c v = Inr (c', w) \<Longrightarrow> calc_good F c' \<and> calc_error c' = None"
proof (induction F c v rule: close_all.induct)
  case (1 F c v)
  show ?case
  proof (cases "\<exists>f \<in> set (frames c). is_paren f")
    case True
    then obtain c1 v1 where "close_paren_inner F c v = Inr (c1, v1)" "close_all F c1 v1 = Inr (c', w)"
      using 1(4) by (subst (asm) close_all.simps) (auto split: sum.splits)
    then show ?thesis using 1(1) [OF _ _ refl] True good_close_inner [OF 1(2,3)] by blast
  next
    case False
    then show ?thesis using 1(2-4) by (subst (asm) close_all.simps) simp
  qed
qed

lemma current_no_error: "current_value F c = Inr v \<Longrightarrow> calc_error c = None"
  by (cases "calc_error c") (simp_all add: current_value_def)

lemma good_settle:
  "calc_good F c \<Longrightarrow> calc_good F (c\<lparr>expression := ex, overwrite := True, entering := False\<rparr>)"
  "calc_good F c \<Longrightarrow> calc_good F (c\<lparr>expression := ex, overwrite := True, entering := False, entry := []\<rparr>)"
  "calc_good F c \<Longrightarrow> calc_good F (c\<lparr>overwrite := True, entering := False, last_op := l\<rparr>)"
  "calc_good F c \<Longrightarrow> calc_good F (c\<lparr>entering := False, overwrite := True, entry := [], last_op := l\<rparr>)"
  "calc_good F c \<Longrightarrow> calc_good F (c\<lparr>expression := ex, pending_op := None, frames := [], last_op := l, overwrite := True, entering := False\<rparr>)"
  by (simp_all add: calc_good_def)

lemma good_repeat: "calc_good F c \<Longrightarrow> calc_good F (repeat_last F c)"
  by (auto simp: repeat_last_def good_settle split: option.split sum.split)

lemma good_finish: "calc_good F c \<Longrightarrow> calc_good F (finish_equals F v full again c)"
  by (auto simp: finish_equals_def Let_def good_settle)

lemma good_equals:
  assumes "calc_good F c" shows "calc_good F (equals F c)"
proof -
  have "calc_good F (case close_all F c v of Inl e \<Rightarrow> set_error e c
      | Inr (c, v) \<Rightarrow> (case reduce_all F (pending_op c) (frames c) v [] None of
          Inl e \<Rightarrow> set_error e c | Inr (v, full, again) \<Rightarrow> finish_equals F v full again c))"
    if "current_value F c = Inr v" for v
    using good_close_all [OF assms current_no_error [OF that], of v] assms
    by (auto simp: good_finish split: sum.split)
  then show ?thesis using assms good_repeat by (auto simp: equals_def split: sum.split)
qed

lemma good_close: "calc_good F c \<Longrightarrow> calc_good F (close_paren F c)"
  by (auto simp: close_paren_def good_settle split: sum.split dest!: current_no_error dest: good_close_inner)

lemma good_open: "calc_good F c \<Longrightarrow> calc_error c = None \<Longrightarrow> calc_good F (open_paren F c)"
  by (simp add: open_paren_def Let_def calc_good_def)

lemma good_await: "calc_good F c \<Longrightarrow> calc_good F (await_operand c)"
  by (simp add: await_operand_def)

lemma good_binary: 
  assumes "calc_good F c" shows "calc_good F (binary F op c)"
proof (cases "current_value F c")
  case (Inr v)
  then have no: "calc_error c = None" by (rule current_no_error)
  show ?thesis
  proof (cases "pending_op c")
    case None
    then have "frames_ok (Some x) (frames c)" for x using assms by (simp add: calc_good_def frames_ok_start)
    with assms no Inr None show ?thesis by (simp add: binary_def Let_def calc_good_def await_operand_def)
  next
    case (Some q)
    obtain a p ex where q: "q = (a, p, ex)" by (cases q)
    have fr: "frames_ok (Some x) (frames c)" for x using assms Some frames_ok_Some [of q _ x] by (simp add: calc_good_def)
    then show ?thesis using assms no Inr Some q
      by (auto simp: binary_def Let_def calc_good_def await_operand_def set_error_def split: sum.split)
  qed
qed (simp add: binary_def assms)

lemma good_set_mode: "calc_good F c \<Longrightarrow> calc_good F (calc_set_mode m c)"
  using frames_ok_pop [of "pending_op c" "frames c" "expression c"]
  by (auto simp: calc_set_mode_def Let_def calc_good_def split: prod.split)

lemma good_unary: "calc_good F c \<Longrightarrow> calc_good F (unary F l f c)"
  by (auto simp: unary_def good_settle split: sum.split)

lemma good_entry: "calc_good F c \<Longrightarrow> significant_digit_count s \<le> MAX_DIGITS \<Longrightarrow> calc_good F (c\<lparr>entry := s\<rparr>)"
  by (simp add: calc_good_def)

lemma good_value_field: "calc_good F c \<Longrightarrow> calc_good F (c\<lparr>calc_value := v\<rparr>)"
  by (simp add: calc_good_def)

lemma good_start: "calc_good F c \<Longrightarrow> significant_digit_count s \<le> MAX_DIGITS \<Longrightarrow> calc_good F (start_entry s c)"
  by (simp add: start_entry_def calc_good_def)

lemma good_stop: "calc_good F c \<Longrightarrow> calc_good F (c\<lparr>entry := [], calc_value := v, entering := False, overwrite := True\<rparr>)"
  by (simp add: calc_good_def)

lemma good_typed: "calc_good F c \<Longrightarrow> significant_digit_count s \<le> MAX_DIGITS \<Longrightarrow> calc_good F (c\<lparr>entry := s, calc_value := v\<rparr>)"
  by (simp add: calc_good_def)

lemma good_count: "calc_good F c \<Longrightarrow> significant_digit_count (entry c) \<le> MAX_DIGITS"
  by (simp add: calc_good_def)

lemma push_digit_count: "\<not> MAX_DIGITS \<le> significant_digit_count s \<Longrightarrow> significant_digit_count (s @ [x]) \<le> MAX_DIGITS"
  using count_snoc [of s x] by simp

lemma good_digit: 
  assumes "calc_good F c" shows "calc_good F (input_digit F d c)"
proof -
  have "calc_good F (start_entry [] (c\<lparr>last_op := None\<rparr>))" using assms by (simp add: good_start)
  then have "calc_good F (drop_zero (start_entry [] (c\<lparr>last_op := None\<rparr>)))" by (simp add: drop_zero_def good_entry)
  then show ?thesis by (simp add: input_digit_def Let_def good_typed push_digit_count)
qed

lemma good_decimal: 
  assumes "calc_good F c" shows "calc_good F (input_decimal c)"
proof -
  have good: "calc_good F (start_entry [48] (c\<lparr>last_op := None\<rparr>))" using assms by (simp add: good_start)
  then show ?thesis using good_count [OF good]
      count_snoc_other [of 46 "[48]"] by (auto simp: input_decimal_def Let_def count_snoc_other is_ascii_digit_def intro!: good_entry)
qed

lemma good_exp: 
  assumes "calc_good F c" shows "calc_good F (exp_notation c)"
proof -
  have good: "calc_good F (start_entry [49] c)" using assms by (simp add: good_start)
  then show ?thesis using good_count [OF good]
    by (auto simp: exp_notation_def Let_def count_snoc_other is_ascii_digit_def intro!: good_entry)
qed

lemma good_clear_all: "calc_good F c \<Longrightarrow> calc_good F (clear_all F c)"
  by (simp add: clear_all_def calc_new_def calc_good_def)

lemma good_backspace: "calc_good F c \<Longrightarrow> calc_good F (calc_backspace F c)"
  using le_trans [OF count_butlast good_count [of F c]]
  by (simp add: calc_backspace_def Let_def good_clear_all good_stop good_typed)

lemma good_negate: 
  assumes "calc_good F c" shows "calc_good F (negate F c)"
proof -
  have "significant_digit_count (case strip_prefix [45] (entry c) of Some r \<Rightarrow> r
      | None \<Rightarrow> if entry c \<noteq> [] then 45 # entry c else entry c) \<le> MAX_DIGITS"
    using good_count [OF assms] by (auto simp: strip_prefix_Some_iff split: option.split)
  moreover have "calc_good F (c\<lparr>calc_value := f_neg F (calc_value c), entry := [], entering := False, overwrite := True\<rparr>)"
    using assms by (simp add: calc_good_def)
  ultimately show ?thesis using assms by (simp add: negate_def Let_def good_typed)
qed

lemma good_simple_keys:
  "calc_good F c \<Longrightarrow> calc_good F (clear_entry F c)"
  "calc_good F c \<Longrightarrow> calc_good F (insert_constant F v c)"
  "calc_good F c \<Longrightarrow> calc_good F (mem_recall F c)"
  "calc_good F c \<Longrightarrow> calc_good F (history_recall F i c)"
  "calc_good F c \<Longrightarrow> calc_good F (percent F c)"
  "calc_good F c \<Longrightarrow> calc_good F (remember F g c)"
proof -
  assume good: "calc_good F c"
  then show "calc_good F (clear_entry F c)" by (simp add: clear_entry_def calc_good_def)
  show "calc_good F (insert_constant F v c)" using good by (simp add: insert_constant_def good_settle)
  show "calc_good F (mem_recall F c)" using good by (simp add: mem_recall_def good_settle)
  show "calc_good F (history_recall F i c)"
    using good by (auto simp: history_recall_def good_settle split: option.split)
  show "calc_good F (percent F c)"
    using good by (auto simp: percent_def Let_def split: sum.split)
  show "calc_good F (remember F g c)"
    using good by (auto simp: remember_def calc_good_def split: sum.split)
qed

lemma good_apply_unary: "calc_good F c \<Longrightarrow> calc_good F (apply_unary F key c)"
  by (cases key) (simp_all add: shifted_def inverse_trig_def trig_def good_unary)

lemma good_apply_key:
  assumes "calc_good F c" and "calc_error c = None \<or> clear_key key \<or> setting_key key"
  shows "calc_good F (apply_key F key c)"
  using assms
  by (cases key) (simp_all add: clear_key_def good_digit good_decimal good_exp good_clear_all good_backspace good_negate
      good_simple_keys good_set_mode good_close good_open good_equals good_binary good_apply_unary del: apply_unary.simps)

definition calc_inv :: "'f float_ops \<Rightarrow> 'f Calculator \<Rightarrow> bool" where
  "calc_inv F c \<longleftrightarrow> calc_good F c \<and> display c = screen_shown F c"

lemma inv_sync: "calc_good F c \<Longrightarrow> calc_inv F (sync_display F c)"
  by (cases "calc_error c") (auto simp: calc_inv_def calc_good_def sync_display_def screen_shown_def)

lemma inv_press: "calc_inv F c \<Longrightarrow> calc_inv F (press F key c)"
  by (auto simp: press_def inv_sync good_digit good_clear_all good_apply_key calc_inv_def [of F c]
      split: option.split)

lemma inv_new: "f_eq F (f_lit F 0) (f_lit F 0) \<Longrightarrow> calc_inv F (calc_new F)"
  by (simp add: calc_inv_def calc_good_def calc_new_def screen_shown_def format_number_def)

text \<open>Whole numbers as an instance of the operations.\<close>

definition digits_int :: "ustring \<Rightarrow> int" where
  "digits_int s = foldl (\<lambda>n c. 10 * n + (int c - 48)) 0 s"

definition whole_ops :: "int float_ops" where
  "whole_ops = \<lparr>f_lit = floor, f_pi = 3, f_e = 2, f_add = (+), f_sub = (-), f_mul = (*), f_div = (div), f_rem = (mod),
    f_powf = (\<lambda>a b. a ^ nat b), f_neg = uminus, f_eq = (=), f_lt = (<), f_nan = (\<lambda>_. False), f_inf = (\<lambda>x. 10 ^ 20 < abs x),
    f_fn = (\<lambda>f x. if f = FAbs then abs x else if f = FFract then 0 else x), f_to_u32 = nat,
    f_parse = (\<lambda>s. if s \<noteq> [] \<and> (\<forall>c \<in> set s. is_ascii_digit c) then Some (digits_int s) else None),
    f_fixed = (\<lambda>_ x. (if x < 0 then [45] else []) @ nat_text (nat (abs x))),
    f_sci = (\<lambda>_ x. (if x < 0 then [45] else []) @ nat_text (nat (abs x)))\<rparr>"

definition fresh_scientific :: "int Calculator" where
  "fresh_scientific = press whole_ops (SetMode Scientific) (calc_new whole_ops)"

text \<open>2 + 3 * 4 ^ 2.\<close>

definition sample_expr :: calc_expr where
  "sample_expr = Bin (Num [2]) OpAdd (Bin (Num [3]) OpMul (Bin (Num [4]) OpPow (Num [2])))"

theorem calculator_follows_precedence_witness:
  "shows_result Scientific whole_ops fresh_scientific 50 (press_all whole_ops (expr_keys sample_expr @ [Equals]) fresh_scientific)"
proof (rule calculator_follows_precedence)
  show "ready Scientific fresh_scientific" "op_links fresh_scientific = []" by code_simp+
  show "numbers_typed sample_expr" "by_precedence sample_expr" "shallow_left sample_expr" "root_op sample_expr \<noteq> None"
    by code_simp+
  show "eval_expr whole_ops sample_expr = Inr 50" by code_simp
qed

text \<open>(2 + 3) * 4.\<close>

definition sample_chain :: calc_expr where
  "sample_chain = Bin (Bin (Num [2]) OpAdd (Num [3])) OpMul (Num [1, 4])"

theorem calculator_left_to_right_witness:
  "shows_result Standard whole_ops (calc_new whole_ops) 70 (press_all whole_ops (expr_keys sample_chain @ [Equals]) (calc_new whole_ops))"
proof (rule calculator_left_to_right)
  show "ready Standard (calc_new whole_ops)" "op_links (calc_new whole_ops) = []" by code_simp+
  show "numbers_typed sample_chain" "left_to_right sample_chain" "root_op sample_chain \<noteq> None" by code_simp+
  show "eval_expr whole_ops sample_chain = Inr 70" by code_simp
qed

text \<open>
  C31.  Whatever is typed, the display shows the error if there is one, else the entry being typed, else the value; an error
  leaves no operation waiting; no frame but a parenthesis stands below an empty pending slot; at most 16 digits are entered
  and 64 results kept, each with the text of its value.
\<close>

theorem calculator_invariant:
  assumes "f_eq F (f_lit F 0) (f_lit F 0)"
  shows "calc_inv F (press_all F ks (calc_new F))"
proof -
  have "calc_inv F c \<Longrightarrow> calc_inv F (press_all F ks c)" for c
    by (induction ks arbitrary: c) (simp_all add: inv_press)
  then show ?thesis using inv_new [OF assms] by blast
qed

theorem calculator_invariant_witness:
  "calc_inv whole_ops (press_all whole_ops [Digit 7, Divide, Digit 0, Equals, Add] (calc_new whole_ops))
   \<and> display (press_all whole_ops [Digit 7, Divide, Digit 0, Equals, Add] (calc_new whole_ops)) = i18n_key DivideByZero"
proof
  show "calc_inv whole_ops (press_all whole_ops [Digit 7, Divide, Digit 0, Equals, Add] (calc_new whole_ops))"
    by (rule calculator_invariant) (simp add: whole_ops_def)
qed code_simp

text \<open>
  After an error only clearing, a setting or a digit does anything: a setting keeps the error on the display, a digit
  starts over with the memory and the history kept.
\<close>

theorem error_blocks_keys:
  assumes "calc_inv F c" and "calc_error c = Some e"
  shows "\<not> clear_key key \<Longrightarrow> \<not> setting_key key \<Longrightarrow> digit_key key = None \<Longrightarrow> press F key c = c"
    and "setting_key key \<Longrightarrow> calc_error (press F key c) = Some e \<and> display (press F key c) = i18n_key e"
    and "calc_error (press F (Digit d) c) = None \<and> display (press F (Digit d) c) = [unat (48 + d)]
         \<and> entry (press F (Digit d) c) = [unat (48 + d)] \<and> memory (press F (Digit d) c) = memory c
         \<and> calc_history (press F (Digit d) c) = calc_history c"
proof -
  show "press F key c = c" if "\<not> clear_key key" "\<not> setting_key key" "digit_key key = None"
    using that assms(2) by (simp add: press_def)
  show "calc_error (press F key c) = Some e \<and> display (press F key c) = i18n_key e" if "setting_key key"
    using that assms by (cases key) (auto simp: press_def calc_inv_def calc_good_def sync_display_def calc_set_mode_def Let_def)
  show "calc_error (press F (Digit d) c) = None \<and> display (press F (Digit d) c) = [unat (48 + d)]
         \<and> entry (press F (Digit d) c) = [unat (48 + d)] \<and> memory (press F (Digit d) c) = memory c
         \<and> calc_history (press F (Digit d) c) = calc_history c"
    using assms(2) by (simp add: press_def input_digit_def Let_def start_entry_def drop_zero_def clear_all_def calc_new_def
        sync_display_def MAX_DIGITS_def)
qed

section \<open>Where the engine goes wrong\<close>

text \<open>
  A new operator applies the pending one, but not the ones stacked below it that bind as tight: 10 - 2 * 3 - 1 gives
  10 - (6 - 1).
\<close>

lemma chained_subtraction_wrong:
  "let t = Bin (Bin (Num [1, 0]) OpSub (Bin (Num [2]) OpMul (Num [3]))) OpSub (Num [1]);
       c = press_all whole_ops (expr_keys t @ [Equals]) fresh_scientific
   in by_precedence t \<and> numbers_typed t \<and> eval_expr whole_ops t = Inr 3 \<and> display c = nat_text 5"
  by code_simp

text \<open>Switching to standard mode pops, and loses, the operation below the parentheses: 2 + 3 * 4 gives 12.\<close>

lemma mode_switch_drops_operation:
  "display (press_all whole_ops [Digit 2, Add, Digit 3, Multiply, SetMode Standard, Digit 4, Equals] fresh_scientific)
   = nat_text 12"
  by code_simp

text \<open>
  An entry too large for a number is not checked as a computed value is: pressed within parentheses, equals records it in
  the history before it shows the overflow.
\<close>

definition exponent_ops :: "int float_ops" where
  "exponent_ops = whole_ops\<lparr>f_parse := \<lambda>s. case split_once 101 s of
     None \<Rightarrow> Some (digits_int s) | Some (m, e) \<Rightarrow> Some (digits_int m * 10 ^ nat (digits_int e)), f_fixed := \<lambda>_ _. [], f_sci := \<lambda>_ _. []\<rparr>"

lemma overflow_recorded:
  "let c = press_all exponent_ops [SetMode Scientific, OpenParen, Digit 1, ExpNotation, Digit 2, Digit 2, Equals] (calc_new exponent_ops)
   in display c = i18n_key Overflow \<and> map he_value (calc_history c) = [10 ^ 22]"
  by code_simp

end
