(* ===== verification/File_Selection.thy ===== *)
theory File_Selection
  imports Unicode_Text Utf8 "HOL-Library.Sublist"
begin

text \<open>
  The selection of the file manager (\<open>src/crates/orchid-widgets/src/builtin/file_manager/selection.rs\<close>): ranges,
  rectangles, masks, the keyboard, and the filter that a mask applies to an entry.  A path list is the list of the visible
  paths; the element that a hash set yields first is the parameter \<open>pick\<close>.
\<close>

section \<open>The model\<close>

type_synonym path = ustring

record SelectionModel =
  selected :: "path set"
  anchor :: "path option"
  lead :: "path option"

datatype MaskOp = MaskReplace | MaskAdd | MaskSubtract

definition selection_new :: SelectionModel where
  "selection_new = \<lparr>selected = {}, anchor = None, lead = None\<rparr>"

definition select_clear :: "SelectionModel \<Rightarrow> SelectionModel" where
  "select_clear s = s\<lparr>selected := {}, anchor := None, lead := None\<rparr>"

definition select_single :: "path \<Rightarrow> SelectionModel \<Rightarrow> SelectionModel" where
  "select_single p s = s\<lparr>selected := {p}, anchor := Some p, lead := Some p\<rparr>"

definition select_all :: "path list \<Rightarrow> SelectionModel \<Rightarrow> SelectionModel" where
  "select_all ordered s =
    (let s = s\<lparr>selected := set ordered\<rparr>
     in if ordered = [] then s\<lparr>anchor := None, lead := None\<rparr>
        else s\<lparr>anchor := Some (ordered ! 0), lead := Some (ordered ! (length ordered - 1))\<rparr>)"

text \<open>The first and the last visible path that is selected.\<close>

fun first_selected :: "path set \<Rightarrow> path list \<Rightarrow> path option" where
  "first_selected S [] = None"
| "first_selected S (p # ps) = (if p \<in> S then Some p else first_selected S ps)"

definition sync_ends :: "path list \<Rightarrow> SelectionModel \<Rightarrow> SelectionModel" where
  "sync_ends ordered s =
    (let first = first_selected (selected s) ordered; final = first_selected (selected s) (rev ordered)
     in s\<lparr>anchor := first, lead := (case final of Some p \<Rightarrow> Some p | None \<Rightarrow> first)\<rparr>)"

definition invert :: "path list \<Rightarrow> SelectionModel \<Rightarrow> SelectionModel" where
  "invert ordered s = sync_ends ordered (s\<lparr>selected := set (filter (\<lambda>p. p \<notin> selected s) ordered)\<rparr>)"

definition apply_matching :: "path list \<Rightarrow> MaskOp \<Rightarrow> (path \<Rightarrow> bool) \<Rightarrow> SelectionModel \<Rightarrow> SelectionModel" where
  "apply_matching ordered op pred s =
    sync_ends ordered
      (case op of
         MaskReplace \<Rightarrow> s\<lparr>selected := set (filter pred ordered)\<rparr>
       | MaskAdd \<Rightarrow> s\<lparr>selected := selected s \<union> set (filter pred ordered)\<rparr>
       | MaskSubtract \<Rightarrow> s\<lparr>selected := selected s - set (filter pred ordered)\<rparr>)"

definition select_index_range :: "path list \<Rightarrow> nat \<Rightarrow> nat \<Rightarrow> bool \<Rightarrow> SelectionModel \<Rightarrow> SelectionModel" where
  "select_index_range ordered frm to additive s =
    (if ordered = [] then s
     else
       let final = length ordered - 1; lo = min (min frm to) final; hi = min (max frm to) final;
           base = (if additive then selected s else {})
       in s\<lparr>selected := base \<union> set (map (\<lambda>i. ordered ! i) [lo..<Suc hi]), anchor := Some (ordered ! lo),
            lead := Some (ordered ! hi)\<rparr>)"

text \<open>The indices of the tiles of a rectangle, row by row, those past the last tile left out.\<close>

definition rect_indices :: "nat \<Rightarrow> nat \<Rightarrow> nat \<Rightarrow> nat \<Rightarrow> nat list" where
  "rect_indices final cols a b =
    (let r_lo = min (a div cols) (b div cols); r_hi = max (a div cols) (b div cols);
         c_lo = min (a mod cols) (b mod cols); c_hi = max (a mod cols) (b mod cols)
     in filter (\<lambda>i. i \<le> final) (concat (map (\<lambda>r. map (\<lambda>c. r * cols + c) [c_lo..<Suc c_hi]) [r_lo..<Suc r_hi])))"

definition select_index_rect :: "path list \<Rightarrow> nat \<Rightarrow> nat \<Rightarrow> nat \<Rightarrow> bool \<Rightarrow> SelectionModel \<Rightarrow> SelectionModel" where
  "select_index_rect ordered frm to columns additive s =
    (let cols = max columns 1
     in if cols = 1 then select_index_range ordered frm to additive s
        else if ordered = [] then s
        else
          let final = length ordered - 1; a = min frm final; b = min to final;
              base = (if additive then selected s else {})
          in s\<lparr>selected := base \<union> set (map (\<lambda>i. ordered ! i) (rect_indices final cols a b)),
               anchor := Some (ordered ! a), lead := Some (ordered ! b)\<rparr>)"

definition toggle :: "(path set \<Rightarrow> path) \<Rightarrow> path \<Rightarrow> SelectionModel \<Rightarrow> SelectionModel" where
  "toggle pick p s =
    (if p \<notin> selected s then s\<lparr>selected := insert p (selected s), anchor := Some p, lead := Some p\<rparr>
     else
       let s = s\<lparr>selected := selected s - {p}\<rparr>
       in if selected s = {} then s\<lparr>anchor := None, lead := None\<rparr>
          else
            let s = (if anchor s = Some p then s\<lparr>anchor := Some (pick (selected s))\<rparr> else s)
            in if lead s = Some p then s\<lparr>lead := anchor s\<rparr> else s)"

definition set_anchor :: "path \<Rightarrow> SelectionModel \<Rightarrow> SelectionModel" where
  "set_anchor p s = s\<lparr>anchor := Some p\<rparr>"

definition extend_to :: "path list \<Rightarrow> path \<Rightarrow> SelectionModel \<Rightarrow> SelectionModel" where
  "extend_to ordered to s =
    (case anchor s of
       None \<Rightarrow> select_single to s
     | Some an \<Rightarrow>
       (case (position (\<lambda>p. p = an) ordered, position (\<lambda>p. p = to) ordered) of
          (Some a, Some b) \<Rightarrow>
            s\<lparr>selected := set (map (\<lambda>i. ordered ! i) [min a b..<Suc (max a b)]), lead := Some to\<rparr>
        | _ \<Rightarrow> s))"

text \<open>\<open>i as i32\<close> keeps the low 32 bits; \<open>saturating_add\<close> stays within the range of \<open>i32\<close>.\<close>

definition as_i32 :: "nat \<Rightarrow> int" where
  "as_i32 n = sint (word_of_int (int n) :: 32 word)"

definition i32_sat_add :: "int \<Rightarrow> int \<Rightarrow> int" where
  "i32_sat_add a b = max (- (2 ^ 31)) (min (2 ^ 31 - 1) (a + b))"

definition relative_index :: "path list \<Rightarrow> nat option \<Rightarrow> int \<Rightarrow> nat" where
  "relative_index ordered current delta =
    (case current of
       None \<Rightarrow> if 0 \<le> delta then 0 else length ordered - 1
     | Some i \<Rightarrow> nat (max 0 (min (as_i32 (length ordered - 1)) (i32_sat_add (as_i32 i) delta))))"

definition current_index :: "path list \<Rightarrow> SelectionModel \<Rightarrow> nat option" where
  "current_index ordered s =
    (case (case (case lead s of Some p \<Rightarrow> Some p | None \<Rightarrow> anchor s) of
             Some a \<Rightarrow> position (\<lambda>p. p = a) ordered | None \<Rightarrow> None) of
       Some i \<Rightarrow> Some i
     | None \<Rightarrow> position (\<lambda>p. p \<in> selected s) ordered)"

definition select_relative :: "path list \<Rightarrow> int \<Rightarrow> bool \<Rightarrow> SelectionModel \<Rightarrow> SelectionModel" where
  "select_relative ordered delta extending s =
    (if ordered = [] then s
     else
       let current = current_index ordered s; target = ordered ! relative_index ordered current delta
       in if \<not> extending then select_single target s
          else
            let s = (if anchor s = None
                     then s\<lparr>anchor := Some (case current of Some i \<Rightarrow> ordered ! i | None \<Rightarrow> target)\<rparr> else s)
            in extend_to ordered target s)"

section \<open>Masks\<close>

text \<open>The glob works on the bytes of the pattern and of the name; 42 is the star, 63 the question mark.\<close>

definition ascii_lower_byte :: "u8 \<Rightarrow> u8" where
  "ascii_lower_byte b = (if 65 \<le> b \<and> b \<le> 90 then b + 32 else b)"

definition same_letter :: "u8 \<Rightarrow> u8 \<Rightarrow> bool" where
  "same_letter a b \<longleftrightarrow> ascii_lower_byte a = ascii_lower_byte b"

fun glob_ci :: "bytes \<Rightarrow> bytes \<Rightarrow> bool" where
  "glob_ci [] [] = True"
| "glob_ci [] (c # t) = False"
| "glob_ci (x # p) t =
    (if x = 42 then \<exists>t' \<in> set (suffixes t). glob_ci p t'
     else case t of
            [] \<Rightarrow> False
          | c # t' \<Rightarrow> if x = 63 then glob_ci p t' else same_letter x c \<and> glob_ci p t')"

record SelectFilter =
  sf_pattern :: bytes
  sf_files :: bool
  sf_folders :: bool
  sf_min_size :: "nat option"
  sf_max_size :: "nat option"
  sf_hidden :: bool
  sf_readonly :: bool
  sf_newer_than_days :: "nat option"

definition filter_default :: SelectFilter where
  "filter_default = \<lparr>sf_pattern = [42], sf_files = True, sf_folders = True, sf_min_size = None, sf_max_size = None,
    sf_hidden = False, sf_readonly = False, sf_newer_than_days = None\<rparr>"

definition name_mask :: "bytes \<Rightarrow> SelectFilter" where
  "name_mask pattern = filter_default\<lparr>sf_pattern := pattern\<rparr>"

text \<open>\<open>trim\<close> of a text is a parameter of the byte level.\<close>

definition name_glob_match :: "(bytes \<Rightarrow> bytes) \<Rightarrow> bytes \<Rightarrow> bytes \<Rightarrow> bool" where
  "name_glob_match trimmed pattern name =
    (let pat = trimmed pattern
     in if pat = [] then False else if pat = [42] \<or> pat = [42, 46, 42] then True else glob_ci pat name)"

text \<open>What the filter reads of an entry; times are in nanoseconds.\<close>

record FsEntryInfo =
  fe_name :: bytes
  fe_directory :: bool
  fe_size :: nat
  fe_hidden :: bool
  fe_readonly :: bool
  fe_modified :: "int option"

definition num_days :: "int \<Rightarrow> int" where
  "num_days d = sgn d * (abs d div (86400 * 10 ^ 9))"

definition size_excluded :: "SelectFilter \<Rightarrow> FsEntryInfo \<Rightarrow> bool" where
  "size_excluded f e =
    (if \<not> fe_directory e
     then (case sf_min_size f of Some m \<Rightarrow> fe_size e < m | None \<Rightarrow> False)
        \<or> (case sf_max_size f of Some m \<Rightarrow> m < fe_size e | None \<Rightarrow> False)
     else sf_min_size f \<noteq> None \<or> sf_max_size f \<noteq> None)"

definition too_old :: "int \<Rightarrow> SelectFilter \<Rightarrow> FsEntryInfo \<Rightarrow> bool" where
  "too_old now f e =
    (case sf_newer_than_days f of
       None \<Rightarrow> False
     | Some d \<Rightarrow> (case fe_modified e of None \<Rightarrow> True | Some t \<Rightarrow> int d < num_days (now - t)))"

definition entry_matches_filter :: "(bytes \<Rightarrow> bytes) \<Rightarrow> int \<Rightarrow> FsEntryInfo \<Rightarrow> SelectFilter \<Rightarrow> bool" where
  "entry_matches_filter trimmed now e f =
    (if fe_directory e \<and> \<not> sf_folders f then False
     else if \<not> fe_directory e \<and> \<not> sf_files f then False
     else if \<not> name_glob_match trimmed (sf_pattern f) (fe_name e) then False
     else if size_excluded f e then False
     else if sf_hidden f \<and> \<not> fe_hidden e then False
     else if sf_readonly f \<and> \<not> fe_readonly e then False
     else \<not> too_old now f e)"

section \<open>Ranges and rectangles\<close>

lemma nth_image: "set (map (\<lambda>i. xs ! i) [a..<b]) = (\<lambda>i. xs ! i) ` {a..<b}"
  by simp

text \<open>Row and column of a tile lie between those of the two corners.\<close>

definition in_rectangle :: "nat \<Rightarrow> nat \<Rightarrow> nat \<Rightarrow> nat \<Rightarrow> bool" where
  "in_rectangle cols a b i \<longleftrightarrow>
    min (a div cols) (b div cols) \<le> i div cols \<and> i div cols \<le> max (a div cols) (b div cols)
    \<and> min (a mod cols) (b mod cols) \<le> i mod cols \<and> i mod cols \<le> max (a mod cols) (b mod cols)"

lemma set_grid: "set (concat (map (\<lambda>r. map (\<lambda>c. r * n + c) cs) rs)) = {r * n + c | r c. r \<in> set rs \<and> c \<in> set cs}"
  by auto

lemma rect_indices_mem:
  "i \<in> set (rect_indices final cols a b) \<longleftrightarrow> i \<le> final \<and> (\<exists>r c. i = r * cols + c
    \<and> (min (a div cols) (b div cols) \<le> r \<and> r \<le> max (a div cols) (b div cols))
    \<and> (min (a mod cols) (b mod cols) \<le> c \<and> c \<le> max (a mod cols) (b mod cols)))"
  unfolding rect_indices_def Let_def set_filter set_grid set_upt atLeastLessThan_iff less_Suc_eq_le mem_Collect_eq
  by (rule conj_commute)

lemma rect_indices_iff:
  assumes "0 < cols"
  shows "i \<in> set (rect_indices final cols a b) \<longleftrightarrow> i \<le> final \<and> in_rectangle cols a b i"
  unfolding rect_indices_mem in_rectangle_def
proof (rule conj_cong [OF refl], rule iffI)
  assume "\<exists>r c. i = r * cols + c \<and> (min (a div cols) (b div cols) \<le> r \<and> r \<le> max (a div cols) (b div cols))
    \<and> (min (a mod cols) (b mod cols) \<le> c \<and> c \<le> max (a mod cols) (b mod cols))"
  then obtain r c where i: "i = r * cols + c"
    and r: "min (a div cols) (b div cols) \<le> r \<and> r \<le> max (a div cols) (b div cols)"
    and c: "min (a mod cols) (b mod cols) \<le> c \<and> c \<le> max (a mod cols) (b mod cols)"
    by (elim exE conjE) simp
  have "max (a mod cols) (b mod cols) < cols" using assms by simp
  then have "c < cols" using c by linarith
  then have "i div cols = r" "i mod cols = c" using i by simp_all
  then show "min (a div cols) (b div cols) \<le> i div cols \<and> i div cols \<le> max (a div cols) (b div cols)
    \<and> min (a mod cols) (b mod cols) \<le> i mod cols \<and> i mod cols \<le> max (a mod cols) (b mod cols)"
    using r c by simp
next
  assume "min (a div cols) (b div cols) \<le> i div cols \<and> i div cols \<le> max (a div cols) (b div cols)
    \<and> min (a mod cols) (b mod cols) \<le> i mod cols \<and> i mod cols \<le> max (a mod cols) (b mod cols)"
  then show "\<exists>r c. i = r * cols + c \<and> (min (a div cols) (b div cols) \<le> r \<and> r \<le> max (a div cols) (b div cols))
    \<and> (min (a mod cols) (b mod cols) \<le> c \<and> c \<le> max (a mod cols) (b mod cols))"
    by (intro exI [of _ "i div cols"] exI [of _ "i mod cols"]) simp
qed

text \<open>
  A marquee selects exactly the tiles whose row and column lie between those of its corners, and keeps what was selected
  only when it is additive.
\<close>

theorem marquee_selects_rectangle:
  assumes "1 < columns" and "frm < length ordered" and "to < length ordered"
  shows "selected (select_index_rect ordered frm to columns additive s) =
      (if additive then selected s else {}) \<union> {ordered ! i | i. i < length ordered \<and> in_rectangle columns frm to i}"
    and "anchor (select_index_rect ordered frm to columns additive s) = Some (ordered ! frm)"
    and "lead (select_index_rect ordered frm to columns additive s) = Some (ordered ! to)"
proof -
  have cols: "max columns 1 = columns" "columns \<noteq> 1" "0 < columns" and ne: "ordered \<noteq> []"
    and mins: "min frm (length ordered - 1) = frm" "min to (length ordered - 1) = to"
    using assms by auto
  have le: "i \<le> length ordered - 1 \<longleftrightarrow> i < length ordered" for i using ne by (cases ordered) auto
  have "set (map (\<lambda>i. ordered ! i) (rect_indices (length ordered - 1) columns frm to)) =
      {ordered ! i | i. i < length ordered \<and> in_rectangle columns frm to i}"
    using rect_indices_iff [OF cols(3)] le by auto
  then show "selected (select_index_rect ordered frm to columns additive s) =
      (if additive then selected s else {}) \<union> {ordered ! i | i. i < length ordered \<and> in_rectangle columns frm to i}"
    using cols ne mins by (simp add: select_index_rect_def Let_def del: set_map)
  show "anchor (select_index_rect ordered frm to columns additive s) = Some (ordered ! frm)"
    and "lead (select_index_rect ordered frm to columns additive s) = Some (ordered ! to)"
    using cols ne mins by (simp_all add: select_index_rect_def Let_def)
qed

section \<open>The keyboard\<close>

text \<open>The lead walks up and down the listing and stops at its ends.\<close>

definition arrow_step :: "nat \<Rightarrow> nat \<Rightarrow> int \<Rightarrow> nat" where
  "arrow_step len i d = nat (max 0 (min (int len - 1) (int i + d)))"

definition selects_between :: "path list \<Rightarrow> nat \<Rightarrow> nat \<Rightarrow> SelectionModel \<Rightarrow> bool" where
  "selects_between ordered a b s \<longleftrightarrow>
    selected s = {ordered ! i | i. min a b \<le> i \<and> i \<le> max a b} \<and> anchor s = Some (ordered ! a) \<and> lead s = Some (ordered ! b)"

lemma as_i32_small: "n < 2 ^ 31 \<Longrightarrow> as_i32 n = int n"
  unfolding as_i32_def sint_sbintrunc' by (rule signed_take_bit_int_eq_self) simp_all

lemma relative_index_step:
  assumes "i < length ordered" and "length ordered \<le> 2 ^ 31" and "- (2 ^ 31) \<le> d" and "d < 2 ^ 31"
  shows "relative_index ordered (Some i) d = arrow_step (length ordered) i d"
proof -
  have i: "as_i32 i = int i" and l: "as_i32 (length ordered - 1) = int (length ordered) - 1"
    using assms(1,2) as_i32_small [of i] as_i32_small [of "length ordered - 1"] by auto
  have "max 0 (min (int (length ordered) - 1) (i32_sat_add (int i) d)) = max 0 (min (int (length ordered) - 1) (int i + d))"
    using assms by (auto simp: i32_sat_add_def)
  then show ?thesis by (simp only: relative_index_def option.case i l arrow_step_def)
qed

lemma arrow_step_less: "0 < len \<Longrightarrow> arrow_step len i d < len"
  by (auto simp: arrow_step_def)

lemma select_between_step:
  assumes "distinct ordered" and "a < length ordered" and "b < length ordered" and "length ordered \<le> 2 ^ 31"
    and "selects_between ordered a b s" and "- (2 ^ 31) \<le> d" and "d < 2 ^ 31"
  shows "selects_between ordered a (arrow_step (length ordered) b d) (select_relative ordered d True s)"
proof -
  let ?b = "arrow_step (length ordered) b d"
  have ne: "ordered \<noteq> []" using assms(2) by auto
  then have b': "?b < length ordered" by (intro arrow_step_less) simp
  have s: "anchor s = Some (ordered ! a)" "lead s = Some (ordered ! b)" using assms(5) by (simp_all add: selects_between_def)
  have "current_index ordered s = Some b"
    using position_distinct [OF assms(1,3)] s by (simp add: current_index_def)
  then have "select_relative ordered d True s = extend_to ordered (ordered ! ?b) s"
    using ne s relative_index_step [OF assms(3,4,6,7)] by (simp add: select_relative_def Let_def)
  moreover have "extend_to ordered (ordered ! ?b) s =
      s\<lparr>selected := set (map (\<lambda>i. ordered ! i) [min a ?b..<Suc (max a ?b)]), lead := Some (ordered ! ?b)\<rparr>"
    using s position_distinct [OF assms(1,2)] position_distinct [OF assms(1) b'] by (simp add: extend_to_def)
  ultimately show ?thesis using s by (auto simp: selects_between_def less_Suc_eq_le simp del: upt_Suc)
qed

text \<open>
  C37.  Shift and the arrow keys, after one entry was selected: the selection is always the interval between the entry and the
  place to which the presses have moved the lead.
\<close>

theorem arrows_select_interval:
  assumes "distinct ordered" and "a < length ordered" and "length ordered \<le> 2 ^ 31"
    and "\<forall>d \<in> set deltas. - (2 ^ 31) \<le> d \<and> d < 2 ^ 31"
  shows "selects_between ordered a (foldl (arrow_step (length ordered)) a deltas)
    (foldl (\<lambda>s d. select_relative ordered d True s) (select_single (ordered ! a) s) deltas)"
proof -
  have walk: "selects_between ordered a (foldl (arrow_step (length ordered)) b deltas)
      (foldl (\<lambda>s d. select_relative ordered d True s) s deltas)"
    if "selects_between ordered a b s" "b < length ordered" "\<forall>d \<in> set deltas. - (2 ^ 31) \<le> d \<and> d < 2 ^ 31" for b s deltas
    using that
  proof (induction deltas arbitrary: b s)
    case (Cons d ds)
    have "arrow_step (length ordered) b d < length ordered" using assms(2) by (intro arrow_step_less) linarith
    then show ?case
      using Cons.IH select_between_step [OF assms(1,2) Cons.prems(2) assms(3) Cons.prems(1), of d] Cons.prems(3) by simp
  qed simp
  have "selects_between ordered a a (select_single (ordered ! a) s)"
    by (auto simp: selects_between_def select_single_def)
  then show ?thesis using walk assms(2,4) by blast
qed

section \<open>Masks and inversion\<close>

lemma first_selected_Some: "first_selected S ps = Some p \<Longrightarrow> p \<in> S \<and> p \<in> set ps"
  by (induction ps) (auto split: if_splits)

lemma first_selected_None: "first_selected S ps = None \<longleftrightarrow> (\<forall>p \<in> set ps. p \<notin> S)"
  by (induction ps) auto

lemma sync_selected [simp]: "selected (sync_ends ordered s) = selected s"
  by (simp add: sync_ends_def Let_def)

text \<open>The ends of the selection are selected paths.\<close>

definition ends_selected :: "SelectionModel \<Rightarrow> bool" where
  "ends_selected s \<longleftrightarrow> (\<forall>p. anchor s = Some p \<longrightarrow> p \<in> selected s) \<and> (\<forall>p. lead s = Some p \<longrightarrow> p \<in> selected s)"

lemma ends_sync: "ends_selected (sync_ends ordered s)"
  by (auto simp: ends_selected_def sync_ends_def Let_def dest: first_selected_Some split: option.splits)

lemma in_between: "a \<le> i \<Longrightarrow> i \<le> b \<Longrightarrow> xs ! i \<in> set (map (\<lambda>i. xs ! i) [a..<Suc b])"
  by (simp del: upt_Suc add: less_Suc_eq_le)

lemma ends_extend_found:
  assumes "anchor s = Some an" and "an \<in> set ordered" and "to \<in> set ordered"
  shows "ends_selected (extend_to ordered to s)"
proof -
  obtain i j where i: "position (\<lambda>p. p = an) ordered = Some i" and j: "position (\<lambda>p. p = to) ordered = Some j"
    using assms(2,3) position_ex [of an ordered "\<lambda>p. p = an"] position_ex [of to ordered "\<lambda>p. p = to"] by auto
  then have "ordered ! i = an" "ordered ! j = to" by auto
  then show ?thesis using in_between [of "min i j" i "max i j" ordered] in_between [of "min i j" j "max i j" ordered] assms(1) i j
    by (simp add: extend_to_def ends_selected_def del: upt_Suc)
qed

lemma ends_extend:
  assumes "ends_selected s" shows "ends_selected (extend_to ordered to s)"
proof (cases "anchor s")
  case None
  then show ?thesis by (simp add: extend_to_def select_single_def ends_selected_def)
next
  case (Some an)
  show ?thesis
  proof (cases "an \<in> set ordered \<and> to \<in> set ordered")
    case True
    then show ?thesis using ends_extend_found Some by blast
  next
    case False
    then have "position (\<lambda>p. p = an) ordered = None \<or> position (\<lambda>p. p = to) ordered = None"
      by (auto simp: position_None_iff)
    then have "extend_to ordered to s = s" using Some by (auto simp: extend_to_def split: option.split)
    then show ?thesis using assms by simp
  qed
qed

lemma as_i32_le: "as_i32 n \<le> int n"
proof -
  have "signed_take_bit 31 (int n) \<le> int n" by (simp add: signed_take_bit_int_less_eq_self_iff)
  then show ?thesis by (simp add: as_i32_def sint_sbintrunc' del: of_int_of_nat_eq)
qed

lemma relative_index_less:
  assumes "ordered \<noteq> []" shows "relative_index ordered current d < length ordered"
proof (cases current)
  case (Some i)
  have "max 0 (min (as_i32 (length ordered - 1)) x) < int (length ordered)" for x
    using as_i32_le [of "length ordered - 1"] assms by (cases ordered) auto
  then show ?thesis by (simp only: relative_index_def Some option.case nat_less_iff max.cobounded1)
qed (use assms in \<open>simp add: relative_index_def\<close>)

lemma ends_relative:
  assumes "ends_selected s" shows "ends_selected (select_relative ordered delta extending s)"
proof (cases "ordered = [] \<or> \<not> extending \<or> anchor s \<noteq> None")
  case True
  then show ?thesis using assms ends_extend
    by (auto simp: select_relative_def Let_def select_single_def ends_selected_def)
next
  case False
  let ?t = "ordered ! relative_index ordered (current_index ordered s) delta"
  let ?a = "case current_index ordered s of Some i \<Rightarrow> ordered ! i | None \<Rightarrow> ?t"
  have "?t \<in> set ordered" using False relative_index_less by simp
  moreover have "i < length ordered" if "current_index ordered s = Some i" for i
    using that by (auto simp: current_index_def split: option.splits)
  then have "?a \<in> set ordered" using calculation by (auto split: option.split)
  moreover have "select_relative ordered delta extending s = extend_to ordered ?t (s\<lparr>anchor := Some ?a\<rparr>)"
    using False by (simp add: select_relative_def Let_def)
  ultimately show ?thesis using ends_extend_found [of "s\<lparr>anchor := Some ?a\<rparr>" ?a] by simp
qed

text \<open>The commands of the file manager on its selection.\<close>

datatype SelectionCommand = SelClear | SelSingle path | SelAll | SelInvert | SelMask MaskOp "path \<Rightarrow> bool"
  | SelRange nat nat bool | SelRect nat nat nat bool | SelToggle path | SelExtend path | SelMove int bool

fun run_command :: "(path set \<Rightarrow> path) \<Rightarrow> path list \<Rightarrow> SelectionCommand \<Rightarrow> SelectionModel \<Rightarrow> SelectionModel" where
  "run_command pick ordered SelClear s = select_clear s"
| "run_command pick ordered (SelSingle p) s = select_single p s"
| "run_command pick ordered SelAll s = select_all ordered s"
| "run_command pick ordered SelInvert s = invert ordered s"
| "run_command pick ordered (SelMask op pred) s = apply_matching ordered op pred s"
| "run_command pick ordered (SelRange a b additive) s = select_index_range ordered a b additive s"
| "run_command pick ordered (SelRect a b cols additive) s = select_index_rect ordered a b cols additive s"
| "run_command pick ordered (SelToggle p) s = toggle pick p s"
| "run_command pick ordered (SelExtend p) s = extend_to ordered p s"
| "run_command pick ordered (SelMove d extending) s = select_relative ordered d extending s"

lemma ends_range: "ends_selected s \<Longrightarrow> ends_selected (select_index_range ordered a b additive s)"
  using in_between [of "min (min a b) (length ordered - 1)" "min (min a b) (length ordered - 1)"
      "min (max a b) (length ordered - 1)" ordered]
    in_between [of "min (min a b) (length ordered - 1)" "min (max a b) (length ordered - 1)"
      "min (max a b) (length ordered - 1)" ordered]
  by (auto simp: select_index_range_def Let_def ends_selected_def simp del: upt_Suc set_map)

lemma corners_in_rect: "0 < cols \<Longrightarrow> a \<le> final \<Longrightarrow> b \<le> final \<Longrightarrow>
    a \<in> set (rect_indices final cols a b) \<and> b \<in> set (rect_indices final cols a b)"
  by (simp add: rect_indices_iff in_rectangle_def)

lemma ends_rect: 
  assumes "ends_selected s" shows "ends_selected (select_index_rect ordered a b columns additive s)"
proof -
  let ?n = "length ordered - 1"
  have "ordered ! i \<in> set (map (\<lambda>i. ordered ! i) (rect_indices ?n (max columns 1) (min a ?n) (min b ?n)))"
    if "i = min a ?n \<or> i = min b ?n" for i
    using that corners_in_rect [of "max columns 1" "min a ?n" ?n "min b ?n"] by auto
  then show ?thesis using assms ends_range
    by (auto simp: select_index_rect_def Let_def ends_selected_def simp del: set_map)
qed

lemma ends_toggle: "(\<And>S. S \<noteq> {} \<Longrightarrow> pick S \<in> S) \<Longrightarrow> ends_selected s \<Longrightarrow> ends_selected (toggle pick p s)"
proof -
  assume pick: "\<And>S. S \<noteq> {} \<Longrightarrow> pick S \<in> S" and ok: "ends_selected s"
  have "selected s - {p} = {} \<or> pick (selected s - {p}) \<in> selected s - {p}"
    using pick [of "selected s - {p}"] by (cases "selected s - {p} = {}") simp_all
  then show ?thesis using ok by (elim disjE) (auto simp: toggle_def Let_def ends_selected_def)
qed

lemma ends_all: "ends_selected (select_all ordered s)"
proof (cases "ordered = []")
  case False
  then have "ordered ! 0 \<in> set ordered" "ordered ! (length ordered - 1) \<in> set ordered" by simp_all
  then show ?thesis using False by (simp add: select_all_def Let_def ends_selected_def)
qed (simp add: select_all_def ends_selected_def)

lemma ends_command:
  assumes "\<And>S. S \<noteq> {} \<Longrightarrow> pick S \<in> S" and "ends_selected s"
  shows "ends_selected (run_command pick ordered c s)"
proof (cases c)
  case (SelToggle p)
  then show ?thesis using ends_toggle [OF assms] by simp
next
  case (SelMask op pred)
  then show ?thesis by (simp only: run_command.simps apply_matching_def ends_sync)
next
  case SelInvert
  then show ?thesis by (simp only: run_command.simps invert_def ends_sync)
next
  case SelClear
  then show ?thesis by (simp add: select_clear_def ends_selected_def)
next
  case (SelSingle p)
  then show ?thesis by (simp add: select_single_def ends_selected_def)
qed (use assms(2) in \<open>simp_all add: ends_all ends_range ends_rect ends_extend ends_relative\<close>)

text \<open>Whatever the listing shows at each command, anchor and lead are selected paths.\<close>

theorem selection_ends_selected:
  assumes "\<And>S. S \<noteq> {} \<Longrightarrow> pick S \<in> S"
  shows "ends_selected (fold (\<lambda>(ordered, c). run_command pick ordered c) commands selection_new)"
proof -
  have "ends_selected s \<Longrightarrow> ends_selected (fold (\<lambda>(ordered, c). run_command pick ordered c) commands s)" for s
    by (induction commands arbitrary: s) (auto simp: ends_command [OF assms])
  then show ?thesis by (simp add: selection_new_def ends_selected_def)
qed

text \<open>
  A mask replaces, adds to or takes from the selection exactly the visible matches, and leaves invisible paths alone when
  it adds or takes; the ends are then the first and the last selected path of the listing.
\<close>

theorem mask_selects_matches:
  shows "selected (apply_matching ordered op pred s) =
      (let matches = {p \<in> set ordered. pred p}
       in case op of MaskReplace \<Rightarrow> matches | MaskAdd \<Rightarrow> selected s \<union> matches | MaskSubtract \<Rightarrow> selected s - matches)"
    and "anchor (apply_matching ordered op pred s) = find (\<lambda>p. p \<in> selected (apply_matching ordered op pred s)) ordered"
    and "lead (apply_matching ordered op pred s) = find (\<lambda>p. p \<in> selected (apply_matching ordered op pred s)) (rev ordered)"
proof -
  have find: "first_selected S ps = find (\<lambda>p. p \<in> S) ps" for S ps by (induction ps) auto
  have rear: "(case find P (rev ps) of Some p \<Rightarrow> Some p | None \<Rightarrow> find P ps) = find P (rev ps)" for P and ps :: "path list"
  proof (cases "find P (rev ps)")
    case None
    then have "find P ps = None" by (simp add: find_None_iff)
    then show ?thesis using None by simp
  qed simp
  show "selected (apply_matching ordered op pred s) =
      (let matches = {p \<in> set ordered. pred p}
       in case op of MaskReplace \<Rightarrow> matches | MaskAdd \<Rightarrow> selected s \<union> matches | MaskSubtract \<Rightarrow> selected s - matches)"
    by (cases op) (auto simp: apply_matching_def Let_def)
  show "anchor (apply_matching ordered op pred s) = find (\<lambda>p. p \<in> selected (apply_matching ordered op pred s)) ordered"
    by (simp add: apply_matching_def sync_ends_def Let_def find)
  show "lead (apply_matching ordered op pred s) = find (\<lambda>p. p \<in> selected (apply_matching ordered op pred s)) (rev ordered)"
    by (simp add: apply_matching_def sync_ends_def Let_def find rear)
qed

lemma invert_involution:
  assumes "selected s \<subseteq> set ordered"
  shows "selected (invert ordered (invert ordered s)) = selected s"
  using assms by (auto simp: invert_def)

section \<open>The glob\<close>

text \<open>What a pattern means: the name is cut into one piece per token, a question mark taking one byte.\<close>

definition token_matches :: "u8 \<Rightarrow> bytes \<Rightarrow> bool" where
  "token_matches x piece \<longleftrightarrow> x = 42 \<or> (\<exists>c. piece = [c] \<and> (x = 63 \<or> same_letter x c))"

lemma star_suffix: "(\<exists>t' \<in> set (suffixes t). g t') \<longleftrightarrow> (\<exists>piece rest. t = piece @ rest \<and> g rest)"
  unfolding Bex_def in_set_suffixes suffix_def by blast

lemma first_byte: "(\<exists>piece rest. c # t = piece @ rest \<and> (\<exists>d. piece = [d] \<and> Q d) \<and> R rest) \<longleftrightarrow> Q c \<and> R t"
proof
  assume "Q c \<and> R t"
  then have "c # t = [c] @ t \<and> (\<exists>d. [c] = [d] \<and> Q d) \<and> R t" by simp
  then show "\<exists>piece rest. c # t = piece @ rest \<and> (\<exists>d. piece = [d] \<and> Q d) \<and> R rest" by blast
qed auto

theorem glob_matches_pieces: "glob_ci p t \<longleftrightarrow> (\<exists>pieces. concat pieces = t \<and> list_all2 token_matches p pieces)"
proof (induction p t rule: glob_ci.induct)
  case (3 x p t)
  have split: "(\<exists>pieces. concat pieces = t \<and> list_all2 token_matches (x # p) pieces) \<longleftrightarrow>
      (\<exists>piece rest. t = piece @ rest \<and> token_matches x piece \<and> (\<exists>ps. concat ps = rest \<and> list_all2 token_matches p ps))"
    by (auto simp: list_all2_Cons1) (blast, metis concat.simps(2))
  show ?case
  proof (cases "x = 42")
    case True
    then have star: "token_matches x piece" for piece by (simp add: token_matches_def)
    have g: "glob_ci (x # p) t \<longleftrightarrow> (\<exists>piece rest. t = piece @ rest \<and> glob_ci p rest)"
      using True by (simp only: glob_ci.simps simp_thms if_True star_suffix)
    have ih: "glob_ci p rest \<longleftrightarrow> (\<exists>ps. concat ps = rest \<and> list_all2 token_matches p ps)" if "t = piece @ rest" for piece rest
      using 3(1) [OF True, of rest] that by (auto simp: suffix_def)
    have "t = piece @ rest \<and> glob_ci p rest \<longleftrightarrow>
        t = piece @ rest \<and> token_matches x piece \<and> (\<exists>ps. concat ps = rest \<and> list_all2 token_matches p ps)" for piece rest
      using star ih [of piece rest] by (cases "t = piece @ rest") simp_all
    then show ?thesis unfolding split g by simp
  next
    case False
    then have tm: "token_matches x piece \<longleftrightarrow> (\<exists>c. piece = [c] \<and> (x = 63 \<or> same_letter x c))" for piece
      by (simp add: token_matches_def)
    show ?thesis
    proof (cases t)
      case Nil
      then show ?thesis using False unfolding split tm by simp
    next
      case (Cons c t')
      have "(\<exists>piece rest. t = piece @ rest \<and> token_matches x piece \<and> (\<exists>ps. concat ps = rest \<and> list_all2 token_matches p ps))
          \<longleftrightarrow> (x = 63 \<or> same_letter x c) \<and> (\<exists>ps. concat ps = t' \<and> list_all2 token_matches p ps)"
        unfolding tm Cons by (rule first_byte)
      moreover have "glob_ci p t' \<longleftrightarrow> (\<exists>ps. concat ps = t' \<and> list_all2 token_matches p ps)"
        if "x = 63 \<or> same_letter x c" using 3(2,3) [OF False Cons] that by blast
      ultimately show ?thesis using False unfolding split by (cases "x = 63 \<or> same_letter x c") (simp_all add: Cons, blast)
    qed
  qed
qed auto

text \<open>A question mark stands for a byte, not for a character: it does not match a letter with an accent.\<close>

lemma question_mark_misses_accent:
  "\<not> name_glob_match id [63, 46, 116] [0xC3, 0xA9, 46, 116] \<and> name_glob_match id [63, 63, 46, 116] [0xC3, 0xA9, 46, 116]"
  by code_simp

section \<open>Witnesses\<close>

abbreviation three_paths :: "path list" where
  "three_paths \<equiv> [[97], [98], [99], [100], [101], [102]]"

theorem marquee_selects_rectangle_witness:
  "selected (select_index_rect three_paths 1 3 3 False selection_new) = {[97], [98], [100], [101]}"
proof -
  have "{three_paths ! i | i. i < length three_paths \<and> in_rectangle 3 1 3 i} = (\<lambda>i. three_paths ! i) ` {i \<in> {0..<6}. in_rectangle 3 1 3 i}"
    by auto
  also have "{i \<in> {0..<6::nat}. in_rectangle 3 1 3 i} = {0, 1, 3, 4}" by code_simp
  finally show ?thesis using marquee_selects_rectangle(1) [of 3 1 three_paths 3 False selection_new] by simp
qed

theorem arrows_select_interval_witness:
  "selects_between three_paths 2 4 (foldl (\<lambda>s d. select_relative three_paths d True s) (select_single [99] selection_new) [1, 10, -1])"
  using arrows_select_interval [of three_paths 2 "[1, 10, -1]" selection_new] by (simp add: arrow_step_def)

theorem selection_ends_selected_witness:
  "ends_selected (fold (\<lambda>(ordered, c). run_command (\<lambda>S. SOME p. p \<in> S) ordered c)
    [(three_paths, SelAll), (three_paths, SelToggle [97]), (three_paths, SelInvert)] selection_new)"
  by (rule selection_ends_selected) (simp add: some_in_eq)

end
