(* ===== verification/File_Compare.thy ===== *)
theory File_Compare
  imports Ordered_Map Unicode_Text "HOL-Library.List_Lexorder"
begin

text \<open>
  Comparing and synchronising two folders (\<open>src/crates/orchid-fs/src/operations/compare.rs\<close>) with the rule by which a
  file is copied onto another (\<open>operations/copy.rs\<close>).  A folder is the map from relative paths to files that
  \<open>collect_files\<close> builds.  How a stream cuts a file into reads is a parameter of each side; whether a copy succeeds, and
  the time that a new file gets, are arguments.
\<close>

section \<open>Files and trees\<close>

record FileEntry =
  file_bytes :: bytes
  file_modified :: "int option"

type_synonym rel = ustring
type_synonym tree = "(rel \<times> FileEntry) list"

abbreviation file_size :: "FileEntry \<Rightarrow> nat" where
  "file_size f \<equiv> length (file_bytes f)"

section \<open>Comparing two files\<close>

record FileCompare =
  fc_equal :: bool
  fc_left_size :: nat
  fc_right_size :: nat
  fc_mismatch_at :: "nat option"

text \<open>The reads of one stream are non-empty and add up to the file; after the last one a read returns nothing.\<close>

definition first_read :: "bytes list \<Rightarrow> bytes" where
  "first_read reads = (case reads of [] \<Rightarrow> [] | r # _ \<Rightarrow> r)"

definition first_difference :: "bytes \<Rightarrow> bytes \<Rightarrow> nat option" where
  "first_difference a b = position (\<lambda>(x, y). x \<noteq> y) (zip a b)"

function compare_loop :: "bytes list \<Rightarrow> bytes list \<Rightarrow> nat \<Rightarrow> bool \<times> nat option" where
  "compare_loop ls rs off =
    (let l = first_read ls; r = first_read rs; n = min (length l) (length r)
     in if n = 0 then (let equal = (length l = length r) in (equal, if equal then None else Some off))
        else if take n l \<noteq> take n r
          then (False, Some (off + (case first_difference (take n l) (take n r) of Some i \<Rightarrow> i | None \<Rightarrow> 0)))
        else if length l \<noteq> length r then (False, Some (off + n))
        else compare_loop (tl ls) (tl rs) (off + n))"
  by pat_completeness auto
termination
  by (relation "measure (\<lambda>(ls, rs, off). length ls)") (auto simp: first_read_def split: list.splits)

declare compare_loop.simps [simp del]

definition compare_files :: "bytes list \<Rightarrow> bytes list \<Rightarrow> FileEntry \<Rightarrow> FileEntry \<Rightarrow> FileCompare" where
  "compare_files ls rs l r =
    (if file_size l \<noteq> file_size r
     then \<lparr>fc_equal = False, fc_left_size = file_size l, fc_right_size = file_size r,
            fc_mismatch_at = Some (min (file_size l) (file_size r))\<rparr>
     else let (equal, at_byte) = compare_loop ls rs 0
       in \<lparr>fc_equal = equal, fc_left_size = file_size l, fc_right_size = file_size r, fc_mismatch_at = at_byte\<rparr>)"

section \<open>Comparing two folders\<close>

datatype DiffKind = LeftOnly | RightOnly | Different | Identical

record DirDiffEntry =
  diff_rel :: rel
  diff_kind :: DiffKind

record DiffCounts =
  left_only :: nat
  right_only :: nat
  different :: nat
  identical :: nat

fun count_entry :: "DirDiffEntry \<Rightarrow> DiffCounts \<Rightarrow> DiffCounts" where
  "count_entry e c =
    (case diff_kind e of
       LeftOnly \<Rightarrow> c\<lparr>left_only := left_only c + 1\<rparr>
     | RightOnly \<Rightarrow> c\<lparr>right_only := right_only c + 1\<rparr>
     | Different \<Rightarrow> c\<lparr>different := different c + 1\<rparr>
     | Identical \<Rightarrow> c\<lparr>identical := identical c + 1\<rparr>)"

definition diff_counts :: "DirDiffEntry list \<Rightarrow> DiffCounts" where
  "diff_counts es = fold count_entry es \<lparr>left_only = 0, right_only = 0, different = 0, identical = 0\<rparr>"

text \<open>The streams of the two sides: how a read of the file at a path cuts its content.\<close>

record streams =
  left_reads :: "rel \<Rightarrow> bytes \<Rightarrow> bytes list"
  right_reads :: "rel \<Rightarrow> bytes \<Rightarrow> bytes list"

definition files_bytes_equal :: "streams \<Rightarrow> rel \<Rightarrow> FileEntry \<Rightarrow> FileEntry \<Rightarrow> bool" where
  "files_bytes_equal st p l r =
    fc_equal (compare_files (left_reads st p (file_bytes l)) (right_reads st p (file_bytes r)) l r)"

definition classify_pair :: "streams \<Rightarrow> rel \<Rightarrow> bool \<Rightarrow> FileEntry \<Rightarrow> FileEntry \<Rightarrow> DiffKind" where
  "classify_pair st p byte_level l r =
    (if file_size l \<noteq> file_size r then Different
     else if byte_level then (if files_bytes_equal st p l r then Identical else Different)
     else if file_modified l = file_modified r then Identical else Different)"

definition compare_rel :: "streams \<Rightarrow> bool \<Rightarrow> tree \<Rightarrow> tree \<Rightarrow> rel \<Rightarrow> DirDiffEntry option" where
  "compare_rel st byte_level left right p =
    (case (om_get left p, om_get right p) of
       (Some _, None) \<Rightarrow> Some \<lparr>diff_rel = p, diff_kind = LeftOnly\<rparr>
     | (None, Some _) \<Rightarrow> Some \<lparr>diff_rel = p, diff_kind = RightOnly\<rparr>
     | (Some l, Some r) \<Rightarrow> Some \<lparr>diff_rel = p, diff_kind = classify_pair st p byte_level l r\<rparr>
     | (None, None) \<Rightarrow> None)"

definition all_rels :: "tree \<Rightarrow> tree \<Rightarrow> rel list" where
  "all_rels left right = remdups_adj (sort (map fst left @ map fst right))"

definition compare_dirs :: "streams \<Rightarrow> bool \<Rightarrow> tree \<Rightarrow> tree \<Rightarrow> DirDiffEntry list" where
  "compare_dirs st byte_level left right = List.map_filter (compare_rel st byte_level left right) (all_rels left right)"

section \<open>Copying a file onto another\<close>

record CopyOptions =
  opt_overwrite :: bool
  opt_skip_existing :: bool
  opt_overwrite_older :: bool
  opt_resume :: bool
  opt_verify_content_hash :: bool
  opt_preserve_timestamps :: bool

definition copy_default :: CopyOptions where
  "copy_default = \<lparr>opt_overwrite = False, opt_skip_existing = False, opt_overwrite_older = False, opt_resume = False,
    opt_verify_content_hash = False, opt_preserve_timestamps = True\<rparr>"

datatype copy_error = AlreadyExists | NotFound | CopyFailed

text \<open>What happens with the destination: leave it, refuse, or write from an offset on.\<close>

datatype copy_plan = SkipCopy | RefuseCopy | WriteFrom nat

definition older_allowed :: "FileEntry \<Rightarrow> FileEntry \<Rightarrow> bool" where
  "older_allowed src dst =
    (case (file_modified src, file_modified dst) of (Some s, Some d) \<Rightarrow> \<not> s \<le> d | _ \<Rightarrow> True)"

definition plan_copy :: "CopyOptions \<Rightarrow> bool \<Rightarrow> FileEntry \<Rightarrow> FileEntry option \<Rightarrow> copy_plan" where
  "plan_copy opts to_local src dest =
    (case dest of
       None \<Rightarrow> WriteFrom 0
     | Some dst \<Rightarrow>
       if opt_skip_existing opts then SkipCopy
       else if opt_overwrite_older opts then (if older_allowed src dst then WriteFrom 0 else SkipCopy)
       else if opt_resume opts
         then (if 0 < file_size dst \<and> file_size dst < file_size src \<and> to_local
               then WriteFrom (if opt_verify_content_hash opts then 0 else file_size dst)
               else if \<not> opt_overwrite opts then RefuseCopy else WriteFrom 0)
       else if \<not> opt_overwrite opts then RefuseCopy
       else WriteFrom 0)"

text \<open>
  The new file and the length that is reported.  \<open>now\<close> is the time that the system gives a file it writes; only a local
  destination keeps the time of the source.
\<close>

definition copy_file :: "CopyOptions \<Rightarrow> bool \<Rightarrow> int option \<Rightarrow> FileEntry \<Rightarrow> FileEntry option \<Rightarrow>
  copy_error + FileEntry option \<times> nat" where
  "copy_file opts to_local now src dest =
    (case plan_copy opts to_local src dest of
       SkipCopy \<Rightarrow> Inr (dest, 0)
     | RefuseCopy \<Rightarrow> Inl AlreadyExists
     | WriteFrom n \<Rightarrow>
         Inr (Some \<lparr>file_bytes = (case dest of Some d \<Rightarrow> take n (file_bytes d) | None \<Rightarrow> []) @ drop n (file_bytes src),
                file_modified = (if opt_preserve_timestamps opts \<and> to_local \<and> file_modified src \<noteq> None
                                 then file_modified src else now)\<rparr>, file_size src))"

text \<open>
  \<open>copy_cross_scheme\<close>: a provider may take the whole copy over when a side is not local; \<open>Inr None\<close> says that it does not.
  Only the rclone provider does, when it can name both sides.  It knows of no option but \<open>overwrite\<close>, and leaves the rest to
  \<open>rclone copyto\<close>, an argument.
\<close>

type_synonym delegate = "CopyOptions \<Rightarrow> FileEntry \<Rightarrow> FileEntry option \<Rightarrow> copy_error + FileEntry option"

definition no_delegate :: delegate where
  "no_delegate opts src dest = Inr None"

definition transfer_cross_scheme :: "bool \<Rightarrow> bool \<Rightarrow> bool \<Rightarrow> (FileEntry \<Rightarrow> FileEntry option \<Rightarrow> copy_error + FileEntry) \<Rightarrow> delegate" where
  "transfer_cross_scheme from_local to_local named copyto opts src dest =
    (if from_local \<and> to_local \<or> \<not> named then Inr None
     else if \<not> opt_overwrite opts \<and> dest \<noteq> None then Inl AlreadyExists
     else and_then (copyto src dest) (\<lambda>f. Inr (Some f)))"

text \<open>The provider of the source is asked first, then the one of the destination; the rest is the copy of one file.\<close>

definition copy_with_control :: "delegate \<Rightarrow> delegate \<Rightarrow> CopyOptions \<Rightarrow> bool \<Rightarrow> bool \<Rightarrow> int option \<Rightarrow> FileEntry \<Rightarrow>
  FileEntry option \<Rightarrow> copy_error + FileEntry option" where
  "copy_with_control from_cross to_cross opts from_local to_local now src dest =
    (let own = and_then (copy_file opts to_local now src dest) (\<lambda>(f, _). Inr f)
     in if from_local \<and> to_local then own
        else and_then (from_cross opts src dest) (\<lambda>taken.
          if taken \<noteq> None then Inr taken
          else and_then (to_cross opts src dest) (\<lambda>taken. if taken \<noteq> None then Inr taken else own)))"

section \<open>Synchronising\<close>

datatype SyncMode = ToRight | ToLeft | Both | MergeToRight

record SyncStats =
  to_right :: nat
  to_left :: nat

text \<open>The surroundings of a run: streams, which sides are local, what their providers take over, the clock, and which copies succeed.\<close>

record sync_env =
  env_streams :: streams
  env_left_local :: bool
  env_right_local :: bool
  env_left_cross :: delegate
  env_right_cross :: delegate
  env_now :: "int option"
  env_ok :: "rel \<Rightarrow> bool"

definition sync_options :: "SyncMode \<Rightarrow> CopyOptions" where
  "sync_options mode = copy_default\<lparr>opt_overwrite := mode \<noteq> MergeToRight, opt_skip_existing := mode = MergeToRight,
    opt_overwrite_older := mode = Both\<rparr>"

definition newer :: "FileEntry option \<Rightarrow> FileEntry option \<Rightarrow> bool" where
  "newer l r =
    (case (Option.bind l file_modified, Option.bind r file_modified) of
       (Some a, Some b) \<Rightarrow> b \<le> a
     | (Some _, None) \<Rightarrow> True
     | _ \<Rightarrow> False)"

record sync_state =
  sync_left :: tree
  sync_right :: tree
  sync_stats :: SyncStats

definition copy_rel :: "delegate \<Rightarrow> delegate \<Rightarrow> CopyOptions \<Rightarrow> bool \<Rightarrow> bool \<Rightarrow> int option \<Rightarrow> bool \<Rightarrow> rel \<Rightarrow> tree \<Rightarrow> tree \<Rightarrow>
  copy_error + tree" where
  "copy_rel from_cross to_cross opts from_local to_local now ok p frm to =
    (if \<not> ok then Inl CopyFailed
     else case om_get frm p of
            None \<Rightarrow> Inl NotFound
          | Some src \<Rightarrow>
            and_then (copy_with_control from_cross to_cross opts from_local to_local now src (om_get to p))
              (\<lambda>f. Inr (case f of Some d \<Rightarrow> om_insert p d to | None \<Rightarrow> to)))"

definition send_right :: "sync_env \<Rightarrow> SyncMode \<Rightarrow> rel \<Rightarrow> sync_state \<Rightarrow> copy_error + sync_state" where
  "send_right env mode p s =
    and_then (copy_rel (env_left_cross env) (env_right_cross env) (sync_options mode) (env_left_local env) (env_right_local env)
        (env_now env) (env_ok env p) p (sync_left s) (sync_right s))
      (\<lambda>t. Inr (s\<lparr>sync_right := t, sync_stats := (sync_stats s)\<lparr>to_right := to_right (sync_stats s) + 1\<rparr>\<rparr>))"

definition send_left :: "sync_env \<Rightarrow> SyncMode \<Rightarrow> rel \<Rightarrow> sync_state \<Rightarrow> copy_error + sync_state" where
  "send_left env mode p s =
    and_then (copy_rel (env_right_cross env) (env_left_cross env) (sync_options mode) (env_right_local env) (env_left_local env)
        (env_now env) (env_ok env p) p (sync_right s) (sync_left s))
      (\<lambda>t. Inr (s\<lparr>sync_left := t, sync_stats := (sync_stats s)\<lparr>to_left := to_left (sync_stats s) + 1\<rparr>\<rparr>))"

text \<open>The trees of the comparison decide; the copies change the current ones.\<close>

fun sync_entry :: "sync_env \<Rightarrow> SyncMode \<Rightarrow> tree \<Rightarrow> tree \<Rightarrow> rel \<Rightarrow> DiffKind \<Rightarrow> sync_state \<Rightarrow> copy_error + sync_state" where
  "sync_entry env ToRight l0 r0 p LeftOnly s = send_right env ToRight p s"
| "sync_entry env MergeToRight l0 r0 p LeftOnly s = send_right env MergeToRight p s"
| "sync_entry env ToRight l0 r0 p Different s = send_right env ToRight p s"
| "sync_entry env ToLeft l0 r0 p RightOnly s = send_left env ToLeft p s"
| "sync_entry env ToLeft l0 r0 p Different s = send_left env ToLeft p s"
| "sync_entry env Both l0 r0 p LeftOnly s = send_right env Both p s"
| "sync_entry env Both l0 r0 p RightOnly s = send_left env Both p s"
| "sync_entry env Both l0 r0 p Different s =
    (if newer (om_get l0 p) (om_get r0 p) then send_right env Both p s else send_left env Both p s)"
| "sync_entry env mode l0 r0 p kind s = Inr s"

text \<open>The first error ends the run and leaves what was copied before it.\<close>

fun sync_loop :: "sync_env \<Rightarrow> SyncMode \<Rightarrow> tree \<Rightarrow> tree \<Rightarrow> DirDiffEntry list \<Rightarrow> sync_state \<Rightarrow> sync_state \<times> copy_error option" where
  "sync_loop env mode l0 r0 [] s = (s, None)"
| "sync_loop env mode l0 r0 (e # es) s =
    (case sync_entry env mode l0 r0 (diff_rel e) (diff_kind e) s of
       Inl err \<Rightarrow> (s, Some err)
     | Inr s' \<Rightarrow> sync_loop env mode l0 r0 es s')"

definition sync_dirs :: "sync_env \<Rightarrow> tree \<Rightarrow> tree \<Rightarrow> SyncMode \<Rightarrow> bool \<Rightarrow> sync_state \<times> copy_error option" where
  "sync_dirs env left right mode byte_level =
    sync_loop env mode left right (compare_dirs (env_streams env) byte_level left right)
      \<lparr>sync_left = left, sync_right = right, sync_stats = \<lparr>to_right = 0, to_left = 0\<rparr>\<rparr>"

section \<open>The comparison of two streams\<close>

lemma first_difference_Nil [simp]: "first_difference [] b = None"
  by (simp add: first_difference_def)

lemma first_difference_Cons [simp]:
  "first_difference (x # a) (y # b) = (if x \<noteq> y then Some 0 else map_option Suc (first_difference a b))"
  by (simp add: first_difference_def)

lemma first_difference_None: "length a = length b \<Longrightarrow> first_difference a b = None \<longleftrightarrow> a = b"
  by (induction a b rule: list_induct2) auto

lemma first_difference_append:
  "length a = length b \<Longrightarrow> first_difference (a @ x) (b @ y) =
    (case first_difference a b of Some i \<Rightarrow> Some i | None \<Rightarrow> map_option ((+) (length a)) (first_difference x y))"
  by (induction a b rule: list_induct2; cases "first_difference x y") (auto split: option.splits)

lemma compare_loop_Nil: "compare_loop [] [] off = (True, None)"
  by (simp add: compare_loop.simps first_read_def)

lemma compare_loop_Cons:
  assumes "length l = length r" and "l \<noteq> []"
  shows "compare_loop (l # ls) (r # rs) off =
    (if l = r then compare_loop ls rs (off + length l) else (False, Some (off + the (first_difference l r))))"
proof -
  have "l \<noteq> r \<Longrightarrow> \<exists>i. first_difference l r = Some i" using first_difference_None [OF assms(1)] by auto
  then show ?thesis using assms by (subst compare_loop.simps) (auto simp: first_read_def Let_def)
qed

text \<open>Two streams that cut their files alike are compared exactly.\<close>

lemma compare_loop_exact:
  "map length ls = map length rs \<Longrightarrow> [] \<notin> set ls \<Longrightarrow>
    compare_loop ls rs off = (concat ls = concat rs, map_option ((+) off) (first_difference (concat ls) (concat rs)))"
proof (induction ls arbitrary: rs off)
  case Nil
  then show ?case by (simp add: compare_loop_Nil)
next
  case (Cons l ls)
  then obtain r rs' where rs: "rs = r # rs'" "length l = length r" "map length ls = map length rs'" by auto
  have l: "l \<noteq> []" and ih: "compare_loop ls rs' (off + length l) =
      (concat ls = concat rs', map_option ((+) (off + length l)) (first_difference (concat ls) (concat rs')))"
    using Cons.IH [OF rs(3)] Cons.prems(2) by auto
  show ?case
  proof (cases "l = r")
    case True
    have none: "first_difference r r = None" using first_difference_None [of r r] by simp
    have r: "r \<noteq> []" using True l by simp
    show ?thesis using True ih
      by (cases "first_difference (concat ls) (concat rs')") (simp_all add: rs(1) compare_loop_Cons [OF refl r] first_difference_append none option.map_comp o_def add.assoc)
  next
    case False
    then obtain i where i: "first_difference l r = Some i" using first_difference_None [OF rs(2)] by auto
    show ?thesis using False rs(2) by (simp add: rs(1) compare_loop_Cons [OF rs(2) l] first_difference_append [OF rs(2)] i)
  qed
qed

text \<open>Streams that cut differently can be called different, but never wrongly equal.\<close>

lemma compare_loop_left_end: "fst (compare_loop [] rs off) \<Longrightarrow> first_read rs = []"
  by (subst (asm) compare_loop.simps) (simp add: first_read_def Let_def split: list.splits)

lemma compare_loop_right_end: "fst (compare_loop ls [] off) \<Longrightarrow> first_read ls = []"
  by (subst (asm) compare_loop.simps) (simp add: first_read_def Let_def split: list.splits)

lemma compare_loop_pair:
  assumes "fst (compare_loop (l # ls) (r # rs) off)" and "l \<noteq> []" and "r \<noteq> []"
  shows "l = r"
proof -
  have "min (length l) (length r) \<noteq> 0" using assms(2,3) by simp
  then have "length l = length r \<and> take (min (length l) (length r)) l = take (min (length l) (length r)) r"
    using assms(1) by (subst (asm) compare_loop.simps) (auto simp: first_read_def Let_def split: if_splits)
  then show ?thesis by (metis min.idem order_refl take_all)
qed

lemma compare_loop_sound:
  "fst (compare_loop ls rs off) \<Longrightarrow> [] \<notin> set ls \<Longrightarrow> [] \<notin> set rs \<Longrightarrow> concat ls = concat rs"
proof (induction ls arbitrary: rs off)
  case Nil
  then show ?case using compare_loop_left_end by (cases rs) (fastforce simp: first_read_def)+
next
  case (Cons l ls)
  then have l: "l \<noteq> []" by auto
  obtain r rs' where rs: "rs = r # rs'"
    using compare_loop_right_end [of "l # ls" off] Cons.prems(1) l by (cases rs) (auto simp: first_read_def)
  then have eq: "l = r" using compare_loop_pair Cons.prems l by auto
  then have "fst (compare_loop ls rs' (off + length l))" using Cons.prems(1) l by (simp add: rs compare_loop_Cons)
  then have "concat ls = concat rs'" using Cons.IH Cons.prems by (auto simp: rs)
  then show ?case by (simp add: rs eq)
qed

definition reads_of :: "bytes list \<Rightarrow> bytes \<Rightarrow> bool" where
  "reads_of reads b \<longleftrightarrow> concat reads = b \<and> [] \<notin> set reads"

lemma compare_files_equal:
  assumes "reads_of ls (file_bytes l)" and "reads_of rs (file_bytes r)"
    and "map length ls = map length rs \<or> file_size l \<noteq> file_size r"
  shows "fc_equal (compare_files ls rs l r) \<longleftrightarrow> file_bytes l = file_bytes r"
  using assms compare_loop_exact [of ls rs 0]
  by (auto simp: compare_files_def reads_of_def split: prod.split)

text \<open>Streams that cut their files alike are compared exactly, with the offset of the first difference.\<close>

theorem compare_files_exact:
  assumes "reads_of ls (file_bytes l)" and "reads_of rs (file_bytes r)"
    and "map length ls = map length rs \<or> file_size l \<noteq> file_size r"
  shows "(fc_equal (compare_files ls rs l r) \<longleftrightarrow> file_bytes l = file_bytes r)
    \<and> fc_mismatch_at (compare_files ls rs l r) =
      (if file_size l = file_size r then first_difference (file_bytes l) (file_bytes r)
       else Some (min (file_size l) (file_size r)))"
proof -
  have "map_option ((+) 0) x = x" for x :: "nat option" by (cases x) auto
  then show ?thesis using assms compare_loop_exact [of ls rs 0]
    by (auto simp: compare_files_def reads_of_def split: prod.split)
qed

theorem compare_files_exact_witness:
  "fc_mismatch_at (compare_files [[1, 2], [3]] [[1, 2], [4]] \<lparr>file_bytes = [1, 2, 3], file_modified = None\<rparr>
      \<lparr>file_bytes = [1, 2, 4], file_modified = None\<rparr>) = Some 2"
  using compare_files_exact [of "[[1, 2], [3]]" "\<lparr>file_bytes = [1, 2, 3], file_modified = None\<rparr>" "[[1, 2], [4]]"
      "\<lparr>file_bytes = [1, 2, 4], file_modified = None\<rparr>"]
  by (simp add: reads_of_def)

lemma compare_files_sound:
  assumes "reads_of ls (file_bytes l)" and "reads_of rs (file_bytes r)" and "fc_equal (compare_files ls rs l r)"
  shows "file_bytes l = file_bytes r"
  using assms compare_loop_sound [of ls rs 0]
  by (auto simp: compare_files_def reads_of_def split: if_splits prod.splits)

section \<open>The comparison of two folders\<close>

text \<open>A read returns nothing only at the end of the file.\<close>

definition streams_read :: "streams \<Rightarrow> bool" where
  "streams_read st \<longleftrightarrow> (\<forall>p b. reads_of (left_reads st p b) b \<and> reads_of (right_reads st p b) b)"

text \<open>Streams that cut files of the same length alike.\<close>

definition streams_ok :: "streams \<Rightarrow> bool" where
  "streams_ok st \<longleftrightarrow> streams_read st
    \<and> (\<forall>p a b. length a = length b \<longrightarrow> map length (left_reads st p a) = map length (right_reads st p b))"

text \<open>Reading each file in one piece is such a pair of streams.\<close>

definition whole_read :: "rel \<Rightarrow> bytes \<Rightarrow> bytes list" where
  "whole_read p b = (if b = [] then [] else [b])"

lemma whole_streams_ok: "streams_ok \<lparr>left_reads = whole_read, right_reads = whole_read\<rparr>"
  by (auto simp: streams_ok_def streams_read_def reads_of_def whole_read_def)

text \<open>What the kind of a path says, with the contents compared and without.\<close>

definition same_file :: "bool \<Rightarrow> FileEntry \<Rightarrow> FileEntry \<Rightarrow> bool" where
  "same_file byte_level l r \<longleftrightarrow>
    (if byte_level then file_bytes l = file_bytes r else file_size l = file_size r \<and> file_modified l = file_modified r)"

definition path_kind :: "bool \<Rightarrow> FileEntry option \<Rightarrow> FileEntry option \<Rightarrow> DiffKind option" where
  "path_kind byte_level l r =
    (case (l, r) of
       (Some _, None) \<Rightarrow> Some LeftOnly
     | (None, Some _) \<Rightarrow> Some RightOnly
     | (Some a, Some b) \<Rightarrow> Some (if same_file byte_level a b then Identical else Different)
     | (None, None) \<Rightarrow> None)"

lemma classify_exact:
  assumes "streams_ok st"
  shows "classify_pair st p byte_level l r = (if same_file byte_level l r then Identical else Different)"
proof -
  have "reads_of (left_reads st p (file_bytes l)) (file_bytes l)" "reads_of (right_reads st p (file_bytes r)) (file_bytes r)"
    "map length (left_reads st p (file_bytes l)) = map length (right_reads st p (file_bytes r)) \<or> file_size l \<noteq> file_size r"
    using assms unfolding streams_ok_def streams_read_def by metis+
  from compare_files_equal [OF this] show ?thesis by (auto simp: classify_pair_def same_file_def files_bytes_equal_def)
qed

text \<open>The kind that the comparison finds.\<close>

definition found_kind :: "streams \<Rightarrow> rel \<Rightarrow> bool \<Rightarrow> FileEntry option \<Rightarrow> FileEntry option \<Rightarrow> DiffKind option" where
  "found_kind st p byte_level l r =
    (case (l, r) of
       (Some _, None) \<Rightarrow> Some LeftOnly
     | (None, Some _) \<Rightarrow> Some RightOnly
     | (Some a, Some b) \<Rightarrow> Some (classify_pair st p byte_level a b)
     | (None, None) \<Rightarrow> None)"

lemma compare_rel_kind:
  "compare_rel st byte_level left right p =
    map_option (\<lambda>k. \<lparr>diff_rel = p, diff_kind = k\<rparr>) (found_kind st p byte_level (om_get left p) (om_get right p))"
  by (simp add: compare_rel_def found_kind_def split: option.split)

lemma found_kind_exact: "streams_ok st \<Longrightarrow> found_kind st p byte_level l r = path_kind byte_level l r"
  by (simp add: found_kind_def path_kind_def classify_exact split: option.split)

text \<open>However the streams cut the files, two files that are called identical are.\<close>

lemma found_identical:
  assumes "streams_read st" and "found_kind st p True (Some l) (Some r) = Some Identical"
  shows "file_bytes l = file_bytes r"
proof -
  have "reads_of (left_reads st p (file_bytes l)) (file_bytes l)" "reads_of (right_reads st p (file_bytes r)) (file_bytes r)"
    using assms(1) by (simp_all add: streams_read_def)
  then show ?thesis using assms(2) compare_files_sound
    by (auto simp: found_kind_def classify_pair_def files_bytes_equal_def split: if_splits)
qed

lemma sorted_remdups_adj_strict: "sorted xs \<Longrightarrow> sorted_wrt (<) (remdups_adj xs)"
  by (induction xs rule: remdups_adj.induct) auto

lemma set_all_rels: "set (all_rels left right) = {p. om_get left p \<noteq> None \<or> om_get right p \<noteq> None}"
  by (auto simp: all_rels_def om_get_def map_of_eq_None_iff)

lemma diff_rels: "map diff_rel (compare_dirs st byte_level left right) = all_rels left right"
proof -
  have "map diff_rel (List.map_filter (compare_rel st byte_level left right) ps) = ps" if "set ps \<subseteq> set (all_rels left right)" for ps
    using that by (induction ps) (auto simp: List.map_filter_simps compare_rel_kind found_kind_def set_all_rels split: option.splits)
  then show ?thesis by (simp add: compare_dirs_def)
qed

lemma map_filter_mem: "x \<in> set (List.map_filter f xs) \<longleftrightarrow> (\<exists>y \<in> set xs. f y = Some x)"
  by (induction xs) (auto simp: List.map_filter_simps split: option.split)

lemma diff_mem:
  "\<lparr>diff_rel = p, diff_kind = k\<rparr> \<in> set (compare_dirs st byte_level left right)
    \<longleftrightarrow> found_kind st p byte_level (om_get left p) (om_get right p) = Some k"
  by (auto simp: compare_dirs_def map_filter_mem compare_rel_kind set_all_rels found_kind_def split: option.splits)

text \<open>The comparison of two folders lists every path of either once, in order, with the kind that its two files call for.\<close>

theorem compare_dirs_exact:
  assumes "streams_ok st"
  shows "sorted_wrt (<) (map diff_rel (compare_dirs st byte_level left right))
    \<and> (\<lparr>diff_rel = p, diff_kind = k\<rparr> \<in> set (compare_dirs st byte_level left right) \<longleftrightarrow>
        (case k of
           LeftOnly \<Rightarrow> om_get left p \<noteq> None \<and> om_get right p = None
         | RightOnly \<Rightarrow> om_get left p = None \<and> om_get right p \<noteq> None
         | Identical \<Rightarrow> \<exists>l r. om_get left p = Some l \<and> om_get right p = Some r \<and> same_file byte_level l r
         | Different \<Rightarrow> \<exists>l r. om_get left p = Some l \<and> om_get right p = Some r \<and> \<not> same_file byte_level l r))"
proof
  show "sorted_wrt (<) (map diff_rel (compare_dirs st byte_level left right))"
    by (simp add: diff_rels all_rels_def sorted_remdups_adj_strict)
qed (auto simp: diff_mem found_kind_exact [OF assms] path_kind_def split: option.splits DiffKind.splits)

theorem compare_dirs_exact_witness:
  "\<lparr>diff_rel = [97], diff_kind = Different\<rparr> \<in> set (compare_dirs \<lparr>left_reads = whole_read, right_reads = whole_read\<rparr> True
      [([97], \<lparr>file_bytes = [1], file_modified = None\<rparr>)] [([97], \<lparr>file_bytes = [2], file_modified = None\<rparr>)])"
  using compare_dirs_exact [OF whole_streams_ok, of True "[([97], \<lparr>file_bytes = [1], file_modified = None\<rparr>)]"
      "[([97], \<lparr>file_bytes = [2], file_modified = None\<rparr>)]" "[97]" Different]
  by (simp add: om_get_def same_file_def)

section \<open>What a copy leaves\<close>

definition copied :: "CopyOptions \<Rightarrow> bool \<Rightarrow> int option \<Rightarrow> FileEntry \<Rightarrow> FileEntry option \<Rightarrow> FileEntry option" where
  "copied opts to_local now src dest =
    (case copy_file opts to_local now src dest of Inl _ \<Rightarrow> dest | Inr (f, _) \<Rightarrow> f)"

text \<open>The copies between two sides are the ones of this crate when both are local, or no provider takes them over.\<close>

definition own_copies :: "sync_env \<Rightarrow> bool" where
  "own_copies env \<longleftrightarrow>
    env_left_local env \<and> env_right_local env \<or> env_left_cross env = no_delegate \<and> env_right_cross env = no_delegate"

lemma copy_with_control_own:
  assumes "from_local \<and> to_local \<or> from_cross = no_delegate \<and> to_cross = no_delegate"
  shows "copy_with_control from_cross to_cross opts from_local to_local now src dest =
    and_then (copy_file opts to_local now src dest) (\<lambda>(f, _). Inr f)"
  using assms by (auto simp: copy_with_control_def Let_def no_delegate_def)

lemma copy_rel_ok:
  assumes "om_get frm p = Some src" and "plan_copy opts to_local src (om_get to p) \<noteq> RefuseCopy"
    and "from_local \<and> to_local \<or> from_cross = no_delegate \<and> to_cross = no_delegate"
  shows "\<exists>t. copy_rel from_cross to_cross opts from_local to_local now True p frm to = Inr t
    \<and> om_get t = (om_get to)(p := copied opts to_local now src (om_get to p))"
  using assms(1,2)
  by (auto simp: copy_rel_def copy_with_control_own [OF assms(3)] copied_def copy_file_def fun_upd_idem
      split: copy_plan.splits option.splits)

lemma sync_never_refuses: "plan_copy (sync_options mode) to_local src dest \<noteq> RefuseCopy"
  by (cases mode) (auto simp: plan_copy_def sync_options_def copy_default_def split: option.split)

lemma copy_rel_keeps:
  assumes "copy_rel fc tc opts from_local to_local now ok p frm to = Inr t" and "p \<noteq> q"
  shows "om_get t q = om_get to q"
  using assms by (auto simp: copy_rel_def and_then_Inr_iff split: if_splits option.splits)

section \<open>What a synchronisation leaves\<close>

definition goes_right :: "SyncMode \<Rightarrow> DiffKind \<Rightarrow> FileEntry option \<Rightarrow> FileEntry option \<Rightarrow> bool" where
  "goes_right mode kind l r \<longleftrightarrow>
    kind = LeftOnly \<and> mode \<noteq> ToLeft \<or> kind = Different \<and> (mode = ToRight \<or> mode = Both \<and> newer l r)"

definition goes_left :: "SyncMode \<Rightarrow> DiffKind \<Rightarrow> FileEntry option \<Rightarrow> FileEntry option \<Rightarrow> bool" where
  "goes_left mode kind l r \<longleftrightarrow>
    kind = RightOnly \<and> (mode = ToLeft \<or> mode = Both) \<or> kind = Different \<and> (mode = ToLeft \<or> mode = Both \<and> \<not> newer l r)"

lemma sync_entry_cases:
  "sync_entry env mode l0 r0 p kind s =
    (if goes_right mode kind (om_get l0 p) (om_get r0 p) then send_right env mode p s
     else if goes_left mode kind (om_get l0 p) (om_get r0 p) then send_left env mode p s else Inr s)"
  by (cases mode; cases kind) (simp_all add: goes_right_def goes_left_def)

definition new_right :: "sync_env \<Rightarrow> SyncMode \<Rightarrow> DiffKind \<Rightarrow> FileEntry option \<Rightarrow> FileEntry option \<Rightarrow> FileEntry option" where
  "new_right env mode kind l r =
    (if goes_right mode kind l r then copied (sync_options mode) (env_right_local env) (env_now env) (the l) r else r)"

definition new_left :: "sync_env \<Rightarrow> SyncMode \<Rightarrow> DiffKind \<Rightarrow> FileEntry option \<Rightarrow> FileEntry option \<Rightarrow> FileEntry option" where
  "new_left env mode kind l r =
    (if goes_left mode kind l r then copied (sync_options mode) (env_left_local env) (env_now env) (the r) l else l)"

lemma found_kind_sides:
  "found_kind st p byte_level l r = Some k \<Longrightarrow> goes_right mode k l r \<Longrightarrow> l \<noteq> None \<and> \<not> goes_left mode k l r"
  "found_kind st p byte_level l r = Some k \<Longrightarrow> goes_left mode k l r \<Longrightarrow> r \<noteq> None \<and> \<not> goes_right mode k l r"
  by (auto simp: found_kind_def goes_right_def goes_left_def split: option.splits if_splits)

lemma sync_entry_ok:
  assumes "env_ok env p" and "found_kind (env_streams env) p byte_level (om_get l0 p) (om_get r0 p) = Some k"
    and "om_get (sync_left s) p = om_get l0 p" and "om_get (sync_right s) p = om_get r0 p" and own: "own_copies env"
  shows "\<exists>s'. sync_entry env mode l0 r0 p k s = Inr s'
    \<and> om_get (sync_left s') = (om_get (sync_left s))(p := new_left env mode k (om_get l0 p) (om_get r0 p))
    \<and> om_get (sync_right s') = (om_get (sync_right s))(p := new_right env mode k (om_get l0 p) (om_get r0 p))"
proof (cases "goes_right mode k (om_get l0 p) (om_get r0 p)")
  case True
  then obtain a where "om_get (sync_left s) p = Some a" "\<not> goes_left mode k (om_get l0 p) (om_get r0 p)"
    using found_kind_sides(1) [OF assms(2)] assms(3) by fastforce
  then show ?thesis
    using True assms copy_rel_ok [of "sync_left s" p a "sync_options mode" "env_right_local env" "sync_right s" "env_left_local env"
        "env_left_cross env" "env_right_cross env" "env_now env"]
      sync_never_refuses [of mode "env_right_local env" a "om_get (sync_right s) p"]
    by (auto simp: sync_entry_cases send_right_def new_left_def new_right_def fun_upd_idem own_copies_def)
next
  case right: False
  show ?thesis
  proof (cases "goes_left mode k (om_get l0 p) (om_get r0 p)")
    case True
    then obtain a where "om_get (sync_right s) p = Some a"
      using found_kind_sides(2) [OF assms(2)] assms(4) by fastforce
    then show ?thesis
      using True right assms copy_rel_ok [of "sync_right s" p a "sync_options mode" "env_left_local env" "sync_left s" "env_right_local env"
          "env_right_cross env" "env_left_cross env" "env_now env"]
        sync_never_refuses [of mode "env_left_local env" a "om_get (sync_left s) p"]
      by (auto simp: sync_entry_cases send_left_def new_left_def new_right_def fun_upd_idem own_copies_def)
  next
    case False
    then show ?thesis using right assms by (simp add: sync_entry_cases new_left_def new_right_def fun_upd_idem)
  qed
qed

definition sides :: "sync_state \<Rightarrow> rel \<Rightarrow> FileEntry option \<times> FileEntry option" where
  "sides s p = (om_get (sync_left s) p, om_get (sync_right s) p)"

definition new_sides :: "sync_env \<Rightarrow> SyncMode \<Rightarrow> bool \<Rightarrow> rel \<Rightarrow> FileEntry option \<Rightarrow> FileEntry option \<Rightarrow>
  FileEntry option \<times> FileEntry option" where
  "new_sides env mode byte_level p l r =
    (case found_kind (env_streams env) p byte_level l r of
       None \<Rightarrow> (None, None)
     | Some k \<Rightarrow> (new_left env mode k l r, new_right env mode k l r))"

definition entry_ready :: "sync_env \<Rightarrow> bool \<Rightarrow> tree \<Rightarrow> tree \<Rightarrow> sync_state \<Rightarrow> DirDiffEntry \<Rightarrow> bool" where
  "entry_ready env byte_level l0 r0 s e \<longleftrightarrow>
    env_ok env (diff_rel e) \<and> sides s (diff_rel e) = (om_get l0 (diff_rel e), om_get r0 (diff_rel e))
    \<and> found_kind (env_streams env) (diff_rel e) byte_level (om_get l0 (diff_rel e)) (om_get r0 (diff_rel e)) = Some (diff_kind e)"

lemma sync_entry_sides:
  assumes "entry_ready env byte_level l0 r0 s e" and "own_copies env"
  shows "\<exists>s'. sync_entry env mode l0 r0 (diff_rel e) (diff_kind e) s = Inr s' \<and>
    (\<forall>p. sides s' p = (if p = diff_rel e then new_sides env mode byte_level p (om_get l0 p) (om_get r0 p) else sides s p))"
proof -
  obtain s' where "sync_entry env mode l0 r0 (diff_rel e) (diff_kind e) s = Inr s'"
    "om_get (sync_left s') = (om_get (sync_left s))
      (diff_rel e := new_left env mode (diff_kind e) (om_get l0 (diff_rel e)) (om_get r0 (diff_rel e)))"
    "om_get (sync_right s') = (om_get (sync_right s))
      (diff_rel e := new_right env mode (diff_kind e) (om_get l0 (diff_rel e)) (om_get r0 (diff_rel e)))"
    using sync_entry_ok [of env "diff_rel e" byte_level l0 r0 "diff_kind e" s mode] assms
    by (auto simp: entry_ready_def sides_def)
  then show ?thesis using assms by (simp add: entry_ready_def new_sides_def sides_def)
qed

lemma sync_loop_ok:
  assumes "distinct (map diff_rel es)" and "\<forall>e \<in> set es. entry_ready env byte_level l0 r0 s e" and "own_copies env"
  shows "\<exists>s'. sync_loop env mode l0 r0 es s = (s', None) \<and>
    (\<forall>p. sides s' p = (if p \<in> diff_rel ` set es then new_sides env mode byte_level p (om_get l0 p) (om_get r0 p) else sides s p))"
  using assms
proof (induction es arbitrary: s)
  case (Cons e es)
  obtain s1 where s1: "sync_entry env mode l0 r0 (diff_rel e) (diff_kind e) s = Inr s1"
    "\<forall>p. sides s1 p = (if p = diff_rel e then new_sides env mode byte_level p (om_get l0 p) (om_get r0 p) else sides s p)"
    using sync_entry_sides [of env byte_level l0 r0 s e mode] Cons.prems(2,3) by auto
  have fresh: "diff_rel e' \<noteq> diff_rel e" if "e' \<in> set es" for e'
    using Cons.prems(1) that by (metis distinct.simps(2) imageI list.simps(9) list.set_map)
  have "\<forall>e' \<in> set es. entry_ready env byte_level l0 r0 s1 e'"
    using Cons.prems(2) fresh s1(2) by (auto simp: entry_ready_def)
  then obtain s' where s': "sync_loop env mode l0 r0 es s1 = (s', None)"
    "\<forall>p. sides s' p = (if p \<in> diff_rel ` set es then new_sides env mode byte_level p (om_get l0 p) (om_get r0 p) else sides s1 p)"
    using Cons.IH [of s1] Cons.prems(1,3) by auto
  show ?case using s1 s' by auto
qed simp

lemma sync_dirs_ok:
  assumes "own_copies env" and "\<forall>p. env_ok env p"
  shows "\<exists>s'. sync_dirs env left right mode byte_level = (s', None) \<and>
    (\<forall>p. sides s' p = new_sides env mode byte_level p (om_get left p) (om_get right p))"
proof -
  let ?es = "compare_dirs (env_streams env) byte_level left right"
  let ?s = "\<lparr>sync_left = left, sync_right = right, sync_stats = \<lparr>to_right = 0, to_left = 0\<rparr>\<rparr>"
  have rels: "map diff_rel ?es = all_rels left right" by (rule diff_rels)
  have "distinct (map diff_rel ?es)"
    using sorted_remdups_adj_strict [of "sort (map fst left @ map fst right)"]
    by (simp add: rels all_rels_def strict_sorted_iff)
  moreover have "entry_ready env byte_level left right ?s e" if "e \<in> set ?es" for e
    using diff_mem [of "diff_rel e" "diff_kind e" "env_streams env" byte_level left right] that assms(2)
    by (cases e) (simp add: entry_ready_def sides_def)
  ultimately obtain s' where s': "sync_dirs env left right mode byte_level = (s', None)"
    "\<forall>p. sides s' p = (if p \<in> diff_rel ` set ?es then new_sides env mode byte_level p (om_get left p) (om_get right p) else sides ?s p)"
    using sync_loop_ok [of ?es env byte_level left right ?s mode] assms(1) by (auto simp: sync_dirs_def)
  have "sides ?s p = new_sides env mode byte_level p (om_get left p) (om_get right p)" if "p \<notin> diff_rel ` set ?es" for p
    using arg_cong [OF rels, of set] that by (simp add: set_all_rels sides_def new_sides_def found_kind_def)
  then show ?thesis using s' by auto
qed

text \<open>
  What each mode should leave on the two sides at a path, as contents: mirrored to the right or to the left; merged, with
  the files of the right kept; or both sides filled up, the newer of two versions on both sides.
\<close>

definition newer_version :: "FileEntry \<Rightarrow> FileEntry \<Rightarrow> FileEntry \<times> FileEntry" where
  "newer_version a b =
    (case (file_modified a, file_modified b) of
       (Some s, Some t) \<Rightarrow> if s < t then (b, b) else if t < s then (a, a) else (a, b)
     | (Some _, None) \<Rightarrow> (a, a)
     | _ \<Rightarrow> (b, b))"

definition sync_wanted :: "SyncMode \<Rightarrow> FileEntry option \<Rightarrow> FileEntry option \<Rightarrow> FileEntry option \<times> FileEntry option" where
  "sync_wanted mode l r =
    (case mode of
       ToRight \<Rightarrow> (l, if l = None then r else l)
     | ToLeft \<Rightarrow> (if r = None then l else r, r)
     | MergeToRight \<Rightarrow> (l, if r = None then l else r)
     | Both \<Rightarrow>
         (case (l, r) of
            (Some a, Some b) \<Rightarrow> if file_bytes a = file_bytes b then (l, r) else map_prod Some Some (newer_version a b)
          | (None, _) \<Rightarrow> (r, r) | (_, None) \<Rightarrow> (l, l)))"

abbreviation contents :: "FileEntry option \<Rightarrow> bytes option" where
  "contents f \<equiv> map_option file_bytes f"

lemma contents_copied:
  "mode \<noteq> Both \<Longrightarrow> mode \<noteq> MergeToRight \<Longrightarrow> contents (copied (sync_options mode) loc now src dest) = Some (file_bytes src)"
  "mode = Both \<or> mode = MergeToRight \<Longrightarrow> contents (copied (sync_options mode) loc now src None) = Some (file_bytes src)"
  "contents (copied (sync_options Both) loc now src (Some d)) = Some (file_bytes (if older_allowed src d then src else d))"
  by (cases mode; auto simp: copied_def copy_file_def plan_copy_def sync_options_def copy_default_def split: option.split)+

lemma wanted_sides:
  assumes "streams_read (env_streams env)"
  shows "map_prod contents contents (new_sides env mode True p l r) = map_prod contents contents (sync_wanted mode l r)"
proof (cases "\<exists>a b. l = Some a \<and> r = Some b")
  case False
  then show ?thesis
    by (cases mode; cases l; cases r)
      (auto simp: new_sides_def found_kind_def new_left_def new_right_def goes_left_def goes_right_def sync_wanted_def contents_copied
        simp del: map_option_eq_Some)
next
  case True
  then obtain a b where ab: "l = Some a" "r = Some b" by blast
  let ?k = "classify_pair (env_streams env) p True a b"
  have same: "?k = Identical \<Longrightarrow> file_bytes a = file_bytes b"
    using found_identical [OF assms, of p a b] by (simp add: found_kind_def)
  have "?k = Identical \<or> ?k = Different" by (simp add: classify_pair_def)
  then show ?thesis using same
    by (cases mode)
      (auto simp: ab new_sides_def found_kind_def new_left_def new_right_def goes_left_def goes_right_def sync_wanted_def
        contents_copied newer_def older_allowed_def newer_version_def simp del: map_option_eq_Some split: if_splits option.splits)
qed

text \<open>
  C25.  When every copy succeeds and no provider takes a copy over (as between local folders), a synchronisation by contents
  leaves at every path what its mode promises, however the streams cut the files.
\<close>

theorem sync_leaves_wanted:
  assumes "streams_read (env_streams env)" and "own_copies env" and "\<forall>p. env_ok env p"
  shows "\<exists>s'. sync_dirs env left right mode True = (s', None) \<and>
    (\<forall>p. map_prod contents contents (om_get (sync_left s') p, om_get (sync_right s') p)
       = map_prod contents contents (sync_wanted mode (om_get left p) (om_get right p)))"
  using sync_dirs_ok [OF assms(2,3), of left right mode True] wanted_sides [OF assms(1)] unfolding sides_def by metis

text \<open>Streams that cut the files differently.\<close>

definition byte_reads :: "rel \<Rightarrow> bytes \<Rightarrow> bytes list" where
  "byte_reads p b = map (\<lambda>x. [x]) b"

lemma byte_reads_read: "reads_of (byte_reads p b) b"
  by (induction b) (auto simp: byte_reads_def reads_of_def)

definition quiet_env :: sync_env where
  "quiet_env = \<lparr>env_streams = \<lparr>left_reads = whole_read, right_reads = byte_reads\<rparr>, env_left_local = True,
    env_right_local = True, env_left_cross = no_delegate, env_right_cross = no_delegate, env_now = None, env_ok = \<lambda>_. True\<rparr>"

theorem sync_leaves_wanted_witness:
  "\<exists>s'. sync_dirs quiet_env [([97], \<lparr>file_bytes = [1], file_modified = Some 5\<rparr>)] [([97], \<lparr>file_bytes = [2], file_modified = Some 3\<rparr>)]
      Both True = (s', None) \<and> contents (om_get (sync_right s') [97]) = Some [1]"
proof -
  let ?l = "[([97::nat], \<lparr>file_bytes = [1], file_modified = Some 5\<rparr>)]" and ?r = "[([97], \<lparr>file_bytes = [2], file_modified = Some 3\<rparr>)]"
  have read: "streams_read (env_streams quiet_env)"
    using whole_streams_ok by (simp add: quiet_env_def streams_ok_def streams_read_def byte_reads_read)
  have rest: "own_copies quiet_env" "\<forall>p. env_ok quiet_env p" by (simp_all add: quiet_env_def own_copies_def)
  obtain s' where s': "sync_dirs quiet_env ?l ?r Both True = (s', None)"
    "\<forall>p. map_prod contents contents (om_get (sync_left s') p, om_get (sync_right s') p)
       = map_prod contents contents (sync_wanted Both (om_get ?l p) (om_get ?r p))"
    using sync_leaves_wanted [OF read rest, of ?l ?r Both] by blast
  have "contents (om_get (sync_right s') [97]) = Some [1]"
    using s'(2) [rule_format, of "[97]"] by (simp add: sync_wanted_def newer_version_def om_get_def)
  then show ?thesis using s'(1) by blast
qed

section \<open>Merging\<close>

lemma merge_loop_keeps:
  assumes "sync_loop env MergeToRight l0 r0 es s = (s', err)" and "\<forall>e \<in> set es. diff_kind e = LeftOnly \<longrightarrow> diff_rel e \<noteq> p"
  shows "om_get (sync_right s') p = om_get (sync_right s) p"
  using assms
proof (induction es arbitrary: s)
  case (Cons e es)
  show ?case
  proof (cases "sync_entry env MergeToRight l0 r0 (diff_rel e) (diff_kind e) s")
    case (Inr s1)
    then have "om_get (sync_right s1) p = om_get (sync_right s) p" using Cons.prems(2) copy_rel_keeps
      by (auto simp: sync_entry_cases goes_left_def goes_right_def send_right_def and_then_Inr_iff split: if_splits)
    then show ?thesis using Cons Inr by simp
  qed (use Cons.prems in simp)
qed simp

lemma merge_loop_left: "sync_loop env MergeToRight l0 r0 es s = (s', err) \<Longrightarrow> sync_left s' = sync_left s"
proof (induction es arbitrary: s)
  case (Cons e es)
  show ?case
  proof (cases "sync_entry env MergeToRight l0 r0 (diff_rel e) (diff_kind e) s")
    case (Inr s1)
    then have "sync_left s1 = sync_left s"
      by (auto simp: sync_entry_cases goes_left_def send_right_def and_then_Inr_iff split: if_splits)
    then show ?thesis using Cons Inr by simp
  qed (use Cons.prems in simp)
qed simp

text \<open>A merge never changes a file that the right side has, nor the left side, whatever the streams say, whoever copies, and
  whichever copies fail.\<close>

theorem merge_never_overwrites:
  assumes "sync_dirs env left right MergeToRight byte_level = (s', err)" and "om_get right p = Some d"
  shows "om_get (sync_right s') p = Some d \<and> sync_left s' = left"
proof -
  have "\<forall>e \<in> set (compare_dirs (env_streams env) byte_level left right). diff_kind e = LeftOnly \<longrightarrow> diff_rel e \<noteq> p"
  proof (intro ballI impI notI)
    fix e
    assume e: "e \<in> set (compare_dirs (env_streams env) byte_level left right)" "diff_kind e = LeftOnly" "diff_rel e = p"
    then have "e = \<lparr>diff_rel = p, diff_kind = LeftOnly\<rparr>" by simp
    then show False using e(1) assms(2) by (auto simp: diff_mem found_kind_def classify_pair_def split: option.splits if_splits)
  qed
  then show ?thesis using assms merge_loop_keeps merge_loop_left unfolding sync_dirs_def by fastforce
qed

theorem merge_never_overwrites_witness:
  "om_get (sync_right (fst (sync_dirs quiet_env [([97], \<lparr>file_bytes = [1], file_modified = Some 5\<rparr>)]
      [([97], \<lparr>file_bytes = [2], file_modified = Some 3\<rparr>)] MergeToRight False))) [97] = Some \<lparr>file_bytes = [2], file_modified = Some 3\<rparr>"
  using merge_never_overwrites [OF surjective_pairing, of "[([97], \<lparr>file_bytes = [2], file_modified = Some 3\<rparr>)]" "[97]"
      "\<lparr>file_bytes = [2], file_modified = Some 3\<rparr>" quiet_env "[([97], \<lparr>file_bytes = [1], file_modified = Some 5\<rparr>)]" False]
  by (simp add: om_get_def)

section \<open>Findings\<close>

text \<open>Two streams that cut the same bytes differently are reported as different, with an offset where the files agree.\<close>

lemma short_read_reports_difference:
  "compare_files [[1, 2], [3]] [[1], [2, 3]] \<lparr>file_bytes = [1, 2, 3], file_modified = None\<rparr> \<lparr>file_bytes = [1, 2, 3], file_modified = None\<rparr>
    = \<lparr>fc_equal = False, fc_left_size = 3, fc_right_size = 3, fc_mismatch_at = Some 1\<rparr>"
  by code_simp

text \<open>For files of different sizes the mismatch is the smaller size, though the files can differ before it.\<close>

lemma mismatch_past_difference:
  "fc_mismatch_at (compare_files [[1, 2]] [[9, 2, 3]] \<lparr>file_bytes = [1, 2], file_modified = None\<rparr> \<lparr>file_bytes = [9, 2, 3], file_modified = None\<rparr>)
    = Some 2"
  by code_simp

text \<open>Two versions of the same time: a two-way run counts a copy to the right and copies nothing.\<close>

lemma same_time_counts_no_copy:
  "let a = [([97], \<lparr>file_bytes = [1], file_modified = Some 5\<rparr>)]; b = [([97], \<lparr>file_bytes = [2], file_modified = Some 5\<rparr>)]
   in sync_dirs quiet_env a b Both True = (\<lparr>sync_left = a, sync_right = b, sync_stats = \<lparr>to_right = 1, to_left = 0\<rparr>\<rparr>, None)"
  by code_simp

text \<open>
  The same run with a folder of the rclone provider on the right: the provider knows nothing of the rule for older files, so that
  the version on the right is overwritten by one that is no newer.
\<close>

lemma rclone_overwrites_same_time:
  "let a = [([97], \<lparr>file_bytes = [1], file_modified = Some 5\<rparr>)]; b = [([97], \<lparr>file_bytes = [2], file_modified = Some 5\<rparr>)];
       env = quiet_env\<lparr>env_right_local := False,
         env_right_cross := transfer_cross_scheme True False True (\<lambda>src dest. Inr src)\<rparr>
   in sync_dirs env a b Both True = (\<lparr>sync_left = a, sync_right = a, sync_stats = \<lparr>to_right = 1, to_left = 0\<rparr>\<rparr>, None)"
  by code_simp

text \<open>A resumed copy keeps the bytes that are there, whatever they are.\<close>

lemma resume_keeps_wrong_prefix:
  "copied (copy_default\<lparr>opt_resume := True\<rparr>) True None \<lparr>file_bytes = [1, 2, 3], file_modified = None\<rparr> (Some \<lparr>file_bytes = [9], file_modified = None\<rparr>)
    = Some \<lparr>file_bytes = [9, 2, 3], file_modified = None\<rparr>"
  by code_simp

end
