(* ===== verification/Mail_Thread.thy ===== *)
theory Mail_Thread
  imports Unicode_Text "HOL-Library.Product_Lexorder" "HOL-Library.Code_Target_Nat"
begin

text \<open>
  Conversation threads of the mail crate (\<open>src/crates/orchid-mail/src/thread.rs\<close>).  The Unicode lower case of a text is
  a parameter.
\<close>

section \<open>The subject key\<close>

text \<open>\<open>split_whitespace\<close>: the maximal pieces without white space.\<close>

fun words_from :: "ustring \<Rightarrow> ustring \<Rightarrow> ustring list" where
  "words_from w [] = (if w = [] then [] else [w])"
| "words_from w (c # s) =
    (if is_whitespace c then (if w = [] then words_from [] s else w # words_from [] s) else words_from (w @ [c]) s)"

definition split_whitespace :: "ustring \<Rightarrow> ustring list" where
  "split_whitespace s = words_from [] s"

definition reply_prefixes :: "ustring list" where
  "reply_prefixes = [lit ''re:'', lit ''fwd:'', lit ''fw:'', lit ''aw:'', lit ''sv:'', lit ''vs:'', lit ''ref:'']"

text \<open>The first prefix whose removal leaves something.\<close>

fun strip_reply :: "ustring list \<Rightarrow> ustring \<Rightarrow> ustring option" where
  "strip_reply [] text = None"
| "strip_reply (p # ps) text =
    (case strip_prefix p text of
       Some r \<Rightarrow> let rest = trim r in if rest \<noteq> [] \<and> length rest < length text then Some rest else strip_reply ps text
     | None \<Rightarrow> strip_reply ps text)"

lemma strip_reply_shorter: "strip_reply ps text = Some rest \<Longrightarrow> length rest < length text"
  by (induction ps) (auto simp: Let_def split: option.splits if_splits)

function strip_replies :: "ustring \<Rightarrow> ustring" where
  "strip_replies text = (case strip_reply reply_prefixes text of None \<Rightarrow> text | Some rest \<Rightarrow> strip_replies rest)"
  by pat_completeness auto
termination
  by (relation "measure length") (auto dest: strip_reply_shorter)

declare strip_replies.simps [simp del]

definition thread_key :: "(ustring \<Rightarrow> ustring) \<Rightarrow> ustring \<Rightarrow> ustring" where
  "thread_key lower subject = join [32] (split_whitespace (strip_replies (lower (trim subject))))"

section \<open>Arranging\<close>

text \<open>What threading reads of a header: the subject, the date and the \<open>u32\<close> identifier.\<close>

record MessageHeader =
  mh_subject :: ustring
  mh_date_unix :: int
  mh_uid :: nat

record ThreadRow =
  row_index :: nat
  row_indent :: nat

definition newest_first :: "MessageHeader list \<Rightarrow> nat \<Rightarrow> int \<times> int" where
  "newest_first headers i = (- mh_date_unix (headers ! i), - int (mh_uid (headers ! i)))"

text \<open>A message joins the first group whose newest message has its key, or opens one at the end.\<close>

fun join_group :: "('a \<Rightarrow> 'k) \<Rightarrow> 'a \<Rightarrow> 'a list list \<Rightarrow> 'a list list" where
  "join_group key i [] = [[i]]"
| "join_group key i (g # gs) = (if key (hd g) = key i then (g @ [i]) # gs else g # join_group key i gs)"

definition thread_rows :: "nat list \<Rightarrow> ThreadRow list" where
  "thread_rows g = map (\<lambda>(place, i). \<lparr>row_index = i, row_indent = (if place = 0 then 0 else 1)\<rparr>) (enumerate 0 g)"

definition group_messages :: "('a \<Rightarrow> 'k) \<Rightarrow> 'a list \<Rightarrow> 'a list list" where
  "group_messages key order = fold (join_group key) order []"

definition arrange :: "(ustring \<Rightarrow> ustring) \<Rightarrow> MessageHeader list \<Rightarrow> ThreadRow list" where
  "arrange lower headers =
    (let order = sort_key (newest_first headers) [0..<length headers];
         groups = group_messages (\<lambda>i. thread_key lower (mh_subject (headers ! i))) order
     in concat (map thread_rows (sort_key (\<lambda>g. newest_first headers (hd g)) groups)))"

section \<open>Quoting\<close>

definition escape_quoted :: "ustring \<Rightarrow> ustring" where
  "escape_quoted s = concat (map (\<lambda>c. if c = 92 \<or> c = 34 then [92, c] else [c]) s)"

definition quote_imap :: "ustring \<Rightarrow> ustring option" where
  "quote_imap text =
    (if \<exists>c \<in> set text. is_control c then None
     else let t = trim text in if t = [] then None else Some ([34] @ escape_quoted t @ [34]))"

section \<open>Groups\<close>

text \<open>The keys in the order of their first appearance.\<close>

fun first_keys :: "('a \<Rightarrow> 'k) \<Rightarrow> 'a list \<Rightarrow> 'k list" where
  "first_keys key [] = []"
| "first_keys key (x # xs) = key x # filter (\<lambda>k. k \<noteq> key x) (first_keys key xs)"

lemma set_first_keys: "set (first_keys key xs) = key ` set xs"
  by (induction xs) auto

lemma distinct_first_keys: "distinct (first_keys key xs)"
  by (induction xs) auto

lemma first_keys_append:
  "first_keys key (xs @ [x]) = first_keys key xs @ (if key x \<in> key ` set xs then [] else [key x])"
  by (induction xs) auto

lemma join_group_map:
  assumes "\<And>k. k \<in> set ks \<Longrightarrow> f k \<noteq> [] \<and> key (hd (f k)) = k" and "distinct ks"
  shows "join_group key x (map f ks) =
    (if key x \<in> set ks then map (\<lambda>k. if k = key x then f k @ [x] else f k) ks else map f ks @ [[x]])"
  using assms
proof (induction ks)
  case (Cons k ks)
  then have "key (hd (f k)) = k" by simp
  with Cons show ?case by (cases "k = key x") auto
qed simp

lemma hd_filter_key: "k \<in> key ` set xs \<Longrightarrow> filter (\<lambda>x. key x = k) xs \<noteq> [] \<and> key (hd (filter (\<lambda>x. key x = k) xs)) = k"
  by (induction xs) auto

lemma group_messages_filter:
  "group_messages key xs = map (\<lambda>k. filter (\<lambda>x. key x = k) xs) (first_keys key xs)"
proof (induction xs rule: rev_induct)
  case (snoc x xs)
  have "group_messages key (xs @ [x]) = join_group key x (map (\<lambda>k. filter (\<lambda>x. key x = k) xs) (first_keys key xs))"
    using snoc by (simp add: group_messages_def)
  also have "\<dots> = (if key x \<in> set (first_keys key xs)
      then map (\<lambda>k. if k = key x then filter (\<lambda>x. key x = k) xs @ [x] else filter (\<lambda>x. key x = k) xs) (first_keys key xs)
      else map (\<lambda>k. filter (\<lambda>x. key x = k) xs) (first_keys key xs) @ [[x]])"
    by (rule join_group_map) (auto simp: set_first_keys hd_filter_key distinct_first_keys)
  also have "\<dots> = map (\<lambda>k. filter (\<lambda>x. key x = k) (xs @ [x])) (first_keys key (xs @ [x]))"
    by (auto simp: first_keys_append set_first_keys filter_empty_conv image_iff)
  finally show ?case .
qed (simp add: group_messages_def)

text \<open>The newest messages of the groups are already in order, so that the second sort changes nothing.\<close>

lemma heads_sorted:
  assumes "sorted (map f xs)"
  shows "sorted (map (\<lambda>k. f (hd (filter (\<lambda>x. key x = k) xs))) (first_keys key xs))"
  using assms
proof (induction xs)
  case (Cons x xs)
  let ?h = "\<lambda>xs k. f (hd (filter (\<lambda>x. key x = k) xs))"
  let ?ks = "filter (\<lambda>k. k \<noteq> key x) (first_keys key xs)"
  have tail: "map (?h (x # xs)) ?ks = map (?h xs) ?ks" and first: "?h (x # xs) (key x) = f x" by auto
  have "sorted (map (?h xs) ?ks)" using Cons sorted_filter [of "?h xs" "first_keys key xs"] by simp
  moreover have "f x \<le> ?h xs k" if "k \<in> set ?ks" for k
  proof -
    have "filter (\<lambda>x. key x = k) xs \<noteq> []" using that hd_filter_key [of k key xs] by (simp add: set_first_keys)
    then have "hd (filter (\<lambda>x. key x = k) xs) \<in> set xs" by (metis filter_is_subset hd_in_set subsetD)
    then show ?thesis using Cons.prems by simp
  qed
  ultimately have "sorted (f x # map (?h xs) ?ks)" by auto
  then show ?case unfolding first_keys.simps list.map tail first .
qed simp

lemma concat_groups_mset: "mset (concat (group_messages key xs)) = mset xs"
proof (induction xs rule: rev_induct)
  case (snoc x xs)
  have "mset (concat (join_group key x gs)) = add_mset x (mset (concat gs))" for gs
    by (induction gs) auto
  with snoc show ?case by (simp add: group_messages_def)
qed (simp add: group_messages_def)

text \<open>
  The order of the list, by the fields of the headers: the later message first, of two of the same time the one of the larger
  identifier, and of two that agree in both the one that comes first in the folder.
\<close>

definition listed_before :: "MessageHeader list \<Rightarrow> nat \<Rightarrow> nat \<Rightarrow> bool" where
  "listed_before headers i j \<longleftrightarrow>
    mh_date_unix (headers ! j) < mh_date_unix (headers ! i)
    \<or> mh_date_unix (headers ! j) = mh_date_unix (headers ! i) \<and>
        (mh_uid (headers ! j) < mh_uid (headers ! i) \<or> mh_uid (headers ! j) = mh_uid (headers ! i) \<and> i < j)"

lemma listed_before_key:
  "listed_before headers i j \<longleftrightarrow>
    newest_first headers i < newest_first headers j \<or> newest_first headers i = newest_first headers j \<and> i < j"
  by (auto simp: listed_before_def newest_first_def)

lemma insort_listed:
  assumes "sorted_wrt (\<lambda>i j. f i < f j \<or> f i = f j \<and> i < j) xs" and "\<forall>y \<in> set xs. x < y"
  shows "sorted_wrt (\<lambda>i j. f i < f j \<or> f i = f j \<and> i < j) (insort_key f x xs)"
  using assms by (induction xs) (auto simp: set_insort_key)

lemma sort_listed:
  fixes f :: "'a::linorder \<Rightarrow> 'b::linorder"
  shows "sorted_wrt (<) xs \<Longrightarrow> sorted_wrt (\<lambda>i j. f i < f j \<or> f i = f j \<and> i < j) (sort_key f xs)"
  by (induction xs) (simp_all add: insort_listed)

lemma heads_sorted_wrt:
  assumes "sorted_wrt R xs"
  shows "sorted_wrt R (map (\<lambda>k. hd (filter (\<lambda>x. key x = k) xs)) (first_keys key xs))"
  using assms
proof (induction xs)
  case (Cons x xs)
  let ?h = "\<lambda>xs k. hd (filter (\<lambda>x. key x = k) xs)"
  let ?ks = "filter (\<lambda>k. k \<noteq> key x) (first_keys key xs)"
  have tail: "map (?h (x # xs)) ?ks = map (?h xs) ?ks" and first: "?h (x # xs) (key x) = x" by auto
  have "sorted_wrt R (map (?h xs) ?ks)"
    using Cons sorted_wrt_filter [of "\<lambda>k k'. R (?h xs k) (?h xs k')" "first_keys key xs"] by (simp add: sorted_wrt_map)
  moreover have "R x (?h xs k)" if "k \<in> set ?ks" for k
  proof -
    have "filter (\<lambda>x. key x = k) xs \<noteq> []" using that hd_filter_key [of k key xs] by (simp add: set_first_keys)
    then have "?h xs k \<in> set xs" by (metis filter_is_subset hd_in_set subsetD)
    then show ?thesis using Cons.prems by simp
  qed
  ultimately show ?case by (simp add: tail del: filter.simps(2)) (simp add: first)
qed simp

lemma thread_rows_shape:
  "t \<noteq> [] \<Longrightarrow> thread_rows t =
    \<lparr>row_index = hd t, row_indent = 0\<rparr> # map (\<lambda>i. \<lparr>row_index = i, row_indent = 1\<rparr>) (tl t)"
proof -
  have "map (\<lambda>(place, i). \<lparr>row_index = i, row_indent = if place = 0 then 0 else 1\<rparr>) (enumerate (Suc k) is)
      = map (\<lambda>i. \<lparr>row_index = i, row_indent = 1\<rparr>) is" for k "is"
    by (induction "is" arbitrary: k) simp_all
  then show "t \<noteq> [] \<Longrightarrow> thread_rows t =
      \<lparr>row_index = hd t, row_indent = 0\<rparr> # map (\<lambda>i. \<lparr>row_index = i, row_indent = 1\<rparr>) (tl t)"
    by (cases t) (simp_all add: thread_rows_def)
qed

text \<open>
  C34.  The list shows the conversations one after the other, the one of the latest message first.  A conversation has all
  messages of its subject key and no other, the latest first; the first row of a conversation is not indented, the others are,
  and every message has one row.
\<close>

theorem arrange_threads:
  "\<exists>threads.
     arrange lower headers = concat (map (\<lambda>t. \<lparr>row_index = hd t, row_indent = 0\<rparr> #
       map (\<lambda>i. \<lparr>row_index = i, row_indent = 1\<rparr>) (tl t)) threads)
     \<and> mset (concat threads) = mset [0..<length headers]
     \<and> [] \<notin> set threads
     \<and> (\<forall>t \<in> set threads. set t = {i. i < length headers \<and>
          thread_key lower (mh_subject (headers ! i)) = thread_key lower (mh_subject (headers ! hd t))})
     \<and> (\<forall>t \<in> set threads. sorted_wrt (listed_before headers) t)
     \<and> sorted_wrt (\<lambda>s t. listed_before headers (hd s) (hd t)) threads"
proof -
  let ?key = "\<lambda>i. thread_key lower (mh_subject (headers ! i))"
  let ?order = "sort_key (newest_first headers) [0..<length headers]"
  let ?threads = "group_messages ?key ?order"
  have threads: "?threads = map (\<lambda>k. filter (\<lambda>i. ?key i = k) ?order) (first_keys ?key ?order)"
    by (rule group_messages_filter)
  have order: "sorted_wrt (listed_before headers) ?order"
    unfolding listed_before_key by (rule sort_listed) simp
  have heads: "filter (\<lambda>i. ?key i = k) ?order \<noteq> [] \<and> ?key (hd (filter (\<lambda>i. ?key i = k) ?order)) = k"
    if "k \<in> set (first_keys ?key ?order)" for k
    using that by (intro hd_filter_key) (simp add: set_first_keys)
  have ne: "[] \<notin> set ?threads" unfolding threads set_map using heads by (metis (no_types, lifting) imageE)
  have "sorted_wrt (\<lambda>s t. listed_before headers (hd s) (hd t)) ?threads"
    using heads_sorted_wrt [OF order, of ?key] unfolding threads by (simp add: sorted_wrt_map)
  moreover have "\<forall>t \<in> set ?threads. sorted_wrt (listed_before headers) t"
    using order unfolding threads by (auto intro: sorted_wrt_filter)
  moreover have "\<forall>t \<in> set ?threads. set t = {i. i < length headers \<and> ?key i = ?key (hd t)}"
    using heads unfolding threads by auto
  moreover have "arrange lower headers = concat (map thread_rows ?threads)"
  proof -
    have "sorted (map (\<lambda>k. newest_first headers (hd (filter (\<lambda>i. ?key i = k) ?order))) (first_keys ?key ?order))"
      by (rule heads_sorted) simp
    then have "sort_key (\<lambda>g. newest_first headers (hd g)) ?threads = ?threads"
      by (intro sort_key_id_if_sorted) (simp add: threads comp_def)
    then show ?thesis by (simp add: arrange_def Let_def)
  qed
  moreover have "map thread_rows ?threads = map (\<lambda>t. \<lparr>row_index = hd t, row_indent = 0\<rparr> #
      map (\<lambda>i. \<lparr>row_index = i, row_indent = 1\<rparr>) (tl t)) ?threads"
    using ne by (intro map_cong refl thread_rows_shape) auto
  moreover have "mset (concat ?threads) = mset [0..<length headers]" by (simp add: concat_groups_mset)
  ultimately show ?thesis using ne by (intro exI [of _ ?threads]) simp
qed

text \<open>Every message is in the list once.\<close>

theorem arrange_permutation: "mset (map row_index (arrange lower headers)) = mset [0..<length headers]"
proof -
  have rows: "map row_index (thread_rows g) = g" for g
    by (simp add: thread_rows_def comp_def case_prod_beta)
  have all_rows: "map row_index (concat (map thread_rows gs)) = concat gs" for gs
    by (induction gs) (simp_all add: rows)
  have sorted: "mset (concat (sort_key f gs)) = mset (concat gs)" for f :: "nat list \<Rightarrow> int \<times> int" and gs
    by (simp add: mset_concat flip: sum_mset_sum_list)
  show ?thesis unfolding arrange_def Let_def all_rows sorted concat_groups_mset by simp
qed

section \<open>Replies\<close>

text \<open>What the threads rely on of the Unicode lower case.\<close>

locale lower_case =
  fixes lower :: "ustring \<Rightarrow> ustring"
  assumes lower_reply: "lower (lit ''Re: '' @ s) = lit ''re: '' @ lower s"
    and lower_trim: "trim (lower s) = lower (trim s)"
    and lower_Nil: "lower s = [] \<longleftrightarrow> s = []"

lemma trim_end_append: "trim s \<noteq> [] \<Longrightarrow> trim_end (p @ s) = p @ trim_end s"
  by (auto simp: trim_Nil_iff trim_end_def dropWhile_append)

lemma trim_space: "is_whitespace c \<Longrightarrow> trim (c # s) = trim s"
  by (simp add: trim_def trim_start_def)

lemma trim_end_idem: "trim_end (trim_end s) = trim_end s"
  by (simp add: trim_end_def)

lemma dropWhile_rev_swap:
  "dropWhile P (rev (dropWhile P (rev s))) = rev (dropWhile P (rev (dropWhile P s)))"
proof (cases "\<exists>y \<in> set s. \<not> P y")
  case False
  then have "dropWhile P s = []" "dropWhile P (rev s) = []" by (simp_all add: dropWhile_eq_Nil_conv)
  then show ?thesis by (simp only: rev.simps dropWhile.simps)
next
  case True
  let ?m = "dropWhile P s"
  have rs: "rev s = rev ?m @ rev (takeWhile P s)" by (metis rev_append takeWhile_dropWhile_id)
  have ne: "?m \<noteq> []" using True by (simp add: dropWhile_eq_Nil_conv)
  have "hd ?m \<in> set ?m" "\<not> P (hd ?m)" using hd_in_set [OF ne] hd_dropWhile [OF ne] .
  then have m: "\<exists>y \<in> set (rev ?m). \<not> P y" by auto
  have "dropWhile P (rev s) = dropWhile P (rev ?m) @ rev (takeWhile P s)"
    unfolding rs using m by (auto simp: dropWhile_append)
  then have "dropWhile P (rev (dropWhile P (rev s))) = dropWhile P (takeWhile P s @ rev (dropWhile P (rev ?m)))" by simp
  also have "\<dots> = dropWhile P (rev (dropWhile P (rev ?m)))"
    by (rule dropWhile_append2) (auto dest: set_takeWhileD)
  also have "\<dots> = rev (dropWhile P (rev ?m))"
  proof -
    obtain x t where x: "?m = x # t" "\<not> P x" using True by (metis dropWhile_eq_Nil_conv hd_dropWhile list.exhaust_sel)
    then have "dropWhile P (rev ?m) = dropWhile P (rev t @ [x])" by simp
    also have "\<dots> = dropWhile P (rev t) @ [x] \<or> \<dots> = [x]" using x(2) by (auto simp: dropWhile_append)
    finally show ?thesis using x(2) by auto
  qed
  finally show ?thesis .
qed

lemma trim_trim_end: "trim (trim_end s) = trim s"
proof -
  have "trim_start (trim_end s) = trim_end (trim_start s)"
    by (simp add: trim_start_def trim_end_def dropWhile_rev_swap)
  then show ?thesis by (simp add: trim_def trim_end_idem)
qed

lemma length_trim: "length (trim s) \<le> length s"
  using length_dropWhile_le [of is_whitespace s] length_dropWhile_le [of is_whitespace "rev (dropWhile is_whitespace s)"]
  by (simp add: trim_def trim_end_def trim_start_def)

context lower_case
begin

lemma reply_key:
  assumes "trim s \<noteq> []"
  shows "thread_key lower (lit ''Re: '' @ s) = thread_key lower s"
proof -
  have "trim (lit ''Re: '' @ s) = lit ''Re: '' @ trim_end s"
    using trim_end_append [OF assms, of "lit ''Re: ''"] by (simp add: trim_def trim_start_def is_whitespace_def)
  then have low: "lower (trim (lit ''Re: '' @ s)) = lit ''re:'' @ 32 # lower (trim_end s)"
    using lower_reply [of "trim_end s"] by simp
  have rest: "trim (32 # lower (trim_end s)) = lower (trim s)"
    by (simp add: trim_space is_whitespace_def lower_trim trim_trim_end)
  have "length (lower (trim s)) \<le> length (32 # lower (trim_end s))"
    using length_trim [of "32 # lower (trim_end s)"] by (simp only: rest)
  then have "strip_reply reply_prefixes (lit ''re:'' @ 32 # lower (trim_end s)) = Some (lower (trim s))"
    using rest assms by (simp add: reply_prefixes_def lower_Nil)
  then have "strip_replies (lower (trim (lit ''Re: '' @ s))) = strip_replies (lower (trim s))"
    unfolding low by (subst strip_replies.simps) simp
  then show ?thesis by (simp add: thread_key_def)
qed

end

text \<open>The ASCII lower case is one, as far as subjects are ASCII.\<close>

lemma ascii_lower_space: "is_whitespace (ascii_lower c) \<longleftrightarrow> is_whitespace c"
  by (auto simp: is_whitespace_def ascii_lower_def)

lemma trim_lower: "trim (to_ascii_lowercase s) = to_ascii_lowercase (trim s)"
proof -
  have "dropWhile is_whitespace (map ascii_lower s) = map ascii_lower (dropWhile is_whitespace s)" for s
    by (induction s) (simp_all add: ascii_lower_space)
  then show ?thesis by (simp add: to_ascii_lowercase_def trim_def trim_end_def trim_start_def rev_map)
qed

interpretation ascii: lower_case to_ascii_lowercase
  by unfold_locales (simp_all add: trim_lower, simp_all add: to_ascii_lowercase_def ascii_lower_def)

text \<open>A reply joins the thread of the message it answers.\<close>

theorem reply_joins_thread:
  assumes "lower_case lower" and "trim s \<noteq> []"
  shows "thread_key lower (lit ''Re: '' @ s) = thread_key lower s"
  by (rule lower_case.reply_key [OF assms])

theorem reply_joins_thread_witness:
  "thread_key to_ascii_lowercase (lit ''Re: '' @ lit ''Fwd: Lunch'') = lit ''lunch''"
proof -
  have "thread_key to_ascii_lowercase (lit ''Re: '' @ lit ''Fwd: Lunch'') = thread_key to_ascii_lowercase (lit ''Fwd: Lunch'')"
    by (rule reply_joins_thread [OF ascii.lower_case_axioms]) code_simp
  also have "\<dots> = lit ''lunch''" by code_simp
  finally show ?thesis .
qed

section \<open>Quoted search strings\<close>

text \<open>A reader of quoted strings: a backslash protects the next character, and a bare quote ends the string.\<close>

fun read_quoted :: "ustring \<Rightarrow> (ustring \<times> ustring) option" where
  "read_quoted [] = None"
| "read_quoted (c # s) =
    (if c = 34 then Some ([], s)
     else if c = 92 then (case s of [] \<Rightarrow> None | d # s' \<Rightarrow> map_option (\<lambda>(t, r). (d # t, r)) (read_quoted s'))
     else map_option (\<lambda>(t, r). (c # t, r)) (read_quoted s))"

lemma read_escaped: "read_quoted (escape_quoted s @ 34 # rest) = Some (s, rest)"
  by (induction s) (simp_all add: escape_quoted_def)

lemma set_escaped: "set (escape_quoted s) \<subseteq> insert 92 (set s)"
  by (auto simp: escape_quoted_def)

lemma set_trim: "set (trim s) \<subseteq> set s"
  by (auto simp: trim_def trim_end_def trim_start_def dest!: set_dropWhileD)

text \<open>
  A text is refused exactly when it is blank or holds a control character; otherwise the quoted form has no control
  character and reads back as the trimmed text, whatever follows it in the command.
\<close>

theorem quote_imap_roundtrip:
  "case quote_imap text of
     None \<Rightarrow> trim text = [] \<or> (\<exists>c \<in> set text. is_control c)
   | Some q \<Rightarrow> (\<forall>c \<in> set q. \<not> is_control c) \<and> (\<exists>body. q = 34 # body \<and> read_quoted (body @ rest) = Some (trim text, rest))"
proof (cases "quote_imap text")
  case None
  then show ?thesis by (auto simp: quote_imap_def Let_def split: if_splits)
next
  case (Some q)
  then have q: "q = 34 # escape_quoted (trim text) @ [34]" and ok: "\<forall>c \<in> set text. \<not> is_control c"
    by (auto simp: quote_imap_def Let_def split: if_splits)
  have "\<not> is_control 34" "\<not> is_control 92" by (simp_all add: is_control_def)
  then have "\<forall>c \<in> set q. \<not> is_control c" using q ok set_escaped [of "trim text"] set_trim [of "text"] by auto
  then show ?thesis using Some q read_escaped by simp
qed

text \<open>Three messages, the third a reply to the first.\<close>

lemma arrange_sample:
  "map (\<lambda>r. (row_index r, row_indent r))
     (arrange to_ascii_lowercase [\<lparr>mh_subject = lit ''Lunch'', mh_date_unix = 10, mh_uid = 1\<rparr>,
       \<lparr>mh_subject = lit ''Other'', mh_date_unix = 30, mh_uid = 2\<rparr>,
       \<lparr>mh_subject = lit ''Re: Lunch'', mh_date_unix = 20, mh_uid = 3\<rparr>])
   = [(1, 0), (2, 0), (0, 1)]"
  by code_simp

text \<open>A message and the reply to it are one conversation with the reply first, by the theorem.\<close>

definition sample_folder :: "MessageHeader list" where
  "sample_folder = [\<lparr>mh_subject = lit ''Lunch'', mh_date_unix = 10, mh_uid = 1\<rparr>,
     \<lparr>mh_subject = lit ''Re: Lunch'', mh_date_unix = 20, mh_uid = 3\<rparr>]"

lemma arrange_threads_witness:
  "arrange to_ascii_lowercase sample_folder = [\<lparr>row_index = 1, row_indent = 0\<rparr>, \<lparr>row_index = 0, row_indent = 1\<rparr>]"
proof -
  have two: "length sample_folder = 2" "[0..<2] = [0, 1::nat]" by (simp_all add: sample_folder_def upt_rec)
  have key: "thread_key to_ascii_lowercase (mh_subject (sample_folder ! i)) = lit ''lunch''" if "i < 2" for i
  proof -
    have "thread_key to_ascii_lowercase (lit ''Lunch'') = lit ''lunch''" "thread_key to_ascii_lowercase (lit ''Re: Lunch'') = lit ''lunch''"
      by code_simp+
    with that show ?thesis by (auto simp: sample_folder_def less_2_cases_iff)
  qed
  then obtain k where k: "\<And>i. i < 2 \<Longrightarrow> thread_key to_ascii_lowercase (mh_subject (sample_folder ! i)) = k" by blast
  obtain threads where rows: "arrange to_ascii_lowercase sample_folder = concat (map (\<lambda>t. \<lparr>row_index = hd t, row_indent = 0\<rparr> #
       map (\<lambda>i. \<lparr>row_index = i, row_indent = 1\<rparr>) (tl t)) threads)"
    and all: "mset (concat threads) = mset [0, 1]" and ne: "[] \<notin> set threads"
    and one: "\<forall>t \<in> set threads. set t = {i. i < 2 \<and> thread_key to_ascii_lowercase (mh_subject (sample_folder ! i))
       = thread_key to_ascii_lowercase (mh_subject (sample_folder ! hd t))}"
    and order: "\<forall>t \<in> set threads. sorted_wrt (listed_before sample_folder) t"
    using arrange_threads [of to_ascii_lowercase sample_folder] unfolding two by (elim exE conjE) (rule that)
  have len: "length (concat threads) = 2" using mset_eq_length [OF all] by simp
  obtain t ts where threads: "threads = t # ts" using len by (cases threads) auto
  have "set (concat threads) = {0, 1}" using mset_eq_setD [OF all] by simp
  moreover have "t \<noteq> []" using ne threads by (metis list.set_intros(1))
  ultimately have "hd t \<in> {0, 1}" using threads by (metis Un_iff concat.simps(2) hd_in_set set_append)
  then have "hd t < 2" by (elim insertE) simp_all
  have whole: "set t = {i. i < 2}" if "set t = {i. i < 2 \<and> f i = f (hd t)}" "\<And>i. i < 2 \<Longrightarrow> f i = k"
    for f :: "nat \<Rightarrow> ustring" using that \<open>hd t < 2\<close> by auto
  have "t \<in> set threads" by (simp only: threads list.set_intros)
  note all_of_key = bspec [OF one this]
  have "set t = {i. i < 2}" by (rule whole [OF all_of_key k])
  moreover have "{i :: nat. i < 2} = {0, 1}" using less_2_cases by auto
  ultimately have t: "set t = {0, 1}" by (rule trans)
  then have "2 \<le> length t" using card_length [of t] by simp
  moreover have "length t + length (concat ts) = 2" using len by (simp only: threads concat.simps length_append)
  ultimately have "length t = 2" "length (concat ts) = 0" by linarith+
  then have "ts = []" using ne threads by (cases ts) auto
  obtain x y where xy: "t = [x, y]" using \<open>length t = 2\<close> by (auto simp: length_Suc_conv numeral_2_eq_2)
  then have "listed_before sample_folder x y" using order threads by simp
  then have "t = [1, 0]" using xy t by (auto simp: listed_before_def sample_folder_def doubleton_eq_iff)
  then show ?thesis using rows threads \<open>ts = []\<close> by simp
qed

end
