(* ===== verification/Terminal_Input.thy ===== *)
theory Terminal_Input
  imports Shortcut Text_Rope "HOL-Library.Sublist" "HOL-Library.Code_Target_Nat"
begin

text \<open>
  What the terminal sends to the shell (\<open>src/crates/orchid-terminal/src/input/keymap.rs\<close>, \<open>paste.rs\<close>): keys, mouse
  reports and pasted texts as bytes.
\<close>

unbundle bit_operations_syntax

section \<open>The encoder\<close>

datatype MouseMode = MouseOff | MouseNormal | Sgr | SgrPixels
datatype MouseButtonReport = LeftButton | MiddleButton | RightButton | WheelUp | WheelDown
datatype MouseAction = Press | Release | Move

record InputEncoder =
  application_cursor :: bool
  application_keypad :: bool
  bracketed_paste :: bool
  mouse_mode :: MouseMode
  utf8_mode :: bool

definition encoder_new :: InputEncoder where
  "encoder_new = \<lparr>application_cursor = False, application_keypad = False, bracketed_paste = False,
    mouse_mode = MouseOff, utf8_mode = True\<rparr>"

definition modifier_code :: "Modifiers \<Rightarrow> nat" where
  "modifier_code m = 1 + (if mods_contains m SHIFT then 1 else 0) + (if mods_contains m ALT then 2 else 0)
    + (if mods_contains m CTRL then 4 else 0)"

text \<open>64 to 95 are the at sign, the capital letters and the brackets; 97 to 122 the small letters.\<close>

definition ctrl_byte :: "uchar \<Rightarrow> u8 option" where
  "ctrl_byte c =
    (if c = 64 \<or> c = 32 then Some 0
     else if 97 \<le> c \<and> c \<le> 122 then Some (word_of_nat c - 97 + 1)
     else if 65 \<le> c \<and> c \<le> 90 then Some (word_of_nat c - 65 + 1)
     else if c = 91 then Some 0x1B else if c = 92 then Some 0x1C else if c = 93 then Some 0x1D
     else if c = 94 then Some 0x1E else if c = 95 then Some 0x1F else if c = 63 then Some 0x7F
     else None)"

definition cursor_sequence :: "bool \<Rightarrow> u8 \<Rightarrow> nat \<Rightarrow> bytes" where
  "cursor_sequence application final code =
    (if application then [0x1B, 79] else [0x1B, 91])
    @ (if code \<noteq> 1 then str_bytes (lit ''1;'' @ nat_text code) else []) @ [final]"

definition csi_tilde :: "nat \<Rightarrow> nat \<Rightarrow> bytes" where
  "csi_tilde n code =
    (if code = 1 then str_bytes ([0x1B, 91] @ nat_text n @ [126])
     else str_bytes ([0x1B, 91] @ nat_text n @ [59] @ nat_text code @ [126]))"

definition mod_prefixed :: "u8 \<Rightarrow> nat \<Rightarrow> bytes" where
  "mod_prefixed final code =
    (if code = 1 then [0x1B, 79, final] else str_bytes ([0x1B] @ lit ''[1;'' @ nat_text code @ [unat final]))"

definition function_key_sequence :: "nat \<Rightarrow> nat \<Rightarrow> bytes" where
  "function_key_sequence n code =
    (if n = 1 then mod_prefixed 80 code else if n = 2 then mod_prefixed 81 code
     else if n = 3 then mod_prefixed 82 code else if n = 4 then mod_prefixed 83 code
     else if n = 5 then csi_tilde 15 code else if n = 6 then csi_tilde 17 code
     else if n = 7 then csi_tilde 18 code else if n = 8 then csi_tilde 19 code
     else if n = 9 then csi_tilde 20 code else if n = 10 then csi_tilde 21 code
     else if n = 11 then csi_tilde 23 code else if n = 12 then csi_tilde 24 code
     else [])"

text \<open>The keys that print, cursor and editing keys, function keys.\<close>

fun key_bytes :: "InputEncoder \<Rightarrow> Key \<Rightarrow> Modifiers \<Rightarrow> bytes" where
  "key_bytes e (Char c) m =
    (if mods_contains m ALT then [0x1B] else [])
    @ encode_char (if mods_contains m SHIFT then ascii_upper c else c)"
| "key_bytes e Enter m = [13]"
| "key_bytes e Escape m = [0x1B]"
| "key_bytes e Tab m = (if mods_contains m SHIFT then [0x1B, 91, 90] else [9])"
| "key_bytes e Backspace m = [0x7F]"
| "key_bytes e Delete m = csi_tilde 3 (modifier_code m)"
| "key_bytes e Insert m = csi_tilde 2 (modifier_code m)"
| "key_bytes e Home m = cursor_sequence (application_cursor e) 72 (modifier_code m)"
| "key_bytes e End m = cursor_sequence (application_cursor e) 70 (modifier_code m)"
| "key_bytes e PageUp m = csi_tilde 5 (modifier_code m)"
| "key_bytes e PageDown m = csi_tilde 6 (modifier_code m)"
| "key_bytes e ArrowUp m = cursor_sequence (application_cursor e) 65 (modifier_code m)"
| "key_bytes e ArrowDown m = cursor_sequence (application_cursor e) 66 (modifier_code m)"
| "key_bytes e ArrowLeft m = cursor_sequence (application_cursor e) 68 (modifier_code m)"
| "key_bytes e ArrowRight m = cursor_sequence (application_cursor e) 67 (modifier_code m)"
| "key_bytes e Space m = [32]"
| "key_bytes e Comma m = [44]"
| "key_bytes e Period m = [46]"
| "key_bytes e Slash m = [47]"
| "key_bytes e Backtick m = [96]"
| "key_bytes e Minus m = [45]"
| "key_bytes e Equals m = [61]"
| "key_bytes e LeftBracket m = [91]"
| "key_bytes e RightBracket m = [93]"
| "key_bytes e Semicolon m = [59]"
| "key_bytes e Quote m = [39]"
| "key_bytes e Backslash m = [92]"
| "key_bytes e (F n) m = function_key_sequence n (modifier_code m)"

definition encode_key :: "InputEncoder \<Rightarrow> Key \<Rightarrow> Modifiers \<Rightarrow> bytes" where
  "encode_key e k m =
    (case (if mods_contains m CTRL then (case k of Char c \<Rightarrow> ctrl_byte c | _ \<Rightarrow> None) else None) of
       Some b \<Rightarrow> if mods_contains m ALT then [0x1B, b] else [b]
     | None \<Rightarrow> key_bytes e k m)"

section \<open>The mouse\<close>

fun button_code :: "MouseButtonReport \<Rightarrow> u8" where
  "button_code LeftButton = 0" | "button_code MiddleButton = 1" | "button_code RightButton = 2"
| "button_code WheelUp = 64" | "button_code WheelDown = 65"

definition mouse_code :: "MouseButtonReport \<Rightarrow> Modifiers \<Rightarrow> u8" where
  "mouse_code b m =
    button_code b OR (if mods_contains m SHIFT then 4 else 0) OR (if mods_contains m ALT then 8 else 0)
    OR (if mods_contains m CTRL then 16 else 0)"

definition final_byte :: "MouseAction \<Rightarrow> u8" where
  "final_byte a = (if a = Release then 109 else 77)"

definition encode_mouse :: "InputEncoder \<Rightarrow> u16 \<Rightarrow> u16 \<Rightarrow> MouseButtonReport \<Rightarrow> MouseAction \<Rightarrow> Modifiers \<Rightarrow> bytes" where
  "encode_mouse e col row b a m =
    (let code = mouse_code b m
     in case mouse_mode e of
          MouseOff \<Rightarrow> []
        | MouseNormal \<Rightarrow>
            [0x1B, 91, 77, ucast (32 + ucast code :: u16), ucast (32 + min (col + 1) 223), ucast (32 + min (row + 1) 223)]
        | _ \<Rightarrow>
            str_bytes ([0x1B] @ lit ''[<'' @ nat_text (unat code) @ [59] @ nat_text (unat (col + 1)) @ [59]
              @ nat_text (unat (row + 1)) @ [unat (final_byte a)]))"

section \<open>Pasting\<close>

datatype paste_error = PasteRejected

definition BP_START :: bytes where
  "BP_START = [0x1B, 91, 50, 48, 48, 126]"

definition BP_END :: bytes where
  "BP_END = [0x1B, 91, 50, 48, 49, 126]"

definition str_contains :: "ustring \<Rightarrow> ustring \<Rightarrow> bool" where
  "str_contains p s \<longleftrightarrow> (\<exists>t \<in> set (suffixes s). starts_with p t)"

text \<open>\<open>replace("\r\n", "\n")\<close>.\<close>

fun crlf_to_lf :: "ustring \<Rightarrow> ustring" where
  "crlf_to_lf [] = []"
| "crlf_to_lf (c # s) =
    (case s of d # s' \<Rightarrow> if c = 13 \<and> d = 10 then 10 # crlf_to_lf s' else c # crlf_to_lf s | [] \<Rightarrow> [c])"

definition normalise_lines :: "ustring \<Rightarrow> ustring" where
  "normalise_lines s = map (\<lambda>c. if c = 13 then 10 else c) (crlf_to_lf s)"

definition sanitise_paste :: "ustring \<Rightarrow> paste_error + ustring" where
  "sanitise_paste s =
    (if str_contains [0x1B, 91, 50, 48, 49, 126] s then Inl PasteRejected
     else let n = normalise_lines s
       in if \<exists>c \<in> set n. c \<noteq> 10 \<and> c \<noteq> 9 \<and> is_control c then Inl PasteRejected else Inr n)"

definition encode_paste :: "InputEncoder \<Rightarrow> ustring \<Rightarrow> paste_error + bytes" where
  "encode_paste e s =
    and_then (sanitise_paste s)
      (\<lambda>n. Inr (if bracketed_paste e then BP_START @ str_bytes n @ BP_END else str_bytes n))"

section \<open>A pasted text stays inside its markers\<close>

lemma encode_char_plain:
  assumes "scalar c" and "27 \<in> set (encode_char c)"
  shows "c = 27"
proof -
  have "unat (27 :: u8) \<in> set (map unat (encode_char c))" using assms(2) by (simp only: set_map imageI)
  then have "27 \<in> set (char_nats c)" by (simp add: unat_encode_char assms(1))
  then show ?thesis by (auto simp: char_nats_def split: if_splits)
qed

lemma str_bytes_plain: "\<forall>c \<in> set s. scalar c \<and> c \<noteq> 27 \<Longrightarrow> 27 \<notin> set (str_bytes s)"
  using encode_char_plain by (induction s) auto

lemma set_crlf: "set (crlf_to_lf s) \<subseteq> set s"
proof (induction s rule: crlf_to_lf.induct)
  case (2 c s)
  then show ?case by (cases s) auto
qed simp

lemma set_crlf_keeps: "c \<in> set s \<Longrightarrow> c \<noteq> 13 \<Longrightarrow> c \<in> set (crlf_to_lf s)"
proof (induction s rule: crlf_to_lf.induct)
  case (2 d s)
  then show ?case by (cases s) auto
qed simp

lemma set_normalise_lines:
  "c \<in> set (normalise_lines s) \<Longrightarrow> c \<in> set s \<or> c = 10"
  "c \<in> set s \<Longrightarrow> c \<noteq> 13 \<Longrightarrow> c \<in> set (normalise_lines s)"
  "13 \<notin> set (normalise_lines s)"
  using set_crlf [of s] set_crlf_keeps [of c s] by (auto simp: normalise_lines_def intro!: rev_image_eqI [of c])

text \<open>What an application does with a bracketed paste: it reads up to the first end marker.\<close>

fun split_first :: "'a list \<Rightarrow> 'a list \<Rightarrow> ('a list \<times> 'a list) option" where
  "split_first p [] = (if p = [] then Some ([], []) else None)"
| "split_first p (c # s) =
    (case strip_prefix p (c # s) of
       Some r \<Rightarrow> Some ([], r)
     | None \<Rightarrow> map_option (\<lambda>(b, r). (c # b, r)) (split_first p s))"

lemma split_first_plain: "x \<notin> set b \<Longrightarrow> split_first (x # p) (b @ x # p @ r) = Some (b, r)"
proof (induction b)
  case Nil
  then show ?case using strip_prefix_Some_iff [of "x # p" "x # p @ r" r] by simp
qed simp

text \<open>
  C23.  A paste is refused exactly when it holds a control character other than a tab or a line end; otherwise, between the
  markers, the application reads the text with its line ends normalised, and nothing of the paste is left behind the end
  marker.
\<close>

theorem paste_stays_inside:
  assumes "bracketed_paste e" and "\<forall>c \<in> set s. scalar c"
  shows "case encode_paste e s of
      Inl _ \<Rightarrow> \<exists>c \<in> set s. is_control c \<and> c \<noteq> 9 \<and> c \<noteq> 10 \<and> c \<noteq> 13
    | Inr out \<Rightarrow> (\<forall>c \<in> set s. is_control c \<longrightarrow> c = 9 \<or> c = 10 \<or> c = 13)
        \<and> (\<exists>r. strip_prefix BP_START out = Some r
             \<and> split_first BP_END (r @ rest) = Some (str_bytes (normalise_lines s), rest))"
proof (cases "encode_paste e s")
  case (Inl err)
  have "27 \<in> set s" if found: "str_contains [0x1B, 91, 50, 48, 49, 126] s"
  proof -
    obtain r where "suffix ([0x1B, 91, 50, 48, 49, 126] @ r) s"
      using found by (auto simp: str_contains_def starts_with_def strip_prefix_Some_iff)
    then have "set ([0x1B, 91, 50, 48, 49, 126] @ r) \<subseteq> set s" by (rule set_mono_suffix)
    then show ?thesis by simp
  qed
  moreover have "is_control 27" by (simp add: is_control_def)
  moreover have "\<exists>c \<in> set s. is_control c \<and> c \<noteq> 9 \<and> c \<noteq> 10 \<and> c \<noteq> 13"
    if "c \<in> set (normalise_lines s)" "c \<noteq> 10" "c \<noteq> 9" "is_control c" for c
    using that set_normalise_lines(1) [of c s] set_normalise_lines(3) [of s] by metis
  ultimately show ?thesis using Inl
    by (auto simp: encode_paste_def sanitise_paste_def Let_def split: if_splits)
next
  case (Inr out)
  let ?n = "normalise_lines s"
  have ok: "\<forall>c \<in> set ?n. c = 10 \<or> c = 9 \<or> \<not> is_control c"
    and out: "out = BP_START @ str_bytes ?n @ BP_END"
    using Inr assms(1) by (auto simp: encode_paste_def sanitise_paste_def Let_def split: if_splits)
  have "scalar 10" by (simp add: scalar_def)
  then have "\<forall>c \<in> set ?n. scalar c \<and> c \<noteq> 27" using assms(2) ok set_normalise_lines(1) [of _ s] by (auto simp: is_control_def)
  then have "27 \<notin> set (str_bytes ?n)" by (rule str_bytes_plain)
  then have "split_first BP_END ((str_bytes ?n @ BP_END) @ rest) = Some (str_bytes ?n, rest)"
    using split_first_plain [of 27 "str_bytes ?n" "tl BP_END" rest] by (simp add: BP_END_def)
  moreover have "strip_prefix BP_START out = Some (str_bytes ?n @ BP_END)" using out strip_prefix_Some_iff by blast
  moreover have "\<forall>c \<in> set s. is_control c \<longrightarrow> c = 9 \<or> c = 10 \<or> c = 13" using ok set_normalise_lines(2) [of _ s] by blast
  ultimately show ?thesis using Inr by auto
qed

theorem paste_stays_inside_witness:
  "encode_paste (encoder_new\<lparr>bracketed_paste := True\<rparr>) [97, 13, 10, 0xE9] = Inr (BP_START @ [97, 10, 0xC3, 0xA9] @ BP_END)
   \<and> split_first BP_END ([97, 10, 0xC3, 0xA9] @ BP_END @ [100]) = Some ([97, 10, 0xC3, 0xA9], [100])"
proof -
  let ?e = "encoder_new\<lparr>bracketed_paste := True\<rparr>"
  have out: "encode_paste ?e [97, 13, 10, 0xE9] = Inr (BP_START @ [97, 10, 0xC3, 0xA9] @ BP_END)"
    and n: "str_bytes (normalise_lines [97, 13, 10, 0xE9]) = [97, 10, 0xC3, 0xA9]"
    and r: "strip_prefix BP_START (BP_START @ [97, 10, 0xC3, 0xA9] @ BP_END) = Some ([97, 10, 0xC3, 0xA9] @ BP_END)"
    by code_simp+
  from paste_stays_inside [of ?e "[97, 13, 10, 0xE9]" "[100]"] show ?thesis
    unfolding out n by (simp add: scalar_def r del: append_Cons append.simps)
qed

section \<open>Keys\<close>

text \<open>Without Control, a character is sent as its UTF-8 bytes, behind an escape when Alt is held.\<close>

lemma encode_plain_char:
  "\<not> mods_contains m CTRL \<Longrightarrow> encode_key e (Char c) m =
    (if mods_contains m ALT then [0x1B] else []) @ encode_char (if mods_contains m SHIFT then ascii_upper c else c)"
  by (simp add: encode_key_def)

definition special_keys :: "Key list" where
  "special_keys = [Delete, Insert, Home, End, PageUp, PageDown, ArrowUp, ArrowDown, ArrowLeft, ArrowRight,
    F 1, F 2, F 3, F 4, F 5, F 6, F 7, F 8, F 9, F 10, F 11, F 12]"

text \<open>A reader of the sequences: the parameters, then the letter or the tilde that ends them.\<close>

definition tilde_key :: "nat \<Rightarrow> Key option" where
  "tilde_key n = map_of [(2, Insert), (3, Delete), (5, PageUp), (6, PageDown), (15, F 5), (17, F 6), (18, F 7), (19, F 8),
    (20, F 9), (21, F 10), (23, F 11), (24, F 12)] n"

definition letter_key :: "nat \<Rightarrow> Key option" where
  "letter_key n = map_of [(65, ArrowUp), (66, ArrowDown), (67, ArrowRight), (68, ArrowLeft), (70, End), (72, Home),
    (80, F 1), (81, F 2), (82, F 3), (83, F 4)] n"

definition read_special :: "bytes \<Rightarrow> (Key \<times> nat) option" where
  "read_special bs =
    (let s = map unat bs; body = butlast (drop 2 s); params = (if body = [] then [] else map digits_value (split_char 59 body))
     in if take 1 s \<noteq> [27] then None
        else if last s = 126
          then (case params of [n] \<Rightarrow> map_option (\<lambda>k. (k, 1)) (tilde_key n)
                | [n, code] \<Rightarrow> map_option (\<lambda>k. (k, code)) (tilde_key n) | _ \<Rightarrow> None)
          else (case params of [] \<Rightarrow> map_option (\<lambda>k. (k, 1)) (letter_key (last s))
                | [_, code] \<Rightarrow> map_option (\<lambda>k. (k, code)) (letter_key (last s)) | _ \<Rightarrow> None))"

lemma unat_ascii: "\<forall>c \<in> set s. c < 128 \<Longrightarrow> map unat (str_bytes s) = s"
  by (induction s) (simp_all add: encode_char_def unat_of_nat)

lemma nat_text_plain [simp]: "59 \<notin> set (nat_text n)" "c \<in> set (nat_text n) \<Longrightarrow> c < 128"
  by (auto dest: nat_text_digits)

lemma split_char_nat_text [simp]:
  "split_char 59 (nat_text n) = [nat_text n]" "split_char 59 (nat_text n @ 59 # s) = nat_text n # split_char 59 s"
  by (simp_all add: split_char_plain split_char_append)

lemma split_char_one [simp]: "split_char 59 ((49::nat) # 59 # s) = [49] # split_char 59 s"
  by simp

text \<open>Reading what the three builders of sequences write.\<close>

lemma read_tilde: "read_special (csi_tilde n code) = map_option (\<lambda>k. (k, code)) (tilde_key n)"
proof (cases "code = 1")
  case True
  then have "map unat (csi_tilde n code) = [27, 91] @ nat_text n @ [126]"
    unfolding csi_tilde_def by (simp only: refl if_True) (rule unat_ascii, auto)
  then show ?thesis using True by (simp add: read_special_def butlast_append nat_text_Nil digits_value_nat_text)
next
  case False
  then have "map unat (csi_tilde n code) = [27, 91] @ nat_text n @ [59] @ nat_text code @ [126]"
    unfolding csi_tilde_def by (simp only: if_False) (rule unat_ascii, auto)
  then show ?thesis by (simp add: read_special_def butlast_append nat_text_Nil digits_value_nat_text)
qed

lemma read_cursor:
  assumes "unat f < 126"
  shows "read_special (cursor_sequence application f code) = map_option (\<lambda>k. (k, code)) (letter_key (unat f))"
proof -
  have "map unat (cursor_sequence application f code) =
      [27, if application then 79 else 91] @ (if code \<noteq> 1 then lit ''1;'' @ nat_text code else []) @ [unat f]"
    using unat_ascii [of "lit ''1;'' @ nat_text code"] by (auto simp: cursor_sequence_def)
  then show ?thesis using assms by (simp add: read_special_def butlast_append nat_text_Nil digits_value_nat_text)
qed

lemma read_mod_prefixed:
  assumes "unat f < 126"
  shows "read_special (mod_prefixed f code) = map_option (\<lambda>k. (k, code)) (letter_key (unat f))"
proof -
  have "map unat (mod_prefixed f code) =
      [27, if code = 1 then 79 else 91] @ (if code \<noteq> 1 then lit ''1;'' @ nat_text code else []) @ [unat f]"
    using unat_ascii [of "[0x1B] @ lit ''[1;'' @ nat_text code @ [unat f]"] assms by (auto simp: mod_prefixed_def)
  then show ?thesis using assms by (simp add: read_special_def butlast_append nat_text_Nil digits_value_nat_text)
qed

text \<open>
  The bytes of a cursor, editing or function key tell the key and the modifiers held with it, in both cursor modes.
\<close>

theorem special_keys_readable:
  assumes "k \<in> set special_keys"
  shows "read_special (encode_key e k m) = Some (k, modifier_code m)"
  using assms unfolding special_keys_def
  by (auto simp: encode_key_def function_key_sequence_def read_tilde read_cursor read_mod_prefixed tilde_key_def letter_key_def)

theorem special_keys_readable_witness:
  "read_special (encode_key encoder_new ArrowLeft (CTRL OR SHIFT)) = Some (ArrowLeft, 6)"
  using special_keys_readable [of ArrowLeft encoder_new "CTRL OR SHIFT"]
  by (simp add: special_keys_def modifier_code_def mods_contains_def CTRL_def SHIFT_def ALT_def)

section \<open>Mouse reports\<close>

lemma mouse_code_bits:
  "mouse_code b m AND 0x43 = button_code b" "mouse_code b m AND 4 \<noteq> 0 \<longleftrightarrow> mods_contains m SHIFT"
  "mouse_code b m AND 8 \<noteq> 0 \<longleftrightarrow> mods_contains m ALT" "mouse_code b m AND 16 \<noteq> 0 \<longleftrightarrow> mods_contains m CTRL"
  by (cases b; cases "mods_contains m SHIFT"; cases "mods_contains m ALT"; cases "mods_contains m CTRL"; simp add: mouse_code_def)+

definition read_sgr :: "bytes \<Rightarrow> (nat \<times> nat \<times> nat \<times> bool) option" where
  "read_sgr bs =
    (let s = map unat bs
     in case strip_prefix ([0x1B] @ lit ''[<'') s of
          Some r \<Rightarrow>
            (case map digits_value (split_char 59 (butlast r)) of
               [code, col, row] \<Rightarrow> Some (code, col, row, last r = 109)
             | _ \<Rightarrow> None)
        | None \<Rightarrow> None)"

text \<open>
  In the SGR modes a report reads back as the button with the modifiers, the position counted from one, and whether the
  button was released.
\<close>

theorem sgr_report_readable:
  assumes "mouse_mode e = Sgr \<or> mouse_mode e = SgrPixels" and "unat col < 65535" and "unat row < 65535"
  shows "read_sgr (encode_mouse e col row b a m) =
    Some (unat (mouse_code b m), Suc (unat col), Suc (unat row), a = Release)"
proof -
  have inc: "unat (col + 1) = Suc (unat col)" "unat (row + 1) = Suc (unat row)"
    using assms(2,3) by (simp_all add: unat_word_ariths)
  let ?s = "[0x1B] @ lit ''[<'' @ nat_text (unat (mouse_code b m)) @ [59] @ nat_text (Suc (unat col)) @ [59]
    @ nat_text (Suc (unat row)) @ [unat (final_byte a)]"
  have enc: "encode_mouse e col row b a m = str_bytes ?s" using assms(1) by (auto simp: encode_mouse_def Let_def inc)
  have "unat (final_byte a) < 128" by (simp add: final_byte_def)
  then have "\<forall>c \<in> set ?s. c < 128" by auto
  then have bytes: "map unat (str_bytes ?s) = ?s" by (rule unat_ascii)
  show ?thesis
    unfolding enc read_sgr_def Let_def bytes
    by (simp add: butlast_append digits_value_nat_text final_byte_def)
qed

theorem sgr_report_readable_witness:
  "read_sgr (encode_mouse (encoder_new\<lparr>mouse_mode := Sgr\<rparr>) 11 4 WheelUp Press CTRL) = Some (80, 12, 5, False)"
  using sgr_report_readable [of "encoder_new\<lparr>mouse_mode := Sgr\<rparr>" 11 4 WheelUp Press CTRL]
  by (simp add: mouse_code_def mods_contains_def CTRL_def SHIFT_def ALT_def)

section \<open>Findings\<close>

text \<open>
  The keys that have a name of their own ignore Control and Alt: Control with the space key sends a space, though the
  table of control bytes has an entry for the space; Alt with the comma key sends a comma without an escape.
\<close>

lemma named_keys_ignore_modifiers:
  "encode_key e Space CTRL = [32]" "ctrl_byte 32 = Some 0" "encode_key e Comma ALT = [44]" "encode_key e LeftBracket CTRL = [91]"
  by (simp_all add: encode_key_def ctrl_byte_def)

text \<open>A movement is reported as a press of the button.\<close>

lemma movement_reported_as_press: "encode_mouse e col row b Move m = encode_mouse e col row b Press m"
  by (simp add: encode_mouse_def Let_def final_byte_def split: MouseMode.split)

text \<open>The column after 65534 wraps to zero.\<close>

lemma last_column_wraps:
  "read_sgr (encode_mouse (encoder_new\<lparr>mouse_mode := Sgr\<rparr>) 65535 0 LeftButton Press 0) = Some (0, 0, 1, False)"
  by code_simp

end
