(* ===== verification/Calc_Formula.thy ===== *)
theory Calc_Formula
  imports Calc_Ref
begin

text \<open>
  The evaluator of spreadsheet formulas (\<open>CalcParser\<close> of \<open>src/crates/orchid-viewers/src/office/calc.rs\<close>): comparison,
  joining, sums, products, signs and parentheses, numbers, quoted texts, cells of this sheet and of others, defined
  names, \<open>LET\<close>, \<open>IF\<close>, \<open>IFERROR\<close> and \<open>CHOOSE\<close>, and the recursion into the formulas of other cells with its guard against
  circles.  The arithmetic of \<open>f64\<close>, the other functions of the large table and the references to tables are
  parameters.  The parser runs over the rest of the text instead of an index into it.
\<close>

section \<open>Values and surroundings\<close>

datatype 'f CalcValue = NumValue 'f | TextValue ustring

record 'f ForeignSheet =
  fs_literals :: "ustring \<Rightarrow> 'f option"
  fs_texts :: "ustring \<Rightarrow> ustring option"

record DefinedRef =
  dr_sheet :: ustring
  dr_cells :: "ustring list"
  dr_formula :: "ustring option"

record NameBook =
  nb_global :: "(ustring \<times> DefinedRef) list"
  nb_local :: "((ustring \<times> ustring) \<times> DefinedRef) list"

text \<open>The hash maps of formulas and names are association lists; the others are only looked up.\<close>

record 'f CalcEnv =
  ce_formulas :: "(ustring \<times> ustring) list"
  ce_literals :: "ustring \<Rightarrow> 'f option"
  ce_texts :: "ustring \<Rightarrow> ustring option"
  ce_foreign :: "ustring \<Rightarrow> 'f ForeignSheet option"
  ce_names :: NameBook
  ce_sheet :: ustring
  ce_previous :: "ustring \<Rightarrow> 'f option"
  ce_iterate :: bool
  ce_visiting :: "ustring list"
  ce_let_names :: "ustring \<Rightarrow> 'f CalcValue option"
  ce_hide_book_names :: bool

type_synonym 'f parsed = "('f CalcValue \<times> ustring) option"

text \<open>
  What the evaluator uses of \<open>f64\<close>; \<open>co_call\<close> evaluates a call of another function from the text behind its
  parenthesis, \<open>co_table\<close> a word with a bracket behind it.
\<close>

record 'f calc_ops =
  co_lit :: "rat \<Rightarrow> 'f"
  co_add :: "'f \<Rightarrow> 'f \<Rightarrow> 'f"
  co_sub :: "'f \<Rightarrow> 'f \<Rightarrow> 'f"
  co_mul :: "'f \<Rightarrow> 'f \<Rightarrow> 'f"
  co_div :: "'f \<Rightarrow> 'f \<Rightarrow> 'f"
  co_neg :: "'f \<Rightarrow> 'f"
  co_abs :: "'f \<Rightarrow> 'f"
  co_round :: "'f \<Rightarrow> 'f"
  co_lt :: "'f \<Rightarrow> 'f \<Rightarrow> bool"
  co_eq :: "'f \<Rightarrow> 'f \<Rightarrow> bool"
  co_finite :: "'f \<Rightarrow> bool"
  co_to_i64 :: "'f \<Rightarrow> int"
  co_parse :: "ustring \<Rightarrow> 'f option"
  co_fixed :: "nat \<Rightarrow> 'f \<Rightarrow> ustring"
  co_call :: "'f CalcEnv \<Rightarrow> ustring \<Rightarrow> ustring \<Rightarrow> 'f parsed"
  co_table :: "'f CalcEnv \<Rightarrow> ustring \<Rightarrow> 'f parsed"

fun calc_num :: "'f CalcValue \<Rightarrow> 'f option" where
  "calc_num (NumValue x) = Some x" | "calc_num (TextValue s) = None"

definition int_text :: "int \<Rightarrow> ustring" where
  "int_text i = (if i < 0 then 45 # nat_text (nat (- i)) else nat_text (nat i))"

definition format_calc :: "'f calc_ops \<Rightarrow> 'f \<Rightarrow> ustring" where
  "format_calc N x =
    (if \<not> co_finite N x then []
     else if co_lt N (co_abs N (co_sub N x (co_round N x))) (co_lit N (1 / 10 ^ 9)) \<and> co_lt N (co_abs N x) (co_lit N (10 ^ 15))
       then int_text (co_to_i64 N (co_round N x))
     else trim_end_char 46 (trim_end_char 48 (co_fixed N 8 x)))"

fun calc_text :: "'f calc_ops \<Rightarrow> 'f CalcValue \<Rightarrow> ustring" where
  "calc_text N (NumValue x) = format_calc N x" | "calc_text N (TextValue s) = s"

fun kept_calc :: "'f calc_ops \<Rightarrow> 'f CalcValue \<Rightarrow> 'f CalcValue option" where
  "kept_calc N (NumValue x) = (if co_finite N x then Some (NumValue x) else None)"
| "kept_calc N (TextValue s) = Some (TextValue s)"

fun limited_value :: "'f calc_ops \<Rightarrow> 'f CalcValue \<Rightarrow> 'f CalcValue option" where
  "limited_value N (NumValue x) = (if co_finite N x then Some (NumValue x) else None)"
| "limited_value N (TextValue s) = (if 32767 < length s then None else Some (TextValue s))"

definition nb_get :: "NameBook \<Rightarrow> ustring \<Rightarrow> ustring \<Rightarrow> DefinedRef option" where
  "nb_get b sheet name =
    (case map_of (nb_local b) (sheet, name) of Some d \<Rightarrow> Some d | None \<Rightarrow> map_of (nb_global b) name)"

definition no_names :: NameBook where
  "no_names = \<lparr>nb_global = [], nb_local = []\<rparr>"

definition named_addresses :: "DefinedRef \<Rightarrow> 'f CalcEnv \<Rightarrow> ustring list" where
  "named_addresses d env =
    (if dr_sheet d = ce_sheet env then dr_cells d else map (\<lambda>c. dr_sheet d @ [33] @ c) (dr_cells d))"

section \<open>Tokens\<close>

definition is_space :: "uchar \<Rightarrow> bool" where
  "is_space c \<longleftrightarrow> c = 32 \<or> c = 9 \<or> c = 10 \<or> c = 12 \<or> c = 13"

definition skip_space :: "ustring \<Rightarrow> ustring" where
  "skip_space s = dropWhile is_space s"

definition number_char :: "uchar \<Rightarrow> bool" where
  "number_char c \<longleftrightarrow> is_ascii_digit c \<or> c = 46"

definition calc_number :: "'f calc_ops \<Rightarrow> ustring \<Rightarrow> 'f parsed" where
  "calc_number N s = map_option (\<lambda>x. (NumValue x, dropWhile number_char s)) (co_parse N (takeWhile number_char s))"

fun word_chars :: "ustring \<Rightarrow> ustring \<times> ustring" where
  "word_chars [] = ([], [])"
| "word_chars (c # s) =
    (if is_ascii_alphanumeric c \<or> c = 36 \<or> c = 95 then (let (w, r) = word_chars s in (c # w, r))
     else if c = 46 \<and> s \<noteq> [] \<and> is_ascii_alphanumeric (hd s) then (let (w, r) = word_chars s in (c # w, r))
     else ([], c # s))"

definition calc_word :: "ustring \<Rightarrow> (ustring \<times> ustring) option" where
  "calc_word s = (let (w, r) = word_chars s in if w = [] then None else Some (filter (\<lambda>c. c \<noteq> 36) w, r))"

text \<open>The text after the opening quote; a doubled quote stands for one.\<close>

fun quoted_chars :: "uchar \<Rightarrow> ustring \<Rightarrow> (ustring \<times> ustring) option" where
  "quoted_chars q [] = None"
| "quoted_chars q (c # s) =
    (if c = q
     then (case s of
             d # s' \<Rightarrow> if d = q then map_option (\<lambda>(t, r). (q # t, r)) (quoted_chars q s') else Some ([], s)
           | [] \<Rightarrow> Some ([], []))
     else map_option (\<lambda>(t, r). (c # t, r)) (quoted_chars q s))"

text \<open>A sheet name has at most 31 characters, so the code's bound of 128 bytes on the way refuses nothing more.\<close>

definition quoted_sheet :: "ustring \<Rightarrow> (ustring \<times> ustring) option" where
  "quoted_sheet s =
    (case quoted_chars 39 s of
       Some (name, r) \<Rightarrow> if name = [] \<or> 31 < length name then None else Some (name, r)
     | None \<Rightarrow> None)"

definition cell_token :: "ustring \<Rightarrow> (ustring \<times> ustring) option" where
  "cell_token s = (case calc_word s of Some (w, r) \<Rightarrow> if is_cell_address w then Some (w, r) else None | None \<Rightarrow> None)"

definition to_upper :: "ustring \<Rightarrow> ustring" where
  "to_upper s = map ascii_upper s"

definition book_value :: "'f calc_ops \<Rightarrow> 'f ForeignSheet \<Rightarrow> ustring \<Rightarrow> 'f CalcValue option" where
  "book_value N book address =
    (case fs_literals book address of
       Some x \<Rightarrow> if co_finite N x then Some (NumValue x) else None
     | None \<Rightarrow> map_option TextValue (fs_texts book address))"

definition foreign_cell :: "'f calc_ops \<Rightarrow> 'f CalcEnv \<Rightarrow> ustring \<Rightarrow> ustring \<Rightarrow> 'f parsed" where
  "foreign_cell N env sheet s =
    (case skip_space s of
       c # s1 \<Rightarrow>
         if c \<noteq> 33 then None
         else (case cell_token s1 of
                 None \<Rightarrow> None
               | Some (address, r) \<Rightarrow>
                   let r = skip_space r
                   in if r \<noteq> [] \<and> hd r = 58 then None
                      else (case ce_foreign env (to_ascii_lowercase sheet) of
                              None \<Rightarrow> None
                            | Some book \<Rightarrow> map_option (\<lambda>v. (v, r)) (book_value N book (to_upper address))))
     | [] \<Rightarrow> None)"

datatype CmpOp = CmpEq | CmpNe | CmpLt | CmpGt | CmpLe | CmpGe

fun cmp_op :: "ustring \<Rightarrow> (CmpOp \<times> ustring) option" where
  "cmp_op [] = None"
| "cmp_op (c # s) =
    (if c = 61 then Some (CmpEq, s)
     else if c = 60
       then (case s of
               d # s' \<Rightarrow> if d = 62 then Some (CmpNe, s') else if d = 61 then Some (CmpLe, s') else Some (CmpLt, s)
             | [] \<Rightarrow> Some (CmpLt, s))
     else if c = 62
       then (case s of d # s' \<Rightarrow> if d = 61 then Some (CmpGe, s') else Some (CmpGt, s) | [] \<Rightarrow> Some (CmpGt, s))
     else None)"

definition cmp_holds :: "'f calc_ops \<Rightarrow> CmpOp \<Rightarrow> 'f \<Rightarrow> 'f \<Rightarrow> bool" where
  "cmp_holds N op l r =
    (let same = co_lt N (co_abs N (co_sub N l r)) (co_lit N (1 / 10 ^ 9))
     in case op of
          CmpEq \<Rightarrow> same | CmpNe \<Rightarrow> \<not> same
        | CmpLt \<Rightarrow> co_lt N l r \<and> \<not> same | CmpGt \<Rightarrow> co_lt N r l \<and> \<not> same
        | CmpLe \<Rightarrow> co_lt N l r \<or> same | CmpGe \<Rightarrow> co_lt N r l \<or> same)"

definition num_bool :: "'f calc_ops \<Rightarrow> bool \<Rightarrow> 'f CalcValue" where
  "num_bool N b = NumValue (co_lit N (if b then 1 else 0))"

text \<open>The operators on values; a text has no number.\<close>

definition num_op :: "('f \<Rightarrow> 'f \<Rightarrow> 'f) \<Rightarrow> 'f CalcValue \<Rightarrow> 'f CalcValue \<Rightarrow> 'f CalcValue option" where
  "num_op f a b = (case (calc_num a, calc_num b) of (Some x, Some y) \<Rightarrow> Some (NumValue (f x y)) | _ \<Rightarrow> None)"

definition div_op :: "'f calc_ops \<Rightarrow> 'f CalcValue \<Rightarrow> 'f CalcValue \<Rightarrow> 'f CalcValue option" where
  "div_op N a b =
    (case calc_num b of
       None \<Rightarrow> None
     | Some y \<Rightarrow> if co_eq N y (co_lit N 0) then None else num_op (co_div N) a b)"

definition cmp_values :: "'f calc_ops \<Rightarrow> CmpOp \<Rightarrow> 'f CalcValue \<Rightarrow> 'f CalcValue \<Rightarrow> 'f CalcValue option" where
  "cmp_values N op a b =
    (case (calc_num a, calc_num b) of (Some x, Some y) \<Rightarrow> Some (num_bool N (cmp_holds N op x y)) | _ \<Rightarrow> None)"

definition let_name_ok :: "ustring \<Rightarrow> bool" where
  "let_name_ok name \<longleftrightarrow>
    name \<noteq> [] \<and> (is_ascii_alphabetic (hd name) \<or> hd name = 95) \<and> length name \<le> 255 \<and> \<not> is_cell_address name
    \<and> list_all (\<lambda>c. is_ascii_alphanumeric c \<or> c = 95 \<or> c = 46) name"

text \<open>The arguments of a call up to its closing parenthesis, \<open>arg\<close> the current one so far.\<close>

fun split_top_args :: "nat \<Rightarrow> bool \<Rightarrow> ustring \<Rightarrow> ustring \<Rightarrow> (ustring list \<times> ustring) option" where
  "split_top_args depth in_string arg [] = None"
| "split_top_args depth in_string arg (c # s) =
    (if in_string
     then (if c = 34
           then (case s of
                   d # s' \<Rightarrow> if d = 34 then split_top_args depth True (arg @ [c, d]) s' else split_top_args depth False (arg @ [c]) s
                 | [] \<Rightarrow> None)
           else split_top_args depth True (arg @ [c]) s)
     else if c = 34 then split_top_args depth True (arg @ [c]) s
     else if c = 40 then split_top_args (depth + 1) False (arg @ [c]) s
     else if c = 41
       then (if depth = 0 then Some ([arg], s) else split_top_args (depth - 1) False (arg @ [c]) s)
     else if c = 44 \<and> depth = 0 then map_option (\<lambda>(as, r). (arg # as, r)) (split_top_args 0 False [] s)
     else split_top_args depth False (arg @ [c]) s)"

section \<open>The evaluator\<close>

text \<open>
  A parser gives back a rest that is not longer than its text.  The recursion asks for it, so that it is total by its
  measure; \<open>calc_rest\<close> below shows that the question is always answered with yes.
\<close>

definition no_longer :: "ustring \<Rightarrow> ('a \<times> ustring) option \<Rightarrow> ('a \<times> ustring) option" where
  "no_longer s p = (case p of Some (v, r) \<Rightarrow> if length r \<le> length s then p else None | None \<Rightarrow> None)"

definition expect :: "uchar \<Rightarrow> ustring \<Rightarrow> ustring option" where
  "expect c s = (case skip_space s of d # r \<Rightarrow> if d = c then Some r else None | [] \<Rightarrow> None)"

definition is_word :: "string \<Rightarrow> ustring \<Rightarrow> bool" where
  "is_word name w \<longleftrightarrow> to_ascii_lowercase w = to_ascii_lowercase (lit name)"

definition unvisited :: "'f CalcEnv \<Rightarrow> nat" where
  "unvisited env = length (filter (\<lambda>(a, f). a \<notin> set (ce_visiting env)) (ce_formulas env))"

definition names_left :: "'f CalcEnv \<Rightarrow> nat" where
  "names_left env = (if ce_names env = no_names then 0 else 1)"

definition fresh_names :: "'f CalcEnv \<Rightarrow> 'f CalcEnv" where
  "fresh_names env = env\<lparr>ce_let_names := \<lambda>_. None, ce_hide_book_names := False\<rparr>"

lemma no_longer_SomeD [dest]: "no_longer s p = Some (v, r) \<Longrightarrow> p = Some (v, r) \<and> length r \<le> length s"
  by (auto simp: no_longer_def split: option.splits if_splits)

lemma skip_space_shorter: "length (skip_space s) \<le> length s"
  by (simp add: skip_space_def length_dropWhile_le)

lemma expect_shorter: "expect c s = Some r \<Longrightarrow> length r < length s"
  using skip_space_shorter [of s] by (auto simp: expect_def split: list.splits if_splits)

lemma skip_space_Cons: "skip_space s = c # r \<Longrightarrow> length r < length s"
  using skip_space_shorter [of s] by simp

lemma cmp_op_shorter: "cmp_op s = Some (op, r) \<Longrightarrow> length r < length s"
  by (cases s) (auto split: list.splits if_splits)

lemma word_chars_append: "word_chars s = (w, r) \<Longrightarrow> s = w @ r"
  by (induction s arbitrary: w r) (auto simp: Let_def split: prod.splits if_splits)

lemma calc_word_shorter: "calc_word s = Some (w, r) \<Longrightarrow> length r < length s"
  using word_chars_append [of s] by (auto simp: calc_word_def Let_def split: prod.splits if_splits)

lemma split_top_args_shorter:
  "split_top_args depth q arg s = Some (as, r) \<Longrightarrow> length r < length s \<and> (\<forall>a \<in> set as. length a < length arg + length s)"
proof (induction depth q arg s arbitrary: as r rule: split_top_args.induct)
  case (2 depth q arg c s)
  show ?case
  proof (cases q)
    case in_string: True
    show ?thesis
    proof (cases "c = 34")
      case True
      then obtain d s' where s: "s = d # s'" using "2.prems" in_string by (cases s) auto
      show ?thesis
      proof (cases "d = 34")
        case twice: True
        then have "split_top_args depth True (arg @ [c, d]) s' = Some (as, r)"
          using "2.prems" in_string \<open>c = 34\<close> s by (simp del: split_top_args.simps(1) add: split_top_args.simps)
        then show ?thesis using "2.IH"(1) [OF in_string True s twice] s by fastforce
      next
        case once: False
        then have "split_top_args depth False (arg @ [c]) s = Some (as, r)"
          using "2.prems" in_string \<open>c = 34\<close> s by simp
        then show ?thesis using "2.IH"(2) [OF in_string True s once] by fastforce
      qed
    next
      case False
      then show ?thesis using "2.prems" in_string "2.IH"(3) [of as r] by auto
    qed
  next
    case outside: False
    consider "c = 34" | "c = 40" | "c = 41" "depth = 0" | "c = 41" "depth \<noteq> 0" | "c = 44" "depth = 0"
      | "c \<noteq> 34" "c \<noteq> 40" "c \<noteq> 41" "c \<noteq> 44 \<or> depth \<noteq> 0"
      by blast
    then show ?thesis
    proof cases
      case 5
      then obtain as' where "as = arg # as'" "split_top_args 0 False [] s = Some (as', r)"
        using "2.prems" outside by auto
      then show ?thesis using "2.IH"(7) [of as' r] outside 5 by (auto dest: less_trans_Suc)
    qed (use "2.prems" outside "2.IH"(4,5,6,8) in auto)
  qed
qed simp


lemma unvisited_simps [simp]:
  "unvisited (env\<lparr>ce_hide_book_names := b\<rparr>) = unvisited env" "unvisited (env\<lparr>ce_let_names := l\<rparr>) = unvisited env"
  "unvisited (env\<lparr>ce_names := n\<rparr>) = unvisited env" "unvisited (fresh_names env) = unvisited env"
  by (simp_all add: unvisited_def fresh_names_def)

lemma names_left_simps [simp]:
  "names_left (env\<lparr>ce_hide_book_names := b\<rparr>) = names_left env" "names_left (env\<lparr>ce_let_names := l\<rparr>) = names_left env"
  "names_left (env\<lparr>ce_visiting := vs\<rparr>) = names_left env" "names_left (fresh_names env) = names_left env"
  "names_left (env\<lparr>ce_names := no_names\<rparr>) = 0"
  by (simp_all add: names_left_def fresh_names_def)

lemma unvisited_visit:
  assumes "map_of (ce_formulas env) a = Some f" and "a \<notin> set (ce_visiting env)"
  shows "unvisited (env\<lparr>ce_visiting := a # ce_visiting env\<rparr>) < unvisited env"
proof -
  let ?P = "\<lambda>(b, f :: ustring). b \<notin> set (ce_visiting env)"
  have "filter (\<lambda>(b, f). b \<notin> set (a # ce_visiting env)) (ce_formulas env) = filter (\<lambda>x. fst x \<noteq> a) (filter ?P (ce_formulas env))"
    unfolding filter_filter by (rule filter_cong) auto
  moreover have "(a, f) \<in> set (filter ?P (ce_formulas env))" using assms by (auto dest: map_of_SomeD)
  then have "length (filter (\<lambda>x. fst x \<noteq> a) (filter ?P (ce_formulas env))) < length (filter ?P (ce_formulas env))"
    by (intro length_filter_less) auto
  ultimately show ?thesis by (simp add: unvisited_def)
qed

lemma names_left_get: "nb_get (ce_names env) sheet w = Some d \<Longrightarrow> names_left env = 1"
  by (auto simp: names_left_def nb_get_def no_names_def split: option.splits)

lemma two_args: "\<not> length as < 2 \<Longrightarrow> as ! 0 \<in> set as"
  by (cases as) auto

definition calc_measure :: "'f CalcEnv \<Rightarrow> ustring \<Rightarrow> nat \<Rightarrow> nat \<times> nat \<times> nat \<times> nat" where
  "calc_measure env s level = (unvisited env, names_left env, length s, level)"

function (sequential)
  calc_compare :: "'f calc_ops \<Rightarrow> 'f CalcEnv \<Rightarrow> ustring \<Rightarrow> 'f parsed"
and calc_join :: "'f calc_ops \<Rightarrow> 'f CalcEnv \<Rightarrow> ustring \<Rightarrow> 'f parsed"
and calc_join_loop :: "'f calc_ops \<Rightarrow> 'f CalcEnv \<Rightarrow> 'f CalcValue \<Rightarrow> ustring \<Rightarrow> 'f parsed"
and calc_expr :: "'f calc_ops \<Rightarrow> 'f CalcEnv \<Rightarrow> ustring \<Rightarrow> 'f parsed"
and calc_expr_loop :: "'f calc_ops \<Rightarrow> 'f CalcEnv \<Rightarrow> 'f CalcValue \<Rightarrow> ustring \<Rightarrow> 'f parsed"
and calc_term :: "'f calc_ops \<Rightarrow> 'f CalcEnv \<Rightarrow> ustring \<Rightarrow> 'f parsed"
and calc_term_loop :: "'f calc_ops \<Rightarrow> 'f CalcEnv \<Rightarrow> 'f CalcValue \<Rightarrow> ustring \<Rightarrow> 'f parsed"
and calc_factor :: "'f calc_ops \<Rightarrow> 'f CalcEnv \<Rightarrow> ustring \<Rightarrow> 'f parsed"
and calc_function :: "'f calc_ops \<Rightarrow> 'f CalcEnv \<Rightarrow> ustring \<Rightarrow> ustring \<Rightarrow> 'f parsed"
and calc_if :: "'f calc_ops \<Rightarrow> 'f CalcEnv \<Rightarrow> ustring \<Rightarrow> 'f parsed"
and calc_let :: "'f calc_ops \<Rightarrow> 'f CalcEnv \<Rightarrow> nat \<Rightarrow> ustring \<Rightarrow> 'f parsed"
and calc_slice :: "'f calc_ops \<Rightarrow> 'f CalcEnv \<Rightarrow> ustring \<Rightarrow> 'f CalcValue option"
and calc_name :: "'f calc_ops \<Rightarrow> 'f CalcEnv \<Rightarrow> ustring \<Rightarrow> 'f CalcValue option"
and calc_cell :: "'f calc_ops \<Rightarrow> 'f CalcEnv \<Rightarrow> ustring \<Rightarrow> 'f CalcValue option"
and calc_formula :: "'f calc_ops \<Rightarrow> 'f CalcEnv \<Rightarrow> ustring \<Rightarrow> 'f CalcValue option"
where
  "calc_compare N env s =
    (case no_longer s (calc_join N env s) of
       None \<Rightarrow> None
     | Some (l, r) \<Rightarrow>
       (case cmp_op (skip_space r) of
          None \<Rightarrow> Some (l, skip_space r)
        | Some (op, r2) \<Rightarrow>
            if length s \<le> length r2 then None
            else (case calc_join N env r2 of
                    None \<Rightarrow> None
                  | Some (v, r3) \<Rightarrow> map_option (\<lambda>x. (x, r3)) (cmp_values N op l v))))"
| "calc_join N env s =
    (case no_longer s (calc_expr N env s) of None \<Rightarrow> None | Some (v, r) \<Rightarrow> calc_join_loop N env v r)"
| "calc_join_loop N env v s =
    (case skip_space s of
       c # s1 \<Rightarrow>
         if c = 38
         then (case no_longer s1 (calc_expr N env s1) of
                 None \<Rightarrow> None
               | Some (w, r) \<Rightarrow> calc_join_loop N env (TextValue (calc_text N v @ calc_text N w)) r)
         else Some (v, c # s1)
     | [] \<Rightarrow> Some (v, []))"
| "calc_expr N env s =
    (case no_longer s (calc_term N env s) of None \<Rightarrow> None | Some (v, r) \<Rightarrow> calc_expr_loop N env v r)"
| "calc_expr_loop N env v s =
    (case skip_space s of
       c # s1 \<Rightarrow>
         if c = 43 \<or> c = 45
         then (case no_longer s1 (calc_term N env s1) of
                 None \<Rightarrow> None
               | Some (w, r) \<Rightarrow>
                 (case num_op (if c = 43 then co_add N else co_sub N) v w of
                    None \<Rightarrow> None | Some x \<Rightarrow> calc_expr_loop N env x r))
         else Some (v, c # s1)
     | [] \<Rightarrow> Some (v, []))"
| "calc_term N env s =
    (case no_longer s (calc_factor N env s) of None \<Rightarrow> None | Some (v, r) \<Rightarrow> calc_term_loop N env v r)"
| "calc_term_loop N env v s =
    (case skip_space s of
       c # s1 \<Rightarrow>
         if c = 42 \<or> c = 47
         then (case no_longer s1 (calc_factor N env s1) of
                 None \<Rightarrow> None
               | Some (w, r) \<Rightarrow>
                 (case (if c = 42 then num_op (co_mul N) v w else div_op N v w) of
                    None \<Rightarrow> None | Some x \<Rightarrow> calc_term_loop N env x r))
         else Some (v, c # s1)
     | [] \<Rightarrow> Some (v, []))"
| "calc_factor N env s =
    (case skip_space s of
       [] \<Rightarrow> None
     | c # t \<Rightarrow>
         if c = 43 then calc_factor N env t
         else if c = 45
           then (case calc_factor N env t of
                   None \<Rightarrow> None
                 | Some (v, r) \<Rightarrow> map_option (\<lambda>x. (NumValue (co_neg N x), r)) (calc_num v))
         else if c = 40
           then (case calc_compare N env t of
                   None \<Rightarrow> None
                 | Some (v, r) \<Rightarrow> map_option (\<lambda>r. (v, r)) (expect 41 r))
         else if c = 34 then map_option (\<lambda>(x, r). (TextValue x, r)) (quoted_chars 34 t)
         else if number_char c then calc_number N (c # t)
         else if c = 39
           then (case quoted_sheet t of None \<Rightarrow> None | Some (name, r) \<Rightarrow> foreign_cell N env name r)
         else (case calc_word (c # t) of
                 None \<Rightarrow> None
               | Some (w, r) \<Rightarrow>
                 (case skip_space r of
                    [] \<Rightarrow> map_option (\<lambda>v. (v, [])) (calc_name N env w)
                  | d # u \<Rightarrow>
                      if d = 91 then co_table N env (c # t)
                      else if d = 40 then calc_function N env w u
                      else if d = 33 then foreign_cell N env w (d # u)
                      else map_option (\<lambda>v. (v, d # u)) (calc_name N env w))))"
| "calc_function N env w s =
    (if is_word ''LET'' w then calc_let N (env\<lparr>ce_hide_book_names := True\<rparr>) 0 s
     else if is_word ''IF'' w then calc_if N env s
     else if is_word ''IFERROR'' w
       then (case split_top_args 0 False [] s of
               Some ([a, b], r) \<Rightarrow>
                 (case calc_slice N env a of
                    Some v \<Rightarrow> Some (v, r)
                  | None \<Rightarrow> map_option (\<lambda>v. (v, r)) (calc_slice N env b))
             | _ \<Rightarrow> None)
     else if is_word ''CHOOSE'' w
       then (case split_top_args 0 False [] s of
               None \<Rightarrow> None
             | Some (as, r) \<Rightarrow>
                 if length as < 2 \<or> 255 < length as then None
                 else (case calc_slice N env (as ! 0) of
                         Some (NumValue x) \<Rightarrow>
                           if \<not> co_finite N x then None
                           else (let i = co_to_i64 N x
                             in if i < 1 \<or> int (length as) \<le> i then None
                                else map_option (\<lambda>v. (v, r)) (calc_slice N env (as ! nat i)))
                       | _ \<Rightarrow> None))
     else co_call N env w s)"
| "calc_if N env s =
    (case no_longer s (calc_compare N env s) of
       Some (NumValue x, r) \<Rightarrow>
         if \<not> co_finite N x then None
         else (case expect 44 r of
                 None \<Rightarrow> None
               | Some s1 \<Rightarrow>
                 (case no_longer s1 (calc_compare N env s1) of
                    None \<Rightarrow> None
                  | Some (yes, r) \<Rightarrow>
                    (case expect 44 r of
                       None \<Rightarrow> None
                     | Some s2 \<Rightarrow>
                       (case calc_compare N env s2 of
                          None \<Rightarrow> None
                        | Some (no, r) \<Rightarrow>
                          (case expect 41 r of
                             None \<Rightarrow> None
                           | Some r \<Rightarrow>
                               map_option (\<lambda>v. (v, r))
                                 (limited_value N (if \<not> co_eq N x (co_lit N 0) then yes else no)))))))
     | _ \<Rightarrow> None)"
| "calc_let N env bindings s =
    (let s1 = skip_space s;
         final = (\<lambda>_. case calc_compare N env s1 of
             None \<Rightarrow> None
           | Some (v, r) \<Rightarrow>
             (case expect 41 r of None \<Rightarrow> None | Some r \<Rightarrow> map_option (\<lambda>v. (v, r)) (kept_calc N v)))
     in case calc_word s1 of
          None \<Rightarrow> final ()
        | Some (name, r) \<Rightarrow>
          (case expect 44 r of
             None \<Rightarrow> final ()
           | Some s2 \<Rightarrow>
               if \<not> let_name_ok name \<or> 8 \<le> bindings then final ()
               else (case no_longer s2 (calc_compare N env s2) of
                       None \<Rightarrow> None
                     | Some (v, r) \<Rightarrow>
                       (case kept_calc N v of
                          None \<Rightarrow> None
                        | Some v \<Rightarrow>
                          (case expect 44 r of
                             None \<Rightarrow> None
                           | Some s3 \<Rightarrow>
                               calc_let N (env\<lparr>ce_let_names := (ce_let_names env)(to_ascii_lowercase name \<mapsto> v)\<rparr>)
                                 (bindings + 1) s3)))))"
| "calc_slice N env s =
    (case calc_compare N env s of
       None \<Rightarrow> None
     | Some (v, r) \<Rightarrow> if skip_space r = [] then kept_calc N v else None)"
| "calc_name N env w =
    (if is_cell_address w then calc_cell N env w
     else case ce_let_names env (to_ascii_lowercase w) of
            Some v \<Rightarrow> Some v
          | None \<Rightarrow>
              if ce_hide_book_names env then calc_cell N env w
              else (case nb_get (ce_names env) (ce_sheet env) (to_ascii_lowercase w) of
                      None \<Rightarrow> calc_cell N env w
                    | Some d \<Rightarrow>
                      (case dr_formula d of
                         Some f \<Rightarrow> calc_formula N (env\<lparr>ce_names := no_names\<rparr>) f
                       | None \<Rightarrow>
                           if length (dr_cells d) \<noteq> 1 then None
                           else calc_cell N env (hd (named_addresses d env)))))"
| "calc_cell N env address =
    (case split_once 33 address of
       Some (sheet, cell) \<Rightarrow>
         (case ce_foreign env (to_ascii_lowercase sheet) of
            None \<Rightarrow> None | Some book \<Rightarrow> book_value N book (to_upper cell))
     | None \<Rightarrow>
         let a = to_upper address
         in if a \<in> set (ce_visiting env)
            then (if ce_iterate env
                  then (let x = (case ce_previous env a of Some x \<Rightarrow> x | None \<Rightarrow> co_lit N 0)
                    in if co_finite N x then Some (NumValue x) else None)
                  else None)
            else (case map_of (ce_formulas env) a of
                    Some f \<Rightarrow> calc_formula N (env\<lparr>ce_visiting := a # ce_visiting env\<rparr>) f
                  | None \<Rightarrow>
                    (case ce_literals env a of
                       Some x \<Rightarrow> Some (NumValue x)
                     | None \<Rightarrow> map_option TextValue (ce_texts env a))))"
| "calc_formula N env f =
    (case calc_compare N (fresh_names env) f of
       None \<Rightarrow> None
     | Some (v, r) \<Rightarrow> if skip_space r = [] then Some v else None)"
  by pat_completeness auto

termination
proof (relation "inv_image (less_than <*lex*> less_than <*lex*> less_than <*lex*> less_than)
    (case_sum
      (case_sum
        (case_sum (\<lambda>(N, env, s). calc_measure env s 7)
          (case_sum (\<lambda>(N, env, s). calc_measure env s 6) (\<lambda>(N, env, v, s). calc_measure env s 0)))
        (case_sum
          (case_sum (\<lambda>(N, env, s). calc_measure env s 5) (\<lambda>(N, env, v, s). calc_measure env s 0))
          (case_sum (\<lambda>(N, env, s). calc_measure env s 4) (\<lambda>(N, env, v, s). calc_measure env s 0))))
      (case_sum
        (case_sum
          (case_sum (\<lambda>(N, env, s). calc_measure env s 3) (\<lambda>(N, env, w, s). calc_measure env s 9))
          (case_sum (\<lambda>(N, env, s). calc_measure env s 8) (\<lambda>(N, env, b, s). calc_measure env s 8)))
        (case_sum
          (case_sum (\<lambda>(N, env, s). calc_measure env s 8) (\<lambda>(N, env, w). calc_measure env [] 2))
          (case_sum (\<lambda>(N, env, a). calc_measure env [] 1) (\<lambda>(N, env, f). calc_measure env f 9)))))", goal_cases)
qed (auto simp: calc_measure_def unvisited_visit names_left_get
  dest!: no_longer_SomeD skip_space_Cons calc_word_shorter expect_shorter split_top_args_shorter two_args
  dest: less_le_trans [OF _ skip_space_shorter] intro!: le_neq_implies_less [OF skip_space_shorter])


declare calc_compare.simps [simp del] calc_join.simps [simp del] calc_join_loop.simps [simp del] calc_expr.simps [simp del]
  calc_expr_loop.simps [simp del] calc_term.simps [simp del] calc_term_loop.simps [simp del] calc_factor.simps [simp del]
  calc_function.simps [simp del] calc_if.simps [simp del] calc_let.simps [simp del] calc_slice.simps [simp del]
  calc_name.simps [simp del] calc_cell.simps [simp del] calc_formula.simps [simp del]

end
