(* ===== verification/Calc_Grammar.thy ===== *)
theory Calc_Grammar
  imports Calc_Formula
begin

text \<open>
  What the evaluator of formulas computes: formulas as trees, their text, and the theorem that evaluating the text of a
  tree gives the value of the tree.
\<close>

section \<open>Formulas as trees\<close>

datatype ArithOp = AddOp | SubOp | MulOp | DivOp

datatype calc_ast = ENum ustring | EText ustring | ECell ustring | ENeg calc_ast | EOp ArithOp calc_ast calc_ast
  | EJoin calc_ast calc_ast | ECmp CmpOp calc_ast calc_ast | EIf calc_ast calc_ast calc_ast

fun arith_value :: "'f calc_ops \<Rightarrow> ArithOp \<Rightarrow> 'f CalcValue \<Rightarrow> 'f CalcValue \<Rightarrow> 'f CalcValue option" where
  "arith_value N AddOp = num_op (co_add N)" | "arith_value N SubOp = num_op (co_sub N)"
| "arith_value N MulOp = num_op (co_mul N)" | "arith_value N DivOp = div_op N"

fun ast_value :: "'f calc_ops \<Rightarrow> 'f CalcEnv \<Rightarrow> calc_ast \<Rightarrow> 'f CalcValue option" where
  "ast_value N env (ENum s) = map_option NumValue (co_parse N s)"
| "ast_value N env (EText s) = Some (TextValue s)"
| "ast_value N env (ECell a) = calc_cell N env a"
| "ast_value N env (ENeg e) =
    (case ast_value N env e of Some (NumValue x) \<Rightarrow> Some (NumValue (co_neg N x)) | _ \<Rightarrow> None)"
| "ast_value N env (EOp op a b) =
    (case (ast_value N env a, ast_value N env b) of (Some v, Some w) \<Rightarrow> arith_value N op v w | _ \<Rightarrow> None)"
| "ast_value N env (EJoin a b) =
    (case (ast_value N env a, ast_value N env b) of
       (Some v, Some w) \<Rightarrow> Some (TextValue (calc_text N v @ calc_text N w)) | _ \<Rightarrow> None)"
| "ast_value N env (ECmp op a b) =
    (case (ast_value N env a, ast_value N env b) of (Some v, Some w) \<Rightarrow> cmp_values N op v w | _ \<Rightarrow> None)"
| "ast_value N env (EIf c a b) =
    (case (ast_value N env c, ast_value N env a, ast_value N env b) of
       (Some (NumValue x), Some v, Some w) \<Rightarrow>
         if co_finite N x then limited_value N (if \<not> co_eq N x (co_lit N 0) then v else w) else None
     | _ \<Rightarrow> None)"

text \<open>Printing with the parentheses that are needed: comparison binds weakest, then joining, sums, products, factors.\<close>

fun op_level :: "ArithOp \<Rightarrow> nat" where
  "op_level AddOp = 2" | "op_level SubOp = 2" | "op_level MulOp = 3" | "op_level DivOp = 3"

fun op_char :: "ArithOp \<Rightarrow> uchar" where
  "op_char AddOp = 43" | "op_char SubOp = 45" | "op_char MulOp = 42" | "op_char DivOp = 47"

fun cmp_text :: "CmpOp \<Rightarrow> ustring" where
  "cmp_text CmpEq = [61]" | "cmp_text CmpNe = [60, 62]" | "cmp_text CmpLt = [60]" | "cmp_text CmpGt = [62]"
| "cmp_text CmpLe = [60, 61]" | "cmp_text CmpGe = [62, 61]"

fun ast_level :: "calc_ast \<Rightarrow> nat" where
  "ast_level (ECmp _ _ _) = 0" | "ast_level (EJoin _ _) = 1" | "ast_level (EOp op _ _) = op_level op" | "ast_level _ = 4"

definition quoted_body :: "ustring \<Rightarrow> ustring" where
  "quoted_body s = concat (map (\<lambda>c. if c = 34 then [34, 34] else [c]) s)"

definition grouped :: "nat \<Rightarrow> calc_ast \<Rightarrow> ustring \<Rightarrow> ustring" where
  "grouped p e s = (if ast_level e < p then 40 # s @ [41] else s)"

fun show_body :: "calc_ast \<Rightarrow> ustring" where
  "show_body (ENum s) = s"
| "show_body (EText s) = 34 # quoted_body s @ [34]"
| "show_body (ECell a) = a"
| "show_body (ENeg e) = 45 # grouped 4 e (show_body e)"
| "show_body (EOp op a b) =
    grouped (op_level op) a (show_body a) @ op_char op # grouped (op_level op + 1) b (show_body b)"
| "show_body (EJoin a b) = grouped 1 a (show_body a) @ 38 # grouped 2 b (show_body b)"
| "show_body (ECmp op a b) = grouped 1 a (show_body a) @ cmp_text op @ grouped 1 b (show_body b)"
| "show_body (EIf c a b) = lit ''IF('' @ show_body c @ 44 # show_body a @ 44 # show_body b @ [41]"

definition show_ast :: "nat \<Rightarrow> calc_ast \<Rightarrow> ustring" where
  "show_ast p e = grouped p e (show_body e)"

fun ast_ok :: "calc_ast \<Rightarrow> bool" where
  "ast_ok (ENum s) \<longleftrightarrow> s \<noteq> [] \<and> list_all number_char s"
| "ast_ok (EText s) \<longleftrightarrow> True"
| "ast_ok (ECell a) \<longleftrightarrow> is_cell_address a"
| "ast_ok (ENeg e) \<longleftrightarrow> ast_ok e"
| "ast_ok (EOp op a b) \<longleftrightarrow> ast_ok a \<and> ast_ok b"
| "ast_ok (EJoin a b) \<longleftrightarrow> ast_ok a \<and> ast_ok b"
| "ast_ok (ECmp op a b) \<longleftrightarrow> ast_ok a \<and> ast_ok b"
| "ast_ok (EIf c a b) \<longleftrightarrow> ast_ok c \<and> ast_ok a \<and> ast_ok b"

text \<open>What may follow an operand of each level.\<close>

definition follows :: "nat \<Rightarrow> ustring \<Rightarrow> bool" where
  "follows p k \<longleftrightarrow> k = [] \<or> hd k \<in> {41, 44} \<or> 1 \<le> p \<and> hd k \<in> {60, 61, 62} \<or> 2 \<le> p \<and> hd k = 38
    \<or> 3 \<le> p \<and> hd k \<in> {43, 45} \<or> 4 \<le> p \<and> hd k \<in> {42, 47}"

lemma follows_mono: "follows p k \<Longrightarrow> p \<le> q \<Longrightarrow> follows q k"
  by (auto simp: follows_def)

lemma follows_skip: "follows p k \<Longrightarrow> skip_space k = k"
  by (cases k) (auto simp: follows_def skip_space_def is_space_def)

lemma loops_stop:
  "follows 3 k \<Longrightarrow> calc_term_loop N env v k = Some (v, k)"
  "follows 2 k \<Longrightarrow> calc_expr_loop N env v k = Some (v, k)"
  "follows 1 k \<Longrightarrow> calc_join_loop N env v k = Some (v, k)"
  "follows 0 k \<Longrightarrow> cmp_op k = None"
  by (cases k; auto simp: follows_def calc_term_loop.simps calc_expr_loop.simps calc_join_loop.simps skip_space_def is_space_def)+

text \<open>The text \<open>s\<close>, read at a level, gives the value \<open>x\<close>, and the loop of the level goes on behind it.\<close>

definition reads :: "'f calc_ops \<Rightarrow> 'f CalcEnv \<Rightarrow> nat \<Rightarrow> ustring \<Rightarrow> 'f CalcValue option \<Rightarrow> bool" where
  "reads N env p s x \<longleftrightarrow> (\<forall>k.
    if p = 0 then follows 0 k \<longrightarrow> calc_compare N env (s @ k) = map_option (\<lambda>v. (v, k)) x
    else if p = 1 then follows 2 k \<longrightarrow> calc_join N env (s @ k) = Option.bind x (\<lambda>v. calc_join_loop N env v k)
    else if p = 2 then follows 3 k \<longrightarrow> calc_expr N env (s @ k) = Option.bind x (\<lambda>v. calc_expr_loop N env v k)
    else if p = 3 then follows 4 k \<longrightarrow> calc_term N env (s @ k) = Option.bind x (\<lambda>v. calc_term_loop N env v k)
    else follows 4 k \<longrightarrow> calc_factor N env (s @ k) = map_option (\<lambda>v. (v, k)) x)"

lemma reads_down_3: "reads N env 4 s x \<Longrightarrow> reads N env 3 s x"
  unfolding reads_def by (subst calc_term.simps) (cases x; simp add: no_longer_def)

lemma reads_down_2: "reads N env 3 s x \<Longrightarrow> reads N env 2 s x"
  unfolding reads_def by (subst calc_expr.simps) (cases x; simp add: no_longer_def follows_mono [of 3 _ 4] loops_stop)

lemma reads_down_1: "reads N env 2 s x \<Longrightarrow> reads N env (Suc 0) s x"
  unfolding reads_def by (subst calc_join.simps) (cases x; simp add: no_longer_def follows_mono [of 2 _ 3] loops_stop)

lemma reads_down_0: "reads N env (Suc 0) s x \<Longrightarrow> reads N env 0 s x"
  unfolding reads_def
  by (subst calc_compare.simps)
    (cases x; simp add: no_longer_def follows_mono [of 0 _ 2] follows_mono [of 0 _ "Suc 0"] loops_stop follows_skip)

lemma reads_le: "reads N env q s x \<Longrightarrow> p \<le> q \<Longrightarrow> q \<le> 4 \<Longrightarrow> reads N env p s x"
proof -
  have four: "p \<in> {0, 1, 2, 3, 4}" if "p \<le> 4" for p :: nat using that by auto
  assume "reads N env q s x" "p \<le> q" "q \<le> 4"
  with four [of p] four [of q] show ?thesis
    by (auto dest: reads_down_3 reads_down_2 reads_down_1 reads_down_0)
qed

lemma expect_here: "expect c (c # k) = Some k" if "\<not> is_space c"
  using that by (simp add: expect_def skip_space_def)

lemma reads_paren:
  assumes "reads N env 0 s x"
  shows "reads N env 4 (40 # s @ [41]) x"
proof -
  have "calc_compare N env (s @ 41 # k) = map_option (\<lambda>v. (v, 41 # k)) x" for k
    using assms by (simp add: reads_def follows_def)
  then show ?thesis
    unfolding reads_def
    by (subst calc_factor.simps) (cases x; simp add: skip_space_def is_space_def expect_def)
qed

lemma op_level_le: "op_level op \<le> 4"
  by (cases op) simp_all

lemma ast_level_le: "ast_level e \<le> 4"
  by (cases e) (simp_all add: op_level_le)

lemma reads_show:
  assumes "reads N env (ast_level e) (show_body e) x" and "p \<le> 4"
  shows "reads N env p (grouped p e (show_body e)) x"
proof (cases "ast_level e < p")
  case True
  have "reads N env 0 (show_body e) x" using reads_le [OF assms(1)] ast_level_le by simp
  then show ?thesis using True reads_le [OF reads_paren] assms(2) by (simp add: grouped_def)
next
  case False
  then show ?thesis using reads_le [OF assms(1)] ast_level_le by (simp add: grouped_def)
qed

text \<open>Atoms.\<close>

lemma takeWhile_number: "list_all number_char s \<Longrightarrow> follows p k \<Longrightarrow> takeWhile number_char (s @ k) = s \<and> dropWhile number_char (s @ k) = k"
proof (induction s)
  case Nil
  then show ?case by (cases k) (auto simp: follows_def number_char_def is_ascii_digit_def)
qed simp

lemma quoted_double: "hd k \<noteq> 34 \<or> k = [] \<Longrightarrow> quoted_chars 34 (quoted_body s @ 34 # k) = Some (s, k)"
  by (induction s) (auto simp: quoted_body_def split: list.split)

lemma word_chars_plain:
  "list_all is_ascii_alphanumeric w \<Longrightarrow> k = [] \<or> \<not> is_ascii_alphanumeric (hd k) \<and> hd k \<notin> {36, 95, 46} \<Longrightarrow>
    word_chars (w @ k) = (w, k)"
proof (induction w)
  case Nil
  then show ?case by (cases k) auto
qed simp

lemma calc_word_plain:
  assumes "list_all is_ascii_alphanumeric w" and "w \<noteq> []" and "k = [] \<or> \<not> is_ascii_alphanumeric (hd k) \<and> hd k \<notin> {36, 95, 46}"
  shows "calc_word (w @ k) = Some (w, k)"
proof -
  have "filter (\<lambda>c. c \<noteq> 36) w = w"
    using assms(1) by (induction w) (auto simp: is_ascii_alphanumeric_def is_ascii_alphabetic_def is_ascii_digit_def)
  then show ?thesis using assms word_chars_plain by (simp add: calc_word_def)
qed

lemma cell_loop_alnum: "is_cell_address_loop nl nd s \<Longrightarrow> list_all is_ascii_alphanumeric s"
  by (induction nl nd s rule: is_cell_address_loop.induct) (auto simp: is_ascii_alphanumeric_def split: if_splits)

lemma cell_address_chars:
  assumes "is_cell_address a"
  shows "list_all is_ascii_alphanumeric a \<and> (\<exists>c t. a = c # t \<and> is_ascii_alphabetic c)"
  using assms cell_loop_alnum [of 0 0 a] by (cases a) (auto simp: is_cell_address_def split: if_splits)

lemma follows_word: "follows p k \<Longrightarrow> k = [] \<or> \<not> is_ascii_alphanumeric (hd k) \<and> hd k \<notin> {36, 95, 46}"
  by (auto simp: follows_def is_ascii_alphanumeric_def is_ascii_alphabetic_def is_ascii_digit_def)

lemma letter_first: "is_ascii_alphabetic c \<Longrightarrow> c \<notin> {43, 45, 40, 34, 39} \<and> \<not> number_char c \<and> \<not> is_space c"
  by (auto simp: is_ascii_alphabetic_def number_char_def is_ascii_digit_def is_space_def)

lemma show_starts: "ast_ok e \<Longrightarrow> \<exists>c t. show_body e = c # t \<and> c \<noteq> 61 \<and> c \<noteq> 62"
proof (induction e)
  case (ENum s)
  then show ?case by (cases s) (auto simp: number_char_def is_ascii_digit_def)
next
  case (ECell a)
  then show ?case using cell_address_chars [of a] by (auto simp: is_ascii_alphabetic_def)
qed (auto simp: grouped_def lit_def)

lemma grouped_starts: "ast_ok e \<Longrightarrow> \<exists>c t. grouped p e (show_body e) = c # t \<and> c \<noteq> 61 \<and> c \<noteq> 62"
  using show_starts [of e] by (simp add: grouped_def)

lemma cmp_op_text: "s = c # t \<Longrightarrow> c \<noteq> 61 \<Longrightarrow> c \<noteq> 62 \<Longrightarrow> cmp_op (cmp_text op @ s) = Some (op, s)"
  by (cases op) simp_all

lemma reads_num: "ast_ok (ENum s) \<Longrightarrow> reads N env 4 s (map_option NumValue (co_parse N s))"
proof -
  assume ok: "ast_ok (ENum s)"
  then obtain c t where s: "s = c # t" "number_char c" by (cases s) auto
  then have c: "c \<notin> {43, 45, 40, 34}" "\<not> is_space c"
    by (auto simp: number_char_def is_ascii_digit_def is_space_def)
  have "calc_factor N env (s @ k) = map_option (\<lambda>v. (v, k)) (map_option NumValue (co_parse N s))" if "follows 4 k" for k
  proof -
    have "calc_number N (s @ k) = map_option (\<lambda>v. (v, k)) (map_option NumValue (co_parse N s))"
      using takeWhile_number [of s 4 k] ok that by (simp add: calc_number_def option.map_comp o_def)
    then show ?thesis using s c by (subst calc_factor.simps) (simp add: skip_space_def)
  qed
  then show ?thesis by (simp add: reads_def)
qed

lemma reads_text: "reads N env 4 (34 # quoted_body s @ [34]) (Some (TextValue s))"
proof -
  have "calc_factor N env (34 # quoted_body s @ 34 # k) = Some (TextValue s, k)" if "follows 4 k" for k
  proof -
    have "hd k \<noteq> 34 \<or> k = []" using that by (auto simp: follows_def)
    then show ?thesis
      by (subst calc_factor.simps) (simp add: skip_space_def is_space_def quoted_double)
  qed
  then show ?thesis by (simp add: reads_def)
qed

lemma reads_cell: "is_cell_address a \<Longrightarrow> reads N env 4 a (calc_cell N env a)"
proof -
  assume a: "is_cell_address a"
  then obtain c t where ct: "a = c # t" "is_ascii_alphabetic c" using cell_address_chars by blast
  have "calc_factor N env (a @ k) = map_option (\<lambda>v. (v, k)) (calc_cell N env a)" if f: "follows 4 k" for k
  proof -
    have w: "calc_word (c # t @ k) = Some (a, k)"
      using calc_word_plain [of a k] cell_address_chars [OF a] follows_word [OF f] ct by simp
    have nm: "calc_name N env a = calc_cell N env a" using a by (subst calc_name.simps) simp
    have k: "skip_space k = k" by (rule follows_skip [OF f])
    have "\<And>d u. k = d # u \<Longrightarrow> d \<noteq> 91 \<and> d \<noteq> 40 \<and> d \<noteq> 33" using f by (auto simp: follows_def)
    then show ?thesis
      using letter_first [OF ct(2)] ct(1) w k nm
      by (subst calc_factor.simps) (cases k; simp add: skip_space_def)
  qed
  then show ?thesis by (simp add: reads_def)
qed

lemma reads_neg:
  assumes "reads N env 4 s x"
  shows "reads N env 4 (45 # s) (case x of Some (NumValue y) \<Rightarrow> Some (NumValue (co_neg N y)) | _ \<Rightarrow> None)"
proof -
  have "calc_factor N env (45 # s @ k) = map_option (\<lambda>v. (v, k)) (case x of Some (NumValue y) \<Rightarrow> Some (NumValue (co_neg N y)) | _ \<Rightarrow> None)"
    if "follows 4 k" for k
    using assms that unfolding reads_def
    by (subst calc_factor.simps) (simp add: skip_space_def is_space_def split: option.split CalcValue.split)
  then show ?thesis by (simp add: reads_def)
qed

lemma reads_product:
  assumes "reads N env 3 s x" and "reads N env 4 t y" and "op = MulOp \<or> op = DivOp"
  shows "reads N env 3 (s @ op_char op # t) (case (x, y) of (Some v, Some w) \<Rightarrow> arith_value N op v w | _ \<Rightarrow> None)"
proof -
  let ?z = "case (x, y) of (Some v, Some w) \<Rightarrow> arith_value N op v w | _ \<Rightarrow> None"
  have "calc_term N env (s @ op_char op # t @ k) = Option.bind ?z (\<lambda>v. calc_term_loop N env v k)" if f: "follows 4 k" for k
  proof -
    have "follows 4 (op_char op # t @ k)" using assms(3) by (auto simp: follows_def)
    then have "calc_term N env (s @ op_char op # t @ k) = Option.bind x (\<lambda>v. calc_term_loop N env v (op_char op # t @ k))"
      using assms(1) unfolding reads_def by simp
    moreover have "calc_factor N env (t @ k) = map_option (\<lambda>v. (v, k)) y" using assms(2) f unfolding reads_def by simp
    then have "calc_term_loop N env v (op_char op # t @ k) = Option.bind y (\<lambda>w. Option.bind (arith_value N op v w) (\<lambda>v. calc_term_loop N env v k))" for v
      using assms(3)
      by (subst calc_term_loop.simps) (auto simp: skip_space_def is_space_def no_longer_def split: option.split)
    ultimately show ?thesis by (auto split: option.split)
  qed
  then show ?thesis by (simp add: reads_def)
qed

lemma reads_sum:
  assumes "reads N env 2 s x" and "reads N env 3 t y" and "op = AddOp \<or> op = SubOp"
  shows "reads N env 2 (s @ op_char op # t) (case (x, y) of (Some v, Some w) \<Rightarrow> arith_value N op v w | _ \<Rightarrow> None)"
proof -
  let ?z = "case (x, y) of (Some v, Some w) \<Rightarrow> arith_value N op v w | _ \<Rightarrow> None"
  have "calc_expr N env (s @ op_char op # t @ k) = Option.bind ?z (\<lambda>v. calc_expr_loop N env v k)" if f: "follows 3 k" for k
  proof -
    have "follows 3 (op_char op # t @ k)" using assms(3) by (auto simp: follows_def)
    then have "calc_expr N env (s @ op_char op # t @ k) = Option.bind x (\<lambda>v. calc_expr_loop N env v (op_char op # t @ k))"
      using assms(1) unfolding reads_def by simp
    moreover have "calc_term N env (t @ k) = map_option (\<lambda>v. (v, k)) y"
      using assms(2) f follows_mono [of 3 k 4] unfolding reads_def by (cases y) (simp_all add: loops_stop)
    then have "calc_expr_loop N env v (op_char op # t @ k) = Option.bind y (\<lambda>w. Option.bind (arith_value N op v w) (\<lambda>v. calc_expr_loop N env v k))" for v
      using assms(3)
      by (subst calc_expr_loop.simps) (auto simp: skip_space_def is_space_def no_longer_def split: option.split)
    ultimately show ?thesis by (auto split: option.split)
  qed
  then show ?thesis by (simp add: reads_def)
qed

lemma reads_join:
  assumes "reads N env 1 s x" and "reads N env 2 t y"
  shows "reads N env 1 (s @ 38 # t)
    (case (x, y) of (Some v, Some w) \<Rightarrow> Some (TextValue (calc_text N v @ calc_text N w)) | _ \<Rightarrow> None)"
proof -
  let ?z = "case (x, y) of (Some v, Some w) \<Rightarrow> Some (TextValue (calc_text N v @ calc_text N w)) | _ \<Rightarrow> None"
  have "calc_join N env (s @ 38 # t @ k) = Option.bind ?z (\<lambda>v. calc_join_loop N env v k)" if f: "follows 2 k" for k
  proof -
    have "follows 2 (38 # t @ k)" by (simp add: follows_def)
    then have "calc_join N env (s @ 38 # t @ k) = Option.bind x (\<lambda>v. calc_join_loop N env v (38 # t @ k))"
      using assms(1) unfolding reads_def by simp
    moreover have "calc_expr N env (t @ k) = map_option (\<lambda>v. (v, k)) y"
      using assms(2) f follows_mono [of 2 k 3] unfolding reads_def by (cases y) (simp_all add: loops_stop)
    then have "calc_join_loop N env v (38 # t @ k) = Option.bind y (\<lambda>w. calc_join_loop N env (TextValue (calc_text N v @ calc_text N w)) k)" for v
      by (subst calc_join_loop.simps) (auto simp: skip_space_def is_space_def no_longer_def split: option.split)
    ultimately show ?thesis by (auto split: option.split)
  qed
  then show ?thesis by (simp add: reads_def)
qed

lemma join_operand:
  assumes "reads N env 1 t y" and "follows 1 k"
  shows "calc_join N env (t @ k) = map_option (\<lambda>v. (v, k)) y"
  using assms follows_mono [of "Suc 0" k 2] loops_stop(3) [of k] unfolding reads_def by (cases y) simp_all

lemma reads_cmp:
  assumes "reads N env 1 s x" and "reads N env 1 t y" and "\<exists>c u. t = c # u \<and> c \<noteq> 61 \<and> c \<noteq> 62"
  shows "reads N env 0 (s @ cmp_text op @ t) (case (x, y) of (Some v, Some w) \<Rightarrow> cmp_values N op v w | _ \<Rightarrow> None)"
proof -
  let ?z = "case (x, y) of (Some v, Some w) \<Rightarrow> cmp_values N op v w | _ \<Rightarrow> None"
  have "calc_compare N env (s @ cmp_text op @ t @ k) = map_option (\<lambda>v. (v, k)) ?z" if f: "follows 0 k" for k
  proof -
    have op: "follows 1 (cmp_text op @ t @ k)" by (cases op) (simp_all add: follows_def)
    have left: "calc_join N env (s @ cmp_text op @ t @ k) = map_option (\<lambda>v. (v, cmp_text op @ t @ k)) x"
      by (rule join_operand [OF assms(1) op])
    have right: "calc_join N env (t @ k) = map_option (\<lambda>v. (v, k)) y"
      using join_operand [OF assms(2) follows_mono [OF f]] by simp
    have found: "cmp_op (cmp_text op @ t @ k) = Some (op, t @ k)"
      using assms(3) cmp_op_text [of "t @ k"] by auto
    have "length (t @ k) < length (s @ cmp_text op @ t @ k)" by (cases op) simp_all
    then show ?thesis
      using left right found follows_skip [OF op]
      by (subst calc_compare.simps) (auto simp: no_longer_def split: option.split)
  qed
  then show ?thesis by (simp add: reads_def)
qed

lemma is_word_if: "is_word ''IF'' [73, 70]" "\<not> is_word ''LET'' [73, 70]"
  by (simp_all add: is_word_def lit_def to_ascii_lowercase_def ascii_lower_def)

lemma reads_if:
  assumes "reads N env 0 s x" and "reads N env 0 t y" and "reads N env 0 u z"
  shows "reads N env 4 (lit ''IF('' @ s @ 44 # t @ 44 # u @ [41])
    (case (x, y, z) of
       (Some (NumValue n), Some v, Some w) \<Rightarrow>
         if co_finite N n then limited_value N (if \<not> co_eq N n (co_lit N 0) then v else w) else None
     | _ \<Rightarrow> None)"
proof -
  let ?r = "case (x, y, z) of
       (Some (NumValue n), Some v, Some w) \<Rightarrow>
         if co_finite N n then limited_value N (if \<not> co_eq N n (co_lit N 0) then v else w) else None
     | _ \<Rightarrow> None"
  have "calc_factor N env (lit ''IF('' @ s @ 44 # t @ 44 # u @ 41 # k) = map_option (\<lambda>v. (v, k)) ?r" for k
  proof -
    have stop: "follows 0 (44 # v)" "follows 0 (41 # v)" for v by (simp_all add: follows_def)
    have parts: "calc_compare N env (s @ 44 # t @ 44 # u @ 41 # k) = map_option (\<lambda>v. (v, 44 # t @ 44 # u @ 41 # k)) x"
      "calc_compare N env (t @ 44 # u @ 41 # k) = map_option (\<lambda>v. (v, 44 # u @ 41 # k)) y"
      "calc_compare N env (u @ 41 # k) = map_option (\<lambda>v. (v, 41 # k)) z"
      using assms stop unfolding reads_def by simp_all
    have "calc_if N env (s @ 44 # t @ 44 # u @ 41 # k) = map_option (\<lambda>v. (v, k)) ?r"
      using parts
      by (subst calc_if.simps) (auto simp: no_longer_def expect_here is_space_def split: option.split CalcValue.split)
    then have fn: "calc_function N env [73, 70] (s @ 44 # t @ 44 # u @ 41 # k) = map_option (\<lambda>v. (v, k)) ?r"
      by (subst calc_function.simps) (simp add: is_word_if)
    have w: "calc_word (73 # 70 # 40 # v) = Some ([73, 70], 40 # v)" for v
      by (simp add: calc_word_def is_ascii_alphanumeric_def is_ascii_alphabetic_def is_ascii_digit_def lit_def)
    have l: "lit ''IF('' = [73, 70, 40]" by (simp add: lit_def)
    show ?thesis
      unfolding l
      by (subst calc_factor.simps) (simp add: skip_space_def is_space_def number_char_def is_ascii_digit_def w fn)
  qed
  then show ?thesis by (simp add: reads_def)
qed

lemma reads_ast: "ast_ok e \<Longrightarrow> reads N env (ast_level e) (show_body e) (ast_value N env e)"
proof (induction e)
  case (EOp op a b)
  have ab: "reads N env p (grouped p a (show_body a)) (ast_value N env a)"
    "reads N env p (grouped p b (show_body b)) (ast_value N env b)" if "p \<le> 4" for p
    using EOp reads_show that by simp_all
  consider (product) "op = MulOp \<or> op = DivOp" | (sum) "op = AddOp \<or> op = SubOp" by (cases op) auto
  then show ?case
  proof cases
    case product
    then have "op_level op = 3" by auto
    then show ?thesis using reads_product [OF ab(1) ab(2) product] by simp
  next
    case sum
    then have "op_level op = 2" by auto
    then show ?thesis using reads_sum [OF ab(1) ab(2) sum] by simp
  qed
next
  case (EJoin a b)
  then show ?case using reads_join [OF reads_show [of N env a "ast_value N env a" 1] reads_show [of N env b "ast_value N env b" 2]] by simp
next
  case (ECmp op a b)
  then show ?case
    using reads_cmp [OF reads_show [of N env a "ast_value N env a" 1] reads_show [of N env b "ast_value N env b" 1] grouped_starts [of b 1]]
    by simp
next
  case (EIf c a b)
  have "reads N env 0 (show_body e) (ast_value N env e)" if "reads N env (ast_level e) (show_body e) (ast_value N env e)" for e
    using reads_le [OF that] ast_level_le by simp
  then show ?case using EIf reads_if [of N env "show_body c" _ "show_body a" _ "show_body b"] by simp
qed (simp_all add: reads_num reads_text reads_cell reads_neg reads_show)

text \<open>
  C16.  The text of a formula, printed with the parentheses that its tree needs, is evaluated to the value of the tree: products
  before sums before joining before comparison, operators of one level from left to right.
\<close>

theorem formula_follows_grammar:
  assumes "ast_ok e"
  shows "calc_formula N env (show_ast 0 e) = ast_value N (fresh_names env) e"
proof -
  have "reads N (fresh_names env) 0 (show_ast 0 e) (ast_value N (fresh_names env) e)"
    unfolding show_ast_def by (rule reads_show [OF reads_ast [OF assms]]) simp
  then have "calc_compare N (fresh_names env) (show_ast 0 e @ []) = map_option (\<lambda>v. (v, [])) (ast_value N (fresh_names env) e)"
    by (simp add: reads_def follows_def)
  then show ?thesis
    by (subst calc_formula.simps) (simp add: skip_space_def split: option.split)
qed

section \<open>The bound on the rest\<close>

definition calls_ok :: "'f calc_ops \<Rightarrow> bool" where
  "calls_ok N \<longleftrightarrow> (\<forall>env w s v r. co_call N env w s = Some (v, r) \<longrightarrow> length r \<le> length s)
    \<and> (\<forall>env s v r. co_table N env s = Some (v, r) \<longrightarrow> length r \<le> length s)"

lemma quoted_chars_shorter: "quoted_chars q s = Some (t, r) \<Longrightarrow> length r \<le> length s"
proof (induction q s arbitrary: t r rule: quoted_chars.induct)
  case (2 q c s)
  show ?case
  proof (cases "c = q")
    case True
    note c = this
    show ?thesis
    proof (cases s)
      case (Cons d s')
      then show ?thesis using "2.prems" "2.IH"(1) [OF c Cons] c by (cases "d = q") fastforce+
    qed (use "2.prems" c in simp)
  next
    case False
    then show ?thesis using 2 by auto
  qed
qed simp

lemma foreign_cell_shorter: "foreign_cell N env w s = Some (v, r) \<Longrightarrow> length r \<le> length s"
proof -
  assume f: "foreign_cell N env w s = Some (v, r)"
  then obtain c s1 where s1: "skip_space s = c # s1" by (auto simp: foreign_cell_def split: list.splits)
  then obtain a r1 where "cell_token s1 = Some (a, r1)" "r = skip_space r1"
    using f by (auto simp: foreign_cell_def Let_def split: option.splits if_splits)
  then have "length r \<le> length s1"
    using skip_space_shorter [of r1] calc_word_shorter [of s1] by (auto simp: cell_token_def split: option.splits if_splits)
  then show ?thesis using skip_space_Cons [OF s1] by simp
qed

lemma quoted_sheet_shorter: "quoted_sheet s = Some (w, r) \<Longrightarrow> length r \<le> length s"
  using quoted_chars_shorter by (auto simp: quoted_sheet_def split: option.splits if_splits)

lemma calc_number_shorter: "calc_number N s = Some (v, r) \<Longrightarrow> length r \<le> length s"
  by (auto simp: calc_number_def length_dropWhile_le)

lemma calc_rest:
  assumes "calls_ok N"
  shows "calc_compare N env s = Some (v, r) \<Longrightarrow> length r \<le> length s"
    and "calc_join N env s = Some (v, r) \<Longrightarrow> length r \<le> length s"
    and "calc_join_loop N env x s = Some (v, r) \<Longrightarrow> length r \<le> length s"
    and "calc_expr N env s = Some (v, r) \<Longrightarrow> length r \<le> length s"
    and "calc_expr_loop N env x s = Some (v, r) \<Longrightarrow> length r \<le> length s"
    and "calc_term N env s = Some (v, r) \<Longrightarrow> length r \<le> length s"
    and "calc_term_loop N env x s = Some (v, r) \<Longrightarrow> length r \<le> length s"
    and "calc_factor N env s = Some (v, r) \<Longrightarrow> length r \<le> length s"
    and "calc_function N env w s = Some (v, r) \<Longrightarrow> length r \<le> length s"
    and "calc_if N env s = Some (v, r) \<Longrightarrow> length r \<le> length s"
    and "calc_let N env b s = Some (v, r) \<Longrightarrow> length r \<le> length s"
    and "calc_slice N env s = Some v \<Longrightarrow> True"
    and "calc_name N env w = Some v \<Longrightarrow> True"
    and "calc_cell N env w = Some v \<Longrightarrow> True"
    and "calc_formula N env s = Some v \<Longrightarrow> True"
  using assms
proof (induction N env s and N env s and N env x s and N env s and N env x s and N env s and N env x s and N env s
    and N env w s and N env s and N env b s and N env s and N env w and N env w and N env s arbitrary: v r and v r and v r
    and v r and v r and v r and v r and v r and v r and v r and v r and v and v and v and v
    rule: calc_compare_calc_join_calc_join_loop_calc_expr_calc_expr_loop_calc_term_calc_term_loop_calc_factor_calc_function_calc_if_calc_let_calc_slice_calc_name_calc_cell_calc_formula.induct)
  case (1 N env s)
  show ?case using "1.prems" "1.IH"(2) skip_space_shorter cmp_op_shorter
    by (subst (asm) calc_compare.simps) (fastforce split: option.splits if_splits prod.splits dest: no_longer_SomeD intro: le_trans)
next
  case (2 N env s)
  then show ?case by (subst (asm) calc_join.simps) (fastforce split: option.splits prod.splits dest: no_longer_SomeD intro: le_trans)
next
  case (3 N env x s)
  show ?case
  proof (cases "skip_space s")
    case Nil
    then show ?thesis using "3.prems"(1) by (subst (asm) calc_join_loop.simps) simp
  next
    case (Cons c s1)
    note sp = this
    show ?thesis
    proof (cases "c = 38")
      case True
      then obtain w r1 where w: "no_longer s1 (calc_expr N env s1) = Some (w, r1)"
        using "3.prems"(1) sp by (subst (asm) calc_join_loop.simps) (auto split: option.splits)
      have "calc_join_loop N env (TextValue (calc_text N x @ calc_text N w)) r1 = Some (v, r)"
        using "3.prems"(1) sp True w by (subst (asm) calc_join_loop.simps) simp
      then have "length r \<le> length r1" using "3.IH"(2) [OF sp True w refl] "3.prems"(2) by blast
      then show ?thesis using no_longer_SomeD [OF w] skip_space_Cons [OF sp] by simp
    next
      case False
      then have "r = c # s1" using "3.prems"(1) sp by (subst (asm) calc_join_loop.simps) auto
      then show ?thesis using sp skip_space_shorter [of s] by simp
    qed
  qed
next
  case (4 N env s)
  then show ?case
    by (subst (asm) calc_expr.simps) (fastforce split: option.splits prod.splits dest: no_longer_SomeD intro: le_trans)
next
  case (5 N env x s)
  show ?case
  proof (cases "skip_space s")
    case Nil
    then show ?thesis using "5.prems"(1) by (subst (asm) calc_expr_loop.simps) simp
  next
    case (Cons c s1)
    note sp = this
    show ?thesis
    proof (cases "c = 43 \<or> c = 45")
      case True
      then obtain w r1 where w: "no_longer s1 (calc_term N env s1) = Some (w, r1)"
        using "5.prems"(1) sp by (subst (asm) calc_expr_loop.simps) (auto split: option.splits)
      obtain y where y: "num_op (if c = 43 then co_add N else co_sub N) x w = Some y" "calc_expr_loop N env y r1 = Some (v, r)"
        using "5.prems"(1) sp True w by (subst (asm) calc_expr_loop.simps) (auto split: option.splits)
      then have "length r \<le> length r1" using "5.IH"(2) [OF sp True w refl y(1)] "5.prems"(2) by blast
      then show ?thesis using no_longer_SomeD [OF w] skip_space_Cons [OF sp] by simp
    next
      case False
      then have "r = c # s1" using "5.prems"(1) sp by (subst (asm) calc_expr_loop.simps) auto
      then show ?thesis using sp skip_space_shorter [of s] by simp
    qed
  qed
next
  case (6 N env s)
  then show ?case
    by (subst (asm) calc_term.simps) (fastforce split: option.splits prod.splits dest: no_longer_SomeD intro: le_trans)
next
  case (7 N env x s)
  show ?case
  proof (cases "skip_space s")
    case Nil
    then show ?thesis using "7.prems"(1) by (subst (asm) calc_term_loop.simps) simp
  next
    case (Cons c s1)
    note sp = this
    show ?thesis
    proof (cases "c = 42 \<or> c = 47")
      case True
      then obtain w r1 where w: "no_longer s1 (calc_factor N env s1) = Some (w, r1)"
        using "7.prems"(1) sp by (subst (asm) calc_term_loop.simps) (auto split: option.splits)
      obtain y where y: "(if c = 42 then num_op (co_mul N) x w else div_op N x w) = Some y" "calc_term_loop N env y r1 = Some (v, r)"
        using "7.prems"(1) sp True w by (subst (asm) calc_term_loop.simps) (auto split: option.splits)
      then have "length r \<le> length r1" using "7.IH"(2) [OF sp True w refl y(1)] "7.prems"(2) by blast
      then show ?thesis using no_longer_SomeD [OF w] skip_space_Cons [OF sp] by simp
    next
      case False
      then have "r = c # s1" using "7.prems"(1) sp by (subst (asm) calc_term_loop.simps) auto
      then show ?thesis using sp skip_space_shorter [of s] by simp
    qed
  qed
next
  case (8 N env s)
  note p = "8.prems"(1) and ok = "8.prems"(2)
  obtain c t where sp: "skip_space s = c # t" using p by (subst (asm) calc_factor.simps) (auto split: list.splits)
  have len: "length (c # t) \<le> length s" using skip_space_shorter [of s] sp by simp
  have "length r \<le> length (c # t)"
  proof -
    consider "c = 43" | "c = 45" | "c = 40" | "c = 34" | (num) "c \<notin> {43, 45, 40, 34}" "number_char c"
      | (sheet) "c = 39" "\<not> number_char c" | (word) "c \<notin> {43, 45, 40, 34, 39}" "\<not> number_char c"
      by auto
    then show ?thesis
    proof cases
      case 1
      then have "calc_factor N env t = Some (v, r)" using p sp by (subst (asm) calc_factor.simps) simp
      then show ?thesis using "8.IH"(1) [OF sp 1] ok by fastforce
    next
      case 2
      then obtain x where "calc_factor N env t = Some (x, r)"
        using p sp by (subst (asm) calc_factor.simps) (auto split: option.splits)
      then show ?thesis using "8.IH"(2) [OF sp _ 2] 2 ok by fastforce
    next
      case 3
      then obtain r1 where "calc_compare N env t = Some (v, r1)" "expect 41 r1 = Some r"
        using p sp by (subst (asm) calc_factor.simps) (auto split: option.splits)
      then show ?thesis using "8.IH"(3) [OF sp _ _ 3] 3 ok expect_shorter by fastforce
    next
      case 4
      then obtain x where "quoted_chars 34 t = Some (x, r)" using p sp by (subst (asm) calc_factor.simps) auto
      then show ?thesis using quoted_chars_shorter by fastforce
    next
      case num
      then have "calc_number N (c # t) = Some (v, r)" using p sp by (subst (asm) calc_factor.simps) simp
      then show ?thesis by (rule calc_number_shorter)
    next
      case sheet
      then obtain n r1 where "quoted_sheet t = Some (n, r1)" "foreign_cell N env n r1 = Some (v, r)"
        using p sp by (subst (asm) calc_factor.simps) (auto split: option.splits)
      then show ?thesis using quoted_sheet_shorter foreign_cell_shorter by fastforce
    next
      case word
      then obtain w r1 where w: "calc_word (c # t) = Some (w, r1)"
        using p sp by (subst (asm) calc_factor.simps) (auto split: option.splits)
      have r1: "length r1 < length (c # t)" by (rule calc_word_shorter [OF w])
      show ?thesis
      proof (cases "skip_space r1")
        case Nil
        then have "r = []" using p sp word w by (subst (asm) calc_factor.simps) auto
        then show ?thesis by simp
      next
        case (Cons d u)
        have u: "length (d # u) \<le> length r1" using skip_space_shorter [of r1] Cons by simp
        consider "d = 91" | "d = 40" | "d = 33" | "d \<notin> {91, 40, 33}" by auto
        then show ?thesis
        proof cases
          case 1
          then have "co_table N env (c # t) = Some (v, r)" using p sp word w Cons by (subst (asm) calc_factor.simps) auto
          then show ?thesis using ok unfolding calls_ok_def by blast
        next
          case 2
          then have f: "calc_function N env w u = Some (v, r)" using p sp word w Cons by (subst (asm) calc_factor.simps) auto
          have "length r \<le> length u" by (rule "8.IH"(5) [OF sp _ _ _ _ _ _ w refl Cons _ _ f ok]) (use word 2 in auto)
          then show ?thesis using r1 u by simp
        next
          case 3
          then have "foreign_cell N env w (d # u) = Some (v, r)" using p sp word w Cons by (subst (asm) calc_factor.simps) auto
          then show ?thesis using foreign_cell_shorter [of N env w "d # u" v r] r1 u by simp
        next
          case 4
          then have "r = d # u" using p sp word w Cons by (subst (asm) calc_factor.simps) auto
          then show ?thesis using r1 u by simp
        qed
      qed
    qed
  qed
  then show ?case using len by simp
next
  case (9 N env w s)
  note p = "9.prems"(1) and ok = "9.prems"(2)
  consider "is_word ''LET'' w" | "\<not> is_word ''LET'' w" "is_word ''IF'' w"
    | (split) as where "split_top_args 0 False [] s = Some (as, r)"
    | (call) "co_call N env w s = Some (v, r)"
    using p by (subst (asm) calc_function.simps) (auto split: if_splits option.splits list.splits CalcValue.splits simp: Let_def)
  then show ?case
  proof cases
    case 1
    then have "calc_let N (env\<lparr>ce_hide_book_names := True\<rparr>) 0 s = Some (v, r)" using p by (subst (asm) calc_function.simps) simp
    then show ?thesis using "9.IH"(1) [OF 1] ok by blast
  next
    case 2
    then have "calc_if N env s = Some (v, r)" using p by (subst (asm) calc_function.simps) simp
    then show ?thesis using "9.IH"(2) [OF 2] ok by blast
  next
    case split
    then show ?thesis using split_top_args_shorter by fastforce
  next
    case call
    then show ?thesis using ok unfolding calls_ok_def by blast
  qed
next
  case (10 N env s)
  note p = "10.prems"(1) and ok = "10.prems"(2)
  obtain x r1 s1 yes r2 s2 no r3 where
    1: "no_longer s (calc_compare N env s) = Some (NumValue x, r1)" "co_finite N x" "expect 44 r1 = Some s1"
    and 2: "no_longer s1 (calc_compare N env s1) = Some (yes, r2)" "expect 44 r2 = Some s2"
    and 3: "calc_compare N env s2 = Some (no, r3)" "expect 41 r3 = Some r"
    using p by (subst (asm) calc_if.simps) (auto split: option.splits CalcValue.splits if_splits prod.splits)
  have "length r3 \<le> length s2"
    by (rule "10.IH"(3) [OF 1(1) refl refl _ 1(3) 2(1) refl 2(2) 3(1) ok]) (simp add: 1(2))
  then show ?case
    using no_longer_SomeD [OF 1(1)] no_longer_SomeD [OF 2(1)] expect_shorter [OF 1(3)] expect_shorter [OF 2(2)] expect_shorter [OF 3(2)]
    by linarith
next
  case (11 N env b s)
  note p = "11.prems"(1) and ok = "11.prems"(2)
  let ?s1 = "skip_space s"
  consider (final) v' r1 where "calc_compare N env ?s1 = Some (v', r1)" "expect 41 r1 = Some r"
    | (binding) name r1 s2 v1 r2 v2 s3 where "calc_word ?s1 = Some (name, r1)" "expect 44 r1 = Some s2"
      "\<not> (\<not> let_name_ok name \<or> 8 \<le> b)" "no_longer s2 (calc_compare N env s2) = Some (v1, r2)" "kept_calc N v1 = Some v2"
      "expect 44 r2 = Some s3"
      "calc_let N (env\<lparr>ce_let_names := (ce_let_names env)(to_ascii_lowercase name \<mapsto> v2)\<rparr>) (b + 1) s3 = Some (v, r)"
    using p by (subst (asm) calc_let.simps) (auto simp: Let_def split: option.splits prod.splits if_splits)
  then show ?case
  proof cases
    case final
    then have "length r1 \<le> length ?s1" using "11.IH"(1) [OF refl] ok by blast
    then show ?thesis using expect_shorter [OF final(2)] skip_space_shorter [of s] by simp
  next
    case binding
    have "length r \<le> length s3"
      using "11.IH"(3) [OF refl refl binding(1) refl binding(2) binding(3) binding(4) refl binding(5) binding(6) binding(7) ok] by simp
    then show ?thesis
      using no_longer_SomeD [OF binding(4)] expect_shorter [OF binding(2)] expect_shorter [OF binding(6)] calc_word_shorter [OF binding(1)]
        skip_space_shorter [of s] by linarith
  qed
qed auto

text \<open>The checks that the recursion makes on a rest never refuse one, so that the equations without them hold as well.\<close>

lemma rest_never_refused:
  assumes "calls_ok N"
  shows "no_longer s (calc_compare N env s) = calc_compare N env s" "no_longer s (calc_join N env s) = calc_join N env s"
    "no_longer s (calc_expr N env s) = calc_expr N env s" "no_longer s (calc_term N env s) = calc_term N env s"
    "no_longer s (calc_factor N env s) = calc_factor N env s"
  using calc_rest(1,2,4,6,8) [OF assms, of env s] by (auto simp: no_longer_def split: option.split)

lemma comparison_not_refused:
  assumes "calls_ok N" and "calc_join N env s = Some (v, r)" and "cmp_op (skip_space r) = Some (op, r2)"
  shows "\<not> length s \<le> length r2"
  using calc_rest(2) [OF assms(1,2)] skip_space_shorter [of r] cmp_op_shorter [OF assms(3)] by simp

section \<open>Circles\<close>

fun cells_of :: "calc_ast \<Rightarrow> ustring set" where
  "cells_of (ENum s) = {}" | "cells_of (EText s) = {}" | "cells_of (ECell a) = {a}" | "cells_of (ENeg e) = cells_of e"
| "cells_of (EOp op a b) = cells_of a \<union> cells_of b" | "cells_of (EJoin a b) = cells_of a \<union> cells_of b"
| "cells_of (ECmp op a b) = cells_of a \<union> cells_of b" | "cells_of (EIf c a b) = cells_of c \<union> cells_of a \<union> cells_of b"

lemma ast_strict: "c \<in> cells_of e \<Longrightarrow> calc_cell N env c = None \<Longrightarrow> ast_value N env e = None"
  by (induction e) (auto split: option.splits CalcValue.splits)

lemma ast_ok_cells: "ast_ok e \<Longrightarrow> c \<in> cells_of e \<Longrightarrow> is_cell_address c"
  by (induction e) auto

lemma plain_address: "is_cell_address a \<Longrightarrow> split_once 33 a = None"
proof -
  have "33 \<notin> set a \<Longrightarrow> split_once 33 a = None" for a :: ustring by (induction a) auto
  moreover assume "is_cell_address a"
  then have "33 \<notin> set a"
    using cell_address_chars [of a] by (auto simp: list_all_iff is_ascii_alphanumeric_def is_ascii_alphabetic_def is_ascii_digit_def)
  ultimately show ?thesis by blast
qed

text \<open>
  C28.  Cells whose formulas are built of operators, comparisons, joins and \<open>IF\<close> and all mention a cell of the same set have
  no value: a circle of references is found whatever way it is entered, unless the workbook iterates.  These formulas use
  every part of them; \<open>IFERROR\<close> and \<open>CHOOSE\<close> do not, and give a cell of a circle a value (\<open>circle_behind_function\<close>).
\<close>

theorem circle_has_no_value:
  assumes "\<forall>c \<in> C. \<exists>e. map_of (ce_formulas env) c = Some (show_ast 0 e) \<and> ast_ok e \<and> (\<exists>a \<in> cells_of e. to_upper a \<in> C)"
    and "\<not> ce_iterate env" and "is_cell_address a" and "to_upper a \<in> C"
  shows "calc_cell N env a = None"
  using assms
proof (induction "unvisited env" arbitrary: env a rule: less_induct)
  case less
  let ?c = "to_upper a"
  show ?case
  proof (cases "?c \<in> set (ce_visiting env)")
    case True
    then show ?thesis using less.prems(2) plain_address [OF less.prems(3)] by (subst calc_cell.simps) (simp add: Let_def)
  next
    case False
    obtain e b where e: "map_of (ce_formulas env) ?c = Some (show_ast 0 e)" "ast_ok e" "b \<in> cells_of e" "to_upper b \<in> C"
      using less.prems(1,4) by blast
    let ?env = "env\<lparr>ce_visiting := ?c # ce_visiting env\<rparr>"
    have "unvisited (fresh_names ?env) < unvisited env" using unvisited_visit [OF e(1) False] by simp
    then have "calc_cell N (fresh_names ?env) b = None"
      by (rule less.hyps) (use less.prems(1,2) e ast_ok_cells in \<open>auto simp: fresh_names_def\<close>)
    then have "calc_formula N ?env (show_ast 0 e) = None"
      using formula_follows_grammar [OF e(2), of N ?env] ast_strict [OF e(3)] by simp
    then show ?thesis using False e(1) plain_address [OF less.prems(3)] by (subst calc_cell.simps) (simp add: Let_def)
  qed
qed

section \<open>Samples\<close>

definition rat_ops :: "rat calc_ops" where
  "rat_ops = \<lparr>co_lit = \<lambda>x. x, co_add = (+), co_sub = (-), co_mul = (*), co_div = (/), co_neg = uminus, co_abs = abs,
    co_round = \<lambda>x. of_int \<lfloor>x + 1 / 2\<rfloor>, co_lt = (<), co_eq = (=), co_finite = \<lambda>_. True, co_to_i64 = floor,
    co_parse = \<lambda>s. if list_all is_ascii_digit s then Some (of_nat (digits_value s)) else None, co_fixed = \<lambda>_ _. [],
    co_call = \<lambda>_ _ _. None, co_table = \<lambda>_ _. None\<rparr>"

definition sample_env :: "(ustring \<times> ustring) list \<Rightarrow> rat CalcEnv" where
  "sample_env fs = \<lparr>ce_formulas = fs, ce_literals = \<lambda>a. if a = lit ''A1'' then Some 5 else None, ce_texts = \<lambda>_. None,
    ce_foreign = \<lambda>_. None, ce_names = no_names, ce_sheet = lit ''S'', ce_previous = \<lambda>_. None, ce_iterate = False,
    ce_visiting = [], ce_let_names = \<lambda>_. None, ce_hide_book_names = False\<rparr>"

lemma rat_calls_ok: "calls_ok rat_ops"
  by (simp add: calls_ok_def rat_ops_def)

theorem formula_follows_grammar_witness:
  "calc_formula rat_ops (sample_env []) (lit ''2*(3-1)-1'') = Some (NumValue 3)"
proof -
  let ?e = "EOp SubOp (EOp MulOp (ENum [50]) (EOp SubOp (ENum [51]) (ENum [49]))) (ENum [49])"
  have "show_ast 0 ?e = lit ''2*(3-1)-1''" by code_simp
  moreover have "ast_value rat_ops (fresh_names (sample_env [])) ?e = Some (NumValue 3)" by code_simp
  moreover have "ast_ok ?e" by code_simp
  ultimately show ?thesis using formula_follows_grammar [of ?e rat_ops "sample_env []"] by simp
qed

theorem circle_has_no_value_witness:
  "calc_cell rat_ops (sample_env [(lit ''B1'', lit ''C1+1''), (lit ''C1'', lit ''B1'')]) (lit ''c1'') = None"
proof -
  let ?env = "sample_env [(lit ''B1'', lit ''C1+1''), (lit ''C1'', lit ''B1'')]" and ?C = "{lit ''B1'', lit ''C1''}"
  have b: "map_of (ce_formulas ?env) (lit ''B1'') = Some (show_ast 0 (EOp AddOp (ECell (lit ''C1'')) (ENum [49])))"
    and c: "map_of (ce_formulas ?env) (lit ''C1'') = Some (show_ast 0 (ECell (lit ''B1'')))"
    and ok: "ast_ok (EOp AddOp (ECell (lit ''C1'')) (ENum [49]))" "ast_ok (ECell (lit ''B1''))"
    and up: "to_upper (lit ''C1'') = lit ''C1''" "to_upper (lit ''B1'') = lit ''B1''" "to_upper (lit ''c1'') = lit ''C1''"
    and cell: "is_cell_address (lit ''c1'')" by code_simp+
  have "\<exists>e. map_of (ce_formulas ?env) (lit ''B1'') = Some (show_ast 0 e) \<and> ast_ok e \<and> (\<exists>a \<in> cells_of e. to_upper a \<in> ?C)"
    by (intro exI conjI, rule b, rule ok(1), rule bexI [of _ "lit ''C1''"]) (simp_all only: up cells_of.simps insert_iff Un_iff simp_thms)
  moreover have "\<exists>e. map_of (ce_formulas ?env) (lit ''C1'') = Some (show_ast 0 e) \<and> ast_ok e \<and> (\<exists>a \<in> cells_of e. to_upper a \<in> ?C)"
    by (intro exI conjI, rule c, rule ok(2), rule bexI [of _ "lit ''B1''"]) (simp_all only: up cells_of.simps insert_iff Un_iff simp_thms)
  moreover have "\<not> ce_iterate ?env" by (simp add: sample_env_def)
  moreover have "to_upper (lit ''c1'') \<in> ?C" by (simp only: up insert_iff simp_thms)
  ultimately show ?thesis using cell by (intro circle_has_no_value [of ?C]) blast+
qed

section \<open>Findings\<close>

text \<open>\<open>IFERROR\<close> takes the circle for an error, and \<open>CHOOSE\<close> evaluates the chosen part only.\<close>

lemma circle_behind_function:
  "calc_cell rat_ops (sample_env [(lit ''B1'', lit ''IFERROR(B1,7)'')]) (lit ''B1'') = Some (NumValue 7)"
  "calc_cell rat_ops (sample_env [(lit ''B1'', lit ''CHOOSE(1,5,B1)'')]) (lit ''B1'') = Some (NumValue 5)"
  by code_simp+

text \<open>\<open>IF\<close> evaluates both branches: a division by zero that the condition is there to avoid takes the value away.\<close>

lemma if_evaluates_both: "calc_formula rat_ops (sample_env []) (lit ''IF(A1=0,0,10/A1)'') = Some (NumValue 2)"
  "calc_formula rat_ops ((sample_env [])\<lparr>ce_literals := \<lambda>_. Some 0\<rparr>) (lit ''IF(A1=0,0,10/A1)'') = None"
  by code_simp+

text \<open>Two texts cannot be compared.\<close>

lemma text_comparison_refused: "calc_formula rat_ops (sample_env []) [34, 97, 34, 61, 34, 97, 34] = None"
  by code_simp

text \<open>A cell that a named formula reaches is evaluated without the names of the workbook.\<close>

lemma names_lost_behind_names:
  "let env = (sample_env [(lit ''B1'', lit ''one'')])\<lparr>ce_names := \<lparr>nb_global =
      [(lit ''one'', \<lparr>dr_sheet = lit ''S'', dr_cells = [], dr_formula = Some (lit ''1'')\<rparr>),
       (lit ''twice'', \<lparr>dr_sheet = lit ''S'', dr_cells = [], dr_formula = Some (lit ''B1*2'')\<rparr>)], nb_local = []\<rparr>\<rparr>
   in calc_formula rat_ops env (lit ''B1*2'') = Some (NumValue 2) \<and> calc_formula rat_ops env (lit ''twice'') = None"
  by code_simp

end
