(* ===== verification/Calc_Strings.thy ===== *)
theory Calc_Strings
  imports Calc_Formula
begin

text \<open>
  The text and whole-number functions of the spreadsheet (\<open>src/crates/orchid-viewers/src/office/calc.rs\<close>): bit operations,
  Roman numerals, common divisors and multiples, slices, searches and replacements, the criteria of \<open>COUNTIF\<close> and its
  relatives, and the decoding of XML entities (with \<open>office/xml.rs\<close>).  Numbers are the \<open>f64\<close> of theory Calc\_Date:
  finite ones are rational, so the rounding of a division or of a long decimal text is not modelled.
\<close>

unbundle bit_operations_syntax

section \<open>Multiples\<close>

fun parity_excel :: "f64 \<Rightarrow> bool \<Rightarrow> f64 option" where
  "parity_excel (Num x) want_odd =
    (if 10 ^ 15 \<le> \<bar>x\<bar> then None else Some (Num (if (trunc x mod 2 \<noteq> 0) = want_odd then 1 else 0)))"
| "parity_excel _ want_odd = None"

text \<open>\<open>f64::round\<close> of a number that is not negative.\<close>

definition round_steps :: "rat \<Rightarrow> rat" where
  "round_steps x = of_int \<lfloor>x + 1 / 2\<rfloor>"

fun mround_excel :: "f64 \<Rightarrow> f64 \<Rightarrow> f64 option" where
  "mround_excel (Num x) (Num y) =
    (if 10 ^ 15 \<le> \<bar>x\<bar> \<or> 10 ^ 15 \<le> \<bar>y\<bar> then None
     else if y = 0 then (if x = 0 then Some (Num 0) else None)
     else if x = 0 then Some (Num 0)
     else if sgn x \<noteq> sgn y then None
     else Some (Num (round_steps \<bar>x / y\<bar> * \<bar>y\<bar> * sgn x)))"
| "mround_excel _ _ = None"

fun step_multiple :: "f64 \<Rightarrow> f64 \<Rightarrow> bool \<Rightarrow> f64 option" where
  "step_multiple (Num x) (Num y) away =
    (if 10 ^ 15 \<le> \<bar>x\<bar> \<or> 10 ^ 15 \<le> \<bar>y\<bar> then None
     else if y = 0 then (if away then Some (Num 0) else None)
     else if x = 0 then Some (Num 0)
     else if sgn x \<noteq> sgn y then None
     else Some (Num (of_int (if away then \<lceil>\<bar>x / y\<bar>\<rceil> else \<lfloor>\<bar>x / y\<bar>\<rfloor>) * \<bar>y\<bar> * sgn x)))"
| "step_multiple _ _ away = None"

section \<open>Bits\<close>

fun bit_whole :: "f64 \<Rightarrow> nat option" where
  "bit_whole (Num x) = (if x < 0 \<or> 2 ^ 48 \<le> x then None else Some (nat (trunc x)))"
| "bit_whole _ = None"

definition bit_excel :: "f64 \<Rightarrow> f64 \<Rightarrow> bool \<Rightarrow> bool \<Rightarrow> f64 option" where
  "bit_excel left right and_op xor_op =
    (case (bit_whole left, bit_whole right) of
       (Some l, Some r) \<Rightarrow> Some (Num (of_nat (if and_op then l AND r else if xor_op then l XOR r else l OR r)))
     | _ \<Rightarrow> None)"

text \<open>\<open>checked_shl\<close> refuses shifts of 64 and more only; the bits that leave the word are lost.\<close>

fun bit_shift :: "f64 \<Rightarrow> f64 \<Rightarrow> bool \<Rightarrow> f64 option" where
  "bit_shift number (Num shift) right =
    (case bit_whole number of
       None \<Rightarrow> None
     | Some n \<Rightarrow>
       if 53 < \<bar>trunc shift\<bar> then None
       else (let places = (if right then - trunc shift else trunc shift)
         in if 0 \<le> places
            then (if 48 \<le> places \<and> n \<noteq> 0 then None
                  else (let shifted = n * 2 ^ nat places mod 2 ^ 64
                    in if 2 ^ 48 \<le> shifted then None else Some (Num (of_nat shifted))))
            else Some (Num (of_nat (n div 2 ^ nat (- places))))))"
| "bit_shift _ _ _ = None"

section \<open>Roman numerals\<close>

definition glyphs :: "(nat \<times> ustring) list" where
  "glyphs = [(1000, lit ''M''), (900, lit ''CM''), (500, lit ''D''), (400, lit ''CD''), (100, lit ''C''), (90, lit ''XC''),
    (50, lit ''L''), (40, lit ''XL''), (10, lit ''X''), (9, lit ''IX''), (5, lit ''V''), (4, lit ''IV''), (1, lit ''I'')]"

function roman_loop :: "(nat \<times> ustring) list \<Rightarrow> nat \<Rightarrow> ustring" where
  "roman_loop [] n = []"
| "roman_loop ((v, g) # gs) n = (if 0 < v \<and> v \<le> n then g @ roman_loop ((v, g) # gs) (n - v) else roman_loop gs n)"
  by pat_completeness auto
termination
  by (relation "measures [\<lambda>(gs, n). length gs, \<lambda>(gs, n). n]") auto

fun roman_excel :: "f64 \<Rightarrow> ustring option" where
  "roman_excel (Num x) = (if trunc x < 1 \<or> 3999 < trunc x then None else Some (roman_loop glyphs (nat (trunc x))))"
| "roman_excel _ = None"

definition arabic_excel :: "ustring \<Rightarrow> f64 option" where
  "arabic_excel s =
    (if s = [] \<or> 15 < length s \<or> \<not> list_all is_ascii_alphabetic s then None
     else map_option (\<lambda>n. Num (of_nat n)) (List.find (\<lambda>n. roman_excel (Num (of_nat n)) = Some (to_upper s)) [1..<4000]))"

section \<open>Divisors and multiples\<close>

fun gcd_u64 :: "nat \<Rightarrow> nat \<Rightarrow> nat" where
  "gcd_u64 l r = (if r = 0 then l else gcd_u64 r (l mod r))"

declare gcd_u64.simps [simp del]

fun whole_arg :: "f64 \<Rightarrow> nat option" where
  "whole_arg (Num x) = (if x < 0 \<or> 10 ^ 15 \<le> x then None else Some (nat (trunc x)))"
| "whole_arg _ = None"

fun gcd_loop :: "nat \<Rightarrow> f64 list \<Rightarrow> nat option" where
  "gcd_loop acc [] = Some acc"
| "gcd_loop acc (x # xs) = (case whole_arg x of None \<Rightarrow> None | Some n \<Rightarrow> gcd_loop (gcd_u64 acc n) xs)"

definition gcd_excel :: "f64 list \<Rightarrow> f64 option" where
  "gcd_excel args = (if args = [] then None else map_option (\<lambda>n. Num (of_nat n)) (gcd_loop 0 args))"

text \<open>The product is computed on 64 bits.\<close>

fun lcm_loop :: "nat \<Rightarrow> f64 list \<Rightarrow> nat option" where
  "lcm_loop acc [] = Some acc"
| "lcm_loop acc (x # xs) =
    (case whole_arg x of
       None \<Rightarrow> None
     | Some n \<Rightarrow>
       if n = 0 \<or> acc = 0 then Some 0
       else (let acc = acc div gcd_u64 acc n * n mod 2 ^ 64
         in if 10 ^ 15 \<le> acc then None else lcm_loop acc xs))"

definition lcm_excel :: "f64 list \<Rightarrow> f64 option" where
  "lcm_excel args = (if args = [] then None else map_option (\<lambda>n. Num (of_nat n)) (lcm_loop 1 args))"

section \<open>Slices and joins\<close>

fun text_count :: "f64 \<Rightarrow> nat option" where
  "text_count (Num x) = (if x < 0 \<or> 32767 < x then None else Some (nat (trunc x)))"
| "text_count _ = None"

text \<open>A position counts from one.\<close>

fun text_start :: "f64 \<Rightarrow> nat option" where
  "text_start (Num x) = (if x < 1 \<or> 32767 < x then None else Some (nat (trunc x) - 1))"
| "text_start _ = None"

definition slice_text :: "ustring \<Rightarrow> nat \<Rightarrow> f64 \<Rightarrow> ustring option" where
  "slice_text s start amount = map_option (\<lambda>n. take n (drop start s)) (text_count amount)"

definition slice_mid :: "ustring \<Rightarrow> f64 \<Rightarrow> f64 \<Rightarrow> ustring option" where
  "slice_mid s start amount = (case text_start start of None \<Rightarrow> None | Some i \<Rightarrow> slice_text s i amount)"

definition rept_text :: "ustring \<Rightarrow> f64 \<Rightarrow> ustring option" where
  "rept_text s amount =
    (case text_count amount of
       None \<Rightarrow> None
     | Some n \<Rightarrow> if s = [] \<or> n = 0 then Some [] else if 32767 < length s * n then None else Some (concat (replicate n s)))"

definition replace_span :: "ustring \<Rightarrow> f64 \<Rightarrow> f64 \<Rightarrow> ustring \<Rightarrow> ustring option" where
  "replace_span s start amount new =
    (case (text_start start, text_count amount) of
       (Some i, Some n) \<Rightarrow>
         if length s < i then None
         else (let out = take i s @ new @ drop (min (i + n) (length s)) s in if 32767 < length out then None else Some out)
     | _ \<Rightarrow> None)"

text \<open>The characters are counted one by one; \<open>push_limited\<close> appends a text to the result.\<close>

fun push_limited :: "nat \<times> ustring \<Rightarrow> ustring \<Rightarrow> (nat \<times> ustring) option" where
  "push_limited (amount, out) [] = Some (amount, out)"
| "push_limited (amount, out) (c # s) = (if 32767 < amount + 1 then None else push_limited (amount + 1, out @ [c]) s)"

fun text_join_loop :: "ustring \<Rightarrow> bool \<Rightarrow> ustring list \<Rightarrow> bool \<Rightarrow> nat \<times> ustring \<Rightarrow> ustring option" where
  "text_join_loop delim ignore_empty [] started (amount, out) = Some out"
| "text_join_loop delim ignore_empty (p # ps) started st =
    (if ignore_empty \<and> p = [] then text_join_loop delim ignore_empty ps started st
     else (case (if started then push_limited st delim else Some st) of
             None \<Rightarrow> None
           | Some st \<Rightarrow>
             (case push_limited st p of None \<Rightarrow> None | Some st \<Rightarrow> text_join_loop delim ignore_empty ps True st)))"

definition text_join :: "ustring \<Rightarrow> bool \<Rightarrow> ustring list \<Rightarrow> ustring option" where
  "text_join delim ignore_empty parts = text_join_loop delim ignore_empty parts False (0, [])"

text \<open>\<open>TRIM\<close>: \<open>gap\<close> is a space that is still to be written, \<open>started\<close> says that something was.\<close>

fun trim_loop :: "bool \<Rightarrow> bool \<Rightarrow> ustring \<Rightarrow> ustring" where
  "trim_loop gap started [] = []"
| "trim_loop gap started (c # s) =
    (if c = 32 then trim_loop (gap \<or> started) started s
     else (if gap then [32] else []) @ c # trim_loop False True s)"

definition trim_spaces :: "ustring \<Rightarrow> ustring" where
  "trim_spaces s = trim_loop False False s"

definition clean_excel :: "ustring \<Rightarrow> ustring" where
  "clean_excel s = filter (\<lambda>c. 32 \<le> c) s"

definition code_excel :: "ustring \<Rightarrow> f64 option" where
  "code_excel s = (case s of [] \<Rightarrow> None | c # _ \<Rightarrow> Some (Num (of_nat c)))"

fun char_excel :: "f64 \<Rightarrow> ustring option" where
  "char_excel (Num x) =
    (if x < 1 \<or> 0x10FFFF < x then None
     else (let c = nat (trunc x) in if 0xD800 \<le> c \<and> c < 0xE000 then None else Some [c]))"
| "char_excel _ = None"

section \<open>Searching and replacing\<close>

text \<open>\<open>find\<close>: what is before and after the first occurrence.\<close>

fun cut_first :: "ustring \<Rightarrow> ustring \<Rightarrow> (ustring \<times> ustring) option" where
  "cut_first p [] = (if p = [] then Some ([], []) else None)"
| "cut_first p (c # s) =
    (case strip_prefix p (c # s) of
       Some r \<Rightarrow> Some ([], r)
     | None \<Rightarrow> map_option (\<lambda>(b, r). (c # b, r)) (cut_first p s))"

lemma cut_first_append: "cut_first p s = Some (b, r) \<Longrightarrow> s = b @ p @ r"
proof (induction p s arbitrary: b r rule: cut_first.induct)
  case (2 p c s)
  then show ?case by (cases "strip_prefix p (c # s)") (auto simp: strip_prefix_Some_iff)
qed (simp split: if_splits)

text \<open>\<open>str::replace\<close>, for a text that is not empty.\<close>

function replace_each :: "ustring \<Rightarrow> ustring \<Rightarrow> ustring \<Rightarrow> ustring" where
  "replace_each old new s =
    (if old = [] then s
     else case cut_first old s of None \<Rightarrow> s | Some (b, r) \<Rightarrow> b @ new @ replace_each old new r)"
  by pat_completeness auto
termination
  by (relation "measure (\<lambda>(old, new, s). length s)") (auto dest: cut_first_append)

declare replace_each.simps [simp del]

text \<open>\<open>None\<close> when there are fewer occurrences.\<close>

fun replace_nth :: "nat \<Rightarrow> ustring \<Rightarrow> ustring \<Rightarrow> ustring \<Rightarrow> ustring option" where
  "replace_nth 0 old new s = None"
| "replace_nth (Suc n) old new s =
    (case cut_first old s of
       None \<Rightarrow> None
     | Some (b, r) \<Rightarrow> if n = 0 then Some (b @ new @ r) else map_option ((@) (b @ old)) (replace_nth n old new r))"

definition substitute_text :: "ustring \<Rightarrow> ustring \<Rightarrow> ustring \<Rightarrow> f64 option \<Rightarrow> ustring option" where
  "substitute_text s old new instance_num =
    (if old = [] then None
     else case instance_num of
            None \<Rightarrow> Some (replace_each old new s)
          | Some x \<Rightarrow>
            (case text_count x of
               None \<Rightarrow> None
             | Some n \<Rightarrow>
               if n < 1 then None
               else Some (case replace_nth n old new s of Some out \<Rightarrow> out | None \<Rightarrow> s)))"

function wildcard_prefix :: "ustring \<Rightarrow> ustring \<Rightarrow> bool" where
  "wildcard_prefix pat s =
    (case pat of
       [] \<Rightarrow> True
     | c # p \<Rightarrow>
         if c = 126 then
           (case (p, s) of
              (c' # p', d # s') \<Rightarrow> eq_ignore_case c' d \<and> wildcard_prefix p' s'
            | _ \<Rightarrow> False)
         else if c = 63 then (case s of d # s' \<Rightarrow> wildcard_prefix p s' | [] \<Rightarrow> False)
         else if c = 42 then
           (let rest = dropWhile (\<lambda>x. x = 42) p
            in rest = [] \<or> list_ex (\<lambda>start. wildcard_prefix rest (drop start s)) [0..<Suc (length s)])
         else (case s of d # s' \<Rightarrow> eq_ignore_case c d \<and> wildcard_prefix p s' | [] \<Rightarrow> False))"
  by auto
termination
  by (relation "measure (\<lambda>(p, s). length p)") (auto simp: less_Suc_eq_le length_dropWhile_le)

declare wildcard_prefix.simps [simp del]

definition search_wildcard :: "ustring \<Rightarrow> ustring \<Rightarrow> f64 \<Rightarrow> f64 option" where
  "search_wildcard hay pat start =
    (if pat = [] then None
     else case text_start start of
            None \<Rightarrow> None
          | Some i \<Rightarrow>
            if 64 < length pat \<or> 256 < length hay \<or> length hay < i then None
            else map_option (\<lambda>k. Num (of_nat (k + 1)))
              (List.find (\<lambda>k. wildcard_prefix pat (drop k hay)) [i..<Suc (length hay)]))"

definition find_scalar :: "ustring \<Rightarrow> ustring \<Rightarrow> f64 \<Rightarrow> bool \<Rightarrow> f64 option" where
  "find_scalar hay needle start ignore_case =
    (if needle = [] then None
     else case text_start start of
            None \<Rightarrow> None
          | Some i \<Rightarrow>
            if length hay < i \<or> length hay - i < length needle then None
            else map_option (\<lambda>k. Num (of_nat (k + 1)))
              (List.find (\<lambda>k. list_all2 (if ignore_case then eq_ignore_case else (=)) (take (length needle) (drop k hay)) needle)
                [i..<Suc (length hay - length needle)]))"

section \<open>Criteria\<close>

definition trim_blanks :: "ustring \<Rightarrow> ustring" where
  "trim_blanks s = trim_end_char 32 (dropWhile (\<lambda>c. c = 32) s)"

text \<open>\<open>parse\<close> of digits with one point at most.\<close>

definition decimal_value :: "ustring \<Rightarrow> rat" where
  "decimal_value s =
    (case split_once 46 s of
       None \<Rightarrow> of_nat (digits_value s)
     | Some (a, b) \<Rightarrow> of_nat (digits_value a) + of_nat (digits_value b) / 10 ^ length b)"

definition value_excel :: "ustring \<Rightarrow> f64 option" where
  "value_excel s =
    (case trim_blanks s of
       [] \<Rightarrow> None
     | c # t \<Rightarrow>
       let sign = (if c = 45 then -1 else 1); ds = (if c = 43 \<or> c = 45 then t else c # t)
       in if ds = [] \<or> \<not> list_ex is_ascii_digit ds \<or> 1 < length (filter (\<lambda>c. c = 46) ds)
             \<or> \<not> list_all (\<lambda>c. is_ascii_digit c \<or> c = 46) ds then None
          else Some (Num (sign * decimal_value ds)))"

datatype CriterionOp = CrEq | CrNe | CrLt | CrGt | CrLe | CrGe

definition criterion_ops :: "(ustring \<times> CriterionOp) list" where
  "criterion_ops = [(lit ''>='', CrGe), (lit ''<='', CrLe), (lit ''<>'', CrNe), (lit ''>'', CrGt), (lit ''<'', CrLt), (lit ''='', CrEq)]"

fun first_prefix :: "(ustring \<times> 'a) list \<Rightarrow> ustring \<Rightarrow> ('a \<times> ustring) option" where
  "first_prefix [] s = None"
| "first_prefix ((p, x) # ps) s = (case strip_prefix p s of Some r \<Rightarrow> Some (x, r) | None \<Rightarrow> first_prefix ps s)"

definition criterion_op :: "ustring \<Rightarrow> (CriterionOp \<times> ustring) option" where
  "criterion_op s = first_prefix criterion_ops (trim_blanks s)"

definition number_matches :: "rat \<Rightarrow> CriterionOp \<Rightarrow> rat \<Rightarrow> bool" where
  "number_matches cell op target =
    (let same = \<bar>cell - target\<bar> < 1 / 10 ^ 9
     in case op of
          CrEq \<Rightarrow> same | CrNe \<Rightarrow> \<not> same
        | CrGt \<Rightarrow> \<not> same \<and> target < cell | CrLt \<Rightarrow> \<not> same \<and> cell < target
        | CrGe \<Rightarrow> same \<or> target < cell | CrLe \<Rightarrow> same \<or> cell < target)"

definition has_wildcard :: "ustring \<Rightarrow> bool" where
  "has_wildcard s \<longleftrightarrow> list_ex (\<lambda>c. c = 42 \<or> c = 63 \<or> c = 126) s"

type_synonym cell_content = "f64 CalcValue option"

fun finite_number :: "cell_content \<Rightarrow> (rat \<Rightarrow> bool) \<Rightarrow> bool" where
  "finite_number (Some (NumValue (Num x))) P = P x"
| "finite_number _ P = False"

definition wildcard_holds :: "cell_content \<Rightarrow> ustring \<Rightarrow> bool \<Rightarrow> bool option" where
  "wildcard_holds cell pattern want_match =
    (if 64 < length pattern then None
     else case cell of
            Some (TextValue s) \<Rightarrow> if 256 < length s then None else Some (text_pattern pattern s = want_match)
          | _ \<Rightarrow> Some (\<not> want_match))"

definition text_equal :: "cell_content \<Rightarrow> ustring \<Rightarrow> bool" where
  "text_equal cell s = (case cell of Some (TextValue v) \<Rightarrow> to_ascii_lowercase v = to_ascii_lowercase s | _ \<Rightarrow> False)"

definition criterion_is_wildcard :: "f64 CalcValue \<Rightarrow> bool" where
  "criterion_is_wildcard c =
    (case c of
       NumValue _ \<Rightarrow> False
     | TextValue s \<Rightarrow>
       (let text = trim_blanks s
        in case criterion_op text of
             Some (op, rest) \<Rightarrow> value_excel rest = None \<and> (op = CrEq \<or> op = CrNe) \<and> has_wildcard rest
           | None \<Rightarrow> has_wildcard text))"

text \<open>\<open>COUNTA\<close> and \<open>COUNTBLANK\<close>: the cells that hold something and the empty texts.\<close>

fun note_presence :: "f64 CalcValue \<Rightarrow> nat \<times> nat \<Rightarrow> (nat \<times> nat) option" where
  "note_presence (NumValue (Num _)) (present, blank) = Some (present + 1, blank)"
| "note_presence (NumValue _) (present, blank) = None"
| "note_presence (TextValue s) (present, blank) = Some (if s = [] then (present, blank + 1) else (present + 1, blank))"

definition header_label :: "cell_content \<Rightarrow> ustring option" where
  "header_label v =
    (case v of
       Some (TextValue s) \<Rightarrow> if trim s = [] then None else Some (to_ascii_lowercase (trim s))
     | _ \<Rightarrow> None)"

fun criterion_holds :: "cell_content \<Rightarrow> f64 CalcValue \<Rightarrow> bool option" where
  "criterion_holds cell (NumValue (Num target)) = Some (finite_number cell (\<lambda>x. number_matches x CrEq target))"
| "criterion_holds cell (NumValue _) = None"
| "criterion_holds cell (TextValue s) =
    (let text = trim_blanks s
     in case criterion_op text of
          Some (op, rest) \<Rightarrow>
            (case value_excel rest of
               Some (Num target) \<Rightarrow> Some (finite_number cell (\<lambda>x. number_matches x op target))
             | _ \<Rightarrow>
               if \<not> (op = CrEq \<or> op = CrNe) then None
               else if has_wildcard rest then wildcard_holds cell (trim_blanks rest) (op = CrEq)
               else Some (text_equal cell (trim_blanks rest) = (op = CrEq)))
        | None \<Rightarrow> if has_wildcard text then wildcard_holds cell text True else Some (text_equal cell text))"

fun compile_criterion :: "f64 CalcValue \<Rightarrow> (CriterionOp \<times> f64) option" where
  "compile_criterion (NumValue (Num target)) = Some (CrEq, Num target)"
| "compile_criterion (NumValue _) = None"
| "compile_criterion (TextValue s) =
    (case criterion_op s of
       None \<Rightarrow> None
     | Some (op, rest) \<Rightarrow> map_option (\<lambda>v. (op, v)) (value_excel rest))"

section \<open>XML entities\<close>

definition entity :: "ustring \<Rightarrow> uchar option" where
  "entity e = map_of [(lit ''amp'', 38), (lit ''lt'', 60), (lit ''gt'', 62), (lit ''quot'', 34), (lit ''apos'', 39)] e"

lemma split_once_append: "split_once c s = Some (a, b) \<Longrightarrow> s = a @ c # b \<and> c \<notin> set a"
proof (induction c s arbitrary: a b rule: split_once.induct)
  case (2 c x s)
  then show ?case by (cases "x = c") auto
qed simp

lemma split_once_shorter: "split_once c s = Some (a, b) \<Longrightarrow> length b < length s"
  by (auto dest: split_once_append)

function unescape_xml :: "ustring \<Rightarrow> ustring" where
  "unescape_xml [] = []"
| "unescape_xml (c # s) =
    (if c \<noteq> 38 then c # unescape_xml s
     else case split_once 59 s of
            None \<Rightarrow> c # s
          | Some (e, r) \<Rightarrow> (case entity e of Some d \<Rightarrow> d # unescape_xml r | None \<Rightarrow> 38 # unescape_xml s))"
  by pat_completeness auto
termination
  by (relation "measure length") (auto dest: split_once_shorter)

text \<open>The decoder of \<open>xml.rs\<close>.\<close>

function xml_text :: "ustring \<Rightarrow> ustring" where
  "xml_text [] = []"
| "xml_text (c # s) =
    (if c \<noteq> 38 then c # xml_text s
     else case split_once 59 s of
            None \<Rightarrow> 38 # xml_text s
          | Some (e, r) \<Rightarrow> (case entity e of Some d \<Rightarrow> d # xml_text r | None \<Rightarrow> 38 # xml_text s))"
  by pat_completeness auto
termination
  by (relation "measure length") (auto dest: split_once_shorter)

definition escape_char :: "uchar \<Rightarrow> ustring" where
  "escape_char c =
    (if c = 38 then lit ''&amp;'' else if c = 60 then lit ''&lt;'' else if c = 62 then lit ''&gt;''
     else if c = 34 then lit ''&quot;'' else [c])"

definition escape_xml :: "ustring \<Rightarrow> ustring" where
  "escape_xml s = concat (map escape_char s)"

text \<open>The opening tag of a cell that becomes an inline text, and the text that the body of such a cell holds.\<close>

definition open_tag_inline :: "ustring \<Rightarrow> ustring option" where
  "open_tag_inline tag =
    (if cut_first (lit ''t='') tag \<noteq> None then None
     else case dropWhile (\<lambda>c. c \<noteq> 62) (rev tag) of
            [] \<Rightarrow> None
          | _ # front \<Rightarrow> Some (rev front @ lit '' t='' @ 34 # lit ''inlineStr'' @ [34, 62]))"

definition inline_text :: "ustring \<Rightarrow> ustring option" where
  "inline_text body =
    (case (case cut_first (lit ''<t>'') body of
             Some (_, rest) \<Rightarrow> Some rest
           | None \<Rightarrow>
             (case cut_first (lit ''<t '') body of
                None \<Rightarrow> None
              | Some (_, tag) \<Rightarrow> map_option snd (split_once 62 tag))) of
       None \<Rightarrow> None
     | Some rest \<Rightarrow> map_option (\<lambda>(content, _). unescape_xml content) (cut_first (lit ''</t>'') rest))"

section \<open>Replacing\<close>

text \<open>The occurrence is the first one.\<close>

lemma cut_first_leftmost: "cut_first p s = Some (b, r) \<Longrightarrow> s = x @ p @ y \<Longrightarrow> length b \<le> length x"
proof (induction p s arbitrary: b r x rule: cut_first.induct)
  case (2 p c s)
  show ?case
  proof (cases "strip_prefix p (c # s)")
    case None
    then obtain b' where b: "b = c # b'" "cut_first p s = Some (b', r)" using "2.prems"(1) by (auto split: option.splits)
    have "x \<noteq> []"
    proof
      assume "x = []"
      then have "strip_prefix p (c # s) = Some y" using "2.prems"(2) by (simp add: strip_prefix_Some_iff)
      then show False using None by simp
    qed
    then show ?thesis using "2.IH" [OF None b(2), of "tl x"] "2.prems"(2) b(1) by (cases x) auto
  next
    case (Some r')
    then have "cut_first p (c # s) = Some ([], r')" by simp
    then show ?thesis using "2.prems"(1) by simp
  qed
qed (simp split: if_splits)

lemma cut_first_None: "cut_first p s = None \<Longrightarrow> s \<noteq> x @ p @ y"
proof (induction p s arbitrary: x rule: cut_first.induct)
  case (2 p c s)
  then have none: "strip_prefix p (c # s) = None" "cut_first p s = None" by (auto split: option.splits)
  show ?case
  proof (cases x)
    case Nil
    then show ?thesis using none(1) by (metis append_Nil option.distinct(1) strip_prefix_Some_iff)
  next
    case (Cons d x')
    then show ?thesis using "2.IH" [OF none(1,2), of x'] by auto
  qed
qed (simp split: if_splits)

text \<open>The pieces between the occurrences.\<close>

function pieces :: "ustring \<Rightarrow> ustring \<Rightarrow> ustring list" where
  "pieces old s = (if old = [] then [s] else case cut_first old s of None \<Rightarrow> [s] | Some (b, r) \<Rightarrow> b # pieces old r)"
  by pat_completeness auto
termination
  by (relation "measure (\<lambda>(old, s). length s)") (auto dest: cut_first_append)

declare pieces.simps [simp del]

lemma pieces_step: "cut_first old s = Some (b, r) \<Longrightarrow> old \<noteq> [] \<Longrightarrow> pieces old s = b # pieces old r"
  by (subst pieces.simps) simp

lemma pieces_end: "cut_first old s = None \<Longrightarrow> pieces old s = [s]"
  by (subst pieces.simps) simp

lemma pieces_not_Nil [simp]: "pieces old s \<noteq> []"
  by (subst pieces.simps) (auto split: option.split)

lemma join_Cons: "ps \<noteq> [] \<Longrightarrow> join sep (p # ps) = p @ sep @ join sep ps"
  by (cases ps) auto

lemma join_pieces: "old \<noteq> [] \<Longrightarrow> join old (pieces old s) = s"
proof (induction old s rule: pieces.induct)
  case (1 old s)
  show ?case
  proof (cases "cut_first old s")
    case None
    then show ?thesis by (simp add: pieces_end)
  next
    case (Some br)
    obtain b r where br: "br = (b, r)" by (cases br)
    have "join old (pieces old r) = r" using "1.IH" [OF "1.prems" Some br [symmetric]] "1.prems" by blast
    then show ?thesis using Some br "1.prems" cut_first_append [of old s b r] by (simp add: pieces_step join_Cons)
  qed
qed

lemma replace_each_pieces: "old \<noteq> [] \<Longrightarrow> replace_each old new s = join new (pieces old s)"
proof (induction old s rule: pieces.induct)
  case (1 old s)
  show ?case
  proof (cases "cut_first old s")
    case None
    then show ?thesis by (subst replace_each.simps) (simp add: pieces_end)
  next
    case (Some br)
    obtain b r where br: "br = (b, r)" by (cases br)
    have "replace_each old new r = join new (pieces old r)" using "1.IH" [OF "1.prems" Some br [symmetric]] "1.prems" by blast
    then show ?thesis using Some br "1.prems" by (subst replace_each.simps) (simp add: pieces_step join_Cons)
  qed
qed

lemma pieces_free: "old \<noteq> [] \<Longrightarrow> p \<in> set (pieces old s) \<Longrightarrow> p \<noteq> x @ old @ y"
proof (induction old s rule: pieces.induct)
  case (1 old s)
  show ?case
  proof (cases "cut_first old s")
    case None
    then show ?thesis using "1.prems" cut_first_None [OF None, of x y] by (simp add: pieces_end)
  next
    case (Some br)
    obtain b r where br: "br = (b, r)" by (cases br)
    have later: "p \<in> set (pieces old r) \<Longrightarrow> p \<noteq> x @ old @ y" using "1.IH" [OF "1.prems"(1) Some br [symmetric]] "1.prems" by blast
    have "b \<noteq> x @ old @ y"
    proof
      assume b: "b = x @ old @ y"
      then have "length b \<le> length x"
        using cut_first_leftmost [of old s b r x "y @ old @ r"] cut_first_append [of old s b r] Some br by simp
      then show False using b "1.prems"(1) by simp
    qed
    then show ?thesis using later Some br "1.prems" by (auto simp: pieces_step)
  qed
qed

lemma replace_nth_pieces:
  "old \<noteq> [] \<Longrightarrow> 0 < n \<Longrightarrow>
    replace_nth n old new s =
      (if n < length (pieces old s)
       then Some (join old (take n (pieces old s)) @ new @ join old (drop n (pieces old s))) else None)"
proof (induction n arbitrary: s)
  case (Suc n)
  show ?case
  proof (cases "cut_first old s")
    case None
    then show ?thesis by (simp add: pieces_end)
  next
    case (Some br)
    obtain b r where br: "br = (b, r)" by (cases br)
    show ?thesis
    proof (cases n)
      case 0
      then show ?thesis using Some br Suc.prems by (simp add: pieces_step join_pieces)
    next
      case (Suc m)
      have "take n (pieces old r) \<noteq> []" using Suc by simp
      then show ?thesis using Some br Suc.prems Suc Suc.IH [of r] by (simp add: pieces_step join_Cons)
    qed
  qed
qed simp

text \<open>Each piece but the last ends where the next occurrence begins.\<close>

lemma pieces_leftmost:
  "old \<noteq> [] \<Longrightarrow> p \<in> set (butlast (pieces old s)) \<Longrightarrow> p @ old = x @ old @ y \<Longrightarrow> y = []"
proof (induction old s rule: pieces.induct)
  case (1 old s)
  show ?case
  proof (cases "cut_first old s")
    case None
    then show ?thesis using "1.prems" by (simp add: pieces_end)
  next
    case (Some br)
    obtain b r where br: "br = (b, r)" by (cases br)
    have later: "p \<in> set (butlast (pieces old r)) \<Longrightarrow> y = []"
      using "1.IH" [OF "1.prems"(1) Some br [symmetric]] "1.prems" by blast
    have "y = []" if p: "p = b"
    proof -
      have "s = x @ old @ y @ r" using cut_first_append [of old s b r] Some br "1.prems"(3) p by simp
      then have "length b \<le> length x" using cut_first_leftmost [of old s b r x "y @ r"] Some br by simp
      then show ?thesis using arg_cong [OF "1.prems"(3), of length] p by simp
    qed
    then show ?thesis using later Some br "1.prems" by (auto simp: pieces_step)
  qed
qed

end
