(* ===== verification/Calc_Strings_Laws.thy ===== *)
theory Calc_Strings_Laws
  imports Calc_Strings "HOL-Library.Code_Target_Nat"
begin

text \<open>
  What the functions of theory Calc\_Strings compute: a wildcard search finds the first place where a part of the text
  matches the pattern (relation \<open>glob\<close> of theory Calc\_Text), \<open>TRIM\<close> leaves the words, Roman numerals read back,
  common divisors and multiples are exact while they fit, joins are joins below the limit, a compiled criterion is the
  criterion, and escaped XML reads back.
\<close>

section \<open>Wildcard search\<close>

definition begins :: "ustring \<Rightarrow> ustring \<Rightarrow> bool" where
  "begins pat s \<longleftrightarrow> (\<exists>u v. s = u @ v \<and> glob pat u)"

lemma ex_front:
  "(\<exists>u v. s = u @ v \<and> (\<exists>d u'. u = d # u' \<and> P d u')) \<longleftrightarrow> (\<exists>d s'. s = d # s' \<and> (\<exists>u v. s' = u @ v \<and> P d u))"
proof
  assume "\<exists>d s'. s = d # s' \<and> (\<exists>u v. s' = u @ v \<and> P d u)"
  then obtain d u v where "s = (d # u) @ v" "P d u" by auto
  then show "\<exists>u v. s = u @ v \<and> (\<exists>d u'. u = d # u' \<and> P d u')" by blast
next
  assume "\<exists>u v. s = u @ v \<and> (\<exists>d u'. u = d # u' \<and> P d u')"
  then obtain d u v where "s = d # (u @ v)" "P d u" by auto
  then show "\<exists>d s'. s = d # s' \<and> (\<exists>u v. s' = u @ v \<and> P d u)" by blast
qed

lemma begins_simps:
  "begins [] s"
  "c \<notin> {42, 63, 126} \<Longrightarrow> begins (c # p) s \<longleftrightarrow> (\<exists>d s'. s = d # s' \<and> eq_ignore_case c d \<and> begins p s')"
  "begins (63 # p) s \<longleftrightarrow> (\<exists>d s'. s = d # s' \<and> begins p s')"
  "begins (126 # p) s \<longleftrightarrow> (\<exists>c p' d s'. p = c # p' \<and> s = d # s' \<and> eq_ignore_case c d \<and> begins p' s')"
proof -
  assume "c \<notin> {42, 63, 126}"
  then show "begins (c # p) s \<longleftrightarrow> (\<exists>d s'. s = d # s' \<and> eq_ignore_case c d \<and> begins p s')"
    using ex_front [of s "\<lambda>d u. eq_ignore_case c d \<and> glob p u"] by (simp add: begins_def glob_simps) blast
next
  show "begins (63 # p) s \<longleftrightarrow> (\<exists>d s'. s = d # s' \<and> begins p s')"
    using ex_front [of s "\<lambda>d u. glob p u"] by (simp add: begins_def glob_simps)
next
  have "begins (126 # p) s \<longleftrightarrow> (\<exists>u v. s = u @ v \<and> (\<exists>d u'. u = d # u' \<and> (\<exists>c p'. p = c # p' \<and> eq_ignore_case c d \<and> glob p' u')))"
    by (auto simp: begins_def glob_simps)
  then show "begins (126 # p) s \<longleftrightarrow> (\<exists>c p' d s'. p = c # p' \<and> s = d # s' \<and> eq_ignore_case c d \<and> begins p' s')"
    unfolding ex_front begins_def by blast
qed (auto simp: begins_def glob_simps)

lemma begins_stars: "begins (42 # p) s \<longleftrightarrow> (\<exists>k \<le> length s. begins p (drop k s))"
proof
  assume "begins (42 # p) s"
  then obtain t u v where "s = (t @ u) @ v" "glob p u" unfolding begins_def by (auto elim: glob.cases)
  then show "\<exists>k \<le> length s. begins p (drop k s)"
    unfolding begins_def by (intro exI [of _ "length t"]) auto
next
  assume "\<exists>k \<le> length s. begins p (drop k s)"
  then obtain k u v where "drop k s = u @ v" "glob p u" unfolding begins_def by blast
  then have "s = (take k s @ u) @ v" "glob (42 # p) (take k s @ u)"
    using append_take_drop_id [of k s] glob_star by auto
  then show "begins (42 # p) s" unfolding begins_def by blast
qed

lemma begins_dropWhile: "begins (42 # dropWhile (\<lambda>x. x = 42) p) s \<longleftrightarrow> begins (42 # p) s"
  by (simp add: begins_def glob_dropWhile)

lemma prefix_simps:
  "wildcard_prefix [] s"
  "c \<notin> {42, 63, 126} \<Longrightarrow>
    wildcard_prefix (c # p) s \<longleftrightarrow> (\<exists>d s'. s = d # s' \<and> eq_ignore_case c d \<and> wildcard_prefix p s')"
  "wildcard_prefix (63 # p) s \<longleftrightarrow> (\<exists>d s'. s = d # s' \<and> wildcard_prefix p s')"
  "wildcard_prefix (126 # p) s \<longleftrightarrow>
    (\<exists>c p' d s'. p = c # p' \<and> s = d # s' \<and> eq_ignore_case c d \<and> wildcard_prefix p' s')"
  "wildcard_prefix (42 # p) s \<longleftrightarrow>
    (let rest = dropWhile (\<lambda>x. x = 42) p in rest = [] \<or> (\<exists>k \<le> length s. wildcard_prefix rest (drop k s)))"
  by (subst wildcard_prefix.simps; auto simp: Let_def list_ex_iff less_Suc_eq_le simp del: upt_Suc split: list.splits)+

lemma wildcard_prefix_begins: "wildcard_prefix pat s \<longleftrightarrow> begins pat s"
proof (induction pat arbitrary: s rule: length_induct)
  case (1 pat)
  then have ih: "length p < length pat \<Longrightarrow> wildcard_prefix p s \<longleftrightarrow> begins p s" for p s by blast
  show ?case
  proof (cases pat)
    case Nil
    then show ?thesis by (simp add: prefix_simps begins_simps)
  next
    case (Cons c p)
    let ?rest = "dropWhile (\<lambda>x. x = 42) p"
    have rest: "length ?rest < length pat" using Cons by (simp add: less_Suc_eq_le length_dropWhile_le)
    consider "c = 126" | "c = 63" | "c = 42" | "c \<notin> {42, 63, 126}" by blast
    then show ?thesis
    proof cases
      case 1
      then show ?thesis using Cons ih by (auto simp: prefix_simps begins_simps)
    next
      case 2
      then show ?thesis using Cons ih by (auto simp: prefix_simps begins_simps)
    next
      case 3
      have "wildcard_prefix pat s \<longleftrightarrow> ?rest = [] \<or> begins (42 # ?rest) s"
        using Cons 3 ih [OF rest] by (simp add: prefix_simps begins_stars Let_def)
      moreover have "begins [42] s" by (auto simp: begins_stars begins_simps)
      ultimately have "wildcard_prefix pat s \<longleftrightarrow> begins (42 # ?rest) s" by (auto simp del: dropWhile_eq_Nil_conv)
      then show ?thesis using Cons 3 by (simp add: begins_dropWhile)
    next
      case 4
      then show ?thesis using Cons ih by (simp add: prefix_simps begins_simps)
    qed
  qed
qed

section \<open>Trimming\<close>

definition words_of :: "ustring \<Rightarrow> ustring list" where
  "words_of s = filter (\<lambda>w. w \<noteq> []) (split_char 32 s)"

lemma trim_loop_words:
  "trim_loop gap started s =
     (if words_of s = [] then []
      else (if gap \<or> (started \<and> hd (split_char 32 s) = []) then [32] else []) @ join [32] (words_of s))"
proof (induction gap started s rule: trim_loop.induct)
  case (2 gap started c s)
  obtain w ws where sp: "split_char 32 s = w # ws" by (metis neq_Nil_conv split_char_not_Nil)
  show ?case
  proof (cases "c = 32")
    case True
    then show ?thesis using "2.IH"(1) sp by (auto simp: words_of_def)
  next
    case False
    then show ?thesis using "2.IH"(2) sp
      by (cases ws; cases "filter (\<lambda>w. w \<noteq> []) ws"; cases "w = []") (auto simp: words_of_def join_Cons)
  qed
qed (simp add: words_of_def)

lemma trim_spaces_words: "trim_spaces s = join [32] (words_of s)"
  by (auto simp: trim_spaces_def trim_loop_words)

section \<open>Divisors\<close>

lemma gcd_u64_gcd: "gcd_u64 l r = gcd l r"
proof (induction l r rule: gcd_u64.induct)
  case (1 l r)
  then show ?case by (subst gcd_u64.simps) (simp add: gcd_non_0_nat gcd.commute)
qed

lemma gcd_loop_Gcd:
  "gcd_loop acc xs = (if None \<in> set (map whole_arg xs) then None else Some (Gcd (insert acc (set (map (the \<circ> whole_arg) xs)))))"
  by (induction xs arbitrary: acc) (auto simp: gcd_u64_gcd gcd.assoc split: option.split)

section \<open>Roman numerals\<close>

text \<open>The reader takes the first glyph of the list that fits, as the writer does.\<close>

function read_roman :: "(nat \<times> ustring) list \<Rightarrow> ustring \<Rightarrow> nat" where
  "read_roman [] s = 0"
| "read_roman ((v, g) # gs) s =
    (case strip_prefix g s of
       Some r \<Rightarrow> if g = [] then 0 else v + read_roman ((v, g) # gs) r
     | None \<Rightarrow> read_roman gs s)"
  by pat_completeness auto
termination
  by (relation "measures [\<lambda>(gs, s). length gs, \<lambda>(gs, s). length s]") (auto simp: strip_prefix_Some_iff)

fun readable :: "(nat \<times> ustring) list \<Rightarrow> bool" where
  "readable [] = True"
| "readable ((v, g) # gs) =
    (0 < v \<and> g \<noteq> [] \<and> list_all (\<lambda>(w, h). h \<noteq> [] \<and> hd h \<noteq> hd g) gs \<and> readable gs
     \<or> 0 < v \<and> g \<noteq> [] \<and> list_all (\<lambda>(w, h). last g \<notin> set h) gs \<and> readable gs)"

lemma roman_loop_letters: "set (roman_loop gs n) \<subseteq> (\<Union>(w, h) \<in> set gs. set h)"
  by (induction gs n rule: roman_loop.induct) auto

lemma roman_loop_head:
  "list_all (\<lambda>(w, h). h \<noteq> []) gs \<Longrightarrow> roman_loop gs n \<noteq> [] \<Longrightarrow> \<exists>(w, h) \<in> set gs. hd (roman_loop gs n) = hd h"
  by (induction gs n rule: roman_loop.induct) (auto split: if_splits)

lemma strip_prefix_self [simp]: "strip_prefix p (p @ s) = Some s"
  by (simp add: strip_prefix_Some_iff)

lemma roman_loop_other:
  assumes "readable ((v, g) # gs)"
  shows "strip_prefix g (roman_loop gs n) = None"
proof (rule ccontr)
  assume "strip_prefix g (roman_loop gs n) \<noteq> None"
  then obtain r where r: "roman_loop gs n = g @ r" by (auto simp: strip_prefix_Some_iff)
  have g: "g \<noteq> []" using assms by auto
  then have "last g \<in> set (roman_loop gs n)" using r by simp
  then obtain w h where wh: "(w, h) \<in> set gs" "last g \<in> set h" using roman_loop_letters [of gs n] by blast
  then have heads: "list_all (\<lambda>(w, h). h \<noteq> [] \<and> hd h \<noteq> hd g) gs" using assms by (fastforce simp: list_all_iff)
  then have "list_all (\<lambda>(w, h). h \<noteq> []) gs" by (auto simp: list_all_iff)
  then obtain w' h' where "(w', h') \<in> set gs" "hd (roman_loop gs n) = hd h'" using roman_loop_head [of gs n] r g by auto
  then show False using heads r g by (auto simp: list_all_iff)
qed

lemma read_roman_loop: "readable gs \<Longrightarrow> gs \<noteq> [] \<Longrightarrow> fst (last gs) = 1 \<Longrightarrow> read_roman gs (roman_loop gs n) = n"
proof (induction gs n rule: roman_loop.induct)
  case (2 v g gs n)
  show ?case
  proof (cases "0 < v \<and> v \<le> n")
    case True
    then show ?thesis using "2.IH"(1) [OF True] "2.prems" by auto
  next
    case False
    have v: "0 < v" using "2.prems"(1) by auto
    have other: "strip_prefix g (roman_loop gs n) = None" by (rule roman_loop_other [OF "2.prems"(1)])
    show ?thesis
    proof (cases "gs = []")
      case True
      then show ?thesis using False v other "2.prems" by simp
    next
      case gs: False
      then show ?thesis using False v other "2.IH"(2) [OF False] "2.prems" by auto
    qed
  qed
qed simp

lemma readable_glyphs: "readable glyphs" "glyphs \<noteq> []" "fst (last glyphs) = 1"
  by (simp_all add: glyphs_def)

lemma roman_injective: "roman_loop glyphs m = roman_loop glyphs n \<Longrightarrow> m = n"
  by (metis read_roman_loop readable_glyphs)

section \<open>XML\<close>

lemma split_once_fresh: "c \<notin> set a \<Longrightarrow> split_once c (a @ c # b) = Some (a, b)"
  by (induction a) auto

lemma split_once_missing: "split_once c s = None \<longleftrightarrow> c \<notin> set s"
  by (induction c s rule: split_once.induct) auto

lemma unescape_plain: "59 \<notin> set s \<Longrightarrow> unescape_xml s = s"
  by (induction s) (auto simp: split_once_missing [THEN iffD2])

lemma xml_text_unescape: "xml_text s = unescape_xml s"
proof (induction s rule: unescape_xml.induct)
  case (2 c s)
  show ?case
  proof (cases "c = 38")
    case False
    then show ?thesis using "2.IH" by simp
  next
    case True
    show ?thesis
    proof (cases "split_once 59 s")
      case None
      then have "59 \<notin> set s" by (simp add: split_once_missing)
      then have "xml_text s = s" by (induction s) (auto simp: split_once_missing [THEN iffD2])
      then show ?thesis using True None by simp
    next
      case (Some er)
      obtain e r where er: "er = (e, r)" by (cases er)
      show ?thesis using True Some er "2.IH"(2-) by (cases "entity e") auto
    qed
  qed
qed simp

lemma unescape_char: "unescape_xml (escape_char c @ s) = c # unescape_xml s"
proof -
  have e: "split_once 59 (a @ 59 # s) = Some (a, s)" if "59 \<notin> set a" for a using that by (rule split_once_fresh)
  show ?thesis
    using e [of "lit ''amp''"] e [of "lit ''lt''"] e [of "lit ''gt''"] e [of "lit ''quot''"]
    by (auto simp: escape_char_def entity_def lit_def)
qed

lemma unescape_escape: "unescape_xml (escape_xml s) = s"
  by (induction s) (simp_all add: escape_xml_def unescape_char)

text \<open>
  Escapes.  Both decoders read back what the writer of the office files escapes.
\<close>

theorem xml_escape_roundtrip: "unescape_xml (escape_xml s) = s \<and> xml_text (escape_xml s) = s"
  by (simp add: xml_text_unescape unescape_escape)

section \<open>Joining\<close>

lemma push_limited_length: "push_limited (n, out) s = (if s = [] \<or> n + length s \<le> 32767 then Some (n + length s, out @ s) else None)"
  by (induction "(n, out)" s arbitrary: n out rule: push_limited.induct) auto

lemma text_join_loop_join:
  "n \<le> 32767 \<Longrightarrow> length out = n \<Longrightarrow>
   text_join_loop delim ignore ps started (n, out) =
    (let qs = (if ignore then filter (\<lambda>p. p \<noteq> []) ps else ps);
         all = (if qs = [] then out else out @ (if started then delim else []) @ join delim qs)
     in if length all \<le> 32767 then Some all else None)"
proof (induction ps arbitrary: started n out)
  case (Cons p ps)
  show ?case
  proof (cases "ignore \<and> p = []")
    case True
    then show ?thesis using Cons by simp
  next
    case False
    define qs where "qs = (if ignore then filter (\<lambda>p. p \<noteq> []) ps else ps)"
    define out' where "out' = out @ (if started then delim else []) @ p"
    have all: "(if ignore then filter (\<lambda>p. p \<noteq> []) (p # ps) else p # ps) = p # qs" using False by (auto simp: qs_def)
    have split: "join delim (p # qs) = (if qs = [] then p else p @ delim @ join delim qs)" by (simp add: join_Cons)
    show ?thesis
    proof (cases "length out' \<le> 32767")
      case True
      then show ?thesis using False Cons.IH [of "(if started then n + length delim else n) + length p" out' True] Cons.prems
        unfolding text_join_loop.simps all Let_def split qs_def [symmetric]
        by (auto simp: push_limited_length out'_def)
    next
      case long: False
      then show ?thesis using False Cons.prems
        unfolding text_join_loop.simps all Let_def split
        by (auto simp: push_limited_length out'_def)
    qed
  qed
qed simp

section \<open>Criteria\<close>

lemma trim_blanks_twice: "trim_blanks (trim_blanks s) = trim_blanks s"
proof -
  define u where "u = dropWhile (\<lambda>c. c = 32) s"
  have front: "u = [] \<or> hd u \<noteq> 32" using hd_dropWhile [of "\<lambda>c. c = 32" s] by (auto simp: u_def simp del: dropWhile_eq_Nil_conv)
  define w where "w = trim_end_char 32 u"
  have w: "w = rev (dropWhile (\<lambda>c. c = 32) (rev u))" by (simp add: w_def trim_end_char_def)
  then obtain t where t: "u = w @ t" by (metis rev_append rev_rev_ident takeWhile_dropWhile_id)
  have "dropWhile (\<lambda>c. c = 32) w = w" using front t by (cases w) auto
  moreover have "trim_end_char 32 w = w" by (simp add: trim_end_char_def w)
  ultimately show ?thesis by (simp add: trim_blanks_def u_def [symmetric] w_def [symmetric])
qed

lemma criterion_trim: "criterion_op (trim_blanks s) = criterion_op s"
  by (simp add: criterion_op_def trim_blanks_twice)

text \<open>
  Criteria.  A criterion that compiles to a comparison with a number accepts the cells that the comparison accepts.
\<close>

theorem compiled_criterion:
  assumes "compile_criterion c = Some (op, Num target)"
  shows "criterion_holds cell c = Some (finite_number cell (\<lambda>x. number_matches x op target))"
  using assms criterion_trim
  by (cases c rule: compile_criterion.cases) (auto split: option.splits)

section \<open>Rounding to multiples\<close>

text \<open>\<open>MROUND\<close> answers the nearest multiple.\<close>

lemma mround_nearest:
  assumes "mround_excel (Num x) (Num y) = Some (Num z)"
  shows "(\<exists>k :: int. z = of_int k * y) \<and> \<bar>z - x\<bar> \<le> \<bar>y\<bar> / 2"
proof (cases "x = 0 \<or> y = 0")
  case True
  then have "z = 0" "x = 0" using assms by (auto split: if_splits)
  then show ?thesis by (intro conjI exI [of _ 0]) simp_all
next
  case False
  define k where "k = \<lfloor>\<bar>x / y\<bar> + 1 / 2\<rfloor>"
  have sgn: "sgn x = sgn y" and z: "z = of_int k * \<bar>y\<bar> * sgn x"
    using assms False by (auto simp: k_def round_steps_def split: if_splits)
  have y: "\<bar>y\<bar> * sgn x = y" by (simp add: sgn abs_mult_sgn)
  have x: "x = \<bar>x / y\<bar> * y"
  proof -
    have "x = \<bar>x\<bar> * sgn x" by (simp add: abs_mult_sgn)
    also have "\<dots> = \<bar>x / y\<bar> * (\<bar>y\<bar> * sgn x)" using False by (simp add: abs_divide)
    finally show ?thesis by (simp only: y)
  qed
  have zk: "z = of_int k * y" using z y by (simp only: mult.assoc)
  have "z - x = (of_int k - \<bar>x / y\<bar>) * y" using zk x by (metis left_diff_distrib)
  then have "\<bar>z - x\<bar> = \<bar>of_int k - \<bar>x / y\<bar>\<bar> * \<bar>y\<bar>" by (simp only: abs_mult)
  also have "\<dots> \<le> 1 / 2 * \<bar>y\<bar>"
  proof (rule mult_right_mono)
    show "\<bar>of_int k - \<bar>x / y\<bar>\<bar> \<le> 1 / 2" unfolding k_def by linarith
  qed simp
  finally have "\<bar>z - x\<bar> \<le> 1 / 2 * \<bar>y\<bar>" .
  then show ?thesis using zk by auto
qed

section \<open>Properties\<close>

text \<open>
  Substitution.  The text is cut at the occurrences of the old text, from the left: no piece contains it, and it is found
  nowhere before the end of a piece.  Without an instance every occurrence is replaced, with an instance \<open>n\<close> only the
  \<open>n\<close>-th, and the text is unchanged when there are fewer.
\<close>

theorem substitute_replaces:
  assumes "old \<noteq> []"
  shows "join old (pieces old s) = s
    \<and> (\<forall>p x y. (p \<in> set (pieces old s) \<longrightarrow> p \<noteq> x @ old @ y)
         \<and> (p \<in> set (butlast (pieces old s)) \<longrightarrow> p @ old = x @ old @ y \<longrightarrow> y = []))
    \<and> substitute_text s old new None = Some (join new (pieces old s))
    \<and> (0 < n \<and> n \<le> 32767 \<longrightarrow>
         substitute_text s old new (Some (Num (of_nat n))) =
           Some (if n < length (pieces old s)
                 then join old (take n (pieces old s)) @ new @ join old (drop n (pieces old s)) else s))"
proof -
  have "text_count (Num (of_nat n)) = Some n" if "n \<le> 32767"
  proof -
    have "(of_nat n :: rat) \<le> 32767" using that by (metis of_nat_le_iff of_nat_numeral)
    then show ?thesis by (simp add: trunc_def)
  qed
  then show ?thesis
    using assms join_pieces [OF assms] pieces_free [OF assms] pieces_leftmost [OF assms]
    by (auto simp: substitute_text_def replace_each_pieces replace_nth_pieces simp del: text_count.simps)
qed

lemma find_upt_Some:
  "List.find P [a..<b] = Some k \<longleftrightarrow> a \<le> k \<and> k < b \<and> P k \<and> (\<forall>j. a \<le> j \<and> j < k \<longrightarrow> \<not> P j)"
proof (induction "b - a" arbitrary: a)
  case (Suc n)
  then have "[a..<b] = a # [Suc a..<b]" by (simp add: upt_conv_Cons)
  then show ?case using Suc.hyps(1) [of "Suc a"] Suc.hyps(2)
    by (cases "P a") (auto simp: Suc_le_eq dest: le_neq_implies_less)
qed simp

lemma find_upt_None: "List.find P [a..<b] = None \<longleftrightarrow> (\<forall>k. a \<le> k \<and> k < b \<longrightarrow> \<not> P k)"
  by (auto simp: find_None_iff)

lemma text_start_nat: "0 < i \<Longrightarrow> i \<le> 32767 \<Longrightarrow> text_start (Num (of_nat i)) = Some (i - 1)"
proof -
  assume "0 < i" "i \<le> 32767"
  then have "(1 :: rat) \<le> of_nat i" "(of_nat i :: rat) \<le> 32767"
    by (simp, metis of_nat_le_iff of_nat_numeral)
  then show ?thesis by (simp add: trunc_def)
qed

text \<open>
  Search.  \<open>SEARCH\<close> answers the first position, from the start on, where a part of the text matches the pattern.
\<close>

theorem search_finds_first:
  assumes "pat \<noteq> []" "length pat \<le> 64" "length s \<le> 256" "0 < i" "i \<le> length s + 1"
  shows "search_wildcard s pat (Num (of_nat i)) = Some (Num (of_nat k)) \<longleftrightarrow>
      i \<le> k \<and> k \<le> length s + 1 \<and> begins pat (drop (k - 1) s) \<and> (\<forall>j. i \<le> j \<and> j < k \<longrightarrow> \<not> begins pat (drop (j - 1) s))"
    (is "?found \<longleftrightarrow> ?first")
proof -
  let ?P = "\<lambda>k. begins pat (drop k s)"
  have "search_wildcard s pat (Num (of_nat i))
      = map_option (\<lambda>k. Num (of_nat (k + 1))) (List.find ?P [i - 1..<Suc (length s)])"
    using assms by (simp add: search_wildcard_def text_start_nat wildcard_prefix_begins del: upt_Suc)
  then have "?found \<longleftrightarrow> (\<exists>l. k = l + 1 \<and> List.find ?P [i - 1..<Suc (length s)] = Some l)"
    by (auto simp del: upt_Suc of_nat_Suc of_nat_add)
  also have "\<dots> \<longleftrightarrow> (\<exists>l. k = l + 1 \<and> i - 1 \<le> l \<and> l < Suc (length s) \<and> ?P l \<and> (\<forall>j. i - 1 \<le> j \<and> j < l \<longrightarrow> \<not> ?P j))"
    by (simp only: find_upt_Some)
  also have "\<dots> \<longleftrightarrow> ?first"
  proof
    assume "\<exists>l. k = l + 1 \<and> i - 1 \<le> l \<and> l < Suc (length s) \<and> ?P l \<and> (\<forall>j. i - 1 \<le> j \<and> j < l \<longrightarrow> \<not> ?P j)"
    then obtain l where l: "k = l + 1" "i - 1 \<le> l" "l < Suc (length s)" "?P l" "\<forall>j. i - 1 \<le> j \<and> j < l \<longrightarrow> \<not> ?P j" by blast
    have "\<not> ?P (j - 1)" if "i \<le> j" "j < k" for j using l(1,5) that assms(4) by (metis One_nat_def Suc_pred add.commute
        diff_le_mono le_trans not_less_eq plus_1_eq_Suc less_le_trans)
    then show ?first using l assms(4) by auto
  next
    assume first: ?first
    have "\<not> ?P j" if "i - 1 \<le> j" "j < k - 1" for j using first that assms(4) by (auto dest: spec [of _ "Suc j"])
    then show "\<exists>l. k = l + 1 \<and> i - 1 \<le> l \<and> l < Suc (length s) \<and> ?P l \<and> (\<forall>j. i - 1 \<le> j \<and> j < l \<longrightarrow> \<not> ?P j)"
      using first assms(4) by (intro exI [of _ "k - 1"]) auto
  qed
  finally show ?thesis .
qed

text \<open>
  Trimming.  \<open>TRIM\<close> joins the non-empty pieces between the spaces with single spaces.
\<close>

theorem trim_leaves_words: "trim_spaces s = join [32] (filter (\<lambda>w. w \<noteq> []) (split_char 32 s))"
  by (simp add: trim_spaces_words words_of_def)

lemma roman_loop_capitals: "c \<in> set (roman_loop glyphs n) \<Longrightarrow> c \<in> {77, 68, 67, 76, 88, 86, 73}"
proof -
  have "(\<Union>(w, h) \<in> set glyphs. set h) \<subseteq> {77, 68, 67, 76, 88, 86, 73}" by (simp add: glyphs_def lit_def)
  then show "c \<in> set (roman_loop glyphs n) \<Longrightarrow> c \<in> {77, 68, 67, 76, 88, 86, 73}" using roman_loop_letters [of glyphs n] by blast
qed

lemma roman_loop_first:
  "0 < v \<Longrightarrow> length (roman_loop ((v, g) # gs) n) = n div v * length g + length (roman_loop gs (n mod v))"
proof (induction n rule: less_induct)
  case (less n)
  show ?case
  proof (cases "v \<le> n")
    case True
    then show ?thesis using less by (simp add: le_div_geq le_mod_geq)
  qed (use less in simp)
qed

text \<open>A decimal digit takes four letters at most.\<close>

lemma roman_loop_digit:
  assumes "0 < u" and "n < 10 * u" and len: "length a = 2" "length b = 1" "length c = 2" "length d = 1"
  shows "length (roman_loop ((9 * u, a) # (5 * u, b) # (4 * u, c) # (u, d) # gs) n) \<le> 4 + length (roman_loop gs (n mod u))"
proof -
  have units: "length (roman_loop ((u, d) # gs) m) \<le> 3 + length (roman_loop gs (m mod u))" if "m < 4 * u" for m
    using that assms(1) roman_loop_first [of u d gs m] len(4) less_mult_imp_div_less [of m 4 u] by simp
  have rem: "(n - k * u) mod u = n mod u" if "k * u \<le> n" for k
  proof -
    have "n mod u = (k * u + (n - k * u)) mod u" using that by simp
    also have "\<dots> = (n - k * u) mod u" by (rule mod_mult_self3)
    finally show ?thesis by simp
  qed
  consider "9 * u \<le> n" | "5 * u \<le> n" "n < 9 * u" | "4 * u \<le> n" "n < 5 * u" | "n < 4 * u" by linarith
  then show ?thesis
  proof cases
    case 1
    then have "n - 9 * u < u" "n mod u = (n - 9 * u) mod u" using assms(2) rem [of 9] by simp_all
    then show ?thesis using 1 assms(1) len(1) by simp
  next
    case 2
    then have "n - 5 * u < 4 * u" "n mod u = (n - 5 * u) mod u" using assms(2) rem [of 5] by simp_all
    then show ?thesis using 2 assms(1) len(2) units [of "n - 5 * u"] by simp
  next
    case 3
    then have "n - 4 * u < u" "n mod u = (n - 4 * u) mod u" using assms(2) rem [of 4] by simp_all
    then show ?thesis using 3 assms(1) len(3) by simp
  next
    case 4
    then show ?thesis using assms(1) units [of n] by simp
  qed
qed

lemma roman_loop_short:
  assumes "n < 4000"
  shows "length (roman_loop glyphs n) \<le> 15"
proof -
  let ?h = "n mod 1000"
  have g: "glyphs = (1000, lit ''M'') # (9 * 100, lit ''CM'') # (5 * 100, lit ''D'') # (4 * 100, lit ''CD'') # (100, lit ''C'')
    # (9 * 10, lit ''XC'') # (5 * 10, lit ''L'') # (4 * 10, lit ''XL'') # (10, lit ''X'')
    # (9 * 1, lit ''IX'') # (5 * 1, lit ''V'') # (4 * 1, lit ''IV'') # (1, lit ''I'') # []" by (simp add: glyphs_def)
  have len: "length (lit ''M'') = 1" "length (lit ''CM'') = 2" "length (lit ''D'') = 1" "length (lit ''CD'') = 2" "length (lit ''C'') = 1"
    "length (lit ''XC'') = 2" "length (lit ''L'') = 1" "length (lit ''XL'') = 2" "length (lit ''X'') = 1"
    "length (lit ''IX'') = 2" "length (lit ''V'') = 1" "length (lit ''IV'') = 2" "length (lit ''I'') = 1" by (simp_all add: lit_def)
  have "length (roman_loop glyphs n) = n div 1000 + length (roman_loop (tl glyphs) ?h)"
    unfolding g by (subst roman_loop_first) (simp, simp only: len list.sel mult_1_right)
  moreover have "n div 1000 \<le> 3" using assms less_mult_imp_div_less [of n 4 1000] by simp
  moreover have "length (roman_loop (tl glyphs) ?h) \<le> 12"
  proof -
    let ?ones = "(9 * 1, lit ''IX'') # (5 * 1, lit ''V'') # (4 * 1, lit ''IV'') # (1, lit ''I'') # []"
    let ?tens = "(9 * 10, lit ''XC'') # (5 * 10, lit ''L'') # (4 * 10, lit ''XL'') # (10, lit ''X'') # ?ones"
    have "length (roman_loop (tl glyphs) ?h) \<le> 4 + length (roman_loop ?tens (?h mod 100))"
      unfolding g list.sel by (rule roman_loop_digit; (rule len | simp))
    moreover have "length (roman_loop ?tens (?h mod 100)) \<le> 4 + length (roman_loop ?ones (?h mod 100 mod 10))"
      by (rule roman_loop_digit; (rule len | simp))
    moreover have "length (roman_loop ?ones (?h mod 100 mod 10)) \<le> 4 + length (roman_loop [] (?h mod 100 mod 10 mod 1))"
      by (rule roman_loop_digit; (rule len | simp))
    moreover have "length (roman_loop [] (?h mod 100 mod 10 mod 1)) = 0" by simp
    ultimately have "length (roman_loop (tl glyphs) ?h) \<le> 4 + (4 + (4 + 0))" by linarith
    then show ?thesis by simp
  qed
  ultimately show ?thesis by simp
qed

text \<open>
  Roman numerals.  \<open>ARABIC\<close> reads what \<open>ROMAN\<close> writes, in capital and in small letters.
\<close>

theorem arabic_reads_roman:
  assumes "roman_excel (Num x) = Some s"
  shows "arabic_excel s = Some (Num (of_int (trunc x))) \<and> arabic_excel (to_ascii_lowercase s) = Some (Num (of_int (trunc x)))"
proof -
  define n where "n = nat (trunc x)"
  have n: "1 \<le> n" "n < 4000" "of_int (trunc x) = (of_nat n :: rat)" "s = roman_loop glyphs n"
    using assms by (auto simp: n_def split: if_splits)
  have "n = 0" if "s = []" using read_roman_loop [OF readable_glyphs, of n] n(4) that by (simp add: glyphs_def lit_def)
  then have s: "s \<noteq> []" using n(1) by auto
  have caps: "\<forall>c \<in> set s. c \<in> {77, 68, 67, 76, 88, 86, 73}" using roman_loop_capitals n(4) by blast
  have roman: "roman_excel (Num (of_nat k)) = Some (roman_loop glyphs k)" if "1 \<le> k" "k < 4000" for k
    using that by (simp add: trunc_def)
  have find: "List.find (\<lambda>k. roman_excel (Num (of_nat k)) = Some s) [1..<4000] = Some n"
    using n roman roman_injective by (auto simp: find_upt_Some simp del: roman_excel.simps upt_Suc)
  have up: "to_upper s = s" "to_upper (to_ascii_lowercase s) = s"
    using caps by (auto simp: to_upper_def to_ascii_lowercase_def ascii_lower_def ascii_upper_def intro!: map_idI)
  have alpha: "list_all is_ascii_alphabetic s" "list_all is_ascii_alphabetic (to_ascii_lowercase s)"
    using caps by (auto simp: list_all_iff to_ascii_lowercase_def ascii_lower_def is_ascii_alphabetic_def)
  have short: "length s \<le> 15" using roman_loop_short n by simp
  show ?thesis using s up alpha short find n(3) by (simp add: arabic_excel_def to_ascii_lowercase_def del: upt_Suc)
qed

text \<open>
  Joins.  \<open>TEXTJOIN\<close> joins the texts, or those that are not empty, unless the result is longer than 32767 characters.
\<close>

theorem text_join_limited:
  "text_join delim ignore_empty ps =
    (let s = join delim (if ignore_empty then filter (\<lambda>p. p \<noteq> []) ps else ps) in if length s \<le> 32767 then Some s else None)"
  by (simp add: text_join_def text_join_loop_join Let_def)

lemma whole_arg_nat: "n < 10 ^ 15 \<Longrightarrow> whole_arg (Num (of_nat n)) = Some n"
proof -
  assume "n < 10 ^ 15"
  then have "(of_nat n :: rat) < 10 ^ 15" by (metis of_nat_less_iff of_nat_numeral of_nat_power)
  then show ?thesis by (simp add: trunc_def)
qed

lemma lcm_loop_Lcm:
  "acc \<noteq> 0 \<Longrightarrow> 0 \<notin> set ns \<Longrightarrow> Lcm (insert acc (set ns)) < 10 ^ 15 \<Longrightarrow>
    lcm_loop acc (map (\<lambda>n. Num (of_nat n)) ns) = Some (Lcm (insert acc (set ns)))"
proof (induction ns arbitrary: acc)
  case (Cons n ns)
  have all: "Lcm (insert acc (set (n # ns))) = Lcm (insert (lcm acc n) (set ns))" by (simp add: lcm.assoc)
  have pos: "0 < Lcm (insert acc (set (n # ns)))" 
    using Cons.prems by (simp add: neq0_conv [symmetric] lcm_eq_0_iff Lcm_0_iff del: neq0_conv)
  have below: "lcm acc n < 10 ^ 15" and n: "n < 10 ^ 15"
    using pos Cons.prems(3) all dvd_imp_le [OF dvd_Lcm] by (metis insertI1 le_less_trans, metis insert_iff le_less_trans list.set_intros(1) pos)
  have "acc div gcd_u64 acc n * n = lcm acc n" by (simp add: gcd_u64_gcd lcm_nat_def dvd_div_mult)
  then show ?case
    using Cons.IH [of "lcm acc n"] Cons.prems all below n whole_arg_nat [OF n] by (simp add: Let_def del: whole_arg.simps)
qed simp

text \<open>
  Divisors.  \<open>GCD\<close> is the greatest common divisor of whole numbers below 10^15, and \<open>LCM\<close> is the least common multiple
  when that is below 10^15 too.
\<close>

theorem gcd_and_lcm_exact:
  assumes "ns \<noteq> []" and "\<forall>n \<in> set ns. n < 10 ^ 15"
  shows "gcd_excel (map (\<lambda>n. Num (of_nat n)) ns) = Some (Num (of_nat (Gcd (set ns))))
    \<and> (0 \<notin> set ns \<longrightarrow> Lcm (set ns) < 10 ^ 15 \<longrightarrow>
         lcm_excel (map (\<lambda>n. Num (of_nat n)) ns) = Some (Num (of_nat (Lcm (set ns)))))"
proof -
  have "map whole_arg (map (\<lambda>n. Num (of_nat n)) ns) = map Some ns"
    "map (the \<circ> whole_arg) (map (\<lambda>n. Num (of_nat n)) ns) = ns"
    using assms(2) whole_arg_nat by (auto simp del: whole_arg.simps intro!: map_idI)
  then show ?thesis using assms(1) lcm_loop_Lcm [of 1 ns]
    by (auto simp: gcd_excel_def lcm_excel_def gcd_loop_Gcd simp del: list.map list.set_map)
qed

text \<open>The product of the common multiple wraps before it is compared with the limit.\<close>

lemma lcm_wraps: "lcm_excel [Num 184461906879890, Num 100003] = Some (Num 88054)"
  by (simp add: lcm_excel_def trunc_def gcd_u64.simps)

lemma shift_loses_bits: "bit_shift (Num (2 ^ 20)) (Num 47) False = Some (Num 0)"
  by code_simp

lemma not_equal_skips_texts:
  "criterion_holds (Some (TextValue (lit ''abc''))) (TextValue (lit ''<>5'')) = Some False"
  "criterion_holds (Some (NumValue (Num 5))) (TextValue (lit ''<>abc'')) = Some True"
  by code_simp+

section \<open>Samples\<close>

theorem substitute_replaces_witness:
  "substitute_text [97, 97, 97, 45, 97, 97] [97, 97] [120] (Some (Num 2)) = Some [97, 97, 97, 45, 120]"
proof -
  have "pieces [97, 97] [97, 97, 97, 45, 97, 97] = [[], [97, 45], []]"
    by (simp add: pieces.simps [of "[97, 97]"])
  then show ?thesis using substitute_replaces [of "[97, 97]" "[97, 97, 97, 45, 97, 97]" "[120]" 2] by simp
qed

theorem search_finds_first_witness: "search_wildcard (lit ''banana'') (lit ''?NA'') (Num 3) = Some (Num 4)"
proof -
  have "begins [63, 78, 65] (drop 3 [98, 97, 110, 97, 110, 97])" "\<not> begins [63, 78, 65] (drop 2 [98, 97, 110, 97, 110, 97])"
    by (simp_all add: begins_simps eq_ignore_case_def ascii_lower_def)
  moreover have "3 \<le> j \<and> j < 4 \<longleftrightarrow> j = 3" for j :: nat by linarith
  ultimately show ?thesis using search_finds_first [of "[63, 78, 65]" "[98, 97, 110, 97, 110, 97]" 3 4]
    by (simp add: lit_def)
qed

theorem arabic_reads_roman_witness: "arabic_excel (lit ''mcmxciv'') = Some (Num 1994)"
proof -
  have "roman_excel (Num 1994) = Some (lit ''MCMXCIV'')" by code_simp
  moreover have "to_ascii_lowercase (lit ''MCMXCIV'') = lit ''mcmxciv''" by code_simp
  ultimately show ?thesis using arabic_reads_roman [of 1994 "lit ''MCMXCIV''"] by (simp add: trunc_def)
qed

theorem gcd_and_lcm_exact_witness: "gcd_excel [Num 12, Num 18] = Some (Num 6) \<and> lcm_excel [Num 12, Num 18] = Some (Num 36)"
  using gcd_and_lcm_exact [of "[12, 18]"] by (simp add: lcm_nat_def gcd_non_0_nat)

theorem compiled_criterion_witness: "criterion_holds (Some (NumValue (Num 7))) (TextValue (lit ''>=5'')) = Some True"
proof -
  have "compile_criterion (TextValue (lit ''>=5'')) = Some (CrGe, Num 5)" by code_simp
  then show ?thesis using compiled_criterion [of "TextValue (lit ''>=5'')" CrGe 5 "Some (NumValue (Num 7))"]
    by (simp add: number_matches_def)
qed

end
