(* ===== verification/Input_Gesture.thy ===== *)
theory Input_Gesture
  imports Shortcut Complex_Main "HOL-Library.AList" "HOL-Library.Multiset"
begin

text \<open>
  Touch gestures (\<open>src/crates/orchid-core/src/input/\<close>: \<open>event.rs\<close>, \<open>gesture.rs\<close>, \<open>zone.rs\<close> and \<open>mapper.rs\<close>): the recognizer
  as a step relation, the screen zones, and the bindings from gestures and shortcuts to commands.  Coordinates are a type
  parameter with the operations of \<open>f32\<close> (\<open>gest_ops\<close>); instants are nanoseconds.  The order in which the hash map of the
  pointers is walked is an argument.
\<close>

section \<open>Events\<close>

record 'f gest_ops =
  go_lit :: "rat \<Rightarrow> 'f"
  go_add :: "'f \<Rightarrow> 'f \<Rightarrow> 'f"
  go_sub :: "'f \<Rightarrow> 'f \<Rightarrow> 'f"
  go_mul :: "'f \<Rightarrow> 'f \<Rightarrow> 'f"
  go_div :: "'f \<Rightarrow> 'f \<Rightarrow> 'f"
  go_abs :: "'f \<Rightarrow> 'f"
  go_max :: "'f \<Rightarrow> 'f \<Rightarrow> 'f"
  go_sqrt :: "'f \<Rightarrow> 'f"
  go_atan2 :: "'f \<Rightarrow> 'f \<Rightarrow> 'f"
  go_le :: "'f \<Rightarrow> 'f \<Rightarrow> bool"
  go_lt :: "'f \<Rightarrow> 'f \<Rightarrow> bool"

record 'f Point =
  px :: 'f
  py :: 'f

definition distance_to :: "'f gest_ops \<Rightarrow> 'f Point \<Rightarrow> 'f Point \<Rightarrow> 'f" where
  "distance_to N p q =
    (let dx = go_sub N (px p) (px q); dy = go_sub N (py p) (py q)
     in go_sqrt N (go_add N (go_mul N dx dx) (go_mul N dy dy)))"

datatype TouchPhase = TouchBegan | TouchMoved | TouchEnded | TouchCancelled

record 'f TouchEvent =
  pointer_id :: u32
  te_phase :: TouchPhase
  te_position :: "'f Point"
  te_pressure :: 'f
  te_size :: 'f
  te_timestamp :: nat

datatype MouseButton = MbLeft | MbRight | MbMiddle | MbX1 | MbX2

datatype 'f MouseEventKind = MouseMoved | MousePressed MouseButton | MouseReleased MouseButton | MouseScroll 'f 'f

record 'f MouseEvent =
  me_position :: "'f Point"
  me_buttons :: u8
  me_kind :: "'f MouseEventKind"
  me_timestamp :: nat

datatype KeyEventKind = KeyPressed | KeyReleased

record KeyboardEvent =
  ke_key :: Key
  ke_modifiers :: Modifiers
  ke_kind :: KeyEventKind
  ke_repeat :: bool
  ke_timestamp :: nat

record 'f PenEvent =
  pe_position :: "'f Point"
  pe_pressure :: 'f
  pe_tilt_x :: 'f
  pe_tilt_y :: 'f
  pe_phase :: TouchPhase
  pe_barrel :: bool
  pe_eraser :: bool
  pe_timestamp :: nat

datatype 'f InputEvent =
  TouchInput "'f TouchEvent" | MouseInput "'f MouseEvent" | KeyboardInput KeyboardEvent | PenInput "'f PenEvent"

section \<open>Zones\<close>

datatype ScreenZone = Hot | Warm | Neutral | Cold

record 'f ScreenBounds =
  sb_width :: 'f
  sb_height :: 'f

definition classify :: "'f gest_ops \<Rightarrow> 'f Point \<Rightarrow> 'f ScreenBounds \<Rightarrow> ScreenZone" where
  "classify N p b =
    (let zero = go_lit N 0
     in if go_le N (sb_width b) zero \<or> go_le N (sb_height b) zero then Neutral
        else if go_lt N (px p) zero \<or> go_lt N (sb_width b) (px p) \<or> go_lt N (py p) zero \<or> go_lt N (sb_height b) (py p)
        then Neutral
        else (let nx = go_div N (px p) (sb_width b); ny = go_div N (py p) (sb_height b)
          in if go_le N ny (go_lit N (20 / 100))
             then (if go_le N nx (go_lit N (20 / 100)) \<or> go_le N (go_lit N (80 / 100)) nx then Cold else Neutral)
             else if go_le N (go_lit N (70 / 100)) ny
             then (if go_le N (go_lit N (30 / 100)) nx \<and> go_le N nx (go_lit N (70 / 100)) then Hot else Warm)
             else Neutral))"

section \<open>Recognizer\<close>

datatype SwipeDirection = SwipeUp | SwipeDown | SwipeLeft | SwipeRight

datatype Edge = EdgeTop | EdgeBottom | EdgeLeft | EdgeRight

datatype 'f RecognizedGesture =
    Tap "'f Point" nat
  | DoubleTap "'f Point"
  | LongPress "'f Point" nat
  | Swipe "'f Point" "'f Point" SwipeDirection 'f nat
  | EdgeSwipe Edge 'f nat
  | Pinch "'f Point" 'f
  | Rotate "'f Point" 'f
  | Pan "'f Point" "'f Point" nat

record 'f GestureConfig =
  long_press_ms :: nat
  double_tap_window_ms :: nat
  swipe_min_distance_px :: 'f
  swipe_min_velocity :: 'f
  edge_threshold_px :: 'f
  pinch_min_scale_delta :: 'f
  rotate_min_radians :: 'f

definition gesture_defaults :: "'f gest_ops \<Rightarrow> 'f GestureConfig" where
  "gesture_defaults N = \<lparr>long_press_ms = 500, double_tap_window_ms = 300, swipe_min_distance_px = go_lit N 40,
    swipe_min_velocity = go_lit N (1 / 2), edge_threshold_px = go_lit N 24, pinch_min_scale_delta = go_lit N (5 / 100),
    rotate_min_radians = go_lit N (1 / 10)\<rparr>"

definition TAP_MAX_MOVEMENT_PX :: rat where "TAP_MAX_MOVEMENT_PX = 8"
definition TAP_MAX_DURATION_MS :: nat where "TAP_MAX_DURATION_MS = 250"

record 'f PointerState =
  began_at :: nat
  began_position :: "'f Point"
  last_position :: "'f Point"
  long_press_emitted :: bool

record 'f PairBaseline =
  initial_distance :: 'f
  initial_angle :: 'f

record 'f GestureRecognizer =
  gr_config :: "'f GestureConfig"
  gr_bounds :: "'f ScreenBounds"
  pointers :: "(u32 \<times> 'f PointerState) list"
  last_tap :: "(nat \<times> 'f Point) option"
  pair_baseline :: "'f PairBaseline option"

type_synonym 'f map_order = "(u32 \<times> 'f PointerState) list \<Rightarrow> (u32 \<times> 'f PointerState) list"

text \<open>Milliseconds of the time between two instants, in 32 bits.\<close>

definition millis :: "nat \<Rightarrow> nat" where
  "millis ns = ns * 1000000"

definition duration_ms :: "nat \<Rightarrow> nat \<Rightarrow> nat" where
  "duration_ms late early = (late - early) div 1000000 mod 2 ^ 32"

definition recognizer_new :: "'f GestureConfig \<Rightarrow> 'f ScreenBounds \<Rightarrow> 'f GestureRecognizer" where
  "recognizer_new config bounds =
    \<lparr>gr_config = config, gr_bounds = bounds, pointers = [], last_tap = None, pair_baseline = None\<rparr>"

definition set_bounds :: "'f ScreenBounds \<Rightarrow> 'f GestureRecognizer \<Rightarrow> 'f GestureRecognizer" where
  "set_bounds b r = r\<lparr>gr_bounds := b\<rparr>"

definition set_config :: "'f GestureConfig \<Rightarrow> 'f GestureRecognizer \<Rightarrow> 'f GestureRecognizer" where
  "set_config c r = r\<lparr>gr_config := c\<rparr>"

definition gesture_reset :: "'f GestureRecognizer \<Rightarrow> 'f GestureRecognizer" where
  "gesture_reset r = r\<lparr>pointers := [], last_tap := None, pair_baseline := None\<rparr>"

definition edge_near :: "'f gest_ops \<Rightarrow> 'f Point \<Rightarrow> 'f ScreenBounds \<Rightarrow> 'f \<Rightarrow> Edge option" where
  "edge_near N p b threshold =
    (if go_le N (px p) threshold then Some EdgeLeft
     else if go_le N (go_sub N (sb_width b) threshold) (px p) then Some EdgeRight
     else if go_le N (py p) threshold then Some EdgeTop
     else if go_le N (go_sub N (sb_height b) threshold) (py p) then Some EdgeBottom
     else None)"

fun inward_distance :: "'f gest_ops \<Rightarrow> 'f Point \<Rightarrow> 'f Point \<Rightarrow> Edge \<Rightarrow> 'f" where
  "inward_distance N p q EdgeLeft = go_max N (go_sub N (px q) (px p)) (go_lit N 0)"
| "inward_distance N p q EdgeRight = go_max N (go_sub N (px p) (px q)) (go_lit N 0)"
| "inward_distance N p q EdgeTop = go_max N (go_sub N (py q) (py p)) (go_lit N 0)"
| "inward_distance N p q EdgeBottom = go_max N (go_sub N (py p) (py q)) (go_lit N 0)"

definition primary_direction :: "'f gest_ops \<Rightarrow> 'f Point \<Rightarrow> 'f Point \<Rightarrow> SwipeDirection" where
  "primary_direction N p q =
    (let dx = go_sub N (px q) (px p); dy = go_sub N (py q) (py p)
     in if go_le N (go_abs N dy) (go_abs N dx)
        then (if go_le N (go_lit N 0) dx then SwipeRight else SwipeLeft)
        else if go_le N (go_lit N 0) dy then SwipeDown else SwipeUp)"

definition pair_angle :: "'f gest_ops \<Rightarrow> 'f Point \<Rightarrow> 'f Point \<Rightarrow> 'f" where
  "pair_angle N p q = go_atan2 N (go_sub N (py q) (py p)) (go_sub N (px q) (px p))"

text \<open>The positions of the pointers in the order of the map; the first two are there when the code asks.\<close>

definition current_pair_baseline :: "'f gest_ops \<Rightarrow> 'f map_order \<Rightarrow> 'f GestureRecognizer \<Rightarrow> 'f PairBaseline option" where
  "current_pair_baseline N ord r =
    (case map (last_position \<circ> snd) (ord (pointers r)) of
       p # q # _ \<Rightarrow> Some \<lparr>initial_distance = distance_to N p q, initial_angle = pair_angle N p q\<rparr>
     | _ \<Rightarrow> None)"

definition detect_pinch_rotate ::
  "'f gest_ops \<Rightarrow> 'f map_order \<Rightarrow> 'f GestureRecognizer \<Rightarrow> 'f PairBaseline \<Rightarrow> 'f RecognizedGesture option" where
  "detect_pinch_rotate N ord r baseline =
    (case map (last_position \<circ> snd) (ord (pointers r)) of
       [p, q] \<Rightarrow>
         let scale = (if go_le N (initial_distance baseline) (go_lit N (1 / 2 ^ 23)) then go_lit N 1
                      else go_div N (distance_to N p q) (initial_distance baseline));
             center = \<lparr>px = go_mul N (go_add N (px p) (px q)) (go_lit N (1 / 2)),
                       py = go_mul N (go_add N (py p) (py q)) (go_lit N (1 / 2))\<rparr>;
             delta = go_sub N (pair_angle N p q) (initial_angle baseline)
         in if go_le N (pinch_min_scale_delta (gr_config r)) (go_abs N (go_sub N scale (go_lit N 1)))
            then Some (Pinch center scale)
            else if go_le N (rotate_min_radians (gr_config r)) (go_abs N delta) then Some (Rotate center delta)
            else None
     | _ \<Rightarrow> None)"

text \<open>A release after a movement.\<close>

definition release_stroke ::
  "'f gest_ops \<Rightarrow> 'f PointerState \<Rightarrow> 'f TouchEvent \<Rightarrow> 'f GestureRecognizer \<Rightarrow> 'f RecognizedGesture list"
where
  "release_stroke N s t r =
    (let duration = duration_ms (te_timestamp t) (began_at s);
         distance = distance_to N (began_position s) (te_position t);
         pointer_count = (length (pointers r) + 1) mod 256;
         cfg = gr_config r;
         velocity = (if duration = 0 then go_lit N 0 else go_div N distance (go_lit N (of_nat duration)));
         flick = (if go_le N (swipe_min_distance_px cfg) distance \<and> go_le N (swipe_min_velocity cfg) velocity
                  then [Swipe (began_position s) (te_position t)
                          (primary_direction N (began_position s) (te_position t)) velocity pointer_count]
                  else if go_lt N (go_lit N TAP_MAX_MOVEMENT_PX) distance
                  then [Pan (began_position s) (te_position t) pointer_count] else [])
     in case edge_near N (began_position s) (gr_bounds r) (edge_threshold_px cfg) of
          Some e \<Rightarrow>
            if go_le N (edge_threshold_px cfg) (inward_distance N (began_position s) (te_position t) e)
               \<and> go_le N (swipe_min_distance_px cfg) distance
            then [EdgeSwipe e distance pointer_count] else flick
        | None \<Rightarrow> flick)"

text \<open>What a release means, when the released pointer is no longer in the map.\<close>

definition finish_pointer ::
  "'f gest_ops \<Rightarrow> 'f PointerState \<Rightarrow> 'f TouchEvent \<Rightarrow> 'f GestureRecognizer \<Rightarrow> 'f GestureRecognizer \<times> 'f RecognizedGesture list"
where
  "finish_pointer N s t r =
    (let duration = duration_ms (te_timestamp t) (began_at s);
         distance = distance_to N (began_position s) (te_position t);
         single = (r\<lparr>last_tap := Some (te_timestamp t, te_position t)\<rparr>,
                   [Tap (te_position t) ((length (pointers r) + 1) mod 256)])
     in if go_le N distance (go_lit N TAP_MAX_MOVEMENT_PX) \<and> duration \<le> TAP_MAX_DURATION_MS \<and> \<not> long_press_emitted s
        then (case last_tap r of
                Some (ts, p) \<Rightarrow>
                  if te_timestamp t - ts \<le> millis (double_tap_window_ms (gr_config r))
                     \<and> go_le N (distance_to N p (te_position t)) (go_mul N (go_lit N TAP_MAX_MOVEMENT_PX) (go_lit N 2))
                  then (r\<lparr>last_tap := None\<rparr>, [DoubleTap (te_position t)])
                  else single
              | None \<Rightarrow> single)
        else (r, release_stroke N s t r))"

definition feed_touch ::
  "'f gest_ops \<Rightarrow> 'f map_order \<Rightarrow> 'f TouchEvent \<Rightarrow> 'f GestureRecognizer \<Rightarrow> 'f GestureRecognizer \<times> 'f RecognizedGesture list"
where
  "feed_touch N ord t r =
    (case te_phase t of
       TouchBegan \<Rightarrow>
         (let r = r\<lparr>pointers := AList.update (pointer_id t)
                \<lparr>began_at = te_timestamp t, began_position = te_position t, last_position = te_position t,
                  long_press_emitted = False\<rparr> (pointers r)\<rparr>
          in (if length (pointers r) = 2 then r\<lparr>pair_baseline := current_pair_baseline N ord r\<rparr> else r, []))
     | TouchMoved \<Rightarrow>
         (let r = r\<lparr>pointers := AList.map_entry (pointer_id t) (\<lambda>s. s\<lparr>last_position := te_position t\<rparr>) (pointers r)\<rparr>
          in (r, if length (pointers r) = 2
                 then (case pair_baseline r of
                         Some b \<Rightarrow> (case detect_pinch_rotate N ord r b of Some g \<Rightarrow> [g] | None \<Rightarrow> [])
                       | None \<Rightarrow> [])
                 else []))
     | _ \<Rightarrow>
         (let (r, out) =
            (case map_of (pointers r) (pointer_id t) of
               None \<Rightarrow> (r, [])
             | Some s \<Rightarrow>
                 let r = r\<lparr>pointers := AList.delete (pointer_id t) (pointers r)\<rparr>
                 in if te_phase t = TouchEnded then finish_pointer N s t r else (r, []))
          in (if length (pointers r) \<noteq> 2 then r\<lparr>pair_baseline := None\<rparr> else r, out)))"

text \<open>A pen is a touch with a reserved identifier.\<close>

definition pen_touch :: "'f gest_ops \<Rightarrow> 'f PenEvent \<Rightarrow> 'f TouchEvent" where
  "pen_touch N p = \<lparr>pointer_id = - 1, te_phase = pe_phase p, te_position = pe_position p, te_pressure = pe_pressure p,
    te_size = go_lit N 1, te_timestamp = pe_timestamp p\<rparr>"

definition feed_pen ::
  "'f gest_ops \<Rightarrow> 'f map_order \<Rightarrow> 'f PenEvent \<Rightarrow> 'f GestureRecognizer \<Rightarrow> 'f GestureRecognizer \<times> 'f RecognizedGesture list"
where
  "feed_pen N ord p r = feed_touch N ord (pen_touch N p) r"

fun feed ::
  "'f gest_ops \<Rightarrow> 'f map_order \<Rightarrow> 'f InputEvent \<Rightarrow> 'f GestureRecognizer \<Rightarrow> 'f GestureRecognizer \<times> 'f RecognizedGesture list"
where
  "feed N ord (TouchInput t) r = feed_touch N ord t r"
| "feed N ord (PenInput p) r = feed_pen N ord p r"
| "feed N ord _ r = (r, [])"

definition held_still :: "'f gest_ops \<Rightarrow> nat \<Rightarrow> 'f GestureRecognizer \<Rightarrow> 'f PointerState \<Rightarrow> bool" where
  "held_still N now r s \<longleftrightarrow> \<not> long_press_emitted s \<and> millis (long_press_ms (gr_config r)) \<le> now - began_at s
    \<and> go_le N (distance_to N (began_position s) (last_position s)) (go_lit N TAP_MAX_MOVEMENT_PX)"

definition tick ::
  "'f gest_ops \<Rightarrow> 'f map_order \<Rightarrow> nat \<Rightarrow> 'f GestureRecognizer \<Rightarrow> 'f GestureRecognizer \<times> 'f RecognizedGesture list" where
  "tick N ord now r =
    (r\<lparr>pointers := map (\<lambda>(i, s). (i, if held_still N now r s then s\<lparr>long_press_emitted := True\<rparr> else s)) (pointers r)\<rparr>,
     map (\<lambda>(i, s). LongPress (began_position s) (long_press_ms (gr_config r)))
       (filter (\<lambda>(i, s). held_still N now r s) (ord (pointers r))))"

section \<open>Bindings\<close>

datatype GesturePattern =
    EdgeSwipePattern Edge nat
  | MultiTouchSwipe SwipeDirection nat
  | LongPressInZone ScreenZone
  | DoubleTapInZone ScreenZone

record InputBindings =
  gesture_bindings :: "(GesturePattern \<times> ustring) list"
  shortcut_bindings :: "(Shortcut \<times> ustring) list"

fun pattern_matches :: "'f gest_ops \<Rightarrow> GesturePattern \<Rightarrow> 'f RecognizedGesture \<Rightarrow> 'f ScreenBounds \<Rightarrow> bool" where
  "pattern_matches N (EdgeSwipePattern pe pc) (EdgeSwipe e d n) b \<longleftrightarrow> pe = e \<and> pc = n"
| "pattern_matches N (MultiTouchSwipe pd pc) (Swipe p q d v n) b \<longleftrightarrow> pd = d \<and> pc = n"
| "pattern_matches N (LongPressInZone z) (LongPress p ms) b \<longleftrightarrow> classify N p b = z"
| "pattern_matches N (DoubleTapInZone z) (DoubleTap p) b \<longleftrightarrow> classify N p b = z"
| "pattern_matches N _ _ b \<longleftrightarrow> False"

definition resolve_gesture :: "'f gest_ops \<Rightarrow> InputBindings \<Rightarrow> 'f RecognizedGesture \<Rightarrow> 'f ScreenBounds \<Rightarrow> ustring option" where
  "resolve_gesture N m g b = map_option snd (List.find (\<lambda>(p, cmd). pattern_matches N p g b) (gesture_bindings m))"

definition resolve_shortcut :: "InputBindings \<Rightarrow> Shortcut \<Rightarrow> ustring option" where
  "resolve_shortcut m s = map_option snd (List.find (\<lambda>(t, cmd). t = s) (shortcut_bindings m))"

definition default_bindings_mirrored :: "bool \<Rightarrow> InputBindings" where
  "default_bindings_mirrored swap_left_right =
    (let center = lit ''notification.show_center''; panel = lit ''navigation.show_workspace_panel'';
         (left_cmd, right_cmd) = (if swap_left_right then (center, panel) else (panel, center))
     in \<lparr>gesture_bindings =
          [(EdgeSwipePattern EdgeLeft 1, left_cmd), (EdgeSwipePattern EdgeRight 1, right_cmd),
           (EdgeSwipePattern EdgeBottom 1, lit ''dock.show''), (EdgeSwipePattern EdgeTop 1, lit ''search.show_universal''),
           (MultiTouchSwipe SwipeUp 3, lit ''widget.show_all''),
           (MultiTouchSwipe SwipeLeft 4, lit ''workspace.switch_previous''),
           (MultiTouchSwipe SwipeRight 4, lit ''workspace.switch_next'')],
         shortcut_bindings = []\<rparr>)"

definition default_bindings :: InputBindings where
  "default_bindings = default_bindings_mirrored False"

definition edge_panels_mirrored :: "bool \<Rightarrow> bool \<Rightarrow> bool" where
  "edge_panels_mirrored is_rtl swap_edges \<longleftrightarrow> is_rtl \<noteq> swap_edges"

section \<open>Runs\<close>

datatype 'f Stimulus =
  Fed "'f InputEvent" | Ticked nat | ResetAll | Configured "'f GestureConfig" | Resized "'f ScreenBounds"

definition orders :: "'f map_order \<Rightarrow> bool" where
  "orders ord \<longleftrightarrow> (\<forall>ps. mset (ord ps) = mset ps)"

text \<open>The reachable states, with what was fed and what was recognized; each step may walk the map in another order.\<close>

inductive recognised ::
  "'f gest_ops \<Rightarrow> 'f GestureRecognizer \<Rightarrow> 'f Stimulus list \<Rightarrow> 'f RecognizedGesture list \<Rightarrow> bool" for N
where
  run_start: "recognised N (recognizer_new cfg b) [] []"
| run_feed: "recognised N r fed out \<Longrightarrow> orders ord \<Longrightarrow> feed N ord e r = (r', gs) \<Longrightarrow> recognised N r' (fed @ [Fed e]) (out @ gs)"
| run_tick: "recognised N r fed out \<Longrightarrow> orders ord \<Longrightarrow> tick N ord now r = (r', gs) \<Longrightarrow>
    recognised N r' (fed @ [Ticked now]) (out @ gs)"
| run_reset: "recognised N r fed out \<Longrightarrow> recognised N (gesture_reset r) (fed @ [ResetAll]) out"
| run_config: "recognised N r fed out \<Longrightarrow> recognised N (set_config c r) (fed @ [Configured c]) out"
| run_bounds: "recognised N r fed out \<Longrightarrow> recognised N (set_bounds b r) (fed @ [Resized b]) out"

fun touch_of :: "'f gest_ops \<Rightarrow> 'f InputEvent \<Rightarrow> 'f TouchEvent option" where
  "touch_of N (TouchInput t) = Some t"
| "touch_of N (PenInput p) = Some (pen_touch N p)"
| "touch_of N _ = None"

lemma feed_touch_of:
  "feed N ord e r = (case touch_of N e of Some t \<Rightarrow> feed_touch N ord t r | None \<Rightarrow> (r, []))"
  by (cases e) (simp_all add: feed_pen_def)

text \<open>The pointers that are down: pressed, and neither released nor forgotten since.\<close>

fun down_after :: "'f gest_ops \<Rightarrow> u32 set \<Rightarrow> 'f Stimulus \<Rightarrow> u32 set" where
  "down_after N D (Fed e) =
    (case touch_of N e of
       None \<Rightarrow> D
     | Some t \<Rightarrow>
       (case te_phase t of
          TouchBegan \<Rightarrow> insert (pointer_id t) D
        | TouchMoved \<Rightarrow> D
        | _ \<Rightarrow> D - {pointer_id t}))"
| "down_after N D ResetAll = {}"
| "down_after N D _ = D"

definition pointers_down :: "'f gest_ops \<Rightarrow> 'f Stimulus list \<Rightarrow> u32 set" where
  "pointers_down N fed = foldl (down_after N) {} fed"

definition recognizer_ok :: "'f GestureRecognizer \<Rightarrow> bool" where
  "recognizer_ok r \<longleftrightarrow> distinct (map fst (pointers r)) \<and> (pair_baseline r \<noteq> None \<longrightarrow> 2 \<le> length (pointers r))"

lemma keys_map_entry: "map fst (AList.map_entry k f xs) = map fst xs" "length (AList.map_entry k f xs) = length xs"
  by (induction xs) auto

lemma length_update: "length xs \<le> length (AList.update k v xs)"
  by (induction xs) auto

lemma finish_pointer_keeps:
  "finish_pointer N s t r = (r', gs) \<Longrightarrow> pointers r' = pointers r \<and> pair_baseline r' = pair_baseline r"
  by (auto simp: finish_pointer_def Let_def split: if_splits option.splits prod.splits)

text \<open>The three phases.\<close>

lemma feed_began:
  assumes "te_phase t = TouchBegan" and "feed_touch N ord t r = (r', gs)"
  shows "gs = [] \<and> last_tap r' = last_tap r \<and> (pair_baseline r' = pair_baseline r \<or> length (pointers r') = 2)
    \<and> (\<exists>s. \<not> long_press_emitted s \<and> pointers r' = AList.update (pointer_id t) s (pointers r))"
proof -
  let ?s = "\<lparr>began_at = te_timestamp t, began_position = te_position t, last_position = te_position t, long_press_emitted = False\<rparr>"
  have "\<not> long_press_emitted ?s" "pointers r' = AList.update (pointer_id t) ?s (pointers r)"
    using assms by (auto simp: feed_touch_def Let_def split: if_splits)
  moreover have "gs = [] \<and> last_tap r' = last_tap r \<and> (pair_baseline r' = pair_baseline r \<or> length (pointers r') = 2)"
    using assms by (auto simp: feed_touch_def Let_def split: if_splits)
  ultimately show ?thesis by blast
qed

lemma feed_moved:
  assumes "te_phase t = TouchMoved" and "feed_touch N ord t r = (r', gs)"
  shows "length gs \<le> 1 \<and> (\<forall>g \<in> set gs. \<exists>c x. g = Pinch c x \<or> g = Rotate c x) \<and> last_tap r' = last_tap r
    \<and> pair_baseline r' = pair_baseline r
    \<and> pointers r' = AList.map_entry (pointer_id t) (\<lambda>s. s\<lparr>last_position := te_position t\<rparr>) (pointers r)"
  using assms by (auto simp: feed_touch_def detect_pinch_rotate_def Let_def split: if_splits option.splits list.splits)

lemma feed_end_unknown:
  assumes "te_phase t = TouchEnded \<or> te_phase t = TouchCancelled" and "map_of (pointers r) (pointer_id t) = None"
    and "feed_touch N ord t r = (r', gs)"
  shows "gs = [] \<and> last_tap r' = last_tap r \<and> pointers r' = pointers r
    \<and> (pair_baseline r' \<noteq> None \<longrightarrow> length (pointers r') = 2)"
  using assms by (auto simp: feed_touch_def Let_def split: if_splits)

lemma feed_cancelled:
  assumes "te_phase t = TouchCancelled" and "map_of (pointers r) (pointer_id t) = Some s"
    and "feed_touch N ord t r = (r', gs)"
  shows "gs = [] \<and> last_tap r' = last_tap r \<and> pointers r' = AList.delete (pointer_id t) (pointers r)
    \<and> (pair_baseline r' \<noteq> None \<longrightarrow> length (pointers r') = 2)"
  using assms by (auto simp: feed_touch_def Let_def split: if_splits)

lemma feed_ended:
  assumes "te_phase t = TouchEnded" and "map_of (pointers r) (pointer_id t) = Some s"
    and "feed_touch N ord t r = (r', gs)"
  obtains q where "finish_pointer N s t (r\<lparr>pointers := AList.delete (pointer_id t) (pointers r)\<rparr>) = (q, gs)"
    and "last_tap r' = last_tap q" and "pointers r' = AList.delete (pointer_id t) (pointers r)"
    and "pair_baseline r' \<noteq> None \<longrightarrow> length (pointers r') = 2"
proof -
  obtain q where q: "finish_pointer N s t (r\<lparr>pointers := AList.delete (pointer_id t) (pointers r)\<rparr>) = (q, gs)"
    "r' = (if length (pointers q) \<noteq> 2 then q\<lparr>pair_baseline := None\<rparr> else q)"
    using assms by (auto simp: feed_touch_def Let_def split: prod.splits if_splits)
  show thesis by (rule that [OF q(1)]) (use q(2) finish_pointer_keeps [OF q(1)] in \<open>auto split: if_splits\<close>)
qed

lemma feed_touch_keys:
  assumes "feed_touch N ord t r = (r', gs)" and "recognizer_ok r"
  shows "set (map fst (pointers r')) = down_after N (set (map fst (pointers r))) (Fed (TouchInput t)) \<and> recognizer_ok r'"
proof -
  have d: "distinct (map fst (pointers r))" and b: "pair_baseline r \<noteq> None \<longrightarrow> 2 \<le> length (pointers r)"
    using assms(2) by (auto simp: recognizer_ok_def)
  show ?thesis
  proof (cases "te_phase t")
    case TouchBegan
    obtain s where "pointers r' = AList.update (pointer_id t) s (pointers r)"
      "pair_baseline r' = pair_baseline r \<or> length (pointers r') = 2"
      using feed_began [OF TouchBegan assms(1)] by blast
    then show ?thesis using TouchBegan d b length_update [of "pointers r" "pointer_id t" s]
      by (auto simp: recognizer_ok_def dom_update intro: distinct_update)
  next
    case TouchMoved
    then show ?thesis using feed_moved [OF TouchMoved assms(1)] d b
      by (auto simp: recognizer_ok_def keys_map_entry dom_map_entry)
  next
    case TouchEnded
    show ?thesis
    proof (cases "map_of (pointers r) (pointer_id t)")
      case None
      then show ?thesis using feed_end_unknown [OF _ None assms(1)] TouchEnded d
        by (auto simp: recognizer_ok_def map_of_eq_None_iff)
    next
      case (Some s)
      obtain q :: "'a GestureRecognizer" where "pointers r' = AList.delete (pointer_id t) (pointers r)"
        "pair_baseline r' \<noteq> None \<longrightarrow> length (pointers r') = 2"
        using feed_ended [OF TouchEnded Some assms(1)] by blast
      then show ?thesis using TouchEnded d by (auto simp: recognizer_ok_def AList.delete_keys distinct_removeAll)
    qed
  next
    case TouchCancelled
    show ?thesis
    proof (cases "map_of (pointers r) (pointer_id t)")
      case None
      then show ?thesis using feed_end_unknown [OF _ None assms(1)] TouchCancelled d
        by (auto simp: recognizer_ok_def map_of_eq_None_iff)
    next
      case (Some s)
      then show ?thesis using feed_cancelled [OF TouchCancelled Some assms(1)] TouchCancelled d
        by (auto simp: recognizer_ok_def AList.delete_keys distinct_removeAll)
    qed
  qed
qed

lemma keys_of_values: "map fst (map (\<lambda>(i, s). (i, f s)) xs) = map fst xs"
  by (induction xs) auto

lemma tick_keys:
  assumes "tick N ord now r = (r', gs)" and "recognizer_ok r"
  shows "map fst (pointers r') = map fst (pointers r) \<and> recognizer_ok r'"
proof -
  have p: "map fst (pointers r') = map fst (pointers r)" and b: "pair_baseline r' = pair_baseline r"
    using assms(1) by (simp_all add: tick_def keys_of_values del: map_map flip: prod.inject) (auto simp: keys_of_values simp del: map_map)
  then have "length (pointers r') = length (pointers r)" by (metis length_map)
  then show ?thesis using p b assms(2) by (simp add: recognizer_ok_def)
qed

section \<open>Accounts\<close>

fun is_press :: "'f RecognizedGesture \<Rightarrow> bool" where
  "is_press (Tap _ _) = True" | "is_press (DoubleTap _) = True" | "is_press (LongPress _ _) = True" | "is_press _ = False"

fun is_tap :: "'f RecognizedGesture \<Rightarrow> bool" where
  "is_tap (Tap _ _) = True" | "is_tap _ = False"

fun is_double :: "'f RecognizedGesture \<Rightarrow> bool" where
  "is_double (DoubleTap _) = True" | "is_double _ = False"

fun is_stroke :: "'f RecognizedGesture \<Rightarrow> bool" where
  "is_stroke (Swipe _ _ _ _ _) = True" | "is_stroke (EdgeSwipe _ _ _) = True" | "is_stroke (Pan _ _ _) = True" | "is_stroke _ = False"

abbreviation tally :: "('a \<Rightarrow> bool) \<Rightarrow> 'a list \<Rightarrow> nat" where
  "tally P xs \<equiv> length (filter P xs)"

fun stimulus_phase :: "'f gest_ops \<Rightarrow> TouchPhase \<Rightarrow> 'f Stimulus \<Rightarrow> bool" where
  "stimulus_phase N ph (Fed e) = (case touch_of N e of Some t \<Rightarrow> te_phase t = ph | None \<Rightarrow> False)"
| "stimulus_phase N ph _ = False"

text \<open>The pointers whose press has not been reported yet.\<close>

definition fresh :: "'f GestureRecognizer \<Rightarrow> nat" where
  "fresh r = tally (\<lambda>(i, s). \<not> long_press_emitted s) (pointers r)"

definition tap_waits :: "'f GestureRecognizer \<Rightarrow> nat" where
  "tap_waits r = (if last_tap r = None then 0 else 1)"

text \<open>What one step adds to the accounts.\<close>

definition accounted :: "'f GestureRecognizer \<Rightarrow> 'f GestureRecognizer \<Rightarrow> 'f RecognizedGesture list \<Rightarrow> nat \<Rightarrow> nat \<Rightarrow> bool" where
  "accounted r r' gs began ended \<longleftrightarrow>
    tally is_press gs + fresh r' \<le> fresh r + began
    \<and> tally is_double gs + tap_waits r' \<le> tap_waits r + tally is_tap gs
    \<and> tally (\<lambda>g. is_tap g \<or> is_double g \<or> is_stroke g) gs \<le> ended"

lemma tally_update: "\<not> P (k, v) \<Longrightarrow> tally P (AList.update k v xs) \<le> tally P xs"
  "tally P (AList.update k v xs) \<le> Suc (tally P xs)"
  by (induction xs) auto

lemma tally_delete: "map_of xs k = Some v \<Longrightarrow> tally P (AList.delete k xs) + (if P (k, v) then 1 else 0) \<le> tally P xs"
proof (induction xs)
  case (Cons x xs)
  have "tally P (AList.delete k xs) \<le> tally P xs" for xs by (induction xs) (auto simp: AList.delete_eq)
  then show ?case using Cons by (cases x) (auto simp: AList.delete_eq split: if_splits)
qed simp

lemma finish_pointer_shape:
  assumes "finish_pointer N s t r = (r', gs)"
  shows "(\<not> long_press_emitted s \<and> last_tap r \<noteq> None \<and> last_tap r' = None \<and> (\<exists>p. gs = [DoubleTap p]))
    \<or> (\<not> long_press_emitted s \<and> last_tap r' \<noteq> None \<and> (\<exists>p n. gs = [Tap p n]))
    \<or> (last_tap r' = last_tap r \<and> (gs = [] \<or> (\<exists>g. gs = [g] \<and> is_stroke g)))"
proof -
  have "release_stroke N s t r = [] \<or> (\<exists>g. release_stroke N s t r = [g] \<and> is_stroke g)"
    by (cases "edge_near N (began_position s) (gr_bounds r) (edge_threshold_px (gr_config r))")
      (simp_all add: release_stroke_def Let_def)
  then show ?thesis using assms by (auto simp: finish_pointer_def Let_def split: if_splits option.splits prod.splits)
qed

lemma stroke_only: "is_stroke g \<Longrightarrow> \<not> is_press g \<and> \<not> is_tap g \<and> \<not> is_double g"
  by (cases g) auto

lemma finish_pointer_accounts:
  assumes "finish_pointer N s t r = (r', gs)"
  shows "tally is_press gs \<le> (if long_press_emitted s then 0 else 1)
    \<and> tally is_double gs + tap_waits r' \<le> tap_waits r + tally is_tap gs \<and> length gs \<le> 1"
  using finish_pointer_shape [OF assms] stroke_only by (elim disjE conjE exE) (auto simp: tap_waits_def)

lemma tally_none: "\<forall>x \<in> set xs. \<not> P x \<Longrightarrow> tally P xs = 0"
  by (simp add: filter_empty_conv)

lemma feed_touch_accounts:
  assumes "feed_touch N ord t r = (r', gs)"
  shows "accounted r r' gs (if te_phase t = TouchBegan then 1 else 0) (if te_phase t = TouchEnded then 1 else 0)"
proof (cases "te_phase t")
  case TouchBegan
  obtain s where "pointers r' = AList.update (pointer_id t) s (pointers r)" "gs = []" "last_tap r' = last_tap r"
    using feed_began [OF TouchBegan assms] by blast
  then show ?thesis using TouchBegan tally_update(2) [of "\<lambda>(i, s). \<not> long_press_emitted s" "pointer_id t" s "pointers r"]
    by (simp add: accounted_def fresh_def tap_waits_def)
next
  case TouchMoved
  have "tally (\<lambda>(i, s). \<not> long_press_emitted s) (AList.map_entry k (\<lambda>s. s\<lparr>last_position := p\<rparr>) xs)
      = tally (\<lambda>(i, s). \<not> long_press_emitted s) xs" for k p and xs :: "(u32 \<times> 'a PointerState) list"
    by (induction xs) auto
  moreover have "\<forall>g \<in> set gs. \<not> is_press g \<and> \<not> is_tap g \<and> \<not> is_double g \<and> \<not> is_stroke g"
    using feed_moved [OF TouchMoved assms] by fastforce
  ultimately show ?thesis using feed_moved [OF TouchMoved assms] TouchMoved
    by (simp add: accounted_def fresh_def tap_waits_def tally_none)
next
  case TouchEnded
  show ?thesis
  proof (cases "map_of (pointers r) (pointer_id t)")
    case None
    then show ?thesis using feed_end_unknown [OF _ None assms] TouchEnded by (simp add: accounted_def fresh_def tap_waits_def)
  next
    case (Some s)
    obtain q where q: "finish_pointer N s t (r\<lparr>pointers := AList.delete (pointer_id t) (pointers r)\<rparr>) = (q, gs)"
      "last_tap r' = last_tap q" "pointers r' = AList.delete (pointer_id t) (pointers r)"
      using feed_ended [OF TouchEnded Some assms] by blast
    have "tally (\<lambda>g. is_tap g \<or> is_double g \<or> is_stroke g) gs \<le> 1"
      using finish_pointer_accounts [OF q(1)] length_filter_le [of _ gs] by (meson le_trans)
    then show ?thesis
      using finish_pointer_accounts [OF q(1)] tally_delete [OF Some, of "\<lambda>(i, s). \<not> long_press_emitted s"] q(2,3) TouchEnded
      by (auto simp: accounted_def fresh_def tap_waits_def split: if_splits)
  qed
next
  case TouchCancelled
  show ?thesis
  proof (cases "map_of (pointers r) (pointer_id t)")
    case None
    then show ?thesis using feed_end_unknown [OF _ None assms] TouchCancelled by (simp add: accounted_def fresh_def tap_waits_def)
  next
    case (Some s)
    then show ?thesis
      using feed_cancelled [OF TouchCancelled Some assms] tally_delete [OF Some, of "\<lambda>(i, s). \<not> long_press_emitted s"] TouchCancelled
      by (auto simp: accounted_def fresh_def tap_waits_def split: if_splits)
  qed
qed

lemma tick_accounts:
  assumes "orders ord" and "tick N ord now r = (r', gs)"
  shows "accounted r r' gs 0 0"
proof -
  let ?H = "\<lambda>(i :: u32, s). held_still N now r s"
  have gs: "gs = map (\<lambda>(i, s). LongPress (began_position s) (long_press_ms (gr_config r))) (filter ?H (ord (pointers r)))"
    and r': "pointers r' = map (\<lambda>(i, s). (i, if held_still N now r s then s\<lparr>long_press_emitted := True\<rparr> else s)) (pointers r)"
    and tap: "last_tap r' = last_tap r"
    using assms(2) by (auto simp: tick_def)
  have "tally ?H (ord (pointers r)) = tally ?H (pointers r)"
    using assms(1) by (metis orders_def mset_filter size_mset)
  moreover have "tally ?H xs + tally (\<lambda>(i, s). \<not> long_press_emitted s)
      (map (\<lambda>(i, s). (i, if held_still N now r s then s\<lparr>long_press_emitted := True\<rparr> else s)) xs)
      = tally (\<lambda>(i, s). \<not> long_press_emitted s) xs" for xs
    by (induction xs) (auto simp: held_still_def comp_def split: if_splits)
  moreover have "tally is_press gs = length gs"
    "tally is_double gs = 0" "tally is_tap gs = 0" "tally (\<lambda>g. is_tap g \<or> is_double g \<or> is_stroke g) gs = 0"
    by (auto simp: gs filter_empty_conv filter_id_conv)
  ultimately show ?thesis using r' tap by (simp add: accounted_def fresh_def tap_waits_def gs)
qed

text \<open>
  C38.  Recognizer state.  The pointers of the recognizer are those that are down, each once, and the base line of a pinch is
  there only while at least two are down.  It may stay with a third one down (\<open>stale_base_line\<close>).
\<close>

theorem recognizer_tracks_pointers:
  assumes "recognised N r fed out"
  shows "set (map fst (pointers r)) = pointers_down N fed \<and> recognizer_ok r"
  using assms
proof (induction rule: recognised.induct)
  case (run_feed r fed out ord e r' gs)
  show ?case
  proof (cases "touch_of N e")
    case None
    then show ?thesis using run_feed by (auto simp: feed_touch_of pointers_down_def)
  next
    case (Some t)
    then have "feed_touch N ord t r = (r', gs)" using run_feed.hyps(3) by (simp add: feed_touch_of)
    moreover have "down_after N D (Fed (TouchInput t)) = down_after N D (Fed e)" for D using Some by simp
    ultimately have "set (map fst (pointers r')) = down_after N (set (map fst (pointers r))) (Fed e) \<and> recognizer_ok r'"
      using feed_touch_keys [of N ord t r r' gs] run_feed.IH by metis
    then show ?thesis using run_feed.IH by (simp add: pointers_down_def del: set_map down_after.simps)
  qed
next
  case (run_tick r fed out ord now r' gs)
  then show ?case using tick_keys [of N ord now r r' gs] by (simp add: pointers_down_def flip: set_map)
qed (auto simp: pointers_down_def recognizer_ok_def recognizer_new_def gesture_reset_def set_config_def set_bounds_def)

text \<open>
  C29.  Accounts.  A press gives one tap, double tap or long press at most, a double tap uses up the tap before it, and a release
  gives one gesture at most, although the comment on \<open>feed\<close> speaks of two.
\<close>

theorem gestures_accounted:
  assumes "recognised N r fed out"
  shows "tally is_press out + fresh r \<le> tally (stimulus_phase N TouchBegan) fed
    \<and> tally is_double out + tap_waits r \<le> tally is_tap out
    \<and> tally (\<lambda>g. is_tap g \<or> is_double g \<or> is_stroke g) out \<le> tally (stimulus_phase N TouchEnded) fed"
  using assms
proof (induction rule: recognised.induct)
  case (run_feed r fed out ord e r' gs)
  show ?case
  proof (cases "touch_of N e")
    case None
    then show ?thesis using run_feed by (auto simp: feed_touch_of)
  next
    case (Some t)
    then have "feed_touch N ord t r = (r', gs)" using run_feed.hyps(3) by (simp add: feed_touch_of)
    then show ?thesis using feed_touch_accounts [of N ord t r r' gs] run_feed.IH Some by (auto simp: accounted_def)
  qed
next
  case (run_tick r fed out ord now r' gs)
  then show ?case using tick_accounts [of ord N now r r' gs] by (auto simp: accounted_def)
qed (auto simp: fresh_def tap_waits_def recognizer_new_def gesture_reset_def set_config_def set_bounds_def)

end
