(* ===== verification/Input_Pen.thy ===== *)
theory Input_Pen
  imports Input_Gesture "HOL-Library.Code_Target_Nat"
begin

text \<open>
  Pens and palms (\<open>src/crates/orchid-core/src/input/pen.rs\<close>): which contacts reach the gesture recognizer, and the tool that a
  pen double tap selects; and the way of a contact through the session, the recognizer and the bindings
  (\<open>orchid-ui/src/window/main_window/\<close>: \<open>mod.rs\<close> and \<open>input.rs\<close>).
\<close>

section \<open>Contacts\<close>

definition DOUBLE_TAP_WINDOW_MS :: nat where "DOUBLE_TAP_WINDOW_MS = 300"

datatype ContactKind = Finger | Pen

datatype PenDoubleTap = PenNone | SwitchTool | Erase

record PenPrefs =
  palm_rejection :: bool
  double_tap_action :: PenDoubleTap

record 'f Contact =
  ct_id :: u32
  ct_kind :: ContactKind
  ct_phase :: TouchPhase
  ct_position :: "'f Point"
  ct_pressure :: 'f
  ct_size :: 'f
  ct_timestamp :: nat

datatype 'f PenEffect = Ignored | Forward "'f TouchEvent" | ToolChanged bool bool

record 'f ActivePen =
  pen_began_at :: nat
  pen_began_pos :: "'f Point"

record 'f PenSession =
  pens :: "(u32 \<times> 'f ActivePen) list"
  rejected :: "u32 set"
  pen_gestures :: bool
  pen_erase :: bool
  last_pen_tap :: "(nat \<times> 'f Point) option"

definition pen_session_new :: "'f PenSession" where
  "pen_session_new = \<lparr>pens = [], rejected = {}, pen_gestures = True, pen_erase = False, last_pen_tap = None\<rparr>"

definition to_touch :: "'f Contact \<Rightarrow> 'f TouchEvent" where
  "to_touch c = \<lparr>pointer_id = ct_id c, te_phase = ct_phase c, te_position = ct_position c, te_pressure = ct_pressure c,
    te_size = ct_size c, te_timestamp = ct_timestamp c\<rparr>"

definition ends :: "TouchPhase \<Rightarrow> bool" where
  "ends ph \<longleftrightarrow> ph = TouchEnded \<or> ph = TouchCancelled"

definition handle_finger :: "'f Contact \<Rightarrow> PenPrefs \<Rightarrow> 'f PenSession \<Rightarrow> 'f PenSession \<times> 'f PenEffect" where
  "handle_finger c prefs s =
    (let palm = (palm_rejection prefs \<and> pens s \<noteq> []);
         s = (if palm \<and> ct_phase c = TouchBegan then s\<lparr>rejected := insert (ct_id c) (rejected s)\<rparr> else s)
     in if ct_id c \<in> rejected s \<or> palm
        then (if ends (ct_phase c) then s\<lparr>rejected := rejected s - {ct_id c}\<rparr>
              else if palm then s\<lparr>rejected := insert (ct_id c) (rejected s)\<rparr> else s, Ignored)
        else (s, Forward (to_touch c)))"

fun apply_double_tap :: "PenDoubleTap \<Rightarrow> 'f PenSession \<Rightarrow> 'f PenSession \<times> 'f PenEffect" where
  "apply_double_tap PenNone s = (s, Ignored)"
| "apply_double_tap SwitchTool s =
    (let s = (if pen_erase s then s\<lparr>pen_erase := False, pen_gestures := True\<rparr> else s\<lparr>pen_gestures := \<not> pen_gestures s\<rparr>)
     in (s, ToolChanged (pen_gestures s) False))"
| "apply_double_tap Erase s =
    (if pen_erase s then (s\<lparr>pen_erase := False, pen_gestures := True\<rparr>, ToolChanged True False)
     else (s\<lparr>pen_erase := True, pen_gestures := False\<rparr>, ToolChanged False True))"

definition pen_double_tap ::
  "'f gest_ops \<Rightarrow> 'f Contact \<Rightarrow> 'f ActivePen option \<Rightarrow> PenPrefs \<Rightarrow> 'f PenSession \<Rightarrow> 'f PenSession \<times> 'f PenEffect option"
where
  "pen_double_tap N c started prefs s =
    (case started of
       None \<Rightarrow> (s, None)
     | Some pen \<Rightarrow>
       let duration = duration_ms (ct_timestamp c) (pen_began_at pen);
           distance = distance_to N (pen_began_pos pen) (ct_position c);
           again = s\<lparr>last_pen_tap := Some (ct_timestamp c, ct_position c)\<rparr>
       in if go_lt N (go_lit N TAP_MAX_MOVEMENT_PX) distance \<or> TAP_MAX_DURATION_MS < duration
          then (s\<lparr>last_pen_tap := None\<rparr>, None)
          else (case last_pen_tap s of
                  Some (ts, p) \<Rightarrow>
                    if ct_timestamp c - ts \<le> millis DOUBLE_TAP_WINDOW_MS
                       \<and> go_le N (distance_to N p (ct_position c)) (go_mul N (go_lit N TAP_MAX_MOVEMENT_PX) (go_lit N 2))
                    then (let (s, e) = apply_double_tap (double_tap_action prefs) (s\<lparr>last_pen_tap := None\<rparr>) in (s, Some e))
                    else (again, None)
                | None \<Rightarrow> (again, None)))"

definition handle_pen :: "'f gest_ops \<Rightarrow> 'f Contact \<Rightarrow> PenPrefs \<Rightarrow> 'f PenSession \<Rightarrow> 'f PenSession \<times> 'f PenEffect" where
  "handle_pen N c prefs s =
    (let pen = \<lparr>pen_began_at = ct_timestamp c, pen_began_pos = ct_position c\<rparr>;
         (s, effect) =
           (case ct_phase c of
              TouchBegan \<Rightarrow> (s\<lparr>pens := AList.update (ct_id c) pen (pens s)\<rparr>, None)
            | TouchMoved \<Rightarrow>
                (if map_of (pens s) (ct_id c) = None then s\<lparr>pens := AList.update (ct_id c) pen (pens s)\<rparr> else s, None)
            | TouchEnded \<Rightarrow>
                pen_double_tap N c (map_of (pens s) (ct_id c)) prefs (s\<lparr>pens := AList.delete (ct_id c) (pens s)\<rparr>)
            | TouchCancelled \<Rightarrow> (s\<lparr>pens := AList.delete (ct_id c) (pens s)\<rparr>, None))
     in case effect of
          Some e \<Rightarrow> (s, e)
        | None \<Rightarrow> (s, if pen_gestures s then Forward (to_touch c) else Ignored))"

definition pen_handle :: "'f gest_ops \<Rightarrow> 'f Contact \<Rightarrow> PenPrefs \<Rightarrow> 'f PenSession \<Rightarrow> 'f PenSession \<times> 'f PenEffect" where
  "pen_handle N c prefs s = (if ct_kind c = Pen then handle_pen N c prefs s else handle_finger c prefs s)"

text \<open>A session over several contacts, each with the preferences of its moment.\<close>

fun pen_run :: "'f gest_ops \<Rightarrow> ('f Contact \<times> PenPrefs) list \<Rightarrow> 'f PenSession \<Rightarrow> 'f PenSession \<times> 'f PenEffect list" where
  "pen_run N [] s = (s, [])"
| "pen_run N ((c, prefs) # cs) s =
    (let (s, e) = pen_handle N c prefs s; (s, es) = pen_run N cs s in (s, e # es))"

lemma pen_run_Cons:
  "pen_run N ((c, prefs) # cs) s =
    (fst (pen_run N cs (fst (pen_handle N c prefs s))),
     snd (pen_handle N c prefs s) # snd (pen_run N cs (fst (pen_handle N c prefs s))))"
  by (simp add: case_prod_beta)

declare pen_run.simps(2) [simp del]

section \<open>From a contact to a command\<close>

text \<open>The window feeds what the session forwards and dispatches the commands of the gestures.\<close>

definition contact_gestures ::
  "'f gest_ops \<Rightarrow> 'f map_order \<Rightarrow> 'f Contact \<Rightarrow> PenPrefs \<Rightarrow> 'f PenSession \<times> 'f GestureRecognizer
    \<Rightarrow> ('f PenSession \<times> 'f GestureRecognizer) \<times> 'f RecognizedGesture list"
where
  "contact_gestures N ord c prefs sr =
    (let (s, r) = sr; (s, effect) = pen_handle N c prefs s
     in case effect of
          Forward t \<Rightarrow> (let (r, gs) = feed N ord (TouchInput t) r in ((s, r), gs))
        | _ \<Rightarrow> ((s, r), []))"

definition gesture_commands ::
  "'f gest_ops \<Rightarrow> InputBindings \<Rightarrow> 'f ScreenBounds \<Rightarrow> 'f RecognizedGesture list \<Rightarrow> ustring list" where
  "gesture_commands N m b gs = List.map_filter (\<lambda>g. resolve_gesture N m g b) gs"

fun contacts_run ::
  "'f gest_ops \<Rightarrow> InputBindings \<Rightarrow> 'f ScreenBounds \<Rightarrow> ('f Contact \<times> PenPrefs) list
    \<Rightarrow> 'f PenSession \<times> 'f GestureRecognizer \<Rightarrow> ('f PenSession \<times> 'f GestureRecognizer) \<times> ustring list"
where
  "contacts_run N m b [] sr = (sr, [])"
| "contacts_run N m b ((c, prefs) # cs) sr =
    (let (sr, gs) = contact_gestures N id c prefs sr; (sr, cmds) = contacts_run N m b cs sr
     in (sr, gesture_commands N m b gs @ cmds))"

section \<open>Palms\<close>

text \<open>Contacts of a finger that end it.\<close>

definition lifts :: "u32 \<Rightarrow> 'f Contact \<Rightarrow> bool" where
  "lifts i c \<longleftrightarrow> ct_kind c = Finger \<and> ct_id c = i \<and> ends (ct_phase c)"

definition of_finger :: "u32 \<Rightarrow> 'f Contact \<Rightarrow> bool" where
  "of_finger i c \<longleftrightarrow> ct_kind c = Finger \<and> ct_id c = i"

lemma apply_double_tap_rejected: "apply_double_tap a s = (s', e) \<Longrightarrow> rejected s' = rejected s"
  by (cases a) (auto simp: Let_def split: if_splits)

lemma handle_pen_rejected: "handle_pen N c prefs s = (s', e) \<Longrightarrow> rejected s' = rejected s"
  by (auto simp: handle_pen_def pen_double_tap_def Let_def dest: apply_double_tap_rejected
    split: if_splits option.splits prod.splits TouchPhase.splits)

lemma rejected_stays:
  assumes "i \<in> rejected s" and "pen_handle N c prefs s = (s', e)" and "\<not> lifts i c"
  shows "i \<in> rejected s'"
  using assms by (cases "ct_kind c")
    (auto simp: pen_handle_def handle_finger_def lifts_def Let_def dest: handle_pen_rejected split: if_splits)

lemma rejected_ignored: "i \<in> rejected s \<Longrightarrow> of_finger i c \<Longrightarrow> snd (pen_handle N c prefs s) = Ignored"
  by (auto simp: pen_handle_def handle_finger_def of_finger_def Let_def)

lemma rejected_run:
  assumes "i \<in> rejected s" and "k < length cs" and "of_finger i (fst (cs ! k))" and "\<forall>j < k. \<not> lifts i (fst (cs ! j))"
  shows "snd (pen_run N cs s) ! k = Ignored"
  using assms
proof (induction cs arbitrary: s k)
  case (Cons cp cs)
  obtain c prefs where cp: "cp = (c, prefs)" by (cases cp)
  obtain s' e where h: "pen_handle N c prefs s = (s', e)" by (cases "pen_handle N c prefs s")
  show ?case
  proof (cases k)
    case 0
    then show ?thesis using Cons.prems rejected_ignored [of i s c N prefs] cp by (simp add: pen_run_Cons)
  next
    case (Suc l)
    have "\<not> lifts i c" using Cons.prems(4) Suc cp by (auto dest: spec [of _ 0])
    then have "i \<in> rejected s'" using rejected_stays [OF Cons.prems(1) h] by blast
    moreover have "\<forall>j < l. \<not> lifts i (fst (cs ! j))" using Cons.prems(4) Suc by (auto dest: spec [of _ "Suc _"])
    ultimately have "snd (pen_run N cs s') ! l = Ignored" using Cons.IH [of s' l] Cons.prems Suc by simp
    then show ?thesis using Suc cp h by (simp add: pen_run_Cons)
  qed
qed simp

text \<open>
  C32.  Palms.  A finger that comes down while a pen is down, with palm rejection on, is ignored until it is lifted, the lift
  included, whatever the other contacts do and whatever happens to the pen and the preferences.
\<close>

theorem palm_ignored:
  assumes "pens s \<noteq> []" and "palm_rejection prefs" and "of_finger i c" and "ct_phase c = TouchBegan"
    and "k < length cs" and "of_finger i (fst (cs ! k))" and "\<forall>j < k. \<not> lifts i (fst (cs ! j))"
  shows "snd (pen_run N ((c, prefs) # cs) s) ! 0 = Ignored \<and> snd (pen_run N ((c, prefs) # cs) s) ! Suc k = Ignored"
proof -
  obtain s' e where h: "pen_handle N c prefs s = (s', e)" by (cases "pen_handle N c prefs s")
  have "e = Ignored" "i \<in> rejected s'"
    using assms(1-4) h by (auto simp: pen_handle_def handle_finger_def of_finger_def ends_def Let_def)
  then show ?thesis using h rejected_run [OF _ assms(5-7), of s' N] by (simp add: pen_run_Cons)
qed

section \<open>Tools\<close>

definition tool_ok :: "'f PenSession \<Rightarrow> bool" where
  "tool_ok s \<longleftrightarrow> (pen_erase s \<longrightarrow> \<not> pen_gestures s)"

text \<open>What the last announced change says of the tool.\<close>

fun tool_after :: "bool \<times> bool \<Rightarrow> 'f PenEffect \<Rightarrow> bool \<times> bool" where
  "tool_after tool (ToolChanged g er) = (g, er)"
| "tool_after tool _ = tool"

lemma apply_double_tap_tool:
  assumes "apply_double_tap a s = (s', e)" and "tool_ok s"
  shows "tool_ok s' \<and> (pen_gestures s', pen_erase s') = tool_after (pen_gestures s, pen_erase s) e"
  using assms by (cases a) (auto simp: tool_ok_def Let_def split: if_splits)

lemma pen_double_tap_tool:
  assumes "pen_double_tap N c started prefs s = (s', e)" and "tool_ok s"
  shows "tool_ok s' \<and> (pen_gestures s', pen_erase s') =
    (case e of Some e \<Rightarrow> tool_after (pen_gestures s, pen_erase s) e | None \<Rightarrow> (pen_gestures s, pen_erase s))"
proof -
  have "tool_ok (s\<lparr>last_pen_tap := None\<rparr>)" using assms(2) by (simp add: tool_ok_def)
  then show ?thesis using assms
    by (auto simp: pen_double_tap_def tool_ok_def Let_def dest: apply_double_tap_tool split: if_splits option.splits prod.splits)
qed

lemma pen_handle_tool:
  assumes "pen_handle N c prefs s = (s', e)" and "tool_ok s"
  shows "tool_ok s' \<and> (pen_gestures s', pen_erase s') = tool_after (pen_gestures s, pen_erase s) e"
proof (cases "ct_kind c = Pen \<and> ct_phase c = TouchEnded")
  case False
  then show ?thesis using assms
    by (cases "ct_kind c"; cases "ct_phase c")
      (auto simp: pen_handle_def handle_pen_def handle_finger_def tool_ok_def Let_def split: if_splits)
next
  case True
  define s0 where "s0 = s\<lparr>pens := AList.delete (ct_id c) (pens s)\<rparr>"
  obtain s1 eff where d: "pen_double_tap N c (map_of (pens s) (ct_id c)) prefs s0 = (s1, eff)" by fastforce
  have ok: "tool_ok s0" and same: "pen_gestures s0 = pen_gestures s" "pen_erase s0 = pen_erase s"
    using assms(2) by (simp_all add: s0_def tool_ok_def)
  have tool: "tool_ok s1" "(pen_gestures s1, pen_erase s1) =
      (case eff of Some e \<Rightarrow> tool_after (pen_gestures s, pen_erase s) e | None \<Rightarrow> (pen_gestures s, pen_erase s))"
    using pen_double_tap_tool [OF d ok] unfolding same by simp_all
  have "s' = s1 \<and> e = (case eff of Some e \<Rightarrow> e | None \<Rightarrow> if pen_gestures s1 then Forward (to_touch c) else Ignored)"
    using assms(1) True d by (auto simp: pen_handle_def handle_pen_def s0_def Let_def split: option.splits)
  then show ?thesis using tool by (auto split: option.splits)
qed

text \<open>
  Pen tool.  Whatever the contacts and the preferences, the announced changes tell the tool, and the pen never erases and
  drives gestures at once.
\<close>

theorem announced_tool_is_tool:
  assumes "pen_run N cs pen_session_new = (s, es)"
  shows "(pen_gestures s, pen_erase s) = foldl tool_after (True, False) es \<and> (pen_erase s \<longrightarrow> \<not> pen_gestures s)"
proof -
  have "tool_ok s \<and> (pen_gestures s, pen_erase s) = foldl tool_after (pen_gestures s0, pen_erase s0) es"
    if "pen_run N cs s0 = (s, es)" and "tool_ok s0" for s0 :: "'a PenSession"
    using that
  proof (induction cs arbitrary: s0 es)
    case (Cons cp cs)
    obtain c prefs where cp: "cp = (c, prefs)" by (cases cp)
    obtain s1 e where h: "pen_handle N c prefs s0 = (s1, e)" by (cases "pen_handle N c prefs s0")
    obtain es' where es: "es = e # es'" "pen_run N cs s1 = (s, es')"
      using Cons.prems(1) cp h by (auto simp: pen_run_Cons prod_eq_iff)
    show ?case using Cons.IH [OF es(2)] pen_handle_tool [OF h Cons.prems(2)] es(1) by simp
  qed simp
  from this [OF assms] show ?thesis by (simp add: tool_ok_def pen_session_new_def)
qed

section \<open>Commands\<close>

text \<open>The bindings for the left hand are those for the right hand in a mirror.\<close>

fun mirror_edge :: "Edge \<Rightarrow> Edge" where
  "mirror_edge EdgeLeft = EdgeRight" | "mirror_edge EdgeRight = EdgeLeft" | "mirror_edge e = e"

fun mirror_gesture :: "'f RecognizedGesture \<Rightarrow> 'f RecognizedGesture" where
  "mirror_gesture (EdgeSwipe e d n) = EdgeSwipe (mirror_edge e) d n"
| "mirror_gesture g = g"

theorem mirrored_bindings:
  "resolve_gesture N (default_bindings_mirrored True) g b = resolve_gesture N default_bindings (mirror_gesture g) b"
proof (cases g)
  case (EdgeSwipe e d n)
  then show ?thesis by (cases e) (simp_all add: default_bindings_def default_bindings_mirrored_def resolve_gesture_def)
qed (simp_all add: default_bindings_def default_bindings_mirrored_def resolve_gesture_def)

definition finger_down :: "u32 \<Rightarrow> TouchPhase \<Rightarrow> 'f Contact \<Rightarrow> bool" where
  "finger_down i ph c \<longleftrightarrow> ct_kind c = Finger \<and> ct_id c = i \<and> ct_phase c = ph"

lemma finger_forwarded:
  "pens s = [] \<Longrightarrow> i \<notin> rejected s \<Longrightarrow> finger_down i ph c \<Longrightarrow>
    contact_gestures N ord c prefs (s, r) = (let (r, gs) = feed_touch N ord (to_touch c) r in ((s, r), gs))"
  by (auto simp: contact_gestures_def pen_handle_def handle_finger_def finger_down_def Let_def case_prod_beta)

definition pressed_once :: "u32 \<Rightarrow> nat \<Rightarrow> 'f Point \<Rightarrow> 'f GestureRecognizer \<Rightarrow> 'f GestureRecognizer \<Rightarrow> bool" where
  "pressed_once i at0 p r0 r \<longleftrightarrow> gr_config r = gr_config r0 \<and> gr_bounds r = gr_bounds r0
    \<and> (\<exists>q. pointers r = [(i, \<lparr>began_at = at0, began_position = p, last_position = q, long_press_emitted = False\<rparr>)])"

lemma press_alone:
  assumes "pens s = []" and "i \<notin> rejected s" and "finger_down i TouchBegan c" and "pointers r = []"
  shows "\<exists>r'. contact_gestures N ord c prefs (s, r) = ((s, r'), []) \<and> pressed_once i (ct_timestamp c) (ct_position c) r r'"
  using assms finger_forwarded [OF assms(1-3), of N ord prefs r]
  by (auto simp: feed_touch_def to_touch_def finger_down_def pressed_once_def Let_def)

lemma moves_alone:
  assumes "pens s = []" and "i \<notin> rejected s" and "\<forall>(c, prefs) \<in> set cs. finger_down i TouchMoved c" and "pressed_once i at0 p r0 r"
  shows "\<exists>r'. contacts_run N m b cs (s, r) = ((s, r'), []) \<and> pressed_once i at0 p r0 r'"
  using assms(3,4)
proof (induction cs arbitrary: r)
  case (Cons cp cs)
  obtain c prefs where cp: "cp = (c, prefs)" by (cases cp)
  then have c: "finger_down i TouchMoved c" using Cons.prems(1) by simp
  obtain r1 where r1: "contact_gestures N id c prefs (s, r) = ((s, r1), [])" "pressed_once i at0 p r0 r1"
    using Cons.prems(2) c finger_forwarded [OF assms(1,2) c, of N id prefs r]
    by (auto simp: feed_touch_def to_touch_def finger_down_def pressed_once_def Let_def)
  obtain r2 where "contacts_run N m b cs (s, r1) = ((s, r2), [])" "pressed_once i at0 p r0 r2"
    using Cons.IH [OF _ r1(2)] Cons.prems(1) by auto
  then show ?case using cp r1(1) by (simp add: gesture_commands_def map_filter_simps)
qed simp

lemma contacts_run_append:
  "contacts_run N m b (cs @ ds) sr =
    (let (sr, cmds) = contacts_run N m b cs sr; (sr, cmds') = contacts_run N m b ds sr in (sr, cmds @ cmds'))"
proof (induction cs arbitrary: sr)
  case (Cons cp cs)
  then show ?case by (cases cp) (simp add: Let_def case_prod_beta)
qed simp

text \<open>
  C35.  Edge swipes.  When no pointer and no pen is down, a finger that comes down near the left edge, moves in any way and is
  lifted further in, far enough, dispatches the command of the left edge, and nothing else.
\<close>

theorem edge_swipe_opens_panel:
  assumes "pens s = []" and "i \<notin> rejected s" and "pointers r = []"
    and "finger_down i TouchBegan c" and "\<forall>(d, prefs) \<in> set moves. finger_down i TouchMoved d" and "finger_down i TouchEnded e"
    and "go_le N (px (ct_position c)) (edge_threshold_px (gr_config r))"
    and "go_le N (edge_threshold_px (gr_config r)) (go_max N (go_sub N (px (ct_position e)) (px (ct_position c))) (go_lit N 0))"
    and "go_le N (swipe_min_distance_px (gr_config r)) (distance_to N (ct_position c) (ct_position e))"
    and "\<not> go_le N (distance_to N (ct_position c) (ct_position e)) (go_lit N TAP_MAX_MOVEMENT_PX)"
  shows "snd (contacts_run N (default_bindings_mirrored swap) b ((c, p1) # moves @ [(e, p2)]) (s, r)) =
    [if swap then lit ''notification.show_center'' else lit ''navigation.show_workspace_panel'']"
proof -
  obtain r1 where r1: "contact_gestures N id c p1 (s, r) = ((s, r1), [])" "pressed_once i (ct_timestamp c) (ct_position c) r r1"
    using press_alone [OF assms(1,2,4,3)] by blast
  obtain r2 where r2: "contacts_run N (default_bindings_mirrored swap) b moves (s, r1) = ((s, r2), [])"
    "pressed_once i (ct_timestamp c) (ct_position c) r r2"
    using moves_alone [OF assms(1,2,5) r1(2)] by blast
  have "snd (contact_gestures N id e p2 (s, r2)) = [EdgeSwipe EdgeLeft (distance_to N (ct_position c) (ct_position e)) 1]"
    using r2(2) assms(6-10) finger_forwarded [OF assms(1,2,6), of N id p2 r2]
    by (auto simp: feed_touch_def to_touch_def finger_down_def pressed_once_def finish_pointer_def release_stroke_def
      edge_near_def Let_def)
  then show ?thesis using r1(1) r2(1)
    by (simp add: contacts_run_append gesture_commands_def map_filter_simps default_bindings_mirrored_def resolve_gesture_def
      case_prod_beta)
qed

section \<open>Samples\<close>

text \<open>Rational numbers, with a root that is exact for the distances 0 and 100 of the samples.\<close>

definition rat_gest :: "rat gest_ops" where
  "rat_gest = \<lparr>go_lit = \<lambda>x. x, go_add = (+), go_sub = (-), go_mul = (*), go_div = (/), go_abs = abs, go_max = max,
    go_sqrt = \<lambda>x. x / 100, go_atan2 = \<lambda>y x. if \<bar>x\<bar> \<le> \<bar>y\<bar> then 1 else 0, go_le = (\<le>), go_lt = (<)\<rparr>"

definition sample_bounds :: "rat ScreenBounds" where
  "sample_bounds = \<lparr>sb_width = 1920, sb_height = 1080\<rparr>"

definition sample_recognizer :: "rat GestureRecognizer" where
  "sample_recognizer = recognizer_new (gesture_defaults rat_gest) sample_bounds"

definition sample_contact :: "u32 \<Rightarrow> ContactKind \<Rightarrow> TouchPhase \<Rightarrow> rat \<Rightarrow> rat \<Rightarrow> nat \<Rightarrow> rat Contact \<times> PenPrefs" where
  "sample_contact i kind ph x y ms =
    (\<lparr>ct_id = i, ct_kind = kind, ct_phase = ph, ct_position = \<lparr>px = x, py = y\<rparr>, ct_pressure = 1, ct_size = 1,
      ct_timestamp = millis ms\<rparr>, \<lparr>palm_rejection = True, double_tap_action = PenNone\<rparr>)"

definition sample_commands :: "(rat Contact \<times> PenPrefs) list \<Rightarrow> ustring list" where
  "sample_commands cs = snd (contacts_run rat_gest default_bindings sample_bounds cs (pen_session_new, sample_recognizer))"

definition sample_edge_swipe :: "nat \<Rightarrow> (rat Contact \<times> PenPrefs) list" where
  "sample_edge_swipe ms = [sample_contact 9 Finger TouchBegan 10 500 ms, sample_contact 9 Finger TouchMoved 60 500 (ms + 100),
    sample_contact 9 Finger TouchEnded 110 500 (ms + 200)]"

lemma swipe_alone: "sample_commands (sample_edge_swipe 0) = [lit ''navigation.show_workspace_panel'']"
  by code_simp

text \<open>A pen double tap keeps its last release from the recognizer, which then counts a pointer too many for ever.\<close>

lemma double_tap_leaves_pointer:
  "sample_commands ([sample_contact 5 Pen TouchBegan 400 400 0, sample_contact 5 Pen TouchEnded 400 400 50,
      sample_contact 6 Pen TouchBegan 400 400 100, sample_contact 6 Pen TouchEnded 400 400 150] @ sample_edge_swipe 5000) = []"
  by code_simp

text \<open>So does a finger that was down before the pen and is lifted while the pen is down.\<close>

lemma palm_leaves_pointer:
  "sample_commands ([sample_contact 5 Finger TouchBegan 400 400 0, sample_contact 6 Pen TouchBegan 700 400 100,
      sample_contact 5 Finger TouchEnded 400 400 200, sample_contact 6 Pen TouchEnded 700 400 900] @ sample_edge_swipe 5000) = []"
  by code_simp

text \<open>Four fingers that move up also give the gesture of three fingers, when one of them is lifted.\<close>

lemma four_fingers_are_three:
  "sample_commands ([sample_contact i Finger TouchBegan (400 + 100 * rat_of_int (uint i)) 800 0. i \<leftarrow> [0, 1, 2, 3]]
      @ [sample_contact i Finger TouchEnded (400 + 100 * rat_of_int (uint i)) 600 200. i \<leftarrow> [0, 1, 2, 3]]) = [lit ''widget.show_all'']"
  by code_simp

text \<open>
  The base line of two fingers outlives a third finger: when one of the two is lifted, the others are measured against it.
  After a fourth finger there is no base line, and the last two fingers never pinch.
\<close>

definition sample_touch :: "u32 \<Rightarrow> TouchPhase \<Rightarrow> rat \<Rightarrow> rat \<Rightarrow> nat \<Rightarrow> rat InputEvent" where
  "sample_touch i ph x y ms = TouchInput (to_touch (fst (sample_contact i Finger ph x y ms)))"

definition sample_feed :: "rat InputEvent list \<Rightarrow> rat GestureRecognizer \<times> rat RecognizedGesture list" where
  "sample_feed es = foldl (\<lambda>(r, out) e. let (r, gs) = feed rat_gest id e r in (r, out @ gs)) (sample_recognizer, []) es"

lemma stale_base_line:
  "snd (sample_feed [sample_touch 1 TouchBegan 300 300 0, sample_touch 2 TouchBegan 400 300 10, sample_touch 3 TouchBegan 300 500 20,
      sample_touch 2 TouchCancelled 400 300 30, sample_touch 3 TouchMoved 300 500 40]) = [Pinch \<lparr>px = 300, py = 400\<rparr> 4]"
  "pair_baseline (fst (sample_feed [sample_touch 1 TouchBegan 300 300 0, sample_touch 2 TouchBegan 400 300 10,
      sample_touch 3 TouchBegan 300 500 20, sample_touch 4 TouchBegan 400 500 30,
      sample_touch 3 TouchCancelled 300 500 40, sample_touch 4 TouchCancelled 400 500 50])) = None"
  by code_simp+

text \<open>No gesture of two fingers that tap has a command.\<close>

lemma two_finger_tap_unbound: "resolve_gesture N default_bindings (Tap p n) b = None"
  by (simp add: resolve_gesture_def default_bindings_def default_bindings_mirrored_def)

section \<open>Witnesses\<close>

lemma orders_id: "orders id"
  by (simp add: orders_def)

lemma sample_run:
  "recognised rat_gest (fst (sample_feed es)) (map Fed es) (snd (sample_feed es))"
proof (induction es rule: rev_induct)
  case Nil
  show ?case by (simp add: sample_feed_def sample_recognizer_def run_start)
next
  case (snoc e es)
  obtain r out where s: "sample_feed es = (r, out)" by (cases "sample_feed es")
  obtain r' gs where f: "feed rat_gest id e r = (r', gs)" by (cases "feed rat_gest id e r")
  have "sample_feed (es @ [e]) = (r', out @ gs)" using s f by (simp add: sample_feed_def)
  then show ?case using run_feed [OF _ orders_id f, of "map Fed es" out] snoc s by simp
qed

definition sample_tap :: "rat InputEvent list" where
  "sample_tap = [sample_touch 7 TouchBegan 300 300 0, sample_touch 7 TouchEnded 300 300 100, sample_touch 8 TouchBegan 300 300 150]"

lemma single_list: "distinct xs \<Longrightarrow> set xs = {a} \<Longrightarrow> xs = [a]"
  by (cases xs; cases "tl xs") auto

theorem recognizer_tracks_pointers_witness: "map fst (pointers (fst (sample_feed sample_tap))) = [8]"
proof -
  have "pointers_down rat_gest (map Fed sample_tap) = {8}" by code_simp
  then have "set (map fst (pointers (fst (sample_feed sample_tap)))) = {8} \<and> recognizer_ok (fst (sample_feed sample_tap))"
    using recognizer_tracks_pointers [OF sample_run, of sample_tap] by simp
  then have "set (map fst (pointers (fst (sample_feed sample_tap)))) = {8}"
    and "distinct (map fst (pointers (fst (sample_feed sample_tap))))" by (auto simp: recognizer_ok_def)
  then show ?thesis by (metis single_list)
qed

theorem gestures_accounted_witness:
  "tally is_press (snd (sample_feed sample_tap)) + fresh (fst (sample_feed sample_tap)) \<le> 2
    \<and> tally (\<lambda>g. is_tap g \<or> is_double g \<or> is_stroke g) (snd (sample_feed sample_tap)) \<le> 1"
proof -
  have "tally (stimulus_phase rat_gest TouchBegan) (map Fed sample_tap) = 2"
    "tally (stimulus_phase rat_gest TouchEnded) (map Fed sample_tap) = 1" by code_simp+
  then show ?thesis using gestures_accounted [OF sample_run, of sample_tap] by simp
qed

theorem palm_ignored_witness:
  "snd (pen_run rat_gest [sample_contact 2 Finger TouchBegan 300 300 10, sample_contact 1 Pen TouchEnded 500 500 800,
      sample_contact 2 Finger TouchEnded 300 300 900] (fst (pen_run rat_gest [sample_contact 1 Pen TouchBegan 500 500 0] pen_session_new)))
    ! 2 = Ignored"
proof -
  let ?s = "fst (pen_run rat_gest [sample_contact 1 Pen TouchBegan 500 500 0] pen_session_new)"
  let ?c = "sample_contact 2 Finger TouchBegan 300 300 10"
  let ?cs = "[sample_contact 1 Pen TouchEnded 500 500 800, sample_contact 2 Finger TouchEnded 300 300 900]"
  have "pens ?s \<noteq> []" "palm_rejection (snd ?c)" "of_finger 2 (fst ?c)" "ct_phase (fst ?c) = TouchBegan"
    by (simp_all add: pen_run_Cons pen_handle_def handle_pen_def sample_contact_def of_finger_def Let_def pen_session_new_def)
  moreover have "1 < length ?cs" "of_finger 2 (fst (?cs ! 1))" "\<forall>j < 1. \<not> lifts 2 (fst (?cs ! j))"
    by (simp_all add: sample_contact_def of_finger_def lifts_def)
  ultimately show ?thesis using palm_ignored [of ?s "snd ?c" 2 "fst ?c" 1 ?cs rat_gest] by (simp add: numeral_2_eq_2)
qed

definition sample_pen_taps :: "(rat Contact \<times> PenPrefs) list" where
  "sample_pen_taps = map (\<lambda>(c, prefs). (c, prefs\<lparr>double_tap_action := Erase\<rparr>))
    [sample_contact 1 Pen TouchBegan 500 500 0, sample_contact 1 Pen TouchEnded 500 500 50,
     sample_contact 1 Pen TouchBegan 500 500 100, sample_contact 1 Pen TouchEnded 500 500 150]"

theorem announced_tool_is_tool_witness:
  "pen_erase (fst (pen_run rat_gest sample_pen_taps pen_session_new)) \<and> \<not> pen_gestures (fst (pen_run rat_gest sample_pen_taps pen_session_new))"
proof -
  have "foldl tool_after (True, False) (snd (pen_run rat_gest sample_pen_taps pen_session_new)) = (False, True)" by code_simp
  then show ?thesis
    using announced_tool_is_tool [of rat_gest sample_pen_taps "fst (pen_run rat_gest sample_pen_taps pen_session_new)"
        "snd (pen_run rat_gest sample_pen_taps pen_session_new)"] by simp
qed

theorem edge_swipe_opens_panel_witness:
  "snd (contacts_run rat_gest (default_bindings_mirrored True) sample_bounds (sample_edge_swipe 0) (pen_session_new, sample_recognizer))
    = [lit ''notification.show_center'']"
proof -
  let ?c = "fst (sample_contact 9 Finger TouchBegan 10 500 0)" and ?p = "snd (sample_contact 9 Finger TouchBegan 10 500 0)"
  let ?e = "fst (sample_contact 9 Finger TouchEnded 110 500 200)" and ?m = "[sample_contact 9 Finger TouchMoved 60 500 100]"
  have a: "sample_edge_swipe 0 = (?c, ?p) # ?m @ [(?e, ?p)]" by (simp add: sample_edge_swipe_def sample_contact_def)
  have "pens pen_session_new = []" "9 \<notin> rejected pen_session_new" "pointers sample_recognizer = []"
    "finger_down 9 TouchBegan ?c" "\<forall>(d, prefs) \<in> set ?m. finger_down 9 TouchMoved d" "finger_down 9 TouchEnded ?e"
    by (simp_all add: pen_session_new_def sample_recognizer_def recognizer_new_def finger_down_def sample_contact_def)
  moreover have "go_le rat_gest (px (ct_position ?c)) (edge_threshold_px (gr_config sample_recognizer))"
    "go_le rat_gest (edge_threshold_px (gr_config sample_recognizer))
      (go_max rat_gest (go_sub rat_gest (px (ct_position ?e)) (px (ct_position ?c))) (go_lit rat_gest 0))"
    "go_le rat_gest (swipe_min_distance_px (gr_config sample_recognizer)) (distance_to rat_gest (ct_position ?c) (ct_position ?e))"
    "\<not> go_le rat_gest (distance_to rat_gest (ct_position ?c) (ct_position ?e)) (go_lit rat_gest TAP_MAX_MOVEMENT_PX)"
    by code_simp+
  ultimately show ?thesis
    using edge_swipe_opens_panel [of pen_session_new 9 sample_recognizer ?c ?m ?e rat_gest True sample_bounds ?p ?p] a by simp
qed

end
