(* ===== verification/Spec2Isabelle.thy ===== *)
theory Spec2Isabelle
  imports Play_Queue Crdt_Wire Terminal_Panes Command Widget_Group Fs_Path Job_Queue Document_Wf Calc_Ref Text_Viewer
    Action_Dispatch Calculator_Eval File_Selection File_Compare Mail_Thread Terminal_Input
    Calc_Grammar Calc_Strings_Laws Input_Pen
begin

text \<open>
  \<^bold>\<open>A verification library for Orchid\<close>

  Orchid is a desktop workspace written in Rust: a canvas of widgets, a terminal, a file manager, viewers and editors
  for documents, a container format for notes, and the state database behind them.  Its crates are under
  \<open>src/crates\<close>.  This library models the logic that the program itself owns and leaves the rest (windows, network,
  codecs, databases) as parameters with the laws the code relies on.

  \<^bold>\<open>Parts and theories\<close>

  Shared vocabulary.  \<open>Orchid_Prelude\<close>: machine integers, saturating arithmetic, vector operations, little-endian
  fields.  \<open>Unicode_Text\<close> and \<open>Utf8\<close>: strings as code points and as bytes.  \<open>Ordered_Map\<close>: \<open>BTreeMap\<close> with its
  interface \<open>ordered_map\<close>.

  The \<open>.orchid\<close> container (\<open>orchid-format\<close>).  \<open>Framing\<close> has the fixed blocks (\<open>framing.rs\<close>); \<open>Crdt_Rga\<close> the text CRDT
  (\<open>crdt/rga.rs\<close>): operations, clocks, merge and the walk that materialises the text; \<open>Crdt_Wire\<close> its binary encoding
  (\<open>crdt/wire.rs\<close>).  Replicas with the same operations show the same text whatever the order of the merges; merge is a
  semilattice; a local edit is the splice it asks for; decoding inverts encoding, refuses every truncation and yields
  only replicas that editing could have made.

  Commands and events (\<open>orchid-core\<close>).  \<open>Shortcut\<close> (\<open>command/shortcut.rs\<close>, \<open>profile.rs\<close>), \<open>Command\<close> (\<open>registry.rs\<close>,
  \<open>parser.rs\<close>, \<open>descriptor.rs\<close>), \<open>Job_Queue\<close> (\<open>job/mod.rs\<close>: interval jobs, and the single-flight gate as a step relation
  between its lock sections), \<open>Event_Bus\<close> (\<open>event/\<close>: subscriptions, delivery order, bounded queues, shutdown) and
  \<open>Action_Dispatch\<close> (\<open>action/\<close>: the dispatcher with its middlewares and the history recorder).  Printing and parsing
  agree; a keyed request runs at most once at a time, and none is lost as long as no leader is dropped; an event visits
  exactly the matching subscriptions by priority and age; queues and buffers stay within their bounds; middlewares bracket
  the action, and the first refusal of one keeps it from running.
  \<open>Input_Gesture\<close> (\<open>input/gesture.rs\<close>, \<open>event.rs\<close>, \<open>zone.rs\<close>, \<open>mapper.rs\<close>) has the gesture recognizer as a step relation: it
  knows exactly the pointers that are down, and accounts for every press and release.  \<open>Input_Pen\<close> (\<open>input/pen.rs\<close>) has the
  palm and pen filter before it, and the way of a contact to a command.

  State database (\<open>orchid-storage\<close>).  \<open>State_Store\<close> has the history and its index (\<open>state/database.rs\<close>), \<open>State_Rows\<close>
  the other tables, the cache and the schema migrations (\<open>state/types.rs\<close>, \<open>migrations.rs\<close>).  The index agrees with the
  table; eviction is exact; opening an older database upgrades its rows field by field, once and for all.  \<open>Action_Dispatch\<close> composes
  both: what the dispatcher runs is what the history lists after a flush.

  Terminal (\<open>orchid-terminal\<close>).  \<open>Terminal_Layout\<close> (\<open>layout/\<close>): tabs, the split tree, focus and the geometry of a
  snapshot; focus always names a pane.  \<open>Float32\<close> has the finite numbers of \<open>f32\<close> with their rounding, and \<open>Terminal_Panes\<close>
  shows that in this arithmetic the panes tile the tab.  \<open>Terminal_Input\<close> (\<open>input/\<close>): keys, mouse reports and
  pasted texts as bytes; a reader of the sequences gets the key and its modifiers back, and a paste cannot end early.

  Widgets (\<open>orchid-widgets\<close>).  \<open>Play_Queue\<close> (\<open>builtin/audio_player/queue.rs\<close>), \<open>Widget_Layout\<close> (\<open>layout/\<close>) and
  \<open>Widget_Group\<close> (\<open>group/mod.rs\<close>): the queue keeps its permutation and plays every track of a shuffle once, a placed
  widget overlaps nothing, the group manager and its two indexes agree.  \<open>Calculator\<close> and \<open>Calculator_Eval\<close>
  (\<open>builtin/calculator/engine.rs\<close>): every key of the calculator, with the theorem that typing an expression shows
  its value by the usual precedence, where no two operations wait below a third, and what goes wrong where they do.  \<open>File_Selection\<close> (\<open>builtin/file_manager/selection.rs\<close>): marquees, extending arrows and masks.

  Files and mail.  \<open>Fs_Path\<close> (\<open>orchid-fs\<close>: \<open>path.rs\<close>); \<open>File_Compare\<close> (\<open>operations/compare.rs\<close>, the copy decision of
  \<open>copy.rs\<close>, and the copies that \<open>provider/rclone.rs\<close> takes over): what each mode of synchronisation leaves on both sides,
  however the streams cut the files.  \<open>Mail_Thread\<close> (\<open>orchid-mail\<close>: \<open>thread.rs\<close>):
  conversations and quoted search texts.

  Editors and spreadsheet (\<open>orchid-viewers\<close>).  \<open>Document_Model\<close>, \<open>Document_Cursor\<close>, \<open>Document_Edit\<close>, \<open>Document_Undo\<close>
  and \<open>Document_Wf\<close> (\<open>document/model.rs\<close>, \<open>cursor.rs\<close>, \<open>undo.rs\<close>): every edit command with its inverse, the undo stack as
  a refinement of a timeline of documents for edits that can be undone, and the documents on which typing can.  \<open>Text_Rope\<close>,
  \<open>Text_Buffer\<close> and \<open>Text_Viewer\<close> (\<open>text/buffer.rs\<close>, \<open>undo.rs\<close>, \<open>mod.rs\<close>): loading and saving, edits by line and column,
  merged typing, and the reports to the incremental parser.  \<open>Calc_Date\<close> and \<open>Calc_Text\<close> (\<open>office/calc.rs\<close>): dates and
  serials, working days, number bases, wildcards and delimiters.  \<open>Calc_Ref\<close>, of the same file: column names, references and
  their shift in shared formulas, block bounds and the spill of an array into its cells.  \<open>Calc_Formula\<close>: the
  recursive-descent evaluator of formulas, total by a measure of the unvisited formulas, the names and the rest of the text;
  \<open>Calc_Grammar\<close>: evaluating the printed text of an expression tree gives the value of the tree, and circular references among such trees have
  no value.  \<open>Calc_Strings\<close> and \<open>Calc_Strings_Laws\<close> (with \<open>office/xml.rs\<close>): text, criterion and whole-number functions.

  \<^bold>\<open>How the code is read\<close>

  A struct is a record, an enum a datatype, a \<open>Result\<close> a sum with the error on the left.  State is passed explicitly; an
  operation that mutates and fails returns the state with the error.  A panic of the program is an error value (\<open>Panic\<close>,
  or an index error) where it can happen.  Integers are words where they wrap (hashes, counters, the shuffle, the framing
  fields, the sequence numbers of the bus) and naturals where the code saturates or cannot reach the limit; \<open>u16\<close> grid
  coordinates are naturals with the saturating operations of the prelude.  Ratios of the terminal are a type parameter
  with its operations (\<open>f32_arith\<close>, with \<open>binary32\<close> as the code's instance), and so are the numbers of the calculator (\<open>float_ops\<close>), of the gestures (\<open>gest_ops\<close>)
  and of the formula evaluator (\<open>calc_ops\<close>, which also holds the functions the evaluator does not implement itself); widget coordinates are the bits of their
  \<open>f32\<close>, spreadsheet numbers rationals or not finite.  Strings
  are code points, except in the document editor, where cursors are byte offsets and texts are their bytes.  Concurrent
  maps are association lists or functions; an iteration order that the code leaves open is an argument or a quantified
  permutation.  Concurrency is a step relation where tasks interleave (\<open>Job_Queue\<close>, \<open>Event_Bus\<close>), and one step per
  operation elsewhere.

  Clocks, fresh identifiers, random seeds and whether a write succeeds (\<open>io_ok\<close>, \<open>write_ok\<close>) are arguments.  Parameters
  with laws: the hash of the CRDT, the rope (\<open>rope_contract\<close>) and the character encodings of the text buffer, the tables
  of the database (\<open>redb_table\<close>), its serialisation.  Every locale is interpreted on a definition of the library: the
  list of code points is a rope, the sorted list is a table.

  \<^bold>\<open>Loops and fuel\<close>

  Most loops are structural or have a measure.  The walk of the CRDT recurses at most as deep as there are operations.
  The growth of the widget grid has a cap of 1024 rounds in the code; 513 are enough to reach the largest grid.  The
  working-day loop of the spreadsheet has the code's own guard of 20000 days.  The migration loop is a
  \<open>partial_function\<close>, with the theorem that it always returns.  A blocking push of the event bus recurses on the sleeps
  before its deadline.

  \<^bold>\<open>What is not modelled\<close>

  Rendering and windows (\<open>orchid-ui\<close>); processes, pseudo-terminals and the emulator;
  mail servers and browsing; archives, cloud and file watching; text extraction, search index, neural models; encryption and the
  compressed regions of a container.  These rest on third-party code or on floating-point heuristics.  Of \<open>office/calc.rs\<close>
  only the functions above are modelled; the statistical, financial and lookup functions of
  formulas, table references, reading and writing of the sheets, search in the text editor, the table
  toolbar of the document editor, configuration and managed policy are left out.
  Opening, backing up and compacting the database file, and the timers of interval jobs, are outside the models.
\<close>

end
